(* ===== verification/Prelude.thy ===== *)
theory Prelude
  imports Main "HOL-Library.Word"
begin

text \<open>
  Shared vocabulary of the development: the names of the machine types, the
  exceptions of the library as values of one \<open>error\<close> type, the sequencing of
  fallible code, and the generic facts on byte buffers and machine words that
  the component theories use.
\<close>

unbundle bit_operations_syntax

section \<open>Machine types\<close>

type_synonym u8 = "8 word"
type_synonym u16 = "16 word"
type_synonym u32 = "32 word"
type_synonym u64 = "64 word"

text \<open>
  A signed C++ integer is the word of its two's complement representation and is
  read with \<^const>\<open>sint\<close>.
\<close>

type_synonym s8 = "8 word"
type_synonym s16 = "16 word"
type_synonym s32 = "32 word"
type_synonym s64 = "64 word"

type_synonym bytes = "u8 list"

section \<open>Errors and sequencing\<close>

text \<open>
  One constructor per exception class the modelled sources throw.
  The last two are not thrown by the sources. \<open>MemFault\<close> is the value of a model that
  reads or writes outside the memory the source's pointers refer to, and
  \<open>UndefinedBehaviour\<close> that of a division by zero or a signed overflow: there C++
  leaves the behaviour undefined. A theorem that a call returns \<open>Inr\<close> therefore also
  says that the call stays inside its memory and its arithmetic is defined.
\<close>

datatype error =
    OutOfBoundsException
  | IOException
  | TypeOverflowException
  | AllocationException
  | UnimplementedFunctionException
  | UnsupportedFeatureException
  | StdOutOfRange
  | StdOverflowError
  | StdLengthError
  | StdDomainError
  | CorruptDataException
  | UndefinedBehaviour
  | MemFault

type_synonym 'a res = "error + 'a"

definition bindE :: "'a res \<Rightarrow> ('a \<Rightarrow> 'b res) \<Rightarrow> 'b res" where
  "bindE m f = (case m of Inl e \<Rightarrow> Inl e | Inr x \<Rightarrow> f x)"

definition guardE :: "bool \<Rightarrow> error \<Rightarrow> unit res" where
  "guardE b e = (if b then Inr () else Inl e)"

lemma bindE_simps [simp]:
  "bindE (Inl e) f = Inl e"
  "bindE (Inr x) f = f x"
  by (simp_all add: bindE_def)

lemma bindE_eq_Inr_iff: "bindE m f = Inr y \<longleftrightarrow> (\<exists>x. m = Inr x \<and> f x = Inr y)"
  by (cases m) simp_all

lemma bindE_assoc: "bindE (bindE m f) g = bindE m (\<lambda>x. bindE (f x) g)"
  by (cases m) simp_all

lemma bindE_InrE [elim!]:
  assumes "bindE m f = Inr y"
  obtains x where "m = Inr x" "f x = Inr y"
  using assms by (auto simp: bindE_eq_Inr_iff)

lemma guardE_simps [simp]:
  "guardE b e = Inr () \<longleftrightarrow> b"
  "guardE True e = Inr ()"
  "guardE False e = Inl e"
  by (simp_all add: guardE_def)

section \<open>Slices of byte buffers\<close>

text \<open>
  \<open>chunk off n xs\<close> is what \<open>memcpy(dest, xs + off, n)\<close> reads and \<open>blit off ys xs\<close> is
  \<open>xs\<close> after \<open>memcpy(xs + off, ys, |ys|)\<close>.
\<close>

definition chunk :: "nat \<Rightarrow> nat \<Rightarrow> 'a list \<Rightarrow> 'a list" where
  "chunk off n xs = take n (drop off xs)"

definition blit :: "nat \<Rightarrow> 'a list \<Rightarrow> 'a list \<Rightarrow> 'a list" where
  "blit off ys xs = take off xs @ ys @ drop (off + length ys) xs"

named_theorems buf_simps \<open>lengths and contents of slices and overwritten buffers\<close>

lemma length_chunk [buf_simps]: "off + n \<le> length xs \<Longrightarrow> length (chunk off n xs) = n"
  by (simp add: chunk_def)

lemma nth_chunk [buf_simps]:
  "off + n \<le> length xs \<Longrightarrow> i < n \<Longrightarrow> chunk off n xs ! i = xs ! (off + i)"
  by (simp add: chunk_def)

lemma chunk_0 [simp]: "chunk off 0 xs = []"
  by (simp add: chunk_def)

lemma length_blit [buf_simps]: "off + length ys \<le> length xs \<Longrightarrow> length (blit off ys xs) = length xs"
  by (simp add: blit_def)

lemma blit_Nil [simp]: "blit off [] xs = xs"
  by (simp add: blit_def)

lemma nth_blit [buf_simps]:
  assumes "off + length ys \<le> length xs" "i < length xs"
  shows "blit off ys xs ! i = (if off \<le> i \<and> i < off + length ys then ys ! (i - off) else xs ! i)"
  using assms by (auto simp: blit_def nth_append min_def)

lemma chunk_blit_same [buf_simps]:
  "off + length ys \<le> length xs \<Longrightarrow> chunk off (length ys) (blit off ys xs) = ys"
  by (simp add: chunk_def blit_def)

lemma chunk_blit_disjoint [buf_simps]:
  assumes "off + length ys \<le> length xs" "i + n \<le> length xs"
    and "i + n \<le> off \<or> off + length ys \<le> i"
  shows "chunk i n (blit off ys xs) = chunk i n xs"
proof (rule nth_equalityI)
  show "length (chunk i n (blit off ys xs)) = length (chunk i n xs)"
    using assms by (simp add: buf_simps)
next
  fix k assume "k < length (chunk i n (blit off ys xs))"
  then have "k < n" using assms by (simp add: buf_simps)
  then show "chunk i n (blit off ys xs) ! k = chunk i n xs ! k"
    using assms by (auto simp: buf_simps)
qed

lemma chunk_append1: "off + n \<le> length xs \<Longrightarrow> chunk off n (xs @ ys) = chunk off n xs"
  by (simp add: chunk_def)

lemma chunk_chunk: "i + n \<le> m \<Longrightarrow> chunk i n (chunk off m xs) = chunk (off + i) n xs"
  by (simp add: chunk_def drop_take min_def add.commute)

lemma chunk_split: "chunk off (n + m) xs = chunk off n xs @ chunk (off + n) m xs"
  by (simp only: chunk_def take_add drop_drop add.commute [of n off])

lemma chunk_whole [simp]: "chunk 0 (length xs) xs = xs"
  by (simp add: chunk_def)

section \<open>Machine words\<close>

lemma word_eq_from_bits:
  fixes x y :: "'a::len word"
  shows "(\<And>n. n < LENGTH('a) \<Longrightarrow> bit x n = bit y n) \<Longrightarrow> x = y"
  by (rule bit_word_eqI)

lemma unat_add_nowrap:
  fixes x y :: "'a::len word"
  shows "unat x + unat y < 2 ^ LENGTH('a) \<Longrightarrow> unat (x + y) = unat x + unat y"
  by (simp add: unat_word_ariths)

lemma unat_drop_bit: "unat (drop_bit n (x :: 'a::len word)) = unat x div 2 ^ n"
  unfolding unat_drop_bit_eq by (rule drop_bit_eq_div)

lemma unat_bound: "unat (x :: 'a::len word) < 2 ^ LENGTH('a)"
  by simp

lemma word_eq_unatI: "unat x = unat y \<Longrightarrow> x = y" for x y :: "'a::len word"
  by (simp add: word_unat_eq_iff)

lemma of_nat_eqI: "unat x = n \<Longrightarrow> x = of_nat n" for x :: "'a::len word"
  by auto

lemma unat_of_nat_small: "n < 2 ^ LENGTH('a) \<Longrightarrow> unat (of_nat n :: 'a::len word) = n"
  by (simp add: unat_of_nat)

lemma unat_ucast_up:
  fixes w :: "'a::len word"
  assumes "LENGTH('a) \<le> LENGTH('b::len)"
  shows "unat (ucast w :: 'b word) = unat w"
proof -
  have "unat w < 2 ^ LENGTH('b)"
    by (rule less_le_trans [OF unat_bound]) (use assms in simp)
  then show ?thesis by (simp add: unsigned_ucast_eq take_bit_nat_eq_self_iff)
qed

lemma uint_less_unat:
  fixes x :: "'a::len word"
  assumes "unat x < 2 ^ k"
  shows "uint x < 2 ^ k"
proof -
  have "int (unat x) < int (2 ^ k)" using assms by (simp only: of_nat_less_iff)
  then show ?thesis by simp
qed

lemma unat_bound64: "unat (x :: u64) < 18446744073709551616"
  using unsigned_less [of x] by simp

lemma word_step: "i < s \<Longrightarrow> unat s - unat (i + 1) < unat s - unat i" for i s :: u64
proof -
  assume "i < s"
  then have "unat i < unat s" by (simp add: word_less_nat_alt)
  moreover have "unat (i + 1) = unat i + 1" using \<open>unat i < unat s\<close> unat_bound64 [of s] by (subst unat_add_nowrap) simp_all
  ultimately show ?thesis by simp
qed

lemma drop_bit_nonzero_less:
  fixes s :: "'a::len word"
  assumes "drop_bit n s \<noteq> 0" "0 < n"
  shows "unat (drop_bit n s) < unat s"
proof -
  have "s \<noteq> 0" using assms(1) by auto
  then have "0 < unat s" by (simp add: unat_gt_0)
  moreover have "1 < (2::nat) ^ n" using one_less_power [of "2::nat" n] assms(2) by simp
  ultimately have "unat s div 2 ^ n < unat s" by (intro div_less_dividend)
  then show ?thesis by (simp only: unat_drop_bit)
qed

end
