(* ===== verification/PackUnpack.thy ===== *)
theory PackUnpack
  imports Prelude
begin

text \<open>
  The encodings of \<open>include/sserialize/storage/pack_unpack_functions.h\<close> and
  \<open>src/storage/pack_unpack_functions.cpp\<close>: fixed width little-endian integers,
  sign-magnitude integers of 24 and 40 bits, and variable length integers.

  A pack function writes through a pointer; its model returns the bytes it stores,
  in address order. An unpack function reads through a pointer; its model takes the
  bytes from that address on. A template over an unsigned type is a function that is
  polymorphic in the word length.
\<close>

section \<open>Fixed width integers\<close>

text \<open>
  The memory image of an unsigned integer after \<open>htole*\<close>, least significant byte
  first, and the integer with a given image.
\<close>

definition le_bytes :: "nat \<Rightarrow> 'a::len word \<Rightarrow> bytes" where
  "le_bytes n w = map (\<lambda>i. ucast (drop_bit (8 * i) w)) [0..<n]"

fun le_word :: "bytes \<Rightarrow> 'a::len word" where
  "le_word [] = 0"
| "le_word (b # bs) = ucast b OR push_bit 8 (le_word bs)"

definition up_u8 :: "bytes \<Rightarrow> u8" where
  "up_u8 src = hd src"

definition up_u16 :: "bytes \<Rightarrow> u16" where
  "up_u16 src = le_word (take 2 src)"

definition up_u32 :: "bytes \<Rightarrow> u32" where
  "up_u32 src = le_word (take 4 src)"

definition up_u64 :: "bytes \<Rightarrow> u64" where
  "up_u64 src = le_word (take 8 src)"

definition up_u24 :: "bytes \<Rightarrow> u32" where
  "up_u24 src = le_word (take 3 src)"

definition up_u40 :: "bytes \<Rightarrow> u64" where
  "up_u40 src = le_word (take 5 src)"

definition up_s8 :: "bytes \<Rightarrow> s8" where
  "up_s8 src = hd src"

definition up_s16 :: "bytes \<Rightarrow> s16" where
  "up_s16 src = up_u16 src"

definition up_s24 :: "bytes \<Rightarrow> s32" where
  "up_s24 src =
     (let tmp = up_u24 src
      in if tmp AND 1 \<noteq> 0 then - drop_bit 1 tmp else drop_bit 1 tmp)"

definition up_s32 :: "bytes \<Rightarrow> s32" where
  "up_s32 src = up_u32 src"

definition up_s40 :: "bytes \<Rightarrow> s64" where
  "up_s40 src =
     (let tmp = up_u40 src
      in if tmp AND 1 \<noteq> 0 then - drop_bit 1 tmp else drop_bit 1 tmp)"

definition up_s64 :: "bytes \<Rightarrow> s64" where
  "up_s64 src = up_u64 src"

definition p_u8 :: "u8 \<Rightarrow> bytes" where
  "p_u8 src = [src]"

definition p_u16 :: "u16 \<Rightarrow> bytes" where
  "p_u16 src = le_bytes 2 src"

definition p_u32 :: "u32 \<Rightarrow> bytes" where
  "p_u32 src = le_bytes 4 src"

definition p_u64 :: "u64 \<Rightarrow> bytes" where
  "p_u64 src = le_bytes 8 src"

definition p_u24 :: "u32 \<Rightarrow> bytes" where
  "p_u24 src = take 3 (p_u32 src)"

definition p_u40 :: "u64 \<Rightarrow> bytes" where
  "p_u40 src = take 5 (p_u64 src)"

definition p_s8 :: "s8 \<Rightarrow> bytes" where
  "p_s8 src = [src]"

definition p_s16 :: "s16 \<Rightarrow> bytes" where
  "p_s16 src = p_u16 src"

text \<open>
  Negating a signed integer: the most negative value has no negation in its type, so there
  the expression \<open>-s\<close> is undefined behaviour.
\<close>

definition neg_signed :: "'a::len word \<Rightarrow> 'a word res" where
  "neg_signed s = (if sint s = - (2 ^ (LENGTH('a) - 1)) then Inl UndefinedBehaviour else Inr (- s))"

text \<open>The sign goes into bit 0, the magnitude above it.\<close>

definition sign_magnitude :: "'a::len word \<Rightarrow> 'a word res" where
  "sign_magnitude s =
     (if sint s < 0 then bindE (neg_signed s) (\<lambda>m. Inr (push_bit 1 m OR 1)) else Inr (push_bit 1 s))"

definition p_s24 :: "s32 \<Rightarrow> bytes res" where
  "p_s24 src = bindE (sign_magnitude src) (\<lambda>tmp. Inr (p_u24 tmp))"

definition p_s32 :: "s32 \<Rightarrow> bytes" where
  "p_s32 s = p_u32 s"

definition p_s40 :: "s64 \<Rightarrow> bytes res" where
  "p_s40 s = bindE (sign_magnitude s) (\<lambda>tmp. Inr (p_u40 tmp))"

definition p_s64 :: "s64 \<Rightarrow> bytes" where
  "p_s64 s = p_u64 s"

subsection \<open>The interface of a fixed width code\<close>

text \<open>
  What the callers of a pack/unpack pair rely on: the pair stores and reads exactly
  \<open>width\<close> bytes, and reading back gives the value for every value the code can
  represent. Clients of the pair are proved from these laws only.
\<close>

locale fixed_code =
  fixes pack :: "'v \<Rightarrow> bytes" and unpack :: "bytes \<Rightarrow> 'v"
    and width :: nat and dom :: "'v \<Rightarrow> bool"
  assumes width_pos: "0 < width"
    and length_pack: "length (pack v) = width"
    and unpack_pack: "dom v \<Longrightarrow> unpack (pack v) = v"
    and unpack_take: "width \<le> length bs \<Longrightarrow> unpack (take width bs) = unpack bs"
begin

lemma unpack_append: "dom v \<Longrightarrow> unpack (pack v @ rest) = v"
  using unpack_take [of "pack v @ rest"] unpack_pack [of v] length_pack [of v] by simp

lemma unpack_at:
  assumes "dom v" "off + width \<le> length buf"
  shows "unpack (drop off (blit off (pack v) buf)) = v"
proof -
  have "drop off (blit off (pack v) buf) = pack v @ drop (off + width) buf"
    using assms length_pack [of v] by (simp add: blit_def)
  then show ?thesis using assms by (simp add: unpack_append)
qed

lemma unpack_chunk:
  assumes "off + width \<le> length buf"
  shows "unpack (chunk off width buf) = unpack (drop off buf)"
  using assms by (simp add: chunk_def unpack_take)

lemma unpack_frame:
  assumes "off + length ys \<le> length buf" "i + width \<le> length buf"
    and "i + width \<le> off \<or> off + length ys \<le> i"
  shows "unpack (drop i (blit off ys buf)) = unpack (drop i buf)"
proof -
  have len: "length (blit off ys buf) = length buf" using assms(1) by (simp add: buf_simps)
  have "unpack (drop i (blit off ys buf)) = unpack (chunk i width (blit off ys buf))"
    by (rule unpack_chunk [symmetric]) (use assms len in simp)
  also have "chunk i width (blit off ys buf) = chunk i width buf"
    using assms by (intro chunk_blit_disjoint) auto
  also have "unpack \<dots> = unpack (drop i buf)"
    using assms by (intro unpack_chunk) auto
  finally show ?thesis .
qed

lemma unpack_in_chunk:
  assumes "off + n \<le> length buf" "i + width \<le> n"
  shows "unpack (drop i (chunk off n buf)) = unpack (drop (off + i) buf)"
proof -
  have "unpack (drop i (chunk off n buf)) = unpack (chunk i width (chunk off n buf))"
    using assms by (intro unpack_chunk [symmetric]) (simp add: length_chunk)
  also have "\<dots> = unpack (drop (off + i) buf)"
    using assms by (simp add: chunk_chunk unpack_chunk)
  finally show ?thesis .
qed

lemma pack_inj: "dom v \<Longrightarrow> dom w \<Longrightarrow> pack v = pack w \<Longrightarrow> v = w"
  by (metis unpack_pack)

end

lemma length_le_bytes [simp]: "length (le_bytes n w) = n"
  by (simp add: le_bytes_def)

lemma take_le_bytes: "m \<le> n \<Longrightarrow> take m (le_bytes n w) = le_bytes m w"
  by (simp add: le_bytes_def take_map)

lemma le_bytes_Suc: "le_bytes (Suc n) w = ucast w # le_bytes n (drop_bit 8 w)"
  by (rule nth_equalityI) (auto simp: le_bytes_def nth_Cons drop_bit_drop_bit add.commute simp del: upt_Suc split: nat.splits)

lemma le_word_le_bytes: "le_word (le_bytes n w) = (take_bit (8 * n) w :: 'a::len word)"
proof (induction n arbitrary: w)
  case 0
  then show ?case by (simp add: le_bytes_def)
next
  case (Suc n)
  have "ucast (ucast w :: u8) OR push_bit 8 (take_bit (8 * n) (drop_bit 8 w)) = take_bit (8 * Suc n) w"
    by (rule bit_word_eqI) (auto simp: bit_simps not_less)
  with Suc show ?case by (simp add: le_bytes_Suc)
qed


text \<open>The sign-magnitude mapping of the 24 and 40 bit and of the variable length codes.\<close>

definition sm_enc :: "'a::len word \<Rightarrow> 'a word" where
  "sm_enc s = (if sint s < 0 then push_bit 1 (- s) OR 1 else push_bit 1 s)"

definition sm_dec :: "'a::len word \<Rightarrow> 'a word" where
  "sm_dec t = (if t AND 1 \<noteq> 0 then - drop_bit 1 t else drop_bit 1 t)"

lemma sign_magnitude_eq:
  "sign_magnitude (s :: 'a::len word) =
     (if sint s = - (2 ^ (LENGTH('a) - 1)) then Inl UndefinedBehaviour else Inr (sm_enc s))"
  by (simp add: sign_magnitude_def neg_signed_def sm_enc_def)

lemma and_one_nonzero: "w AND 1 \<noteq> 0 \<longleftrightarrow> bit w 0" for w :: "'a::len word"
  by (simp add: and_one_eq bit_0 mod_2_eq_odd)

lemma drop_push_1:
  fixes s :: "'a::len word"
  assumes "\<not> bit s (LENGTH('a) - 1)"
  shows "drop_bit 1 (push_bit 1 s) = s"
proof (rule bit_word_eqI)
  fix n assume n: "n < LENGTH('a)"
  have "bit (drop_bit 1 (push_bit 1 s)) n \<longleftrightarrow> 1 + n < LENGTH('a) \<and> bit s n"
    by (simp only: bit_drop_bit_eq bit_push_bit_iff comp_def) auto
  with assms n show "bit (drop_bit 1 (push_bit 1 s)) n = bit s n"
    by (cases "n = LENGTH('a) - 1") auto
qed

lemma drop_bit_or_1: "drop_bit 1 (w OR 1) = drop_bit 1 w" for w :: "'a::len word"
  by (rule bit_word_eqI) (auto simp: bit_drop_bit_eq bit_or_iff bit_1_iff)

lemma not_bit_0_push_1: "\<not> bit (push_bit 1 w) 0" for w :: "'a::len word"
  unfolding bit_push_bit_iff by simp

lemma sint_neg_iff_msb: "sint (s :: 'a::len word) < 0 \<longleftrightarrow> bit s (LENGTH('a) - 1)"
  by (simp add: bit_last_iff)

text \<open>
  Sign-magnitude encoding loses nothing but the most negative value, whose negation
  does not exist.
\<close>

lemma sint_minus_pos:
  fixes s :: "'a::len word"
  assumes "sint s < 0" "sint s \<noteq> - (2 ^ (LENGTH('a) - 1))"
  shows "sint (- s) = - sint s"
proof -
  have "- (2 ^ (LENGTH('a) - 1)) < sint s" using sint_ge [of s] assms(2) by linarith
  then have "signed_take_bit (LENGTH('a) - 1) (- sint s) = - sint s"
    using assms(1) by (intro signed_take_bit_int_eq_self) auto
  then show ?thesis by (simp add: sint_word_minus)
qed

lemma sm_dec_enc:
  fixes s :: "'a::len word"
  assumes "sint s \<noteq> - (2 ^ (LENGTH('a) - 1))"
  shows "sm_dec (sm_enc s) = s"
proof (cases "sint s < 0")
  case True
  then have "\<not> sint (- s) < 0" using sint_minus_pos [OF True assms] by simp
  then have "drop_bit 1 (push_bit 1 (- s)) = - s"
    by (intro drop_push_1) (simp add: sint_neg_iff_msb)
  with True show ?thesis
    by (simp add: sm_dec_def sm_enc_def and_one_nonzero bit_or_iff drop_bit_or_1 del: drop_bit_push_bit)
next
  case False
  then have "drop_bit 1 (push_bit 1 s) = s"
    by (intro drop_push_1) (simp add: sint_neg_iff_msb)
  with False not_bit_0_push_1 [of s] show ?thesis
    by (simp add: sm_dec_def sm_enc_def and_one_nonzero)
qed

lemma take_bit_push_1:
  fixes x :: "'a::len word"
  assumes "take_bit k x = x"
  shows "take_bit (Suc k) (push_bit 1 x) = push_bit 1 x"
    and "take_bit (Suc k) (push_bit 1 x OR 1) = push_bit 1 x OR 1"
proof -
  have "bit x n \<Longrightarrow> n < k" for n using assms by (metis bit_take_bit_iff)
  then have *: "bit (push_bit 1 x) n \<Longrightarrow> n < Suc k" for n
    unfolding bit_push_bit_iff by (cases n) auto
  show "take_bit (Suc k) (push_bit 1 x) = push_bit 1 x"
    by (rule bit_word_eqI) (use * in \<open>auto simp only: bit_take_bit_iff\<close>)
  show "take_bit (Suc k) (push_bit 1 x OR 1) = push_bit 1 x OR 1"
    by (rule bit_word_eqI) (use * in \<open>auto simp only: bit_take_bit_iff bit_or_iff bit_1_iff\<close>)
qed

lemma take_bit_small_word:
  fixes x :: "'a::len word"
  assumes "uint x < 2 ^ k"
  shows "take_bit k x = x"
proof (rule word_uint_eqI)
  show "uint (take_bit k x) = uint x"
    using assms by (simp add: unsigned_take_bit_eq take_bit_int_eq_self_iff)
qed

lemma uint_eq_sint:
  fixes s :: "'a::len word"
  assumes "0 \<le> sint s"
  shows "uint s = sint s"
proof -
  have "sint s < 2 ^ LENGTH('a)"
    by (rule less_le_trans [OF sint_lt]) (rule power_increasing, simp_all)
  then show ?thesis using assms by (simp add: uint_sint take_bit_int_eq_self)
qed

lemma sm_enc_small:
  fixes s :: "'a::len word"
  assumes "\<bar>sint s\<bar> < 2 ^ k" "k < LENGTH('a)"
  shows "take_bit (Suc k) (sm_enc s) = sm_enc s"
proof -
  have le: "(2::int) ^ k \<le> 2 ^ (LENGTH('a) - 1)" using assms(2) by (intro power_increasing) auto
  have "uint (if sint s < 0 then - s else s) < 2 ^ k"
  proof (cases "sint s < 0")
    case True
    then have "sint (- s) = - sint s" using assms le by (intro sint_minus_pos) auto
    then have "uint (- s) = - sint s" using True uint_eq_sint [of "- s"] by simp
    then show ?thesis using True assms by simp
  next
    case False
    then have "uint s = sint s" using uint_eq_sint [of s] by simp
    then show ?thesis using False assms by simp
  qed
  then have *: "take_bit k (if sint s < 0 then - s else s) = (if sint s < 0 then - s else s)"
    by (rule take_bit_small_word)
  show ?thesis
  proof (cases "sint s < 0")
    case True
    then show ?thesis using * take_bit_push_1(2) [of k "- s"] by (simp only: sm_enc_def if_True)
  next
    case False
    then show ?thesis using * take_bit_push_1(1) [of k s] by (simp only: sm_enc_def if_False)
  qed
qed


subsection \<open>The fixed width codes are codes\<close>

lemma take_bit_length_word: "take_bit n (w :: 'a::len word) = w" if "LENGTH('a) \<le> n"
  using that by (intro take_bit_word_eq_self)

interpretation c_u8: fixed_code p_u8 up_u8 1 "\<lambda>_. True"
  by unfold_locales (simp_all add: p_u8_def up_u8_def)

interpretation c_u16: fixed_code p_u16 up_u16 2 "\<lambda>_. True"
  by unfold_locales (simp_all add: p_u16_def up_u16_def le_word_le_bytes take_le_bytes take_bit_length_word)

interpretation c_u32: fixed_code p_u32 up_u32 4 "\<lambda>_. True"
  by unfold_locales (simp_all add: p_u32_def up_u32_def le_word_le_bytes take_le_bytes take_bit_length_word)

interpretation c_u64: fixed_code p_u64 up_u64 8 "\<lambda>_. True"
  by unfold_locales (simp_all add: p_u64_def up_u64_def le_word_le_bytes take_le_bytes take_bit_length_word)

interpretation c_u24: fixed_code p_u24 up_u24 3 "\<lambda>w. take_bit 24 w = w"
  by unfold_locales
    (simp_all add: p_u24_def p_u32_def up_u24_def le_word_le_bytes take_le_bytes)

interpretation c_u40: fixed_code p_u40 up_u40 5 "\<lambda>w. take_bit 40 w = w"
  by unfold_locales
    (simp_all add: p_u40_def p_u64_def up_u40_def le_word_le_bytes take_le_bytes)

interpretation c_s8: fixed_code p_s8 up_s8 1 "\<lambda>_. True"
  by unfold_locales (simp_all add: p_s8_def up_s8_def)

interpretation c_s16: fixed_code p_s16 up_s16 2 "\<lambda>_. True"
  unfolding p_s16_def [abs_def] up_s16_def [abs_def] by unfold_locales

interpretation c_s32: fixed_code p_s32 up_s32 4 "\<lambda>_. True"
  unfolding p_s32_def [abs_def] up_s32_def [abs_def] by unfold_locales

interpretation c_s64: fixed_code p_s64 up_s64 8 "\<lambda>_. True"
  unfolding p_s64_def [abs_def] up_s64_def [abs_def] by unfold_locales

lemma p_s24_sm: "p_s24 s = (if sint s = - (2 ^ 31) then Inl UndefinedBehaviour else Inr (p_u24 (sm_enc s)))"
  by (simp add: p_s24_def sign_magnitude_eq)

lemma p_s40_sm: "p_s40 s = (if sint s = - (2 ^ 63) then Inl UndefinedBehaviour else Inr (p_u40 (sm_enc s)))"
  by (simp add: p_s40_def sign_magnitude_eq)

lemma up_s24_sm: "up_s24 bs = sm_dec (up_u24 bs)"
  by (simp add: up_s24_def sm_dec_def)

lemma up_s40_sm: "up_s40 bs = sm_dec (up_u40 bs)"
  by (simp add: up_s40_def sm_dec_def)

interpretation c_s24: fixed_code "\<lambda>s. p_u24 (sm_enc s)" up_s24 3 "\<lambda>s. \<bar>sint s\<bar> < 2 ^ 23"
proof unfold_locales
  show "up_s24 (p_u24 (sm_enc v)) = v" if "\<bar>sint v\<bar> < 2 ^ 23" for v
  proof -
    have "take_bit 24 (sm_enc v) = sm_enc v" using sm_enc_small [of v 23] that by simp
    then show ?thesis using that by (simp add: up_s24_sm c_u24.unpack_pack sm_dec_enc)
  qed
qed (simp_all add: up_s24_sm c_u24.length_pack c_u24.unpack_take)

interpretation c_s40: fixed_code "\<lambda>s. p_u40 (sm_enc s)" up_s40 5 "\<lambda>s. \<bar>sint s\<bar> < 2 ^ 39"
proof unfold_locales
  show "up_s40 (p_u40 (sm_enc v)) = v" if "\<bar>sint v\<bar> < 2 ^ 39" for v
  proof -
    have "take_bit 40 (sm_enc v) = sm_enc v" using sm_enc_small [of v 39] that by simp
    then show ?thesis using that by (simp add: up_s40_sm c_u40.unpack_pack sm_dec_enc)
  qed
qed (simp_all add: up_s40_sm c_u40.length_pack c_u40.unpack_take)


section \<open>Variable length integers\<close>

text \<open>
  The buffer of a pack function is given by its capacity \<open>std::distance(d, e)\<close>; the
  result is the bytes stored from \<open>d\<close> on and the returned \<open>int\<close>, which is negative
  when the buffer is too small.
\<close>

definition max_vl_len :: "'a::len itself \<Rightarrow> nat" where
  "max_vl_len _ = LENGTH('a) div 7 + (if 0 < LENGTH('a) mod 7 then 1 else 0)"

text \<open>The loop of the generic \<open>p_v\<close> with the check \<open>e <= d\<close> before every store.\<close>

function p_v_checked :: "'a::len word \<Rightarrow> nat \<Rightarrow> nat \<Rightarrow> bytes \<times> int" where
  "p_v_checked s room i =
     (if room = 0 then ([], - int i)
      else let d = ucast (s AND 0x7F); s' = drop_bit 7 s
           in if s' \<noteq> 0
              then let (ds, r) = p_v_checked s' (room - 1) (i + 1) in ((d OR 0x80) # ds, r)
              else ([d], int (i + 1)))"
  by pat_completeness auto
termination
  by (relation "measure (\<lambda>(s, room, i). room)") auto

function p_v_unchecked :: "'a::len word \<Rightarrow> nat \<Rightarrow> bytes \<times> int" where
  "p_v_unchecked s i =
     (let d = ucast (s AND 0x7F); s' = drop_bit 7 s
      in if s' \<noteq> 0
         then let (ds, r) = p_v_unchecked s' (i + 1) in ((d OR 0x80) # ds, r)
         else ([d], int (i + 1)))"
  by pat_completeness auto
termination
  by (relation "measure (\<lambda>(s, i). unat s)") (auto intro: drop_bit_nonzero_less)

declare p_v_checked.simps [simp del] p_v_unchecked.simps [simp del]

definition p_v :: "'a::len word \<Rightarrow> nat \<Rightarrow> bytes \<times> int" where
  "p_v s room =
     (if room < max_vl_len TYPE('a) then p_v_checked s room 0 else p_v_unchecked s 0)"

text \<open>The specialisations for 32 and 64 bit, one branch per number of bytes.\<close>

definition p_v_u32 :: "u32 \<Rightarrow> nat \<Rightarrow> bytes \<times> int" where
  "p_v_u32 s room =
     (if room \<ge> 5 then
        if drop_bit (1*7) s = 0 then ([ucast s], 1)
        else if drop_bit (2*7) s = 0 then ([ucast (s OR 0x80), ucast (drop_bit 7 s)], 2)
        else if drop_bit (3*7) s = 0 then
          ([ucast (s OR 0x80), ucast (drop_bit 7 s OR 0x80), ucast (drop_bit 14 s)], 3)
        else if drop_bit (4*7) s = 0 then
          ([ucast (s OR 0x80), ucast (drop_bit 7 s OR 0x80), ucast (drop_bit 14 s OR 0x80),
            ucast (drop_bit 21 s)], 4)
        else
          ([ucast (s OR 0x80), ucast (drop_bit 7 s OR 0x80), ucast (drop_bit 14 s OR 0x80),
            ucast (drop_bit 21 s OR 0x80), ucast (drop_bit 28 s)], 5)
      else
        if drop_bit (1*7) s = 0 then
          (if room < 1 then ([], -1) else ([ucast s], 1))
        else if drop_bit (2*7) s = 0 then
          (if room < 2 then ([], -2) else ([ucast (s OR 0x80), ucast (drop_bit 7 s)], 2))
        else if drop_bit (3*7) s = 0 then
          (if room < 3 then ([], -3)
           else ([ucast (s OR 0x80), ucast (drop_bit 7 s OR 0x80), ucast (drop_bit 14 s)], 3))
        else if drop_bit (4*7) s = 0 then
          (if room < 4 then ([], -4)
           else ([ucast (s OR 0x80), ucast (drop_bit 7 s OR 0x80), ucast (drop_bit 14 s OR 0x80),
                  ucast (drop_bit 21 s)], 4))
        else
          (if room < 5 then ([], -5)
           else ([ucast (s OR 0x80), ucast (drop_bit 7 s OR 0x80), ucast (drop_bit 14 s OR 0x80),
                  ucast (drop_bit 21 s OR 0x80), ucast (drop_bit 28 s)], 5)))"

text \<open>
  The 64 bit specialisation decides the number of bytes by a tree of comparisons; the
  bytes of each leaf are \<open>s >> 7*k\<close>, all but the last with the continuation bit.
\<close>

definition vl_image :: "u64 \<Rightarrow> nat \<Rightarrow> bytes" where
  "vl_image s n =
     map (\<lambda>k. ucast (drop_bit (7 * k) s OR 0x80)) [0..<n - 1] @ [ucast (drop_bit (7 * (n - 1)) s)]"

definition vl_tree :: "u64 \<Rightarrow> nat" where
  "vl_tree s =
     (if drop_bit (4*7) s = 0 then
        if drop_bit (2*7) s = 0 then
          if drop_bit 7 s = 0 then 1 else 2
        else
          if drop_bit (3*7) s = 0 then 3 else 4
      else
        if drop_bit (6*7) s = 0 then
          if drop_bit (5*7) s = 0 then 5 else 6
        else
          if drop_bit (8*7) s = 0 then
            if drop_bit (7*7) s = 0 then 7 else 8
          else
            if drop_bit (9*7) s = 0 then 9 else 10)"

definition p_v_u64 :: "u64 \<Rightarrow> nat \<Rightarrow> bytes \<times> int" where
  "p_v_u64 s room =
     (let n = vl_tree s
      in if room \<ge> 10 then (vl_image s n, int n)
         else if room < n then ([], - int n) else (vl_image s n, int n))"

definition p_v_signed32 :: "s32 \<Rightarrow> nat \<Rightarrow> (bytes \<times> int) res" where
  "p_v_signed32 s room = bindE (sign_magnitude s) (\<lambda>tmp. Inr (p_v_u32 tmp room))"

definition p_v_signed64 :: "s64 \<Rightarrow> nat \<Rightarrow> (bytes \<times> int) res" where
  "p_v_signed64 s room = bindE (sign_magnitude s) (\<lambda>tmp. Inr (p_v_u64 tmp room))"

text \<open>
  \<open>p_vu32\<close> is declared to return \<open>uint32_t\<close>, so a negative length is converted to an
  unsigned number. Its callers store the result in an \<open>int\<close> again.
\<close>

definition p_vu32 :: "u32 \<Rightarrow> nat \<Rightarrow> bytes \<times> u32" where
  "p_vu32 s room = (case p_v_u32 s room of (bs, len) \<Rightarrow> (bs, word_of_int len))"

definition p_vu32_int :: "u32 \<Rightarrow> nat \<Rightarrow> bytes \<times> int" where
  "p_vu32_int s room = (case p_vu32 s room of (bs, len) \<Rightarrow> (bs, sint len))"

definition p_vu64 :: "u64 \<Rightarrow> nat \<Rightarrow> bytes \<times> int" where
  "p_vu64 s room = p_v_u64 s room"

definition p_vs32 :: "s32 \<Rightarrow> nat \<Rightarrow> (bytes \<times> int) res" where
  "p_vs32 s room = p_v_signed32 s room"

definition p_vs64 :: "s64 \<Rightarrow> nat \<Rightarrow> (bytes \<times> int) res" where
  "p_vs64 s room = p_v_signed64 s room"

text \<open>Four bytes always, the last one without the continuation bit.\<close>

fun p_vu32pad4_loop :: "nat \<Rightarrow> u32 \<Rightarrow> bytes" where
  "p_vu32pad4_loop 0 s = []"
| "p_vu32pad4_loop (Suc n) s = ucast ((s AND 0x7F) OR 0x80) # p_vu32pad4_loop n (drop_bit 7 s)"

definition p_vu32pad4 :: "u32 \<Rightarrow> bytes \<times> int" where
  "p_vu32pad4 s = (let d = p_vu32pad4_loop 4 s in (d[3 := d ! 3 AND 0x7F], 4))"

definition p_vs32pad4 :: "s32 \<Rightarrow> (bytes \<times> int) res" where
  "p_vs32pad4 s = bindE (sign_magnitude s) (\<lambda>tmp. Inr (p_vu32pad4 tmp))"

text \<open>
  Reading. The loop with the check \<open>e <= s\<close> and the loop without it; the latter
  faults in the model when it reads past the buffer.
\<close>

fun up_v_checked :: "bytes \<Rightarrow> nat \<Rightarrow> nat \<Rightarrow> 'a::len word \<Rightarrow> 'a word \<times> int" where
  "up_v_checked [] len shift ret = (ret, - int len)"
| "up_v_checked (b # s) len shift ret =
     (let ret' = ret OR push_bit shift (ucast (b AND 0x7F))
      in if len + 1 < max_vl_len TYPE('a) \<and> b AND 0x80 \<noteq> 0
         then up_v_checked s (len + 1) (shift + 7) ret'
         else (ret', int (len + 1)))"

fun up_v_unchecked :: "bytes \<Rightarrow> nat \<Rightarrow> nat \<Rightarrow> 'a::len word \<Rightarrow> ('a word \<times> int) res" where
  "up_v_unchecked [] len shift ret = Inl MemFault"
| "up_v_unchecked (b # s) len shift ret =
     (let ret' = ret OR push_bit shift (ucast (b AND 0x7F))
      in if len + 1 < max_vl_len TYPE('a) \<and> b AND 0x80 \<noteq> 0
         then up_v_unchecked s (len + 1) (shift + 7) ret'
         else Inr (ret', int (len + 1)))"

definition up_v :: "bytes \<Rightarrow> ('a::len word \<times> int) res" where
  "up_v s =
     (if length s < max_vl_len TYPE('a) then Inr (up_v_checked s 0 0 0)
      else up_v_unchecked s 0 0 0)"

definition up_v_signed :: "bytes \<Rightarrow> ('a::len word \<times> int) res" where
  "up_v_signed s =
     bindE (up_v s) (\<lambda>(tmp, len).
       let stmp = drop_bit 1 tmp
       in if tmp AND 1 \<noteq> 0 then Inr (- stmp, len) else Inr (stmp, len))"

definition up_vu32 :: "bytes \<Rightarrow> (u32 \<times> int) res" where
  "up_vu32 s = up_v s"

definition up_vu64 :: "bytes \<Rightarrow> (u64 \<times> int) res" where
  "up_vu64 s = up_v s"

definition up_vs32 :: "bytes \<Rightarrow> (s32 \<times> int) res" where
  "up_vs32 s = up_v_signed s"

definition up_vs64 :: "bytes \<Rightarrow> (s64 \<times> int) res" where
  "up_vs64 s = up_v_signed s"

text \<open>The number of bytes of a code word.\<close>

function psize_v :: "'a::len word \<Rightarrow> nat" where
  "psize_v s = (let s' = drop_bit 7 s in if s' \<noteq> 0 then psize_v s' + 1 else 1)"
  by pat_completeness auto
termination
  by (relation "measure unat") (auto intro: drop_bit_nonzero_less)

declare psize_v.simps [simp del]

definition psize_v_signed :: "'a::len word \<Rightarrow> nat res" where
  "psize_v_signed s = bindE (sign_magnitude s) (\<lambda>tmp. Inr (psize_v tmp))"

definition psize_vu32 :: "u32 \<Rightarrow> nat" where
  "psize_vu32 s = psize_v s"

definition psize_vs32 :: "s32 \<Rightarrow> nat res" where
  "psize_vs32 s = psize_v_signed s"

definition psize_vu64 :: "u64 \<Rightarrow> nat" where
  "psize_vu64 s = psize_v s"

definition psize_vs64 :: "s64 \<Rightarrow> nat res" where
  "psize_vs64 s = psize_v_signed s"


subsection \<open>The code words\<close>

text \<open>The reference: seven bits per byte, low bits first, bit 7 set on all but the last.\<close>

function vl_bytes :: "'a::len word \<Rightarrow> bytes" where
  "vl_bytes s =
     (if drop_bit 7 s \<noteq> 0 then (ucast (take_bit 7 s) OR 0x80) # vl_bytes (drop_bit 7 s)
      else [ucast (take_bit 7 s)])"
  by pat_completeness auto
termination
  by (relation "measure unat") (auto intro: drop_bit_nonzero_less)

declare vl_bytes.simps [simp del]

lemma and_7F: "w AND 0x7F = take_bit 7 w" for w :: "'a::len word"
  by (simp add: take_bit_eq_mask mask_eq_exp_minus_1)

lemma bit_80_int: "bit (0x80 :: int) n \<longleftrightarrow> n = 7"
proof -
  have "(0x80 :: int) = 2 ^ 7" by simp
  then show ?thesis by (simp only: bit_exp_iff) auto
qed

lemma bit_80: "bit (0x80 :: 'a::len word) n \<longleftrightarrow> n = 7 \<and> 7 < LENGTH('a)"
  by (auto simp: bit_80_int)

lemma and_80_nonzero: "b AND 0x80 \<noteq> 0 \<longleftrightarrow> bit b 7" for b :: u8
proof
  assume "b AND 0x80 \<noteq> 0"
  then obtain n where "bit (b AND 0x80) n" by (auto simp: bit_eq_iff)
  then show "bit b 7" by (auto simp: bit_and_iff bit_80_int)
next
  assume "bit b 7"
  then have "bit (b AND 0x80) 7" by (simp add: bit_and_iff bit_80)
  then show "b AND 0x80 \<noteq> 0" by auto
qed

lemma length_vl_bytes: "length (vl_bytes s) = psize_v s"
  by (induction s rule: vl_bytes.induct) (simp add: vl_bytes.simps psize_v.simps Let_def)

lemma psize_v_pos: "0 < psize_v s"
  by (simp add: psize_v.simps Let_def)

lemma psize_v_le_iff: "psize_v s \<le> Suc n \<longleftrightarrow> drop_bit (7 * Suc n) s = 0"
proof (induction n arbitrary: s)
  case 0
  then show ?case using psize_v_pos [of "drop_bit 7 s"] by (subst psize_v.simps) (auto simp: Let_def)
next
  case (Suc n)
  have "psize_v s \<le> Suc (Suc n) \<longleftrightarrow> drop_bit 7 s = 0 \<or> psize_v (drop_bit 7 s) \<le> Suc n"
    by (subst psize_v.simps) (auto simp: Let_def)
  also have "\<dots> \<longleftrightarrow> drop_bit 7 s = 0 \<or> drop_bit (7 * Suc n) (drop_bit 7 s) = 0"
    by (simp only: Suc)
  also have "\<dots> \<longleftrightarrow> drop_bit (7 * Suc n) (drop_bit 7 s) = 0"
    by (metis drop_bit_of_0)
  also have "\<dots> \<longleftrightarrow> drop_bit (7 * Suc (Suc n)) s = 0"
    by (simp add: drop_bit_drop_bit add.commute)
  finally show ?case .
qed

lemma max_vl_len_props:
  "LENGTH('a) \<le> 7 * max_vl_len TYPE('a::len)" "0 < max_vl_len TYPE('a)"
proof -
  have "0 < LENGTH('a)" by simp
  then show "LENGTH('a) \<le> 7 * max_vl_len TYPE('a::len)" "0 < max_vl_len TYPE('a)"
    unfolding max_vl_len_def by presburger+
qed

lemma max_vl_len_32_64 [simp]: "max_vl_len TYPE(32) = 5" "max_vl_len TYPE(64) = 10"
  by (simp_all add: max_vl_len_def)

lemma drop_bit_beyond: "LENGTH('a) \<le> n \<Longrightarrow> drop_bit n (s :: 'a::len word) = 0"
  by (rule bit_word_eqI) (auto simp: bit_drop_bit_eq dest: bit_imp_le_length)

lemma psize_v_le_max: "psize_v (s :: 'a::len word) \<le> max_vl_len TYPE('a)"
proof -
  obtain n where n: "max_vl_len TYPE('a) = Suc n" using max_vl_len_props(2) [where 'a='a] by (cases "max_vl_len TYPE('a)") auto
  have "drop_bit (7 * Suc n) s = 0"
    using max_vl_len_props(1) [where 'a='a] n by (intro drop_bit_beyond) simp
  then show ?thesis using n psize_v_le_iff [of s n] by simp
qed

lemma p_v_unchecked_eq: "p_v_unchecked s i = (vl_bytes s, int (i + psize_v s))"
proof (induction s i rule: p_v_unchecked.induct)
  case (1 s i)
  show ?case
  proof (cases "drop_bit 7 s = 0")
    case True
    then show ?thesis
      by (simp add: p_v_unchecked.simps [of s] vl_bytes.simps [of s] psize_v.simps [of s] and_7F)
  next
    case False
    then have "p_v_unchecked (drop_bit 7 s) (i + 1) = (vl_bytes (drop_bit 7 s), int (i + 1 + psize_v (drop_bit 7 s)))"
      by (intro 1) auto
    with False show ?thesis
      by (simp add: p_v_unchecked.simps [of s] vl_bytes.simps [of s] psize_v.simps [of s] and_7F Let_def)
  qed
qed

lemma p_v_checked_eq:
  "p_v_checked s room i =
     (if psize_v s \<le> room then (vl_bytes s, int (i + psize_v s))
      else (take room (vl_bytes s), - int (i + room)))"
proof (induction s room i rule: p_v_checked.induct)
  case (1 s room i)
  consider "room = 0" | "0 < room" "drop_bit 7 s = 0" | "0 < room" "drop_bit 7 s \<noteq> 0" by auto
  then show ?case
  proof cases
    case 1
    then show ?thesis using psize_v_pos [of s] by (simp add: p_v_checked.simps)
  next
    case 2
    then show ?thesis
      by (simp add: p_v_checked.simps [of s] vl_bytes.simps [of s] psize_v.simps [of s] and_7F)
  next
    case 3
    then have ih: "p_v_checked (drop_bit 7 s) (room - 1) (i + 1) =
        (if psize_v (drop_bit 7 s) \<le> room - 1
         then (vl_bytes (drop_bit 7 s), int (i + 1 + psize_v (drop_bit 7 s)))
         else (take (room - 1) (vl_bytes (drop_bit 7 s)), - int (i + 1 + (room - 1))))"
      by (intro 1) auto
    obtain r where "room = Suc r" using 3 by (cases room) auto
    with 3 ih show ?thesis
      by (simp add: p_v_checked.simps [of s] vl_bytes.simps [of s] psize_v.simps [of s] and_7F Let_def)
  qed
qed

lemma p_v_eq:
  "p_v s room =
     (if psize_v s \<le> room then (vl_bytes s, int (psize_v s))
      else (take room (vl_bytes s), - int room))"
  using psize_v_le_max [of s] by (auto simp: p_v_def p_v_checked_eq p_v_unchecked_eq)


subsection \<open>The specialisations store the same code words\<close>

lemma ucast_or_80:
  assumes "8 \<le> LENGTH('a)"
  shows "(ucast (s OR 0x80 :: 'a::len word) :: u8) = ucast (take_bit 7 s) OR 0x80"
  by (rule bit_word_eqI) (use assms in \<open>auto simp: bit_simps bit_80_int\<close>)

lemma ucast_last:
  fixes s :: "'a::len word"
  assumes "drop_bit 7 s = 0"
  shows "(ucast s :: u8) = ucast (take_bit 7 s)"
proof -
  have "take_bit 7 s = s" using assms by (metis bits_ident add.right_neutral push_bit_of_0 add.left_neutral)
  then show ?thesis by simp
qed

lemma vl_bytes_image:
  fixes s :: "'a::len word"
  assumes "8 \<le> LENGTH('a)"
  shows "vl_bytes s = map (\<lambda>k. ucast (drop_bit (7 * k) s OR 0x80)) [0..<psize_v s - 1]
           @ [ucast (drop_bit (7 * (psize_v s - 1)) s)]"
proof (induction s rule: vl_bytes.induct)
  case (1 s)
  show ?case
  proof (cases "drop_bit 7 s = 0")
    case True
    then show ?thesis by (simp add: vl_bytes.simps [of s] psize_v.simps [of s] ucast_last)
  next
    case False
    obtain m where m: "psize_v (drop_bit 7 s) = Suc m"
      using psize_v_pos [of "drop_bit 7 s"] by (cases "psize_v (drop_bit 7 s)") auto
    have "psize_v s = Suc (Suc m)" using False m by (simp add: psize_v.simps [of s] Let_def)
    moreover have "map (\<lambda>k. ucast (drop_bit (7 * k) s OR 0x80)) [0..<Suc m]
        = (ucast (s OR 0x80) :: u8) # map (\<lambda>k. ucast (drop_bit (7 * k) (drop_bit 7 s) OR 0x80)) [0..<m]"
      by (subst upt_conv_Cons, simp, simp only: list.map map_Suc_upt [symmetric] map_map)
        (simp add: comp_def drop_bit_drop_bit add.commute)
    ultimately show ?thesis
      using 1 [OF False] m False assms
      by (simp add: vl_bytes.simps [of s] ucast_or_80 drop_bit_drop_bit add.commute del: upt_Suc)
  qed
qed

lemma drop_bit_zero_iff: "0 < k \<Longrightarrow> drop_bit (k * 7) s = 0 \<longleftrightarrow> psize_v s \<le> k"
  using psize_v_le_iff [of s "k - 1"] by (simp add: mult.commute)

lemma vl_tree_eq: "vl_tree s = psize_v s"
proof -
  have "drop_bit 7 s = 0 \<longleftrightarrow> psize_v s \<le> 1" using drop_bit_zero_iff [of 1 s] by simp
  then have "vl_tree s =
     (if psize_v s \<le> 4 then if psize_v s \<le> 2 then if psize_v s \<le> 1 then 1 else 2
        else if psize_v s \<le> 3 then 3 else 4
      else if psize_v s \<le> 6 then if psize_v s \<le> 5 then 5 else 6
        else if psize_v s \<le> 8 then if psize_v s \<le> 7 then 7 else 8
          else if psize_v s \<le> 9 then 9 else 10)"
    unfolding vl_tree_def by (simp only: drop_bit_zero_iff zero_less_numeral)
  moreover have "0 < psize_v s" "psize_v s \<le> 10" using psize_v_pos psize_v_le_max [of s] by simp_all
  ultimately show ?thesis by simp
qed

lemma p_v_u64_eq:
  "p_v_u64 s room =
     (if psize_v s \<le> room then (vl_bytes s, int (psize_v s)) else ([], - int (psize_v s)))"
proof -
  have "vl_image s (psize_v s) = vl_bytes s" by (simp add: vl_image_def vl_bytes_image)
  moreover have "psize_v s \<le> 10" using psize_v_le_max [of s] by simp
  ultimately show ?thesis by (simp add: p_v_u64_def vl_tree_eq Let_def)
qed

lemma p_v_u32_eq:
  "p_v_u32 s room =
     (if psize_v s \<le> room then (vl_bytes s, int (psize_v s)) else ([], - int (psize_v s)))"
proof -
  have d: "(drop_bit 7 s = 0) = (psize_v s \<le> 1)" "(drop_bit 14 s = 0) = (psize_v s \<le> 2)"
    "(drop_bit 21 s = 0) = (psize_v s \<le> 3)" "(drop_bit 28 s = 0) = (psize_v s \<le> 4)"
    using drop_bit_zero_iff [of 1 s] drop_bit_zero_iff [of 2 s] drop_bit_zero_iff [of 3 s]
      drop_bit_zero_iff [of 4 s] by simp_all
  have "0 < psize_v s" "psize_v s \<le> 5" using psize_v_pos psize_v_le_max [of s] by simp_all
  then consider "psize_v s = 1" | "psize_v s = 2" | "psize_v s = 3" | "psize_v s = 4" | "psize_v s = 5"
    by linarith
  then show ?thesis
    by cases (simp_all add: p_v_u32_def d vl_bytes_image upt_rec)
qed


subsection \<open>Reading a code word\<close>

lemma up_v_unchecked_eq:
  "len < max_vl_len TYPE('a) \<Longrightarrow> max_vl_len TYPE('a) \<le> len + length s \<Longrightarrow>
   up_v_unchecked s len shift (ret :: 'a::len word) = Inr (up_v_checked s len shift ret)"
  by (induction s arbitrary: len shift ret) (auto simp: Let_def)

text \<open>The branch without bounds checks never reads past the buffer.\<close>

lemma up_v_eq: "up_v s = Inr (up_v_checked s 0 0 0)"
  by (simp add: up_v_def up_v_unchecked_eq max_vl_len_props(2))

lemma up_v_checked_len:
  assumes "len < max_vl_len TYPE('a)" "up_v_checked s len shift (ret :: 'a::len word) = (v, l)"
  shows "l \<le> int (max_vl_len TYPE('a))" "l \<le> int (len + length s)" "0 < l \<Longrightarrow> int len < l"
    "0 < len \<or> s \<noteq> [] \<Longrightarrow> l \<noteq> 0"
  using assms by (induction s arbitrary: len shift ret) (fastforce simp: Let_def split: if_splits)+

lemma up_v_checked_take:
  "len < max_vl_len TYPE('a) \<Longrightarrow> max_vl_len TYPE('a) \<le> len + n \<Longrightarrow>
   up_v_checked (take n s) len shift (ret :: 'a::len word) = up_v_checked s len shift ret"
proof (induction s arbitrary: len shift ret n)
  case (Cons b s)
  then obtain m where "n = Suc m" by (cases n) auto
  with Cons show ?case by (simp add: Let_def)
qed simp

lemma vl_step:
  fixes w :: "'a::len word" and b :: u8
  assumes that: "take_bit 7 b = ucast (take_bit 7 (drop_bit k w))"
  shows "take_bit k w OR push_bit k (ucast (b AND 0x7F)) = take_bit (k + 7) w"
proof (rule bit_word_eqI)
  fix n assume n: "n < LENGTH('a)"
  define m where "m = n - k"
  have "bit (take_bit 7 b) m \<longleftrightarrow> m < 7 \<and> bit w (k + m)"
    unfolding that by (auto simp: bit_ucast_iff bit_take_bit_iff bit_drop_bit_eq dest: bit_imp_le_length)
  then have "bit (push_bit k (ucast (b AND 0x7F) :: 'a word)) n \<longleftrightarrow> k \<le> n \<and> m < 7 \<and> bit w (k + m)"
    using n unfolding m_def by (auto simp: bit_push_bit_iff and_7F bit_ucast_iff bit_take_bit_iff)
  then show "bit (take_bit k w OR push_bit k (ucast (b AND 0x7F))) n = bit (take_bit (k + 7) w) n"
    unfolding m_def by (auto simp: bit_or_iff bit_take_bit_iff)
qed

lemma vl_byte_facts:
  fixes s :: "'a::len word"
  shows "take_bit 7 (ucast (take_bit 7 s) OR 0x80 :: u8) = ucast (take_bit 7 s)"
    "take_bit 7 (ucast (take_bit 7 s) :: u8) = ucast (take_bit 7 s)"
    "(ucast (take_bit 7 s) OR 0x80 :: u8) AND 0x80 \<noteq> 0"
    "(ucast (take_bit 7 s) :: u8) AND 0x80 = 0"
  using and_80_nonzero [of "ucast (take_bit 7 s) OR 0x80"] and_80_nonzero [of "ucast (take_bit 7 s)"]
  by (auto intro!: bit_word_eqI simp: bit_simps bit_80_int)

lemma up_v_checked_vl_bytes:
  fixes w :: "'a::len word"
  assumes "7 * len < LENGTH('a)"
  shows "up_v_checked (vl_bytes (drop_bit (7 * len) w) @ rest) len (7 * len) (take_bit (7 * len) w)
           = (w, int (len + psize_v (drop_bit (7 * len) w)))"
  using assms
proof (induction "psize_v (drop_bit (7 * len) w)" arbitrary: len rule: less_induct)
  case less
  let ?s = "drop_bit (7 * len) w"
  have next_drop: "drop_bit 7 ?s = drop_bit (7 * (len + 1)) w" by (simp add: drop_bit_drop_bit add.commute)
  show ?case
  proof (cases "drop_bit 7 ?s = 0")
    case True
    have "take_bit (7 * len + 7) w = w"
    proof (rule bit_word_eqI)
      fix n
      have "bit (drop_bit 7 ?s) m = bit w (7 * len + 7 + m)" for m
        by (simp add: bit_drop_bit_eq add.commute add.left_commute)
      then have "\<not> bit w (7 * len + 7 + m)" for m using True by simp
      then show "bit (take_bit (7 * len + 7) w) n = bit w n"
        by (metis bit_take_bit_iff le_iff_add not_less)
    qed
    then show ?thesis using True
      by (simp add: vl_bytes.simps [of ?s] psize_v.simps [of ?s] vl_step vl_byte_facts del: drop_bit_drop_bit)
  next
    case False
    have lt: "7 * (len + 1) < LENGTH('a)"
      using False drop_bit_beyond [of "7 * (len + 1)" w] unfolding next_drop by linarith
    then have "7 * (len + 1) < 7 * max_vl_len TYPE('a)" by (rule less_le_trans [OF _ max_vl_len_props(1)])
    then have "len + 1 < max_vl_len TYPE('a)" by simp
    moreover have p: "psize_v ?s = psize_v (drop_bit (7 * (len + 1)) w) + 1"
      using False by (simp only: psize_v.simps [of ?s] Let_def next_drop) simp
    moreover have "up_v_checked (vl_bytes (drop_bit (7 * (len + 1)) w) @ rest) (len + 1) (7 * (len + 1))
        (take_bit (7 * (len + 1)) w) = (w, int (len + 1 + psize_v (drop_bit (7 * (len + 1)) w)))"
      by (rule less.hyps) (use p lt in simp_all)
    moreover obtain b :: u8 where b: "b = ucast (take_bit 7 ?s) OR 0x80" by blast
    moreover have "vl_bytes ?s = b # vl_bytes (drop_bit (7 * (len + 1)) w)"
      using False b by (simp only: vl_bytes.simps [of ?s] next_drop) simp
    moreover have "take_bit 7 b = ucast (take_bit 7 ?s)" "b AND 0x80 \<noteq> 0"
      unfolding b by (rule vl_byte_facts)+
    ultimately show ?thesis
      by (simp add: vl_step Let_def add.commute del: drop_bit_drop_bit)
  qed
qed

lemma up_v_vl_bytes: "up_v (vl_bytes w @ rest) = Inr (w, int (psize_v w))"
  using up_v_checked_vl_bytes [of 0 w rest] by (simp add: up_v_eq)


subsection \<open>The interface of a variable length code\<close>

text \<open>
  What the callers of a variable length pair rely on. \<open>code v\<close> is the code word of \<open>v\<close>
  and \<open>size v\<close> its length; \<open>dom\<close> are the values that have a code word. The decoder
  is total on every buffer: it never reads outside it, consumes at most \<open>maxlen\<close> bytes
  and reports a negative length when the buffer ends inside a code word.
\<close>

locale vl_code =
  fixes enc :: "'v \<Rightarrow> nat \<Rightarrow> (bytes \<times> int) res" and dec :: "bytes \<Rightarrow> ('v \<times> int) res"
    and code :: "'v \<Rightarrow> bytes" and size :: "'v \<Rightarrow> nat" and maxlen :: nat and dom :: "'v \<Rightarrow> bool"
  assumes size_pos: "0 < size v"
    and size_max: "size v \<le> maxlen"
    and length_code: "length (code v) = size v"
    and enc_ok: "dom v \<Longrightarrow> size v \<le> room \<Longrightarrow> enc v room = Inr (code v, int (size v))"
    and enc_fail: "dom v \<Longrightarrow> room < size v \<Longrightarrow> enc v room = Inr ([], - int (size v))"
    and dec_code: "dom v \<Longrightarrow> dec (code v @ rest) = Inr (v, int (size v))"
    and dec_total: "\<exists>v l. dec bs = Inr (v, l) \<and> l \<le> int maxlen \<and> l \<le> int (length bs) \<and> (bs \<noteq> [] \<longrightarrow> l \<noteq> 0)"
    and dec_take: "maxlen \<le> n \<Longrightarrow> dec (take n bs) = dec bs"
begin

lemma maxlen_pos: "0 < maxlen"
  using size_pos [of undefined] size_max [of undefined] by linarith

lemma enc_maxlen: "dom v \<Longrightarrow> enc v maxlen = Inr (code v, int (size v))"
  by (rule enc_ok [OF _ size_max])

lemma dec_at:
  assumes "dom v" "off + size v \<le> length buf" "size v \<le> n"
  shows "dec (take n (drop off (blit off (code v) buf))) = Inr (v, int (size v))"
proof -
  have "drop off (blit off (code v) buf) = code v @ drop (off + size v) buf"
    using assms by (simp add: blit_def length_code)
  then have "take n (drop off (blit off (code v) buf)) = code v @ take (n - size v) (drop (off + size v) buf)"
    using assms by (simp add: length_code)
  then show ?thesis by (simp add: dec_code [OF assms(1)])
qed

end

lemma up_v_total:
  "\<exists>v l. up_v bs = Inr (v :: 'a::len word, l) \<and> l \<le> int (max_vl_len TYPE('a)) \<and> l \<le> int (length bs)
     \<and> (bs \<noteq> [] \<longrightarrow> l \<noteq> 0)"
proof (cases "up_v_checked bs 0 0 (0 :: 'a word)")
  case (Pair v l)
  then show ?thesis
    using up_v_checked_len(1,2,4) [OF max_vl_len_props(2) Pair] by (auto simp: up_v_eq)
qed

lemma up_v_take: "max_vl_len TYPE('a) \<le> n \<Longrightarrow> up_v (take n bs) = (up_v bs :: ('a::len word \<times> int) res)"
  by (simp add: up_v_eq up_v_checked_take max_vl_len_props(2))

lemma up_v_signed_sm: "up_v_signed bs = bindE (up_v bs) (\<lambda>(t, l). Inr (sm_dec t, l))"
  unfolding up_v_signed_def sm_dec_def Let_def by (rule arg_cong [where f = "bindE (up_v bs)"]) auto

lemma psize_vs_sm:
  "psize_vs32 s = (if sint s = - (2 ^ 31) then Inl UndefinedBehaviour else Inr (psize_v (sm_enc s)))"
  "psize_vs64 t = (if sint t = - (2 ^ 63) then Inl UndefinedBehaviour else Inr (psize_v (sm_enc t)))"
  by (simp_all add: psize_vs32_def psize_vs64_def psize_v_signed_def sign_magnitude_eq)

lemma p_vs_sm:
  "p_vs32 s room = (if sint s = - (2 ^ 31) then Inl UndefinedBehaviour else Inr (p_v_u32 (sm_enc s) room))"
  "p_vs64 t room = (if sint t = - (2 ^ 63) then Inl UndefinedBehaviour else Inr (p_v_u64 (sm_enc t) room))"
  by (simp_all add: p_vs32_def p_vs64_def p_v_signed32_def p_v_signed64_def sign_magnitude_eq)

lemma p_vu32_eq:
  "p_vu32 s room = (if psize_v s \<le> room then (vl_bytes s, of_nat (psize_v s)) else ([], - of_nat (psize_v s)))"
  by (simp add: p_vu32_def p_v_u32_eq)

lemma sint_small32: "- (2 ^ 31) \<le> k \<Longrightarrow> k < 2 ^ 31 \<Longrightarrow> sint (word_of_int k :: u32) = k"
  unfolding signed_of_int by (simp add: signed_take_bit_int_eq_self)

lemma p_vu32_int_eq: "p_vu32_int s room = p_v_u32 s room"
proof -
  have "psize_v s \<le> 5" using psize_v_le_max [of s] by simp
  then have "sint (word_of_int (int (psize_v s)) :: u32) = int (psize_v s)"
    "sint (word_of_int (- int (psize_v s)) :: u32) = - int (psize_v s)"
    by (intro sint_small32; simp)+
  then show ?thesis by (simp add: p_vu32_int_def p_vu32_def p_v_u32_eq del: of_int_of_nat_eq word_of_int_minus)
qed

lemmas psize_vl = psize_v_pos psize_v_le_max [where 'a = 32, simplified] psize_v_le_max [where 'a = 64, simplified]
  length_vl_bytes

interpretation vu32: vl_code "\<lambda>s room. Inr (p_vu32_int s room)" up_vu32 vl_bytes psize_vu32 5 "\<lambda>_. True"
  by unfold_locales
    (simp_all add: p_vu32_int_eq up_vu32_def psize_vu32_def psize_vl p_v_u32_eq up_v_vl_bytes
      up_v_total [where 'a = 32, simplified] up_v_take)

interpretation vu64: vl_code "\<lambda>s room. Inr (p_vu64 s room)" up_vu64 vl_bytes psize_vu64 10 "\<lambda>_. True"
  by unfold_locales
    (simp_all add: p_vu64_def up_vu64_def psize_vu64_def psize_vl p_v_u64_eq up_v_vl_bytes
      up_v_total [where 'a = 64, simplified] up_v_take)

lemma up_v_signed_total:
  "\<exists>v l. up_v_signed bs = Inr (v :: 'a::len word, l) \<and> l \<le> int (max_vl_len TYPE('a)) \<and> l \<le> int (length bs)
     \<and> (bs \<noteq> [] \<longrightarrow> l \<noteq> 0)"
proof -
  obtain v :: "'a word" and l where "up_v bs = Inr (v, l)" "l \<le> int (max_vl_len TYPE('a))"
    "l \<le> int (length bs)" "bs \<noteq> [] \<longrightarrow> l \<noteq> 0"
    using up_v_total [of bs, where 'a='a] by blast
  then show ?thesis by (simp add: up_v_signed_sm)
qed

interpretation vs32: vl_code p_vs32 up_vs32 "\<lambda>s. vl_bytes (sm_enc s)" "\<lambda>s. psize_v (sm_enc s)" 5 "\<lambda>s. sint s \<noteq> - (2 ^ 31)"
  by unfold_locales
    (simp_all add: p_vs_sm up_vs32_def psize_vl p_v_u32_eq
      up_v_signed_total [where 'a = 32, unfolded up_v_signed_sm, simplified] up_v_signed_sm up_v_vl_bytes sm_dec_enc up_v_take)

interpretation vs64: vl_code p_vs64 up_vs64 "\<lambda>s. vl_bytes (sm_enc s)" "\<lambda>s. psize_v (sm_enc s)" 10 "\<lambda>s. sint s \<noteq> - (2 ^ 63)"
  by unfold_locales
    (simp_all add: p_vs_sm up_vs64_def psize_vl p_v_u64_eq
      up_v_signed_total [where 'a = 64, unfolded up_v_signed_sm, simplified] up_v_signed_sm up_v_vl_bytes sm_dec_enc up_v_take)


subsection \<open>The padded code\<close>

lemma pad4_bytes:
  "fst (p_vu32pad4 s) =
     [ucast (take_bit 7 s OR 0x80), ucast (take_bit 7 (drop_bit 7 s) OR 0x80),
      ucast (take_bit 7 (drop_bit 14 s) OR 0x80), ucast (take_bit 7 (drop_bit 21 s) OR 0x80) AND 0x7F]"
  by (simp add: p_vu32pad4_def numeral_eq_Suc and_7F drop_bit_drop_bit Let_def)

lemma pad4_byte_facts:
  fixes s :: u32
  shows "take_bit 7 (ucast (take_bit 7 s OR 0x80) :: u8) = ucast (take_bit 7 s)"
    "(ucast (take_bit 7 s OR 0x80) :: u8) AND 0x80 \<noteq> 0"
    "take_bit 7 (ucast (take_bit 7 s OR 0x80) AND 0x7F :: u8) = ucast (take_bit 7 s)"
    "(ucast (take_bit 7 s OR 0x80) AND 0x7F :: u8) AND 0x80 = 0"
  using and_80_nonzero [of "ucast (take_bit 7 s OR 0x80)"] and_80_nonzero [of "ucast (take_bit 7 s OR 0x80) AND 0x7F"]
  by (auto intro!: bit_word_eqI simp: bit_simps bit_80_int and_7F)

lemma up_vu32_pad4: "up_vu32 (fst (p_vu32pad4 s) @ rest) = Inr (take_bit 28 s, 4)"
proof -
  obtain b0 b1 b2 b3 :: u8 where b: "fst (p_vu32pad4 s) = [b0, b1, b2, b3]"
    and t: "take_bit 7 b0 = ucast (take_bit 7 (drop_bit 0 s))" "take_bit 7 b1 = ucast (take_bit 7 (drop_bit 7 s))"
      "take_bit 7 b2 = ucast (take_bit 7 (drop_bit 14 s))" "take_bit 7 b3 = ucast (take_bit 7 (drop_bit 21 s))"
    and c: "b0 AND 0x80 \<noteq> 0" "b1 AND 0x80 \<noteq> 0" "b2 AND 0x80 \<noteq> 0" "b3 AND 0x80 = 0"
    unfolding pad4_bytes using pad4_byte_facts by (simp only: drop_bit_0 id_apply) blast
  have "take_bit 0 s OR push_bit 0 (ucast (b0 AND 0x7F)) = take_bit (0 + 7) s" using t by (intro vl_step)
  then have r0: "ucast (b0 AND 0x7F) = take_bit 7 s" by simp
  have r:
    "take_bit 7 s OR push_bit 7 (ucast (b1 AND 0x7F)) = take_bit (7 + 7) s"
    "take_bit 14 s OR push_bit 14 (ucast (b2 AND 0x7F)) = take_bit (14 + 7) s"
    "take_bit 21 s OR push_bit 21 (ucast (b3 AND 0x7F)) = take_bit (21 + 7) s"
    using t by (simp_all only: vl_step)
  show ?thesis unfolding up_vu32_def up_v_eq b using r0 r c by simp
qed

section \<open>Properties\<close>

text \<open>C1: Every 32 bit and every 64 bit unsigned value survives the variable length code: packing
  it into a buffer with room for its code word stores exactly \<open>psize\<close> bytes and returns
  their number, and unpacking these bytes, whatever follows them, gives the value and
  the same number. Without room for the \<open>n\<close> bytes of the code word nothing is stored; the 64 bit encoder
  then returns \<open>- n\<close>, the 32 bit one, whose result type is unsigned, \<open>2 ^ 32 - n\<close>.\<close>

theorem vl_unsigned_roundtrip:
  shows "(\<exists>bs. length bs = psize_vu32 v \<and> (\<forall>rest. up_vu32 (bs @ rest) = Inr (v, int (psize_vu32 v))) \<and>
            fst (p_vu32 v room) = (if psize_vu32 v \<le> room then bs else []) \<and>
            unat (snd (p_vu32 v room)) = (if psize_vu32 v \<le> room then psize_vu32 v else 2 ^ 32 - psize_vu32 v)) \<and>
         (\<exists>bs. length bs = psize_vu64 w \<and> (\<forall>rest. up_vu64 (bs @ rest) = Inr (w, int (psize_vu64 w))) \<and>
            p_vu64 w room = (if psize_vu64 w \<le> room then (bs, int (psize_vu64 w)) else ([], - int (psize_vu64 w))))"
proof -
  have n: "0 < psize_vu32 v" "psize_vu32 v < 2 ^ 32" using vu32.size_pos [of v] vu32.size_max [of v] by simp_all
  then have u: "unat (of_nat (psize_vu32 v) :: u32) = psize_vu32 v" by (intro unat_of_nat_small) simp
  then have "(of_nat (psize_vu32 v) :: u32) \<noteq> 0" using n(1) by (metis unat_0 less_irrefl)
  then have "unat (- of_nat (psize_vu32 v) :: u32) = 2 ^ 32 - psize_vu32 v"
    using u n unat_sub_if' [of 0 "of_nat (psize_vu32 v) :: u32"] by simp
  then have "unat (snd (p_vu32 v room)) = (if psize_vu32 v \<le> room then psize_vu32 v else 2 ^ 32 - psize_vu32 v)"
    using u by (simp add: p_vu32_eq psize_vu32_def)
  then show ?thesis
    using vu32.length_code [of v] vu32.dec_code [of v] vu64.length_code [of w] vu64.dec_code [of w]
      vu64.enc_ok [where v = w and room = room] vu64.enc_fail [where v = w and room = room]
    by (intro conjI exI [of _ "vl_bytes v"] exI [of _ "vl_bytes w"]) (auto simp: p_vu32_eq psize_vu32_def)
qed

text \<open>Every signed value but the most negative one survives the signed variable length code
  of its width; for that one, whose magnitude is no value of the type, the code is undefined.\<close>

theorem vl_signed_roundtrip:
  assumes "5 \<le> room" "10 \<le> room'"
  shows "(if sint v = - (2 ^ 31) then p_vs32 v room = Inl UndefinedBehaviour \<and> psize_vs32 v = Inl UndefinedBehaviour
          else \<exists>bs. p_vs32 v room = Inr (bs, int (length bs)) \<and> psize_vs32 v = Inr (length bs) \<and>
                 up_vs32 (bs @ rest) = Inr (v, int (length bs))) \<and>
         (if sint w = - (2 ^ 63) then p_vs64 w room' = Inl UndefinedBehaviour \<and> psize_vs64 w = Inl UndefinedBehaviour
          else \<exists>bs. p_vs64 w room' = Inr (bs, int (length bs)) \<and> psize_vs64 w = Inr (length bs) \<and>
                 up_vs64 (bs @ rest) = Inr (w, int (length bs)))"
proof
  have "psize_v (sm_enc v) \<le> room" "psize_v (sm_enc w) \<le> room'"
    using assms vs32.size_max [of v] vs64.size_max [of w] by simp_all
  then show "if sint v = - (2 ^ 31) then p_vs32 v room = Inl UndefinedBehaviour \<and> psize_vs32 v = Inl UndefinedBehaviour
          else \<exists>bs. p_vs32 v room = Inr (bs, int (length bs)) \<and> psize_vs32 v = Inr (length bs) \<and>
                 up_vs32 (bs @ rest) = Inr (v, int (length bs))"
    and "if sint w = - (2 ^ 63) then p_vs64 w room' = Inl UndefinedBehaviour \<and> psize_vs64 w = Inl UndefinedBehaviour
          else \<exists>bs. p_vs64 w room' = Inr (bs, int (length bs)) \<and> psize_vs64 w = Inr (length bs) \<and>
                 up_vs64 (bs @ rest) = Inr (w, int (length bs))"
    by (simp_all add: p_vs_sm psize_vs_sm p_v_u32_eq p_v_u64_eq length_vl_bytes vs32.dec_code vs64.dec_code)
qed

theorem vl_signed_roundtrip_witness:
  "\<exists>bs. p_vs32 (-300) 10 = Inr (bs, int (length bs)) \<and> up_vs32 (bs @ [7]) = Inr (-300, int (length bs))"
  using vl_signed_roundtrip [of 10 10 "-300" "[7]" 5] by auto

text \<open>C2: The hand-unrolled 32 and 64 bit encoders store the same bytes and return the same length
  as the generic loop whenever the code word fits; when it does not, they store nothing and return the
  negated length of the code word.\<close>

theorem p_v_specialisations:
  fixes s :: u32 and t :: u64
  shows "p_v_u32 s room = (if psize_v s \<le> room then p_v s room else ([], - int (psize_v s))) \<and>
         p_v_u64 t room = (if psize_v t \<le> room then p_v t room else ([], - int (psize_v t)))"
  by (simp add: p_v_u32_eq p_v_u64_eq p_v_eq)

text \<open>C3: Decoding is memory safe on every buffer, also a truncated or an overlong one: it reads
  only inside the buffer, returns a value, and consumes at most the maximal length of a code word.\<close>

theorem up_v_memory_safe:
  shows "\<exists>v l. up_v bs = Inr (v :: 'a::len word, l) \<and> l \<le> int (length bs) \<and>
           l \<le> int (LENGTH('a) div 7 + (if 0 < LENGTH('a) mod 7 then 1 else 0)) \<and>
           up_v (take (max_vl_len TYPE('a)) bs) = Inr (v, l)"
  using up_v_total [of bs, where 'a = 'a] by (auto simp: up_v_take max_vl_len_def)

text \<open>The fixed width codes of 8 to 64 bits give back the value; the 24 and 40 bit codes do so for
  the values that fit, where the signed ones have one sign bit and a magnitude, and no code for the
  most negative value of the type they take.\<close>

theorem fixed_width_roundtrip:
  shows "up_u8 (p_u8 a @ r) = a \<and> up_u16 (p_u16 b @ r) = b \<and> up_u32 (p_u32 c @ r) = c \<and> up_u64 (p_u64 d @ r) = d \<and>
         up_s8 (p_s8 a @ r) = a \<and> up_s16 (p_s16 b @ r) = b \<and> up_s32 (p_s32 c @ r) = c \<and> up_s64 (p_s64 d @ r) = d \<and>
         (uint c < 2 ^ 24 \<longrightarrow> up_u24 (p_u24 c @ r) = c) \<and> (uint d < 2 ^ 40 \<longrightarrow> up_u40 (p_u40 d @ r) = d) \<and>
         (\<bar>sint c\<bar> < 2 ^ 23 \<longrightarrow> (\<exists>bs. p_s24 c = Inr bs \<and> up_s24 (bs @ r) = c)) \<and>
         (\<bar>sint d\<bar> < 2 ^ 39 \<longrightarrow> (\<exists>bs. p_s40 d = Inr bs \<and> up_s40 (bs @ r) = d)) \<and>
         p_s24 (- (2 ^ 31)) = Inl UndefinedBehaviour \<and> p_s40 (- (2 ^ 63)) = Inl UndefinedBehaviour"
  unfolding p_s24_sm p_s40_sm using c_u8.unpack_append [of a r] c_u16.unpack_append [of b r] c_u32.unpack_append [of c r]
    c_u64.unpack_append [of d r] c_s8.unpack_append [of a r] c_s16.unpack_append [of b r]
    c_s32.unpack_append [of c r] c_s64.unpack_append [of d r] c_u24.unpack_append [of c r]
    c_u40.unpack_append [of d r] c_s24.unpack_append [of c r] c_s40.unpack_append [of d r]
    take_bit_small_word [of c 24] take_bit_small_word [of d 40]
  by auto

theorem fixed_width_roundtrip_witness:
  "up_u24 (p_u24 0xABCDEF @ [9]) = 0xABCDEF \<and> (\<exists>bs. p_s40 (-77) = Inr bs \<and> up_s40 (bs @ [9]) = -77)"
  using fixed_width_roundtrip [of 0 "[9]" 0 "0xABCDEF" "-77"] by simp

text \<open>The padded code always takes four bytes and is read back by the ordinary decoder, which
  gives the low 28 bits of the value.\<close>

theorem pad4_roundtrip:
  shows "length (fst (p_vu32pad4 s)) = 4 \<and> snd (p_vu32pad4 s) = 4 \<and>
         up_vu32 (fst (p_vu32pad4 s) @ rest) = Inr (take_bit 28 s, 4)"
  unfolding up_vu32_pad4 by (simp add: pad4_bytes) (simp add: p_vu32pad4_def Let_def)

text \<open>On an empty buffer the generic encoder and the decoder return 0, not a negative number,
  so their result does not tell the caller that they failed.\<close>

theorem empty_buffer_not_negative:
  shows "p_v (s :: 'a::len word) 0 = ([], 0) \<and> up_v [] = Inr (0 :: 'a word, 0)"
  using psize_v_pos [of s] by (simp add: p_v_eq up_v_eq)

end
