(* ===== verification/UtilMath.thy ===== *)
theory UtilMath
  imports Prelude
begin

text \<open>
  Integer helpers of \<open>include/sserialize/algorithm/utilmath.h\<close>,
  \<open>src/algorithm/utilmath.cpp\<close> and \<open>include/sserialize/utility/checks.h\<close>: products
  that exceed their width, bit masks, the position of the most significant bit, and
  checked narrowing.
\<close>

section \<open>Products divided by a 32 bit number\<close>

definition multiplyDiv32 :: "u32 \<Rightarrow> u32 \<Rightarrow> u32 \<Rightarrow> u32 res" where
  "multiplyDiv32 a b c =
     (if c = 0 then Inl UndefinedBehaviour
      else Inr (ucast ((ucast a * ucast b :: u64) div ucast c)))"

definition multiplyMod32 :: "u32 \<Rightarrow> u32 \<Rightarrow> u32 \<Rightarrow> u32 res" where
  "multiplyMod32 a b c =
     (if c = 0 then Inl UndefinedBehaviour
      else Inr (ucast ((ucast a * ucast b :: u64) mod ucast c)))"

text \<open>\<open>__builtin_mul_overflow\<close>: the wrapped product and whether it wrapped.\<close>

definition mul_overflow :: "u64 \<Rightarrow> u64 \<Rightarrow> u64 \<times> bool" where
  "mul_overflow a b = (a * b, unat a * unat b \<ge> 2 ^ 64)"

text \<open>
  The sources have two branches for a product that overflows, chosen by the
  preprocessor. \<open>wide\<close> is the choice: a compiler with \<open>__int128\<close>, whose signed
  product is undefined from \<open>2 ^ 127\<close> on, or the portable computation.
\<close>

definition multiplyDiv64 :: "bool \<Rightarrow> u64 \<Rightarrow> u64 \<Rightarrow> u32 \<Rightarrow> u64 res" where
  "multiplyDiv64 wide a b c =
     (if c = 0 then Inl UndefinedBehaviour
      else case mul_overflow a b of (ab, ovf) \<Rightarrow>
        if \<not> ovf then Inr (ab div ucast c)
        else if wide then
          (if unat a * unat b < 2 ^ 127 then Inr (of_nat ((unat a * unat b) div unat c))
           else Inl UndefinedBehaviour)
        else
          (let a_c = a div ucast c; r_a = a mod ucast c; b_c = b div ucast c; r_b = b mod ucast c
           in Inr (a_c * b_c * ucast c + a_c * r_b + b_c * r_a + (r_a * r_b) div ucast c)))"

definition multiplyMod64 :: "bool \<Rightarrow> u64 \<Rightarrow> u64 \<Rightarrow> u32 \<Rightarrow> u64 res" where
  "multiplyMod64 wide a b c =
     (if c = 0 then Inl UndefinedBehaviour
      else case mul_overflow a b of (ab, ovf) \<Rightarrow>
        if \<not> ovf then Inr (ab mod ucast c)
        else if wide then
          (if unat a * unat b < 2 ^ 127 then Inr (of_nat ((unat a * unat b) mod unat c))
           else Inl UndefinedBehaviour)
        else
          (let r_a = a mod ucast c; r_b = b mod ucast c in Inr ((r_a * r_b) mod ucast c)))"

section \<open>Masks, saturation, narrowing\<close>

definition createMask :: "u32 \<Rightarrow> u32" where
  "createMask bpn = (if bpn = 32 then - 1 else push_bit (unat bpn) 1 - 1)"

definition createMask64 :: "u64 \<Rightarrow> u64" where
  "createMask64 bpn = (if bpn = 64 then - 1 else push_bit (unat bpn) 1 - 1)"

definition saturatedAdd32 :: "u32 \<Rightarrow> u32 \<Rightarrow> u32" where
  "saturatedAdd32 a b = (if a > - 1 - b then - 1 else a + b)"

text \<open>\<open>narrow_check\<close> from an unsigned or a signed value given as an integer: the value
  if the target type has it, otherwise the exception.\<close>

definition narrow_check_u :: "int \<Rightarrow> 'a::len word res" where
  "narrow_check_u v =
     (if v < 0 \<or> v > 2 ^ LENGTH('a) - 1 then Inl TypeOverflowException else Inr (word_of_int v))"

definition narrow_check_s :: "int \<Rightarrow> 'a::len word res" where
  "narrow_check_s v =
     (if v < - (2 ^ (LENGTH('a) - 1)) \<or> v > 2 ^ (LENGTH('a) - 1) - 1 then Inl TypeOverflowException
      else Inr (word_of_int v))"

section \<open>The most significant bit\<close>

text \<open>The generic loop of the header, and the table driven functions of the source file.\<close>

function msb_loop :: "'a::len word \<Rightarrow> nat" where
  "msb_loop num = (let num' = drop_bit 1 num in if num' \<noteq> 0 then msb_loop num' + 1 else 0)"
  by pat_completeness auto
termination
  by (relation "measure unat") (auto intro: drop_bit_nonzero_less simp del: drop_bit_Suc)

declare msb_loop.simps [simp del]

definition MultiplyDeBruijnBitPosition :: "nat list" where
  "MultiplyDeBruijnBitPosition =
     [0, 9, 1, 10, 13, 21, 2, 29, 11, 14, 16, 18, 22, 25, 3, 30,
      8, 12, 20, 28, 15, 17, 24, 7, 19, 27, 23, 6, 26, 5, 4, 31]"

definition msb32 :: "u32 \<Rightarrow> nat" where
  "msb32 v0 =
     (let v1 = v0 OR drop_bit 1 v0;
          v2 = v1 OR drop_bit 2 v1;
          v3 = v2 OR drop_bit 4 v2;
          v4 = v3 OR drop_bit 8 v3;
          v5 = v4 OR drop_bit 16 v4
      in MultiplyDeBruijnBitPosition ! unat (drop_bit 27 (v5 * 0x07C4ACDD)))"

definition msb64 :: "u64 \<Rightarrow> nat" where
  "msb64 v =
     (if drop_bit 32 v \<noteq> 0 then msb32 (ucast (drop_bit 32 v)) + 32 else msb32 (ucast v))"

subsection \<open>Lemmas\<close>

lemma msb_loop_bit:
  fixes num :: "'a::len word"
  assumes "num \<noteq> 0"
  shows "bit num (msb_loop num) \<and> (\<forall>n > msb_loop num. \<not> bit num n)"
  using assms
proof (induction num rule: msb_loop.induct)
  case (1 num)
  define h where "h = drop_bit 1 num"
  have nx: "bit num (Suc n) = bit h n" for n
    unfolding h_def by (simp only: bit_drop_bit_eq comp_def plus_1_eq_Suc)
  show ?case
  proof (cases "h = 0")
    case True
    then have no: "\<not> bit num (Suc n)" for n by (simp add: nx)
    obtain n where "bit num n" using "1.prems" unfolding bit_eq_iff by auto
    then have "bit num 0" using no by (cases n) auto
    moreover have "\<not> bit num n" if "0 < n" for n using no that by (cases n) auto
    ultimately show ?thesis using True by (simp add: msb_loop.simps [of num] h_def)
  next
    case False
    then have "bit h (msb_loop h) \<and> (\<forall>n > msb_loop h. \<not> bit h n)"
      using 1 unfolding h_def by blast
    then have "bit num (Suc (msb_loop h)) \<and> (\<forall>n > Suc (msb_loop h). \<not> bit num n)"
      using nx by (metis Suc_lessE Suc_less_eq)
    moreover have "msb_loop num = Suc (msb_loop h)"
      using False by (simp add: msb_loop.simps [of num] h_def)
    ultimately show ?thesis by simp
  qed
qed

lemma msb_loop_unique:
  fixes num :: "'a::len word"
  assumes "bit num k" "\<And>n. n > k \<Longrightarrow> \<not> bit num n"
  shows "msb_loop num = k"
proof -
  have "num \<noteq> 0" using assms(1) by auto
  from msb_loop_bit [OF this] assms show ?thesis by (metis linorder_neqE_nat)
qed

text \<open>
  One smearing step doubles the distance over which the bits above a position are
  collected at it, so that after five steps every position below the most significant
  bit is set.
\<close>

lemma smear_step:
  fixes v w :: "'a::len word"
  assumes "\<And>n. bit w n \<longleftrightarrow> (\<exists>j < k. bit v (n + j))"
  shows "bit (w OR drop_bit k w) n \<longleftrightarrow> (\<exists>j < k + k. bit v (n + j))"
proof -
  have "bit (w OR drop_bit k w) n \<longleftrightarrow> (\<exists>j < k. bit v (n + j)) \<or> (\<exists>j < k. bit v (n + (k + j)))"
    by (simp add: bit_or_iff bit_drop_bit_eq assms ac_simps)
  also have "\<dots> \<longleftrightarrow> (\<exists>j < k + k. bit v (n + j))"
    by (metis add_less_cancel_left le_Suc_ex less_add_same_cancel1 not_less trans_less_add1 less_imp_le_nat)
  finally show ?thesis .
qed

lemma msb32_table:
  "\<forall>k \<in> set [0..<32]. MultiplyDeBruijnBitPosition ! unat (drop_bit 27 (mask (Suc k) * 0x07C4ACDD :: u32)) = k"
  by code_simp

lemma msb32_smear:
  fixes v0 :: u32
  assumes "v0 \<noteq> 0"
  defines "v1 \<equiv> v0 OR drop_bit 1 v0"
  defines "v2 \<equiv> v1 OR drop_bit 2 v1"
  defines "v3 \<equiv> v2 OR drop_bit 4 v2"
  defines "v4 \<equiv> v3 OR drop_bit 8 v3"
  shows "v4 OR drop_bit 16 v4 = mask (Suc (msb_loop v0))"
proof (rule bit_word_eqI)
  fix n assume n: "n < LENGTH(32)"
  have 0: "bit v0 n \<longleftrightarrow> (\<exists>j < 1. bit v0 (n + j))" for n by simp
  have 1: "bit v1 n \<longleftrightarrow> (\<exists>j < 2. bit v0 (n + j))" for n
    unfolding v1_def using smear_step [of v0 1 v0 n, OF 0] by (simp only: one_add_one)
  have 2: "bit v2 n \<longleftrightarrow> (\<exists>j < 4. bit v0 (n + j))" for n
    unfolding v2_def using smear_step [of v1 2 v0 n, OF 1] by simp
  have 3: "bit v3 n \<longleftrightarrow> (\<exists>j < 8. bit v0 (n + j))" for n
    unfolding v3_def using smear_step [of v2 4 v0 n, OF 2] by simp
  have 4: "bit v4 n \<longleftrightarrow> (\<exists>j < 16. bit v0 (n + j))" for n
    unfolding v4_def using smear_step [of v3 8 v0 n, OF 3] by simp
  have "bit (v4 OR drop_bit 16 v4) n \<longleftrightarrow> (\<exists>j < 32. bit v0 (n + j))"
    using smear_step [of v4 16 v0 n, OF 4] by simp
  also have "\<dots> \<longleftrightarrow> n \<le> msb_loop v0"
  proof
    assume "\<exists>j < 32. bit v0 (n + j)"
    then show "n \<le> msb_loop v0" using msb_loop_bit [OF assms(1)] by (metis le_add1 le_trans not_less)
  next
    assume le: "n \<le> msb_loop v0"
    have "bit v0 (n + (msb_loop v0 - n))" using le msb_loop_bit [OF assms(1)] by simp
    moreover have "msb_loop v0 < 32" using msb_loop_bit [OF assms(1)] bit_imp_le_length [of v0 "msb_loop v0"] by simp
    ultimately show "\<exists>j < 32. bit v0 (n + j)" by (metis diff_le_self le_less_trans)
  qed
  finally show "bit (v4 OR drop_bit 16 v4) n = bit (mask (Suc (msb_loop v0)) :: u32) n"
    using n by (simp add: bit_mask_iff less_Suc_eq_le)
qed

lemma msb32_eq: "msb32 v = msb_loop v"
proof (cases "v = 0")
  case True
  then show ?thesis by (simp add: msb32_def MultiplyDeBruijnBitPosition_def msb_loop.simps)
next
  case False
  then have "msb_loop v \<in> set [0..<32]"
    using msb_loop_bit [OF False] bit_imp_le_length [of v "msb_loop v"] by simp
  then show ?thesis using msb32_table msb32_smear [OF False] unfolding msb32_def Let_def by (simp only: ball_simps)
qed

lemma msb64_eq: "msb64 v = msb_loop v"
proof (cases "drop_bit 32 v = 0")
  case True
  then have lo: "bit v n \<longleftrightarrow> bit (ucast v :: u32) n" for n
  proof -
    have "bit (drop_bit 32 v) (n - 32) = False" using True by simp
    then show ?thesis by (cases "n < 32") (simp_all add: bit_ucast_iff bit_drop_bit_eq)
  qed
  show ?thesis
  proof (cases "v = 0")
    case True
    then show ?thesis by (simp add: msb64_def msb32_eq msb_loop.simps)
  next
    case False
    then have "(ucast v :: u32) \<noteq> 0" using lo by (metis bit_0_eq bot_apply bit_eqI)
    then have "msb_loop v = msb_loop (ucast v :: u32)" using msb_loop_bit lo by (intro msb_loop_unique) auto
    then show ?thesis using True \<open>drop_bit 32 v = 0\<close> by (simp add: msb64_def msb32_eq)
  qed
next
  case False
  define h :: u32 where "h = ucast (drop_bit 32 v)"
  have hi: "bit v (32 + n) \<longleftrightarrow> bit h n" for n
    by (auto simp: h_def bit_ucast_iff bit_drop_bit_eq dest: bit_imp_le_length)
  have "h \<noteq> 0"
  proof
    assume "h = 0"
    then have "\<not> bit v (32 + n)" for n using hi by simp
    then have "drop_bit 32 v = 0" by (intro bit_word_eqI) (simp add: bit_drop_bit_eq)
    with False show False by simp
  qed
  note h = msb_loop_bit [OF this]
  have "msb_loop v = 32 + msb_loop h"
  proof (rule msb_loop_unique)
    show "bit v (32 + msb_loop h)" using h hi by blast
    show "\<not> bit v n" if "32 + msb_loop h < n" for n
      using h hi [of "n - 32"] that by simp
  qed
  then show ?thesis using False by (simp add: msb64_def msb32_eq h_def)
qed


lemma unat_ucast_32_64 [simp]: "unat (ucast (c :: u32) :: u64) = unat c"
  by (simp add: unat_ucast_up)

lemma div_mult_split:
  fixes A B C :: nat
  assumes "0 < C"
  shows "A * B div C = A div C * (B div C) * C + A div C * (B mod C) + B div C * (A mod C) + (A mod C * (B mod C)) div C"
proof -
  have "A * B = (A div C * C + A mod C) * (B div C * C + B mod C)" by simp
  also have "\<dots> = C * (A div C * (B div C) * C + A div C * (B mod C) + B div C * (A mod C)) + A mod C * (B mod C)"
    by (simp only: algebra_simps)
  finally show ?thesis using assms by simp
qed

lemma rem_product_small:
  fixes a b :: u64 and c :: u32
  assumes "c \<noteq> 0"
  shows "unat (a mod ucast c) * unat (b mod ucast c) < 2 ^ 64"
proof -
  have c: "0 < unat c" "unat c < 2 ^ 32" using assms unsigned_less [of c] by (simp_all add: unat_gt_0)
  then have "unat a mod unat c < 2 ^ 32" "unat b mod unat c < 2 ^ 32"
    by (meson less_trans mod_less_divisor)+
  then have "(unat a mod unat c) * (unat b mod unat c) < 2 ^ 32 * 2 ^ 32"
    by (intro mult_strict_mono) simp_all
  then show ?thesis by (simp add: unat_mod)
qed

lemma multiplyDiv64_eq:
  assumes "c \<noteq> 0" "wide \<Longrightarrow> unat a * unat b < 2 ^ 127"
  shows "multiplyDiv64 wide a b c = Inr (of_nat (unat a * unat b div unat c))"
proof -
  have "a * b div ucast c = of_nat (unat a * unat b div unat c)" if "unat a * unat b < 2 ^ 64"
    using that by (intro word_eq_unatI)
      (simp add: unat_div unat_word_ariths unat_of_nat_small order.strict_trans1 [OF div_le_dividend])
  moreover have "(let a_c = a div ucast c; r_a = a mod ucast c; b_c = b div ucast c; r_b = b mod ucast c
       in a_c * b_c * ucast c + a_c * r_b + b_c * r_a + (r_a * r_b) div ucast c)
      = of_nat (unat a * unat b div unat c)"
  proof -
    have w: "unat x = n \<Longrightarrow> x = of_nat n" for x :: u64 and n by auto
    have "0 < unat c" using assms by (simp add: unat_gt_0)
    note split = div_mult_split [OF this, of "unat a" "unat b"]
    have t: "(a mod ucast c) * (b mod ucast c) div ucast c = of_nat (unat a mod unat c * (unat b mod unat c) div unat c)"
      using rem_product_small [OF assms(1), of a b]
      by (intro w) (simp add: unat_div unat_mod unat_word_ariths)
    have q: "x div ucast c = of_nat (unat x div unat c)" "x mod ucast c = of_nat (unat x mod unat c)" for x :: u64
      by (intro w, simp add: unat_div unat_mod)+
    have c: "ucast c = (of_nat (unat c) :: u64)" by (intro w) simp
    show ?thesis
      unfolding Let_def t split unfolding q unfolding c by (simp only: of_nat_add of_nat_mult)
  qed
  ultimately show ?thesis using assms by (auto simp: multiplyDiv64_def mul_overflow_def Let_def not_le)
qed

lemma multiplyMod64_eq:
  assumes "c \<noteq> 0" "wide \<Longrightarrow> unat a * unat b < 2 ^ 127"
  shows "multiplyMod64 wide a b c = Inr (of_nat (unat a * unat b mod unat c))"
proof -
  have *: "unat (of_nat (unat a * unat b mod unat c) :: u64) = unat a * unat b mod unat c"
  proof -
    have "unat a * unat b mod unat c < unat c" using assms by (simp add: unat_gt_0)
    also have "unat c < 2 ^ 64" using unat_bound [of c] by simp
    finally show ?thesis by (intro unat_of_nat_small) simp
  qed
  have "a * b mod ucast c = of_nat (unat a * unat b mod unat c)" if "unat a * unat b < 2 ^ 64"
    using that by (intro word_eq_unatI) (simp only: *, simp add: unat_mod unat_word_ariths)
  moreover have "((a mod ucast c) * (b mod ucast c)) mod ucast c = of_nat (unat a * unat b mod unat c)"
    using rem_product_small [OF assms(1), of a b]
    by (intro word_eq_unatI) (simp only: *, simp add: unat_mod unat_word_ariths mod_mult_eq)
  ultimately show ?thesis using assms by (auto simp: multiplyMod64_def mul_overflow_def Let_def not_le)
qed


lemma multiplyDiv64_8:
  assumes "unat a * unat b < 2 ^ 64"
  shows "multiplyDiv64 wide a b 8 = Inr (of_nat (unat a * unat b div 8))"
  using multiplyDiv64_eq [of 8 wide a b] assms by simp

lemma multiplyMod64_8:
  assumes "unat a * unat b < 2 ^ 64"
  shows "multiplyMod64 wide a b 8 = Inr (of_nat (unat a * unat b mod 8))"
  using multiplyMod64_eq [of 8 wide a b] assms by simp

lemma createMask_mask: "n \<le> 32 \<Longrightarrow> createMask (of_nat n) = mask n"
proof -
  assume n: "n \<le> 32"
  then have u: "unat (of_nat n :: u32) = n" by (intro unat_of_nat_small) simp
  show ?thesis
  proof (cases "n = 32")
    case True
    then show ?thesis by (simp add: createMask_def mask_eq_exp_minus_1)
  next
    case False
    then have "(of_nat n :: u32) \<noteq> 32" using u n by auto
    then show ?thesis using u by (simp add: createMask_def mask_eq_exp_minus_1 push_bit_eq_mult)
  qed
qed

lemma createMask64_mask: "n \<le> 64 \<Longrightarrow> createMask64 (of_nat n) = mask n"
proof -
  assume n: "n \<le> 64"
  then have u: "unat (of_nat n :: u64) = n" by (intro unat_of_nat_small) simp
  show ?thesis
  proof (cases "n = 64")
    case True
    then show ?thesis by (simp add: createMask64_def mask_eq_exp_minus_1)
  next
    case False
    then have "(of_nat n :: u64) \<noteq> 64" using u n by auto
    then show ?thesis using u by (simp add: createMask64_def mask_eq_exp_minus_1 push_bit_eq_mult)
  qed
qed

section \<open>Properties\<close>

text \<open>The table driven functions for the most significant bit agree with the generic loop on every
  32 and every 64 bit value.\<close>

theorem msb_table_equals_loop:
  shows "msb32 v = msb_loop v \<and> msb64 w = msb_loop w"
  by (simp add: msb32_eq msb64_eq)

text \<open>The portable quotient and remainder of a 64 bit product are exact for every operand, also
  when the product does not fit 64 bits; the 128 bit variant agrees while the product is below
  \<open>2 ^ 127\<close>.\<close>

theorem multiply_div_mod_exact:
  assumes "c \<noteq> 0" "wide \<Longrightarrow> unat a * unat b < 2 ^ 127"
  shows "multiplyDiv64 wide a b c = Inr (of_nat (unat a * unat b div unat c)) \<and>
         multiplyMod64 wide a b c = Inr (of_nat (unat a * unat b mod unat c))"
  using multiplyDiv64_eq [OF assms] multiplyMod64_eq [OF assms] by simp

theorem multiply_div_mod_exact_witness:
  "multiplyDiv64 False (2 ^ 63) 6 8 = Inr (6 * 2 ^ 60) \<and> multiplyMod64 True (2 ^ 63 + 1) 3 8 = Inr 3"
  using multiply_div_mod_exact [of 8 False "2 ^ 63" 6] multiply_div_mod_exact [of 8 True "2 ^ 63 + 1" 3]
  by simp

end
