(* ===== verification/Storage.thy ===== *)
theory Storage
  imports PackUnpack
begin

text \<open>
  The storage behind an adapter: \<open>UByteArrayAdapterPrivate\<close> and its implementations in
  \<open>src/storage/UByteArrayAdapterPrivates/\<close>. Modelled are the raw array, the
  \<open>std::vector\<close> (contiguous, inherits the accessors of the array), the container template
  used with \<open>std::deque\<close>, and the empty storage. The definitions \<open>array_*\<close> and
  \<open>container_*\<close> are the methods of these classes, \<open>priv_*\<close> is the virtual call.

  Storage is its bytes and the class it has. For the raw array the bytes are the
  allocation behind the pointer. The container and the vector never exceed
  \<open>max_size ()\<close>, which is \<open>2 ^ 63 - 1\<close> for bytes; a larger resize throws.
\<close>

datatype backend = ArrayB | VectorB | DequeB | EmptyB

record priv =
  kind :: backend
  mem :: bytes

definition max_size :: nat where
  "max_size = 2 ^ 63 - 1"

section \<open>Access to the bytes\<close>

text \<open>Contiguous memory: a block is copied from or to \<open>m_data + pos\<close>.\<close>

definition array_get :: "priv \<Rightarrow> u64 \<Rightarrow> nat \<Rightarrow> bytes res" where
  "array_get p pos len =
     (if unat pos + len \<le> length (mem p) then Inr (chunk (unat pos) len (mem p)) else Inl MemFault)"

definition array_put :: "priv \<Rightarrow> u64 \<Rightarrow> bytes \<Rightarrow> priv res" where
  "array_put p pos src =
     (if unat pos + length src \<le> length (mem p) then Inr (p\<lparr>mem := blit (unat pos) src (mem p)\<rparr>)
      else Inl MemFault)"

text \<open>A container: one element after the other, at \<open>pos + i\<close>.\<close>

fun container_read :: "bytes \<Rightarrow> u64 \<Rightarrow> nat \<Rightarrow> bytes res" where
  "container_read m pos 0 = Inr []"
| "container_read m pos (Suc n) =
     (if unat pos < length m
      then bindE (container_read m (pos + 1) n) (\<lambda>bs. Inr (m ! unat pos # bs))
      else Inl MemFault)"

fun container_write :: "bytes \<Rightarrow> u64 \<Rightarrow> bytes \<Rightarrow> bytes res" where
  "container_write m pos [] = Inr m"
| "container_write m pos (b # bs) =
     (if unat pos < length m then container_write (m[unat pos := b]) (pos + 1) bs else Inl MemFault)"

definition container_get :: "priv \<Rightarrow> u64 \<Rightarrow> nat \<Rightarrow> bytes res" where
  "container_get p pos len = container_read (mem p) pos len"

definition container_put :: "priv \<Rightarrow> u64 \<Rightarrow> bytes \<Rightarrow> priv res" where
  "container_put p pos src = bindE (container_write (mem p) pos src) (\<lambda>m. Inr (p\<lparr>mem := m\<rparr>))"

text \<open>The empty storage leaves the destination buffer \<open>dest\<close> as it is.\<close>

definition priv_get :: "priv \<Rightarrow> u64 \<Rightarrow> bytes \<Rightarrow> bytes res" where
  "priv_get p pos dest =
     (case kind p of EmptyB \<Rightarrow> Inr dest | DequeB \<Rightarrow> container_get p pos (length dest)
      | _ \<Rightarrow> array_get p pos (length dest))"

definition priv_put :: "priv \<Rightarrow> u64 \<Rightarrow> bytes \<Rightarrow> priv res" where
  "priv_put p pos src =
     (case kind p of EmptyB \<Rightarrow> Inr p | DequeB \<Rightarrow> container_put p pos src | _ \<Rightarrow> array_put p pos src)"

section \<open>Size\<close>

definition isContiguous :: "priv \<Rightarrow> bool" where
  "isContiguous p = (case kind p of ArrayB \<Rightarrow> True | VectorB \<Rightarrow> True | DequeB \<Rightarrow> False | EmptyB \<Rightarrow> False)"

definition vector_size :: "priv \<Rightarrow> u64" where
  "vector_size p = of_nat (length (mem p))"

definition container_size :: "priv \<Rightarrow> u64" where
  "container_size p = of_nat (length (mem p))"

definition array_size :: "priv \<Rightarrow> u64 res" where
  "array_size p = Inl UnimplementedFunctionException"

definition priv_size :: "priv \<Rightarrow> u64 res" where
  "priv_size p =
     (case kind p of EmptyB \<Rightarrow> Inr 0 | ArrayB \<Rightarrow> array_size p | VectorB \<Rightarrow> Inr (vector_size p)
      | DequeB \<Rightarrow> Inr (container_size p))"

text \<open>\<open>resize\<close> of \<open>std::vector\<close> and \<open>std::deque\<close>: cut off, or fill with zeros.\<close>

definition std_resize :: "priv \<Rightarrow> u64 \<Rightarrow> priv res" where
  "std_resize p sz =
     (if unat sz > max_size then Inl StdLengthError
      else Inr (p\<lparr>mem := take (unat sz) (mem p) @ replicate (unat sz - length (mem p)) 0\<rparr>))"

definition vector_shrinkStorage :: "priv \<Rightarrow> u64 \<Rightarrow> (bool \<times> priv) res" where
  "vector_shrinkStorage p sz0 =
     (let sz = (if vector_size p < sz0 then vector_size p else sz0)
      in bindE (std_resize p (vector_size p - sz)) (\<lambda>p'. Inr (True, p')))"

definition vector_growStorage :: "priv \<Rightarrow> u64 \<Rightarrow> (bool \<times> priv) res" where
  "vector_growStorage p sz =
     (if vector_size p < sz then bindE (std_resize p sz) (\<lambda>p'. Inr (True, p')) else Inr (True, p))"

definition container_shrinkStorage :: "priv \<Rightarrow> u64 \<Rightarrow> (bool \<times> priv) res" where
  "container_shrinkStorage p sz0 =
     (let sz = (if container_size p < sz0 then container_size p else sz0)
      in bindE (std_resize p (container_size p - sz)) (\<lambda>p'. Inr (True, p')))"

definition container_growStorage :: "priv \<Rightarrow> u64 \<Rightarrow> (bool \<times> priv) res" where
  "container_growStorage p sz =
     (if container_size p < sz then bindE (std_resize p sz) (\<lambda>p'. Inr (True, p')) else Inr (True, p))"

definition array_shrinkStorage :: "priv \<Rightarrow> u64 \<Rightarrow> (bool \<times> priv) res" where
  "array_shrinkStorage p sz = Inr (False, p)"

definition array_growStorage :: "priv \<Rightarrow> u64 \<Rightarrow> (bool \<times> priv) res" where
  "array_growStorage p sz = Inr (False, p)"

definition priv_shrinkStorage :: "priv \<Rightarrow> u64 \<Rightarrow> (bool \<times> priv) res" where
  "priv_shrinkStorage p sz =
     (case kind p of EmptyB \<Rightarrow> Inr (False, p) | ArrayB \<Rightarrow> array_shrinkStorage p sz
      | VectorB \<Rightarrow> vector_shrinkStorage p sz | DequeB \<Rightarrow> container_shrinkStorage p sz)"

definition priv_growStorage :: "priv \<Rightarrow> u64 \<Rightarrow> (bool \<times> priv) res" where
  "priv_growStorage p sz =
     (case kind p of EmptyB \<Rightarrow> Inr (False, p) | ArrayB \<Rightarrow> array_growStorage p sz
      | VectorB \<Rightarrow> vector_growStorage p sz | DequeB \<Rightarrow> container_growStorage p sz)"

section \<open>Fixed width accessors\<close>

definition array_getUint8 :: "priv \<Rightarrow> u64 \<Rightarrow> u8 res" where
  "array_getUint8 p pos = bindE (array_get p pos 1) (\<lambda>src. Inr (hd src))"

definition container_getUint8 :: "priv \<Rightarrow> u64 \<Rightarrow> u8 res" where
  "container_getUint8 p pos = bindE (container_read (mem p) pos 1) (\<lambda>src. Inr (hd src))"

definition array_putUint8 :: "priv \<Rightarrow> u64 \<Rightarrow> u8 \<Rightarrow> priv res" where
  "array_putUint8 p pos value = array_put p pos [value]"

definition container_putUint8 :: "priv \<Rightarrow> u64 \<Rightarrow> u8 \<Rightarrow> priv res" where
  "container_putUint8 p pos value = container_put p pos [value]"

definition priv_getUint8 :: "priv \<Rightarrow> u64 \<Rightarrow> u8 res" where
  "priv_getUint8 p pos =
     (case kind p of EmptyB \<Rightarrow> Inr 0 | DequeB \<Rightarrow> container_getUint8 p pos | _ \<Rightarrow> array_getUint8 p pos)"

definition priv_putUint8 :: "priv \<Rightarrow> u64 \<Rightarrow> u8 \<Rightarrow> priv res" where
  "priv_putUint8 p pos value =
     (case kind p of EmptyB \<Rightarrow> Inr p | DequeB \<Rightarrow> container_putUint8 p pos value | _ \<Rightarrow> array_putUint8 p pos value)"

definition array_getInt64 :: "priv \<Rightarrow> u64 \<Rightarrow> s64 res" where
  "array_getInt64 p pos = bindE (array_get p pos 8) (\<lambda>src. Inr (up_s64 src))"

definition container_getInt64 :: "priv \<Rightarrow> u64 \<Rightarrow> s64 res" where
  "container_getInt64 p pos = bindE (container_read (mem p) pos 8) (\<lambda>tmp. Inr (up_s64 tmp))"

definition priv_getInt64 :: "priv \<Rightarrow> u64 \<Rightarrow> s64 res" where
  "priv_getInt64 p pos =
     (case kind p of EmptyB \<Rightarrow> Inr 0 | DequeB \<Rightarrow> container_getInt64 p pos | _ \<Rightarrow> array_getInt64 p pos)"

definition array_putInt64 :: "priv \<Rightarrow> u64 \<Rightarrow> s64 \<Rightarrow> priv res" where
  "array_putInt64 p pos value = array_put p pos (p_s64 value)"

definition container_putInt64 :: "priv \<Rightarrow> u64 \<Rightarrow> s64 \<Rightarrow> priv res" where
  "container_putInt64 p pos value = (let buf = p_s64 value in container_put p pos buf)"

definition priv_putInt64 :: "priv \<Rightarrow> u64 \<Rightarrow> s64 \<Rightarrow> priv res" where
  "priv_putInt64 p pos value =
     (case kind p of EmptyB \<Rightarrow> Inr p | DequeB \<Rightarrow> container_putInt64 p pos value | _ \<Rightarrow> array_putInt64 p pos value)"

definition array_getUint64 :: "priv \<Rightarrow> u64 \<Rightarrow> u64 res" where
  "array_getUint64 p pos = bindE (array_get p pos 8) (\<lambda>src. Inr (up_u64 src))"

definition container_getUint64 :: "priv \<Rightarrow> u64 \<Rightarrow> u64 res" where
  "container_getUint64 p pos = bindE (container_read (mem p) pos 8) (\<lambda>tmp. Inr (up_u64 tmp))"

definition priv_getUint64 :: "priv \<Rightarrow> u64 \<Rightarrow> u64 res" where
  "priv_getUint64 p pos =
     (case kind p of EmptyB \<Rightarrow> Inr 0 | DequeB \<Rightarrow> container_getUint64 p pos | _ \<Rightarrow> array_getUint64 p pos)"

definition array_putUint64 :: "priv \<Rightarrow> u64 \<Rightarrow> u64 \<Rightarrow> priv res" where
  "array_putUint64 p pos value = array_put p pos (p_u64 value)"

definition container_putUint64 :: "priv \<Rightarrow> u64 \<Rightarrow> u64 \<Rightarrow> priv res" where
  "container_putUint64 p pos value = (let buf = p_u64 value in container_put p pos buf)"

definition priv_putUint64 :: "priv \<Rightarrow> u64 \<Rightarrow> u64 \<Rightarrow> priv res" where
  "priv_putUint64 p pos value =
     (case kind p of EmptyB \<Rightarrow> Inr p | DequeB \<Rightarrow> container_putUint64 p pos value | _ \<Rightarrow> array_putUint64 p pos value)"

definition array_getInt32 :: "priv \<Rightarrow> u64 \<Rightarrow> s32 res" where
  "array_getInt32 p pos = bindE (array_get p pos 4) (\<lambda>src. Inr (up_s32 src))"

definition container_getInt32 :: "priv \<Rightarrow> u64 \<Rightarrow> s32 res" where
  "container_getInt32 p pos = bindE (container_read (mem p) pos 4) (\<lambda>tmp. Inr (up_s32 tmp))"

definition priv_getInt32 :: "priv \<Rightarrow> u64 \<Rightarrow> s32 res" where
  "priv_getInt32 p pos =
     (case kind p of EmptyB \<Rightarrow> Inr 0 | DequeB \<Rightarrow> container_getInt32 p pos | _ \<Rightarrow> array_getInt32 p pos)"

definition array_putInt32 :: "priv \<Rightarrow> u64 \<Rightarrow> s32 \<Rightarrow> priv res" where
  "array_putInt32 p pos value = array_put p pos (p_s32 value)"

definition container_putInt32 :: "priv \<Rightarrow> u64 \<Rightarrow> s32 \<Rightarrow> priv res" where
  "container_putInt32 p pos value = (let buf = p_s32 value in container_put p pos buf)"

definition priv_putInt32 :: "priv \<Rightarrow> u64 \<Rightarrow> s32 \<Rightarrow> priv res" where
  "priv_putInt32 p pos value =
     (case kind p of EmptyB \<Rightarrow> Inr p | DequeB \<Rightarrow> container_putInt32 p pos value | _ \<Rightarrow> array_putInt32 p pos value)"

definition array_getUint32 :: "priv \<Rightarrow> u64 \<Rightarrow> u32 res" where
  "array_getUint32 p pos = bindE (array_get p pos 4) (\<lambda>src. Inr (up_u32 src))"

definition container_getUint32 :: "priv \<Rightarrow> u64 \<Rightarrow> u32 res" where
  "container_getUint32 p pos = bindE (container_read (mem p) pos 4) (\<lambda>tmp. Inr (up_u32 tmp))"

definition priv_getUint32 :: "priv \<Rightarrow> u64 \<Rightarrow> u32 res" where
  "priv_getUint32 p pos =
     (case kind p of EmptyB \<Rightarrow> Inr 0 | DequeB \<Rightarrow> container_getUint32 p pos | _ \<Rightarrow> array_getUint32 p pos)"

definition array_putUint32 :: "priv \<Rightarrow> u64 \<Rightarrow> u32 \<Rightarrow> priv res" where
  "array_putUint32 p pos value = array_put p pos (p_u32 value)"

definition container_putUint32 :: "priv \<Rightarrow> u64 \<Rightarrow> u32 \<Rightarrow> priv res" where
  "container_putUint32 p pos value = (let buf = p_u32 value in container_put p pos buf)"

definition priv_putUint32 :: "priv \<Rightarrow> u64 \<Rightarrow> u32 \<Rightarrow> priv res" where
  "priv_putUint32 p pos value =
     (case kind p of EmptyB \<Rightarrow> Inr p | DequeB \<Rightarrow> container_putUint32 p pos value | _ \<Rightarrow> array_putUint32 p pos value)"

definition array_getUint24 :: "priv \<Rightarrow> u64 \<Rightarrow> u32 res" where
  "array_getUint24 p pos = bindE (array_get p pos 3) (\<lambda>src. Inr (up_u24 src))"

definition container_getUint24 :: "priv \<Rightarrow> u64 \<Rightarrow> u32 res" where
  "container_getUint24 p pos = bindE (container_read (mem p) pos 3) (\<lambda>tmp. Inr (up_u24 tmp))"

definition priv_getUint24 :: "priv \<Rightarrow> u64 \<Rightarrow> u32 res" where
  "priv_getUint24 p pos =
     (case kind p of EmptyB \<Rightarrow> Inr 0 | DequeB \<Rightarrow> container_getUint24 p pos | _ \<Rightarrow> array_getUint24 p pos)"

definition array_putUint24 :: "priv \<Rightarrow> u64 \<Rightarrow> u32 \<Rightarrow> priv res" where
  "array_putUint24 p pos value = array_put p pos (p_u24 value)"

definition container_putUint24 :: "priv \<Rightarrow> u64 \<Rightarrow> u32 \<Rightarrow> priv res" where
  "container_putUint24 p pos value = (let buf = p_u24 value in container_put p pos buf)"

definition priv_putUint24 :: "priv \<Rightarrow> u64 \<Rightarrow> u32 \<Rightarrow> priv res" where
  "priv_putUint24 p pos value =
     (case kind p of EmptyB \<Rightarrow> Inr p | DequeB \<Rightarrow> container_putUint24 p pos value | _ \<Rightarrow> array_putUint24 p pos value)"

definition array_getUint16 :: "priv \<Rightarrow> u64 \<Rightarrow> u16 res" where
  "array_getUint16 p pos = bindE (array_get p pos 2) (\<lambda>src. Inr (up_u16 src))"

definition container_getUint16 :: "priv \<Rightarrow> u64 \<Rightarrow> u16 res" where
  "container_getUint16 p pos = bindE (container_read (mem p) pos 2) (\<lambda>tmp. Inr (up_u16 tmp))"

definition priv_getUint16 :: "priv \<Rightarrow> u64 \<Rightarrow> u16 res" where
  "priv_getUint16 p pos =
     (case kind p of EmptyB \<Rightarrow> Inr 0 | DequeB \<Rightarrow> container_getUint16 p pos | _ \<Rightarrow> array_getUint16 p pos)"

definition array_putUint16 :: "priv \<Rightarrow> u64 \<Rightarrow> u16 \<Rightarrow> priv res" where
  "array_putUint16 p pos value = array_put p pos (p_u16 value)"

definition container_putUint16 :: "priv \<Rightarrow> u64 \<Rightarrow> u16 \<Rightarrow> priv res" where
  "container_putUint16 p pos value = (let buf = p_u16 value in container_put p pos buf)"

definition priv_putUint16 :: "priv \<Rightarrow> u64 \<Rightarrow> u16 \<Rightarrow> priv res" where
  "priv_putUint16 p pos value =
     (case kind p of EmptyB \<Rightarrow> Inr p | DequeB \<Rightarrow> container_putUint16 p pos value | _ \<Rightarrow> array_putUint16 p pos value)"

definition array_getNegativeOffset :: "priv \<Rightarrow> u64 \<Rightarrow> s64 res" where
  "array_getNegativeOffset p pos = bindE (array_get p pos 5) (\<lambda>src. Inr (up_s40 src))"

definition container_getNegativeOffset :: "priv \<Rightarrow> u64 \<Rightarrow> s64 res" where
  "container_getNegativeOffset p pos = bindE (container_read (mem p) pos 5) (\<lambda>tmp. Inr (up_s40 tmp))"

definition priv_getNegativeOffset :: "priv \<Rightarrow> u64 \<Rightarrow> s64 res" where
  "priv_getNegativeOffset p pos =
     (case kind p of EmptyB \<Rightarrow> Inr 0 | DequeB \<Rightarrow> container_getNegativeOffset p pos | _ \<Rightarrow> array_getNegativeOffset p pos)"

definition array_putNegativeOffset :: "priv \<Rightarrow> u64 \<Rightarrow> s64 \<Rightarrow> priv res" where
  "array_putNegativeOffset p pos value = bindE (p_s40 value) (\<lambda>bs. array_put p pos bs)"

definition container_putNegativeOffset :: "priv \<Rightarrow> u64 \<Rightarrow> s64 \<Rightarrow> priv res" where
  "container_putNegativeOffset p pos value = bindE (p_s40 value) (\<lambda>buf. container_put p pos buf)"

definition priv_putNegativeOffset :: "priv \<Rightarrow> u64 \<Rightarrow> s64 \<Rightarrow> priv res" where
  "priv_putNegativeOffset p pos value =
     (case kind p of EmptyB \<Rightarrow> Inr p | DequeB \<Rightarrow> container_putNegativeOffset p pos value | _ \<Rightarrow> array_putNegativeOffset p pos value)"

definition array_getOffset :: "priv \<Rightarrow> u64 \<Rightarrow> u64 res" where
  "array_getOffset p pos = bindE (array_get p pos 5) (\<lambda>src. Inr (up_u40 src))"

definition container_getOffset :: "priv \<Rightarrow> u64 \<Rightarrow> u64 res" where
  "container_getOffset p pos = bindE (container_read (mem p) pos 5) (\<lambda>tmp. Inr (up_u40 tmp))"

definition priv_getOffset :: "priv \<Rightarrow> u64 \<Rightarrow> u64 res" where
  "priv_getOffset p pos =
     (case kind p of EmptyB \<Rightarrow> Inr 0 | DequeB \<Rightarrow> container_getOffset p pos | _ \<Rightarrow> array_getOffset p pos)"

definition array_putOffset :: "priv \<Rightarrow> u64 \<Rightarrow> u64 \<Rightarrow> priv res" where
  "array_putOffset p pos value = array_put p pos (p_u40 value)"

definition container_putOffset :: "priv \<Rightarrow> u64 \<Rightarrow> u64 \<Rightarrow> priv res" where
  "container_putOffset p pos value = (let buf = p_u40 value in container_put p pos buf)"

definition priv_putOffset :: "priv \<Rightarrow> u64 \<Rightarrow> u64 \<Rightarrow> priv res" where
  "priv_putOffset p pos value =
     (case kind p of EmptyB \<Rightarrow> Inr p | DequeB \<Rightarrow> container_putOffset p pos value | _ \<Rightarrow> array_putOffset p pos value)"

section \<open>Variable length accessors\<close>

text \<open>
  The number of bytes the decoder may look at is passed in \<open>*length\<close>; the decoder
  overwrites it with the number of bytes of the code word. The container copies at
  most the longest code word into a buffer of its own. Its writers use a buffer of
  the longest code word and do not look at \<open>maxLen\<close>; the padded writers of the
  array do not either.
\<close>

definition array_getVlPackedUint64 :: "priv \<Rightarrow> u64 \<Rightarrow> int \<Rightarrow> (u64 \<times> int) res" where
  "array_getVlPackedUint64 p pos len =
     (if len < 0 then Inl UndefinedBehaviour else bindE (array_get p pos (nat len)) up_vu64)"

definition container_getVlPackedUint64 :: "priv \<Rightarrow> u64 \<Rightarrow> int \<Rightarrow> (u64 \<times> int) res" where
  "container_getVlPackedUint64 p pos len =
     (let bufLen = unat (word_of_int (min 10 len) :: u8) in bindE (container_read (mem p) pos bufLen) up_vu64)"

definition priv_getVlPackedUint64 :: "priv \<Rightarrow> u64 \<Rightarrow> int \<Rightarrow> (u64 \<times> int) res" where
  "priv_getVlPackedUint64 p pos len =
     (case kind p of EmptyB \<Rightarrow> Inr (0, len) | DequeB \<Rightarrow> container_getVlPackedUint64 p pos len
      | _ \<Rightarrow> array_getVlPackedUint64 p pos len)"

definition array_putVlPackedUint64 :: "priv \<Rightarrow> u64 \<Rightarrow> u64 \<Rightarrow> u64 \<Rightarrow> (int \<times> priv) res" where
  "array_putVlPackedUint64 p pos value maxLen =
     (case p_vu64 value (unat maxLen) of (bs, len) \<Rightarrow> bindE (array_put p pos bs) (\<lambda>p'. Inr (len, p')))"

definition container_putVlPackedUint64 :: "priv \<Rightarrow> u64 \<Rightarrow> u64 \<Rightarrow> u64 \<Rightarrow> (int \<times> priv) res" where
  "container_putVlPackedUint64 p pos value maxLen =
     (case p_vu64 value 10 of (buf, len) \<Rightarrow>
        if len > 0 then bindE (container_put p pos (take (nat len) buf)) (\<lambda>p'. Inr (len, p'))
        else Inr (len, p))"

definition priv_putVlPackedUint64 :: "priv \<Rightarrow> u64 \<Rightarrow> u64 \<Rightarrow> u64 \<Rightarrow> (int \<times> priv) res" where
  "priv_putVlPackedUint64 p pos value maxLen =
     (case kind p of EmptyB \<Rightarrow> Inr (-1, p) | DequeB \<Rightarrow> container_putVlPackedUint64 p pos value maxLen
      | _ \<Rightarrow> array_putVlPackedUint64 p pos value maxLen)"

definition array_getVlPackedInt64 :: "priv \<Rightarrow> u64 \<Rightarrow> int \<Rightarrow> (s64 \<times> int) res" where
  "array_getVlPackedInt64 p pos len =
     (if len < 0 then Inl UndefinedBehaviour else bindE (array_get p pos (nat len)) up_vs64)"

definition container_getVlPackedInt64 :: "priv \<Rightarrow> u64 \<Rightarrow> int \<Rightarrow> (s64 \<times> int) res" where
  "container_getVlPackedInt64 p pos len =
     (let bufLen = unat (word_of_int (min 10 len) :: u8) in bindE (container_read (mem p) pos bufLen) up_vs64)"

definition priv_getVlPackedInt64 :: "priv \<Rightarrow> u64 \<Rightarrow> int \<Rightarrow> (s64 \<times> int) res" where
  "priv_getVlPackedInt64 p pos len =
     (case kind p of EmptyB \<Rightarrow> Inr (0, len) | DequeB \<Rightarrow> container_getVlPackedInt64 p pos len
      | _ \<Rightarrow> array_getVlPackedInt64 p pos len)"

definition array_putVlPackedInt64 :: "priv \<Rightarrow> u64 \<Rightarrow> s64 \<Rightarrow> u64 \<Rightarrow> (int \<times> priv) res" where
  "array_putVlPackedInt64 p pos value maxLen =
     bindE (p_vs64 value (unat maxLen)) (\<lambda>(bs, len). bindE (array_put p pos bs) (\<lambda>p'. Inr (len, p')))"

definition container_putVlPackedInt64 :: "priv \<Rightarrow> u64 \<Rightarrow> s64 \<Rightarrow> u64 \<Rightarrow> (int \<times> priv) res" where
  "container_putVlPackedInt64 p pos value maxLen =
     bindE (p_vs64 value 10) (\<lambda>(buf, len).
        if len > 0 then bindE (container_put p pos (take (nat len) buf)) (\<lambda>p'. Inr (len, p'))
        else Inr (len, p))"

definition priv_putVlPackedInt64 :: "priv \<Rightarrow> u64 \<Rightarrow> s64 \<Rightarrow> u64 \<Rightarrow> (int \<times> priv) res" where
  "priv_putVlPackedInt64 p pos value maxLen =
     (case kind p of EmptyB \<Rightarrow> Inr (-1, p) | DequeB \<Rightarrow> container_putVlPackedInt64 p pos value maxLen
      | _ \<Rightarrow> array_putVlPackedInt64 p pos value maxLen)"

definition array_getVlPackedUint32 :: "priv \<Rightarrow> u64 \<Rightarrow> int \<Rightarrow> (u32 \<times> int) res" where
  "array_getVlPackedUint32 p pos len =
     (if len < 0 then Inl UndefinedBehaviour else bindE (array_get p pos (nat len)) up_vu32)"

definition container_getVlPackedUint32 :: "priv \<Rightarrow> u64 \<Rightarrow> int \<Rightarrow> (u32 \<times> int) res" where
  "container_getVlPackedUint32 p pos len =
     (let bufLen = unat (word_of_int (min 5 len) :: u8) in bindE (container_read (mem p) pos bufLen) up_vu32)"

definition priv_getVlPackedUint32 :: "priv \<Rightarrow> u64 \<Rightarrow> int \<Rightarrow> (u32 \<times> int) res" where
  "priv_getVlPackedUint32 p pos len =
     (case kind p of EmptyB \<Rightarrow> Inr (0, len) | DequeB \<Rightarrow> container_getVlPackedUint32 p pos len
      | _ \<Rightarrow> array_getVlPackedUint32 p pos len)"

definition array_putVlPackedUint32 :: "priv \<Rightarrow> u64 \<Rightarrow> u32 \<Rightarrow> u64 \<Rightarrow> (int \<times> priv) res" where
  "array_putVlPackedUint32 p pos value maxLen =
     (case p_vu32_int value (unat maxLen) of (bs, len) \<Rightarrow> bindE (array_put p pos bs) (\<lambda>p'. Inr (len, p')))"

definition container_putVlPackedUint32 :: "priv \<Rightarrow> u64 \<Rightarrow> u32 \<Rightarrow> u64 \<Rightarrow> (int \<times> priv) res" where
  "container_putVlPackedUint32 p pos value maxLen =
     (case p_vu32_int value 5 of (buf, len) \<Rightarrow>
        if len > 0 then bindE (container_put p pos (take (nat len) buf)) (\<lambda>p'. Inr (len, p'))
        else Inr (len, p))"

definition priv_putVlPackedUint32 :: "priv \<Rightarrow> u64 \<Rightarrow> u32 \<Rightarrow> u64 \<Rightarrow> (int \<times> priv) res" where
  "priv_putVlPackedUint32 p pos value maxLen =
     (case kind p of EmptyB \<Rightarrow> Inr (-1, p) | DequeB \<Rightarrow> container_putVlPackedUint32 p pos value maxLen
      | _ \<Rightarrow> array_putVlPackedUint32 p pos value maxLen)"

definition array_getVlPackedInt32 :: "priv \<Rightarrow> u64 \<Rightarrow> int \<Rightarrow> (s32 \<times> int) res" where
  "array_getVlPackedInt32 p pos len =
     (if len < 0 then Inl UndefinedBehaviour else bindE (array_get p pos (nat len)) up_vs32)"

definition container_getVlPackedInt32 :: "priv \<Rightarrow> u64 \<Rightarrow> int \<Rightarrow> (s32 \<times> int) res" where
  "container_getVlPackedInt32 p pos len =
     (let bufLen = unat (word_of_int (min 5 len) :: u8) in bindE (container_read (mem p) pos bufLen) up_vs32)"

definition priv_getVlPackedInt32 :: "priv \<Rightarrow> u64 \<Rightarrow> int \<Rightarrow> (s32 \<times> int) res" where
  "priv_getVlPackedInt32 p pos len =
     (case kind p of EmptyB \<Rightarrow> Inr (0, len) | DequeB \<Rightarrow> container_getVlPackedInt32 p pos len
      | _ \<Rightarrow> array_getVlPackedInt32 p pos len)"

definition array_putVlPackedInt32 :: "priv \<Rightarrow> u64 \<Rightarrow> s32 \<Rightarrow> u64 \<Rightarrow> (int \<times> priv) res" where
  "array_putVlPackedInt32 p pos value maxLen =
     bindE (p_vs32 value (unat maxLen)) (\<lambda>(bs, len). bindE (array_put p pos bs) (\<lambda>p'. Inr (len, p')))"

definition container_putVlPackedInt32 :: "priv \<Rightarrow> u64 \<Rightarrow> s32 \<Rightarrow> u64 \<Rightarrow> (int \<times> priv) res" where
  "container_putVlPackedInt32 p pos value maxLen =
     bindE (p_vs32 value 5) (\<lambda>(buf, len).
        if len > 0 then bindE (container_put p pos (take (nat len) buf)) (\<lambda>p'. Inr (len, p'))
        else Inr (len, p))"

definition priv_putVlPackedInt32 :: "priv \<Rightarrow> u64 \<Rightarrow> s32 \<Rightarrow> u64 \<Rightarrow> (int \<times> priv) res" where
  "priv_putVlPackedInt32 p pos value maxLen =
     (case kind p of EmptyB \<Rightarrow> Inr (-1, p) | DequeB \<Rightarrow> container_putVlPackedInt32 p pos value maxLen
      | _ \<Rightarrow> array_putVlPackedInt32 p pos value maxLen)"

definition array_putVlPackedPad4Uint32 :: "priv \<Rightarrow> u64 \<Rightarrow> u32 \<Rightarrow> u64 \<Rightarrow> (int \<times> priv) res" where
  "array_putVlPackedPad4Uint32 p pos value maxLen =
     (case p_vu32pad4 value of (bs, len) \<Rightarrow> bindE (array_put p pos bs) (\<lambda>p'. Inr (len, p')))"

definition container_putVlPackedPad4Uint32 :: "priv \<Rightarrow> u64 \<Rightarrow> u32 \<Rightarrow> u64 \<Rightarrow> (int \<times> priv) res" where
  "container_putVlPackedPad4Uint32 p pos value maxLen =
     (case p_vu32pad4 value of (buf, len) \<Rightarrow>
        if len > 0 then bindE (container_put p pos (take (nat len) buf)) (\<lambda>p'. Inr (len, p'))
        else Inr (len, p))"

definition priv_putVlPackedPad4Uint32 :: "priv \<Rightarrow> u64 \<Rightarrow> u32 \<Rightarrow> u64 \<Rightarrow> (int \<times> priv) res" where
  "priv_putVlPackedPad4Uint32 p pos value maxLen =
     (case kind p of EmptyB \<Rightarrow> Inr (-1, p) | DequeB \<Rightarrow> container_putVlPackedPad4Uint32 p pos value maxLen
      | _ \<Rightarrow> array_putVlPackedPad4Uint32 p pos value maxLen)"

definition array_putVlPackedPad4Int32 :: "priv \<Rightarrow> u64 \<Rightarrow> s32 \<Rightarrow> u64 \<Rightarrow> (int \<times> priv) res" where
  "array_putVlPackedPad4Int32 p pos value maxLen =
     bindE (p_vs32pad4 value) (\<lambda>(bs, len). bindE (array_put p pos bs) (\<lambda>p'. Inr (len, p')))"

definition container_putVlPackedPad4Int32 :: "priv \<Rightarrow> u64 \<Rightarrow> s32 \<Rightarrow> u64 \<Rightarrow> (int \<times> priv) res" where
  "container_putVlPackedPad4Int32 p pos value maxLen =
     bindE (p_vs32pad4 value) (\<lambda>(buf, len).
        if len > 0 then bindE (container_put p pos (take (nat len) buf)) (\<lambda>p'. Inr (len, p'))
        else Inr (len, p))"

definition priv_putVlPackedPad4Int32 :: "priv \<Rightarrow> u64 \<Rightarrow> s32 \<Rightarrow> u64 \<Rightarrow> (int \<times> priv) res" where
  "priv_putVlPackedPad4Int32 p pos value maxLen =
     (case kind p of EmptyB \<Rightarrow> Inr (-1, p) | DequeB \<Rightarrow> container_putVlPackedPad4Int32 p pos value maxLen
      | _ \<Rightarrow> array_putVlPackedPad4Int32 p pos value maxLen)"

definition array_getString :: "priv \<Rightarrow> u64 \<Rightarrow> u64 \<Rightarrow> bytes res" where
  "array_getString p pos len = array_get p pos (unat len)"

text \<open>The method of the base class copies into a fresh buffer, which the empty storage does
  not fill.\<close>

definition base_getString :: "priv \<Rightarrow> u64 \<Rightarrow> u64 \<Rightarrow> bytes res" where
  "base_getString p pos len =
     (if kind p = EmptyB \<and> len \<noteq> 0 then Inl UndefinedBehaviour else priv_get p pos (replicate (unat len) 0))"

definition priv_getString :: "priv \<Rightarrow> u64 \<Rightarrow> u64 \<Rightarrow> bytes res" where
  "priv_getString p pos len =
     (if isContiguous p then array_getString p pos len else base_getString p pos len)"


section \<open>The interface of a byte store\<close>

text \<open>
  What the accessors rely on: inside the stored bytes a read gives the slice and a
  write replaces it, and both fault outside.
\<close>

locale byte_store =
  fixes get :: "priv \<Rightarrow> u64 \<Rightarrow> nat \<Rightarrow> bytes res" and put :: "priv \<Rightarrow> u64 \<Rightarrow> bytes \<Rightarrow> priv res"
    and inv :: "priv \<Rightarrow> bool"
  assumes get_ok: "inv p \<Longrightarrow> unat pos + n \<le> length (mem p) \<Longrightarrow> get p pos n = Inr (chunk (unat pos) n (mem p))"
    and get_fault: "inv p \<Longrightarrow> 0 < n \<Longrightarrow> length (mem p) < unat pos + n \<Longrightarrow> get p pos n = Inl MemFault"
    and put_ok: "inv p \<Longrightarrow> unat pos + length src \<le> length (mem p) \<Longrightarrow>
      put p pos src = Inr (p\<lparr>mem := blit (unat pos) src (mem p)\<rparr>)"
    and put_fault: "inv p \<Longrightarrow> src \<noteq> [] \<Longrightarrow> length (mem p) < unat pos + length src \<Longrightarrow> put p pos src = Inl MemFault"
    and inv_mem: "inv p \<Longrightarrow> length bs = length (mem p) \<Longrightarrow> inv (p\<lparr>mem := bs\<rparr>)"
begin

lemma get_cases: "inv p \<Longrightarrow> 0 < n \<Longrightarrow>
    get p pos n = (if unat pos + n \<le> length (mem p) then Inr (chunk (unat pos) n (mem p)) else Inl MemFault)"
  using get_ok get_fault by (cases "unat pos + n \<le> length (mem p)") auto

lemma put_cases: "inv p \<Longrightarrow> src \<noteq> [] \<Longrightarrow>
    put p pos src = (if unat pos + length src \<le> length (mem p) then Inr (p\<lparr>mem := blit (unat pos) src (mem p)\<rparr>)
                     else Inl MemFault)"
  using put_ok put_fault by (cases "unat pos + length src \<le> length (mem p)") auto

lemma get_put_same:
  assumes "inv p" "put p pos src = Inr p'" "src \<noteq> []"
  shows "get p' pos (length src) = Inr src"
proof -
  have in_range: "unat pos + length src \<le> length (mem p)" and p': "p' = p\<lparr>mem := blit (unat pos) src (mem p)\<rparr>"
    using assms by (auto simp: put_cases split: if_splits)
  then show ?thesis using assms(1)
    by (simp add: get_ok inv_mem length_blit chunk_blit_same)
qed

lemma get_put_other:
  assumes "inv p" "put p pos src = Inr p'" "src \<noteq> []" "0 < n"
    and "unat q + n \<le> unat pos \<or> unat pos + length src \<le> unat q"
  shows "get p' q n = get p q n"
proof -
  have in_range: "unat pos + length src \<le> length (mem p)" and p': "p' = p\<lparr>mem := blit (unat pos) src (mem p)\<rparr>"
    using assms by (auto simp: put_cases split: if_splits)
  then have "inv p'" "length (mem p') = length (mem p)" using assms(1) by (simp_all add: inv_mem length_blit)
  then show ?thesis using in_range assms by (simp add: get_cases p' chunk_blit_disjoint)
qed

end

lemma container_read_eq:
  assumes "length m < 2 ^ 64"
  shows "0 < n \<Longrightarrow> container_read m pos n =
    (if unat pos + n \<le> length m then Inr (chunk (unat pos) n m) else Inl MemFault)"
proof (induction n arbitrary: pos)
  case (Suc n)
  show ?case
  proof (cases "unat pos < length m")
    case True
    then have p: "unat (pos + 1) = Suc (unat pos)" using assms by (simp add: unat_add_nowrap)
    have "chunk (unat pos) (Suc n) m = m ! unat pos # chunk (Suc (unat pos)) n m"
      using True by (simp add: chunk_def Cons_nth_drop_Suc [symmetric])
    then show ?thesis using True Suc.IH [of "pos + 1"] p by (cases "n = 0") auto
  qed simp
qed simp

lemma container_write_eq:
  assumes "length m < 2 ^ 64"
  shows "bs \<noteq> [] \<Longrightarrow> container_write m pos bs =
    (if unat pos + length bs \<le> length m then Inr (blit (unat pos) bs m) else Inl MemFault)"
  using assms
proof (induction bs arbitrary: m pos)
  case (Cons b bs)
  show ?case
  proof (cases "unat pos < length m")
    case True
    then have p: "unat (pos + 1) = Suc (unat pos)" using Cons.prems by (simp add: unat_add_nowrap)
    have "blit (unat pos) (b # bs) m = blit (Suc (unat pos)) bs (m[unat pos := b])"
      using True by (simp add: blit_def upd_conv_take_nth_drop take_Suc_conv_app_nth add.commute)
    then show ?thesis using True Cons p by (cases "bs = []") auto
  qed simp
qed simp

declare container_read.simps(2) [simp del] container_write.simps(2) [simp del]

definition live :: "priv \<Rightarrow> bool" where
  "live p \<longleftrightarrow> kind p \<noteq> EmptyB \<and> length (mem p) \<le> max_size"

lemma live_mem [simp]: "length bs = length (mem p) \<Longrightarrow> live (p\<lparr>mem := bs\<rparr>) = live p"
  by (simp add: live_def)

lemma live_bound: "live p \<Longrightarrow> length (mem p) < 2 ^ 63"
  by (simp add: live_def max_size_def)

interpretation arr: byte_store array_get array_put live
  by unfold_locales (simp_all add: array_get_def array_put_def)

interpretation cont: byte_store container_get container_put live
proof unfold_locales
  fix p :: priv and pos and n :: nat and src :: bytes
  assume p: "live p"
  then have b: "length (mem p) < 2 ^ 64" using live_bound [of p] by simp
  show "unat pos + n \<le> length (mem p) \<Longrightarrow> container_get p pos n = Inr (chunk (unat pos) n (mem p))"
    using container_read_eq [OF b, of n pos] by (cases "n = 0") (simp_all add: container_get_def)
  show "0 < n \<Longrightarrow> length (mem p) < unat pos + n \<Longrightarrow> container_get p pos n = Inl MemFault"
    using container_read_eq [OF b, of n pos] by (simp add: container_get_def)
  show "unat pos + length src \<le> length (mem p) \<Longrightarrow>
      container_put p pos src = Inr (p\<lparr>mem := blit (unat pos) src (mem p)\<rparr>)"
    using container_write_eq [OF b, of src pos] by (cases "src = []") (simp_all add: container_put_def)
  show "src \<noteq> [] \<Longrightarrow> length (mem p) < unat pos + length src \<Longrightarrow> container_put p pos src = Inl MemFault"
    using container_write_eq [OF b, of src pos] by (simp add: container_put_def)
qed simp_all

subsection \<open>The virtual calls\<close>

lemma priv_get_ok:
  "live p \<Longrightarrow> unat pos + length dest \<le> length (mem p) \<Longrightarrow>
     priv_get p pos dest = Inr (chunk (unat pos) (length dest) (mem p))"
  by (simp add: priv_get_def live_def arr.get_ok cont.get_ok split: backend.split)

lemma priv_put_ok:
  "live p \<Longrightarrow> unat pos + length src \<le> length (mem p) \<Longrightarrow>
     priv_put p pos src = Inr (p\<lparr>mem := blit (unat pos) src (mem p)\<rparr>)"
  by (simp add: priv_put_def live_def arr.put_ok cont.put_ok split: backend.split)

lemma priv_put_fault:
  "live p \<Longrightarrow> src \<noteq> [] \<Longrightarrow> length (mem p) < unat pos + length src \<Longrightarrow> priv_put p pos src = Inl MemFault"
  by (simp add: priv_put_def live_def arr.put_fault cont.put_fault split: backend.split)

lemma priv_getString_ok:
  "live p \<Longrightarrow> unat pos + unat len \<le> length (mem p) \<Longrightarrow>
     priv_getString p pos len = Inr (chunk (unat pos) (unat len) (mem p))"
  by (auto simp: priv_getString_def base_getString_def array_getString_def live_def arr.get_ok priv_get_ok)

named_theorems priv_ok \<open>the virtual accessors inside live storage\<close>

declare priv_getString_ok [priv_ok] priv_put_ok [priv_ok]

lemma hd_chunk: "off < length m \<Longrightarrow> hd (chunk off (Suc 0) m) = m ! off"
  by (simp add: chunk_def hd_drop_conv_nth take_Suc)

lemma up_u8_drop: "off < length m \<Longrightarrow> up_u8 (drop off m) = m ! off"
  by (simp add: up_u8_def hd_drop_conv_nth)

lemma priv_getUint8_ok [priv_ok]:
  assumes "live p" "unat pos + 1 \<le> length (mem p)"
  shows "priv_getUint8 p pos = Inr (up_u8 (drop (unat pos) (mem p)))"
proof -
  have "array_get p pos 1 = Inr (chunk (unat pos) 1 (mem p))" "container_read (mem p) pos 1 = Inr (chunk (unat pos) 1 (mem p))"
    using assms arr.get_ok [of p pos 1] cont.get_ok [of p pos 1] by (simp_all add: container_get_def)
  then show ?thesis using assms
    by (auto simp: priv_getUint8_def container_getUint8_def array_getUint8_def live_def hd_chunk up_u8_drop
      split: backend.split)
qed

lemma priv_putUint8_ok [priv_ok]:
  "live p \<Longrightarrow> unat pos + 1 \<le> length (mem p) \<Longrightarrow>
     priv_putUint8 p pos v = Inr (p\<lparr>mem := blit (unat pos) (p_u8 v) (mem p)\<rparr>)"
  by (auto simp: priv_putUint8_def container_putUint8_def array_putUint8_def live_def p_u8_def arr.put_ok cont.put_ok
      split: backend.split)

lemma priv_getInt64_ok [priv_ok]:
  assumes "live p" "unat pos + 8 \<le> length (mem p)"
  shows "priv_getInt64 p pos = Inr (up_s64 (drop (unat pos) (mem p)))"
proof -
  have "up_s64 (chunk (unat pos) 8 (mem p)) = up_s64 (drop (unat pos) (mem p))"
    using assms by (simp add: c_s64.unpack_chunk)
  moreover have "container_read (mem p) pos 8 = Inr (chunk (unat pos) 8 (mem p))"
    using assms cont.get_ok [of p pos 8] by (simp add: container_get_def)
  ultimately show ?thesis using assms
    by (auto simp: priv_getInt64_def container_getInt64_def array_getInt64_def live_def arr.get_ok split: backend.split)
qed

lemma priv_putInt64_ok [priv_ok]:
  "live p \<Longrightarrow> unat pos + 8 \<le> length (mem p) \<Longrightarrow>
     priv_putInt64 p pos v = Inr (p\<lparr>mem := blit (unat pos) (p_s64 v) (mem p)\<rparr>)"
  by (auto simp: priv_putInt64_def container_putInt64_def array_putInt64_def live_def c_s64.length_pack arr.put_ok cont.put_ok
      split: backend.split)

lemma priv_getUint64_ok [priv_ok]:
  assumes "live p" "unat pos + 8 \<le> length (mem p)"
  shows "priv_getUint64 p pos = Inr (up_u64 (drop (unat pos) (mem p)))"
proof -
  have "up_u64 (chunk (unat pos) 8 (mem p)) = up_u64 (drop (unat pos) (mem p))"
    using assms by (simp add: c_u64.unpack_chunk)
  moreover have "container_read (mem p) pos 8 = Inr (chunk (unat pos) 8 (mem p))"
    using assms cont.get_ok [of p pos 8] by (simp add: container_get_def)
  ultimately show ?thesis using assms
    by (auto simp: priv_getUint64_def container_getUint64_def array_getUint64_def live_def arr.get_ok split: backend.split)
qed

lemma priv_putUint64_ok [priv_ok]:
  "live p \<Longrightarrow> unat pos + 8 \<le> length (mem p) \<Longrightarrow>
     priv_putUint64 p pos v = Inr (p\<lparr>mem := blit (unat pos) (p_u64 v) (mem p)\<rparr>)"
  by (auto simp: priv_putUint64_def container_putUint64_def array_putUint64_def live_def c_u64.length_pack arr.put_ok cont.put_ok
      split: backend.split)

lemma priv_getInt32_ok [priv_ok]:
  assumes "live p" "unat pos + 4 \<le> length (mem p)"
  shows "priv_getInt32 p pos = Inr (up_s32 (drop (unat pos) (mem p)))"
proof -
  have "up_s32 (chunk (unat pos) 4 (mem p)) = up_s32 (drop (unat pos) (mem p))"
    using assms by (simp add: c_s32.unpack_chunk)
  moreover have "container_read (mem p) pos 4 = Inr (chunk (unat pos) 4 (mem p))"
    using assms cont.get_ok [of p pos 4] by (simp add: container_get_def)
  ultimately show ?thesis using assms
    by (auto simp: priv_getInt32_def container_getInt32_def array_getInt32_def live_def arr.get_ok split: backend.split)
qed

lemma priv_putInt32_ok [priv_ok]:
  "live p \<Longrightarrow> unat pos + 4 \<le> length (mem p) \<Longrightarrow>
     priv_putInt32 p pos v = Inr (p\<lparr>mem := blit (unat pos) (p_s32 v) (mem p)\<rparr>)"
  by (auto simp: priv_putInt32_def container_putInt32_def array_putInt32_def live_def c_s32.length_pack arr.put_ok cont.put_ok
      split: backend.split)

lemma priv_getUint32_ok [priv_ok]:
  assumes "live p" "unat pos + 4 \<le> length (mem p)"
  shows "priv_getUint32 p pos = Inr (up_u32 (drop (unat pos) (mem p)))"
proof -
  have "up_u32 (chunk (unat pos) 4 (mem p)) = up_u32 (drop (unat pos) (mem p))"
    using assms by (simp add: c_u32.unpack_chunk)
  moreover have "container_read (mem p) pos 4 = Inr (chunk (unat pos) 4 (mem p))"
    using assms cont.get_ok [of p pos 4] by (simp add: container_get_def)
  ultimately show ?thesis using assms
    by (auto simp: priv_getUint32_def container_getUint32_def array_getUint32_def live_def arr.get_ok split: backend.split)
qed

lemma priv_putUint32_ok [priv_ok]:
  "live p \<Longrightarrow> unat pos + 4 \<le> length (mem p) \<Longrightarrow>
     priv_putUint32 p pos v = Inr (p\<lparr>mem := blit (unat pos) (p_u32 v) (mem p)\<rparr>)"
  by (auto simp: priv_putUint32_def container_putUint32_def array_putUint32_def live_def c_u32.length_pack arr.put_ok cont.put_ok
      split: backend.split)

lemma priv_getUint24_ok [priv_ok]:
  assumes "live p" "unat pos + 3 \<le> length (mem p)"
  shows "priv_getUint24 p pos = Inr (up_u24 (drop (unat pos) (mem p)))"
proof -
  have "up_u24 (chunk (unat pos) 3 (mem p)) = up_u24 (drop (unat pos) (mem p))"
    using assms by (simp add: c_u24.unpack_chunk)
  moreover have "container_read (mem p) pos 3 = Inr (chunk (unat pos) 3 (mem p))"
    using assms cont.get_ok [of p pos 3] by (simp add: container_get_def)
  ultimately show ?thesis using assms
    by (auto simp: priv_getUint24_def container_getUint24_def array_getUint24_def live_def arr.get_ok split: backend.split)
qed

lemma priv_putUint24_ok [priv_ok]:
  "live p \<Longrightarrow> unat pos + 3 \<le> length (mem p) \<Longrightarrow>
     priv_putUint24 p pos v = Inr (p\<lparr>mem := blit (unat pos) (p_u24 v) (mem p)\<rparr>)"
  by (auto simp: priv_putUint24_def container_putUint24_def array_putUint24_def live_def c_u24.length_pack arr.put_ok cont.put_ok
      split: backend.split)

lemma priv_getUint16_ok [priv_ok]:
  assumes "live p" "unat pos + 2 \<le> length (mem p)"
  shows "priv_getUint16 p pos = Inr (up_u16 (drop (unat pos) (mem p)))"
proof -
  have "up_u16 (chunk (unat pos) 2 (mem p)) = up_u16 (drop (unat pos) (mem p))"
    using assms by (simp add: c_u16.unpack_chunk)
  moreover have "container_read (mem p) pos 2 = Inr (chunk (unat pos) 2 (mem p))"
    using assms cont.get_ok [of p pos 2] by (simp add: container_get_def)
  ultimately show ?thesis using assms
    by (auto simp: priv_getUint16_def container_getUint16_def array_getUint16_def live_def arr.get_ok split: backend.split)
qed

lemma priv_putUint16_ok [priv_ok]:
  "live p \<Longrightarrow> unat pos + 2 \<le> length (mem p) \<Longrightarrow>
     priv_putUint16 p pos v = Inr (p\<lparr>mem := blit (unat pos) (p_u16 v) (mem p)\<rparr>)"
  by (auto simp: priv_putUint16_def container_putUint16_def array_putUint16_def live_def c_u16.length_pack arr.put_ok cont.put_ok
      split: backend.split)

lemma priv_getNegativeOffset_ok [priv_ok]:
  assumes "live p" "unat pos + 5 \<le> length (mem p)"
  shows "priv_getNegativeOffset p pos = Inr (up_s40 (drop (unat pos) (mem p)))"
proof -
  have "up_s40 (chunk (unat pos) 5 (mem p)) = up_s40 (drop (unat pos) (mem p))"
    using assms by (simp add: c_s40.unpack_chunk)
  moreover have "container_read (mem p) pos 5 = Inr (chunk (unat pos) 5 (mem p))"
    using assms cont.get_ok [of p pos 5] by (simp add: container_get_def)
  ultimately show ?thesis using assms
    by (auto simp: priv_getNegativeOffset_def container_getNegativeOffset_def array_getNegativeOffset_def live_def arr.get_ok split: backend.split)
qed

lemma priv_putNegativeOffset_ok [priv_ok]:
  "live p \<Longrightarrow> unat pos + 5 \<le> length (mem p) \<Longrightarrow>
     priv_putNegativeOffset p pos v =
       bindE (p_s40 v) (\<lambda>bs. Inr (p\<lparr>mem := blit (unat pos) bs (mem p)\<rparr>))"
  by (auto simp: p_s40_sm priv_putNegativeOffset_def container_putNegativeOffset_def array_putNegativeOffset_def live_def c_s40.length_pack arr.put_ok cont.put_ok
      split: backend.split)

lemma priv_getOffset_ok [priv_ok]:
  assumes "live p" "unat pos + 5 \<le> length (mem p)"
  shows "priv_getOffset p pos = Inr (up_u40 (drop (unat pos) (mem p)))"
proof -
  have "up_u40 (chunk (unat pos) 5 (mem p)) = up_u40 (drop (unat pos) (mem p))"
    using assms by (simp add: c_u40.unpack_chunk)
  moreover have "container_read (mem p) pos 5 = Inr (chunk (unat pos) 5 (mem p))"
    using assms cont.get_ok [of p pos 5] by (simp add: container_get_def)
  ultimately show ?thesis using assms
    by (auto simp: priv_getOffset_def container_getOffset_def array_getOffset_def live_def arr.get_ok split: backend.split)
qed

lemma priv_putOffset_ok [priv_ok]:
  "live p \<Longrightarrow> unat pos + 5 \<le> length (mem p) \<Longrightarrow>
     priv_putOffset p pos v = Inr (p\<lparr>mem := blit (unat pos) (p_u40 v) (mem p)\<rparr>)"
  by (auto simp: priv_putOffset_def container_putOffset_def array_putOffset_def live_def c_u40.length_pack arr.put_ok cont.put_ok
      split: backend.split)

lemma small_buf_len: "0 \<le> k \<Longrightarrow> k < 256 \<Longrightarrow> unat (word_of_int k :: u8) = nat k"
  by (simp add: unat_eq_nat_uint uint_word_of_int)

lemma p_vu32pad4_len: "length (fst (p_vu32pad4 s)) = 4" "snd (p_vu32pad4 s) = 4"
  using pad4_bytes [of s] by (simp_all add: p_vu32pad4_def Let_def)

lemma p_vs32pad4_sm:
  "p_vs32pad4 s = (if sint s = - (2 ^ 31) then Inl UndefinedBehaviour else Inr (fst (p_vu32pad4 (sm_enc s)), 4))"
  using p_vu32pad4_len(2) [of "sm_enc s"]
  by (cases "p_vu32pad4 (sm_enc s)") (simp add: p_vs32pad4_def sign_magnitude_eq)

text \<open>
  The variable length readers look at no more than the longest code word, so what they
  return depends on the first \<open>len\<close> bytes and the container's copy makes no difference.
\<close>

lemma priv_getVlPackedUint64_ok [priv_ok]:
  assumes "live p" "0 < len" "unat pos + nat len \<le> length (mem p)"
  shows "priv_getVlPackedUint64 p pos len = up_vu64 (chunk (unat pos) (nat len) (mem p))"
proof -
  let ?k = "unat (word_of_int (min 10 len) :: u8)"
  have k: "?k = min 10 (nat len)" using assms(2) by (auto simp: min_def small_buf_len)
  have "container_read (mem p) pos ?k = Inr (chunk (unat pos) ?k (mem p))"
    using assms cont.get_ok [of p pos ?k] k by (simp add: container_get_def)
  moreover have "chunk (unat pos) ?k (mem p) = take 10 (chunk (unat pos) (nat len) (mem p))"
    unfolding k by (simp add: chunk_def min.commute)
  ultimately have "container_getVlPackedUint64 p pos len = up_vu64 (chunk (unat pos) (nat len) (mem p))"
    by (simp add: container_getVlPackedUint64_def vu64.dec_take)
  then show ?thesis using assms
    by (auto simp: priv_getVlPackedUint64_def array_getVlPackedUint64_def live_def arr.get_ok split: backend.split)
qed

lemma priv_putVlPackedUint64_ok [priv_ok]:
  assumes "live p" "psize_vu64 v \<le> unat maxLen" "unat pos + psize_vu64 v \<le> length (mem p)"
  shows "priv_putVlPackedUint64 p pos v maxLen =
    Inr (int (psize_vu64 v), p\<lparr>mem := blit (unat pos) (vl_bytes v) (mem p)\<rparr>)"
  using assms vu64.size_pos [of v]
  by (auto simp: priv_putVlPackedUint64_def container_putVlPackedUint64_def array_putVlPackedUint64_def live_def
      vu64.enc_ok [simplified] vu64.enc_maxlen [simplified] vu64.length_code arr.put_ok cont.put_ok split: backend.split)

lemma priv_getVlPackedInt64_ok [priv_ok]:
  assumes "live p" "0 < len" "unat pos + nat len \<le> length (mem p)"
  shows "priv_getVlPackedInt64 p pos len = up_vs64 (chunk (unat pos) (nat len) (mem p))"
proof -
  let ?k = "unat (word_of_int (min 10 len) :: u8)"
  have k: "?k = min 10 (nat len)" using assms(2) by (auto simp: min_def small_buf_len)
  have "container_read (mem p) pos ?k = Inr (chunk (unat pos) ?k (mem p))"
    using assms cont.get_ok [of p pos ?k] k by (simp add: container_get_def)
  moreover have "chunk (unat pos) ?k (mem p) = take 10 (chunk (unat pos) (nat len) (mem p))"
    unfolding k by (simp add: chunk_def min.commute)
  ultimately have "container_getVlPackedInt64 p pos len = up_vs64 (chunk (unat pos) (nat len) (mem p))"
    by (simp add: container_getVlPackedInt64_def vs64.dec_take)
  then show ?thesis using assms
    by (auto simp: priv_getVlPackedInt64_def array_getVlPackedInt64_def live_def arr.get_ok split: backend.split)
qed

lemma priv_putVlPackedInt64_ok [priv_ok]:
  assumes "sint v \<noteq> - (2 ^ 63)" "live p" "psize_v (sm_enc v) \<le> unat maxLen"
    "unat pos + psize_v (sm_enc v) \<le> length (mem p)"
  shows "priv_putVlPackedInt64 p pos v maxLen =
    Inr (int (psize_v (sm_enc v)), p\<lparr>mem := blit (unat pos) (vl_bytes (sm_enc v)) (mem p)\<rparr>)"
  using assms vs64.size_pos [of v]
  by (auto simp: priv_putVlPackedInt64_def container_putVlPackedInt64_def array_putVlPackedInt64_def live_def
      vs64.enc_ok vs64.enc_maxlen [simplified] vs64.length_code arr.put_ok cont.put_ok split: backend.split)

lemma priv_getVlPackedUint32_ok [priv_ok]:
  assumes "live p" "0 < len" "unat pos + nat len \<le> length (mem p)"
  shows "priv_getVlPackedUint32 p pos len = up_vu32 (chunk (unat pos) (nat len) (mem p))"
proof -
  let ?k = "unat (word_of_int (min 5 len) :: u8)"
  have k: "?k = min 5 (nat len)" using assms(2) by (auto simp: min_def small_buf_len)
  have "container_read (mem p) pos ?k = Inr (chunk (unat pos) ?k (mem p))"
    using assms cont.get_ok [of p pos ?k] k by (simp add: container_get_def)
  moreover have "chunk (unat pos) ?k (mem p) = take 5 (chunk (unat pos) (nat len) (mem p))"
    unfolding k by (simp add: chunk_def min.commute)
  ultimately have "container_getVlPackedUint32 p pos len = up_vu32 (chunk (unat pos) (nat len) (mem p))"
    by (simp add: container_getVlPackedUint32_def vu32.dec_take)
  then show ?thesis using assms
    by (auto simp: priv_getVlPackedUint32_def array_getVlPackedUint32_def live_def arr.get_ok split: backend.split)
qed

lemma priv_putVlPackedUint32_ok [priv_ok]:
  assumes "live p" "psize_vu32 v \<le> unat maxLen" "unat pos + psize_vu32 v \<le> length (mem p)"
  shows "priv_putVlPackedUint32 p pos v maxLen =
    Inr (int (psize_vu32 v), p\<lparr>mem := blit (unat pos) (vl_bytes v) (mem p)\<rparr>)"
  using assms vu32.size_pos [of v]
  by (auto simp: priv_putVlPackedUint32_def container_putVlPackedUint32_def array_putVlPackedUint32_def live_def
      vu32.enc_ok [simplified] vu32.enc_maxlen [simplified] vu32.length_code arr.put_ok cont.put_ok split: backend.split)

lemma priv_getVlPackedInt32_ok [priv_ok]:
  assumes "live p" "0 < len" "unat pos + nat len \<le> length (mem p)"
  shows "priv_getVlPackedInt32 p pos len = up_vs32 (chunk (unat pos) (nat len) (mem p))"
proof -
  let ?k = "unat (word_of_int (min 5 len) :: u8)"
  have k: "?k = min 5 (nat len)" using assms(2) by (auto simp: min_def small_buf_len)
  have "container_read (mem p) pos ?k = Inr (chunk (unat pos) ?k (mem p))"
    using assms cont.get_ok [of p pos ?k] k by (simp add: container_get_def)
  moreover have "chunk (unat pos) ?k (mem p) = take 5 (chunk (unat pos) (nat len) (mem p))"
    unfolding k by (simp add: chunk_def min.commute)
  ultimately have "container_getVlPackedInt32 p pos len = up_vs32 (chunk (unat pos) (nat len) (mem p))"
    by (simp add: container_getVlPackedInt32_def vs32.dec_take)
  then show ?thesis using assms
    by (auto simp: priv_getVlPackedInt32_def array_getVlPackedInt32_def live_def arr.get_ok split: backend.split)
qed

lemma priv_putVlPackedInt32_ok [priv_ok]:
  assumes "sint v \<noteq> - (2 ^ 31)" "live p" "psize_v (sm_enc v) \<le> unat maxLen"
    "unat pos + psize_v (sm_enc v) \<le> length (mem p)"
  shows "priv_putVlPackedInt32 p pos v maxLen =
    Inr (int (psize_v (sm_enc v)), p\<lparr>mem := blit (unat pos) (vl_bytes (sm_enc v)) (mem p)\<rparr>)"
  using assms vs32.size_pos [of v]
  by (auto simp: priv_putVlPackedInt32_def container_putVlPackedInt32_def array_putVlPackedInt32_def live_def
      vs32.enc_ok vs32.enc_maxlen [simplified] vs32.length_code arr.put_ok cont.put_ok split: backend.split)

lemma priv_putVlPackedPad4Uint32_ok [priv_ok]:
  assumes "live p" "unat pos + 4 \<le> length (mem p)"
  shows "priv_putVlPackedPad4Uint32 p pos v maxLen = Inr (4, p\<lparr>mem := blit (unat pos) (fst (p_vu32pad4 v)) (mem p)\<rparr>)"
proof -
  obtain bs where "p_vu32pad4 v = (bs, 4)" "length bs = 4" using p_vu32pad4_len [of v] by (cases "p_vu32pad4 v") auto
  then show ?thesis using assms
    by (auto simp: priv_putVlPackedPad4Uint32_def container_putVlPackedPad4Uint32_def array_putVlPackedPad4Uint32_def live_def
        arr.put_ok cont.put_ok split: backend.split)
qed

lemma priv_putVlPackedPad4Int32_ok [priv_ok]:
  assumes "live p" "unat pos + 4 \<le> length (mem p)"
  shows "priv_putVlPackedPad4Int32 p pos v maxLen =
    bindE (p_vs32pad4 v) (\<lambda>(bs, len). Inr (len, p\<lparr>mem := blit (unat pos) bs (mem p)\<rparr>))"
proof -
  have "length (fst (p_vu32pad4 (sm_enc v))) = 4" by (rule p_vu32pad4_len)
  then show ?thesis using assms
    by (auto simp: p_vs32pad4_sm priv_putVlPackedPad4Int32_def container_putVlPackedPad4Int32_def array_putVlPackedPad4Int32_def live_def
        arr.put_ok cont.put_ok split: backend.split)
qed

subsection \<open>Accesses that are not inside the storage\<close>

lemma pack_not_Nil:
  "p_u16 a \<noteq> []" "p_u24 b \<noteq> []" "p_u32 b \<noteq> []" "p_s32 b \<noteq> []"
  "p_u40 c \<noteq> []" "p_u64 c \<noteq> []" "p_s64 c \<noteq> []"
  using c_u16.length_pack [of a] c_u24.length_pack [of b] c_u32.length_pack [of b] c_s32.length_pack [of b]
    c_u40.length_pack [of c] c_u64.length_pack [of c] c_s64.length_pack [of c]
  by fastforce+

named_theorems priv_fault \<open>the virtual accessors outside live storage\<close>

lemma priv_getInt64_fault [priv_fault]:
  "live p \<Longrightarrow> length (mem p) < unat pos + 8 \<Longrightarrow> priv_getInt64 p pos = Inl MemFault"
  using cont.get_fault [of p 8 pos]
  by (auto simp: priv_getInt64_def container_getInt64_def array_getInt64_def live_def container_get_def arr.get_fault
      split: backend.split)

lemma priv_putInt64_fault [priv_fault]:
  "live p \<Longrightarrow> length (mem p) < unat pos + 8 \<Longrightarrow> priv_putInt64 p pos v = Inl MemFault"
  using c_s64.length_pack [of v]
  by (auto simp: priv_putInt64_def container_putInt64_def array_putInt64_def live_def arr.put_fault cont.put_fault pack_not_Nil
      split: backend.split)

lemma priv_getUint64_fault [priv_fault]:
  "live p \<Longrightarrow> length (mem p) < unat pos + 8 \<Longrightarrow> priv_getUint64 p pos = Inl MemFault"
  using cont.get_fault [of p 8 pos]
  by (auto simp: priv_getUint64_def container_getUint64_def array_getUint64_def live_def container_get_def arr.get_fault
      split: backend.split)

lemma priv_putUint64_fault [priv_fault]:
  "live p \<Longrightarrow> length (mem p) < unat pos + 8 \<Longrightarrow> priv_putUint64 p pos v = Inl MemFault"
  using c_u64.length_pack [of v]
  by (auto simp: priv_putUint64_def container_putUint64_def array_putUint64_def live_def arr.put_fault cont.put_fault pack_not_Nil
      split: backend.split)

lemma priv_getInt32_fault [priv_fault]:
  "live p \<Longrightarrow> length (mem p) < unat pos + 4 \<Longrightarrow> priv_getInt32 p pos = Inl MemFault"
  using cont.get_fault [of p 4 pos]
  by (auto simp: priv_getInt32_def container_getInt32_def array_getInt32_def live_def container_get_def arr.get_fault
      split: backend.split)

lemma priv_putInt32_fault [priv_fault]:
  "live p \<Longrightarrow> length (mem p) < unat pos + 4 \<Longrightarrow> priv_putInt32 p pos v = Inl MemFault"
  using c_s32.length_pack [of v]
  by (auto simp: priv_putInt32_def container_putInt32_def array_putInt32_def live_def arr.put_fault cont.put_fault pack_not_Nil
      split: backend.split)

lemma priv_getUint32_fault [priv_fault]:
  "live p \<Longrightarrow> length (mem p) < unat pos + 4 \<Longrightarrow> priv_getUint32 p pos = Inl MemFault"
  using cont.get_fault [of p 4 pos]
  by (auto simp: priv_getUint32_def container_getUint32_def array_getUint32_def live_def container_get_def arr.get_fault
      split: backend.split)

lemma priv_putUint32_fault [priv_fault]:
  "live p \<Longrightarrow> length (mem p) < unat pos + 4 \<Longrightarrow> priv_putUint32 p pos v = Inl MemFault"
  using c_u32.length_pack [of v]
  by (auto simp: priv_putUint32_def container_putUint32_def array_putUint32_def live_def arr.put_fault cont.put_fault pack_not_Nil
      split: backend.split)

lemma priv_getUint24_fault [priv_fault]:
  "live p \<Longrightarrow> length (mem p) < unat pos + 3 \<Longrightarrow> priv_getUint24 p pos = Inl MemFault"
  using cont.get_fault [of p 3 pos]
  by (auto simp: priv_getUint24_def container_getUint24_def array_getUint24_def live_def container_get_def arr.get_fault
      split: backend.split)

lemma priv_putUint24_fault [priv_fault]:
  "live p \<Longrightarrow> length (mem p) < unat pos + 3 \<Longrightarrow> priv_putUint24 p pos v = Inl MemFault"
  using c_u24.length_pack [of v]
  by (auto simp: priv_putUint24_def container_putUint24_def array_putUint24_def live_def arr.put_fault cont.put_fault pack_not_Nil
      split: backend.split)

lemma priv_getUint16_fault [priv_fault]:
  "live p \<Longrightarrow> length (mem p) < unat pos + 2 \<Longrightarrow> priv_getUint16 p pos = Inl MemFault"
  using cont.get_fault [of p 2 pos]
  by (auto simp: priv_getUint16_def container_getUint16_def array_getUint16_def live_def container_get_def arr.get_fault
      split: backend.split)

lemma priv_putUint16_fault [priv_fault]:
  "live p \<Longrightarrow> length (mem p) < unat pos + 2 \<Longrightarrow> priv_putUint16 p pos v = Inl MemFault"
  using c_u16.length_pack [of v]
  by (auto simp: priv_putUint16_def container_putUint16_def array_putUint16_def live_def arr.put_fault cont.put_fault pack_not_Nil
      split: backend.split)

lemma priv_getUint8_fault [priv_fault]:
  "live p \<Longrightarrow> length (mem p) < unat pos + 1 \<Longrightarrow> priv_getUint8 p pos = Inl MemFault"
  using cont.get_fault [of p 1 pos]
  by (auto simp: priv_getUint8_def container_getUint8_def array_getUint8_def live_def container_get_def arr.get_fault
      split: backend.split)

lemma priv_putUint8_fault [priv_fault]:
  "live p \<Longrightarrow> length (mem p) < unat pos + 1 \<Longrightarrow> priv_putUint8 p pos v = Inl MemFault"
  by (auto simp: priv_putUint8_def container_putUint8_def array_putUint8_def live_def arr.put_fault cont.put_fault pack_not_Nil
      split: backend.split)

lemma priv_getNegativeOffset_fault [priv_fault]:
  "live p \<Longrightarrow> length (mem p) < unat pos + 5 \<Longrightarrow> priv_getNegativeOffset p pos = Inl MemFault"
  using cont.get_fault [of p 5 pos]
  by (auto simp: priv_getNegativeOffset_def container_getNegativeOffset_def array_getNegativeOffset_def live_def container_get_def arr.get_fault
      split: backend.split)

lemma priv_putNegativeOffset_fault [priv_fault]:
  "live p \<Longrightarrow> length (mem p) < unat pos + 5 \<Longrightarrow> priv_putNegativeOffset p pos v = bindE (p_s40 v) (\<lambda>_. Inl MemFault)"
  using c_s40.length_pack [of v]
  by (auto simp: p_s40_sm priv_putNegativeOffset_def container_putNegativeOffset_def array_putNegativeOffset_def live_def arr.put_fault cont.put_fault pack_not_Nil
      split: backend.split)

lemma priv_getOffset_fault [priv_fault]:
  "live p \<Longrightarrow> length (mem p) < unat pos + 5 \<Longrightarrow> priv_getOffset p pos = Inl MemFault"
  using cont.get_fault [of p 5 pos]
  by (auto simp: priv_getOffset_def container_getOffset_def array_getOffset_def live_def container_get_def arr.get_fault
      split: backend.split)

lemma priv_putOffset_fault [priv_fault]:
  "live p \<Longrightarrow> length (mem p) < unat pos + 5 \<Longrightarrow> priv_putOffset p pos v = Inl MemFault"
  using c_u40.length_pack [of v]
  by (auto simp: priv_putOffset_def container_putOffset_def array_putOffset_def live_def arr.put_fault cont.put_fault pack_not_Nil
      split: backend.split)

subsection \<open>Growing and shrinking\<close>

lemma container_vs_array_read:
  assumes "length (mem p) \<le> max_size" "0 < n"
  shows "container_read (mem p) pos n = array_get p pos n"
proof -
  have "length (mem p) < 2 ^ 64" using assms by (simp add: max_size_def)
  then show ?thesis using assms container_read_eq [of "mem p" n pos] by (simp add: array_get_def)
qed

lemma container_vs_array_put:
  assumes "length (mem p) \<le> max_size" "src \<noteq> []"
  shows "container_put p pos src = array_put p pos src"
proof -
  have "length (mem p) < 2 ^ 64" using assms by (simp add: max_size_def)
  then show ?thesis using assms container_write_eq [of "mem p" src pos] by (simp add: array_put_def container_put_def)
qed

lemma unat_size:
  assumes "live p"
  shows "unat (vector_size p) = length (mem p)" "unat (container_size p) = length (mem p)"
  using live_bound [OF assms] by (simp_all add: vector_size_def container_size_def unat_of_nat_small)

lemma priv_growStorage_cases:
  assumes "live p"
  shows "priv_growStorage p sz =
    (if kind p = ArrayB then Inr (False, p)
     else if unat sz \<le> length (mem p) then Inr (True, p)
     else if max_size < unat sz then Inl StdLengthError
     else Inr (True, p\<lparr>mem := mem p @ replicate (unat sz - length (mem p)) 0\<rparr>))"
  using assms unat_size [OF assms]
  by (auto simp: priv_growStorage_def array_growStorage_def vector_growStorage_def container_growStorage_def
      std_resize_def live_def word_less_nat_alt split: backend.split)

lemma priv_shrinkStorage_cases:
  assumes "live p"
  shows "priv_shrinkStorage p sz =
    (if kind p = ArrayB then Inr (False, p) else Inr (True, p\<lparr>mem := take (length (mem p) - unat sz) (mem p)\<rparr>))"
proof -
  have "unat (s - (if s < sz then s else sz)) = unat s - unat sz" for s :: u64
    by (simp add: word_less_nat_alt unat_sub word_le_nat_alt)
  then show ?thesis
    using assms unat_size [OF assms]
    by (auto simp: priv_shrinkStorage_def array_shrinkStorage_def vector_shrinkStorage_def container_shrinkStorage_def
      std_resize_def live_def Let_def split: backend.split)
qed

section \<open>Properties\<close>

lemmas getter_defs = container_getUint8_def array_getUint8_def container_getInt64_def array_getInt64_def container_getUint64_def array_getUint64_def container_getInt32_def array_getInt32_def container_getUint32_def array_getUint32_def container_getUint24_def array_getUint24_def container_getUint16_def array_getUint16_def container_getNegativeOffset_def array_getNegativeOffset_def container_getOffset_def array_getOffset_def

lemmas putter_defs = container_putUint8_def array_putUint8_def container_putInt64_def array_putInt64_def container_putUint64_def array_putUint64_def container_putInt32_def array_putInt32_def container_putUint32_def array_putUint32_def container_putUint24_def array_putUint24_def container_putUint16_def array_putUint16_def container_putNegativeOffset_def array_putNegativeOffset_def container_putOffset_def array_putOffset_def

text \<open>The accessors of the container, which move one element at a time, agree with those of
  contiguous memory on every position and value, out of range positions included.\<close>

theorem container_agrees_with_array:
  assumes "length (mem p) \<le> max_size"
  shows "container_getUint8 p pos = array_getUint8 p pos \<and>
         container_getInt64 p pos = array_getInt64 p pos \<and>
         container_getUint64 p pos = array_getUint64 p pos \<and>
         container_getInt32 p pos = array_getInt32 p pos \<and>
         container_getUint32 p pos = array_getUint32 p pos \<and>
         container_getUint24 p pos = array_getUint24 p pos \<and>
         container_getUint16 p pos = array_getUint16 p pos \<and>
         container_getNegativeOffset p pos = array_getNegativeOffset p pos \<and>
         container_getOffset p pos = array_getOffset p pos \<and>
         container_putUint8 p pos vUint8 = array_putUint8 p pos vUint8 \<and>
         container_putInt64 p pos vInt64 = array_putInt64 p pos vInt64 \<and>
         container_putUint64 p pos vUint64 = array_putUint64 p pos vUint64 \<and>
         container_putInt32 p pos vInt32 = array_putInt32 p pos vInt32 \<and>
         container_putUint32 p pos vUint32 = array_putUint32 p pos vUint32 \<and>
         container_putUint24 p pos vUint24 = array_putUint24 p pos vUint24 \<and>
         container_putUint16 p pos vUint16 = array_putUint16 p pos vUint16 \<and>
         container_putNegativeOffset p pos vNegativeOffset = array_putNegativeOffset p pos vNegativeOffset \<and>
         container_putOffset p pos vOffset = array_putOffset p pos vOffset"
  using assms by (simp add: getter_defs putter_defs p_s40_sm Let_def container_vs_array_read container_vs_array_put pack_not_Nil)

theorem container_agrees_with_array_witness:
  "container_putUint24 \<lparr>kind = DequeB, mem = [1, 2, 3, 4]\<rparr> 1 0xABCDEF = array_putUint24 \<lparr>kind = DequeB, mem = [1, 2, 3, 4]\<rparr> 1 0xABCDEF"
  by (rule container_agrees_with_array [THEN conjunct2, THEN conjunct2, THEN conjunct2, THEN conjunct2, THEN conjunct2,
      THEN conjunct2, THEN conjunct2, THEN conjunct2, THEN conjunct2, THEN conjunct2, THEN conjunct2, THEN conjunct2,
      THEN conjunct2, THEN conjunct2, THEN conjunct1]) (simp add: max_size_def)

text \<open>Growing a vector or a container keeps the stored bytes, appends zeros up to the wanted size and
  never shrinks; shrinking drops as many bytes as the argument says from the end, at most all of them.
  Raw memory does neither.\<close>

theorem storage_grow_shrink:
  assumes "live p"
  shows "priv_growStorage p sz =
           (if kind p = ArrayB then Inr (False, p)
            else if unat sz \<le> length (mem p) then Inr (True, p)
            else if max_size < unat sz then Inl StdLengthError
            else Inr (True, p\<lparr>mem := mem p @ replicate (unat sz - length (mem p)) 0\<rparr>)) \<and>
         priv_shrinkStorage p sz =
           (if kind p = ArrayB then Inr (False, p)
            else Inr (True, p\<lparr>mem := take (length (mem p) - unat sz) (mem p)\<rparr>))"
  using priv_growStorage_cases [OF assms] priv_shrinkStorage_cases [OF assms] by blast

theorem storage_grow_shrink_witness:
  "priv_growStorage \<lparr>kind = VectorB, mem = [1, 2]\<rparr> 3 = Inr (True, \<lparr>kind = VectorB, mem = [1, 2, 0]\<rparr>) \<and>
   priv_shrinkStorage \<lparr>kind = DequeB, mem = [1, 2, 3]\<rparr> 1 = Inr (True, \<lparr>kind = DequeB, mem = [1, 2]\<rparr>)"
  using storage_grow_shrink [of "\<lparr>kind = VectorB, mem = [1, 2]\<rparr>" 3]
    storage_grow_shrink [of "\<lparr>kind = DequeB, mem = [1, 2, 3]\<rparr>" 1]
  by (simp add: live_def max_size_def)

end
