(* ===== verification/Adapter.thy ===== *)
theory Adapter
  imports Storage
begin

text \<open>
  \<open>UByteArrayAdapter\<close> (\<open>include/sserialize/storage/UByteArrayAdapter.h\<close>,
  \<open>src/storage/UByteArrayAdapter.cpp\<close>): a window onto shared storage with a read and a
  write position.

  Adapters share their storage, so the storage objects live in a \<open>heap\<close> and an adapter
  holds a reference; a write through one adapter is visible through every other one
  with the same reference. A method that only reads takes the heap and the adapter, a
  method that writes at a position returns the new heap, a streaming method also
  returns the adapter with its position moved. A thrown exception is \<open>Inl\<close>; the state at
  the time of the throw is not part of the result.
\<close>

type_synonym heap = "nat \<Rightarrow> priv"

record uba =
  m_priv :: nat
  m_offSet :: u64
  m_len :: u64
  m_getPtr :: u64
  m_putPtr :: u64

definition storage :: "heap \<Rightarrow> uba \<Rightarrow> priv" where
  "storage h u = h (m_priv u)"

section \<open>Construction and positions\<close>

definition uba_of_priv :: "nat \<Rightarrow> u64 \<Rightarrow> u64 \<Rightarrow> uba" where
  "uba_of_priv r offSet len = \<lparr>m_priv = r, m_offSet = offSet, m_len = len, m_getPtr = 0, m_putPtr = 0\<rparr>"

definition uba_sub :: "uba \<Rightarrow> u64 \<Rightarrow> uba" where
  "uba_sub adapter addOffset0 =
     (let offSet = m_offSet adapter; len = m_len adapter;
          addOffset = (if addOffset0 > len then len else addOffset0);
          offSet = offSet + addOffset;
          len = len - addOffset;
          getPtr = (if addOffset > 0 then 0
                    else let g = m_getPtr adapter - addOffset in if g \<ge> len then len else g);
          putPtr = (if addOffset > 0 then 0
                    else let g = m_putPtr adapter - addOffset in if g \<ge> len then len else g)
      in \<lparr>m_priv = m_priv adapter, m_offSet = offSet, m_len = len, m_getPtr = getPtr, m_putPtr = putPtr\<rparr>)"

definition uba_sub_len :: "uba \<Rightarrow> u64 \<Rightarrow> u64 \<Rightarrow> uba" where
  "uba_sub_len adapter addOffset0 smallerLen =
     (let offSet = m_offSet adapter; len = m_len adapter;
          addOffset = (if addOffset0 > len then len else addOffset0);
          offSet = offSet + addOffset;
          len = len - addOffset;
          len = (if len > smallerLen then smallerLen else len);
          getPtr = (if addOffset > 0 then 0
                    else let g = m_getPtr adapter - addOffset in if g \<ge> len then len else g);
          putPtr = (if addOffset > 0 then 0
                    else let g = m_putPtr adapter - addOffset in if g \<ge> len then len else g)
      in \<lparr>m_priv = m_priv adapter, m_offSet = offSet, m_len = len, m_getPtr = getPtr, m_putPtr = putPtr\<rparr>)"

definition uba_setPutPtr :: "uba \<Rightarrow> u64 \<Rightarrow> uba" where
  "uba_setPutPtr u pos = u\<lparr>m_putPtr := (if pos \<ge> m_len u then m_len u else pos)\<rparr>"

definition uba_setGetPtr :: "uba \<Rightarrow> u64 \<Rightarrow> uba" where
  "uba_setGetPtr u pos = u\<lparr>m_getPtr := (if pos \<ge> m_len u then m_len u else pos)\<rparr>"

definition uba_incPutPtr :: "uba \<Rightarrow> u64 \<Rightarrow> uba" where
  "uba_incPutPtr u num = uba_setPutPtr u (m_putPtr u + num)"

definition uba_decPutPtr :: "uba \<Rightarrow> u64 \<Rightarrow> uba" where
  "uba_decPutPtr u num = uba_setPutPtr u (m_putPtr u - min num (m_putPtr u))"

definition uba_resetPutPtr :: "uba \<Rightarrow> uba" where
  "uba_resetPutPtr u = u\<lparr>m_putPtr := 0\<rparr>"

definition uba_incGetPtr :: "uba \<Rightarrow> u64 \<Rightarrow> uba" where
  "uba_incGetPtr u num = uba_setGetPtr u (m_getPtr u + num)"

definition uba_decGetPtr :: "uba \<Rightarrow> u64 \<Rightarrow> uba" where
  "uba_decGetPtr u num = uba_setGetPtr u (m_getPtr u - min num (m_getPtr u))"

definition uba_resetGetPtr :: "uba \<Rightarrow> uba" where
  "uba_resetGetPtr u = u\<lparr>m_getPtr := 0\<rparr>"

definition uba_resetPtrs :: "uba \<Rightarrow> uba" where
  "uba_resetPtrs u = uba_resetPutPtr (uba_resetGetPtr u)"

definition uba_getPtrHasNext :: "uba \<Rightarrow> bool" where
  "uba_getPtrHasNext u = (m_getPtr u < m_len u)"

text \<open>The position is set to 0 before the other one is compared with it.\<close>

definition uba_shrinkToPutPtr :: "uba \<Rightarrow> uba" where
  "uba_shrinkToPutPtr u =
     (let u = (if m_putPtr u > m_len u then u\<lparr>m_putPtr := m_len u\<rparr> else u);
          u = u\<lparr>m_offSet := m_offSet u + m_putPtr u\<rparr>;
          u = u\<lparr>m_len := m_len u - m_putPtr u\<rparr>;
          u = u\<lparr>m_putPtr := 0\<rparr>
      in if m_getPtr u < m_putPtr u then u\<lparr>m_getPtr := 0\<rparr> else u\<lparr>m_getPtr := m_getPtr u - m_putPtr u\<rparr>)"

definition uba_shrinkToGetPtr :: "uba \<Rightarrow> uba" where
  "uba_shrinkToGetPtr u =
     (let u = (if m_getPtr u > m_len u then u\<lparr>m_getPtr := m_len u\<rparr> else u);
          u = u\<lparr>m_offSet := m_offSet u + m_getPtr u\<rparr>;
          u = u\<lparr>m_len := m_len u - m_getPtr u\<rparr>;
          u = u\<lparr>m_getPtr := 0\<rparr>
      in if m_putPtr u < m_getPtr u then u\<lparr>m_putPtr := 0\<rparr> else u\<lparr>m_putPtr := m_putPtr u - m_getPtr u\<rparr>)"

definition uba_fromGetPtr :: "uba \<Rightarrow> uba" where
  "uba_fromGetPtr u = uba_shrinkToGetPtr u"

definition uba_fromPutPtr :: "uba \<Rightarrow> uba" where
  "uba_fromPutPtr u = uba_shrinkToPutPtr u"

text \<open>The iterator operations move the begin of the window.\<close>

definition uba_plus :: "uba \<Rightarrow> u64 \<Rightarrow> uba" where
  "uba_plus u offSet = uba_sub u offSet"

definition uba_increment :: "uba \<Rightarrow> uba" where
  "uba_increment u =
     (if m_len u > 0 then
        let u = u\<lparr>m_offSet := m_offSet u + 1\<rparr>;
            u = u\<lparr>m_len := m_len u - 1\<rparr>;
            u = (if m_getPtr u > 0 then u\<lparr>m_getPtr := m_getPtr u - 1\<rparr> else u)
        in if m_putPtr u > 0 then u\<lparr>m_putPtr := m_putPtr u - 1\<rparr> else u
      else u)"

definition uba_decrement :: "uba \<Rightarrow> uba" where
  "uba_decrement u =
     (if m_offSet u > 0 then
        u\<lparr>m_len := m_len u + 1, m_offSet := m_offSet u - 1, m_getPtr := m_getPtr u + 1, m_putPtr := m_putPtr u + 1\<rparr>
      else u)"

definition uba_advance :: "uba \<Rightarrow> u64 \<Rightarrow> uba" where
  "uba_advance u offSet0 =
     (let offSet = (if offSet0 > m_len u then m_len u else offSet0);
          u = u\<lparr>m_offSet := m_offSet u + offSet\<rparr>;
          u = u\<lparr>m_len := m_len u - offSet\<rparr>;
          u = (if offSet > m_getPtr u then u\<lparr>m_getPtr := 0\<rparr> else u\<lparr>m_getPtr := m_getPtr u - offSet\<rparr>)
      in if offSet > m_putPtr u then u\<lparr>m_putPtr := 0\<rparr> else u\<lparr>m_putPtr := m_putPtr u - offSet\<rparr>)"

definition uba_retreat :: "uba \<Rightarrow> u64 \<Rightarrow> uba" where
  "uba_retreat u offSet0 =
     (let offSet = (if offSet0 > m_offSet u then m_offSet u else offSet0)
      in u\<lparr>m_offSet := m_offSet u - offSet, m_len := m_len u + offSet,
           m_putPtr := m_putPtr u + offSet, m_getPtr := m_getPtr u + offSet\<rparr>)"

definition uba_end :: "uba \<Rightarrow> uba" where
  "uba_end u = uba_sub u (m_len u)"

section \<open>Size of the storage\<close>

definition uba_shrinkStorage :: "heap \<Rightarrow> uba \<Rightarrow> u64 \<Rightarrow> (bool \<times> heap \<times> uba) res" where
  "uba_shrinkStorage h u byte0 =
     (let byte = (if byte0 > m_len u then m_len u else byte0)
      in bindE (priv_shrinkStorage (storage h u) (m_offSet u + m_len u - byte)) (\<lambda>(ok, p).
           if ok then Inr (ok, h(m_priv u := p), u\<lparr>m_len := m_len u - byte\<rparr>)
           else Inl AllocationException))"

definition uba_growStorage :: "heap \<Rightarrow> uba \<Rightarrow> u64 \<Rightarrow> (bool \<times> heap \<times> uba) res" where
  "uba_growStorage h u byte =
     bindE (if m_offSet u + m_len u + byte < m_offSet u + m_len u then Inr (False, storage h u)
            else priv_growStorage (storage h u) (m_offSet u + m_len u + byte)) (\<lambda>(ok, p).
       Inr (ok, h(m_priv u := p), if ok then u\<lparr>m_len := m_len u + byte\<rparr> else u))"

definition uba_resize :: "heap \<Rightarrow> uba \<Rightarrow> u64 \<Rightarrow> (bool \<times> heap \<times> uba) res" where
  "uba_resize h u byte =
     (if byte < m_len u then
        let u = u\<lparr>m_len := byte\<rparr>;
            u = (if m_len u < m_getPtr u then u\<lparr>m_getPtr := m_len u\<rparr> else u);
            u = (if m_len u < m_putPtr u then u\<lparr>m_putPtr := m_len u\<rparr> else u)
        in Inr (True, h, u)
      else uba_growStorage h u (byte - m_len u))"

definition uba_resetToStorage :: "heap \<Rightarrow> uba \<Rightarrow> uba res" where
  "uba_resetToStorage h u =
     bindE (priv_size (storage h u)) (\<lambda>n. Inr (u\<lparr>m_putPtr := 0, m_getPtr := 0, m_offSet := 0, m_len := n\<rparr>))"

definition uba_reserveFromPutPtr :: "heap \<Rightarrow> uba \<Rightarrow> u64 \<Rightarrow> (bool \<times> heap \<times> uba) res" where
  "uba_reserveFromPutPtr h u bs =
     (if m_putPtr u < m_len u \<and> m_len u - m_putPtr u \<ge> bs then Inr (True, h, u)
      else let storageNeed = m_putPtr u + bs - m_len u in uba_growStorage h u storageNeed)"

section \<open>Access at a position\<close>

text \<open>The sum of the check wraps around.\<close>

definition range_check :: "uba \<Rightarrow> u64 \<Rightarrow> u64 \<Rightarrow> unit res" where
  "range_check u pos len = (if m_len u < pos + len then Inl OutOfBoundsException else Inr ())"

text \<open>
  The getters and putters check the range and call the storage. \<open>access_at\<close> and
  \<open>store_at\<close> are this shape; \<open>vl_access_at\<close> and \<open>vl_store_at\<close> are the shape of the
  variable length ones, which pass on the room in the window and throw when the code
  does not fit.
\<close>

definition access_at :: "u64 \<Rightarrow> (priv \<Rightarrow> u64 \<Rightarrow> 'v res) \<Rightarrow> heap \<Rightarrow> uba \<Rightarrow> u64 \<Rightarrow> 'v res" where
  "access_at n rd h u pos = bindE (range_check u pos n) (\<lambda>_. rd (storage h u) (m_offSet u + pos))"

definition store_at :: "u64 \<Rightarrow> (priv \<Rightarrow> u64 \<Rightarrow> 'v \<Rightarrow> priv res) \<Rightarrow> heap \<Rightarrow> uba \<Rightarrow> u64 \<Rightarrow> 'v \<Rightarrow> heap res" where
  "store_at n wr h u pos value =
     bindE (range_check u pos n) (\<lambda>_.
     bindE (wr (storage h u) (m_offSet u + pos) value) (\<lambda>p. Inr (h(m_priv u := p))))"

definition vl_access_at ::
  "u64 \<Rightarrow> (priv \<Rightarrow> u64 \<Rightarrow> int \<Rightarrow> ('v \<times> int) res) \<Rightarrow> heap \<Rightarrow> uba \<Rightarrow> u64 \<Rightarrow> ('v \<times> int) res" where
  "vl_access_at n rd h u pos =
     bindE (range_check u pos 1) (\<lambda>_.
       let len = uint (min n (m_len u - pos))
       in bindE (rd (storage h u) (m_offSet u + pos) len) (\<lambda>(res, len).
            if len < 0 then Inl OutOfBoundsException else Inr (res, len)))"

definition vl_store_at ::
  "(priv \<Rightarrow> u64 \<Rightarrow> 'v \<Rightarrow> u64 \<Rightarrow> (int \<times> priv) res) \<Rightarrow> heap \<Rightarrow> uba \<Rightarrow> u64 \<Rightarrow> 'v \<Rightarrow> (int \<times> heap) res" where
  "vl_store_at wr h u pos value =
     bindE (range_check u pos 1) (\<lambda>_.
     bindE (wr (storage h u) (m_offSet u + pos) value (m_len u - pos)) (\<lambda>(len, p).
       if len < 0 then Inl OutOfBoundsException else Inr (len, h(m_priv u := p))))"

definition uba_at :: "heap \<Rightarrow> uba \<Rightarrow> u64 \<Rightarrow> u8 res" where
  "uba_at = access_at 1 priv_getUint8"

definition uba_getInt64 :: "heap \<Rightarrow> uba \<Rightarrow> u64 \<Rightarrow> s64 res" where
  "uba_getInt64 = access_at 8 priv_getInt64"

definition uba_getUint64 :: "heap \<Rightarrow> uba \<Rightarrow> u64 \<Rightarrow> u64 res" where
  "uba_getUint64 = access_at 8 priv_getUint64"

definition uba_getInt32 :: "heap \<Rightarrow> uba \<Rightarrow> u64 \<Rightarrow> s32 res" where
  "uba_getInt32 = access_at 4 priv_getInt32"

definition uba_getUint32 :: "heap \<Rightarrow> uba \<Rightarrow> u64 \<Rightarrow> u32 res" where
  "uba_getUint32 = access_at 4 priv_getUint32"

definition uba_getUint24 :: "heap \<Rightarrow> uba \<Rightarrow> u64 \<Rightarrow> u32 res" where
  "uba_getUint24 = access_at 3 priv_getUint24"

definition uba_getUint16 :: "heap \<Rightarrow> uba \<Rightarrow> u64 \<Rightarrow> u16 res" where
  "uba_getUint16 = access_at 2 priv_getUint16"

definition uba_getUint8 :: "heap \<Rightarrow> uba \<Rightarrow> u64 \<Rightarrow> u8 res" where
  "uba_getUint8 = access_at 1 priv_getUint8"

definition uba_getOffset :: "heap \<Rightarrow> uba \<Rightarrow> u64 \<Rightarrow> u64 res" where
  "uba_getOffset = access_at 5 priv_getOffset"

definition uba_getNegativeOffset :: "heap \<Rightarrow> uba \<Rightarrow> u64 \<Rightarrow> s64 res" where
  "uba_getNegativeOffset = access_at 5 priv_getNegativeOffset"

definition uba_putInt64 :: "heap \<Rightarrow> uba \<Rightarrow> u64 \<Rightarrow> s64 \<Rightarrow> heap res" where
  "uba_putInt64 = store_at 8 priv_putInt64"

definition uba_putUint64 :: "heap \<Rightarrow> uba \<Rightarrow> u64 \<Rightarrow> u64 \<Rightarrow> heap res" where
  "uba_putUint64 = store_at 8 priv_putUint64"

definition uba_putInt32 :: "heap \<Rightarrow> uba \<Rightarrow> u64 \<Rightarrow> s32 \<Rightarrow> heap res" where
  "uba_putInt32 = store_at 4 priv_putInt32"

definition uba_putUint32 :: "heap \<Rightarrow> uba \<Rightarrow> u64 \<Rightarrow> u32 \<Rightarrow> heap res" where
  "uba_putUint32 = store_at 4 priv_putUint32"

definition uba_putUint24 :: "heap \<Rightarrow> uba \<Rightarrow> u64 \<Rightarrow> u32 \<Rightarrow> heap res" where
  "uba_putUint24 = store_at 3 priv_putUint24"

definition uba_putUint16 :: "heap \<Rightarrow> uba \<Rightarrow> u64 \<Rightarrow> u16 \<Rightarrow> heap res" where
  "uba_putUint16 = store_at 2 priv_putUint16"

definition uba_putUint8 :: "heap \<Rightarrow> uba \<Rightarrow> u64 \<Rightarrow> u8 \<Rightarrow> heap res" where
  "uba_putUint8 = store_at 1 priv_putUint8"

definition uba_putOffset :: "heap \<Rightarrow> uba \<Rightarrow> u64 \<Rightarrow> u64 \<Rightarrow> heap res" where
  "uba_putOffset = store_at 5 priv_putOffset"

definition uba_putNegativeOffset :: "heap \<Rightarrow> uba \<Rightarrow> u64 \<Rightarrow> s64 \<Rightarrow> heap res" where
  "uba_putNegativeOffset = store_at 5 priv_putNegativeOffset"

definition uba_getVlPackedUint64 :: "heap \<Rightarrow> uba \<Rightarrow> u64 \<Rightarrow> (u64 \<times> int) res" where
  "uba_getVlPackedUint64 = vl_access_at 10 priv_getVlPackedUint64"

definition uba_putVlPackedUint64 :: "heap \<Rightarrow> uba \<Rightarrow> u64 \<Rightarrow> u64 \<Rightarrow> (int \<times> heap) res" where
  "uba_putVlPackedUint64 = vl_store_at priv_putVlPackedUint64"

definition uba_getVlPackedInt64 :: "heap \<Rightarrow> uba \<Rightarrow> u64 \<Rightarrow> (s64 \<times> int) res" where
  "uba_getVlPackedInt64 = vl_access_at 10 priv_getVlPackedInt64"

definition uba_putVlPackedInt64 :: "heap \<Rightarrow> uba \<Rightarrow> u64 \<Rightarrow> s64 \<Rightarrow> (int \<times> heap) res" where
  "uba_putVlPackedInt64 = vl_store_at priv_putVlPackedInt64"

definition uba_getVlPackedUint32 :: "heap \<Rightarrow> uba \<Rightarrow> u64 \<Rightarrow> (u32 \<times> int) res" where
  "uba_getVlPackedUint32 = vl_access_at 5 priv_getVlPackedUint32"

definition uba_putVlPackedUint32 :: "heap \<Rightarrow> uba \<Rightarrow> u64 \<Rightarrow> u32 \<Rightarrow> (int \<times> heap) res" where
  "uba_putVlPackedUint32 = vl_store_at priv_putVlPackedUint32"

definition uba_getVlPackedInt32 :: "heap \<Rightarrow> uba \<Rightarrow> u64 \<Rightarrow> (s32 \<times> int) res" where
  "uba_getVlPackedInt32 = vl_access_at 5 priv_getVlPackedInt32"

definition uba_putVlPackedInt32 :: "heap \<Rightarrow> uba \<Rightarrow> u64 \<Rightarrow> s32 \<Rightarrow> (int \<times> heap) res" where
  "uba_putVlPackedInt32 = vl_store_at priv_putVlPackedInt32"

definition uba_putVlPackedPad4Uint32 :: "heap \<Rightarrow> uba \<Rightarrow> u64 \<Rightarrow> u32 \<Rightarrow> (int \<times> heap) res" where
  "uba_putVlPackedPad4Uint32 = vl_store_at priv_putVlPackedPad4Uint32"

definition uba_putVlPackedPad4Int32 :: "heap \<Rightarrow> uba \<Rightarrow> u64 \<Rightarrow> s32 \<Rightarrow> (int \<times> heap) res" where
  "uba_putVlPackedPad4Int32 = vl_store_at priv_putVlPackedPad4Int32"

text \<open>
  Strings are a variable length byte count and the bytes. The sum of an \<open>int\<close> and an
  \<open>uint32_t\<close> is computed in 32 bits.
\<close>

definition uba_getString :: "heap \<Rightarrow> uba \<Rightarrow> u64 \<Rightarrow> (bytes \<times> int) res" where
  "uba_getString h u pos =
     bindE (uba_getVlPackedUint32 h u pos) (\<lambda>(strLen, len).
     bindE (range_check u pos (ucast (word_of_int len + strLen :: u32))) (\<lambda>_.
     bindE (priv_getString (storage h u) (m_offSet u + pos + word_of_int len) (ucast strLen)) (\<lambda>s.
       Inr (s, sint (strLen + word_of_int len)))))"

definition uba_getStringData :: "heap \<Rightarrow> uba \<Rightarrow> u64 \<Rightarrow> (uba \<times> int) res" where
  "uba_getStringData h u pos =
     bindE (uba_getVlPackedUint32 h u pos) (\<lambda>(strLen, len).
     bindE (range_check u pos (ucast (word_of_int len + strLen :: u32))) (\<lambda>_.
       Inr (uba_sub_len u (pos + word_of_int len) (ucast strLen), sint (strLen + word_of_int len))))"

text \<open>\<open>dest\<close> is the caller's buffer.\<close>

definition uba_getData :: "heap \<Rightarrow> uba \<Rightarrow> u64 \<Rightarrow> bytes \<Rightarrow> u64 \<Rightarrow> (bytes \<times> u64) res" where
  "uba_getData h u pos dest len0 =
     bindE (range_check u pos 0) (\<lambda>_.
       let len = (if pos + len0 > m_len u then m_len u - pos else len0)
       in if length dest < unat len then Inl MemFault
          else bindE (priv_get (storage h u) (m_offSet u + pos) (take (unat len) dest)) (\<lambda>bs.
                 Inr (bs @ drop (unat len) dest, len)))"

definition uba_putData :: "heap \<Rightarrow> uba \<Rightarrow> u64 \<Rightarrow> bytes \<Rightarrow> heap res" where
  "uba_putData h u pos data =
     (if data = [] then Inr h
      else bindE (range_check u pos (of_nat (length data))) (\<lambda>_.
           bindE (priv_put (storage h u) (m_offSet u + pos) data) (\<lambda>p. Inr (h(m_priv u := p)))))"

fun uba_putData_each :: "heap \<Rightarrow> uba \<Rightarrow> u64 \<Rightarrow> bytes \<Rightarrow> heap res" where
  "uba_putData_each h u pos [] = Inr h"
| "uba_putData_each h u pos (b # bs) = bindE (uba_putUint8 h u pos b) (\<lambda>h. uba_putData_each h u (pos + 1) bs)"

definition uba_putData_deque :: "heap \<Rightarrow> uba \<Rightarrow> u64 \<Rightarrow> bytes \<Rightarrow> heap res" where
  "uba_putData_deque h u pos data =
     (if data = [] then Inr h
      else bindE (range_check u pos (of_nat (length data))) (\<lambda>_. uba_putData_each h u pos data))"

definition uba_putString :: "heap \<Rightarrow> uba \<Rightarrow> u64 \<Rightarrow> bytes \<Rightarrow> (int \<times> heap) res" where
  "uba_putString h u pos str =
     (let needSize = of_nat (psize_vu32 (of_nat (length str))) + of_nat (length str) :: u64
      in bindE (range_check u pos needSize) (\<lambda>_.
         bindE (uba_putVlPackedUint32 h u pos (of_nat (length str))) (\<lambda>(len, h).
         bindE (uba_putData h u (pos + word_of_int len) str) (\<lambda>h.
           Inr (sint (ucast needSize :: s32), h)))))"

section \<open>Comparison and copies\<close>

definition uba_equal :: "uba \<Rightarrow> uba \<Rightarrow> bool" where
  "uba_equal a b =
     (m_offSet a = m_offSet b \<and> m_len a = m_len b \<and> m_priv a = m_priv b \<and> m_getPtr a = m_getPtr b \<and>
      m_putPtr a = m_putPtr b)"

fun uba_equalContent_from :: "heap \<Rightarrow> uba \<Rightarrow> uba \<Rightarrow> u64 \<Rightarrow> nat \<Rightarrow> bool res" where
  "uba_equalContent_from h a b i 0 = Inr True"
| "uba_equalContent_from h a b i (Suc n) =
     bindE (uba_at h a i) (\<lambda>x. bindE (uba_at h b i) (\<lambda>y.
       if x \<noteq> y then Inr False else uba_equalContent_from h a b (i + 1) n))"

definition uba_equalContent :: "heap \<Rightarrow> uba \<Rightarrow> uba \<Rightarrow> bool res" where
  "uba_equalContent h a b =
     (if m_len a \<noteq> m_len b then Inr False else uba_equalContent_from h a b 0 (unat (m_len a)))"

fun uba_bytes_from :: "heap \<Rightarrow> uba \<Rightarrow> u64 \<Rightarrow> nat \<Rightarrow> bytes res" where
  "uba_bytes_from h u i 0 = Inr []"
| "uba_bytes_from h u i (Suc n) =
     bindE (uba_at h u i) (\<lambda>x. bindE (uba_bytes_from h u (i + 1) n) (\<lambda>xs. Inr (x # xs)))"

definition uba_toString :: "heap \<Rightarrow> uba \<Rightarrow> bytes res" where
  "uba_toString h u = uba_bytes_from h u 0 (unat (m_len u))"

section \<open>Streaming access\<close>

text \<open>The shapes of the two macros for streaming getters and putters.\<close>

definition streaming_get :: "u64 \<Rightarrow> (heap \<Rightarrow> uba \<Rightarrow> u64 \<Rightarrow> 'v res) \<Rightarrow> heap \<Rightarrow> uba \<Rightarrow> ('v \<times> uba) res" where
  "streaming_get n get h u =
     bindE (get h u (m_getPtr u)) (\<lambda>res. Inr (res, u\<lparr>m_getPtr := m_getPtr u + n\<rparr>))"

definition resizeForPush :: "heap \<Rightarrow> uba \<Rightarrow> u64 \<Rightarrow> u64 \<Rightarrow> (bool \<times> heap \<times> uba) res" where
  "resizeForPush h u pos len =
     (if pos + len > m_len u then uba_growStorage h u (pos + len - m_len u) else Inr (True, h, u))"

definition streaming_put ::
  "u64 \<Rightarrow> (heap \<Rightarrow> uba \<Rightarrow> u64 \<Rightarrow> 'v \<Rightarrow> heap res) \<Rightarrow> heap \<Rightarrow> uba \<Rightarrow> 'v \<Rightarrow> (heap \<times> uba) res" where
  "streaming_put n put h u value =
     bindE (resizeForPush h u (m_putPtr u) n) (\<lambda>(ok, h, u).
       if \<not> ok then Inl IOException
       else bindE (put h u (m_putPtr u) value) (\<lambda>h. Inr (h, u\<lparr>m_putPtr := m_putPtr u + n\<rparr>)))"

definition stream_getInt64 :: "heap \<Rightarrow> uba \<Rightarrow> (s64 \<times> uba) res" where
  "stream_getInt64 = streaming_get 8 uba_getInt64"

definition stream_putInt64 :: "heap \<Rightarrow> uba \<Rightarrow> s64 \<Rightarrow> (heap \<times> uba) res" where
  "stream_putInt64 = streaming_put 8 uba_putInt64"

definition stream_getUint64 :: "heap \<Rightarrow> uba \<Rightarrow> (u64 \<times> uba) res" where
  "stream_getUint64 = streaming_get 8 uba_getUint64"

definition stream_putUint64 :: "heap \<Rightarrow> uba \<Rightarrow> u64 \<Rightarrow> (heap \<times> uba) res" where
  "stream_putUint64 = streaming_put 8 uba_putUint64"

definition stream_getInt32 :: "heap \<Rightarrow> uba \<Rightarrow> (s32 \<times> uba) res" where
  "stream_getInt32 = streaming_get 4 uba_getInt32"

definition stream_putInt32 :: "heap \<Rightarrow> uba \<Rightarrow> s32 \<Rightarrow> (heap \<times> uba) res" where
  "stream_putInt32 = streaming_put 4 uba_putInt32"

definition stream_getUint32 :: "heap \<Rightarrow> uba \<Rightarrow> (u32 \<times> uba) res" where
  "stream_getUint32 = streaming_get 4 uba_getUint32"

definition stream_putUint32 :: "heap \<Rightarrow> uba \<Rightarrow> u32 \<Rightarrow> (heap \<times> uba) res" where
  "stream_putUint32 = streaming_put 4 uba_putUint32"

definition stream_getUint24 :: "heap \<Rightarrow> uba \<Rightarrow> (u32 \<times> uba) res" where
  "stream_getUint24 = streaming_get 3 uba_getUint24"

definition stream_putUint24 :: "heap \<Rightarrow> uba \<Rightarrow> u32 \<Rightarrow> (heap \<times> uba) res" where
  "stream_putUint24 = streaming_put 3 uba_putUint24"

definition stream_getUint16 :: "heap \<Rightarrow> uba \<Rightarrow> (u16 \<times> uba) res" where
  "stream_getUint16 = streaming_get 2 uba_getUint16"

definition stream_putUint16 :: "heap \<Rightarrow> uba \<Rightarrow> u16 \<Rightarrow> (heap \<times> uba) res" where
  "stream_putUint16 = streaming_put 2 uba_putUint16"

definition stream_getUint8 :: "heap \<Rightarrow> uba \<Rightarrow> (u8 \<times> uba) res" where
  "stream_getUint8 = streaming_get 1 uba_getUint8"

definition stream_putUint8 :: "heap \<Rightarrow> uba \<Rightarrow> u8 \<Rightarrow> (heap \<times> uba) res" where
  "stream_putUint8 = streaming_put 1 uba_putUint8"

definition stream_getOffset :: "heap \<Rightarrow> uba \<Rightarrow> (u64 \<times> uba) res" where
  "stream_getOffset = streaming_get 5 uba_getOffset"

definition stream_putOffset :: "heap \<Rightarrow> uba \<Rightarrow> u64 \<Rightarrow> (heap \<times> uba) res" where
  "stream_putOffset = streaming_put 5 uba_putOffset"

definition stream_getNegativeOffset :: "heap \<Rightarrow> uba \<Rightarrow> (s64 \<times> uba) res" where
  "stream_getNegativeOffset = streaming_get 5 uba_getNegativeOffset"

definition stream_putNegativeOffset :: "heap \<Rightarrow> uba \<Rightarrow> s64 \<Rightarrow> (heap \<times> uba) res" where
  "stream_putNegativeOffset = streaming_put 5 uba_putNegativeOffset"

definition streaming_getVl :: "(heap \<Rightarrow> uba \<Rightarrow> u64 \<Rightarrow> ('v \<times> int) res) \<Rightarrow> heap \<Rightarrow> uba \<Rightarrow> ('v \<times> uba) res" where
  "streaming_getVl get h u =
     bindE (get h u (m_getPtr u)) (\<lambda>(res, len).
       Inr (res, if len > 0 then u\<lparr>m_getPtr := m_getPtr u + word_of_int len\<rparr> else u))"

definition stream_getVlPackedUint64 :: "heap \<Rightarrow> uba \<Rightarrow> (u64 \<times> uba) res" where
  "stream_getVlPackedUint64 = streaming_getVl uba_getVlPackedUint64"

definition stream_getVlPackedInt64 :: "heap \<Rightarrow> uba \<Rightarrow> (s64 \<times> uba) res" where
  "stream_getVlPackedInt64 = streaming_getVl uba_getVlPackedInt64"

definition stream_getVlPackedUint32 :: "heap \<Rightarrow> uba \<Rightarrow> (u32 \<times> uba) res" where
  "stream_getVlPackedUint32 h u =
     bindE (range_check u (m_getPtr u) 1) (\<lambda>_.
       let len = uint (min 5 (m_len u - m_getPtr u))
       in bindE (priv_getVlPackedUint32 (storage h u) (m_offSet u + m_getPtr u) len) (\<lambda>(res, len).
            if len < 0 then Inl OutOfBoundsException
            else Inr (res, u\<lparr>m_getPtr := m_getPtr u + word_of_int len\<rparr>)))"

definition stream_getVlPackedInt32 :: "heap \<Rightarrow> uba \<Rightarrow> (s32 \<times> uba) res" where
  "stream_getVlPackedInt32 = streaming_getVl uba_getVlPackedInt32"

definition stream_getData :: "heap \<Rightarrow> uba \<Rightarrow> bytes \<Rightarrow> u64 \<Rightarrow> (bytes \<times> u64 \<times> uba) res" where
  "stream_getData h u dest len0 =
     bindE (uba_getData h u (m_getPtr u) dest len0) (\<lambda>(bs, len). Inr (bs, len, u\<lparr>m_getPtr := m_getPtr u + len\<rparr>))"

fun uba_getUint8_from :: "heap \<Rightarrow> uba \<Rightarrow> u64 \<Rightarrow> nat \<Rightarrow> bytes res" where
  "uba_getUint8_from h u i 0 = Inr []"
| "uba_getUint8_from h u i (Suc n) =
     bindE (uba_getUint8 h u i) (\<lambda>x. bindE (uba_getUint8_from h u (i + 1) n) (\<lambda>xs. Inr (x # xs)))"

definition stream_getString :: "heap \<Rightarrow> uba \<Rightarrow> (bytes \<times> uba) res" where
  "stream_getString h u =
     bindE (stream_getVlPackedUint32 h u) (\<lambda>(strLen, u).
       if strLen = 0 \<or> m_getPtr u + ucast strLen > m_len u then Inr ([], u)
       else bindE (uba_getUint8_from h u (m_getPtr u) (unat strLen)) (\<lambda>res.
              Inr (res, u\<lparr>m_getPtr := m_getPtr u + of_nat (length res)\<rparr>)))"

definition stream_getStringData :: "heap \<Rightarrow> uba \<Rightarrow> (uba \<times> uba) res" where
  "stream_getStringData h u =
     bindE (uba_getStringData h u (m_getPtr u)) (\<lambda>(s, len).
       Inr (s, if len > 0 then u\<lparr>m_getPtr := m_getPtr u + word_of_int len\<rparr> else u))"

definition stream_putData :: "heap \<Rightarrow> uba \<Rightarrow> bytes \<Rightarrow> (heap \<times> uba) res" where
  "stream_putData h u data =
     (let needSize = of_nat (length data)
      in bindE (resizeForPush h u (m_putPtr u) needSize) (\<lambda>(ok, h, u).
           if \<not> ok then Inl IOException
           else bindE (uba_putData h u (m_putPtr u) data) (\<lambda>h.
                  Inr (h, u\<lparr>m_putPtr := m_putPtr u + needSize\<rparr>))))"

text \<open>The streaming variable length putters pack into a buffer of the longest code word.\<close>

definition streaming_putVl ::
  "nat \<Rightarrow> ('v \<Rightarrow> nat \<Rightarrow> (bytes \<times> int) res) \<Rightarrow> heap \<Rightarrow> uba \<Rightarrow> 'v \<Rightarrow> (int \<times> heap \<times> uba) res" where
  "streaming_putVl bufSize serFunc h u value =
     bindE (serFunc value bufSize) (\<lambda>(tmp, len).
        if len < 0 then Inr (-1, h, u)
        else bindE (stream_putData h u (take (nat len) tmp)) (\<lambda>(h, u). Inr (len, h, u)))"

definition stream_putVlPackedUint64 :: "heap \<Rightarrow> uba \<Rightarrow> u64 \<Rightarrow> (int \<times> heap \<times> uba) res" where
  "stream_putVlPackedUint64 = streaming_putVl 10 (\<lambda>s room. Inr (p_vu64 s room))"

definition stream_putVlPackedInt64 :: "heap \<Rightarrow> uba \<Rightarrow> s64 \<Rightarrow> (int \<times> heap \<times> uba) res" where
  "stream_putVlPackedInt64 = streaming_putVl 10 p_vs64"

definition stream_putVlPackedUint32 :: "heap \<Rightarrow> uba \<Rightarrow> u32 \<Rightarrow> (int \<times> heap \<times> uba) res" where
  "stream_putVlPackedUint32 = streaming_putVl 5 (\<lambda>s room. Inr (p_vu32_int s room))"

definition stream_putVlPackedInt32 :: "heap \<Rightarrow> uba \<Rightarrow> s32 \<Rightarrow> (int \<times> heap \<times> uba) res" where
  "stream_putVlPackedInt32 = streaming_putVl 5 p_vs32"

definition stream_putVlPackedPad4Uint32 :: "heap \<Rightarrow> uba \<Rightarrow> u32 \<Rightarrow> (int \<times> heap \<times> uba) res" where
  "stream_putVlPackedPad4Uint32 h u value =
     bindE (resizeForPush h u (m_putPtr u) 4) (\<lambda>(ok, h, u).
       if \<not> ok then Inr (0, h, u)
       else bindE (uba_putVlPackedPad4Uint32 h u (m_putPtr u) value) (\<lambda>(len, h).
              Inr (len, h, if len > 0 then u\<lparr>m_putPtr := m_putPtr u + word_of_int len\<rparr> else u)))"

definition stream_putVlPackedPad4Int32 :: "heap \<Rightarrow> uba \<Rightarrow> s32 \<Rightarrow> (int \<times> heap \<times> uba) res" where
  "stream_putVlPackedPad4Int32 h u value =
     bindE (resizeForPush h u (m_putPtr u) 4) (\<lambda>(ok, h, u).
       if \<not> ok then Inl IOException
       else bindE (uba_putVlPackedInt32 h u (m_putPtr u) value) (\<lambda>(len, h).
              Inr (len, h, if len > 0 then u\<lparr>m_putPtr := m_putPtr u + word_of_int len\<rparr> else u)))"

definition stream_putString :: "heap \<Rightarrow> uba \<Rightarrow> bytes \<Rightarrow> (heap \<times> uba) res" where
  "stream_putString h u str =
     (let needSize = of_nat (psize_vu32 (of_nat (length str))) + of_nat (length str) :: u64
      in bindE (resizeForPush h u (m_putPtr u) needSize) (\<lambda>(ok, h, u).
           if \<not> ok then Inl IOException
           else bindE (uba_putString h u (m_putPtr u) str) (\<lambda>(pushedBytes, h).
                  Inr (h, if pushedBytes \<ge> 0 then u\<lparr>m_putPtr := m_putPtr u + needSize\<rparr> else u))))"

section \<open>The window as an abstract buffer\<close>

text \<open>
  An adapter stands for the bytes of its window, \<open>view\<close>. \<open>uba_inv\<close> says that the window
  lies inside the storage; \<open>ptrs_ok\<close> that the positions lie inside the window. The
  lemmas below describe every access by its effect on the view alone.
\<close>

definition view :: "heap \<Rightarrow> uba \<Rightarrow> bytes" where
  "view h u = chunk (unat (m_offSet u)) (unat (m_len u)) (mem (storage h u))"

definition uba_inv :: "heap \<Rightarrow> uba \<Rightarrow> bool" where
  "uba_inv h u \<longleftrightarrow> live (storage h u) \<and> unat (m_offSet u) + unat (m_len u) \<le> length (mem (storage h u))"

definition ptrs_ok :: "uba \<Rightarrow> bool" where
  "ptrs_ok u \<longleftrightarrow> m_getPtr u \<le> m_len u \<and> m_putPtr u \<le> m_len u"

definition upd :: "heap \<Rightarrow> uba \<Rightarrow> u64 \<Rightarrow> bytes \<Rightarrow> heap" where
  "upd h u pos bs = h(m_priv u := (storage h u)\<lparr>mem := blit (unat (m_offSet u) + unat pos) bs (mem (storage h u))\<rparr>)"

lemma uba_inv_bounds:
  assumes "uba_inv h u"
  shows "unat (m_offSet u) + unat (m_len u) < 2 ^ 63" "live (storage h u)"
    "unat (m_offSet u) + unat (m_len u) \<le> length (mem (storage h u))"
  using assms live_bound [of "storage h u"] by (auto simp: uba_inv_def)

lemma length_view [simp]: "uba_inv h u \<Longrightarrow> length (view h u) = unat (m_len u)"
  by (simp add: view_def uba_inv_def length_chunk)

lemma view_ptr [simp]: "view h (u\<lparr>m_getPtr := x\<rparr>) = view h u" "view h (u\<lparr>m_putPtr := x\<rparr>) = view h u"
  by (simp_all add: view_def storage_def)

lemma inv_ptr [simp]: "uba_inv h (u\<lparr>m_getPtr := x\<rparr>) = uba_inv h u" "uba_inv h (u\<lparr>m_putPtr := x\<rparr>) = uba_inv h u"
  by (simp_all add: uba_inv_def storage_def)

lemma offset_sum:
  assumes "uba_inv h u" "unat pos \<le> unat (m_len u)"
  shows "unat (m_offSet u + pos) = unat (m_offSet u) + unat pos"
  using uba_inv_bounds [OF assms(1)] assms(2) by (intro unat_add_nowrap) simp

lemma range_check_cases:
  assumes "unat pos + unat n < 2 ^ 64"
  shows "range_check u pos n = (if unat pos + unat n \<le> unat (m_len u) then Inr () else Inl OutOfBoundsException)"
proof -
  have "unat (pos + n) = unat pos + unat n" using assms by (intro unat_add_nowrap) simp
  then show ?thesis by (auto simp: range_check_def word_less_nat_alt)
qed

lemma storage_upd: "m_priv u' = m_priv u \<Longrightarrow>
    storage (upd h u pos bs) u' = (storage h u)\<lparr>mem := blit (unat (m_offSet u) + unat pos) bs (mem (storage h u))\<rparr>"
  "m_priv u' \<noteq> m_priv u \<Longrightarrow> storage (upd h u pos bs) u' = storage h u'"
  by (simp_all add: storage_def upd_def)

lemma inv_upd:
  assumes "uba_inv h u" "unat pos + length bs \<le> unat (m_len u)" "uba_inv h u'"
  shows "uba_inv (upd h u pos bs) u'"
proof (cases "m_priv u' = m_priv u")
  case True
  have "length (blit (unat (m_offSet u) + unat pos) bs (mem (storage h u))) = length (mem (storage h u))"
    using uba_inv_bounds [OF assms(1)] assms(2) by (intro length_blit) simp
  then show ?thesis using assms True by (simp add: uba_inv_def storage_upd) (simp add: storage_def)
next
  case False
  then show ?thesis using assms by (simp add: uba_inv_def storage_upd)
qed

lemma blit_blit_chunk:
  assumes "off + n \<le> length m" "i + length bs \<le> n"
  shows "chunk off n (blit (off + i) bs m) = blit i bs (chunk off n m)"
proof -
  have eq: "blit (off + i) bs m = (take off m @ blit i bs (drop off m))"
    by (simp only: blit_def take_add append_assoc drop_drop) (simp add: ac_simps)
  have "chunk off n (blit (off + i) bs m) = take n (blit i bs (drop off m))"
    using assms unfolding eq chunk_def by simp
  also have "\<dots> = blit i bs (chunk off n m)"
    using assms by (cases "i = n") (auto simp: blit_def chunk_def drop_take min_def)
  finally show ?thesis .
qed

lemma view_upd:
  assumes "uba_inv h u" "unat pos + length bs \<le> unat (m_len u)"
  shows "view (upd h u pos bs) u = blit (unat pos) bs (view h u)"
  using uba_inv_bounds [OF assms(1)] assms(2)
  by (simp add: view_def storage_upd blit_blit_chunk)

text \<open>A write is invisible to an adapter on other storage or with a disjoint window.\<close>

lemma view_upd_other:
  assumes "uba_inv h u" "unat pos + length bs \<le> unat (m_len u)" "uba_inv h u'"
    and "m_priv u' \<noteq> m_priv u \<or> unat (m_offSet u') + unat (m_len u') \<le> unat (m_offSet u) + unat pos \<or>
         unat (m_offSet u) + unat pos + length bs \<le> unat (m_offSet u')"
  shows "view (upd h u pos bs) u' = view h u'"
proof (cases "m_priv u' = m_priv u")
  case True
  then have s: "storage h u' = storage h u" by (simp add: storage_def)
  show ?thesis
    using True assms uba_inv_bounds [OF assms(1)] uba_inv_bounds [OF assms(3)] unfolding s
    by (simp add: view_def storage_upd s chunk_blit_disjoint)
next
  case False
  then show ?thesis by (simp add: view_def storage_upd)
qed

text \<open>An adapter that covers the window sees the write at the shifted position.\<close>

lemma view_upd_cover:
  assumes "uba_inv h u" "unat pos + length bs \<le> unat (m_len u)" "uba_inv h u'" "m_priv u' = m_priv u"
    and "unat (m_offSet u') \<le> unat (m_offSet u) + unat pos"
    and "unat (m_offSet u) + unat pos + length bs \<le> unat (m_offSet u') + unat (m_len u')"
  shows "view (upd h u pos bs) u' = blit (unat (m_offSet u) + unat pos - unat (m_offSet u')) bs (view h u')"
proof -
  have s: "storage h u' = storage h u" using assms(4) by (simp add: storage_def)
  obtain k where p: "unat (m_offSet u) + unat pos = unat (m_offSet u') + k" using assms(5) le_Suc_ex by blast
  have "k + length bs \<le> unat (m_len u')" using assms(6) p by linarith
  then show ?thesis
    using uba_inv_bounds(3) [OF assms(3)] unfolding view_def storage_upd(1) [OF assms(4)] s p
    by (simp add: blit_blit_chunk)
qed

section \<open>The fixed width accessors\<close>

text \<open>
  The accessors of a type are those of a code together with the virtual calls that move
  its bytes. Their behaviour is proved once, from the laws of the code and the storage.
\<close>

text \<open>
  What an access to \<open>w\<close> bytes does, at every position. Where position and width add up to less
  than \<open>2 ^ 64\<close> it works on the window or throws. Behind that the sum in the range check wraps around and
  the position stands for \<open>k\<close> bytes before the window: when the check passes, the access is to the
  storage before the window, or outside the storage.
\<close>

definition window_read :: "nat \<Rightarrow> (bytes \<Rightarrow> 'v) \<Rightarrow> heap \<Rightarrow> uba \<Rightarrow> u64 \<Rightarrow> 'v res" where
  "window_read w dec h u pos =
     (if unat pos + w < 2 ^ 64 then
        if unat pos + w \<le> unat (m_len u) then Inr (dec (drop (unat pos) (view h u))) else Inl OutOfBoundsException
      else let k = 2 ^ 64 - unat pos
        in if unat (m_len u) + k < w then Inl OutOfBoundsException
           else if unat (m_offSet u) < k then Inl MemFault
           else Inr (dec (drop (unat (m_offSet u) - k) (mem (storage h u)))))"

definition window_write :: "nat \<Rightarrow> bytes res \<Rightarrow> heap \<Rightarrow> uba \<Rightarrow> u64 \<Rightarrow> heap res" where
  "window_write w code h u pos =
     (if unat pos + w < 2 ^ 64 then
        if unat pos + w \<le> unat (m_len u) then bindE code (\<lambda>bs. Inr (upd h u pos bs)) else Inl OutOfBoundsException
      else let k = 2 ^ 64 - unat pos
        in if unat (m_len u) + k < w then Inl OutOfBoundsException
           else bindE code (\<lambda>bs.
             if unat (m_offSet u) < k then Inl MemFault
             else Inr (h(m_priv u := (storage h u)\<lparr>mem := blit (unat (m_offSet u) - k) bs (mem (storage h u))\<rparr>))))"

text \<open>The range check where the sum wraps around, and the position in the storage.\<close>

lemma range_check_wrap:
  fixes pos n :: u64
  assumes "\<not> unat pos + unat n < 2 ^ 64"
  shows "range_check u pos n =
    (if unat (m_len u) + (2 ^ 64 - unat pos) < unat n then Inl OutOfBoundsException else Inr ())"
proof -
  have "unat pos < 2 ^ 64" using unsigned_less [of pos] by simp
  then have "unat (pos + n) = unat n - (2 ^ 64 - unat pos)"
    using assms unat_plus_if' [of pos n] by simp
  moreover have "2 ^ 64 - unat pos \<le> unat n" using assms by simp
  ultimately show ?thesis by (simp add: range_check_def word_less_nat_alt less_diff_conv)
qed

lemma offset_wrap:
  fixes pos :: u64
  assumes "uba_inv h u" "0 < unat pos"
  shows "unat (m_offSet u + pos) =
    (if unat (m_offSet u) < 2 ^ 64 - unat pos then unat (m_offSet u) + unat pos else unat (m_offSet u) - (2 ^ 64 - unat pos))"
proof -
  have "unat pos < 2 ^ 64" using unsigned_less [of pos] by simp
  then show ?thesis using unat_plus_if' [of "m_offSet u" pos] assms(2) by auto
qed

locale uba_cell = fixed_code pack unpack width dom
  for pack :: "'v \<Rightarrow> bytes" and unpack and width and dom +
  fixes ok :: "'v \<Rightarrow> bool" and rd :: "priv \<Rightarrow> u64 \<Rightarrow> 'v res" and wr :: "priv \<Rightarrow> u64 \<Rightarrow> 'v \<Rightarrow> priv res" and n :: u64
  assumes rd_ok: "live p \<Longrightarrow> unat q + width \<le> length (mem p) \<Longrightarrow> rd p q = Inr (unpack (drop (unat q) (mem p)))"
    and wr_ok: "ok v \<Longrightarrow> live p \<Longrightarrow> unat q + width \<le> length (mem p) \<Longrightarrow> wr p q v = Inr (p\<lparr>mem := blit (unat q) (pack v) (mem p)\<rparr>)"
    and rd_fault: "live p \<Longrightarrow> length (mem p) < unat q + width \<Longrightarrow> rd p q = Inl MemFault"
    and wr_fault: "ok v \<Longrightarrow> live p \<Longrightarrow> length (mem p) < unat q + width \<Longrightarrow> wr p q v = Inl MemFault"
    and width_small: "width \<le> 8"
    and dom_ok: "dom v \<Longrightarrow> ok v"
    and n_width: "unat n = width"
begin

lemma get_spec:
  assumes "uba_inv h u" "unat pos + width < 2 ^ 64"
  shows "access_at n rd h u pos =
    (if unat pos + width \<le> unat (m_len u) then Inr (unpack (drop (unat pos) (view h u))) else Inl OutOfBoundsException)"
proof (cases "unat pos + width \<le> unat (m_len u)")
  case True
  have "unpack (drop (unat pos) (view h u)) = unpack (drop (unat (m_offSet u) + unat pos) (mem (storage h u)))"
    unfolding view_def using True uba_inv_bounds [OF assms(1)] by (intro unpack_in_chunk) simp_all
  then show ?thesis using True assms uba_inv_bounds [OF assms(1)] offset_sum [OF assms(1), of pos]
    by (simp add: access_at_def range_check_cases n_width rd_ok)
next
  case False
  then show ?thesis using assms by (simp add: access_at_def range_check_cases n_width)
qed

lemma put_spec:
  assumes "uba_inv h u" "unat pos + width < 2 ^ 64" "ok v"
  shows "store_at n wr h u pos v =
    (if unat pos + width \<le> unat (m_len u) then Inr (upd h u pos (pack v)) else Inl OutOfBoundsException)"
proof (cases "unat pos + width \<le> unat (m_len u)")
  case True
  then show ?thesis using assms uba_inv_bounds [OF assms(1)] offset_sum [OF assms(1), of pos]
    by (simp add: store_at_def range_check_cases n_width wr_ok upd_def)
next
  case False
  then show ?thesis using assms by (simp add: store_at_def range_check_cases n_width)
qed

lemma wrap_bounds:
  assumes "uba_inv h u" "\<not> unat pos + width < 2 ^ 64"
  shows "0 < unat pos"
    "unat (m_offSet u) < 2 ^ 64 - unat pos \<Longrightarrow> length (mem (storage h u)) < unat (m_offSet u + pos) + width"
    "\<not> unat (m_len u) + (2 ^ 64 - unat pos) < width \<Longrightarrow> \<not> unat (m_offSet u) < 2 ^ 64 - unat pos \<Longrightarrow>
      unat (m_offSet u + pos) + width \<le> length (mem (storage h u))"
proof -
  note b = uba_inv_bounds [OF assms(1)]
  show p: "0 < unat pos" using assms(2) width_small by simp
  have l: "length (mem (storage h u)) < 2 ^ 63" using live_bound [OF b(2)] .
  show "unat (m_offSet u) < 2 ^ 64 - unat pos \<Longrightarrow> length (mem (storage h u)) < unat (m_offSet u + pos) + width"
    using offset_wrap [OF assms(1) p] assms(2) l by simp
  show "\<not> unat (m_len u) + (2 ^ 64 - unat pos) < width \<Longrightarrow> \<not> unat (m_offSet u) < 2 ^ 64 - unat pos \<Longrightarrow>
      unat (m_offSet u + pos) + width \<le> length (mem (storage h u))"
    using offset_wrap [OF assms(1) p] b(3) by simp
qed

lemma get_everywhere:
  assumes "uba_inv h u"
  shows "access_at n rd h u pos = window_read width unpack h u pos"
proof (cases "unat pos + width < 2 ^ 64")
  case True
  then show ?thesis by (simp add: get_spec [OF assms] window_read_def)
next
  case False
  then show ?thesis
    using wrap_bounds [OF assms False] offset_wrap [OF assms, of pos] uba_inv_bounds(2) [OF assms]
      range_check_wrap [of pos n u]
    by (auto simp: access_at_def window_read_def n_width Let_def rd_fault rd_ok)
qed

lemma put_everywhere:
  assumes "uba_inv h u" "ok v"
  shows "store_at n wr h u pos v = window_write width (Inr (pack v)) h u pos"
proof (cases "unat pos + width < 2 ^ 64")
  case True
  then show ?thesis by (simp add: put_spec [OF assms(1) _ assms(2)] window_write_def)
next
  case False
  then show ?thesis
    using wrap_bounds [OF assms(1) False] offset_wrap [OF assms(1), of pos] uba_inv_bounds(2) [OF assms(1)]
      range_check_wrap [of pos n u] assms(2)
    by (auto simp: store_at_def window_write_def n_width Let_def wr_fault wr_ok)
qed

lemma get_after_put:
  assumes "uba_inv h u" "unat pos + width < 2 ^ 64" "store_at n wr h u pos v = Inr h'" "dom v"
  shows "access_at n rd h' u pos = Inr v"
proof -
  have r: "unat pos + width \<le> unat (m_len u)" and h': "h' = upd h u pos (pack v)"
    using assms dom_ok [OF assms(4)] by (auto simp: put_spec split: if_splits)
  then have "uba_inv h' u" "view h' u = blit (unat pos) (pack v) (view h u)"
    using assms(1) by (simp_all add: inv_upd view_upd length_pack)
  then show ?thesis using r assms by (simp add: get_spec unpack_at)
qed

end

interpretation Int64: uba_cell p_s64 up_s64 8 "\<lambda>_. True" "\<lambda>_. True" priv_getInt64 priv_putInt64 8
  by unfold_locales (simp_all add: priv_ok priv_fault)

interpretation Uint64: uba_cell p_u64 up_u64 8 "\<lambda>_. True" "\<lambda>_. True" priv_getUint64 priv_putUint64 8
  by unfold_locales (simp_all add: priv_ok priv_fault)

interpretation Int32: uba_cell p_s32 up_s32 4 "\<lambda>_. True" "\<lambda>_. True" priv_getInt32 priv_putInt32 4
  by unfold_locales (simp_all add: priv_ok priv_fault)

interpretation Uint32: uba_cell p_u32 up_u32 4 "\<lambda>_. True" "\<lambda>_. True" priv_getUint32 priv_putUint32 4
  by unfold_locales (simp_all add: priv_ok priv_fault)

interpretation Uint24: uba_cell p_u24 up_u24 3 "\<lambda>w. take_bit 24 w = w" "\<lambda>_. True" priv_getUint24 priv_putUint24 3
  by unfold_locales (simp_all add: priv_ok priv_fault)

interpretation Uint16: uba_cell p_u16 up_u16 2 "\<lambda>_. True" "\<lambda>_. True" priv_getUint16 priv_putUint16 2
  by unfold_locales (simp_all add: priv_ok priv_fault)

interpretation Uint8: uba_cell p_u8 up_u8 1 "\<lambda>_. True" "\<lambda>_. True" priv_getUint8 priv_putUint8 1
  by unfold_locales (simp_all add: priv_ok priv_fault)

interpretation Offset: uba_cell p_u40 up_u40 5 "\<lambda>w. take_bit 40 w = w" "\<lambda>_. True" priv_getOffset priv_putOffset 5
  by unfold_locales (simp_all add: priv_ok priv_fault)

interpretation NegativeOffset: uba_cell "\<lambda>s. p_u40 (sm_enc s)" up_s40 5 "\<lambda>s. \<bar>sint s\<bar> < 2 ^ 39"
    "\<lambda>s. sint s \<noteq> - (2 ^ 63)" priv_getNegativeOffset priv_putNegativeOffset 5
  by unfold_locales (auto simp: priv_ok priv_fault p_s40_sm)

lemmas uba_get_defs = uba_getInt64_def uba_getUint64_def uba_getInt32_def uba_getUint32_def uba_getUint24_def uba_getUint16_def uba_getUint8_def uba_getOffset_def uba_getNegativeOffset_def uba_at_def

lemmas uba_put_defs = uba_putInt64_def uba_putUint64_def uba_putInt32_def uba_putUint32_def uba_putUint24_def uba_putUint16_def uba_putUint8_def uba_putOffset_def uba_putNegativeOffset_def

section \<open>The variable length accessors\<close>

locale uba_vl = vl_code enc dec code size maxlen dom
  for enc :: "'v \<Rightarrow> nat \<Rightarrow> (bytes \<times> int) res" and dec and code and size and maxlen and dom +
  fixes rd :: "priv \<Rightarrow> u64 \<Rightarrow> int \<Rightarrow> ('v \<times> int) res"
    and wr :: "priv \<Rightarrow> u64 \<Rightarrow> 'v \<Rightarrow> u64 \<Rightarrow> (int \<times> priv) res" and n :: u64
  assumes rd_ok: "live p \<Longrightarrow> 0 < len \<Longrightarrow> unat q + nat len \<le> length (mem p) \<Longrightarrow>
      rd p q len = dec (chunk (unat q) (nat len) (mem p))"
    and wr_ok: "dom v \<Longrightarrow> live p \<Longrightarrow> size v \<le> unat room \<Longrightarrow> unat q + size v \<le> length (mem p) \<Longrightarrow>
      wr p q v room = Inr (int (size v), p\<lparr>mem := blit (unat q) (code v) (mem p)\<rparr>)"
    and n_maxlen: "unat n = maxlen"
begin

lemma get_spec:
  assumes "uba_inv h u" "unat pos < unat (m_len u)"
  shows "vl_access_at n rd h u pos =
    bindE (dec (drop (unat pos) (view h u))) (\<lambda>(res, len). if len < 0 then Inl OutOfBoundsException else Inr (res, len))"
proof -
  define k where "k = min n (m_len u - pos)"
  have sub: "unat (m_len u - pos) = unat (m_len u) - unat pos"
    using assms(2) by (intro unat_sub) (simp add: word_le_nat_alt)
  have k: "unat k = min maxlen (unat (m_len u) - unat pos)"
    by (simp add: k_def min_def word_le_nat_alt n_maxlen sub)
  have k0: "0 < unat k" using k maxlen_pos assms(2) by simp
  have "chunk (unat (m_offSet u) + unat pos) (unat k) (mem (storage h u)) = chunk (unat pos) (unat k) (view h u)"
    unfolding view_def using assms(2) k by (intro chunk_chunk [symmetric]) simp
  also have "\<dots> = take (unat k) (drop (unat pos) (view h u))" by (simp add: chunk_def)
  finally have c: "chunk (unat (m_offSet u) + unat pos) (unat k) (mem (storage h u)) = \<dots>" .
  have d: "dec (take (unat k) (drop (unat pos) (view h u))) = dec (drop (unat pos) (view h u))"
  proof (cases "maxlen \<le> unat k")
    case False
    then have "unat k = length (drop (unat pos) (view h u))" using k assms(1) by simp
    then show ?thesis by simp
  qed (rule dec_take)
  have "int (unat k) = uint k" by simp
  then have u: "0 < uint k" "nat (uint k) = unat k" using k0 by linarith simp
  have "unat (m_offSet u + pos) + nat (uint k) \<le> length (mem (storage h u))"
    using u k assms(2) uba_inv_bounds [OF assms(1)] offset_sum [OF assms(1), of pos] by simp
  from rd_ok [OF uba_inv_bounds(2) [OF assms(1)] u(1) this]
  have "rd (storage h u) (m_offSet u + pos) (uint k) = dec (drop (unat pos) (view h u))"
    using offset_sum [OF assms(1), of pos] assms(2) by (simp only: u c d less_imp_le)
  moreover have "range_check u pos 1 = Inr ()" using assms uba_inv_bounds [OF assms(1)] by (simp add: range_check_cases)
  ultimately show ?thesis by (simp add: vl_access_at_def k_def)
qed

lemma put_spec:
  assumes "uba_inv h u" "unat pos + size v \<le> unat (m_len u)" "dom v"
  shows "vl_store_at wr h u pos v = Inr (int (size v), upd h u pos (code v))"
proof -
  have "pos \<le> m_len u" using assms(2) by (simp add: word_le_nat_alt)
  then have "unat (m_len u - pos) = unat (m_len u) - unat pos" by (rule unat_sub)
  then have "wr (storage h u) (m_offSet u + pos) v (m_len u - pos) =
      Inr (int (size v), (storage h u)\<lparr>mem := blit (unat (m_offSet u) + unat pos) (code v) (mem (storage h u))\<rparr>)"
    using assms uba_inv_bounds [OF assms(1)] offset_sum [OF assms(1), of pos] by (subst wr_ok) simp_all
  moreover have "range_check u pos 1 = Inr ()"
    using assms uba_inv_bounds [OF assms(1)] size_pos [of v] by (simp add: range_check_cases)
  ultimately show ?thesis by (simp add: vl_store_at_def upd_def)
qed

lemma get_after_put:
  assumes "uba_inv h u" "unat pos + size v \<le> unat (m_len u)" "dom v"
  shows "vl_access_at n rd (upd h u pos (code v)) u pos = Inr (v, int (size v))"
proof -
  have "uba_inv (upd h u pos (code v)) u" "view (upd h u pos (code v)) u = blit (unat pos) (code v) (view h u)"
    using assms by (simp_all add: inv_upd view_upd length_code)
  moreover have "drop (unat pos) (blit (unat pos) (code v) (view h u)) = code v @ drop (unat pos + size v) (view h u)"
    using assms by (simp add: blit_def length_code)
  moreover have "unat pos < unat (m_len u)" using assms(2) size_pos [of v] by simp
  ultimately show ?thesis using assms(3) size_pos [of v] by (simp add: get_spec dec_code)
qed

end

text \<open>A failed read leaves no trace: the heap is not changed by any getter.\<close>

interpretation VlUint64: uba_vl "\<lambda>s room. Inr (p_vu64 s room)" up_vu64 vl_bytes psize_vu64 10 "\<lambda>_. True"
    priv_getVlPackedUint64 priv_putVlPackedUint64 10
  by unfold_locales (simp_all add: priv_ok)

interpretation VlInt64: uba_vl p_vs64 up_vs64 "\<lambda>s. vl_bytes (sm_enc s)" "\<lambda>s. psize_v (sm_enc s)" 10 "\<lambda>s. sint s \<noteq> - (2 ^ 63)"
    priv_getVlPackedInt64 priv_putVlPackedInt64 10
  by unfold_locales (simp_all add: priv_ok)

interpretation VlUint32: uba_vl "\<lambda>s room. Inr (p_vu32_int s room)" up_vu32 vl_bytes psize_vu32 5 "\<lambda>_. True"
    priv_getVlPackedUint32 priv_putVlPackedUint32 5
  by unfold_locales (simp_all add: priv_ok)

interpretation VlInt32: uba_vl p_vs32 up_vs32 "\<lambda>s. vl_bytes (sm_enc s)" "\<lambda>s. psize_v (sm_enc s)" 5 "\<lambda>s. sint s \<noteq> - (2 ^ 31)"
    priv_getVlPackedInt32 priv_putVlPackedInt32 5
  by unfold_locales (simp_all add: priv_ok)

lemmas uba_vl_defs = uba_getVlPackedUint64_def uba_putVlPackedUint64_def uba_getVlPackedInt64_def uba_putVlPackedInt64_def uba_getVlPackedUint32_def uba_putVlPackedUint32_def uba_getVlPackedInt32_def uba_putVlPackedInt32_def

section \<open>Streaming\<close>

definition growable :: "heap \<Rightarrow> uba \<Rightarrow> bool" where
  "growable h u \<longleftrightarrow> kind (storage h u) = VectorB \<or> kind (storage h u) = DequeB"

lemma growable_ptr [simp]: "growable h (u\<lparr>m_getPtr := x\<rparr>) = growable h u" "growable h (u\<lparr>m_putPtr := x\<rparr>) = growable h u"
    "growable h (u\<lparr>m_len := x\<rparr>) = growable h u"
  by (simp_all add: growable_def storage_def)

lemma storage_fun_upd [simp]: "m_priv u' = m_priv u \<Longrightarrow> storage (h(m_priv u := p)) u' = p"
  by (simp add: storage_def)

lemma growStorage_spec:
  assumes "uba_inv h u" "growable h u" "unat (m_offSet u) + unat (m_len u) + unat byte \<le> max_size"
  shows "\<exists>h' ys. uba_growStorage h u byte = Inr (True, h', u\<lparr>m_len := m_len u + byte\<rparr>) \<and>
    length ys = unat byte \<and> uba_inv h' (u\<lparr>m_len := m_len u + byte\<rparr>) \<and> growable h' u \<and>
    view h' (u\<lparr>m_len := m_len u + byte\<rparr>) = view h u @ ys"
proof -
  let ?p = "storage h u" and ?o = "m_offSet u" and ?l = "m_len u"
  note b = uba_inv_bounds [OF assms(1)]
  have m: "max_size < 2 ^ 63" by (simp add: max_size_def)
  have s: "unat (?o + ?l) = unat ?o + unat ?l" using b by (intro unat_add_nowrap) simp
  have s2: "unat (?o + ?l + byte) = unat ?o + unat ?l + unat byte"
    using assms(3) m s by (subst unat_add_nowrap) simp_all
  have s3: "unat (?l + byte) = unat ?l + unat byte" using assms(3) m by (intro unat_add_nowrap) simp
  have nowrap: "\<not> ?o + ?l + byte < ?o + ?l" using s s2 by (simp add: word_less_nat_alt)
  define m' where "m' = mem ?p @ replicate (unat ?o + unat ?l + unat byte - length (mem ?p)) 0"
  have g: "priv_growStorage ?p (?o + ?l + byte) = Inr (True, ?p\<lparr>mem := m'\<rparr>)"
    using assms(2,3) b s2 by (auto simp: priv_growStorage_cases growable_def m'_def)
  have len: "unat ?o + unat ?l + unat byte \<le> length m'" "length m' \<le> max_size"
    using b assms(3) by (auto simp: m'_def live_def)
  have "chunk (unat ?o) (unat ?l + unat byte) m' = chunk (unat ?o) (unat ?l) m' @ chunk (unat ?o + unat ?l) (unat byte) m'"
    by (rule chunk_split)
  moreover have "chunk (unat ?o) (unat ?l) m' = view h u"
    unfolding m'_def view_def using b by (intro chunk_append1) simp
  ultimately show ?thesis
    using g nowrap len assms(2) b s3
    by (intro exI [of _ "h(m_priv u := ?p\<lparr>mem := m'\<rparr>)"] exI [of _ "chunk (unat ?o + unat ?l) (unat byte) m'"])
      (auto simp: uba_growStorage_def length_chunk uba_inv_def view_def live_def growable_def)
qed

text \<open>The effect of a streaming write of \<open>bs\<close>: the view is overwritten at the write position,
  beyond its end if need be, and the write position moves behind it.\<close>

definition appended :: "heap \<Rightarrow> uba \<Rightarrow> bytes \<Rightarrow> heap \<Rightarrow> uba \<Rightarrow> bool" where
  "appended h u bs h' u' \<longleftrightarrow>
     uba_inv h' u' \<and> growable h' u' \<and> view h' u' = blit (unat (m_putPtr u)) bs (view h u) \<and>
     unat (m_putPtr u') = unat (m_putPtr u) + length bs \<and> m_putPtr u' \<le> m_len u' \<and>
     m_getPtr u' = m_getPtr u \<and> m_offSet u' = m_offSet u \<and> m_priv u' = m_priv u"

definition pushable :: "heap \<Rightarrow> uba \<Rightarrow> nat \<Rightarrow> bool" where
  "pushable h u n \<longleftrightarrow> uba_inv h u \<and> growable h u \<and> m_putPtr u \<le> m_len u \<and>
     unat (m_offSet u) + unat (m_putPtr u) + n \<le> max_size"

lemma blit_blit: "off \<le> length v \<Longrightarrow> blit (off + length a) b (blit off a v) = blit off (a @ b) v"
  by (simp add: blit_def add.assoc [symmetric]) (simp add: ac_simps)

lemma appended_pushable: "pushable h u (length bs + n) \<Longrightarrow> appended h u bs h' u' \<Longrightarrow> pushable h' u' n"
  by (simp add: pushable_def appended_def)

lemma appended_trans:
  assumes "pushable h u n" "appended h u a h1 u1" "appended h1 u1 b h2 u2"
  shows "appended h u (a @ b) h2 u2"
proof -
  have "unat (m_putPtr u) \<le> length (view h u)" using assms(1) by (simp add: pushable_def word_le_nat_alt)
  then show ?thesis using assms(2,3) by (auto simp: appended_def blit_blit)
qed

lemma appended_Nil: "pushable h u n \<Longrightarrow> appended h u [] h u"
  by (simp add: pushable_def appended_def)

lemma push_spec:
  assumes "pushable h u (length bs)" "unat n = length bs"
  shows "\<exists>h1 u1. resizeForPush h u (m_putPtr u) n = Inr (True, h1, u1) \<and> m_putPtr u1 = m_putPtr u \<and>
    uba_inv h1 u1 \<and> unat (m_putPtr u) + length bs \<le> unat (m_len u1) \<and>
    appended h u bs (upd h1 u1 (m_putPtr u) bs) (u1\<lparr>m_putPtr := m_putPtr u + n\<rparr>)"
proof -
  let ?p = "m_putPtr u"
  have inv: "uba_inv h u" and gr: "growable h u" and le: "unat ?p \<le> unat (m_len u)"
    and mx: "unat (m_offSet u) + unat ?p + length bs \<le> max_size"
    using assms(1) by (simp_all add: pushable_def word_le_nat_alt)
  have m: "max_size < 2 ^ 63" by (simp add: max_size_def)
  have s: "unat (?p + n) = unat ?p + length bs" using mx m assms(2) by (subst unat_add_nowrap) simp_all
  have fin: "\<exists>h1 u1. resizeForPush h u ?p n = Inr (True, h1, u1) \<and> m_putPtr u1 = ?p \<and> uba_inv h1 u1 \<and>
      unat ?p + length bs \<le> unat (m_len u1) \<and>
      appended h u bs (upd h1 u1 ?p bs) (u1\<lparr>m_putPtr := ?p + n\<rparr>)"
    if r: "resizeForPush h u ?p n = Inr (True, h1, u\<lparr>m_len := l\<rparr>)" and i: "uba_inv h1 (u\<lparr>m_len := l\<rparr>)"
      and g: "growable h1 (u\<lparr>m_len := l\<rparr>)" and v: "view h1 (u\<lparr>m_len := l\<rparr>) = view h u @ ys"
      and l: "unat ?p + length bs \<le> unat l" "ys = [] \<or> unat ?p + length bs = unat l" for h1 l ys
  proof -
    let ?u = "u\<lparr>m_len := l\<rparr>"
    have "length (view h u @ ys) = unat l" using length_view [OF i] v by simp
    then have "blit (unat ?p) bs (view h u @ ys) = blit (unat ?p) bs (view h u)"
      using l(2) le inv by (auto simp: blit_def)
    then have "view (upd h1 ?u ?p bs) ?u = blit (unat ?p) bs (view h u)" "uba_inv (upd h1 ?u ?p bs) ?u"
      using i v l(1) by (simp_all add: view_upd inv_upd)
    moreover have "growable (upd h1 ?u ?p bs) ?u" using g by (simp add: growable_def storage_upd)
    ultimately show ?thesis using r i l(1) s
      by (intro exI [of _ h1] exI [of _ ?u]) (simp add: appended_def word_le_nat_alt)
  qed
  show ?thesis
  proof (cases "?p + n > m_len u")
    case False
    then have "resizeForPush h u ?p n = Inr (True, h, u)" by (simp add: resizeForPush_def)
    moreover have "unat ?p + length bs \<le> unat (m_len u)" using False s by (simp add: word_less_nat_alt)
    ultimately show ?thesis using inv gr
      by (intro fin [of h "m_len u" "[]"]) simp_all
  next
    case True
    define byte where "byte = ?p + n - m_len u"
    have "m_len u \<le> ?p + n" using True by (rule order.strict_implies_order)
    then have "unat byte = unat (?p + n) - unat (m_len u)" unfolding byte_def by (rule unat_sub)
    then have b: "unat byte = unat ?p + length bs - unat (m_len u)" by (simp only: s)
    have gt: "unat (m_len u) < unat ?p + length bs" using True s by (simp add: word_less_nat_alt)
    have "unat (m_offSet u) + unat (m_len u) + unat byte \<le> max_size" using b mx gt by simp
    from growStorage_spec [OF inv gr this] obtain h' ys where
      *: "uba_growStorage h u byte = Inr (True, h', u\<lparr>m_len := m_len u + byte\<rparr>)" "length ys = unat byte"
        "uba_inv h' (u\<lparr>m_len := m_len u + byte\<rparr>)" "growable h' u"
        "view h' (u\<lparr>m_len := m_len u + byte\<rparr>) = view h u @ ys" by blast
    have e: "m_len u + byte = ?p + n" by (simp add: byte_def)
    show ?thesis using True * s unfolding e
      by (intro fin [of h' "?p + n" ys]) (simp_all add: resizeForPush_def byte_def)
  qed
qed

end
