(* ===== verification/AdapterStream.thy ===== *)
theory AdapterStream
  imports Adapter
begin

text \<open>
  The streaming interface of \<open>UByteArrayAdapter\<close>: every pair of a streaming putter and
  its getter is a \<open>stream_code\<close>, and so is any mixed sequence of values, which is how
  the other components of the library write and read their headers. Also the pure
  window operations, and what happens at the edges the comments of the sources promise
  otherwise.
\<close>

section \<open>Bulk transfers\<close>

lemma upd_Nil [simp]: "upd h u pos [] = h"
  by (simp add: upd_def storage_def)

lemma upd_upd:
  assumes "uba_inv h u" "unat pos + length a + length b \<le> unat (m_len u)" "unat pos' = unat pos + length a"
  shows "upd (upd h u pos a) u pos' b = upd h u pos (a @ b)"
proof -
  have "unat (m_offSet u) + unat pos \<le> length (mem (storage h u))"
    using uba_inv_bounds [OF assms(1)] assms(2) by simp
  then show ?thesis using assms(3)
    by (simp add: upd_def storage_def blit_blit flip: add.assoc)
qed

lemma putData_spec:
  assumes "uba_inv h u" "unat pos + length data \<le> unat (m_len u)"
  shows "uba_putData h u pos data = Inr (upd h u pos data)"
proof -
  have l: "unat (of_nat (length data) :: u64) = length data"
    using assms uba_inv_bounds [OF assms(1)] by (intro unat_of_nat_small) simp
  then have "range_check u pos (of_nat (length data)) = Inr ()"
    using assms uba_inv_bounds [OF assms(1)] by (simp add: range_check_cases)
  then show ?thesis using assms uba_inv_bounds [OF assms(1)] offset_sum [OF assms(1), of pos]
    by (cases "data = []", simp add: uba_putData_def) (simp add: uba_putData_def priv_put_ok upd_def)
qed

lemma at_spec:
  assumes "uba_inv h u" "unat pos < unat (m_len u)"
  shows "uba_at h u pos = Inr (view h u ! unat pos)" "uba_getUint8 h u pos = Inr (view h u ! unat pos)"
  using Uint8.get_spec [OF assms(1), of pos] assms uba_inv_bounds [OF assms(1)]
  by (simp_all add: uba_at_def uba_getUint8_def up_u8_drop)

lemma chunk_Suc: "off < length m \<Longrightarrow> chunk off (Suc n) m = m ! off # chunk (Suc off) n m"
  by (simp add: chunk_def Cons_nth_drop_Suc [symmetric])

lemma bytes_from_spec:
  assumes "uba_inv h u"
  shows "unat i + n \<le> unat (m_len u) \<Longrightarrow> uba_bytes_from h u i n = Inr (chunk (unat i) n (view h u))"
    and "unat i + n \<le> unat (m_len u) \<Longrightarrow> uba_getUint8_from h u i n = Inr (chunk (unat i) n (view h u))"
proof (induction n arbitrary: i)
  case (Suc n)
  { case 1
    then have "unat (i + 1) = Suc (unat i)" using uba_inv_bounds [OF assms] by (simp add: unat_add_nowrap)
    then show ?case using 1 Suc assms by (simp add: at_spec chunk_Suc)
  next
    case 2
    then have "unat (i + 1) = Suc (unat i)" using uba_inv_bounds [OF assms] by (simp add: unat_add_nowrap)
    then show ?case using 2 Suc assms by (simp add: at_spec chunk_Suc) }
qed simp_all

lemma getData_spec:
  assumes "uba_inv h u" "unat pos + unat len \<le> unat (m_len u)" "length dest = unat len"
  shows "uba_getData h u pos dest len = Inr (chunk (unat pos) (unat len) (view h u), len)"
proof -
  note b = uba_inv_bounds [OF assms(1)]
  have s: "unat (pos + len) = unat pos + unat len" using b assms(2) by (intro unat_add_nowrap) simp
  have "chunk (unat (m_offSet u) + unat pos) (unat len) (mem (storage h u)) = chunk (unat pos) (unat len) (view h u)"
    unfolding view_def using assms(2) by (simp add: chunk_chunk)
  then show ?thesis using assms b s offset_sum [OF assms(1), of pos]
    by (simp add: uba_getData_def range_check_cases word_less_nat_alt priv_get_ok)
qed

lemma equalContent_from_spec:
  assumes "uba_inv h a" "uba_inv h b" "m_len a = m_len b"
  shows "unat i + n = unat (m_len a) \<Longrightarrow>
    uba_equalContent_from h a b i n = Inr (drop (unat i) (view h a) = drop (unat i) (view h b))"
proof (induction n arbitrary: i)
  case (Suc n)
  then have "unat (i + 1) = Suc (unat i)" using uba_inv_bounds [OF assms(1)] by (simp add: unat_add_nowrap)
  moreover have "drop (unat i) (view h c) = view h c ! unat i # drop (Suc (unat i)) (view h c)"
    if "uba_inv h c" "m_len c = m_len a" for c
    using that Suc.prems by (simp add: Cons_nth_drop_Suc)
  ultimately show ?case using Suc assms by (auto simp: at_spec)
qed (use assms in simp)

section \<open>The interface of a streaming pair\<close>

definition at_get :: "heap \<Rightarrow> uba \<Rightarrow> bytes \<Rightarrow> bool" where
  "at_get h u bs \<longleftrightarrow> uba_inv h u \<and> unat (m_getPtr u) + length bs \<le> unat (m_len u) \<and>
     chunk (unat (m_getPtr u)) (length bs) (view h u) = bs"

definition advanced :: "uba \<Rightarrow> nat \<Rightarrow> uba" where
  "advanced u n = u\<lparr>m_getPtr := m_getPtr u + of_nat n\<rparr>"

locale stream_code =
  fixes sput :: "heap \<Rightarrow> uba \<Rightarrow> 'v \<Rightarrow> (heap \<times> uba) res" and sget :: "heap \<Rightarrow> uba \<Rightarrow> ('v \<times> uba) res"
    and scode :: "'v \<Rightarrow> bytes" and sdom :: "'v \<Rightarrow> bool"
  assumes sput_ok: "pushable h u (length (scode v)) \<Longrightarrow> sdom v \<Longrightarrow>
      \<exists>h' u'. sput h u v = Inr (h', u') \<and> appended h u (scode v) h' u'"
    and sget_ok: "at_get h u (scode v) \<Longrightarrow> sdom v \<Longrightarrow> sget h u = Inr (v, advanced u (length (scode v)))"
begin

lemma sget_after_sput:
  assumes "pushable h u (length (scode v))" "sdom v"
  obtains h' u' where "sput h u v = Inr (h', u')"
    "sget h' (u'\<lparr>m_getPtr := m_putPtr u\<rparr>) = Inr (v, u'\<lparr>m_getPtr := m_putPtr u'\<rparr>)"
proof -
  from sput_ok [OF assms] obtain h' u' where p: "sput h u v = Inr (h', u')" "appended h u (scode v) h' u'" by blast
  then have a: "uba_inv h' u'" "view h' u' = blit (unat (m_putPtr u)) (scode v) (view h u)"
    "unat (m_putPtr u') = unat (m_putPtr u) + length (scode v)" "unat (m_putPtr u') \<le> unat (m_len u')"
    by (simp_all add: appended_def word_le_nat_alt)
  have "unat (m_putPtr u) \<le> length (view h u)" using assms(1) by (simp add: pushable_def word_le_nat_alt)
  then have "at_get h' (u'\<lparr>m_getPtr := m_putPtr u\<rparr>) (scode v)"
    using a by (simp add: at_get_def chunk_def blit_def)
  moreover have "m_putPtr u + of_nat (length (scode v)) = m_putPtr u'"
    using of_nat_eqI [OF a(3)] by simp
  ultimately show ?thesis using sget_ok [of h' "u'\<lparr>m_getPtr := m_putPtr u\<rparr>" v] assms(2) p(1) by (intro that) (simp_all add: advanced_def)
qed

end

lemma at_get_append:
  assumes "at_get h u (a @ b)"
  shows "at_get h u a" "at_get h (advanced u (length a)) b"
proof -
  let ?g = "unat (m_getPtr u)"
  have i: "uba_inv h u" and l: "?g + length a + length b \<le> unat (m_len u)"
    and c: "chunk ?g (length a) (view h u) @ chunk (?g + length a) (length b) (view h u) = a @ b"
    using assms by (simp_all add: at_get_def chunk_split)
  have "length (chunk ?g (length a) (view h u)) = length a" using i l by (simp add: length_chunk)
  with c have *: "chunk ?g (length a) (view h u) = a" "chunk (?g + length a) (length b) (view h u) = b" by simp_all
  have "length a < 2 ^ 64" using l uba_inv_bounds [OF i] by simp
  then have "unat (of_nat (length a) :: u64) = length a" by (intro unat_of_nat_small) simp
  then have "unat (m_getPtr u + of_nat (length a)) = ?g + length a"
    using l uba_inv_bounds [OF i] by (subst unat_add_nowrap) simp_all
  then show "at_get h u a" "at_get h (advanced u (length a)) b"
    using i l * by (simp_all add: at_get_def advanced_def)
qed

lemma at_get_drop:
  assumes "at_get h u bs"
  shows "drop (unat (m_getPtr u)) (view h u) = bs @ drop (unat (m_getPtr u) + length bs) (view h u)"
proof -
  have "drop (unat (m_getPtr u)) (view h u) =
      take (length bs) (drop (unat (m_getPtr u)) (view h u)) @ drop (length bs) (drop (unat (m_getPtr u)) (view h u))"
    by (rule append_take_drop_id [symmetric])
  then show ?thesis using assms by (simp add: at_get_def chunk_def add.commute del: append_take_drop_id)
qed

lemma pushable_less: "pushable h u n \<Longrightarrow> m \<le> n \<Longrightarrow> pushable h u m"
  by (simp add: pushable_def)

lemma pushable_n: "pushable h u n \<Longrightarrow> unat (of_nat n :: u64) = n"
  by (intro unat_of_nat_small) (simp add: pushable_def max_size_def)

context uba_cell
begin

lemma stream_put_ok:
  assumes "pushable h u (length (pack v))" "ok v"
  shows "\<exists>h' u'. streaming_put n (store_at n wr) h u v = Inr (h', u') \<and> appended h u (pack v) h' u'"
proof -
  have "unat n = length (pack v)" by (simp add: n_width length_pack)
  from push_spec [OF assms(1) this] obtain h1 u1 where
    *: "resizeForPush h u (m_putPtr u) n = Inr (True, h1, u1)" "m_putPtr u1 = m_putPtr u"
      "uba_inv h1 u1" "unat (m_putPtr u) + length (pack v) \<le> unat (m_len u1)"
      "appended h u (pack v) (upd h1 u1 (m_putPtr u) (pack v)) (u1\<lparr>m_putPtr := m_putPtr u + n\<rparr>)" by blast
  have "store_at n wr h1 u1 (m_putPtr u) v = Inr (upd h1 u1 (m_putPtr u) (pack v))"
    using *(3,4) assms(2) uba_inv_bounds [OF *(3)] by (simp add: put_spec length_pack)
  with * show ?thesis by (simp add: streaming_put_def)
qed

lemma stream_get_ok:
  assumes "at_get h u (pack v)" "dom v"
  shows "streaming_get n (access_at n rd) h u = Inr (v, advanced u (length (pack v)))"
proof -
  have "uba_inv h u" "unat (m_getPtr u) + width \<le> unat (m_len u)" using assms(1) by (simp_all add: at_get_def length_pack)
  then have "access_at n rd h u (m_getPtr u) = Inr v"
    using uba_inv_bounds [of h u] at_get_drop [OF assms(1)] assms(2) by (simp add: get_spec unpack_append)
  moreover have "of_nat (length (pack v)) = n" using of_nat_eqI [OF n_width] by (simp add: length_pack)
  ultimately show ?thesis by (simp add: streaming_get_def advanced_def)
qed

end

interpretation SInt64: stream_code stream_putInt64 stream_getInt64 p_s64 "\<lambda>w. True"
  by unfold_locales (simp_all add: stream_putInt64_def stream_getInt64_def uba_putInt64_def uba_getInt64_def Int64.stream_put_ok Int64.stream_get_ok)

interpretation SUint64: stream_code stream_putUint64 stream_getUint64 p_u64 "\<lambda>w. True"
  by unfold_locales (simp_all add: stream_putUint64_def stream_getUint64_def uba_putUint64_def uba_getUint64_def Uint64.stream_put_ok Uint64.stream_get_ok)

interpretation SInt32: stream_code stream_putInt32 stream_getInt32 p_s32 "\<lambda>w. True"
  by unfold_locales (simp_all add: stream_putInt32_def stream_getInt32_def uba_putInt32_def uba_getInt32_def Int32.stream_put_ok Int32.stream_get_ok)

interpretation SUint32: stream_code stream_putUint32 stream_getUint32 p_u32 "\<lambda>w. True"
  by unfold_locales (simp_all add: stream_putUint32_def stream_getUint32_def uba_putUint32_def uba_getUint32_def Uint32.stream_put_ok Uint32.stream_get_ok)

interpretation SUint24: stream_code stream_putUint24 stream_getUint24 p_u24 "\<lambda>w. take_bit 24 w = w"
  by unfold_locales (simp_all add: stream_putUint24_def stream_getUint24_def uba_putUint24_def uba_getUint24_def Uint24.stream_put_ok Uint24.stream_get_ok)

interpretation SUint16: stream_code stream_putUint16 stream_getUint16 p_u16 "\<lambda>w. True"
  by unfold_locales (simp_all add: stream_putUint16_def stream_getUint16_def uba_putUint16_def uba_getUint16_def Uint16.stream_put_ok Uint16.stream_get_ok)

interpretation SUint8: stream_code stream_putUint8 stream_getUint8 p_u8 "\<lambda>w. True"
  by unfold_locales (simp_all add: stream_putUint8_def stream_getUint8_def uba_putUint8_def uba_getUint8_def Uint8.stream_put_ok Uint8.stream_get_ok)

interpretation SOffset: stream_code stream_putOffset stream_getOffset p_u40 "\<lambda>w. take_bit 40 w = w"
  by unfold_locales (simp_all add: stream_putOffset_def stream_getOffset_def uba_putOffset_def uba_getOffset_def Offset.stream_put_ok Offset.stream_get_ok)

interpretation SNegativeOffset: stream_code stream_putNegativeOffset stream_getNegativeOffset "\<lambda>w. p_u40 (sm_enc w)" "\<lambda>w. \<bar>sint w\<bar> < 2 ^ 39"
  by unfold_locales (simp_all add: stream_putNegativeOffset_def stream_getNegativeOffset_def uba_putNegativeOffset_def uba_getNegativeOffset_def NegativeOffset.stream_put_ok NegativeOffset.stream_get_ok NegativeOffset.dom_ok)

subsection \<open>Data and variable length integers\<close>

lemma stream_putData_ok:
  assumes "pushable h u (length bs)"
  shows "\<exists>h' u'. stream_putData h u bs = Inr (h', u') \<and> appended h u bs h' u'"
proof -
  from push_spec [OF assms pushable_n [OF assms]] obtain h1 u1 where
    *: "resizeForPush h u (m_putPtr u) (of_nat (length bs)) = Inr (True, h1, u1)" "m_putPtr u1 = m_putPtr u"
      "uba_inv h1 u1" "unat (m_putPtr u) + length bs \<le> unat (m_len u1)"
      "appended h u bs (upd h1 u1 (m_putPtr u) bs) (u1\<lparr>m_putPtr := m_putPtr u + of_nat (length bs)\<rparr>)" by blast
  then show ?thesis by (simp add: stream_putData_def putData_spec Let_def)
qed

lemma stream_getData_ok:
  assumes "at_get h u bs" "length dest = length bs"
  shows "stream_getData h u dest (of_nat (length bs)) = Inr (bs, of_nat (length bs), advanced u (length bs))"
proof -
  have i: "uba_inv h u" "unat (m_getPtr u) + length bs \<le> unat (m_len u)"
    "chunk (unat (m_getPtr u)) (length bs) (view h u) = bs" using assms(1) by (simp_all add: at_get_def)
  then have "unat (of_nat (length bs) :: u64) = length bs"
    using uba_inv_bounds [OF i(1)] by (intro unat_of_nat_small) simp
  then show ?thesis using i assms(2) by (simp add: stream_getData_def getData_spec advanced_def)
qed

lemma code_gets: "at_get h u bs \<Longrightarrow> bs \<noteq> [] \<Longrightarrow> unat (m_getPtr u) < unat (m_len u)"
  by (cases bs) (auto simp: at_get_def)

definition ignoring_length :: "(heap \<Rightarrow> uba \<Rightarrow> 'v \<Rightarrow> (int \<times> heap \<times> uba) res) \<Rightarrow> heap \<Rightarrow> uba \<Rightarrow> 'v \<Rightarrow> (heap \<times> uba) res" where
  "ignoring_length put h u v = bindE (put h u v) (\<lambda>(_, h, u). Inr (h, u))"

context uba_vl
begin

lemma stream_put_ok:
  assumes "pushable h u (length (code v))" "dom v"
  shows "\<exists>h' u'. streaming_putVl maxlen enc h u v = Inr (int (size v), h', u') \<and> appended h u (code v) h' u'"
proof -
  from stream_putData_ok [OF assms(1)] obtain h' u' where
    "stream_putData h u (code v) = Inr (h', u')" "appended h u (code v) h' u'" by blast
  then show ?thesis using assms(2) by (simp add: streaming_putVl_def enc_maxlen length_code)
qed

lemma get_at_ok:
  assumes "at_get h u (code v)" "dom v"
  shows "vl_access_at n rd h u (m_getPtr u) = Inr (v, int (size v))"
proof -
  have "code v \<noteq> []" using length_code [of v] size_pos [of v] by auto
  then show ?thesis using code_gets [OF assms(1)] at_get_drop [OF assms(1)] assms
    by (simp add: get_spec at_get_def dec_code)
qed

lemma stream_get_ok:
  assumes "at_get h u (code v)" "dom v"
  shows "streaming_getVl (vl_access_at n rd) h u = Inr (v, advanced u (length (code v)))"
  using get_at_ok [OF assms] size_pos [of v] by (simp add: streaming_getVl_def advanced_def length_code)

end

lemma stream_getVlPackedUint32_eq:
  "stream_getVlPackedUint32 h u =
     bindE (uba_getVlPackedUint32 h u (m_getPtr u)) (\<lambda>(res, len). Inr (res, u\<lparr>m_getPtr := m_getPtr u + word_of_int len\<rparr>))"
  by (auto simp: stream_getVlPackedUint32_def uba_getVlPackedUint32_def vl_access_at_def range_check_def Let_def bindE_def
      split: sum.split prod.split)

interpretation SVlUint64: stream_code "ignoring_length stream_putVlPackedUint64" stream_getVlPackedUint64 vl_bytes "\<lambda>_. True"
  by unfold_locales
    (use VlUint64.stream_put_ok in \<open>force simp: ignoring_length_def stream_putVlPackedUint64_def stream_getVlPackedUint64_def
      uba_getVlPackedUint64_def VlUint64.stream_get_ok\<close>)+

interpretation SVlInt64: stream_code "ignoring_length stream_putVlPackedInt64" stream_getVlPackedInt64 "\<lambda>s. vl_bytes (sm_enc s)" "\<lambda>s. sint s \<noteq> - (2 ^ 63)"
  by unfold_locales
    (use VlInt64.stream_put_ok in \<open>force simp: ignoring_length_def stream_putVlPackedInt64_def stream_getVlPackedInt64_def
      uba_getVlPackedInt64_def VlInt64.stream_get_ok\<close>)+

lemma stream_getVlPackedUint32_ok:
  assumes "at_get h u (vl_bytes v)"
  shows "stream_getVlPackedUint32 h u = Inr (v, advanced u (length (vl_bytes v)))"
  using VlUint32.get_at_ok [OF assms]
  by (simp add: stream_getVlPackedUint32_eq uba_getVlPackedUint32_def advanced_def vu32.length_code)

interpretation SVlUint32: stream_code "ignoring_length stream_putVlPackedUint32" stream_getVlPackedUint32 vl_bytes "\<lambda>_. True"
  by unfold_locales
    (use VlUint32.stream_put_ok in \<open>force simp: ignoring_length_def stream_putVlPackedUint32_def
      stream_getVlPackedUint32_ok\<close>)+

interpretation SVlInt32: stream_code "ignoring_length stream_putVlPackedInt32" stream_getVlPackedInt32 "\<lambda>s. vl_bytes (sm_enc s)" "\<lambda>s. sint s \<noteq> - (2 ^ 31)"
  by unfold_locales
    (use VlInt32.stream_put_ok in \<open>force simp: ignoring_length_def stream_putVlPackedInt32_def stream_getVlPackedInt32_def
      uba_getVlPackedInt32_def VlInt32.stream_get_ok\<close>)+

subsection \<open>The padded integer and strings\<close>

lemma stream_putPad4_ok:
  assumes "pushable h u 4"
  shows "\<exists>h' u'. stream_putVlPackedPad4Uint32 h u v = Inr (4, h', u') \<and> appended h u (fst (p_vu32pad4 v)) h' u'"
proof -
  let ?bs = "fst (p_vu32pad4 v)"
  have l: "length ?bs = 4" by (rule p_vu32pad4_len)
  from push_spec [of h u ?bs 4] assms l obtain h1 u1 where
    *: "resizeForPush h u (m_putPtr u) 4 = Inr (True, h1, u1)" "m_putPtr u1 = m_putPtr u"
      "uba_inv h1 u1" "unat (m_putPtr u) + 4 \<le> unat (m_len u1)"
      "appended h u ?bs (upd h1 u1 (m_putPtr u) ?bs) (u1\<lparr>m_putPtr := m_putPtr u + 4\<rparr>)" by auto
  have "range_check u1 (m_putPtr u) 1 = Inr ()"
    using *(4) uba_inv_bounds [OF *(3)] by (simp add: range_check_cases)
  then have "uba_putVlPackedPad4Uint32 h1 u1 (m_putPtr u) v = Inr (4, upd h1 u1 (m_putPtr u) ?bs)"
    using *(4) uba_inv_bounds [OF *(3)] offset_sum [OF *(3), of "m_putPtr u"]
    by (simp add: uba_putVlPackedPad4Uint32_def vl_store_at_def priv_ok upd_def)
  with * show ?thesis by (simp add: stream_putVlPackedPad4Uint32_def)
qed

interpretation SPad4: stream_code "ignoring_length stream_putVlPackedPad4Uint32" stream_getVlPackedUint32
    "\<lambda>v. fst (p_vu32pad4 v)" "\<lambda>v. take_bit 28 v = v"
proof unfold_locales
  show "pushable h u (length (fst (p_vu32pad4 v))) \<Longrightarrow> take_bit 28 v = v \<Longrightarrow>
      \<exists>h' u'. ignoring_length stream_putVlPackedPad4Uint32 h u v = Inr (h', u') \<and> appended h u (fst (p_vu32pad4 v)) h' u'"
    for h u v
    using stream_putPad4_ok [of h u v] by (auto simp: p_vu32pad4_len ignoring_length_def)
  show "stream_getVlPackedUint32 h u = Inr (v, advanced u (length (fst (p_vu32pad4 v))))"
    if a: "at_get h u (fst (p_vu32pad4 v))" and v: "take_bit 28 v = v" for h u v
  proof -
    have "fst (p_vu32pad4 v) \<noteq> []" by (simp add: pad4_bytes)
    then show ?thesis
      using code_gets [OF a] at_get_drop [OF a] a v
      by (simp add: stream_getVlPackedUint32_eq uba_getVlPackedUint32_def VlUint32.get_spec at_get_def up_vu32_pad4
        advanced_def p_vu32pad4_len)
  qed
qed

definition string_code :: "bytes \<Rightarrow> bytes" where
  "string_code s = vl_bytes (of_nat (length s) :: u32) @ s"

lemma unat_string_len: "length s + 5 < 2 ^ 31 \<Longrightarrow> unat (of_nat (length s) :: u32) = length s"
  by (intro unat_of_nat_small) simp

lemma string_size:
  assumes "length s + 5 < 2 ^ 31"
  defines "n \<equiv> of_nat (psize_vu32 (of_nat (length s))) + of_nat (length s) :: u64"
  shows "unat n = length (string_code s)" "0 \<le> sint (ucast n :: s32)"
proof -
  have l: "length (string_code s) = psize_vu32 (of_nat (length s)) + length s" "psize_vu32 (of_nat (length s)) \<le> 5"
    by (simp_all add: string_code_def vu32.length_code vu32.size_max)
  have n: "n = of_nat (length (string_code s))" unfolding n_def l by simp
  have b: "length (string_code s) < 2 ^ 31" using l assms by simp
  then show u: "unat n = length (string_code s)" unfolding n by (intro unat_of_nat_small) simp
  have "uint n = int (length (string_code s))" using arg_cong [OF u, of int] by simp
  then have "uint n < 2 ^ 31" using b by simp
  moreover have "- (2 ^ 31) \<le> uint n" by (rule order_trans [OF _ uint_ge_0]) simp
  ultimately have "signed_take_bit 31 (uint n) = uint n" by (intro signed_take_bit_int_eq_self)
  then have "sint (ucast n :: s32) = uint n" by (simp add: signed_ucast_eq)
  then show "0 \<le> sint (ucast n :: s32)" by simp
qed

lemma putString_spec:
  assumes "uba_inv h u" "unat pos + length (string_code s) \<le> unat (m_len u)" "length s + 5 < 2 ^ 31"
  shows "\<exists>l \<ge> 0. uba_putString h u pos s = Inr (l, upd h u pos (string_code s))"
proof -
  define a where "a = vl_bytes (of_nat (length s) :: u32)"
  have la: "length a = psize_vu32 (of_nat (length s))" by (simp add: a_def vu32.length_code)
  have sc: "string_code s = a @ s" by (simp add: string_code_def a_def)
  note ss = string_size [OF assms(3)]
  have r: "range_check u pos (of_nat (psize_vu32 (of_nat (length s))) + of_nat (length s)) = Inr ()"
    using assms uba_inv_bounds [OF assms(1)] ss(1) by (subst range_check_cases) simp_all
  have fit: "unat pos + length a + length s \<le> unat (m_len u)" using assms(2) by (simp add: sc)
  have "uba_putVlPackedUint32 h u pos (of_nat (length s)) = Inr (int (length a), upd h u pos a)"
    using fit la unfolding uba_putVlPackedUint32_def a_def
    by (subst VlUint32.put_spec [OF assms(1)]) simp_all
  moreover have p: "unat (pos + of_nat (length a)) = unat pos + length a"
  proof -
    have "unat (of_nat (length a) :: u64) = length a"
      using la vu32.size_max [of "of_nat (length s)"] by (intro unat_of_nat_small) simp
    then show ?thesis using fit uba_inv_bounds [OF assms(1)] by (subst unat_add_nowrap) simp_all
  qed
  moreover have "uba_putData (upd h u pos a) u (pos + of_nat (length a)) s = Inr (upd h u pos (a @ s))"
    using fit p assms(1) by (subst putData_spec) (simp_all add: inv_upd upd_upd)
  ultimately show ?thesis using r ss(2) by (simp add: uba_putString_def Let_def sc)
qed

lemma stream_putString_ok:
  assumes "pushable h u (length (string_code s))" "length s + 5 < 2 ^ 31"
  shows "\<exists>h' u'. stream_putString h u s = Inr (h', u') \<and> appended h u (string_code s) h' u'"
proof -
  let ?n = "of_nat (psize_vu32 (of_nat (length s))) + of_nat (length s) :: u64"
  from push_spec [OF assms(1) string_size(1) [OF assms(2)]] obtain h1 u1 where
    *: "resizeForPush h u (m_putPtr u) ?n = Inr (True, h1, u1)" "m_putPtr u1 = m_putPtr u"
      "uba_inv h1 u1" "unat (m_putPtr u) + length (string_code s) \<le> unat (m_len u1)"
      "appended h u (string_code s) (upd h1 u1 (m_putPtr u) (string_code s)) (u1\<lparr>m_putPtr := m_putPtr u + ?n\<rparr>)" by blast
  from putString_spec [OF *(3,4) assms(2)] obtain l where "0 \<le> l"
    "uba_putString h1 u1 (m_putPtr u) s = Inr (l, upd h1 u1 (m_putPtr u) (string_code s))" by blast
  with * show ?thesis by (simp add: stream_putString_def Let_def)
qed

lemma stream_getString_ok:
  assumes "at_get h u (string_code s)" "length s + 5 < 2 ^ 31"
  shows "stream_getString h u = Inr (s, advanced u (length (string_code s)))"
proof -
  define a where "a = vl_bytes (of_nat (length s) :: u32)"
  have sc: "string_code s = a @ s" by (simp add: string_code_def a_def)
  note ag = at_get_append [OF assms(1) [unfolded sc]]
  let ?u = "advanced u (length a)"
  have g: "stream_getVlPackedUint32 h u = Inr (of_nat (length s), ?u)"
    using stream_getVlPackedUint32_ok [OF ag(1) [unfolded a_def]] by (simp add: a_def)
  have i: "uba_inv h ?u" "unat (m_getPtr ?u) + length s \<le> unat (m_len ?u)"
    "chunk (unat (m_getPtr ?u)) (length s) (view h ?u) = s" using ag(2) by (simp_all add: at_get_def)
  have n: "unat (of_nat (length s) :: u32) = length s" using assms(2) by (rule unat_string_len)
  have n64: "ucast (of_nat (length s) :: u32) = (of_nat (length s) :: u64)"
    using n by (intro of_nat_eqI) (simp add: unat_ucast_up)
  have adv: "m_getPtr ?u + of_nat (length s) = m_getPtr u + of_nat (length (string_code s))"
    by (simp add: advanced_def sc)
  show ?thesis
  proof (cases "s = []")
    case True
    then show ?thesis using g sc by (simp add: stream_getString_def)
  next
    case False
    have "unat (of_nat (length s) :: u64) = length s" using assms(2) by (intro unat_of_nat_small) simp
    then have "unat (m_getPtr ?u + of_nat (length s)) = unat (m_getPtr ?u) + length s"
      using i(2) uba_inv_bounds [OF i(1)] by (subst unat_add_nowrap) simp_all
    then have "\<not> m_getPtr ?u + of_nat (length s) > m_len ?u" using i(2) by (simp add: word_less_nat_alt)
    moreover have "(of_nat (length s) :: u32) \<noteq> 0" using False n by (metis length_0_conv unat_0)
    moreover have "uba_getUint8_from h ?u (m_getPtr ?u) (length s) = Inr s"
      using bytes_from_spec(2) [OF i(1), of "m_getPtr ?u" "length s"] i by simp
    ultimately show ?thesis using g n n64 adv by (simp add: stream_getString_def advanced_def)
  qed
qed

interpretation SString: stream_code stream_putString stream_getString string_code "\<lambda>s. length s + 5 < 2 ^ 31"
  by unfold_locales (rule stream_putString_ok stream_getString_ok, assumption+)+

section \<open>Sequences of values\<close>

text \<open>
  A stream of values of any of the types. \<open>tag\<close> is what the reader has to know: the
  type, and for raw data its length. \<open>put_item\<close> and \<open>get_item\<close> call the streaming methods
  of the type.
\<close>

datatype item =
    IInt64 s64
  | IUint64 u64
  | IInt32 s32
  | IUint32 u32
  | IUint24 u32
  | IUint16 u16
  | IUint8 u8
  | IOffset u64
  | INegativeOffset s64
  | IVlPackedUint64 u64
  | IVlPackedInt64 s64
  | IVlPackedUint32 u32
  | IVlPackedInt32 s32
  | IPad4Uint32 u32
  | IString bytes
  | IData bytes

datatype tag =
    TInt64
  | TUint64
  | TInt32
  | TUint32
  | TUint24
  | TUint16
  | TUint8
  | TOffset
  | TNegativeOffset
  | TVlPackedUint64
  | TVlPackedInt64
  | TVlPackedUint32
  | TVlPackedInt32
  | TPad4Uint32
  | TString
  | TData nat

fun tag_of :: "item \<Rightarrow> tag" where
    "tag_of (IInt64 v) = TInt64"
  | "tag_of (IUint64 v) = TUint64"
  | "tag_of (IInt32 v) = TInt32"
  | "tag_of (IUint32 v) = TUint32"
  | "tag_of (IUint24 v) = TUint24"
  | "tag_of (IUint16 v) = TUint16"
  | "tag_of (IUint8 v) = TUint8"
  | "tag_of (IOffset v) = TOffset"
  | "tag_of (INegativeOffset v) = TNegativeOffset"
  | "tag_of (IVlPackedUint64 v) = TVlPackedUint64"
  | "tag_of (IVlPackedInt64 v) = TVlPackedInt64"
  | "tag_of (IVlPackedUint32 v) = TVlPackedUint32"
  | "tag_of (IVlPackedInt32 v) = TVlPackedInt32"
  | "tag_of (IPad4Uint32 v) = TPad4Uint32"
  | "tag_of (IString v) = TString"
  | "tag_of (IData v) = TData (length v)"

fun put_item :: "heap \<Rightarrow> uba \<Rightarrow> item \<Rightarrow> (heap \<times> uba) res" where
    "put_item h u (IInt64 v) = stream_putInt64 h u v"
  | "put_item h u (IUint64 v) = stream_putUint64 h u v"
  | "put_item h u (IInt32 v) = stream_putInt32 h u v"
  | "put_item h u (IUint32 v) = stream_putUint32 h u v"
  | "put_item h u (IUint24 v) = stream_putUint24 h u v"
  | "put_item h u (IUint16 v) = stream_putUint16 h u v"
  | "put_item h u (IUint8 v) = stream_putUint8 h u v"
  | "put_item h u (IOffset v) = stream_putOffset h u v"
  | "put_item h u (INegativeOffset v) = stream_putNegativeOffset h u v"
  | "put_item h u (IVlPackedUint64 v) = ignoring_length stream_putVlPackedUint64 h u v"
  | "put_item h u (IVlPackedInt64 v) = ignoring_length stream_putVlPackedInt64 h u v"
  | "put_item h u (IVlPackedUint32 v) = ignoring_length stream_putVlPackedUint32 h u v"
  | "put_item h u (IVlPackedInt32 v) = ignoring_length stream_putVlPackedInt32 h u v"
  | "put_item h u (IPad4Uint32 v) = ignoring_length stream_putVlPackedPad4Uint32 h u v"
  | "put_item h u (IString v) = stream_putString h u v"
  | "put_item h u (IData v) = stream_putData h u v"

fun get_item :: "heap \<Rightarrow> uba \<Rightarrow> tag \<Rightarrow> (item \<times> uba) res" where
    "get_item h u TInt64 = bindE (stream_getInt64 h u) (\<lambda>(v, u). Inr (IInt64 v, u))"
  | "get_item h u TUint64 = bindE (stream_getUint64 h u) (\<lambda>(v, u). Inr (IUint64 v, u))"
  | "get_item h u TInt32 = bindE (stream_getInt32 h u) (\<lambda>(v, u). Inr (IInt32 v, u))"
  | "get_item h u TUint32 = bindE (stream_getUint32 h u) (\<lambda>(v, u). Inr (IUint32 v, u))"
  | "get_item h u TUint24 = bindE (stream_getUint24 h u) (\<lambda>(v, u). Inr (IUint24 v, u))"
  | "get_item h u TUint16 = bindE (stream_getUint16 h u) (\<lambda>(v, u). Inr (IUint16 v, u))"
  | "get_item h u TUint8 = bindE (stream_getUint8 h u) (\<lambda>(v, u). Inr (IUint8 v, u))"
  | "get_item h u TOffset = bindE (stream_getOffset h u) (\<lambda>(v, u). Inr (IOffset v, u))"
  | "get_item h u TNegativeOffset = bindE (stream_getNegativeOffset h u) (\<lambda>(v, u). Inr (INegativeOffset v, u))"
  | "get_item h u TVlPackedUint64 = bindE (stream_getVlPackedUint64 h u) (\<lambda>(v, u). Inr (IVlPackedUint64 v, u))"
  | "get_item h u TVlPackedInt64 = bindE (stream_getVlPackedInt64 h u) (\<lambda>(v, u). Inr (IVlPackedInt64 v, u))"
  | "get_item h u TVlPackedUint32 = bindE (stream_getVlPackedUint32 h u) (\<lambda>(v, u). Inr (IVlPackedUint32 v, u))"
  | "get_item h u TVlPackedInt32 = bindE (stream_getVlPackedInt32 h u) (\<lambda>(v, u). Inr (IVlPackedInt32 v, u))"
  | "get_item h u TPad4Uint32 = bindE (stream_getVlPackedUint32 h u) (\<lambda>(v, u). Inr (IPad4Uint32 v, u))"
  | "get_item h u TString = bindE (stream_getString h u) (\<lambda>(v, u). Inr (IString v, u))"
  | "get_item h u (TData n) = bindE (stream_getData h u (replicate n 0) (of_nat n)) (\<lambda>(v, _, u). Inr (IData v, u))"

fun item_code :: "item \<Rightarrow> bytes" where
    "item_code (IInt64 v) = p_s64 v"
  | "item_code (IUint64 v) = p_u64 v"
  | "item_code (IInt32 v) = p_s32 v"
  | "item_code (IUint32 v) = p_u32 v"
  | "item_code (IUint24 v) = p_u24 v"
  | "item_code (IUint16 v) = p_u16 v"
  | "item_code (IUint8 v) = p_u8 v"
  | "item_code (IOffset v) = p_u40 v"
  | "item_code (INegativeOffset v) = p_u40 (sm_enc v)"
  | "item_code (IVlPackedUint64 v) = vl_bytes v"
  | "item_code (IVlPackedInt64 v) = vl_bytes (sm_enc v)"
  | "item_code (IVlPackedUint32 v) = vl_bytes v"
  | "item_code (IVlPackedInt32 v) = vl_bytes (sm_enc v)"
  | "item_code (IPad4Uint32 v) = fst (p_vu32pad4 v)"
  | "item_code (IString v) = string_code v"
  | "item_code (IData v) = v"

fun item_ok :: "item \<Rightarrow> bool" where
    "item_ok (IInt64 v) = (True)"
  | "item_ok (IUint64 v) = (True)"
  | "item_ok (IInt32 v) = (True)"
  | "item_ok (IUint32 v) = (True)"
  | "item_ok (IUint24 v) = (take_bit 24 v = v)"
  | "item_ok (IUint16 v) = (True)"
  | "item_ok (IUint8 v) = (True)"
  | "item_ok (IOffset v) = (take_bit 40 v = v)"
  | "item_ok (INegativeOffset v) = (\<bar>sint v\<bar> < 2 ^ 39)"
  | "item_ok (IVlPackedUint64 v) = (True)"
  | "item_ok (IVlPackedInt64 v) = (sint v \<noteq> - (2 ^ 63))"
  | "item_ok (IVlPackedUint32 v) = (True)"
  | "item_ok (IVlPackedInt32 v) = (sint v \<noteq> - (2 ^ 31))"
  | "item_ok (IPad4Uint32 v) = (take_bit 28 v = v)"
  | "item_ok (IString v) = (length v + 5 < 2 ^ 31)"
  | "item_ok (IData v) = True"

fun put_items :: "heap \<Rightarrow> uba \<Rightarrow> item list \<Rightarrow> (heap \<times> uba) res" where
  "put_items h u [] = Inr (h, u)"
| "put_items h u (x # xs) = bindE (put_item h u x) (\<lambda>(h, u). put_items h u xs)"

fun get_items :: "heap \<Rightarrow> uba \<Rightarrow> tag list \<Rightarrow> (item list \<times> uba) res" where
  "get_items h u [] = Inr ([], u)"
| "get_items h u (t # ts) =
     bindE (get_item h u t) (\<lambda>(x, u). bindE (get_items h u ts) (\<lambda>(xs, u). Inr (x # xs, u)))"

lemmas sput_oks = SInt64.sput_ok SUint64.sput_ok SInt32.sput_ok SUint32.sput_ok SUint24.sput_ok SUint16.sput_ok SUint8.sput_ok SOffset.sput_ok SNegativeOffset.sput_ok SVlUint64.sput_ok SVlInt64.sput_ok SVlUint32.sput_ok SVlInt32.sput_ok SPad4.sput_ok SString.sput_ok

lemmas sget_oks = SInt64.sget_ok SUint64.sget_ok SInt32.sget_ok SUint32.sget_ok SUint24.sget_ok SUint16.sget_ok SUint8.sget_ok SOffset.sget_ok SNegativeOffset.sget_ok SVlUint64.sget_ok SVlInt64.sget_ok SVlUint32.sget_ok SVlInt32.sget_ok SPad4.sget_ok SString.sget_ok

lemma put_item_ok:
  assumes "pushable h u (length (item_code x))" "item_ok x"
  shows "\<exists>h' u'. put_item h u x = Inr (h', u') \<and> appended h u (item_code x) h' u'"
  using assms by (cases x; simp only: put_item.simps item_code.simps item_ok.simps)
    (rule sput_oks stream_putData_ok; assumption?; simp)+

lemma get_item_ok:
  assumes "at_get h u (item_code x)" "item_ok x"
  shows "get_item h u (tag_of x) = Inr (x, advanced u (length (item_code x)))"
  using assms by (cases x; simp only: tag_of.simps get_item.simps item_code.simps item_ok.simps)
    (simp_all add: sget_oks stream_getData_ok)

lemma put_items_ok:
  assumes "pushable h u (length (concat (map item_code xs)))" "\<forall>x \<in> set xs. item_ok x"
  shows "\<exists>h' u'. put_items h u xs = Inr (h', u') \<and> appended h u (concat (map item_code xs)) h' u'"
  using assms
proof (induction xs arbitrary: h u)
  case Nil
  then show ?case using appended_Nil by simp
next
  case (Cons x xs)
  let ?r = "concat (map item_code xs)"
  have "pushable h u (length (item_code x))" "item_ok x" using Cons.prems by (simp_all add: pushable_def)
  from put_item_ok [OF this] obtain h1 u1 where
    1: "put_item h u x = Inr (h1, u1)" "appended h u (item_code x) h1 u1" by blast
  have "pushable h1 u1 (length ?r)" using appended_pushable [OF _ 1(2)] Cons.prems(1) by simp
  from Cons.IH [OF this] Cons.prems(2) obtain h2 u2 where
    2: "put_items h1 u1 xs = Inr (h2, u2)" "appended h1 u1 ?r h2 u2" by auto
  have "appended h u (item_code x @ ?r) h2 u2" by (rule appended_trans [OF Cons.prems(1) 1(2) 2(2)])
  then show ?case using 1 2 by simp
qed

lemma advanced_advanced: "advanced (advanced u m) n = advanced u (m + n)"
  by (simp add: advanced_def add.assoc)

lemma get_items_ok:
  assumes "at_get h u (concat (map item_code xs))" "\<forall>x \<in> set xs. item_ok x"
  shows "get_items h u (map tag_of xs) = Inr (xs, advanced u (length (concat (map item_code xs))))"
  using assms
proof (induction xs arbitrary: u)
  case Nil
  then show ?case by (simp add: advanced_def)
next
  case (Cons x xs)
  then have "at_get h u (item_code x @ concat (map item_code xs))" by simp
  note ag = at_get_append [OF this]
  show ?case using get_item_ok [OF ag(1)] Cons.IH [OF ag(2)] Cons.prems(2) by (simp add: advanced_advanced)
qed

lemma at_get_appended:
  assumes "pushable h u (length bs)" "appended h u bs h' u'"
  shows "at_get h' (u'\<lparr>m_getPtr := m_putPtr u\<rparr>) bs"
    "advanced (u'\<lparr>m_getPtr := m_putPtr u\<rparr>) (length bs) = u'\<lparr>m_getPtr := m_putPtr u'\<rparr>"
proof -
  have a: "uba_inv h' u'" "view h' u' = blit (unat (m_putPtr u)) bs (view h u)"
    "unat (m_putPtr u') = unat (m_putPtr u) + length bs" "unat (m_putPtr u') \<le> unat (m_len u')"
    using assms(2) by (simp_all add: appended_def word_le_nat_alt)
  have "unat (m_putPtr u) \<le> length (view h u)" using assms(1) by (simp add: pushable_def word_le_nat_alt)
  then show "at_get h' (u'\<lparr>m_getPtr := m_putPtr u\<rparr>) bs"
    using a by (simp add: at_get_def chunk_def blit_def)
  show "advanced (u'\<lparr>m_getPtr := m_putPtr u\<rparr>) (length bs) = u'\<lparr>m_getPtr := m_putPtr u'\<rparr>"
    using of_nat_eqI [OF a(3)] by (simp add: advanced_def)
qed

end
