(* ===== verification/AdapterProps.thy ===== *)
theory AdapterProps
  imports AdapterStream
begin

text \<open>
  The properties of \<open>UByteArrayAdapter\<close>: accesses refine operations on the bytes of the
  window, streams of mixed values round trip, adapters on shared storage interfere
  only where their windows overlap, the window operations keep the window inside the
  storage; and where the code departs from its comments.
\<close>

section \<open>Window operations\<close>

text \<open>The operations that move the positions and the window but not the storage.\<close>

datatype window_op =
    SetPut u64 | SetGet u64 | IncPut u64 | IncGet u64 | DecPut u64 | DecGet u64 | ResetPut | ResetGet | ResetBoth
  | Sub u64 | SubLen u64 u64 | Increment | Decrement | Advance u64 | Retreat u64 | End | ShrinkToPut | ShrinkToGet | FromGet | FromPut

fun window_apply :: "window_op \<Rightarrow> uba \<Rightarrow> uba" where
    "window_apply (SetPut n) u = uba_setPutPtr u n"
  | "window_apply (SetGet n) u = uba_setGetPtr u n"
  | "window_apply (IncPut n) u = uba_incPutPtr u n"
  | "window_apply (IncGet n) u = uba_incGetPtr u n"
  | "window_apply (DecPut n) u = uba_decPutPtr u n"
  | "window_apply (DecGet n) u = uba_decGetPtr u n"
  | "window_apply ResetPut u = uba_resetPutPtr u"
  | "window_apply ResetGet u = uba_resetGetPtr u"
  | "window_apply ResetBoth u = uba_resetPtrs u"
  | "window_apply (Sub n) u = uba_plus u n"
  | "window_apply (SubLen n l) u = uba_sub_len u n l"
  | "window_apply Increment u = uba_increment u"
  | "window_apply Decrement u = uba_decrement u"
  | "window_apply (Advance n) u = uba_advance u n"
  | "window_apply (Retreat n) u = uba_retreat u n"
  | "window_apply End u = uba_end u"
  | "window_apply ShrinkToPut u = uba_shrinkToPutPtr u"
  | "window_apply ShrinkToGet u = uba_shrinkToGetPtr u"
  | "window_apply FromGet u = uba_fromGetPtr u"
  | "window_apply FromPut u = uba_fromPutPtr u"

fun clips_ptrs :: "window_op \<Rightarrow> bool" where
    "clips_ptrs ShrinkToPut = False"
  | "clips_ptrs ShrinkToGet = False"
  | "clips_ptrs FromGet = False"
  | "clips_ptrs FromPut = False"
  | "clips_ptrs _ = True"

text \<open>\<open>narrows u' u\<close>: the window of \<open>u'\<close> ends no later than that of \<open>u\<close>, on the same storage.\<close>

definition narrows :: "uba \<Rightarrow> uba \<Rightarrow> bool" where
  "narrows u' u \<longleftrightarrow> m_priv u' = m_priv u \<and>
     unat (m_offSet u') + unat (m_len u') \<le> unat (m_offSet u) + unat (m_len u)"

lemma narrows_trans: "narrows a b \<Longrightarrow> narrows b c \<Longrightarrow> narrows a c"
  by (simp add: narrows_def)

lemma narrows_inv: "uba_inv h u \<Longrightarrow> narrows u' u \<Longrightarrow> uba_inv h u'"
  by (simp add: uba_inv_def narrows_def storage_def)

lemma unat_sub_le: "(a :: u64) \<le> b \<Longrightarrow> unat (b - a) = unat b - unat a"
  by (rule unat_sub)

lemma narrows_shift:
  assumes "unat (m_offSet u) + unat (m_len u) < 2 ^ 64" "n \<le> m_len u"
    and "m_priv u' = m_priv u" "m_offSet u' = m_offSet u + n" "m_len u' \<le> m_len u - n"
  shows "narrows u' u"
proof -
  have n: "unat n \<le> unat (m_len u)" using assms(2) by (simp add: word_le_nat_alt)
  then have "unat (m_offSet u + n) = unat (m_offSet u) + unat n" using assms(1) by (intro unat_add_nowrap) simp
  moreover have "unat (m_len u') \<le> unat (m_len u) - unat n"
    using assms(5) unat_sub_le [OF assms(2)] by (simp add: word_le_nat_alt)
  ultimately show ?thesis using assms(3,4) n by (simp add: narrows_def)
qed

lemma narrows_back:
  assumes "unat (m_offSet u) + unat (m_len u) < 2 ^ 64" "n \<le> m_offSet u"
    and "m_priv u' = m_priv u" "m_offSet u' = m_offSet u - n" "m_len u' = m_len u + n"
  shows "narrows u' u"
proof -
  have n: "unat n \<le> unat (m_offSet u)" using assms(2) by (simp add: word_le_nat_alt)
  then have "unat (m_len u + n) = unat (m_len u) + unat n" using assms(1) by (intro unat_add_nowrap) simp
  then show ?thesis using assms(3-5) n unat_sub_le [OF assms(2)] by (simp add: narrows_def)
qed

lemma narrows_same: "m_priv u' = m_priv u \<Longrightarrow> m_offSet u' = m_offSet u \<Longrightarrow> m_len u' = m_len u \<Longrightarrow> narrows u' u"
  by (simp add: narrows_def)

lemmas window_defs = uba_setPutPtr_def uba_setGetPtr_def uba_incPutPtr_def uba_incGetPtr_def uba_decPutPtr_def
  uba_decGetPtr_def uba_resetPutPtr_def uba_resetGetPtr_def uba_resetPtrs_def uba_plus_def uba_end_def
  uba_fromGetPtr_def uba_fromPutPtr_def

lemma window_apply_narrows:
  assumes "unat (m_offSet u) + unat (m_len u) < 2 ^ 64"
  shows "narrows (window_apply op u) u"
proof (cases op)
  case (Sub n)
  then show ?thesis
    by (intro narrows_shift [OF assms, of "if n > m_len u then m_len u else n"])
      (auto simp: window_defs uba_sub_def Let_def)
next
  case (SubLen n l)
  then show ?thesis
    by (intro narrows_shift [OF assms, of "if n > m_len u then m_len u else n"])
      (auto simp: window_defs uba_sub_len_def Let_def)
next
  case End
  then show ?thesis
    by (intro narrows_shift [OF assms, of "m_len u"]) (auto simp: window_defs uba_sub_def Let_def)
next
  case Increment
  show ?thesis
  proof (cases "m_len u > 0")
    case True
    then have "1 \<le> m_len u" by (simp add: word_less_nat_alt word_le_nat_alt)
    then show ?thesis using True Increment
      by (intro narrows_shift [OF assms, of 1]) (auto simp: uba_increment_def Let_def)
  qed (use Increment in \<open>simp add: uba_increment_def narrows_def\<close>)
next
  case Decrement
  show ?thesis
  proof (cases "m_offSet u > 0")
    case True
    then have "1 \<le> m_offSet u" by (simp add: word_less_nat_alt word_le_nat_alt)
    then show ?thesis using True Decrement
      by (intro narrows_back [OF assms, of 1]) (auto simp: uba_decrement_def)
  qed (use Decrement in \<open>simp add: uba_decrement_def narrows_def\<close>)
next
  case (Retreat n)
  then show ?thesis
    by (intro narrows_back [OF assms, of "if n > m_offSet u then m_offSet u else n"]) (auto simp: uba_retreat_def Let_def)
next
  case (Advance n)
  then show ?thesis
    by (intro narrows_shift [OF assms, of "if n > m_len u then m_len u else n"]) (auto simp: uba_advance_def Let_def)
next
  case ShrinkToPut
  then show ?thesis
    by (intro narrows_shift [OF assms, of "if m_putPtr u > m_len u then m_len u else m_putPtr u"])
      (auto simp: uba_shrinkToPutPtr_def Let_def)
next
  case ShrinkToGet
  then show ?thesis
    by (intro narrows_shift [OF assms, of "if m_getPtr u > m_len u then m_len u else m_getPtr u"])
      (auto simp: uba_shrinkToGetPtr_def Let_def)
next
  case FromGet
  then show ?thesis
    by (intro narrows_shift [OF assms, of "if m_getPtr u > m_len u then m_len u else m_getPtr u"])
      (auto simp: window_defs uba_shrinkToGetPtr_def Let_def)
next
  case FromPut
  then show ?thesis
    by (intro narrows_shift [OF assms, of "if m_putPtr u > m_len u then m_len u else m_putPtr u"])
      (auto simp: window_defs uba_shrinkToPutPtr_def Let_def)
qed (simp_all add: window_defs narrows_same)

lemma sub_mono: "(a :: u64) \<le> b \<Longrightarrow> n \<le> a \<Longrightarrow> a - n \<le> b - n"
  by (simp add: word_le_nat_alt unat_sub)

lemma add_mono_back:
  fixes a b k :: u64
  assumes "a \<le> b" "unat b + unat k < 2 ^ 64"
  shows "a + k \<le> b + k"
proof -
  have "unat (b + k) = unat b + unat k" using assms(2) by (intro unat_add_nowrap) simp
  moreover have "unat (a + k) = unat a + unat k"
    using assms by (intro unat_add_nowrap) (simp add: word_le_nat_alt)
  ultimately show ?thesis using assms(1) by (simp add: word_le_nat_alt)
qed

lemma window_apply_ptrs:
  assumes "ptrs_ok u" "clips_ptrs op" "unat (m_offSet u) + unat (m_len u) < 2 ^ 64"
  shows "ptrs_ok (window_apply op u)"
proof (cases op)
  case Increment
  have pos: "1 \<le> x" if "0 < x" for x :: u64 using that by (simp add: word_less_nat_alt word_le_nat_alt)
  show ?thesis
  proof (cases "0 < m_len u")
    case True
    have "y - 1 \<le> m_len u - 1" if "y \<le> m_len u" "0 < y" for y using that pos by (intro sub_mono)
    moreover have "(0 :: u64) \<le> m_len u - 1" by simp
    ultimately show ?thesis using assms True Increment
      by (auto simp: uba_increment_def Let_def ptrs_ok_def not_less)
  qed (use assms Increment in \<open>simp add: uba_increment_def\<close>)
next
  case (Advance n)
  have "y - k \<le> m_len u - k" if "y \<le> m_len u" "\<not> y < k" for y k using that by (intro sub_mono) simp_all
  then show ?thesis using assms Advance by (auto simp: uba_advance_def Let_def ptrs_ok_def)
next
  case Decrement
  have "y + 1 \<le> m_len u + 1" if "y \<le> m_len u" "0 < m_offSet u" for y
    using that assms(3) by (intro add_mono_back) (simp_all add: word_less_nat_alt)
  then show ?thesis using assms Decrement by (auto simp: uba_decrement_def ptrs_ok_def)
next
  case (Retreat n)
  let ?k = "if n > m_offSet u then m_offSet u else n"
  have "y + ?k \<le> m_len u + ?k" if "y \<le> m_len u" for y
    using that assms(3) by (intro add_mono_back) (auto simp: word_less_nat_alt)
  then show ?thesis using assms Retreat by (simp add: uba_retreat_def Let_def ptrs_ok_def)
qed (use assms in \<open>auto simp: window_defs ptrs_ok_def uba_sub_def uba_sub_len_def Let_def\<close>)

text \<open>The putter of negative offsets, for the value without a code too.\<close>

lemma putNegativeOffset_undefined:
  "live p \<Longrightarrow> sint v = - (2 ^ 63) \<Longrightarrow> priv_putNegativeOffset p pos v = Inl UndefinedBehaviour"
  by (auto simp: priv_putNegativeOffset_def array_putNegativeOffset_def container_putNegativeOffset_def p_s40_sm live_def
      split: backend.split)

lemma putNegativeOffset_everywhere:
  assumes "uba_inv h u"
  shows "store_at 5 priv_putNegativeOffset h u pos v = window_write 5 (p_s40 v) h u pos"
proof (cases "sint v = - (2 ^ 63)")
  case True
  then have "store_at 5 priv_putNegativeOffset h u pos v = bindE (range_check u pos 5) (\<lambda>_. Inl UndefinedBehaviour)"
    using putNegativeOffset_undefined [OF uba_inv_bounds(2) [OF assms]] by (simp add: store_at_def)
  then show ?thesis using True
    by (cases "unat pos + unat (5 :: u64) < 2 ^ 64")
      (simp_all add: window_write_def p_s40_sm range_check_cases range_check_wrap Let_def)
next
  case False
  then show ?thesis using NegativeOffset.put_everywhere [OF assms, of v pos] by (simp add: p_s40_sm)
qed

section \<open>Properties\<close>

text \<open>C4: Any mixed sequence of values written with the streaming putters, to an adapter on growable
  storage, is read back by the corresponding streaming getters from the position where
  the write position was; writing never fails while the storage may grow.\<close>

theorem streaming_roundtrip:
  assumes "pushable h u (length (concat (map item_code xs)))" "\<forall>x \<in> set xs. item_ok x"
  shows "\<exists>h' u'. put_items h u xs = Inr (h', u') \<and>
           get_items h' (u'\<lparr>m_getPtr := m_putPtr u\<rparr>) (map tag_of xs) = Inr (xs, u'\<lparr>m_getPtr := m_putPtr u'\<rparr>)"
proof -
  from put_items_ok [OF assms] obtain h' u' where
    *: "put_items h u xs = Inr (h', u')" "appended h u (concat (map item_code xs)) h' u'" by blast
  show ?thesis
    using *(1) get_items_ok [OF at_get_appended(1) [OF assms(1) *(2)] assms(2)] at_get_appended(2) [OF assms(1) *(2)]
    by simp
qed

theorem streaming_roundtrip_witness:
  "\<exists>h' u'. put_items (\<lambda>_. \<lparr>kind = VectorB, mem = []\<rparr>) (uba_of_priv 0 0 0) [IUint24 7, IString [104, 105], IInt64 (-1)] =
      Inr (h', u') \<and>
    get_items h' (u'\<lparr>m_getPtr := 0\<rparr>) [TUint24, TString, TInt64] =
      Inr ([IUint24 7, IString [104, 105], IInt64 (-1)], u'\<lparr>m_getPtr := m_putPtr u'\<rparr>)"
proof -
  have "length (string_code [104, 105]) = psize_vu32 2 + 2" by (simp add: string_code_def vu32.length_code)
  then have l: "length (string_code [104, 105]) \<le> 7" using vu32.size_max [of 2] by simp
  show ?thesis
    using streaming_roundtrip [of "\<lambda>_. \<lparr>kind = VectorB, mem = []\<rparr>" "uba_of_priv 0 0 0"
        "[IUint24 7, IString [104, 105], IInt64 (-1)]"] l
    by (simp add: pushable_def uba_inv_def live_def storage_def growable_def uba_of_priv_def max_size_def
        c_u24.length_pack c_s64.length_pack)
qed

text \<open>C5: What every fixed width getter of \<open>w\<close> bytes does, at every position. Where position and width add up to less
  than \<open>2 ^ 64\<close> it decodes the bytes of the window at the position when they are all inside the window and throws
  the out of bounds exception otherwise. At the last \<open>w\<close> positions below \<open>2 ^ 64\<close>, which stand for \<open>k \<le> w\<close> bytes before the
  window, the range check wraps around: it throws when the window has less than \<open>w - k\<close> bytes, and otherwise lets the getter decode
  the bytes that begin \<open>k\<close> bytes before the window, or read outside the storage when there are none.\<close>

theorem getters_refine_view:
  assumes "uba_inv h u"
  shows "uba_getInt64 h u pos = window_read 8 up_s64 h u pos \<and>
         uba_getUint64 h u pos = window_read 8 up_u64 h u pos \<and>
         uba_getInt32 h u pos = window_read 4 up_s32 h u pos \<and>
         uba_getUint32 h u pos = window_read 4 up_u32 h u pos \<and>
         uba_getUint24 h u pos = window_read 3 up_u24 h u pos \<and>
         uba_getUint16 h u pos = window_read 2 up_u16 h u pos \<and>
         uba_getUint8 h u pos = window_read 1 up_u8 h u pos \<and>
         uba_getOffset h u pos = window_read 5 up_u40 h u pos \<and>
         uba_getNegativeOffset h u pos = window_read 5 up_s40 h u pos"
  by (simp add: uba_get_defs Int64.get_everywhere [OF assms] Uint64.get_everywhere [OF assms] Int32.get_everywhere [OF assms] Uint32.get_everywhere [OF assms] Uint24.get_everywhere [OF assms] Uint16.get_everywhere [OF assms] Uint8.get_everywhere [OF assms] Offset.get_everywhere [OF assms] NegativeOffset.get_everywhere [OF assms])

theorem getters_refine_view_witness:
  "uba_getUint16 (\<lambda>_. \<lparr>kind = DequeB, mem = [9, 1, 2, 3]\<rparr>) (uba_of_priv 0 1 2) 0 = Inr (up_u16 [1, 2]) \<and>
   uba_getUint16 (\<lambda>_. \<lparr>kind = DequeB, mem = [9, 1, 2, 3]\<rparr>) (uba_of_priv 0 1 2) 1 = Inl OutOfBoundsException \<and>
   uba_getUint16 (\<lambda>_. \<lparr>kind = DequeB, mem = [9, 1, 2, 3]\<rparr>) (uba_of_priv 0 1 2) (- 1) = Inr (up_u16 [9, 1, 2, 3])"
proof -
  have m: "unat (- 1 :: u64) = 2 ^ 64 - 1" by (simp add: unsigned_minus_1_eq_mask mask_eq_exp_minus_1)
  show ?thesis
    using getters_refine_view [of "\<lambda>_. \<lparr>kind = DequeB, mem = [9, 1, 2, 3]\<rparr>" "uba_of_priv 0 1 2" 0]
      getters_refine_view [of "\<lambda>_. \<lparr>kind = DequeB, mem = [9, 1, 2, 3]\<rparr>" "uba_of_priv 0 1 2" 1]
      getters_refine_view [of "\<lambda>_. \<lparr>kind = DequeB, mem = [9, 1, 2, 3]\<rparr>" "uba_of_priv 0 1 2" "- 1"]
    by (simp add: window_read_def m uba_inv_def live_def storage_def uba_of_priv_def max_size_def view_def chunk_def)
qed

text \<open>C6: What every fixed width putter of \<open>w\<close> bytes does, at every position. Where position and width add up to
  less than \<open>2 ^ 64\<close> it replaces exactly the bytes of the window at the position by the code of the value when they fit, and
  throws and writes nothing otherwise. At the last \<open>w\<close> positions below \<open>2 ^ 64\<close>, which stand for \<open>k \<le> w\<close> bytes before the window,
  the range check wraps around: it throws when the window has less than \<open>w - k\<close> bytes, and otherwise the putter overwrites the bytes that
  begin \<open>k\<close> bytes before the window, or writes outside the storage when there are none. Where the putter of negative offsets does not
  throw it is undefined for the least 64 bit number, which has no code.\<close>

theorem putters_refine_view:
  assumes "uba_inv h u"
  shows "uba_putInt64 h u pos v0 = window_write 8 (Inr (p_s64 v0)) h u pos \<and>
         uba_putUint64 h u pos v1 = window_write 8 (Inr (p_u64 v1)) h u pos \<and>
         uba_putInt32 h u pos v2 = window_write 4 (Inr (p_s32 v2)) h u pos \<and>
         uba_putUint32 h u pos v3 = window_write 4 (Inr (p_u32 v3)) h u pos \<and>
         uba_putUint24 h u pos v4 = window_write 3 (Inr (p_u24 v4)) h u pos \<and>
         uba_putUint16 h u pos v5 = window_write 2 (Inr (p_u16 v5)) h u pos \<and>
         uba_putUint8 h u pos v6 = window_write 1 (Inr (p_u8 v6)) h u pos \<and>
         uba_putOffset h u pos v7 = window_write 5 (Inr (p_u40 v7)) h u pos \<and>
         uba_putNegativeOffset h u pos v8 = window_write 5 (p_s40 v8) h u pos"
  by (simp add: uba_put_defs putNegativeOffset_everywhere [OF assms] Int64.put_everywhere [OF assms] Uint64.put_everywhere [OF assms] Int32.put_everywhere [OF assms] Uint32.put_everywhere [OF assms] Uint24.put_everywhere [OF assms] Uint16.put_everywhere [OF assms] Uint8.put_everywhere [OF assms] Offset.put_everywhere [OF assms])

theorem putters_refine_view_witness:
  "uba_putUint8 (\<lambda>_. \<lparr>kind = VectorB, mem = [9, 1, 2, 3]\<rparr>) (uba_of_priv 0 1 2) 1 7 =
     Inr (upd (\<lambda>_. \<lparr>kind = VectorB, mem = [9, 1, 2, 3]\<rparr>) (uba_of_priv 0 1 2) 1 [7]) \<and>
   uba_putNegativeOffset (\<lambda>_. \<lparr>kind = VectorB, mem = [9, 1, 2, 3, 4, 5]\<rparr>) (uba_of_priv 0 1 5) 0 (- (2 ^ 63)) = Inl UndefinedBehaviour"
  using putters_refine_view [of "\<lambda>_. \<lparr>kind = VectorB, mem = [9, 1, 2, 3]\<rparr>" "uba_of_priv 0 1 2" 1 _ _ _ _ _ _ 7]
    putters_refine_view [of "\<lambda>_. \<lparr>kind = VectorB, mem = [9, 1, 2, 3, 4, 5]\<rparr>" "uba_of_priv 0 1 5" 0 _ _ _ _ _ _ _ _ "- (2 ^ 63)"]
  by (simp add: window_write_def p_s40_sm uba_inv_def live_def storage_def uba_of_priv_def max_size_def p_u8_def)

text \<open>A written value is read back from its position, for every fixed width type, on all kinds of storage.\<close>

theorem value_read_back:
  assumes "uba_inv h u" "unat pos + 8 \<le> unat (m_len u)"
  shows "bindE (uba_putUint8 h u pos b) (\<lambda>h. uba_getUint8 h u pos) = Inr b \<and>
         bindE (uba_putUint16 h u pos c) (\<lambda>h. uba_getUint16 h u pos) = Inr c \<and>
         bindE (uba_putUint32 h u pos d) (\<lambda>h. uba_getUint32 h u pos) = Inr d \<and>
         bindE (uba_putInt32 h u pos d) (\<lambda>h. uba_getInt32 h u pos) = Inr d \<and>
         bindE (uba_putUint64 h u pos q) (\<lambda>h. uba_getUint64 h u pos) = Inr q \<and>
         bindE (uba_putInt64 h u pos q) (\<lambda>h. uba_getInt64 h u pos) = Inr q"
proof -
  have "unat pos + 8 < 2 ^ 64" using assms uba_inv_bounds [OF assms(1)] by simp
  then show ?thesis using assms
    by (simp add: uba_put_defs uba_get_defs Int64.put_spec Uint64.put_spec Int32.put_spec Uint32.put_spec Uint24.put_spec Uint16.put_spec Uint8.put_spec Offset.put_spec NegativeOffset.put_spec Int64.get_spec Uint64.get_spec Int32.get_spec Uint32.get_spec Uint24.get_spec Uint16.get_spec Uint8.get_spec Offset.get_spec NegativeOffset.get_spec inv_upd view_upd
      c_u8.length_pack c_u16.length_pack c_u32.length_pack c_s32.length_pack c_u64.length_pack c_s64.length_pack
      c_u8.unpack_at c_u16.unpack_at c_u32.unpack_at c_s32.unpack_at c_u64.unpack_at c_s64.unpack_at)
qed

theorem value_read_back_witness:
  "bindE (uba_putInt32 (\<lambda>_. \<lparr>kind = DequeB, mem = replicate 20 0\<rparr>) (uba_of_priv 0 4 12) 3 (-5))
     (\<lambda>h. uba_getInt32 h (uba_of_priv 0 4 12) 3) = Inr (-5)"
  using value_read_back [of "\<lambda>_. \<lparr>kind = DequeB, mem = replicate 20 0\<rparr>" "uba_of_priv 0 4 12" 3]
  by (simp add: uba_inv_def live_def storage_def uba_of_priv_def max_size_def)

text \<open>Adapters share their storage: bytes written through one adapter appear, at the shifted
  position, in every adapter of the same storage whose window covers them, and leave
  every adapter on other storage or with a disjoint window unchanged.\<close>

theorem write_visible_to_aliases:
  assumes "uba_inv h u" "unat pos + length bs \<le> unat (m_len u)" "uba_inv h u'"
  shows "\<exists>h'. uba_putData h u pos bs = Inr h' \<and> uba_inv h' u' \<and>
     (m_priv u' \<noteq> m_priv u \<or> unat (m_offSet u') + unat (m_len u') \<le> unat (m_offSet u) + unat pos \<or>
        unat (m_offSet u) + unat pos + length bs \<le> unat (m_offSet u') \<longrightarrow> view h' u' = view h u') \<and>
     (m_priv u' = m_priv u \<and> unat (m_offSet u') \<le> unat (m_offSet u) + unat pos \<and>
        unat (m_offSet u) + unat pos + length bs \<le> unat (m_offSet u') + unat (m_len u') \<longrightarrow>
        view h' u' = blit (unat (m_offSet u) + unat pos - unat (m_offSet u')) bs (view h u'))"
  using putData_spec [OF assms(1,2)] inv_upd [OF assms] view_upd_other [OF assms] view_upd_cover [OF assms] by auto

theorem write_visible_to_aliases_witness:
  "\<exists>h'. uba_putData (\<lambda>_. \<lparr>kind = VectorB, mem = [1, 2, 3, 4]\<rparr>) (uba_of_priv 0 2 2) 1 [9] = Inr h' \<and>
     view h' (uba_of_priv 0 0 4) = [1, 2, 3, 9]"
  using write_visible_to_aliases [of "\<lambda>_. \<lparr>kind = VectorB, mem = [1, 2, 3, 4]\<rparr>" "uba_of_priv 0 2 2" 1 "[9]"
      "uba_of_priv 0 0 4"]
  by (auto simp: uba_inv_def live_def storage_def uba_of_priv_def max_size_def view_def chunk_def blit_def)

text \<open>C7: No sequence of window operations moves the end of the window beyond the original end, so the
  window stays inside the storage. All of them but the four that shrink the window to a position
  also keep both positions inside the window.\<close>

theorem window_ops_invariant:
  assumes "uba_inv h u"
  shows "narrows (fold window_apply ops u) u \<and> uba_inv h (fold window_apply ops u) \<and>
         (ptrs_ok u \<and> (\<forall>op \<in> set ops. clips_ptrs op) \<longrightarrow> ptrs_ok (fold window_apply ops u))"
  using assms
proof (induction ops arbitrary: u)
  case Nil
  then show ?case by (simp add: narrows_def)
next
  case (Cons op ops)
  have b: "unat (m_offSet u) + unat (m_len u) < 2 ^ 64" using uba_inv_bounds [OF Cons.prems] by simp
  have n: "narrows (window_apply op u) u" using b by (rule window_apply_narrows)
  note IH = Cons.IH [OF narrows_inv [OF Cons.prems n]]
  show ?case using IH narrows_trans [OF _ n] window_apply_ptrs [of u op, OF _ _ b] by auto
qed

theorem window_ops_invariant_witness:
  "uba_inv (\<lambda>_. \<lparr>kind = DequeB, mem = [1, 2, 3, 4]\<rparr>) (fold window_apply [Advance 1, SubLen 1 9, ShrinkToPut] (uba_of_priv 0 0 4))"
  using window_ops_invariant [of "\<lambda>_. \<lparr>kind = DequeB, mem = [1, 2, 3, 4]\<rparr>" "uba_of_priv 0 0 4"
      "[Advance 1, SubLen 1 9, ShrinkToPut]"]
  by (simp add: uba_inv_def live_def storage_def uba_of_priv_def max_size_def)

text \<open>Comparing the contents of two adapters never throws and decides equality of the bytes of
  their windows; the string of an adapter is the bytes of its window.\<close>

theorem equalContent_iff:
  assumes "uba_inv h a" "uba_inv h b"
  shows "uba_equalContent h a b = Inr (view h a = view h b) \<and> uba_toString h a = Inr (view h a)"
proof
  show "uba_equalContent h a b = Inr (view h a = view h b)"
  proof (cases "m_len a = m_len b")
    case True
    then show ?thesis using equalContent_from_spec [OF assms True, of 0] by (simp add: uba_equalContent_def)
  next
    case False
    then have "length (view h a) \<noteq> length (view h b)" using assms by (simp add: word_unat_eq_iff)
    then show ?thesis using False by (auto simp: uba_equalContent_def)
  qed
  have "chunk 0 (unat (m_len a)) (view h a) = view h a" using assms(1) chunk_whole [of "view h a"] by simp
  then show "uba_toString h a = Inr (view h a)"
    using bytes_from_spec(1) [OF assms(1), of 0 "unat (m_len a)"] by (simp add: uba_toString_def)
qed

theorem equalContent_iff_witness:
  "uba_equalContent (\<lambda>_. \<lparr>kind = DequeB, mem = [1, 2, 1, 2]\<rparr>) (uba_of_priv 0 0 2) (uba_of_priv 0 2 2) = Inr True"
  using equalContent_iff [of "\<lambda>_. \<lparr>kind = DequeB, mem = [1, 2, 1, 2]\<rparr>" "uba_of_priv 0 0 2" "uba_of_priv 0 2 2"]
  by (simp add: uba_inv_def live_def storage_def uba_of_priv_def max_size_def view_def chunk_def)

text \<open>Growing an adapter on a vector or a container succeeds while the storage has room below its
  maximal size; the window keeps its bytes and gets the requested number more.\<close>

theorem growStorage_extends:
  assumes "uba_inv h u" "growable h u" "unat (m_offSet u) + unat (m_len u) + unat byte \<le> max_size"
  shows "\<exists>h' u' ys. uba_growStorage h u byte = Inr (True, h', u') \<and> uba_inv h' u' \<and>
           view h' u' = view h u @ ys \<and> length ys = unat byte"
  using growStorage_spec [OF assms] by blast

theorem growStorage_extends_witness:
  "\<exists>h' u' ys. uba_growStorage (\<lambda>_. \<lparr>kind = VectorB, mem = [1, 2]\<rparr>) (uba_of_priv 0 0 2) 5 = Inr (True, h', u') \<and>
     uba_inv h' u' \<and> view h' u' = [1, 2] @ ys \<and> length ys = 5"
  using growStorage_extends [of "\<lambda>_. \<lparr>kind = VectorB, mem = [1, 2]\<rparr>" "uba_of_priv 0 0 2" 5]
  by (simp add: uba_inv_def live_def storage_def growable_def uba_of_priv_def max_size_def view_def chunk_def)

text \<open>Moving the window to one of the two positions does not move the other position along: the
  distance is reset to 0 before it is subtracted, so that the other position keeps its value.\<close>

theorem shrinkTo_keeps_other_ptr:
  shows "m_getPtr (uba_shrinkToPutPtr u) = m_getPtr u \<and> m_putPtr (uba_shrinkToGetPtr u) = m_putPtr u \<and>
         m_len (uba_shrinkToPutPtr u) = m_len u - min (m_putPtr u) (m_len u) \<and>
         m_len (uba_shrinkToGetPtr u) = m_len u - min (m_getPtr u) (m_len u)"
  by (auto simp: uba_shrinkToPutPtr_def uba_shrinkToGetPtr_def Let_def min_def)

text \<open>An adapter made from another one with a positive offset starts with both positions at 0,
  wherever those of the other one were.\<close>

theorem sub_adapter_resets_ptrs:
  shows "m_getPtr (uba_sub u n) = (if n = 0 \<or> m_len u = 0 then min (m_getPtr u) (m_len u) else 0) \<and>
         m_putPtr (uba_sub u n) = (if n = 0 \<or> m_len u = 0 then min (m_putPtr u) (m_len u) else 0) \<and>
         m_offSet (uba_sub u n) = m_offSet u + min n (m_len u) \<and> m_len (uba_sub u n) = m_len u - min n (m_len u)"
  by (cases "m_len u = 0"; cases "n = 0") (auto simp: uba_sub_def Let_def min_def word_gt_0)

text \<open>The range check adds position and length with wrap-around: for the position \<open>2 ^ 64 - 1\<close> it
  accepts one byte in every window, and the access then reads the byte before the window.\<close>

theorem range_check_wraps:
  assumes "uba_inv h u" "0 < unat (m_offSet u)"
  shows "range_check u (- 1) 1 = Inr () \<and> uba_at h u (- 1) = Inr (mem (storage h u) ! (unat (m_offSet u) - 1))"
proof -
  have "(1 :: u64) \<le> m_offSet u" using assms(2) by (simp add: word_le_nat_alt)
  then have p: "unat (m_offSet u - 1) = unat (m_offSet u) - 1" by (simp add: unat_sub)
  then have "priv_getUint8 (storage h u) (m_offSet u - 1) = Inr (mem (storage h u) ! (unat (m_offSet u) - 1))"
    using assms uba_inv_bounds [OF assms(1)] by (simp add: priv_getUint8_ok up_u8_drop)
  then show ?thesis by (simp add: range_check_def uba_at_def access_at_def)
qed

theorem range_check_wraps_witness:
  "uba_at (\<lambda>_. \<lparr>kind = VectorB, mem = [7, 8, 9]\<rparr>) (uba_of_priv 0 1 1) (- 1) = Inr 7"
  using range_check_wraps [of "\<lambda>_. \<lparr>kind = VectorB, mem = [7, 8, 9]\<rparr>" "uba_of_priv 0 1 1"]
  by (simp add: uba_inv_def live_def storage_def uba_of_priv_def max_size_def)

text \<open>Shrinking the storage passes the number of bytes to keep to a method that takes the number of
  bytes to drop: an adapter on a whole vector of \<open>n\<close> bytes that gives up \<open>b\<close> of them is
  left with a window of \<open>n - b\<close> bytes on storage of \<open>b\<close> bytes.\<close>

theorem shrinkStorage_drops_the_rest:
  assumes "kind (storage h u) = VectorB" "length (mem (storage h u)) \<le> max_size" "m_offSet u = 0"
    and "unat (m_len u) = length (mem (storage h u))" "b \<le> m_len u"
  shows "\<exists>h' u'. uba_shrinkStorage h u b = Inr (True, h', u') \<and> unat (m_len u') = unat (m_len u) - unat b \<and>
           length (mem (storage h' u')) = unat b"
proof -
  have "live (storage h u)" using assms by (simp add: live_def)
  moreover have "\<not> m_len u < b" using assms(5) by simp
  ultimately show ?thesis using assms unat_sub_le [OF assms(5)]
    by (auto simp: uba_shrinkStorage_def priv_shrinkStorage_cases word_le_nat_alt storage_def)
qed

theorem shrinkStorage_drops_the_rest_witness:
  "\<exists>h' u'. uba_shrinkStorage (\<lambda>_. \<lparr>kind = VectorB, mem = [1, 2, 3, 4]\<rparr>) (uba_of_priv 0 0 4) 1 = Inr (True, h', u') \<and>
     unat (m_len u') = 3 \<and> length (mem (storage h' u')) = 1"
  using shrinkStorage_drops_the_rest [of "\<lambda>_. \<lparr>kind = VectorB, mem = [1, 2, 3, 4]\<rparr>" "uba_of_priv 0 0 4" 1]
  by (simp add: storage_def uba_of_priv_def max_size_def)

end
