(* ===== verification/CompactUintArray.thy ===== *)
theory CompactUintArray
  imports AdapterStream UtilMath
begin

text \<open>
  \<open>CompactUintArray\<close> (\<open>include/sserialize/containers/CompactUintArray.h\<close>,
  \<open>src/containers/CompactUintArray.cpp\<close>): numbers of a fixed width of 1 to 64 bits, packed
  one after the other into the bytes of an adapter, low bits first.

  The classes behind the virtual calls are the constructors of \<open>cua_priv\<close>. The loops
  count in \<open>nat\<close>: their counters are bounded by the width, at most 64. The quotient and
  the remainder of the bit position are those of a compiler with 128 bit integers.
\<close>

datatype cua_priv =
    CEmpty
  | CU8 uba
  | CU16 uba
  | CU24 uba
  | CU32 uba
  | CVarBits uba u32 u32
  | CVarBits64 uba u64 u32

record cua =
  c_priv :: cua_priv
  m_maxCount :: u64

section \<open>Numbers of arbitrary width\<close>

definition calcBegin :: "u64 \<Rightarrow> u32 \<Rightarrow> (u64 \<times> u8) res" where
  "calcBegin pos bpn =
     bindE (multiplyDiv64 True pos (ucast bpn) 8) (\<lambda>posStart.
     bindE (if pos = 0 then Inr 0 else bindE (multiplyMod64 True pos (ucast bpn) 8) (\<lambda>m. narrow_check_u (uint m))) (\<lambda>initShift.
       Inr (posStart, initShift)))"

function at_loop :: "heap \<Rightarrow> uba \<Rightarrow> u64 \<Rightarrow> nat \<Rightarrow> nat \<Rightarrow> nat \<Rightarrow> nat \<Rightarrow> 'a::len word \<Rightarrow> 'a word res" where
  "at_loop h d posStart bpn byteShift bitsRead i res =
     (if bitsRead < bpn then
        bindE (uba_at h d (posStart + of_nat i)) (\<lambda>newByte.
          at_loop h d posStart bpn byteShift (bitsRead + 8) (i + 1) (res OR push_bit (8 * i + byteShift) (ucast newByte)))
      else Inr res)"
  by pat_completeness auto
termination
  by (relation "measure (\<lambda>(h, d, posStart, bpn, byteShift, bitsRead, i, res). bpn - bitsRead)") auto

declare at_loop.simps [simp del]

definition VarBits_at :: "heap \<Rightarrow> uba \<Rightarrow> u32 \<Rightarrow> u32 \<Rightarrow> u64 \<Rightarrow> u64 res" where
  "VarBits_at h d m_mask bpn pos =
     bindE (calcBegin pos bpn) (\<lambda>(posStart, initShift).
     bindE (uba_at h d posStart) (\<lambda>b.
       let res = drop_bit (unat initShift) (ucast b) :: u32;
           byteShift = 8 - unat initShift;
           posStart = posStart + 1
       in bindE (at_loop h d posStart (unat bpn) byteShift (8 - unat initShift) 0 res) (\<lambda>res.
            Inr (ucast (res AND m_mask)))))"

definition VarBits64_at :: "heap \<Rightarrow> uba \<Rightarrow> u64 \<Rightarrow> u32 \<Rightarrow> u64 \<Rightarrow> u64 res" where
  "VarBits64_at h d m_mask bpn pos =
     bindE (calcBegin pos bpn) (\<lambda>(posStart, initShift).
     bindE (uba_at h d posStart) (\<lambda>b.
       let res = drop_bit (unat initShift) (ucast b) :: u64;
           byteShift = 8 - unat initShift;
           posStart = posStart + 1
       in bindE (at_loop h d posStart (unat bpn) byteShift byteShift 0 res) (\<lambda>res. Inr (res AND m_mask))))"

text \<open>\<open>m_data[p]\<close> is a reference; \<open>modify\<close> reads through it and writes back.\<close>

definition modify :: "heap \<Rightarrow> uba \<Rightarrow> u64 \<Rightarrow> (u8 \<Rightarrow> u8) \<Rightarrow> heap res" where
  "modify h d p f = bindE (uba_at h d p) (\<lambda>b. uba_putUint8 h d p (f b))"

function set_middle :: "heap \<Rightarrow> uba \<Rightarrow> u64 \<Rightarrow> nat \<Rightarrow> nat \<Rightarrow> u64 \<Rightarrow> nat \<Rightarrow> nat \<Rightarrow> (heap \<times> nat) res" where
  "set_middle h d startPos bpn lastByteBitCount value curShift count =
     (if curShift + lastByteBitCount < bpn then
        bindE (modify h d (startPos + of_nat count) (\<lambda>_. ucast (drop_bit curShift value AND 0xFF))) (\<lambda>h.
          set_middle h d startPos bpn lastByteBitCount value (curShift + 8) (count + 1))
      else Inr (h, count))"
  by pat_completeness auto
termination
  by (relation "measure (\<lambda>(h, d, startPos, bpn, l, value, curShift, count). bpn - curShift)") auto

declare set_middle.simps [simp del]

text \<open>The body of both setters after the value is masked.\<close>

definition set_bits :: "heap \<Rightarrow> uba \<Rightarrow> u32 \<Rightarrow> u64 \<Rightarrow> u64 \<Rightarrow> heap res" where
  "set_bits h d bpn pos value =
     bindE (calcBegin pos bpn) (\<lambda>(startPos, initShift).
       if unat initShift + unat bpn \<le> 8 then
         (let keep = ucast (createMask (ucast initShift)) :: u8;
              keep = ucast (ucast keep OR NOT (createMask (ucast initShift + bpn)))
          in modify h d startPos (\<lambda>b. (b AND keep) OR ucast (push_bit (unat initShift) value)))
       else
         (let keep = ucast (createMask (ucast initShift)) :: u8
          in bindE (modify h d startPos (\<lambda>b. (b AND keep) OR ucast (push_bit (unat initShift) value AND 0xFF))) (\<lambda>h.
             let bitsSet = 8 - unat initShift;
                 lastByteBitCount = (unat bpn + unat initShift) mod 8
             in bindE (set_middle h d startPos (unat bpn) lastByteBitCount value bitsSet 1) (\<lambda>(h, count).
                  if lastByteBitCount > 0 then
                    modify h d (startPos + of_nat count)
                      (\<lambda>b. let b = ucast (ucast b AND NOT (createMask (of_nat lastByteBitCount))) :: u8
                           in ucast (ucast b OR drop_bit (unat bpn - lastByteBitCount) value))
                  else Inr h))))"

definition VarBits_set :: "heap \<Rightarrow> uba \<Rightarrow> u32 \<Rightarrow> u32 \<Rightarrow> u64 \<Rightarrow> u64 \<Rightarrow> (u64 \<times> heap) res" where
  "VarBits_set h d m_mask bpn pos value0 =
     (let value = value0 AND ucast m_mask in bindE (set_bits h d bpn pos value) (\<lambda>h. Inr (value, h)))"

definition VarBits64_set :: "heap \<Rightarrow> uba \<Rightarrow> u64 \<Rightarrow> u32 \<Rightarrow> u64 \<Rightarrow> u64 \<Rightarrow> (u64 \<times> heap) res" where
  "VarBits64_set h d m_mask bpn pos value0 =
     (let value = value0 AND m_mask in bindE (set_bits h d bpn pos value) (\<lambda>h. Inr (value, h)))"

section \<open>Numbers of whole bytes\<close>

definition U8_at :: "heap \<Rightarrow> uba \<Rightarrow> u64 \<Rightarrow> u64 res" where
  "U8_at h d pos = bindE (uba_getUint8 h d pos) (\<lambda>v. Inr (ucast v))"

definition U16_at :: "heap \<Rightarrow> uba \<Rightarrow> u64 \<Rightarrow> u64 res" where
  "U16_at h d pos = bindE (uba_getUint16 h d (2 * pos)) (\<lambda>v. Inr (ucast v))"

definition U24_at :: "heap \<Rightarrow> uba \<Rightarrow> u64 \<Rightarrow> u64 res" where
  "U24_at h d pos = bindE (uba_getUint24 h d (3 * pos)) (\<lambda>v. Inr (ucast v))"

definition U32_at :: "heap \<Rightarrow> uba \<Rightarrow> u64 \<Rightarrow> u64 res" where
  "U32_at h d pos = bindE (uba_getUint32 h d (4 * pos)) (\<lambda>v. Inr (ucast v))"

definition U8_set :: "heap \<Rightarrow> uba \<Rightarrow> u64 \<Rightarrow> u64 \<Rightarrow> (u64 \<times> heap) res" where
  "U8_set h d pos value = bindE (uba_putUint8 h d pos (ucast value)) (\<lambda>h. Inr (value, h))"

definition U16_set :: "heap \<Rightarrow> uba \<Rightarrow> u64 \<Rightarrow> u64 \<Rightarrow> (u64 \<times> heap) res" where
  "U16_set h d pos value =
     bindE (uba_putUint16 h d (2 * pos) (ucast value)) (\<lambda>h. Inr (ucast (ucast value :: u16), h))"

definition U24_set :: "heap \<Rightarrow> uba \<Rightarrow> u64 \<Rightarrow> u64 \<Rightarrow> (u64 \<times> heap) res" where
  "U24_set h d pos value = bindE (uba_putUint24 h d (3 * pos) (ucast value)) (\<lambda>h. Inr (value, h))"

definition U32_set :: "heap \<Rightarrow> uba \<Rightarrow> u64 \<Rightarrow> u64 \<Rightarrow> (u64 \<times> heap) res" where
  "U32_set h d pos value = bindE (uba_putUint32 h d (4 * pos) (ucast value)) (\<lambda>h. Inr (value, h))"

definition Empty_at :: "u64 \<Rightarrow> u64 res" where
  "Empty_at pos = Inr 0"

definition Empty_set :: "u64 \<Rightarrow> u64 \<Rightarrow> u64" where
  "Empty_set pos value = NOT value"

section \<open>The array\<close>

fun priv_bpn :: "cua_priv \<Rightarrow> u32" where
  "priv_bpn CEmpty = 0"
| "priv_bpn (CU8 _) = 8"
| "priv_bpn (CU16 _) = 16"
| "priv_bpn (CU24 _) = 24"
| "priv_bpn (CU32 _) = 32"
| "priv_bpn (CVarBits _ _ bpn) = bpn"
| "priv_bpn (CVarBits64 _ _ bpn) = bpn"

fun priv_at :: "heap \<Rightarrow> cua_priv \<Rightarrow> u64 \<Rightarrow> u64 res" where
  "priv_at h CEmpty pos = Empty_at pos"
| "priv_at h (CU8 d) pos = U8_at h d pos"
| "priv_at h (CU16 d) pos = U16_at h d pos"
| "priv_at h (CU24 d) pos = U24_at h d pos"
| "priv_at h (CU32 d) pos = U32_at h d pos"
| "priv_at h (CVarBits d m_mask bpn) pos = VarBits_at h d m_mask bpn pos"
| "priv_at h (CVarBits64 d m_mask bpn) pos = VarBits64_at h d m_mask bpn pos"

fun priv_set :: "heap \<Rightarrow> cua_priv \<Rightarrow> u64 \<Rightarrow> u64 \<Rightarrow> (u64 \<times> heap) res" where
  "priv_set h CEmpty pos v = Inr (Empty_set pos v, h)"
| "priv_set h (CU8 d) pos v = U8_set h d pos v"
| "priv_set h (CU16 d) pos v = U16_set h d pos v"
| "priv_set h (CU24 d) pos v = U24_set h d pos v"
| "priv_set h (CU32 d) pos v = U32_set h d pos v"
| "priv_set h (CVarBits d m_mask bpn) pos v = VarBits_set h d m_mask bpn pos v"
| "priv_set h (CVarBits64 d m_mask bpn) pos v = VarBits64_set h d m_mask bpn pos v"

definition VarBits_new :: "uba \<Rightarrow> u32 \<Rightarrow> cua_priv res" where
  "VarBits_new adap bpn =
     (if bpn = 0 then Inl TypeOverflowException else if bpn > 32 then Inl TypeOverflowException
      else Inr (CVarBits adap (createMask bpn) bpn))"

definition VarBits64_new :: "uba \<Rightarrow> u32 \<Rightarrow> cua_priv" where
  "VarBits64_new adap bpn0 =
     (let bpn = (if bpn0 = 0 then 1 else if bpn0 > 64 then 64 else bpn0)
      in CVarBits64 adap (createMask64 (ucast bpn)) bpn)"

definition cua_setPrivate :: "uba \<Rightarrow> u32 \<Rightarrow> cua res" where
  "cua_setPrivate array bits0 =
     (let bits = (if bits0 = 0 then 1 else if bits0 > 64 then 64 else bits0);
          maxCount = min ((m_len array * 8) div ucast bits) (- 1)
      in bindE (if bits = 8 then Inr (CU8 array) else if bits = 16 then Inr (CU16 array)
                else if bits = 24 then Inr (CU24 array) else if bits = 32 then Inr (CU32 array)
                else if bits \<le> 32 then VarBits_new array bits else Inr (VarBits64_new array bits)) (\<lambda>p.
           Inr \<lparr>c_priv = p, m_maxCount = maxCount\<rparr>))"

definition minStorageBits :: "u64 \<Rightarrow> u32" where
  "minStorageBits number = max 1 (of_nat (msb64 number) + 1)"

function minStorageBitsFullBytes_loop :: "u64 \<Rightarrow> u32 \<Rightarrow> u32" where
  "minStorageBitsFullBytes_loop number res =
     (let number = drop_bit 8 number; res = res + 8
      in if number \<noteq> 0 then minStorageBitsFullBytes_loop number res else res)"
  by pat_completeness auto
termination
  by (relation "measure (\<lambda>(n, _). unat n)") (auto intro: drop_bit_nonzero_less)

declare minStorageBitsFullBytes_loop.simps [simp del]

definition minStorageBitsFullBytes :: "u64 \<Rightarrow> u32" where
  "minStorageBitsFullBytes number = minStorageBitsFullBytes_loop number 0"

definition minStorageBytes :: "u32 \<Rightarrow> u64 \<Rightarrow> u64" where
  "minStorageBytes bpn count =
     (let bits = count * ucast bpn in bits div 8 + (if bits mod 8 > 0 then 1 else 0))"

definition cua_new :: "uba \<Rightarrow> u32 \<Rightarrow> cua res" where
  "cua_new array bits = cua_setPrivate array bits"

definition cua_new_sized :: "uba \<Rightarrow> u32 \<Rightarrow> u64 \<Rightarrow> cua res" where
  "cua_new_sized array bits max_sz =
     bindE (cua_setPrivate array bits) (\<lambda>c.
       if m_len array < minStorageBytes bits max_sz then Inl OutOfBoundsException
       else Inr (c\<lparr>m_maxCount := max_sz\<rparr>))"

definition cua_bpn :: "cua \<Rightarrow> u32" where
  "cua_bpn c = priv_bpn (c_priv c)"

definition cua_getSizeInBytes :: "cua \<Rightarrow> u64" where
  "cua_getSizeInBytes c =
     (let tmp = m_maxCount c * ucast (cua_bpn c) in tmp div 8 + (if tmp mod 8 \<noteq> 0 then 1 else 0))"

definition cua_at :: "heap \<Rightarrow> cua \<Rightarrow> u64 \<Rightarrow> u64 res" where
  "cua_at h c pos = (if pos \<ge> m_maxCount c then Inl OutOfBoundsException else priv_at h (c_priv c) pos)"

definition cua_set :: "heap \<Rightarrow> cua \<Rightarrow> u64 \<Rightarrow> u64 \<Rightarrow> (u64 \<times> heap) res" where
  "cua_set h c pos value =
     (if pos \<ge> m_maxCount c then Inl OutOfBoundsException else priv_set h (c_priv c) pos value)"

definition cua_reserve :: "heap \<Rightarrow> uba \<Rightarrow> cua \<Rightarrow> u64 \<Rightarrow> (bool \<times> heap \<times> uba \<times> cua) res" where
  "cua_reserve h d c newMaxCount =
     (if m_maxCount c \<ge> newMaxCount then Inr (True, h, d, c)
      else let neededByteCount = minStorageBytes (cua_bpn c) newMaxCount; haveByteCount = m_len d
           in bindE (uba_growStorage h d (neededByteCount - haveByteCount)) (\<lambda>(ok, h, d).
                Inr (if ok then (True, h, d, c\<lparr>m_maxCount := newMaxCount\<rparr>) else (False, h, d, c))))"

text \<open>
  Binary search with signed positions, as in \<open>findSorted\<close>; \<open>at\<close> is the access of the
  class behind the array. C++ division rounds towards zero.
\<close>

definition half :: "int \<Rightarrow> int" where
  "half x = (if x < 0 then - ((- x) div 2) else x div 2)"

function findSorted_loop :: "(u64 \<Rightarrow> u64 res) \<Rightarrow> u64 \<Rightarrow> int \<Rightarrow> int \<Rightarrow> u64 res" where
  "findSorted_loop at key left right =
     (let mid = half (right - left) + left
      in bindE (at (word_of_int mid)) (\<lambda>tk.
           if left < right then
             (if tk = key then Inr (word_of_int mid)
              else if tk < key then findSorted_loop at key (mid + 1) right
              else findSorted_loop at key left (mid - 1))
           else Inr (if tk = key then word_of_int mid else - 1)))"
  by pat_completeness auto
termination
  by (relation "measure (\<lambda>(at, key, left, right). nat (right - left))") (auto simp: half_def)

declare findSorted_loop.simps [simp del]

definition cua_findSorted :: "heap \<Rightarrow> cua \<Rightarrow> u64 \<Rightarrow> u64 \<Rightarrow> u64 res" where
  "cua_findSorted h c key len =
     (if len = 0 then Inr (- 1) else findSorted_loop (priv_at h (c_priv c)) key 0 (sint (len - 1)))"

text \<open>
  Creation: space is reserved at the write position of \<open>dest\<close>, an array is laid over it and
  its elements are set one after the other. \<open>create_at\<close> is the overload that is told the
  number of bits; the one for a container finds it from the largest element.
\<close>

fun cua_set_all :: "heap \<Rightarrow> cua \<Rightarrow> u64 \<Rightarrow> u64 list \<Rightarrow> heap res" where
  "cua_set_all h c pos [] = Inr h"
| "cua_set_all h c pos (x # xs) = bindE (cua_set h c pos x) (\<lambda>(_, h). cua_set_all h c (pos + 1) xs)"

definition cua_create_at :: "u64 list \<Rightarrow> heap \<Rightarrow> uba \<Rightarrow> u32 \<Rightarrow> (u32 \<times> heap \<times> uba) res" where
  "cua_create_at src h dest bits =
     (let spaceNeed = minStorageBytes bits (of_nat (length src))
      in bindE (uba_reserveFromPutPtr h dest spaceNeed) (\<lambda>(ok, h, dest).
           if \<not> ok then Inr (0, h, dest)
           else let d = uba_shrinkToPutPtr dest
                in bindE (cua_new d bits) (\<lambda>carr.
                   bindE (cua_set_all h carr 0 src) (\<lambda>h.
                     Inr (bits, h, uba_incPutPtr dest spaceNeed)))))"

definition cua_create :: "u64 list \<Rightarrow> heap \<Rightarrow> uba \<Rightarrow> (u32 \<times> heap \<times> uba) res" where
  "cua_create src h dest =
     (if src \<noteq> [] then let bits = minStorageBits (foldl max (hd src) (tl src)) in cua_create_at src h dest bits
      else Inr (0, h, dest))"

section \<open>The bounded array\<close>

text \<open>\<open>BoundedCompactUintArray\<close> stores its length and its width in one variable length integer in
  front of the numbers.\<close>

definition bounded_new :: "heap \<Rightarrow> uba \<Rightarrow> (cua \<times> u64) res" where
  "bounded_new h d =
     bindE (uba_getVlPackedUint64 h d 0) (\<lambda>(sizeBits, len).
       if len < 0 then Inl IOException
       else let sz = drop_bit 6 sizeBits; bits = ucast (sizeBits AND 0x3F) + 1 :: u32;
                dSize = minStorageBytes bits sz
            in if sz \<noteq> 0
               then bindE (cua_setPrivate (uba_sub_len d (ucast (word_of_int len :: u32)) dSize) bits) (\<lambda>c. Inr (c, sz))
               else Inr (\<lparr>c_priv = CEmpty, m_maxCount = sz\<rparr>, sz))"

definition bounded_getSizeInBytes :: "cua \<times> u64 \<Rightarrow> u64" where
  "bounded_getSizeInBytes b =
     (case b of (c, sz) \<Rightarrow>
        let bits = cua_bpn c; sb = push_bit 6 sz OR ucast (bits - 1) in of_nat (psize_vu64 sb) + minStorageBytes bits sz)"

definition bounded_create :: "u64 list \<Rightarrow> heap \<Rightarrow> uba \<Rightarrow> (u32 \<times> heap \<times> uba) res" where
  "bounded_create src h dest =
     (if src \<noteq> [] then
        let bits = minStorageBits (foldl max (hd src) (tl src))
        in bindE (stream_putVlPackedUint64 h dest (push_bit 6 (of_nat (length src)) OR ucast (bits - 1))) (\<lambda>(_, h, dest).
             cua_create_at src h dest bits)
      else bindE (stream_putVlPackedUint64 h dest 0) (\<lambda>(_, h, dest). Inr (1, h, dest)))"

section \<open>The bits of a buffer\<close>

text \<open>
  Abstractly the buffer is one sequence of bits, \<open>bitb bs k\<close>, low bits of low bytes first.
  \<open>num_at\<close> is the number in the \<open>n\<close> bits from \<open>B\<close> on and \<open>put_num\<close> the buffer with these
  bits replaced.
\<close>

definition bitb :: "bytes \<Rightarrow> nat \<Rightarrow> bool" where
  "bitb bs k = bit (bs ! (k div 8)) (k mod 8)"

definition num_at :: "bytes \<Rightarrow> nat \<Rightarrow> nat \<Rightarrow> 'a::len word" where
  "num_at bs B n = horner_sum of_bool 2 (map (\<lambda>j. bitb bs (B + j)) [0..<n])"

definition put_num :: "bytes \<Rightarrow> nat \<Rightarrow> nat \<Rightarrow> 'a::len word \<Rightarrow> bytes" where
  "put_num bs B n v =
     map (\<lambda>i. horner_sum of_bool 2
       (map (\<lambda>j. if B \<le> 8 * i + j \<and> 8 * i + j < B + n then bit v (8 * i + j - B) else bitb bs (8 * i + j)) [0..<8]))
       [0..<length bs]"

lemma bit_num_at: "bit (num_at bs B n :: 'a::len word) j \<longleftrightarrow> j < LENGTH('a) \<and> j < n \<and> bitb bs (B + j)"
  by (auto simp: num_at_def bit_horner_sum_bit_word_iff)

lemma length_put_num [simp]: "length (put_num bs B n v) = length bs"
  by (simp add: put_num_def)

lemma bitb_put_num:
  assumes "k < 8 * length bs"
  shows "bitb (put_num bs B n v) k = (if B \<le> k \<and> k < B + n then bit v (k - B) else bitb bs k)"
proof -
  have i: "k div 8 < length bs" using assms by (simp add: less_mult_imp_div_less mult.commute)
  have k: "8 * (k div 8) + k mod 8 = k" by simp
  have "bitb (put_num bs B n v) k = bit (horner_sum of_bool 2
       (map (\<lambda>j. if B \<le> 8 * (k div 8) + j \<and> 8 * (k div 8) + j < B + n then bit v (8 * (k div 8) + j - B)
                 else bitb bs (8 * (k div 8) + j)) [0..<8]) :: u8) (k mod 8)"
    using i by (simp add: bitb_def put_num_def del: upt_Suc)
  also have "\<dots> = (if B \<le> k \<and> k < B + n then bit v (k - B) else bitb bs k)"
    by (subst bit_horner_sum_bit_word_iff) (simp add: k del: upt_Suc)
  finally show ?thesis .
qed

lemma bitb_ext:
  assumes "length as = length bs" "\<And>k. k < 8 * length bs \<Longrightarrow> bitb as k = bitb bs k"
  shows "as = bs"
proof (rule nth_equalityI [OF assms(1)])
  fix i assume "i < length as"
  then have i: "i < length bs" using assms(1) by simp
  show "as ! i = bs ! i"
  proof (rule bit_word_eqI)
    fix j assume "j < LENGTH(8)"
    then have j: "j < 8" by simp
    then have "bitb as (8 * i + j) = bitb bs (8 * i + j)" using i by (intro assms(2)) linarith
    with j show "bit (as ! i) j = bit (bs ! i) j" by (simp add: bitb_def)
  qed
qed

lemma bitb_update:
  "p < length bs \<Longrightarrow> bitb (bs[p := b]) k = (if k div 8 = p then bit b (k mod 8) else bitb bs k)"
  by (simp add: bitb_def nth_list_update)

lemma num_at_put_num:
  assumes "B + n \<le> 8 * length bs"
  shows "num_at (put_num bs B n v) B n = (take_bit n v :: 'a::len word)"
    and "B' + n' \<le> B \<or> B + n \<le> B' \<Longrightarrow> B' + n' \<le> 8 * length bs \<Longrightarrow>
      num_at (put_num bs B n v) B' n' = (num_at bs B' n' :: 'b::len word)"
proof -
  show "num_at (put_num bs B n v) B n = take_bit n v"
    using assms by (intro bit_word_eqI) (auto simp: bit_num_at bitb_put_num bit_take_bit_iff)
  show "num_at (put_num bs B n v) B' n' = (num_at bs B' n' :: 'b word)"
    if "B' + n' \<le> B \<or> B + n \<le> B'" "B' + n' \<le> 8 * length bs"
    using that assms by (intro bit_word_eqI) (auto simp: bit_num_at bitb_put_num)
qed

subsection \<open>Whole windows\<close>

definition rewrite :: "heap \<Rightarrow> uba \<Rightarrow> bytes \<Rightarrow> heap" where
  "rewrite h d bs = upd h d 0 bs"

lemma rewrite_facts:
  assumes "uba_inv h d" "length bs = unat (m_len d)"
  shows "uba_inv (rewrite h d bs) d" "view (rewrite h d bs) d = bs"
    "length cs = unat (m_len d) \<Longrightarrow> rewrite (rewrite h d bs) d cs = rewrite h d cs"
proof -
  show "uba_inv (rewrite h d bs) d" "view (rewrite h d bs) d = bs"
    using assms by (simp_all add: rewrite_def inv_upd view_upd) (simp add: blit_def)
  show "rewrite (rewrite h d bs) d cs = rewrite h d cs" if "length cs = unat (m_len d)"
    using assms that uba_inv_bounds [OF assms(1)]
    by (simp add: rewrite_def upd_def storage_def blit_def)
qed

lemma upd_rewrite:
  assumes "uba_inv h d" "unat pos + length bs \<le> unat (m_len d)"
  shows "upd h d pos bs = rewrite h d (blit (unat pos) bs (view h d))"
proof -
  let ?o = "unat (m_offSet d)" and ?m = "mem (storage h d)" and ?n = "unat (m_len d)"
  have b: "?o + ?n \<le> length ?m" using uba_inv_bounds [OF assms(1)] by simp
  have "blit ?o (blit (unat pos) bs (chunk ?o ?n ?m)) ?m = blit (?o + unat pos) bs ?m"
  proof -
    have "blit (?o + unat pos) bs ?m = take ?o ?m @ blit (unat pos) bs (drop ?o ?m)"
      by (simp only: blit_def take_add append_assoc drop_drop) (simp add: ac_simps)
    moreover have "blit (unat pos) bs (drop ?o ?m) = blit (unat pos) bs (chunk ?o ?n ?m) @ drop (?o + ?n) ?m"
    proof -
      have "drop ?o ?m = chunk ?o ?n ?m @ drop (?o + ?n) ?m"
        using append_take_drop_id [of ?n "drop ?o ?m"] by (simp add: chunk_def add.commute)
      moreover have "blit (unat pos) bs (a @ c) = blit (unat pos) bs a @ c" if "unat pos + length bs \<le> length a" for a c
        using that by (simp add: blit_def)
      moreover have "length (chunk ?o ?n ?m) = ?n" using b by (rule length_chunk)
      ultimately show ?thesis using assms(2) by simp
    qed
    moreover have "length (blit (unat pos) bs (chunk ?o ?n ?m)) = ?n"
      using b assms(2) by (simp add: length_blit length_chunk)
    ultimately show ?thesis by (simp add: blit_def [of ?o])
  qed
  then show ?thesis by (simp add: rewrite_def upd_def view_def)
qed

lemma modify_spec:
  assumes "uba_inv h d" "length V = unat (m_len d)" "unat p < length V"
  shows "modify (rewrite h d V) d p f = Inr (rewrite h d (V[unat p := f (V ! unat p)]))"
proof -
  note r = rewrite_facts [OF assms(1,2)]
  have "uba_putUint8 (rewrite h d V) d p b = Inr (rewrite h d (V[unat p := b]))" for b
  proof -
    have "uba_putUint8 (rewrite h d V) d p b = Inr (upd (rewrite h d V) d p [b])"
      using Uint8.put_spec [OF r(1), of p b] assms uba_inv_bounds [OF assms(1)]
      by (simp add: uba_putUint8_def p_u8_def)
    also have "upd (rewrite h d V) d p [b] = rewrite h d (V[unat p := b])"
      using upd_rewrite [OF r(1), of p "[b]"] assms r
      by (simp add: r(2) blit_def upd_conv_take_nth_drop)
    finally show ?thesis .
  qed
  then show ?thesis using at_spec(1) [OF r(1), of p] assms by (simp add: modify_def r(2))
qed

subsection \<open>Where a number begins\<close>

lemma calcBegin_spec:
  assumes "unat bpn \<le> 64" "unat pos * unat bpn div 8 < 2 ^ 64"
  shows "\<exists>P s. calcBegin pos bpn = Inr (P, s) \<and> unat P = unat pos * unat bpn div 8 \<and> unat s = unat pos * unat bpn mod 8"
proof -
  have "unat pos * unat bpn < 2 ^ 127"
  proof -
    have "unat pos * unat bpn \<le> 2 ^ 64 * 64"
      using unat_bound64 [of pos] assms(1) by (intro mult_mono) simp_all
    then show ?thesis by simp
  qed
  then have d: "multiplyDiv64 True pos (ucast bpn) 8 = Inr (of_nat (unat pos * unat bpn div 8))"
    and m: "multiplyMod64 True pos (ucast bpn) 8 = Inr (of_nat (unat pos * unat bpn mod 8))"
    by (simp_all add: multiplyDiv64_eq multiplyMod64_eq)
  let ?r = "unat pos * unat bpn mod 8"
  have r: "?r < 8" by simp
  have ur: "unat (of_nat ?r :: u64) = ?r" using r by (intro unat_of_nat_small) simp
  then have ui: "uint (of_nat ?r :: u64) = int ?r" by (metis uint_nat)
  have s: "(if pos = 0 then Inr 0 else bindE (multiplyMod64 True pos (ucast bpn) 8) (\<lambda>m. narrow_check_u (uint m)))
      = Inr (of_nat ?r :: u8)"
  proof -
    have "\<not> 255 < ?r" using r by linarith
    then show ?thesis by (simp add: m ui narrow_check_u_def)
  qed
  have "unat (of_nat ?r :: u8) = ?r" using r by (intro unat_of_nat_small) simp
  moreover have "unat (of_nat (unat pos * unat bpn div 8) :: u64) = unat pos * unat bpn div 8"
    using assms(2) by (intro unat_of_nat_small) simp
  ultimately show ?thesis using d s by (simp add: calcBegin_def)
qed

subsection \<open>Reading\<close>

lemma byte_bit:
  "bit (bs ! p) j \<and> j < 8 \<longleftrightarrow> bitb bs (8 * p + j) \<and> j < 8"
  by (auto simp: bitb_def)

lemma at_loop_spec:
  fixes res :: "'a::len word"
  assumes "uba_inv h d" "B = 8 * (unat P - 1) + (8 - s)" "0 < s" "s \<le> 8" "0 < unat P"
    and "B + bpn \<le> 8 * unat (m_len d)"
  shows "read = s + 8 * i \<Longrightarrow> (\<And>j. bit res j \<longleftrightarrow> j < LENGTH('a) \<and> j < read \<and> bitb (view h d) (B + j)) \<Longrightarrow>
    \<exists>r k. at_loop h d P bpn s read i res = Inr r \<and> bpn \<le> k \<and>
      (\<forall>j. bit r j \<longleftrightarrow> j < LENGTH('a) \<and> j < k \<and> bitb (view h d) (B + j))"
proof (induction "bpn - read" arbitrary: read i res rule: less_induct)
  case less
  show ?case
  proof (cases "read < bpn")
    case False
    then show ?thesis using less.prems(2) by (intro exI [of _ res] exI [of _ read]) (simp add: at_loop.simps)
  next
    case True
    have base: "B + s = 8 * unat P" using assms(2-5) by simp
    have p: "unat P + i < unat (m_len d)" using True assms(6) base less.prems(1) by linarith
    have "unat (of_nat i :: u64) = i"
      using p uba_inv_bounds [OF assms(1)] by (intro unat_of_nat_small) simp
    then have pi: "unat (P + of_nat i) = unat P + i"
      using p uba_inv_bounds [OF assms(1)] by (subst unat_add_nowrap) simp_all
    let ?b = "view h d ! (unat P + i)"
    let ?res = "res OR push_bit (8 * i + s) (ucast ?b :: 'a word)"
    have new: "bit ?res j \<longleftrightarrow> j < LENGTH('a) \<and> j < read + 8 \<and> bitb (view h d) (B + j)" for j
    proof (cases "read \<le> j \<and> j < read + 8")
      case True
      then obtain k where k: "j = read + k" "k < 8" using le_Suc_ex by force
      have "bit (ucast ?b :: 'a word) k \<longleftrightarrow> k < LENGTH('a) \<and> bitb (view h d) (8 * (unat P + i) + k)"
        using byte_bit [of "view h d" "unat P + i" k] k by (auto simp: bit_ucast_iff)
      moreover have "8 * (unat P + i) + k = B + j" using base less.prems(1) k by simp
      moreover have "\<not> bit res j" using k less.prems(2) by simp
      ultimately show ?thesis using k less.prems(1)
        by (auto simp: bit_or_iff bit_push_bit_iff add.assoc)
    next
      case False
      show ?thesis
      proof (cases "j < read")
        case True
        then show ?thesis using less.prems(1) by (simp add: bit_or_iff bit_push_bit_iff less.prems(2))
      next
        case False
        then have "8 \<le> j - (8 * i + s)" using \<open>\<not> (read \<le> j \<and> j < read + 8)\<close> less.prems(1) by linarith
        then have "\<not> bit ?b (j - (8 * i + s))" using bit_imp_le_length [of ?b] by fastforce
        then have "\<not> bit (ucast ?b :: 'a word) (j - (8 * i + s))" by (simp add: bit_ucast_iff)
        moreover have "\<not> j < read" "\<not> j < read + 8"
          using False \<open>\<not> (read \<le> j \<and> j < read + 8)\<close> by linarith+
        ultimately show ?thesis by (simp add: bit_or_iff bit_push_bit_iff less.prems(2))
      qed
    qed
    have "bpn - (read + 8) < bpn - read" using True by simp
    moreover have "read + 8 = s + 8 * (i + 1)" using less.prems(1) by simp
    ultimately obtain r k where
      *: "at_loop h d P bpn s (read + 8) (i + 1) ?res = Inr r" "bpn \<le> k"
        "\<forall>j. bit r j \<longleftrightarrow> j < LENGTH('a) \<and> j < k \<and> bitb (view h d) (B + j)"
      using less.hyps [OF _ _ new] by blast
    have "at_loop h d P bpn s read i res = Inr r"
      using True * at_spec(1) [OF assms(1), of "P + of_nat i"] p pi
      by (simp add: at_loop.simps [of h d P bpn s read])
    then show ?thesis using * by blast
  qed
qed

lemma at_start_spec:
  fixes m :: "'a::len word"
  assumes "uba_inv h d" "B = 8 * unat P + unat s" "unat s < 8" "B + bpn \<le> 8 * unat (m_len d)" "0 < bpn" "8 \<le> LENGTH('a)"
  shows "\<exists>r. bindE (uba_at h d P) (\<lambda>b. at_loop h d (P + 1) bpn (8 - unat s) (8 - unat s) 0 (drop_bit (unat s) (ucast b :: 'a word)))
    = Inr r \<and> r AND mask bpn = num_at (view h d) B bpn"
proof -
  have p: "unat P < unat (m_len d)" using assms(2-5) by linarith
  have p1: "unat (P + 1) = unat P + 1" using p uba_inv_bounds [OF assms(1)] by (subst unat_add_nowrap) simp_all
  let ?res = "drop_bit (unat s) (ucast (view h d ! unat P) :: 'a word)"
  have "bit ?res j \<longleftrightarrow> j < LENGTH('a) \<and> j < 8 - unat s \<and> bitb (view h d) (B + j)" for j
    using byte_bit [of "view h d" "unat P" "unat s + j"] assms(2,3,6)
    by (auto simp: bit_drop_bit_eq bit_ucast_iff add.assoc dest: bit_imp_le_length)
  note bits = this
  have e: "B = 8 * (unat (P + 1) - 1) + (8 - (8 - unat s))" using assms(2,3) p1 by simp
  have "0 < unat (P + 1)" "0 < 8 - unat s" "8 - unat s \<le> 8" "8 - unat s = (8 - unat s) + 8 * 0"
    using p1 assms(3) by simp_all
  from at_loop_spec [OF assms(1) e this(2,3,1) assms(4) this(4) bits] obtain r k where
    *: "at_loop h d (P + 1) bpn (8 - unat s) (8 - unat s) 0 ?res = Inr r" "bpn \<le> k"
      "\<forall>j. bit r j \<longleftrightarrow> j < LENGTH('a) \<and> j < k \<and> bitb (view h d) (B + j)" by blast
  have "r AND mask bpn = num_at (view h d) B bpn"
    using *(2) by (intro bit_word_eqI) (auto simp: bit_and_iff bit_mask_iff bit_num_at *(3) [rule_format])
  then show ?thesis using *(1) at_spec(1) [OF assms(1), of P] p by auto
qed

lemma ucast_num_at: "n \<le> LENGTH('b) \<Longrightarrow> (ucast (num_at bs B n :: 'b::len word) :: 'a::len word) = num_at bs B n"
  by (rule bit_word_eqI) (auto simp: bit_ucast_iff bit_num_at)

lemma position_bounds:
  assumes "uba_inv h d" "(unat pos + 1) * bpn \<le> 8 * unat (m_len d)" "0 < bpn"
  shows "unat pos * bpn div 8 < 2 ^ 64" "unat pos * bpn + bpn \<le> 8 * unat (m_len d)"
proof -
  show *: "unat pos * bpn + bpn \<le> 8 * unat (m_len d)" using assms(2) by simp
  then have "unat pos * bpn div 8 \<le> unat (m_len d)" by linarith
  then show "unat pos * bpn div 8 < 2 ^ 64" using unat_bound64 [of "m_len d"] by simp
qed

lemma VarBits_at_spec:
  assumes "uba_inv h d" "0 < unat bpn" "unat bpn \<le> 32" "(unat pos + 1) * unat bpn \<le> 8 * unat (m_len d)"
  shows "VarBits_at h d (mask (unat bpn)) bpn pos = Inr (num_at (view h d) (unat pos * unat bpn) (unat bpn))"
proof -
  note b = position_bounds [OF assms(1,4,2)]
  obtain P s where c: "calcBegin pos bpn = Inr (P, s)" "unat P = unat pos * unat bpn div 8"
    "unat s = unat pos * unat bpn mod 8" using calcBegin_spec [of bpn pos] assms(3) b(1) by auto
  have e: "unat pos * unat bpn = 8 * unat P + unat s" using c by simp
  obtain r where "bindE (uba_at h d P) (\<lambda>b. at_loop h d (P + 1) (unat bpn) (8 - unat s) (8 - unat s) 0
      (drop_bit (unat s) (ucast b :: u32))) = Inr r" "r AND mask (unat bpn) = num_at (view h d) (unat pos * unat bpn) (unat bpn)"
    using at_start_spec [OF assms(1) e, of "unat bpn", where 'a = 32] b c assms by auto
  then show ?thesis using assms(3)
    by (auto simp: VarBits_at_def c(1) Let_def ucast_num_at)
qed

lemma VarBits64_at_spec:
  assumes "uba_inv h d" "0 < unat bpn" "unat bpn \<le> 64" "(unat pos + 1) * unat bpn \<le> 8 * unat (m_len d)"
  shows "VarBits64_at h d (mask (unat bpn)) bpn pos = Inr (num_at (view h d) (unat pos * unat bpn) (unat bpn))"
proof -
  note b = position_bounds [OF assms(1,4,2)]
  obtain P s where c: "calcBegin pos bpn = Inr (P, s)" "unat P = unat pos * unat bpn div 8"
    "unat s = unat pos * unat bpn mod 8" using calcBegin_spec [of bpn pos] assms(3) b(1) by auto
  have e: "unat pos * unat bpn = 8 * unat P + unat s" using c by simp
  obtain r where "bindE (uba_at h d P) (\<lambda>b. at_loop h d (P + 1) (unat bpn) (8 - unat s) (8 - unat s) 0
      (drop_bit (unat s) (ucast b :: u64))) = Inr r" "r AND mask (unat bpn) = num_at (view h d) (unat pos * unat bpn) (unat bpn)"
    using at_start_spec [OF assms(1) e, of "unat bpn", where 'a = 64] b c assms by auto
  then show ?thesis by (auto simp: VarBits64_at_def c(1) Let_def)
qed

subsection \<open>Writing\<close>

lemma FF_mask: "(0xFF :: u64) = mask 8"
  by (simp add: mask_eq_exp_minus_1)

lemma bit_beyond: "take_bit n v = v \<Longrightarrow> bit (v :: 'a::len word) j \<Longrightarrow> j < n"
  by (metis bit_take_bit_iff)

lemmas byte_simps = bit_and_iff bit_or_iff bit_not_iff bit_ucast_iff bit_mask_iff bit_push_bit_iff bit_drop_bit_eq FF_mask

lemma single_byte:
  fixes v :: u64 and b :: u8
  assumes "s + n \<le> 8" "take_bit n v = v" "j < 8"
  shows "bit ((b AND ucast (ucast (ucast (mask s :: u32) :: u8) OR NOT (mask (s + n)) :: u32)) OR ucast (push_bit s v)) j
    \<longleftrightarrow> (if s \<le> j \<and> j < s + n then bit v (j - s) else bit b j)"
  using assms bit_beyond [OF assms(2), of "j - s"] by (auto simp: byte_simps)

lemma first_byte:
  fixes v :: u64 and b :: u8
  assumes "j < 8"
  shows "bit ((b AND ucast (mask s :: u32)) OR ucast (push_bit s v AND 0xFF)) j \<longleftrightarrow> (if s \<le> j then bit v (j - s) else bit b j)"
  using assms by (auto simp: byte_simps)

lemma middle_byte:
  fixes v :: u64
  assumes "j < 8"
  shows "bit (ucast (drop_bit c v AND 0xFF) :: u8) j \<longleftrightarrow> bit v (c + j)"
  using assms by (auto simp: byte_simps)

lemma last_byte:
  fixes v :: u64 and b :: u8
  assumes "j < 8" "l \<le> n" "take_bit n v = v"
  shows "bit (let b = ucast (ucast b AND NOT (mask l :: u32)) :: u8 in ucast (ucast b OR drop_bit (n - l) v) :: u8) j
    \<longleftrightarrow> (if j < l then bit v (n - l + j) else bit b j)"
  using assms(1,2) bit_beyond [OF assms(3), of "n - l + j"] by (auto simp: byte_simps Let_def)

lemma update_put_num:
  assumes "p < length V" "s + m \<le> 8"
    and "\<And>j. j < 8 \<Longrightarrow> bit b j = (if s \<le> j \<and> j < s + m then bit v (j - s) else bit (V ! p) j)"
  shows "V[p := b] = put_num V (8 * p + s) m v"
proof (rule bitb_ext)
  fix k assume "k < 8 * length (put_num V (8 * p + s) m v)"
  then have k: "k < 8 * length V" by simp
  show "bitb (V[p := b]) k = bitb (put_num V (8 * p + s) m v) k"
  proof (cases "k div 8 = p")
    case True
    then obtain j where j: "k = 8 * p + j" "j < 8" by (metis mod_less_divisor mult_div_mod_eq zero_less_numeral)
    then have "bitb (put_num V (8 * p + s) m v) k = (if s \<le> j \<and> j < s + m then bit v (j - s) else bit (V ! p) j)"
      using k by (simp add: bitb_put_num) (simp add: bitb_def)
    then show ?thesis using j assms(3) [of j] by (simp add: bitb_update [OF assms(1)])
  next
    case False
    then have nin: "\<not> (8 * p + s \<le> k \<and> k < 8 * p + s + m)" using assms(2) by (auto simp: div_nat_eqI)
    show ?thesis by (simp only: bitb_update [OF assms(1)] bitb_put_num [OF k] False nin if_False)
  qed
qed simp

lemma put_num_put_num:
  assumes "B + n1 + n2 \<le> 8 * length V"
  shows "put_num (put_num V B n1 v) (B + n1) n2 (drop_bit n1 v) = put_num V B (n1 + n2) v"
  by (rule bitb_ext) (auto simp: bitb_put_num bit_drop_bit_eq)

lemma put_num_0 [simp]: "put_num V B 0 v = V"
  by (rule bitb_ext) (auto simp: bitb_put_num)

lemma set_middle_spec:
  assumes "uba_inv h d" "s < 8" "l < 8" "n + s = 8 * q + l" "unat P + q \<le> unat (m_len d)"
  shows "length V = unat (m_len d) \<Longrightarrow> 1 \<le> c \<Longrightarrow> c \<le> q \<Longrightarrow>
    set_middle (rewrite h d V) d P n l v (8 * c - s) c =
      Inr (rewrite h d (put_num V (8 * (unat P + c)) (8 * (q - c)) (drop_bit (8 * c - s) v)), q)"
proof (induction "q - c" arbitrary: c V)
  case 0
  then have "c = q" by simp
  moreover have "\<not> 8 * q - s + l < n" using assms(4) by linarith
  ultimately show ?case by (simp add: set_middle.simps)
next
  case (Suc m)
  have lt: "8 * c - s + l < n" using Suc.hyps(2) Suc.prems assms(2,4) by linarith
  have p: "unat P + c < unat (m_len d)" using Suc.hyps(2) assms(5) by linarith
  have "unat (of_nat c :: u64) = c" using p uba_inv_bounds [OF assms(1)] by (intro unat_of_nat_small) simp
  then have pc: "unat (P + of_nat c) = unat P + c" using p uba_inv_bounds [OF assms(1)] by (subst unat_add_nowrap) simp_all
  let ?V = "put_num V (8 * (unat P + c)) 8 (drop_bit (8 * c - s) v)"
  have "V[unat P + c := ucast (drop_bit (8 * c - s) v AND 0xFF)] = put_num V (8 * (unat P + c) + 0) 8 (drop_bit (8 * c - s) v)"
    using p Suc.prems(1) by (intro update_put_num) (simp_all add: middle_byte bit_drop_bit_eq)
  then have "modify (rewrite h d V) d (P + of_nat c) (\<lambda>_. ucast (drop_bit (8 * c - s) v AND 0xFF)) = Inr (rewrite h d ?V)"
    using modify_spec [OF assms(1) Suc.prems(1), of "P + of_nat c"] p Suc.prems(1) by (simp add: pc)
  moreover have "set_middle (rewrite h d ?V) d P n l v (8 * (c + 1) - s) (c + 1) =
      Inr (rewrite h d (put_num ?V (8 * (unat P + (c + 1))) (8 * (q - (c + 1))) (drop_bit (8 * (c + 1) - s) v)), q)"
    using Suc.hyps(2) Suc.prems by (intro Suc.hyps(1)) simp_all
  moreover have "8 * c - s + 8 = 8 * (c + 1) - s" using Suc.prems(2) assms(2) by arith
  moreover have "put_num ?V (8 * (unat P + (c + 1))) (8 * (q - (c + 1))) (drop_bit (8 * (c + 1) - s) v)
      = put_num V (8 * (unat P + c)) (8 * (q - c)) (drop_bit (8 * c - s) v)"
  proof -
    have "8 * (unat P + c) + 8 + 8 * (q - (c + 1)) \<le> 8 * length V" using Suc.hyps(2) Suc.prems(1) assms(5) by arith
    from put_num_put_num [OF this, of "drop_bit (8 * c - s) v"]
    have "put_num ?V (8 * (unat P + c) + 8) (8 * (q - (c + 1))) (drop_bit 8 (drop_bit (8 * c - s) v))
        = put_num V (8 * (unat P + c)) (8 + 8 * (q - (c + 1))) (drop_bit (8 * c - s) v)" .
    moreover have "8 * (unat P + c) + 8 = 8 * (unat P + (c + 1))" "8 + 8 * (q - (c + 1)) = 8 * (q - c)"
      using Suc.hyps(2) by simp_all
    moreover have "drop_bit 8 (drop_bit (8 * c - s) v) = drop_bit (8 * (c + 1) - s) v"
    proof -
      have "8 + (8 * c - s) = 8 * (c + 1) - s" using Suc.prems(2) assms(2) by arith
      then show ?thesis by (simp only: drop_bit_drop_bit)
    qed
    ultimately show ?thesis by (simp only:)
  qed
  ultimately show ?case using lt by (simp add: set_middle.simps [of "rewrite h d V"])
qed

lemma createMask_u8: "unat s < 8 \<Longrightarrow> createMask (ucast (s :: u8)) = mask (unat s)"
proof -
  assume s: "unat s < 8"
  have "(ucast s :: u32) = of_nat (unat s)" by (rule of_nat_eqI) (simp add: unat_ucast_up)
  then show ?thesis using createMask_mask [of "unat s"] s by simp
qed

lemma set_bits_spec:
  assumes "uba_inv h d" "length V = unat (m_len d)" "0 < unat bpn" "unat bpn \<le> 64" "take_bit (unat bpn) v = v"
    and "(unat pos + 1) * unat bpn \<le> 8 * unat (m_len d)"
  shows "set_bits (rewrite h d V) d bpn pos v = Inr (rewrite h d (put_num V (unat pos * unat bpn) (unat bpn) v))"
proof -
  let ?n = "unat bpn"
  note b = position_bounds [OF assms(1,6,3)]
  obtain P s where c: "calcBegin pos bpn = Inr (P, s)" "unat P = unat pos * ?n div 8" "unat s = unat pos * ?n mod 8"
    using calcBegin_spec [of bpn pos] assms(4) b(1) by auto
  have e: "unat pos * ?n = 8 * unat P + unat s" and s: "unat s < 8" using c by simp_all
  have P: "unat P < length V" using b(2) e assms(2,3) by linarith
  note m0 = createMask_u8 [OF s]
  show ?thesis
  proof (cases "unat s + ?n \<le> 8")
    case True
    have "(ucast s :: u32) + bpn = of_nat (unat s + ?n)" by (simp add: of_nat_eqI unat_ucast_up)
    then have m: "createMask (ucast s + bpn) = mask (unat s + ?n)" using createMask_mask [of "unat s + ?n"] True by simp
    show ?thesis using True P assms(5)
      unfolding set_bits_def c(1) e
      by (simp add: m0 m modify_spec [OF assms(1,2)] update_put_num [where m = ?n] single_byte)
  next
    case False
    define l where "l = (?n + unat s) mod 8"
    define q where "q = (?n + unat s) div 8"
    have q: "?n + unat s = 8 * q + l" "l < 8" "1 \<le> q" using False by (simp_all add: l_def q_def)
    have lq: "unat P + q \<le> unat (m_len d)" "l \<le> ?n" using b(2) e q s by linarith+
    let ?V1 = "put_num V (8 * unat P + unat s) (8 - unat s) v"
    have 1: "modify (rewrite h d V) d P
        (\<lambda>b. (b AND ucast (createMask (ucast s))) OR ucast (push_bit (unat s) v AND 0xFF)) = Inr (rewrite h d ?V1)"
    proof -
      have "V[unat P := (V ! unat P AND ucast (mask (unat s) :: u32)) OR ucast (push_bit (unat s) v AND 0xFF)] = ?V1"
        using P s by (intro update_put_num) (simp_all only: first_byte, simp_all)
      then show ?thesis using P by (simp add: m0 modify_spec [OF assms(1,2)])
    qed
    let ?V2 = "put_num ?V1 (8 * (unat P + 1)) (8 * (q - 1)) (drop_bit (8 - unat s) v)"
    have 2: "set_middle (rewrite h d ?V1) d P ?n l v (8 - unat s) 1 = Inr (rewrite h d ?V2, q)"
      using set_middle_spec [OF assms(1) s q(2,1) lq(1), of ?V1 1 v] assms(2) q(3) by simp
    have V2: "?V2 = put_num V (8 * unat P + unat s) (8 - unat s + 8 * (q - 1)) v"
    proof -
      have "8 * unat P + unat s + (8 - unat s) + 8 * (q - 1) \<le> 8 * length V" using assms(2) lq(1) s q(3) by linarith
      from put_num_put_num [OF this, of v] show ?thesis using s by (simp add: add.commute)
    qed
    have nl: "8 - unat s + 8 * (q - 1) = ?n - l" using q s by linarith
    show ?thesis
    proof (cases "0 < l")
      case False
      then show ?thesis using 1 2 nl V2 \<open>\<not> unat s + ?n \<le> 8\<close>
        unfolding set_bits_def c(1) e by (simp add: flip: l_def)
    next
      case True
      have pq: "unat P + q < unat (m_len d)" using b(2) e q True by linarith
      have "unat (of_nat q :: u64) = q" using pq uba_inv_bounds [OF assms(1)] by (intro unat_of_nat_small) simp
      then have uq: "unat (P + of_nat q) = unat P + q" using pq uba_inv_bounds [OF assms(1)] by (subst unat_add_nowrap) simp_all
      let ?f = "\<lambda>b. let b = ucast (ucast b AND NOT (mask l :: u32)) :: u8 in ucast (ucast b OR drop_bit (?n - l) v) :: u8"
      have "?V2[unat P + q := ?f (?V2 ! (unat P + q))] = put_num ?V2 (8 * (unat P + q) + 0) l (drop_bit (?n - l) v)"
        using pq assms(2) q(2) last_byte [OF _ lq(2) assms(5)]
        by (intro update_put_num) (simp_all add: bit_drop_bit_eq)
      moreover have "put_num ?V2 (8 * (unat P + q)) l (drop_bit (?n - l) v) = put_num V (8 * unat P + unat s) ?n v"
      proof -
        have "8 * unat P + unat s + (?n - l) + l \<le> 8 * length V" using b(2) e assms(2) lq(2) by linarith
        from put_num_put_num [OF this, of v]
        have "put_num (put_num V (8 * unat P + unat s) (?n - l) v) (8 * unat P + unat s + (?n - l)) l (drop_bit (?n - l) v)
            = put_num V (8 * unat P + unat s) ?n v" using lq(2) by simp
        moreover have "8 * unat P + unat s + (?n - l) = 8 * (unat P + q)" using q lq(2) by arith
        ultimately show ?thesis by (simp only: V2 nl)
      qed
      ultimately have 3: "modify (rewrite h d ?V2) d (P + of_nat q) ?f = Inr (rewrite h d (put_num V (8 * unat P + unat s) ?n v))"
        using modify_spec [OF assms(1), of ?V2 "P + of_nat q" ?f] pq assms(2) by (simp add: uq)
      have "createMask (of_nat l) = mask l" using q(2) by (intro createMask_mask) simp
      then show ?thesis using 1 2 3 \<open>\<not> unat s + ?n \<le> 8\<close> True
        unfolding set_bits_def c(1) e by (simp add: flip: l_def)
    qed
  qed
qed

end
