(* ===== verification/AdapterCopy.thy ===== *)
theory AdapterCopy
  imports CompactUintArray
begin

text \<open>
  The operations of \<open>UByteArrayAdapter\<close> (\<open>src/storage/UByteArrayAdapter.cpp\<close>) on whole ranges of bytes:
  clearing and filling, copying the bytes of another adapter, and creating storage in program memory.
  A pointer into the storage behind an adapter is the window it points into; \<open>memset\<close> and \<open>put\<close> through it
  replace bytes there.
\<close>

section \<open>The code\<close>

text \<open>\<open>::memset(&operator[](pos), value, n)\<close>\<close>

definition uba_memset :: "heap \<Rightarrow> uba \<Rightarrow> u64 \<Rightarrow> u8 \<Rightarrow> u64 \<Rightarrow> heap res" where
  "uba_memset h u pos v n =
     bindE (range_check u pos 1) (\<lambda>_.
     bindE (priv_put (storage h u) (m_offSet u + pos) (replicate (unat n) v)) (\<lambda>p. Inr (h(m_priv u := p))))"

text \<open>
  The loops of \<open>zero\<close> and \<open>fill\<close> for storage that is not contiguous: one buffer after the other up to the end of
  the window. The position advances by the size of the buffer, which in \<open>fill\<close> is 0 for a length of 0.
\<close>

partial_function (option) fill_loop :: "heap \<Rightarrow> uba \<Rightarrow> u8 \<Rightarrow> u32 \<Rightarrow> u64 \<Rightarrow> heap res option" where
  "fill_loop h u v bufLen i =
     (if i < m_len u then
        (case uba_putData h u i (replicate (unat (min (m_len u - i) (ucast bufLen))) v) of
           Inl e \<Rightarrow> Some (Inl e)
         | Inr h \<Rightarrow> fill_loop h u v bufLen (i + ucast bufLen))
      else Some (Inr h))"

definition uba_zero :: "heap \<Rightarrow> uba \<Rightarrow> heap res option" where
  "uba_zero h u =
     (if isContiguous (storage h u) then Some (uba_memset h u 0 0 (m_len u)) else fill_loop h u 0 0x100000 0)"

definition uba_fill :: "heap \<Rightarrow> uba \<Rightarrow> u8 \<Rightarrow> u64 \<Rightarrow> u64 \<Rightarrow> heap res option" where
  "uba_fill h u v begin len =
     (if begin > m_len u then Some (Inr h)
      else if isContiguous (storage h u) then Some (uba_memset h u begin v (min len (m_len u - begin)))
      else fill_loop h u v (ucast (min len 0x400000)) begin)"

lemma block_step:
  fixes i n k :: u64
  assumes "i < n" "0 < k"
  shows "unat (i + min (n - i) (min n k)) = unat i + unat (min (n - i) (min n k))"
    "unat i + unat (min (n - i) (min n k)) \<le> unat n" "0 < unat (min (n - i) (min n k))"
    "unat n - unat (i + min (n - i) (min n k)) < unat n - unat i"
proof -
  let ?l = "min (n - i) (min n k)"
  have d: "unat (n - i) = unat n - unat i" using assms(1) by (intro unat_sub) (simp add: word_less_nat_alt word_le_nat_alt)
  have "unat ?l \<le> unat (n - i)" unfolding word_le_nat_alt [symmetric] by simp
  then show le: "unat i + unat ?l \<le> unat n" using assms(1) d by (simp add: word_less_nat_alt)
  then show a: "unat (i + ?l) = unat i + unat ?l" using unat_bound64 [of n] by (intro unat_add_nowrap) simp
  have "0 < n - i" using d assms(1) by (simp add: word_less_nat_alt)
  moreover have "0 < n" using assms(1) by (rule order.strict_trans1 [rotated]) simp
  ultimately have "0 < ?l" using assms(2) by (simp add: min_def)
  then show "0 < unat ?l" by (simp add: word_less_nat_alt)
  then show "unat n - unat (i + ?l) < unat n - unat i"
    unfolding a using le by (intro diff_less_mono2) simp_all
qed

text \<open>
  Copying the bytes of an adapter. With contiguous storage they are copied once through a
  pointer to them, and then, as for other storage, once more in blocks of at most 4 MiB. A pointer to bytes that are
  not contiguous must not be read from.
\<close>

function copy_loop :: "heap \<Rightarrow> uba \<Rightarrow> u64 \<Rightarrow> uba \<Rightarrow> u64 \<Rightarrow> heap res" where
  "copy_loop h u pos data i =
     (if i < m_len data then
        let bufLen = min (m_len data) 0x400000; len = min (m_len data - i) bufLen
        in bindE (uba_getData h data i (replicate (unat bufLen) 0) len) (\<lambda>(buf, _).
           bindE (uba_putData h u (pos + i) (take (unat len) buf)) (\<lambda>h. copy_loop h u pos data (i + len)))
      else Inr h)"
  by pat_completeness auto
termination
  by (relation "measure (\<lambda>(h, u, pos, data, i). unat (m_len data) - unat i)") (use block_step(4) in simp_all)

declare copy_loop.simps [simp del]

definition uba_putData_adapter :: "heap \<Rightarrow> uba \<Rightarrow> u64 \<Rightarrow> uba \<Rightarrow> heap res" where
  "uba_putData_adapter h u pos data =
     (if m_len data = 0 then Inr h
      else bindE (range_check u pos (m_len data)) (\<lambda>_.
           bindE (if isContiguous (storage h u) then
                    bindE (range_check data 0 1) (\<lambda>_.
                      if isContiguous (storage h data) then uba_putData h u pos (view h data) else Inl MemFault)
                  else Inr h) (\<lambda>h. copy_loop h u pos data 0)))"

definition stream_putData_adapter :: "heap \<Rightarrow> uba \<Rightarrow> uba \<Rightarrow> (heap \<times> uba) res" where
  "stream_putData_adapter h u data =
     (let needSize = m_len data
      in bindE (resizeForPush h u (m_putPtr u) needSize) (\<lambda>(ok, h, u).
           if \<not> ok then Inl IOException
           else bindE (uba_putData_adapter h u (m_putPtr u) data) (\<lambda>h. Inr (h, u\<lparr>m_putPtr := m_putPtr u + needSize\<rparr>))))"

text \<open>\<open>createCache\<close> for \<open>MM_PROGRAM_MEMORY\<close>; \<open>r\<close> is the address of the new storage.\<close>

definition createCache :: "heap \<Rightarrow> nat \<Rightarrow> u64 \<Rightarrow> (heap \<times> uba) res" where
  "createCache h r n =
     (let n = (if n = 0 then 1 else n)
      in if unat n > max_size then Inl StdLengthError
         else Inr (h(r := \<lparr>kind = VectorB, mem = replicate (unat n) 0\<rparr>), uba_of_priv r 0 n))"

section \<open>What they do to the window\<close>

lemma getData_general:
  assumes "uba_inv h u" "unat pos + unat len \<le> unat (m_len u)" "unat len \<le> length dest"
  shows "uba_getData h u pos dest len = Inr (chunk (unat pos) (unat len) (view h u) @ drop (unat len) dest, len)"
proof -
  note b = uba_inv_bounds [OF assms(1)]
  have s: "unat (pos + len) = unat pos + unat len" using b assms(2) by (intro unat_add_nowrap) simp
  have "chunk (unat (m_offSet u) + unat pos) (unat len) (mem (storage h u)) = chunk (unat pos) (unat len) (view h u)"
    unfolding view_def using assms(2) by (simp add: chunk_chunk)
  then show ?thesis using assms b s offset_sum [OF assms(1), of pos]
    by (simp add: uba_getData_def range_check_cases word_less_nat_alt priv_get_ok)
qed

lemma upd_again:
  assumes "uba_inv h u" "unat pos + length bs \<le> unat (m_len u)"
  shows "upd (upd h u pos bs) u pos bs = upd h u pos bs"
proof -
  have "unat (m_offSet u) + unat pos + length bs \<le> length (mem (storage h u))"
    using uba_inv_bounds [OF assms(1)] assms(2) by simp
  then show ?thesis by (simp add: upd_def storage_def blit_def)
qed

lemma chunk_drop: "chunk i n xs @ drop (i + n) xs = drop i xs"
  using append_take_drop_id [of n "drop i xs"] by (simp add: chunk_def add.commute)

lemma copy_loop_spec:
  assumes "m_priv data \<noteq> m_priv u" "unat pos + unat (m_len data) \<le> unat (m_len u)"
  shows "uba_inv g u \<Longrightarrow> uba_inv g data \<Longrightarrow> i \<le> m_len data \<Longrightarrow>
    copy_loop g u pos data i = Inr (upd g u (pos + i) (drop (unat i) (view g data)))"
proof (induction "unat (m_len data) - unat i" arbitrary: g i rule: less_induct)
  case less
  note b = uba_inv_bounds [OF less.prems(1)]
  show ?case
  proof (cases "i < m_len data")
    case False
    then have "i = m_len data" using less.prems(3) by simp
    then show ?thesis using less.prems by (subst copy_loop.simps) simp
  next
    case True
    let ?k = "min (m_len data) 0x400000"
    let ?l = "min (m_len data - i) ?k"
    let ?V = "view g data"
    note st = block_step [OF True, of "0x400000", simplified]
    have "unat ?l \<le> unat ?k" unfolding word_le_nat_alt [symmetric] by (rule min.cobounded2)
    then have G: "uba_getData g data i (replicate (unat ?k) 0) ?l =
        Inr (chunk (unat i) (unat ?l) ?V @ drop (unat ?l) (replicate (unat ?k) 0), ?l)"
      using getData_general [OF less.prems(2) st(2), of "replicate (unat ?k) 0"] by simp
    have len: "length (chunk (unat i) (unat ?l) ?V) = unat ?l"
      using st(2) less.prems(2) by (simp add: length_chunk)
    have pi: "unat (pos + i) = unat pos + unat i"
      using assms(2) less.prems(3) b by (intro unat_add_nowrap) (simp add: word_le_nat_alt)
    have fit: "unat (pos + i) + length (chunk (unat i) (unat ?l) ?V) \<le> unat (m_len u)"
      using st(2) assms(2) unfolding pi len by linarith
    let ?g = "upd g u (pos + i) (chunk (unat i) (unat ?l) ?V)"
    have P: "uba_putData g u (pos + i) (chunk (unat i) (unat ?l) ?V) = Inr ?g"
      by (rule putData_spec [OF less.prems(1) fit])
    have inv: "uba_inv ?g u" "uba_inv ?g data"
      using inv_upd [OF less.prems(1) fit] less.prems(1,2) by blast+
    have v: "view ?g data = ?V"
      using view_upd_other [OF less.prems(1) fit less.prems(2)] assms(1) by simp
    have "i + ?l \<le> m_len data" using st(1,2) by (simp add: word_le_nat_alt)
    then have C: "copy_loop ?g u pos data (i + ?l) = Inr (upd ?g u (pos + (i + ?l)) (drop (unat (i + ?l)) ?V))"
      using less.hyps [OF _ inv] st(4) v by simp
    have U: "upd ?g u (pos + (i + ?l)) (drop (unat (i + ?l)) ?V) =
        upd g u (pos + i) (chunk (unat i) (unat ?l) ?V @ drop (unat (i + ?l)) ?V)"
    proof (rule upd_upd [OF less.prems(1)])
      show "unat (pos + i) + length (chunk (unat i) (unat ?l) ?V) + length (drop (unat (i + ?l)) ?V) \<le> unat (m_len u)"
        using st(1,2) assms(2) less.prems(2) unfolding pi len by simp
      show "unat (pos + (i + ?l)) = unat (pos + i) + length (chunk (unat i) (unat ?l) ?V)"
        using fit b unfolding len add.assoc [symmetric] by (subst unat_add_nowrap) simp_all
    qed
    have D: "chunk (unat i) (unat ?l) ?V @ drop (unat (i + ?l)) ?V = drop (unat i) ?V"
      unfolding st(1) by (rule chunk_drop)
    have T: "take (unat ?l) (chunk (unat i) (unat ?l) ?V @ drop (unat ?l) (replicate (unat ?k) 0)) = chunk (unat i) (unat ?l) ?V"
      by (simp only: take_append len diff_self_eq_0 take_0 append_Nil2) (simp only: chunk_def take_take min.idem)
    have "copy_loop g u pos data i = copy_loop ?g u pos data (i + ?l)"
      unfolding copy_loop.simps [of g] Let_def if_P [OF True] G bindE_simps prod.case T P ..
    then show ?thesis unfolding C U D .
  qed
qed

lemma putData_adapter_spec:
  assumes "uba_inv h u" "uba_inv h data" "m_priv data \<noteq> m_priv u" "unat pos + unat (m_len data) \<le> unat (m_len u)"
    and "isContiguous (storage h u) \<longrightarrow> isContiguous (storage h data)"
  shows "uba_putData_adapter h u pos data = Inr (upd h u pos (view h data))"
proof (cases "m_len data = 0")
  case True
  then have "view h data = []" using length_view [OF assms(2)] by simp
  then show ?thesis using True by (simp add: uba_putData_adapter_def)
next
  case False
  note b = uba_inv_bounds [OF assms(1)]
  have fit: "unat pos + length (view h data) \<le> unat (m_len u)" using assms(2,4) by simp
  have "range_check u pos (m_len data) = Inr ()" using assms(4) b by (simp add: range_check_cases)
  moreover have "range_check data 0 1 = Inr ()" using False by (simp add: range_check_cases unat_gt_0 Suc_leI)
  moreover have "uba_putData h u pos (view h data) = Inr (upd h u pos (view h data))" by (rule putData_spec [OF assms(1) fit])
  moreover let ?g = "upd h u pos (view h data)"
  have "uba_inv ?g u" "uba_inv ?g data" "view ?g data = view h data"
    using inv_upd [OF assms(1) fit] view_upd_other [OF assms(1) fit assms(2)] assms(1-3) by auto
  then have "copy_loop ?g u pos data 0 = Inr ?g"
    using copy_loop_spec [OF assms(3,4), of ?g 0] upd_again [OF assms(1) fit] by simp
  moreover have "copy_loop h u pos data 0 = Inr ?g" using copy_loop_spec [OF assms(3,4,1,2), of 0] by simp
  ultimately show ?thesis using False assms(5) by (simp add: uba_putData_adapter_def)
qed

lemma memset_spec:
  assumes "uba_inv h u" "unat pos < unat (m_len u)" "unat pos + unat n \<le> unat (m_len u)"
  shows "uba_memset h u pos v n = Inr (upd h u pos (replicate (unat n) v))"
  using assms uba_inv_bounds [OF assms(1)] offset_sum [OF assms(1), of pos]
  by (simp add: uba_memset_def range_check_cases priv_put_ok upd_def)

text \<open>The loop with a buffer of at least one byte fills everything up to the end of the window, and with an empty one
  it never returns.\<close>

lemma fill_loop_spec:
  assumes "0 < unat bufLen"
  shows "uba_inv g u \<Longrightarrow> unat i < 2 ^ 63 + 2 ^ 32 \<Longrightarrow>
    fill_loop g u v bufLen i = Some (Inr (upd g u i (replicate (unat (m_len u) - unat i) v)))"
proof (induction "unat (m_len u) - unat i" arbitrary: g i rule: less_induct)
  case less
  note b = uba_inv_bounds [OF less.prems(1)]
  show ?case
  proof (cases "i < m_len u")
    case False
    then show ?thesis by (subst fill_loop.simps) (simp add: word_less_nat_alt)
  next
    case True
    let ?n = "min (m_len u - i) (ucast bufLen)"
    have d: "unat (m_len u - i) = unat (m_len u) - unat i" using True by (intro unat_sub) (simp add: word_le_nat_alt word_less_nat_alt)
    have uc: "unat (ucast bufLen :: u64) = unat bufLen" by (rule unat_ucast_up) simp
    have n: "unat ?n = min (unat (m_len u) - unat i) (unat bufLen)"
      unfolding min_def word_le_nat_alt d uc by (simp add: d uc)
    have lt: "unat i < unat (m_len u)" using True by (simp add: word_less_nat_alt)
    then have fit: "unat i + length (replicate (unat ?n) v) \<le> unat (m_len u)" unfolding n by simp
    let ?g = "upd g u i (replicate (unat ?n) v)"
    have put: "uba_putData g u i (replicate (unat ?n) v) = Inr ?g" by (rule putData_spec [OF less.prems(1) fit])
    have inv: "uba_inv ?g u" using inv_upd [OF less.prems(1) fit less.prems(1)] .
    have bl: "unat bufLen < 2 ^ 32" using unat_bound [of bufLen] by simp
    then have s: "unat (i + ucast bufLen) = unat i + unat bufLen"
      unfolding uc [symmetric] using lt b by (intro unat_add_nowrap) (simp add: uc)
    then have "fill_loop ?g u v bufLen (i + ucast bufLen) =
        Some (Inr (upd ?g u (i + ucast bufLen) (replicate (unat (m_len u) - unat (i + ucast bufLen)) v)))"
      using less.hyps [OF _ inv, of "i + ucast bufLen"] lt assms bl b by simp
    moreover have "upd ?g u (i + ucast bufLen) (replicate (unat (m_len u) - unat (i + ucast bufLen)) v) =
        upd g u i (replicate (unat (m_len u) - unat i) v)"
    proof (cases "unat bufLen \<le> unat (m_len u) - unat i")
      case True
      then have "upd ?g u (i + ucast bufLen) (replicate (unat (m_len u) - unat (i + ucast bufLen)) v) =
          upd g u i (replicate (unat ?n) v @ replicate (unat (m_len u) - unat (i + ucast bufLen)) v)"
        using lt s n by (intro upd_upd [OF less.prems(1)]) simp_all
      then show ?thesis using True s n lt by (simp flip: replicate_add)
    next
      case False
      then have "unat (m_len u) - unat (i + ucast bufLen) = 0" "unat ?n = unat (m_len u) - unat i" using s n by simp_all
      then show ?thesis by simp
    qed
    ultimately show ?thesis using True put by (subst fill_loop.simps) simp
  qed
qed

lemma fill_loop_diverges:
  assumes "uba_inv g u" "i < m_len u"
  shows "fill_loop g u v 0 i = None"
proof (rule ccontr)
  assume "fill_loop g u v 0 i \<noteq> None"
  then obtain r where "fill_loop g u v 0 i = Some r" by blast
  moreover have "fill_loop g u v n i = Some r \<Longrightarrow> \<not> (n = 0 \<and> i < m_len u)" for g u v n i r
    by (rule fill_loop.raw_induct [of "\<lambda>g u v n i r. \<not> (n = 0 \<and> i < m_len u)"])
      (auto simp: uba_putData_def split: sum.splits if_splits)
  ultimately show False using assms(2) by blast
qed

text \<open>Growing leaves all other storage alone.\<close>

lemma growStorage_kind: "priv_growStorage p sz = Inr (ok, p') \<Longrightarrow> kind p' = kind p"
  by (auto simp: priv_growStorage_def array_growStorage_def vector_growStorage_def container_growStorage_def std_resize_def
      split: backend.splits if_splits)

lemma resizeForPush_frame:
  assumes "resizeForPush h u pos n = Inr (ok, h1, u1)"
  shows "m_priv u1 = m_priv u" "kind (storage h1 u1) = kind (storage h u)"
    "m_priv w \<noteq> m_priv u \<Longrightarrow> storage h1 w = storage h w"
  using assms
  by (auto simp: resizeForPush_def uba_growStorage_def storage_def growStorage_kind split: if_splits)

text \<open>Writes leave other storage alone.\<close>

lemma storage_upd_other: "m_priv w \<noteq> m_priv u \<Longrightarrow> storage (upd h u pos bs) w = storage h w"
  by (simp add: upd_def storage_def)

lemma stream_putData_adapter_ok:
  assumes "uba_inv h u" "uba_inv h data" "m_priv data \<noteq> m_priv u"
    and "isContiguous (storage h u) \<longrightarrow> isContiguous (storage h data)" and p: "pushable h u (unat (m_len data))"
  shows "\<exists>h' u'. stream_putData_adapter h u data = Inr (h', u') \<and> appended h u (view h data) h' u' \<and>
    kind (storage h' u') = kind (storage h u) \<and> (\<forall>w. m_priv w \<noteq> m_priv u \<longrightarrow> storage h' w = storage h w)"
proof -
  let ?bs = "view h data"
  have l: "length ?bs = unat (m_len data)" using assms(2) by simp
  have p': "pushable h u (length ?bs)" using p l by simp
  from push_spec [OF p' l [symmetric]] obtain h1 u1 where
    *: "resizeForPush h u (m_putPtr u) (m_len data) = Inr (True, h1, u1)" "m_putPtr u1 = m_putPtr u"
      "uba_inv h1 u1" "unat (m_putPtr u) + length ?bs \<le> unat (m_len u1)"
      "appended h u ?bs (upd h1 u1 (m_putPtr u) ?bs) (u1\<lparr>m_putPtr := m_putPtr u + m_len data\<rparr>)"
    by (elim exE conjE) (rule that)
  note o = resizeForPush_frame [OF *(1)]
  have s: "storage h1 data = storage h data" using o(3) assms(3) by simp
  then have d: "uba_inv h1 data" "view h1 data = ?bs" using assms(2) by (simp_all add: uba_inv_def view_def)
  have k: "isContiguous (storage h1 u1) \<longrightarrow> isContiguous (storage h1 data)" using o(2) assms(4) s by (simp add: isContiguous_def)
  have "m_priv data \<noteq> m_priv u1" using o(1) assms(3) by simp
  from putData_adapter_spec [OF *(3) d(1) this _ k, of "m_putPtr u"]
  have "uba_putData_adapter h1 u1 (m_putPtr u) data = Inr (upd h1 u1 (m_putPtr u) ?bs)" using *(4) l d(2) by simp
  then have "stream_putData_adapter h u data = Inr (upd h1 u1 (m_putPtr u) ?bs, u1\<lparr>m_putPtr := m_putPtr u + m_len data\<rparr>)"
    using * by (simp add: stream_putData_adapter_def)
  moreover have "\<forall>w. m_priv w \<noteq> m_priv u \<longrightarrow> storage (upd h1 u1 (m_putPtr u) ?bs) w = storage h w"
    using resizeForPush_frame(3) [OF *(1)] o(1) by (simp add: storage_upd_other)
  ultimately show ?thesis using *(5) o(1,2) by (auto simp: storage_upd)
qed

lemma priv_put_kind: "priv_put p pos bs = Inr q \<Longrightarrow> kind q = kind p"
  by (auto simp: priv_put_def array_put_def container_put_def split: backend.splits if_splits)

lemma putUint32_kind: "priv_putUint32 p pos v = Inr q \<Longrightarrow> kind q = kind p"
  by (auto simp: priv_putUint32_def array_putUint32_def container_putUint32_def array_put_def container_put_def split: backend.splits if_splits)

lemma stream_putData_frame:
  assumes "stream_putData h u bs = Inr (h', u')"
  shows "kind (storage h' u') = kind (storage h u)" "m_priv w \<noteq> m_priv u \<Longrightarrow> storage h' w = storage h w"
proof -
  from assms obtain h1 u1 where
    1: "resizeForPush h u (m_putPtr u) (of_nat (length bs)) = Inr (True, h1, u1)" "uba_putData h1 u1 (m_putPtr u1) bs = Inr h'"
      "m_priv u' = m_priv u1"
    by (auto simp: stream_putData_def Let_def split: if_splits)
  note f = resizeForPush_frame [OF 1(1)]
  have "kind (storage h' u1) = kind (storage h1 u1)" "m_priv w \<noteq> m_priv u1 \<Longrightarrow> storage h' w = storage h1 w"
    using 1(2) priv_put_kind by (auto simp: uba_putData_def storage_def split: if_splits)
  then show "kind (storage h' u') = kind (storage h u)" "m_priv w \<noteq> m_priv u \<Longrightarrow> storage h' w = storage h w"
    using f 1(3) by (simp_all add: storage_def)
qed

lemma stream_putUint32_frame:
  assumes "stream_putUint32 h u v = Inr (h', u')"
  shows "kind (storage h' u') = kind (storage h u)" "m_priv w \<noteq> m_priv u \<Longrightarrow> storage h' w = storage h w"
proof -
  from assms obtain h1 u1 where
    1: "resizeForPush h u (m_putPtr u) 4 = Inr (True, h1, u1)" "uba_putUint32 h1 u1 (m_putPtr u1) v = Inr h'" "m_priv u' = m_priv u1"
    by (auto simp: stream_putUint32_def streaming_put_def split: if_splits)
  note f = resizeForPush_frame [OF 1(1)]
  have "kind (storage h' u1) = kind (storage h1 u1)" "m_priv w \<noteq> m_priv u1 \<Longrightarrow> storage h' w = storage h1 w"
    using 1(2) putUint32_kind by (auto simp: uba_putUint32_def store_at_def storage_def split: if_splits)
  then show "kind (storage h' u') = kind (storage h u)" "m_priv w \<noteq> m_priv u \<Longrightarrow> storage h' w = storage h w"
    using f 1(3) by (simp_all add: storage_def)
qed

lemma stream_putVl_frame:
  assumes "stream_putVlPackedUint32 h u v = Inr (n, h', u')"
  shows "kind (storage h' u') = kind (storage h u)" "m_priv w \<noteq> m_priv u \<Longrightarrow> storage h' w = storage h w"
proof -
  obtain tmp len where t: "p_vu32_int v 5 = (tmp, len)" by fastforce
  from assms show "kind (storage h' u') = kind (storage h u)" "m_priv w \<noteq> m_priv u \<Longrightarrow> storage h' w = storage h w"
    using stream_putData_frame [of h u "take (nat len) tmp" h' u'] t
    by (auto simp: stream_putVlPackedUint32_def streaming_putVl_def split: if_splits)
qed

section \<open>Properties\<close>

text \<open>Copying the bytes of an adapter on other storage to a position replaces exactly the bytes there, in one
  piece or in blocks, and appending them at the write position appends them; nothing else changes. The second copy that is made of
  contiguous bytes changes nothing.\<close>

theorem copy_refines_view:
  assumes "uba_inv h u" "uba_inv h data" "m_priv data \<noteq> m_priv u"
    and "isContiguous (storage h u) \<longrightarrow> isContiguous (storage h data)"
  shows "(unat pos + unat (m_len data) \<le> unat (m_len u) \<longrightarrow>
      (\<exists>h'. uba_putData_adapter h u pos data = Inr h' \<and> uba_inv h' u \<and> view h' data = view h data \<and>
        view h' u = blit (unat pos) (view h data) (view h u))) \<and>
    (pushable h u (unat (m_len data)) \<longrightarrow>
      (\<exists>h' u'. stream_putData_adapter h u data = Inr (h', u') \<and> appended h u (view h data) h' u'))"
proof (intro conjI impI)
  assume fit: "unat pos + unat (m_len data) \<le> unat (m_len u)"
  then have fit': "unat pos + length (view h data) \<le> unat (m_len u)" using assms(2) by simp
  show "\<exists>h'. uba_putData_adapter h u pos data = Inr h' \<and> uba_inv h' u \<and> view h' data = view h data \<and>
      view h' u = blit (unat pos) (view h data) (view h u)"
  proof (intro exI conjI)
    show "uba_putData_adapter h u pos data = Inr (upd h u pos (view h data))"
      by (rule putData_adapter_spec [OF assms(1-3) fit assms(4)])
    show "uba_inv (upd h u pos (view h data)) u" by (rule inv_upd [OF assms(1) fit' assms(1)])
    show "view (upd h u pos (view h data)) data = view h data"
      by (rule view_upd_other [OF assms(1) fit' assms(2)]) (use assms(3) in blast)
    show "view (upd h u pos (view h data)) u = blit (unat pos) (view h data) (view h u)"
      by (rule view_upd [OF assms(1) fit'])
  qed
next
  assume "pushable h u (unat (m_len data))"
  then show "\<exists>h' u'. stream_putData_adapter h u data = Inr (h', u') \<and> appended h u (view h data) h' u'"
    using stream_putData_adapter_ok [OF assms] by blast
qed

theorem copy_refines_view_witness:
  "\<exists>h'. uba_putData_adapter ((\<lambda>_. \<lparr>kind = VectorB, mem = [1, 2, 3]\<rparr>)(1 := \<lparr>kind = DequeB, mem = [7, 8, 9]\<rparr>))
      (uba_of_priv 1 0 3) 1 (uba_of_priv 0 1 2) = Inr h' \<and> view h' (uba_of_priv 1 0 3) = [7, 2, 3]"
  using copy_refines_view [of "(\<lambda>_. \<lparr>kind = VectorB, mem = [1, 2, 3]\<rparr>)(1 := \<lparr>kind = DequeB, mem = [7, 8, 9]\<rparr>)"
      "uba_of_priv 1 0 3" "uba_of_priv 0 1 2" 1]
  by (auto simp: uba_inv_def live_def storage_def uba_of_priv_def max_size_def isContiguous_def view_def chunk_def blit_def)

text \<open>Clearing sets every byte of the window to zero. Filling from a position inside the window writes as many bytes
  as it is told to when the storage is contiguous; otherwise it ignores the length: it fills everything up
  to the end of the window, and never returns when the length is 0.\<close>

theorem fill_and_zero:
  assumes "uba_inv h u" "begin < m_len u"
  shows "uba_zero h u = Some (Inr (upd h u 0 (replicate (unat (m_len u)) 0))) \<and>
    (if isContiguous (storage h u)
     then uba_fill h u v begin n = Some (Inr (upd h u begin (replicate (min (unat n) (unat (m_len u) - unat begin)) v)))
     else uba_fill h u v begin n =
       (if n = 0 then None else Some (Inr (upd h u begin (replicate (unat (m_len u) - unat begin) v)))))"
proof -
  note b = uba_inv_bounds [OF assms(1)]
  have lt: "unat begin < unat (m_len u)" using assms(2) by (simp add: word_less_nat_alt)
  have d: "unat (m_len u - begin) = unat (m_len u) - unat begin"
    using assms(2) by (intro unat_sub) (simp add: word_le_nat_alt word_less_nat_alt)
  have m: "unat (min n (m_len u - begin)) = min (unat n) (unat (m_len u) - unat begin)"
    unfolding min_def word_le_nat_alt d by (simp add: d)
  have zero: "uba_zero h u = Some (Inr (upd h u 0 (replicate (unat (m_len u)) 0)))"
  proof (cases "isContiguous (storage h u)")
    case True
    then show ?thesis using memset_spec [OF assms(1), of 0 "m_len u"] lt by (simp add: uba_zero_def)
  next
    case False
    then show ?thesis using fill_loop_spec [of "0x100000" h u 0] assms(1) by (simp add: uba_zero_def)
  qed
  show ?thesis
  proof (cases "isContiguous (storage h u)")
    case True
    then show ?thesis using zero memset_spec [OF assms(1) lt, of "min n (m_len u - begin)"] assms(2) lt unfolding m
      by (auto simp: uba_fill_def)
  next
    case False
    have f: "uba_fill h u v begin n = fill_loop h u v (ucast (min n 0x400000)) begin"
      using False assms(2) by (auto simp: uba_fill_def)
    have "uba_fill h u v begin 0 = None"
      using fill_loop_diverges [OF assms] False assms(2) by (auto simp: uba_fill_def)
    moreover have "fill_loop h u v (ucast (min n 0x400000)) begin =
        Some (Inr (upd h u begin (replicate (unat (m_len u) - unat begin) v)))" if "n \<noteq> 0"
    proof (rule fill_loop_spec [OF _ assms(1)])
      have "unat (min n 0x400000) \<le> 0x400000" unfolding min_def by (simp add: word_le_nat_alt)
      moreover have "0 < unat (min n 0x400000)" using that by (simp add: min_def unat_gt_0)
      ultimately have "take_bit 32 (unat (min n 0x400000)) = unat (min n 0x400000)" "0 < unat (min n 0x400000)"
        by (simp_all add: take_bit_nat_eq_self_iff)
      then show "0 < unat (ucast (min n 0x400000) :: u32)" by (simp add: unsigned_ucast_eq)
      show "unat begin < 2 ^ 63 + 2 ^ 32" using lt b by simp
    qed
    ultimately show ?thesis using False zero f by auto
  qed
qed

theorem fill_and_zero_witness:
  "uba_fill (\<lambda>_. \<lparr>kind = DequeB, mem = [1, 2, 3]\<rparr>) (uba_of_priv 0 0 3) 9 1 0 = None"
  using fill_and_zero [of "\<lambda>_. \<lparr>kind = DequeB, mem = [1, 2, 3]\<rparr>" "uba_of_priv 0 0 3" 1 9 0]
  by (simp add: uba_inv_def live_def storage_def uba_of_priv_def max_size_def isContiguous_def)

text \<open>New storage holds zeros; it has one byte when none is asked for.\<close>

lemma createCache_spec:
  assumes "unat n \<le> max_size"
  shows "\<exists>h'. createCache h r n = Inr (h', uba_of_priv r 0 (if n = 0 then 1 else n)) \<and>
    uba_inv h' (uba_of_priv r 0 (if n = 0 then 1 else n)) \<and> growable h' (uba_of_priv r 0 (if n = 0 then 1 else n)) \<and>
    view h' (uba_of_priv r 0 (if n = 0 then 1 else n)) = replicate (unat (if n = 0 then 1 else n)) 0 \<and>
    (\<forall>w. m_priv w \<noteq> r \<longrightarrow> storage h' w = storage h w)"
  using assms
  by (auto simp: createCache_def uba_of_priv_def uba_inv_def live_def growable_def storage_def view_def chunk_def max_size_def
      Let_def split: if_splits)

end
