(* ===== verification/CompactUintArrayProps.thy ===== *)
theory CompactUintArrayProps
  imports CompactUintArray
begin

text \<open>
  What \<open>CompactUintArray\<close> promises: it is a list of numbers of its width. \<open>cua_contents\<close> is
  that list; access, modification, search and creation are described by it.
\<close>

section \<open>Numbers of whole bytes\<close>

lemma bit_le_word:
  "bit (le_word bs :: 'a::len word) j \<longleftrightarrow> j < LENGTH('a) \<and> j < 8 * length bs \<and> bit (bs ! (j div 8)) (j mod 8)"
proof (induction bs arbitrary: j)
  case (Cons b bs)
  show ?case
  proof (cases "j < 8")
    case True
    then show ?thesis by (auto simp: bit_or_iff bit_ucast_iff bit_push_bit_iff)
  next
    case False
    then have "\<not> bit b j" using bit_imp_le_length [of b] by fastforce
    moreover have "j div 8 = Suc ((j - 8) div 8)" "j mod 8 = (j - 8) mod 8" using False by (simp_all add: le_div_geq le_mod_geq)
    ultimately show ?thesis using False Cons.IH [of "j - 8"]
      by (auto simp: bit_or_iff bit_ucast_iff bit_push_bit_iff)
  qed
qed simp

lemma le_word_num_at:
  assumes "p + k \<le> length V"
  shows "le_word (take k (drop p V)) = (num_at V (8 * p) (8 * k) :: 'a::len word)"
proof (rule bit_word_eqI)
  fix j
  show "bit (le_word (take k (drop p V)) :: 'a word) j = bit (num_at V (8 * p) (8 * k) :: 'a word) j"
    using assms by (auto simp: bit_le_word bit_num_at bitb_def less_mult_imp_div_less mult.commute)
qed

lemma blit_put_num:
  assumes "p + k \<le> length V"
  shows "blit p (le_bytes k v) V = put_num V (8 * p) (8 * k) v"
proof (rule bitb_ext)
  show "length (blit p (le_bytes k v) V) = length (put_num V (8 * p) (8 * k) v)"
    using assms by (simp add: length_blit)
next
  fix n assume "n < 8 * length (put_num V (8 * p) (8 * k) v)"
  then have n: "n < 8 * length V" by simp
  then have d: "n div 8 < length V" by (simp add: less_mult_imp_div_less mult.commute)
  have iff: "8 * p \<le> n \<and> n < 8 * p + 8 * k \<longleftrightarrow> p \<le> n div 8 \<and> n div 8 < p + k" by auto
  have b: "blit p (le_bytes k v) V ! (n div 8) =
      (if p \<le> n div 8 \<and> n div 8 < p + k then ucast (drop_bit (8 * (n div 8 - p)) v) else V ! (n div 8))"
    using assms d by (auto simp: nth_blit le_bytes_def)
  have "8 * (n div 8 - p) + n mod 8 = n - 8 * p" if "p \<le> n div 8"
    using that by (simp add: diff_mult_distrib2)
  then show "bitb (blit p (le_bytes k v) V) n = bitb (put_num V (8 * p) (8 * k) v) n"
    unfolding bitb_put_num [OF n] iff
    by (auto simp: bitb_def b bit_ucast_iff bit_drop_bit_eq)
qed

lemma take_word_cast: "le_bytes k (ucast (v :: 'a::len word) :: 'b::len word) = le_bytes k v"
  if "8 * k \<le> LENGTH('b)"
proof (rule nth_equalityI)
  fix i assume "i < length (le_bytes k (ucast v :: 'b word))"
  then have i: "8 * i + 8 \<le> LENGTH('b)" "i < k" using that by auto
  then show "le_bytes k (ucast v :: 'b word) ! i = le_bytes k v ! i"
    by (intro bit_word_eqI) (auto simp: le_bytes_def bit_ucast_iff bit_drop_bit_eq)
qed simp

lemma up_num_at:
  "unat p + 1 \<le> length V \<Longrightarrow> (ucast (up_u8 (drop (unat p) V)) :: u64) = num_at V (8 * unat p) 8"
  "q + 2 \<le> length V \<Longrightarrow> (ucast (up_u16 (drop q V)) :: u64) = num_at V (8 * q) 16"
  "q + 3 \<le> length V \<Longrightarrow> (ucast (up_u24 (drop q V)) :: u64) = num_at V (8 * q) 24"
  "q + 4 \<le> length V \<Longrightarrow> (ucast (up_u32 (drop q V)) :: u64) = num_at V (8 * q) 32"
proof -
  assume p: "unat p + 1 \<le> length V"
  then have "le_word (take 1 (drop (unat p) V)) = up_u8 (drop (unat p) V)"
    by (simp add: up_u8_drop take_Suc hd_drop_conv_nth)
  then have "up_u8 (drop (unat p) V) = num_at V (8 * unat p) 8"
    using le_word_num_at [OF p, where 'a = 8] by simp
  then show "(ucast (up_u8 (drop (unat p) V)) :: u64) = num_at V (8 * unat p) 8"
    by (simp add: ucast_num_at)
qed (simp_all add: up_u16_def up_u24_def up_u32_def le_word_num_at ucast_num_at)

lemma p_put_num:
  fixes v :: u64
  shows "q + 1 \<le> length V \<Longrightarrow> blit q (p_u8 (ucast v)) V = put_num V (8 * q) 8 v"
    "q + 2 \<le> length V \<Longrightarrow> blit q (p_u16 (ucast v)) V = put_num V (8 * q) 16 v"
    "q + 3 \<le> length V \<Longrightarrow> blit q (p_u24 (ucast v)) V = put_num V (8 * q) 24 v"
    "q + 4 \<le> length V \<Longrightarrow> blit q (p_u32 (ucast v)) V = put_num V (8 * q) 32 v"
proof -
  have "p_u8 (ucast v) = le_bytes 1 v" by (simp add: p_u8_def le_bytes_def)
  then show "q + 1 \<le> length V \<Longrightarrow> blit q (p_u8 (ucast v)) V = put_num V (8 * q) 8 v"
    using blit_put_num [of q 1 V v] by simp
qed (simp_all add: p_u16_def p_u24_def p_u32_def take_le_bytes take_word_cast blit_put_num)

section \<open>The array as a list\<close>

fun priv_data :: "cua_priv \<Rightarrow> uba" where
  "priv_data CEmpty = uba_of_priv 0 0 0"
| "priv_data (CU8 d) = d"
| "priv_data (CU16 d) = d"
| "priv_data (CU24 d) = d"
| "priv_data (CU32 d) = d"
| "priv_data (CVarBits d _ _) = d"
| "priv_data (CVarBits64 d _ _) = d"

fun priv_ok :: "cua_priv \<Rightarrow> bool" where
  "priv_ok (CVarBits _ m bpn) = (0 < unat bpn \<and> unat bpn \<le> 32 \<and> m = mask (unat bpn))"
| "priv_ok (CVarBits64 _ m bpn) = (0 < unat bpn \<and> unat bpn \<le> 64 \<and> m = mask (unat bpn))"
| "priv_ok CEmpty = False"
| "priv_ok _ = True"

definition cua_inv :: "heap \<Rightarrow> cua \<Rightarrow> bool" where
  "cua_inv h c \<longleftrightarrow>
     (if c_priv c = CEmpty then m_maxCount c = 0
      else priv_ok (c_priv c) \<and> uba_inv h (priv_data (c_priv c)) \<and>
        unat (m_maxCount c) * unat (cua_bpn c) \<le> 8 * unat (m_len (priv_data (c_priv c))))"

definition cua_contents :: "heap \<Rightarrow> cua \<Rightarrow> u64 list" where
  "cua_contents h c =
     map (\<lambda>i. num_at (view h (priv_data (c_priv c))) (i * unat (cua_bpn c)) (unat (cua_bpn c))) [0..<unat (m_maxCount c)]"

lemma length_cua_contents [simp]: "length (cua_contents h c) = unat (m_maxCount c)"
  by (simp add: cua_contents_def)

lemma priv_ok_bpn:
  assumes "priv_ok p"
  shows "0 < unat (priv_bpn p)" "unat (priv_bpn p) \<le> 64"
  using assms by (cases p; simp)+

lemma unat_mult_small:
  assumes "unat n = m" "unat pos * m < 2 ^ 64"
  shows "unat (n * pos :: u64) = m * unat pos"
  using assms by (simp add: unat_word_ariths mult.commute)

lemma priv_at_spec:
  assumes "priv_ok p" "uba_inv h (priv_data p)"
    and "(unat pos + 1) * unat (priv_bpn p) \<le> 8 * unat (m_len (priv_data p))"
  shows "priv_at h p pos = Inr (num_at (view h (priv_data p)) (unat pos * unat (priv_bpn p)) (unat (priv_bpn p)))"
proof -
  have len: "unat (m_len (priv_data p)) < 2 ^ 63" using uba_inv_bounds [OF assms(2)] by simp
  have m: "unat (k * pos) = unat k * unat pos" if "8 * (unat k * (unat pos + 1)) \<le> 8 * unat (m_len (priv_data p))" for k :: u64
    using that len by (intro unat_mult_small) (simp_all add: mult.commute)
  show ?thesis
  proof (cases p)
    case (CU8 d)
    then show ?thesis using assms len
      by (simp add: U8_at_def uba_getUint8_def Uint8.get_spec up_num_at(1) mult.commute)
  next
    case (CU16 d)
    then have "unat (2 * pos) = 2 * unat pos" using assms(3) m [of 2] by simp
    then show ?thesis using CU16 assms len up_num_at(2) [of "2 * unat pos" "view h d"]
      by (simp add: U16_at_def uba_getUint16_def Uint16.get_spec mult.commute)
  next
    case (CU24 d)
    then have "unat (3 * pos) = 3 * unat pos" using assms(3) m [of 3] by simp
    then show ?thesis using CU24 assms len up_num_at(3) [of "3 * unat pos" "view h d"]
      by (simp add: U24_at_def uba_getUint24_def Uint24.get_spec mult.commute)
  next
    case (CU32 d)
    then have "unat (4 * pos) = 4 * unat pos" using assms(3) m [of 4] by simp
    then show ?thesis using CU32 assms len up_num_at(4) [of "4 * unat pos" "view h d"]
      by (simp add: U32_at_def uba_getUint32_def Uint32.get_spec mult.commute)
  qed (use assms VarBits_at_spec VarBits64_at_spec in auto)
qed

text \<open>What a setter returns: the classes of 8, 24 and 32 bits do not mask the value.\<close>

fun set_result :: "cua_priv \<Rightarrow> u64 \<Rightarrow> u64" where
  "set_result (CU16 _) v = take_bit 16 v"
| "set_result (CVarBits _ _ bpn) v = take_bit (unat bpn) v"
| "set_result (CVarBits64 _ _ bpn) v = take_bit (unat bpn) v"
| "set_result _ v = v"

lemma rewrite_view: "uba_inv h d \<Longrightarrow> rewrite h d (view h d) = h"
  using upd_rewrite [of h d 0 "[]"] by simp

lemma put_num_take: "put_num V B n (take_bit n v) = put_num V B n v"
  by (rule bitb_ext) (auto simp: bitb_put_num bit_take_bit_iff)

lemma priv_set_spec:
  assumes "priv_ok p" "uba_inv h (priv_data p)"
    and "(unat pos + 1) * unat (priv_bpn p) \<le> 8 * unat (m_len (priv_data p))"
  shows "priv_set h p pos v = Inr (set_result p v,
    rewrite h (priv_data p) (put_num (view h (priv_data p)) (unat pos * unat (priv_bpn p)) (unat (priv_bpn p)) v))"
proof -
  let ?d = "priv_data p"
  have len: "unat (m_len ?d) < 2 ^ 63" using uba_inv_bounds [OF assms(2)] by simp
  have m: "unat (k * pos) = unat k * unat pos" if "8 * (unat k * (unat pos + 1)) \<le> 8 * unat (m_len ?d)" for k :: u64
    using that len by (intro unat_mult_small) (simp_all add: mult.commute)
  have u: "upd h ?d q bs = rewrite h ?d (blit (unat q) bs (view h ?d))" if "unat q + length bs \<le> unat (m_len ?d)" for q bs
    by (rule upd_rewrite [OF assms(2) that])
  have sb: "set_bits h ?d bpn pos w = Inr (rewrite h ?d (put_num (view h ?d) (unat pos * unat bpn) (unat bpn) w))"
    if "0 < unat bpn" "unat bpn \<le> 64" "take_bit (unat bpn) w = w" "(unat pos + 1) * unat bpn \<le> 8 * unat (m_len ?d)" for bpn w
    using set_bits_spec [OF assms(2) length_view [OF assms(2)] that] by (simp add: rewrite_view [OF assms(2)])
  show ?thesis
  proof (cases p)
    case (CU8 d)
    then show ?thesis using assms len u [of pos "p_u8 (ucast v)"] p_put_num(1) [of "unat pos" "view h d" v]
      by (simp add: U8_set_def uba_putUint8_def Uint8.put_spec mult.commute c_u8.length_pack)
  next
    case (CU16 d)
    then have "unat (2 * pos) = 2 * unat pos" using assms(3) m [of 2] by simp
    moreover have "ucast (ucast v :: u16) = take_bit 16 v" by (rule bit_word_eqI) (auto simp: bit_ucast_iff bit_take_bit_iff)
    ultimately show ?thesis using CU16 assms len u [of "2 * pos" "p_u16 (ucast v)"] p_put_num(2) [of "2 * unat pos" "view h d" v]
      by (simp add: U16_set_def uba_putUint16_def Uint16.put_spec mult.commute c_u16.length_pack)
  next
    case (CU24 d)
    then have "unat (3 * pos) = 3 * unat pos" using assms(3) m [of 3] by simp
    then show ?thesis using CU24 assms len u [of "3 * pos" "p_u24 (ucast v)"] p_put_num(3) [of "3 * unat pos" "view h d" v]
      by (simp add: U24_set_def uba_putUint24_def Uint24.put_spec mult.commute c_u24.length_pack)
  next
    case (CU32 d)
    then have "unat (4 * pos) = 4 * unat pos" using assms(3) m [of 4] by simp
    then show ?thesis using CU32 assms len u [of "4 * pos" "p_u32 (ucast v)"] p_put_num(4) [of "4 * unat pos" "view h d" v]
      by (simp add: U32_set_def uba_putUint32_def Uint32.put_spec mult.commute c_u32.length_pack)
  next
    case (CVarBits d m bpn)
    have mk: "v AND ucast m = take_bit (unat bpn) v"
      using assms(1) CVarBits by (intro bit_word_eqI) (auto simp: bit_and_iff bit_ucast_iff bit_mask_iff bit_take_bit_iff)
    then show ?thesis using assms sb [of bpn "take_bit (unat bpn) v"] CVarBits
      by (simp add: VarBits_set_def put_num_take)
  next
    case (CVarBits64 d m bpn)
    have mk: "v AND m = take_bit (unat bpn) v"
      using assms(1) CVarBits64 by (intro bit_word_eqI) (auto simp: bit_and_iff bit_mask_iff bit_take_bit_iff)
    then show ?thesis using assms sb [of bpn "take_bit (unat bpn) v"] CVarBits64
      by (simp add: VarBits64_set_def put_num_take)
  qed (use assms in simp)
qed

lemma nth_position:
  assumes "cua_inv h c" "c_priv c \<noteq> CEmpty" "i < unat (m_maxCount c)"
  shows "(i + 1) * unat (cua_bpn c) \<le> 8 * unat (m_len (priv_data (c_priv c)))"
proof -
  have "(i + 1) * unat (cua_bpn c) \<le> unat (m_maxCount c) * unat (cua_bpn c)"
    using assms(3) by (intro mult_right_mono) simp_all
  then show ?thesis using assms(1,2) by (simp add: cua_inv_def)
qed

lemma cua_priv_at:
  assumes "cua_inv h c" "unat pos < unat (m_maxCount c)"
  shows "priv_at h (c_priv c) pos = Inr (cua_contents h c ! unat pos)"
proof -
  have n: "c_priv c \<noteq> CEmpty" using assms by (auto simp: cua_inv_def)
  then show ?thesis using assms nth_position [OF assms(1) n assms(2)]
    by (simp add: priv_at_spec cua_inv_def cua_contents_def cua_bpn_def)
qed

lemma cua_at_spec:
  assumes "cua_inv h c"
  shows "cua_at h c pos = (if unat pos < unat (m_maxCount c) then Inr (cua_contents h c ! unat pos) else Inl OutOfBoundsException)"
  using cua_priv_at [OF assms] by (simp add: cua_at_def word_le_nat_alt not_le [symmetric])

lemma contents_put_num:
  assumes "cua_inv h c" "c_priv c \<noteq> CEmpty" "i < unat (m_maxCount c)"
    and "h' = rewrite h (priv_data (c_priv c)) (put_num (view h (priv_data (c_priv c))) (i * unat (cua_bpn c)) (unat (cua_bpn c)) v)"
  shows "cua_inv h' c" "cua_contents h' c = (cua_contents h c)[i := take_bit (unat (cua_bpn c)) v]"
proof -
  let ?d = "priv_data (c_priv c)" and ?n = "unat (cua_bpn c)"
  have inv: "uba_inv h ?d" using assms(1,2) by (simp add: cua_inv_def)
  have "length (put_num (view h ?d) (i * ?n) ?n v) = unat (m_len ?d)" using inv by simp
  note r = rewrite_facts(1,2) [OF inv this, folded assms(4)]
  then show "cua_inv h' c" using assms(1,2) by (simp add: cua_inv_def)
  show "cua_contents h' c = (cua_contents h c)[i := take_bit ?n v]"
  proof (rule nth_equalityI)
    fix k assume "k < length (cua_contents h' c)"
    then have k: "k < unat (m_maxCount c)" by simp
    have fit: "j * ?n + ?n \<le> 8 * length (view h ?d)" if "j < unat (m_maxCount c)" for j
      using nth_position [OF assms(1,2) that] inv by simp
    have sep: "k * ?n + ?n \<le> i * ?n \<or> i * ?n + ?n \<le> k * ?n" if "k \<noteq> i"
    proof -
      have "Suc k \<le> i \<or> Suc i \<le> k" using that by linarith
      then have "Suc k * ?n \<le> i * ?n \<or> Suc i * ?n \<le> k * ?n" by (meson mult_le_mono1)
      then show ?thesis by (simp add: add.commute)
    qed
    show "cua_contents h' c ! k = (cua_contents h c)[i := take_bit ?n v] ! k"
      using k r(2) fit [OF assms(3)] fit [OF k] sep
      by (cases "k = i") (simp_all add: cua_contents_def num_at_put_num)
  qed simp
qed

lemma cua_set_spec:
  assumes "cua_inv h c" "unat pos < unat (m_maxCount c)"
  shows "\<exists>h'. cua_set h c pos v = Inr (set_result (c_priv c) v, h') \<and> cua_inv h' c \<and>
    cua_contents h' c = (cua_contents h c)[unat pos := take_bit (unat (cua_bpn c)) v]"
proof -
  have n: "c_priv c \<noteq> CEmpty" using assms by (auto simp: cua_inv_def)
  have "priv_set h (c_priv c) pos v = Inr (set_result (c_priv c) v, rewrite h (priv_data (c_priv c))
      (put_num (view h (priv_data (c_priv c))) (unat pos * unat (cua_bpn c)) (unat (cua_bpn c)) v))"
    using assms(1) n nth_position [OF assms(1) n assms(2)] by (simp add: priv_set_spec cua_inv_def cua_bpn_def)
  moreover have "\<not> pos \<ge> m_maxCount c" using assms(2) by (simp add: word_le_nat_alt)
  ultimately show ?thesis using contents_put_num [OF assms(1) n assms(2) refl] by (simp add: cua_set_def)
qed

section \<open>The interface of a random access container\<close>

text \<open>
  What a search relies on: a container whose elements are reached by their index. The
  search of \<open>CompactUintArray\<close> is proved from this law alone.
\<close>

locale random_access =
  fixes elem :: "'c \<Rightarrow> u64 \<Rightarrow> u64 res" and elems :: "'c \<Rightarrow> u64 list"
  assumes elem_ok: "unat i < length (elems c) \<Longrightarrow> elem c i = Inr (elems c ! unat i)"
begin

lemma elem_int: "0 \<le> i \<Longrightarrow> nat i < length (elems c) \<Longrightarrow> i < 2 ^ 63 \<Longrightarrow> elem c (word_of_int i) = Inr (elems c ! nat i)"
  using elem_ok [of "word_of_int i" c] by (simp add: unat_eq_nat_uint uint_word_of_int)

lemma findSorted_loop_correct:
  assumes "sorted (elems c)" "n \<le> length (elems c)" "n < 2 ^ 63"
  shows "0 \<le> left \<Longrightarrow> left \<le> right + 1 \<Longrightarrow> left < int n \<Longrightarrow> right < int n \<Longrightarrow>
    (\<And>i. i < n \<Longrightarrow> elems c ! i = key \<Longrightarrow> left \<le> int i \<and> int i \<le> right) \<Longrightarrow>
    \<exists>r. findSorted_loop (elem c) key left right = Inr r \<and>
      (if key \<in> set (take n (elems c)) then unat r < n \<and> elems c ! unat r = key else r = - 1)"
proof (induction "nat (right - left)" arbitrary: left right rule: less_induct)
  case less
  define mid where "mid = half (right - left) + left"
  have mid: "left \<le> mid" "mid \<le> max left right" "left < right \<Longrightarrow> mid < right"
    using less.prems(2) by (auto simp: mid_def half_def)
  have m: "0 \<le> mid" "nat mid < n" "mid < 2 ^ 63" using mid less.prems assms(3) by auto
  then have at: "elem c (word_of_int mid) = Inr (elems c ! nat mid)" using assms(2) by (intro elem_int) simp_all
  have um: "unat (word_of_int mid :: u64) = nat mid"
    using m by (simp add: unat_eq_nat_uint uint_word_of_int)
  have found: "elems c ! nat mid = key \<Longrightarrow> key \<in> set (take n (elems c))"
    using m(2) assms(2) by (auto simp: in_set_conv_nth)
  have mono: "i \<le> j \<Longrightarrow> j < n \<Longrightarrow> elems c ! i \<le> elems c ! j" for i j
    using assms(1,2) by (intro sorted_nth_mono) simp_all
  note step = findSorted_loop.simps [of "elem c" key left right, folded mid_def, unfolded Let_def at bindE_simps]
  consider "elems c ! nat mid = key" | "left < right" "elems c ! nat mid < key" | "left < right" "key < elems c ! nat mid"
    | "\<not> left < right" "elems c ! nat mid \<noteq> key" by force
  then show ?case
  proof cases
    case 1
    then show ?thesis using m um found by (subst step) auto
  next
    case 2
    have "\<exists>r. findSorted_loop (elem c) key (mid + 1) right = Inr r \<and>
      (if key \<in> set (take n (elems c)) then unat r < n \<and> elems c ! unat r = key else r = - 1)"
    proof (rule less.hyps)
      show "nat (right - (mid + 1)) < nat (right - left)" using 2 mid by linarith
      fix i assume i: "i < n" "elems c ! i = key"
      have "\<not> int i \<le> mid"
      proof
        assume "int i \<le> mid"
        then have "elems c ! i \<le> elems c ! nat mid" using m by (intro mono) simp_all
        then show False using i 2 by simp
      qed
      then show "mid + 1 \<le> int i \<and> int i \<le> right" using less.prems(5) [OF i] by simp
    qed (use 2 mid less.prems in auto)
    then show ?thesis using 2 by (subst step) auto
  next
    case 3
    have "\<exists>r. findSorted_loop (elem c) key left (mid - 1) = Inr r \<and>
      (if key \<in> set (take n (elems c)) then unat r < n \<and> elems c ! unat r = key else r = - 1)"
    proof (rule less.hyps)
      show "nat (mid - 1 - left) < nat (right - left)" using 3 mid by linarith
      fix i assume i: "i < n" "elems c ! i = key"
      have "\<not> mid \<le> int i"
      proof
        assume "mid \<le> int i"
        then have "elems c ! nat mid \<le> elems c ! i" using m i by (intro mono) simp_all
        then show False using i 3 by simp
      qed
      then show "left \<le> int i \<and> int i \<le> mid - 1" using less.prems(5) [OF i] by simp
    qed (use 3 mid less.prems in auto)
    then show ?thesis using 3 by (subst step) auto
  next
    case 4
    have "key \<notin> set (take n (elems c))"
    proof
      assume "key \<in> set (take n (elems c))"
      then obtain i where i: "i < n" "elems c ! i = key" using assms(2) by (auto simp: in_set_conv_nth)
      then have "int i = mid" using less.prems(5) [OF i] 4(1) mid by linarith
      then show False using i 4(2) by auto
    qed
    then show ?thesis using 4 by (subst step) auto
  qed
qed

lemma search_correct:
  fixes len :: u64
  assumes "sorted (elems c)" "unat len \<le> length (elems c)" "unat len < 2 ^ 63" "len \<noteq> 0"
  shows "\<exists>r. findSorted_loop (elem c) key 0 (sint (len - 1)) = Inr r \<and>
    (if key \<in> set (take (unat len) (elems c)) then unat r < unat len \<and> elems c ! unat r = key else r = - 1)"
proof -
  have "0 < unat len" using assms(4) by (simp add: unat_gt_0)
  then have "unat (len - 1) = unat len - 1" by (simp add: unat_sub word_le_nat_alt)
  then have "int (unat (len - 1)) = int (unat len) - 1" using \<open>0 < unat len\<close> by simp
  moreover have "uint (len - 1) = int (unat (len - 1))" by simp
  ultimately have u: "uint (len - 1) = int (unat len) - 1" by (simp only:)
  moreover have "signed_take_bit 63 (int (unat len) - 1) = int (unat len) - 1"
  proof (rule signed_take_bit_int_eq_self)
    have "(0 :: int) \<le> 2 ^ 63" by simp
    then show "- (2 ^ 63) \<le> int (unat len) - 1" using \<open>0 < unat len\<close> by linarith
    have "int (unat len) < int (2 ^ 63)" using assms(3) by (simp only: of_nat_less_iff)
    then show "int (unat len) - 1 < 2 ^ 63" by simp
  qed
  ultimately have s: "sint (len - 1) = int (unat len) - 1" by (simp only: sint_uint) simp
  define n where "n = unat len"
  show ?thesis using assms(1-3) \<open>0 < unat len\<close> unfolding s n_def [symmetric]
    by (intro findSorted_loop_correct) auto
qed

end

definition cua_elems :: "heap \<times> cua \<Rightarrow> u64 list" where
  "cua_elems = (\<lambda>(h, c). if cua_inv h c then cua_contents h c else [])"

interpretation cua: random_access "\<lambda>(h, c). priv_at h (c_priv c)" cua_elems
  by unfold_locales (auto simp: cua_elems_def cua_priv_at split: if_splits)

section \<open>Construction\<close>

lemma cua_setPrivate_spec:
  assumes "uba_inv h d" "0 < unat bits" "unat bits \<le> 64" "unat (m_len d) < 2 ^ 61"
  shows "\<exists>c. cua_setPrivate d bits = Inr c \<and> cua_inv h c \<and> cua_bpn c = bits \<and> c_priv c \<noteq> CEmpty \<and>
    priv_data (c_priv c) = d \<and> unat (m_maxCount c) = 8 * unat (m_len d) div unat bits"
proof -
  have b: "bits \<noteq> 0" "\<not> bits > 64" using assms(2,3) by (auto simp: word_less_nat_alt)
  have ub: "unat (ucast bits :: u64) = unat bits" by simp
  have "unat (m_len d * 8) = 8 * unat (m_len d)" using assms(4) by (simp add: unat_word_ariths mult.commute)
  then have m: "unat (m_len d * 8 div ucast bits) = 8 * unat (m_len d) div unat bits" by (simp add: unat_div ub)
  have mn: "min (m_len d * 8 div ucast bits) (- 1) = m_len d * 8 div ucast bits"
    by (rule min_absorb1) simp
  have k: "bits = of_nat (unat bits)" by simp
  have mask32: "createMask bits = mask (unat bits)" if "unat bits \<le> 32"
    using createMask_mask [OF that] by simp
  have "(ucast bits :: u64) = of_nat (unat bits)" by (rule of_nat_eqI) simp
  then have mask64: "createMask64 (ucast bits) = mask (unat bits)"
    using createMask64_mask [OF assms(3)] by simp
  have le: "8 * unat (m_len d) div unat bits * unat bits \<le> 8 * unat (m_len d)" by simp
  have n32: "\<not> bits > 32" if "unat bits \<le> 32" using that by (simp add: word_less_nat_alt)
  consider "bits = 8" | "bits = 16" | "bits = 24" | "bits = 32" | "bits \<notin> {8, 16, 24, 32}" "unat bits \<le> 32"
    | "bits \<notin> {8, 16, 24, 32}" "\<not> unat bits \<le> 32" by blast
  then show ?thesis
    by cases
      (use assms b m mn mask32 mask64 le n32 in \<open>simp_all add: cua_setPrivate_def Let_def cua_inv_def cua_bpn_def
        VarBits_new_def VarBits64_new_def word_le_nat_alt\<close>)
qed

lemma cua_set_rewrite:
  assumes "cua_inv h c" "unat pos < unat (m_maxCount c)"
  shows "\<exists>W r. length W = unat (m_len (priv_data (c_priv c))) \<and> cua_set h c pos v = Inr (r, rewrite h (priv_data (c_priv c)) W) \<and>
    cua_inv (rewrite h (priv_data (c_priv c)) W) c \<and>
    cua_contents (rewrite h (priv_data (c_priv c)) W) c = (cua_contents h c)[unat pos := take_bit (unat (cua_bpn c)) v] \<and>
    (\<forall>k. (unat pos + 1) * unat (cua_bpn c) \<le> k \<and> k < 8 * length W \<longrightarrow> bitb W k = bitb (view h (priv_data (c_priv c))) k)"
proof -
  have n: "c_priv c \<noteq> CEmpty" using assms by (auto simp: cua_inv_def)
  let ?d = "priv_data (c_priv c)"
  let ?W = "put_num (view h ?d) (unat pos * unat (cua_bpn c)) (unat (cua_bpn c)) v"
  have i: "uba_inv h ?d" using assms(1) n by (simp add: cua_inv_def)
  have "priv_set h (c_priv c) pos v = Inr (set_result (c_priv c) v, rewrite h ?d ?W)"
    using assms(1) n nth_position [OF assms(1) n assms(2)] by (simp add: priv_set_spec cua_inv_def cua_bpn_def)
  moreover have "\<not> pos \<ge> m_maxCount c" using assms(2) by (simp add: word_le_nat_alt)
  ultimately show ?thesis using contents_put_num [OF assms(1) n assms(2) refl] i
    by (intro exI [of _ ?W]) (simp add: cua_set_def bitb_put_num add.commute)
qed

lemma blit_Cons: "n < length xs \<Longrightarrow> blit (Suc n) ys (xs[n := y]) = blit n (y # ys) xs"
  by (simp add: blit_def upd_conv_take_nth_drop take_Suc_conv_app_nth add.commute)

lemma cua_set_all_spec:
  assumes "c_priv c \<noteq> CEmpty"
  shows "cua_inv h c \<Longrightarrow> unat pos + length xs \<le> unat (m_maxCount c) \<Longrightarrow>
    \<exists>W. length W = unat (m_len (priv_data (c_priv c))) \<and> cua_set_all h c pos xs = Inr (rewrite h (priv_data (c_priv c)) W) \<and>
      cua_inv (rewrite h (priv_data (c_priv c)) W) c \<and>
      cua_contents (rewrite h (priv_data (c_priv c)) W) c = blit (unat pos) (map (take_bit (unat (cua_bpn c))) xs) (cua_contents h c) \<and>
      (\<forall>k. (unat pos + length xs) * unat (cua_bpn c) \<le> k \<and> k < 8 * length W \<longrightarrow> bitb W k = bitb (view h (priv_data (c_priv c))) k)"
proof (induction xs arbitrary: h pos)
  case Nil
  then have "uba_inv h (priv_data (c_priv c))" using assms by (simp add: cua_inv_def)
  then show ?case using Nil
    by (intro exI [of _ "view h (priv_data (c_priv c))"]) (simp add: rewrite_view)
next
  case (Cons x xs)
  let ?d = "priv_data (c_priv c)"
  have i: "uba_inv h ?d" using assms Cons.prems by (simp add: cua_inv_def)
  obtain W r where W: "length W = unat (m_len ?d)" "cua_set h c pos x = Inr (r, rewrite h ?d W)"
    "cua_inv (rewrite h ?d W) c" "cua_contents (rewrite h ?d W) c = (cua_contents h c)[unat pos := take_bit (unat (cua_bpn c)) x]"
    "\<forall>k. (unat pos + 1) * unat (cua_bpn c) \<le> k \<and> k < 8 * length W \<longrightarrow> bitb W k = bitb (view h ?d) k"
    using cua_set_rewrite [OF Cons.prems(1), of pos x] Cons.prems(2) by auto
  have p: "unat (pos + 1) = unat pos + 1"
    using Cons.prems(2) unat_bound64 [of "m_maxCount c"] by (subst unat_add_nowrap) simp_all
  from Cons.IH [OF W(3), of "pos + 1"] Cons.prems(2) p obtain W' where W': "length W' = unat (m_len ?d)"
    "cua_set_all (rewrite h ?d W) c (pos + 1) xs = Inr (rewrite (rewrite h ?d W) ?d W')"
    "cua_inv (rewrite (rewrite h ?d W) ?d W') c"
    "cua_contents (rewrite (rewrite h ?d W) ?d W') c =
       blit (unat pos + 1) (map (take_bit (unat (cua_bpn c))) xs) ((cua_contents h c)[unat pos := take_bit (unat (cua_bpn c)) x])"
    "\<forall>k. (unat pos + 1 + length xs) * unat (cua_bpn c) \<le> k \<and> k < 8 * length W' \<longrightarrow> bitb W' k = bitb W k"
    by (auto simp: W(4) rewrite_facts(2) [OF i W(1)])
  have "\<forall>k. (unat pos + length (x # xs)) * unat (cua_bpn c) \<le> k \<and> k < 8 * length W' \<longrightarrow> bitb W' k = bitb (view h ?d) k"
  proof (intro allI impI)
    fix k assume k: "(unat pos + length (x # xs)) * unat (cua_bpn c) \<le> k \<and> k < 8 * length W'"
    have "(unat pos + 1) * unat (cua_bpn c) \<le> (unat pos + length (x # xs)) * unat (cua_bpn c)" by (intro mult_right_mono) simp_all
    then have k1: "(unat pos + 1) * unat (cua_bpn c) \<le> k" using k by (meson order_trans)
    have "bitb W' k = bitb W k" using k W'(5) by simp
    also have "\<dots> = bitb (view h ?d) k" using k k1 W(1,5) W'(1) by simp
    finally show "bitb W' k = bitb (view h ?d) k" .
  qed
  note frame = this
  show ?case
    using W W' rewrite_facts(3) [OF i W(1) W'(1)] Cons.prems(2)
    by (intro exI [of _ W'] conjI frame) (simp_all add: blit_Cons)
qed

lemma minStorageBits_spec:
  shows "0 < unat (minStorageBits m)" "unat (minStorageBits m) \<le> 64"
    and "x \<le> m \<Longrightarrow> take_bit (unat (minStorageBits m)) x = x"
proof -
  have lt: "msb_loop m < 64"
    using msb_loop_bit [of m] bit_imp_le_length [of m "msb_loop m"] by (cases "m = 0") (auto simp: msb_loop.simps)
  have "unat (of_nat (msb_loop m + 1) :: u32) = msb_loop m + 1" by (rule unat_of_nat_small) (use lt in simp)
  then have u: "unat (of_nat (msb_loop m) + 1 :: u32) = msb_loop m + 1" by (simp only: of_nat_add of_nat_1)
  have "(1 :: u32) \<le> of_nat (msb_loop m) + 1" using u by (simp add: word_le_nat_alt)
  then have b: "unat (minStorageBits m) = msb_loop m + 1"
    using u by (simp add: minStorageBits_def msb64_eq max_def)
  then show "0 < unat (minStorageBits m)" "unat (minStorageBits m) \<le> 64" using lt by simp_all
  have "take_bit (msb_loop m + 1) m = m"
  proof (cases "m = 0")
    case False
    then show ?thesis using msb_loop_bit [OF False] by (intro bit_word_eqI) (auto simp: bit_take_bit_iff not_le [symmetric])
  qed simp
  then have "uint m < 2 ^ (msb_loop m + 1)"
    by (metis take_bit_int_less_exp unsigned_take_bit_eq)
  then show "x \<le> m \<Longrightarrow> take_bit (unat (minStorageBits m)) x = x"
    unfolding b by (intro take_bit_small_word) (simp add: word_le_def)
qed

lemma round_up_8: "(x + 7) div 8 = x div 8 + (if x mod 8 \<noteq> 0 then 1 else 0)" for x :: nat
  by (cases "x mod 8 = 0") (simp_all, presburger+)

lemma minStorageBytes_spec:
  assumes "unat bits \<le> 64" "unat n < 2 ^ 57"
  shows "unat (minStorageBytes bits n) = (unat n * unat bits + 7) div 8"
proof -
  have "unat n * unat bits \<le> unat n * 64" using assms(1) by (intro mult_left_mono) simp_all
  also have "unat n * 64 < 2 ^ 57 * 64" using assms(2) by simp
  also have "(2 :: nat) ^ 57 * 64 \<le> 2 ^ 64" by simp
  finally have s: "unat n * unat bits < 2 ^ 64" .
  then have u: "unat (n * ucast bits) = unat n * unat bits" by (simp add: unat_word_ariths)
  have d: "unat (n * ucast bits div 8) = unat n * unat bits div 8" "unat (n * ucast bits mod 8) = unat n * unat bits mod 8"
    by (simp_all add: unat_div unat_mod u)
  have z: "n * ucast bits mod 8 > 0 \<longleftrightarrow> unat n * unat bits mod 8 \<noteq> 0"
    by (simp only: word_less_nat_alt d(2) unat_0 neq0_conv)
  have "unat n * unat bits div 8 < 2 ^ 61" using s by (intro less_mult_imp_div_less) simp
  then have "unat n * unat bits div 8 + 1 < 2 ^ 64" by simp
  then show ?thesis using d(1) unat_add_nowrap [of "n * ucast bits div 8" 1]
    unfolding minStorageBytes_def Let_def z round_up_8 by simp
qed

end
