(* ===== verification/CompactUintArrayCreate.thy ===== *)
theory CompactUintArrayCreate
  imports CompactUintArrayProps
begin

text \<open>
  Creation of compact arrays in an adapter, the bounded array, and the properties of the
  compact array.
\<close>

section \<open>Creation\<close>

lemma reserve_spec:
  assumes "pushable h u n" "unat k = n"
  shows "\<exists>h1 u1 ys. uba_reserveFromPutPtr h u k = Inr (True, h1, u1) \<and> uba_inv h1 u1 \<and> growable h1 u1 \<and>
    u1 = u\<lparr>m_len := m_len u1\<rparr> \<and> unat (m_putPtr u) + n \<le> unat (m_len u1) \<and> view h1 u1 = view h u @ ys \<and>
    unat (m_offSet u) + unat (m_len u1) \<le> max (unat (m_offSet u) + unat (m_len u)) (unat (m_offSet u) + unat (m_putPtr u) + n)"
proof -
  have inv: "uba_inv h u" and gr: "growable h u" and le: "m_putPtr u \<le> m_len u"
    and mx: "unat (m_offSet u) + unat (m_putPtr u) + n \<le> max_size"
    using assms(1) by (simp_all add: pushable_def)
  have m: "max_size < 2 ^ 63" by (simp add: max_size_def)
  have le': "unat (m_putPtr u) \<le> unat (m_len u)" using le by (simp add: word_le_nat_alt)
  have sub: "unat (m_len u - m_putPtr u) = unat (m_len u) - unat (m_putPtr u)" using le by (rule unat_sub)
  show ?thesis
  proof (cases "m_putPtr u < m_len u \<and> m_len u - m_putPtr u \<ge> k")
    case True
    then have "n \<le> unat (m_len u) - unat (m_putPtr u)" using sub assms(2) by (simp add: word_le_nat_alt)
    then have "unat (m_putPtr u) + n \<le> unat (m_len u)" using le' by arith
    then show ?thesis using True inv gr
      by (intro exI [of _ h] exI [of _ u] exI [of _ "[]"]) (simp add: uba_reserveFromPutPtr_def)
  next
    case False
    have ge: "unat (m_len u) \<le> unat (m_putPtr u) + n"
      using False sub assms(2) le' by (auto simp: word_le_nat_alt word_less_nat_alt)
    have s: "unat (m_putPtr u + k) = unat (m_putPtr u) + n" using mx m assms(2) by (subst unat_add_nowrap) simp_all
    define need where "need = m_putPtr u + k - m_len u"
    have "m_len u \<le> m_putPtr u + k" using ge s by (simp add: word_le_nat_alt)
    then have "unat need = unat (m_putPtr u + k) - unat (m_len u)" unfolding need_def by (rule unat_sub)
    then have nd: "unat need = unat (m_putPtr u) + n - unat (m_len u)" by (simp only: s)
    have "unat (m_offSet u) + unat (m_len u) + unat need \<le> max_size" using nd mx ge by simp
    from growStorage_spec [OF inv gr this] obtain h' ys where
      *: "uba_growStorage h u need = Inr (True, h', u\<lparr>m_len := m_len u + need\<rparr>)"
        "uba_inv h' (u\<lparr>m_len := m_len u + need\<rparr>)" "growable h' u"
        "view h' (u\<lparr>m_len := m_len u + need\<rparr>) = view h u @ ys" by blast
    have e: "m_len u + need = m_putPtr u + k" by (simp add: need_def)
    show ?thesis using False * s unfolding e
      by (intro exI [of _ h'] exI [of _ "u\<lparr>m_len := m_putPtr u + k\<rparr>"] exI [of _ ys])
        (auto simp: uba_reserveFromPutPtr_def need_def)
  qed
qed

text \<open>Reserving leaves all other storage alone.\<close>

lemma reserve_frame: "uba_reserveFromPutPtr h u k = Inr (ok, h1, u1) \<Longrightarrow> m_priv w \<noteq> m_priv u \<Longrightarrow> storage h1 w = storage h w"
  by (auto simp: uba_reserveFromPutPtr_def uba_growStorage_def storage_def Let_def split: if_splits)

text \<open>The bytes of packed numbers do not depend on what follows them.\<close>

lemma num_at_take: "B + n \<le> 8 * k \<Longrightarrow> num_at (take k V) B n = num_at V B n"
  by (rule bit_word_eqI) (auto simp: bit_num_at bitb_def)

lemma num_at_cong: "take k V = take k W \<Longrightarrow> B + n \<le> 8 * k \<Longrightarrow> num_at V B n = num_at W B n"
  by (metis num_at_take)

lemma mult_fits: "i < m \<Longrightarrow> i * b + b \<le> m * (b :: nat)"
  by (metis Suc_leI add.commute mult_Suc mult_le_mono1)

text \<open>The space a number of numbers needs.\<close>

definition packed_bytes :: "nat \<Rightarrow> nat \<Rightarrow> nat" where
  "packed_bytes bits n = (n * bits + 7) div 8"

lemma packed_bytes_enough: "n * bits \<le> 8 * packed_bytes bits n"
  unfolding packed_bytes_def by presburger

lemma create_at_spec:
  assumes "pushable h u (packed_bytes (unat bits) (length xs))" "xs \<noteq> []" "0 < unat bits" "unat bits \<le> 64"
    and "\<forall>x \<in> set xs. take_bit (unat bits) x = x" "unat (m_len u) < 2 ^ 60" "length xs < 2 ^ 54"
  defines "need \<equiv> packed_bytes (unat bits) (length xs)"
  shows "\<exists>h' u' bs. cua_create_at xs h u bits = Inr (bits, h', u') \<and> appended h u bs h' u' \<and> length bs = need \<and>
    (\<forall>i < length xs. num_at bs (i * unat bits) (unat bits) = xs ! i) \<and> (\<forall>w. m_priv w \<noteq> m_priv u \<longrightarrow> storage h' w = storage h w)"
proof -
  let ?n = "unat bits" and ?p = "unat (m_putPtr u)"
  have len: "unat (of_nat (length xs) :: u64) = length xs" using assms(7) by (intro unat_of_nat_small) simp
  have k: "unat (minStorageBytes bits (of_nat (length xs))) = need"
    using assms(4,7) len by (subst minStorageBytes_spec) (simp_all add: need_def packed_bytes_def)
  have need60: "need < 2 ^ 60"
  proof -
    have "length xs * ?n \<le> length xs * 64" using assms(4) by (intro mult_left_mono) simp_all
    also have "length xs * 64 < 2 ^ 54 * 64" using assms(7) by simp
    finally show ?thesis unfolding need_def packed_bytes_def by (intro less_mult_imp_div_less) simp
  qed
  obtain h1 u1 ys where r: "uba_reserveFromPutPtr h u (minStorageBytes bits (of_nat (length xs))) = Inr (True, h1, u1)"
    "uba_inv h1 u1" "growable h1 u1" "u1 = u\<lparr>m_len := m_len u1\<rparr>" "?p + need \<le> unat (m_len u1)"
    "view h1 u1 = view h u @ ys"
    "unat (m_offSet u) + unat (m_len u1) \<le> max (unat (m_offSet u) + unat (m_len u)) (unat (m_offSet u) + ?p + need)"
    using reserve_spec [OF assms(1) [folded need_def] k] by blast
  have eq: "m_putPtr u1 = m_putPtr u" "m_offSet u1 = m_offSet u" "m_priv u1 = m_priv u" "m_getPtr u1 = m_getPtr u"
    by (subst r(4), simp)+
  have le: "?p \<le> unat (m_len u)" using assms(1) by (simp add: pushable_def word_le_nat_alt)
  have len1: "unat (m_len u1) < 2 ^ 61" using r(7) assms(6) need60 le by simp
  define d where "d = uba_shrinkToPutPtr u1"
  have pl: "m_putPtr u1 \<le> m_len u1" using r(5) eq by (simp add: word_le_nat_alt)
  have d: "m_priv d = m_priv u" "m_offSet d = m_offSet u + m_putPtr u" "m_len d = m_len u1 - m_putPtr u"
    using pl eq by (auto simp: d_def uba_shrinkToPutPtr_def Let_def)
  have od: "unat (m_offSet d) = unat (m_offSet u) + ?p"
    using offset_sum [OF r(2), of "m_putPtr u"] pl eq by (simp add: d(2) word_le_nat_alt)
  have ld: "unat (m_len d) = unat (m_len u1) - ?p" using pl eq by (simp add: d(3) unat_sub)
  have s1: "storage h1 d = storage h1 u1" using d(1) eq(3) by (simp add: storage_def)
  have invd: "uba_inv h1 d" using r(2,5) od ld by (simp add: uba_inv_def s1 eq)
  obtain c where c: "cua_setPrivate d bits = Inr c" "cua_inv h1 c" "cua_bpn c = bits" "c_priv c \<noteq> CEmpty"
    "priv_data (c_priv c) = d" "unat (m_maxCount c) = 8 * unat (m_len d) div ?n"
  proof -
    have "unat (m_len d) < 2 ^ 61" using ld len1 by (simp only: less_imp_diff_less)
    then show ?thesis using cua_setPrivate_spec [OF invd assms(3,4)] that by blast
  qed
  have cnt: "length xs \<le> unat (m_maxCount c)"
  proof -
    have "length xs * ?n \<le> 8 * need" unfolding need_def by (rule packed_bytes_enough)
    also have "\<dots> \<le> 8 * unat (m_len d)" using r(5) ld by simp
    finally show ?thesis using assms(3) by (simp add: c(6) less_eq_div_iff_mult_less_eq)
  qed
  obtain W where W: "length W = unat (m_len d)" "cua_set_all h1 c 0 xs = Inr (rewrite h1 d W)"
    "cua_inv (rewrite h1 d W) c"
    "cua_contents (rewrite h1 d W) c = blit 0 (map (take_bit ?n) xs) (cua_contents h1 c)"
    "\<forall>k. length xs * ?n \<le> k \<and> k < 8 * length W \<longrightarrow> bitb W k = bitb (view h1 d) k"
    using cua_set_all_spec [OF c(4,2), of 0 xs] cnt by (auto simp: c(3,5))
  have Wxs: "num_at W (i * ?n) ?n = xs ! i" if "i < length xs" for i
  proof -
    have "cua_contents (rewrite h1 d W) c ! i = num_at W (i * ?n) ?n"
      using that cnt rewrite_facts(2) [OF invd W(1)] by (simp add: cua_contents_def c(3,5))
    moreover have "blit 0 (map (take_bit ?n) xs) (cua_contents h1 c) ! i = xs ! i"
      using that assms(5) by (simp add: blit_def nth_append)
    ultimately show ?thesis using W(4) by simp
  qed
  have vd: "view h1 d = drop ?p (view h1 u1)"
    using r(2,5) by (simp add: view_def s1 od ld eq chunk_def drop_take add.commute)
  have Wneed: "drop need W = drop need (view h1 d)"
  proof (rule nth_equalityI)
    show "length (drop need W) = length (drop need (view h1 d))" using W(1) invd by simp
    fix i assume "i < length (drop need W)"
    then have i: "need + i < length W" by simp
    have "bit (W ! (need + i)) j = bit (view h1 d ! (need + i)) j" if "j < 8" for j
    proof -
      have q: "(8 * (need + i) + j) div 8 = need + i" "(8 * (need + i) + j) mod 8 = j"
        using that by presburger+
      have "length xs * ?n \<le> 8 * (need + i) + j" using packed_bytes_enough [of "length xs" ?n] unfolding need_def by simp
      then have "bitb W (8 * (need + i) + j) = bitb (view h1 d) (8 * (need + i) + j)" using W(5) i that by simp
      then show ?thesis by (simp only: bitb_def q)
    qed
    then have "W ! (need + i) = view h1 d ! (need + i)" by (intro bit_word_eqI) simp
    then show "drop need W ! i = drop need (view h1 d) ! i" using i W(1) invd by simp
  qed
  define bs where "bs = take need W"
  have lW: "need \<le> length W" using W(1) ld r(5) by simp
  have Wbs: "W = bs @ drop (?p + need) (view h1 u1)"
    using append_take_drop_id [of need W] unfolding Wneed vd bs_def by (simp add: add.commute)
  have h3: "rewrite h1 d W = upd h1 u1 (m_putPtr u) W"
    using od d(1) eq s1 by (simp add: rewrite_def upd_def)
  have fit: "?p + length W \<le> unat (m_len u1)" using W(1) ld r(5) by simp
  have lbs: "length bs = need" using lW by (simp add: bs_def)
  have "view (rewrite h1 d W) u1 = blit ?p bs (view h1 u1)"
    unfolding h3 view_upd [OF r(2) fit] using fit r(2) lbs by (subst Wbs) (simp add: blit_def)
  also have "\<dots> = blit ?p bs (view h u)"
  proof -
    have "length (view h u) = unat (m_len u)" using assms(1) by (simp add: pushable_def)
    moreover have "length ys = unat (m_len u1) - unat (m_len u)"
      using arg_cong [OF r(6), of length] r(2) calculation by simp
    moreover have "unat (m_len u1) \<le> unat (m_len u) \<or> unat (m_len u1) \<le> ?p + need" using r(7) by linarith
    ultimately show ?thesis unfolding r(6) using le lbs by (auto simp: blit_def)
  qed
  finally have v: "view (rewrite h1 d W) u1 = blit ?p bs (view h u)" .
  have pk: "unat (m_putPtr u + minStorageBytes bits (of_nat (length xs))) = ?p + need"
    using r(5) k unat_bound64 [of "m_len u1"] by (subst unat_add_nowrap) simp_all
  define u' where "u' = uba_incPutPtr u1 (minStorageBytes bits (of_nat (length xs)))"
  have u': "u' = u1\<lparr>m_putPtr := m_putPtr u + minStorageBytes bits (of_nat (length xs))\<rparr>"
  proof -
    have "m_putPtr u + minStorageBytes bits (of_nat (length xs)) \<le> m_len u1" using r(5) pk by (simp add: word_le_nat_alt)
    then show ?thesis using antisym by (fastforce simp: u'_def uba_incPutPtr_def uba_setPutPtr_def eq)
  qed
  have inv': "uba_inv (rewrite h1 d W) u1" unfolding h3 using r(2) fit by (intro inv_upd) simp_all
  have gr': "growable (rewrite h1 d W) u1" unfolding h3 using r(3) by (simp add: growable_def storage_upd)
  have "appended h u bs (rewrite h1 d W) u'"
    using inv' gr' v pk lbs r(5) by (simp add: appended_def u' eq word_le_nat_alt)
  moreover have "cua_create_at xs h u bits = Inr (bits, rewrite h1 d W, u')"
    using r(1) c(1) W(2) by (simp add: cua_create_at_def Let_def cua_new_def d_def u'_def)
  moreover have "num_at bs (i * ?n) ?n = xs ! i" if "i < length xs" for i
  proof -
    have "i * ?n + ?n \<le> 8 * need"
      using mult_fits [OF that, of ?n] packed_bytes_enough [of "length xs" ?n] unfolding need_def by linarith
    then show ?thesis using Wxs [OF that] by (simp add: bs_def num_at_take)
  qed
  moreover have "storage (rewrite h1 d W) w = storage h w" if "m_priv w \<noteq> m_priv u" for w
    using reserve_frame [OF r(1) that] that eq(3) by (simp add: h3 upd_def storage_def)
  ultimately show ?thesis using lbs by blast
qed

section \<open>The bounded array\<close>

lemma sub_len_spec:
  assumes "uba_inv h u" "unat n + unat l \<le> unat (m_len u)"
  shows "uba_inv h (uba_sub_len u n l)" "view h (uba_sub_len u n l) = chunk (unat n) (unat l) (view h u)"
    "m_len (uba_sub_len u n l) = l"
proof -
  let ?s = "uba_sub_len u n l"
  have n: "unat n \<le> unat (m_len u)" using assms(2) by simp
  then have nle: "n \<le> m_len u" by (simp add: word_le_nat_alt)
  have "unat l \<le> unat (m_len u - n)" using assms(2) by (simp add: unat_sub [OF nle])
  then have "\<not> m_len u - n > l \<longrightarrow> m_len u - n = l" by (auto simp: word_less_nat_alt intro: word_eq_unatI)
  then have f: "m_priv ?s = m_priv u" "m_offSet ?s = m_offSet u + n" "m_len ?s = l"
    using nle by (auto simp: uba_sub_len_def Let_def)
  have s: "storage h ?s = storage h u" using f by (simp add: storage_def)
  have o: "unat (m_offSet ?s) = unat (m_offSet u) + unat n" using offset_sum [OF assms(1) n] f by simp
  show "uba_inv h ?s" "m_len ?s = l" using assms o f s by (simp_all add: uba_inv_def)
  show "view h ?s = chunk (unat n) (unat l) (view h u)"
    using assms o f s by (simp add: view_def chunk_chunk)
qed

lemma sub_spec:
  assumes "uba_inv h u" "unat n \<le> unat (m_len u)"
  shows "uba_inv h (uba_sub u n)" "view h (uba_sub u n) = drop (unat n) (view h u)"
    "unat (m_len (uba_sub u n)) = unat (m_len u) - unat n"
proof -
  let ?s = "uba_sub u n"
  have nle: "n \<le> m_len u" using assms(2) by (simp add: word_le_nat_alt)
  have f: "m_priv ?s = m_priv u" "m_offSet ?s = m_offSet u + n" "m_len ?s = m_len u - n"
    using nle by (auto simp: uba_sub_def Let_def)
  have s: "storage h ?s = storage h u" using f by (simp add: storage_def)
  have o: "unat (m_offSet ?s) = unat (m_offSet u) + unat n" using offset_sum [OF assms] f by simp
  show l: "unat (m_len ?s) = unat (m_len u) - unat n" using f unat_sub [OF nle] by simp
  show "uba_inv h ?s" using assms o l s by (simp add: uba_inv_def)
  show "view h ?s = drop (unat n) (view h u)"
    using assms o l s by (simp add: view_def chunk_def drop_take add.commute)
qed

lemma header_word:
  fixes bits :: u32
  assumes "unat n < 2 ^ 58" "0 < unat bits" "unat bits \<le> 64"
  defines "sb \<equiv> push_bit 6 n OR ucast (bits - 1) :: u64"
  shows "drop_bit 6 sb = n" "ucast (sb AND 0x3F) + 1 = bits"
proof -
  have "1 \<le> bits" using assms(2) by (simp add: word_le_nat_alt)
  then have b1: "unat (bits - 1) = unat bits - 1" by (simp add: unat_sub)
  then have "unat (bits - 1) < 2 ^ 6" using assms(2,3) by simp
  then have "uint (bits - 1) < 2 ^ 6" by (rule uint_less_unat)
  then have small: "take_bit 6 (bits - 1) = bits - 1" by (rule take_bit_small_word)
  then have bb: "bit (bits - 1) j \<Longrightarrow> j < 6" for j by (metis bit_take_bit_iff)
  have nn: "bit n j \<Longrightarrow> j < 58" for j
  proof -
    have "uint n < 2 ^ 58" using assms(1) by (rule uint_less_unat)
    then have "take_bit 58 n = n" by (rule take_bit_small_word)
    then show "bit n j \<Longrightarrow> j < 58" by (metis bit_take_bit_iff)
  qed
  have m: "(0x3F :: u64) = mask 6" by (simp add: mask_eq_exp_minus_1)
  show "drop_bit 6 sb = n"
    unfolding sb_def by (intro bit_word_eqI) (use bb nn in \<open>auto simp: bit_drop_bit_eq bit_or_iff bit_push_bit_iff bit_ucast_iff\<close>)
  have "ucast (sb AND 0x3F) = bits - 1"
    unfolding sb_def m by (intro bit_word_eqI)
      (use bb in \<open>auto simp: bit_and_iff bit_or_iff bit_push_bit_iff bit_ucast_iff bit_mask_iff\<close>)
  then show "ucast (sb AND 0x3F) + 1 = bits" by simp
qed

lemma fold_max_ge: "x \<le> a \<or> x \<in> set xs \<Longrightarrow> x \<le> foldl max (a :: u64) xs"
proof (induction xs arbitrary: a)
  case (Cons y xs)
  then have "x \<le> max a y \<or> x \<in> set xs" by (auto simp: le_max_iff_disj)
  from Cons.IH [OF this] show ?case by simp
qed simp

text \<open>Reading a window that begins with a header and the packed numbers.\<close>

lemma bounded_new_spec:
  assumes "uba_inv h r" "drop 0 (view h r) = vl_bytes sb @ bs @ rest" "sb = push_bit 6 n OR ucast (bits - 1)"
    and "0 < unat bits" "unat bits \<le> 64" "0 < unat n" "unat n < 2 ^ 54" "length bs = packed_bytes (unat bits) (unat n)"
  shows "\<exists>c. bounded_new h r = Inr (c, n) \<and> cua_inv h c \<and> cua_bpn c = bits \<and> unat n \<le> unat (m_maxCount c) \<and>
    unat (m_maxCount c) = 8 * length bs div unat bits \<and>
    (\<forall>i < unat n. cua_contents h c ! i = num_at bs (i * unat bits) (unat bits))"
proof -
  have V: "view h r = vl_bytes sb @ bs @ rest" using assms(2) by simp
  have n58: "unat n < 2 ^ 58" using assms(7) by simp
  note hw = header_word [OF n58 assms(4,5), folded assms(3)]
  have lv: "length (vl_bytes sb) = psize_vu64 sb" by (rule vu64.length_code)
  have lr: "unat (m_len r) = psize_vu64 sb + length bs + length rest"
    using arg_cong [OF V, of length] assms(1) by (simp add: lv)
  have g: "uba_getVlPackedUint64 h r 0 = Inr (sb, int (psize_vu64 sb))"
    using VlUint64.get_spec [OF assms(1), of 0] lr vu64.size_pos [of sb]
    by (simp add: uba_getVlPackedUint64_def V vu64.dec_code)
  have ln: "unat (ucast (word_of_int (int (psize_vu64 sb)) :: u32) :: u64) = psize_vu64 sb"
    using vu64.size_max [of sb] by (simp add: unat_ucast_up unat_of_nat_small)
  have dsz: "unat (minStorageBytes bits n) = length bs"
    using assms(5,7) by (subst minStorageBytes_spec) (simp_all add: assms(8) packed_bytes_def)
  let ?d = "uba_sub_len r (ucast (word_of_int (int (psize_vu64 sb)) :: u32)) (minStorageBytes bits n)"
  have d: "uba_inv h ?d" "view h ?d = bs" "unat (m_len ?d) = length bs"
    using sub_len_spec [OF assms(1), of "ucast (word_of_int (int (psize_vu64 sb)) :: u32)" "minStorageBytes bits n"] ln dsz lr
    by (simp_all add: V chunk_def lv)
  have "unat n * unat bits \<le> unat n * 64" using assms(5) by (intro mult_left_mono) simp_all
  also have "\<dots> < 2 ^ 54 * 64" using assms(7) by simp
  finally have "length bs < 2 ^ 60" unfolding assms(8) packed_bytes_def by (intro less_mult_imp_div_less) simp
  then have "unat (m_len ?d) < 2 ^ 61" using d(3) by simp
  from cua_setPrivate_spec [OF d(1) assms(4,5) this] obtain c where
    c: "cua_setPrivate ?d bits = Inr c" "cua_inv h c" "cua_bpn c = bits" "c_priv c \<noteq> CEmpty"
      "priv_data (c_priv c) = ?d" "unat (m_maxCount c) = 8 * unat (m_len ?d) div unat bits" by blast
  have n0: "n \<noteq> 0" using assms(6) by auto
  have vc: "view h (priv_data (c_priv c)) = bs" unfolding c(5) by (rule d(2))
  have mc: "unat (m_maxCount c) = 8 * length bs div unat bits" using c(6) unfolding d(3) .
  then have cnt: "unat n \<le> unat (m_maxCount c)"
    using packed_bytes_enough [of "unat n" "unat bits"] assms(4,8) by (simp add: less_eq_div_iff_mult_less_eq)
  have "bounded_new h r = Inr (c, n)"
    using g c(1) n0 hw by (simp add: bounded_new_def Let_def)
  moreover have "cua_contents h c ! i = num_at bs (i * unat bits) (unat bits)" if "i < unat n" for i
    using that cnt by (simp add: cua_contents_def c(3) vc)
  ultimately show ?thesis using c(2,3) mc cnt by auto
qed

section \<open>Properties\<close>

text \<open>C8: An array of any width from 1 to 64 bits behaves as a list of numbers: an access gives the number
  at its index, an access outside throws, and setting an element replaces it, cut off to the width, and
  changes no other, however the numbers straddle the bytes.\<close>

theorem cua_refines_list:
  assumes "cua_inv h c"
  shows "cua_at h c pos = (if unat pos < unat (m_maxCount c) then Inr (cua_contents h c ! unat pos) else Inl OutOfBoundsException) \<and>
    (unat pos < unat (m_maxCount c) \<longrightarrow>
      (\<exists>r h'. cua_set h c pos v = Inr (r, h') \<and> cua_inv h' c \<and>
        cua_contents h' c = (cua_contents h c)[unat pos := take_bit (unat (cua_bpn c)) v]))"
  using cua_at_spec [OF assms] cua_set_spec [OF assms] by blast

theorem cua_refines_list_witness:
  "\<exists>r h'. cua_set (\<lambda>_. \<lparr>kind = VectorB, mem = [0xFF, 0xFF]\<rparr>) \<lparr>c_priv = CVarBits (uba_of_priv 0 0 2) 7 3, m_maxCount = 5\<rparr> 2 5 = Inr (r, h') \<and>
    cua_contents h' \<lparr>c_priv = CVarBits (uba_of_priv 0 0 2) 7 3, m_maxCount = 5\<rparr> =
      (cua_contents (\<lambda>_. \<lparr>kind = VectorB, mem = [0xFF, 0xFF]\<rparr>) \<lparr>c_priv = CVarBits (uba_of_priv 0 0 2) 7 3, m_maxCount = 5\<rparr>)[2 := 5]"
proof -
  have "cua_inv (\<lambda>_. \<lparr>kind = VectorB, mem = [0xFF, 0xFF]\<rparr>) \<lparr>c_priv = CVarBits (uba_of_priv 0 0 2) 7 3, m_maxCount = 5\<rparr>"
    by (simp add: cua_inv_def cua_bpn_def uba_inv_def live_def storage_def uba_of_priv_def max_size_def mask_eq_exp_minus_1)
  moreover have "take_bit 3 (5 :: u64) = 5" by (simp add: take_bit_eq_mod)
  ultimately show ?thesis
    using cua_refines_list [of "\<lambda>_. \<lparr>kind = VectorB, mem = [0xFF, 0xFF]\<rparr>"
      "\<lparr>c_priv = CVarBits (uba_of_priv 0 0 2) 7 3, m_maxCount = 5\<rparr>" 2 5] by (auto simp: cua_bpn_def)
qed

text \<open>C10: The search finds an index of the key in the first \<open>len\<close> elements of a sorted array, or returns
  \<open>npos\<close> when it is not among them; it always returns.\<close>

theorem findSorted_correct:
  assumes "cua_inv h c" "sorted (cua_contents h c)" "unat len \<le> unat (m_maxCount c)" "unat len < 2 ^ 63"
  shows "\<exists>r. cua_findSorted h c key len = Inr r \<and>
    (if key \<in> set (take (unat len) (cua_contents h c)) then unat r < unat len \<and> cua_contents h c ! unat r = key
     else r = - 1)"
proof (cases "len = 0")
  case True
  then show ?thesis by (simp add: cua_findSorted_def)
next
  case False
  have e: "cua_elems (h, c) = cua_contents h c" by (simp add: cua_elems_def assms(1))
  have "unat len \<le> length (cua_contents h c)" using assms(3) by (simp add: cua_contents_def)
  from cua.search_correct [of "(h, c)" len key, unfolded e prod.case, OF assms(2) this assms(4) False]
  show ?thesis using False by (simp add: cua_findSorted_def)
qed

theorem findSorted_correct_witness:
  "\<exists>r. cua_findSorted (\<lambda>_. \<lparr>kind = VectorB, mem = [2, 3, 7]\<rparr>) \<lparr>c_priv = CU8 (uba_of_priv 0 0 3), m_maxCount = 3\<rparr> 7 3 = Inr r \<and>
    unat r < 3"
proof -
  have "cua_inv (\<lambda>_. \<lparr>kind = VectorB, mem = [2, 3, 7]\<rparr>) \<lparr>c_priv = CU8 (uba_of_priv 0 0 3), m_maxCount = 3\<rparr>"
    by (simp add: cua_inv_def cua_bpn_def uba_inv_def live_def storage_def uba_of_priv_def max_size_def)
  moreover have "cua_contents (\<lambda>_. \<lparr>kind = VectorB, mem = [2, 3, 7]\<rparr>) \<lparr>c_priv = CU8 (uba_of_priv 0 0 3), m_maxCount = 3\<rparr> = [2, 3, 7]"
    by code_simp
  ultimately show ?thesis
    using findSorted_correct [of "\<lambda>_. \<lparr>kind = VectorB, mem = [2, 3, 7]\<rparr>"
      "\<lparr>c_priv = CU8 (uba_of_priv 0 0 3), m_maxCount = 3\<rparr>" 3 7] by auto
qed

text \<open>An empty bounded array is written as one byte, but the array read from it reports a size of five bytes,
  since the width of an empty array is 0 and one is subtracted from it.\<close>

lemma bounded_empty_size:
  assumes "pushable h u 1"
  shows "\<exists>h' u'. bounded_create [] h u = Inr (1, h', u') \<and> m_putPtr u' = m_putPtr u + 1 \<and>
    bounded_new h' (uba_sub u' (m_putPtr u)) = Inr (\<lparr>c_priv = CEmpty, m_maxCount = 0\<rparr>, 0) \<and>
    bounded_getSizeInBytes (\<lparr>c_priv = CEmpty, m_maxCount = 0\<rparr>, 0) = 5"
proof -
  have vz: "vl_bytes (0 :: u64) = [0]" by code_simp
  have pz: "psize_vu64 0 = 1" using vu64.length_code [of 0] vz by simp
  have "pushable h u (length (vl_bytes (0 :: u64)))" using assms by (simp add: vz)
  from VlUint64.stream_put_ok [OF this] obtain h' u' where
    p: "stream_putVlPackedUint64 h u 0 = Inr (1, h', u')" "appended h u [0] h' u'"
    by (auto simp: stream_putVlPackedUint64_def vz pz)
  then have a: "uba_inv h' u'" "view h' u' = blit (unat (m_putPtr u)) [0] (view h u)"
    "unat (m_putPtr u') = unat (m_putPtr u) + 1" "unat (m_putPtr u') \<le> unat (m_len u')"
    by (simp_all add: appended_def word_le_nat_alt)
  have pu: "unat (m_putPtr u) \<le> length (view h u)" using assms by (simp add: pushable_def word_le_nat_alt)
  note r = sub_spec [OF a(1), of "m_putPtr u"]
  have "drop 0 (view h' (uba_sub u' (m_putPtr u))) = vl_bytes (0 :: u64) @ drop (unat (m_putPtr u) + 1) (view h u)"
    using r(2) a pu by (simp add: blit_def vz)
  then have "uba_getVlPackedUint64 h' (uba_sub u' (m_putPtr u)) 0 = Inr (0, 1)"
    using VlUint64.get_spec [OF r(1), of 0] r(3) a pz
    by (simp add: uba_getVlPackedUint64_def vu64.dec_code [of 0, simplified])
  then have "bounded_new h' (uba_sub u' (m_putPtr u)) = Inr (\<lparr>c_priv = CEmpty, m_maxCount = 0\<rparr>, 0)"
    by (simp add: bounded_new_def)
  moreover have "bounded_getSizeInBytes (\<lparr>c_priv = CEmpty, m_maxCount = 0\<rparr>, 0) = 5" by code_simp
  moreover have "m_putPtr u' = m_putPtr u + 1" using of_nat_eqI [OF a(3)] by simp
  ultimately show ?thesis using p(1) by (simp add: bounded_create_def)
qed

text \<open>A non-empty list.\<close>

lemma bounded_nonempty:
  assumes "pushable h u (10 + packed_bytes 64 (length xs))" "xs \<noteq> []" "unat (m_len u) < 2 ^ 59" "length xs < 2 ^ 53"
  shows "\<exists>bits h' u' c. bounded_create xs h u = Inr (bits, h', u') \<and>
    bounded_new h' (uba_sub u' (m_putPtr u)) = Inr (c, of_nat (length xs)) \<and>
    (\<forall>i < length xs. cua_at h' c (of_nat i) = Inr (xs ! i)) \<and>
    bounded_getSizeInBytes (c, of_nat (length xs)) = m_putPtr u' - m_putPtr u"
proof -
  define bits where "bits = minStorageBits (foldl max (hd xs) (tl xs))"
  define n where "n = (of_nat (length xs) :: u64)"
  define sb where "sb = push_bit 6 n OR ucast (bits - 1)"
  note mb = minStorageBits_spec(1,2) [of "foldl max (hd xs) (tl xs)", folded bits_def]
  have un: "unat n = length xs" unfolding n_def using assms(4) by (intro unat_of_nat_small) simp
  have fits: "\<forall>x \<in> set xs. take_bit (unat bits) x = x"
    using assms(2) unfolding bits_def by (cases xs) (auto intro!: minStorageBits_spec(3) fold_max_ge)
  let ?k = "packed_bytes (unat bits) (length xs)"
  have "length xs * unat bits \<le> length xs * 64" using mb(2) by (intro mult_left_mono) simp_all
  then have kk: "?k \<le> packed_bytes 64 (length xs)" unfolding packed_bytes_def by (intro div_le_mono) simp
  have lv: "length (vl_bytes sb) = psize_vu64 sb" "psize_vu64 sb \<le> 10" by (rule vu64.length_code vu64.size_max)+
  have p0: "pushable h u (length (vl_bytes sb) + ?k)" using assms(1) kk lv by (simp add: pushable_def)
  then have p1: "pushable h u (length (vl_bytes sb))" by (simp add: pushable_def)
  obtain h1 u1 where 1: "stream_putVlPackedUint64 h u sb = Inr (int (psize_vu64 sb), h1, u1)" "appended h u (vl_bytes sb) h1 u1"
    using VlUint64.stream_put_ok [OF p1] by (auto simp: stream_putVlPackedUint64_def)
  have l1: "unat (m_len u1) < 2 ^ 60"
  proof -
    have a: "uba_inv h1 u1" "view h1 u1 = blit (unat (m_putPtr u)) (vl_bytes sb) (view h u)" using 1(2) by (simp_all add: appended_def)
    have "unat (m_putPtr u) \<le> unat (m_len u)" "uba_inv h u" using assms(1) by (simp_all add: pushable_def word_le_nat_alt)
    then have "unat (m_len u1) \<le> unat (m_len u) + 10"
      using arg_cong [OF a(2), of length] a(1) lv by (simp add: blit_def)
    then show ?thesis using assms(3) by simp
  qed
  have "length xs < 2 ^ 54" using assms(4) by simp
  from create_at_spec [OF appended_pushable [OF p0 1(2)] assms(2) mb fits l1 this] obtain h2 u2 bs where
    2: "cua_create_at xs h1 u1 bits = Inr (bits, h2, u2)" "appended h1 u1 bs h2 u2" "length bs = ?k"
      "\<forall>i < length xs. num_at bs (i * unat bits) (unat bits) = xs ! i" by blast
  have app: "appended h u (vl_bytes sb @ bs) h2 u2" by (rule appended_trans [OF p0 1(2) 2(2)])
  then have a: "uba_inv h2 u2" "view h2 u2 = blit (unat (m_putPtr u)) (vl_bytes sb @ bs) (view h u)"
    "unat (m_putPtr u2) = unat (m_putPtr u) + (psize_vu64 sb + ?k)" "unat (m_putPtr u2) \<le> unat (m_len u2)"
    using 2(3) lv by (simp_all add: appended_def word_le_nat_alt)
  have pu: "unat (m_putPtr u) \<le> length (view h u)" using assms(1) by (simp add: pushable_def word_le_nat_alt)
  let ?r = "uba_sub u2 (m_putPtr u)"
  note r = sub_spec [OF a(1), of "m_putPtr u"]
  have vr: "view h2 ?r = vl_bytes sb @ bs @ drop (unat (m_putPtr u) + length (vl_bytes sb @ bs)) (view h u)"
    using r(2) a pu by (simp add: blit_def)
  have "0 < unat n" "unat n < 2 ^ 54" using un assms(2,4) by simp_all
  from bounded_new_spec [OF r(1) _ sb_def mb this, of bs] vr a(3,4) 2(3) un obtain c where
    c: "bounded_new h2 ?r = Inr (c, n)" "cua_inv h2 c" "cua_bpn c = bits" "unat n \<le> unat (m_maxCount c)"
      "\<forall>i < unat n. cua_contents h2 c ! i = num_at bs (i * unat bits) (unat bits)" by auto
  have "cua_at h2 c (of_nat i) = Inr (xs ! i)" if "i < length xs" for i
  proof -
    have "unat (of_nat i :: u64) = i" using that assms(4) by (intro unat_of_nat_small) simp
    then show ?thesis using cua_at_spec [OF c(2), of "of_nat i"] c(4,5) 2(4) that un by simp
  qed
  moreover have "bounded_getSizeInBytes (c, n) = m_putPtr u2 - m_putPtr u"
  proof (rule word_eq_unatI)
    have "unat (of_nat (psize_vu64 sb) :: u64) = psize_vu64 sb" using lv by (intro unat_of_nat_small) simp
    moreover have mk: "unat (minStorageBytes bits n) = ?k"
      using mb(2) assms(4) un by (subst minStorageBytes_spec) (simp_all add: packed_bytes_def)
    ultimately have "unat (bounded_getSizeInBytes (c, n)) = psize_vu64 sb + ?k"
      using a(3,4) unat_bound64 [of "m_len u2"] unfolding bounded_getSizeInBytes_def
      by (simp add: c(3) Let_def sb_def [symmetric] unat_add_nowrap)
    moreover have "unat (m_putPtr u2 - m_putPtr u) = psize_vu64 sb + ?k"
      using a(3) by (subst unat_sub) (simp_all add: word_le_nat_alt)
    ultimately show "unat (bounded_getSizeInBytes (c, n)) = unat (m_putPtr u2 - m_putPtr u)" by (simp only:)
  qed
  moreover have "bounded_create xs h u = Inr (bits, h2, u2)"
    using assms(2) 1(1) 2(1) by (simp add: bounded_create_def Let_def bits_def [symmetric] n_def [symmetric] sb_def [symmetric])
  ultimately show ?thesis using c(1) unfolding n_def by blast
qed

text \<open>C9: A list of fewer than \<open>2 ^ 53\<close> numbers, the empty one included, that is written as a bounded array at the write position of
  an adapter on growable storage is read back from there: the size is the length of the list and every index gives its number. The
  size in bytes that the array reports is the number of bytes written when the list is not empty; of an empty list one byte is
  written, but five are reported.\<close>

theorem bounded_roundtrip:
  assumes "pushable h u (10 + packed_bytes 64 (length xs))" "unat (m_len u) < 2 ^ 59" "length xs < 2 ^ 53"
  shows "\<exists>bits h' u' c. bounded_create xs h u = Inr (bits, h', u') \<and>
    bounded_new h' (uba_sub u' (m_putPtr u)) = Inr (c, of_nat (length xs)) \<and>
    (\<forall>i < length xs. cua_at h' c (of_nat i) = Inr (xs ! i)) \<and>
    (if xs = [] then m_putPtr u' - m_putPtr u = 1 \<and> bounded_getSizeInBytes (c, of_nat (length xs)) = 5
     else bounded_getSizeInBytes (c, of_nat (length xs)) = m_putPtr u' - m_putPtr u)"
proof (cases "xs = []")
  case True
  have "pushable h u 1" using assms(1) by (simp add: pushable_def)
  from bounded_empty_size [OF this] show ?thesis using True by auto
next
  case False
  from bounded_nonempty [OF assms(1) False assms(2,3)] show ?thesis using False by simp
qed

theorem bounded_roundtrip_witness:
  "\<exists>bits h' u' c. bounded_create [3, 0, 1000] (\<lambda>_. \<lparr>kind = DequeB, mem = []\<rparr>) (uba_of_priv 0 0 0) = Inr (bits, h', u') \<and>
    bounded_new h' (uba_sub u' 0) = Inr (c, 3) \<and> cua_at h' c 2 = Inr 1000"
proof -
  let ?h = "\<lambda>_. \<lparr>kind = DequeB, mem = []\<rparr>" and ?u = "uba_of_priv 0 0 0" and ?xs = "[3, 0, 1000] :: u64 list"
  have p: "pushable ?h ?u (10 + packed_bytes 64 (length ?xs))"
    by (simp add: pushable_def uba_inv_def live_def storage_def growable_def uba_of_priv_def max_size_def packed_bytes_def)
  have l: "unat (m_len ?u) < 2 ^ 59" "m_putPtr ?u = 0" by (simp_all add: uba_of_priv_def)
  from bounded_roundtrip [OF p l(1), unfolded l(2)] obtain bits h' u' c where
    r: "bounded_create ?xs ?h ?u = Inr (bits, h', u')" "bounded_new h' (uba_sub u' 0) = Inr (c, of_nat (length ?xs))"
      "\<forall>i < length ?xs. cua_at h' c (of_nat i) = Inr (?xs ! i)" by auto
  have "cua_at h' c (of_nat 2) = Inr (?xs ! 2)" using r(3) by (rule allE [of _ 2]) simp
  then have "cua_at h' c 2 = Inr 1000" by simp
  then show ?thesis using r(1,2) by auto
qed

text \<open>C11: The number of bits chosen for a largest value keeps every value up to it, is between 1 and 64, and
  no smaller number keeps the largest value.\<close>

theorem minStorageBits_least:
  shows "1 \<le> unat (minStorageBits m) \<and> unat (minStorageBits m) \<le> 64 \<and>
    (x \<le> m \<longrightarrow> take_bit (unat (minStorageBits m)) x = x) \<and>
    (m \<noteq> 0 \<and> k < unat (minStorageBits m) \<longrightarrow> take_bit k m \<noteq> m)"
proof -
  have "take_bit k m \<noteq> m" if "m \<noteq> 0" "k < unat (minStorageBits m)"
  proof -
    have "msb_loop m < 64" using msb_loop_bit [OF that(1)] bit_imp_le_length [of m "msb_loop m"] by simp
    then have "unat (of_nat (msb_loop m + 1) :: u32) = msb_loop m + 1" by (intro unat_of_nat_small) simp
    then have u: "unat (of_nat (msb_loop m) + 1 :: u32) = msb_loop m + 1" by (simp only: of_nat_add of_nat_1)
    have "(1 :: u32) \<le> of_nat (msb_loop m) + 1" using u by (simp add: word_le_nat_alt)
    then have "unat (minStorageBits m) = msb_loop m + 1" using u by (simp add: minStorageBits_def msb64_eq max_def)
    then have "\<not> bit (take_bit k m) (msb_loop m)" using that(2) by (simp add: bit_take_bit_iff)
    then show ?thesis using msb_loop_bit [OF that(1)] by metis
  qed
  then show ?thesis using minStorageBits_spec(1,2) [of m] minStorageBits_spec(3) [of x m] by (simp add: Suc_le_eq)
qed

theorem minStorageBits_least_witness:
  "take_bit (unat (minStorageBits 1000)) (7 :: u64) = 7 \<and> take_bit 0 (1000 :: u64) \<noteq> 1000"
  using minStorageBits_least [of 1000 7 0] by (simp add: word_le_nat_alt)

text \<open>The array of 8, 24 or 32 bits returns the value it was given from a setter, not the value it stores;
  the other widths return what they store.\<close>

theorem setter_results:
  assumes "cua_inv h c" "unat pos < unat (m_maxCount c)"
  shows "\<exists>h' r. cua_set h c pos v = Inr (r, h') \<and>
    r = (case c_priv c of CU8 _ \<Rightarrow> v | CU24 _ \<Rightarrow> v | CU32 _ \<Rightarrow> v | _ \<Rightarrow> take_bit (unat (cua_bpn c)) v)"
proof -
  obtain h' where "cua_set h c pos v = Inr (set_result (c_priv c) v, h')" using cua_set_spec [OF assms] by blast
  moreover have "c_priv c \<noteq> CEmpty" using assms by (auto simp: cua_inv_def)
  ultimately show ?thesis by (cases "c_priv c") (auto simp: cua_bpn_def)
qed

theorem setter_results_witness:
  "\<exists>h'. cua_set (\<lambda>_. \<lparr>kind = VectorB, mem = [0]\<rparr>) \<lparr>c_priv = CU8 (uba_of_priv 0 0 1), m_maxCount = 1\<rparr> 0 300 = Inr (300, h')"
  using setter_results [of "\<lambda>_. \<lparr>kind = VectorB, mem = [0]\<rparr>" "\<lparr>c_priv = CU8 (uba_of_priv 0 0 1), m_maxCount = 1\<rparr>" 0 300]
  by (simp add: cua_inv_def cua_bpn_def uba_inv_def live_def storage_def uba_of_priv_def max_size_def)


end
