(* ===== verification/UnionFind.thy ===== *)
theory UnionFind
  imports Prelude
begin

text \<open>
  \<open>UnionFind\<close> (\<open>include/sserialize/containers/UnionFind.h\<close>): disjoint sets in a vector of
  entries, with path compression and union by rank. Parent and rank share a 64 bit word
  as bit fields of 36 and 28 bits; both are words of their width here.

  \<open>find_and_compress\<close> recurses along the parents. Nothing in its text bounds the recursion, so it is
  a partial function whose value \<open>None\<close> is a call that does not return; an access
  outside of the vector is a \<open>MemFault\<close>. That neither happens follows from the invariant that ranks
  grow along the parents.
\<close>

section \<open>The code\<close>

record 'v entry =
  e_value :: 'v
  e_parent :: "36 word"
  e_rank :: "28 word"

type_synonym 'v uf = "'v entry list"

definition new_entry :: "u64 \<Rightarrow> 'v \<Rightarrow> 'v entry res" where
  "new_entry p v =
     (let e = \<lparr>e_value = v, e_parent = ucast p, e_rank = 0\<rparr>
      in if p \<noteq> ucast (e_parent e) then Inl StdOverflowError else Inr e)"

definition uf_size :: "'v uf \<Rightarrow> u64" where
  "uf_size m = of_nat (length m)"

definition uf_get :: "'v uf \<Rightarrow> u64 \<Rightarrow> 'v res" where
  "uf_get m a = (if a \<ge> uf_size m then Inl StdOutOfRange else Inr (e_value (m ! unat a)))"

definition make_set :: "'v uf \<Rightarrow> 'v \<Rightarrow> ('v uf \<times> u64) res" where
  "make_set m v = (let p = uf_size m in bindE (new_entry p v) (\<lambda>e. Inr (m @ [e], p)))"

partial_function (option) find_and_compress :: "'v uf \<Rightarrow> u64 \<Rightarrow> ('v uf \<times> u64) res option" where
  "find_and_compress m a =
     (if \<not> unat a < length m then Some (Inl MemFault)
      else if ucast (e_parent (m ! unat a)) \<noteq> a then
        Option.bind (find_and_compress m (ucast (e_parent (m ! unat a)))) (\<lambda>r.
          Some (bindE r (\<lambda>(m, p).
            let m = m[unat a := (m ! unat a)\<lparr>e_parent := ucast p\<rparr>]
            in Inr (m, ucast (e_parent (m ! unat a))))))
      else Some (Inr (m, ucast (e_parent (m ! unat a)))))"

definition uf_find :: "'v uf \<Rightarrow> u64 \<Rightarrow> ('v uf \<times> u64) res option" where
  "uf_find m a = (if a \<ge> uf_size m then Some (Inl StdOutOfRange) else find_and_compress m a)"

text \<open>The part of \<open>unite\<close> behind the two searches.\<close>

definition uf_link :: "'v uf \<Rightarrow> u64 \<Rightarrow> u64 \<Rightarrow> 'v uf res" where
  "uf_link m pa pb =
     (let epa = m ! unat pa; epb = m ! unat pb
      in if e_rank epa < e_rank epb then Inr (m[unat pa := epa\<lparr>e_parent := ucast pb\<rparr>])
         else if e_rank epa > e_rank epb then Inr (m[unat pb := epb\<lparr>e_parent := ucast pa\<rparr>])
         else let epb = epb\<lparr>e_rank := e_rank epb + 1\<rparr>; m = m[unat pa := epa\<lparr>e_parent := ucast pb\<rparr>, unat pb := epb]
              in if e_rank epb = 0 then Inl StdOverflowError else Inr m)"

definition uf_unite :: "'v uf \<Rightarrow> u64 \<Rightarrow> u64 \<Rightarrow> 'v uf res option" where
  "uf_unite m a b =
     Option.bind (uf_find m a) (\<lambda>r. case r of Inl e \<Rightarrow> Some (Inl e) | Inr (m, pa) \<Rightarrow>
     Option.bind (uf_find m b) (\<lambda>r. case r of Inl e \<Rightarrow> Some (Inl e) | Inr (m, pb) \<Rightarrow>
       Some (if pa = pb then Inr m else uf_link m pa pb)))"

section \<open>The forest\<close>

definition par :: "'v uf \<Rightarrow> nat \<Rightarrow> nat" where
  "par m i = unat (e_parent (m ! i))"

definition rnk :: "'v uf \<Rightarrow> nat \<Rightarrow> nat" where
  "rnk m i = unat (e_rank (m ! i))"

text \<open>\<open>rep m i r\<close>: \<open>r\<close> is the root above \<open>i\<close>.\<close>

inductive rep :: "'v uf \<Rightarrow> nat \<Rightarrow> nat \<Rightarrow> bool" for m where
  rep_root: "i < length m \<Longrightarrow> par m i = i \<Longrightarrow> rep m i i"
| rep_step: "i < length m \<Longrightarrow> par m i \<noteq> i \<Longrightarrow> rep m (par m i) r \<Longrightarrow> rep m i r"

inductive_cases repE: "rep m i r"

definition same :: "'v uf \<Rightarrow> nat \<Rightarrow> nat \<Rightarrow> bool" where
  "same m i j \<longleftrightarrow> (\<exists>r. rep m i r \<and> rep m j r)"

definition forest :: "'v uf \<Rightarrow> bool" where
  "forest m \<longleftrightarrow> length m \<le> 2 ^ 36 \<and>
     (\<forall>i < length m. par m i < length m \<and> (par m i \<noteq> i \<longrightarrow> rnk m i < rnk m (par m i)))"

text \<open>A root of rank \<open>k\<close> has at least \<open>2^k\<close> elements, so that 28 bits are enough for the rank.\<close>

definition uf_inv :: "'v uf \<Rightarrow> bool" where
  "uf_inv m \<longleftrightarrow> forest m \<and> (\<forall>r < length m. par m r = r \<longrightarrow> 2 ^ rnk m r \<le> card {i. rep m i r})"

lemma uf_inv_forest: "uf_inv m \<Longrightarrow> forest m"
  by (simp add: uf_inv_def)

lemma rnk_bound: "rnk m i < 2 ^ 28"
  unfolding rnk_def using unat_bound [of "e_rank (m ! i)"] by simp

lemma rep_props: "rep m i r \<Longrightarrow> i < length m \<and> r < length m \<and> par m r = r"
  by (induction rule: rep.induct) auto

lemma rep_unique: "rep m i r \<Longrightarrow> rep m i s \<Longrightarrow> r = s"
proof (induction arbitrary: s rule: rep.induct)
  case (rep_root i)
  show ?case by (rule repE [OF rep_root.prems]) (use rep_root in auto)
next
  case (rep_step i r)
  show ?case by (rule repE [OF rep_step.prems]) (use rep_step.hyps rep_step.IH in blast)+
qed

lemma rep_self: "rep m r r \<longleftrightarrow> r < length m \<and> par m r = r"
  using rep_props rep_root by metis

lemma rep_total:
  assumes "forest m" "i < length m"
  shows "\<exists>r. rep m i r"
  using assms(2)
proof (induction "2 ^ 28 - rnk m i" arbitrary: i rule: less_induct)
  case less
  show ?case
  proof (cases "par m i = i")
    case True
    then show ?thesis using less.prems by (auto intro: rep_root)
  next
    case False
    have p: "par m i < length m" "rnk m i < rnk m (par m i)"
      using assms(1) less.prems False by (auto simp: forest_def)
    moreover have "2 ^ 28 - rnk m (par m i) < 2 ^ 28 - rnk m i"
      using p(2) rnk_bound [of m i] by (rule diff_less_mono2)
    ultimately obtain r where "rep m (par m i) r" using less.hyps by blast
    then show ?thesis using rep_step less.prems False by blast
  qed
qed

lemma rep_rank: "rep m i r \<Longrightarrow> forest m \<Longrightarrow> i \<noteq> r \<Longrightarrow> rnk m i < rnk m r"
proof (induction rule: rep.induct)
  case (rep_root i)
  then show ?case by simp
next
  case (rep_step i r)
  have "rnk m i < rnk m (par m i)" using rep_step by (auto simp: forest_def)
  then show ?case using rep_step by (cases "par m i = r") auto
qed

lemma same_class: "rep m i r \<Longrightarrow> same m i j \<longleftrightarrow> rep m j r"
  unfolding same_def using rep_unique by metis

section \<open>Changing one parent\<close>

definition set_parent :: "'v uf \<Rightarrow> nat \<Rightarrow> nat \<Rightarrow> 'v uf" where
  "set_parent m a p = m[a := (m ! a)\<lparr>e_parent := of_nat p\<rparr>]"

lemma set_parent_simps [simp]:
  "length (set_parent m a p) = length m"
  "rnk (set_parent m a p) i = rnk m i"
  "map e_value (set_parent m a p) = map e_value m"
proof -
  show "rnk (set_parent m a p) i = rnk m i"
    by (cases "i = a"; cases "a < length m") (simp_all add: rnk_def set_parent_def list_update_beyond)
  show "map e_value (set_parent m a p) = map e_value m"
    by (cases "a < length m") (auto intro!: nth_equalityI simp: set_parent_def nth_list_update list_update_beyond)
qed (simp add: set_parent_def)

lemma par_set_parent:
  assumes "a < length m" "p < 2 ^ 36"
  shows "par (set_parent m a p) i = (if i = a then p else par m i)"
  using assms by (simp add: par_def set_parent_def unat_of_nat_small)

lemma forest_set_parent:
  assumes "forest m" "a < length m" "r < length m" "rnk m a < rnk m r"
  shows "forest (set_parent m a r)"
proof -
  have "length m \<le> 2 ^ 36" using assms(1) by (simp add: forest_def)
  then have "r < 2 ^ 36" using assms(3) by linarith
  then show ?thesis using assms by (auto simp: forest_def par_set_parent)
qed

text \<open>Pointing an element directly at its root changes no class.\<close>

lemma compress_rep:
  assumes "forest m" "rep m a r" "a \<noteq> r"
  shows "rep (set_parent m a r) i s \<longleftrightarrow> rep m i s"
proof -
  note a = rep_props [OF assms(2)]
  have r: "r < 2 ^ 36" using a assms(1) by (auto simp: forest_def)
  have pa: "par m a \<noteq> a" by (rule repE [OF assms(2)]) (use assms(3) in auto)
  have fwd: "rep (set_parent m a r) j t" if "rep m j t" for j t
    using that
  proof (induction rule: rep.induct)
    case (rep_root i)
    then show ?case using pa a r by (intro rep.rep_root) (auto simp: par_set_parent)
  next
    case (rep_step i t)
    show ?case
    proof (cases "i = a")
      case True
      then have "t = r" using rep_unique assms(2) rep.rep_step [OF rep_step.hyps] by blast
      moreover have "rep (set_parent m a r) r r"
        using a assms(3) r by (intro rep.rep_root) (auto simp: par_set_parent)
      moreover have "par (set_parent m a r) a = r" using a r by (simp add: par_set_parent)
      ultimately show ?thesis using rep.rep_step [of a "set_parent m a r" r] True a assms(3) by simp
    next
      case False
      then have "par (set_parent m a r) i = par m i" using a r by (simp add: par_set_parent)
      then show ?thesis using rep.rep_step [of i "set_parent m a r" t] rep_step.hyps rep_step.IH by simp
    qed
  qed
  show ?thesis
  proof
    assume s: "rep (set_parent m a r) i s"
    then have "i < length m" using rep_props [OF s] by simp
    then obtain t where "rep m i t" using rep_total [OF assms(1)] by blast
    then show "rep m i s" using fwd rep_unique [OF s] by blast
  qed (rule fwd)
qed

section \<open>Finding\<close>

lemma find_and_compress_spec:
  assumes "uf_inv m" "unat a < length m"
  shows "\<exists>m' r. find_and_compress m a = Some (Inr (m', r)) \<and> uf_inv m' \<and> length m' = length m \<and>
    map e_value m' = map e_value m \<and> (\<forall>i s. rep m' i s \<longleftrightarrow> rep m i s) \<and> rep m (unat a) (unat r) \<and>
    par m' (unat a) = unat r"
  using assms(2)
proof (induction "2 ^ 28 - rnk m (unat a)" arbitrary: a rule: less_induct)
  case less
  note f = uf_inv_forest [OF assms(1)]
  define p where "p = (ucast (e_parent (m ! unat a)) :: u64)"
  have up: "unat p = par m (unat a)" unfolding p_def par_def by (rule unat_ucast_up) simp
  show ?case
  proof (cases "p = a")
    case True
    then have "rep m (unat a) (unat a)" using less.prems up by (auto intro: rep_root)
    then show ?thesis using True less.prems assms(1) up
      by (subst find_and_compress.simps) (simp add: p_def [symmetric])
  next
    case False
    then have ne: "par m (unat a) \<noteq> unat a" using up by (simp add: word_unat_eq_iff)
    then have lt: "unat p < length m" "rnk m (unat a) < rnk m (unat p)"
      using f less.prems up by (auto simp: forest_def)
    have "2 ^ 28 - rnk m (unat p) < 2 ^ 28 - rnk m (unat a)"
      using lt(2) rnk_bound [of m "unat a"] by (rule diff_less_mono2)
    from less.hyps [OF this lt(1)] obtain m1 r where
      1: "find_and_compress m p = Some (Inr (m1, r))" "uf_inv m1" "length m1 = length m" "map e_value m1 = map e_value m"
        "\<forall>i s. rep m1 i s \<longleftrightarrow> rep m i s" "rep m (unat p) (unat r)" by blast
    have ra: "rep m (unat a) (unat r)" using rep_step less.prems ne 1(6) up by metis
    then have ra1: "rep m1 (unat a) (unat r)" using 1(5) by blast
    have nr: "unat a \<noteq> unat r" using ra ne rep_props by metis
    have r36: "unat r < 2 ^ 36" using rep_props [OF ra] f by (auto simp: forest_def)
    let ?m2 = "set_parent m1 (unat a) (unat r)"
    have "m1[unat a := (m1 ! unat a)\<lparr>e_parent := ucast r\<rparr>] = ?m2"
      by (simp add: set_parent_def)
    moreover have pr: "par ?m2 (unat a) = unat r"
      using r36 less.prems 1(3) by (simp add: par_set_parent)
    then have "ucast (e_parent (?m2 ! unat a)) = r"
      unfolding par_def by (intro word_eq_unatI) (subst unat_ucast_up, simp_all)
    ultimately have "find_and_compress m a = Some (Inr (?m2, r))"
      using less.prems False 1(1) by (subst find_and_compress.simps) (simp add: p_def [symmetric] Let_def)
    moreover have rep2: "rep ?m2 i s \<longleftrightarrow> rep m1 i s" for i s
      by (rule compress_rep [OF uf_inv_forest [OF 1(2)] ra1 nr])
    moreover have "uf_inv ?m2"
    proof -
      have f2: "forest ?m2"
        using rep_props [OF ra1] rep_rank [OF ra1 uf_inv_forest [OF 1(2)] nr] uf_inv_forest [OF 1(2)]
        by (intro forest_set_parent) auto
      have "2 ^ rnk ?m2 s \<le> card {i. rep ?m2 i s}" if "s < length ?m2" "par ?m2 s = s" for s
      proof -
        have "rep m1 s s" using that rep_self rep2 by blast
        then show ?thesis using 1(2) rep_props by (simp add: rep2 uf_inv_def) blast
      qed
      then show ?thesis using f2 by (simp add: uf_inv_def)
    qed
    ultimately show ?thesis using 1(3-5) ra pr by auto
  qed
qed

lemma uf_inv_length: "uf_inv m \<Longrightarrow> length m \<le> 2 ^ 36"
  by (simp add: uf_inv_def forest_def)

lemma unat_uf_size: "uf_inv m \<Longrightarrow> unat (uf_size m) = length m"
  unfolding uf_size_def by (rule unat_of_nat_small) (use uf_inv_length [of m] in simp)

lemma size_le_iff: "uf_inv m \<Longrightarrow> uf_size m \<le> a \<longleftrightarrow> length m \<le> unat a"
  by (simp add: word_le_nat_alt unat_uf_size)

lemma uf_find_spec:
  assumes "uf_inv m" "unat a < length m"
  obtains m' r where "uf_find m a = Some (Inr (m', r))" "uf_inv m'" "length m' = length m"
    "map e_value m' = map e_value m" "rep m' = rep m" "rep m (unat a) (unat r)" "par m' (unat a) = unat r"
  using find_and_compress_spec [OF assms] assms by (auto simp: uf_find_def size_le_iff fun_eq_iff)

section \<open>Uniting\<close>

lemma finite_class: "finite {i. rep m i r}"
  by (rule finite_subset [of _ "{..<length m}"]) (auto dest: rep_props)

lemma card_class: "card {i. rep m i r} \<le> length m"
  using card_mono [of "{..<length m}" "{i. rep m i r}"] by (auto dest: rep_props)

text \<open>One root is hung below another.\<close>

lemma hang_rep:
  assumes "forest m" "rep m x x" "rep m y y" "x \<noteq> y" "length m' = length m"
    and par': "\<And>i. par m' i = (if i = x then y else par m i)"
  shows "rep m' i s \<longleftrightarrow> rep m i s \<and> s \<noteq> x \<or> rep m i x \<and> s = y"
proof -
  have yy: "rep m' y y" using assms by (auto simp: rep_self)
  then have xy: "rep m' x y" using rep_step [of x m' y] assms by (auto simp: rep_self)
  have fwd: "rep m' j (if t = x then y else t)" if "rep m j t" for j t
    using that
  proof (induction rule: rep.induct)
    case (rep_root j)
    then show ?case using xy assms(5) rep.rep_root [of j m'] by (cases "j = x") (simp_all add: par')
  next
    case (rep_step j t)
    have "j \<noteq> x" using rep_step.hyps assms(2) rep_props by metis
    then have "par m' j = par m j" by (simp add: par')
    then show ?case using rep.rep_step [of j m'] rep_step.hyps rep_step.IH assms(5) by metis
  qed
  show ?thesis
  proof
    assume s: "rep m' i s"
    then have "i < length m" using rep_props [OF s] assms(5) by simp
    then obtain t where t: "rep m i t" using rep_total [OF assms(1)] by blast
    then have "s = (if t = x then y else t)" using fwd rep_unique [OF s] by blast
    then show "rep m i s \<and> s \<noteq> x \<or> rep m i x \<and> s = y" using t by (auto split: if_splits)
  next
    assume "rep m i s \<and> s \<noteq> x \<or> rep m i x \<and> s = y"
    then show "rep m' i s" using fwd [of i s] fwd [of i x] by auto
  qed
qed

lemma hang_inv:
  assumes "uf_inv m" "rep m x x" "rep m y y" "x \<noteq> y" "length m' = length m"
    and par': "\<And>i. par m' i = (if i = x then y else par m i)"
    and rnk': "\<And>i. i \<noteq> y \<Longrightarrow> rnk m' i = rnk m i" "rnk m x < rnk m' y"
      "rnk m' y = rnk m y \<or> rnk m' y = rnk m y + 1 \<and> rnk m x = rnk m y"
  shows "uf_inv m'"
proof -
  note f = uf_inv_forest [OF assms(1)]
  note rep' = hang_rep [OF f assms(2-5) par']
  have ry: "rnk m y \<le> rnk m' y" using rnk'(3) by auto
  have "forest m'"
  proof -
    have "par m' i < length m' \<and> (par m' i \<noteq> i \<longrightarrow> rnk m' i < rnk m' (par m' i))" if "i < length m'" for i
    proof (cases "i = x")
      case True
      then show ?thesis using rnk' assms(4,5) rep_props [OF assms(3)] by (simp add: par')
    next
      case False
      then have "par m i < length m" "par m i \<noteq> i \<Longrightarrow> rnk m i < rnk m (par m i)"
        using f that assms(5) by (auto simp: forest_def)
      moreover have "par m y = y" using assms(3) by (simp add: rep_self)
      ultimately show ?thesis using False rnk'(1) [of i] rnk'(1) [of "par m i"] ry assms(5)
        by (cases "par m i = y"; cases "i = y") (auto simp: par')
    qed
    then show ?thesis using f assms(5) by (simp add: forest_def)
  qed
  moreover have "2 ^ rnk m' r \<le> card {i. rep m' i r}" if "r < length m'" "par m' r = r" for r
  proof -
    have rx: "r \<noteq> x" using that assms(4) by (auto simp: par')
    then have rr: "rep m r r" using that assms(5) by (simp add: rep_self par')
    have old: "2 ^ rnk m z \<le> card {i. rep m i z}" if "rep m z z" for z
      using assms(1) that by (simp add: uf_inv_def rep_self)
    show ?thesis
    proof (cases "r = y")
      case True
      have "{i. rep m' i y} = {i. rep m i x} \<union> {i. rep m i y}" using assms(4) by (auto simp: rep')
      moreover have "{i. rep m i x} \<inter> {i. rep m i y} = {}" using rep_unique assms(4) by blast
      ultimately have "card {i. rep m' i y} = card {i. rep m i x} + card {i. rep m i y}"
        by (simp add: card_Un_disjoint finite_class)
      then show ?thesis using old [OF assms(2)] old [OF assms(3)] rnk'(3) True by auto
    next
      case False
      then have "{i. rep m' i r} = {i. rep m i r}" using rx by (auto simp: rep')
      then show ?thesis using old [OF rr] rnk'(1) [OF False] by simp
    qed
  qed
  ultimately show ?thesis by (simp add: uf_inv_def)
qed

lemma rank_le_36:
  assumes "uf_inv m" "rep m r r"
  shows "rnk m r \<le> 36"
proof -
  have "2 ^ rnk m r \<le> card {i. rep m i r}" using assms by (simp add: uf_inv_def rep_self)
  also have "\<dots> \<le> 2 ^ 36" using card_class [of m r] uf_inv_length [OF assms(1)] by linarith
  finally have "(2 :: nat) ^ rnk m r \<le> 2 ^ 36" .
  then show ?thesis by (rule power_le_imp_le_exp [rotated]) simp
qed

lemma uf_link_spec:
  assumes "uf_inv m" "rep m (unat a) (unat a)" "rep m (unat b) (unat b)" "a \<noteq> b"
  shows "\<exists>m' x y. uf_link m a b = Inr m' \<and> uf_inv m' \<and> length m' = length m \<and> map e_value m' = map e_value m \<and>
    {x, y} = {unat a, unat b} \<and> (\<forall>i s. rep m' i s \<longleftrightarrow> rep m i s \<and> s \<noteq> x \<or> rep m i x \<and> s = y)"
proof -
  note f = uf_inv_forest [OF assms(1)]
  have ne: "unat a \<noteq> unat b" using assms(4) by (simp add: word_unat_eq_iff)
  have ab: "unat a < length m" "unat b < length m" using assms(2,3) by (simp_all add: rep_self)
  have s36: "unat a < 2 ^ 36" "unat b < 2 ^ 36" using ab f by (auto simp: forest_def)
  note sp = par_set_parent [OF ab(1) s36(2)] par_set_parent [OF ab(2) s36(1)]
  have lk: "m[unat a := (m ! unat a)\<lparr>e_parent := ucast b\<rparr>] = set_parent m (unat a) (unat b)"
    "m[unat b := (m ! unat b)\<lparr>e_parent := ucast a\<rparr>] = set_parent m (unat b) (unat a)"
    by (simp_all add: set_parent_def)
  have rk: "e_rank (m ! i) < e_rank (m ! j) \<longleftrightarrow> rnk m i < rnk m j" for i j
    by (simp add: rnk_def word_less_nat_alt)
  consider "rnk m (unat a) < rnk m (unat b)" | "rnk m (unat b) < rnk m (unat a)" | "rnk m (unat a) = rnk m (unat b)"
    by linarith
  then show ?thesis
  proof cases
    case 1
    let ?m = "set_parent m (unat a) (unat b)"
    have "uf_link m a b = Inr ?m" using 1 by (simp add: uf_link_def rk lk)
    moreover have "uf_inv ?m" by (rule hang_inv [OF assms(1-3) ne _ sp(1)]) (use 1 in simp_all)
    moreover note hang_rep [OF f assms(2,3) ne _ sp(1)]
    ultimately show ?thesis by (intro exI [of _ ?m] exI [of _ "unat a"] exI [of _ "unat b"]) simp
  next
    case 2
    let ?m = "set_parent m (unat b) (unat a)"
    have "uf_link m a b = Inr ?m" using 2 by (simp add: uf_link_def rk lk)
    moreover have "uf_inv ?m" by (rule hang_inv [OF assms(1,3,2) ne [symmetric] _ sp(2)]) (use 2 in simp_all)
    moreover note hang_rep [OF f assms(3,2) ne [symmetric] _ sp(2)]
    ultimately show ?thesis by (intro exI [of _ ?m] exI [of _ "unat b"] exI [of _ "unat a"]) (simp add: insert_commute)
  next
    case 3
    let ?b = "(m ! unat b)\<lparr>e_rank := e_rank (m ! unat b) + 1\<rparr>"
    let ?m = "(set_parent m (unat a) (unat b))[unat b := ?b]"
    have "rnk m (unat b) \<le> 36" by (rule rank_le_36 [OF assms(1,3)])
    then have u: "unat (e_rank (m ! unat b) + 1) = rnk m (unat b) + 1"
      unfolding rnk_def by (subst unat_add_nowrap) simp_all
    then have nz: "e_rank (m ! unat b) + 1 \<noteq> 0" by (metis Suc_eq_plus1 nat.distinct(1) unat_0)
    have par: "par ?m i = (if i = unat a then unat b else par m i)" for i
      using ne ab sp(1) [of i] by (cases "i = unat b") (simp_all add: par_def)
    have rnk1: "rnk ?m i = rnk m i" if "i \<noteq> unat b" for i
    proof -
      have "rnk ?m i = rnk (set_parent m (unat a) (unat b)) i" using that by (simp add: rnk_def)
      then show ?thesis by simp
    qed
    have rnk2: "rnk ?m (unat b) = rnk m (unat b) + 1" using ab u by (simp add: rnk_def)
    have "\<not> e_rank (m ! unat a) < e_rank (m ! unat b)" "\<not> e_rank (m ! unat a) > e_rank (m ! unat b)"
      using 3 by (simp_all add: rk)
    then have "uf_link m a b = Inr ?m" using nz by (simp add: uf_link_def lk Let_def)
    moreover have "uf_inv ?m" by (rule hang_inv [OF assms(1-3) ne _ par rnk1]) (use 3 rnk2 in simp_all)
    moreover have "map e_value ?m = map e_value m"
    proof -
      have "map e_value ?m = (map e_value m)[unat b := map e_value m ! unat b]"
        unfolding map_update set_parent_simps using ab by simp
      then show ?thesis by (simp only: list_update_id)
    qed
    moreover have "\<forall>i s. rep ?m i s \<longleftrightarrow> rep m i s \<and> s \<noteq> unat a \<or> rep m i (unat a) \<and> s = unat b"
      by (intro allI hang_rep [OF f assms(2,3) ne _ par]) simp
    moreover have "length ?m = length m" by simp
    ultimately show ?thesis
      by (intro exI [of _ ?m] exI [of _ "unat a"] exI [of _ "unat b"] conjI refl)
  qed
qed

lemma unite_spec:
  assumes "uf_inv m" "unat a < length m" "unat b < length m"
  obtains m' where "uf_unite m a b = Some (Inr m')" "uf_inv m'" "length m' = length m" "map e_value m' = map e_value m"
    "\<And>i j. same m' i j \<longleftrightarrow> same m i j \<or> same m i (unat a) \<and> same m (unat b) j \<or> same m i (unat b) \<and> same m (unat a) j"
proof -
  obtain m1 pa where 1: "uf_find m a = Some (Inr (m1, pa))" "uf_inv m1" "length m1 = length m"
    "map e_value m1 = map e_value m" "rep m1 = rep m" "rep m (unat a) (unat pa)" using uf_find_spec [OF assms(1,2)] .
  have "unat b < length m1" using assms(3) 1(3) by simp
  then obtain m2 pb where 2: "uf_find m1 b = Some (Inr (m2, pb))" "uf_inv m2" "length m2 = length m1"
    "map e_value m2 = map e_value m1" "rep m2 = rep m1" "rep m1 (unat b) (unat pb)" using uf_find_spec [OF 1(2)] by metis
  have rb: "rep m (unat b) (unat pb)" using 2(6) 1(5) by simp
  have r2: "rep m2 = rep m" using 1(5) 2(5) by simp
  have sa: "same m i (unat a) \<longleftrightarrow> rep m i (unat pa)" "same m (unat a) i \<longleftrightarrow> rep m i (unat pa)"
    "same m i (unat b) \<longleftrightarrow> rep m i (unat pb)" "same m (unat b) i \<longleftrightarrow> rep m i (unat pb)" for i
    using 1(6) rb rep_unique unfolding same_def by metis+
  show ?thesis
  proof (cases "pa = pb")
    case True
    then have u: "uf_unite m a b = Some (Inr m2)" using 1(1) 2(1) by (simp add: uf_unite_def)
    show ?thesis
    proof (rule that [OF u 2(2)])
      fix i j
      show "same m2 i j \<longleftrightarrow> same m i j \<or> same m i (unat a) \<and> same m (unat b) j \<or> same m i (unat b) \<and> same m (unat a) j"
        unfolding sa using True by (auto simp: same_def r2)
    qed (use 1 2 in simp_all)
  next
    case False
    have "rep m2 (unat pa) (unat pa)" "rep m2 (unat pb) (unat pb)"
      using rep_props [OF 1(6)] rep_props [OF rb] by (simp_all add: r2 rep_self)
    from uf_link_spec [OF 2(2) this False] obtain m3 x y where
      3: "uf_link m2 pa pb = Inr m3" "uf_inv m3" "length m3 = length m2" "map e_value m3 = map e_value m2"
        "{x, y} = {unat pa, unat pb}" "\<forall>i s. rep m3 i s \<longleftrightarrow> rep m2 i s \<and> s \<noteq> x \<or> rep m2 i x \<and> s = y"
      by (elim exE conjE) (rule that)
    have u: "uf_unite m a b = Some (Inr m3)" using 1(1) 2(1) 3(1) False by (simp add: uf_unite_def)
    have xy: "x = unat pa \<and> y = unat pb \<or> x = unat pb \<and> y = unat pa" using 3(5) by (auto simp: doubleton_eq_iff)
    show ?thesis
    proof (rule that [OF u 3(2)])
      fix i j
      have "same m3 i j \<longleftrightarrow> same m i j \<or> rep m i x \<and> rep m j y \<or> rep m i y \<and> rep m j x"
      proof -
        have r3: "rep m3 k s \<longleftrightarrow> rep m k s \<and> s \<noteq> x \<or> rep m k x \<and> s = y" for k s
          using 3(6) unfolding r2 by blast
        have "y \<noteq> x" using xy False by (auto simp: word_unat_eq_iff)
        then show ?thesis unfolding same_def r3 by (intro iffI) blast+
      qed
      then show "same m3 i j \<longleftrightarrow> same m i j \<or> same m i (unat a) \<and> same m (unat b) j \<or> same m i (unat b) \<and> same m (unat a) j"
        unfolding sa using xy by blast
    qed (use 1 2 3 in simp_all)
  qed
qed

section \<open>New elements\<close>

lemma make_set_full: "length m = 2 ^ 36 \<Longrightarrow> make_set m v = Inl StdOverflowError"
  by (simp add: make_set_def uf_size_def new_entry_def)

lemma make_set_spec:
  assumes "uf_inv m" "length m < 2 ^ 36"
  obtains m' where "make_set m v = Inr (m', of_nat (length m))" "uf_inv m'" "length m' = length m + 1"
    "map e_value m' = map e_value m @ [v]"
    "\<And>i s. rep m' i s \<longleftrightarrow> rep m i s \<or> i = length m \<and> s = length m"
proof -
  let ?n = "length m"
  let ?e = "\<lparr>e_value = v, e_parent = of_nat ?n, e_rank = 0\<rparr>"
  let ?m = "m @ [?e]"
  note f = uf_inv_forest [OF assms(1)]
  have u: "unat (of_nat ?n :: 36 word) = ?n" "unat (of_nat ?n :: u64) = ?n"
    using assms(2) by (simp_all add: unat_of_nat_small)
  have "ucast (of_nat ?n :: 36 word) = (of_nat ?n :: u64)"
    by (rule word_eq_unatI) (subst unat_ucast_up, simp_all only: u, simp)
  moreover have "ucast (of_nat ?n :: u64) = (of_nat ?n :: 36 word)"
    by (rule word_eq_unatI) (use assms(2) in \<open>simp add: unsigned_ucast_eq take_bit_eq_mod unat_of_nat\<close>)
  ultimately have mk: "make_set m v = Inr (?m, of_nat ?n)"
    by (simp add: make_set_def uf_size_def new_entry_def Let_def)
  have par: "par ?m i = (if i = ?n then ?n else par m i)" "rnk ?m i = (if i = ?n then 0 else rnk m i)" if "i \<le> ?n" for i
    using that u by (auto simp: par_def rnk_def nth_append)
  have fwd: "rep ?m i s" if "rep m i s" for i s
    using that
  proof (induction rule: rep.induct)
    case (rep_root i)
    then show ?case by (intro rep.rep_root) (auto simp: par)
  next
    case (rep_step i s)
    then show ?case using rep.rep_step [of i ?m s] by (simp add: par)
  qed
  have nn: "rep ?m ?n ?n" by (simp add: rep_self par)
  have rep: "rep ?m i s \<longleftrightarrow> rep m i s \<or> i = ?n \<and> s = ?n" for i s
  proof
    assume s: "rep ?m i s"
    show "rep m i s \<or> i = ?n \<and> s = ?n"
    proof (cases "i = ?n")
      case True
      then show ?thesis using rep_unique [OF s] nn by blast
    next
      case False
      then obtain t where "rep m i t" using rep_total [OF f, of i] rep_props [OF s] by auto
      then show ?thesis using rep_unique [OF s] fwd by blast
    qed
  qed (use fwd nn in blast)
  have "forest ?m" using f assms(2) by (auto simp: forest_def par less_Suc_eq le_less)
  moreover have "2 ^ rnk ?m r \<le> card {i. rep ?m i r}" if "r < length ?m" "par ?m r = r" for r
  proof (cases "r = ?n")
    case True
    have "\<not> rep m i ?n" for i using rep_props by blast
    then have "{i. rep ?m i r} = {?n}" using True by (auto simp: rep)
    then show ?thesis using True by (simp add: par)
  next
    case False
    then have "{i. rep ?m i r} = {i. rep m i r}" by (auto simp: rep)
    then show ?thesis using that False assms(1) by (simp add: par uf_inv_def)
  qed
  ultimately have "uf_inv ?m" by (simp add: uf_inv_def)
  then show ?thesis using that [OF mk] rep by simp
qed

lemma uf_inv_Nil: "uf_inv []"
  by (simp add: uf_inv_def forest_def)

end
