(* ===== verification/UnionFindProps.thy ===== *)
theory UnionFindProps
  imports UnionFind
begin

text \<open>
  What \<open>UnionFind\<close> promises. The interface \<open>partition_structure\<close> says what adding an element and
  joining two classes do to the equivalence that the structure stands for; within it every run of such
  operations gives the equivalence generated by the joined pairs. The code's model is interpreted as
  an instance, and the properties follow.
\<close>

datatype 'v uf_op = MakeSet 'v | Unite u64 u64

text \<open>A client performing a list of operations, and the conditions on its handles.\<close>

fun run_ops :: "('s \<Rightarrow> 'v \<Rightarrow> ('s \<times> u64) res) \<Rightarrow> ('s \<Rightarrow> u64 \<Rightarrow> u64 \<Rightarrow> 's res option) \<Rightarrow> 'v uf_op list \<Rightarrow> 's \<Rightarrow> 's res option" where
  "run_ops add join [] s = Some (Inr s)"
| "run_ops add join (MakeSet v # os) s =
     (case add s v of Inl e \<Rightarrow> Some (Inl e) | Inr (s', _) \<Rightarrow> run_ops add join os s')"
| "run_ops add join (Unite a b # os) s =
     (case join s a b of None \<Rightarrow> None | Some (Inl e) \<Rightarrow> Some (Inl e) | Some (Inr s') \<Rightarrow> run_ops add join os s')"

fun handles_ok :: "'v uf_op list \<Rightarrow> nat \<Rightarrow> bool" where
  "handles_ok [] n = (n \<le> 2 ^ 36)"
| "handles_ok (MakeSet v # os) n = (n < 2 ^ 36 \<and> handles_ok os (n + 1))"
| "handles_ok (Unite a b # os) n = (unat a < n \<and> unat b < n \<and> handles_ok os n)"

fun made :: "'v uf_op list \<Rightarrow> 'v list" where
  "made [] = []"
| "made (MakeSet v # os) = v # made os"
| "made (Unite a b # os) = made os"

fun united :: "'v uf_op list \<Rightarrow> (nat \<times> nat) set" where
  "united [] = {}"
| "united (MakeSet v # os) = united os"
| "united (Unite a b # os) = {(unat a, unat b), (unat b, unat a)} \<union> united os"

section \<open>The interface\<close>

locale partition_structure =
  fixes inv :: "'s \<Rightarrow> bool" and elems :: "'s \<Rightarrow> 'v list" and eqv :: "'s \<Rightarrow> nat \<Rightarrow> nat \<Rightarrow> bool"
    and add :: "'s \<Rightarrow> 'v \<Rightarrow> ('s \<times> u64) res" and join :: "'s \<Rightarrow> u64 \<Rightarrow> u64 \<Rightarrow> 's res option"
  assumes eqv_equiv: "inv s \<Longrightarrow> equiv {..<length (elems s)} {(i, j). eqv s i j}"
    and add_ok: "inv s \<Longrightarrow> length (elems s) < 2 ^ 36 \<Longrightarrow>
      \<exists>s'. add s v = Inr (s', of_nat (length (elems s))) \<and> inv s' \<and> elems s' = elems s @ [v] \<and>
        (\<forall>i j. eqv s' i j \<longleftrightarrow> eqv s i j \<or> i = length (elems s) \<and> j = length (elems s))"
    and join_ok: "inv s \<Longrightarrow> unat a < length (elems s) \<Longrightarrow> unat b < length (elems s) \<Longrightarrow>
      \<exists>s'. join s a b = Some (Inr s') \<and> inv s' \<and> elems s' = elems s \<and>
        (\<forall>i j. eqv s' i j \<longleftrightarrow>
          eqv s i j \<or> eqv s i (unat a) \<and> eqv s (unat b) j \<or> eqv s i (unat b) \<and> eqv s (unat a) j)"
begin

definition rel :: "'s \<Rightarrow> (nat \<times> nat) set" where
  "rel s = {(i, j). eqv s i j}"

lemma rel_rtrancl: "inv s \<Longrightarrow> (i, j) \<in> (rel s)\<^sup>* \<longleftrightarrow> i = j \<or> eqv s i j"
  using eqv_equiv [of s] trancl_id [of "rel s"]
  by (auto simp: rtrancl_eq_or_trancl equiv_def rel_def)

lemma run_equivalence:
  assumes "inv s" "handles_ok os (length (elems s))"
  shows "\<exists>s'. run_ops add join os s = Some (Inr s') \<and> inv s' \<and> elems s' = elems s @ made os \<and>
    (rel s')\<^sup>* = (rel s \<union> united os)\<^sup>*"
  using assms
proof (induction os arbitrary: s)
  case Nil
  then show ?case by auto
next
  case (Cons x os)
  show ?case
  proof (cases x)
    case (MakeSet v)
    then have lt: "length (elems s) < 2 ^ 36" using Cons.prems(2) by simp
    from add_ok [OF Cons.prems(1) lt, of v] obtain s1 where 1: "add s v = Inr (s1, of_nat (length (elems s)))" "inv s1" "elems s1 = elems s @ [v]"
      "\<forall>i j. eqv s1 i j \<longleftrightarrow> eqv s i j \<or> i = length (elems s) \<and> j = length (elems s)"
      by (elim exE conjE) (rule that)
    have "handles_ok os (length (elems s1))" using Cons.prems(2) MakeSet 1(3) by simp
    from Cons.IH [OF 1(2) this] obtain s' where
      2: "run_ops add join os s1 = Some (Inr s')" "inv s'" "elems s' = elems s1 @ made os"
        "(rel s')\<^sup>* = (rel s1 \<union> united os)\<^sup>*" by blast
    have "rel s1 = rel s \<union> {(length (elems s), length (elems s))}" using 1(4) by (auto simp: rel_def)
    then have "(rel s1 \<union> united os)\<^sup>* = (rel s \<union> united os)\<^sup>*"
      by (intro rtrancl_subset) auto
    then show ?thesis using 1(1,3) 2 MakeSet by simp
  next
    case (Unite a b)
    then have lt: "unat a < length (elems s)" "unat b < length (elems s)" using Cons.prems(2) by simp_all
    from join_ok [OF Cons.prems(1) lt] obtain s1 where 1: "join s a b = Some (Inr s1)" "inv s1" "elems s1 = elems s"
      "\<forall>i j. eqv s1 i j \<longleftrightarrow>
          eqv s i j \<or> eqv s i (unat a) \<and> eqv s (unat b) j \<or> eqv s i (unat b) \<and> eqv s (unat a) j"
      by (elim exE conjE) (rule that)
    have "handles_ok os (length (elems s1))" using Cons.prems(2) Unite 1(3) by simp
    from Cons.IH [OF 1(2) this] obtain s' where
      2: "run_ops add join os s1 = Some (Inr s')" "inv s'" "elems s' = elems s1 @ made os"
        "(rel s')\<^sup>* = (rel s1 \<union> united os)\<^sup>*" by blast
    let ?R = "rel s \<union> united (Unite a b # os)"
    have refl: "eqv s (unat a) (unat a)" "eqv s (unat b) (unat b)"
      using eqv_equiv [OF Cons.prems(1)] Cons.prems(2) Unite by (auto simp: equiv_def refl_on_def)
    have "?R \<subseteq> rel s1 \<union> united os" using 1(4) refl by (auto simp: rel_def)
    moreover have "rel s1 \<union> united os \<subseteq> ?R\<^sup>*"
    proof -
      have e: "(i, j) \<in> ?R\<^sup>*" if "eqv s i j" for i j using that by (auto simp: rel_def)
      have ab: "(unat a, unat b) \<in> ?R\<^sup>*" "(unat b, unat a) \<in> ?R\<^sup>*" by auto
      have "(i, j) \<in> ?R\<^sup>*" if "eqv s1 i j" for i j
        using that 1(4) e ab rtrancl_trans by metis
      then show ?thesis by (auto simp: rel_def)
    qed
    ultimately have "(rel s1 \<union> united os)\<^sup>* = ?R\<^sup>*" by (rule rtrancl_subset)
    then show ?thesis using 1(1,3) 2 Unite by simp
  qed
qed

end

section \<open>The model provides it\<close>

lemma same_make_set:
  assumes "\<And>i s. rep m' i s \<longleftrightarrow> rep m i s \<or> i = length m \<and> s = length m"
  shows "same m' i j \<longleftrightarrow> same m i j \<or> i = length m \<and> j = length m"
  unfolding same_def assms using rep_props [of m i "length m"] rep_props [of m j "length m"] by blast

lemma same_trans: "same m i j \<Longrightarrow> same m j k \<Longrightarrow> same m i k"
  unfolding same_def using rep_unique by metis

lemma same_equiv:
  assumes "uf_inv m"
  shows "equiv {..<length m} {(i, j). same m i j}"
proof (intro equivI)
  have "same m i i" if "i < length m" for i
    using rep_total [OF uf_inv_forest [OF assms] that] by (auto simp: same_def)
  then show "refl_on {..<length m} {(i, j). same m i j}" by (simp add: refl_on_def)
  show "sym {(i, j). same m i j}" by (auto simp: sym_def same_def)
  show "trans {(i, j). same m i j}" by (rule transI) (use same_trans in blast)
  show "{(i, j). same m i j} \<subseteq> {..<length m} \<times> {..<length m}"
    unfolding same_def using rep_props [of m] by blast
qed

interpretation uf: partition_structure uf_inv "map e_value" same make_set uf_unite
proof unfold_locales
  fix m :: "'a uf"
  assume i: "uf_inv m"
  show "equiv {..<length (map e_value m)} {(i, j). same m i j}" using same_equiv [OF i] by simp
  fix v
  assume "length (map e_value m) < 2 ^ 36"
  then have "length m < 2 ^ 36" by simp
  from make_set_spec [OF i this, of v] obtain m' where
    1: "make_set m v = Inr (m', of_nat (length m))" "uf_inv m'" "map e_value m' = map e_value m @ [v]"
      "\<And>i s. rep m' i s \<longleftrightarrow> rep m i s \<or> i = length m \<and> s = length m" by metis
  note same_make_set [OF 1(4)]
  then show "\<exists>m'. make_set m v = Inr (m', of_nat (length (map e_value m))) \<and> uf_inv m' \<and> map e_value m' = map e_value m @ [v] \<and>
      (\<forall>i j. same m' i j \<longleftrightarrow> same m i j \<or> i = length (map e_value m) \<and> j = length (map e_value m))"
    using 1(1-3) by (intro exI [of _ m']) simp
next
  fix m :: "'a uf" and a b :: u64
  assume i: "uf_inv m" and "unat a < length (map e_value m)" "unat b < length (map e_value m)"
  then have "unat a < length m" "unat b < length m" by simp_all
  from unite_spec [OF i this] show "\<exists>m'. uf_unite m a b = Some (Inr m') \<and> uf_inv m' \<and> map e_value m' = map e_value m \<and>
      (\<forall>i j. same m' i j \<longleftrightarrow> same m i j \<or> same m i (unat a) \<and> same m (unat b) j \<or> same m i (unat b) \<and> same m (unat a) j)"
    by metis
qed

section \<open>Properties\<close>

lemma find_eq_same:
  assumes "uf_inv m" "unat a < length m" "unat b < length m"
  obtains m1 m2 r s where "uf_find m a = Some (Inr (m1, r))" "uf_find m1 b = Some (Inr (m2, s))"
    "r = s \<longleftrightarrow> same m (unat a) (unat b)"
proof -
  obtain m1 r where 1: "uf_find m a = Some (Inr (m1, r))" "uf_inv m1" "length m1 = length m" "rep m1 = rep m"
    "rep m (unat a) (unat r)" using uf_find_spec [OF assms(1,2)] .
  have "unat b < length m1" using 1(3) assms(3) by simp
  then obtain m2 s where 2: "uf_find m1 b = Some (Inr (m2, s))" "rep m1 (unat b) (unat s)"
    using uf_find_spec [OF 1(2)] by metis
  have "rep m (unat b) (unat s)" using 2(2) 1(4) by simp
  then have "r = s \<longleftrightarrow> same m (unat a) (unat b)"
    using 1(5) rep_unique unfolding same_def word_unat_eq_iff by metis
  then show ?thesis using that 1(1) 2(1) by blast
qed

text \<open>C12: Whatever elements are made and whatever pairs are united, in any order, the searches for two
  handles return the same representative exactly when the handles are connected by the united pairs.
  Every search and every union returns, and none of them throws.\<close>

theorem unite_find_equivalence:
  assumes "handles_ok ops 0"
  shows "\<exists>m. run_ops make_set uf_unite ops [] = Some (Inr m) \<and> length m = length (made ops) \<and>
    (\<forall>a b. unat a < length m \<longrightarrow> unat b < length m \<longrightarrow>
      (\<exists>m1 m2 r s. uf_find m a = Some (Inr (m1, r)) \<and> uf_find m1 b = Some (Inr (m2, s)) \<and>
        (r = s \<longleftrightarrow> (unat a, unat b) \<in> (united ops)\<^sup>*)))"
proof -
  have "handles_ok ops (length (map e_value ([] :: 'a uf)))" using assms by simp
  from uf.run_equivalence [OF uf_inv_Nil this] obtain m where
    m: "run_ops make_set uf_unite ops [] = Some (Inr m)" "uf_inv m" "map e_value m = made ops"
      "(uf.rel m)\<^sup>* = (uf.rel ([] :: 'a uf) \<union> united ops)\<^sup>*" by (elim exE conjE) (rule that, simp_all)
  have "uf.rel ([] :: 'a uf) = {}" unfolding uf.rel_def same_def using rep_props [of "[]"] by fastforce
  then have r: "(uf.rel m)\<^sup>* = (united ops)\<^sup>*" using m(4) by simp
  have e: "same m (unat a) (unat b) \<longleftrightarrow> (unat a, unat b) \<in> (united ops)\<^sup>*" if "unat a < length m" for a b :: u64
    using uf.rel_rtrancl [OF m(2)] rep_total [OF uf_inv_forest [OF m(2)] that] unfolding r same_def by metis
  have "length m = length (made ops)" using arg_cong [OF m(3), of length] by simp
  moreover have "\<exists>m1 m2 r s. uf_find m a = Some (Inr (m1, r)) \<and> uf_find m1 b = Some (Inr (m2, s)) \<and>
      (r = s \<longleftrightarrow> (unat a, unat b) \<in> (united ops)\<^sup>*)" if "unat a < length m" "unat b < length m" for a b
    using find_eq_same [OF m(2) that] e [OF that(1)] by metis
  ultimately show ?thesis using m(1) by blast
qed

theorem unite_find_equivalence_witness:
  "\<exists>m m1 m2 r. run_ops make_set uf_unite [MakeSet 7, MakeSet 8, MakeSet (9 :: nat), Unite 0 2] [] = Some (Inr m) \<and>
    uf_find m 0 = Some (Inr (m1, r)) \<and> uf_find m1 2 = Some (Inr (m2, r))"
proof -
  let ?ops = "[MakeSet 7, MakeSet 8, MakeSet (9 :: nat), Unite 0 2]"
  have "handles_ok ?ops 0" by simp
  from unite_find_equivalence [OF this] obtain m where m: "run_ops make_set uf_unite ?ops [] = Some (Inr m)"
    "length m = 3" "\<And>a b. unat a < length m \<Longrightarrow> unat b < length m \<Longrightarrow>
      \<exists>m1 m2 r s. uf_find m a = Some (Inr (m1, r)) \<and> uf_find m1 b = Some (Inr (m2, s)) \<and>
        (r = s \<longleftrightarrow> (unat a, unat b) \<in> (united ?ops)\<^sup>*)" by auto
  have "(unat (0 :: u64), unat (2 :: u64)) \<in> (united ?ops)\<^sup>*" by auto
  then show ?thesis using m(1) m(3) [of 0 2] m(2) by auto
qed

text \<open>C13: A search for a handle of the structure returns the root of its class, keeps every class and every
  value, and leaves the handle pointing directly at the root. A handle outside throws. No call runs forever.\<close>

theorem find_returns_root:
  assumes "uf_inv m"
  shows "if unat a < length m
    then \<exists>m' r. uf_find m a = Some (Inr (m', r)) \<and> uf_inv m' \<and> map e_value m' = map e_value m \<and>
      rep m (unat a) (unat r) \<and> par m' (unat a) = unat r \<and> (\<forall>i j. same m' i j \<longleftrightarrow> same m i j)
    else uf_find m a = Some (Inl StdOutOfRange)"
proof (cases "unat a < length m")
  case True
  from uf_find_spec [OF assms True] obtain m' r where "uf_find m a = Some (Inr (m', r))" "uf_inv m'"
    "map e_value m' = map e_value m" "rep m' = rep m" "rep m (unat a) (unat r)" "par m' (unat a) = unat r" .
  then show ?thesis using True by (auto simp: same_def)
qed (use assms in \<open>simp add: uf_find_def size_le_iff\<close>)

theorem find_returns_root_witness:
  "\<exists>m' r. uf_find [\<lparr>e_value = (), e_parent = 1, e_rank = 0\<rparr>, \<lparr>e_value = (), e_parent = 1, e_rank = 1\<rparr>] 0 = Some (Inr (m', r)) \<and>
    uf_inv m'"
proof -
  let ?m = "[\<lparr>e_value = (), e_parent = 1, e_rank = 0\<rparr>, \<lparr>e_value = (), e_parent = 1, e_rank = 1\<rparr>]"
  have l: "i < length ?m \<longleftrightarrow> i = 0 \<or> i = 1" for i by auto
  have p: "par ?m 0 = 1" "par ?m 1 = 1" "rnk ?m 0 = 0" "rnk ?m 1 = 1" by (simp_all add: par_def rnk_def)
  have f: "forest ?m" unfolding forest_def l using p by auto
  have r1: "rep ?m 1 1" using p(2) by (simp add: rep_self)
  then have r0: "rep ?m 0 1" using rep_step [of 0 ?m 1] p(1) by simp
  have "{0, 1} \<subseteq> {i. rep ?m i 1}" using r0 r1 by simp
  then have "card {0, 1 :: nat} \<le> card {i. rep ?m i 1}" by (rule card_mono [OF finite_class])
  then have "2 ^ rnk ?m r \<le> card {i. rep ?m i r}" if "r < length ?m" "par ?m r = r" for r
    using that p unfolding l by auto
  then have "uf_inv ?m" using f by (simp add: uf_inv_def)
  then show ?thesis using find_returns_root [of ?m 0] by auto
qed

text \<open>Uniting two handles merges their two classes and touches no other, keeps the values, and never
  throws: the rank fits its 28 bits however many of the 2^36 possible elements there are. Making an element
  gives it the next handle and a class of its own, and throws at the 2^36th.\<close>

theorem unite_merges_classes:
  assumes "uf_inv m"
  shows "(unat a < length m \<and> unat b < length m \<longrightarrow>
      (\<exists>m'. uf_unite m a b = Some (Inr m') \<and> uf_inv m' \<and> map e_value m' = map e_value m \<and>
        (\<forall>i j. same m' i j \<longleftrightarrow>
          same m i j \<or> same m i (unat a) \<and> same m (unat b) j \<or> same m i (unat b) \<and> same m (unat a) j))) \<and>
    (if length m < 2 ^ 36
     then \<exists>m'. make_set m v = Inr (m', of_nat (length m)) \<and> uf_inv m' \<and> map e_value m' = map e_value m @ [v] \<and>
       (\<forall>i j. same m' i j \<longleftrightarrow> same m i j \<or> i = length m \<and> j = length m)
     else make_set m v = Inl StdOverflowError)"
proof (rule conjI)
  show "unat a < length m \<and> unat b < length m \<longrightarrow>
      (\<exists>m'. uf_unite m a b = Some (Inr m') \<and> uf_inv m' \<and> map e_value m' = map e_value m \<and>
        (\<forall>i j. same m' i j \<longleftrightarrow>
          same m i j \<or> same m i (unat a) \<and> same m (unat b) j \<or> same m i (unat b) \<and> same m (unat a) j))"
    using uf.join_ok [OF assms, of a b] by simp
  show "if length m < 2 ^ 36
     then \<exists>m'. make_set m v = Inr (m', of_nat (length m)) \<and> uf_inv m' \<and> map e_value m' = map e_value m @ [v] \<and>
       (\<forall>i j. same m' i j \<longleftrightarrow> same m i j \<or> i = length m \<and> j = length m)
     else make_set m v = Inl StdOverflowError"
    using uf.add_ok [OF assms, of v] make_set_full [of m v] uf_inv_length [OF assms] by simp
qed

theorem unite_merges_classes_witness:
  "\<exists>m' :: nat uf. make_set [] 5 = Inr (m', 0) \<and> uf_inv m'"
  using unite_merges_classes [OF uf_inv_Nil, of 0 0 "5 :: nat"] by auto

end
