(* ===== verification/RLEStream.thy ===== *)
theory RLEStream
  imports AdapterStream UtilMath
begin

text \<open>
  \<open>RLEStream\<close> (\<open>include/sserialize/containers/RLEStream.h\<close>, \<open>src/containers/RLEStream.cpp\<close>): a stream of
  32 bit numbers, stored as differences, with runs of equal differences stored once. The low two bits of a code word
  tell its kind: a positive difference, a negative one, a full number, or a run, whose difference follows.

  The creator holds a reference to the destination; here the destination is passed along. The
  destructor of the creator is a \<open>flush\<close>. \<open>rle_next\<close> is \<open>operator++\<close> and \<open>s_id\<close> is
  \<open>operator*\<close>; the constructor of the stream calls \<open>operator++\<close> once.
\<close>

section \<open>The creator\<close>




definition neg_s32 :: "s32 \<Rightarrow> s32 res" where
  "neg_s32 x = (if sint x = - (2 ^ 31) then Inl UndefinedBehaviour else Inr (- x))"




section \<open>The stream\<close>

record rle_stream =
  s_d :: uba
  s_count :: u32
  s_diff :: s32
  s_id :: u32

definition rle_step :: "rle_stream \<Rightarrow> rle_stream res" where
  "rle_step s0 =
     (let s = s0\<lparr>s_count := s_count s0 - 1\<rparr>
      in if sint (s_diff s) < 0 then bindE (neg_s32 (s_diff s)) (\<lambda>n. Inr (s\<lparr>s_id := s_id s - n\<rparr>))
         else Inr (s\<lparr>s_id := s_id s + s_diff s\<rparr>))"

definition rle_next :: "heap \<Rightarrow> rle_stream \<Rightarrow> rle_stream res" where
  "rle_next h s =
     (if s_count s = 0 then
        bindE (case stream_getVlPackedUint64 h (s_d s) of Inl OutOfBoundsException \<Rightarrow> Inr (0, s_d s) | r \<Rightarrow> r) (\<lambda>(curWord, d).
          let tmp = curWord AND 3; curWord = drop_bit 2 curWord; s = s\<lparr>s_d := d\<rparr>
          in if tmp = 0 then Inr (s\<lparr>s_id := s_id s + ucast curWord\<rparr>)
             else if tmp = 1 then Inr (s\<lparr>s_id := s_id s - ucast curWord\<rparr>)
             else if tmp = 2 then Inr (s\<lparr>s_id := ucast curWord\<rparr>)
             else bindE (stream_getVlPackedInt32 h d) (\<lambda>(diff, d).
                    rle_step (s\<lparr>s_d := d, s_count := ucast curWord, s_diff := diff\<rparr>)))
      else rle_step s)"

definition rle_initial :: "uba \<Rightarrow> rle_stream" where
  "rle_initial begin = \<lparr>s_d = begin, s_count = 0, s_diff = 0, s_id = 0\<rparr>"

definition rle_new :: "heap \<Rightarrow> uba \<Rightarrow> rle_stream res" where
  "rle_new h begin = rle_next h (rle_initial begin)"

definition rle_hasNext :: "rle_stream \<Rightarrow> bool" where
  "rle_hasNext s = uba_getPtrHasNext (s_d s)"

section \<open>Clients\<close>



fun rle_take :: "heap \<Rightarrow> rle_stream \<Rightarrow> nat \<Rightarrow> (u32 list \<times> rle_stream) res" where
  "rle_take h s 0 = Inr ([], s)"
| "rle_take h s (Suc n) = bindE (rle_next h s) (\<lambda>s. bindE (rle_take h s n) (\<lambda>(vs, s'). Inr (s_id s # vs, s')))"

definition rle_read :: "heap \<Rightarrow> uba \<Rightarrow> nat \<Rightarrow> u32 list res" where
  "rle_read h begin n =
     (if n = 0 then Inr [] else bindE (rle_new h begin) (\<lambda>s. bindE (rle_take h s (n - 1)) (\<lambda>(vs, _). Inr (s_id s # vs))))"




section \<open>Code words\<close>

datatype rle_tok = Diff s32 | Full u32 | Run u32 s32

fun tok_items :: "rle_tok \<Rightarrow> item list" where
  "tok_items (Diff d) = [IVlPackedUint64 (if sint d < 0 then push_bit 2 (scast (- d)) OR 1 else push_bit 2 (scast d) OR 0)]"
| "tok_items (Full v) = [IVlPackedUint64 (push_bit 2 (ucast v) OR 2)]"
| "tok_items (Run n d) = [IVlPackedUint64 (ucast (push_bit 2 n OR 3)), IVlPackedInt32 d]"






definition tok_bytes :: "rle_tok list \<Rightarrow> bytes" where
  "tok_bytes ts = concat (map item_code (concat (map tok_items ts)))"

lemma tok_bytes_simps [simp]: "tok_bytes [] = []" "tok_bytes (ts @ us) = tok_bytes ts @ tok_bytes us"
  by (simp_all add: tok_bytes_def)





section \<open>Reading\<close>










section \<open>Writing\<close>








section \<open>Properties\<close>












text \<open>Behind the last number the stream stays where it is: advancing throws nothing, keeps the number
  and the position, and may be repeated.\<close>

theorem rle_end_is_stable:
  assumes "uba_inv h (s_d s)" "s_count s = 0" "m_getPtr (s_d s) = m_len (s_d s)"
  shows "rle_next h s = Inr s \<and> \<not> rle_hasNext s"
proof -
  have "stream_getVlPackedUint64 h (s_d s) = Inl OutOfBoundsException"
    using assms(3) uba_inv_bounds [OF assms(1)]
    by (simp add: stream_getVlPackedUint64_def streaming_getVl_def uba_getVlPackedUint64_def vl_access_at_def range_check_cases)
  then show ?thesis using assms(2,3) by (simp add: rle_next_def rle_hasNext_def uba_getPtrHasNext_def Let_def)
qed

theorem rle_end_is_stable_witness:
  "rle_next (\<lambda>_. \<lparr>kind = VectorB, mem = [4]\<rparr>) \<lparr>s_d = (uba_of_priv 0 0 1)\<lparr>m_getPtr := 1\<rparr>, s_count = 0, s_diff = 0, s_id = 1\<rparr> =
    Inr \<lparr>s_d = (uba_of_priv 0 0 1)\<lparr>m_getPtr := 1\<rparr>, s_count = 0, s_diff = 0, s_id = 1\<rparr>"
  using rle_end_is_stable [of "\<lambda>_. \<lparr>kind = VectorB, mem = [4]\<rparr>"
      "\<lparr>s_d = (uba_of_priv 0 0 1)\<lparr>m_getPtr := 1\<rparr>, s_count = 0, s_diff = 0, s_id = 1\<rparr>"]
  by (simp add: uba_inv_def live_def storage_def uba_of_priv_def max_size_def)

text \<open>The stream reports that nothing follows as soon as its bytes are read, although numbers of the last
  run are still to come.\<close>

theorem rle_hasNext_ignores_run:
  shows "\<exists>h u. rle_new h u = Inr \<lparr>s_d = u\<lparr>m_getPtr := m_len u\<rparr>, s_count = 2, s_diff = 5, s_id = 5\<rparr> \<and>
    \<not> rle_hasNext \<lparr>s_d = u\<lparr>m_getPtr := m_len u\<rparr>, s_count = 2, s_diff = 5, s_id = 5\<rparr> \<and>
    rle_read h u 3 = Inr [5, 10, 15]"
proof (intro exI conjI)
  let ?h = "\<lambda>_ :: nat. \<lparr>kind = VectorB, mem = [15, 10]\<rparr>" and ?u = "uba_of_priv 0 0 2"
  show "rle_new ?h ?u = Inr \<lparr>s_d = ?u\<lparr>m_getPtr := m_len ?u\<rparr>, s_count = 2, s_diff = 5, s_id = 5\<rparr>" by code_simp
  show "\<not> rle_hasNext \<lparr>s_d = ?u\<lparr>m_getPtr := m_len ?u\<rparr>, s_count = 2, s_diff = 5, s_id = 5\<rparr>" by code_simp
  show "rle_read ?h ?u 3 = Inr [5, 10, 15]" by code_simp
qed

end
