(* ===== verification/DynamicBitSet.thy ===== *)
theory DynamicBitSet
  imports AdapterCopy
begin

text \<open>
  \<open>DynamicBitSet\<close> (\<open>include/sserialize/containers/DynamicBitSet.h\<close>, \<open>src/containers/DynamicBitSet.cpp\<close>): a set of
  numbers as the bits of the bytes of an adapter, which is its only member. \<open>m_data[i]\<close>
  is a read or a write of one byte. The operators that return a new set take the address \<open>r\<close> of the storage
  that \<open>createCache\<close> obtains.
\<close>

section \<open>Single elements\<close>

definition dbs_new :: "heap \<Rightarrow> nat \<Rightarrow> (heap \<times> uba) res" where
  "dbs_new h r = createCache h r 0"

definition dbs_isSet :: "heap \<Rightarrow> uba \<Rightarrow> u64 \<Rightarrow> bool res" where
  "dbs_isSet h m pos =
     (if m_len m > pos div 8
      then bindE (uba_at h m (pos div 8)) (\<lambda>b. Inr (b AND push_bit (unat (pos mod 8)) 1 \<noteq> 0))
      else Inr False)"

definition dbs_set :: "heap \<Rightarrow> uba \<Rightarrow> u64 \<Rightarrow> (heap \<times> uba) res" where
  "dbs_set h m pos =
     (let offset = pos div 8; inByteOffset = unat (pos mod 8)
      in bindE (if offset \<ge> m_len m then bindE (uba_growStorage h m (offset + 1 - m_len m)) (\<lambda>(_, h, m). Inr (h, m))
                else Inr (h, m)) (\<lambda>(h, m).
         bindE (modify h m offset (\<lambda>b. b OR push_bit inByteOffset 1)) (\<lambda>h. Inr (h, m))))"

fun dbs_set_all :: "heap \<Rightarrow> uba \<Rightarrow> u64 list \<Rightarrow> (heap \<times> uba) res" where
  "dbs_set_all h m [] = Inr (h, m)"
| "dbs_set_all h m (x # xs) = bindE (dbs_set h m x) (\<lambda>(h, m). dbs_set_all h m xs)"

definition dbs_unset :: "heap \<Rightarrow> uba \<Rightarrow> u64 \<Rightarrow> heap res" where
  "dbs_unset h m pos =
     (let offset = pos div 8
      in if offset < m_len m
         then let inByteOffset = unat (pos mod 8) in modify h m offset (\<lambda>b. b AND NOT (push_bit inByteOffset 1))
         else Inr h)"

definition dbs_resize :: "heap \<Rightarrow> uba \<Rightarrow> u64 \<Rightarrow> (heap \<times> uba) res" where
  "dbs_resize h m n = bindE (uba_resize h m (n div 8)) (\<lambda>(_, h, m). Inr (h, m))"

definition dbs_align :: "heap \<Rightarrow> uba \<Rightarrow> nat \<Rightarrow> (bool \<times> heap \<times> uba) res" where
  "dbs_align h m shift =
     (let newSize = drop_bit shift (m_len m);
          newSize = (if push_bit shift newSize AND m_len m \<noteq> 0 then newSize + 1 else newSize);
          newSize = push_bit shift newSize
      in uba_resize h m newSize)"

section \<open>Loops over the bytes\<close>

text \<open>\<open>d[i] = f(a[i], b[i])\<close> and \<open>d[i] = f(a[i])\<close> from \<open>i\<close> up to \<open>s\<close>; the value is the
  final \<open>i\<close>.\<close>

function bin_loop :: "(u8 \<Rightarrow> u8 \<Rightarrow> u8) \<Rightarrow> heap \<Rightarrow> uba \<Rightarrow> uba \<Rightarrow> uba \<Rightarrow> u64 \<Rightarrow> u64 \<Rightarrow> (heap \<times> u64) res" where
  "bin_loop f h d a b i s =
     (if i < s then
        bindE (uba_at h a i) (\<lambda>x. bindE (uba_at h b i) (\<lambda>y.
        bindE (uba_putUint8 h d i (f x y)) (\<lambda>h. bin_loop f h d a b (i + 1) s)))
      else Inr (h, i))"
  by pat_completeness auto
termination
  by (relation "measure (\<lambda>(f, h, d, a, b, i, s). unat s - unat i)") (use word_step in simp_all)

function un_loop :: "(u8 \<Rightarrow> u8) \<Rightarrow> heap \<Rightarrow> uba \<Rightarrow> uba \<Rightarrow> u64 \<Rightarrow> u64 \<Rightarrow> (heap \<times> u64) res" where
  "un_loop f h d a i s =
     (if i < s then
        bindE (uba_at h a i) (\<lambda>x. bindE (uba_putUint8 h d i (f x)) (\<lambda>h. un_loop f h d a (i + 1) s))
      else Inr (h, i))"
  by pat_completeness auto
termination
  by (relation "measure (\<lambda>(f, h, d, a, i, s). unat s - unat i)") (use word_step in simp_all)

function eq_loop :: "heap \<Rightarrow> uba \<Rightarrow> uba \<Rightarrow> u64 \<Rightarrow> u64 \<Rightarrow> (bool \<times> u64) res" where
  "eq_loop h a b i s =
     (if i < s then
        bindE (uba_at h a i) (\<lambda>x. bindE (uba_at h b i) (\<lambda>y.
          if x \<noteq> y then Inr (False, i) else eq_loop h a b (i + 1) s))
      else Inr (True, i))"
  by pat_completeness auto
termination
  by (relation "measure (\<lambda>(h, a, b, i, s). unat s - unat i)") (use word_step in simp_all)

function zero_rest :: "heap \<Rightarrow> uba \<Rightarrow> u64 \<Rightarrow> u64 \<Rightarrow> (bool \<times> u64) res" where
  "zero_rest h a i s =
     (if i < s then bindE (uba_at h a i) (\<lambda>x. if x \<noteq> 0 then Inr (False, i) else zero_rest h a (i + 1) s)
      else Inr (True, i))"
  by pat_completeness auto
termination
  by (relation "measure (\<lambda>(h, a, i, s). unat s - unat i)") (use word_step in simp_all)

declare bin_loop.simps [simp del] un_loop.simps [simp del] eq_loop.simps [simp del] zero_rest.simps [simp del]

section \<open>Operators\<close>

definition dbs_eq :: "heap \<Rightarrow> uba \<Rightarrow> uba \<Rightarrow> bool res" where
  "dbs_eq h m other =
     bindE (eq_loop h m other 0 (min (m_len m) (m_len other))) (\<lambda>(ok, i).
       if \<not> ok then Inr False
       else bindE (zero_rest h m i (m_len m)) (\<lambda>(ok, i).
         if \<not> ok then Inr False
         else bindE (zero_rest h other i (m_len other)) (\<lambda>(ok, i). Inr ok)))"

definition dbs_and :: "heap \<Rightarrow> nat \<Rightarrow> uba \<Rightarrow> uba \<Rightarrow> (heap \<times> uba) res" where
  "dbs_and h r m other =
     (let s = min (m_len m) (m_len other)
      in bindE (createCache h r s) (\<lambda>(h, d). bindE (bin_loop (AND) h d m other 0 s) (\<lambda>(h, _). Inr (h, d))))"

text \<open>The two operators that keep the longer rest share their shape.\<close>

definition dbs_merge :: "(u8 \<Rightarrow> u8 \<Rightarrow> u8) \<Rightarrow> heap \<Rightarrow> nat \<Rightarrow> uba \<Rightarrow> uba \<Rightarrow> (heap \<times> uba) res" where
  "dbs_merge f h r m other =
     bindE (createCache h r (max (m_len m) (m_len other))) (\<lambda>(h, d).
     bindE (bin_loop f h d m other 0 (min (m_len m) (m_len other))) (\<lambda>(h, i).
     bindE (un_loop id h d m i (m_len m)) (\<lambda>(h, i).
     bindE (un_loop id h d other i (m_len other)) (\<lambda>(h, i). Inr (h, d)))))"

definition dbs_or :: "heap \<Rightarrow> nat \<Rightarrow> uba \<Rightarrow> uba \<Rightarrow> (heap \<times> uba) res" where
  "dbs_or = dbs_merge (OR)"

definition dbs_xor :: "heap \<Rightarrow> nat \<Rightarrow> uba \<Rightarrow> uba \<Rightarrow> (heap \<times> uba) res" where
  "dbs_xor = dbs_merge (XOR)"

definition dbs_minus :: "heap \<Rightarrow> nat \<Rightarrow> uba \<Rightarrow> uba \<Rightarrow> (heap \<times> uba) res" where
  "dbs_minus h r m other =
     (let s = min (m_len m) (m_len other)
      in bindE (createCache h r s) (\<lambda>(h, d).
         bindE (bin_loop (\<lambda>x y. x AND NOT y) h d m other 0 s) (\<lambda>(h, _). Inr (h, d))))"

definition dbs_not :: "heap \<Rightarrow> nat \<Rightarrow> uba \<Rightarrow> (heap \<times> uba) res" where
  "dbs_not h r m =
     bindE (createCache h r (m_len m)) (\<lambda>(h, d). bindE (un_loop (\<lambda>x. NOT x) h d m 0 (m_len m)) (\<lambda>(h, _). Inr (h, d)))"

definition dbs_and_assign :: "heap \<Rightarrow> uba \<Rightarrow> uba \<Rightarrow> (heap \<times> uba) res" where
  "dbs_and_assign h m other =
     bindE (uba_resize h m (min (m_len m) (m_len other))) (\<lambda>(_, h, m).
     bindE (bin_loop (AND) h m m other 0 (m_len m)) (\<lambda>(h, _). Inr (h, m)))"

definition dbs_merge_assign :: "(u8 \<Rightarrow> u8 \<Rightarrow> u8) \<Rightarrow> heap \<Rightarrow> uba \<Rightarrow> uba \<Rightarrow> (heap \<times> uba) res" where
  "dbs_merge_assign f h m other =
     bindE (bin_loop f h m m other 0 (min (m_len m) (m_len other))) (\<lambda>(h, _).
       if m_len m < m_len other then
         let s = m_len m
         in bindE (uba_resize h m (m_len other)) (\<lambda>(_, h, m).
            bindE (uba_putData_adapter h m s (uba_sub other s)) (\<lambda>h. Inr (h, m)))
       else Inr (h, m))"

definition dbs_or_assign :: "heap \<Rightarrow> uba \<Rightarrow> uba \<Rightarrow> (heap \<times> uba) res" where
  "dbs_or_assign = dbs_merge_assign (OR)"

definition dbs_xor_assign :: "heap \<Rightarrow> uba \<Rightarrow> uba \<Rightarrow> (heap \<times> uba) res" where
  "dbs_xor_assign = dbs_merge_assign (XOR)"

definition dbs_minus_assign :: "heap \<Rightarrow> uba \<Rightarrow> uba \<Rightarrow> heap res" where
  "dbs_minus_assign h m other =
     bindE (bin_loop (\<lambda>x y. x AND NOT y) h m m other 0 (min (m_len m) (m_len other))) (\<lambda>(h, _). Inr h)"

section \<open>Counting and bounds\<close>

definition popCount :: "'a::len word \<Rightarrow> u32" where
  "popCount v = of_nat (length (filter (bit v) [0..<LENGTH('a)]))"

text \<open>The two loops of \<open>size\<close>; the first argument counts the remaining iterations.\<close>

fun pop_words :: "nat \<Rightarrow> heap \<Rightarrow> uba \<Rightarrow> u64 \<Rightarrow> u32 \<Rightarrow> (u32 \<times> u64) res" where
  "pop_words 0 h m i resSize = Inr (resSize, i)"
| "pop_words (Suc n) h m i resSize =
     bindE (uba_getUint32 h m i) (\<lambda>w. pop_words n h m (i + 4) (resSize + popCount w))"

fun pop_bytes :: "nat \<Rightarrow> heap \<Rightarrow> uba \<Rightarrow> u64 \<Rightarrow> u32 \<Rightarrow> u32 res" where
  "pop_bytes 0 h m i resSize = Inr resSize"
| "pop_bytes (Suc n) h m i resSize = bindE (uba_at h m i) (\<lambda>b. pop_bytes n h m (i + 1) (resSize + popCount b))"

definition dbs_size :: "heap \<Rightarrow> uba \<Rightarrow> u64 res" where
  "dbs_size h m =
     bindE (pop_words (unat (m_len m) div 4) h m 0 0) (\<lambda>(resSize, i).
     bindE (pop_bytes (unat (m_len m - i)) h m i resSize) (\<lambda>resSize. Inr (ucast resSize)))"

function smallest_loop :: "heap \<Rightarrow> uba \<Rightarrow> u64 \<Rightarrow> u64 \<Rightarrow> u64 res" where
  "smallest_loop h m i eid =
     (if i < m_len m then
        bindE (uba_getUint8 h m i) (\<lambda>d.
          if d \<noteq> 0 then Inr (eid + of_nat (msb_loop d)) else smallest_loop h m (i + 1) (eid + 8))
      else Inr eid)"
  by pat_completeness auto
termination
  by (relation "measure (\<lambda>(h, m, i, eid). unat (m_len m) - unat i)") (use word_step in simp_all)

declare smallest_loop.simps [simp del]

definition dbs_smallestEntry :: "heap \<Rightarrow> uba \<Rightarrow> u64 res" where
  "dbs_smallestEntry h m = smallest_loop h m 0 0"

fun largest_loop :: "heap \<Rightarrow> uba \<Rightarrow> nat \<Rightarrow> u64 \<Rightarrow> u64 res" where
  "largest_loop h m 0 eid = Inr eid"
| "largest_loop h m (Suc i) eid =
     bindE (uba_getUint8 h m (of_nat i)) (\<lambda>d.
       if d \<noteq> 0 then Inr (eid - (8 - of_nat (msb_loop d))) else largest_loop h m i (eid - 8))"

definition dbs_largestEntry :: "heap \<Rightarrow> uba \<Rightarrow> u64 res" where
  "dbs_largestEntry h m = (if m_len m = 0 then Inr 0 else largest_loop h m (unat (m_len m)) (m_len m * 8 - 1))"

fun upper_loop :: "heap \<Rightarrow> uba \<Rightarrow> nat \<Rightarrow> u64 res" where
  "upper_loop h m 0 = Inr 0"
| "upper_loop h m (Suc i) =
     bindE (uba_getUint8 h m (of_nat i)) (\<lambda>d. if d \<noteq> 0 then Inr (8 * of_nat (Suc i)) else upper_loop h m i)"

definition dbs_upperBound :: "heap \<Rightarrow> uba \<Rightarrow> u64 res" where
  "dbs_upperBound h m = (if m_len m = 0 then Inr 0 else upper_loop h m (unat (m_len m)))"

section \<open>Enumeration\<close>

text \<open>\<open>putInto\<close>: the inner loop runs over the bits of one byte.\<close>

function put_byte :: "u64 \<Rightarrow> u8 \<Rightarrow> u64 list" where
  "put_byte curId d =
     (if d \<noteq> 0 then (if d AND 1 \<noteq> 0 then [curId] else []) @ put_byte (curId + 1) (drop_bit 1 d) else [])"
  by pat_completeness auto
termination
  by (relation "measure (\<lambda>(curId, d). unat d)") (simp_all add: unat_drop_bit unat_gt_0)

declare put_byte.simps [simp del]

function putInto_loop :: "heap \<Rightarrow> uba \<Rightarrow> u64 \<Rightarrow> u64 \<Rightarrow> u64 list res" where
  "putInto_loop h m i eid =
     (if i < m_len m then
        bindE (uba_getUint8 h m i) (\<lambda>d.
        bindE (putInto_loop h m (i + 1) (eid + 8)) (\<lambda>out. Inr (put_byte eid d @ out)))
      else Inr [])"
  by pat_completeness auto
termination
  by (relation "measure (\<lambda>(h, m, i, eid). unat (m_len m) - unat i)") (use word_step in simp_all)

declare putInto_loop.simps [simp del]

definition dbs_putInto :: "heap \<Rightarrow> uba \<Rightarrow> u64 list res" where
  "dbs_putInto h m = putInto_loop h m 0 0"

text \<open>The iterator. \<open>m_p\<close> points to the set, which is passed along.\<close>

record dbs_it =
  it_off :: u64
  it_curId :: u64
  it_d :: u8
  it_remainingBits :: u8

text \<open>\<open>for(; m_remainingBits && m_d;)\<close>: whether a set bit was reached.\<close>

function it_bits :: "dbs_it \<Rightarrow> bool \<times> dbs_it" where
  "it_bits it =
     (if it_remainingBits it \<noteq> 0 \<and> it_d it \<noteq> 0 then
        if it_d it AND 1 \<noteq> 0 then (True, it)
        else it_bits (it\<lparr>it_d := drop_bit 1 (it_d it), it_remainingBits := it_remainingBits it - 1, it_curId := it_curId it + 1\<rparr>)
      else (False, it))"
  by pat_completeness auto
termination
  by (relation "measure (\<lambda>it. unat (it_d it))") (simp_all add: unat_drop_bit unat_gt_0)

declare it_bits.simps [simp del]

function it_bytes :: "heap \<Rightarrow> uba \<Rightarrow> dbs_it \<Rightarrow> dbs_it res" where
  "it_bytes h m it =
     (if it_off it < m_len m then
        bindE (uba_at h m (it_off it)) (\<lambda>d.
          let it = it\<lparr>it_d := d\<rparr>
          in if it_d it \<noteq> 0 then Inr it
             else it_bytes h m (it\<lparr>it_off := it_off it + 1, it_curId := it_curId it + 8\<rparr>))
      else Inr it)"
  by pat_completeness auto
termination
  by (relation "measure (\<lambda>(h, m, it). unat (m_len m) - unat (it_off it))") (use word_step in simp_all)

declare it_bytes.simps [simp del]

definition it_moveToNextSetBit :: "heap \<Rightarrow> uba \<Rightarrow> dbs_it \<Rightarrow> dbs_it res" where
  "it_moveToNextSetBit h m it =
     (case it_bits it of (found, it) \<Rightarrow>
        if found then Inr it
        else let it = it\<lparr>it_curId := it_curId it + ucast (it_remainingBits it), it_off := it_off it + 1\<rparr>;
                 it = it\<lparr>it_remainingBits := 8\<rparr>
             in bindE (it_bytes h m it) (\<lambda>it.
                  if it_off it \<ge> m_len m then Inr (it\<lparr>it_remainingBits := 0\<rparr>)
                  else Inr (snd (it_bits it))))"

definition it_new :: "heap \<Rightarrow> uba \<Rightarrow> u64 \<Rightarrow> dbs_it res" where
  "it_new h m off =
     (let it = \<lparr>it_off = off, it_curId = off * 8, it_d = 0, it_remainingBits = 0\<rparr>
      in if it_off it < m_len m
         then bindE (uba_at h m (it_off it)) (\<lambda>d. it_moveToNextSetBit h m (it\<lparr>it_d := d, it_remainingBits := 8\<rparr>))
         else Inr it)"

definition it_next :: "heap \<Rightarrow> uba \<Rightarrow> dbs_it \<Rightarrow> dbs_it res" where
  "it_next h m it =
     (if it_off it \<ge> m_len m then Inr it
      else it_moveToNextSetBit h m (it\<lparr>it_remainingBits := it_remainingBits it - 1, it_d := drop_bit 1 (it_d it),
             it_curId := it_curId it + 1\<rparr>))"

definition it_notEq :: "dbs_it \<Rightarrow> dbs_it \<Rightarrow> bool" where
  "it_notEq a b \<longleftrightarrow> it_off a \<noteq> it_off b \<or> it_remainingBits a \<noteq> it_remainingBits b \<or> it_curId a \<noteq> it_curId b \<or> it_d a \<noteq> it_d b"

definition dbs_cbegin :: "heap \<Rightarrow> uba \<Rightarrow> dbs_it res" where
  "dbs_cbegin h m = it_new h m 0"

definition dbs_cend :: "heap \<Rightarrow> uba \<Rightarrow> dbs_it res" where
  "dbs_cend h m = it_new h m (m_len m)"

text \<open>The loop \<open>for(it = cbegin(); it != cend(); ++it)\<close> of a client, with a bound on its rounds.\<close>

fun it_collect :: "nat \<Rightarrow> heap \<Rightarrow> uba \<Rightarrow> dbs_it \<Rightarrow> dbs_it \<Rightarrow> u64 list res option" where
  "it_collect 0 h m it stop = None"
| "it_collect (Suc n) h m it stop =
     (if it_notEq it stop
      then (case it_next h m it of Inl e \<Rightarrow> Some (Inl e)
            | Inr it' \<Rightarrow> map_option (\<lambda>r. bindE r (\<lambda>out. Inr (it_curId it # out))) (it_collect n h m it' stop))
      else Some (Inr []))"

end
