(* ===== verification/DynamicBitSetProps.thy ===== *)
theory DynamicBitSetProps
  imports DynamicBitSet CompactUintArrayCreate
begin

text \<open>
  The bit set stands for the set of the numbers of its set bits. The operations are
  related to the operations on sets, and the iterator and \<open>putInto\<close> to the sorted list of the
  elements.
\<close>

section \<open>Elements\<close>

definition dbs_elems :: "heap \<Rightarrow> uba \<Rightarrow> nat set" where
  "dbs_elems h m = {k. k < 8 * unat (m_len m) \<and> bitb (view h m) k}"

lemma div_mod8: "unat (pos div 8) = unat pos div 8" "unat (pos mod 8) = unat pos mod 8" for pos :: u64
  by (simp_all add: unat_div unat_mod)

lemma less_div8: "unat (pos div 8) < n \<longleftrightarrow> unat pos < 8 * n" for pos :: u64
  unfolding div_mod8 by (simp add: div_less_iff_less_mult mult.commute)

lemma and_bit: "b AND push_bit k 1 \<noteq> 0 \<longleftrightarrow> bit b k" for b :: "'a::len word"
  by (simp add: bit_iff_and_push_bit_not_eq_0)

lemma isSet_spec:
  assumes "uba_inv h m"
  shows "dbs_isSet h m pos = Inr (unat pos \<in> dbs_elems h m)"
proof (cases "pos div 8 < m_len m")
  case True
  then have lt: "unat (pos div 8) < unat (m_len m)" by (simp add: word_less_nat_alt)
  then have "dbs_isSet h m pos = Inr (view h m ! unat (pos div 8) AND push_bit (unat (pos mod 8)) 1 \<noteq> 0)"
    using True at_spec(1) [OF assms lt] by (simp only: dbs_isSet_def if_True bindE_simps)
  then show ?thesis using lt unfolding and_bit less_div8 by (simp add: dbs_elems_def bitb_def div_mod8)
next
  case False
  then have "\<not> unat pos < 8 * unat (m_len m)" unfolding word_less_nat_alt less_div8 .
  then show ?thesis using False by (simp add: dbs_isSet_def dbs_elems_def)
qed

text \<open>Changing one byte of the window.\<close>

lemma rewrite_same: "uba_inv h d \<Longrightarrow> rewrite h d (view h d) = h"
  using upd_rewrite [of h d 0 "[]"] by simp

lemma modify_view:
  assumes "uba_inv h m" "unat p < unat (m_len m)"
  shows "modify h m p f = Inr (rewrite h m ((view h m)[unat p := f (view h m ! unat p)]))"
  using modify_spec [OF assms(1), of "view h m" p f] assms rewrite_same [OF assms(1)] by simp

lemma dbs_elems_rewrite:
  assumes "uba_inv h m" "length V = unat (m_len m)"
  shows "dbs_elems (rewrite h m V) m = {k. k < 8 * length V \<and> bitb V k}"
  using rewrite_facts(2) [OF assms] assms(2) by (simp add: dbs_elems_def)

lemma modify_bit:
  assumes "uba_inv h m" "unat pos < 8 * unat (m_len m)"
  obtains h' where "modify h m (pos div 8) f = Inr h'" "uba_inv h' m" "length (mem (storage h' m)) = length (mem (storage h m))"
    "kind (storage h' m) = kind (storage h m)"
    "\<And>k. k < 8 * unat (m_len m) \<Longrightarrow>
      bitb (view h' m) k = (if k div 8 = unat pos div 8 then bit (f (view h m ! (unat pos div 8))) (k mod 8) else bitb (view h m) k)"
proof -
  let ?p = "unat pos div 8"
  let ?V = "(view h m)[?p := f (view h m ! ?p)]"
  have p: "unat (pos div 8) < unat (m_len m)" using assms(2) by (simp add: less_div8)
  then have pl: "?p < length (view h m)" using assms(1) by (simp add: div_mod8)
  have l: "length ?V = unat (m_len m)" using assms(1) by simp
  show ?thesis
  proof (rule that)
    show "modify h m (pos div 8) f = Inr (rewrite h m ?V)" using modify_view [OF assms(1) p] by (simp add: div_mod8)
    show "uba_inv (rewrite h m ?V) m" by (rule rewrite_facts(1) [OF assms(1) l])
    show "length (mem (storage (rewrite h m ?V) m)) = length (mem (storage h m))" "kind (storage (rewrite h m ?V) m) = kind (storage h m)"
      using uba_inv_bounds [OF assms(1)] assms(1) by (simp_all add: rewrite_def storage_upd length_blit)
    show "bitb (view (rewrite h m ?V) m) k = (if k div 8 = ?p then bit (f (view h m ! ?p)) (k mod 8) else bitb (view h m) k)" for k
      unfolding rewrite_facts(2) [OF assms(1) l] using bitb_update [OF pl] .
  qed
qed

lemma div_mod_eq: "k div 8 = p div 8 \<and> k mod 8 = p mod 8 \<longleftrightarrow> k = p" for k p :: nat
  by (metis div_mult_mod_eq)

lemma unset_spec:
  assumes "uba_inv h m"
  obtains h' where "dbs_unset h m pos = Inr h'" "uba_inv h' m" "dbs_elems h' m = dbs_elems h m - {unat pos}"
proof (cases "unat pos < 8 * unat (m_len m)")
  case True
  let ?f = "\<lambda>b. b AND NOT (push_bit (unat (pos mod 8)) 1) :: u8"
  from modify_bit [OF assms True, of ?f] obtain h' where
    1: "modify h m (pos div 8) ?f = Inr h'" "uba_inv h' m"
      "\<And>k. k < 8 * unat (m_len m) \<Longrightarrow>
        bitb (view h' m) k = (if k div 8 = unat pos div 8 then bit (?f (view h m ! (unat pos div 8))) (k mod 8) else bitb (view h m) k)"
    by blast
  have "k \<in> dbs_elems h' m \<longleftrightarrow> k \<in> dbs_elems h m - {unat pos}" for k
    using 1(3) [of k] div_mod_eq [of k "unat pos"]
    by (auto simp: dbs_elems_def bit_and_iff bit_not_iff bit_exp_iff div_mod8 bitb_def split: if_splits)
  moreover have "pos div 8 < m_len m" using True by (simp add: word_less_nat_alt less_div8)
  ultimately show ?thesis using that 1(1,2) by (auto simp: dbs_unset_def)
next
  case False
  then have "\<not> pos div 8 < m_len m" by (simp add: word_less_nat_alt less_div8)
  then show ?thesis using that [of h] assms False by (auto simp: dbs_unset_def dbs_elems_def)
qed

text \<open>A set that owns its storage grows by zeros.\<close>

definition owner :: "heap \<Rightarrow> uba \<Rightarrow> bool" where
  "owner h m \<longleftrightarrow> uba_inv h m \<and> growable h m \<and> m_offSet m = 0 \<and> unat (m_len m) = length (mem (storage h m))"

lemma grow_owner:
  assumes "owner h m" "unat (m_len m) + unat n \<le> max_size"
  obtains h' where "uba_growStorage h m n = Inr (True, h', m\<lparr>m_len := m_len m + n\<rparr>)" "owner h' (m\<lparr>m_len := m_len m + n\<rparr>)"
    "view h' (m\<lparr>m_len := m_len m + n\<rparr>) = view h m @ replicate (unat n) 0"
    "unat (m_len m + n) = unat (m_len m) + unat n"
    "\<And>w. m_priv w \<noteq> m_priv m \<Longrightarrow> storage h' w = storage h w"
proof -
  let ?p = "storage h m"
  let ?q = "?p\<lparr>mem := mem ?p @ replicate (unat n) 0\<rparr>"
  have o: "uba_inv h m" "growable h m" "m_offSet m = 0" "unat (m_len m) = length (mem ?p)" using assms(1) by (simp_all add: owner_def)
  have s: "unat (m_len m + n) = unat (m_len m) + unat n" using assms(2) by (intro unat_add_nowrap) (simp add: max_size_def)
  have g: "priv_growStorage ?p (m_len m + n) = Inr (True, ?q)"
    using o(1,2,4) assms(2) s by (auto simp: priv_growStorage_cases growable_def uba_inv_bounds)
  have "\<not> m_len m + n < m_len m" using s by (simp add: word_less_nat_alt)
  then have "uba_growStorage h m n = Inr (True, h(m_priv m := ?q), m\<lparr>m_len := m_len m + n\<rparr>)"
    using g o(3) by (simp add: uba_growStorage_def)
  then show ?thesis
    by (rule that)
      (use o s assms(2) in \<open>auto simp: owner_def uba_inv_def live_def growable_def view_def chunk_def storage_def\<close>)
qed

lemma bitb_append_zeros: "k < 8 * (length bs + n) \<Longrightarrow> bitb (bs @ replicate n 0) k \<longleftrightarrow> k < 8 * length bs \<and> bitb bs k"
  by (auto simp: bitb_def nth_append div_less_iff_less_mult mult.commute)

lemma set_bit_spec:
  assumes "owner h m" "unat pos < 8 * unat (m_len m)"
  obtains h' where "modify h m (pos div 8) (\<lambda>b. b OR push_bit (unat (pos mod 8)) 1) = Inr h'" "owner h' m"
    "dbs_elems h' m = insert (unat pos) (dbs_elems h m)"
proof -
  let ?f = "\<lambda>b. b OR push_bit (unat (pos mod 8)) 1 :: u8"
  have i: "uba_inv h m" using assms(1) by (simp add: owner_def)
  from modify_bit [OF i assms(2), of ?f] obtain h' where
    1: "modify h m (pos div 8) ?f = Inr h'" "uba_inv h' m" "length (mem (storage h' m)) = length (mem (storage h m))"
      "kind (storage h' m) = kind (storage h m)"
      "\<And>k. k < 8 * unat (m_len m) \<Longrightarrow>
        bitb (view h' m) k = (if k div 8 = unat pos div 8 then bit (?f (view h m ! (unat pos div 8))) (k mod 8) else bitb (view h m) k)"
    by metis
  have "k \<in> dbs_elems h' m \<longleftrightarrow> k \<in> insert (unat pos) (dbs_elems h m)" for k
    using 1(5) [of k] div_mod_eq [of k "unat pos"] assms(2)
    by (auto simp: dbs_elems_def bit_or_iff bit_exp_iff div_mod8 bitb_def split: if_splits)
  moreover have "owner h' m" using assms(1) 1(2-4) by (simp add: owner_def growable_def)
  ultimately show ?thesis using that 1(1) by blast
qed

lemma set_spec:
  assumes "owner h m"
  obtains h' m' where "dbs_set h m pos = Inr (h', m')" "owner h' m'" "m_priv m' = m_priv m"
    "unat (m_len m') = max (unat (m_len m)) (unat pos div 8 + 1)" "dbs_elems h' m' = insert (unat pos) (dbs_elems h m)"
proof (cases "pos div 8 < m_len m")
  case True
  then have lt: "unat pos < 8 * unat (m_len m)" by (simp add: word_less_nat_alt less_div8)
  from set_bit_spec [OF assms lt] obtain h' where
    1: "modify h m (pos div 8) (\<lambda>b. b OR push_bit (unat (pos mod 8)) 1) = Inr h'" "owner h' m"
      "dbs_elems h' m = insert (unat pos) (dbs_elems h m)" .
  have "unat pos div 8 + 1 \<le> unat (m_len m)" using True by (simp add: word_less_nat_alt div_mod8)
  moreover have "\<not> m_len m \<le> pos div 8" using True by simp
  ultimately show ?thesis using that [of h' m] 1 by (simp add: dbs_set_def Let_def)
next
  case False
  let ?n = "pos div 8 + 1 - m_len m"
  have ge: "unat (m_len m) \<le> unat pos div 8" using False by (simp add: not_less word_le_nat_alt div_mod8)
  have p1: "unat (pos div 8 + 1) = unat pos div 8 + 1"
    using unat_bound64 [of pos] by (subst unat_add_nowrap) (simp_all add: div_mod8)
  have n: "unat ?n = unat pos div 8 + 1 - unat (m_len m)"
    using ge p1 by (subst unat_sub) (simp_all add: word_le_nat_alt)
  have "unat pos div 8 + 1 \<le> max_size" using unat_bound64 [of pos] by (simp add: max_size_def)
  then have "unat (m_len m) + unat ?n \<le> max_size" using n ge by simp
  with assms obtain h1 where
    1: "uba_growStorage h m ?n = Inr (True, h1, m\<lparr>m_len := m_len m + ?n\<rparr>)" "owner h1 (m\<lparr>m_len := m_len m + ?n\<rparr>)"
      "view h1 (m\<lparr>m_len := m_len m + ?n\<rparr>) = view h m @ replicate (unat ?n) 0" "unat (m_len m + ?n) = unat (m_len m) + unat ?n"
    by (rule grow_owner)
  let ?m = "m\<lparr>m_len := m_len m + ?n\<rparr>"
  have len: "unat (m_len ?m) = unat pos div 8 + 1" using 1(4) n ge by simp
  then have "unat pos < 8 * unat (m_len ?m)" by simp
  with 1(2) obtain h2 where
    2: "modify h1 ?m (pos div 8) (\<lambda>b. b OR push_bit (unat (pos mod 8)) 1) = Inr h2" "owner h2 ?m"
      "dbs_elems h2 ?m = insert (unat pos) (dbs_elems h1 ?m)" by (rule set_bit_spec)
  have "uba_inv h m" using assms by (simp add: owner_def)
  then have "dbs_elems h1 ?m = dbs_elems h m"
    using bitb_append_zeros [of _ "view h m" "unat ?n"] 1(4) unfolding dbs_elems_def 1(3) by auto
  then show ?thesis using that [of h2 ?m] 1(1) 2 False len ge by (simp add: dbs_set_def Let_def not_less)
qed

section \<open>The loops\<close>

lemma put8_view:
  assumes "uba_inv h d" "unat p < unat (m_len d)"
  shows "uba_putUint8 h d p b = Inr (rewrite h d ((view h d)[unat p := b]))"
proof -
  have "modify h d p (\<lambda>_. b) = uba_putUint8 h d p b"
    using at_spec(1) [OF assms] by (simp add: modify_def)
  then show ?thesis using modify_view [OF assms, of "\<lambda>_. b"] by simp
qed

lemma rewrite_other:
  assumes "uba_inv h d" "length V = unat (m_len d)" "m_priv w \<noteq> m_priv d"
  shows "view (rewrite h d V) w = view h w" "uba_inv (rewrite h d V) w = uba_inv h w" "storage (rewrite h d V) w = storage h w"
  using assms(3) by (simp_all add: rewrite_def storage_upd view_def uba_inv_def)

lemma unat_suc: "i < s \<Longrightarrow> unat (i + 1) = unat i + 1" for i s :: u64
  using unat_bound64 [of s] by (subst unat_add_nowrap) (simp_all add: word_less_nat_alt)

lemma bin_loop_spec:
  assumes "d = a \<or> m_priv a \<noteq> m_priv d" "m_priv b \<noteq> m_priv d"
    and "unat s \<le> unat (m_len d)" "unat s \<le> unat (m_len a)" "unat s \<le> unat (m_len b)"
  shows "uba_inv h d \<Longrightarrow> uba_inv h a \<Longrightarrow> uba_inv h b \<Longrightarrow>
    \<exists>L. bin_loop f h d a b i s = Inr (rewrite h d L, max i s) \<and> length L = unat (m_len d) \<and>
      (\<forall>k < length L. L ! k = (if unat i \<le> k \<and> k < unat s then f (view h a ! k) (view h b ! k) else view h d ! k))"
proof (induction "unat s - unat i" arbitrary: h i rule: less_induct)
  case less
  show ?case
  proof (cases "i < s")
    case False
    then have "bin_loop f h d a b i s = Inr (rewrite h d (view h d), max i s)"
      using rewrite_same [OF less.prems(1)] by (subst bin_loop.simps) (simp add: max_def)
    then show ?thesis using False less.prems(1)
      by (intro exI [of _ "view h d"]) (auto simp: word_less_nat_alt max_def word_le_nat_alt)
  next
    case True
    then have lt: "unat i < unat s" by (simp add: word_less_nat_alt)
    let ?v = "f (view h a ! unat i) (view h b ! unat i)"
    let ?V = "(view h d)[unat i := ?v]"
    have l: "length ?V = unat (m_len d)" using less.prems(1) by simp
    let ?g = "rewrite h d ?V"
    note r = rewrite_facts [OF less.prems(1) l]
    have inv: "uba_inv ?g d" "uba_inv ?g a" "uba_inv ?g b"
      using r(1) rewrite_other(2) [OF less.prems(1) l] less.prems assms(1,2) by auto
    have va: "view ?g a = (if d = a then ?V else view h a)" "view ?g b = view h b"
      using r(2) rewrite_other(1) [OF less.prems(1) l] assms(1,2) by auto
    have step: "bin_loop f h d a b i s = bin_loop f ?g d a b (i + 1) s"
      using True lt assms(3-5) at_spec(1) [OF less.prems(2), of i] at_spec(1) [OF less.prems(3), of i]
        put8_view [OF less.prems(1), of i] by (subst bin_loop.simps) simp
    note u = unat_suc [OF True]
    have "unat s - unat (i + 1) < unat s - unat i" by (rule word_step [OF True])
    from less.hyps [OF this inv] obtain L where
      L: "bin_loop f ?g d a b (i + 1) s = Inr (rewrite ?g d L, max (i + 1) s)" "length L = unat (m_len d)"
        "\<forall>k < length L. L ! k = (if unat (i + 1) \<le> k \<and> k < unat s then f (view ?g a ! k) (view ?g b ! k) else view ?g d ! k)"
      by blast
    have "max (i + 1) s = max i s" using lt u by (simp add: max_def word_le_nat_alt)
    moreover have "L ! k = (if unat i \<le> k \<and> k < unat s then f (view h a ! k) (view h b ! k) else view h d ! k)"
      if "k < length L" for k
      using L(3) that lt less.prems(1) L(2) unfolding va r(2) u
      by (cases "k = unat i") (auto simp: nth_list_update not_less_eq_eq split: if_splits)
    ultimately show ?thesis using step L(1,2) r(3) [OF L(2)] by auto
  qed
qed

lemma un_loop_bin: "un_loop f h d a i s = bin_loop (\<lambda>x y. f x) h d a a i s"
proof (induction f h d a i s rule: un_loop.induct)
  case (1 f h d a i s)
  show ?case
  proof (cases "i < s")
    case True
    then show ?thesis using 1 by (subst un_loop.simps, subst bin_loop.simps) (auto simp: bindE_def split: sum.split)
  next
    case False
    then show ?thesis by (subst un_loop.simps, subst bin_loop.simps) simp
  qed
qed

section \<open>Operators\<close>

text \<open>A new set on its own storage, with everything else as it was.\<close>

definition fresh_result :: "heap \<Rightarrow> nat \<Rightarrow> heap \<Rightarrow> uba \<Rightarrow> nat set \<Rightarrow> bool" where
  "fresh_result h r h' d S \<longleftrightarrow> owner h' d \<and> m_priv d = r \<and> dbs_elems h' d = S \<and>
     (\<forall>w. m_priv w \<noteq> r \<longrightarrow> storage h' w = storage h w)"

lemma inv_max_size: "uba_inv h m \<Longrightarrow> unat (m_len m) \<le> max_size"
  by (auto simp: uba_inv_def live_def)

lemma fresh_cache:
  assumes "unat n \<le> max_size"
  obtains h1 d where "createCache h r n = Inr (h1, d)" "owner h1 d" "m_priv d = r"
    "unat (m_len d) = max 1 (unat n)" "view h1 d = replicate (max 1 (unat n)) 0"
    "\<forall>w. m_priv w \<noteq> r \<longrightarrow> storage h1 w = storage h w \<and> view h1 w = view h w \<and> uba_inv h1 w = uba_inv h w"
proof -
  let ?n = "if n = 0 then 1 else n"
  let ?d = "uba_of_priv r 0 ?n"
  let ?h = "h(r := \<lparr>kind = VectorB, mem = replicate (unat ?n) 0\<rparr>)"
  have n: "unat ?n = max 1 (unat n)" by (simp add: max_def unat_eq_zero) (metis unat_gt_0 One_nat_def Suc_leI le_antisym not_less_eq_eq unat_eq_zero zero_order(1))
  have le: "max 1 (unat n) \<le> max_size" using assms by (simp add: max_size_def)
  then have "createCache h r n = Inr (?h, ?d)" unfolding createCache_def Let_def n [symmetric] by (simp split del: if_split)
  then show ?thesis
    by (rule that) (use n le in \<open>simp_all add: owner_def uba_inv_def live_def growable_def storage_def view_def chunk_def uba_of_priv_def split del: if_split\<close>)
qed

lemma owner_rewrite: "owner h d \<Longrightarrow> length L = unat (m_len d) \<Longrightarrow> owner (rewrite h d L) d"
  using rewrite_facts(1) [of h d L] uba_inv_bounds [of h d]
  by (auto simp: owner_def rewrite_def storage_upd length_blit growable_def)

lemma byte_index: "k < 8 * n \<Longrightarrow> k div 8 < n" for k n :: nat
  by (simp add: div_less_iff_less_mult mult.commute)

text \<open>The operators that stop at the shorter set.\<close>

lemma short_spec:
  fixes f :: "u8 \<Rightarrow> u8 \<Rightarrow> u8"
  assumes "uba_inv h m" "uba_inv h other" "m_priv m \<noteq> r" "m_priv other \<noteq> r"
    and f: "\<And>x y j. j < 8 \<Longrightarrow> bit (f x y) j \<longleftrightarrow> F (bit x j) (bit y j)"
    and s: "s = min (m_len m) (m_len other)"
  obtains h' d where "bindE (createCache h r s) (\<lambda>(h, d). bindE (bin_loop f h d m other 0 s) (\<lambda>(h, _). Inr (h, d))) = Inr (h', d)"
    "fresh_result h r h' d {k. k < 8 * min (unat (m_len m)) (unat (m_len other)) \<and> F (k \<in> dbs_elems h m) (k \<in> dbs_elems h other)}"
proof -
  have us: "unat s = min (unat (m_len m)) (unat (m_len other))"
    unfolding s by (simp add: min_def word_le_nat_alt)
  have "unat s \<le> max_size" using us inv_max_size [OF assms(1)] by simp
  then obtain h1 d where
    1: "createCache h r s = Inr (h1, d)" "owner h1 d" "m_priv d = r" "unat (m_len d) = max 1 (unat s)"
      "view h1 d = replicate (max 1 (unat s)) 0" "\<forall>w. m_priv w \<noteq> r \<longrightarrow> storage h1 w = storage h w \<and> view h1 w = view h w \<and> uba_inv h1 w = uba_inv h w"
    by (rule fresh_cache [where h = h and r = r])
  have i: "uba_inv h1 d" using 1(2) by (simp add: owner_def)
  have "\<exists>L. bin_loop f h1 d m other 0 s = Inr (rewrite h1 d L, max 0 s) \<and> length L = unat (m_len d) \<and>
      (\<forall>k < length L. L ! k = (if unat (0 :: u64) \<le> k \<and> k < unat s then f (view h1 m ! k) (view h1 other ! k) else view h1 d ! k))"
    by (rule bin_loop_spec) (use 1(3,4,6) us assms(1-4) i in auto)
  then obtain L where L: "bin_loop f h1 d m other 0 s = Inr (rewrite h1 d L, max 0 s)" "length L = unat (m_len d)"
    and "\<forall>k < length L. L ! k = (if unat (0 :: u64) \<le> k \<and> k < unat s then f (view h1 m ! k) (view h1 other ! k) else view h1 d ! k)"
    by blast
  moreover have "view h1 m = view h m" "view h1 other = view h other" using 1(6) assms(3,4) by auto
  ultimately have L3: "\<forall>k < length L. L ! k = (if k < unat s then f (view h m ! k) (view h other ! k) else 0)"
    using 1(4) unfolding 1(5) by (auto simp: less_max_iff_disj)
  have "dbs_elems (rewrite h1 d L) d =
      {k. k < 8 * min (unat (m_len m)) (unat (m_len other)) \<and> F (k \<in> dbs_elems h m) (k \<in> dbs_elems h other)}"
    unfolding dbs_elems_rewrite [OF i L(2)]
  proof (rule Collect_cong)
    fix k
    show "k < 8 * length L \<and> bitb L k \<longleftrightarrow>
      k < 8 * min (unat (m_len m)) (unat (m_len other)) \<and> F (k \<in> dbs_elems h m) (k \<in> dbs_elems h other)"
      using L(2) L3 1(4) us byte_index [of k "length L"] f [of "k mod 8"]
      by (cases "k < 8 * unat s") (auto simp: bitb_def dbs_elems_def byte_index div_less_iff_less_mult mult.commute)
  qed
  then have "fresh_result h r (rewrite h1 d L) d
      {k. k < 8 * min (unat (m_len m)) (unat (m_len other)) \<and> F (k \<in> dbs_elems h m) (k \<in> dbs_elems h other)}"
    using owner_rewrite [OF 1(2) L(2)] 1(3,6) rewrite_other(3) [OF i L(2)] by (simp add: fresh_result_def)
  then show ?thesis using that 1(1) L(1) by simp
qed

lemma un_loop_spec:
  assumes "m_priv a \<noteq> m_priv d" "unat s \<le> unat (m_len d)" "unat s \<le> unat (m_len a)" "uba_inv h d" "uba_inv h a"
  obtains L where "un_loop f h d a i s = Inr (rewrite h d L, max i s)" "length L = unat (m_len d)"
    "\<forall>k < length L. L ! k = (if unat i \<le> k \<and> k < unat s then f (view h a ! k) else view h d ! k)"
  using bin_loop_spec [of d a a s h "\<lambda>x y. f x" i] assms unfolding un_loop_bin by blast

lemma unat_min_max: "unat (min x y) = min (unat x) (unat y)" "unat (max x y) = max (unat x) (unat y)" for x y :: u64
  by (simp_all add: min_def max_def word_le_nat_alt)

lemma dbs_elems_bit: "k \<in> dbs_elems h m \<longleftrightarrow> k div 8 < unat (m_len m) \<and> bit (view h m ! (k div 8)) (k mod 8)"
  by (auto simp: dbs_elems_def bitb_def div_less_iff_less_mult mult.commute)

text \<open>The operators that take over the rest of the longer set.\<close>

lemma merge_spec:
  fixes f :: "u8 \<Rightarrow> u8 \<Rightarrow> u8"
  assumes "uba_inv h m" "uba_inv h other" "m_priv m \<noteq> r" "m_priv other \<noteq> r"
    and f: "\<And>x y j. j < 8 \<Longrightarrow> bit (f x y) j \<longleftrightarrow> F (bit x j) (bit y j)"
    and F: "\<And>b. F b False = b" "\<And>b. F False b = b"
  obtains h' d where "dbs_merge f h r m other = Inr (h', d)"
    "fresh_result h r h' d {k. F (k \<in> dbs_elems h m) (k \<in> dbs_elems h other)}"
proof -
  let ?s = "min (m_len m) (m_len other)" and ?n = "max (m_len m) (m_len other)"
  have "unat ?n \<le> max_size" using inv_max_size [OF assms(1)] inv_max_size [OF assms(2)] by (simp add: unat_min_max)
  then obtain h1 d where
    1: "createCache h r ?n = Inr (h1, d)" "owner h1 d" "m_priv d = r" "unat (m_len d) = max 1 (unat ?n)"
      "view h1 d = replicate (max 1 (unat ?n)) 0"
      "\<forall>w. m_priv w \<noteq> r \<longrightarrow> storage h1 w = storage h w \<and> view h1 w = view h w \<and> uba_inv h1 w = uba_inv h w"
    by (rule fresh_cache [where h = h and r = r])
  have i: "uba_inv h1 d" using 1(2) by (simp add: owner_def)
  have ne: "m_priv m \<noteq> m_priv d" "m_priv other \<noteq> m_priv d" using assms(3,4) 1(3) by simp_all
  have iv: "uba_inv h1 m" "uba_inv h1 other" "view h1 m = view h m" "view h1 other = view h other" using 1(6) assms(1-4) by auto
  have ld: "unat (m_len m) \<le> unat (m_len d)" "unat (m_len other) \<le> unat (m_len d)" using 1(4) by (simp_all add: unat_min_max)
  have "\<exists>L. bin_loop f h1 d m other 0 ?s = Inr (rewrite h1 d L, max 0 ?s) \<and> length L = unat (m_len d) \<and>
      (\<forall>k < length L. L ! k = (if unat (0 :: u64) \<le> k \<and> k < unat ?s then f (view h1 m ! k) (view h1 other ! k) else view h1 d ! k))"
    by (rule bin_loop_spec) (use ne ld i iv in \<open>auto simp: unat_min_max\<close>)
  then obtain L1 where A: "bin_loop f h1 d m other 0 ?s = Inr (rewrite h1 d L1, max 0 ?s)" "length L1 = unat (m_len d)"
    "\<forall>k < length L1. L1 ! k = (if unat (0 :: u64) \<le> k \<and> k < unat ?s then f (view h1 m ! k) (view h1 other ! k) else view h1 d ! k)"
    by blast
  let ?h2 = "rewrite h1 d L1"
  note r2 = rewrite_facts [OF i A(2)] and o2 = rewrite_other [OF i A(2)]
  from un_loop_spec [OF ne(1) ld(1) order.refl r2(1), of id "max 0 ?s"] iv(1) o2(2) [OF ne(1)] obtain L2 where
    B: "un_loop id ?h2 d m (max 0 ?s) (m_len m) = Inr (rewrite ?h2 d L2, max (max 0 ?s) (m_len m))" "length L2 = unat (m_len d)"
      "\<forall>k < length L2. L2 ! k = (if unat (max 0 ?s) \<le> k \<and> k < unat (m_len m) then id (view ?h2 m ! k) else view ?h2 d ! k)"
    by metis
  let ?i = "max (max 0 ?s) (m_len m)"
  note h3 = r2(3) [OF B(2)]
  note r3 = rewrite_facts [OF i B(2)] and o3 = rewrite_other [OF i B(2)]
  from un_loop_spec [OF ne(2) ld(2) order.refl r3(1), of id ?i] iv(2) o3(2) [OF ne(2)] obtain L3 where
    C: "un_loop id (rewrite h1 d L2) d other ?i (m_len other) = Inr (rewrite (rewrite h1 d L2) d L3, max ?i (m_len other))" "length L3 = unat (m_len d)"
      "\<forall>k < length L3. L3 ! k = (if unat ?i \<le> k \<and> k < unat (m_len other) then id (view (rewrite h1 d L2) other ! k) else view (rewrite h1 d L2) d ! k)"
    by metis
  have merge: "dbs_merge f h r m other = Inr (rewrite h1 d L3, d)"
    using 1(1) A(1) B(1) C(1) h3 r3(3) [OF C(2)] by (simp add: dbs_merge_def)
  have u: "unat ?s = min (unat (m_len m)) (unat (m_len other))" "unat ?i = unat (m_len m)" "unat (max 0 ?s) = unat ?s"
    by (simp_all add: unat_min_max)
  have L1: "L1 ! k = (if k < unat ?s then f (view h m ! k) (view h other ! k) else 0)" if "k < unat (m_len d)" for k
    using A(2,3) that 1(4) unfolding iv 1(5) by (auto simp: less_max_iff_disj)
  have L2: "L2 ! k = (if k < unat ?s then f (view h m ! k) (view h other ! k) else if k < unat (m_len m) then view h m ! k else 0)"
    if "k < unat (m_len d)" for k
    using B(2,3) that L1 [OF that] unfolding o2(1) [OF ne(1)] iv r2(2) u by (auto simp: not_less)
  have L3: "L3 ! k = (if k < unat ?s then f (view h m ! k) (view h other ! k) else if k < unat (m_len m) then view h m ! k
      else if k < unat (m_len other) then view h other ! k else 0)" if "k < unat (m_len d)" for k
    using C(2,3) that L2 [OF that] unfolding o3(1) [OF ne(2)] iv r3(2) u by (auto simp: not_less)
  have "dbs_elems (rewrite h1 d L3) d = {k. F (k \<in> dbs_elems h m) (k \<in> dbs_elems h other)}"
  proof (rule set_eqI)
    fix k
    have "k \<in> dbs_elems (rewrite h1 d L3) d \<longleftrightarrow> k div 8 < unat (m_len d) \<and> bit (L3 ! (k div 8)) (k mod 8)"
      unfolding dbs_elems_bit rewrite_facts(2) [OF i C(2)] ..
    moreover have "bit (L3 ! (k div 8)) (k mod 8) \<longleftrightarrow> F (k \<in> dbs_elems h m) (k \<in> dbs_elems h other)"
      if "k div 8 < unat (m_len d)"
      using L3 [OF that] f [of "k mod 8"] F u(1)
      by (cases "k div 8 < unat (m_len m)"; cases "k div 8 < unat (m_len other)") (simp_all add: dbs_elems_bit)
    moreover have "k div 8 < unat (m_len d)" if "F (k \<in> dbs_elems h m) (k \<in> dbs_elems h other)"
    proof -
      have "k \<in> dbs_elems h m \<or> k \<in> dbs_elems h other" using that F(2) [of "k \<in> dbs_elems h other"] by (cases "k \<in> dbs_elems h m") simp_all
      then have "k div 8 < unat (m_len m) \<or> k div 8 < unat (m_len other)" unfolding dbs_elems_bit by blast
      then show ?thesis using ld by linarith
    qed
    ultimately show "k \<in> dbs_elems (rewrite h1 d L3) d \<longleftrightarrow> k \<in> {k. F (k \<in> dbs_elems h m) (k \<in> dbs_elems h other)}" by blast
  qed
  then have "fresh_result h r (rewrite h1 d L3) d {k. F (k \<in> dbs_elems h m) (k \<in> dbs_elems h other)}"
    using owner_rewrite [OF 1(2) C(2)] 1(3,6) rewrite_other(3) [OF i C(2)] by (simp add: fresh_result_def)
  then show ?thesis using that merge by blast
qed

lemma not_spec:
  assumes "uba_inv h m" "m_priv m \<noteq> r"
  obtains h' d where "dbs_not h r m = Inr (h', d)" "fresh_result h r h' d ({..<8 * unat (m_len m)} - dbs_elems h m)"
proof -
  obtain h1 d where
    1: "createCache h r (m_len m) = Inr (h1, d)" "owner h1 d" "m_priv d = r" "unat (m_len d) = max 1 (unat (m_len m))"
      "view h1 d = replicate (max 1 (unat (m_len m))) 0"
      "\<forall>w. m_priv w \<noteq> r \<longrightarrow> storage h1 w = storage h w \<and> view h1 w = view h w \<and> uba_inv h1 w = uba_inv h w"
    by (rule fresh_cache [OF inv_max_size [OF assms(1)], where h = h and r = r])
  have i: "uba_inv h1 d" using 1(2) by (simp add: owner_def)
  have "m_priv m \<noteq> m_priv d" "unat (m_len m) \<le> unat (m_len d)" "uba_inv h1 m" "view h1 m = view h m" using 1 assms by auto
  note a = this
  obtain L where L: "un_loop (\<lambda>x. NOT x) h1 d m 0 (m_len m) = Inr (rewrite h1 d L, max 0 (m_len m))" "length L = unat (m_len d)"
    "\<forall>k < length L. L ! k = (if unat (0 :: u64) \<le> k \<and> k < unat (m_len m) then NOT (view h1 m ! k) else view h1 d ! k)"
    using un_loop_spec [OF a(1,2) order.refl i a(3)] by blast
  have L3: "L ! k = (if k < unat (m_len m) then NOT (view h m ! k) else 0)" if "k < unat (m_len d)" for k
    using L(2,3) that 1(4) unfolding a 1(5) by (auto simp: less_max_iff_disj)
  have "dbs_elems (rewrite h1 d L) d = {..<8 * unat (m_len m)} - dbs_elems h m"
  proof (rule set_eqI)
    fix k
    have "k \<in> dbs_elems (rewrite h1 d L) d \<longleftrightarrow> k div 8 < unat (m_len d) \<and> bit (L ! (k div 8)) (k mod 8)"
      unfolding dbs_elems_bit rewrite_facts(2) [OF i L(2)] ..
    then show "k \<in> dbs_elems (rewrite h1 d L) d \<longleftrightarrow> k \<in> {..<8 * unat (m_len m)} - dbs_elems h m"
      using L3 [of "k div 8"] a(2) by (auto simp: dbs_elems_bit bit_not_iff div_less_iff_less_mult mult.commute split: if_splits)
  qed
  then have "fresh_result h r (rewrite h1 d L) d ({..<8 * unat (m_len m)} - dbs_elems h m)"
    using owner_rewrite [OF 1(2) L(2)] 1(3,6) rewrite_other(3) [OF i L(2)] by (simp add: fresh_result_def)
  then show ?thesis using that 1(1) L(1) by (simp add: dbs_not_def)
qed

section \<open>Assigning operators\<close>

lemma resize_smaller:
  assumes "uba_inv h m" "n \<le> m_len m" "n < m_len m \<or> growable h m \<and> m_offSet m = 0"
  obtains m' where "uba_resize h m n = Inr (True, h, m')" "m_len m' = n" "m_priv m' = m_priv m" "m_offSet m' = m_offSet m"
    "uba_inv h m'" "view h m' = take (unat n) (view h m)"
proof (cases "n < m_len m")
  case True
  define m1 where "m1 = m\<lparr>m_len := n\<rparr>"
  define m2 where "m2 = (if n < m_getPtr m then m1\<lparr>m_getPtr := n\<rparr> else m1)"
  define m3 where "m3 = (if n < m_putPtr m then m2\<lparr>m_putPtr := n\<rparr> else m2)"
  have "uba_resize h m n = Inr (True, h, m3)" using True by (simp add: uba_resize_def m1_def m2_def m3_def Let_def)
  moreover have p: "m_len m3 = n" "m_priv m3 = m_priv m" "m_offSet m3 = m_offSet m" by (simp_all add: m1_def m2_def m3_def)
  moreover have "unat n \<le> unat (m_len m)" using assms(2) by (simp add: word_le_nat_alt)
  then have "uba_inv h m3" "view h m3 = take (unat n) (view h m)"
    using assms(1) p by (simp_all add: uba_inv_def storage_def view_def chunk_def min_def)
  ultimately show ?thesis using that by blast
next
  case False
  then have n: "n = m_len m" using assms(2) by simp
  have g: "growable h m" "m_offSet m = 0" using False assms(3) by simp_all
  have "priv_growStorage (storage h m) (m_len m) = Inr (True, storage h m)"
    using g assms(1) uba_inv_bounds [OF assms(1)]
    by (auto simp: priv_growStorage_cases growable_def uba_inv_def not_less)
  then have "uba_resize h m n = Inr (True, h, m)"
    using n g by (simp add: uba_resize_def uba_growStorage_def) (simp add: storage_def)
  then show ?thesis using that n assms(1) by simp
qed

lemma assign_loop_spec:
  fixes f :: "u8 \<Rightarrow> u8 \<Rightarrow> u8"
  assumes "uba_inv h m" "uba_inv h other" "m_priv other \<noteq> m_priv m" "unat s \<le> unat (m_len m)" "unat s \<le> unat (m_len other)"
    and f: "\<And>x y j. j < 8 \<Longrightarrow> bit (f x y) j \<longleftrightarrow> F (bit x j) (bit y j)"
  obtains L where "bin_loop f h m m other 0 s = Inr (rewrite h m L, s)" "length L = unat (m_len m)"
    "dbs_elems (rewrite h m L) m =
      {k. if k < 8 * unat s then F (k \<in> dbs_elems h m) (k \<in> dbs_elems h other) else k \<in> dbs_elems h m}"
proof -
  have "\<exists>L. bin_loop f h m m other 0 s = Inr (rewrite h m L, max 0 s) \<and> length L = unat (m_len m) \<and>
      (\<forall>k < length L. L ! k = (if unat (0 :: u64) \<le> k \<and> k < unat s then f (view h m ! k) (view h other ! k) else view h m ! k))"
    by (rule bin_loop_spec) (use assms in auto)
  then obtain L where L: "bin_loop f h m m other 0 s = Inr (rewrite h m L, s)" "length L = unat (m_len m)"
    "\<forall>k < length L. L ! k = (if k < unat s then f (view h m ! k) (view h other ! k) else view h m ! k)" by auto
  have "dbs_elems (rewrite h m L) m =
      {k. if k < 8 * unat s then F (k \<in> dbs_elems h m) (k \<in> dbs_elems h other) else k \<in> dbs_elems h m}"
  proof (rule set_eqI)
    fix k
    have "k \<in> dbs_elems (rewrite h m L) m \<longleftrightarrow> k div 8 < unat (m_len m) \<and> bit (L ! (k div 8)) (k mod 8)"
      unfolding dbs_elems_bit rewrite_facts(2) [OF assms(1) L(2)] ..
    moreover have "k < 8 * unat s \<longleftrightarrow> k div 8 < unat s" by (simp add: div_less_iff_less_mult mult.commute)
    ultimately show "k \<in> dbs_elems (rewrite h m L) m \<longleftrightarrow>
        k \<in> {k. if k < 8 * unat s then F (k \<in> dbs_elems h m) (k \<in> dbs_elems h other) else k \<in> dbs_elems h m}"
      using L(2,3) assms(4,5) f [of "k mod 8"] by (cases "k div 8 < unat s") (auto simp: dbs_elems_bit)
  qed
  then show ?thesis using that L(1,2) by blast
qed

lemma minus_assign_spec:
  assumes "uba_inv h m" "uba_inv h other" "m_priv other \<noteq> m_priv m"
  obtains h' where "dbs_minus_assign h m other = Inr h'" "uba_inv h' m" "dbs_elems h' m = dbs_elems h m - dbs_elems h other"
proof -
  let ?s = "min (m_len m) (m_len other)"
  obtain L where L: "bin_loop (\<lambda>x y. x AND NOT y) h m m other 0 ?s = Inr (rewrite h m L, ?s)" "length L = unat (m_len m)"
    "dbs_elems (rewrite h m L) m =
      {k. if k < 8 * unat ?s then k \<in> dbs_elems h m \<and> k \<notin> dbs_elems h other else k \<in> dbs_elems h m}"
    by (rule assign_loop_spec [OF assms, where s = ?s and f = "\<lambda>x y. x AND NOT y" and F = "\<lambda>a b. a \<and> \<not> b"])
      (simp_all add: unat_min_max bit_and_iff bit_not_iff)
  have "dbs_elems (rewrite h m L) m = dbs_elems h m - dbs_elems h other"
    unfolding L(3) by (auto simp: dbs_elems_def unat_min_max split: if_splits)
  then show ?thesis using that [of "rewrite h m L"] L(1) rewrite_facts(1) [OF assms(1) L(2)] by (simp add: dbs_minus_assign_def)
qed

lemma and_assign_spec:
  assumes "uba_inv h m" "growable h m" "m_offSet m = 0" "uba_inv h other" "m_priv other \<noteq> m_priv m"
  obtains h' m' where "dbs_and_assign h m other = Inr (h', m')" "uba_inv h' m'" "dbs_elems h' m' = dbs_elems h m \<inter> dbs_elems h other"
proof -
  let ?s = "min (m_len m) (m_len other)"
  obtain m1 where 1: "uba_resize h m ?s = Inr (True, h, m1)" "m_len m1 = ?s" "m_priv m1 = m_priv m" "uba_inv h m1"
    "view h m1 = take (unat ?s) (view h m)"
    by (rule resize_smaller [OF assms(1), of ?s]) (use assms in auto)
  obtain L where L: "bin_loop (AND) h m1 m1 other 0 ?s = Inr (rewrite h m1 L, ?s)" "length L = unat (m_len m1)"
    "dbs_elems (rewrite h m1 L) m1 =
      {k. if k < 8 * unat ?s then k \<in> dbs_elems h m1 \<and> k \<in> dbs_elems h other else k \<in> dbs_elems h m1}"
    by (rule assign_loop_spec [OF 1(4) assms(4), where s = ?s and f = "(AND)" and F = "(\<and>)"])
      (use 1 assms in \<open>simp_all add: unat_min_max bit_and_iff\<close>)
  have "k \<in> dbs_elems h m1 \<longleftrightarrow> k < 8 * unat ?s \<and> k \<in> dbs_elems h m" for k
  proof -
    have "k \<in> dbs_elems h m1 \<longleftrightarrow> k div 8 < unat ?s \<and> bit (take (unat ?s) (view h m) ! (k div 8)) (k mod 8)"
      unfolding dbs_elems_bit 1(2,5) ..
    also have "\<dots> \<longleftrightarrow> k div 8 < unat ?s \<and> k \<in> dbs_elems h m" unfolding dbs_elems_bit by (auto simp: unat_min_max)
    finally show ?thesis by (simp add: div_less_iff_less_mult mult.commute)
  qed
  moreover have "k < 8 * unat ?s" if "k \<in> dbs_elems h m" "k \<in> dbs_elems h other" for k
    using that by (auto simp: dbs_elems_def unat_min_max min_def)
  ultimately have "dbs_elems (rewrite h m1 L) m1 = dbs_elems h m \<inter> dbs_elems h other"
    unfolding L(3) by (auto split: if_splits)
  then show ?thesis using that [of "rewrite h m1 L" m1] L(1) 1(1,2) rewrite_facts(1) [OF 1(4) L(2)]
    by (simp add: dbs_and_assign_def)
qed

lemma merge_assign_spec:
  fixes f :: "u8 \<Rightarrow> u8 \<Rightarrow> u8"
  assumes "owner h m" "uba_inv h other" "m_priv other \<noteq> m_priv m" "isContiguous (storage h other)"
    and f: "\<And>x y j. j < 8 \<Longrightarrow> bit (f x y) j \<longleftrightarrow> F (bit x j) (bit y j)"
    and F: "\<And>b. F b False = b" "\<And>b. F False b = b"
  obtains h' m' where "dbs_merge_assign f h m other = Inr (h', m')" "uba_inv h' m'"
    "dbs_elems h' m' = {k. F (k \<in> dbs_elems h m) (k \<in> dbs_elems h other)}"
proof -
  let ?s = "min (m_len m) (m_len other)"
  have i: "uba_inv h m" using assms(1) by (simp add: owner_def)
  obtain L where L: "bin_loop f h m m other 0 ?s = Inr (rewrite h m L, ?s)" "length L = unat (m_len m)"
    "dbs_elems (rewrite h m L) m =
      {k. if k < 8 * unat ?s then F (k \<in> dbs_elems h m) (k \<in> dbs_elems h other) else k \<in> dbs_elems h m}"
    by (rule assign_loop_spec [OF i assms(2,3), where s = ?s and f = f and F = F]) (use f in \<open>simp_all add: unat_min_max\<close>)
  let ?h = "rewrite h m L"
  note r = rewrite_facts [OF i L(2)] and o = rewrite_other [OF i L(2)]
  show ?thesis
  proof (cases "m_len m < m_len other")
    case False
    have "dbs_elems ?h m = {k. F (k \<in> dbs_elems h m) (k \<in> dbs_elems h other)}"
    proof (rule set_eqI)
      fix k
      have "unat ?s = unat (m_len other)" using False by (simp add: unat_min_max word_less_nat_alt)
      then have "\<not> k < 8 * unat ?s \<Longrightarrow> k \<notin> dbs_elems h other" by (simp add: dbs_elems_def)
      then show "k \<in> dbs_elems ?h m \<longleftrightarrow> k \<in> {k. F (k \<in> dbs_elems h m) (k \<in> dbs_elems h other)}"
        unfolding L(3) using F(1) [of "k \<in> dbs_elems h m"] by (cases "k < 8 * unat ?s") simp_all
    qed
    then show ?thesis using that [of ?h m] L(1) r(1) False by (simp add: dbs_merge_assign_def)
  next
    case True
    let ?n = "m_len other - m_len m"
    have lt: "unat (m_len m) < unat (m_len other)" using True by (simp add: word_less_nat_alt)
    then have n: "unat ?n = unat (m_len other) - unat (m_len m)" by (intro unat_sub) (simp add: word_le_nat_alt)
    have "unat (m_len m) + unat ?n \<le> max_size" using n lt inv_max_size [OF assms(2)] by simp
    with owner_rewrite [OF assms(1) L(2)] obtain h1 where
      1: "uba_growStorage ?h m ?n = Inr (True, h1, m\<lparr>m_len := m_len m + ?n\<rparr>)" "owner h1 (m\<lparr>m_len := m_len m + ?n\<rparr>)"
        "view h1 (m\<lparr>m_len := m_len m + ?n\<rparr>) = view ?h m @ replicate (unat ?n) 0"
        "\<forall>w. m_priv w \<noteq> m_priv m \<longrightarrow> storage h1 w = storage ?h w"
      by (rule grow_owner) metis
    let ?m = "m\<lparr>m_len := m_len other\<rparr>"
    have m: "m\<lparr>m_len := m_len m + ?n\<rparr> = ?m" by simp
    have i1: "uba_inv h1 ?m" using 1(2) unfolding m by (simp add: owner_def)
    have v1: "view h1 ?m = L @ replicate (unat ?n) 0" using 1(3) r(2) unfolding m by simp
    have so: "storage h1 other = storage h other" using 1(4) o(3) assms(3) by simp
    have io: "uba_inv h1 other" "view h1 other = view h other" using assms(2) so by (simp_all add: uba_inv_def view_def)
    let ?sub = "uba_sub other (m_len m)"
    have sub: "uba_inv h1 ?sub" "view h1 ?sub = drop (unat (m_len m)) (view h other)" "unat (m_len ?sub) = unat ?n"
      "m_priv ?sub = m_priv other"
      using sub_spec [OF io(1), of "m_len m"] io(2) lt n by (simp_all add: uba_sub_def Let_def)
    have "storage h1 ?sub = storage h other" using so sub(4) by (simp add: storage_def)
    then have pd: "uba_putData_adapter h1 ?m (m_len m) ?sub = Inr (upd h1 ?m (m_len m) (view h1 ?sub))"
      using assms(3,4) sub n lt by (intro putData_adapter_spec [OF i1 sub(1)]) simp_all
    let ?h2 = "upd h1 ?m (m_len m) (view h1 ?sub)"
    have fit: "unat (m_len m) + length (view h1 ?sub) \<le> unat (m_len ?m)" using sub n lt assms(2) by simp
    have "view ?h2 ?m = blit (unat (m_len m)) (view h1 ?sub) (L @ replicate (unat ?n) 0)"
      using view_upd [OF i1 fit] v1 by simp
    also have "\<dots> = L @ drop (unat (m_len m)) (view h other)"
      using L(2) sub n lt assms(2) by (simp add: blit_def)
    finally have v2: "view ?h2 ?m = L @ drop (unat (m_len m)) (view h other)" .
    have "dbs_elems ?h2 ?m = {k. F (k \<in> dbs_elems h m) (k \<in> dbs_elems h other)}"
    proof (rule set_eqI)
      fix k
      show "k \<in> dbs_elems ?h2 ?m \<longleftrightarrow> k \<in> {k. F (k \<in> dbs_elems h m) (k \<in> dbs_elems h other)}"
      proof (cases "k div 8 < unat (m_len m)")
        case True
        have "k \<in> dbs_elems ?h2 ?m \<longleftrightarrow> k \<in> dbs_elems ?h m"
          using True lt L(2) unfolding dbs_elems_bit v2 r(2) by (simp add: nth_append)
        moreover have "k < 8 * unat ?s" using True lt by (simp add: unat_min_max div_less_iff_less_mult mult.commute)
        ultimately show ?thesis unfolding L(3) by simp
      next
        case False
        then have "k \<in> dbs_elems ?h2 ?m \<longleftrightarrow> k \<in> dbs_elems h other"
          using lt L(2) assms(2) unfolding dbs_elems_bit v2 by (auto simp: nth_append)
        moreover have "k \<notin> dbs_elems h m" using False by (simp add: dbs_elems_bit)
        ultimately show ?thesis using F(2) by simp
      qed
    qed
    moreover have "uba_inv ?h2 ?m" by (rule inv_upd [OF i1 fit i1])
    moreover have "dbs_merge_assign f h m other = Inr (?h2, ?m)"
    proof -
      have ns: "\<not> m_len other < m_len m" using True by auto
      have "uba_resize ?h m (m_len other) = Inr (True, h1, ?m)"
        using 1(1) unfolding m uba_resize_def by (simp only: if_not_P [OF ns])
      then show ?thesis using L(1) True pd by (simp add: dbs_merge_assign_def Let_def)
    qed
    ultimately show ?thesis using that by blast
  qed
qed

section \<open>Comparison\<close>

lemma all_from_step:
  fixes i s :: nat
  assumes "i < s"
  shows "(\<forall>k. i \<le> k \<and> k < s \<longrightarrow> P k) \<longleftrightarrow> P i \<and> (\<forall>k. i + 1 \<le> k \<and> k < s \<longrightarrow> P k)"
proof -
  have le: "i \<le> k \<longleftrightarrow> k = i \<or> i + 1 \<le> k" for k by auto
  show ?thesis unfolding le using assms by blast
qed

lemma eq_loop_spec:
  assumes "uba_inv h a" "uba_inv h b" "unat s \<le> unat (m_len a)" "unat s \<le> unat (m_len b)"
  shows "i \<le> s \<Longrightarrow> \<exists>j. eq_loop h a b i s = Inr (\<forall>k. unat i \<le> k \<and> k < unat s \<longrightarrow> view h a ! k = view h b ! k, j) \<and>
    ((\<forall>k. unat i \<le> k \<and> k < unat s \<longrightarrow> view h a ! k = view h b ! k) \<longrightarrow> j = s)"
proof (induction "unat s - unat i" arbitrary: i rule: less_induct)
  case less
  show ?case
  proof (cases "i < s")
    case False
    then have "i = s" using less.prems by simp
    then show ?thesis by (subst eq_loop.simps) auto
  next
    case True
    then have lt: "unat i < unat s" by (simp add: word_less_nat_alt)
    note u = unat_suc [OF True]
    have le: "i + 1 \<le> s" using u lt by (simp add: word_le_nat_alt)
    have step: "eq_loop h a b i s =
        (if view h a ! unat i \<noteq> view h b ! unat i then Inr (False, i) else eq_loop h a b (i + 1) s)"
      using True lt assms at_spec(1) [OF assms(1), of i] at_spec(1) [OF assms(2), of i] by (subst eq_loop.simps) simp
    have split: "(\<forall>k. unat i \<le> k \<and> k < unat s \<longrightarrow> view h a ! k = view h b ! k) \<longleftrightarrow>
        view h a ! unat i = view h b ! unat i \<and> (\<forall>k. unat (i + 1) \<le> k \<and> k < unat s \<longrightarrow> view h a ! k = view h b ! k)"
      unfolding u by (rule all_from_step [OF lt])
    show ?thesis
    proof (cases "view h a ! unat i = view h b ! unat i")
      case eq: True
      show ?thesis unfolding step split using less.hyps [OF word_step [OF True] le] by (simp only: eq simp_thms if_False)
    next
      case False
      then show ?thesis unfolding step split by simp
    qed
  qed
qed

lemma zero_rest_spec:
  assumes "uba_inv h a" "s = m_len a"
  shows "\<exists>j. zero_rest h a i s = Inr (\<forall>k. unat i \<le> k \<and> k < unat s \<longrightarrow> view h a ! k = 0, j) \<and>
    ((\<forall>k. unat i \<le> k \<and> k < unat s \<longrightarrow> view h a ! k = 0) \<longrightarrow> j = max i s)"
proof (induction "unat s - unat i" arbitrary: i rule: less_induct)
  case less
  show ?case
  proof (cases "i < s")
    case False
    then show ?thesis by (subst zero_rest.simps) (auto simp: word_less_nat_alt max_def word_le_nat_alt intro: word_unat_eq_iff [THEN iffD2])
  next
    case True
    then have lt: "unat i < unat s" by (simp add: word_less_nat_alt)
    note u = unat_suc [OF True]
    have step: "zero_rest h a i s = (if view h a ! unat i \<noteq> 0 then Inr (False, i) else zero_rest h a (i + 1) s)"
      using True lt assms at_spec(1) [OF assms(1), of i] by (subst zero_rest.simps) simp
    have split: "(\<forall>k. unat i \<le> k \<and> k < unat s \<longrightarrow> view h a ! k = 0) \<longleftrightarrow>
        view h a ! unat i = 0 \<and> (\<forall>k. unat (i + 1) \<le> k \<and> k < unat s \<longrightarrow> view h a ! k = 0)"
      unfolding u by (rule all_from_step [OF lt])
    have m: "max (i + 1) s = max i s" using lt u by (simp add: max_def word_le_nat_alt)
    show ?thesis
    proof (cases "view h a ! unat i = 0")
      case eq: True
      show ?thesis unfolding step split using less.hyps [OF word_step [OF True]] by (simp only: eq m simp_thms if_False)
    next
      case False
      then show ?thesis unfolding step split by simp
    qed
  qed
qed

lemma byte_eq_bits: "x = y \<longleftrightarrow> (\<forall>j < 8. bit x j = bit y j)" for x y :: u8
  by (auto intro: bit_word_eqI)

lemma all_elems:
  assumes "unat (m_len m) \<le> n"
  shows "(\<forall>i < n. \<forall>j < 8. (i < unat (m_len m) \<and> bit (view h m ! i) j) = P (8 * i + j)) \<longleftrightarrow>
    (\<forall>k < 8 * n. k \<in> dbs_elems h m \<longleftrightarrow> P k)"
proof
  assume a: "\<forall>i < n. \<forall>j < 8. (i < unat (m_len m) \<and> bit (view h m ! i) j) = P (8 * i + j)"
  show "\<forall>k < 8 * n. k \<in> dbs_elems h m \<longleftrightarrow> P k"
  proof (intro allI impI)
    fix k assume "k < 8 * n"
    then have "k div 8 < n" by (rule byte_index)
    then show "k \<in> dbs_elems h m \<longleftrightarrow> P k" using a [rule_format, of "k div 8" "k mod 8"] by (simp add: dbs_elems_bit)
  qed
next
  assume a: "\<forall>k < 8 * n. k \<in> dbs_elems h m \<longleftrightarrow> P k"
  show "\<forall>i < n. \<forall>j < 8. (i < unat (m_len m) \<and> bit (view h m ! i) j) = P (8 * i + j)"
  proof (intro allI impI)
    fix i j :: nat assume "i < n" "j < 8"
    then have "8 * i + j < 8 * n" "(8 * i + j) div 8 = i" "(8 * i + j) mod 8 = j" by simp_all
    then show "(i < unat (m_len m) \<and> bit (view h m ! i) j) = P (8 * i + j)"
      using a [rule_format, of "8 * i + j"] by (simp add: dbs_elems_bit)
  qed
qed

text \<open>Byte \<open>i\<close> of a set that may be shorter.\<close>

definition byte_of :: "heap \<Rightarrow> uba \<Rightarrow> nat \<Rightarrow> u8" where
  "byte_of h m i = (if i < unat (m_len m) then view h m ! i else 0)"

lemma elems_eq_bytes:
  "dbs_elems h a = dbs_elems h b \<longleftrightarrow> (\<forall>i < max (unat (m_len a)) (unat (m_len b)). byte_of h a i = byte_of h b i)"
proof -
  let ?n = "max (unat (m_len a)) (unat (m_len b))"
  have el: "k \<in> dbs_elems h m \<longleftrightarrow> bit (byte_of h m (k div 8)) (k mod 8)" for k m
    by (simp add: dbs_elems_bit byte_of_def)
  have "dbs_elems h a = dbs_elems h b \<longleftrightarrow> (\<forall>i. byte_of h a i = byte_of h b i)"
  proof
    assume e: "dbs_elems h a = dbs_elems h b"
    show "\<forall>i. byte_of h a i = byte_of h b i"
      unfolding byte_eq_bits
    proof (intro allI impI)
      fix i j :: nat assume "j < 8"
      then show "bit (byte_of h a i) j = bit (byte_of h b i) j" 
        using e el [of "8 * i + j" a] el [of "8 * i + j" b] by simp
    qed
  qed (auto simp: el)
  moreover have "byte_of h a i = byte_of h b i" if "\<not> i < ?n" for i using that unfolding byte_of_def by (auto simp: not_less)
  ultimately show ?thesis by blast
qed

lemma dbs_eq_spec:
  assumes "uba_inv h a" "uba_inv h b"
  shows "dbs_eq h a b = Inr (dbs_elems h a = dbs_elems h b)"
proof -
  let ?s = "min (m_len a) (m_len b)" and ?n = "max (unat (m_len a)) (unat (m_len b))"
  let ?P = "\<forall>k < unat ?s. view h a ! k = view h b ! k"
  let ?Q = "\<forall>k. unat ?s \<le> k \<and> k < unat (m_len a) \<longrightarrow> view h a ! k = 0"
  let ?R = "\<forall>k. unat ?s \<le> k \<and> k < unat (m_len b) \<longrightarrow> view h b ! k = 0"
  have s: "unat ?s = min (unat (m_len a)) (unat (m_len b))" by (simp add: unat_min_max)
  obtain j where 1: "eq_loop h a b 0 ?s = Inr (?P, j)" "?P \<Longrightarrow> j = ?s"
    using eq_loop_spec [OF assms, of ?s 0] s by auto
  obtain j2 where 2: "zero_rest h a ?s (m_len a) = Inr (?Q, j2)" "?Q \<Longrightarrow> j2 = max ?s (m_len a)"
    using zero_rest_spec [OF assms(1) refl, of ?s] by blast
  let ?i = "max ?s (m_len a)"
  obtain j3 where 3: "zero_rest h b ?i (m_len b) = Inr (\<forall>k. unat ?i \<le> k \<and> k < unat (m_len b) \<longrightarrow> view h b ! k = 0, j3)"
    using zero_rest_spec [OF assms(2) refl, of ?i] by blast
  have i: "unat ?i = unat (m_len a)" by (simp add: unat_min_max)
  have r: "(\<forall>k. unat ?i \<le> k \<and> k < unat (m_len b) \<longrightarrow> view h b ! k = 0) \<longleftrightarrow> ?R"
    unfolding i s by (auto simp: min_def)
  have "dbs_eq h a b = Inr (?P \<and> ?Q \<and> ?R)"
    unfolding r [symmetric] using 1 2 3 by (cases ?P; cases ?Q) (simp_all add: dbs_eq_def)
  moreover have "?P \<and> ?Q \<and> ?R \<longleftrightarrow> (\<forall>i < ?n. byte_of h a i = byte_of h b i)"
  proof
    assume p: "?P \<and> ?Q \<and> ?R"
    show "\<forall>i < ?n. byte_of h a i = byte_of h b i"
    proof (intro allI impI)
      fix i assume "i < ?n"
      then show "byte_of h a i = byte_of h b i"
        using p unfolding s by (cases "i < unat (m_len a)"; cases "i < unat (m_len b)") (auto simp: byte_of_def)
    qed
  next
    assume p: "\<forall>i < ?n. byte_of h a i = byte_of h b i"
    have "view h a ! k = view h b ! k" if "k < unat ?s" for k
      using p that unfolding s by (auto simp: byte_of_def less_max_iff_disj)
    moreover have "view h a ! k = 0" if "unat ?s \<le> k" "k < unat (m_len a)" for k
      using p that unfolding s by (auto simp: byte_of_def less_max_iff_disj min_def split: if_splits)
    moreover have "view h b ! k = 0" if "unat ?s \<le> k" "k < unat (m_len b)" for k
      using p that unfolding s by (auto simp: byte_of_def less_max_iff_disj min_def split: if_splits)
    ultimately show "?P \<and> ?Q \<and> ?R" by blast
  qed
  ultimately show ?thesis unfolding elems_eq_bytes by simp
qed

end
