(* ===== verification/DynamicBitSetIter.thy ===== *)
theory DynamicBitSetIter
  imports DynamicBitSetProps
begin

text \<open>
  Counting and enumeration of the bit set: \<open>size\<close>, \<open>putInto\<close> and the iterator are related
  to the increasing list \<open>elem_list\<close> of the elements.
\<close>

section \<open>The elements from a position on\<close>

definition elems_from :: "bytes \<Rightarrow> nat \<Rightarrow> nat list" where
  "elems_from V k = filter (bitb V) [k..<8 * length V]"

abbreviation elem_list :: "heap \<Rightarrow> uba \<Rightarrow> nat list" where
  "elem_list h m \<equiv> elems_from (view h m) 0"

lemma elem_list_set: "uba_inv h m \<Longrightarrow> set (elem_list h m) = dbs_elems h m"
  by (auto simp: elems_from_def dbs_elems_def)

lemma elem_list_sorted: "uba_inv h m \<Longrightarrow> sorted_list_of_set (dbs_elems h m) = elem_list h m"
  unfolding elem_list_set [symmetric]
  by (rule sorted_list_of_set.idem_if_sorted_distinct) (simp_all add: elems_from_def sorted_wrt_filter)

lemma getUint8_at: "uba_getUint8 = uba_at"
  by (simp add: uba_getUint8_def uba_at_def)

lemma filter_shift: "filter P [k..<k + n] = map (\<lambda>j. k + j) (filter (\<lambda>j. P (k + j)) [0..<n])"
proof -
  have "[k..<k + n] = map (\<lambda>j. k + j) [0..<n]" by (rule nth_equalityI) simp_all
  then show ?thesis by (simp add: filter_map comp_def)
qed

lemma elems_byte_from:
  assumes "i < length V" "c \<le> 8"
  shows "elems_from V (8 * i + c) = map (\<lambda>j. 8 * i + j) (filter (bit (V ! i)) [c..<8]) @ elems_from V (8 * (i + 1))"
proof -
  have "[8 * i + c..<8 * length V] = [8 * i + c..<8 * i + 8] @ [8 * (i + 1)..<8 * length V]"
    using upt_add_eq_append [of "8 * i + c" "8 * i + 8" "8 * length V - (8 * i + 8)"] assms by (simp add: add.commute)
  then have "elems_from V (8 * i + c) = filter (bitb V) [8 * i + c..<8 * i + 8] @ elems_from V (8 * (i + 1))"
    by (simp only: elems_from_def filter_append)
  moreover have "[8 * i + c..<8 * i + 8] = map (\<lambda>j. 8 * i + j) [c..<8]" by (rule nth_equalityI) simp_all
  moreover have "filter (\<lambda>j. bitb V (8 * i + j)) [c..<8] = filter (bit (V ! i)) [c..<8]"
    by (rule filter_cong) (auto simp: bitb_def)
  ultimately show ?thesis by (simp add: filter_map comp_def)
qed

lemma elems_byte:
  "i < length V \<Longrightarrow> elems_from V (8 * i) = map (\<lambda>j. 8 * i + j) (filter (bit (V ! i)) [0..<8]) @ elems_from V (8 * (i + 1))"
  using elems_byte_from [of i V 0] by simp

lemma elems_from_Cons:
  "elems_from V k = e # es \<Longrightarrow> elems_from V (e + 1) = es \<and> bitb V e \<and> e < 8 * length V"
proof (induction "8 * length V - k" arbitrary: k)
  case (Suc n)
  then have "[k..<8 * length V] = k # [k + 1..<8 * length V]" by (simp add: upt_conv_Cons)
  moreover have "n = 8 * length V - (k + 1)" using Suc.hyps(2) by simp
  ultimately show ?case
    using Suc.prems Suc.hyps(1) [of "k + 1"] Suc.hyps(2) by (cases "bitb V k") (auto simp: elems_from_def)
qed (simp add: elems_from_def)

lemma elems_end [simp]: "8 * length V \<le> k \<Longrightarrow> elems_from V k = []"
  by (simp add: elems_from_def)

section \<open>\<open>putInto\<close>\<close>

lemma put_byte_bits:
  fixes d :: u8
  shows "(\<forall>j \<ge> n. \<not> bit d j) \<Longrightarrow> put_byte c d = map (\<lambda>j. c + of_nat j) (filter (bit d) [0..<n])"
proof (induction n arbitrary: c d)
  case 0
  then have "d = 0" by (intro bit_word_eqI) simp
  then show ?case by (simp add: put_byte.simps)
next
  case (Suc n)
  show ?case
  proof (cases "d = 0")
    case True
    then show ?thesis by (simp add: put_byte.simps)
  next
    case False
    have "\<forall>j \<ge> n. \<not> bit (drop_bit 1 d) j" using Suc.prems by (simp add: bit_drop_bit_eq)
    from Suc.IH [OF this, of "c + 1"]
    have "put_byte (c + 1) (drop_bit 1 d) = map (\<lambda>j. c + 1 + of_nat j) (filter (\<lambda>j. bit d (Suc j)) [0..<n])"
      by (simp add: bit_drop_bit_eq)
    moreover have "d AND 1 \<noteq> 0 \<longleftrightarrow> bit d 0" using and_bit [of d 0] by simp
    moreover have "[0..<Suc n] = 0 # map Suc [0..<n]" by (simp add: upt_conv_Cons map_Suc_upt del: upt_Suc)
    ultimately show ?thesis
      using False by (subst put_byte.simps) (simp add: filter_map comp_def algebra_simps del: upt_Suc)
  qed
qed

lemma put_byte_spec: "put_byte c d = map (\<lambda>j. c + of_nat j) (filter (bit d) [0..<8])" for d :: u8
  by (rule put_byte_bits) (auto dest: bit_imp_le_length)

lemma putInto_loop_spec:
  assumes "uba_inv h m"
  shows "putInto_loop h m i (8 * i) = Inr (map of_nat (elems_from (view h m) (8 * unat i)))"
proof (induction "unat (m_len m) - unat i" arbitrary: i rule: less_induct)
  case less
  show ?case
  proof (cases "i < m_len m")
    case False
    then have "unat (m_len m) \<le> unat i" by (simp add: word_le_nat_alt not_less)
    then show ?thesis using assms False by (subst putInto_loop.simps) simp
  next
    case True
    then have lt: "unat i < unat (m_len m)" by (simp add: word_less_nat_alt)
    have len: "unat i < length (view h m)" using lt assms by simp
    have c: "8 * i + of_nat j = of_nat (8 * unat i + j)" for j by simp
    have "8 * i + 8 = 8 * (i + 1)" by (simp add: algebra_simps)
    then show ?thesis
      using True lt less.hyps [OF word_step [OF True]] at_spec(1) [OF assms, of i] unat_suc [OF True]
      unfolding elems_byte [OF len]
      by (subst putInto_loop.simps) (simp add: getUint8_at put_byte_spec c comp_def del: of_nat_add of_nat_mult of_nat_numeral upt_rec_numeral)
  qed
qed

lemma putInto_spec: "uba_inv h m \<Longrightarrow> dbs_putInto h m = Inr (map of_nat (elem_list h m))"
  using putInto_loop_spec [of h m 0] by (simp add: dbs_putInto_def)

section \<open>\<open>size\<close>\<close>

lemma popCount_num_at:
  assumes "n = LENGTH('a::len)"
  shows "popCount (num_at V B n :: 'a word) = of_nat (length (filter (bitb V) [B..<B + n]))"
proof -
  have "filter (bit (num_at V B n :: 'a word)) [0..<n] = filter (\<lambda>j. bitb V (B + j)) [0..<n]"
    using assms by (intro filter_cong) (auto simp: bit_num_at)
  then show ?thesis unfolding popCount_def filter_shift using assms by simp
qed

lemma filter_count_append: "length (filter P [a..<b]) + length (filter P [b..<c]) = length (filter P [a..<c])" if "a \<le> b" "b \<le> c"
proof -
  have "[a..<c] = [a..<b] @ [b..<c]" using that upt_add_eq_append [of a b "c - b"] by simp
  then show ?thesis by simp
qed

lemma getUint32_view:
  assumes "uba_inv h m" "q + 4 \<le> unat (m_len m)"
  shows "uba_getUint32 h m (of_nat q) = Inr (num_at (view h m) (8 * q) 32)"
proof -
  have q: "unat (of_nat q :: u64) = q" using assms unat_bound64 [of "m_len m"] by (intro unat_of_nat_small) simp
  have "q + 4 \<le> length (view h m)" using assms by simp
  then have "up_u32 (drop q (view h m)) = num_at (view h m) (8 * q) 32"
    unfolding up_u32_def by (simp add: le_word_num_at)
  then show ?thesis
    using Uint32.get_spec [OF assms(1), of "of_nat q"] assms(2) unat_bound64 [of "m_len m"] by (simp add: q uba_getUint32_def)
qed

lemma pop_words_spec:
  assumes "uba_inv h m"
  shows "4 * n + q \<le> unat (m_len m) \<Longrightarrow>
    pop_words n h m (of_nat q) c =
      Inr (c + of_nat (length (filter (bitb (view h m)) [8 * q..<8 * (q + 4 * n)])), of_nat (q + 4 * n))"
proof (induction n arbitrary: q c)
  case (Suc n)
  have "popCount (num_at (view h m) (8 * q) 32 :: u32) = of_nat (length (filter (bitb (view h m)) [8 * q..<8 * q + 32]))"
    by (rule popCount_num_at) simp
  moreover have "of_nat q + 4 = (of_nat (q + 4) :: u64)" by simp
  ultimately show ?case
    using Suc.prems Suc.IH [of "q + 4"] getUint32_view [OF assms, of q]
      filter_count_append [of "8 * q" "8 * q + 32" "8 * (q + 4 * Suc n)" "bitb (view h m)", symmetric]
    by (simp add: algebra_simps del: upt_Suc upt_rec_numeral)
qed simp

lemma pop_bytes_spec:
  assumes "uba_inv h m"
  shows "q + n \<le> unat (m_len m) \<Longrightarrow>
    pop_bytes n h m (of_nat q) c = Inr (c + of_nat (length (filter (bitb (view h m)) [8 * q..<8 * (q + n)])))"
proof (induction n arbitrary: q c)
  case (Suc n)
  have q: "unat (of_nat q :: u64) = q" using Suc.prems unat_bound64 [of "m_len m"] by (intro unat_of_nat_small) simp
  have "view h m ! q = num_at (view h m) (8 * q) 8"
    using Suc.prems assms by (intro bit_word_eqI) (auto simp: bit_num_at bitb_def)
  then have "popCount (view h m ! q) = of_nat (length (filter (bitb (view h m)) [8 * q..<8 * q + 8]))"
    using popCount_num_at [where 'a = 8 and V = "view h m" and B = "8 * q" and n = 8] by simp
  moreover have "of_nat q + 1 = (of_nat (q + 1) :: u64)" by simp
  ultimately show ?case
    using Suc.prems Suc.IH [of "q + 1"] at_spec(1) [OF assms, of "of_nat q"] q
      filter_count_append [of "8 * q" "8 * q + 8" "8 * (q + Suc n)" "bitb (view h m)", symmetric]
    by (simp add: algebra_simps del: upt_Suc upt_rec_numeral)
qed simp

lemma size_spec:
  assumes "uba_inv h m"
  shows "dbs_size h m = Inr (ucast (of_nat (card (dbs_elems h m)) :: u32))"
proof -
  let ?n = "unat (m_len m) div 4" and ?r = "unat (m_len m) mod 4"
  have n: "4 * ?n + ?r = unat (m_len m)" by simp
  have "unat (of_nat (4 * ?n) :: u64) = 4 * ?n" using n unat_bound64 [of "m_len m"] by (intro unat_of_nat_small) simp
  then have "unat (m_len m - of_nat (4 * ?n)) = ?r"
    using n by (subst unat_sub) (simp_all add: word_le_nat_alt minus_mult_div_eq_mod del: of_nat_mult)
  moreover have "length (elem_list h m) = card (dbs_elems h m)"
    unfolding elem_list_set [OF assms, symmetric] by (rule distinct_card [symmetric]) (simp add: elems_from_def)
  moreover have "length (filter (bitb (view h m)) [0..<8 * (4 * ?n)]) + length (filter (bitb (view h m)) [8 * (4 * ?n)..<8 * (4 * ?n + ?r)])
      = length (elem_list h m)"
    using filter_count_append [of 0 "8 * (4 * ?n)" "8 * (4 * ?n + ?r)" "bitb (view h m)"] n assms by (simp add: elems_from_def)
  ultimately show ?thesis
    using pop_words_spec [OF assms, of ?n 0 0] pop_bytes_spec [OF assms, of "4 * ?n" ?r] n
    unfolding dbs_size_def by (simp add: of_nat_add [symmetric] del: of_nat_add of_nat_mult of_nat_numeral)
qed

section \<open>The iterator\<close>

text \<open>The iterator at bit \<open>c\<close> of byte \<open>i\<close>, before byte \<open>i\<close>, and past the end.\<close>

definition it_pos :: "bytes \<Rightarrow> nat \<Rightarrow> nat \<Rightarrow> dbs_it" where
  "it_pos V i c = \<lparr>it_off = of_nat i, it_curId = of_nat (8 * i + c), it_d = drop_bit c (V ! i), it_remainingBits = of_nat (8 - c)\<rparr>"

definition it_before :: "nat \<Rightarrow> dbs_it" where
  "it_before i = \<lparr>it_off = of_nat i, it_curId = of_nat (8 * i), it_d = 0, it_remainingBits = 8\<rparr>"

definition it_stop :: "bytes \<Rightarrow> dbs_it" where
  "it_stop V = \<lparr>it_off = of_nat (length V), it_curId = of_nat (8 * length V), it_d = 0, it_remainingBits = 0\<rparr>"

definition it_target :: "bytes \<Rightarrow> nat \<Rightarrow> dbs_it" where
  "it_target V k = (case elems_from V k of [] \<Rightarrow> it_stop V | e # _ \<Rightarrow> it_pos V (e div 8) (e mod 8))"

lemma it_pos_next:
  assumes "c < 8"
  shows "(it_pos V i c)\<lparr>it_d := drop_bit 1 (it_d (it_pos V i c)), it_remainingBits := it_remainingBits (it_pos V i c) - 1,
    it_curId := it_curId (it_pos V i c) + 1\<rparr> = it_pos V i (c + 1)" (is ?a)
    "(it_pos V i c)\<lparr>it_remainingBits := it_remainingBits (it_pos V i c) - 1, it_d := drop_bit 1 (it_d (it_pos V i c)),
    it_curId := it_curId (it_pos V i c) + 1\<rparr> = it_pos V i (c + 1)" (is ?b)
proof -
  have "(of_nat (8 - c) :: u8) - 1 = of_nat (8 - (c + 1))" using assms by (simp add: of_nat_diff)
  then show ?a ?b by (simp_all add: it_pos_def drop_bit_drop_bit algebra_simps)
qed

lemma no_bits: "filter (bit d) [c..<8] = [] \<longleftrightarrow> drop_bit c d = 0" for d :: u8
proof
  assume "filter (bit d) [c..<8] = []"
  then have "\<forall>j. c \<le> j \<and> j < 8 \<longrightarrow> \<not> bit d j" by (auto simp: filter_empty_conv)
  then show "drop_bit c d = 0" 
    by (intro bit_word_eqI) (use bit_imp_le_length [of d] in \<open>fastforce simp: bit_drop_bit_eq\<close>)
next
  assume "drop_bit c d = 0"
  then have "\<not> bit (drop_bit c d) j" for j by simp
  then have "\<not> bit d (c + j)" for j by (simp add: bit_drop_bit_eq)
  then show "filter (bit d) [c..<8] = []" by (auto simp: filter_empty_conv) (metis le_add_diff_inverse)
qed

lemma it_bits_spec:
  "c \<le> 8 \<Longrightarrow> it_bits (it_pos V i c) =
    (case filter (bit (V ! i)) [c..<8] of [] \<Rightarrow> (False, it_pos V i c) | j # _ \<Rightarrow> (True, it_pos V i j))"
proof (induction "8 - c" arbitrary: c)
  case 0
  then have "c = 8" by simp
  then show ?case by (subst it_bits.simps) (simp add: it_pos_def)
next
  case (Suc n)
  then have c: "c < 8" by simp
  show ?case
  proof (cases "drop_bit c (V ! i) = 0")
    case True
    then show ?thesis using no_bits [of "V ! i" c] by (subst it_bits.simps) (simp add: it_pos_def)
  next
    case False
    have r: "(of_nat (8 - c) :: u8) \<noteq> 0"
    proof -
      have "unat (of_nat (8 - c) :: u8) = 8 - c" by (rule unat_of_nat_small) simp
      then show ?thesis using c by (metis unat_0 diff_is_0_eq not_le)
    qed
    have u: "[c..<8] = c # [c + 1..<8]" using c by (simp add: upt_conv_Cons del: upt_rec_numeral)
    have b: "drop_bit c (V ! i) AND 1 \<noteq> 0 \<longleftrightarrow> bit (V ! i) c" using and_bit [of "drop_bit c (V ! i)" 0] by (simp add: bit_drop_bit_eq)
    show ?thesis
    proof (cases "bit (V ! i) c")
      case True
      then show ?thesis using False r b unfolding u by (subst it_bits.simps) (simp add: it_pos_def)
    next
      case nb: False
      have "it_bits (it_pos V i c) = it_bits (it_pos V i (c + 1))"
        using False r b nb it_pos_next(1) [OF c, of V i] by (subst it_bits.simps) (simp add: it_pos_def ac_simps)
      also have "\<dots> = (case filter (bit (V ! i)) [c + 1..<8] of [] \<Rightarrow> (False, it_pos V i (c + 1)) | j # _ \<Rightarrow> (True, it_pos V i j))"
        using Suc c by (intro Suc.hyps) simp_all
      also have "filter (bit (V ! i)) [c + 1..<8] = filter (bit (V ! i)) [c..<8]" unfolding u using nb by simp
      finally show ?thesis using False no_bits [of "V ! i" c] by (cases "filter (bit (V ! i)) [c..<8]") simp_all
    qed
  qed
qed

lemma it_pos_target:
  assumes "i < length V" "c \<le> 8" "filter (bit (V ! i)) [c..<8] = j # js"
  shows "it_target V (8 * i + c) = it_pos V i j"
proof -
  have "j \<in> set (filter (bit (V ! i)) [c..<8])" using assms(3) by simp
  then have "j < 8" by simp
  then show ?thesis using elems_byte_from [OF assms(1,2)] assms(3) by (simp add: it_target_def)
qed

lemma off_lt: "uba_inv h m \<Longrightarrow> i \<le> unat (m_len m) \<Longrightarrow> (of_nat i < m_len m) = (i < unat (m_len m)) \<and> unat (of_nat i :: u64) = i"
  using unat_bound64 [of "m_len m"] by (simp add: word_less_nat_alt unat_of_nat_small)

lemma it_bytes_spec:
  assumes "uba_inv h m"
  shows "i \<le> unat (m_len m) \<Longrightarrow>
    bindE (it_bytes h m (it_before i)) (\<lambda>it. if it_off it \<ge> m_len m then Inr (it\<lparr>it_remainingBits := 0\<rparr>) else Inr (snd (it_bits it)))
    = Inr (it_target (view h m) (8 * i))"
proof (induction "unat (m_len m) - i" arbitrary: i)
  case 0
  then have "i = unat (m_len m)" by simp
  then show ?case using assms by (subst it_bytes.simps) (simp add: it_before_def it_target_def it_stop_def)
next
  case (Suc n)
  then have i: "i < unat (m_len m)" by simp
  then have o: "of_nat i < m_len m" "unat (of_nat i :: u64) = i" using off_lt [OF assms, of i] by simp_all
  have len: "i < length (view h m)" using i assms by simp
  have at: "uba_at h m (of_nat i) = Inr (view h m ! i)" using at_spec(1) [OF assms, of "of_nat i"] o i by simp
  have p0: "(it_before i)\<lparr>it_d := view h m ! i\<rparr> = it_pos (view h m) i 0" by (simp add: it_before_def it_pos_def)
  show ?case
  proof (cases "view h m ! i = 0")
    case True
    have "(it_before i)\<lparr>it_d := 0, it_off := it_off (it_before i) + 1, it_curId := it_curId (it_before i) + 8\<rparr> = it_before (i + 1)"
      by (simp add: it_before_def algebra_simps)
    then have "it_bytes h m (it_before i) = it_bytes h m (it_before (i + 1))"
      using True o at by (subst it_bytes.simps) (simp add: it_before_def ac_simps)
    moreover have "it_target (view h m) (8 * i) = it_target (view h m) (8 * (i + 1))"
      using elems_byte [OF len] True by (simp add: it_target_def)
    ultimately show ?thesis using Suc by simp
  next
    case False
    then have "filter (bit (view h m ! i)) [0..<8] \<noteq> []" using no_bits [of "view h m ! i" 0] by simp
    then obtain j js where j: "filter (bit (view h m ! i)) [0..<8] = j # js" by (meson neq_Nil_conv)
    have "it_bytes h m (it_before i) = Inr (it_pos (view h m) i 0)"
      using False o at p0 by (subst it_bytes.simps) (simp add: it_before_def)
    moreover have "it_bits (it_pos (view h m) i 0) = (True, it_pos (view h m) i j)"
      using it_bits_spec [of 0 "view h m" i] unfolding j by simp
    moreover have "it_off (it_pos (view h m) i 0) = of_nat i" by (simp add: it_pos_def)
    moreover have "it_target (view h m) (8 * i) = it_pos (view h m) i j"
      using it_pos_target [OF len _ j] by simp
    ultimately show ?thesis using o(1) by simp
  qed
qed

lemma move_spec:
  assumes "uba_inv h m" "i < unat (m_len m)" "c \<le> 8"
  shows "it_moveToNextSetBit h m (it_pos (view h m) i c) = Inr (it_target (view h m) (8 * i + c))"
proof -
  let ?V = "view h m"
  have len: "i < length ?V" using assms by simp
  show ?thesis
  proof (cases "filter (bit (?V ! i)) [c..<8]")
    case (Cons j js)
    then show ?thesis
      using it_bits_spec [OF assms(3), of ?V i] it_pos_target [OF len assms(3) Cons] by (simp add: it_moveToNextSetBit_def)
  next
    case Nil
    have "it_target ?V (8 * i + c) = it_target ?V (8 * (i + 1))"
      using elems_byte_from [OF len assms(3)] Nil by (simp add: it_target_def)
    moreover have "(ucast (of_nat (8 - c) :: u8) :: u64) = of_nat (8 - c)"
      by (rule word_eq_unatI) (simp add: unat_ucast_up unat_of_nat_small)
    then have "of_nat (8 * i + c) + (ucast (of_nat (8 - c) :: u8) :: u64) = of_nat (8 * (i + 1))"
      using assms(3) by (simp only: of_nat_add [symmetric]) simp
    moreover have "drop_bit c (?V ! i) = 0" using Nil no_bits by blast
    ultimately show ?thesis
      using it_bits_spec [OF assms(3), of ?V i] Nil it_bytes_spec [OF assms(1), of "i + 1"] assms(2)
      by (simp add: it_moveToNextSetBit_def Let_def it_pos_def it_before_def algebra_simps del: of_nat_mult of_nat_add)
  qed
qed

lemma mod8_bounds: "k mod 8 < (8 :: nat)" "k mod 8 + 1 \<le> (8 :: nat)"
  by (simp_all add: Suc_leI)

lemma next_spec:
  assumes "uba_inv h m" "k < 8 * unat (m_len m)"
  shows "it_next h m (it_pos (view h m) (k div 8) (k mod 8)) = Inr (it_target (view h m) (k + 1))"
proof -
  have i: "k div 8 < unat (m_len m)" using assms(2) by (rule byte_index)
  then have o: "it_off (it_pos (view h m) (k div 8) (k mod 8)) < m_len m"
    using off_lt [OF assms(1), of "k div 8"] by (simp add: it_pos_def)
  have k: "k + 1 = 8 * (k div 8) + (k mod 8 + 1)" by simp
  show ?thesis
    using o move_spec [OF assms(1) i, of "k mod 8 + 1"]
    unfolding it_next_def k [symmetric] by (simp only: it_pos_next(2) [OF mod8_bounds(1)] not_le [symmetric] if_False simp_thms mod8_bounds(2))
qed

lemma collect_spec:
  assumes "uba_inv h m"
  shows "length (elems_from (view h m) k) < n \<Longrightarrow>
    it_collect n h m (it_target (view h m) k) (it_stop (view h m)) = Some (Inr (map of_nat (elems_from (view h m) k)))"
proof (induction n arbitrary: k)
  case (Suc n)
  show ?case
  proof (cases "elems_from (view h m) k")
    case Nil
    then show ?thesis by (simp add: it_target_def it_notEq_def)
  next
    case (Cons e es)
    have e: "elems_from (view h m) (e + 1) = es" "e < 8 * unat (m_len m)" using elems_from_Cons [OF Cons] assms by simp_all
    have t: "it_target (view h m) k = it_pos (view h m) (e div 8) (e mod 8)" using Cons by (simp add: it_target_def)
    have "e div 8 < unat (m_len m)" using e(2) by (rule byte_index)
    then have "of_nat (e div 8) \<noteq> (of_nat (unat (m_len m)) :: u64)" using off_lt [OF assms, of "e div 8"] by auto
    then have "it_notEq (it_pos (view h m) (e div 8) (e mod 8)) (it_stop (view h m))"
      using assms by (simp add: it_notEq_def it_pos_def it_stop_def)
    moreover have "it_curId (it_pos (view h m) (e div 8) (e mod 8)) = of_nat e"
      by (simp only: it_pos_def dbs_it.simps mult_div_mod_eq)
    ultimately show ?thesis
      using Suc.IH [of "e + 1"] Suc.prems Cons e next_spec [OF assms e(2)] unfolding t by simp
  qed
qed simp

lemma iterator_ends:
  assumes "uba_inv h m"
  shows "dbs_cbegin h m = Inr (it_target (view h m) 0)" "dbs_cend h m = Inr (it_stop (view h m))"
proof -
  show "dbs_cend h m = Inr (it_stop (view h m))"
    using assms by (simp add: dbs_cend_def it_new_def it_stop_def mult.commute)
  show "dbs_cbegin h m = Inr (it_target (view h m) 0)"
  proof (cases "unat (m_len m) = 0")
    case True
    then show ?thesis using assms by (simp add: dbs_cbegin_def it_new_def it_target_def it_stop_def unat_eq_zero)
  next
    case False
    then have z: "0 < m_len m" "0 < unat (m_len m)" by (simp_all add: word_less_nat_alt)
    have "uba_at h m 0 = Inr (view h m ! 0)" using at_spec(1) [OF assms, of 0] z by simp
    then show ?thesis
      using z move_spec [OF assms z(2), of 0] by (simp add: dbs_cbegin_def it_new_def it_pos_def)
  qed
qed

section \<open>Bounds\<close>

definition elems_below :: "bytes \<Rightarrow> nat \<Rightarrow> nat set" where
  "elems_below V i = {k. k < 8 * i \<and> bitb V k}"

lemma elems_below_Suc_0: "V ! i = 0 \<Longrightarrow> elems_below V (Suc i) = elems_below V i"
  by (auto simp: elems_below_def bitb_def) (metis bit_0_eq bot_apply bot_bool_def div_less_iff_less_mult less_Suc_eq mult.commute zero_less_numeral mult_Suc_right)

lemma Max_elems_below:
  assumes "V ! i \<noteq> 0"
  shows "Max (elems_below V (Suc i)) = 8 * i + msb_loop (V ! i) \<and> elems_below V (Suc i) \<noteq> {} \<and> msb_loop (V ! i) < 8"
proof -
  note b = msb_loop_bit [OF assms]
  then have l: "msb_loop (V ! i) < 8" using bit_imp_le_length [of "V ! i" "msb_loop (V ! i)"] by simp
  have "finite (elems_below V (Suc i))" by (simp add: elems_below_def)
  moreover have m: "8 * i + msb_loop (V ! i) \<in> elems_below V (Suc i)" using b l by (simp add: elems_below_def bitb_def)
  moreover have "k \<le> 8 * i + msb_loop (V ! i)" if "k \<in> elems_below V (Suc i)" for k
  proof (cases "k < 8 * i")
    case False
    then have "k div 8 = i" using that by (simp add: elems_below_def div_nat_eqI)
    then have "bit (V ! i) (k mod 8)" "k = 8 * i + k mod 8" using that by (auto simp: elems_below_def bitb_def)
    then show ?thesis using b by (metis add_left_mono not_less)
  qed simp
  ultimately show ?thesis using l by (auto intro!: Max_eqI)
qed

lemma getUint8_view:
  assumes "uba_inv h m" "i < unat (m_len m)"
  shows "uba_getUint8 h m (of_nat i) = Inr (view h m ! i)"
  using at_spec(1) [OF assms(1), of "of_nat i"] off_lt [OF assms(1), of i] assms(2) by (simp add: getUint8_at)

lemma largest_loop_spec:
  assumes "uba_inv h m"
  shows "i \<le> unat (m_len m) \<Longrightarrow> largest_loop h m i (of_nat (8 * i) - 1) =
    Inr (of_nat (if elems_below (view h m) i = {} then 0 else Max (elems_below (view h m) i)) - 1)"
proof (induction i)
  case 0
  then show ?case by (simp add: elems_below_def)
next
  case (Suc i)
  note g = getUint8_view [OF assms, of i]
  show ?case
  proof (cases "view h m ! i = 0")
    case True
    have "(of_nat (8 * Suc i) - 1) - 8 = (of_nat (8 * i) - 1 :: u64)" by (simp add: algebra_simps)
    then show ?thesis using Suc g True elems_below_Suc_0 [OF True] by (simp del: of_nat_Suc of_nat_mult mult_Suc_right)
  next
    case False
    note x = Max_elems_below [OF False]
    have "(of_nat (8 * Suc i) - 1) - (8 - of_nat (msb_loop (view h m ! i))) = (of_nat (8 * i + msb_loop (view h m ! i)) - 1 :: u64)"
      by (simp add: algebra_simps)
    then show ?thesis using Suc g False x by (simp del: of_nat_Suc of_nat_mult mult_Suc_right of_nat_add)
  qed
qed

lemma upper_loop_spec:
  assumes "uba_inv h m"
  shows "i \<le> unat (m_len m) \<Longrightarrow> upper_loop h m i =
    Inr (if elems_below (view h m) i = {} then 0 else 8 * (of_nat (Max (elems_below (view h m) i) div 8) + 1))"
proof (induction i)
  case 0
  then show ?case by (simp add: elems_below_def)
next
  case (Suc i)
  note g = getUint8_view [OF assms, of i]
  show ?case
  proof (cases "view h m ! i = 0")
    case True
    then show ?thesis using Suc g elems_below_Suc_0 [OF True] by simp
  next
    case False
    then show ?thesis using Suc g Max_elems_below [OF False] by (simp add: algebra_simps)
  qed
qed

lemma elems_below_all: "uba_inv h m \<Longrightarrow> elems_below (view h m) (unat (m_len m)) = dbs_elems h m"
  by (simp add: elems_below_def dbs_elems_def)

section \<open>Properties\<close>

text \<open>C15: On a set that owns its storage (the storage can grow, and the set's adapter starts at offset 0 and is as long as the storage),
  \<open>isSet\<close>, \<open>set\<close> and \<open>unset\<close> are membership, insertion and removal for every 64 bit position; setting grows the storage as needed, and the
  set owns its storage again afterwards. A set that does not own its storage is not covered: after \<open>&=\<close> with a shorter set the adapter is
  shorter than the storage, and setting an element can bring back elements that were removed.\<close>

theorem bit_set_refines_set:
  assumes "owner h m"
  shows "dbs_isSet h m pos = Inr (unat pos \<in> dbs_elems h m) \<and>
    (\<exists>h' m'. dbs_set h m pos = Inr (h', m') \<and> owner h' m' \<and> dbs_elems h' m' = insert (unat pos) (dbs_elems h m)) \<and>
    (\<exists>h'. dbs_unset h m pos = Inr h' \<and> uba_inv h' m \<and> dbs_elems h' m = dbs_elems h m - {unat pos})"
proof (intro conjI)
  have i: "uba_inv h m" using assms by (simp add: owner_def)
  show "dbs_isSet h m pos = Inr (unat pos \<in> dbs_elems h m)" by (rule isSet_spec [OF i])
  show "\<exists>h' m'. dbs_set h m pos = Inr (h', m') \<and> owner h' m' \<and> dbs_elems h' m' = insert (unat pos) (dbs_elems h m)"
    using set_spec [OF assms, of pos] by blast
  show "\<exists>h'. dbs_unset h m pos = Inr h' \<and> uba_inv h' m \<and> dbs_elems h' m = dbs_elems h m - {unat pos}"
    using unset_spec [OF i, of pos] by blast
qed

lemmas example_simps = owner_def uba_inv_def live_def growable_def storage_def uba_of_priv_def max_size_def isContiguous_def

theorem bit_set_refines_set_witness:
  "\<exists>h' m'. dbs_set (\<lambda>_. \<lparr>kind = VectorB, mem = [1]\<rparr>) (uba_of_priv 0 0 1) 21 = Inr (h', m') \<and> owner h' m' \<and>
    dbs_elems h' m' = insert 21 (dbs_elems (\<lambda>_. \<lparr>kind = VectorB, mem = [1]\<rparr>) (uba_of_priv 0 0 1))"
  using bit_set_refines_set [of "\<lambda>_. \<lparr>kind = VectorB, mem = [1]\<rparr>" "uba_of_priv 0 0 1" 21]
  by (simp add: example_simps)

text \<open>C16: The operators build, on new storage and leaving every other storage alone, the intersection, union,
  symmetric difference and complement (within the bytes of the set). The difference loses every element in
  the bytes beyond the shorter of the two sets.\<close>

theorem bit_set_operators:
  assumes "uba_inv h m" "uba_inv h other" "m_priv m \<noteq> r" "m_priv other \<noteq> r"
  shows "(\<exists>h' d. dbs_and h r m other = Inr (h', d) \<and> fresh_result h r h' d (dbs_elems h m \<inter> dbs_elems h other)) \<and>
    (\<exists>h' d. dbs_or h r m other = Inr (h', d) \<and> fresh_result h r h' d (dbs_elems h m \<union> dbs_elems h other)) \<and>
    (\<exists>h' d. dbs_xor h r m other = Inr (h', d) \<and>
      fresh_result h r h' d ((dbs_elems h m - dbs_elems h other) \<union> (dbs_elems h other - dbs_elems h m))) \<and>
    (\<exists>h' d. dbs_minus h r m other = Inr (h', d) \<and> fresh_result h r h' d
      ((dbs_elems h m - dbs_elems h other) \<inter> {..<8 * min (unat (m_len m)) (unat (m_len other))})) \<and>
    (\<exists>h' d. dbs_not h r m = Inr (h', d) \<and> fresh_result h r h' d ({..<8 * unat (m_len m)} - dbs_elems h m))"
proof (intro conjI)
  let ?A = "dbs_elems h m" and ?B = "dbs_elems h other"
  have a: "{k. k < 8 * min (unat (m_len m)) (unat (m_len other)) \<and> k \<in> ?A \<and> k \<in> ?B} = ?A \<inter> ?B"
    by (auto simp: dbs_elems_def)
  show "\<exists>h' d. dbs_and h r m other = Inr (h', d) \<and> fresh_result h r h' d (?A \<inter> ?B)"
    by (rule short_spec [OF assms, where f = "(AND)" and F = "(\<and>)" and s = "min (m_len m) (m_len other)"])
      (auto simp: bit_and_iff a dbs_and_def)
  show "\<exists>h' d. dbs_or h r m other = Inr (h', d) \<and> fresh_result h r h' d (?A \<union> ?B)"
    by (rule merge_spec [OF assms, where f = "(OR)" and F = "(\<or>)"]) (auto simp: bit_or_iff dbs_or_def Un_def)
  have x: "{k. (k \<in> ?A) = (k \<notin> ?B)} = (?A - ?B) \<union> (?B - ?A)" by auto
  show "\<exists>h' d. dbs_xor h r m other = Inr (h', d) \<and> fresh_result h r h' d ((?A - ?B) \<union> (?B - ?A))"
    by (rule merge_spec [OF assms, where f = "(XOR)" and F = "(\<noteq>)"]) (auto simp: bit_xor_iff dbs_xor_def x)
  have d: "{k. k < 8 * min (unat (m_len m)) (unat (m_len other)) \<and> k \<in> ?A \<and> k \<notin> ?B} =
      (?A - ?B) \<inter> {..<8 * min (unat (m_len m)) (unat (m_len other))}"
    by auto
  show "\<exists>h' d. dbs_minus h r m other = Inr (h', d) \<and> fresh_result h r h' d
      ((?A - ?B) \<inter> {..<8 * min (unat (m_len m)) (unat (m_len other))})"
    by (rule short_spec [OF assms, where f = "\<lambda>x y. x AND NOT y" and F = "\<lambda>x y. x \<and> \<not> y" and s = "min (m_len m) (m_len other)"])
      (auto simp: bit_and_iff bit_not_iff d dbs_minus_def)
  show "\<exists>h' d. dbs_not h r m = Inr (h', d) \<and> fresh_result h r h' d ({..<8 * unat (m_len m)} - ?A)"
    using not_spec [OF assms(1,3)] by metis
qed

theorem bit_set_operators_witness:
  "\<exists>h' d. dbs_or ((\<lambda>_. \<lparr>kind = VectorB, mem = [1]\<rparr>)(1 := \<lparr>kind = VectorB, mem = [2, 3]\<rparr>)) 5 (uba_of_priv 0 0 1) (uba_of_priv 1 0 2) = Inr (h', d) \<and>
    owner h' d"
  using bit_set_operators [of "(\<lambda>_. \<lparr>kind = VectorB, mem = [1]\<rparr>)(1 := \<lparr>kind = VectorB, mem = [2, 3]\<rparr>)" "uba_of_priv 0 0 1" "uba_of_priv 1 0 2" 5]
  by (auto simp: example_simps fresh_result_def)

text \<open>The assigning operators compute the same sets in place, and \<open>-=\<close> loses nothing, unlike \<open>-\<close>.
  \<open>==\<close> decides whether two sets have the same elements, whatever their lengths.\<close>

theorem bit_set_assignments:
  assumes "owner h m" "uba_inv h other" "m_priv other \<noteq> m_priv m" "isContiguous (storage h other)"
  shows "(\<exists>h' m'. dbs_and_assign h m other = Inr (h', m') \<and> uba_inv h' m' \<and> dbs_elems h' m' = dbs_elems h m \<inter> dbs_elems h other) \<and>
    (\<exists>h' m'. dbs_or_assign h m other = Inr (h', m') \<and> uba_inv h' m' \<and> dbs_elems h' m' = dbs_elems h m \<union> dbs_elems h other) \<and>
    (\<exists>h' m'. dbs_xor_assign h m other = Inr (h', m') \<and> uba_inv h' m' \<and>
      dbs_elems h' m' = (dbs_elems h m - dbs_elems h other) \<union> (dbs_elems h other - dbs_elems h m)) \<and>
    (\<exists>h'. dbs_minus_assign h m other = Inr h' \<and> uba_inv h' m \<and> dbs_elems h' m = dbs_elems h m - dbs_elems h other) \<and>
    dbs_eq h m other = Inr (dbs_elems h m = dbs_elems h other)"
proof (intro conjI)
  have i: "uba_inv h m" "growable h m" "m_offSet m = 0" using assms(1) by (simp_all add: owner_def)
  let ?A = "dbs_elems h m" and ?B = "dbs_elems h other"
  show "\<exists>h' m'. dbs_and_assign h m other = Inr (h', m') \<and> uba_inv h' m' \<and> dbs_elems h' m' = ?A \<inter> ?B"
    using and_assign_spec [OF i assms(2,3)] by metis
  show "\<exists>h' m'. dbs_or_assign h m other = Inr (h', m') \<and> uba_inv h' m' \<and> dbs_elems h' m' = ?A \<union> ?B"
    by (rule merge_assign_spec [OF assms, where f = "(OR)" and F = "(\<or>)"]) (auto simp: bit_or_iff dbs_or_assign_def Un_def)
  have x: "{k. (k \<in> ?A) = (k \<notin> ?B)} = (?A - ?B) \<union> (?B - ?A)" by auto
  show "\<exists>h' m'. dbs_xor_assign h m other = Inr (h', m') \<and> uba_inv h' m' \<and> dbs_elems h' m' = (?A - ?B) \<union> (?B - ?A)"
    by (rule merge_assign_spec [OF assms, where f = "(XOR)" and F = "(\<noteq>)"]) (auto simp: bit_xor_iff dbs_xor_assign_def x)
  show "\<exists>h'. dbs_minus_assign h m other = Inr h' \<and> uba_inv h' m \<and> dbs_elems h' m = ?A - ?B"
    using minus_assign_spec [OF i(1) assms(2,3)] by metis
  show "dbs_eq h m other = Inr (?A = ?B)" by (rule dbs_eq_spec [OF i(1) assms(2)])
qed

theorem bit_set_assignments_witness:
  "\<exists>h' m'. dbs_xor_assign ((\<lambda>_. \<lparr>kind = VectorB, mem = [1]\<rparr>)(1 := \<lparr>kind = VectorB, mem = [3, 3]\<rparr>)) (uba_of_priv 0 0 1) (uba_of_priv 1 0 2) = Inr (h', m') \<and>
    uba_inv h' m'"
  using bit_set_assignments [of "(\<lambda>_. \<lparr>kind = VectorB, mem = [1]\<rparr>)(1 := \<lparr>kind = VectorB, mem = [3, 3]\<rparr>)" "uba_of_priv 0 0 1" "uba_of_priv 1 0 2"]
  by (auto simp: example_simps)

text \<open>C17: A client's loop over the iterator and \<open>putInto\<close> both give the elements in increasing order, each once; the loop
  needs at most one round more than there are bits. \<open>size\<close> counts the elements in 32 bits.\<close>

theorem bit_set_enumeration:
  assumes "uba_inv h m"
  shows "(\<exists>it stop. dbs_cbegin h m = Inr it \<and> dbs_cend h m = Inr stop \<and>
      it_collect (8 * unat (m_len m) + 1) h m it stop = Some (Inr (map of_nat (sorted_list_of_set (dbs_elems h m))))) \<and>
    dbs_putInto h m = Inr (map of_nat (sorted_list_of_set (dbs_elems h m))) \<and>
    dbs_size h m = Inr (ucast (of_nat (card (dbs_elems h m)) :: u32))"
proof -
  have "length (elem_list h m) \<le> 8 * unat (m_len m)"
    using length_filter_le [of "bitb (view h m)" "[0..<8 * length (view h m)]"] assms by (simp add: elems_from_def)
  then show ?thesis
    using collect_spec [OF assms, of 0 "8 * unat (m_len m) + 1"] iterator_ends [OF assms] putInto_spec [OF assms] size_spec [OF assms]
    unfolding elem_list_sorted [OF assms] by auto
qed

theorem bit_set_enumeration_witness:
  "dbs_putInto (\<lambda>_. \<lparr>kind = VectorB, mem = [5, 0, 128]\<rparr>) (uba_of_priv 0 0 3) =
    Inr (map of_nat (sorted_list_of_set (dbs_elems (\<lambda>_. \<lparr>kind = VectorB, mem = [5, 0, 128]\<rparr>) (uba_of_priv 0 0 3))))"
  using bit_set_enumeration [of "\<lambda>_. \<lparr>kind = VectorB, mem = [5, 0, 128]\<rparr>" "uba_of_priv 0 0 3"]
  by (simp add: example_simps)

text \<open>\<open>upperBound\<close> is the end of the byte of the largest element, and \<open>largestEntry\<close> of a set that is not empty is one
  less than the largest element.\<close>

theorem bit_set_bounds:
  assumes "uba_inv h m" "dbs_elems h m \<noteq> {}"
  shows "dbs_upperBound h m = Inr (8 * (of_nat (Max (dbs_elems h m) div 8) + 1)) \<and>
    dbs_largestEntry h m = Inr (of_nat (Max (dbs_elems h m)) - 1)"
proof -
  have n: "m_len m \<noteq> 0" using assms(2) by (auto simp: dbs_elems_def)
  have "of_nat (8 * unat (m_len m)) = m_len m * 8" by simp
  then show ?thesis
    using n assms(2) upper_loop_spec [OF assms(1) order.refl] largest_loop_spec [OF assms(1) order.refl]
    unfolding elems_below_all [OF assms(1)] by (simp add: dbs_upperBound_def dbs_largestEntry_def mult.commute [of _ 8])
qed

theorem bit_set_bounds_witness:
  "dbs_largestEntry (\<lambda>_. \<lparr>kind = VectorB, mem = [1, 4]\<rparr>) (uba_of_priv 0 0 2) =
    Inr (of_nat (Max (dbs_elems (\<lambda>_. \<lparr>kind = VectorB, mem = [1, 4]\<rparr>) (uba_of_priv 0 0 2))) - 1)"
proof -
  have i: "uba_inv (\<lambda>_. \<lparr>kind = VectorB, mem = [1, 4]\<rparr>) (uba_of_priv 0 0 2)" by (simp add: example_simps)
  have "0 \<in> dbs_elems (\<lambda>_. \<lparr>kind = VectorB, mem = [1, 4]\<rparr>) (uba_of_priv 0 0 2)"
    by (simp add: dbs_elems_def bitb_def view_def chunk_def storage_def uba_of_priv_def)
  then show ?thesis using bit_set_bounds [OF i] by blast
qed

text \<open>\<open>smallestEntry\<close> of \<open>{0, 1}\<close> is 1, and aligning a set of 3 bytes to 4 bytes drops all of them.\<close>

lemma bit_set_slips:
  "dbs_smallestEntry (\<lambda>_. \<lparr>kind = VectorB, mem = [3]\<rparr>) (uba_of_priv 0 0 1) = Inr 1"
  "map_sum id (\<lambda>(_, _, m). m_len m) (dbs_align (\<lambda>_. \<lparr>kind = VectorB, mem = [1, 2, 3]\<rparr>) (uba_of_priv 0 0 3) 2) = Inr 0"
  by code_simp+

end
