(* ===== verification/ItemIndexOps.thy ===== *)
theory ItemIndexOps
  imports DynamicBitSetIter
begin

text \<open>
  \<open>ItemIndexPrivate\<close> (\<open>include/sserialize/containers/ItemIndexPrivates/ItemIndexPrivate.h\<close>,
  \<open>src/containers/ItemIndexPrivates/ItemIndexPrivate.cpp\<close>): what all item indices share. An index is an increasing sequence of
  32 bit ids. The set operations are one algorithm, \<open>GenericSetOpExecuter\<close>, with traits that say
  which ids are pushed; the result is built by \<open>ItemIndexNativeCreator\<close> (\<open>ItemIndexPrivateNative\<close>).
  The virtual \<open>size\<close> and \<open>uncheckedAt\<close> of the operands are the two members of \<open>id_source\<close>.
\<close>

section \<open>The native index and its creator\<close>

text \<open>\<open>m_dataMem\<close> is a view of the bytes behind the size.\<close>

record native =
  n_size :: u32
  n_mem :: bytes

definition native_new :: "heap \<Rightarrow> uba \<Rightarrow> native res" where
  "native_new h d = bindE (uba_getUint32 h d 0) (\<lambda>n.
     Inr \<lparr>n_size = n, n_mem = view h (uba_sub_len d 4 (ucast n * 4))\<rparr>)"

definition native_uncheckedAt :: "native \<Rightarrow> u32 \<Rightarrow> u32 res" where
  "native_uncheckedAt x pos =
     (if 4 * unat pos + 4 \<le> length (n_mem x) then Inr (le_word (chunk (4 * unat pos) 4 (n_mem x))) else Inl MemFault)"

definition native_at :: "native \<Rightarrow> u32 \<Rightarrow> u32 res" where
  "native_at x pos = (if pos < n_size x then native_uncheckedAt x pos else Inr 0)"

record native_creator =
  c_mem :: bytes
  c_it :: nat

definition creator_new :: "u32 \<Rightarrow> native_creator" where
  "creator_new n = \<lparr>c_mem = replicate ((unat n + 1) * 4) 0, c_it = 4\<rparr>"

definition creator_size :: "native_creator \<Rightarrow> u32" where
  "creator_size c = of_nat ((c_it c - 4) div 4)"

definition creator_push_back :: "native_creator \<Rightarrow> u32 \<Rightarrow> native_creator res" where
  "creator_push_back c v =
     (if c_it c \<ge> length (c_mem c) then Inl OutOfBoundsException
      else Inr \<lparr>c_mem = blit (c_it c) (le_bytes 4 v) (c_mem c), c_it = c_it c + 4\<rparr>)"

definition creator_flush :: "native_creator \<Rightarrow> native_creator" where
  "creator_flush c = c\<lparr>c_mem := blit 0 (p_u32 (creator_size c)) (take (c_it c) (c_mem c))\<rparr>"

text \<open>\<open>data()\<close> is an adapter over the memory.\<close>

definition creator_data :: "native_creator \<Rightarrow> heap \<times> uba" where
  "creator_data c = ((\<lambda>_. \<lparr>kind = ArrayB, mem = c_mem c\<rparr>), uba_of_priv 0 0 (of_nat (length (c_mem c))))"

definition creator_getPrivateIndex :: "native_creator \<Rightarrow> native res" where
  "creator_getPrivateIndex c = (case creator_data (creator_flush c) of (h, d) \<Rightarrow> native_new h d)"

section \<open>The traits of the set operations\<close>

record set_op =
  pushFirstSmaller :: bool
  pushEqual :: bool
  pushSecondSmaller :: bool
  pushFirstRemainder :: bool
  pushSecondRemainder :: bool
  maxSize :: "u32 \<Rightarrow> u32 \<Rightarrow> u32"

definition IntersectOp :: set_op where
  "IntersectOp = \<lparr>pushFirstSmaller = False, pushEqual = True, pushSecondSmaller = False,
     pushFirstRemainder = False, pushSecondRemainder = False, maxSize = min\<rparr>"

definition UniteOp :: set_op where
  "UniteOp = \<lparr>pushFirstSmaller = True, pushEqual = True, pushSecondSmaller = True,
     pushFirstRemainder = True, pushSecondRemainder = True, maxSize = (+)\<rparr>"

definition DifferenceOp :: set_op where
  "DifferenceOp = \<lparr>pushFirstSmaller = True, pushEqual = False, pushSecondSmaller = False,
     pushFirstRemainder = True, pushSecondRemainder = False, maxSize = (\<lambda>a b. a)\<rparr>"

definition SymmetricDifferenceOp :: set_op where
  "SymmetricDifferenceOp = \<lparr>pushFirstSmaller = True, pushEqual = False, pushSecondSmaller = True,
     pushFirstRemainder = True, pushSecondRemainder = True, maxSize = (+)\<rparr>"

section \<open>The generic executer\<close>

record id_source =
  src_size :: u32
  src_at :: "u32 \<Rightarrow> u32 res"

definition push_if :: "bool \<Rightarrow> u32 \<Rightarrow> native_creator \<Rightarrow> native_creator res" where
  "push_if p v c = (if p then creator_push_back c v else Inr c)"

lemma next_unat: "x \<noteq> e \<Longrightarrow> unat (e - (x + 1)) < unat (e - x)" for x e :: "'a::len word"
proof -
  assume "x \<noteq> e"
  then have "e - x \<noteq> 0" by simp
  then have "0 < unat (e - x)" by (simp add: unat_gt_0)
  moreover have "unat (e - x - 1) = unat (e - x) - 1" using \<open>e - x \<noteq> 0\<close> by (rule unat_minus_one)
  moreover have "e - (x + 1) = e - x - 1" by simp
  ultimately show "unat (e - (x + 1)) < unat (e - x)" by (metis diff_less zero_less_one)
qed

lemma next_less: "x < e \<Longrightarrow> unat (e - (x + 1)) < unat (e - x)" for x e :: "'a::len word"
  by (rule next_unat) simp

function exec_loop :: "set_op \<Rightarrow> id_source \<Rightarrow> id_source \<Rightarrow> u32 \<Rightarrow> u32 \<Rightarrow> native_creator \<Rightarrow> (u32 \<times> u32 \<times> native_creator) res" where
  "exec_loop t first second fIt sIt c =
     (if fIt \<noteq> src_size first \<and> sIt \<noteq> src_size second then
        bindE (src_at first fIt) (\<lambda>fId. bindE (src_at second sIt) (\<lambda>sId.
          if fId < sId then
            bindE (push_if (pushFirstSmaller t) fId c) (\<lambda>c. exec_loop t first second (fIt + 1) sIt c)
          else if sId < fId then
            bindE (push_if (pushSecondSmaller t) sId c) (\<lambda>c. exec_loop t first second fIt (sIt + 1) c)
          else
            bindE (push_if (pushEqual t) fId c) (\<lambda>c. exec_loop t first second (fIt + 1) (sIt + 1) c)))
      else Inr (fIt, sIt, c))"
  by pat_completeness auto
termination
  by (relation "measure (\<lambda>(t, first, second, fIt, sIt, c). unat (src_size first - fIt) + unat (src_size second - sIt))")
    (use next_unat in \<open>auto intro: add_strict_mono\<close>)

function remainder_loop :: "id_source \<Rightarrow> u32 \<Rightarrow> native_creator \<Rightarrow> native_creator res" where
  "remainder_loop s i c =
     (if i \<noteq> src_size s then bindE (src_at s i) (\<lambda>v. bindE (creator_push_back c v) (\<lambda>c. remainder_loop s (i + 1) c))
      else Inr c)"
  by pat_completeness auto
termination
  by (relation "measure (\<lambda>(s, i, c). unat (src_size s - i))") (use next_unat in auto)

declare exec_loop.simps [simp del] remainder_loop.simps [simp del]

definition execute :: "set_op \<Rightarrow> id_source \<Rightarrow> id_source \<Rightarrow> native res" where
  "execute t first second =
     bindE (exec_loop t first second 0 0 (creator_new (maxSize t (src_size first) (src_size second)))) (\<lambda>(fIt, sIt, c).
     bindE (if pushFirstRemainder t then remainder_loop first fIt c else Inr c) (\<lambda>c.
     bindE (if pushSecondRemainder t then remainder_loop second sIt c else Inr c) (\<lambda>c.
       creator_getPrivateIndex (creator_flush c))))"

text \<open>The operations; \<open>None\<close> is a null pointer.\<close>

datatype result_index = EmptyIndex | NativeIndex native

definition do_op :: "set_op \<Rightarrow> id_source \<Rightarrow> id_source option \<Rightarrow> result_index res" where
  "do_op t this other =
     (case other of None \<Rightarrow> Inr EmptyIndex | Some o' \<Rightarrow> bindE (execute t this o') (\<lambda>r. Inr (NativeIndex r)))"

definition doUnite :: "id_source \<Rightarrow> id_source option \<Rightarrow> result_index res" where
  "doUnite = do_op UniteOp"

definition doIntersect :: "id_source \<Rightarrow> id_source option \<Rightarrow> result_index res" where
  "doIntersect = do_op IntersectOp"

definition doDifference :: "id_source \<Rightarrow> id_source option \<Rightarrow> result_index res" where
  "doDifference = do_op DifferenceOp"

definition doSymmetricDifference :: "id_source \<Rightarrow> id_source option \<Rightarrow> result_index res" where
  "doSymmetricDifference = do_op SymmetricDifferenceOp"

section \<open>Search and enumeration\<close>

function find_loop :: "(u32 \<Rightarrow> u32 res) \<Rightarrow> u32 \<Rightarrow> int \<Rightarrow> int \<Rightarrow> u32 res" where
  "find_loop at v left right =
     (let mid = half (right - left) + left
      in bindE (at (word_of_int mid)) (\<lambda>curId.
           if left < right then
             (if curId = v then Inr (word_of_int mid)
              else if curId < v then find_loop at v (mid + 1) right
              else find_loop at v left (mid - 1))
           else Inr (if curId = v then word_of_int mid else - 1)))"
  by pat_completeness auto
termination
  by (relation "measure (\<lambda>(at, v, left, right). nat (right - left))") (auto simp: half_def)

declare find_loop.simps [simp del]

definition index_find :: "id_source \<Rightarrow> u32 \<Rightarrow> u32 res" where
  "index_find s v =
     (let len = src_size s
      in if len = 0 then Inr (- 1) else find_loop (src_at s) v 0 (uint (len - 1)))"

function put_loop :: "id_source \<Rightarrow> u32 \<Rightarrow> heap \<Rightarrow> uba \<Rightarrow> (heap \<times> uba) res" where
  "put_loop s i h m =
     (if i < src_size s then bindE (src_at s i) (\<lambda>v. bindE (dbs_set h m (ucast v)) (\<lambda>(h, m). put_loop s (i + 1) h m))
      else Inr (h, m))"
  by pat_completeness auto
termination
  by (relation "measure (\<lambda>(s, i, h, m). unat (src_size s - i))") (use next_less in auto)

function ids_loop :: "id_source \<Rightarrow> u32 \<Rightarrow> u32 list res" where
  "ids_loop s i =
     (if i < src_size s then bindE (src_at s i) (\<lambda>v. bindE (ids_loop s (i + 1)) (\<lambda>vs. Inr (v # vs))) else Inr [])"
  by pat_completeness auto
termination
  by (relation "measure (\<lambda>(s, i). unat (src_size s - i))") (use next_less in auto)

declare put_loop.simps [simp del] ids_loop.simps [simp del]

text \<open>\<open>doPutInto\<close> for a bit set and for an array.\<close>

definition doPutInto_bits :: "id_source \<Rightarrow> heap \<Rightarrow> uba \<Rightarrow> (heap \<times> uba) res" where
  "doPutInto_bits s h m = put_loop s 0 h m"

definition doPutInto_array :: "id_source \<Rightarrow> u32 list res" where
  "doPutInto_array s = ids_loop s 0"

section \<open>The reference: merging two lists\<close>

fun merge_op :: "set_op \<Rightarrow> u32 list \<Rightarrow> u32 list \<Rightarrow> u32 list" where
  "merge_op t (x # xs) (y # ys) =
     (if x < y then (if pushFirstSmaller t then [x] else []) @ merge_op t xs (y # ys)
      else if y < x then (if pushSecondSmaller t then [y] else []) @ merge_op t (x # xs) ys
      else (if pushEqual t then [x] else []) @ merge_op t xs ys)"
| "merge_op t xs ys = (if pushFirstRemainder t then xs else []) @ (if pushSecondRemainder t then ys else [])"

definition coherent :: "set_op \<Rightarrow> bool" where
  "coherent t \<longleftrightarrow> pushFirstRemainder t = pushFirstSmaller t \<and> pushSecondRemainder t = pushSecondSmaller t"

lemmas op_defs = IntersectOp_def UniteOp_def DifferenceOp_def SymmetricDifferenceOp_def

lemma coherent_ops [simp]: "coherent IntersectOp" "coherent UniteOp" "coherent DifferenceOp" "coherent SymmetricDifferenceOp"
  by (simp_all add: coherent_def op_defs)

lemma maxSize_ops [simp]: "maxSize IntersectOp = min" "maxSize UniteOp = (+)" "maxSize DifferenceOp a b = a" "maxSize SymmetricDifferenceOp = (+)"
  by (simp_all add: op_defs)

text \<open>The set an operation computes.\<close>

definition op_set :: "set_op \<Rightarrow> 'a set \<Rightarrow> 'a set \<Rightarrow> 'a set" where
  "op_set t A B = (if pushFirstSmaller t then A - B else {}) \<union> (if pushEqual t then A \<inter> B else {}) \<union>
     (if pushSecondSmaller t then B - A else {})"

lemma op_sets:
  "op_set IntersectOp A B = A \<inter> B" "op_set UniteOp A B = A \<union> B" "op_set DifferenceOp A B = A - B"
  "op_set SymmetricDifferenceOp A B = (A - B) \<union> (B - A)"
  by (auto simp: op_set_def op_defs)

abbreviation increasing :: "u32 list \<Rightarrow> bool" where
  "increasing xs \<equiv> sorted_wrt (<) xs"

lemma merge_op_set:
  shows "coherent t \<Longrightarrow> increasing xs \<Longrightarrow> increasing ys \<Longrightarrow>
    increasing (merge_op t xs ys) \<and> set (merge_op t xs ys) = op_set t (set xs) (set ys)"
proof (induction t xs ys rule: merge_op.induct)
  case (1 t x xs y ys)
  consider "x < y" | "y < x" | "x = y" by force
  then show ?case
  proof cases
    case 1
    have n: "x \<notin> set (y # ys)" using 1 "1.prems"(3) by auto
    have "op_set t (set (x # xs)) (set (y # ys)) = (if pushFirstSmaller t then {x} else {}) \<union> op_set t (set xs) (set (y # ys))"
      using n "1.prems" by (auto simp: op_set_def)
    moreover have "\<forall>z \<in> op_set t (set xs) (set (y # ys)). x < z" using 1 "1.prems" by (auto simp: op_set_def split: if_splits)
    ultimately show ?thesis using "1.IH"(1) [OF 1] "1.prems" 1 by (auto simp: sorted_wrt_append)
  next
    case 2
    have n: "y \<notin> set (x # xs)" using 2 "1.prems"(2) by auto
    have "op_set t (set (x # xs)) (set (y # ys)) = (if pushSecondSmaller t then {y} else {}) \<union> op_set t (set (x # xs)) (set ys)"
      using n "1.prems" by (auto simp: op_set_def)
    moreover have "\<forall>z \<in> op_set t (set (x # xs)) (set ys). y < z" using 2 "1.prems" by (auto simp: op_set_def split: if_splits)
    moreover have "\<not> x < y" using 2 by simp
    ultimately show ?thesis using "1.IH"(2) [OF _ 2] "1.prems" 2 by (auto simp: sorted_wrt_append)
  next
    case 3
    have "x \<notin> set xs" "y \<notin> set ys" using "1.prems" by auto
    then have "op_set t (set (x # xs)) (set (y # ys)) = (if pushEqual t then {x} else {}) \<union> op_set t (set xs) (set ys)"
      using 3 by (auto simp: op_set_def)
    moreover have "\<forall>z \<in> op_set t (set xs) (set ys). x < z" using 3 "1.prems" by (auto simp: op_set_def split: if_splits)
    ultimately show ?thesis using "1.IH"(3) "1.prems" 3 by (auto simp: sorted_wrt_append)
  qed
qed (auto simp: coherent_def op_set_def split: if_splits)


section \<open>The executer computes the merge\<close>

text \<open>\<open>source_ids s xs\<close>: the source hands out the ids \<open>xs\<close>.\<close>

definition source_ids :: "id_source \<Rightarrow> u32 list \<Rightarrow> bool" where
  "source_ids s xs \<longleftrightarrow> unat (src_size s) = length xs \<and> (\<forall>i. unat i < length xs \<longrightarrow> src_at s i = Inr (xs ! unat i))"

fun push_all :: "native_creator \<Rightarrow> u32 list \<Rightarrow> native_creator res" where
  "push_all c [] = Inr c"
| "push_all c (v # vs) = bindE (creator_push_back c v) (\<lambda>c. push_all c vs)"

lemma push_all_append: "push_all c (xs @ ys) = bindE (push_all c xs) (\<lambda>c. push_all c ys)"
  by (induction xs arbitrary: c) (simp_all add: bindE_assoc)

lemma push_if_all: "push_if p v c = push_all c (if p then [v] else [])"
  by (auto simp: push_if_def bindE_def split: sum.splits)

lemma unat_next32: "i \<noteq> e \<Longrightarrow> unat i \<le> unat e \<Longrightarrow> unat (i + 1) = unat i + 1 \<and> unat i < unat e" for i e :: u32
proof
  assume a: "i \<noteq> e" "unat i \<le> unat e"
  then show l: "unat i < unat e" by (metis le_neq_implies_less word_eq_unatI)
  show "unat (i + 1) = unat i + 1" using l unat_bound [of e] by (subst unat_add_nowrap) simp_all
qed

lemma source_idsD: "source_ids s xs \<Longrightarrow> unat i < length xs \<Longrightarrow> src_at s i = Inr (xs ! unat i)"
  by (simp add: source_ids_def)

lemma source_ids_next:
  assumes "source_ids s xs" "i \<noteq> src_size s" "unat i \<le> length xs"
  shows "src_at s i = Inr (xs ! unat i)" "drop (unat i) xs = xs ! unat i # drop (unat (i + 1)) xs" "unat (i + 1) \<le> length xs"
proof -
  have n: "unat (i + 1) = unat i + 1" "unat i < length xs"
    using unat_next32 [OF assms(2)] assms(1,3) by (simp_all add: source_ids_def)
  then show "src_at s i = Inr (xs ! unat i)" "unat (i + 1) \<le> length xs" using source_idsD [OF assms(1)] by simp_all
  show "drop (unat i) xs = xs ! unat i # drop (unat (i + 1)) xs" using n by (simp add: Cons_nth_drop_Suc)
qed

lemma source_ids_end: "source_ids s xs \<Longrightarrow> i = src_size s \<Longrightarrow> drop (unat i) xs = []"
  by (simp add: source_ids_def)

lemma remainder_loop_spec:
  assumes "source_ids s xs"
  shows "unat i \<le> length xs \<Longrightarrow> remainder_loop s i c = push_all c (drop (unat i) xs)"
proof (induction "unat (src_size s - i)" arbitrary: i c rule: less_induct)
  case less
  show ?case
  proof (cases "i = src_size s")
    case True
    then show ?thesis using source_ids_end [OF assms True] by (subst remainder_loop.simps) simp
  next
    case False
    note n = source_ids_next [OF assms False less.prems]
    have "remainder_loop s (i + 1) = (\<lambda>c. push_all c (drop (unat (i + 1)) xs))"
      using less.hyps [OF next_unat [OF False] n(3)] by (intro ext)
    then show ?thesis unfolding n(2) using False n(1) by (subst remainder_loop.simps) simp
  qed
qed

lemma remainder_loop_fun: "source_ids s xs \<Longrightarrow> unat i \<le> length xs \<Longrightarrow> remainder_loop s i = (\<lambda>c. push_all c (drop (unat i) xs))"
  by (intro ext remainder_loop_spec)

lemma bindE_Inr: "bindE m Inr = m"
  by (cases m) simp_all

lemma merge_op_Nil: "merge_op t xs [] = (if pushFirstRemainder t then xs else [])"
  by (cases xs) simp_all

definition exec_rest :: "set_op \<Rightarrow> id_source \<Rightarrow> id_source \<Rightarrow> u32 \<times> u32 \<times> native_creator \<Rightarrow> native_creator res" where
  "exec_rest t first second = (\<lambda>(fIt, sIt, c).
     bindE (if pushFirstRemainder t then remainder_loop first fIt c else Inr c) (\<lambda>c.
       if pushSecondRemainder t then remainder_loop second sIt c else Inr c))"

lemma exec_loop_spec:
  assumes "source_ids first xs" "source_ids second ys"
  shows "unat i \<le> length xs \<Longrightarrow> unat j \<le> length ys \<Longrightarrow>
    bindE (exec_loop t first second i j c) (exec_rest t first second) = push_all c (merge_op t (drop (unat i) xs) (drop (unat j) ys))"
proof (induction "unat (src_size first - i) + unat (src_size second - j)" arbitrary: i j c rule: less_induct)
  case less
  show ?case
  proof (cases "i \<noteq> src_size first \<and> j \<noteq> src_size second")
    case False
    have "exec_loop t first second i j c = Inr (i, j, c)" using False by (subst exec_loop.simps) (simp only: if_False)
    then have r: "bindE (exec_loop t first second i j c) (exec_rest t first second) =
        push_all c ((if pushFirstRemainder t then drop (unat i) xs else []) @ (if pushSecondRemainder t then drop (unat j) ys else []))"
      using remainder_loop_fun [OF assms(1) less.prems(1)] remainder_loop_fun [OF assms(2) less.prems(2)]
      by (simp add: exec_rest_def push_all_append bindE_Inr)
    from False have "\<not> i \<noteq> src_size first \<or> \<not> j \<noteq> src_size second" by blast
    then show ?thesis
    proof
      assume "\<not> i \<noteq> src_size first"
      then show ?thesis unfolding r using source_ids_end [OF assms(1)] by simp
    next
      assume "\<not> j \<noteq> src_size second"
      then show ?thesis unfolding r using source_ids_end [OF assms(2)] by (simp add: merge_op_Nil)
    qed
  next
    case True
    then have ij: "i \<noteq> src_size first" "j \<noteq> src_size second" by simp_all
    note x = source_ids_next [OF assms(1) ij(1) less.prems(1)] and y = source_ids_next [OF assms(2) ij(2) less.prems(2)]
    note d = next_unat [OF ij(1)] next_unat [OF ij(2)]
    have step: "exec_loop t first second i j c =
        (if xs ! unat i < ys ! unat j then
            bindE (push_if (pushFirstSmaller t) (xs ! unat i) c) (\<lambda>c. exec_loop t first second (i + 1) j c)
          else if ys ! unat j < xs ! unat i then
            bindE (push_if (pushSecondSmaller t) (ys ! unat j) c) (\<lambda>c. exec_loop t first second i (j + 1) c)
          else
            bindE (push_if (pushEqual t) (xs ! unat i) c) (\<lambda>c. exec_loop t first second (i + 1) (j + 1) c))"
      using ij x(1) y(1) by (subst exec_loop.simps) simp
    have 1: "bindE (exec_loop t first second (i + 1) j c) (exec_rest t first second) =
        push_all c (merge_op t (drop (unat (i + 1)) xs) (drop (unat j) ys))" for c
      by (rule less.hyps) (use d x(3) less.prems in simp_all)
    have 2: "bindE (exec_loop t first second i (j + 1) c) (exec_rest t first second) =
        push_all c (merge_op t (drop (unat i) xs) (drop (unat (j + 1)) ys))" for c
      by (rule less.hyps) (use d y(3) less.prems in simp_all)
    have 3: "bindE (exec_loop t first second (i + 1) (j + 1) c) (exec_rest t first second) =
        push_all c (merge_op t (drop (unat (i + 1)) xs) (drop (unat (j + 1)) ys))" for c
      by (rule less.hyps) (use d x(3) y(3) less.prems in simp_all)
    show ?thesis
      unfolding step x(2) y(2) merge_op.simps
      by (simp only: if_distrib [where f = "\<lambda>m. bindE m (exec_rest t first second)"] bindE_assoc 1 2 3 push_if_all push_all_append
          x(2) [symmetric] y(2) [symmetric] if_distrib [where f = "push_all c"])
  qed
qed

section \<open>What the creator builds\<close>

definition ids_bytes :: "u32 list \<Rightarrow> bytes" where
  "ids_bytes xs = concat (map (le_bytes 4) xs)"

lemma ids_bytes_simps [simp]: "ids_bytes [] = []" "ids_bytes (x # xs) = le_bytes 4 x @ ids_bytes xs"
  "ids_bytes (xs @ ys) = ids_bytes xs @ ids_bytes ys"
  by (simp_all add: ids_bytes_def)

lemma length_ids_bytes [simp]: "length (ids_bytes xs) = 4 * length xs"
  by (induction xs) simp_all

lemma chunk_ids_bytes: "i < length xs \<Longrightarrow> chunk (4 * i) 4 (ids_bytes xs) = le_bytes 4 (xs ! i)"
proof (induction xs arbitrary: i)
  case (Cons x xs)
  then show ?case by (cases i) (simp_all add: chunk_def)
qed simp

text \<open>A creator for at most \<open>cap\<close> ids that holds \<open>zs\<close>.\<close>

definition creator_inv :: "native_creator \<Rightarrow> u32 list \<Rightarrow> nat \<Rightarrow> bool" where
  "creator_inv c zs cap \<longleftrightarrow> c_it c = 4 + 4 * length zs \<and> length (c_mem c) = 4 + 4 * cap \<and> length zs \<le> cap \<and>
     chunk 4 (4 * length zs) (c_mem c) = ids_bytes zs"

lemma creator_new_inv: "creator_inv (creator_new n) [] (unat n)"
  by (simp add: creator_inv_def creator_new_def)

lemma push_back_inv:
  assumes "creator_inv c zs cap"
  shows "length zs < cap \<Longrightarrow> \<exists>c'. creator_push_back c v = Inr c' \<and> creator_inv c' (zs @ [v]) cap"
    "length zs = cap \<Longrightarrow> creator_push_back c v = Inl OutOfBoundsException"
proof -
  note c = assms [unfolded creator_inv_def]
  show "length zs = cap \<Longrightarrow> creator_push_back c v = Inl OutOfBoundsException" using c by (simp add: creator_push_back_def)
  assume l: "length zs < cap"
  let ?m = "blit (c_it c) (le_bytes 4 v) (c_mem c)"
  have "chunk 4 (4 * length zs) ?m = ids_bytes zs"
    using c l by (subst chunk_blit_disjoint) simp_all
  moreover have "chunk (4 + 4 * length zs) 4 ?m = le_bytes 4 v"
    using c l chunk_blit_same [of "c_it c" "le_bytes 4 v" "c_mem c"] by simp
  ultimately have "chunk 4 (4 * length zs + 4) ?m = ids_bytes (zs @ [v])" unfolding chunk_split by simp
  then show "\<exists>c'. creator_push_back c v = Inr c' \<and> creator_inv c' (zs @ [v]) cap"
    using c l by (simp add: creator_push_back_def creator_inv_def length_blit add.commute)
qed

lemma push_all_inv:
  "creator_inv c zs cap \<Longrightarrow> length zs + length vs \<le> cap \<Longrightarrow> \<exists>c'. push_all c vs = Inr c' \<and> creator_inv c' (zs @ vs) cap"
proof (induction vs arbitrary: c zs)
  case (Cons v vs)
  then obtain c1 where 1: "creator_push_back c v = Inr c1" "creator_inv c1 (zs @ [v]) cap"
    using push_back_inv(1) [OF Cons.prems(1), of v] by auto
  then show ?case using Cons.IH [OF 1(2)] Cons.prems(2) by simp
qed simp

lemma push_all_full:
  "creator_inv c zs cap \<Longrightarrow> cap < length zs + length vs \<Longrightarrow> push_all c vs = Inl OutOfBoundsException"
proof (induction vs arbitrary: c zs)
  case (Cons v vs)
  show ?case
  proof (cases "length zs = cap")
    case True
    then show ?thesis using push_back_inv(2) [OF Cons.prems(1)] by simp
  next
    case False
    then have "length zs < cap" using Cons.prems(1) by (simp add: creator_inv_def)
    then obtain c1 where 1: "creator_push_back c v = Inr c1" "creator_inv c1 (zs @ [v]) cap"
      using push_back_inv(1) [OF Cons.prems(1), of v] by auto
    then show ?thesis using Cons.IH [OF 1(2)] Cons.prems(2) by simp
  qed
qed (simp add: creator_inv_def)

definition native_ids :: "native \<Rightarrow> u32 list \<Rightarrow> bool" where
  "native_ids x xs \<longleftrightarrow> unat (n_size x) = length xs \<and> n_mem x = ids_bytes xs"

definition native_source :: "native \<Rightarrow> id_source" where
  "native_source x = \<lparr>src_size = n_size x, src_at = native_uncheckedAt x\<rparr>"

lemma native_uncheckedAt_spec: "native_ids x xs \<Longrightarrow> unat i < length xs \<Longrightarrow> native_uncheckedAt x i = Inr (xs ! unat i)"
  by (simp add: native_uncheckedAt_def native_ids_def chunk_ids_bytes le_word_le_bytes take_bit_length_word)

lemma native_source_ids: "native_ids x xs \<Longrightarrow> source_ids (native_source x) xs"
  by (simp add: source_ids_def native_source_def native_uncheckedAt_spec) (simp add: native_ids_def)

lemma native_new_spec:
  assumes "uba_inv h d" "view h d = p_u32 n @ ids_bytes xs @ rest" "unat n = length xs"
  shows "\<exists>x. native_new h d = Inr x \<and> native_ids x xs"
proof -
  have l: "unat (m_len d) = 4 + 4 * length xs + length rest" using assms(1,2) length_view [OF assms(1)] by (simp add: p_u32_def)
  have g: "uba_getUint32 h d 0 = Inr n"
    using Uint32.get_spec [OF assms(1), of 0] l assms(2) by (simp add: uba_getUint32_def c_u32.unpack_append)
  have u: "unat (ucast n * 4 :: u64) = 4 * length xs"
    using assms(3) unat_bound [of n] by (simp add: unat_word_ariths unat_ucast_up)
  have "view h (uba_sub_len d 4 (ucast n * 4)) = ids_bytes xs"
    using sub_len_spec(2) [OF assms(1), of 4 "ucast n * 4"] l u by (simp add: assms(2) chunk_def p_u32_def)
  then show ?thesis using g assms(3) by (simp add: native_new_def native_ids_def)
qed

lemma getPrivateIndex_spec:
  assumes "creator_inv c zs cap" "cap < 2 ^ 32"
  shows "\<exists>x. creator_getPrivateIndex (creator_flush c) = Inr x \<and> native_ids x zs"
proof -
  note c = assms(1) [unfolded creator_inv_def]
  have n: "unat (creator_size c) = length zs" using c assms(2) by (simp add: creator_size_def unat_of_nat_small)
  let ?bs = "p_u32 (creator_size c) @ ids_bytes zs"
  have "take (c_it c) (c_mem c) = take 4 (c_mem c) @ ids_bytes zs"
    using c chunk_split [of 0 4 "4 * length zs" "c_mem c"] by (simp add: chunk_def)
  then have f: "c_mem (creator_flush c) = ?bs" "c_it (creator_flush c) = c_it c"
    using c by (simp_all add: creator_flush_def blit_def p_u32_def)
  then have f2: "c_mem (creator_flush (creator_flush c)) = ?bs"
    using c by (simp add: creator_flush_def [of "creator_flush c"] creator_size_def blit_def p_u32_def)
  obtain h d where d: "creator_data (creator_flush (creator_flush c)) = (h, d)" by fastforce
  have len: "length ?bs = 4 + 4 * length zs" by (simp add: p_u32_def)
  then have u: "unat (of_nat (length ?bs) :: u64) = length ?bs" using c assms(2) by (intro unat_of_nat_small) simp
  have "uba_inv h d" "view h d = ?bs"
    using d c assms(2) u len by (auto simp: creator_data_def f2 uba_inv_def live_def storage_def uba_of_priv_def view_def chunk_def max_size_def)
  then show ?thesis using native_new_spec [of h d "creator_size c" zs "[]"] n d by (simp add: creator_getPrivateIndex_def)
qed

lemma execute_spec:
  assumes "source_ids first xs" "source_ids second ys"
  shows "length (merge_op t xs ys) \<le> unat (maxSize t (src_size first) (src_size second)) \<Longrightarrow>
      \<exists>x. execute t first second = Inr x \<and> native_ids x (merge_op t xs ys)"
    "unat (maxSize t (src_size first) (src_size second)) < length (merge_op t xs ys) \<Longrightarrow>
      execute t first second = Inl OutOfBoundsException"
proof -
  let ?c = "creator_new (maxSize t (src_size first) (src_size second))"
  have e: "execute t first second = bindE (push_all ?c (merge_op t xs ys)) (\<lambda>c. creator_getPrivateIndex (creator_flush c))"
    using exec_loop_spec [OF assms, of 0 0 t ?c]
    by (simp add: execute_def exec_rest_def bindE_assoc [symmetric] case_prod_beta' del: maxSize_def)
  note i = creator_new_inv [of "maxSize t (src_size first) (src_size second)"]
  show "unat (maxSize t (src_size first) (src_size second)) < length (merge_op t xs ys) \<Longrightarrow>
      execute t first second = Inl OutOfBoundsException"
    unfolding e using push_all_full [OF i, of "merge_op t xs ys"] by simp
  assume "length (merge_op t xs ys) \<le> unat (maxSize t (src_size first) (src_size second))"
  then obtain c' where c': "push_all ?c (merge_op t xs ys) = Inr c'"
      "creator_inv c' (merge_op t xs ys) (unat (maxSize t (src_size first) (src_size second)))"
    using push_all_inv [OF i, of "merge_op t xs ys"] by auto
  have "unat (maxSize t (src_size first) (src_size second)) < 2 ^ 32" using unat_bound [of "maxSize t (src_size first) (src_size second)"] by simp
  from getPrivateIndex_spec [OF c'(2) this] show "\<exists>x. execute t first second = Inr x \<and> native_ids x (merge_op t xs ys)"
    unfolding e c'(1) by simp
qed

section \<open>Sizes\<close>

lemma length_merge_op: "length (merge_op t xs ys) \<le> length xs + length ys"
  by (induction t xs ys rule: merge_op.induct) auto

lemma length_merge_intersect: "length (merge_op IntersectOp xs ys) \<le> min (length xs) (length ys)"
proof -
  have "length (merge_op t xs ys) \<le> min (length xs) (length ys)" if "t = IntersectOp" for t
    using that by (induction t xs ys rule: merge_op.induct) (auto simp: op_defs)
  then show ?thesis by blast
qed

lemma length_merge_difference: "length (merge_op DifferenceOp xs ys) \<le> length xs"
proof -
  have "length (merge_op t xs ys) \<le> length xs" if "t = DifferenceOp" for t
    using that by (induction t xs ys rule: merge_op.induct) (auto simp: op_defs)
  then show ?thesis by blast
qed

section \<open>An index as a client sees it\<close>

text \<open>
  Search and enumeration only use \<open>size\<close> and \<open>at\<close>. They are proved once for every kind of index whose valid
  values hand out the elements of a list.
\<close>

lemma ucast_word_of_int32: "(ucast (word_of_int k :: u64) :: u32) = word_of_int k"
  by (rule bit_word_eqI) (simp add: bit_ucast_iff bit_word_of_int_iff)

lemma ucast_minus_one32: "(ucast (- 1 :: u64) :: u32) = - 1"
  by (rule bit_word_eqI) (simp add: bit_ucast_iff)

lemma unat_ucast64: "unat (ucast x :: u64) = unat x" for x :: u32
  by (rule unat_ucast_up) simp

lemma ucast64_iff:
  fixes x v :: u32
  shows "ucast x = (ucast v :: u64) \<longleftrightarrow> x = v" "ucast x < (ucast v :: u64) \<longleftrightarrow> x < v" "ucast x \<le> (ucast v :: u64) \<longleftrightarrow> x \<le> v"
  using unat_ucast64 by (metis word_eq_unatI) (simp_all add: word_less_nat_alt word_le_nat_alt unat_ucast64)

lemma find_loop_sorted:
  "find_loop at v l r =
    bindE (findSorted_loop (\<lambda>p. bindE (at (ucast p)) (\<lambda>x. Inr (ucast x))) (ucast v) l r) (\<lambda>x. Inr (ucast x))"
proof (induction at v l r rule: find_loop.induct)
  case (1 at v l r)
  define mid where "mid = half (r - l) + l"
  note unfolded = find_loop.simps [of at v l r] findSorted_loop.simps [of _ _ l r]
  show ?case
  proof (cases "at (word_of_int mid)")
    case (Inl e)
    then show ?thesis unfolding unfolded mid_def [symmetric] by (simp add: ucast_word_of_int32)
  next
    case (Inr x)
    show ?thesis
      using 1 [OF mid_def] unfolding unfolded mid_def [symmetric]
      by (simp add: Inr ucast_word_of_int32 Let_def ucast64_iff ucast_minus_one32)
  qed
qed

locale id_index =
  fixes source :: "'i \<Rightarrow> id_source" and ids :: "'i \<Rightarrow> u32 list" and valid :: "'i \<Rightarrow> bool"
  assumes source_ok: "valid i \<Longrightarrow> source_ids (source i) (ids i)"

sublocale id_index \<subseteq> random_access "\<lambda>i p. bindE (src_at (source i) (ucast p)) (\<lambda>x. Inr (ucast x))"
  "\<lambda>i. if valid i then map ucast (ids i) else []"
proof
  fix i and p :: u64
  assume p: "unat p < length (if valid i then map ucast (ids i) else [])"
  then have v: "valid i" "unat p < length (ids i)" by (simp_all split: if_splits)
  then have "unat p < 2 ^ 32" using source_ok [OF v(1)] unat_bound [of "src_size (source i)"] by (simp add: source_ids_def)
  then have "unat (ucast p :: u32) = unat p" by (simp add: unsigned_ucast_eq take_bit_nat_eq_self)
  then show "bindE (src_at (source i) (ucast p)) (\<lambda>x. Inr (ucast x)) = Inr ((if valid i then map ucast (ids i) else []) ! unat p)"
    using v source_idsD [OF source_ok [OF v(1)], of "ucast p"] by simp
qed

context id_index
begin

lemma find_ok:
  assumes "valid i" "sorted (ids i)"
  shows "\<exists>r. index_find (source i) v = Inr r \<and>
    (if v \<in> set (ids i) then unat r < length (ids i) \<and> ids i ! unat r = v else r = - 1)"
proof (cases "src_size (source i) = 0")
  case True
  then show ?thesis using source_ok [OF assms(1)] by (simp add: index_find_def source_ids_def)
next
  case False
  let ?n = "length (ids i)"
  have n: "unat (src_size (source i)) = ?n" using source_ok [OF assms(1)] by (simp add: source_ids_def)
  moreover have "0 < unat (src_size (source i))" using False by (simp add: unat_gt_0)
  ultimately have b: "0 < ?n" "?n < 2 ^ 32" using unat_bound [of "src_size (source i)"] by simp_all
  have u: "uint (src_size (source i) - 1) = int ?n - 1"
    using n b unat_minus_one [OF False] by (simp add: uint_nat of_nat_diff Suc_leI)
  have s: "sorted (map ucast (ids i) :: u64 list)"
    using assms(2) by (simp add: sorted_wrt_map ucast64_iff)
  have "\<exists>r. findSorted_loop (\<lambda>p. bindE (src_at (source i) (ucast p)) (\<lambda>x. Inr (ucast x))) (ucast v) 0 (int ?n - 1) = Inr r \<and>
      (if ucast v \<in> set (take ?n (map ucast (ids i) :: u64 list)) then unat r < ?n \<and> (map ucast (ids i) :: u64 list) ! unat r = ucast v else r = - 1)"
    using findSorted_loop_correct [of i ?n 0 "int ?n - 1" "ucast v"] s b assms(1) by auto
  then obtain r where r: "findSorted_loop (\<lambda>p. bindE (src_at (source i) (ucast p)) (\<lambda>x. Inr (ucast x))) (ucast v) 0 (int ?n - 1) = Inr r"
      "if ucast v \<in> set (take ?n (map ucast (ids i) :: u64 list)) then unat r < ?n \<and> (map ucast (ids i) :: u64 list) ! unat r = ucast v else r = - 1"
    by blast
  have m: "ucast v \<in> set (map ucast (ids i) :: u64 list) \<longleftrightarrow> v \<in> set (ids i)" by (auto simp: ucast64_iff)
  have "index_find (source i) v = Inr (ucast r)" using False r(1) by (simp add: index_find_def u find_loop_sorted)
  moreover have "unat (ucast r :: u32) = unat r" if "unat r < ?n"
    using that b by (simp add: unsigned_ucast_eq take_bit_nat_eq_self)
  ultimately show ?thesis using r(2) m by (auto simp: ucast64_iff ucast_minus_one32 split: if_splits)
qed

lemma put_bits_ok:
  assumes "valid i"
  shows "owner h m \<Longrightarrow> unat k \<le> length (ids i) \<Longrightarrow>
    \<exists>h' m'. put_loop (source i) k h m = Inr (h', m') \<and> owner h' m' \<and> dbs_elems h' m' = dbs_elems h m \<union> unat ` set (drop (unat k) (ids i))"
proof (induction "unat (src_size (source i) - k)" arbitrary: k h m rule: less_induct)
  case less
  note s = source_ok [OF assms]
  show ?case
  proof (cases "k < src_size (source i)")
    case False
    then have "length (ids i) \<le> unat k" using s by (simp add: source_ids_def word_less_nat_alt)
    then show ?thesis using False less.prems by (subst put_loop.simps) simp
  next
    case True
    then have k: "k \<noteq> src_size (source i)" by auto
    note n = source_ids_next [OF s k less.prems(2)]
    from less.prems(1) obtain h1 m1 where 1: "dbs_set h m (ucast (ids i ! unat k)) = Inr (h1, m1)" "owner h1 m1"
        "dbs_elems h1 m1 = insert (unat (ids i ! unat k)) (dbs_elems h m)"
      by (rule set_spec [where pos = "ucast (ids i ! unat k)"]) (simp add: unat_ucast64)
    from less.hyps [OF next_less [OF True] 1(2) n(3)] obtain h' m' where
      "put_loop (source i) (k + 1) h1 m1 = Inr (h', m')" "owner h' m'"
      "dbs_elems h' m' = dbs_elems h1 m1 \<union> unat ` set (drop (unat (k + 1)) (ids i))" by blast
    then show ?thesis using True n(1) 1 unfolding n(2) by (subst put_loop.simps) auto
  qed
qed

lemma put_array_ok:
  assumes "valid i"
  shows "unat k \<le> length (ids i) \<Longrightarrow> ids_loop (source i) k = Inr (drop (unat k) (ids i))"
proof (induction "unat (src_size (source i) - k)" arbitrary: k rule: less_induct)
  case less
  note s = source_ok [OF assms]
  show ?case
  proof (cases "k < src_size (source i)")
    case False
    then have "length (ids i) \<le> unat k" using s by (simp add: source_ids_def word_less_nat_alt)
    then show ?thesis using False by (subst ids_loop.simps) simp
  next
    case True
    then have k: "k \<noteq> src_size (source i)" by auto
    note n = source_ids_next [OF s k less.prems]
    show ?thesis using True n(1) less.hyps [OF next_less [OF True] n(3)] unfolding n(2) by (subst ids_loop.simps) simp
  qed
qed

end

section \<open>Properties\<close>

text \<open>C20: The default set operations of two indices with increasing ids give a native index with increasing ids
  that holds the intersection, union, difference and symmetric difference. The last one and the union
  need the sum of the sizes to fit 32 bits, in which the creator's capacity is computed.\<close>

theorem generic_set_operations:
  assumes "source_ids s xs" "source_ids q ys" "increasing xs" "increasing ys"
  shows "(\<exists>x zs. doIntersect s (Some q) = Inr (NativeIndex x) \<and> native_ids x zs \<and> increasing zs \<and> set zs = set xs \<inter> set ys) \<and>
    (\<exists>x zs. doDifference s (Some q) = Inr (NativeIndex x) \<and> native_ids x zs \<and> increasing zs \<and> set zs = set xs - set ys) \<and>
    (length xs + length ys < 2 ^ 32 \<longrightarrow>
      (\<exists>x zs. doUnite s (Some q) = Inr (NativeIndex x) \<and> native_ids x zs \<and> increasing zs \<and> set zs = set xs \<union> set ys) \<and>
      (\<exists>x zs. doSymmetricDifference s (Some q) = Inr (NativeIndex x) \<and> native_ids x zs \<and> increasing zs \<and>
        set zs = (set xs - set ys) \<union> (set ys - set xs)))"
proof -
  have sz: "unat (src_size s) = length xs" "unat (src_size q) = length ys" using assms by (simp_all add: source_ids_def)
  have run: "\<exists>x zs. do_op t s (Some q) = Inr (NativeIndex x) \<and> native_ids x zs \<and> increasing zs \<and> set zs = op_set t (set xs) (set ys)"
    if "coherent t" "length (merge_op t xs ys) \<le> unat (maxSize t (src_size s) (src_size q))" for t
    using execute_spec(1) [OF assms(1,2) that(2)] merge_op_set [OF that(1) assms(3,4)] by (auto simp: do_op_def)
  note ops = doIntersect_def doUnite_def doDifference_def doSymmetricDifference_def
  have plus: "length (merge_op t xs ys) \<le> unat (src_size s + src_size q)" if "length xs + length ys < 2 ^ 32" for t
    using that sz length_merge_op [of t xs ys] by (subst unat_add_nowrap) simp_all
  have "unat (min (src_size s) (src_size q)) = min (length xs) (length ys)" using sz by (simp add: min_def word_le_nat_alt)
  then show ?thesis
    using run [of IntersectOp] run [of UniteOp] run [of DifferenceOp] run [of SymmetricDifferenceOp] plus
      length_merge_intersect [of xs ys] length_merge_difference [of xs ys] sz
    unfolding ops op_sets by simp
qed

definition list_source :: "u32 list \<Rightarrow> id_source" where
  "list_source xs = \<lparr>src_size = of_nat (length xs), src_at = (\<lambda>i. if unat i < length xs then Inr (xs ! unat i) else Inr 0)\<rparr>"

lemma list_source_ids: "length xs < 2 ^ 32 \<Longrightarrow> source_ids (list_source xs) xs"
  by (simp add: source_ids_def list_source_def unat_of_nat_small)

theorem generic_set_operations_witness:
  "\<exists>x zs. doUnite (list_source [1, 5]) (Some (list_source [2, 5, 9])) = Inr (NativeIndex x) \<and> native_ids x zs \<and> set zs = {1, 5} \<union> {2, 5, 9}"
  using generic_set_operations [OF list_source_ids [of "[1, 5]"] list_source_ids [of "[2, 5, 9]"]] by auto

text \<open>The executer computes exactly the merge of the two id sequences that its traits describe, whatever the order of
  the ids, as long as it fits the capacity that the traits compute from the sizes; otherwise it throws.\<close>

theorem executer_is_merge:
  assumes "source_ids s xs" "source_ids q ys"
  shows "(\<exists>x. execute t s q = Inr x \<and> native_ids x (merge_op t xs ys)) \<or>
    execute t s q = Inl OutOfBoundsException \<and> unat (maxSize t (src_size s) (src_size q)) < length (merge_op t xs ys)"
  using execute_spec [OF assms] by (meson not_less)

theorem executer_is_merge_witness:
  "\<exists>x. execute UniteOp (list_source [7]) (list_source [3, 8]) = Inr x \<and> native_ids x [3, 7, 8]"
  using executer_is_merge [OF list_source_ids [of "[7]"] list_source_ids [of "[3, 8]"], of UniteOp]
  by (simp add: op_defs list_source_def)

end
