(* ===== verification/ItemIndexNative.thy ===== *)
theory ItemIndexNative
  imports ItemIndexOps UtilMath
begin

text \<open>
  The rest of \<open>ItemIndexPrivateNative\<close> (\<open>include/sserialize/containers/ItemIndexPrivates/ItemIndexPrivateNative.h\<close> and
  \<open>.cpp\<close>): access, the iterator, creation from a range, output into bit sets and arrays, and the set
  operations of two native indices, which run over the raw bytes with pointers. A pointer is
  its offset in the memory it points into; accesses outside are \<open>MemFault\<close>.
\<close>

section \<open>Access\<close>

definition native_first :: "native \<Rightarrow> u32 res" where
  "native_first x = native_at x 0"

definition native_last :: "native \<Rightarrow> u32 res" where
  "native_last x = native_at x (n_size x - 1)"

definition native_getSizeInBytes :: "native \<Rightarrow> u64" where
  "native_getSizeInBytes x = of_nat (length (n_mem x)) + 4"

definition native_bpn :: "native \<Rightarrow> u8 res" where
  "native_bpn x = (if n_size x + 1 = 0 then Inl UndefinedBehaviour
     else Inr (ucast (native_getSizeInBytes x * 8 div ucast (n_size x + 1))))"

text \<open>The iterator is a pointer into the memory.\<close>

definition load32 :: "bytes \<Rightarrow> nat \<Rightarrow> u32 res" where
  "load32 m p = (if p + 4 \<le> length m then Inr (le_word (chunk p 4 m)) else Inl MemFault)"

definition nit_cbegin :: "native \<Rightarrow> nat" where
  "nit_cbegin x = 0"

definition nit_cend :: "native \<Rightarrow> nat" where
  "nit_cend x = 4 * unat (n_size x)"

definition nit_get :: "native \<Rightarrow> nat \<Rightarrow> u32 res" where
  "nit_get x p = load32 (n_mem x) p"

definition nit_next :: "nat \<Rightarrow> nat" where
  "nit_next p = p + 4"

fun nit_collect :: "nat \<Rightarrow> native \<Rightarrow> nat \<Rightarrow> nat \<Rightarrow> u32 list res option" where
  "nit_collect 0 x it stop = None"
| "nit_collect (Suc n) x it stop =
     (if it \<noteq> stop
      then map_option (\<lambda>r. bindE (nit_get x it) (\<lambda>v. bindE r (\<lambda>vs. Inr (v # vs)))) (nit_collect n x (nit_next it) stop)
      else Some (Inr []))"

section \<open>Output\<close>

definition native_putInto_array :: "native \<Rightarrow> bytes res" where
  "native_putInto_array x = (if 4 * unat (n_size x) \<le> length (n_mem x) then Inr (chunk 0 (4 * unat (n_size x)) (n_mem x)) else Inl MemFault)"

text \<open>\<open>destMvd[pos] |= bit\<close> through a pointer when the storage is contiguous, else \<open>dest[pos] |= bit\<close>.\<close>

definition set_raw_bit :: "heap \<Rightarrow> uba \<Rightarrow> u32 \<Rightarrow> heap res" where
  "set_raw_bit h m v =
     (let bytePos = ucast (v div 8) :: u64; inBytePos = unat (v mod 8)
      in if isContiguous (storage h m) \<and> m_len m \<le> bytePos then Inl MemFault
         else modify h m bytePos (\<lambda>b. b OR push_bit inBytePos 1))"

fun put_raw_bits :: "heap \<Rightarrow> uba \<Rightarrow> native \<Rightarrow> nat \<Rightarrow> nat \<Rightarrow> heap res" where
  "put_raw_bits h m x data 0 = Inr h"
| "put_raw_bits h m x data (Suc n) =
     bindE (load32 (n_mem x) data) (\<lambda>v. bindE (set_raw_bit h m v) (\<lambda>h. put_raw_bits h m x (data + 4) n))"

definition native_putInto_bits :: "native \<Rightarrow> heap \<Rightarrow> uba \<Rightarrow> (heap \<times> uba) res" where
  "native_putInto_bits x h m =
     (if n_size x = 0 then Inr (h, m)
      else bindE (native_last x) (\<lambda>l.
        let maxBytePos = l div 8 + (if l mod 8 > 0 then 1 else 0)
        in bindE (if m_len m \<le> ucast maxBytePos
                  then bindE (uba_resize h m (ucast (maxBytePos + 1))) (\<lambda>(_, h, m). Inr (h, m))
                  else Inr (h, m)) (\<lambda>(h, m).
           bindE (put_raw_bits h m x 0 (unat (n_size x))) (\<lambda>h. Inr (h, m)))))"

section \<open>Creation\<close>

definition native_create :: "u32 list \<Rightarrow> heap \<Rightarrow> uba \<Rightarrow> (heap \<times> uba) res" where
  "native_create src h dest =
     bindE (narrow_check_u (int (length src))) (\<lambda>n.
     bindE (stream_putUint32 h dest n) (\<lambda>(h, dest).
       stream_putData h dest (concat (map (le_bytes 4) src))))"

section \<open>The set operations\<close>

text \<open>\<open>memmove(tmpResultIt, p, n); tmpResultIt += n\<close>: memory and position are those of a creator.\<close>

definition raw_push :: "native_creator \<Rightarrow> bytes \<Rightarrow> native_creator res" where
  "raw_push c bs =
     (if c_it c + length bs \<le> length (c_mem c)
      then Inr \<lparr>c_mem = blit (c_it c) bs (c_mem c), c_it = c_it c + length bs\<rparr> else Inl MemFault)"

definition raw_push_if :: "bool \<Rightarrow> bytes \<Rightarrow> nat \<Rightarrow> native_creator \<Rightarrow> native_creator res" where
  "raw_push_if p m pos c = (if p then raw_push c (chunk pos 4 m) else Inr c)"

function raw_loop :: "set_op \<Rightarrow> bytes \<Rightarrow> bytes \<Rightarrow> nat \<Rightarrow> nat \<Rightarrow> native_creator \<Rightarrow> (nat \<times> nat \<times> native_creator) res" where
  "raw_loop t my other myD oD c =
     (if myD < length my \<and> oD < length other then
        bindE (load32 my myD) (\<lambda>myId. bindE (load32 other oD) (\<lambda>oId.
          if myId < oId then bindE (raw_push_if (pushFirstSmaller t) my myD c) (\<lambda>c. raw_loop t my other (myD + 4) oD c)
          else if oId < myId then bindE (raw_push_if (pushSecondSmaller t) other oD c) (\<lambda>c. raw_loop t my other myD (oD + 4) c)
          else bindE (raw_push_if (pushEqual t) my myD c) (\<lambda>c. raw_loop t my other (myD + 4) (oD + 4) c)))
      else Inr (myD, oD, c))"
  by pat_completeness auto
termination
  by (relation "measure (\<lambda>(t, my, other, myD, oD, c). (length my - myD) + (length other - oD))") auto

declare raw_loop.simps [simp del]

definition raw_rest :: "set_op \<Rightarrow> bytes \<Rightarrow> bytes \<Rightarrow> nat \<times> nat \<times> native_creator \<Rightarrow> native_creator res" where
  "raw_rest t my other = (\<lambda>(myD, oD, c).
     if pushFirstRemainder t \<and> myD < length my then raw_push c (drop myD my)
     else if pushSecondRemainder t \<and> oD < length other then raw_push c (drop oD other)
     else Inr c)"

definition native_genericSetOp :: "set_op \<Rightarrow> native \<Rightarrow> native \<Rightarrow> result_index res" where
  "native_genericSetOp t x y =
     bindE (bindE (raw_loop t (n_mem x) (n_mem y) 0 0 (creator_new (maxSize t (n_size x) (n_size y))))
       (raw_rest t (n_mem x) (n_mem y))) (\<lambda>c.
     bindE (narrow_check_u (int ((c_it c - 4) div 4))) (\<lambda>tmpResultSize.
       if tmpResultSize = 0 then Inr EmptyIndex
       else let mm = take (4 * unat (tmpResultSize + 1)) (c_mem c);
                mm = blit 0 (p_u32 tmpResultSize) mm
            in case creator_data \<lparr>c_mem = mm, c_it = c_it c\<rparr> of (h, d) \<Rightarrow>
                 bindE (native_new h d) (\<lambda>r. Inr (NativeIndex r))))"

text \<open>The virtual operations: \<open>other\<close> may be a native index, another index or null.\<close>

datatype operand = NullOp | NativeOp native | OtherOp id_source

definition native_op :: "set_op \<Rightarrow> native \<Rightarrow> operand \<Rightarrow> result_index res" where
  "native_op t x other =
     (case other of
        NativeOp y \<Rightarrow> native_genericSetOp t x y
      | OtherOp s \<Rightarrow> do_op t (native_source x) (Some s)
      | NullOp \<Rightarrow> do_op t (native_source x) None)"

definition native_intersect :: "native \<Rightarrow> operand \<Rightarrow> result_index res" where
  "native_intersect = native_op IntersectOp"

definition native_unite :: "native \<Rightarrow> operand \<Rightarrow> result_index res" where
  "native_unite = native_op UniteOp"

definition native_difference :: "native \<Rightarrow> operand \<Rightarrow> result_index res" where
  "native_difference = native_op DifferenceOp"

definition native_symmetricDifference :: "native \<Rightarrow> operand \<Rightarrow> result_index res" where
  "native_symmetricDifference = native_op SymmetricDifferenceOp"

section \<open>The native index as an index\<close>

definition native_list :: "native \<Rightarrow> u32 list" where
  "native_list x = map (\<lambda>i. le_word (chunk (4 * i) 4 (n_mem x))) [0..<unat (n_size x)]"

definition native_valid :: "native \<Rightarrow> bool" where
  "native_valid x \<longleftrightarrow> length (n_mem x) = 4 * unat (n_size x)"

interpretation nat_idx: id_index native_source native_list native_valid
  by unfold_locales (simp add: native_valid_def native_list_def source_ids_def native_source_def native_uncheckedAt_def)

lemma native_ids_list:
  assumes "native_ids x xs"
  shows "native_valid x" "native_list x = xs"
proof -
  show "native_valid x" using assms by (simp add: native_ids_def native_valid_def)
  show "native_list x = xs"
    using assms by (intro nth_equalityI) (simp_all add: native_ids_def native_list_def chunk_ids_bytes le_word_le_bytes take_bit_length_word)
qed

lemma load32_ids:
  assumes "i < length xs"
  shows "load32 (ids_bytes xs) (4 * i) = Inr (xs ! i)"
  using assms by (simp add: load32_def chunk_ids_bytes le_word_le_bytes take_bit_length_word)

lemma drop_ids_bytes: "drop (4 * i) (ids_bytes xs) = ids_bytes (drop i xs)"
proof (induction xs arbitrary: i)
  case (Cons x xs)
  then show ?case by (cases i) simp_all
qed simp

lemma raw_push_inv:
  assumes "creator_inv c zs cap" "length zs + length vs \<le> cap"
  shows "\<exists>c'. raw_push c (ids_bytes vs) = Inr c' \<and> creator_inv c' (zs @ vs) cap"
proof -
  note c = assms(1) [unfolded creator_inv_def]
  let ?m = "blit (c_it c) (ids_bytes vs) (c_mem c)"
  have "chunk 4 (4 * length zs) ?m = ids_bytes zs"
    using c assms(2) by (subst chunk_blit_disjoint) simp_all
  moreover have "chunk (4 + 4 * length zs) (4 * length vs) ?m = ids_bytes vs"
    using c assms(2) chunk_blit_same [of "c_it c" "ids_bytes vs" "c_mem c"] by simp
  ultimately have "chunk 4 (4 * length zs + 4 * length vs) ?m = ids_bytes (zs @ vs)" unfolding chunk_split by simp
  then show ?thesis
    using c assms(2) by (simp add: raw_push_def creator_inv_def length_blit add.commute)
qed

lemma raw_push_if_inv:
  assumes "creator_inv c zs cap" "length zs + (if p then 1 else 0) \<le> cap" "i < length xs"
  shows "\<exists>c'. raw_push_if p (ids_bytes xs) (4 * i) c = Inr c' \<and> creator_inv c' (zs @ (if p then [xs ! i] else [])) cap"
  using raw_push_inv [OF assms(1), of "[xs ! i]"] assms by (auto simp: raw_push_if_def chunk_ids_bytes)

section \<open>The pointer algorithm computes the merge\<close>

lemma raw_loop_spec:
  "creator_inv c zs cap \<Longrightarrow> length zs + length (merge_op t (drop i xs) (drop j ys)) \<le> cap \<Longrightarrow>
    \<exists>c'. bindE (raw_loop t (ids_bytes xs) (ids_bytes ys) (4 * i) (4 * j) c) (raw_rest t (ids_bytes xs) (ids_bytes ys)) = Inr c' \<and>
      creator_inv c' (zs @ merge_op t (drop i xs) (drop j ys)) cap"
proof (induction "(length xs - i) + (length ys - j)" arbitrary: i j c zs rule: less_induct)
  case less
  show ?case
  proof (cases "i < length xs \<and> j < length ys")
    case False
    then have "raw_loop t (ids_bytes xs) (ids_bytes ys) (4 * i) (4 * j) c = Inr (4 * i, 4 * j, c)"
      by (subst raw_loop.simps) auto
    moreover have "merge_op t (drop i xs) (drop j ys) =
        (if pushFirstRemainder t \<and> i < length xs then drop i xs else if pushSecondRemainder t \<and> j < length ys then drop j ys else [])"
      using False by (auto simp: merge_op_Nil not_less)
    ultimately show ?thesis
      using raw_push_inv [OF less.prems(1)] less.prems by (auto simp: raw_rest_def drop_ids_bytes)
  next
    case True
    let ?x = "xs ! i" and ?y = "ys ! j"
    have d: "drop i xs = ?x # drop (i + 1) xs" "drop j ys = ?y # drop (j + 1) ys" using True by (simp_all add: Cons_nth_drop_Suc)
    have step: "raw_loop t (ids_bytes xs) (ids_bytes ys) (4 * i) (4 * j) c =
        (if ?x < ?y then bindE (raw_push_if (pushFirstSmaller t) (ids_bytes xs) (4 * i) c)
              (\<lambda>c. raw_loop t (ids_bytes xs) (ids_bytes ys) (4 * (i + 1)) (4 * j) c)
         else if ?y < ?x then bindE (raw_push_if (pushSecondSmaller t) (ids_bytes ys) (4 * j) c)
              (\<lambda>c. raw_loop t (ids_bytes xs) (ids_bytes ys) (4 * i) (4 * (j + 1)) c)
         else bindE (raw_push_if (pushEqual t) (ids_bytes xs) (4 * i) c)
              (\<lambda>c. raw_loop t (ids_bytes xs) (ids_bytes ys) (4 * (i + 1)) (4 * (j + 1)) c))"
      using True by (subst raw_loop.simps) (simp add: load32_ids add.commute)
    consider "?x < ?y" | "?y < ?x" | "?x = ?y" by force
    then show ?thesis
    proof cases
      case 1
      then have m: "merge_op t (drop i xs) (drop j ys) =
          (if pushFirstSmaller t then [?x] else []) @ merge_op t (drop (i + 1) xs) (drop j ys)" unfolding d by simp
      obtain c1 where c1: "raw_push_if (pushFirstSmaller t) (ids_bytes xs) (4 * i) c = Inr c1"
          "creator_inv c1 (zs @ (if pushFirstSmaller t then [?x] else [])) cap"
        using raw_push_if_inv [OF less.prems(1), of "pushFirstSmaller t" i xs] less.prems(2) True m by (auto split: if_splits)
      show ?thesis using less.hyps [OF _ c1(2), of "i + 1" j] less.prems(2) True 1 c1(1) unfolding step m by (simp split: if_splits)
    next
      case 2
      then have "\<not> ?x < ?y" by auto
      then have m: "merge_op t (drop i xs) (drop j ys) =
          (if pushSecondSmaller t then [?y] else []) @ merge_op t (drop i xs) (drop (j + 1) ys)" unfolding d using 2 by simp
      obtain c1 where c1: "raw_push_if (pushSecondSmaller t) (ids_bytes ys) (4 * j) c = Inr c1"
          "creator_inv c1 (zs @ (if pushSecondSmaller t then [?y] else [])) cap"
        using raw_push_if_inv [OF less.prems(1), of "pushSecondSmaller t" j ys] less.prems(2) True m by (auto split: if_splits)
      show ?thesis using less.hyps [OF _ c1(2), of i "j + 1"] less.prems(2) True 2 \<open>\<not> ?x < ?y\<close> c1(1) unfolding step m by (simp split: if_splits)
    next
      case 3
      then have m: "merge_op t (drop i xs) (drop j ys) =
          (if pushEqual t then [?x] else []) @ merge_op t (drop (i + 1) xs) (drop (j + 1) ys)" unfolding d by simp
      obtain c1 where c1: "raw_push_if (pushEqual t) (ids_bytes xs) (4 * i) c = Inr c1"
          "creator_inv c1 (zs @ (if pushEqual t then [?x] else [])) cap"
        using raw_push_if_inv [OF less.prems(1), of "pushEqual t" i xs] less.prems(2) True m by (auto split: if_splits)
      show ?thesis using less.hyps [OF _ c1(2), of "i + 1" "j + 1"] less.prems(2) True 3 c1(1) unfolding step m by (simp split: if_splits)
    qed
  qed
qed

definition result_ids :: "result_index \<Rightarrow> u32 list \<Rightarrow> bool" where
  "result_ids r zs = (case r of EmptyIndex \<Rightarrow> zs = [] | NativeIndex x \<Rightarrow> native_ids x zs)"

lemma native_data_new:
  assumes "length zs < 2 ^ 32" "unat n = length zs"
  shows "\<exists>r. (case creator_data \<lparr>c_mem = p_u32 n @ ids_bytes zs, c_it = k\<rparr> of (h, d) \<Rightarrow> native_new h d) = Inr r \<and> native_ids r zs"
proof -
  let ?bs = "p_u32 n @ ids_bytes zs"
  have len: "length ?bs = 4 + 4 * length zs" by (simp add: p_u32_def)
  then have u: "unat (of_nat (length ?bs) :: u64) = length ?bs" using assms(1) by (intro unat_of_nat_small) simp
  obtain h d where d: "creator_data \<lparr>c_mem = ?bs, c_it = k\<rparr> = (h, d)" by fastforce
  then have "uba_inv h d" "view h d = ?bs"
    using assms(1) u len by (auto simp: creator_data_def uba_inv_def live_def storage_def uba_of_priv_def view_def chunk_def max_size_def)
  then show ?thesis using native_new_spec [of h d n zs "[]"] d assms(2) by simp
qed

lemma native_genericSetOp_spec:
  assumes "native_ids x xs" "native_ids y ys" "length (merge_op t xs ys) \<le> unat (maxSize t (n_size x) (n_size y))"
    and "length (merge_op t xs ys) < 2 ^ 32 - 1"
  shows "\<exists>r. native_genericSetOp t x y = Inr r \<and> result_ids r (merge_op t xs ys)"
proof -
  let ?zs = "merge_op t xs ys" and ?n = "of_nat (length (merge_op t xs ys)) :: u32"
  have m: "n_mem x = ids_bytes xs" "n_mem y = ids_bytes ys" using assms(1,2) by (simp_all add: native_ids_def)
  have r: "\<exists>c. bindE (raw_loop t (n_mem x) (n_mem y) 0 0 (creator_new (maxSize t (n_size x) (n_size y)))) (raw_rest t (n_mem x) (n_mem y)) = Inr c \<and>
      creator_inv c ?zs (unat (maxSize t (n_size x) (n_size y)))"
    using raw_loop_spec [OF creator_new_inv, of t 0 xs 0 ys "maxSize t (n_size x) (n_size y)"] assms(3) unfolding m by simp
  then obtain c where c: "bindE (raw_loop t (n_mem x) (n_mem y) 0 0 (creator_new (maxSize t (n_size x) (n_size y)))) (raw_rest t (n_mem x) (n_mem y)) = Inr c"
      "creator_inv c ?zs (unat (maxSize t (n_size x) (n_size y)))" by (elim exE conjE) (rule that)
  note i = c(2) [unfolded creator_inv_def]
  have u: "unat ?n = length ?zs" using assms(4) by (intro unat_of_nat_small) simp
  have u1: "unat (?n + 1) = length ?zs + 1" using assms(4) u by (subst unat_add_nowrap) simp_all
  have nc: "narrow_check_u (int ((c_it c - 4) div 4)) = (Inr ?n :: u32 res)"
    using i assms(4) by (simp add: narrow_check_u_def)
  have z: "?n = 0 \<longleftrightarrow> ?zs = []" using u by (metis length_0_conv unat_0 word_eq_unatI)
  have "take (4 * unat (?n + 1)) (c_mem c) = take 4 (c_mem c) @ ids_bytes ?zs"
    using i chunk_split [of 0 4 "4 * length ?zs" "c_mem c"] unfolding u1 by (simp add: chunk_def algebra_simps)
  then have b: "blit 0 (p_u32 ?n) (take (4 * unat (?n + 1)) (c_mem c)) = p_u32 ?n @ ids_bytes ?zs"
    using i by (simp add: blit_def p_u32_def)
  obtain r where r: "(case creator_data \<lparr>c_mem = p_u32 ?n @ ids_bytes ?zs, c_it = c_it c\<rparr> of (h, d) \<Rightarrow> native_new h d) = Inr r" "native_ids r ?zs"
    using native_data_new [OF _ u, of "c_it c"] assms(4) by auto
  have "native_genericSetOp t x y = Inr (if ?zs = [] then EmptyIndex else NativeIndex r)"
  proof (cases "?zs = []")
    case True
    then show ?thesis unfolding native_genericSetOp_def c(1) using nc z by simp
  next
    case False
    then show ?thesis unfolding native_genericSetOp_def c(1) bindE_simps nc Let_def b using z r(1)
      by (auto split: prod.splits)
  qed
  then show ?thesis using r(2) by (simp add: result_ids_def)
qed

section \<open>Bits\<close>

lemma set_raw_bit_spec:
  assumes "owner h m" "unat v < 8 * unat (m_len m)"
  obtains h' where "set_raw_bit h m v = Inr h'" "owner h' m" "dbs_elems h' m = insert (unat v) (dbs_elems h m)"
proof -
  have u: "unat (ucast v :: u64) = unat v" by (rule unat_ucast64)
  have d: "(ucast v :: u64) div 8 = ucast (v div 8)" "unat ((ucast v :: u64) mod 8) = unat (v mod 8)"
    by (auto intro!: word_eq_unatI simp: unat_ucast64 unat_div unat_mod)
  have "\<not> m_len m \<le> ucast (v div 8)"
    using assms(2) unat_ucast64 [of "v div 8"] by (simp add: word_le_nat_alt unat_div not_le div_less_iff_less_mult mult.commute)
  moreover have "unat (ucast v :: u64) < 8 * unat (m_len m)" using assms(2) u by simp
  from set_bit_spec [OF assms(1) this] obtain h' where
    "modify h m (ucast v div 8) (\<lambda>b. b OR push_bit (unat (ucast v mod 8 :: u64)) 1) = Inr h'" "owner h' m"
    "dbs_elems h' m = insert (unat v) (dbs_elems h m)" unfolding u by blast
  ultimately show ?thesis using that d by (simp add: set_raw_bit_def)
qed

lemma put_raw_bits_spec:
  assumes "n_mem x = ids_bytes xs"
  shows "owner h m \<Longrightarrow> i + n = length xs \<Longrightarrow> \<forall>v \<in> set xs. unat v < 8 * unat (m_len m) \<Longrightarrow>
    \<exists>h'. put_raw_bits h m x (4 * i) n = Inr h' \<and> owner h' m \<and> dbs_elems h' m = dbs_elems h m \<union> unat ` set (drop i xs)"
proof (induction n arbitrary: h i)
  case (Suc n)
  then have i: "i < length xs" by simp
  then have "unat (xs ! i) < 8 * unat (m_len m)" using Suc.prems(3) by simp
  with Suc.prems(1) obtain h1 where 1: "set_raw_bit h m (xs ! i) = Inr h1" "owner h1 m"
      "dbs_elems h1 m = insert (unat (xs ! i)) (dbs_elems h m)" by (rule set_raw_bit_spec)
  have "4 * i + 4 = 4 * (i + 1)" by simp
  moreover have "drop i xs = xs ! i # drop (i + 1) xs" using i by (simp add: Cons_nth_drop_Suc)
  ultimately show ?case
    using Suc.IH [OF 1(2), of "i + 1"] Suc.prems 1(1,3) i by (auto simp: assms load32_ids add.commute [of _ 4])
qed simp

lemma sorted_last: "increasing xs \<Longrightarrow> v \<in> set xs \<Longrightarrow> v \<le> last xs"
  by (induction xs) (auto simp: less_imp_le)

lemma native_last_spec:
  assumes "native_ids x xs" "xs \<noteq> []"
  shows "native_last x = Inr (last xs)"
proof -
  have n: "unat (n_size x) = length xs" using assms(1) by (simp add: native_ids_def)
  then have "n_size x \<noteq> 0" using assms(2) by auto
  then have u: "unat (n_size x - 1) = length xs - 1" using n unat_minus_one by metis
  then have "n_size x - 1 < n_size x" using n assms(2) by (simp add: word_less_nat_alt)
  then show ?thesis
    using native_uncheckedAt_spec [OF assms(1), of "n_size x - 1"] u assms(2) by (simp add: native_last_def native_at_def last_conv_nth)
qed

lemma native_putInto_bits_spec:
  assumes "native_ids x xs" "increasing xs" "owner h m"
  shows "\<exists>h' m'. native_putInto_bits x h m = Inr (h', m') \<and> owner h' m' \<and> dbs_elems h' m' = dbs_elems h m \<union> unat ` set xs"
proof (cases "xs = []")
  case True
  then have "n_size x = 0" using assms(1) by (simp add: native_ids_def unat_eq_zero)
  then show ?thesis using True assms(3) by (simp add: native_putInto_bits_def)
next
  case False
  let ?l = "last xs"
  let ?p = "?l div 8 + (if ?l mod 8 > 0 then 1 else 0)"
  have n: "n_mem x = ids_bytes xs" "unat (n_size x) = length xs" using assms(1) by (simp_all add: native_ids_def)
  then have n0: "n_size x \<noteq> 0" using False by auto
  have l: "unat ?l div 8 \<le> unat ?p" "unat ?p \<le> unat ?l div 8 + 1" "unat ?p + 1 < 2 ^ 32"
  proof -
    have b: "unat ?l div 8 + 2 < 2 ^ 32" using unat_bound [of ?l] by simp
    then have "unat (?l div 8 + 1) = unat ?l div 8 + 1" by (subst unat_add_nowrap) (simp_all add: unat_div)
    then show "unat ?l div 8 \<le> unat ?p" "unat ?p \<le> unat ?l div 8 + 1" "unat ?p + 1 < 2 ^ 32"
      using b by (auto simp: unat_div)
  qed
  then have p: "unat (ucast ?p :: u64) = unat ?p" "unat (ucast (?p + 1) :: u64) = unat ?p + 1"
    by (simp_all add: unat_ucast64 unat_add_nowrap)
  have fits: "\<forall>v \<in> set xs. unat v < 8 * unat (m_len w)" if "unat ?p < unat (m_len w)" for w
  proof
    fix v assume "v \<in> set xs"
    then have "unat v \<le> unat ?l" using sorted_last [OF assms(2)] by (simp add: word_le_nat_alt)
    moreover have "unat ?l < 8 * (unat ?l div 8 + 1)" by simp
    ultimately show "unat v < 8 * unat (m_len w)" using that l(1) by linarith
  qed
  have fin: "\<exists>h' m'. bindE (put_raw_bits h1 m1 x 0 (unat (n_size x))) (\<lambda>h. Inr (h, m1)) = Inr (h', m') \<and> owner h' m' \<and>
      dbs_elems h' m' = dbs_elems h1 m1 \<union> unat ` set xs" if "owner h1 m1" "unat ?p < unat (m_len m1)" for h1 m1
    using put_raw_bits_spec [OF n(1) that(1), of 0 "length xs"] fits [OF that(2)] n(2) by auto
  have unf: "native_putInto_bits x h m = bindE (if m_len m \<le> ucast ?p
        then bindE (uba_resize h m (ucast (?p + 1))) (\<lambda>(_, h, m). Inr (h, m)) else Inr (h, m)) (\<lambda>(h, m).
        bindE (put_raw_bits h m x 0 (unat (n_size x))) (\<lambda>h. Inr (h, m)))"
    using n0 native_last_spec [OF assms(1) False] by (simp add: native_putInto_bits_def Let_def)
  show ?thesis
  proof (cases "m_len m \<le> ucast ?p")
    case False
    then have "unat ?p < unat (m_len m)" using p(1) by (simp add: word_le_nat_alt)
    then show ?thesis using fin [OF assms(3)] False unfolding unf by simp
  next
    case True
    let ?n = "ucast (?p + 1) - m_len m"
    have ns: "\<not> ucast (?p + 1) < m_len m" using True p by (simp add: word_less_nat_alt word_le_nat_alt)
    then have un: "unat ?n = unat ?p + 1 - unat (m_len m)" using p(2) by (subst unat_sub) (simp_all add: not_less)
    then have "unat (m_len m) + unat ?n \<le> max_size" using l(3) True p by (simp add: max_size_def word_le_nat_alt)
    with assms(3) obtain h1 where
      1: "uba_growStorage h m ?n = Inr (True, h1, m\<lparr>m_len := m_len m + ?n\<rparr>)" "owner h1 (m\<lparr>m_len := m_len m + ?n\<rparr>)"
        "view h1 (m\<lparr>m_len := m_len m + ?n\<rparr>) = view h m @ replicate (unat ?n) 0" "unat (m_len m + ?n) = unat (m_len m) + unat ?n"
      by (rule grow_owner [where n = ?n])
    let ?m = "m\<lparr>m_len := m_len m + ?n\<rparr>"
    have "uba_inv h m" using assms(3) by (simp add: owner_def)
    then have e: "dbs_elems h1 ?m = dbs_elems h m"
      using bitb_append_zeros [of _ "view h m" "unat ?n"] 1(4) unfolding dbs_elems_def 1(3) by auto
    have "unat ?p < unat (m_len ?m)" using 1(4) un True p by (simp add: word_le_nat_alt)
    moreover have "uba_resize h m (ucast (?p + 1)) = Inr (True, h1, ?m)"
      using 1(1) unfolding uba_resize_def by (simp only: if_not_P [OF ns])
    ultimately show ?thesis using fin [OF 1(2)] True e unfolding unf by simp
  qed
qed

lemma nit_collect_spec:
  assumes "native_ids x xs"
  shows "i \<le> length xs \<Longrightarrow> length xs - i < n \<Longrightarrow> nit_collect n x (4 * i) (nit_cend x) = Some (Inr (drop i xs))"
proof (induction n arbitrary: i)
  case (Suc n)
  have e: "nit_cend x = 4 * length xs" "n_mem x = ids_bytes xs" using assms by (simp_all add: nit_cend_def native_ids_def)
  show ?case
  proof (cases "i = length xs")
    case False
    then have i: "i < length xs" using Suc.prems(1) by simp
    have "nit_next (4 * i) = 4 * (i + 1)" by (simp add: nit_next_def)
    then show ?thesis using Suc.IH [of "i + 1"] Suc.prems i e load32_ids [OF i]
      by (simp add: nit_get_def Cons_nth_drop_Suc)
  qed (simp add: e)
qed simp

section \<open>Properties\<close>

text \<open>A list of at most \<open>2^32 - 1\<close> ids written as a native index is read back: the index at the position where it was
  written has these ids, from \<open>at\<close>, \<open>first\<close>, \<open>last\<close>, the iterator and the array output, reports the number of bytes
  written, and search finds exactly the ids of an increasing list.\<close>

theorem native_roundtrip:
  assumes "pushable h dest (4 + 4 * length xs)" "length xs < 2 ^ 32" "increasing xs"
  shows "\<exists>h' d' x. native_create xs h dest = Inr (h', d') \<and> native_new h' (uba_sub d' (m_putPtr dest)) = Inr x \<and>
    native_list x = xs \<and> (\<forall>i. native_at x i = Inr (if unat i < length xs then xs ! unat i else 0)) \<and>
    (xs \<noteq> [] \<longrightarrow> native_first x = Inr (hd xs) \<and> native_last x = Inr (last xs)) \<and>
    nit_collect (length xs + 1) x (nit_cbegin x) (nit_cend x) = Some (Inr xs) \<and>
    native_putInto_array x = Inr (concat (map (le_bytes 4) xs)) \<and>
    native_getSizeInBytes x = m_putPtr d' - m_putPtr dest \<and>
    (\<exists>r. index_find (native_source x) v = Inr r \<and> (if v \<in> set xs then unat r < length xs \<and> xs ! unat r = v else r = - 1))"
proof -
  let ?n = "of_nat (length xs) :: u32"
  let ?c = "p_u32 ?n @ ids_bytes xs"
  have n: "unat ?n = length xs" using assms(2) by (intro unat_of_nat_small) simp
  have lc: "length ?c = 4 + 4 * length xs" by (simp add: p_u32_def)
  have "pushable h dest (length (p_u32 ?n) + 4 * length xs)" using assms(1) by (simp add: p_u32_def)
  moreover from this have "pushable h dest (length (p_u32 ?n))" by (simp add: pushable_def)
  from SUint32.sput_ok [OF this] obtain h1 d1 where
    1: "stream_putUint32 h dest ?n = Inr (h1, d1)" "appended h dest (p_u32 ?n) h1 d1" by blast
  ultimately have pu: "pushable h1 d1 (length (ids_bytes xs))" using appended_pushable by simp
  from stream_putData_ok [OF pu] obtain h' d' where
    2: "stream_putData h1 d1 (ids_bytes xs) = Inr (h', d')" "appended h1 d1 (ids_bytes xs) h' d'" by blast
  have a: "appended h dest ?c h' d'" by (rule appended_trans [OF assms(1) 1(2) 2(2)])
  have cr: "native_create xs h dest = Inr (h', d')"
    using 1(1) 2(1) assms(2) by (simp add: native_create_def narrow_check_u_def ids_bytes_def)
  have i: "uba_inv h' d'" "view h' d' = blit (unat (m_putPtr dest)) ?c (view h dest)"
      "unat (m_putPtr d') = unat (m_putPtr dest) + length ?c" "unat (m_putPtr d') \<le> unat (m_len d')"
    using a by (simp_all add: appended_def word_le_nat_alt)
  have pl: "unat (m_putPtr dest) \<le> length (view h dest)" using assms(1) by (simp add: pushable_def word_le_nat_alt)
  have "unat (m_putPtr dest) \<le> unat (m_len d')" using i(3,4) by simp
  note s = sub_spec [OF i(1) this]
  have "view h' (uba_sub d' (m_putPtr dest)) = p_u32 ?n @ ids_bytes xs @ drop (unat (m_putPtr dest) + length ?c) (view h dest)"
    unfolding s(2) i(2) using pl by (simp add: blit_def)
  from native_new_spec [OF s(1) this n] obtain x where
    x: "native_new h' (uba_sub d' (m_putPtr dest)) = Inr x" "native_ids x xs" by blast
  have m: "n_mem x = ids_bytes xs" "unat (n_size x) = length xs" using x(2) by (simp_all add: native_ids_def)
  have at: "native_at x i = Inr (if unat i < length xs then xs ! unat i else 0)" for i
    using native_uncheckedAt_spec [OF x(2), of i] m(2) by (simp add: native_at_def word_less_nat_alt)
  have "m_putPtr d' - m_putPtr dest = of_nat (length ?c)" using of_nat_eqI [OF i(3)] by simp
  then have "native_getSizeInBytes x = m_putPtr d' - m_putPtr dest" by (simp add: native_getSizeInBytes_def m(1) p_u32_def)
  moreover have "nit_collect (length xs + 1) x (nit_cbegin x) (nit_cend x) = Some (Inr xs)"
    using nit_collect_spec [OF x(2), of 0 "length xs + 1"] by (simp add: nit_cbegin_def)
  moreover have "native_putInto_array x = Inr (concat (map (le_bytes 4) xs))"
    using chunk_whole [of "ids_bytes xs"] by (simp add: native_putInto_array_def m) (simp add: ids_bytes_def)
  moreover have "xs \<noteq> [] \<longrightarrow> native_first x = Inr (hd xs) \<and> native_last x = Inr (last xs)"
    using at [of 0] native_last_spec [OF x(2)] by (auto simp: native_first_def hd_conv_nth)
  moreover have "sorted xs" using assms(3) by (auto intro: strict_sorted_imp_sorted)
  then have "\<exists>r. index_find (native_source x) v = Inr r \<and> (if v \<in> set xs then unat r < length xs \<and> xs ! unat r = v else r = - 1)"
    using nat_idx.find_ok [OF native_ids_list(1) [OF x(2)], of v] unfolding native_ids_list(2) [OF x(2)] by blast
  ultimately show ?thesis using cr x(1) at native_ids_list(2) [OF x(2)] by blast
qed

theorem native_roundtrip_witness:
  "\<exists>h' d' x. native_create [3, 8, 300] (\<lambda>_. \<lparr>kind = VectorB, mem = [9]\<rparr>) ((uba_of_priv 0 0 1)\<lparr>m_putPtr := 1\<rparr>) = Inr (h', d') \<and>
    native_new h' (uba_sub d' 1) = Inr x \<and> native_list x = [3, 8, 300]"
proof -
  have p: "pushable (\<lambda>_. \<lparr>kind = VectorB, mem = [9]\<rparr>) ((uba_of_priv 0 0 1)\<lparr>m_putPtr := 1\<rparr>) (4 + 4 * length [3, 8, 300 :: u32])"
    by (simp add: pushable_def example_simps)
  show ?thesis using native_roundtrip [OF p, of 8] by auto
qed

text \<open>The pointer algorithm for two native indices and the generic executer compute the same ids, for every operation: the
  merge, which is the increasing list of the intersection, union, difference or symmetric difference. An
  empty result is the empty index.\<close>

theorem native_operations_agree:
  assumes "native_ids x xs" "native_ids y ys" "increasing xs" "increasing ys" "length xs + length ys < 2 ^ 32 - 1"
    and "t \<in> {IntersectOp, UniteOp, DifferenceOp, SymmetricDifferenceOp}"
  shows "(\<exists>r. native_op t x (NativeOp y) = Inr r \<and> result_ids r (merge_op t xs ys)) \<and>
    (\<exists>r. native_op t x (OtherOp (native_source y)) = Inr r \<and> result_ids r (merge_op t xs ys)) \<and>
    increasing (merge_op t xs ys) \<and> set (merge_op t xs ys) = op_set t (set xs) (set ys)"
proof -
  have sz: "unat (n_size x) = length xs" "unat (n_size y) = length ys" using assms(1,2) by (simp_all add: native_ids_def)
  have "unat (n_size x + n_size y) = length xs + length ys" using assms(5) sz by (subst unat_add_nowrap) simp_all
  moreover have "unat (min (n_size x) (n_size y)) = min (length xs) (length ys)" using sz by (simp add: min_def word_le_nat_alt)
  ultimately have l: "length (merge_op t xs ys) \<le> unat (maxSize t (n_size x) (n_size y))"
    using assms(6) sz length_merge_intersect [of xs ys] length_merge_difference [of xs ys] length_merge_op [of t xs ys] by auto
  have b: "length (merge_op t xs ys) < 2 ^ 32 - 1" using length_merge_op [of t xs ys] assms(5) by simp
  have 1: "\<exists>r. native_op t x (NativeOp y) = Inr r \<and> result_ids r (merge_op t xs ys)"
    using native_genericSetOp_spec [OF assms(1,2) l b] by (simp add: native_op_def)
  have 2: "\<exists>r. native_op t x (OtherOp (native_source y)) = Inr r \<and> result_ids r (merge_op t xs ys)"
    using execute_spec(1) [OF native_source_ids [OF assms(1)] native_source_ids [OF assms(2)], of t] l
    by (auto simp: native_op_def do_op_def native_source_def result_ids_def)
  have "coherent t" using assms(6) by auto
  then show ?thesis using 1 2 merge_op_set [OF _ assms(3,4)] by blast
qed

theorem native_operations_agree_witness:
  "\<exists>r. native_op UniteOp \<lparr>n_size = 2, n_mem = ids_bytes [4, 7]\<rparr> (NativeOp \<lparr>n_size = 1, n_mem = ids_bytes [5]\<rparr>) = Inr r \<and> result_ids r [4, 5, 7]"
  using native_operations_agree [of "\<lparr>n_size = 2, n_mem = ids_bytes [4, 7]\<rparr>" "[4, 7]" "\<lparr>n_size = 1, n_mem = ids_bytes [5]\<rparr>" "[5]" UniteOp]
  by (simp add: native_ids_def op_defs)

text \<open>Putting a native index with increasing ids into a bit set adds exactly its ids; the bit set grows when it is too small, and no
  byte outside it is touched.\<close>

theorem native_putInto_adds_ids:
  assumes "native_ids x xs" "increasing xs" "owner h m"
  shows "\<exists>h' m'. native_putInto_bits x h m = Inr (h', m') \<and> owner h' m' \<and> dbs_elems h' m' = dbs_elems h m \<union> unat ` set xs"
  by (rule native_putInto_bits_spec [OF assms])

theorem native_putInto_adds_ids_witness:
  "\<exists>h' m'. native_putInto_bits \<lparr>n_size = 2, n_mem = ids_bytes [4, 70]\<rparr> (\<lambda>_. \<lparr>kind = VectorB, mem = [9]\<rparr>) (uba_of_priv 0 0 1) = Inr (h', m') \<and>
    owner h' m'"
  using native_putInto_adds_ids [of "\<lparr>n_size = 2, n_mem = ids_bytes [4, 70]\<rparr>" "[4, 70]" "\<lambda>_. \<lparr>kind = VectorB, mem = [9]\<rparr>" "uba_of_priv 0 0 1"]
  by (auto simp: native_ids_def example_simps)

end
