(* ===== verification/ItemIndexDE.thy ===== *)
theory ItemIndexDE
  imports ItemIndexNative
begin

text \<open>
  \<open>ItemIndexPrivateDE\<close> (\<open>include/sserialize/containers/ItemIndexPrivates/ItemIndexPrivateDE.h\<close> and \<open>.cpp\<close>): an index whose
  data are the differences of consecutive ids in the variable length code. \<open>at\<close> decodes on demand into a cache,
  so it changes the members \<open>m_dataOffset\<close>, \<open>m_curId\<close>, \<open>m_cacheOffset\<close> and the bytes of \<open>m_cache\<close>; the set
  operations stream both indices and write through \<open>ItemIndexPrivateDECreator\<close>. The arguments \<open>r\<close>, \<open>r1\<close> and \<open>r2\<close> are
  the addresses of the storage that \<open>createCache\<close> obtains.
\<close>

section \<open>The index\<close>

record de =
  de_data :: uba
  de_size :: u32
  de_dataOffset :: u32
  de_curId :: u32
  de_cache :: uba
  de_cacheOffset :: u32

definition de_new :: "heap \<Rightarrow> nat \<Rightarrow> uba \<Rightarrow> (heap \<times> de) res" where
  "de_new h r data =
     bindE (uba_getUint32 h data 0) (\<lambda>n.
     bindE (uba_getUint32 h data 4) (\<lambda>sz.
     bindE (createCache h r (ucast (sz * 4))) (\<lambda>(h, cache).
       let x = \<lparr>de_data = uba_sub_len data 8 (ucast n), de_size = sz, de_dataOffset = 0, de_curId = 0,
                de_cache = cache, de_cacheOffset = 0\<rparr>
       in if ucast (de_size x) > m_len (de_data x) then Inl CorruptDataException else Inr (h, x))))"

text \<open>The loop of \<open>at\<close>; the first argument counts the rounds until the cache holds the position.\<close>

fun de_fill :: "nat \<Rightarrow> heap \<Rightarrow> de \<Rightarrow> (heap \<times> de) res" where
  "de_fill 0 h x = Inr (h, x)"
| "de_fill (Suc n) h x =
     bindE (uba_getVlPackedUint32 h (de_data x) (ucast (de_dataOffset x))) (\<lambda>(v, len).
       let curId = de_curId x + v
       in bindE (uba_putUint32 h (de_cache x) (ucast (de_cacheOffset x * 4)) curId) (\<lambda>h.
            de_fill n h (x\<lparr>de_curId := curId, de_dataOffset := de_dataOffset x + word_of_int len,
              de_cacheOffset := de_cacheOffset x + 1\<rparr>)))"

definition de_at :: "heap \<Rightarrow> de \<Rightarrow> u32 \<Rightarrow> (u32 \<times> heap \<times> de) res" where
  "de_at h x pos =
     (if de_size x = 0 \<or> de_size x \<le> pos then Inr (0, h, x)
      else bindE (de_fill (unat (pos + 1) - unat (de_cacheOffset x)) h x) (\<lambda>(h, x).
           bindE (uba_getUint32 h (de_cache x) (ucast (pos * 4))) (\<lambda>v. Inr (v, h, x))))"

definition de_first :: "heap \<Rightarrow> de \<Rightarrow> (u32 \<times> heap \<times> de) res" where
  "de_first h x = (if de_size x \<noteq> 0 then de_at h x 0 else Inr (0, h, x))"

definition de_last :: "heap \<Rightarrow> de \<Rightarrow> (u32 \<times> heap \<times> de) res" where
  "de_last h x = (if de_size x \<noteq> 0 then de_at h x (de_size x - 1) else Inr (0, h, x))"

definition de_bpn :: "de \<Rightarrow> u8 res" where
  "de_bpn x = (if de_size x = 0 then Inl UndefinedBehaviour else Inr (ucast (m_len (de_data x) * 8 div ucast (de_size x))))"

definition de_getSizeInBytes :: "de \<Rightarrow> u64" where
  "de_getSizeInBytes x = m_len (de_data x) + 8"

fun de_put_loop :: "nat \<Rightarrow> heap \<Rightarrow> uba \<Rightarrow> u32 \<Rightarrow> uba \<Rightarrow> (heap \<times> uba) res" where
  "de_put_loop 0 h tmpData prev m = Inr (h, m)"
| "de_put_loop (Suc n) h tmpData prev m =
     bindE (stream_getVlPackedUint32 h tmpData) (\<lambda>(v, tmpData).
       let prev = prev + v
       in bindE (dbs_set h m (ucast prev)) (\<lambda>(h, m). de_put_loop n h tmpData prev m))"

definition de_putInto_bits :: "heap \<Rightarrow> de \<Rightarrow> uba \<Rightarrow> (heap \<times> uba) res" where
  "de_putInto_bits h x m = de_put_loop (unat (de_size x)) h (de_data x) 0 m"

fun de_ids_loop :: "nat \<Rightarrow> heap \<Rightarrow> uba \<Rightarrow> u32 \<Rightarrow> u32 list res" where
  "de_ids_loop 0 h tmpData prev = Inr []"
| "de_ids_loop (Suc n) h tmpData prev =
     bindE (stream_getVlPackedUint32 h tmpData) (\<lambda>(v, tmpData).
       let prev = prev + v in bindE (de_ids_loop n h tmpData prev) (\<lambda>vs. Inr (prev # vs)))"

definition de_putInto_array :: "heap \<Rightarrow> de \<Rightarrow> u32 list res" where
  "de_putInto_array h x = de_ids_loop (unat (de_size x)) h (de_data x) 0"

text \<open>
  For search and the generic operations: \<open>size\<close> and \<open>at\<close>. Every call starts from the same cache;
  that the value does not depend on it is \<open>de_at_spec\<close>.
\<close>

definition de_source :: "heap \<times> de \<Rightarrow> id_source" where
  "de_source = (\<lambda>(h, x). \<lparr>src_size = de_size x, src_at = (\<lambda>pos. bindE (de_at h x pos) (\<lambda>(v, _, _). Inr v))\<rparr>)"

definition de_find :: "heap \<Rightarrow> de \<Rightarrow> u32 \<Rightarrow> u32 res" where
  "de_find h x v = index_find (de_source (h, x)) v"

section \<open>Creation\<close>

fun de_create_rest :: "heap \<Rightarrow> uba \<Rightarrow> u32 \<Rightarrow> u32 list \<Rightarrow> (heap \<times> uba) res" where
  "de_create_rest h dest prevDest [] = Inr (h, dest)"
| "de_create_rest h dest prevDest (v # vs) =
     bindE (stream_putVlPackedUint32 h dest (v - prevDest)) (\<lambda>(_, h, dest). de_create_rest h dest v vs)"

definition de_create :: "u32 list \<Rightarrow> heap \<Rightarrow> uba \<Rightarrow> (heap \<times> uba) res" where
  "de_create src h dest =
     (let beginning = m_putPtr dest
      in bindE (stream_putUint32 h dest 0) (\<lambda>(h, dest).
         bindE (narrow_check_u (int (length src))) (\<lambda>n.
         bindE (stream_putUint32 h dest n) (\<lambda>(h, dest).
           if length src = 0 then Inr (h, dest)
           else if length src = 1 then
             bindE (stream_putVlPackedUint32 h dest (hd src)) (\<lambda>(_, h, dest).
             bindE (narrow_check_u (uint (m_putPtr dest - (beginning + 8)))) (\<lambda>s.
             bindE (uba_putUint32 h dest beginning s) (\<lambda>h. Inr (h, dest))))
           else
             bindE (stream_putVlPackedUint32 h dest (hd src)) (\<lambda>(_, h, dest).
             bindE (de_create_rest h dest (hd src) (tl src)) (\<lambda>(h, dest).
               let dataSize = m_putPtr dest - beginning - 8
               in bindE (narrow_check_u (uint dataSize)) (\<lambda>s.
                  bindE (uba_putUint32 h dest beginning s) (\<lambda>h. Inr (h, dest)))))))))"

record de_creator =
  dc_data :: uba
  dc_beginning :: u64
  dc_prev :: u32
  dc_count :: u32

definition dc_new :: "heap \<Rightarrow> uba \<Rightarrow> (heap \<times> de_creator) res" where
  "dc_new h data =
     (let beginning = m_putPtr data
      in bindE (stream_putUint32 h data 0) (\<lambda>(h, data).
         bindE (stream_putUint32 h data 0) (\<lambda>(h, data).
           Inr (h, \<lparr>dc_data = data, dc_beginning = beginning, dc_prev = 0, dc_count = 0\<rparr>))))"

definition dc_push_back :: "heap \<Rightarrow> de_creator \<Rightarrow> u32 \<Rightarrow> (heap \<times> de_creator) res" where
  "dc_push_back h c v =
     bindE (stream_putVlPackedUint32 h (dc_data c) (v - dc_prev c)) (\<lambda>(_, h, data).
       Inr (h, c\<lparr>dc_data := data, dc_prev := v, dc_count := dc_count c + 1\<rparr>))"

definition dc_flush :: "heap \<Rightarrow> de_creator \<Rightarrow> heap res" where
  "dc_flush h c =
     bindE (uba_putUint32 h (dc_data c) (dc_beginning c) (ucast (m_putPtr (dc_data c) - (dc_beginning c + 8)))) (\<lambda>h.
       uba_putUint32 h (dc_data c) (dc_beginning c + 4) (dc_count c))"

definition dc_flushWithData :: "heap \<Rightarrow> de_creator \<Rightarrow> uba \<Rightarrow> u32 \<Rightarrow> (heap \<times> de_creator) res" where
  "dc_flushWithData h c src itemcount =
     bindE (stream_putData_adapter h (dc_data c) src) (\<lambda>(h, data).
       let c = c\<lparr>dc_data := data, dc_count := dc_count c + itemcount\<rparr>
       in bindE (dc_flush h c) (\<lambda>h. Inr (h, c)))"

definition dc_getPrivateIndex :: "heap \<Rightarrow> nat \<Rightarrow> de_creator \<Rightarrow> (heap \<times> de) res" where
  "dc_getPrivateIndex h r c = de_new h r (uba_sub (dc_data c) (dc_beginning c))"

section \<open>The set operations\<close>

text \<open>One operand: its reader, the number of ids before the current one, and the current id.\<close>

record de_reader =
  rd_data :: uba
  rd_it :: u32
  rd_id :: u32

text \<open>\<open>IndexIt++; if (IndexIt < Size) ItemId += Data.getVlPackedUint32();\<close>\<close>

definition reader_step :: "heap \<Rightarrow> u32 \<Rightarrow> de_reader \<Rightarrow> de_reader res" where
  "reader_step h sz a =
     (let it = rd_it a + 1
      in if it < sz
         then bindE (stream_getVlPackedUint32 h (rd_data a)) (\<lambda>(v, data). Inr \<lparr>rd_data = data, rd_it = it, rd_id = rd_id a + v\<rparr>)
         else Inr (a\<lparr>rd_it := it\<rparr>))"

definition dc_push_if :: "bool \<Rightarrow> heap \<Rightarrow> de_creator \<Rightarrow> u32 \<Rightarrow> (heap \<times> de_creator) res" where
  "dc_push_if p h c v = (if p then dc_push_back h c v else Inr (h, c))"

lemma reader_step_it: "reader_step h sz a = Inr b \<Longrightarrow> rd_it b = rd_it a + 1"
  by (auto simp: reader_step_def Let_def split: if_splits)

lemma bindE_cong [fundef_cong]: "m = m' \<Longrightarrow> (\<And>x. m' = Inr x \<Longrightarrow> f x = g x) \<Longrightarrow> bindE m f = bindE m' g"
  by (cases m') simp_all

text \<open>The \<open>while\<close> loop; a round moves at least one of the two positions.\<close>

function de_op_loop :: "set_op \<Rightarrow> u32 \<Rightarrow> u32 \<Rightarrow> heap \<Rightarrow> de_creator \<Rightarrow> de_reader \<Rightarrow> de_reader \<Rightarrow>
    (heap \<times> de_creator \<times> de_reader \<times> de_reader) res" where
  "de_op_loop t aSize bSize h c a b =
     (if rd_it a < aSize \<and> rd_it b < bSize then
        if rd_id a = rd_id b then
          bindE (dc_push_if (pushEqual t) h c (rd_id a)) (\<lambda>(h, c).
          bindE (reader_step h aSize a) (\<lambda>a. bindE (reader_step h bSize b) (\<lambda>b. de_op_loop t aSize bSize h c a b)))
        else if rd_id a < rd_id b then
          bindE (dc_push_if (pushFirstSmaller t) h c (rd_id a)) (\<lambda>(h, c).
          bindE (reader_step h aSize a) (\<lambda>a. de_op_loop t aSize bSize h c a b))
        else
          bindE (dc_push_if (pushSecondSmaller t) h c (rd_id b)) (\<lambda>(h, c).
          bindE (reader_step h bSize b) (\<lambda>b. de_op_loop t aSize bSize h c a b))
      else Inr (h, c, a, b))"
  by pat_completeness auto
termination
  by (relation "measure (\<lambda>(t, aSize, bSize, h, c, a, b). unat (aSize - rd_it a) + unat (bSize - rd_it b))")
    (auto dest!: reader_step_it simp: next_less intro!: add_strict_mono next_less)

declare de_op_loop.simps [simp del]

definition de_op_rest :: "set_op \<Rightarrow> u32 \<Rightarrow> u32 \<Rightarrow> heap \<times> de_creator \<times> de_reader \<times> de_reader \<Rightarrow> (heap \<times> de_creator) res" where
  "de_op_rest t aSize bSize = (\<lambda>(h, c, a, b).
     if pushFirstRemainder t \<and> rd_it a < aSize then
       bindE (dc_push_back h c (rd_id a)) (\<lambda>(h, c). dc_flushWithData h c (uba_shrinkToGetPtr (rd_data a)) (aSize - (rd_it a + 1)))
     else if pushSecondRemainder t \<and> rd_it b < bSize then
       bindE (dc_push_back h c (rd_id b)) (\<lambda>(h, c). dc_flushWithData h c (uba_shrinkToGetPtr (rd_data b)) (bSize - (rd_it b + 1)))
     else bindE (dc_flush h c) (\<lambda>h. Inr (h, c)))"

definition de_genericOp :: "set_op \<Rightarrow> heap \<Rightarrow> nat \<Rightarrow> nat \<Rightarrow> de \<Rightarrow> de \<Rightarrow> (heap \<times> de) res" where
  "de_genericOp t h r1 r2 x y =
     bindE (createCache h r1 8) (\<lambda>(h, dest).
     bindE (dc_new h dest) (\<lambda>(h, c).
     bindE (stream_getVlPackedUint32 h (de_data x)) (\<lambda>(aId, aData).
     bindE (stream_getVlPackedUint32 h (de_data y)) (\<lambda>(bId, bData).
     bindE (bindE (de_op_loop t (de_size x) (de_size y) h c \<lparr>rd_data = aData, rd_it = 0, rd_id = aId\<rparr>
                     \<lparr>rd_data = bData, rd_it = 0, rd_id = bId\<rparr>)
              (de_op_rest t (de_size x) (de_size y))) (\<lambda>(h, c).
       dc_getPrivateIndex h r2 c)))))"

text \<open>\<open>intersect\<close>, \<open>unite\<close>, \<open>difference\<close> and \<open>symmetricDifference\<close>: the streaming algorithm for an operand of the same kind,
  otherwise the generic operation.\<close>

datatype de_operand = DeOperand de | OtherOperand id_source

datatype de_result = DeResult heap de | GenericResult result_index

definition de_op :: "set_op \<Rightarrow> heap \<Rightarrow> nat \<Rightarrow> nat \<Rightarrow> de \<Rightarrow> de_operand \<Rightarrow> de_result res" where
  "de_op t h r1 r2 x other =
     (case other of
        DeOperand y \<Rightarrow> bindE (de_genericOp t h r1 r2 x y) (\<lambda>(h, z). Inr (DeResult h z))
      | OtherOperand s \<Rightarrow> bindE (do_op t (de_source (h, x)) (Some s)) (\<lambda>r. Inr (GenericResult r)))"

section \<open>From a bit set\<close>

text \<open>The creator is any one with a \<open>push_back\<close>: the function is the same in the run length encoded index.\<close>

fun fbs_bits :: "(heap \<Rightarrow> 'c \<Rightarrow> u32 \<Rightarrow> (heap \<times> 'c) res) \<Rightarrow> nat \<Rightarrow> u32 \<Rightarrow> u32 \<Rightarrow> u8 \<Rightarrow> heap \<Rightarrow> 'c \<Rightarrow> (heap \<times> 'c) res" where
  "fbs_bits push 0 curId i data h c = Inr (h, c)"
| "fbs_bits push (Suc n) curId i data h c =
     (if data \<noteq> 0
      then bindE (if data AND 1 \<noteq> 0 then push h c (curId + i) else Inr (h, c)) (\<lambda>(h, c).
             fbs_bits push n curId (i + 1) (drop_bit 1 data) h c)
      else Inr (h, c))"

function fbs_bytes :: "(heap \<Rightarrow> 'c \<Rightarrow> u32 \<Rightarrow> (heap \<times> 'c) res) \<Rightarrow> u32 \<Rightarrow> uba \<Rightarrow> u32 \<Rightarrow> u32 \<Rightarrow> heap \<Rightarrow> 'c \<Rightarrow> (heap \<times> 'c) res" where
  "fbs_bytes push myDataSize bits dataOffset curId h c =
     (if dataOffset < myDataSize
      then bindE (uba_at h bits (ucast dataOffset)) (\<lambda>data.
           bindE (fbs_bits push 8 curId 0 data h c) (\<lambda>(h, c).
             fbs_bytes push myDataSize bits (dataOffset + 1) (curId + 8) h c))
      else Inr (h, c))"
  by pat_completeness auto
termination
  by (relation "measure (\<lambda>(push, myDataSize, bits, dataOffset, curId, h, c). unat (myDataSize - dataOffset))") (use next_less in auto)

declare fbs_bytes.simps [simp del]

definition de_fromBitSet :: "heap \<Rightarrow> nat \<Rightarrow> nat \<Rightarrow> uba \<Rightarrow> (heap \<times> de) res" where
  "de_fromBitSet h r1 r2 bits =
     bindE (createCache h r1 (m_len bits)) (\<lambda>(h, cacheData).
     bindE (dc_new h cacheData) (\<lambda>(h, c).
     bindE (narrow_check_u (uint (m_len bits))) (\<lambda>myDataSize.
     bindE (fbs_bytes dc_push_back myDataSize bits 0 0 h c) (\<lambda>(h, c).
     bindE (dc_flush h c) (\<lambda>h. dc_getPrivateIndex h r2 c)))))"

end
