(* ===== verification/ItemIndexDEProps.thy ===== *)
theory ItemIndexDEProps
  imports ItemIndexDE
begin

text \<open>
  The delta encoded index stands for a list of ids, whatever part of it has been decoded into the
  cache: \<open>de_inv\<close> is kept by \<open>at\<close>, and creation, the set operations and the conversion from a bit set
  establish it.
\<close>

section \<open>The code of a list of ids\<close>

fun deltas :: "u32 \<Rightarrow> u32 list \<Rightarrow> u32 list" where
  "deltas p [] = []"
| "deltas p (x # xs) = (x - p) # deltas x xs"

definition de_code :: "u32 \<Rightarrow> u32 list \<Rightarrow> bytes" where
  "de_code p xs = concat (map vl_bytes (deltas p xs))"

lemma de_code_simps [simp]: "de_code p [] = []" "de_code p (x # xs) = vl_bytes (x - p) @ de_code x xs"
  by (simp_all add: de_code_def)

lemma de_code_append: "de_code p (xs @ ys) = de_code p xs @ de_code (last (p # xs)) ys"
  by (induction xs arbitrary: p) simp_all

lemma length_vl_bytes_pos: "0 < length (vl_bytes (v :: u32))"
  using vu32.size_pos [of v] by (simp add: vu32.length_code)

lemma length_de_code: "length xs \<le> length (de_code p xs)"
proof (induction xs arbitrary: p)
  case (Cons x xs)
  from add_mono [OF Suc_leI [OF length_vl_bytes_pos [of "x - p"]] Cons [of x]] show ?case by simp
qed simp

section \<open>Reading\<close>

text \<open>The reader \<open>u\<close> has the ids \<open>xs\<close> before it, behind the id \<open>p\<close>, and nothing else.\<close>

definition reader :: "heap \<Rightarrow> uba \<Rightarrow> u32 \<Rightarrow> u32 list \<Rightarrow> bool" where
  "reader h u p xs \<longleftrightarrow> uba_inv h u \<and> unat (m_getPtr u) \<le> unat (m_len u) \<and> drop (unat (m_getPtr u)) (view h u) = de_code p xs"

lemma view_frame: "storage h' u = storage h u \<Longrightarrow> view h' u = view h u" "storage h' u = storage h u \<Longrightarrow> uba_inv h' u = uba_inv h u"
  by (simp_all add: view_def uba_inv_def)

lemma reader_frame: "storage h' u = storage h u \<Longrightarrow> reader h' u p xs = reader h u p xs"
  using view_frame [of h' u h] by (simp add: reader_def)

text \<open>The bytes \<open>bs\<close>, and nothing else, are still to be read.\<close>

definition reads :: "heap \<Rightarrow> uba \<Rightarrow> bytes \<Rightarrow> bool" where
  "reads h u bs \<longleftrightarrow> uba_inv h u \<and> unat (m_getPtr u) \<le> unat (m_len u) \<and> drop (unat (m_getPtr u)) (view h u) = bs"

lemma reads_frame: "storage h' u = storage h u \<Longrightarrow> reads h' u bs = reads h u bs"
  using view_frame [of h' u h] by (simp add: reads_def)

lemma reads_next:
  assumes "reads h u (vl_bytes (v :: u32) @ bs)"
  obtains u' where "stream_getVlPackedUint32 h u = Inr (v, u')" "reads h u' bs" "m_priv u' = m_priv u"
proof -
  let ?v = "vl_bytes v" and ?g = "unat (m_getPtr u)"
  let ?u = "advanced u (length ?v)"
  have r: "uba_inv h u" "?g \<le> unat (m_len u)" "drop ?g (view h u) = ?v @ bs"
    using assms by (simp_all add: reads_def)
  have "length (drop ?g (view h u)) = unat (m_len u) - ?g" using r(1) by simp
  then have l: "?g + length ?v + length bs = unat (m_len u)" using r(2,3) by simp
  have "at_get h u ?v" using r l by (simp add: at_get_def chunk_def)
  from stream_getVlPackedUint32_ok [OF this] have 1: "stream_getVlPackedUint32 h u = Inr (v, ?u)" .
  have "length ?v < 2 ^ 64" using l unat_bound64 [of "m_len u"] by simp
  then have "unat (of_nat (length ?v) :: u64) = length ?v" by (intro unat_of_nat_small) simp
  then have g: "unat (m_getPtr ?u) = ?g + length ?v"
    using l unat_bound64 [of "m_len u"] by (simp add: advanced_def unat_add_nowrap)
  have "drop (?g + length ?v) (view h u) = drop (length ?v) (drop ?g (view h u))" by (simp add: add.commute)
  then have "drop (?g + length ?v) (view h u) = bs" unfolding r(3) by simp
  then have "reads h ?u bs" using g l r(1) by (simp add: reads_def advanced_def)
  then show ?thesis using that 1 by (simp add: advanced_def)
qed

lemma reader_next:
  assumes "reader h u p (x # xs)"
  obtains u' where "stream_getVlPackedUint32 h u = Inr (x - p, u')" "reader h u' x xs" "m_priv u' = m_priv u"
proof -
  have "reads h u (vl_bytes (x - p) @ de_code x xs)" using assms by (simp add: reader_def reads_def)
  then obtain u' where "stream_getVlPackedUint32 h u = Inr (x - p, u')" "reads h u' (de_code x xs)" "m_priv u' = m_priv u"
    by (rule reads_next)
  then show ?thesis using that by (simp add: reader_def reads_def)
qed

lemma uba_getVl_ptr: "uba_getVlPackedUint32 h (u\<lparr>m_getPtr := g\<rparr>) p = uba_getVlPackedUint32 h u p"
  by (simp add: uba_getVlPackedUint32_def vl_access_at_def range_check_def storage_def)

lemma getVl_at:
  assumes "uba_inv h u" "unat p \<le> unat (m_len u)" "drop (unat p) (view h u) = vl_bytes (v :: u32) @ bs"
  shows "uba_getVlPackedUint32 h u p = Inr (v, int (length (vl_bytes v)))" "unat p + length (vl_bytes v) \<le> unat (m_len u)"
    "unat p < unat (m_len u)"
proof -
  let ?u = "u\<lparr>m_getPtr := p\<rparr>"
  have "length (drop (unat p) (view h u)) = unat (m_len u) - unat p" using assms(1) by simp
  then have l: "unat p + length (vl_bytes v) + length bs = unat (m_len u)" using assms(2,3) by simp
  then show "unat p + length (vl_bytes v) \<le> unat (m_len u)" by simp
  then show "unat p < unat (m_len u)" using length_vl_bytes_pos [of v] by linarith
  have "at_get h ?u (vl_bytes v)" using assms l by (simp add: at_get_def chunk_def)
  from VlUint32.get_at_ok [OF this] show "uba_getVlPackedUint32 h u p = Inr (v, int (length (vl_bytes v)))"
    using uba_getVl_ptr [of h p u p] by (simp add: uba_getVlPackedUint32_def vu32.length_code)
qed

text \<open>The static part of the invariant.\<close>

definition de_data_inv :: "heap \<Rightarrow> de \<Rightarrow> u32 list \<Rightarrow> bool" where
  "de_data_inv h x xs \<longleftrightarrow> unat (de_size x) = length xs \<and> length xs < 2 ^ 30 \<and> length (de_code 0 xs) < 2 ^ 32 \<and>
     reader h (de_data x) 0 xs \<and> m_getPtr (de_data x) = 0"

definition de_cache_inv :: "heap \<Rightarrow> de \<Rightarrow> u32 list \<Rightarrow> bool" where
  "de_cache_inv h x xs \<longleftrightarrow> uba_inv h (de_cache x) \<and> m_priv (de_cache x) \<noteq> m_priv (de_data x) \<and>
     4 * length xs \<le> unat (m_len (de_cache x)) \<and> unat (de_cacheOffset x) \<le> length xs \<and>
     de_curId x = last (0 # take (unat (de_cacheOffset x)) xs) \<and>
     unat (de_dataOffset x) = length (de_code 0 (take (unat (de_cacheOffset x)) xs)) \<and>
     take (4 * unat (de_cacheOffset x)) (view h (de_cache x)) = ids_bytes (take (unat (de_cacheOffset x)) xs)"

definition de_inv :: "heap \<Rightarrow> de \<Rightarrow> u32 list \<Rightarrow> bool" where
  "de_inv h x xs \<longleftrightarrow> de_data_inv h x xs \<and> de_cache_inv h x xs"

lemma de_decode:
  assumes "de_inv h x xs" "unat (de_cacheOffset x) < length xs"
  defines "v \<equiv> xs ! unat (de_cacheOffset x) - de_curId x"
  shows "uba_getVlPackedUint32 h (de_data x) (ucast (de_dataOffset x)) = Inr (v, int (length (vl_bytes v)))"
    "unat (de_dataOffset x) + length (vl_bytes v) = length (de_code 0 (take (unat (de_cacheOffset x) + 1) xs))"
    "length (de_code 0 (take (unat (de_cacheOffset x) + 1) xs)) < 2 ^ 32"
proof -
  let ?k = "unat (de_cacheOffset x)" and ?d = "de_data x"
  let ?L = "length (de_code 0 (take ?k xs))"
  let ?u = "?d\<lparr>m_getPtr := ucast (de_dataOffset x)\<rparr>"
  have cur: "de_curId x = last (0 # take ?k xs)" and off: "unat (de_dataOffset x) = ?L"
    using assms(1) by (simp_all add: de_inv_def de_cache_inv_def)
  have r: "uba_inv h ?d" "view h ?d = de_code 0 xs" "length (de_code 0 xs) < 2 ^ 32"
    using assms(1) by (auto simp: de_inv_def de_data_inv_def reader_def)
  have t: "take (?k + 1) xs = take ?k xs @ [xs ! ?k]" using assms(2) by (simp add: take_Suc_conv_app_nth)
  have "xs = take (?k + 1) xs @ drop (?k + 1) xs" by simp
  then have "de_code 0 xs = de_code 0 (take (?k + 1) xs) @ de_code (last (0 # take (?k + 1) xs)) (drop (?k + 1) xs)"
    by (metis de_code_append)
  moreover have c1: "de_code 0 (take (?k + 1) xs) = de_code 0 (take ?k xs) @ vl_bytes v"
    unfolding t de_code_append cur [symmetric] by (simp add: v_def)
  ultimately have s: "view h ?d = de_code 0 (take ?k xs) @ vl_bytes v @ de_code (last (0 # take (?k + 1) xs)) (drop (?k + 1) xs)"
    unfolding r(2) by simp
  show 2: "unat (de_dataOffset x) + length (vl_bytes v) = length (de_code 0 (take (?k + 1) xs))" unfolding off c1 by simp
  have "length (de_code 0 (take (?k + 1) xs)) \<le> length (view h (de_data x))" unfolding s c1 by simp
  then show "length (de_code 0 (take (?k + 1) xs)) < 2 ^ 32" using r(2,3) by simp
  have g: "unat (m_getPtr ?u) = ?L" using unat_ucast64 off by simp
  have "length (view h ?d) = unat (m_len ?d)" using r(1) by simp
  then have "at_get h ?u (vl_bytes v)" using r(1) g s by (simp add: at_get_def chunk_def)
  from VlUint32.get_at_ok [OF this] show "uba_getVlPackedUint32 h ?d (ucast (de_dataOffset x)) = Inr (v, int (length (vl_bytes v)))"
    using uba_getVl_ptr [of h "ucast (de_dataOffset x)" ?d "ucast (de_dataOffset x)"]
    by (simp add: uba_getVlPackedUint32_def vu32.length_code)
qed

lemma de_fill_step:
  assumes "de_inv h x xs" "unat (de_cacheOffset x) < length xs"
  obtains h' x' where "de_fill (Suc n) h x = de_fill n h' x'" "de_inv h' x' xs" "unat (de_cacheOffset x') = unat (de_cacheOffset x) + 1"
    "de_size x' = de_size x" "de_data x' = de_data x" "de_cache x' = de_cache x"
    "\<forall>w. m_priv w \<noteq> m_priv (de_cache x) \<longrightarrow> storage h' w = storage h w"
proof -
  let ?k = "unat (de_cacheOffset x)" and ?c = "de_cache x"
  note d = de_decode [OF assms]
  let ?v = "xs ! ?k - de_curId x"
  have c: "uba_inv h ?c" "m_priv ?c \<noteq> m_priv (de_data x)" "4 * length xs \<le> unat (m_len ?c)"
      "take (4 * ?k) (view h ?c) = ids_bytes (take ?k xs)" "length xs < 2 ^ 30"
    using assms(1) by (simp_all add: de_inv_def de_cache_inv_def de_data_inv_def)
  have p: "unat (ucast (de_cacheOffset x * 4) :: u64) = 4 * ?k"
    using assms(2) c(5) by (simp add: unat_ucast64 unat_word_ariths)
  let ?p = "ucast (de_cacheOffset x * 4) :: u64"
  let ?h = "upd h ?c ?p (p_u32 (xs ! ?k))"
  have fit: "unat ?p + length (p_u32 (xs ! ?k)) \<le> unat (m_len ?c)" using p c(3) assms(2) by (simp add: p_u32_def)
  have pu: "uba_putUint32 h ?c ?p (de_curId x + ?v) = Inr ?h"
    using Uint32.put_spec [OF c(1), of ?p "xs ! ?k"] fit unat_bound64 [of "m_len ?c"] by (simp add: uba_putUint32_def p_u32_def)
  let ?x = "x\<lparr>de_curId := de_curId x + ?v, de_dataOffset := de_dataOffset x + word_of_int (int (length (vl_bytes ?v))),
      de_cacheOffset := de_cacheOffset x + 1\<rparr>"
  have k1: "unat (de_cacheOffset x + 1) = ?k + 1" using assms(2) c(5) by (subst unat_add_nowrap) simp_all
  have "unat (of_nat (length (vl_bytes ?v)) :: u32) = length (vl_bytes ?v)" using d(2,3) by (intro unat_of_nat_small) simp
  then have o1: "unat (de_dataOffset ?x) = length (de_code 0 (take (?k + 1) xs))" using d(2,3) by (simp add: unat_add_nowrap)
  have t: "take (?k + 1) xs = take ?k xs @ [xs ! ?k]" using assms(2) by (simp add: take_Suc_conv_app_nth)
  have vw: "view ?h ?c = blit (4 * ?k) (p_u32 (xs ! ?k)) (view h ?c)" using view_upd [OF c(1) fit] p by simp
  have "length (view h ?c) = unat (m_len ?c)" using c(1) by simp
  then have "take (4 * (?k + 1)) (view ?h ?c) = take (4 * ?k) (view h ?c) @ p_u32 (xs ! ?k)"
    unfolding vw using fit p by (simp add: blit_def p_u32_def)
  then have tk: "take (4 * (?k + 1)) (view ?h ?c) = ids_bytes (take (?k + 1) xs)" unfolding t c(4) by (simp add: p_u32_def)
  have fr: "\<forall>w. m_priv w \<noteq> m_priv ?c \<longrightarrow> storage ?h w = storage h w" by (simp add: storage_upd_other)
  have sd: "storage ?h (de_data x) = storage h (de_data x)" using c(2) by (simp add: storage_upd_other)
  have cu: "de_curId ?x = last (0 # take (?k + 1) xs)" unfolding t by simp
  have "de_data_inv ?h ?x xs" using assms(1) by (simp add: de_inv_def de_data_inv_def reader_frame [OF sd] sd)
  moreover have "de_cache_inv ?h ?x xs"
    unfolding de_cache_inv_def using inv_upd [OF c(1) fit c(1)] c(2,3) k1 o1 tk cu assms(2) by (simp del: last.simps)
  ultimately have "de_inv ?h ?x xs" by (simp add: de_inv_def)
  moreover have "de_fill (Suc n) h x = de_fill n ?h ?x" using d(1) pu by (simp add: Let_def)
  ultimately show ?thesis using that [of ?h ?x] k1 fr by simp
qed

lemma de_fill_spec:
  "de_inv h x xs \<Longrightarrow> unat (de_cacheOffset x) + n \<le> length xs \<Longrightarrow>
    \<exists>h' x'. de_fill n h x = Inr (h', x') \<and> de_inv h' x' xs \<and> unat (de_cacheOffset x') = unat (de_cacheOffset x) + n \<and>
      de_size x' = de_size x \<and> de_data x' = de_data x \<and> de_cache x' = de_cache x \<and>
      (\<forall>w. m_priv w \<noteq> m_priv (de_cache x) \<longrightarrow> storage h' w = storage h w)"
proof (induction n arbitrary: h x)
  case (Suc n)
  then have "unat (de_cacheOffset x) < length xs" by simp
  with Suc.prems(1) obtain h1 x1 where 1: "de_fill (Suc n) h x = de_fill n h1 x1" "de_inv h1 x1 xs"
      "unat (de_cacheOffset x1) = unat (de_cacheOffset x) + 1" "de_size x1 = de_size x" "de_data x1 = de_data x" "de_cache x1 = de_cache x"
      "\<forall>w. m_priv w \<noteq> m_priv (de_cache x) \<longrightarrow> storage h1 w = storage h w"
    by (rule de_fill_step [where n = n])
  have "unat (de_cacheOffset x1) + n \<le> length xs" using 1(3) Suc.prems(2) by simp
  from Suc.IH [OF 1(2) this] obtain h2 x2 where
    2: "de_fill n h1 x1 = Inr (h2, x2)" "de_inv h2 x2 xs" "unat (de_cacheOffset x2) = unat (de_cacheOffset x1) + n"
      "de_size x2 = de_size x1" "de_data x2 = de_data x1" "de_cache x2 = de_cache x1"
      "\<forall>w. m_priv w \<noteq> m_priv (de_cache x1) \<longrightarrow> storage h2 w = storage h1 w"
    by (elim exE conjE) (rule that)
  have "storage h2 w = storage h w" if "m_priv w \<noteq> m_priv (de_cache x)" for w
    using 1(6,7) 2(7) that by simp
  then show ?case unfolding 1(1) using 1(3-6) 2(1-6) by (intro exI [of _ h2] exI [of _ x2] conjI allI impI) simp_all
qed simp

lemma de_at_spec:
  assumes "de_inv h x xs"
  shows "\<exists>h' x'. de_at h x pos = Inr (if unat pos < length xs then xs ! unat pos else 0, h', x') \<and> de_inv h' x' xs \<and>
    de_data x' = de_data x \<and> (\<forall>w. m_priv w \<noteq> m_priv (de_cache x) \<longrightarrow> storage h' w = storage h w)"
proof (cases "unat pos < length xs")
  case False
  moreover have "unat (de_size x) = length xs" using assms by (simp add: de_inv_def de_data_inv_def)
  ultimately have "de_size x \<le> pos" by (simp add: word_le_nat_alt)
  then show ?thesis using False assms by (simp add: de_at_def)
next
  case True
  have sz: "unat (de_size x) = length xs" "length xs < 2 ^ 30" using assms by (simp_all add: de_inv_def de_data_inv_def)
  then have "\<not> (de_size x = 0 \<or> de_size x \<le> pos)" using True by (auto simp: word_le_nat_alt)
  then have st: "de_at h x pos = bindE (de_fill (unat (pos + 1) - unat (de_cacheOffset x)) h x) (\<lambda>(h, x).
           bindE (uba_getUint32 h (de_cache x) (ucast (pos * 4))) (\<lambda>v. Inr (v, h, x)))"
    unfolding de_at_def by (simp only: if_False)
  have p1: "unat (pos + 1) = unat pos + 1" using True sz by (subst unat_add_nowrap) simp_all
  have k: "unat (de_cacheOffset x) \<le> length xs" using assms by (simp add: de_inv_def de_cache_inv_def)
  let ?n = "unat (pos + 1) - unat (de_cacheOffset x)"
  have "unat (de_cacheOffset x) + ?n \<le> length xs" using p1 True k by simp
  from de_fill_spec [OF assms this] obtain h' x' where
    f: "de_fill ?n h x = Inr (h', x')" "de_inv h' x' xs" "unat (de_cacheOffset x') = unat (de_cacheOffset x) + ?n"
      "de_data x' = de_data x" "de_cache x' = de_cache x" "\<forall>w. m_priv w \<noteq> m_priv (de_cache x) \<longrightarrow> storage h' w = storage h w" by blast
  let ?k = "unat (de_cacheOffset x')"
  have pk: "unat pos < ?k" using f(3) p1 by simp
  have c: "uba_inv h' (de_cache x')" "take (4 * ?k) (view h' (de_cache x')) = ids_bytes (take ?k xs)" "?k \<le> length xs"
      "4 * length xs \<le> unat (m_len (de_cache x'))"
    using f(2) by (simp_all add: de_inv_def de_cache_inv_def)
  have p: "unat (ucast (pos * 4) :: u64) = 4 * unat pos" using True sz by (simp add: unat_ucast64 unat_word_ariths)
  have "chunk (4 * unat pos) 4 (view h' (de_cache x')) = chunk (4 * unat pos) 4 (take (4 * ?k) (view h' (de_cache x')))"
    using pk by (simp add: chunk_def drop_take)
  also have "\<dots> = le_bytes 4 (xs ! unat pos)" unfolding c(2) using chunk_ids_bytes [of "unat pos" "take ?k xs"] pk c(3) by simp
  finally have "up_u32 (drop (4 * unat pos) (view h' (de_cache x'))) = xs ! unat pos"
    by (simp add: up_u32_def chunk_def le_word_le_bytes take_bit_length_word)
  then have "uba_getUint32 h' (de_cache x') (ucast (pos * 4)) = Inr (xs ! unat pos)"
    using Uint32.get_spec [OF c(1), of "ucast (pos * 4)"] p pk c(3,4) unat_bound64 [of "m_len (de_cache x')"]
    by (simp add: uba_getUint32_def)
  then show ?thesis using st f True by simp
qed

lemma de_source_ids:
  assumes "de_inv h x xs"
  shows "source_ids (de_source (h, x)) xs"
proof -
  have "src_at (de_source (h, x)) i = Inr (xs ! unat i)" if i: "unat i < length xs" for i
  proof -
    from de_at_spec [OF assms, of i] i obtain h' x' where "de_at h x i = Inr (xs ! unat i, h', x')" by (elim exE conjE) simp
    then show ?thesis by (simp add: de_source_def)
  qed
  moreover have "unat (src_size (de_source (h, x))) = length xs" using assms by (simp add: de_source_def de_inv_def de_data_inv_def)
  ultimately show ?thesis by (simp add: source_ids_def)
qed

lemma de_ids_loop_spec: "reader h u p xs \<Longrightarrow> de_ids_loop (length xs) h u p = Inr xs"
proof (induction xs arbitrary: u p)
  case (Cons x xs)
  from Cons.prems obtain u' where u': "stream_getVlPackedUint32 h u = Inr (x - p, u')" "reader h u' x xs" by (rule reader_next)
  show ?case using u'(1) Cons.IH [OF u'(2)] by simp
qed simp

lemma de_putInto_array_spec: "de_inv h x xs \<Longrightarrow> de_putInto_array h x = Inr xs"
  using de_ids_loop_spec [of h "de_data x" 0 xs] by (simp add: de_putInto_array_def de_inv_def de_data_inv_def)

definition de_list :: "heap \<times> de \<Rightarrow> u32 list" where
  "de_list = (\<lambda>(h, x). case de_putInto_array h x of Inl _ \<Rightarrow> [] | Inr xs \<Rightarrow> xs)"

interpretation de_idx: id_index de_source de_list "\<lambda>(h, x). \<exists>xs. de_inv h x xs"
proof
  fix i :: "heap \<times> de"
  assume "case i of (h, x) \<Rightarrow> \<exists>xs. de_inv h x xs"
  then obtain h x xs where "i = (h, x)" "de_inv h x xs" by auto
  then show "source_ids (de_source i) (de_list i)" using de_source_ids de_putInto_array_spec by (simp add: de_list_def)
qed

section \<open>Into a bit set\<close>

lemma growStorage_frame:
  assumes "uba_growStorage h m n = Inr (ok, h1, m1)"
  shows "m_priv m1 = m_priv m" "m_priv w \<noteq> m_priv m \<Longrightarrow> storage h1 w = storage h w"
  using assms by (auto simp: uba_growStorage_def storage_def split: if_splits)

lemma modify_frame:
  assumes "modify h m p f = Inr h'"
  shows "m_priv w \<noteq> m_priv m \<Longrightarrow> storage h' w = storage h w"
  using assms by (auto simp: modify_def uba_putUint8_def store_at_def storage_def)

lemma dbs_set_frame:
  assumes "dbs_set h m pos = Inr (h', m')"
  shows "m_priv w \<noteq> m_priv m \<Longrightarrow> storage h' w = storage h w"
proof -
  assume w: "m_priv w \<noteq> m_priv m"
  let ?f = "\<lambda>b. b OR push_bit (unat (pos mod 8)) 1"
  show ?thesis
  proof (cases "m_len m \<le> pos div 8")
    case True
    then obtain ok h1 m1 where g: "uba_growStorage h m (pos div 8 + 1 - m_len m) = Inr (ok, h1, m1)" and e: "modify h1 m1 (pos div 8) ?f = Inr h'"
      using assms by (auto simp: dbs_set_def Let_def)
    show ?thesis using growStorage_frame [OF g] modify_frame [OF e, of w] w by simp
  next
    case False
    then have "modify h m (pos div 8) ?f = Inr h'" using assms by (auto simp: dbs_set_def Let_def bindE_eq_Inr_iff)
    from modify_frame [OF this w] show ?thesis .
  qed
qed

lemma de_put_loop_spec:
  "reader h u p xs \<Longrightarrow> owner h m \<Longrightarrow> m_priv u \<noteq> m_priv m \<Longrightarrow>
    \<exists>h' m'. de_put_loop (length xs) h u p m = Inr (h', m') \<and> owner h' m' \<and> dbs_elems h' m' = dbs_elems h m \<union> unat ` set xs"
proof (induction xs arbitrary: h u p m)
  case (Cons x xs)
  from Cons.prems(1) obtain u' where u': "stream_getVlPackedUint32 h u = Inr (x - p, u')" "reader h u' x xs" "m_priv u' = m_priv u"
    by (rule reader_next)
  obtain h1 m1 where 1: "dbs_set h m (ucast x) = Inr (h1, m1)" "owner h1 m1" "m_priv m1 = m_priv m"
      "dbs_elems h1 m1 = insert (unat (ucast x :: u64)) (dbs_elems h m)"
    by (rule set_spec [OF Cons.prems(2), of "ucast x"]) (rule that)
  have "storage h1 u' = storage h u'" using dbs_set_frame [OF 1(1)] Cons.prems(3) u'(3) by simp
  from reader_frame [OF this] have r: "reader h1 u' x xs" using u'(2) by blast
  have "m_priv u' \<noteq> m_priv m1" using Cons.prems(3) u'(3) 1(3) by simp
  from Cons.IH [OF r 1(2) this] obtain h2 m2 where
    2: "de_put_loop (length xs) h1 u' x m1 = Inr (h2, m2)" "owner h2 m2" "dbs_elems h2 m2 = dbs_elems h1 m1 \<union> unat ` set xs"
    by (elim exE conjE) (rule that)
  have "de_put_loop (length (x # xs)) h u p m = Inr (h2, m2)" using u'(1) 1(1) 2(1) by (simp add: Let_def)
  moreover have "dbs_elems h2 m2 = dbs_elems h m \<union> unat ` set (x # xs)" using 1(4) 2(3) by (auto simp: unat_ucast64)
  ultimately show ?case using 2(2) by blast
qed simp

end
