(* ===== verification/ItemIndexDEOps.thy ===== *)
theory ItemIndexDEOps
  imports ItemIndexDEProps
begin

text \<open>
  What \<open>ItemIndexPrivateDECreator\<close> writes, what the constructor reads of it, and so what creation, the set operations
  and the conversion from a bit set return. Everything is appended behind the write position of the
  adapter the creator starts with: \<open>dc_wrote\<close> says what has been written so far.
\<close>

section \<open>The creator\<close>

definition kept :: "heap \<Rightarrow> uba \<Rightarrow> heap \<Rightarrow> bool" where
  "kept h u h' \<longleftrightarrow> kind (storage h' u) = kind (storage h u) \<and> (\<forall>w. m_priv w \<noteq> m_priv u \<longrightarrow> storage h' w = storage h w)"

lemma kept_refl [simp]: "kept h u h"
  by (simp add: kept_def)

lemma kept_trans: "kept h u h1 \<Longrightarrow> kept h1 u1 h2 \<Longrightarrow> m_priv u1 = m_priv u \<Longrightarrow> kept h u h2"
  by (simp add: kept_def storage_def)

lemma keptD: "kept h u h' \<Longrightarrow> m_priv w \<noteq> m_priv u \<Longrightarrow> storage h' w = storage h w"
  by (simp add: kept_def)

text \<open>All storage but that at some addresses is as before.\<close>

definition others_kept :: "nat set \<Rightarrow> heap \<Rightarrow> heap \<Rightarrow> bool" where
  "others_kept R h h' \<longleftrightarrow> (\<forall>w. m_priv w \<notin> R \<longrightarrow> storage h' w = storage h w)"

lemma others_kept_refl [simp]: "others_kept R h h"
  by (simp add: others_kept_def)

lemma others_kept_trans: "others_kept R h h1 \<Longrightarrow> others_kept S h1 h2 \<Longrightarrow> others_kept (R \<union> S) h h2"
  by (simp add: others_kept_def)

lemma others_kept_same: "others_kept R h h1 \<Longrightarrow> others_kept R h1 h2 \<Longrightarrow> others_kept R h h2"
  by (simp add: others_kept_def)

lemma others_keptD: "others_kept R h h' \<Longrightarrow> m_priv w \<notin> R \<Longrightarrow> storage h' w = storage h w"
  by (simp add: others_kept_def)

definition dc_wrote :: "heap \<Rightarrow> uba \<Rightarrow> heap \<Rightarrow> de_creator \<Rightarrow> bytes \<Rightarrow> bool" where
  "dc_wrote h0 d0 h c bs \<longleftrightarrow> appended h0 d0 ((p_u32 0 @ p_u32 0) @ bs) h (dc_data c) \<and> dc_beginning c = m_putPtr d0 \<and> kept h0 d0 h"

definition dc_inv :: "heap \<Rightarrow> uba \<Rightarrow> heap \<Rightarrow> de_creator \<Rightarrow> u32 list \<Rightarrow> bool" where
  "dc_inv h0 d0 h c zs \<longleftrightarrow> dc_wrote h0 d0 h c (de_code 0 zs) \<and> dc_prev c = last (0 # zs) \<and> dc_count c = of_nat (length zs)"

lemma dc_wrote_priv: "dc_wrote h0 d0 h c bs \<Longrightarrow> m_priv (dc_data c) = m_priv d0"
  by (simp add: dc_wrote_def appended_def)

lemma dc_wrote_pushable:
  assumes "dc_wrote h0 d0 h c bs" "pushable h0 d0 (8 + length bs + n)"
  shows "pushable h (dc_data c) n"
  using assms appended_pushable [of h0 d0 "(p_u32 0 @ p_u32 0) @ bs" n] by (simp add: dc_wrote_def p_u32_def)

lemma dc_wrote_append:
  assumes "pushable h0 d0 n" "dc_wrote h0 d0 h c bs" "appended h (dc_data c) cs h' (dc_data c')" "kept h (dc_data c) h'"
    and "dc_beginning c' = dc_beginning c"
  shows "dc_wrote h0 d0 h' c' (bs @ cs)"
proof -
  have "appended h0 d0 (((p_u32 0 @ p_u32 0) @ bs) @ cs) h' (dc_data c')"
    using assms(2) by (intro appended_trans [OF assms(1) _ assms(3)]) (simp add: dc_wrote_def)
  moreover have "kept h0 d0 h'" using assms(2) by (intro kept_trans [OF _ assms(4) dc_wrote_priv [OF assms(2)]]) (simp add: dc_wrote_def)
  ultimately show ?thesis using assms(2,5) by (simp add: dc_wrote_def)
qed

lemma dc_new_spec:
  assumes "pushable h d 8"
  shows "\<exists>h' c. dc_new h d = Inr (h', c) \<and> dc_inv h d h' c []"
proof -
  have l: "length (p_u32 0) = 4" by (simp add: p_u32_def)
  have p: "pushable h d (length (p_u32 0) + 4)" using assms by (simp add: p_u32_def)
  then have "pushable h d (length (p_u32 0))" using pushable_less [OF p] by simp
  from SUint32.sput_ok [OF this] obtain h1 d1 where
    1: "stream_putUint32 h d 0 = Inr (h1, d1)" "appended h d (p_u32 0) h1 d1" by blast
  have "pushable h1 d1 (length (p_u32 0))" using appended_pushable [OF p 1(2)] l by simp
  from SUint32.sput_ok [OF this] obtain h2 d2 where
    2: "stream_putUint32 h1 d1 0 = Inr (h2, d2)" "appended h1 d1 (p_u32 0) h2 d2" by blast
  have pr: "m_priv d1 = m_priv d" "m_priv d2 = m_priv d" using 1(2) 2(2) by (simp_all add: appended_def)
  have s: "storage x d1 = storage x d" "storage x d2 = storage x d" for x using pr by (simp_all add: storage_def)
  have "kept h d h1" using stream_putUint32_frame [OF 1(1)] by (simp add: kept_def s)
  moreover have "kept h1 d1 h2" using stream_putUint32_frame [OF 2(1)] by (simp add: kept_def s pr)
  ultimately have "kept h d h2" using pr(1) by (rule kept_trans)
  moreover have "appended h d (p_u32 0 @ p_u32 0) h2 d2" by (rule appended_trans [OF assms 1(2) 2(2)])
  ultimately show ?thesis using 1(1) 2(1) by (simp add: dc_new_def Let_def dc_inv_def dc_wrote_def)
qed

lemma length_vl32: "length (vl_bytes (v :: u32)) \<le> 5"
  using vu32.size_max [of v] by (simp add: vu32.length_code)

lemma length_de_code_le: "length (de_code p xs) \<le> 5 * length xs"
proof (induction xs arbitrary: p)
  case (Cons x xs)
  from add_mono [OF length_vl32 [of "x - p"] Cons [of x]] show ?case by simp
qed simp

lemma put_delta:
  assumes "pushable h d 5"
  obtains n h' d' where "stream_putVlPackedUint32 h d v = Inr (n, h', d')" "appended h d (vl_bytes v) h' d'" "kept h d h'"
proof -
  have "pushable h d (length (vl_bytes v))" using pushable_less [OF assms length_vl32] .
  from SVlUint32.sput_ok [OF this] obtain h' d' where
    "ignoring_length stream_putVlPackedUint32 h d v = Inr (h', d')" and a: "appended h d (vl_bytes v) h' d'" by auto
  then obtain n where n: "stream_putVlPackedUint32 h d v = Inr (n, h', d')"
    by (auto simp: ignoring_length_def)
  have "storage x d' = storage x d" for x using a by (simp add: appended_def storage_def)
  then have "kept h d h'" using stream_putVl_frame [OF n] by (simp add: kept_def)
  then show thesis using that n a by blast
qed

lemma dc_push_back_spec:
  assumes "dc_inv h0 d0 h c zs" "pushable h0 d0 (8 + length (de_code 0 zs) + 5)"
  shows "\<exists>h' c'. dc_push_back h c v = Inr (h', c') \<and> dc_inv h0 d0 h' c' (zs @ [v])"
proof -
  have w: "dc_wrote h0 d0 h c (de_code 0 zs)" "dc_prev c = last (0 # zs)" "dc_count c = of_nat (length zs)"
    using assms(1) by (simp_all add: dc_inv_def)
  obtain n h' d' where 1: "stream_putVlPackedUint32 h (dc_data c) (v - dc_prev c) = Inr (n, h', d')"
      "appended h (dc_data c) (vl_bytes (v - dc_prev c)) h' d'" "kept h (dc_data c) h'"
    by (rule put_delta [OF dc_wrote_pushable [OF w(1) assms(2)]])
  let ?c = "c\<lparr>dc_data := d', dc_prev := v, dc_count := dc_count c + 1\<rparr>"
  have "dc_wrote h0 d0 h' ?c (de_code 0 zs @ vl_bytes (v - dc_prev c))"
    by (rule dc_wrote_append [OF assms(2) w(1)]) (simp_all add: 1)
  then have "dc_inv h0 d0 h' ?c (zs @ [v])" by (simp add: dc_inv_def de_code_append w(2,3))
  then show ?thesis using 1(1) by (simp add: dc_push_back_def)
qed

text \<open>The header is written last.\<close>

definition dc_flushed :: "heap \<Rightarrow> uba \<Rightarrow> heap \<Rightarrow> de_creator \<Rightarrow> u32 list \<Rightarrow> bool" where
  "dc_flushed h0 d0 h c zs \<longleftrightarrow> uba_inv h (dc_data c) \<and> dc_beginning c = m_putPtr d0 \<and> m_priv (dc_data c) = m_priv d0 \<and> kept h0 d0 h \<and>
     unat (m_putPtr d0) \<le> unat (m_len (dc_data c)) \<and>
     (\<exists>rest. drop (unat (m_putPtr d0)) (view h (dc_data c)) =
        p_u32 (of_nat (length (de_code 0 zs))) @ p_u32 (of_nat (length zs)) @ de_code 0 zs @ rest)"

lemma dc_flush_spec:
  assumes "dc_wrote h0 d0 h c (de_code 0 zs)" "dc_count c = of_nat (length zs)" "pushable h0 d0 (8 + length (de_code 0 zs))"
  shows "\<exists>h'. dc_flush h c = Inr h' \<and> dc_flushed h0 d0 h' c zs"
proof -
  let ?d = "dc_data c" and ?b = "dc_beginning c" and ?code = "de_code 0 zs"
  have w: "appended h0 d0 ((p_u32 0 @ p_u32 0) @ ?code) h ?d" "?b = m_putPtr d0" "kept h0 d0 h" using assms(1) by (simp_all add: dc_wrote_def)
  have l4: "length (p_u32 x) = 4" for x by (simp add: p_u32_def)
  have pl: "unat ?b \<le> length (view h0 d0)" using assms(3) w(2) by (simp add: pushable_def word_le_nat_alt)
  have i: "uba_inv h ?d" "view h ?d = blit (unat ?b) ((p_u32 0 @ p_u32 0) @ ?code) (view h0 d0)"
      "unat (m_putPtr ?d) = unat ?b + (8 + length ?code)" "unat (m_putPtr ?d) \<le> unat (m_len ?d)" "m_priv ?d = m_priv d0"
    using w(1,2) by (simp_all add: appended_def word_le_nat_alt l4)
  have lv: "length (view h ?d) = unat (m_len ?d)" using i(1) by simp
  note b = unat_bound64 [of "m_len ?d"] unat_bound64 [of "m_putPtr ?d"]
  have b4: "unat (?b + 4) = unat ?b + 4" "unat (?b + 8) = unat ?b + 8" using i(3) b by (simp_all add: unat_add_nowrap)
  then have "unat (m_putPtr ?d - (?b + 8)) = length ?code" using i(3) by (subst unat_sub) (simp_all add: word_le_nat_alt)
  then have cnt: "ucast (m_putPtr ?d - (?b + 8)) = (of_nat (length ?code) :: u32)" by (metis of_nat_unat)
  let ?n = "of_nat (length ?code) :: u32" and ?s = "of_nat (length zs) :: u32"
  let ?h1 = "upd h ?d ?b (p_u32 ?n)"
  let ?h2 = "upd ?h1 ?d (?b + 4) (p_u32 ?s)"
  have f1: "unat ?b + length (p_u32 ?n) \<le> unat (m_len ?d)" using i(3,4) l4 by simp
  have f2: "unat (?b + 4) + length (p_u32 ?s) \<le> unat (m_len ?d)" using i(3,4) l4 b4 by simp
  have p1: "uba_putUint32 h ?d ?b ?n = Inr ?h1"
    using Uint32.put_spec [OF i(1), of ?b ?n] f1 b l4 by (simp add: uba_putUint32_def)
  note i1 = inv_upd [OF i(1) f1 i(1)]
  have p2: "uba_putUint32 ?h1 ?d (?b + 4) ?s = Inr ?h2"
    using Uint32.put_spec [OF i1, of "?b + 4" ?s] f2 b l4 by (simp add: uba_putUint32_def)
  note i2 = inv_upd [OF i1 f2 i1]
  have "view ?h2 ?d = blit (unat ?b + 4) (p_u32 ?s) (blit (unat ?b) (p_u32 ?n) (view h ?d))"
    using view_upd [OF i1 f2] view_upd [OF i(1) f1] b4 by simp
  then have "drop (unat ?b) (view ?h2 ?d) = p_u32 ?n @ p_u32 ?s @ drop (unat ?b + 8) (view h ?d)"
    using lv i(3,4) by (simp add: blit_def l4 min_def add.commute [of _ 8])
  also have "drop (unat ?b + 8) (view h ?d) = ?code @ drop (unat ?b + 8 + length ?code) (view h0 d0)"
    unfolding i(2) using pl by (simp add: blit_def l4 add.assoc)
  finally have v: "drop (unat ?b) (view ?h2 ?d) = p_u32 ?n @ p_u32 ?s @ ?code @ drop (unat ?b + 8 + length ?code) (view h0 d0)" by simp
  have "kept h ?d ?h2" by (simp add: kept_def storage_upd_other storage_upd)
  then have "kept h0 d0 ?h2" by (rule kept_trans [OF w(3) _ i(5)])
  then have "dc_flushed h0 d0 ?h2 c zs" using i2 w(2) i(3-5) v by (auto simp: dc_flushed_def)
  moreover have "dc_flush h c = Inr ?h2" using p1 p2 cnt assms(2) by (simp add: dc_flush_def)
  ultimately show ?thesis by blast
qed

text \<open>\<open>flushWithData\<close> appends the bytes of another index, which are the differences behind the last id pushed.\<close>

lemma dc_flushWithData_spec:
  assumes "dc_inv h0 d0 h c zs" "uba_inv h src" "view h src = de_code (last (0 # zs)) xs" "unat n = length xs"
    and "m_priv src \<noteq> m_priv d0" "isContiguous (storage h src)"
    and "pushable h0 d0 (8 + length (de_code 0 (zs @ xs)))"
  shows "\<exists>h' c'. dc_flushWithData h c src n = Inr (h', c') \<and> dc_flushed h0 d0 h' c' (zs @ xs)"
proof -
  have w: "dc_wrote h0 d0 h c (de_code 0 zs)" "dc_count c = of_nat (length zs)" using assms(1) by (simp_all add: dc_inv_def)
  note pr = dc_wrote_priv [OF w(1)]
  have code: "de_code 0 (zs @ xs) = de_code 0 zs @ view h src" unfolding assms(3) by (rule de_code_append)
  have "length (view h src) = unat (m_len src)" using assms(2) by simp
  then have "pushable h0 d0 (8 + length (de_code 0 zs) + unat (m_len src))" using assms(7) unfolding code by (simp add: add.assoc)
  note p = dc_wrote_pushable [OF w(1) this]
  have "uba_inv h (dc_data c)" using w(1) by (simp add: dc_wrote_def appended_def)
  from stream_putData_adapter_ok [OF this assms(2) _ _ p] obtain h1 d1 where
    1: "stream_putData_adapter h (dc_data c) src = Inr (h1, d1)" "appended h (dc_data c) (view h src) h1 d1"
      "kind (storage h1 d1) = kind (storage h (dc_data c))" "\<forall>w. m_priv w \<noteq> m_priv (dc_data c) \<longrightarrow> storage h1 w = storage h w"
    using assms(5,6) pr by auto
  have "storage h1 d1 = storage h1 (dc_data c)" using 1(2) by (simp add: appended_def storage_def)
  then have k: "kept h (dc_data c) h1" using 1(3,4) by (simp add: kept_def)
  let ?c = "c\<lparr>dc_data := d1, dc_count := dc_count c + n\<rparr>"
  have "dc_wrote h0 d0 h1 ?c (de_code 0 (zs @ xs))"
    unfolding code by (rule dc_wrote_append [OF assms(7) w(1)]) (simp_all add: 1(2) k)
  moreover have "n = of_nat (length xs)" using assms(4) by (metis of_nat_unat ucast_id)
  then have "dc_count ?c = of_nat (length (zs @ xs))" by (simp add: w(2))
  ultimately obtain h2 where "dc_flush h1 ?c = Inr h2" "dc_flushed h0 d0 h2 ?c (zs @ xs)"
    using dc_flush_spec [OF _ _ assms(7)] by blast
  then show ?thesis using 1(1) by (simp add: dc_flushWithData_def Let_def)
qed

section \<open>Opening an index\<close>

lemma de_new_spec:
  assumes "uba_inv h d" "view h d = p_u32 n @ p_u32 s @ de_code 0 xs @ rest"
    and "unat n = length (de_code 0 xs)" "unat s = length xs" "length xs < 2 ^ 30" "r \<noteq> m_priv d"
  shows "\<exists>h' x. de_new h r d = Inr (h', x) \<and> de_inv h' x xs \<and> m_priv (de_data x) = m_priv d \<and> m_priv (de_cache x) = r \<and>
    (\<forall>w. m_priv w \<noteq> r \<longrightarrow> storage h' w = storage h w)"
proof -
  have l4: "length (p_u32 x) = 4" for x by (simp add: p_u32_def)
  have l: "unat (m_len d) = 8 + length (de_code 0 xs) + length rest" using length_view [OF assms(1)] by (simp add: assms(2) l4)
  have g: "uba_getUint32 h d 0 = Inr n" "uba_getUint32 h d 4 = Inr s"
    using Uint32.get_spec [OF assms(1), of 0] Uint32.get_spec [OF assms(1), of 4] l
    by (simp_all add: uba_getUint32_def assms(2) c_u32.unpack_append l4)
  have u: "unat (s * 4) = 4 * length xs" using assms(4,5) by (simp add: unat_word_ariths)
  let ?n = "ucast (s * 4) :: u64"
  let ?len = "if ?n = 0 then 1 else ?n"
  have n4: "unat ?n = 4 * length xs" using u by (simp add: unat_ucast64)
  have m: "unat ?n \<le> max_size" using n4 assms(5) by (simp add: max_size_def)
  from createCache_spec [OF this, of h r] obtain h1 where
    1: "createCache h r ?n = Inr (h1, uba_of_priv r 0 ?len)" "uba_inv h1 (uba_of_priv r 0 ?len)"
      "\<forall>w. m_priv w \<noteq> r \<longrightarrow> storage h1 w = storage h w" by blast
  have ll: "4 * length xs \<le> unat ?len"
  proof (cases "?n = 0")
    case True
    then have "unat ?n = 0" by (simp only: unat_0)
    then show ?thesis unfolding n4 by simp
  next
    case False
    then show ?thesis by (simp only: if_False n4)
  qed
  let ?d = "uba_sub_len d 8 (ucast n)"
  have un: "unat (ucast n :: u64) = length (de_code 0 xs)" using assms(3) by (simp add: unat_ucast64)
  have "unat (8 :: u64) + unat (ucast n :: u64) \<le> unat (m_len d)" using l un by simp
  note sl = sub_len_spec [OF assms(1) this]
  have d: "uba_inv h ?d" "view h ?d = de_code 0 xs" "unat (m_len ?d) = length (de_code 0 xs)"
    using sl un by (simp_all add: assms(2) chunk_def l4)
  have p: "m_priv ?d = m_priv d" "m_getPtr ?d = 0" using l by (auto simp: uba_sub_len_def Let_def word_less_nat_alt)
  let ?x = "\<lparr>de_data = ?d, de_size = s, de_dataOffset = 0, de_curId = 0, de_cache = uba_of_priv r 0 ?len, de_cacheOffset = 0\<rparr>"
  have st: "storage h1 ?d = storage h ?d" using 1(3) p(1) assms(6) by simp
  have lc: "length (de_code 0 xs) < 2 ^ 32" using assms(3) unat_bound [of n] by simp
  have "reader h ?d 0 xs" using d p(2) by (simp add: reader_def)
  then have "reader h1 ?d 0 xs" using reader_frame [OF st] by blast
  then have "de_data_inv h1 ?x xs" using lc p(2) assms(4,5) by (simp add: de_data_inv_def)
  moreover have "de_cache_inv h1 ?x xs" using 1(2) ll assms(6) p(1) by (simp add: de_cache_inv_def uba_of_priv_def ids_bytes_def)
  moreover have "\<not> ucast s > m_len ?d" using d(3) length_de_code [of xs 0] assms(4) by (simp add: word_less_nat_alt unat_ucast64)
  then have "de_new h r d = Inr (h1, ?x)" using g 1(1) by (simp add: de_new_def Let_def)
  ultimately show ?thesis using 1(3) p(1) by (intro exI [of _ h1] exI [of _ ?x]) (simp add: de_inv_def uba_of_priv_def)
qed

lemma dc_getPrivateIndex_spec:
  assumes "dc_flushed h0 d0 h c zs" "length zs < 2 ^ 29" "r \<noteq> m_priv d0"
  shows "\<exists>h' x. dc_getPrivateIndex h r c = Inr (h', x) \<and> de_inv h' x zs \<and> m_priv (de_data x) = m_priv d0 \<and> m_priv (de_cache x) = r \<and>
    (\<forall>w. m_priv w \<noteq> r \<longrightarrow> storage h' w = storage h w)"
proof -
  from assms(1) obtain rest where f: "uba_inv h (dc_data c)" "dc_beginning c = m_putPtr d0" "m_priv (dc_data c) = m_priv d0"
      "unat (m_putPtr d0) \<le> unat (m_len (dc_data c))"
    and v: "drop (unat (m_putPtr d0)) (view h (dc_data c)) =
        p_u32 (of_nat (length (de_code 0 zs))) @ p_u32 (of_nat (length zs)) @ de_code 0 zs @ rest"
    by (auto simp: dc_flushed_def)
  note s = sub_spec [OF f(1,4)]
  have n: "unat (of_nat (length (de_code 0 zs)) :: u32) = length (de_code 0 zs)" "unat (of_nat (length zs) :: u32) = length zs"
    using length_de_code_le [of 0 zs] assms(2) by (intro unat_of_nat_small; simp)+
  have "m_priv (uba_sub (dc_data c) (m_putPtr d0)) = m_priv d0" using f(3) by (simp add: uba_sub_def Let_def)
  then show ?thesis using de_new_spec [OF s(1) s(2) [unfolded v] n, of r] assms(2,3) f(2) by (simp add: dc_getPrivateIndex_def)
qed

text \<open>An index in a new storage: what is left of the heap, and where the parts of the index are.\<close>

lemma cache_index_spec:
  assumes "createCache h r1 k = Inr (h0, d)" "dc_flushed h0 d h2 c zs" "length zs < 2 ^ 29" "r2 \<noteq> r1"
  shows "\<exists>h3 z. dc_getPrivateIndex h2 r2 c = Inr (h3, z) \<and> de_inv h3 z zs \<and>
    (\<forall>w. m_priv w \<noteq> r1 \<and> m_priv w \<noteq> r2 \<longrightarrow> storage h3 w = storage h w) \<and>
    m_priv (de_data z) = r1 \<and> m_priv (de_cache z) = r2 \<and> isContiguous (storage h3 (de_data z))"
proof -
  have d: "m_priv d = r1" "kind (storage h0 d) = VectorB" "\<forall>w. m_priv w \<noteq> r1 \<longrightarrow> storage h0 w = storage h w"
    using assms(1) by (auto simp: createCache_def Let_def storage_def uba_of_priv_def split: if_splits)
  have k: "kept h0 d h2" using assms(2) by (simp add: dc_flushed_def)
  from dc_getPrivateIndex_spec [OF assms(2,3), of r2] assms(4) d(1) obtain h3 z where
    3: "dc_getPrivateIndex h2 r2 c = Inr (h3, z)" "de_inv h3 z zs" "\<forall>w. m_priv w \<noteq> r2 \<longrightarrow> storage h3 w = storage h2 w"
      "m_priv (de_data z) = r1" "m_priv (de_cache z) = r2" by auto
  have "storage h3 d = storage h2 d" using 3(3) assms(4) d(1) by metis
  then have "storage h3 (de_data z) = storage h2 d" using 3(4) d(1) by (simp add: storage_def)
  then have "isContiguous (storage h3 (de_data z))" using k d(2) by (simp add: kept_def isContiguous_def)
  moreover have "storage h3 w = storage h w" if "m_priv w \<noteq> r1 \<and> m_priv w \<noteq> r2" for w
    using 3(3) keptD [OF k, of w] d(1,3) that by simp
  ultimately show ?thesis using 3 by blast
qed

section \<open>The set operations\<close>

text \<open>An operand in the loop: the ids from the current one on.\<close>

definition opnd :: "heap \<Rightarrow> u32 \<Rightarrow> de_reader \<Rightarrow> u32 list \<Rightarrow> bool" where
  "opnd h sz a xs \<longleftrightarrow> rd_it a \<le> sz \<and> unat (sz - rd_it a) = length xs \<and>
     (xs \<noteq> [] \<longrightarrow> rd_id a = hd xs \<and> reader h (rd_data a) (hd xs) (tl xs))"

lemma opnd_more: "opnd h sz a xs \<Longrightarrow> rd_it a < sz \<longleftrightarrow> xs \<noteq> []"
  using unat_sub [of "rd_it a" sz]
  by (auto simp: opnd_def word_less_nat_alt length_greater_0_conv [symmetric] simp del: length_greater_0_conv)

lemma opnd_frame:
  assumes "opnd h sz a xs" "storage h' (rd_data a) = storage h (rd_data a)"
  shows "opnd h' sz a xs"
  using assms(1) reader_frame [OF assms(2)] by (simp add: opnd_def)

lemma reader_step_spec:
  assumes "opnd h sz a (x # xs)"
  shows "\<exists>a'. reader_step h sz a = Inr a' \<and> opnd h sz a' xs \<and> m_priv (rd_data a') = m_priv (rd_data a)"
proof -
  let ?it = "rd_it a + 1"
  have a: "rd_it a < sz" "unat (sz - rd_it a) = Suc (length xs)" "rd_id a = x" "reader h (rd_data a) x xs"
    using opnd_more [OF assms] assms by (simp_all add: opnd_def)
  then have it: "?it \<le> sz" "unat ?it = unat (rd_it a) + 1"
    using unat_bound [of sz] by (simp_all add: word_less_nat_alt word_le_nat_alt unat_add_nowrap)
  then have l: "unat (sz - ?it) = length xs" using unat_sub [OF it(1)] unat_sub [OF less_imp_le [OF a(1)]] a(2) by simp
  show ?thesis
  proof (cases xs)
    case Nil
    then have "\<not> ?it < sz" using l it(1) by (metis leD le_less list.size(3) unat_eq_zero right_minus_eq)
    then have "reader_step h sz a = Inr (a\<lparr>rd_it := ?it\<rparr>)" by (simp add: reader_step_def Let_def)
    then show ?thesis using it l Nil by (simp add: opnd_def)
  next
    case (Cons y ys)
    then have lt: "?it < sz" using l it(1) by (cases "?it = sz") auto
    from a(4) [unfolded Cons] obtain u' where
      u': "stream_getVlPackedUint32 h (rd_data a) = Inr (y - x, u')" "reader h u' y ys" "m_priv u' = m_priv (rd_data a)"
      by (rule reader_next)
    then have "reader_step h sz a = Inr \<lparr>rd_data = u', rd_it = ?it, rd_id = y\<rparr>" using lt a(3) by (simp add: reader_step_def Let_def)
    then show ?thesis using it l Cons u'(2,3) by (simp add: opnd_def)
  qed
qed

lemma dc_push_if_spec:
  assumes "dc_inv h0 d0 h c zs" "pushable h0 d0 (8 + length (de_code 0 zs) + 5)"
  shows "\<exists>h' c'. dc_push_if p h c v = Inr (h', c') \<and> dc_inv h0 d0 h' c' (zs @ (if p then [v] else []))"
  using dc_push_back_spec [OF assms] assms(1) by (simp add: dc_push_if_def)

lemma shrinkToGetPtr_spec:
  assumes "uba_inv h u" "unat (m_getPtr u) \<le> unat (m_len u)"
  shows "uba_inv h (uba_shrinkToGetPtr u)" "view h (uba_shrinkToGetPtr u) = drop (unat (m_getPtr u)) (view h u)"
    "m_priv (uba_shrinkToGetPtr u) = m_priv u"
proof -
  let ?s = "uba_shrinkToGetPtr u"
  have g: "m_getPtr u \<le> m_len u" using assms(2) by (simp add: word_le_nat_alt)
  have f: "m_priv ?s = m_priv u" "m_offSet ?s = m_offSet u + m_getPtr u" "m_len ?s = m_len u - m_getPtr u"
    using g by (auto simp: uba_shrinkToGetPtr_def Let_def not_less)
  have o: "unat (m_offSet ?s) = unat (m_offSet u) + unat (m_getPtr u)" "unat (m_len ?s) = unat (m_len u) - unat (m_getPtr u)"
    using uba_inv_bounds [OF assms(1)] assms(2) f g by (simp_all add: unat_add_nowrap unat_sub)
  then show "uba_inv h ?s" "view h ?s = drop (unat (m_getPtr u)) (view h u)" "m_priv ?s = m_priv u"
    using assms f(1) by (simp_all add: uba_inv_def view_def storage_def chunk_def drop_take add.commute)
qed

lemma opnd_rest:
  assumes "opnd h sz a (x # xs)"
  shows "rd_id a = x" "uba_inv h (uba_shrinkToGetPtr (rd_data a))" "view h (uba_shrinkToGetPtr (rd_data a)) = de_code x xs"
    "m_priv (uba_shrinkToGetPtr (rd_data a)) = m_priv (rd_data a)" "unat (sz - (rd_it a + 1)) = length xs"
proof -
  have r: "reader h (rd_data a) x xs" using assms by (simp add: opnd_def)
  then have u: "uba_inv h (rd_data a)" "unat (m_getPtr (rd_data a)) \<le> unat (m_len (rd_data a))" by (simp_all add: reader_def)
  show "rd_id a = x" using assms by (simp add: opnd_def)
  show "uba_inv h (uba_shrinkToGetPtr (rd_data a))" "m_priv (uba_shrinkToGetPtr (rd_data a)) = m_priv (rd_data a)"
    using shrinkToGetPtr_spec [OF u] by simp_all
  show "view h (uba_shrinkToGetPtr (rd_data a)) = de_code x xs" using shrinkToGetPtr_spec [OF u] r by (simp add: reader_def)
  from reader_step_spec [OF assms] obtain a' where "reader_step h sz a = Inr a'" "opnd h sz a' xs" by blast
  then show "unat (sz - (rd_it a + 1)) = length xs" using reader_step_it by (fastforce simp: opnd_def)
qed

text \<open>Pushing the current id and appending what is behind it.\<close>

lemma push_rest:
  assumes "dc_inv h0 d0 h c zs" "opnd h sz a (x # xs)" "m_priv (rd_data a) \<noteq> m_priv d0" "isContiguous (storage h (rd_data a))"
    and "pushable h0 d0 (8 + 5 * (length zs + length (x # xs)))"
  shows "\<exists>h' c'. bindE (dc_push_back h c (rd_id a)) (\<lambda>(h, c). dc_flushWithData h c (uba_shrinkToGetPtr (rd_data a)) (sz - (rd_it a + 1))) =
    Inr (h', c') \<and> dc_flushed h0 d0 h' c' (zs @ x # xs)"
proof -
  note o = opnd_rest [OF assms(2)]
  have "pushable h0 d0 (8 + length (de_code 0 zs) + 5)"
    by (rule pushable_less [OF assms(5)]) (use length_de_code_le [of 0 zs] in simp)
  from dc_push_back_spec [OF assms(1) this, of x] obtain h1 c1 where
    1: "dc_push_back h c x = Inr (h1, c1)" "dc_inv h0 d0 h1 c1 (zs @ [x])" by blast
  have k: "kept h0 d0 h" "kept h0 d0 h1" using assms(1) 1(2) by (simp_all add: dc_inv_def dc_wrote_def)
  have st: "storage h1 w = storage h w" if "m_priv w \<noteq> m_priv d0" for w using keptD [OF k(1) that] keptD [OF k(2) that] by simp
  let ?s = "uba_shrinkToGetPtr (rd_data a)"
  have ps: "m_priv ?s \<noteq> m_priv d0" using o(4) assms(3) by simp
  have "storage h ?s = storage h (rd_data a)" using o(4) by (simp add: storage_def)
  then have i: "isContiguous (storage h1 ?s)" using st [OF ps] assms(4) by simp
  have s: "uba_inv h1 ?s" "view h1 ?s = de_code (last (0 # (zs @ [x]))) xs"
    using o(2,3) view_frame [OF st [OF ps]] by simp_all
  have "pushable h0 d0 (8 + length (de_code 0 ((zs @ [x]) @ xs)))"
    by (rule pushable_less [OF assms(5)]) (use length_de_code_le [of 0 "(zs @ [x]) @ xs"] in simp)
  from dc_flushWithData_spec [OF 1(2) s o(5) ps i this] show ?thesis using 1(1) o(1) by simp
qed

lemma op_loop_end:
  assumes "xs = [] \<or> ys = []" "opnd h sa a xs" "opnd h sb b ys" "dc_inv h0 d0 h c zs"
    and "m_priv (rd_data a) \<noteq> m_priv d0" "m_priv (rd_data b) \<noteq> m_priv d0"
    and "isContiguous (storage h (rd_data a))" "isContiguous (storage h (rd_data b))"
    and room: "pushable h0 d0 (8 + 5 * (length zs + (length xs + length ys)))"
  shows "\<exists>h' c'. bindE (de_op_loop t sa sb h c a b) (de_op_rest t sa sb) = Inr (h', c') \<and> dc_flushed h0 d0 h' c' (zs @ merge_op t xs ys)"
proof -
  note more = opnd_more [OF assms(2)] opnd_more [OF assms(3)]
  have e: "de_op_loop t sa sb h c a b = Inr (h, c, a, b)" using more assms(1) by (subst de_op_loop.simps) auto
  have m: "merge_op t xs ys = (if pushFirstRemainder t then xs else []) @ (if pushSecondRemainder t then ys else [])"
    using assms(1) by (cases xs; cases ys) auto
  have w: "dc_wrote h0 d0 h c (de_code 0 zs)" "dc_count c = of_nat (length zs)" using assms(4) by (simp_all add: dc_inv_def)
  consider x xs' where "pushFirstRemainder t" "xs = x # xs'" "ys = []"
    | y ys' where "\<not> (pushFirstRemainder t \<and> xs \<noteq> [])" "pushSecondRemainder t" "ys = y # ys'" "xs = []"
    | "\<not> (pushFirstRemainder t \<and> xs \<noteq> [])" "\<not> (pushSecondRemainder t \<and> ys \<noteq> [])"
    using assms(1) by (cases xs; cases ys) auto
  then show ?thesis
  proof cases
    case 1
    from push_rest [OF assms(4) assms(2) [unfolded 1(2)] assms(5,7)] room show ?thesis
      unfolding e m using 1 more by (simp add: de_op_rest_def)
  next
    case 2
    from push_rest [OF assms(4) assms(3) [unfolded 2(3)] assms(6,8)] room show ?thesis
      unfolding e m using 2 more by (simp add: de_op_rest_def)
  next
    case 3
    have "pushable h0 d0 (8 + length (de_code 0 zs))"
      by (rule pushable_less [OF room]) (use length_de_code_le [of 0 zs] in simp)
    from dc_flush_spec [OF w this] obtain h' where "dc_flush h c = Inr h'" "dc_flushed h0 d0 h' c zs" by blast
    then show ?thesis unfolding e m using 3 more by (auto simp: de_op_rest_def)
  qed
qed

lemma op_loop_spec:
  "opnd h sa a xs \<Longrightarrow> opnd h sb b ys \<Longrightarrow> dc_inv h0 d0 h c zs \<Longrightarrow>
    m_priv (rd_data a) \<noteq> m_priv d0 \<Longrightarrow> m_priv (rd_data b) \<noteq> m_priv d0 \<Longrightarrow>
    isContiguous (storage h (rd_data a)) \<Longrightarrow> isContiguous (storage h (rd_data b)) \<Longrightarrow>
    pushable h0 d0 (8 + 5 * (length zs + (length xs + length ys))) \<Longrightarrow>
    \<exists>h' c'. bindE (de_op_loop t sa sb h c a b) (de_op_rest t sa sb) = Inr (h', c') \<and> dc_flushed h0 d0 h' c' (zs @ merge_op t xs ys)"
proof (induction "length xs + length ys" arbitrary: h a b c zs xs ys rule: less_induct)
  case less
  note more = opnd_more [OF less.prems(1)] opnd_more [OF less.prems(2)]
  show ?case
  proof (cases "xs = [] \<or> ys = []")
    case True
    then show ?thesis by (rule op_loop_end [OF _ less.prems])
  next
    case False
    then obtain x xs' y ys' where xy: "xs = x # xs'" "ys = y # ys'" by (meson neq_Nil_conv)
    have room: "pushable h0 d0 (8 + length (de_code 0 zs) + 5)"
      by (rule pushable_less [OF less.prems(8)]) (use length_de_code_le [of 0 zs] xy in simp)
    have lt: "rd_it a < sa" "rd_it b < sb" and id: "rd_id a = x" "rd_id b = y"
      using more less.prems(1,2) xy by (simp_all add: opnd_def)
    have push: "\<exists>h1 c1. dc_push_if p h c v = Inr (h1, c1) \<and> dc_inv h0 d0 h1 c1 (zs @ (if p then [v] else [])) \<and>
        opnd h1 sa a (x # xs') \<and> opnd h1 sb b (y # ys') \<and> (\<forall>w. m_priv w \<noteq> m_priv d0 \<longrightarrow> storage h1 w = storage h w)" for p v
    proof -
      from dc_push_if_spec [OF less.prems(3) room] obtain h1 c1 where
        1: "dc_push_if p h c v = Inr (h1, c1)" "dc_inv h0 d0 h1 c1 (zs @ (if p then [v] else []))" by blast
      have "kept h0 d0 h" "kept h0 d0 h1" using less.prems(3) 1(2) by (simp_all add: dc_inv_def dc_wrote_def)
      then have s: "storage h1 w = storage h w" if "m_priv w \<noteq> m_priv d0" for w using keptD that by metis
      have "opnd h1 sa a (x # xs')" by (rule opnd_frame [OF less.prems(1) [unfolded xy]]) (rule s [OF less.prems(4)])
      moreover have "opnd h1 sb b (y # ys')" by (rule opnd_frame [OF less.prems(2) [unfolded xy]]) (rule s [OF less.prems(5)])
      ultimately show ?thesis using 1 s by blast
    qed
    have go: "\<exists>h' c'. bindE (de_op_loop t sa sb h1 c1 a' b') (de_op_rest t sa sb) = Inr (h', c') \<and>
        dc_flushed h0 d0 h' c' ((zs @ us) @ merge_op t vs ws)"
      if "length vs + length ws < length xs + length ys" "length us + (length vs + length ws) \<le> length xs + length ys"
        and "dc_inv h0 d0 h1 c1 (zs @ us)" "\<forall>w. m_priv w \<noteq> m_priv d0 \<longrightarrow> storage h1 w = storage h w"
        and "opnd h1 sa a' vs" "opnd h1 sb b' ws" "m_priv (rd_data a') = m_priv (rd_data a)" "m_priv (rd_data b') = m_priv (rd_data b)"
      for us vs ws h1 c1 a' b'
    proof -
      have "storage h1 (rd_data a') = storage h (rd_data a)" "storage h1 (rd_data b') = storage h (rd_data b)"
        using that(4,7,8) less.prems(4,5) by (simp_all add: storage_def)
      then have c: "isContiguous (storage h1 (rd_data a'))" "isContiguous (storage h1 (rd_data b'))" using less.prems(6,7) by simp_all
      have p: "m_priv (rd_data a') \<noteq> m_priv d0" "m_priv (rd_data b') \<noteq> m_priv d0" using that(7,8) less.prems(4,5) by simp_all
      have "pushable h0 d0 (8 + 5 * (length (zs @ us) + (length vs + length ws)))"
        by (rule pushable_less [OF less.prems(8)]) (use that(2) in simp)
      from less.hyps [OF that(1,5,6,3) p c this] show ?thesis .
    qed
    consider "x = y" | "x < y" | "y < x" by force
    then show ?thesis
    proof cases
      case 1
      from push [of "pushEqual t" x] obtain h1 c1 where
        p: "dc_push_if (pushEqual t) h c x = Inr (h1, c1)" "dc_inv h0 d0 h1 c1 (zs @ (if pushEqual t then [x] else []))"
          "opnd h1 sa a (x # xs')" "opnd h1 sb b (y # ys')" "\<forall>w. m_priv w \<noteq> m_priv d0 \<longrightarrow> storage h1 w = storage h w" by blast
      from reader_step_spec [OF p(3)] reader_step_spec [OF p(4)] obtain a' b' where
        ab: "reader_step h1 sa a = Inr a'" "opnd h1 sa a' xs'" "m_priv (rd_data a') = m_priv (rd_data a)"
          "reader_step h1 sb b = Inr b'" "opnd h1 sb b' ys'" "m_priv (rd_data b') = m_priv (rd_data b)" by blast
      have "de_op_loop t sa sb h c a b = de_op_loop t sa sb h1 c1 a' b'"
        using lt id 1 p(1) ab(1,4) by (subst de_op_loop.simps) simp
      then show ?thesis using go [OF _ _ p(2,5) ab(2,5,3,6)] 1 xy by (cases "pushEqual t") auto
    next
      case 2
      from push [of "pushFirstSmaller t" x] obtain h1 c1 where
        p: "dc_push_if (pushFirstSmaller t) h c x = Inr (h1, c1)" "dc_inv h0 d0 h1 c1 (zs @ (if pushFirstSmaller t then [x] else []))"
          "opnd h1 sa a (x # xs')" "opnd h1 sb b (y # ys')" "\<forall>w. m_priv w \<noteq> m_priv d0 \<longrightarrow> storage h1 w = storage h w" by blast
      from reader_step_spec [OF p(3)] obtain a' where
        ab: "reader_step h1 sa a = Inr a'" "opnd h1 sa a' xs'" "m_priv (rd_data a') = m_priv (rd_data a)" by blast
      have "de_op_loop t sa sb h c a b = de_op_loop t sa sb h1 c1 a' b"
        using lt id 2 p(1) ab(1) by (subst de_op_loop.simps) auto
      then show ?thesis using go [OF _ _ p(2,5) ab(2) p(4) ab(3) refl] 2 xy by simp
    next
      case 3
      from push [of "pushSecondSmaller t" y] obtain h1 c1 where
        p: "dc_push_if (pushSecondSmaller t) h c y = Inr (h1, c1)" "dc_inv h0 d0 h1 c1 (zs @ (if pushSecondSmaller t then [y] else []))"
          "opnd h1 sa a (x # xs')" "opnd h1 sb b (y # ys')" "\<forall>w. m_priv w \<noteq> m_priv d0 \<longrightarrow> storage h1 w = storage h w" by blast
      from reader_step_spec [OF p(4)] obtain b' where
        ab: "reader_step h1 sb b = Inr b'" "opnd h1 sb b' ys'" "m_priv (rd_data b') = m_priv (rd_data b)" by blast
      have "de_op_loop t sa sb h c a b = de_op_loop t sa sb h1 c1 a b'"
        using lt id 3 p(1) ab(1) by (subst de_op_loop.simps) auto
      then show ?thesis using go [OF _ _ p(2,5,3) ab(2) refl ab(3)] 3 xy by auto
    qed
  qed
qed

section \<open>The operations as a whole\<close>

lemma de_ops_start:
  assumes "de_inv h x xs" "xs \<noteq> []"
  obtains u where "stream_getVlPackedUint32 h (de_data x) = Inr (hd xs, u)" "m_priv u = m_priv (de_data x)"
    "opnd h (de_size x) \<lparr>rd_data = u, rd_it = 0, rd_id = hd xs\<rparr> xs"
proof -
  obtain y ys where xs: "xs = y # ys" using assms(2) by (cases xs) auto
  have "reader h (de_data x) 0 (y # ys)" "unat (de_size x) = length xs" using assms(1) xs by (simp_all add: de_inv_def de_data_inv_def)
  moreover from this(1) obtain u where "stream_getVlPackedUint32 h (de_data x) = Inr (y - 0, u)" "reader h u y ys" "m_priv u = m_priv (de_data x)"
    by (rule reader_next)
  ultimately show thesis using that [of u] xs by (simp add: opnd_def)
qed

lemma de_inv_frame:
  assumes "de_inv h x xs" "storage h' (de_data x) = storage h (de_data x)" "storage h' (de_cache x) = storage h (de_cache x)"
  shows "de_inv h' x xs"
  using assms(1) reader_frame [OF assms(2)] view_frame [OF assms(3)] by (simp add: de_inv_def de_data_inv_def de_cache_inv_def)

lemma de_genericOp_spec:
  assumes "de_inv h x xs" "de_inv h y ys" "xs \<noteq> []" "ys \<noteq> []" "length xs + length ys < 2 ^ 29"
    and "isContiguous (storage h (de_data x))" "isContiguous (storage h (de_data y))"
    and fresh: "r1 \<notin> {m_priv (de_data x), m_priv (de_cache x), m_priv (de_data y), m_priv (de_cache y)}" "r2 \<noteq> r1"
  shows "\<exists>h' z. de_genericOp t h r1 r2 x y = Inr (h', z) \<and> de_inv h' z (merge_op t xs ys) \<and>
    (\<forall>w. m_priv w \<noteq> r1 \<and> m_priv w \<noteq> r2 \<longrightarrow> storage h' w = storage h w) \<and>
    m_priv (de_data z) = r1 \<and> m_priv (de_cache z) = r2 \<and> isContiguous (storage h' (de_data z))"
proof -
  let ?d = "uba_of_priv r1 0 8"
  have "unat (8 :: u64) \<le> max_size" by (simp add: max_size_def)
  from createCache_spec [OF this, of h r1] obtain h0 where
    0: "createCache h r1 8 = Inr (h0, ?d)" "uba_inv h0 ?d" "growable h0 ?d" "\<forall>w. m_priv w \<noteq> r1 \<longrightarrow> storage h0 w = storage h w"
    by auto
  have pd: "m_priv ?d = r1" by (simp add: uba_of_priv_def)
  have room: "pushable h0 ?d (8 + 5 * (length xs + length ys))"
    using 0(2,3) assms(5) by (simp add: pushable_def uba_of_priv_def max_size_def)
  from dc_new_spec [of h0 ?d] pushable_less [OF room] obtain h1 c where
    1: "dc_new h0 ?d = Inr (h1, c)" "dc_inv h0 ?d h1 c []" by auto
  then have k1: "kept h0 ?d h1" by (simp add: dc_inv_def dc_wrote_def)
  have s1: "storage h1 w = storage h w" if "m_priv w \<noteq> r1" for w using keptD [OF k1, of w] 0(4) that pd by simp
  have i: "de_inv h1 x xs" "de_inv h1 y ys" using assms(1,2) fresh by (auto intro: de_inv_frame s1)
  obtain a where a: "stream_getVlPackedUint32 h1 (de_data x) = Inr (hd xs, a)" "m_priv a = m_priv (de_data x)"
      "opnd h1 (de_size x) \<lparr>rd_data = a, rd_it = 0, rd_id = hd xs\<rparr> xs" by (rule de_ops_start [OF i(1) assms(3)])
  obtain b where b: "stream_getVlPackedUint32 h1 (de_data y) = Inr (hd ys, b)" "m_priv b = m_priv (de_data y)"
      "opnd h1 (de_size y) \<lparr>rd_data = b, rd_it = 0, rd_id = hd ys\<rparr> ys" by (rule de_ops_start [OF i(2) assms(4)])
  have "storage h1 a = storage h (de_data x)" "storage h1 b = storage h (de_data y)"
    using a(2) b(2) fresh s1 [of "de_data x"] s1 [of "de_data y"] by (simp_all add: storage_def)
  then have co: "isContiguous (storage h1 a)" "isContiguous (storage h1 b)" using assms(6,7) by simp_all
  let ?m = "merge_op t xs ys"
  from op_loop_spec [OF a(3) b(3) 1(2), of t] co room a(2) b(2) fresh(1) pd obtain h2 c2 where
    2: "bindE (de_op_loop t (de_size x) (de_size y) h1 c \<lparr>rd_data = a, rd_it = 0, rd_id = hd xs\<rparr> \<lparr>rd_data = b, rd_it = 0, rd_id = hd ys\<rparr>)
          (de_op_rest t (de_size x) (de_size y)) = Inr (h2, c2)" "dc_flushed h0 ?d h2 c2 ?m" by auto
  have "length ?m < 2 ^ 29" using length_merge_op [of t xs ys] assms(5) by simp
  from cache_index_spec [OF 0(1) 2(2) this fresh(2)] show ?thesis
    using 0(1) 1(1) a(1) b(1) 2(1) by (auto simp: de_genericOp_def)
qed

end
