(* ===== verification/ItemIndexDECreate.thy ===== *)
theory ItemIndexDECreate
  imports ItemIndexDEOps
begin

text \<open>
  Creating a delta encoded index from a list of ids and from a bit set, and the properties of the component.
\<close>

section \<open>Creation from a list\<close>

lemma length_p_u32: "length (p_u32 v) = 4"
  by (simp add: p_u32_def)

lemma put_header:
  assumes "pushable h0 d0 n" "appended h0 d0 (p_u32 w @ bs) h d"
  shows "\<exists>h'. uba_putUint32 h d (m_putPtr d0) v = Inr h' \<and> appended h0 d0 (p_u32 v @ bs) h' d"
proof -
  let ?b = "unat (m_putPtr d0)"
  have b: "?b \<le> length (view h0 d0)" using assms(1) by (simp add: pushable_def word_le_nat_alt)
  have a: "uba_inv h d" "view h d = blit ?b (p_u32 w @ bs) (view h0 d0)" "unat (m_putPtr d) = ?b + 4 + length bs" "unat (m_putPtr d) \<le> unat (m_len d)"
    using assms(2) by (simp_all add: appended_def word_le_nat_alt length_p_u32)
  then have f: "?b + length (p_u32 v) \<le> unat (m_len d)" by (simp add: length_p_u32)
  let ?h = "upd h d (m_putPtr d0) (p_u32 v)"
  have "uba_putUint32 h d (m_putPtr d0) v = Inr ?h"
    using Uint32.put_spec [OF a(1), of "m_putPtr d0" v] f unat_bound64 [of "m_len d"] by (simp add: uba_putUint32_def length_p_u32)
  moreover have "view ?h d = blit ?b (p_u32 v @ bs) (view h0 d0)"
    unfolding view_upd [OF a(1) f] a(2) using b by (simp add: blit_def length_p_u32)
  then have "appended h0 d0 (p_u32 v @ bs) ?h d"
    using assms(2) inv_upd [OF a(1) f a(1)] by (simp add: appended_def growable_def storage_upd length_p_u32)
  ultimately show ?thesis by blast
qed

lemma create_rest_spec:
  "pushable h d (5 * length xs) \<Longrightarrow> \<exists>h' d'. de_create_rest h d p xs = Inr (h', d') \<and> appended h d (de_code p xs) h' d'"
proof (induction xs arbitrary: h d p)
  case Nil
  then show ?case using appended_Nil by (auto simp: pushable_def appended_def)
next
  case (Cons x xs)
  have "pushable h d 5" by (rule pushable_less [OF Cons.prems]) simp
  then obtain n h1 d1 where 1: "stream_putVlPackedUint32 h d (x - p) = Inr (n, h1, d1)" "appended h d (vl_bytes (x - p)) h1 d1"
    by (rule put_delta)
  have "pushable h d (length (vl_bytes (x - p)) + 5 * length xs)"
    by (rule pushable_less [OF Cons.prems]) (use length_vl32 [of "x - p"] in simp)
  from Cons.IH [OF appended_pushable [OF this 1(2)]] obtain h2 d2 where
    2: "de_create_rest h1 d1 x xs = Inr (h2, d2)" "appended h1 d1 (de_code x xs) h2 d2" by blast
  show ?case using 1(1) 2(1) appended_trans [OF Cons.prems 1(2) 2(2)] by simp
qed

lemma de_create_spec:
  assumes p: "pushable h dest (8 + 5 * length xs)" and l: "length xs < 2 ^ 29"
  shows "\<exists>h' d'. de_create xs h dest = Inr (h', d') \<and>
    appended h dest (p_u32 (of_nat (length (de_code 0 xs))) @ p_u32 (of_nat (length xs)) @ de_code 0 xs) h' d'"
proof -
  let ?n = "of_nat (length xs) :: u32" and ?code = "de_code 0 xs"
  have n: "narrow_check_u (int (length xs)) = Inr ?n" using l by (simp add: narrow_check_u_def)
  have p0: "pushable h dest (length (p_u32 0) + (4 + 5 * length xs))" using p by (simp add: length_p_u32)
  have "pushable h dest (length (p_u32 0))" by (rule pushable_less [OF p0]) simp
  from SUint32.sput_ok [OF this] obtain h1 d1 where
    1: "stream_putUint32 h dest 0 = Inr (h1, d1)" "appended h dest (p_u32 0) h1 d1" by blast
  have p1: "pushable h1 d1 (length (p_u32 ?n) + 5 * length xs)" using appended_pushable [OF p0 1(2)] by (simp add: length_p_u32)
  have "pushable h1 d1 (length (p_u32 ?n))" by (rule pushable_less [OF p1]) simp
  from SUint32.sput_ok [OF this] obtain h2 d2 where
    2: "stream_putUint32 h1 d1 ?n = Inr (h2, d2)" "appended h1 d1 (p_u32 ?n) h2 d2" by blast
  from create_rest_spec [OF appended_pushable [OF p1 2(2)], of 0] obtain h3 d3 where
    3: "de_create_rest h2 d2 0 xs = Inr (h3, d3)" "appended h2 d2 ?code h3 d3" by blast
  have a2: "appended h dest (p_u32 0 @ p_u32 ?n) h2 d2" by (rule appended_trans [OF p 1(2) 2(2)])
  have "appended h dest ((p_u32 0 @ p_u32 ?n) @ ?code) h3 d3" by (rule appended_trans [OF p a2 3(2)])
  then have a3: "appended h dest (p_u32 0 @ p_u32 ?n @ ?code) h3 d3" by simp
  have lc: "length ?code < 2 ^ 32" using length_de_code_le [of 0 xs] l by simp
  have "unat (m_putPtr d3) = unat (m_putPtr dest) + (8 + length ?code)" using a3 by (simp add: appended_def length_p_u32)
  from of_nat_eqI [OF this] have e: "m_putPtr d3 - m_putPtr dest = of_nat (8 + length ?code)" by simp
  then have "m_putPtr d3 - m_putPtr dest - 8 = of_nat (length ?code)" "m_putPtr d3 - (m_putPtr dest + 8) = of_nat (length ?code)"
    by (simp_all add: algebra_simps)
  moreover have "unat (of_nat (length ?code) :: u64) = length ?code" using lc by (intro unat_of_nat_small) simp
  then have "uint (of_nat (length ?code) :: u64) = int (length ?code)" by (metis uint_nat)
  moreover have "narrow_check_u (int (length ?code)) = Inr (of_nat (length ?code) :: u32)" using lc by (simp add: narrow_check_u_def)
  ultimately have s: "narrow_check_u (uint (m_putPtr d3 - m_putPtr dest - 8)) = Inr (of_nat (length ?code) :: u32)"
    "narrow_check_u (uint (m_putPtr d3 - (m_putPtr dest + 8))) = Inr (of_nat (length ?code) :: u32)" by simp_all
  from put_header [OF p a3, of "of_nat (length ?code)"] obtain h4 where
    4: "uba_putUint32 h3 d3 (m_putPtr dest) (of_nat (length ?code)) = Inr h4"
      "appended h dest (p_u32 (of_nat (length ?code)) @ p_u32 ?n @ ?code) h4 d3" by blast
  show ?thesis
  proof (cases xs)
    case Nil
    then show ?thesis using 1(1) 2(1) n a2 by (simp add: de_create_def Let_def)
  next
    case (Cons x ys)
    from 3(1) [unfolded Cons] obtain k h' d' where
      "stream_putVlPackedUint32 h2 d2 x = Inr (k, h', d')" "de_create_rest h' d' x ys = Inr (h3, d3)"
      by (auto simp: bindE_eq_Inr_iff)
    then have "de_create xs h dest = Inr (h4, d3)"
      using 1(1) 2(1) n s 4(1) Cons by (cases ys) (simp_all add: de_create_def Let_def)
    then show ?thesis using 4(2) by blast
  qed
qed

lemma de_getSizeInBytes_spec:
  assumes "de_inv h x xs"
  shows "de_getSizeInBytes x = of_nat (8 + length (de_code 0 xs))"
proof -
  have r: "uba_inv h (de_data x)" "view h (de_data x) = de_code 0 xs"
    using assms by (auto simp: de_inv_def de_data_inv_def reader_def)
  have "length (view h (de_data x)) = unat (m_len (de_data x))" using r(1) by simp
  then have "m_len (de_data x) = of_nat (length (de_code 0 xs))" unfolding r(2) by (metis of_nat_unat ucast_id)
  then show ?thesis by (simp add: de_getSizeInBytes_def)
qed

section \<open>Creation from a bit set\<close>

definition byte_ids :: "u32 \<Rightarrow> nat \<Rightarrow> u8 \<Rightarrow> u32 list" where
  "byte_ids base n d = map (\<lambda>k. base + of_nat k) (filter (bit d) [0..<n])"

lemma byte_ids_Suc: "byte_ids base (Suc n) d = (if odd d then [base] else []) @ byte_ids (base + 1) n (drop_bit 1 d)"
proof -
  have "[0..<Suc n] = 0 # map Suc [0..<n]" by (simp only: map_Suc_upt upt_conv_Cons zero_less_Suc)
  then have "filter (bit d) [0..<Suc n] = (if odd d then [0] else []) @ map Suc (filter (bit (drop_bit 1 d)) [0..<n])"
    by (simp add: filter_map comp_def bit_0 bit_simps)
  then show ?thesis by (simp add: byte_ids_def comp_def add.assoc del: upt_Suc)
qed

lemma byte_ids_zero [simp]: "byte_ids base n 0 = []"
  by (simp add: byte_ids_def)

lemma length_byte_ids: "length (byte_ids base n d) \<le> n"
  using length_filter_le [of "bit d" "[0..<n]"] by (simp add: byte_ids_def)

text \<open>
  A creator: \<open>sink k h c zs n\<close> says that the ids \<open>zs\<close> have been pushed and that there is room for \<open>n\<close> more. Its storage
  is at the addresses \<open>dests k\<close>.
\<close>

locale id_sink =
  fixes push :: "heap \<Rightarrow> 'c \<Rightarrow> u32 \<Rightarrow> (heap \<times> 'c) res"
    and sink :: "'k \<Rightarrow> heap \<Rightarrow> 'c \<Rightarrow> u32 list \<Rightarrow> nat \<Rightarrow> bool" and dests :: "'k \<Rightarrow> nat set"
  assumes push_ok: "sink k h c zs (Suc n) \<Longrightarrow> \<exists>h' c'. push h c v = Inr (h', c') \<and> sink k h' c' (zs @ [v]) n \<and> others_kept (dests k) h h'"
    and sink_less: "sink k h c zs n \<Longrightarrow> m \<le> n \<Longrightarrow> sink k h c zs m"
begin

lemma bits_ok:
  "sink k h c zs (n + m) \<Longrightarrow>
    \<exists>h' c'. fbs_bits push n curId i data h c = Inr (h', c') \<and> sink k h' c' (zs @ byte_ids (curId + i) n data) m \<and> others_kept (dests k) h h'"
proof (induction n arbitrary: i data h c zs)
  case 0
  then show ?case by (simp add: byte_ids_def)
next
  case (Suc n)
  show ?case
  proof (cases "data = 0")
    case True
    then show ?thesis using sink_less [OF Suc.prems, of m] by simp
  next
    case False
    let ?us = "if odd data then [curId + i] else []"
    have "sink k h c zs (Suc (n + m))" using Suc.prems by simp
    from push_ok [OF this, of "curId + i"] sink_less [OF this, of "n + m"] obtain h1 c1 where
      1: "(if data AND 1 \<noteq> 0 then push h c (curId + i) else Inr (h, c)) = Inr (h1, c1)" "sink k h1 c1 (zs @ ?us) (n + m)" "others_kept (dests k) h h1"
      by (cases "odd data") (auto simp: and_one_eq odd_iff_mod_2_eq_one)
    from Suc.IH [OF 1(2), of "i + 1" "drop_bit 1 data"] obtain h2 c2 where
      2: "fbs_bits push n curId (i + 1) (drop_bit 1 data) h1 c1 = Inr (h2, c2)"
        "sink k h2 c2 ((zs @ ?us) @ byte_ids (curId + i + 1) n (drop_bit 1 data)) m" "others_kept (dests k) h1 h2"
      by (auto simp: add.assoc)
    have "fbs_bits push (Suc n) curId i data h c = Inr (h2, c2)" using False 1(1) 2(1) by (simp del: drop_bit_Suc)
    then show ?thesis using 2(2) others_kept_same [OF 1(3) 2(3)] by (simp add: byte_ids_Suc del: drop_bit_Suc)
  qed
qed

lemma bytes_ok:
  assumes "uba_inv h bits" "m_priv bits \<notin> dests k" "unat (m_len bits) < 2 ^ 26" "unat sz = unat (m_len bits)"
  shows "sink k h1 c zs (8 * (unat sz - unat i)) \<Longrightarrow> storage h1 bits = storage h bits \<Longrightarrow> unat i \<le> unat sz \<Longrightarrow> unat cur = 8 * unat i \<Longrightarrow>
    \<exists>h' c'. fbs_bytes push sz bits i cur h1 c = Inr (h', c') \<and> sink k h' c' (zs @ map of_nat (elems_from (view h bits) (8 * unat i))) 0 \<and>
      others_kept (dests k) h1 h'"
proof (induction "unat sz - unat i" arbitrary: h1 c zs i cur rule: less_induct)
  case less
  show ?case
  proof (cases "i < sz")
    case False
    then have "8 * length (view h bits) \<le> 8 * unat i" using assms(1,4) by (simp add: word_less_nat_alt)
    then have "elems_from (view h bits) (8 * unat i) = []" by (rule elems_end)
    then show ?thesis using sink_less [OF less.prems(1), of 0] False by (subst fbs_bytes.simps) auto
  next
    case True
    have lt: "unat i < length (view h bits)" using True assms(1,4) by (simp add: word_less_nat_alt)
    have i1: "unat (i + 1) = unat i + 1" using True unat_bound [of sz] by (simp add: word_less_nat_alt unat_add_nowrap)
    have c1: "unat (cur + 8) = 8 * unat (i + 1)" using less.prems(4) i1 True assms(3,4) by (simp add: word_less_nat_alt unat_add_nowrap)
    have iv: "uba_inv h1 bits" "view h1 bits = view h bits" using assms(1) view_frame [OF less.prems(2)] by simp_all
    have "unat (ucast i :: u64) < unat (m_len bits)" using lt assms(1) by (simp add: unat_ucast64)
    from at_spec(1) [OF iv(1) this] have at: "uba_at h1 bits (ucast i) = Inr (view h bits ! unat i)" by (simp add: iv(2) unat_ucast64)
    let ?d = "view h bits ! unat i"
    have lti: "unat i < unat sz" using True by (simp add: word_less_nat_alt)
    then have "8 * (unat sz - unat i) = 8 + 8 * (unat sz - unat (i + 1))" using i1 by simp
    with less.prems(1) have "sink k h1 c zs (8 + 8 * (unat sz - unat (i + 1)))" by simp
    from bits_ok [OF this, of cur 0 ?d] obtain h2 c2 where
      2: "fbs_bits push 8 cur 0 ?d h1 c = Inr (h2, c2)" "sink k h2 c2 (zs @ byte_ids cur 8 ?d) (8 * (unat sz - unat (i + 1)))" "others_kept (dests k) h1 h2"
      by auto
    have st: "storage h2 bits = storage h bits" using less.prems(2) others_keptD [OF 2(3) assms(2)] by simp
    have "unat sz - unat (i + 1) < unat sz - unat i" "unat (i + 1) \<le> unat sz" using i1 lti by simp_all
    from less.hyps [OF this(1) 2(2) st this(2) c1] obtain h3 c3 where
      3: "fbs_bytes push sz bits (i + 1) (cur + 8) h2 c2 = Inr (h3, c3)"
        "sink k h3 c3 ((zs @ byte_ids cur 8 ?d) @ map of_nat (elems_from (view h bits) (8 * unat (i + 1)))) 0" "others_kept (dests k) h2 h3" by blast
    have "cur = of_nat (8 * unat i)" using less.prems(4) by (metis of_nat_unat ucast_id)
    then have "byte_ids cur 8 ?d = map (\<lambda>j. of_nat (8 * unat i + j)) (filter (bit ?d) [0..<8])" by (simp add: byte_ids_def)
    then have "map of_nat (elems_from (view h bits) (8 * unat i)) =
        byte_ids cur 8 ?d @ map of_nat (elems_from (view h bits) (8 * unat (i + 1)))"
      unfolding elems_byte [OF lt] i1 by (simp add: comp_def)
    moreover have "fbs_bytes push sz bits i cur h1 c = Inr (h3, c3)" using True at 2(1) 3(1) by (subst fbs_bytes.simps) simp
    ultimately show ?thesis using 3(2) others_kept_same [OF 2(3) 3(3)] by simp
  qed
qed

text \<open>The ids of a bit set, into a new creator.\<close>

lemma bit_set_ok:
  assumes "uba_inv h bits" "m_priv bits \<notin> dests k" "unat (m_len bits) < 2 ^ 26" "sink k h c [] (8 * unat (m_len bits))"
  shows "\<exists>h' c'. bindE (narrow_check_u (uint (m_len bits))) (\<lambda>sz. fbs_bytes push sz bits 0 0 h c) = Inr (h', c') \<and>
    sink k h' c' (map of_nat (elem_list h bits)) 0 \<and> others_kept (dests k) h h'"
proof -
  let ?sz = "ucast (m_len bits) :: u32"
  have sz: "unat ?sz = unat (m_len bits)" using assms(3) by (simp add: unsigned_ucast_eq take_bit_nat_eq_self_iff)
  have "unat (m_len bits) < 2 ^ 32" using assms(3) by simp
  then have "int (unat (m_len bits)) < int (2 ^ 32)" by (simp only: of_nat_less_iff)
  then have "uint (m_len bits) < 2 ^ 32" by simp
  moreover have "word_of_int (uint (m_len bits)) = ?sz" by (metis ucast_eq)
  ultimately have nc: "narrow_check_u (uint (m_len bits)) = Inr ?sz" by (simp add: narrow_check_u_def)
  from bytes_ok [OF assms(1-3) sz, of h c "[]" 0 0] assms(4) sz show ?thesis by (auto simp: nc)
qed

end

definition dc_sink :: "heap \<times> uba \<Rightarrow> heap \<Rightarrow> de_creator \<Rightarrow> u32 list \<Rightarrow> nat \<Rightarrow> bool" where
  "dc_sink = (\<lambda>(h0, d0) h c zs n. dc_inv h0 d0 h c zs \<and> pushable h0 d0 (8 + 5 * (length zs + n)))"

interpretation dc: id_sink dc_push_back dc_sink "\<lambda>(h0, d0). {m_priv d0}"
proof
  fix k :: "heap \<times> uba" and h c zs n m v
  obtain h0 d0 where k: "k = (h0, d0)" by (cases k)
  show "\<exists>h' c'. dc_push_back h c v = Inr (h', c') \<and> dc_sink k h' c' (zs @ [v]) n \<and> others_kept (case k of (h0, d0) \<Rightarrow> {m_priv d0}) h h'"
    if "dc_sink k h c zs (Suc n)"
  proof -
    have i: "dc_inv h0 d0 h c zs" and p: "pushable h0 d0 (8 + 5 * (length zs + Suc n))" using that k by (simp_all add: dc_sink_def)
    have "pushable h0 d0 (8 + length (de_code 0 zs) + 5)" by (rule pushable_less [OF p]) (use length_de_code_le [of 0 zs] in simp)
    from dc_push_back_spec [OF i this, of v] obtain h' c' where 1: "dc_push_back h c v = Inr (h', c')" "dc_inv h0 d0 h' c' (zs @ [v])" by blast
    have "kept h0 d0 h" "kept h0 d0 h'" using i 1(2) by (simp_all add: dc_inv_def dc_wrote_def)
    then have "others_kept {m_priv d0} h h'" by (simp add: kept_def others_kept_def)
    then show ?thesis using 1 p k by (simp add: dc_sink_def)
  qed
  show "dc_sink k h c zs m" if "dc_sink k h c zs n" "m \<le> n"
    using that pushable_less [of h0 d0 "8 + 5 * (length zs + n)" "8 + 5 * (length zs + m)"] k by (simp add: dc_sink_def)
qed

lemma de_fromBitSet_spec:
  assumes "uba_inv h bits" "unat (m_len bits) < 2 ^ 26" "r1 \<noteq> m_priv bits" "r2 \<noteq> r1"
  shows "\<exists>h' x. de_fromBitSet h r1 r2 bits = Inr (h', x) \<and> de_inv h' x (map of_nat (elem_list h bits)) \<and>
    (\<forall>w. m_priv w \<noteq> r1 \<and> m_priv w \<noteq> r2 \<longrightarrow> storage h' w = storage h w) \<and>
    m_priv (de_data x) = r1 \<and> m_priv (de_cache x) = r2 \<and> isContiguous (storage h' (de_data x))"
proof -
  let ?n = "if m_len bits = 0 then 1 else m_len bits" and ?es = "map of_nat (elem_list h bits) :: u32 list"
  let ?d = "uba_of_priv r1 0 ?n"
  have "unat (m_len bits) \<le> max_size" using assms(2) by (simp add: max_size_def)
  from createCache_spec [OF this, of h r1] obtain h0 where
    0: "createCache h r1 (m_len bits) = Inr (h0, ?d)" "uba_inv h0 ?d" "growable h0 ?d" "\<forall>w. m_priv w \<noteq> r1 \<longrightarrow> storage h0 w = storage h w"
    by blast
  have pd: "m_priv ?d = r1" "m_putPtr ?d = 0" by (simp_all add: uba_of_priv_def)
  have room: "pushable h0 ?d (8 + 5 * (0 + 8 * unat (m_len bits)))"
    using 0(2,3) assms(2) by (simp add: pushable_def uba_of_priv_def max_size_def)
  from dc_new_spec [of h0 ?d] pushable_less [OF room] obtain h1 c where
    1: "dc_new h0 ?d = Inr (h1, c)" "dc_inv h0 ?d h1 c []" by auto
  then have "kept h0 ?d h1" by (simp add: dc_inv_def dc_wrote_def)
  then have st: "storage h1 bits = storage h bits" using 0(4) assms(3) pd(1) keptD by metis
  have el: "elem_list h1 bits = elem_list h bits" using view_frame(1) [OF st] by simp
  have "uba_inv h1 bits" using view_frame(2) [OF st] assms(1) by simp
  from dc.bit_set_ok [OF this _ assms(2), of "(h0, ?d)" c] 1(2) room assms(3) pd obtain h2 c2 where
    2: "bindE (narrow_check_u (uint (m_len bits))) (\<lambda>sz. fbs_bytes dc_push_back sz bits 0 0 h1 c) = Inr (h2, c2)" "dc_inv h0 ?d h2 c2 ?es"
    by (auto simp: dc_sink_def el)
  have "length (elem_list h bits) \<le> length [0..<8 * length (view h bits)]" unfolding elems_from_def by (rule length_filter_le)
  then have l: "length ?es \<le> 8 * unat (m_len bits)" using assms(1) by simp
  have "pushable h0 ?d (8 + length (de_code 0 ?es))"
    by (rule pushable_less [OF room]) (use length_de_code_le [of 0 ?es] l in simp)
  with 2(2) obtain h3 where 3: "dc_flush h2 c2 = Inr h3" "dc_flushed h0 ?d h3 c2 ?es"
    using dc_flush_spec [of h0 ?d h2 c2 ?es] by (auto simp: dc_inv_def)
  have "length ?es < 2 ^ 29" using l assms(2) by simp
  from cache_index_spec [OF 0(1) 3(2) this assms(4)] show ?thesis
    using 0(1) 1(1) 2(1) 3(1) by (auto simp: de_fromBitSet_def bindE_eq_Inr_iff)
qed

section \<open>Several reads\<close>

text \<open>A sequence of \<open>at\<close> calls; every call leaves the cache as it is for the next one.\<close>

fun de_ats :: "heap \<Rightarrow> de \<Rightarrow> u32 list \<Rightarrow> (u32 list \<times> heap \<times> de) res" where
  "de_ats h x [] = Inr ([], h, x)"
| "de_ats h x (p # ps) = bindE (de_at h x p) (\<lambda>(v, h, x). bindE (de_ats h x ps) (\<lambda>(vs, h, x). Inr (v # vs, h, x)))"

lemma de_ats_spec:
  "de_inv h x xs \<Longrightarrow> \<exists>h' x'. de_ats h x ps = Inr (map (\<lambda>p. if unat p < length xs then xs ! unat p else 0) ps, h', x') \<and> de_inv h' x' xs"
proof (induction ps arbitrary: h x)
  case (Cons p ps)
  from de_at_spec [OF Cons.prems, of p] obtain h1 x1 where
    1: "de_at h x p = Inr (if unat p < length xs then xs ! unat p else 0, h1, x1)" "de_inv h1 x1 xs" by blast
  from Cons.IH [OF 1(2)] show ?case using 1(1) by auto
qed auto

lemma de_putInto_bits_spec:
  assumes "de_inv h x xs" "owner h m" "m_priv m \<noteq> m_priv (de_data x)"
  shows "\<exists>h' m'. de_putInto_bits h x m = Inr (h', m') \<and> owner h' m' \<and> dbs_elems h' m' = dbs_elems h m \<union> unat ` set xs"
  using de_put_loop_spec [of h "de_data x" 0 xs m] assms by (simp add: de_putInto_bits_def de_inv_def de_data_inv_def)

lemma de_find_spec:
  assumes "de_inv h x xs" "increasing xs"
  shows "\<exists>r. de_find h x v = Inr r \<and> (if v \<in> set xs then unat r < length xs \<and> xs ! unat r = v else r = - 1)"
proof -
  have l: "de_list (h, x) = xs" using de_putInto_array_spec [OF assms(1)] by (simp add: de_list_def)
  have "sorted xs" using assms(2) by (auto intro: strict_sorted_imp_sorted)
  then show ?thesis using de_idx.find_ok [of "(h, x)" v] assms(1) unfolding l de_find_def by blast
qed

lemma de_open_created:
  assumes "pushable h dest (8 + 5 * length xs)" "length xs < 2 ^ 29" "r \<noteq> m_priv dest"
    and a: "appended h dest (p_u32 (of_nat (length (de_code 0 xs))) @ p_u32 (of_nat (length xs)) @ de_code 0 xs) h1 d'"
  shows "\<exists>h2 x. de_new h1 r (uba_sub d' (m_putPtr dest)) = Inr (h2, x) \<and> de_inv h2 x xs \<and> m_priv (de_data x) = m_priv dest \<and>
    de_getSizeInBytes x = m_putPtr d' - m_putPtr dest"
proof -
  let ?b = "m_putPtr dest" and ?c = "de_code 0 xs"
  let ?bs = "p_u32 (of_nat (length ?c)) @ p_u32 (of_nat (length xs)) @ ?c"
  have pl: "unat ?b \<le> length (view h dest)" using assms(1) by (simp add: pushable_def word_le_nat_alt)
  have i: "uba_inv h1 d'" "view h1 d' = blit (unat ?b) ?bs (view h dest)" "unat (m_putPtr d') = unat ?b + length ?bs"
      "unat (m_putPtr d') \<le> unat (m_len d')" "m_priv d' = m_priv dest"
    using a by (simp_all add: appended_def word_le_nat_alt)
  have "unat ?b \<le> unat (m_len d')" using i(3,4) by simp
  note s = sub_spec [OF i(1) this]
  have v: "view h1 (uba_sub d' ?b) = p_u32 (of_nat (length ?c)) @ p_u32 (of_nat (length xs)) @ ?c @ drop (unat ?b + length ?bs) (view h dest)"
    unfolding s(2) i(2) using pl by (simp add: blit_def)
  have n: "unat (of_nat (length ?c) :: u32) = length ?c" "unat (of_nat (length xs) :: u32) = length xs"
    using length_de_code_le [of 0 xs] assms(2) by (intro unat_of_nat_small; simp)+
  have "m_priv (uba_sub d' ?b) = m_priv dest" using i(5) by (simp add: uba_sub_def Let_def)
  then obtain h2 x where 2: "de_new h1 r (uba_sub d' ?b) = Inr (h2, x)" "de_inv h2 x xs" "m_priv (de_data x) = m_priv dest"
    using de_new_spec [OF s(1) v n, of r] assms(2,3) by auto
  have "m_putPtr d' - ?b = of_nat (length ?bs)" using of_nat_eqI [OF i(3)] by simp
  then have "de_getSizeInBytes x = m_putPtr d' - ?b" using de_getSizeInBytes_spec [OF 2(2)] by (simp add: length_p_u32)
  then show ?thesis using 2 by blast
qed

lemma de_ends_spec:
  assumes "de_inv h x xs"
  shows "xs \<noteq> [] \<Longrightarrow> \<exists>h3 x3 h4 x4. de_first h x = Inr (hd xs, h3, x3) \<and> de_last h3 x3 = Inr (last xs, h4, x4)"
proof -
  assume ne: "xs \<noteq> []"
  from de_at_spec [OF assms, of 0] ne obtain h3 x3 where
    3: "de_at h x 0 = Inr (xs ! 0, h3, x3)" "de_inv h3 x3 xs" by auto
  have sz: "unat (de_size x) = length xs" "unat (de_size x3) = length xs" using assms 3(2) by (simp_all add: de_inv_def de_data_inv_def)
  then have nz: "de_size x \<noteq> 0" "de_size x3 \<noteq> 0" using ne by auto
  then have l: "unat (de_size x3 - 1) = length xs - 1" using sz(2) by (simp add: unat_minus_one)
  then have "unat (de_size x3 - 1) < length xs" using ne by (cases xs) auto
  with de_at_spec [OF 3(2), of "de_size x3 - 1"] obtain h4 x4 where "de_at h3 x3 (de_size x3 - 1) = Inr (last xs, h4, x4)"
    using l ne by (auto simp: last_conv_nth)
  then show ?thesis using 3(1) nz ne by (simp add: de_first_def de_last_def hd_conv_nth)
qed

lemma reader_end:
  assumes "reader h u p []"
  shows "stream_getVlPackedUint32 h u = Inl OutOfBoundsException"
proof -
  have r: "uba_inv h u" "unat (m_getPtr u) \<le> unat (m_len u)" "length (view h u) \<le> unat (m_getPtr u)" using assms by (auto simp: reader_def)
  have "\<not> unat (m_getPtr u) + 1 \<le> unat (m_len u)" using r(3) unfolding length_view [OF r(1)] by simp
  then show ?thesis using uba_inv_bounds [OF r(1)] r(2)
    by (simp add: stream_getVlPackedUint32_def streaming_getVl_def uba_getVlPackedUint32_def vl_access_at_def range_check_cases)
qed

lemma do_op_agrees:
  assumes "source_ids s xs" "source_ids q ys" "length xs + length ys < 2 ^ 32"
    and "t \<in> {IntersectOp, UniteOp, DifferenceOp, SymmetricDifferenceOp}"
  shows "\<exists>r. do_op t s (Some q) = Inr r \<and> result_ids r (merge_op t xs ys)"
proof -
  have sz: "unat (src_size s) = length xs" "unat (src_size q) = length ys" using assms(1,2) by (simp_all add: source_ids_def)
  have "unat (src_size s + src_size q) = length xs + length ys" using assms(3) sz by (subst unat_add_nowrap) simp_all
  moreover have "unat (min (src_size s) (src_size q)) = min (length xs) (length ys)" using sz by (simp add: min_def word_le_nat_alt)
  ultimately have "length (merge_op t xs ys) \<le> unat (maxSize t (src_size s) (src_size q))"
    using assms(4) sz length_merge_intersect [of xs ys] length_merge_difference [of xs ys] length_merge_op [of t xs ys] by auto
  from execute_spec(1) [OF assms(1,2) this] show ?thesis by (auto simp: do_op_def result_ids_def)
qed

section \<open>Properties\<close>

text \<open>C21: A list of fewer than \<open>2^29\<close> ids written with delta encoding is read back: the index opened where it was written gives
  these ids to any sequence of \<open>at\<close> calls (0 behind the end), whatever the cache holds by then, to \<open>first\<close> and \<open>last\<close> and to the
  array output; it reports the number of bytes written, putting it into a bit set adds exactly its ids, and search finds exactly the ids of
  an increasing list.\<close>

theorem de_roundtrip:
  assumes "pushable h dest (8 + 5 * length xs)" "length xs < 2 ^ 29" "r \<noteq> m_priv dest"
  shows "\<exists>h1 d' h2 x. de_create xs h dest = Inr (h1, d') \<and> de_new h1 r (uba_sub d' (m_putPtr dest)) = Inr (h2, x) \<and>
    de_putInto_array h2 x = Inr xs \<and> de_getSizeInBytes x = m_putPtr d' - m_putPtr dest \<and>
    (\<forall>ps. \<exists>h3 x3. de_ats h2 x ps = Inr (map (\<lambda>p. if unat p < length xs then xs ! unat p else 0) ps, h3, x3)) \<and>
    (xs \<noteq> [] \<longrightarrow> (\<exists>h3 x3 h4 x4. de_first h2 x = Inr (hd xs, h3, x3) \<and> de_last h3 x3 = Inr (last xs, h4, x4))) \<and>
    (\<forall>m. owner h2 m \<and> m_priv m \<noteq> m_priv dest \<longrightarrow>
       (\<exists>h3 m3. de_putInto_bits h2 x m = Inr (h3, m3) \<and> owner h3 m3 \<and> dbs_elems h3 m3 = dbs_elems h2 m \<union> unat ` set xs)) \<and>
    (increasing xs \<longrightarrow> (\<forall>v. \<exists>i. de_find h2 x v = Inr i \<and> (if v \<in> set xs then unat i < length xs \<and> xs ! unat i = v else i = - 1)))"
proof -
  let ?bs = "p_u32 (of_nat (length (de_code 0 xs))) @ p_u32 (of_nat (length xs)) @ de_code 0 xs"
  from de_create_spec [OF assms(1,2)] obtain h1 d' where
    1: "de_create xs h dest = Inr (h1, d')" "appended h dest ?bs h1 d'" by blast
  from de_open_created [OF assms 1(2)] obtain h2 x where
    2: "de_new h1 r (uba_sub d' (m_putPtr dest)) = Inr (h2, x)" "de_inv h2 x xs" "m_priv (de_data x) = m_priv dest"
      "de_getSizeInBytes x = m_putPtr d' - m_putPtr dest" by blast
  note ends = de_ends_spec [OF 2(2)] and bits = de_putInto_bits_spec [OF 2(2), unfolded 2(3)]
    and find = de_find_spec [OF 2(2)] and ats = de_ats_spec [OF 2(2)]
  show ?thesis
    using 1(1) 2(1,4) de_putInto_array_spec [OF 2(2)] ends bits find ats
    by (intro exI [of _ h1] exI [of _ d'] exI [of _ h2] exI [of _ x] conjI) blast+
qed

theorem de_roundtrip_witness:
  "\<exists>h1 d' h2 x. de_create [3, 300, 301] (\<lambda>_. \<lparr>kind = VectorB, mem = [9]\<rparr>) ((uba_of_priv 0 0 1)\<lparr>m_putPtr := 1\<rparr>) = Inr (h1, d') \<and>
    de_new h1 7 (uba_sub d' 1) = Inr (h2, x) \<and> de_putInto_array h2 x = Inr [3, 300, 301]"
proof -
  have p: "pushable (\<lambda>_. \<lparr>kind = VectorB, mem = [9]\<rparr>) ((uba_of_priv 0 0 1)\<lparr>m_putPtr := 1\<rparr>) (8 + 5 * length [3, 300, 301 :: u32])"
    by (simp add: pushable_def example_simps)
  show ?thesis using de_roundtrip [OF p, of 7] by (auto simp: uba_of_priv_def)
qed

text \<open>A streaming operation does not work on an index without ids: it reads the first id of each operand before it looks
  at the sizes, and throws. The callers of \<open>ItemIndex\<close> test the sizes first.\<close>

lemma de_empty_operand_throws:
  assumes "de_inv h x xs" "de_inv h y ys" "xs = [] \<or> ys = []"
    and "r1 \<notin> {m_priv (de_data x), m_priv (de_data y)}"
  shows "de_genericOp t h r1 r2 x y = Inl OutOfBoundsException"
proof -
  have "unat (8 :: u64) \<le> max_size" by (simp add: max_size_def)
  from createCache_spec [OF this, of h r1] obtain h0 where
    0: "createCache h r1 8 = Inr (h0, uba_of_priv r1 0 8)" "uba_inv h0 (uba_of_priv r1 0 8)" "growable h0 (uba_of_priv r1 0 8)"
      "\<forall>w. m_priv w \<noteq> r1 \<longrightarrow> storage h0 w = storage h w" by auto
  have pd: "m_priv (uba_of_priv r1 0 8) = r1" by (simp add: uba_of_priv_def)
  have "pushable h0 (uba_of_priv r1 0 8) 8" using 0(2,3) by (simp add: pushable_def uba_of_priv_def max_size_def)
  from dc_new_spec [OF this] obtain h1 c where
    1: "dc_new h0 (uba_of_priv r1 0 8) = Inr (h1, c)" "dc_inv h0 (uba_of_priv r1 0 8) h1 c []" by blast
  then have k: "kept h0 (uba_of_priv r1 0 8) h1" by (simp add: dc_inv_def dc_wrote_def)
  have st: "storage h1 (de_data z) = storage h (de_data z)" if "r1 \<noteq> m_priv (de_data z)" for z
    using k 0(4) that pd keptD by metis
  have "reader h (de_data x) 0 xs" "reader h (de_data y) 0 ys" using assms(1,2) by (simp_all add: de_inv_def de_data_inv_def)
  then have r: "reader h1 (de_data x) 0 xs" "reader h1 (de_data y) 0 ys"
    using reader_frame [OF st [of x]] reader_frame [OF st [of y]] assms(4) by auto
  show ?thesis
  proof (cases xs)
    case Nil
    then have "stream_getVlPackedUint32 h1 (de_data x) = Inl OutOfBoundsException" using r(1) reader_end by simp
    then show ?thesis using 0(1) 1(1) by (simp add: de_genericOp_def)
  next
    case (Cons v vs)
    then obtain u' where "stream_getVlPackedUint32 h1 (de_data x) = Inr (v - 0, u')" using reader_next [OF r(1) [unfolded Cons]] by blast
    moreover have "stream_getVlPackedUint32 h1 (de_data y) = Inl OutOfBoundsException" using r(2) Cons assms(3) reader_end by simp
    ultimately show ?thesis using 0(1) 1(1) by (simp add: de_genericOp_def)
  qed
qed

text \<open>C22: The set operations on two delta encoded indices with increasing ids, fewer than \<open>2 ^ 29\<close> together, on contiguous storage. When both have
  ids, the streaming operation computes the merge of the two lists, which is the increasing list of the intersection, union,
  difference or symmetric difference; when one of them has no ids it throws. With an operand of another kind the generic
  executer computes the same merge, also of empty lists. The operands, and everything that is not in the two new storages, keep their bytes.\<close>

theorem de_operations:
  assumes "de_inv h x xs" "increasing xs" "de_inv h y ys" "increasing ys" "length xs + length ys < 2 ^ 29"
    and "isContiguous (storage h (de_data x))" "isContiguous (storage h (de_data y))"
    and "r1 \<notin> {m_priv (de_data x), m_priv (de_cache x), m_priv (de_data y), m_priv (de_cache y)}" "r2 \<noteq> r1"
    and "t \<in> {IntersectOp, UniteOp, DifferenceOp, SymmetricDifferenceOp}"
  shows "(if xs = [] \<or> ys = [] then de_op t h r1 r2 x (DeOperand y) = Inl OutOfBoundsException
     else \<exists>h' z. de_op t h r1 r2 x (DeOperand y) = Inr (DeResult h' z) \<and> de_putInto_array h' z = Inr (merge_op t xs ys) \<and>
      de_inv h' z (merge_op t xs ys) \<and> (\<forall>w. m_priv w \<noteq> r1 \<and> m_priv w \<noteq> r2 \<longrightarrow> storage h' w = storage h w)) \<and>
    (\<exists>r. de_op t h r1 r2 x (OtherOperand (de_source (h, y))) = Inr (GenericResult r) \<and> result_ids r (merge_op t xs ys)) \<and>
    increasing (merge_op t xs ys) \<and> set (merge_op t xs ys) = op_set t (set xs) (set ys)"
proof -
  have "\<exists>r. do_op t (de_source (h, x)) (Some (de_source (h, y))) = Inr r \<and> result_ids r (merge_op t xs ys)"
    using do_op_agrees [OF de_source_ids [OF assms(1)] de_source_ids [OF assms(3)] _ assms(10)] assms(5) by simp
  then have g: "\<exists>r. de_op t h r1 r2 x (OtherOperand (de_source (h, y))) = Inr (GenericResult r) \<and> result_ids r (merge_op t xs ys)"
    by (auto simp: de_op_def)
  have "coherent t" using assms(10) by auto
  then have m: "increasing (merge_op t xs ys)" "set (merge_op t xs ys) = op_set t (set xs) (set ys)"
    using merge_op_set [OF _ assms(2,4)] by auto
  show ?thesis
  proof (cases "xs = [] \<or> ys = []")
    case True
    then have "de_genericOp t h r1 r2 x y = Inl OutOfBoundsException"
      using de_empty_operand_throws [OF assms(1,3)] assms(8) by simp
    then show ?thesis using True g m by (simp add: de_op_def)
  next
    case False
    then have ne: "xs \<noteq> []" "ys \<noteq> []" by simp_all
    from de_genericOp_spec [OF assms(1,3) ne assms(5-9), of t] obtain h' z where
      1: "de_genericOp t h r1 r2 x y = Inr (h', z)" "de_inv h' z (merge_op t xs ys)"
        "\<forall>w. m_priv w \<noteq> r1 \<and> m_priv w \<noteq> r2 \<longrightarrow> storage h' w = storage h w" by blast
    then show ?thesis using False g m de_putInto_array_spec [OF 1(2)] by (auto simp: de_op_def)
  qed
qed

theorem de_operations_witness:
  "\<exists>h' z. de_op UniteOp ((\<lambda>_. \<lparr>kind = VectorB, mem = [5, 3]\<rparr>)(1 := \<lparr>kind = VectorB, mem = replicate 8 0\<rparr>)) 2 3
      \<lparr>de_data = uba_of_priv 0 0 2, de_size = 2, de_dataOffset = 0, de_curId = 0, de_cache = uba_of_priv 1 0 8, de_cacheOffset = 0\<rparr>
      (DeOperand \<lparr>de_data = uba_of_priv 0 1 1, de_size = 1, de_dataOffset = 0, de_curId = 0, de_cache = uba_of_priv 1 0 8, de_cacheOffset = 0\<rparr>) =
      Inr (DeResult h' z) \<and> de_putInto_array h' z = Inr [3, 5, 8]"
proof -
  let ?h = "(\<lambda>_. \<lparr>kind = VectorB, mem = [5, 3]\<rparr>)(1 := \<lparr>kind = VectorB, mem = replicate 8 0\<rparr>)"
  let ?x = "\<lparr>de_data = uba_of_priv 0 0 2, de_size = 2, de_dataOffset = 0, de_curId = 0, de_cache = uba_of_priv 1 0 8, de_cacheOffset = 0\<rparr>"
  let ?y = "\<lparr>de_data = uba_of_priv 0 1 1, de_size = 1, de_dataOffset = 0, de_curId = 0, de_cache = uba_of_priv 1 0 8, de_cacheOffset = 0\<rparr>"
  have c: "de_code 0 [5, 8] = [5, 3]" "de_code 0 [3] = [3]" by code_simp+
  have "de_inv ?h ?x [5, 8]" "de_inv ?h ?y [3]"
    unfolding de_inv_def de_data_inv_def de_cache_inv_def reader_def c
    by (simp_all add: example_simps view_def chunk_def ids_bytes_def)
  from de_operations [OF this(1) _ this(2), of 2 3 UniteOp] show ?thesis
    by (auto simp: example_simps op_defs)
qed

text \<open>The index made from a bit set of fewer than \<open>2^26\<close> bytes has the elements of the set as its ids, in increasing order.\<close>

theorem de_fromBitSet_elements:
  assumes "uba_inv h bits" "unat (m_len bits) < 2 ^ 26" "r1 \<noteq> m_priv bits" "r2 \<noteq> r1"
  shows "\<exists>h' x xs. de_fromBitSet h r1 r2 bits = Inr (h', x) \<and> de_inv h' x xs \<and> de_putInto_array h' x = Inr xs \<and>
    map unat xs = sorted_list_of_set (dbs_elems h bits)"
proof -
  let ?xs = "map of_nat (elem_list h bits) :: u32 list"
  from de_fromBitSet_spec [OF assms] obtain h' x where
    1: "de_fromBitSet h r1 r2 bits = Inr (h', x)" "de_inv h' x ?xs" by blast
  have "e < 2 ^ 32" if "e \<in> set (elem_list h bits)" for e
    using that assms(1,2) by (auto simp: elems_from_def)
  then have "map unat ?xs = elem_list h bits" by (simp add: map_idI unat_of_nat_small)
  then show ?thesis using 1 de_putInto_array_spec [OF 1(2)] elem_list_sorted [OF assms(1)] by metis
qed

theorem de_fromBitSet_elements_witness:
  "\<exists>h' x xs. de_fromBitSet (\<lambda>_. \<lparr>kind = VectorB, mem = [5, 0, 128]\<rparr>) 1 2 (uba_of_priv 0 0 3) = Inr (h', x) \<and>
    de_putInto_array h' x = Inr xs \<and> map unat xs = sorted_list_of_set (dbs_elems (\<lambda>_. \<lparr>kind = VectorB, mem = [5, 0, 128]\<rparr>) (uba_of_priv 0 0 3))"
  using de_fromBitSet_elements [of "\<lambda>_. \<lparr>kind = VectorB, mem = [5, 0, 128]\<rparr>" "uba_of_priv 0 0 3" 1 2] by (auto simp: example_simps)

section \<open>Appended bytes\<close>

lemma pushable_frame: "storage h' u = storage h u \<Longrightarrow> pushable h' u n = pushable h u n"
  using view_frame(2) [of h' u h] by (simp add: pushable_def growable_def)

lemma appended_frame:
  assumes "appended h1 d0 bs h2 d" "storage h1 d0 = storage h d0"
  shows "appended h d0 bs h2 d"
  using assms(1) view_frame(1) [OF assms(2)] by (simp add: appended_def)

lemma appended_frame_after:
  assumes "appended h u bs h1 u1" "storage h2 u1 = storage h1 u1"
  shows "appended h u bs h2 u1"
  using assms(1) view_frame [OF assms(2)] assms(2) by (simp add: appended_def growable_def)

text \<open>The bytes that were appended at the put pointer are those at the beginning of the adapter behind it.\<close>

lemma open_appended:
  assumes "pushable h dest n" "appended h dest bs h' d'"
  obtains rest where "uba_inv h' (uba_sub d' (m_putPtr dest))" "view h' (uba_sub d' (m_putPtr dest)) = bs @ rest"
    "m_priv (uba_sub d' (m_putPtr dest)) = m_priv dest" "m_putPtr d' - m_putPtr dest = of_nat (length bs)"
proof -
  let ?b = "m_putPtr dest"
  have a: "uba_inv h' d'" "unat (m_putPtr d') = unat ?b + length bs" "unat ?b \<le> unat (m_len d')" "m_priv d' = m_priv dest"
    "view h' d' = blit (unat ?b) bs (view h dest)" using assms(2) by (simp_all add: appended_def word_le_nat_alt)
  have le: "unat ?b \<le> length (view h dest)" using assms(1) by (simp add: pushable_def word_le_nat_alt)
  have v: "drop (unat ?b) (view h' d') = bs @ drop (unat ?b + length bs) (view h dest)" unfolding a(5) using le by (simp add: blit_def)
  note s = sub_spec [OF a(1,3)]
  have "m_priv (uba_sub d' ?b) = m_priv dest" using a(4) by (simp add: uba_sub_def Let_def)
  moreover have "m_putPtr d' - ?b = of_nat (length bs)" using of_nat_eqI [OF a(2)] by simp
  ultimately show thesis using that s(1) s(2) [unfolded v] by blast
qed

end
