(* ===== verification/ItemIndex.thy ===== *)
theory ItemIndex
  imports ItemIndexDECreate CompactUintArrayCreate
begin

text \<open>
  \<open>ItemIndex\<close> (\<open>containers/ItemIndex.h\<close>, \<open>containers/ItemIndex.cpp\<close>), the class that all users of an index work with: it holds an
  implementation, calls it through virtual functions and adds the tests of the sizes, the reduction of many
  indices along a balanced tree and the filters. The small implementations are modelled here too: the empty index, vectors, deques,
  ranges and bounded arrays.
  The state is the heap and the first address that is not in use; an operation that makes a storage takes the next address.
  The caches that reading fills are not kept: what is read does not depend on them.
\<close>

section \<open>The small implementations\<close>

subsection \<open>Vectors and deques\<close>

definition vec_size :: "u32 list \<Rightarrow> u32" where
  "vec_size m_data = of_nat (length m_data)"

definition vec_at :: "u32 list \<Rightarrow> u32 \<Rightarrow> u32 res" where
  "vec_at m_data pos = (if unat pos < length m_data then Inr (m_data ! unat pos) else Inl StdOutOfRange)"

text \<open>The exception behind the end is made but not thrown.\<close>

definition vector_at :: "u32 list \<Rightarrow> u32 \<Rightarrow> u32 res" where
  "vector_at m_data pos = (if pos < vec_size m_data then vec_at m_data pos else Inr 0)"

definition deque_at :: "u32 list \<Rightarrow> u32 \<Rightarrow> u32 res" where
  "deque_at m_data pos = (if pos < vec_size m_data then vec_at m_data pos else Inl OutOfBoundsException)"

definition vec_front :: "u32 list \<Rightarrow> u32 res" where
  "vec_front m_data = (if m_data = [] then Inl UndefinedBehaviour else Inr (hd m_data))"

definition vec_back :: "u32 list \<Rightarrow> u32 res" where
  "vec_back m_data = (if m_data = [] then Inl UndefinedBehaviour else Inr (last m_data))"

definition vector_first :: "u32 list \<Rightarrow> u32 res" where
  "vector_first m_data = (if vec_size m_data = 0 then Inr 0 else vec_front m_data)"

definition vector_last :: "u32 list \<Rightarrow> u32 res" where
  "vector_last m_data = (if vec_size m_data = 0 then Inr 0 else vec_back m_data)"

definition vector_getSizeInBytes :: "u32 list \<Rightarrow> u64" where
  "vector_getSizeInBytes m_data = ucast (vec_size m_data * 4)"

text \<open>\<open>fromBitSet\<close>: the inner loop runs until the byte has no bits left.\<close>

lemma shift_less: "tmp \<noteq> 0 \<Longrightarrow> unat (drop_bit (Suc 0) tmp) < unat tmp" for tmp :: "'a::len word"
proof -
  assume "tmp \<noteq> 0"
  then have "0 < unat tmp" by (simp add: unat_gt_0)
  moreover have "unat (drop_bit (Suc 0) tmp) = unat tmp div 2" using unat_drop_bit_eq [of 1 tmp] by (simp add: drop_bit_eq_div)
  ultimately show ?thesis by simp
qed

function vfbs_bits :: "u8 \<Rightarrow> u32 \<Rightarrow> u32 list \<Rightarrow> u32 list" where
  "vfbs_bits tmp curId vec =
     (if tmp \<noteq> 0 then vfbs_bits (drop_bit 1 tmp) (curId + 1) (if tmp AND 1 \<noteq> 0 then vec @ [curId] else vec) else vec)"
  by pat_completeness auto
termination
  by (relation "measure (\<lambda>(tmp, curId, vec). unat tmp)") (use shift_less in auto)

function vfbs_bytes :: "heap \<Rightarrow> uba \<Rightarrow> u64 \<Rightarrow> u32 \<Rightarrow> u32 list \<Rightarrow> u32 list res" where
  "vfbs_bytes h bits i ident vec =
     (if i < m_len bits
      then bindE (uba_at h bits i) (\<lambda>tmp. vfbs_bytes h bits (i + 1) (ident + 8) (vfbs_bits tmp ident vec))
      else Inr vec)"
  by pat_completeness auto
termination
  by (relation "measure (\<lambda>(h, bits, i, ident, vec). unat (m_len bits - i))") (use next_less in auto)

declare vfbs_bits.simps [simp del] vfbs_bytes.simps [simp del]

definition vector_fromBitSet :: "heap \<Rightarrow> uba \<Rightarrow> u32 list res" where
  "vector_fromBitSet h bits = vfbs_bytes h bits 0 0 []"

subsection \<open>Ranges\<close>

text \<open>\<open>RangeGenerator<uint32_t>\<close>. \<open>size\<close> traps for a stride of zero, which \<open>range_ok\<close> excludes.\<close>

record range_gen =
  r_begin :: u32
  r_end :: u32
  r_stride :: u32

definition range_size :: "range_gen \<Rightarrow> u32" where
  "range_size g = (r_end g - r_begin g) div r_stride g"

definition range_at :: "range_gen \<Rightarrow> u32 \<Rightarrow> u32" where
  "range_at g pos = r_begin g + pos * r_stride g"

definition range_first :: "range_gen \<Rightarrow> u32" where
  "range_first g = r_begin g"

definition range_last :: "range_gen \<Rightarrow> u32" where
  "range_last g = r_end g - r_stride g"

subsection \<open>Bounded arrays\<close>

definition bounded_size :: "cua \<times> u64 \<Rightarrow> u32" where
  "bounded_size b = ucast (snd b)"

definition bounded_at :: "heap \<Rightarrow> cua \<times> u64 \<Rightarrow> u32 \<Rightarrow> u32 res" where
  "bounded_at h b pos = bindE (cua_at h (fst b) (ucast pos)) (\<lambda>v. Inr (ucast v))"

definition bounded_first :: "heap \<Rightarrow> cua \<times> u64 \<Rightarrow> u32 res" where
  "bounded_first h b = bounded_at h b 0"

definition bounded_last :: "heap \<Rightarrow> cua \<times> u64 \<Rightarrow> u32 res" where
  "bounded_last h b = bounded_at h b (bounded_size b - 1)"

section \<open>The virtual functions\<close>

datatype item_index = EmptyIdx | NativeIdx native | DeIdx de | VectorIdx "u32 list" | DequeIdx "u32 list"
  | RangeIdx range_gen | BoundedIdx "cua \<times> u64"

definition T_NULL :: u32 where "T_NULL = 0"
definition T_SIMPLE :: u32 where "T_SIMPLE = 0x1"
definition T_REGLINE :: u32 where "T_REGLINE = 0x2"
definition T_WAH :: u32 where "T_WAH = 0x4"
definition T_DE :: u32 where "T_DE = 0x8"
definition T_RLE_DE :: u32 where "T_RLE_DE = 0x10"
definition T_NATIVE :: u32 where "T_NATIVE = 0x20"
definition T_ELIAS_FANO :: u32 where "T_ELIAS_FANO = 0x40"
definition T_PFOR :: u32 where "T_PFOR = 0x80"
definition T_FOR :: u32 where "T_FOR = 0x100"
definition T_BOUNDED_COMPACT_UINT_ARRAY :: u32 where "T_BOUNDED_COMPACT_UINT_ARRAY = 0x200"
definition T_EMPTY :: u32 where "T_EMPTY = 0x400"
definition T_INDIRECT :: u32 where "T_INDIRECT = 0x800"
definition T_STL_DEQUE :: u32 where "T_STL_DEQUE = 0x1000"
definition T_STL_VECTOR :: u32 where "T_STL_VECTOR = 0x2000"
definition T_RANGE_GENERATOR :: u32 where "T_RANGE_GENERATOR = 0x4000"
definition T_MULTIPLE :: u32 where "T_MULTIPLE = 0x800000"

lemmas type_defs = T_NULL_def T_SIMPLE_def T_REGLINE_def T_WAH_def T_DE_def T_RLE_DE_def T_NATIVE_def T_ELIAS_FANO_def
  T_PFOR_def T_FOR_def T_BOUNDED_COMPACT_UINT_ARRAY_def T_EMPTY_def T_INDIRECT_def T_STL_DEQUE_def T_STL_VECTOR_def
  T_RANGE_GENERATOR_def T_MULTIPLE_def

fun ix_type :: "item_index \<Rightarrow> u32" where
  "ix_type EmptyIdx = T_EMPTY"
| "ix_type (NativeIdx _) = T_NATIVE"
| "ix_type (DeIdx _) = T_DE"
| "ix_type (VectorIdx _) = T_STL_VECTOR"
| "ix_type (DequeIdx _) = T_STL_DEQUE"
| "ix_type (RangeIdx _) = T_RANGE_GENERATOR"
| "ix_type (BoundedIdx _) = T_BOUNDED_COMPACT_UINT_ARRAY"

fun ix_size :: "item_index \<Rightarrow> u32" where
  "ix_size EmptyIdx = 0"
| "ix_size (NativeIdx x) = n_size x"
| "ix_size (DeIdx x) = de_size x"
| "ix_size (VectorIdx m_data) = vec_size m_data"
| "ix_size (DequeIdx m_data) = vec_size m_data"
| "ix_size (RangeIdx g) = range_size g"
| "ix_size (BoundedIdx b) = bounded_size b"

definition read_only :: "('a \<times> heap \<times> de) res \<Rightarrow> 'a res" where
  "read_only r = bindE r (\<lambda>(v, _, _). Inr v)"

fun ix_at :: "heap \<Rightarrow> item_index \<Rightarrow> u32 \<Rightarrow> u32 res" where
  "ix_at h EmptyIdx pos = Inr 0"
| "ix_at h (NativeIdx x) pos = native_at x pos"
| "ix_at h (DeIdx x) pos = read_only (de_at h x pos)"
| "ix_at h (VectorIdx m_data) pos = vector_at m_data pos"
| "ix_at h (DequeIdx m_data) pos = deque_at m_data pos"
| "ix_at h (RangeIdx g) pos = Inr (range_at g pos)"
| "ix_at h (BoundedIdx b) pos = bounded_at h b pos"

fun ix_uncheckedAt :: "heap \<Rightarrow> item_index \<Rightarrow> u32 \<Rightarrow> u32 res" where
  "ix_uncheckedAt h (NativeIdx x) pos = native_uncheckedAt x pos"
| "ix_uncheckedAt h i pos = ix_at h i pos"

fun ix_front :: "heap \<Rightarrow> item_index \<Rightarrow> u32 res" where
  "ix_front h EmptyIdx = Inr 0"
| "ix_front h (NativeIdx x) = native_first x"
| "ix_front h (DeIdx x) = read_only (de_first h x)"
| "ix_front h (VectorIdx m_data) = vector_first m_data"
| "ix_front h (DequeIdx m_data) = vec_front m_data"
| "ix_front h (RangeIdx g) = Inr (range_first g)"
| "ix_front h (BoundedIdx b) = bounded_first h b"

fun ix_back :: "heap \<Rightarrow> item_index \<Rightarrow> u32 res" where
  "ix_back h EmptyIdx = Inr 0"
| "ix_back h (NativeIdx x) = native_last x"
| "ix_back h (DeIdx x) = read_only (de_last h x)"
| "ix_back h (VectorIdx m_data) = vector_last m_data"
| "ix_back h (DequeIdx m_data) = vec_back m_data"
| "ix_back h (RangeIdx g) = Inr (range_last g)"
| "ix_back h (BoundedIdx b) = bounded_last h b"

fun ix_bpn :: "item_index \<Rightarrow> u8 res" where
  "ix_bpn EmptyIdx = Inr 0"
| "ix_bpn (NativeIdx x) = native_bpn x"
| "ix_bpn (DeIdx x) = de_bpn x"
| "ix_bpn (VectorIdx _) = Inr 32"
| "ix_bpn (DequeIdx _) = Inr 32"
| "ix_bpn (RangeIdx _) = Inr 0"
| "ix_bpn (BoundedIdx b) = Inr (ucast (cua_bpn (fst b)))"

fun ix_getSizeInBytes :: "item_index \<Rightarrow> u64" where
  "ix_getSizeInBytes EmptyIdx = 0"
| "ix_getSizeInBytes (NativeIdx x) = native_getSizeInBytes x"
| "ix_getSizeInBytes (DeIdx x) = de_getSizeInBytes x"
| "ix_getSizeInBytes (VectorIdx m_data) = vector_getSizeInBytes m_data"
| "ix_getSizeInBytes (DequeIdx m_data) = vector_getSizeInBytes m_data"
| "ix_getSizeInBytes (RangeIdx _) = 0"
| "ix_getSizeInBytes (BoundedIdx b) = bounded_getSizeInBytes b"

text \<open>The index as the generic algorithms see it, through \<open>uncheckedAt\<close> or through \<open>at\<close>.\<close>

definition ix_source :: "heap \<Rightarrow> item_index \<Rightarrow> id_source" where
  "ix_source h i = \<lparr>src_size = ix_size i, src_at = ix_uncheckedAt h i\<rparr>"

definition ix_checked :: "heap \<Rightarrow> item_index \<Rightarrow> id_source" where
  "ix_checked h i = \<lparr>src_size = ix_size i, src_at = ix_at h i\<rparr>"

definition ix_find :: "heap \<Rightarrow> item_index \<Rightarrow> u32 \<Rightarrow> u32 res" where
  "ix_find h i v = (case i of EmptyIdx \<Rightarrow> Inr (- 1) | _ \<Rightarrow> index_find (ix_checked h i) v)"

definition ix_count :: "heap \<Rightarrow> item_index \<Rightarrow> u32 \<Rightarrow> s32 res" where
  "ix_count h i v = bindE (ix_find h i v) (\<lambda>p. Inr (if p \<noteq> - 1 then 1 else 0))"

definition ix_putInto_bits :: "heap \<Rightarrow> item_index \<Rightarrow> uba \<Rightarrow> (heap \<times> uba) res" where
  "ix_putInto_bits h i m =
     (case i of
        NativeIdx x \<Rightarrow> native_putInto_bits x h m
      | DeIdx x \<Rightarrow> de_putInto_bits h x m
      | _ \<Rightarrow> doPutInto_bits (ix_checked h i) h m)"

text \<open>\<open>toVector\<close>: the vector has the size of the index, so what is written is its contents. Without ids the address of the first element of an
  empty vector is taken.\<close>

definition ix_toVector :: "heap \<Rightarrow> item_index \<Rightarrow> u32 list res" where
  "ix_toVector h i =
     (if ix_size i = 0 then Inl UndefinedBehaviour
      else case i of
        NativeIdx x \<Rightarrow> bindE (native_putInto_array x) (\<lambda>bs. Inr (map (\<lambda>k. le_word (chunk (4 * k) 4 bs)) [0..<unat (n_size x)]))
      | DeIdx x \<Rightarrow> de_putInto_array h x
      | _ \<Rightarrow> doPutInto_array (ix_checked h i))"

section \<open>Set operations\<close>

type_synonym ix_state = "heap \<times> nat"

fun ix_of_result :: "result_index \<Rightarrow> item_index" where
  "ix_of_result EmptyIndex = EmptyIdx"
| "ix_of_result (NativeIndex x) = NativeIdx x"

text \<open>The virtual set operation of the first operand; an implementation with its own algorithm asks for the type of the second one.\<close>

definition ix_op :: "set_op \<Rightarrow> ix_state \<Rightarrow> item_index \<Rightarrow> item_index \<Rightarrow> (ix_state \<times> item_index) res" where
  "ix_op t s a b =
     (case s of (h, n) \<Rightarrow>
        case a of
          NativeIdx x \<Rightarrow>
            bindE (native_op t x (case b of NativeIdx y \<Rightarrow> NativeOp y | _ \<Rightarrow> OtherOp (ix_source h b))) (\<lambda>r. Inr (s, ix_of_result r))
        | DeIdx x \<Rightarrow>
            bindE (de_op t h n (n + 1) x (case b of DeIdx y \<Rightarrow> DeOperand y | _ \<Rightarrow> OtherOperand (ix_source h b))) (\<lambda>r.
              Inr (case r of DeResult h' z \<Rightarrow> ((h', n + 2), DeIdx z) | GenericResult r \<Rightarrow> (s, ix_of_result r)))
        | _ \<Rightarrow> bindE (do_op t (ix_source h a) (Some (ix_source h b))) (\<lambda>r. Inr (s, ix_of_result r)))"

definition ix_intersect :: "ix_state \<Rightarrow> item_index \<Rightarrow> item_index \<Rightarrow> (ix_state \<times> item_index) res" where
  "ix_intersect s a b = (if ix_size a = 0 \<or> ix_size b = 0 then Inr (s, EmptyIdx) else ix_op IntersectOp s a b)"

definition ix_unite :: "ix_state \<Rightarrow> item_index \<Rightarrow> item_index \<Rightarrow> (ix_state \<times> item_index) res" where
  "ix_unite s a b = (if ix_size a = 0 then Inr (s, b) else if ix_size b = 0 then Inr (s, a) else ix_op UniteOp s a b)"

definition ix_difference :: "ix_state \<Rightarrow> item_index \<Rightarrow> item_index \<Rightarrow> (ix_state \<times> item_index) res" where
  "ix_difference s a b = (if ix_size a = 0 \<or> ix_size b = 0 then Inr (s, a) else ix_op DifferenceOp s a b)"

definition ix_symmetricDifference :: "ix_state \<Rightarrow> item_index \<Rightarrow> item_index \<Rightarrow> (ix_state \<times> item_index) res" where
  "ix_symmetricDifference s a b =
     (if ix_size a = 0 then Inr (s, b) else if ix_size b = 0 then Inr (s, a) else ix_op SymmetricDifferenceOp s a b)"

text \<open>\<open>uniteK\<close> goes to the virtual function without a test of the sizes.\<close>

definition ix_uniteK :: "ix_state \<Rightarrow> item_index \<Rightarrow> item_index \<Rightarrow> u32 \<Rightarrow> (ix_state \<times> item_index) res" where
  "ix_uniteK s a b numItems = ix_op UniteOp s a b"

text \<open>\<open>intersectWithTree\<close> and \<open>uniteWithTree\<close> only differ in the operator.\<close>

lemma tree_halves:
  fixes start stop :: u32
  assumes "start \<noteq> stop" "mid = start + (stop - start) div 2"
  shows "unat (mid - start) < unat (stop - start)" "unat (stop - (mid + 1)) < unat (stop - start)"
proof -
  have p: "0 < unat (stop - start)" using assms(1) by (simp add: unat_gt_0)
  have m: "mid - start = (stop - start) div 2" using assms(2) by simp
  have h: "unat (mid - start) = unat (stop - start) div 2" unfolding m by (simp add: unat_div)
  then show "unat (mid - start) < unat (stop - start)" using p by simp
  have e: "stop - (mid + 1) = (stop - start) - ((mid - start) + 1)" by simp
  have k: "unat ((mid - start) + 1) = unat (mid - start) + 1"
    using h p unat_bound [of "stop - start"] by (subst unat_add_nowrap) simp_all
  have "unat (stop - (mid + 1)) = unat (stop - start) - unat ((mid - start) + 1)"
    unfolding e using h k p by (intro unat_sub) (simp add: word_le_nat_alt)
  then show "unat (stop - (mid + 1)) < unat (stop - start)" using k p by simp
qed

function with_tree :: "(ix_state \<Rightarrow> item_index \<Rightarrow> item_index \<Rightarrow> (ix_state \<times> item_index) res) \<Rightarrow> u32 \<Rightarrow> u32 \<Rightarrow> item_index list \<Rightarrow>
    ix_state \<Rightarrow> (ix_state \<times> item_index) res" where
  "with_tree oper start stop idxs s =
     (if start = stop then (if unat start < length idxs then Inr (s, idxs ! unat start) else Inl StdOutOfRange)
      else let mid = start + (stop - start) div 2
           in bindE (with_tree oper start mid idxs s) (\<lambda>(s, a).
              bindE (with_tree oper (mid + 1) stop idxs s) (\<lambda>(s, b). oper s a b)))"
  by pat_completeness auto
termination
  by (relation "measure (\<lambda>(oper, start, stop, idxs, s). unat (stop - start))") (use tree_halves(1) [OF _ refl] tree_halves(2) in auto)

declare with_tree.simps [simp del]

definition ix_intersectWithTree :: "u32 \<Rightarrow> u32 \<Rightarrow> item_index list \<Rightarrow> ix_state \<Rightarrow> (ix_state \<times> item_index) res" where
  "ix_intersectWithTree = with_tree ix_intersect"

definition ix_uniteWithTree :: "u32 \<Rightarrow> u32 \<Rightarrow> item_index list \<Rightarrow> ix_state \<Rightarrow> (ix_state \<times> item_index) res" where
  "ix_uniteWithTree = with_tree ix_unite"

definition ix_intersect_all :: "item_index list \<Rightarrow> ix_state \<Rightarrow> (ix_state \<times> item_index) res" where
  "ix_intersect_all idxs s =
     (if length idxs = 0 then Inr (s, EmptyIdx)
      else if length idxs = 1 then Inr (s, hd idxs)
      else if length idxs = 2 then ix_intersect s (hd idxs) (last idxs)
      else ix_intersectWithTree 0 (of_nat (length idxs - 1)) idxs s)"

definition ix_unite_all :: "item_index list \<Rightarrow> ix_state \<Rightarrow> (ix_state \<times> item_index) res" where
  "ix_unite_all idxs s =
     (if length idxs = 0 then Inr (s, EmptyIdx)
      else if length idxs = 1 then Inr (s, hd idxs)
      else if length idxs = 2 then ix_unite s (hd idxs) (last idxs)
      else ix_uniteWithTree 0 (of_nat (length idxs - 1)) idxs s)"

section \<open>Filters\<close>

function filter_loop :: "(u32 \<Rightarrow> u32 res) \<Rightarrow> u32 \<Rightarrow> u32 \<Rightarrow> (u32 \<Rightarrow> bool) \<Rightarrow> u32 \<Rightarrow> u32 list \<Rightarrow> u32 list res" where
  "filter_loop at sz count accept i ids =
     (if i < sz \<and> length ids < unat count
      then bindE (at i) (\<lambda>v. filter_loop at sz count accept (i + 1) (if accept v then ids @ [v] else ids))
      else Inr ids)"
  by pat_completeness auto
termination
  by (relation "measure (\<lambda>(at, sz, count, accept, i, ids). unat (sz - i))") (use next_less in auto)

declare filter_loop.simps [simp del]

definition ix_filtered :: "ix_state \<Rightarrow> item_index \<Rightarrow> u32 \<Rightarrow> (u32 \<Rightarrow> bool) option \<Rightarrow> (ix_state \<times> item_index) res" where
  "ix_filtered s i count accept =
     (case accept of
        None \<Rightarrow> Inr (s, i)
      | Some accept \<Rightarrow> bindE (filter_loop (ix_at (fst s) i) (ix_size i) count accept 0 []) (\<lambda>ids. Inr (s, VectorIdx ids)))"

text \<open>
  The type of the operands decides which implementation filters: the bits of all their types, and the default for more than 1024 ids.
  The implementations of the types \<open>T_WAH\<close> and \<open>T_RLE_DE\<close> are not among those of \<open>item_index\<close>; their own operations are the parameters \<open>wah\<close> and \<open>rle\<close>.
\<close>

definition ix_types :: "item_index list \<Rightarrow> u32 \<Rightarrow> u32" where
  "ix_types idxs type = fold (\<lambda>i type. type OR ix_type i) idxs type"

definition dispatch_type :: "u32 \<Rightarrow> u32 \<Rightarrow> u32" where
  "dispatch_type type count = (if count > 1024 then T_EMPTY OR T_INDIRECT else type)"

type_synonym multiway = "item_index list \<Rightarrow> item_index list \<Rightarrow> u32 \<Rightarrow> (u32 \<Rightarrow> bool) option \<Rightarrow> ix_state \<Rightarrow> (ix_state \<times> item_index) res"

text \<open>An empty operand to intersect gives the empty index; empty ones to subtract are left out.\<close>

definition privates_op :: "multiway \<Rightarrow> multiway" where
  "privates_op f intersect subtract count accept s =
     (if list_all (\<lambda>i. ix_size i \<noteq> 0) intersect then f intersect (filter (\<lambda>i. ix_size i \<noteq> 0) subtract) count accept s
      else Inr (s, EmptyIdx))"

definition ix_fusedIntersectDifference :: "multiway \<Rightarrow> multiway" where
  "ix_fusedIntersectDifference wah intersect subtract count accept s =
     (if length intersect = 0 then Inr (s, EmptyIdx)
      else if dispatch_type (ix_types subtract (ix_types intersect T_NULL)) count = T_WAH
      then privates_op wah intersect subtract count accept s
      else bindE (ix_intersect_all intersect s) (\<lambda>(s, a).
           bindE (ix_unite_all subtract s) (\<lambda>(s, b).
           bindE (ix_difference s a b) (\<lambda>(s, i). ix_filtered s i count accept))))"

definition ix_constrainedIntersect :: "multiway \<Rightarrow> multiway \<Rightarrow> item_index list \<Rightarrow> u32 \<Rightarrow> (u32 \<Rightarrow> bool) option \<Rightarrow> ix_state \<Rightarrow>
    (ix_state \<times> item_index) res" where
  "ix_constrainedIntersect wah rle intersect count accept s =
     (if length intersect = 0 then Inr (s, EmptyIdx)
      else let type = dispatch_type (ix_types intersect T_NULL) count
      in if type = T_WAH then privates_op wah intersect [] count accept s
         else if type = T_RLE_DE \<and> accept = None then privates_op rle intersect [] count accept s
         else bindE (ix_intersect_all intersect s) (\<lambda>(s, i). ix_filtered s i count accept))"

section \<open>Union into a vector\<close>

function uvb_loop :: "(u32 \<Rightarrow> u32 res) \<Rightarrow> (u32 \<Rightarrow> u32 res) \<Rightarrow> u32 \<Rightarrow> u32 \<Rightarrow> u32 \<Rightarrow> u32 \<Rightarrow> u32 \<Rightarrow> u32 \<Rightarrow> u32 list \<Rightarrow>
    (u32 \<times> u32 \<times> u32 list) res" where
  "uvb_loop aAt bAt aSize bSize aIt bIt aId bId ids =
     (if aIt < aSize \<and> bIt < bSize then
        (if aId = bId then
           bindE (aAt (aIt + 1)) (\<lambda>aId'. bindE (bAt (bIt + 1)) (\<lambda>bId'.
             uvb_loop aAt bAt aSize bSize (aIt + 1) (bIt + 1) aId' bId' (ids @ [aId])))
         else if aId < bId then
           bindE (aAt (aIt + 1)) (\<lambda>aId'. uvb_loop aAt bAt aSize bSize (aIt + 1) bIt aId' bId (ids @ [aId]))
         else
           bindE (bAt (bIt + 1)) (\<lambda>bId'. uvb_loop aAt bAt aSize bSize aIt (bIt + 1) aId bId' (ids @ [bId])))
      else Inr (aIt, bIt, ids))"
  by pat_completeness auto
termination
proof (relation "measure (\<lambda>(aAt, bAt, aSize, bSize, aIt, bIt, aId, bId, ids). unat (aSize - aIt) + unat (bSize - bIt))", goal_cases)
  case 2 then show ?case using next_less by (auto intro: add_strict_mono)
qed (use next_less in auto)

function uvb_rest :: "(u32 \<Rightarrow> u32 res) \<Rightarrow> u32 \<Rightarrow> u32 \<Rightarrow> u32 list \<Rightarrow> u32 list res" where
  "uvb_rest at sz i ids = (if i < sz then bindE (at i) (\<lambda>v. uvb_rest at sz (i + 1) (ids @ [v])) else Inr ids)"
  by pat_completeness auto
termination
  by (relation "measure (\<lambda>(at, sz, i, ids). unat (sz - i))") (use next_less in auto)

declare uvb_loop.simps [simp del] uvb_rest.simps [simp del]

definition ix_uniteWithVectorBackend :: "heap \<Rightarrow> item_index \<Rightarrow> item_index \<Rightarrow> item_index res" where
  "ix_uniteWithVectorBackend h a b =
     bindE (ix_at h a 0) (\<lambda>aId. bindE (ix_at h b 0) (\<lambda>bId.
     bindE (uvb_loop (ix_at h a) (ix_at h b) (ix_size a) (ix_size b) 0 0 aId bId []) (\<lambda>(aIt, bIt, ids).
     bindE (uvb_rest (ix_at h a) (ix_size a) aIt ids) (\<lambda>ids.
     bindE (uvb_rest (ix_at h b) (ix_size b) bIt ids) (\<lambda>ids. Inr (VectorIdx ids))))))"

section \<open>Opening and creation\<close>

text \<open>\<open>createPrivate\<close> and \<open>fromBitSet\<close>; \<open>None\<close> for the implementations that are not modelled. A type without a serialized form is opened as the empty
  index.\<close>

definition ix_createPrivate :: "ix_state \<Rightarrow> uba \<Rightarrow> u32 \<Rightarrow> (ix_state \<times> item_index) res option" where
  "ix_createPrivate s d ty =
     (case s of (h, n) \<Rightarrow>
        if ty \<in> {T_SIMPLE, T_REGLINE, T_WAH, T_RLE_DE, T_ELIAS_FANO, T_PFOR, T_FOR} then None
        else if ty = T_DE then Some (bindE (de_new h n d) (\<lambda>(h', x). Inr ((h', n + 1), DeIdx x)))
        else if ty = T_NATIVE then Some (bindE (native_new h d) (\<lambda>x. Inr (s, NativeIdx x)))
        else Some (Inr (s, EmptyIdx)))"

definition ix_fromBitSet :: "ix_state \<Rightarrow> uba \<Rightarrow> u32 \<Rightarrow> (ix_state \<times> item_index) res option" where
  "ix_fromBitSet s bits ty =
     (case s of (h, n) \<Rightarrow>
        if m_len bits = 0 then Some (Inr (s, EmptyIdx))
        else if ty AND T_MULTIPLE \<noteq> 0 then None
        else if ty = T_DE then Some (bindE (de_fromBitSet h n (n + 1) bits) (\<lambda>(h', x). Inr ((h', n + 2), DeIdx x)))
        else if ty \<in> {T_RLE_DE, T_WAH, T_REGLINE, T_SIMPLE, T_ELIAS_FANO, T_PFOR, T_FOR} then None
        else if ty \<in> {T_NATIVE, T_STL_DEQUE, T_STL_VECTOR} then
          Some (bindE (vector_fromBitSet h bits) (\<lambda>xs. Inr (s, VectorIdx xs)))
        else if ty = T_EMPTY then Some (Inr (s, EmptyIdx))
        else Some (Inl UnimplementedFunctionException))"

section \<open>Names of types\<close>

definition type_to_string :: "u32 \<Rightarrow> string" where
  "type_to_string t =
     (if t = T_NULL then ''null'' else if t = T_SIMPLE then ''simple'' else if t = T_REGLINE then ''regline''
      else if t = T_WAH then ''wah'' else if t = T_DE then ''de'' else if t = T_RLE_DE then ''rlede''
      else if t = T_NATIVE then ''native'' else if t = T_ELIAS_FANO then ''eliasfano'' else if t = T_PFOR then ''pfor''
      else if t = T_FOR then ''for'' else if t = T_EMPTY then ''empty'' else if t = T_STL_DEQUE then ''deque''
      else if t = T_STL_VECTOR then ''vector'' else ''invalid'')"

definition type_from_string :: "string \<Rightarrow> bool \<times> u32" where
  "type_from_string str =
     (if str = ''simple'' then (True, T_SIMPLE) else if str = ''regline'' then (True, T_REGLINE)
      else if str = ''wah'' then (True, T_WAH) else if str = ''de'' then (True, T_DE)
      else if str = ''rlede'' then (True, T_RLE_DE) else if str = ''native'' then (True, T_NATIVE)
      else if str = ''eliasfano'' then (True, T_ELIAS_FANO) else if str = ''pfor'' then (True, T_PFOR)
      else if str = ''for'' then (True, T_FOR) else if str = ''empty'' then (True, T_EMPTY)
      else if str = ''deque'' then (True, T_STL_DEQUE) else if str = ''vector'' then (True, T_STL_VECTOR)
      else (False, T_NULL))"

end
