(* ===== verification/ItemIndexProps.thy ===== *)
theory ItemIndexProps
  imports ItemIndex
begin

text \<open>
  What an index stands for, in every implementation: \<open>ix_rep\<close> relates it to its list of ids. The locale \<open>index_op\<close> states what an operation of the
  facade promises; the reduction along the tree is proved in it once and interpreted for union and intersection.
\<close>

section \<open>The ids of an index\<close>

definition range_ok :: "range_gen \<Rightarrow> u32 list \<Rightarrow> bool" where
  "range_ok g xs \<longleftrightarrow> r_stride g \<noteq> 0 \<and> (r_end g - r_begin g) mod r_stride g = 0 \<and>
     xs = map (\<lambda>k. r_begin g + of_nat k * r_stride g) [0..<unat (range_size g)]"

definition cua_below :: "nat \<Rightarrow> cua \<Rightarrow> bool" where
  "cua_below n c \<longleftrightarrow> (c_priv c \<noteq> CEmpty \<longrightarrow> m_priv (priv_data (c_priv c)) < n)"

fun ix_rep :: "heap \<Rightarrow> nat \<Rightarrow> item_index \<Rightarrow> u32 list \<Rightarrow> bool" where
  "ix_rep h n EmptyIdx xs \<longleftrightarrow> xs = []"
| "ix_rep h n (NativeIdx x) xs \<longleftrightarrow> native_ids x xs"
| "ix_rep h n (DeIdx x) xs \<longleftrightarrow> de_inv h x xs \<and> m_priv (de_data x) < n \<and> m_priv (de_cache x) < n \<and> isContiguous (storage h (de_data x))"
| "ix_rep h n (VectorIdx ys) xs \<longleftrightarrow> ys = xs"
| "ix_rep h n (DequeIdx ys) xs \<longleftrightarrow> ys = xs"
| "ix_rep h n (RangeIdx g) xs \<longleftrightarrow> range_ok g xs"
| "ix_rep h n (BoundedIdx b) xs \<longleftrightarrow> cua_inv h (fst b) \<and> cua_below n (fst b) \<and> unat (snd b) \<le> unat (m_maxCount (fst b)) \<and>
     xs = map ucast (take (unat (snd b)) (cua_contents h (fst b)))"

definition ix_ok :: "ix_state \<Rightarrow> item_index \<Rightarrow> u32 list \<Rightarrow> bool" where
  "ix_ok s i xs \<longleftrightarrow> ix_rep (fst s) (snd s) i xs \<and> increasing xs \<and> length xs < 2 ^ 32"

text \<open>What an operation may do to the state: use new addresses.\<close>

definition extends :: "ix_state \<Rightarrow> ix_state \<Rightarrow> bool" where
  "extends s s' \<longleftrightarrow> snd s \<le> snd s' \<and> (\<forall>a < snd s. fst s' a = fst s a)"

lemma extends_refl [simp]: "extends s s"
  by (simp add: extends_def)

lemma extends_trans: "extends s t \<Longrightarrow> extends t u \<Longrightarrow> extends s u"
  by (simp add: extends_def)

lemma storage_frame: "extends s s' \<Longrightarrow> m_priv u < snd s \<Longrightarrow> storage (fst s') u = storage (fst s) u"
  by (simp add: extends_def storage_def)

lemma cua_frame:
  assumes "extends s s'" "cua_below (snd s) c" "cua_inv (fst s) c"
  shows "cua_inv (fst s') c" "cua_contents (fst s') c = cua_contents (fst s) c" "cua_below (snd s') c"
proof -
  show "cua_below (snd s') c" using assms(1,2) by (auto simp: cua_below_def extends_def)
  have "cua_inv (fst s') c \<and> cua_contents (fst s') c = cua_contents (fst s) c"
  proof (cases "c_priv c = CEmpty")
    case True
    then show ?thesis using assms(3) by (simp add: cua_inv_def cua_contents_def)
  next
    case False
    then have "storage (fst s') (priv_data (c_priv c)) = storage (fst s) (priv_data (c_priv c))"
      using assms(1,2) by (simp add: storage_frame cua_below_def)
    from view_frame [OF this] show ?thesis using assms(3) by (simp add: cua_inv_def cua_contents_def)
  qed
  then show "cua_inv (fst s') c" "cua_contents (fst s') c = cua_contents (fst s) c" by simp_all
qed

lemma ix_rep_frame:
  assumes "extends s s'" "ix_rep (fst s) (snd s) i xs"
  shows "ix_rep (fst s') (snd s') i xs"
proof (cases i)
  case (DeIdx x)
  then have d: "de_inv (fst s) x xs" "m_priv (de_data x) < snd s" "m_priv (de_cache x) < snd s" "isContiguous (storage (fst s) (de_data x))"
    using assms(2) by simp_all
  note f = storage_frame [OF assms(1) d(2)] storage_frame [OF assms(1) d(3)]
  have "snd s \<le> snd s'" using assms(1) by (simp add: extends_def)
  then show ?thesis using de_inv_frame [OF d(1) f] d f(1) DeIdx by simp
next
  case (BoundedIdx b)
  then have b: "cua_below (snd s) (fst b)" "cua_inv (fst s) (fst b)" using assms(2) by simp_all
  show ?thesis using assms(2) BoundedIdx cua_frame [OF assms(1) b] by simp
qed (use assms(2) in simp_all)

lemma ix_ok_frame: "extends s s' \<Longrightarrow> ix_ok s i xs \<Longrightarrow> ix_ok s' i xs"
  by (simp add: ix_ok_def ix_rep_frame)

section \<open>Access\<close>

lemma unat_vector_size: "length xs < 2 ^ 32 \<Longrightarrow> unat (vec_size xs) = length xs"
  by (simp add: vec_size_def unat_of_nat_small)

lemma read_only_at:
  assumes "de_inv h x xs"
  shows "read_only (de_at h x pos) = Inr (if unat pos < length xs then xs ! unat pos else 0)"
  using de_at_spec [OF assms, of pos] by (auto simp: read_only_def)

lemma range_ids:
  assumes "range_ok g xs"
  shows "length xs = unat (range_size g)" "unat pos < length xs \<Longrightarrow> range_at g pos = xs ! unat pos"
proof -
  show "length xs = unat (range_size g)" using assms by (simp add: range_ok_def)
  then show "unat pos < length xs \<Longrightarrow> range_at g pos = xs ! unat pos"
    using assms by (simp add: range_ok_def range_at_def)
qed

lemma bounded_ids:
  assumes "ix_rep h n (BoundedIdx b) xs" "length xs < 2 ^ 32"
  shows "unat (bounded_size b) = length xs" "unat pos < length xs \<Longrightarrow> bounded_at h b pos = Inr (xs ! unat pos)"
proof -
  have r: "cua_inv h (fst b)" "unat (snd b) \<le> unat (m_maxCount (fst b))" "xs = map ucast (take (unat (snd b)) (cua_contents h (fst b)))"
    using assms(1) by simp_all
  then have l: "length xs = unat (snd b)" by simp
  then show "unat (bounded_size b) = length xs" using assms(2) by (simp add: bounded_size_def unsigned_ucast_eq take_bit_nat_eq_self_iff)
  show "unat pos < length xs \<Longrightarrow> bounded_at h b pos = Inr (xs ! unat pos)"
    using r l by (simp add: bounded_at_def cua_at_spec unat_ucast64)
qed

text \<open>All implementations give the ids of their list, through \<open>at\<close> and through \<open>uncheckedAt\<close>.\<close>

lemma ix_size_rep:
  assumes "ix_rep h n i xs" "length xs < 2 ^ 32"
  shows "unat (ix_size i) = length xs"
  using assms bounded_ids(1) [OF _ assms(2)]
  by (cases i) (auto simp: native_ids_def de_inv_def de_data_inv_def unat_vector_size range_ids(1) simp del: ix_rep.simps(7))

lemma ix_at_rep:
  assumes "ix_rep h n i xs" "length xs < 2 ^ 32" "unat pos < length xs"
  shows "ix_at h i pos = Inr (xs ! unat pos)" "ix_uncheckedAt h i pos = Inr (xs ! unat pos)"
proof -
  have "ix_at h i pos = Inr (xs ! unat pos) \<and> ix_uncheckedAt h i pos = Inr (xs ! unat pos)"
  proof (cases i)
    case (NativeIdx x)
    then have x: "native_ids x xs" using assms(1) by simp
    then have "pos < n_size x" using assms(3) by (simp add: native_ids_def word_less_nat_alt)
    then show ?thesis using NativeIdx native_uncheckedAt_spec [OF x assms(3)] by (simp add: native_at_def)
  next
    case (BoundedIdx b)
    have "bounded_at h b pos = Inr (xs ! unat pos)" by (rule bounded_ids(2)) (use assms BoundedIdx in blast)+
    then show ?thesis using BoundedIdx by simp
  next
    case (DeIdx x)
    then show ?thesis using read_only_at [of h x xs pos] assms by simp
  qed (use assms in \<open>simp_all add: vector_at_def deque_at_def vec_at_def word_less_nat_alt unat_vector_size range_ids(2)\<close>)
  then show "ix_at h i pos = Inr (xs ! unat pos)" "ix_uncheckedAt h i pos = Inr (xs ! unat pos)" by simp_all
qed

lemma ix_sources:
  assumes "ix_rep h n i xs" "length xs < 2 ^ 32"
  shows "source_ids (ix_source h i) xs" "source_ids (ix_checked h i) xs"
  using ix_size_rep [OF assms] ix_at_rep [OF assms] by (simp_all add: source_ids_def ix_source_def ix_checked_def)

text \<open>The contract of an index holds for all of them.\<close>

definition ix_entry_ok :: "heap \<times> nat \<times> item_index \<times> u32 list \<Rightarrow> bool" where
  "ix_entry_ok = (\<lambda>(h, n, i, xs). ix_rep h n i xs \<and> length xs < 2 ^ 32)"

interpretation ix_idx: id_index "\<lambda>(h, n, i, xs). ix_checked h i" "\<lambda>(h, n, i, xs). xs" ix_entry_ok
  by unfold_locales (auto simp: ix_entry_ok_def ix_sources)

lemma ix_find_rep:
  assumes "ix_rep h n i xs" "length xs < 2 ^ 32" "increasing xs"
  shows "\<exists>p. ix_find h i v = Inr p \<and> (if v \<in> set xs then unat p < length xs \<and> xs ! unat p = v else p = - 1)"
proof (cases "i = EmptyIdx")
  case True
  then show ?thesis using assms(1) by (simp add: ix_find_def)
next
  case False
  have "sorted xs" using assms(3) by (rule strict_sorted_imp_sorted)
  then show ?thesis using ix_idx.find_ok [of "(h, n, i, xs)" v] assms(1,2) False
    by (auto simp: ix_entry_ok_def ix_find_def split: item_index.splits)
qed

lemma ix_toVector_rep:
  assumes "ix_rep h n i xs" "length xs < 2 ^ 32"
  shows "ix_toVector h i = (if xs = [] then Inl UndefinedBehaviour else Inr xs)"
proof -
  have g: "doPutInto_array (ix_checked h i) = Inr xs"
    using ix_idx.put_array_ok [of "(h, n, i, xs)" 0] assms by (simp add: ix_entry_ok_def doPutInto_array_def)
  have z: "ix_size i = 0 \<longleftrightarrow> xs = []" using ix_size_rep [OF assms] by (auto simp: unat_eq_zero)
  show ?thesis
  proof (cases i)
    case (NativeIdx x)
    then have x: "native_ids x xs" using assms(1) by simp
    have "map (\<lambda>k. le_word (chunk (4 * k) 4 (ids_bytes xs))) [0..<length xs] = xs"
      by (rule nth_equalityI) (simp_all add: chunk_ids_bytes le_word_le_bytes take_bit_length_word)
    then show ?thesis using x z NativeIdx by (simp add: ix_toVector_def native_putInto_array_def native_ids_def chunk_def)
  next
    case (DeIdx x)
    then show ?thesis using assms(1) z by (simp add: ix_toVector_def de_putInto_array_spec)
  qed (use g z in \<open>simp_all add: ix_toVector_def\<close>)
qed

lemma ix_putInto_bits_rep:
  assumes "ix_rep h n i xs" "length xs < 2 ^ 32" "increasing xs" "owner h m" "n \<le> m_priv m"
  shows "\<exists>h' m'. ix_putInto_bits h i m = Inr (h', m') \<and> owner h' m' \<and> dbs_elems h' m' = dbs_elems h m \<union> unat ` set xs"
proof -
  have g: "\<exists>h' m'. doPutInto_bits (ix_checked h i) h m = Inr (h', m') \<and> owner h' m' \<and> dbs_elems h' m' = dbs_elems h m \<union> unat ` set xs"
    using ix_idx.put_bits_ok [of "(h, n, i, xs)" h m 0] assms by (simp add: ix_entry_ok_def doPutInto_bits_def)
  show ?thesis
  proof (cases i)
    case (NativeIdx x)
    then show ?thesis using native_putInto_bits_spec [of x xs h m] assms by (simp add: ix_putInto_bits_def)
  next
    case (DeIdx x)
    then show ?thesis using de_putInto_bits_spec [of h x xs m] assms by (simp add: ix_putInto_bits_def)
  qed (use g in \<open>simp_all add: ix_putInto_bits_def\<close>)
qed

lemma ix_ends_rep:
  assumes "ix_rep h n i xs" "length xs < 2 ^ 32" "xs \<noteq> []"
  shows "ix_front h i = Inr (hd xs)" "ix_back h i = Inr (last xs)"
proof -
  have z: "ix_size i \<noteq> 0" using ix_size_rep [OF assms(1,2)] assms(3) by auto
  then have l: "unat (ix_size i - 1) = length xs - 1" using ix_size_rep [OF assms(1,2)] by (simp add: unat_minus_one)
  have at: "ix_at h i 0 = Inr (hd xs)" "ix_at h i (ix_size i - 1) = Inr (last xs)"
    using ix_at_rep(1) [OF assms(1,2), of 0] ix_at_rep(1) [OF assms(1,2), of "ix_size i - 1"] assms(3) l
    by (simp_all add: hd_conv_nth last_conv_nth)
  have "ix_front h i = Inr (hd xs) \<and> ix_back h i = Inr (last xs)"
  proof (cases i)
    case (RangeIdx g)
    let ?m = "r_end g - r_begin g"
    have r: "range_ok g xs" using assms(1) RangeIdx by simp
    have "?m = ?m div r_stride g * r_stride g" using r div_mult_mod_eq [of ?m "r_stride g"] by (simp add: range_ok_def)
    then have "r_end g - r_stride g = r_begin g + (range_size g - 1) * r_stride g"
      by (simp add: range_size_def algebra_simps)
    then show ?thesis using at RangeIdx by (simp add: range_first_def range_last_def range_at_def)
  qed (use at z assms in \<open>simp_all add: native_first_def native_last_def de_first_def de_last_def vector_first_def vector_last_def
      vec_front_def vec_back_def bounded_first_def bounded_last_def\<close>)
  then show "ix_front h i = Inr (hd xs)" "ix_back h i = Inr (last xs)" by simp_all
qed

end
