(* ===== verification/ItemIndexSets.thy ===== *)
theory ItemIndexSets
  imports ItemIndexProps
begin

text \<open>
  The set operations of the facade: for any two implementations they compute the set operation on the ids and touch nothing that was there
  before. The locale \<open>index_op\<close> states this contract and reduces many indices along the tree; it is interpreted for union and
  intersection. Filters and the union into a vector follow.
\<close>

section \<open>Two indices\<close>

lemma result_ids_rep: "result_ids r zs \<Longrightarrow> ix_rep h n (ix_of_result r) zs"
  by (cases r) (auto simp: result_ids_def)

definition set_ops :: "set_op set" where
  "set_ops = {IntersectOp, UniteOp, DifferenceOp, SymmetricDifferenceOp}"

lemma ix_ok_sources: "ix_ok s i xs \<Longrightarrow> source_ids (ix_source (fst s) i) xs"
  using ix_sources(1) [of "fst s" "snd s" i xs] by (simp add: ix_ok_def)

lemma native_op_rep:
  assumes "native_ids x xs" "ix_ok (h, n) b ys" "increasing xs" "length xs + length ys < 2 ^ 29" "t \<in> set_ops"
  shows "\<exists>r. native_op t x (case b of NativeIdx y \<Rightarrow> NativeOp y | _ \<Rightarrow> OtherOp (ix_source h b)) = Inr r \<and> result_ids r (merge_op t xs ys)"
proof (cases "\<exists>y. b = NativeIdx y")
  case True
  then obtain y where "b = NativeIdx y" "native_ids y ys" "increasing ys" using assms(2) by (auto simp: ix_ok_def)
  then show ?thesis using native_operations_agree [OF assms(1) _ assms(3), of y ys t] assms(4,5) by (simp add: set_ops_def)
next
  case False
  have "source_ids (ix_source h b) ys" using ix_ok_sources [OF assms(2)] by simp
  from do_op_agrees [OF native_source_ids [OF assms(1)] this, of t] assms(4,5) show ?thesis
    using False by (auto simp: native_op_def native_source_def set_ops_def split: item_index.splits)
qed

lemma de_op_rep:
  assumes "ix_ok (h, n) (DeIdx x) xs" "ix_ok (h, n) b ys" "xs \<noteq> []" "ys \<noteq> []" "length xs + length ys < 2 ^ 29" "t \<in> set_ops"
  shows "\<exists>s' r. bindE (de_op t h n (n + 1) x (case b of DeIdx y \<Rightarrow> DeOperand y | _ \<Rightarrow> OtherOperand (ix_source h b))) (\<lambda>r.
      Inr (case r of DeResult h' z \<Rightarrow> ((h', n + 2), DeIdx z) | GenericResult r \<Rightarrow> ((h, n), ix_of_result r))) = Inr (s', r) \<and>
    ix_rep (fst s') (snd s') r (merge_op t xs ys) \<and> extends (h, n) s'"
proof (cases "\<exists>y. b = DeIdx y")
  case True
  then obtain y where y: "b = DeIdx y" by blast
  have x: "de_inv h x xs" "m_priv (de_data x) < n" "m_priv (de_cache x) < n" "isContiguous (storage h (de_data x))"
    using assms(1) by (simp_all add: ix_ok_def)
  have y': "de_inv h y ys" "m_priv (de_data y) < n" "m_priv (de_cache y) < n" "isContiguous (storage h (de_data y))"
    using assms(2) y by (simp_all add: ix_ok_def)
  have "n \<notin> {m_priv (de_data x), m_priv (de_cache x), m_priv (de_data y), m_priv (de_cache y)}" "n + 1 \<noteq> n" using x y' by auto
  from de_genericOp_spec [OF x(1) y'(1) assms(3,4,5) x(4) y'(4) this, of t] obtain h' z where
    1: "de_genericOp t h n (n + 1) x y = Inr (h', z)" "de_inv h' z (merge_op t xs ys)"
      "\<forall>w. m_priv w \<noteq> n \<and> m_priv w \<noteq> n + 1 \<longrightarrow> storage h' w = storage h w"
      "m_priv (de_data z) = n" "m_priv (de_cache z) = n + 1" "isContiguous (storage h' (de_data z))" by blast
  have "h' a = h a" if "a < n" for a
    using 1(3) [rule_format, of "uba_of_priv a 0 0"] that by (simp add: storage_def uba_of_priv_def)
  then have "extends (h, n) (h', n + 2)" by (simp add: extends_def)
  then show ?thesis using 1 y by (simp add: de_op_def)
next
  case False
  have "de_inv h x xs" using assms(1) by (simp add: ix_ok_def)
  then have s: "source_ids (de_source (h, x)) xs" "source_ids (ix_source h b) ys"
    using ix_ok_sources [OF assms(2)] by (simp_all add: de_source_ids)
  from do_op_agrees [OF s, of t] assms(5,6) obtain r where
    "do_op t (de_source (h, x)) (Some (ix_source h b)) = Inr r" "result_ids r (merge_op t xs ys)" by (auto simp: set_ops_def)
  then show ?thesis using False result_ids_rep by (auto simp: de_op_def split: item_index.splits)
qed

lemma ix_op_rep:
  assumes "ix_ok s a xs" "ix_ok s b ys" "xs \<noteq> []" "ys \<noteq> []" "length xs + length ys < 2 ^ 29" "t \<in> set_ops"
  shows "\<exists>s' r. ix_op t s a b = Inr (s', r) \<and> ix_ok s' r (merge_op t xs ys) \<and> extends s s'"
proof -
  obtain h n where s: "s = (h, n)" by fastforce
  have i: "increasing xs" "increasing ys" using assms(1,2) by (simp_all add: ix_ok_def)
  have "\<exists>s' r. ix_op t s a b = Inr (s', r) \<and> ix_rep (fst s') (snd s') r (merge_op t xs ys) \<and> extends s s'"
  proof (cases "(\<exists>x. a = NativeIdx x) \<or> (\<exists>x. a = DeIdx x)")
    case True
    then show ?thesis
    proof (elim disjE exE)
      fix x assume a: "a = NativeIdx x"
      then have x: "native_ids x xs" using assms(1) by (simp add: ix_ok_def)
      from native_op_rep [OF x assms(2) [unfolded s] i(1) assms(5,6)] obtain r where
        "native_op t x (case b of NativeIdx y \<Rightarrow> NativeOp y | _ \<Rightarrow> OtherOp (ix_source h b)) = Inr r" "result_ids r (merge_op t xs ys)" by blast
      then show ?thesis using a result_ids_rep by (auto simp: ix_op_def s)
    next
      fix x assume a: "a = DeIdx x"
      then show ?thesis using de_op_rep [of h n x xs b ys t] assms unfolding s by (simp add: ix_op_def)
    qed
  next
    case False
    have src: "source_ids (ix_source h a) xs" "source_ids (ix_source h b) ys" using ix_ok_sources [OF assms(1)] ix_ok_sources [OF assms(2)] s by simp_all
    from do_op_agrees [OF src, of t] assms(5,6) obtain r where
      "do_op t (ix_source h a) (Some (ix_source h b)) = Inr r" "result_ids r (merge_op t xs ys)" by (auto simp: set_ops_def)
    moreover from False have "ix_op t s a b = bindE (do_op t (ix_source h a) (Some (ix_source h b))) (\<lambda>r. Inr (s, ix_of_result r))"
      by (auto simp: ix_op_def s split: item_index.splits)
    ultimately show ?thesis using result_ids_rep by auto
  qed
  moreover have "coherent t" using assms(6) by (auto simp: set_ops_def)
  then have "increasing (merge_op t xs ys)" using merge_op_set i by blast
  moreover have "length (merge_op t xs ys) < 2 ^ 32" using length_merge_op [of t xs ys] assms(5) by simp
  ultimately show ?thesis unfolding ix_ok_def by blast
qed

text \<open>An operand without ids.\<close>

lemma merge_op_Nil_left: "merge_op t [] ys = (if pushSecondRemainder t then ys else [])"
  by (cases ys) simp_all

lemma ix_size_zero: "ix_ok s i xs \<Longrightarrow> ix_size i = 0 \<longleftrightarrow> xs = []"
  using ix_size_rep [of "fst s" "snd s" i xs] by (auto simp: ix_ok_def unat_eq_0)

lemma ix_ok_empty: "ix_ok s EmptyIdx []"
  by (simp add: ix_ok_def)

section \<open>Many indices\<close>

text \<open>The values of a non-empty list, combined by an associative operation.\<close>

fun combined :: "('a \<Rightarrow> 'a \<Rightarrow> 'a) \<Rightarrow> 'a list \<Rightarrow> 'a" where
  "combined g [] = undefined"
| "combined g [x] = x"
| "combined g (x # y # zs) = g x (combined g (y # zs))"

lemma combined_Cons: "xs \<noteq> [] \<Longrightarrow> combined g (x # xs) = g x (combined g xs)"
  by (cases xs) simp_all

lemma combined_append:
  assumes "\<And>x y z. g (g x y) z = g x (g y z)" "xs \<noteq> []" "ys \<noteq> []"
  shows "combined g (xs @ ys) = g (combined g xs) (combined g ys)"
  using assms(2)
proof (induction xs)
  case (Cons x xs)
  then show ?case using assms(1,3) by (cases "xs = []") (simp_all add: combined_Cons)
qed simp

lemma combined_sets:
  "xs \<noteq> [] \<Longrightarrow> combined (\<union>) xs = \<Union>(set xs)" "xs \<noteq> [] \<Longrightarrow> combined (\<inter>) xs = \<Inter>(set xs)"
  by (induction xs; case_tac "xs = []"; simp add: combined_Cons)+

locale index_op =
  fixes oper :: "ix_state \<Rightarrow> item_index \<Rightarrow> item_index \<Rightarrow> (ix_state \<times> item_index) res"
    and sem :: "u32 set \<Rightarrow> u32 set \<Rightarrow> u32 set"
  assumes oper_ok: "ix_ok s a xs \<Longrightarrow> ix_ok s b ys \<Longrightarrow> length xs + length ys < 2 ^ 29 \<Longrightarrow>
      \<exists>s' r zs. oper s a b = Inr (s', r) \<and> ix_ok s' r zs \<and> extends s s' \<and> set zs = sem (set xs) (set ys) \<and> length zs \<le> length xs + length ys"
    and sem_assoc: "sem (sem A B) C = sem A (sem B C)"
begin

lemma tree_ok:
  assumes "list_all2 (ix_ok s) is xss" "sum_list (map length xss) < 2 ^ 29" "length is \<le> 2 ^ 32"
  shows "start \<le> stop \<Longrightarrow> unat stop < length is \<Longrightarrow> extends s s1 \<Longrightarrow>
    \<exists>s' r zs. with_tree oper start stop is s1 = Inr (s', r) \<and> ix_ok s' r zs \<and> extends s1 s' \<and>
      set zs = combined sem (map set (take (unat (stop - start) + 1) (drop (unat start) xss))) \<and>
      length zs \<le> sum_list (map length (take (unat (stop - start) + 1) (drop (unat start) xss)))"
proof (induction "unat (stop - start)" arbitrary: start stop s1 rule: less_induct)
  case less
  have l: "length xss = length is" using assms(1) by (simp add: list_all2_lengthD)
  show ?case
  proof (cases "start = stop")
    case True
    then have "unat start < length is" using less.prems(2) by simp
    moreover from this have "take 1 (drop (unat start) xss) = [xss ! unat start]" by (simp add: l take_Suc hd_drop_conv_nth)
    moreover have "ix_ok s (is ! unat start) (xss ! unat start)" using assms(1) calculation(1) by (simp add: list_all2_conv_all_nth)
    ultimately show ?thesis using True ix_ok_frame [OF less.prems(3)] by (subst with_tree.simps) auto
  next
    case False
    define mid where "mid = start + (stop - start) div 2"
    let ?d = "unat (stop - start)"
    have d: "unat stop = unat start + ?d" using less.prems(1) by (simp add: unat_sub word_le_nat_alt)
    have d0: "0 < ?d" using False by (simp add: unat_gt_0)
    have m0: "unat (mid - start) = ?d div 2" by (simp add: mid_def unat_div)
    have mid: "unat mid = unat start + ?d div 2"
      using d unat_bound [of stop] unfolding mid_def by (subst unat_add_nowrap) (simp_all add: unat_div)
    have m1: "unat (mid + 1) = unat mid + 1" using mid d d0 unat_bound [of stop] by (subst unat_add_nowrap) simp_all
    have r: "unat (stop - (mid + 1)) = ?d - ?d div 2 - 1" using m1 mid d d0 by (subst unat_sub) (simp_all add: word_le_nat_alt)
    note halves = tree_halves [OF False mid_def]
    let ?L = "take (?d div 2 + 1) (drop (unat start) xss)"
    let ?R = "take (?d - ?d div 2) (drop (unat mid + 1) xss)"
    have split: "take (?d + 1) (drop (unat start) xss) = ?L @ ?R"
    proof -
      have "take (?d + 1) (drop (unat start) xss) = take ((?d div 2 + 1) + (?d - ?d div 2)) (drop (unat start) xss)"
        using d0 by (simp add: algebra_simps)
      then show ?thesis unfolding take_add drop_drop mid by (simp only: ac_simps)
    qed
    have "start \<le> mid" "unat mid < length is" using mid d less.prems(2) d0 by (simp_all add: word_le_nat_alt)
    from less.hyps [OF halves(1) this less.prems(3)] obtain s2 a xs where
      1: "with_tree oper start mid is s1 = Inr (s2, a)" "ix_ok s2 a xs" "extends s1 s2"
        "set xs = combined sem (map set ?L)" "length xs \<le> sum_list (map length ?L)" unfolding m0 by blast
    have "mid + 1 \<le> stop" using m1 mid d d0 by (simp add: word_le_nat_alt)
    moreover have "Suc (?d - ?d div 2 - 1) = ?d - ?d div 2" using d0 by simp
    ultimately obtain s3 b ys where
      2: "with_tree oper (mid + 1) stop is s2 = Inr (s3, b)" "ix_ok s3 b ys" "extends s2 s3"
        "set ys = combined sem (map set ?R)" "length ys \<le> sum_list (map length ?R)"
      using less.hyps [OF halves(2) _ less.prems(2) extends_trans [OF less.prems(3) 1(3)]] unfolding r m1 by auto
    have "sum_list (map length xss) = sum_list (map length (take (unat start) xss)) + sum_list (map length (drop (unat start) xss))"
      by (metis append_take_drop_id map_append sum_list_append)
    moreover have "sum_list (map length (drop (unat start) xss)) =
        sum_list (map length (?L @ ?R)) + sum_list (map length (drop (?d + 1) (drop (unat start) xss)))"
      unfolding split [symmetric] by (metis append_take_drop_id map_append sum_list_append)
    ultimately have sum: "length xs + length ys < 2 ^ 29" using 1(5) 2(5) assms(2) by simp
    from oper_ok [OF ix_ok_frame [OF 2(3) 1(2)] 2(2) sum] obtain s4 c zs where
      3: "oper s3 a b = Inr (s4, c)" "ix_ok s4 c zs" "extends s3 s4" "set zs = sem (set xs) (set ys)"
        "length zs \<le> length xs + length ys" by blast
    have "?d div 2 < ?d" using d0 by simp
    moreover have "unat mid + 1 < length xss" using calculation d mid less.prems(2) l by linarith
    ultimately have ne: "?L \<noteq> []" "?R \<noteq> []" using mid by simp_all
    have "set zs = combined sem (map set (?L @ ?R))"
      using combined_append [of sem "map set ?L" "map set ?R"] sem_assoc ne 3(4) 1(4) 2(4) by simp
    moreover have "length zs \<le> sum_list (map length (?L @ ?R))" using 3(5) 1(5) 2(5) by simp
    moreover have "extends s1 s4" using extends_trans [OF extends_trans [OF 1(3) 2(3)] 3(3)] .
    moreover have "with_tree oper start stop is s1 = Inr (s4, c)"
      using False 1(1) 2(1) 3(1) by (subst with_tree.simps) (simp add: mid_def [symmetric] Let_def)
    ultimately show ?thesis using 3(2) unfolding split by blast
  qed
qed

text \<open>The operation on a vector of indices, with its cases for one and two of them.\<close>

definition all_of :: "item_index list \<Rightarrow> ix_state \<Rightarrow> (ix_state \<times> item_index) res" where
  "all_of is s =
     (if length is = 0 then Inr (s, EmptyIdx)
      else if length is = 1 then Inr (s, hd is)
      else if length is = 2 then oper s (hd is) (last is)
      else with_tree oper 0 (of_nat (length is - 1)) is s)"

lemma all_ok:
  assumes "list_all2 (ix_ok s) is xss" "sum_list (map length xss) < 2 ^ 29" "length is \<le> 2 ^ 32" "is \<noteq> []"
  shows "\<exists>s' r zs. all_of is s = Inr (s', r) \<and> ix_ok s' r zs \<and> extends s s' \<and> set zs = combined sem (map set xss) \<and>
    length zs \<le> sum_list (map length xss)"
proof (cases "length is \<le> 2")
  case True
  then consider i where "is = [i]" | i j where "is = [i, j]" using assms(4) by (cases "is"; cases "tl is") auto
  then show ?thesis
  proof cases
    case 1
    then show ?thesis using assms(1) by (auto simp: all_of_def list_all2_Cons1)
  next
    case 2
    then obtain xs ys where "xss = [xs, ys]" "ix_ok s i xs" "ix_ok s j ys" using assms(1) by (auto simp: list_all2_Cons1)
    then show ?thesis using oper_ok [of s i xs j ys] assms(2) 2 by (simp add: all_of_def)
  qed
next
  case False
  let ?n = "of_nat (length is - 1) :: u32"
  have n: "unat ?n = length is - 1" using assms(3) False by (intro unat_of_nat_small) simp
  then have "unat ?n < length is" "0 \<le> ?n" using False by simp_all
  from tree_ok [OF assms(1-3) this(2,1) extends_refl] show ?thesis
    using False n list_all2_lengthD [OF assms(1)] assms(4) by (auto simp: all_of_def)
qed

end

lemma unite_ok:
  assumes "ix_ok s a xs" "ix_ok s b ys" "length xs + length ys < 2 ^ 29"
  shows "\<exists>s' r. ix_unite s a b = Inr (s', r) \<and> ix_ok s' r (merge_op UniteOp xs ys) \<and> extends s s'"
  using ix_op_rep [of s a xs b ys UniteOp] assms ix_size_zero [OF assms(1)] ix_size_zero [OF assms(2)]
  by (cases s) (auto simp: ix_unite_def set_ops_def merge_op_Nil merge_op_Nil_left UniteOp_def)

lemma intersect_ok:
  assumes "ix_ok s a xs" "ix_ok s b ys" "length xs + length ys < 2 ^ 29"
  shows "\<exists>s' r. ix_intersect s a b = Inr (s', r) \<and> ix_ok s' r (merge_op IntersectOp xs ys) \<and> extends s s'"
  using ix_op_rep [of s a xs b ys IntersectOp] assms ix_size_zero [OF assms(1)] ix_size_zero [OF assms(2)]
  by (cases s) (auto simp: ix_intersect_def set_ops_def merge_op_Nil merge_op_Nil_left IntersectOp_def ix_ok_empty)

lemma difference_ok:
  assumes "ix_ok s a xs" "ix_ok s b ys" "length xs + length ys < 2 ^ 29"
  shows "\<exists>s' r. ix_difference s a b = Inr (s', r) \<and> ix_ok s' r (merge_op DifferenceOp xs ys) \<and> extends s s'"
  using ix_op_rep [of s a xs b ys DifferenceOp] assms ix_size_zero [OF assms(1)] ix_size_zero [OF assms(2)]
  by (cases s) (auto simp: ix_difference_def set_ops_def merge_op_Nil merge_op_Nil_left DifferenceOp_def)

lemma symmetricDifference_ok:
  assumes "ix_ok s a xs" "ix_ok s b ys" "length xs + length ys < 2 ^ 29"
  shows "\<exists>s' r. ix_symmetricDifference s a b = Inr (s', r) \<and> ix_ok s' r (merge_op SymmetricDifferenceOp xs ys) \<and> extends s s'"
  using ix_op_rep [of s a xs b ys SymmetricDifferenceOp] assms ix_size_zero [OF assms(1)] ix_size_zero [OF assms(2)]
  by (cases s) (auto simp: ix_symmetricDifference_def set_ops_def merge_op_Nil merge_op_Nil_left SymmetricDifferenceOp_def)

text \<open>Union and intersection of many indices.\<close>

lemma ix_merge_sets:
  assumes "ix_ok s a xs" "ix_ok s b ys" "t \<in> set_ops"
  shows "set (merge_op t xs ys) = op_set t (set xs) (set ys)"
proof -
  have "coherent t" using assms(3) by (auto simp: set_ops_def)
  then show ?thesis using merge_op_set assms(1,2) unfolding ix_ok_def by blast
qed

interpretation unions: index_op ix_unite "(\<union>)"
proof
  fix s a xs b ys
  assume a: "ix_ok s a xs" "ix_ok s b ys" "length xs + length ys < 2 ^ 29"
  from unite_ok [OF this] ix_merge_sets [OF a(1,2), of UniteOp] length_merge_op [of UniteOp xs ys]
  show "\<exists>s' r zs. ix_unite s a b = Inr (s', r) \<and> ix_ok s' r zs \<and> extends s s' \<and> set zs = set xs \<union> set ys \<and>
      length zs \<le> length xs + length ys"
    by (auto simp: set_ops_def op_sets)
qed auto

interpretation intersections: index_op ix_intersect "(\<inter>)"
proof
  fix s a xs b ys
  assume a: "ix_ok s a xs" "ix_ok s b ys" "length xs + length ys < 2 ^ 29"
  from intersect_ok [OF this] ix_merge_sets [OF a(1,2), of IntersectOp] length_merge_op [of IntersectOp xs ys]
  show "\<exists>s' r zs. ix_intersect s a b = Inr (s', r) \<and> ix_ok s' r zs \<and> extends s s' \<and> set zs = set xs \<inter> set ys \<and>
      length zs \<le> length xs + length ys"
    by (auto simp: set_ops_def op_sets)
qed auto

lemma all_are: "unions.all_of = ix_unite_all" "intersections.all_of = ix_intersect_all"
  by (auto simp: fun_eq_iff unions.all_of_def intersections.all_of_def ix_unite_all_def ix_intersect_all_def ix_uniteWithTree_def
      ix_intersectWithTree_def)

section \<open>Filters\<close>

text \<open>The types of the seven implementations have no bit of \<open>T_WAH\<close> and \<open>T_RLE_DE\<close>, so operands of these implementations are filtered by the default.\<close>

lemma ix_types_mask: "ix_types is t AND 0x7628 = 0 \<Longrightarrow> t AND 0x7628 = 0 \<and> is = []"
proof (induction "is" arbitrary: t)
  case (Cons i "is")
  then have "(t OR ix_type i) AND 0x7628 = 0" by (simp add: ix_types_def)
  then have "t AND 0x7628 = 0" "ix_type i AND 0x7628 = 0" by (simp_all add: bit.conj_disj_distrib2 or_eq_0_iff)
  then show ?case by (cases i) (simp_all add: type_defs)
qed (simp add: ix_types_def)

lemma dispatch_default:
  assumes "is \<noteq> []"
  shows "dispatch_type (ix_types js (ix_types is T_NULL)) count \<notin> {T_WAH, T_RLE_DE}" "dispatch_type (ix_types is T_NULL) count \<notin> {T_WAH, T_RLE_DE}"
proof -
  have 1: "ix_types is T_NULL AND 0x7628 \<noteq> 0" using ix_types_mask [of "is" T_NULL] assms by auto
  have 2: "ix_types js (ix_types is T_NULL) AND 0x7628 \<noteq> 0" using ix_types_mask [of js] 1 by auto
  have "t \<notin> {T_WAH, T_RLE_DE}" if "t AND 0x7628 \<noteq> 0" for t :: u32 using that by (auto simp: type_defs)
  with 1 2 show "dispatch_type (ix_types js (ix_types is T_NULL)) count \<notin> {T_WAH, T_RLE_DE}"
      "dispatch_type (ix_types is T_NULL) count \<notin> {T_WAH, T_RLE_DE}"
    by (auto simp: dispatch_type_def type_defs)
qed

lemma filter_loop_rep:
  assumes "\<And>p. unat p < length xs \<Longrightarrow> at p = Inr (xs ! unat p)" "unat sz = length xs"
  shows "unat i \<le> length xs \<Longrightarrow> length ids \<le> unat count \<Longrightarrow>
    filter_loop at sz count accept i ids = Inr (take (unat count) (ids @ filter accept (drop (unat i) xs)))"
proof (induction "length xs - unat i" arbitrary: i ids rule: less_induct)
  case less
  show ?case
  proof (cases "i < sz \<and> length ids < unat count")
    case False
    then have "unat i = length xs \<or> length ids = unat count" using less.prems assms(2) by (auto simp: word_less_nat_alt)
    then show ?thesis using False less.prems(2) by (subst filter_loop.simps) auto
  next
    case True
    then have i: "unat i < length xs" using assms(2) by (simp add: word_less_nat_alt)
    then have n: "unat (i + 1) = unat i + 1" using assms(2) unat_bound [of sz] by (subst unat_add_nowrap) simp_all
    let ?v = "xs ! unat i"
    have "length xs - unat (i + 1) < length xs - unat i" "unat (i + 1) \<le> length xs" using i n by simp_all
    note ih = less.hyps [OF this]
    have "drop (unat i) xs = ?v # drop (unat (i + 1)) xs" using i n by (simp add: Cons_nth_drop_Suc)
    then show ?thesis using True assms(1) [OF i] ih [of "if accept ?v then ids @ [?v] else ids"]
      by (subst filter_loop.simps) (auto simp: take_Cons' split: if_splits)
  qed
qed

text \<open>What a filter leaves of a list: the first ids that are accepted, at most \<open>count\<close> of them. Without a filter the count is not used.\<close>

definition accepted :: "u32 \<Rightarrow> (u32 \<Rightarrow> bool) option \<Rightarrow> u32 list \<Rightarrow> u32 list" where
  "accepted count accept xs = (case accept of None \<Rightarrow> xs | Some a \<Rightarrow> take (unat count) (filter a xs))"

lemma filtered_rep:
  assumes "ix_ok s i xs"
  shows "\<exists>r. ix_filtered s i count accept = Inr (s, r) \<and> ix_ok s r (accepted count accept xs)"
proof (cases accept)
  case (Some f)
  have r: "ix_rep (fst s) (snd s) i xs" "length xs < 2 ^ 32" "increasing xs" using assms by (simp_all add: ix_ok_def)
  have "filter_loop (ix_at (fst s) i) (ix_size i) count f 0 [] = Inr (take (unat count) (filter f xs))"
    using filter_loop_rep [of xs "ix_at (fst s) i" "ix_size i" 0 "[]"] ix_at_rep(1) [OF r(1,2)] ix_size_rep [OF r(1,2)] by simp
  moreover have "increasing (take (unat count) (filter f xs))" using r(3) by (simp add: sorted_wrt_take sorted_wrt_filter)
  moreover have "length (take (unat count) (filter f xs)) \<le> length (filter f xs)" by simp
  then have "length (take (unat count) (filter f xs)) < 2 ^ 32" using r(2) length_filter_le [of f xs] by linarith
  ultimately show ?thesis using Some by (simp add: ix_filtered_def accepted_def ix_ok_def)
qed (use assms in \<open>simp add: ix_filtered_def accepted_def\<close>)

section \<open>Union into a vector\<close>

lemma at_behind_end:
  assumes "ix_rep h n i xs" "length xs < 2 ^ 32" "\<nexists>d. i = DequeIdx d" "\<nexists>b. i = BoundedIdx b"
  shows "\<exists>v. ix_at h i pos = Inr v"
proof (cases i)
  case (NativeIdx x)
  then show ?thesis using ix_at_rep(1) [OF assms(1,2), of pos] assms(1)
    by (cases "unat pos < length xs") (auto simp: native_at_def native_ids_def word_less_nat_alt)
next
  case (DeIdx x)
  then show ?thesis using read_only_at [of h x xs pos] assms(1) by simp
next
  case (VectorIdx d)
  then show ?thesis using assms(1,2) by (simp add: vector_at_def vec_at_def word_less_nat_alt unat_vector_size)
qed (use assms in auto)

lemma uvb_rest_rep:
  assumes "\<And>p. unat p < length xs \<Longrightarrow> at p = Inr (xs ! unat p)" "unat sz = length xs"
  shows "unat i \<le> length xs \<Longrightarrow> uvb_rest at sz i ids = Inr (ids @ drop (unat i) xs)"
proof (induction "length xs - unat i" arbitrary: i ids rule: less_induct)
  case less
  show ?case
  proof (cases "i < sz")
    case True
    then have i: "unat i < length xs" using assms(2) by (simp add: word_less_nat_alt)
    then have n: "unat (i + 1) = unat i + 1" using assms(2) unat_bound [of sz] by (subst unat_add_nowrap) simp_all
    have "length xs - unat (i + 1) < length xs - unat i" "unat (i + 1) \<le> length xs" using i n by simp_all
    note ih = less.hyps [OF this]
    have "drop (unat i) xs = xs ! unat i # drop (unat (i + 1)) xs" using i n by (simp add: Cons_nth_drop_Suc)
    then show ?thesis using True assms(1) [OF i] ih by (subst uvb_rest.simps) simp
  qed (use less.prems assms(2) in \<open>subst uvb_rest.simps; simp add: word_less_nat_alt\<close>)
qed

lemma uvb_loop_rep:
  assumes "\<And>p. unat p < length xs \<Longrightarrow> aAt p = Inr (xs ! unat p)" "\<And>p. \<exists>v. aAt p = Inr v" "unat aSize = length xs"
    and "\<And>p. unat p < length ys \<Longrightarrow> bAt p = Inr (ys ! unat p)" "\<And>p. \<exists>v. bAt p = Inr v" "unat bSize = length ys"
  shows "unat i \<le> length xs \<Longrightarrow> unat j \<le> length ys \<Longrightarrow> aAt i = Inr aId \<Longrightarrow> bAt j = Inr bId \<Longrightarrow>
    \<exists>i' j' ids'. uvb_loop aAt bAt aSize bSize i j aId bId ids = Inr (i', j', ids') \<and> unat i' \<le> length xs \<and> unat j' \<le> length ys \<and>
      (unat i' = length xs \<or> unat j' = length ys) \<and>
      ids' @ drop (unat i') xs @ drop (unat j') ys = ids @ merge_op UniteOp (drop (unat i) xs) (drop (unat j) ys)"
proof (induction "(length xs - unat i) + (length ys - unat j)" arbitrary: i j aId bId ids rule: less_induct)
  case less
  show ?case
  proof (cases "i < aSize \<and> j < bSize")
    case False
    then have "unat i = length xs \<or> unat j = length ys" using less.prems assms(3,6) by (auto simp: word_less_nat_alt)
    then have "drop (unat i) xs @ drop (unat j) ys = merge_op UniteOp (drop (unat i) xs) (drop (unat j) ys)"
      by (auto simp: merge_op_Nil merge_op_Nil_left UniteOp_def)
    then show ?thesis using False less.prems(1,2) \<open>unat i = length xs \<or> unat j = length ys\<close> by (subst uvb_loop.simps) auto
  next
    case True
    then have l: "unat i < length xs" "unat j < length ys" using assms(3,6) by (simp_all add: word_less_nat_alt)
    have n: "unat (i + 1) = unat i + 1" "unat (j + 1) = unat j + 1"
      using l assms(3,6) unat_bound [of aSize] unat_bound [of bSize] by (subst unat_add_nowrap; simp)+
    have v: "aId = xs ! unat i" "bId = ys ! unat j" using assms(1) [OF l(1)] assms(4) [OF l(2)] less.prems(3,4) by simp_all
    have d: "drop (unat i) xs = aId # drop (unat (i + 1)) xs" "drop (unat j) ys = bId # drop (unat (j + 1)) ys"
      using l n v by (simp_all add: Cons_nth_drop_Suc)
    obtain a' b' where nx: "aAt (i + 1) = Inr a'" "bAt (j + 1) = Inr b'" using assms(2,5) by blast
    have le: "unat (i + 1) \<le> length xs" "unat (j + 1) \<le> length ys" using l n by simp_all
    consider "aId = bId" | "aId < bId" | "bId < aId" by fastforce
    then show ?thesis
    proof cases
      case 1
      have "(length xs - unat (i + 1)) + (length ys - unat (j + 1)) < (length xs - unat i) + (length ys - unat j)" using l n by simp
      from less.hyps [OF this le nx, of "ids @ [aId]"] True nx 1 show ?thesis
        by (subst uvb_loop.simps) (simp add: d UniteOp_def)
    next
      case 2
      then have "aId \<noteq> bId" by auto
      moreover have "(length xs - unat (i + 1)) + (length ys - unat j) < (length xs - unat i) + (length ys - unat j)" using l n by simp
      note less.hyps [OF this le(1) less.prems(2) nx(1) less.prems(4), of "ids @ [aId]"]
      ultimately show ?thesis using True nx 2
        by (subst uvb_loop.simps) (simp add: d UniteOp_def)
    next
      case 3
      then have "aId \<noteq> bId" "\<not> aId < bId" by auto
      moreover have "(length xs - unat i) + (length ys - unat (j + 1)) < (length xs - unat i) + (length ys - unat j)" using l n by simp
      note less.hyps [OF this less.prems(1) le(2) less.prems(3) nx(2), of "ids @ [bId]"]
      ultimately show ?thesis using True nx 3
        by (subst uvb_loop.simps) (simp add: d UniteOp_def)
    qed
  qed
qed

lemma vector_backend_rep:
  assumes "ix_ok s a xs" "ix_ok s b ys" "\<nexists>d. a = DequeIdx d" "\<nexists>c. a = BoundedIdx c" "\<nexists>d. b = DequeIdx d" "\<nexists>c. b = BoundedIdx c"
  shows "ix_uniteWithVectorBackend (fst s) a b = Inr (VectorIdx (merge_op UniteOp xs ys))"
proof -
  have r: "ix_rep (fst s) (snd s) a xs" "length xs < 2 ^ 32" "ix_rep (fst s) (snd s) b ys" "length ys < 2 ^ 32"
    using assms(1,2) by (simp_all add: ix_ok_def)
  note at = ix_at_rep(1) [OF r(1,2)] ix_at_rep(1) [OF r(3,4)] and sz = ix_size_rep [OF r(1,2)] ix_size_rep [OF r(3,4)]
    and tot = at_behind_end [OF r(1,2) assms(3,4)] at_behind_end [OF r(3,4) assms(5,6)]
  obtain v w where 0: "ix_at (fst s) a 0 = Inr v" "ix_at (fst s) b 0 = Inr w" using tot by blast
  from uvb_loop_rep [OF at(1) tot(1) sz(1) at(2) tot(2) sz(2) _ _ 0, of "[]"] obtain i j ids where
    1: "uvb_loop (ix_at (fst s) a) (ix_at (fst s) b) (ix_size a) (ix_size b) 0 0 v w [] = Inr (i, j, ids)" "unat i \<le> length xs" "unat j \<le> length ys"
      "ids @ drop (unat i) xs @ drop (unat j) ys = merge_op UniteOp xs ys" by auto
  show ?thesis
    using 0 1(1,4) uvb_rest_rep [OF at(1) sz(1) 1(2), of ids] uvb_rest_rep [OF at(2) sz(2) 1(3), of "ids @ drop (unat i) xs"]
    by (simp add: ix_uniteWithVectorBackend_def)
qed

section \<open>From a bit set\<close>

lemma vfbs_bits_spec: "unat tmp < 2 ^ n \<Longrightarrow> vfbs_bits tmp cur vec = vec @ byte_ids cur n tmp"
proof (induction n arbitrary: tmp cur vec)
  case 0
  then have "tmp = 0" by (simp add: unat_eq_0)
  then show ?case by (subst vfbs_bits.simps) simp
next
  case (Suc n)
  show ?case
  proof (cases "tmp = 0")
    case True
    then show ?thesis by (subst vfbs_bits.simps) simp
  next
    case False
    have "unat (drop_bit 1 tmp) = unat tmp div 2" using unat_drop_bit_eq [of 1 tmp] by (simp add: drop_bit_eq_div)
    then have "unat (drop_bit 1 tmp) < 2 ^ n" using Suc.prems by simp
    note ih = Suc.IH [OF this, of "cur + 1"]
    have "vfbs_bits tmp cur vec = vfbs_bits (drop_bit 1 tmp) (cur + 1) (if tmp AND 1 \<noteq> 0 then vec @ [cur] else vec)"
      using False by (subst vfbs_bits.simps) (simp del: drop_bit_Suc)
    moreover have "tmp AND 1 \<noteq> 0 \<longleftrightarrow> odd tmp" by (simp add: and_one_eq odd_iff_mod_2_eq_one)
    ultimately show ?thesis unfolding ih byte_ids_Suc by simp
  qed
qed

lemma vfbs_bytes_spec:
  assumes "uba_inv h bits" "unat (m_len bits) < 2 ^ 29"
  shows "unat i \<le> unat (m_len bits) \<Longrightarrow> unat cur = 8 * unat i \<or> unat i = unat (m_len bits) \<Longrightarrow>
    vfbs_bytes h bits i cur vec = Inr (vec @ map of_nat (elems_from (view h bits) (8 * unat i)))"
proof (induction "unat (m_len bits) - unat i" arbitrary: i cur vec rule: less_induct)
  case less
  show ?case
  proof (cases "i < m_len bits")
    case False
    then have "8 * length (view h bits) \<le> 8 * unat i" using assms(1) by (simp add: word_less_nat_alt)
    then have "elems_from (view h bits) (8 * unat i) = []" by (rule elems_end)
    then show ?thesis using False by (subst vfbs_bytes.simps) simp
  next
    case True
    then have lt: "unat i < length (view h bits)" "unat i < unat (m_len bits)" using assms(1) by (simp_all add: word_less_nat_alt)
    have i1: "unat (i + 1) = unat i + 1" using lt(2) unat_bound64 [of "m_len bits"] by (subst unat_add_nowrap) simp_all
    have cur: "unat cur = 8 * unat i" using less.prems(2) lt(2) by simp
    have c1: "unat (cur + 8) = 8 * unat (i + 1) \<or> unat (i + 1) = unat (m_len bits)"
    proof (cases "unat i + 1 < unat (m_len bits)")
      case True
      then show ?thesis using cur i1 assms(2) by (subst unat_add_nowrap) simp_all
    qed (use i1 lt(2) in simp)
    have at: "uba_at h bits i = Inr (view h bits ! unat i)" using at_spec(1) [OF assms(1) lt(2)] .
    let ?d = "view h bits ! unat i"
    have "unat ?d < 2 ^ 8" using unat_bound [of ?d] by simp
    note b = vfbs_bits_spec [OF this, of cur vec]
    have "unat (m_len bits) - unat (i + 1) < unat (m_len bits) - unat i" "unat (i + 1) \<le> unat (m_len bits)" using i1 lt(2) by simp_all
    note ih = less.hyps [OF this c1, of "vec @ byte_ids cur 8 ?d"]
    have "cur = of_nat (8 * unat i)" using cur by (metis of_nat_unat ucast_id)
    then have "byte_ids cur 8 ?d = map (\<lambda>j. of_nat (8 * unat i + j)) (filter (bit ?d) [0..<8])" by (simp add: byte_ids_def)
    then have "map of_nat (elems_from (view h bits) (8 * unat i)) =
        byte_ids cur 8 ?d @ map of_nat (elems_from (view h bits) (8 * unat (i + 1)))"
      unfolding elems_byte [OF lt(1)] i1 by (simp add: comp_def)
    then show ?thesis using True at b ih by (subst vfbs_bytes.simps) simp
  qed
qed

lemma vector_fromBitSet_spec:
  assumes "uba_inv h bits" "unat (m_len bits) < 2 ^ 29"
  shows "vector_fromBitSet h bits = Inr (map of_nat (elem_list h bits))"
  using vfbs_bytes_spec [OF assms, of 0 0 "[]"] by (simp add: vector_fromBitSet_def)

lemma elem_ids:
  assumes "uba_inv h bits" "unat (m_len bits) < 2 ^ 29"
  shows "map unat (map of_nat (elem_list h bits) :: u32 list) = sorted_list_of_set (dbs_elems h bits)"
    "increasing (map of_nat (elem_list h bits))" "length (elem_list h bits) \<le> 8 * unat (m_len bits)"
proof -
  let ?xs = "map of_nat (elem_list h bits) :: u32 list"
  have "e < 2 ^ 32" if "e \<in> set (elem_list h bits)" for e
    using that assms by (auto simp: elems_from_def)
  then have m: "map unat ?xs = elem_list h bits" by (simp add: map_idI unat_of_nat_small)
  then show "map unat ?xs = sorted_list_of_set (dbs_elems h bits)" using elem_list_sorted [OF assms(1)] by simp
  have "sorted_wrt (<) (elem_list h bits)" unfolding elems_from_def by (rule sorted_wrt_filter) (rule sorted_wrt_upt)
  then have "sorted_wrt (<) (map unat ?xs)" using m by simp
  then show "increasing ?xs" by (simp only: sorted_wrt_map word_less_nat_alt)
  have "length (elem_list h bits) \<le> length [0..<8 * length (view h bits)]" unfolding elems_from_def by (rule length_filter_le)
  then show "length (elem_list h bits) \<le> 8 * unat (m_len bits)" using assms(1) by simp
qed

end
