(* ===== verification/ItemIndexFacade.thy ===== *)
theory ItemIndexFacade
  imports ItemIndexSets
begin

text \<open>The properties of the facade, over all implementations and any mix of them.\<close>

lemma minus_one32: "unat (- 1 :: u32) = 2 ^ 32 - 1"
  by (simp add: unsigned_minus_1_eq_mask mask_eq_exp_minus_1)

text \<open>C29: Each of the seven implementations of \<open>item_index\<close> (empty, native, delta encoded on contiguous storage, vector, deque, range, bounded
  array) gives access to the increasing ids of its list: the size, \<open>at\<close> for each position, the first and the last id, and search and
  count, which find exactly them. \<open>toVector\<close> gives the ids when there are any and is undefined for an index without ids.\<close>

theorem facade_access:
  assumes "ix_ok s i xs"
  shows "unat (ix_size i) = length xs \<and> (\<forall>p. unat p < length xs \<longrightarrow> ix_at (fst s) i p = Inr (xs ! unat p)) \<and>
    ix_toVector (fst s) i = (if xs = [] then Inl UndefinedBehaviour else Inr xs) \<and> (xs \<noteq> [] \<longrightarrow> ix_front (fst s) i = Inr (hd xs) \<and> ix_back (fst s) i = Inr (last xs)) \<and>
    (\<forall>v. (\<exists>p. ix_find (fst s) i v = Inr p \<and> (if v \<in> set xs then unat p < length xs \<and> xs ! unat p = v else p = - 1)) \<and>
      ix_count (fst s) i v = Inr (if v \<in> set xs then 1 else 0))"
proof -
  have r: "ix_rep (fst s) (snd s) i xs" "length xs < 2 ^ 32" "increasing xs" using assms by (simp_all add: ix_ok_def)
  have "ix_count (fst s) i v = Inr (if v \<in> set xs then 1 else 0)" for v
    using ix_find_rep [OF r, of v] r(2) minus_one32 by (auto simp: ix_count_def split: if_splits)
  then show ?thesis
    using ix_size_rep [OF r(1,2)] ix_at_rep(1) [OF r(1,2)] ix_toVector_rep [OF r(1,2)] ix_ends_rep [OF r(1,2)] ix_find_rep [OF r] by blast
qed

text \<open>An example state: address 0 holds the deltas of 5 and 8, and of 3; address 1 is a cache; address 2 holds a packed array.\<close>

definition example_heap :: heap where
  "example_heap = (\<lambda>_. \<lparr>kind = VectorB, mem = [5, 3]\<rparr>)(1 := \<lparr>kind = VectorB, mem = replicate 8 0\<rparr>)"

definition example_de :: item_index where
  "example_de = DeIdx \<lparr>de_data = uba_of_priv 0 0 2, de_size = 2, de_dataOffset = 0, de_curId = 0, de_cache = uba_of_priv 1 0 8, de_cacheOffset = 0\<rparr>"

lemma example_de_ok: "ix_ok (example_heap, 3) example_de [5, 8]"
proof -
  have c: "de_code 0 [5, 8] = [5, 3]" by code_simp
  then show ?thesis
    unfolding ix_ok_def example_de_def example_heap_def de_inv_def de_data_inv_def de_cache_inv_def reader_def
    by (simp add: example_simps view_def chunk_def ids_bytes_def isContiguous_def de_inv_def de_data_inv_def de_cache_inv_def reader_def c)
qed

lemma example_range_ok: "ix_ok s (RangeIdx \<lparr>r_begin = 2, r_end = 8, r_stride = 3\<rparr>) [2, 5]"
proof -
  have "range_ok \<lparr>r_begin = 2, r_end = 8, r_stride = 3\<rparr> [2, 5]" by code_simp
  then show ?thesis by (simp add: ix_ok_def)
qed

lemma example_vector_ok: "ix_ok s (VectorIdx [1, 5, 9]) [1, 5, 9]"
  by (simp add: ix_ok_def)

theorem facade_access_witness:
  "ix_toVector example_heap example_de = Inr [5, 8] \<and> ix_back example_heap example_de = Inr 8 \<and> ix_count example_heap example_de 7 = Inr 0"
  using facade_access [OF example_de_ok] by simp

text \<open>C26: For any two indices of the seven implementations of \<open>item_index\<close> (empty, native, delta encoded on contiguous storage, vector, deque,
  range, bounded array), the same or different ones, with increasing ids and fewer than $2^{29}$ of them together, the four operators give an
  index with exactly the ids of the union, intersection, difference and symmetric difference; empty operands included. No storage that
  existed before is touched, so every other index keeps its ids.\<close>

theorem facade_operators:
  assumes "ix_ok s a xs" "ix_ok s b ys" "length xs + length ys < 2 ^ 29"
  shows "(\<exists>s' r zs. ix_unite s a b = Inr (s', r) \<and> ix_ok s' r zs \<and> set zs = set xs \<union> set ys \<and> extends s s') \<and>
    (\<exists>s' r zs. ix_intersect s a b = Inr (s', r) \<and> ix_ok s' r zs \<and> set zs = set xs \<inter> set ys \<and> extends s s') \<and>
    (\<exists>s' r zs. ix_difference s a b = Inr (s', r) \<and> ix_ok s' r zs \<and> set zs = set xs - set ys \<and> extends s s') \<and>
    (\<exists>s' r zs. ix_symmetricDifference s a b = Inr (s', r) \<and> ix_ok s' r zs \<and> set zs = (set xs - set ys) \<union> (set ys - set xs) \<and> extends s s') \<and>
    (\<forall>s' i is. extends s s' \<longrightarrow> ix_ok s i is \<longrightarrow> ix_ok s' i is)"
proof -
  note m = ix_merge_sets [OF assms(1,2)]
  have "set (merge_op UniteOp xs ys) = set xs \<union> set ys" "set (merge_op IntersectOp xs ys) = set xs \<inter> set ys"
    "set (merge_op DifferenceOp xs ys) = set xs - set ys"
    "set (merge_op SymmetricDifferenceOp xs ys) = (set xs - set ys) \<union> (set ys - set xs)"
    using m [of UniteOp] m [of IntersectOp] m [of DifferenceOp] m [of SymmetricDifferenceOp] by (simp_all add: set_ops_def op_sets)
  then show ?thesis
    using unite_ok [OF assms] intersect_ok [OF assms] difference_ok [OF assms] symmetricDifference_ok [OF assms] ix_ok_frame
    by (intro conjI) blast+
qed

theorem facade_operators_witness:
  "\<exists>s' r zs. ix_symmetricDifference (example_heap, 3) example_de (VectorIdx [1, 5, 9]) = Inr (s', r) \<and> ix_ok s' r zs \<and> set zs = {1, 8, 9}"
proof -
  have "({5, 8} - {1, 5, 9}) \<union> ({1, 5, 9} - {5, 8}) = {1, 8, 9 :: u32}" by auto
  then show ?thesis using facade_operators [OF example_de_ok example_vector_ok, THEN conjunct2, THEN conjunct2, THEN conjunct2, THEN conjunct1]
    by auto
qed

text \<open>C27: The reductions along the tree compute the union and the intersection of any list of at most $2^{32}$ indices of the seven
  implementations of \<open>item_index\<close>, in any mix, with increasing ids and fewer than $2^{29}$ of them together. The result for no index is empty.\<close>

theorem facade_reductions:
  assumes "list_all2 (ix_ok s) is xss" "sum_list (map length xss) < 2 ^ 29" "length is \<le> 2 ^ 32"
  shows "(\<exists>s' r zs. ix_unite_all is s = Inr (s', r) \<and> ix_ok s' r zs \<and> extends s s' \<and> set zs = \<Union>(set (map set xss))) \<and>
    (\<exists>s' r zs. ix_intersect_all is s = Inr (s', r) \<and> ix_ok s' r zs \<and> extends s s' \<and>
      set zs = (if is = [] then {} else \<Inter>(set (map set xss))))"
proof (cases "is = []")
  case True
  then show ?thesis using assms(1) ix_ok_empty [of s]
    by (cases s) (auto simp: ix_unite_all_def ix_intersect_all_def)
next
  case False
  then have "map set xss \<noteq> []" using assms(1) by auto
  then show ?thesis
    using unions.all_ok [OF assms False] intersections.all_ok [OF assms False] False combined_sets unfolding all_are by metis
qed

theorem facade_reductions_witness:
  "\<exists>s' r zs. ix_intersect_all [example_de, RangeIdx \<lparr>r_begin = 2, r_end = 8, r_stride = 3\<rparr>, VectorIdx [1, 5, 9]] (example_heap, 3) = Inr (s', r) \<and>
    ix_ok s' r zs \<and> set zs = {5}"
  using facade_reductions [of "(example_heap, 3)" "[example_de, RangeIdx \<lparr>r_begin = 2, r_end = 8, r_stride = 3\<rparr>, VectorIdx [1, 5, 9]]"
      "[[5, 8], [2, 5], [1, 5, 9]]"] example_de_ok example_range_ok example_vector_ok by auto

text \<open>C28: For indices of the seven implementations of \<open>item_index\<close>, with increasing ids and fewer than $2^{29}$ of them together, and at least
  one index to intersect, the filtered operations give the first \<open>count\<close> ids of the intersection, less the union of the subtracted indices,
  that the filter accepts. Without a filter they give all of them, whatever the count: the operations of the run length encoded and the
  word aligned kinds, which are parameters here and may use the count, are never called for operands of these implementations.\<close>

theorem facade_filters:
  assumes "list_all2 (ix_ok s) is xss" "list_all2 (ix_ok s) js yss" "is \<noteq> []" "length is \<le> 2 ^ 32" "length js \<le> 2 ^ 32"
    and "sum_list (map length xss) + sum_list (map length yss) < 2 ^ 29"
  shows "(\<exists>s' r zs. ix_constrainedIntersect wah rle is count accept s = Inr (s', r) \<and> ix_ok s' r (accepted count accept zs) \<and>
      increasing zs \<and> set zs = \<Inter>(set (map set xss))) \<and>
    (\<exists>s' r zs. ix_fusedIntersectDifference wah is js count accept s = Inr (s', r) \<and> ix_ok s' r (accepted count accept zs) \<and>
      increasing zs \<and> set zs = \<Inter>(set (map set xss)) - \<Union>(set (map set yss)))"
proof -
  have ne: "map set xss \<noteq> []" using assms(1,3) by auto
  from intersections.all_ok [OF assms(1) _ assms(4,3)] assms(6) obtain s1 a zs where
    1: "ix_intersect_all is s = Inr (s1, a)" "ix_ok s1 a zs" "extends s s1" "set zs = \<Inter>(set (map set xss))"
      "length zs \<le> sum_list (map length xss)" unfolding all_are combined_sets(2) [OF ne] by auto
  have "list_all2 (ix_ok s1) js yss" by (rule list_all2_mono [OF assms(2)]) (rule ix_ok_frame [OF 1(3)])
  note un = unions.all_ok [OF this _ assms(5)]
  have "\<exists>s2 b ws. ix_unite_all js s1 = Inr (s2, b) \<and> ix_ok s2 b ws \<and> extends s1 s2 \<and> set ws = \<Union>(set (map set yss)) \<and>
      length ws \<le> sum_list (map length yss)"
  proof (cases "js = []")
    case True
    then show ?thesis using assms(2) ix_ok_empty [of s1] by (cases s1) (auto simp: ix_unite_all_def)
  next
    case False
    then have "map set yss \<noteq> []" using assms(2) by auto
    have "sum_list (map length yss) < 2 ^ 29" using assms(6) by simp
    from un [OF this False] show ?thesis unfolding all_are combined_sets(1) [OF \<open>map set yss \<noteq> []\<close>] by blast
  qed
  then obtain s2 b ws where
    2: "ix_unite_all js s1 = Inr (s2, b)" "ix_ok s2 b ws" "extends s1 s2" "set ws = \<Union>(set (map set yss))"
      "length ws \<le> sum_list (map length yss)" by blast
  have "length zs + length ws < 2 ^ 29" using 1(5) 2(5) assms(6) by linarith
  note d = ix_ok_frame [OF 2(3) 1(2)] 2(2) this
  from difference_ok [OF d] obtain s3 c where
    3: "ix_difference s2 a b = Inr (s3, c)" "ix_ok s3 c (merge_op DifferenceOp zs ws)" by blast
  have "set (merge_op DifferenceOp zs ws) = set zs - set ws" using ix_merge_sets [OF d(1,2), of DifferenceOp] by (simp add: set_ops_def op_sets)
  moreover have "increasing zs" "increasing (merge_op DifferenceOp zs ws)" using 1(2) 3(2) by (simp_all add: ix_ok_def)
  moreover obtain f where f: "ix_filtered s1 a count accept = Inr (s1, f)" "ix_ok s1 f (accepted count accept zs)"
    using filtered_rep [OF 1(2)] by blast
  moreover obtain g where g: "ix_filtered s3 c count accept = Inr (s3, g)" "ix_ok s3 g (accepted count accept (merge_op DifferenceOp zs ws))"
    using filtered_rep [OF 3(2)] by blast
  moreover have "ix_constrainedIntersect wah rle is count accept s = Inr (s1, f)" "ix_fusedIntersectDifference wah is js count accept s = Inr (s3, g)"
    using 1(1) 2(1) 3(1) f(1) g(1) assms(3) dispatch_default [OF assms(3)] by (simp_all add: ix_constrainedIntersect_def ix_fusedIntersectDifference_def)
  ultimately show ?thesis using 1(4) 2(4) by metis
qed

theorem facade_filters_witness:
  "\<exists>s' r zs. ix_fusedIntersectDifference (\<lambda>_ _ _ _ s. Inr (s, EmptyIdx)) [VectorIdx [1, 5, 9], VectorIdx [1, 5, 9]] [example_de] 1 (Some even) (example_heap, 3) = Inr (s', r) \<and>
    ix_ok s' r (accepted 1 (Some even) zs) \<and> set zs = {1, 9}"
proof -
  have "{1, 5, 9} - {5, 8} = {1, 9 :: u32}" by auto
  then show ?thesis
    using facade_filters [of "(example_heap, 3)" "[VectorIdx [1, 5, 9], VectorIdx [1, 5, 9]]" "[[1, 5, 9], [1, 5, 9]]" "[example_de]" "[[5, 8]]"
        "\<lambda>_ _ _ _ s. Inr (s, EmptyIdx)" _ 1 "Some even", THEN conjunct2] example_de_ok example_vector_ok by auto
qed

lemma uvb_loop_throws:
  assumes "\<And>p. aAt p = (if unat p < length xs then Inr (xs ! unat p) else Inl OutOfBoundsException)" "unat aSize = length xs"
    and "\<And>p. bAt p = (if unat p < length ys then Inr (ys ! unat p) else Inl OutOfBoundsException)" "unat bSize = length ys"
  shows "unat i < length xs \<Longrightarrow> unat j < length ys \<Longrightarrow> uvb_loop aAt bAt aSize bSize i j aId bId ids = Inl OutOfBoundsException"
proof (induction "(length xs - unat i) + (length ys - unat j)" arbitrary: i j aId bId ids rule: less_induct)
  case less
  have lt: "i < aSize" "j < bSize" using less.prems assms(2,4) by (simp_all add: word_less_nat_alt)
  have n: "unat (i + 1) = unat i + 1" "unat (j + 1) = unat j + 1"
    using less.prems assms(2,4) unat_bound [of aSize] unat_bound [of bSize] by (subst unat_add_nowrap; simp)+
  show ?case
    using lt n less.prems less.hyps [of "i + 1" "j + 1"] less.hyps [of "i + 1" j] less.hyps [of i "j + 1"]
    by (subst uvb_loop.simps) (simp add: assms(1,3))
qed

lemma two_deques_throw:
  assumes "length xs < 2 ^ 32" "length ys < 2 ^ 32"
  shows "ix_uniteWithVectorBackend h (DequeIdx xs) (DequeIdx ys) = Inl OutOfBoundsException"
proof -
  have at: "ix_at h (DequeIdx zs) p = (if unat p < length zs then Inr (zs ! unat p) else Inl OutOfBoundsException)" if "length zs < 2 ^ 32" for zs p
    using that by (simp add: deque_at_def vec_at_def word_less_nat_alt unat_vector_size)
  show ?thesis
    using uvb_loop_throws [of "ix_at h (DequeIdx xs)" xs "vec_size xs" "ix_at h (DequeIdx ys)" ys "vec_size ys" 0 0, OF at [OF assms(1)] _ at [OF assms(2)]]
      assms at [OF assms(1), of 0] at [OF assms(2), of 0]
    by (auto simp: ix_uniteWithVectorBackend_def unat_vector_size simp del: ix_at.simps)
qed

text \<open>The union into a vector gives the merged ids, unless an operand throws behind its end: with two deques it always throws.\<close>

theorem vector_backend_union:
  assumes "ix_ok s a xs" "ix_ok s b ys"
  shows "((\<nexists>d. a = DequeIdx d) \<and> (\<nexists>c. a = BoundedIdx c) \<and> (\<nexists>d. b = DequeIdx d) \<and> (\<nexists>c. b = BoundedIdx c) \<longrightarrow>
      ix_uniteWithVectorBackend (fst s) a b = Inr (VectorIdx (merge_op UniteOp xs ys))) \<and>
    increasing (merge_op UniteOp xs ys) \<and> set (merge_op UniteOp xs ys) = set xs \<union> set ys \<and>
    ix_uniteWithVectorBackend (fst s) (DequeIdx xs) (DequeIdx ys) = Inl OutOfBoundsException"
proof -
  have "coherent UniteOp" by simp
  then show ?thesis
    using vector_backend_rep [OF assms] merge_op_set [of UniteOp xs ys] assms two_deques_throw [of xs ys "fst s"]
    by (auto simp: ix_ok_def op_sets)
qed

theorem vector_backend_union_witness:
  "ix_uniteWithVectorBackend example_heap example_de (VectorIdx [1, 5, 9]) = Inr (VectorIdx [1, 5, 8, 9])"
  using vector_backend_union [OF example_de_ok example_vector_ok] by (simp add: example_de_def UniteOp_def)

text \<open>C30: A bit set of fewer than \<open>2^26\<close> bytes becomes an index with exactly its elements, whether it is put into a vector or delta
  encoded; putting the index into a bit set gives them back.\<close>

theorem facade_bit_sets:
  assumes "uba_inv h bits" "unat (m_len bits) < 2 ^ 26" "m_priv bits < n" "ty \<in> {T_DE, T_NATIVE, T_STL_DEQUE, T_STL_VECTOR}"
  shows "\<exists>s' i xs. ix_fromBitSet (h, n) bits ty = Some (Inr (s', i)) \<and> ix_ok s' i xs \<and> extends (h, n) s' \<and>
    map unat xs = sorted_list_of_set (dbs_elems h bits) \<and>
    (\<forall>m. owner (fst s') m \<and> snd s' \<le> m_priv m \<longrightarrow>
      (\<exists>h' m'. ix_putInto_bits (fst s') i m = Inr (h', m') \<and> owner h' m' \<and> dbs_elems h' m' = dbs_elems (fst s') m \<union> dbs_elems h bits))"
proof -
  let ?xs = "map of_nat (elem_list h bits) :: u32 list"
  have l: "unat (m_len bits) < 2 ^ 29" using assms(2) by simp
  note e = elem_ids [OF assms(1) l]
  have len: "length ?xs < 2 ^ 29" using e(3) assms(2) by simp
  have st: "\<exists>s' i. ix_fromBitSet (h, n) bits ty = Some (Inr (s', i)) \<and> ix_rep (fst s') (snd s') i ?xs \<and> extends (h, n) s'"
  proof (cases "m_len bits = 0")
    case True
    then show ?thesis using e(3) by (simp add: ix_fromBitSet_def)
  next
    case False
    have "T_DE AND T_MULTIPLE = 0" "T_NATIVE AND T_MULTIPLE = 0" "T_STL_DEQUE AND T_MULTIPLE = 0" "T_STL_VECTOR AND T_MULTIPLE = 0"
      by (simp_all add: type_defs)
    show ?thesis
    proof (cases "ty = T_DE")
      case True
      from de_fromBitSet_spec [OF assms(1,2), of n "n + 1"] assms(3) obtain h' x where
        1: "de_fromBitSet h n (n + 1) bits = Inr (h', x)" "de_inv h' x ?xs" "\<forall>w. m_priv w \<noteq> n \<and> m_priv w \<noteq> n + 1 \<longrightarrow> storage h' w = storage h w"
          "m_priv (de_data x) = n" "m_priv (de_cache x) = n + 1" "isContiguous (storage h' (de_data x))" by auto
      have "h' a = h a" if "a < n" for a
        using 1(3) [rule_format, of "uba_of_priv a 0 0"] that by (simp add: storage_def uba_of_priv_def)
      then have "extends (h, n) (h', n + 2)" by (simp add: extends_def)
      then show ?thesis using True False 1 by (simp add: ix_fromBitSet_def type_defs)
    next
      case 2: False
      then show ?thesis using False vector_fromBitSet_spec [OF assms(1) l] assms(4) by (auto simp: ix_fromBitSet_def type_defs)
    qed
  qed
  then obtain s' i where
    s: "ix_fromBitSet (h, n) bits ty = Some (Inr (s', i))" "ix_rep (fst s') (snd s') i ?xs" "extends (h, n) s'" by blast
  have ok: "ix_ok s' i ?xs" using s(2) e(2) len by (simp add: ix_ok_def)
  have "unat ` set ?xs = set (map unat ?xs)" by (simp only: set_map)
  also have "\<dots> = dbs_elems h bits" unfolding e(1) by (simp add: elem_list_set [OF assms(1), symmetric])
  finally have "unat ` set ?xs = dbs_elems h bits" .
  moreover have "length ?xs < 2 ^ 32" using len by simp
  note ix_putInto_bits_rep [OF s(2) this e(2)]
  ultimately show ?thesis using s(1,3) ok e(1) by (intro exI [of _ s'] exI [of _ i] exI [of _ ?xs]) simp
qed

theorem facade_bit_sets_witness:
  "\<exists>s' i. ix_fromBitSet (\<lambda>_. \<lparr>kind = VectorB, mem = [5, 0, 128]\<rparr>, 1) (uba_of_priv 0 0 3) T_DE = Some (Inr (s', i)) \<and>
    (\<exists>xs. ix_ok s' i xs \<and> map unat xs = sorted_list_of_set (dbs_elems (\<lambda>_. \<lparr>kind = VectorB, mem = [5, 0, 128]\<rparr>) (uba_of_priv 0 0 3)))"
  using facade_bit_sets [of "\<lambda>_. \<lparr>kind = VectorB, mem = [5, 0, 128]\<rparr>" "uba_of_priv 0 0 3" 1 T_DE] by (auto simp: example_simps)

text \<open>The name of a type, read again, is the type, for every type that has a name; the types without one are named
  invalid, and no name is read as them.\<close>

theorem type_names_roundtrip:
  "type_from_string (type_to_string t) =
     (if t \<in> {T_SIMPLE, T_REGLINE, T_WAH, T_DE, T_RLE_DE, T_NATIVE, T_ELIAS_FANO, T_PFOR, T_FOR, T_EMPTY, T_STL_DEQUE, T_STL_VECTOR}
      then (True, t) else (False, T_NULL)) \<and>
   (fst (type_from_string str) \<longleftrightarrow> type_to_string (snd (type_from_string str)) = str \<and> str \<noteq> ''null'')"
  by (simp add: type_from_string_def type_to_string_def type_defs)

end
