(* ===== verification/Loops.thy ===== *)
theory Loops
  imports Prelude
begin

text \<open>
  Loops whose end is not obvious from their form. \<open>run_loop\<close> is the loop: \<open>None\<close> when it does not end. \<open>while_res\<close> gives
  \<open>UndefinedBehaviour\<close> then: a C++ loop that does no input or output and does not end is undefined, so a
  theorem that the result is a value says that the loop ends.
\<close>

partial_function (option) run_loop :: "('s \<Rightarrow> bool) \<Rightarrow> ('s \<Rightarrow> 's res) \<Rightarrow> 's \<Rightarrow> 's res option" where
  "run_loop c b s = (if c s then (case b s of Inl e \<Rightarrow> Some (Inl e) | Inr s' \<Rightarrow> run_loop c b s') else Some (Inr s))"

declare run_loop.simps [code]

definition while_res :: "('s \<Rightarrow> bool) \<Rightarrow> ('s \<Rightarrow> 's res) \<Rightarrow> 's \<Rightarrow> 's res" where
  "while_res c b s = (case run_loop c b s of None \<Rightarrow> Inl UndefinedBehaviour | Some r \<Rightarrow> r)"

lemma while_res_unfold: "while_res c b s = (if c s then bindE (b s) (while_res c b) else Inr s)"
  by (cases "b s") (simp_all add: while_res_def run_loop.simps [of c b s])

lemma while_res_stop: "\<not> c s \<Longrightarrow> while_res c b s = Inr s"
  by (simp add: while_res_unfold)

lemma while_res_step: "c s \<Longrightarrow> b s = Inr s' \<Longrightarrow> while_res c b s = while_res c b s'"
  by (simp add: while_res_unfold [of c b s])

text \<open>
  The loop ends with a value when its rounds keep an invariant and a measure decreases. The measure is that of a ghost value, which
  the invariant relates to the state; in the second rule it is the state.
\<close>

lemma while_res_ghost:
  assumes "I s g" "\<And>s g. I s g \<Longrightarrow> c s \<Longrightarrow> \<exists>s' g'. b s = Inr s' \<and> I s' g' \<and> (m g' :: nat) < m g"
  shows "\<exists>s' g'. while_res c b s = Inr s' \<and> I s' g' \<and> \<not> c s'"
  using assms(1)
proof (induction "m g" arbitrary: s g rule: less_induct)
  case less
  show ?case
  proof (cases "c s")
    case True
    from assms(2) [OF less.prems True] obtain s' g' where s: "b s = Inr s'" "I s' g'" "m g' < m g" by blast
    from less.hyps [OF s(3,2)] show ?thesis using while_res_step [of c s b s'] True s(1) by simp
  next
    case False
    then show ?thesis using less.prems by (auto simp: while_res_stop)
  qed
qed

lemma while_res_rule:
  assumes "I s" "\<And>s. I s \<Longrightarrow> c s \<Longrightarrow> \<exists>s'. b s = Inr s' \<and> I s' \<and> (m s' :: nat) < m s"
  shows "\<exists>s'. while_res c b s = Inr s' \<and> I s' \<and> \<not> c s'"
  using while_res_ghost [of "\<lambda>s g. I s \<and> g = s" s s c b m] assms by blast

end
