(* ===== verification/ItemIndexRle.thy ===== *)
theory ItemIndexRle
  imports ItemIndexDECreate Loops
begin

text \<open>
  \<open>ItemIndexPrivateRleDE\<close> (\<open>include/sserialize/containers/ItemIndexPrivates/ItemIndexPrivateRleDE.h\<close> and \<open>.cpp\<close>): an index
  whose data are the differences of consecutive ids, where several equal differences in a row are one run. A word with
  an odd value is the length of a run, doubled, plus one, and the word behind it the difference; any other word is one difference. Every
  difference is stored doubled. The argument \<open>rv\<close> is the address of the vector of the creator, and \<open>r\<close> the
  address of the storage that \<open>createCache\<close> obtains.
\<close>

section \<open>Words\<close>

text \<open>The tests and shifts of words in the source: \<open>val & 0x1\<close>, \<open>val >> 1\<close>, \<open>d << 1\<close> and \<open>(n << 1) | 0x1\<close>.\<close>

definition is_run :: "u32 \<Rightarrow> bool" where
  "is_run v = (v AND 1 \<noteq> 0)"

definition word_value :: "u32 \<Rightarrow> u32" where
  "word_value v = drop_bit 1 v"

definition diff_word :: "u32 \<Rightarrow> u32" where
  "diff_word d = push_bit 1 d"

definition run_word :: "u32 \<Rightarrow> u32" where
  "run_word n = (push_bit 1 n OR 1)"

section \<open>The index\<close>

record rld =
  rld_data :: uba
  rld_size :: u32
  rld_dataOffset :: u32
  rld_curId :: u32
  rld_cache :: "u32 list"

definition rld_new :: "heap \<Rightarrow> uba \<Rightarrow> (heap \<times> rld) res" where
  "rld_new h data =
     bindE (stream_getVlPackedUint32 h (uba_resetGetPtr data)) (\<lambda>(m_size, data).
     bindE (stream_getVlPackedUint32 h data) (\<lambda>(myDataSize, data).
       let data = uba_shrinkToGetPtr data
       in bindE (if m_len data \<noteq> ucast myDataSize then uba_resize h data (ucast myDataSize) else Inr (True, h, data)) (\<lambda>(_, h, data).
            Inr (h, \<lparr>rld_data = data, rld_size = m_size, rld_dataOffset = 0, rld_curId = 0, rld_cache = []\<rparr>))))"

text \<open>\<open>while(rle) { m_curId += value; m_cache.push_back(m_curId); --rle; }\<close>\<close>

fun rld_run :: "nat \<Rightarrow> u32 \<Rightarrow> rld \<Rightarrow> rld" where
  "rld_run 0 v x = x"
| "rld_run (Suc n) v x = rld_run n v (x\<lparr>rld_curId := rld_curId x + v, rld_cache := rld_cache x @ [rld_curId x + v]\<rparr>)"

definition rld_fill :: "heap \<Rightarrow> rld \<Rightarrow> rld res" where
  "rld_fill h x =
     bindE (uba_getVlPackedUint32 h (rld_data x) (ucast (rld_dataOffset x))) (\<lambda>(v, len).
       if is_run v then
         let rle = word_value v; x = x\<lparr>rld_dataOffset := rld_dataOffset x + word_of_int len\<rparr>
         in bindE (uba_getVlPackedUint32 h (rld_data x) (ucast (rld_dataOffset x))) (\<lambda>(v, len).
              let x = rld_run (unat rle) (word_value v) x
              in Inr (x\<lparr>rld_dataOffset := rld_dataOffset x + word_of_int len\<rparr>))
       else
         let x = rld_run 1 (word_value v) x
         in Inr (x\<lparr>rld_dataOffset := rld_dataOffset x + word_of_int len\<rparr>))"

definition rld_at :: "heap \<Rightarrow> rld \<Rightarrow> u32 \<Rightarrow> (u32 \<times> rld) res" where
  "rld_at h x pos =
     (if rld_size x = 0 \<or> rld_size x \<le> pos then Inr (0, x)
      else bindE (while_res (\<lambda>x. length (rld_cache x) \<le> unat pos) (rld_fill h) x) (\<lambda>x.
        Inr (rld_cache x ! unat pos, x)))"

definition rld_first :: "heap \<Rightarrow> rld \<Rightarrow> (u32 \<times> rld) res" where
  "rld_first h x = (if rld_size x \<noteq> 0 then rld_at h x 0 else Inr (0, x))"

definition rld_last :: "heap \<Rightarrow> rld \<Rightarrow> (u32 \<times> rld) res" where
  "rld_last h x = (if rld_size x \<noteq> 0 then rld_at h x (rld_size x - 1) else Inr (0, x))"

definition rld_psize :: "u32 \<Rightarrow> u64" where
  "rld_psize v = of_nat (psize_vu32 v)"

definition rld_bpn :: "rld \<Rightarrow> u8" where
  "rld_bpn x =
     (if rld_size x \<noteq> 0 then ucast (m_len (rld_data x) * 8 div ucast (rld_size x)) else ucast (m_len (rld_data x) * 8))"

definition rld_getSizeInBytes :: "rld \<Rightarrow> u64" where
  "rld_getSizeInBytes x = m_len (rld_data x) + rld_psize (rld_size x) + rld_psize (ucast (m_len (rld_data x)))"

definition rld_data_adapter :: "rld \<Rightarrow> uba" where
  "rld_data_adapter x = uba_resetPtrs (uba_retreat (rld_data x) (rld_psize (rld_size x) + rld_psize (ucast (m_len (rld_data x)))))"

text \<open>For search and the generic operations: \<open>size\<close> and \<open>at\<close>; every call starts from the same cache.\<close>

definition rld_source :: "heap \<times> rld \<Rightarrow> id_source" where
  "rld_source = (\<lambda>(h, x). \<lparr>src_size = rld_size x, src_at = (\<lambda>pos. bindE (rld_at h x pos) (\<lambda>(v, _). Inr v))\<rparr>)"

definition rld_find :: "heap \<Rightarrow> rld \<Rightarrow> u32 \<Rightarrow> u32 res" where
  "rld_find h x v = index_find (rld_source (h, x)) v"

section \<open>Into a bit set and an array\<close>

fun rld_set_run :: "nat \<Rightarrow> u32 \<Rightarrow> heap \<Rightarrow> u32 \<Rightarrow> uba \<Rightarrow> (u32 \<times> heap \<times> uba) res" where
  "rld_set_run 0 v h prev m = Inr (prev, h, m)"
| "rld_set_run (Suc n) v h prev m =
     (let prev = prev + v in bindE (dbs_set h m (ucast prev)) (\<lambda>(h, m). rld_set_run n v h prev m))"

text \<open>A round of the loop; the state is the heap, the bit set, the copy of the data, \<open>count\<close> and \<open>prev\<close>.\<close>

definition rld_put_round :: "heap \<times> uba \<times> uba \<times> u32 \<times> u32 \<Rightarrow> (heap \<times> uba \<times> uba \<times> u32 \<times> u32) res" where
  "rld_put_round = (\<lambda>(h, m, tmpData, count, prev).
     bindE (stream_getVlPackedUint32 h tmpData) (\<lambda>(v, tmpData).
       if is_run v then
         let rle = word_value v; count = count + rle
         in bindE (stream_getVlPackedUint32 h tmpData) (\<lambda>(v, tmpData).
              let v = word_value v
              in bindE (dbs_set h m (ucast (prev + rle * v))) (\<lambda>(h, m).
                 bindE (rld_set_run (unat (rle - 1)) v h prev m) (\<lambda>(prev, h, m). Inr (h, m, tmpData, count, prev + v))))
       else
         let prev = prev + word_value v
         in bindE (dbs_set h m (ucast prev)) (\<lambda>(h, m). Inr (h, m, tmpData, count + 1, prev))))"

definition rld_putInto_bits :: "heap \<Rightarrow> rld \<Rightarrow> uba \<Rightarrow> (heap \<times> uba) res" where
  "rld_putInto_bits h x m =
     bindE (while_res (\<lambda>(h, m, tmpData, count, prev). count < rld_size x) rld_put_round (h, m, rld_data x, 0, 0))
       (\<lambda>(h, m, _). Inr (h, m))"

text \<open>The array has room for \<open>m_size\<close> ids.\<close>

fun rld_store_run :: "nat \<Rightarrow> u32 \<Rightarrow> u32 \<Rightarrow> u32 \<Rightarrow> u32 list \<Rightarrow> (u32 \<times> u32 list) res" where
  "rld_store_run 0 v sz prev dest = Inr (prev, dest)"
| "rld_store_run (Suc n) v sz prev dest =
     (let prev = prev + v
      in if length dest < unat sz then rld_store_run n v sz prev (dest @ [prev]) else Inl MemFault)"

definition rld_store_round :: "heap \<Rightarrow> u32 \<Rightarrow> uba \<times> u32 \<times> u32 list \<Rightarrow> (uba \<times> u32 \<times> u32 list) res" where
  "rld_store_round h sz = (\<lambda>(tmpData, prev, dest).
     bindE (stream_getVlPackedUint32 h tmpData) (\<lambda>(v, tmpData).
       if is_run v then
         let rle = word_value v
         in bindE (stream_getVlPackedUint32 h tmpData) (\<lambda>(v, tmpData).
              bindE (rld_store_run (unat rle) (word_value v) sz prev dest) (\<lambda>(prev, dest). Inr (tmpData, prev, dest)))
       else
         bindE (rld_store_run 1 (word_value v) sz prev dest) (\<lambda>(prev, dest). Inr (tmpData, prev, dest))))"

definition rld_putInto_array :: "heap \<Rightarrow> rld \<Rightarrow> u32 list res" where
  "rld_putInto_array h x =
     bindE (while_res (\<lambda>(tmpData, prev, dest). length dest \<noteq> unat (rld_size x)) (rld_store_round h (rld_size x)) (rld_data x, 0, []))
       (\<lambda>(_, _, dest). Inr dest)"

section \<open>The iterator\<close>

text \<open>The members of \<open>MyIterator\<close> apart from \<open>m_parent\<close>, which is the argument \<open>x\<close>.\<close>

record rli =
  rli_dataOffset :: u64
  rli_curRleCount :: u32
  rli_curRleDiff :: u32
  rli_curId :: u32

definition rli_next :: "heap \<Rightarrow> rld \<Rightarrow> rli \<Rightarrow> rli res" where
  "rli_next h x i =
     (if rli_curRleCount i \<noteq> 0 then
        Inr (i\<lparr>rli_curRleCount := rli_curRleCount i - 1, rli_curId := rli_curId i + rli_curRleDiff i\<rparr>)
      else if m_len (rld_data x) > rli_dataOffset i then
        bindE (uba_getVlPackedUint32 h (rld_data x) (rli_dataOffset i)) (\<lambda>(tmp, len).
          let i = i\<lparr>rli_dataOffset := rli_dataOffset i + word_of_int len\<rparr>
          in if is_run tmp then
               bindE (uba_getVlPackedUint32 h (rld_data x) (rli_dataOffset i)) (\<lambda>(d, len).
                 let d = word_value d
                 in Inr \<lparr>rli_dataOffset = rli_dataOffset i + word_of_int len, rli_curRleCount = word_value tmp - 1,
                         rli_curRleDiff = d, rli_curId = rli_curId i + d\<rparr>)
             else Inr (i\<lparr>rli_curId := rli_curId i + word_value tmp\<rparr>))
      else Inr (i\<lparr>rli_curId := - 1, rli_dataOffset := ucast (- 1 :: u32)\<rparr>))"

definition rli_new :: "heap \<Rightarrow> rld \<Rightarrow> u64 \<Rightarrow> rli res" where
  "rli_new h x off = rli_next h x \<lparr>rli_dataOffset = off, rli_curRleCount = 0, rli_curRleDiff = 0, rli_curId = 0\<rparr>"

definition rld_cbegin :: "heap \<Rightarrow> rld \<Rightarrow> rli res" where
  "rld_cbegin h x = rli_new h x 0"

definition rld_cend :: "heap \<Rightarrow> rld \<Rightarrow> rli res" where
  "rld_cend h x = rli_new h x (ucast (- 1 :: u32))"

text \<open>Iterators of the same index: \<open>m_parent\<close> is the same.\<close>

definition rli_eq :: "rli \<Rightarrow> rli \<Rightarrow> bool" where
  "rli_eq i j = (rli_dataOffset j = rli_dataOffset i)"

definition rli_notEq :: "rli \<Rightarrow> rli \<Rightarrow> bool" where
  "rli_notEq i j = (rli_dataOffset j \<noteq> rli_dataOffset i)"

section \<open>The creator\<close>

record rlc =
  rlc_dest :: uba
  rlc_data :: uba
  rlc_beginning :: u64
  rlc_rle :: u32
  rlc_lastDiff :: u32
  rlc_count :: u32
  rlc_prev :: u32

definition rlc_new :: "heap \<Rightarrow> nat \<Rightarrow> uba \<Rightarrow> heap \<times> rlc" where
  "rlc_new h rv dest =
     (h(rv := \<lparr>kind = VectorB, mem = []\<rparr>),
      \<lparr>rlc_dest = dest, rlc_data = uba_of_priv rv 0 0, rlc_beginning = m_putPtr dest, rlc_rle = 0, rlc_lastDiff = 0,
       rlc_count = 0, rlc_prev = 0\<rparr>)"

text \<open>The words of the pending run; the same statements stand in \<open>flushRle\<close> and \<open>push_back\<close>.\<close>

definition rlc_put_pending :: "heap \<Rightarrow> rlc \<Rightarrow> (heap \<times> rlc) res" where
  "rlc_put_pending h c =
     (if rlc_rle c \<noteq> 0 then
        if rlc_rle c = 1 then
          bindE (stream_putVlPackedUint32 h (rlc_data c) (diff_word (rlc_lastDiff c))) (\<lambda>(_, h, data). Inr (h, c\<lparr>rlc_data := data\<rparr>))
        else
          bindE (stream_putVlPackedUint32 h (rlc_data c) (run_word (rlc_rle c))) (\<lambda>(_, h, data).
          bindE (stream_putVlPackedUint32 h data (diff_word (rlc_lastDiff c))) (\<lambda>(_, h, data). Inr (h, c\<lparr>rlc_data := data\<rparr>)))
      else Inr (h, c))"

definition rlc_flushRle :: "heap \<Rightarrow> rlc \<Rightarrow> (heap \<times> rlc) res" where
  "rlc_flushRle h c = bindE (rlc_put_pending h c) (\<lambda>(h, c). Inr (h, c\<lparr>rlc_rle := 0\<rparr>))"

definition rlc_flushData :: "heap \<Rightarrow> rlc \<Rightarrow> (heap \<times> rlc) res" where
  "rlc_flushData h c =
     (let dest = uba_setPutPtr (rlc_dest c) (rlc_beginning c)
      in bindE (stream_putVlPackedUint32 h dest (rlc_count c)) (\<lambda>(_, h, dest).
         bindE (stream_putVlPackedUint32 h dest (ucast (m_len (rlc_data c)))) (\<lambda>(_, h, dest).
         bindE (stream_putData_adapter h dest (rlc_data c)) (\<lambda>(h, dest). Inr (h, c\<lparr>rlc_dest := dest\<rparr>)))))"

definition rlc_push_back :: "heap \<Rightarrow> rlc \<Rightarrow> u32 \<Rightarrow> (heap \<times> rlc) res" where
  "rlc_push_back h c v =
     (let diff = v - rlc_prev c
      in bindE (if diff = rlc_lastDiff c then Inr (h, c\<lparr>rlc_rle := rlc_rle c + 1\<rparr>)
                else bindE (rlc_put_pending h c) (\<lambda>(h, c). Inr (h, c\<lparr>rlc_rle := 1, rlc_lastDiff := diff\<rparr>))) (\<lambda>(h, c).
           Inr (h, c\<lparr>rlc_prev := v, rlc_count := rlc_count c + 1\<rparr>)))"

definition rlc_push_rle :: "heap \<Rightarrow> rlc \<Rightarrow> u32 \<Rightarrow> u32 \<Rightarrow> u32 \<Rightarrow> (heap \<times> rlc) res" where
  "rlc_push_rle h c nextId delta len =
     bindE (rlc_push_back h c nextId) (\<lambda>(h, c).
       if len \<noteq> 0 then
         bindE (rlc_push_back h c (nextId + delta)) (\<lambda>(h, c).
           let len = len - 1
           in Inr (h, c\<lparr>rlc_rle := rlc_rle c + len, rlc_prev := rlc_prev c + delta * len, rlc_count := rlc_count c + len\<rparr>))
       else Inr (h, c))"

definition rlc_flushWithData :: "heap \<Rightarrow> rlc \<Rightarrow> uba \<Rightarrow> u32 \<Rightarrow> (heap \<times> rlc) res" where
  "rlc_flushWithData h c appendData countInData =
     bindE (rlc_flushRle h c) (\<lambda>(h, c).
     bindE (stream_putData_adapter h (rlc_data c) appendData) (\<lambda>(h, data).
       rlc_flushData h (c\<lparr>rlc_data := data, rlc_count := rlc_count c + countInData\<rparr>)))"

definition rlc_flush :: "heap \<Rightarrow> rlc \<Rightarrow> (heap \<times> rlc) res" where
  "rlc_flush h c = bindE (rlc_flushRle h c) (\<lambda>(h, c). rlc_flushData h c)"

definition rlc_getPrivateIndex :: "heap \<Rightarrow> rlc \<Rightarrow> (heap \<times> rld) res" where
  "rlc_getPrivateIndex h c = rld_new h (uba_sub (rlc_dest c) (rlc_beginning c))"

fun rlc_push_all :: "heap \<Rightarrow> rlc \<Rightarrow> u32 list \<Rightarrow> (heap \<times> rlc) res" where
  "rlc_push_all h c [] = Inr (h, c)"
| "rlc_push_all h c (v # vs) = bindE (rlc_push_back h c v) (\<lambda>(h, c). rlc_push_all h c vs)"

definition rld_create :: "u32 list \<Rightarrow> heap \<Rightarrow> nat \<Rightarrow> uba \<Rightarrow> (heap \<times> uba) res" where
  "rld_create src h rv dest =
     (case rlc_new h rv dest of (h, c) \<Rightarrow>
        bindE (rlc_push_all h c src) (\<lambda>(h, c). bindE (rlc_flush h c) (\<lambda>(h, c). Inr (h, rlc_dest c))))"

section \<open>From a bit set\<close>

definition rld_fromBitSet :: "heap \<Rightarrow> nat \<Rightarrow> nat \<Rightarrow> uba \<Rightarrow> (heap \<times> rld) res" where
  "rld_fromBitSet h r rv bits =
     bindE (createCache h r (m_len bits)) (\<lambda>(h, cacheData).
       case rlc_new h rv cacheData of (h, c) \<Rightarrow>
         bindE (narrow_check_u (uint (m_len bits))) (\<lambda>myDataSize.
         bindE (fbs_bytes rlc_push_back myDataSize bits 0 0 h c) (\<lambda>(h, c).
         bindE (rlc_flush h c) (\<lambda>(h, c). rlc_getPrivateIndex h c))))"

section \<open>The set operations\<close>

text \<open>One operand: \<open>Data\<close>, \<open>IndexIt\<close>, \<open>Rle\<close>, \<open>Id\<close> and \<open>Val\<close>.\<close>

record rls =
  rls_data :: uba
  rls_it :: u32
  rls_rle :: u32
  rls_id :: u32
  rls_val :: u32

text \<open>Before the loop.\<close>

definition rls_start :: "heap \<Rightarrow> uba \<Rightarrow> rls res" where
  "rls_start h d =
     bindE (stream_getVlPackedUint32 h (uba_resetGetPtr d)) (\<lambda>(v, d).
     bindE (if is_run v then bindE (stream_getVlPackedUint32 h d) (\<lambda>(w, d). Inr (word_value v, w, d)) else Inr (0, v, d)) (\<lambda>(rle, v, d).
       Inr \<lparr>rls_data = d, rls_it = 0, rls_rle = rle, rls_id = word_value v, rls_val = word_value v\<rparr>))"

definition rls_getNext :: "heap \<Rightarrow> rls \<Rightarrow> rls res" where
  "rls_getNext h a =
     bindE (if m_getPtr (rls_data a) < m_len (rls_data a) then stream_getVlPackedUint32 h (rls_data a) else Inr (0, rls_data a)) (\<lambda>(v, d).
     bindE (if is_run v then bindE (stream_getVlPackedUint32 h d) (\<lambda>(w, d). Inr (word_value v, w, d)) else Inr (rls_rle a, v, d)) (\<lambda>(rle, v, d).
       Inr (a\<lparr>rls_data := d, rls_rle := rle, rls_val := word_value v\<rparr>)))"

text \<open>To the next id.\<close>

definition rls_step :: "heap \<Rightarrow> rls \<Rightarrow> rls res" where
  "rls_step h a =
     (let a = (if rls_rle a \<noteq> 0 then a\<lparr>rls_rle := rls_rle a - 1\<rparr> else a)
      in bindE (if rls_rle a = 0 then rls_getNext h a else Inr a) (\<lambda>a.
           Inr (a\<lparr>rls_id := rls_id a + rls_val a, rls_it := rls_it a + 1\<rparr>)))"

text \<open>Over \<open>myRle\<close> ids of the current run.\<close>

definition rls_skip :: "heap \<Rightarrow> rls \<Rightarrow> u32 \<Rightarrow> rls res" where
  "rls_skip h a myRle =
     (let a = a\<lparr>rls_rle := rls_rle a - myRle, rls_it := rls_it a + myRle, rls_id := rls_id a + rls_val a * (myRle - 1)\<rparr>
      in bindE (if rls_rle a = 0 then rls_getNext h a else Inr a) (\<lambda>a. Inr (a\<lparr>rls_id := rls_id a + rls_val a\<rparr>)))"

text \<open>The round when the id of \<open>a\<close> is smaller than the id \<open>o\<close> of the other operand.\<close>

definition rls_smaller :: "bool \<Rightarrow> heap \<Rightarrow> rlc \<Rightarrow> rls \<Rightarrow> u32 \<Rightarrow> (heap \<times> rlc \<times> rls) res" where
  "rls_smaller push h c a v =
     (if rls_rle a > 1 \<and> rls_id a + rls_val a < v then
        if rls_val a = 0 then Inl UndefinedBehaviour
        else
          let myRle = (v - rls_id a) div rls_val a - (if (v - rls_id a) mod rls_val a > 0 then 0 else 1) + 1;
              myRle = min myRle (rls_rle a)
          in bindE (if push then rlc_push_rle h c (rls_id a) (rls_val a) (myRle - 1) else Inr (h, c)) (\<lambda>(h, c).
             bindE (rls_skip h a myRle) (\<lambda>a. Inr (h, c, a)))
      else
        bindE (if push then rlc_push_back h c (rls_id a) else Inr (h, c)) (\<lambda>(h, c).
        bindE (rls_step h a) (\<lambda>a. Inr (h, c, a))))"

definition rld_op_round :: "set_op \<Rightarrow> heap \<times> rlc \<times> rls \<times> rls \<Rightarrow> (heap \<times> rlc \<times> rls \<times> rls) res" where
  "rld_op_round t = (\<lambda>(h, c, a, b).
     if rls_id a < rls_id b then
       bindE (rls_smaller (pushFirstSmaller t) h c a (rls_id b)) (\<lambda>(h, c, a). Inr (h, c, a, b))
     else if rls_id b < rls_id a then
       bindE (rls_smaller (pushSecondSmaller t) h c b (rls_id a)) (\<lambda>(h, c, b). Inr (h, c, a, b))
     else if rls_rle a > 2 \<and> rls_rle b > 2 \<and> rls_val a = rls_val b then
       let myRle = min (rls_rle a) (rls_rle b)
       in bindE (if pushEqual t then rlc_push_rle h c (rls_id a) (rls_val a) (myRle - 1) else Inr (h, c)) (\<lambda>(h, c).
          bindE (rls_skip h a myRle) (\<lambda>a. bindE (rls_skip h b myRle) (\<lambda>b. Inr (h, c, a, b))))
     else
       bindE (if pushEqual t then rlc_push_back h c (rls_id a) else Inr (h, c)) (\<lambda>(h, c).
       bindE (rls_step h a) (\<lambda>a. bindE (rls_step h b) (\<lambda>b. Inr (h, c, a, b)))))"

definition rld_op_loop :: "set_op \<Rightarrow> u32 \<Rightarrow> u32 \<Rightarrow> heap \<times> rlc \<times> rls \<times> rls \<Rightarrow> (heap \<times> rlc \<times> rls \<times> rls) res" where
  "rld_op_loop t aSize bSize = while_res (\<lambda>(h, c, a, b). rls_it a < aSize \<and> rls_it b < bSize) (rld_op_round t)"

text \<open>What is left of one operand.\<close>

definition rls_remainder :: "heap \<Rightarrow> rlc \<Rightarrow> rls \<Rightarrow> u32 \<Rightarrow> (heap \<times> rlc) res" where
  "rls_remainder h c a sz =
     bindE (if rls_rle a \<noteq> 0
            then bindE (rlc_push_rle h c (rls_id a) (rls_val a) (rls_rle a - 1)) (\<lambda>(h, c). Inr (h, c, rls_it a + rls_rle a))
            else bindE (rlc_push_back h c (rls_id a)) (\<lambda>(h, c). Inr (h, c, rls_it a + 1))) (\<lambda>(h, c, it).
       rlc_flushWithData h c (uba_shrinkToGetPtr (rls_data a)) (sz - it))"

definition rld_op_rest :: "set_op \<Rightarrow> u32 \<Rightarrow> u32 \<Rightarrow> heap \<times> rlc \<times> rls \<times> rls \<Rightarrow> (heap \<times> rlc) res" where
  "rld_op_rest t aSize bSize = (\<lambda>(h, c, a, b).
     if pushFirstRemainder t \<and> rls_it a < aSize then rls_remainder h c a aSize
     else if pushSecondRemainder t \<and> rls_it b < bSize then rls_remainder h c b bSize
     else rlc_flush h c)"

definition rld_genericOp :: "set_op \<Rightarrow> heap \<Rightarrow> nat \<Rightarrow> nat \<Rightarrow> rld \<Rightarrow> rld \<Rightarrow> (heap \<times> rld) res" where
  "rld_genericOp t h r rv x y =
     bindE (createCache h r 8) (\<lambda>(h, dest).
       case rlc_new h rv dest of (h, c) \<Rightarrow>
         bindE (rls_start h (rld_data x)) (\<lambda>a.
         bindE (rls_start h (rld_data y)) (\<lambda>b.
         bindE (bindE (rld_op_loop t (rld_size x) (rld_size y) (h, c, a, b)) (rld_op_rest t (rld_size x) (rld_size y))) (\<lambda>(h, c).
           rld_new h (uba_resetPtrs (rlc_dest c))))))"

datatype rld_operand = RldOperand rld | RldOther id_source

datatype rld_result = RldResult heap rld | RldGeneric result_index

definition rld_op :: "set_op \<Rightarrow> heap \<Rightarrow> nat \<Rightarrow> nat \<Rightarrow> rld \<Rightarrow> rld_operand \<Rightarrow> rld_result res" where
  "rld_op t h r rv x other =
     (case other of
        RldOperand y \<Rightarrow> bindE (rld_genericOp t h r rv x y) (\<lambda>(h, z). Inr (RldResult h z))
      | RldOther s \<Rightarrow> bindE (do_op t (rld_source (h, x)) (Some s)) (\<lambda>r. Inr (RldGeneric r)))"

end
