(* ===== verification/ItemIndexRleProps.thy ===== *)
theory ItemIndexRleProps
  imports ItemIndexRle
begin

text \<open>
  The run length encoded index stands for a list of ids, whatever part of it has been decoded into the cache:
  \<open>rld_inv\<close> is kept by \<open>at\<close>; search, the iterator and the conversions to an array and to a bit set agree with the list.
\<close>

section \<open>Words\<close>

datatype rl_word = Single u32 | Repeat u32 u32

fun word_code :: "rl_word \<Rightarrow> bytes" where
  "word_code (Single d) = vl_bytes (diff_word d)"
| "word_code (Repeat n d) = vl_bytes (run_word n) @ vl_bytes (diff_word d)"

fun word_deltas :: "rl_word \<Rightarrow> u32 list" where
  "word_deltas (Single d) = [d]"
| "word_deltas (Repeat n d) = replicate (unat n) d"

fun word_ok :: "rl_word \<Rightarrow> bool" where
  "word_ok (Single d) \<longleftrightarrow> d < 2 ^ 31"
| "word_ok (Repeat n d) \<longleftrightarrow> 1 < n \<and> n < 2 ^ 31 \<and> d < 2 ^ 31"

definition words_code :: "rl_word list \<Rightarrow> bytes" where
  "words_code ws = concat (map word_code ws)"

definition words_deltas :: "rl_word list \<Rightarrow> u32 list" where
  "words_deltas ws = concat (map word_deltas ws)"

lemma words_simps [simp]:
  "words_code [] = []" "words_code (w # ws) = word_code w @ words_code ws" "words_code (ws @ vs) = words_code ws @ words_code vs"
  "words_deltas [] = []" "words_deltas (w # ws) = word_deltas w @ words_deltas ws" "words_deltas (ws @ vs) = words_deltas ws @ words_deltas vs"
  by (simp_all add: words_code_def words_deltas_def)

fun sums :: "u32 \<Rightarrow> u32 list \<Rightarrow> u32 list" where
  "sums p [] = []"
| "sums p (d # ds) = (p + d) # sums (p + d) ds"

lemma length_sums [simp]: "length (sums p ds) = length ds"
  by (induction ds arbitrary: p) simp_all

lemma sums_append: "sums p (ds @ es) = sums p ds @ sums (last (p # sums p ds)) es"
  by (induction ds arbitrary: p) simp_all

lemma sums_deltas [simp]: "sums p (deltas p xs) = xs"
  by (induction xs arbitrary: p) simp_all

lemma deltas_sums [simp]: "deltas p (sums p ds) = ds"
  by (induction ds arbitrary: p) simp_all

lemma length_deltas [simp]: "length (deltas p xs) = length xs"
  by (induction xs arbitrary: p) simp_all

lemma deltas_append: "deltas p (xs @ ys) = deltas p xs @ deltas (last (p # xs)) ys"
  by (induction xs arbitrary: p) simp_all

lemma last_sums_replicate: "last (p # sums p (replicate n d)) = p + of_nat n * d"
  by (induction n arbitrary: p) (simp_all add: distrib_right del: last.simps, simp_all add: algebra_simps)

text \<open>What the low bit and the other bits of a word say.\<close>

lemma bit_words:
  "bit (word_value v) n = bit v (Suc n)"
  "bit (diff_word d) n = (0 < n \<and> n < 32 \<and> bit d (n - 1))"
  "bit (run_word d) n = (n = 0 \<or> 0 < n \<and> n < 32 \<and> bit d (n - 1))"
  unfolding word_value_def diff_word_def run_word_def bit_or_iff bit_push_bit_iff bit_drop_bit_eq by (auto simp: bit_1_iff)

lemma word_value_words: "word_value (diff_word d) = take_bit 31 d" "word_value (run_word d) = take_bit 31 d"
  by (rule bit_word_eqI; auto simp: bit_words bit_take_bit_iff)+

lemma is_run_words [simp]: "\<not> is_run (diff_word d)" "is_run (run_word n)"
  using bit_words(2) [of d 0] bit_words(3) [of n 0] by (simp_all add: is_run_def and_one_eq odd_iff_mod_2_eq_one [symmetric] bit_0)

lemma take_bit_31: "(d :: u32) < 2 ^ 31 \<Longrightarrow> take_bit 31 d = d"
  by (rule word_eq_unatI) (simp add: unsigned_take_bit_eq take_bit_nat_eq_self_iff word_less_nat_alt)

lemma word_value_small [simp]: "d < 2 ^ 31 \<Longrightarrow> word_value (diff_word d) = d" "d < 2 ^ 31 \<Longrightarrow> word_value (run_word d) = d"
  by (simp_all only: word_value_words take_bit_31)

lemma diff_word_take_bit: "diff_word (take_bit 31 d) = diff_word d"
  by (rule bit_word_eqI) (auto simp: bit_words bit_take_bit_iff)

lemma Repeat_length: "word_ok (Repeat n d) \<Longrightarrow> 2 \<le> unat n"
  by (simp add: word_less_nat_alt)

lemma length_word_code: "word_ok w \<Longrightarrow> length (word_code w) \<le> 5 * length (word_deltas w)"
proof (cases w)
  case (Repeat n d)
  moreover assume "word_ok w"
  ultimately show ?thesis using Repeat_length [of n d] length_vl32 [of "run_word n"] length_vl32 [of "diff_word d"] by simp
qed (use length_vl32 in simp)

lemma word_deltas_pos: "word_ok w \<Longrightarrow> 0 < length (word_deltas w)"
  by (cases w) (auto simp: word_less_nat_alt)

lemma length_words_code: "list_all word_ok ws \<Longrightarrow> length (words_code ws) \<le> 5 * length (words_deltas ws)"
proof (induction ws)
  case (Cons w ws)
  then show ?case using length_word_code [of w] by simp
qed simp

section \<open>The invariant\<close>

definition rld_words :: "heap \<Rightarrow> rld \<Rightarrow> rl_word list \<Rightarrow> bool" where
  "rld_words h x ws \<longleftrightarrow> list_all word_ok ws \<and> uba_inv h (rld_data x) \<and> view h (rld_data x) = words_code ws \<and>
     m_getPtr (rld_data x) = 0 \<and> unat (rld_size x) = length (words_deltas ws) \<and> length (words_deltas ws) < 2 ^ 29"

text \<open>The first \<open>k\<close> words have been decoded.\<close>

definition rld_decoded :: "rld \<Rightarrow> rl_word list \<Rightarrow> nat \<Rightarrow> bool" where
  "rld_decoded x ws k \<longleftrightarrow> k \<le> length ws \<and> rld_cache x = sums 0 (words_deltas (take k ws)) \<and> rld_curId x = last (0 # rld_cache x) \<and>
     unat (rld_dataOffset x) = length (words_code (take k ws))"

definition rld_inv :: "heap \<Rightarrow> rld \<Rightarrow> u32 list \<Rightarrow> bool" where
  "rld_inv h x xs \<longleftrightarrow> (\<exists>ws k. rld_words h x ws \<and> rld_decoded x ws k \<and> xs = sums 0 (words_deltas ws))"

lemma rld_words_frame: "storage h' (rld_data x) = storage h (rld_data x) \<Longrightarrow> rld_words h' x ws = rld_words h x ws"
  using view_frame [of h' "rld_data x" h] by (simp add: rld_words_def)

lemma rld_inv_frame: "rld_inv h x xs \<Longrightarrow> storage h' (rld_data x) = storage h (rld_data x) \<Longrightarrow> rld_inv h' x xs"
  using rld_words_frame [of h' x h] by (auto simp: rld_inv_def)

lemma rld_size_ids: "rld_inv h x xs \<Longrightarrow> unat (rld_size x) = length xs"
  by (auto simp: rld_inv_def rld_words_def)

lemma rld_words_code_bound:
  assumes "rld_words h x ws"
  shows "length (words_code ws) < 2 ^ 32" "unat (m_len (rld_data x)) = length (words_code ws)"
proof -
  have w: "list_all word_ok ws" "uba_inv h (rld_data x)" "view h (rld_data x) = words_code ws" "length (words_deltas ws) < 2 ^ 29"
    using assms by (simp_all add: rld_words_def)
  show "length (words_code ws) < 2 ^ 32" using length_words_code [OF w(1)] w(4) by simp
  have "length (view h (rld_data x)) = unat (m_len (rld_data x))" using w(2) by simp
  then show "unat (m_len (rld_data x)) = length (words_code ws)" unfolding w(3) by simp
qed

section \<open>Reading a word\<close>

text \<open>A word at the position \<open>p\<close>, which the index and its iterator read in the same way.\<close>

lemma word_at:
  assumes "uba_inv h u" "unat (p :: u64) \<le> unat (m_len u)" "drop (unat p) (view h u) = word_code w @ bs" "word_ok w"
  shows "case w of
      Single d \<Rightarrow> \<exists>v n. uba_getVlPackedUint32 h u p = Inr (v, int n) \<and> \<not> is_run v \<and> word_value v = d \<and> n = length (word_code w)
    | Repeat k d \<Rightarrow> \<exists>v n v' n'. uba_getVlPackedUint32 h u p = Inr (v, int n) \<and> is_run v \<and> word_value v = k \<and>
        uba_getVlPackedUint32 h u (p + of_nat n) = Inr (v', int n') \<and> word_value v' = d \<and> n + n' = length (word_code w)"
proof (cases w)
  case (Single d)
  have "drop (unat p) (view h u) = vl_bytes (diff_word d) @ bs" "d < 2 ^ 31" using assms(3,4) Single by simp_all
  from getVl_at(1) [OF assms(1,2) this(1)] this(2) show ?thesis using Single by simp
next
  case (Repeat k d)
  let ?v = "run_word k" and ?w = "diff_word d"
  have c: "drop (unat p) (view h u) = vl_bytes ?v @ vl_bytes ?w @ bs" "k < 2 ^ 31" "d < 2 ^ 31" using assms(3,4) Repeat by simp_all
  note g = getVl_at [OF assms(1,2) c(1)]
  let ?p = "p + of_nat (length (vl_bytes ?v))"
  have "unat (of_nat (length (vl_bytes ?v)) :: u64) = length (vl_bytes ?v)" using length_vl32 [of ?v] by (intro unat_of_nat_small) simp
  then have p: "unat ?p = unat p + length (vl_bytes ?v)" using g(2) unat_bound64 [of "m_len u"] by (simp add: unat_add_nowrap)
  have "drop (unat ?p) (view h u) = drop (length (vl_bytes ?v)) (drop (unat p) (view h u))" unfolding p by (simp add: add.commute)
  then have d: "drop (unat ?p) (view h u) = vl_bytes ?w @ bs" unfolding c(1) by simp
  from getVl_at(1) [OF assms(1) _ d] g(2) p have "uba_getVlPackedUint32 h u ?p = Inr (?w, int (length (vl_bytes ?w)))" by simp
  then show ?thesis using g(1) c(2,3) Repeat by auto
qed

lemma code_suffix:
  assumes "k < length ws"
  shows "drop (length (words_code (take k ws))) (words_code ws) = word_code (ws ! k) @ words_code (drop (Suc k) ws)"
    "words_code (take (Suc k) ws) = words_code (take k ws) @ word_code (ws ! k)"
    "words_deltas (take (Suc k) ws) = words_deltas (take k ws) @ word_deltas (ws ! k)"
proof -
  have t: "take (Suc k) ws = take k ws @ [ws ! k]" using assms by (simp add: take_Suc_conv_app_nth)
  then show "words_code (take (Suc k) ws) = words_code (take k ws) @ word_code (ws ! k)"
    "words_deltas (take (Suc k) ws) = words_deltas (take k ws) @ word_deltas (ws ! k)" by simp_all
  have "ws = take k ws @ ws ! k # drop (Suc k) ws" using assms by (simp add: id_take_nth_drop)
  then have "words_code ws = words_code (take k ws) @ word_code (ws ! k) @ words_code (drop (Suc k) ws)"
    by (metis words_simps(2,3))
  then show "drop (length (words_code (take k ws))) (words_code ws) = word_code (ws ! k) @ words_code (drop (Suc k) ws)" by simp
qed

lemma list_all_nth: "list_all P xs \<Longrightarrow> k < length xs \<Longrightarrow> P (xs ! k)"
  by (simp add: list_all_length)

section \<open>Access\<close>

lemma rld_run_eq:
  "rld_run n v x = x\<lparr>rld_curId := last (rld_curId x # sums (rld_curId x) (replicate n v)),
     rld_cache := rld_cache x @ sums (rld_curId x) (replicate n v)\<rparr>"
  by (induction n arbitrary: x) simp_all

lemma unat_offset:
  assumes "unat (off :: u32) + n < 2 ^ 32"
  shows "unat (off + word_of_int (int n)) = unat off + n" "(ucast (off + word_of_int (int n)) :: u64) = ucast off + of_nat n"
proof -
  have n: "unat (of_nat n :: u32) = n" "unat (of_nat n :: u64) = n" using assms by (intro unat_of_nat_small; simp)+
  then show 1: "unat (off + word_of_int (int n)) = unat off + n" using assms by (simp add: unat_add_nowrap)
  have "unat (ucast off + of_nat n :: u64) = unat off + n" using assms n(2) by (subst unat_add_nowrap) (simp_all add: unat_ucast64)
  then show "(ucast (off + word_of_int (int n)) :: u64) = ucast off + of_nat n"
    using 1 by (intro word_eq_unatI) (simp add: unat_ucast64)
qed

lemma rld_fill_run:
  assumes "rld_words h x ws" "rld_decoded x ws k" "k < length ws"
  defines "ds \<equiv> word_deltas (ws ! k)" and "n \<equiv> length (word_code (ws ! k))"
  shows "rld_fill h x = Inr (x\<lparr>rld_curId := last (rld_curId x # sums (rld_curId x) ds), rld_cache := rld_cache x @ sums (rld_curId x) ds,
    rld_dataOffset := rld_dataOffset x + word_of_int (int n)\<rparr>)" "unat (rld_dataOffset x) + n < 2 ^ 32"
proof -
  let ?w = "ws ! k" and ?d = "rld_data x" and ?p = "ucast (rld_dataOffset x) :: u64"
  have w: "list_all word_ok ws" "uba_inv h ?d" "view h ?d = words_code ws" using assms(1) by (simp_all add: rld_words_def)
  have o: "unat (rld_dataOffset x) = length (words_code (take k ws))" using assms(2) by (simp add: rld_decoded_def)
  note c = code_suffix [OF assms(3)] and b = rld_words_code_bound [OF assms(1)]
  have s: "length (words_code (take k ws)) + n + length (words_code (drop (Suc k) ws)) = length (words_code ws)"
    using arg_cong [OF c(1), of length] o arg_cong [OF append_take_drop_id [of k ws], of "\<lambda>v. length (words_code v)"]
    by (auto simp: n_def simp del: append_take_drop_id)
  then show bd: "unat (rld_dataOffset x) + n < 2 ^ 32" using b o by simp
  have p: "unat ?p = length (words_code (take k ws))" "unat ?p \<le> unat (m_len ?d)" using o b s by (simp_all add: unat_ucast64)
  have "drop (unat ?p) (view h ?d) = word_code ?w @ words_code (drop (Suc k) ws)" using p(1) w(3) c(1) by simp
  note r = word_at [OF w(2) p(2) this list_all_nth [OF w(1) assms(3)]]
  show "rld_fill h x = Inr (x\<lparr>rld_curId := last (rld_curId x # sums (rld_curId x) ds), rld_cache := rld_cache x @ sums (rld_curId x) ds,
      rld_dataOffset := rld_dataOffset x + word_of_int (int n)\<rparr>)"
  proof (cases ?w)
    case (Single d)
    then show ?thesis using r by (auto simp: rld_fill_def ds_def n_def)
  next
    case (Repeat m d)
    with r obtain v a v' a' where g: "uba_getVlPackedUint32 h ?d ?p = Inr (v, int a)" "is_run v" "word_value v = m"
        "uba_getVlPackedUint32 h ?d (?p + of_nat a) = Inr (v', int a')" "word_value v' = d" "a + a' = n"
      by (auto simp: n_def)
    then have "unat (rld_dataOffset x) + a < 2 ^ 32" using bd by simp
    then have "rld_fill h x = Inr ((rld_run (unat m) d (x\<lparr>rld_dataOffset := rld_dataOffset x + word_of_int (int a)\<rparr>))
        \<lparr>rld_dataOffset := rld_dataOffset x + word_of_int (int a) + word_of_int (int a')\<rparr>)"
      using g unat_offset by (simp add: rld_fill_def Let_def rld_run_eq)
    then show ?thesis using Repeat g(6) by (simp add: rld_run_eq ds_def flip: g(6))
  qed
qed

lemma rld_fill_spec:
  assumes "rld_words h x ws" "rld_decoded x ws k" "k < length ws"
  shows "\<exists>x'. rld_fill h x = Inr x' \<and> rld_words h x' ws \<and> rld_decoded x' ws (Suc k) \<and> rld_data x' = rld_data x \<and> rld_size x' = rld_size x"
proof -
  let ?ds = "word_deltas (ws ! k)" and ?n = "length (word_code (ws ! k))"
  let ?x = "x\<lparr>rld_curId := last (rld_curId x # sums (rld_curId x) ?ds), rld_cache := rld_cache x @ sums (rld_curId x) ?ds,
      rld_dataOffset := rld_dataOffset x + word_of_int (int ?n)\<rparr>"
  note f = rld_fill_run [OF assms] and c = code_suffix [OF assms(3)]
  have d: "rld_cache x = sums 0 (words_deltas (take k ws))" "rld_curId x = last (0 # rld_cache x)"
      "unat (rld_dataOffset x) = length (words_code (take k ws))"
    using assms(2) by (simp_all add: rld_decoded_def)
  have "rld_cache x @ sums (rld_curId x) ?ds = sums 0 (words_deltas (take (Suc k) ws))" unfolding c(3) sums_append d(2) unfolding d(1) ..
  moreover have "last (rld_curId x # sums (rld_curId x) ?ds) = last (0 # (rld_cache x @ sums (rld_curId x) ?ds))" unfolding d(2) by simp
  ultimately have "rld_decoded ?x ws (Suc k)" using assms(3) d(3) unat_offset(1) [OF f(2)] c(2) by (simp add: rld_decoded_def del: last.simps)
  moreover have "rld_words h ?x ws" using assms(1) by (simp add: rld_words_def)
  ultimately show ?thesis using f(1) by simp
qed

lemma decoded_less:
  assumes "rld_words h x ws" "rld_decoded x ws k"
  shows "length (rld_cache x) \<le> length (words_deltas ws)" "length (rld_cache x) < length (words_deltas ws) \<Longrightarrow> k < length ws"
    "rld_cache x = take (length (rld_cache x)) (sums 0 (words_deltas ws))"
proof -
  have d: "k \<le> length ws" "rld_cache x = sums 0 (words_deltas (take k ws))" using assms(2) by (simp_all add: rld_decoded_def)
  have "sums 0 (words_deltas ws) = rld_cache x @ sums (last (0 # rld_cache x)) (words_deltas (drop k ws))"
    unfolding d(2) by (metis append_take_drop_id sums_append words_simps(6))
  then have 1: "take (length (rld_cache x)) (sums 0 (words_deltas ws)) = rld_cache x" "length (sums 0 (words_deltas ws)) = length (rld_cache x) + length (words_deltas (drop k ws))"
    by simp_all
  then show "rld_cache x = take (length (rld_cache x)) (sums 0 (words_deltas ws))" "length (rld_cache x) \<le> length (words_deltas ws)" by simp_all
  assume "length (rld_cache x) < length (words_deltas ws)"
  then show "k < length ws" using 1(2) by (cases "k < length ws") simp_all
qed

lemma rld_at_spec:
  assumes "rld_inv h x xs"
  shows "\<exists>x'. rld_at h x pos = Inr (if unat pos < length xs then xs ! unat pos else 0, x') \<and> rld_inv h x' xs \<and>
    rld_data x' = rld_data x \<and> rld_size x' = rld_size x"
proof (cases "unat pos < length xs")
  case False
  then have "rld_size x \<le> pos" using rld_size_ids [OF assms] by (simp add: word_le_nat_alt)
  then show ?thesis using False assms by (simp add: rld_at_def)
next
  case True
  from assms obtain ws k where w: "rld_words h x ws" "rld_decoded x ws k" and xs: "xs = sums 0 (words_deltas ws)" by (auto simp: rld_inv_def)
  let ?N = "length (words_deltas ws)"
  let ?I = "\<lambda>y. (\<exists>k. rld_words h y ws \<and> rld_decoded y ws k) \<and> rld_data y = rld_data x \<and> rld_size y = rld_size x"
  have step: "\<exists>y'. rld_fill h y = Inr y' \<and> ?I y' \<and> ?N - length (rld_cache y') < ?N - length (rld_cache y)"
    if i: "?I y" and c: "length (rld_cache y) \<le> unat pos" for y
  proof -
    from i obtain j where j: "rld_words h y ws" "rld_decoded y ws j" by blast
    have lt: "length (rld_cache y) < ?N" using c True xs by simp
    note k = decoded_less(2) [OF j lt]
    from rld_fill_spec [OF j k] obtain y' where y': "rld_fill h y = Inr y'" "rld_words h y' ws" "rld_decoded y' ws (Suc j)"
        "rld_data y' = rld_data y" "rld_size y' = rld_size y" by blast
    have "word_ok (ws ! j)" using j(1) k by (auto simp: rld_words_def intro: list_all_nth)
    then have "length (rld_cache y) < length (rld_cache y')"
      using j(2) y'(3) code_suffix(3) [OF k] word_deltas_pos [of "ws ! j"] by (simp add: rld_decoded_def)
    then show ?thesis using y' i lt by (auto intro!: exI [of _ "Suc j"])
  qed
  have "?I x" using w by blast
  from while_res_rule [where I = ?I and c = "\<lambda>y. length (rld_cache y) \<le> unat pos" and b = "rld_fill h" and m = "\<lambda>y. ?N - length (rld_cache y)", OF this step]
  obtain y j where y: "while_res (\<lambda>y. length (rld_cache y) \<le> unat pos) (rld_fill h) x = Inr y" "rld_words h y ws" "rld_decoded y ws j"
      "rld_data y = rld_data x" "rld_size y = rld_size x" "unat pos < length (rld_cache y)" by (auto simp: not_le)
  have "rld_cache y ! unat pos = xs ! unat pos" using decoded_less(3) [OF y(2,3)] y(6) xs by (metis nth_take)
  moreover have "rld_inv h y xs" using y(2,3) xs by (auto simp: rld_inv_def)
  moreover have "\<not> (rld_size x = 0 \<or> rld_size x \<le> pos)" using True rld_size_ids [OF assms] by (auto simp: word_le_nat_alt)
  ultimately show ?thesis using y True by (simp add: rld_at_def)
qed

lemma rld_source_ids:
  assumes "rld_inv h x xs"
  shows "source_ids (rld_source (h, x)) xs"
proof -
  have "src_at (rld_source (h, x)) i = Inr (xs ! unat i)" if i: "unat i < length xs" for i
  proof -
    from rld_at_spec [OF assms, of i] i obtain x' where "rld_at h x i = Inr (xs ! unat i, x')" by auto
    then show ?thesis by (simp add: rld_source_def)
  qed
  then show ?thesis using rld_size_ids [OF assms] by (simp add: source_ids_def rld_source_def)
qed

end
