(* ===== verification/ItemIndexRleRead.thy ===== *)
theory ItemIndexRleRead
  imports ItemIndexRleProps
begin

text \<open>
  Reading the run length encoded index from its begin to its end: the conversions to an array and to a bit set, and the
  loop of a client over the iterator, all give the ids of the index.
\<close>

section \<open>Streaming words\<close>

lemma reads_word:
  assumes "reads h u (word_code w @ bs)" "word_ok w"
  shows "case w of
      Single d \<Rightarrow> \<exists>v u'. stream_getVlPackedUint32 h u = Inr (v, u') \<and> \<not> is_run v \<and> word_value v = d \<and> reads h u' bs \<and> m_priv u' = m_priv u
    | Repeat k d \<Rightarrow> \<exists>v u1 v' u'. stream_getVlPackedUint32 h u = Inr (v, u1) \<and> is_run v \<and> word_value v = k \<and>
        stream_getVlPackedUint32 h u1 = Inr (v', u') \<and> word_value v' = d \<and> reads h u' bs \<and> m_priv u' = m_priv u"
proof (cases w)
  case (Single d)
  then have "reads h u (vl_bytes (diff_word d) @ bs)" "d < 2 ^ 31" using assms by simp_all
  then obtain u' where "stream_getVlPackedUint32 h u = Inr (diff_word d, u')" "reads h u' bs" "m_priv u' = m_priv u" "d < 2 ^ 31"
    using reads_next [of h u "diff_word d" bs] by metis
  then show ?thesis using Single by simp
next
  case (Repeat k d)
  then have r: "reads h u (vl_bytes (run_word k) @ vl_bytes (diff_word d) @ bs)" "k < 2 ^ 31" "d < 2 ^ 31" using assms by simp_all
  obtain u1 where 1: "stream_getVlPackedUint32 h u = Inr (run_word k, u1)" "reads h u1 (vl_bytes (diff_word d) @ bs)" "m_priv u1 = m_priv u"
    by (rule reads_next [OF r(1)])
  obtain u2 where 2: "stream_getVlPackedUint32 h u1 = Inr (diff_word d, u2)" "reads h u2 bs" "m_priv u2 = m_priv u1"
    by (rule reads_next [OF 1(2)])
  show ?thesis using 1 2 r Repeat by simp
qed

lemma last_append_sums: "last (last (p # xs) # sums (last (p # xs)) ds) = last (p # (xs @ sums (last (p # xs)) ds))"
  by simp

section \<open>Into an array\<close>

lemma rld_store_run_spec:
  "length dest + n \<le> unat sz \<Longrightarrow>
    rld_store_run n v sz prev dest = Inr (last (prev # sums prev (replicate n v)), dest @ sums prev (replicate n v))"
  by (induction n arbitrary: prev dest) (simp_all add: Let_def)

text \<open>The words behind the first ids of the index have still to be read.\<close>

definition words_left :: "heap \<Rightarrow> uba \<Rightarrow> u32 list \<Rightarrow> u32 list \<Rightarrow> rl_word list \<Rightarrow> bool" where
  "words_left h u xs dest ws \<longleftrightarrow> reads h u (words_code ws) \<and> list_all word_ok ws \<and> xs = dest @ sums (last (0 # dest)) (words_deltas ws)"

lemma words_left_start: "rld_words h x ws \<Longrightarrow> words_left h (rld_data x) (sums 0 (words_deltas ws)) [] ws"
  by (simp add: words_left_def rld_words_def reads_def)

lemma words_left_next:
  assumes "words_left h u xs dest (w # ws)" "reads h u' (words_code ws)"
  shows "words_left h u' xs (dest @ sums (last (0 # dest)) (word_deltas w)) ws"
    "length dest + length (word_deltas w) \<le> length xs" "0 < length (word_deltas w)"
proof -
  have w: "word_ok w" "list_all word_ok ws" "xs = (dest @ sums (last (0 # dest)) (word_deltas w)) @
      sums (last (last (0 # dest) # sums (last (0 # dest)) (word_deltas w))) (words_deltas ws)"
    using assms(1) by (simp_all add: words_left_def sums_append del: last.simps)
  then show "length dest + length (word_deltas w) \<le> length xs" by simp
  show "0 < length (word_deltas w)" using word_deltas_pos [OF w(1)] .
  show "words_left h u' xs (dest @ sums (last (0 # dest)) (word_deltas w)) ws"
    unfolding words_left_def last_append_sums [symmetric] using assms(2) w(2,3) by blast
qed

lemma rld_store_round_spec:
  assumes "words_left h u xs dest (w # ws)" "unat sz = length xs"
  shows "\<exists>u' dest'. rld_store_round h sz (u, last (0 # dest), dest) = Inr (u', last (0 # dest'), dest') \<and>
    words_left h u' xs dest' ws \<and> length dest < length dest'"
proof -
  have r: "reads h u (word_code w @ words_code ws)" "word_ok w" using assms(1) by (simp_all add: words_left_def)
  let ?dest = "dest @ sums (last (0 # dest)) (word_deltas w)"
  have "\<exists>u'. rld_store_round h sz (u, last (0 # dest), dest) = Inr (u', last (0 # ?dest), ?dest) \<and> reads h u' (words_code ws)"
  proof (cases w)
    case (Single d)
    with reads_word [OF r] obtain v u' where "stream_getVlPackedUint32 h u = Inr (v, u')" "\<not> is_run v" "word_value v = d" "reads h u' (words_code ws)"
      by auto
    moreover have "length dest + 1 \<le> unat sz" using words_left_next(2) [OF assms(1)] calculation(4) assms(2) Single by fastforce
    ultimately show ?thesis using rld_store_run_spec [of dest 1 sz] Single by (simp add: rld_store_round_def del: rld_store_run.simps)
  next
    case (Repeat n d)
    with reads_word [OF r] obtain v u1 v' u' where "stream_getVlPackedUint32 h u = Inr (v, u1)" "is_run v" "word_value v = n"
        "stream_getVlPackedUint32 h u1 = Inr (v', u')" "word_value v' = d" "reads h u' (words_code ws)" by auto
    moreover have "length dest + unat n \<le> unat sz" using words_left_next(2) [OF assms(1)] calculation(6) assms(2) Repeat by fastforce
    ultimately show ?thesis using rld_store_run_spec [of dest "unat n" sz] Repeat by (auto simp: rld_store_round_def)
  qed
  then show ?thesis using words_left_next [OF assms(1)] by fastforce
qed

lemma rld_putInto_array_spec:
  assumes "rld_inv h x xs"
  shows "rld_putInto_array h x = Inr xs"
proof -
  from assms obtain ws where w: "rld_words h x ws" "xs = sums 0 (words_deltas ws)" by (auto simp: rld_inv_def)
  note sz = rld_size_ids [OF assms]
  let ?I = "\<lambda>(u, p, dest). p = last (0 # dest) \<and> (\<exists>vs. words_left h u xs dest vs)"
  have step: "\<exists>s'. rld_store_round h (rld_size x) s = Inr s' \<and> ?I s' \<and> length xs - length (snd (snd s')) < length xs - length (snd (snd s))"
    if i: "?I s" and c: "case s of (u, p, dest) \<Rightarrow> length dest \<noteq> unat (rld_size x)" for s
  proof -
    from i obtain u dest vs where s: "s = (u, last (0 # dest), dest)" "words_left h u xs dest vs" by (cases s) auto
    then have "vs \<noteq> []" "length dest \<le> length xs" using c sz by (auto simp: words_left_def)
    then obtain v vs' where "vs = v # vs'" by (cases vs) auto
    from rld_store_round_spec [OF s(2) [unfolded this] sz] show ?thesis using s(1) c sz \<open>length dest \<le> length xs\<close> by fastforce
  qed
  have "?I (rld_data x, 0, [])" using words_left_start [OF w(1)] w(2) by auto
  from while_res_rule [where I = ?I and m = "\<lambda>s. length xs - length (snd (snd s))", OF this step] obtain s where
    s: "while_res (\<lambda>(tmpData, prev, dest). length dest \<noteq> unat (rld_size x)) (rld_store_round h (rld_size x)) (rld_data x, 0, []) = Inr s"
      "?I s" "\<not> (case s of (u, p, dest) \<Rightarrow> length dest \<noteq> unat (rld_size x))" by blast
  obtain u p dest where "s = (u, p, dest)" by (cases s)
  with s obtain vs where "while_res (\<lambda>(tmpData, prev, dest). length dest \<noteq> unat (rld_size x)) (rld_store_round h (rld_size x)) (rld_data x, 0, []) =
      Inr (u, p, dest)" "words_left h u xs dest vs" "length dest = unat (rld_size x)" by auto
  moreover from this(2,3) sz have "dest = xs" by (auto simp: words_left_def)
  ultimately show ?thesis by (simp add: rld_putInto_array_def)
qed

definition rld_list :: "heap \<times> rld \<Rightarrow> u32 list" where
  "rld_list = (\<lambda>(h, x). case rld_putInto_array h x of Inl _ \<Rightarrow> [] | Inr xs \<Rightarrow> xs)"

interpretation rld_idx: id_index rld_source rld_list "\<lambda>(h, x). \<exists>xs. rld_inv h x xs"
proof
  fix i :: "heap \<times> rld"
  assume "case i of (h, x) \<Rightarrow> \<exists>xs. rld_inv h x xs"
  then obtain h x xs where "i = (h, x)" "rld_inv h x xs" by auto
  then show "source_ids (rld_source i) (rld_list i)" using rld_source_ids rld_putInto_array_spec by (simp add: rld_list_def)
qed

section \<open>Into a bit set\<close>

lemma rld_set_run_spec:
  "owner h m \<Longrightarrow> \<exists>h' m'. rld_set_run n v h p m = Inr (last (p # sums p (replicate n v)), h', m') \<and> owner h' m' \<and> m_priv m' = m_priv m \<and>
    dbs_elems h' m' = dbs_elems h m \<union> unat ` set (sums p (replicate n v)) \<and> (\<forall>w. m_priv w \<noteq> m_priv m \<longrightarrow> storage h' w = storage h w)"
proof (induction n arbitrary: h p m)
  case (Suc n)
  obtain h1 m1 where 1: "dbs_set h m (ucast (p + v)) = Inr (h1, m1)" "owner h1 m1" "m_priv m1 = m_priv m"
      "dbs_elems h1 m1 = insert (unat (ucast (p + v) :: u64)) (dbs_elems h m)"
    by (rule set_spec [OF Suc.prems, of "ucast (p + v)"]) (rule that)
  from Suc.IH [OF 1(2), of "p + v"] obtain h2 m2 where
    2: "rld_set_run n v h1 (p + v) m1 = Inr (last ((p + v) # sums (p + v) (replicate n v)), h2, m2)" "owner h2 m2" "m_priv m2 = m_priv m1"
      "dbs_elems h2 m2 = dbs_elems h1 m1 \<union> unat ` set (sums (p + v) (replicate n v))" "\<forall>w. m_priv w \<noteq> m_priv m1 \<longrightarrow> storage h2 w = storage h1 w"
    by (elim exE conjE) (rule that)
  have "\<forall>w. m_priv w \<noteq> m_priv m \<longrightarrow> storage h2 w = storage h w" using dbs_set_frame [OF 1(1)] 2(5) 1(3) by simp
  moreover have "dbs_elems h2 m2 = dbs_elems h m \<union> unat ` set (sums p (replicate (Suc n) v))" using 1(4) 2(4) by (auto simp: unat_ucast64)
  moreover have "rld_set_run (Suc n) v h p m = Inr (last (p # sums p (replicate (Suc n) v)), h2, m2)" using 1(1) 2(1) by (simp add: Let_def)
  ultimately show ?case using 2(2,3) 1(3) by (intro exI [of _ h2] exI [of _ m2]) simp
qed simp

text \<open>A round adds the ids of a word; the last id of a run is added first.\<close>

lemma rld_put_round_spec:
  assumes "words_left h u xs dest (w # ws)" "owner h m" "m_priv u \<noteq> m_priv m" "length xs < 2 ^ 29"
  shows "\<exists>h' m' u' dest'. rld_put_round (h, m, u, of_nat (length dest), last (0 # dest)) = Inr (h', m', u', of_nat (length dest'), last (0 # dest')) \<and>
    words_left h' u' xs dest' ws \<and> owner h' m' \<and> m_priv m' = m_priv m \<and> m_priv u' = m_priv u \<and> length dest < length dest' \<and>
    dbs_elems h' m' = dbs_elems h m \<union> unat ` set (sums (last (0 # dest)) (word_deltas w)) \<and>
    dest' = dest @ sums (last (0 # dest)) (word_deltas w)"
proof -
  have r: "reads h u (word_code w @ words_code ws)" "word_ok w" using assms(1) by (simp_all add: words_left_def)
  let ?p = "last (0 # dest)"
  let ?dest = "dest @ sums ?p (word_deltas w)"
  have wrap: "\<exists>h' m' u'. rld_put_round (h, m, u, of_nat (length dest), ?p) = Inr (h', m', u', of_nat (length ?dest), last (0 # ?dest)) \<and>
    reads h' u' (words_code ws) \<and> owner h' m' \<and> m_priv m' = m_priv m \<and> m_priv u' = m_priv u \<and>
    dbs_elems h' m' = dbs_elems h m \<union> unat ` set (sums ?p (word_deltas w))"
  proof (cases w)
    case (Single d)
    with reads_word [OF r] obtain v u' where g: "stream_getVlPackedUint32 h u = Inr (v, u')" "\<not> is_run v" "word_value v = d" "reads h u' (words_code ws)"
        "m_priv u' = m_priv u" by auto
    obtain h1 m1 where 1: "dbs_set h m (ucast (?p + d)) = Inr (h1, m1)" "owner h1 m1" "m_priv m1 = m_priv m"
        "dbs_elems h1 m1 = insert (unat (ucast (?p + d) :: u64)) (dbs_elems h m)"
      by (rule set_spec [OF assms(2), of "ucast (?p + d)"]) (rule that)
    have "storage h1 u' = storage h u'" using dbs_set_frame [OF 1(1)] g(5) assms(3) by simp
    from reads_frame [OF this] have "reads h1 u' (words_code ws)" using g(4) by blast
    then show ?thesis using g 1 Single by (simp add: rld_put_round_def Let_def unat_ucast64 add.commute)
  next
    case (Repeat n d)
    with reads_word [OF r] obtain v u1 v' u' where g: "stream_getVlPackedUint32 h u = Inr (v, u1)" "is_run v" "word_value v = n"
        "stream_getVlPackedUint32 h u1 = Inr (v', u')" "word_value v' = d" "reads h u' (words_code ws)" "m_priv u' = m_priv u" by auto
    have n: "1 < n" using r(2) Repeat by simp
    then have n1: "unat n = Suc (unat (n - 1))" using unat_bound [of n] by (simp add: word_less_nat_alt unat_sub word_le_nat_alt)
    obtain h1 m1 where 1: "dbs_set h m (ucast (?p + n * d)) = Inr (h1, m1)" "owner h1 m1" "m_priv m1 = m_priv m"
        "dbs_elems h1 m1 = insert (unat (ucast (?p + n * d) :: u64)) (dbs_elems h m)"
      by (rule set_spec [OF assms(2), of "ucast (?p + n * d)"]) (rule that)
    from rld_set_run_spec [OF 1(2), of "unat (n - 1)" d ?p] obtain h2 m2 where
      2: "rld_set_run (unat (n - 1)) d h1 ?p m1 = Inr (last (?p # sums ?p (replicate (unat (n - 1)) d)), h2, m2)" "owner h2 m2" "m_priv m2 = m_priv m1"
        "dbs_elems h2 m2 = dbs_elems h1 m1 \<union> unat ` set (sums ?p (replicate (unat (n - 1)) d))" "\<forall>w. m_priv w \<noteq> m_priv m1 \<longrightarrow> storage h2 w = storage h1 w"
      by (elim exE conjE) (rule that)
    have "storage h2 u' = storage h u'" using dbs_set_frame [OF 1(1)] 2(5) 1(3) g(7) assms(3) by simp
    from reads_frame [OF this] have rd: "reads h2 u' (words_code ws)" using g(6) by blast
    have e: "replicate (unat n) d = replicate (unat (n - 1)) d @ [d]" unfolding n1 by (simp add: replicate_append_same)
    have l: "last (?p # sums ?p (replicate (unat (n - 1)) d)) + d = ?p + n * d"
      using last_sums_replicate [of ?p "unat (n - 1)" d] by (simp add: algebra_simps del: last.simps)
    have s: "sums ?p (replicate (unat n) d) = sums ?p (replicate (unat (n - 1)) d) @ [?p + n * d]" unfolding e sums_append by (simp add: l del: last.simps)
    have dest: "last (0 # ?dest) = ?p + n * d" "(of_nat (length ?dest) :: u32) = of_nat (length dest) + n" using Repeat s by simp_all
    have "dbs_elems h2 m2 = dbs_elems h m \<union> unat ` set (sums ?p (word_deltas w))" using 1(4) 2(4) s Repeat by (auto simp: unat_ucast64)
    moreover have "rld_put_round (h, m, u, of_nat (length dest), ?p) = Inr (h2, m2, u', of_nat (length ?dest), last (0 # ?dest))"
      unfolding dest using g 1(1) 2(1) l by (simp add: rld_put_round_def Let_def del: last.simps)
    moreover have "m_priv m2 = m_priv m" using 2(3) 1(3) by simp
    ultimately show ?thesis using rd 2(2) g(7) by blast
  qed
  then obtain h' m' u' where *: "rld_put_round (h, m, u, of_nat (length dest), ?p) = Inr (h', m', u', of_nat (length ?dest), last (0 # ?dest))"
    "reads h' u' (words_code ws)" "owner h' m'" "m_priv m' = m_priv m" "m_priv u' = m_priv u"
    "dbs_elems h' m' = dbs_elems h m \<union> unat ` set (sums ?p (word_deltas w))" by blast
  have "words_left h' u' xs ?dest ws" using assms(1) *(2) words_left_next(1) [of h u xs dest w ws] by (auto simp: words_left_def last_append_sums sums_append simp del: last.simps)
  moreover have "length dest < length ?dest" using word_deltas_pos [OF r(2)] by simp
  ultimately show ?thesis using * by blast
qed

lemma rld_putInto_bits_spec:
  assumes "rld_inv h x xs" "owner h m" "m_priv (rld_data x) \<noteq> m_priv m"
  shows "\<exists>h' m'. rld_putInto_bits h x m = Inr (h', m') \<and> owner h' m' \<and> dbs_elems h' m' = dbs_elems h m \<union> unat ` set xs"
proof -
  from assms(1) obtain ws where w: "rld_words h x ws" "xs = sums 0 (words_deltas ws)" by (auto simp: rld_inv_def)
  note sz = rld_size_ids [OF assms(1)]
  have l: "length xs < 2 ^ 29" using w by (simp add: rld_words_def)
  let ?I = "\<lambda>(g, n, u, count, p). \<exists>dest vs. count = of_nat (length dest) \<and> p = last (0 # dest) \<and> words_left g u xs dest vs \<and>
    owner g n \<and> m_priv n = m_priv m \<and> m_priv u = m_priv (rld_data x) \<and> dbs_elems g n = dbs_elems h m \<union> unat ` set dest"
  let ?c = "\<lambda>(g, n, u, count, p). count < rld_size x"
  let ?m = "\<lambda>(g :: heap, n :: uba, u :: uba, count :: u32, p :: u32). length xs - unat count"
  have step: "\<exists>s'. rld_put_round s = Inr s' \<and> ?I s' \<and> ?m s' < ?m s" if i: "?I s" and c: "?c s" for s
  proof -
    obtain g n u count p where s: "s = (g, n, u, count, p)" by (cases s)
    with i obtain dest vs where d: "count = of_nat (length dest)" "p = last (0 # dest)" "words_left g u xs dest vs" "owner g n"
      "m_priv n = m_priv m" "m_priv u = m_priv (rld_data x)" "dbs_elems g n = dbs_elems h m \<union> unat ` set dest" by auto
    have le: "length dest \<le> length xs" using d(3) by (simp add: words_left_def)
    then have cn: "unat count = length dest" using l unfolding d(1) by (intro unat_of_nat_small) simp
    then have lt: "length dest < length xs" using c s sz by (simp add: word_less_nat_alt)
    then have "vs \<noteq> []" using d(3) by (auto simp: words_left_def)
    then obtain v vs' where vs: "vs = v # vs'" by (cases vs) auto
    have "m_priv u \<noteq> m_priv n" using d(5,6) assms(3) by simp
    from rld_put_round_spec [OF d(3) [unfolded vs] d(4) this l] obtain g' n' u' dest' where
      r: "rld_put_round (g, n, u, of_nat (length dest), last (0 # dest)) = Inr (g', n', u', of_nat (length dest'), last (0 # dest'))"
        "words_left g' u' xs dest' vs'" "owner g' n'" "m_priv n' = m_priv n" "m_priv u' = m_priv u" "length dest < length dest'"
        "dbs_elems g' n' = dbs_elems g n \<union> unat ` set (sums (last (0 # dest)) (word_deltas v))"
        "dest' = dest @ sums (last (0 # dest)) (word_deltas v)" by (elim exE conjE) (rule that)
    have "length dest' \<le> length xs" using r(2) by (simp add: words_left_def)
    then have cn': "unat (of_nat (length dest') :: u32) = length dest'" using l by (intro unat_of_nat_small) simp
    have "rld_put_round s = Inr (g', n', u', of_nat (length dest'), last (0 # dest'))" using r(1) s d(1,2) by simp
    moreover have "dbs_elems g' n' = dbs_elems h m \<union> unat ` set dest'" using r(7) d(7) unfolding r(8) by auto
    then have "?I (g', n', u', of_nat (length dest'), last (0 # dest'))"
      using r(2-5) d(5,6) by (simp only: prod.case) (intro exI [of _ dest'] exI [of _ vs'], simp)
    moreover have "?m (g', n', u', of_nat (length dest'), last (0 # dest')) < ?m s" using cn cn' lt r(6) s by simp
    ultimately show ?thesis by blast
  qed
  have "?I (h, m, rld_data x, 0, 0)"
    using words_left_start [OF w(1)] w(2) assms(2) by (simp only: prod.case) (intro exI [of _ "[]"] exI [of _ ws], simp)
  from while_res_rule [where I = ?I and c = ?c and m = ?m, OF this step] obtain s where
    e: "while_res ?c rld_put_round (h, m, rld_data x, 0, 0) = Inr s" "?I s" "\<not> ?c s" by blast
  obtain g n u count p where s: "s = (g, n, u, count, p)" by (cases s)
  with e(2) obtain dest vs where d: "count = of_nat (length dest)" "words_left g u xs dest vs" "owner g n"
      "dbs_elems g n = dbs_elems h m \<union> unat ` set dest" by auto
  have le: "length dest \<le> length xs" using d(2) by (simp add: words_left_def)
  then have "unat count = length dest" using l unfolding d(1) by (intro unat_of_nat_small) simp
  then have "length dest = length xs" using e(3) s sz le by (simp add: word_less_nat_alt)
  then have "dest = xs" using d(2) by (auto simp: words_left_def)
  then show ?thesis using e(1) s d(3,4) by (simp add: rld_putInto_bits_def)
qed

section \<open>The iterator\<close>

text \<open>The ids from the current one on; at the end there is none, and the iterator is the one of \<open>cend\<close>.\<close>

definition rli_end :: "rli \<Rightarrow> bool" where
  "rli_end i \<longleftrightarrow> rli_dataOffset i = ucast (- 1 :: u32) \<and> rli_curId i = - 1"

definition rli_before :: "rl_word list \<Rightarrow> rli \<Rightarrow> u32 list \<Rightarrow> bool" where
  "rli_before ws i ys \<longleftrightarrow> (\<exists>k \<le> length ws. unat (rli_dataOffset i) = length (words_code (take k ws)) \<and>
     ys = sums (rli_curId i) (replicate (unat (rli_curRleCount i)) (rli_curRleDiff i) @ words_deltas (drop k ws)))"

lemma rli_next_word:
  assumes "rld_words h x ws" "k < length ws" "unat (rli_dataOffset i) = length (words_code (take k ws))" "rli_curRleCount i = 0"
  shows "\<exists>j. rli_next h x i = Inr j \<and> rli_curId i + hd (word_deltas (ws ! k)) = rli_curId j \<and>
    unat (rli_dataOffset j) = length (words_code (take (Suc k) ws)) \<and>
    replicate (unat (rli_curRleCount j)) (rli_curRleDiff j) = tl (word_deltas (ws ! k))"
proof -
  let ?w = "ws ! k" and ?d = "rld_data x" and ?p = "rli_dataOffset i"
  have w: "list_all word_ok ws" "uba_inv h ?d" "view h ?d = words_code ws" using assms(1) by (simp_all add: rld_words_def)
  note c = code_suffix [OF assms(2)] and b = rld_words_code_bound [OF assms(1)]
  have s: "length (words_code (take k ws)) + length (word_code ?w) + length (words_code (drop (Suc k) ws)) = length (words_code ws)"
    using arg_cong [OF append_take_drop_id [of "Suc k" ws], of "\<lambda>v. length (words_code v)"] c(2) by (simp del: append_take_drop_id)
  have ok: "word_ok ?w" using list_all_nth [OF w(1) assms(2)] .
  have pos: "0 < length (word_code ?w)" using length_vl_bytes_pos by (cases ?w) auto
  have "unat ?p < unat (m_len ?d)" unfolding assms(3) b(2) using s pos by linarith
  then have p: "unat ?p \<le> unat (m_len ?d)" "m_len ?d > ?p" by (simp_all add: word_less_nat_alt)
  have "drop (unat ?p) (view h ?d) = word_code ?w @ words_code (drop (Suc k) ws)" using assms(3) w(3) c(1) by simp
  note r = word_at [OF w(2) p(1) this ok]
  have add: "unat (?p + of_nat n) = unat ?p + n" if "n \<le> length (word_code ?w)" for n
  proof -
    have "unat (of_nat n :: u64) = n" using that s b by (intro unat_of_nat_small) simp
    then show ?thesis using that s b assms(3) by (simp add: unat_add_nowrap)
  qed
  show ?thesis
  proof (cases ?w)
    case (Single d)
    then show ?thesis using r p(2) assms(3,4) c(2) add [of "length (word_code ?w)"]
      by (auto simp: rli_next_def Let_def)
  next
    case (Repeat m d)
    with r obtain v a v' a' where g: "uba_getVlPackedUint32 h ?d ?p = Inr (v, int a)" "is_run v" "word_value v = m"
        "uba_getVlPackedUint32 h ?d (?p + of_nat a) = Inr (v', int a')" "word_value v' = d" "a + a' = length (word_code ?w)" by auto
    have "1 < m" using ok Repeat by simp
    then have m: "unat m = Suc (unat (m - 1))" by (simp add: word_less_nat_alt unat_sub word_le_nat_alt)
    have e: "?p + of_nat a + of_nat a' = ?p + of_nat (length (word_code ?w))" unfolding g(6) [symmetric] by simp
    have "unat (?p + of_nat a + of_nat a') = length (words_code (take (Suc k) ws))" unfolding e using add [of "length (word_code ?w)"] assms(3) c(2) by simp
    then show ?thesis using g(1-5) p(2) assms(4) Repeat m
      by (simp add: rli_next_def Let_def)
  qed
qed

lemma rli_next_spec:
  assumes "rld_words h x ws" "rli_before ws i ys"
  shows "\<exists>j. rli_next h x i = Inr j \<and> (case ys of [] \<Rightarrow> rli_end j | y # ys' \<Rightarrow> rli_curId j = y \<and> rli_before ws j ys')"
proof -
  from assms(2) obtain k where k: "k \<le> length ws" "unat (rli_dataOffset i) = length (words_code (take k ws))"
    "ys = sums (rli_curId i) (replicate (unat (rli_curRleCount i)) (rli_curRleDiff i) @ words_deltas (drop k ws))" by (auto simp: rli_before_def)
  note b = rld_words_code_bound [OF assms(1)]
  consider "rli_curRleCount i \<noteq> 0" | "rli_curRleCount i = 0" "k < length ws" | "rli_curRleCount i = 0" "k = length ws" using k(1) by linarith
  then show ?thesis
  proof cases
    case 1
    then have n: "unat (rli_curRleCount i) = Suc (unat (rli_curRleCount i - 1))" using unat_gt_0 [of "rli_curRleCount i"] by (simp add: unat_minus_one)
    let ?j = "i\<lparr>rli_curRleCount := rli_curRleCount i - 1, rli_curId := rli_curId i + rli_curRleDiff i\<rparr>"
    let ?ys = "sums (rli_curId ?j) (replicate (unat (rli_curRleCount ?j)) (rli_curRleDiff ?j) @ words_deltas (drop k ws))"
    have "rli_before ws ?j ?ys" unfolding rli_before_def using k(1,2) by (intro exI [of _ k]) simp
    moreover have "ys = rli_curId ?j # ?ys" unfolding k(3) n by simp
    moreover have "rli_next h x i = Inr ?j" using 1 by (simp add: rli_next_def)
    ultimately show ?thesis by simp
  next
    case 2
    from rli_next_word [OF assms(1) 2(2) k(2) 2(1)] obtain j where
      j: "rli_next h x i = Inr j" "rli_curId i + hd (word_deltas (ws ! k)) = rli_curId j"
        "unat (rli_dataOffset j) = length (words_code (take (Suc k) ws))" "replicate (unat (rli_curRleCount j)) (rli_curRleDiff j) = tl (word_deltas (ws ! k))"
      by blast
    have "word_ok (ws ! k)" using assms(1) 2(2) by (auto simp: rld_words_def intro: list_all_nth)
    then have "word_deltas (ws ! k) \<noteq> []" using word_deltas_pos by fastforce
    then have "word_deltas (ws ! k) = hd (word_deltas (ws ! k)) # tl (word_deltas (ws ! k))" by simp
    moreover have "words_deltas (drop k ws) = word_deltas (ws ! k) @ words_deltas (drop (Suc k) ws)" using 2(2) by (simp flip: Cons_nth_drop_Suc)
    ultimately have "words_deltas (drop k ws) = hd (word_deltas (ws ! k)) # tl (word_deltas (ws ! k)) @ words_deltas (drop (Suc k) ws)" by (metis append_Cons)
    then have "ys = rli_curId j # sums (rli_curId j) (tl (word_deltas (ws ! k)) @ words_deltas (drop (Suc k) ws))" using k(3) 2(1) j(2) by simp
    moreover have "rli_before ws j (sums (rli_curId j) (tl (word_deltas (ws ! k)) @ words_deltas (drop (Suc k) ws)))"
      unfolding rli_before_def j(4) [symmetric] using j(3) 2(2) by (intro exI [of _ "Suc k"]) simp
    ultimately show ?thesis using j(1) by simp
  next
    case 3
    then have "\<not> m_len (rld_data x) > rli_dataOffset i" using k(2) b by (simp add: word_less_nat_alt)
    then show ?thesis using 3 k(3) by (simp add: rli_next_def rli_end_def)
  qed
qed

lemma unat_end_offset: "unat (ucast (- 1 :: u32) :: u64) = 2 ^ 32 - 1"
proof -
  have "unat (- 1 :: u32) = 2 ^ 32 - 1" by (simp add: unsigned_minus_1_eq_mask mask_eq_exp_minus_1)
  then show ?thesis by (simp only: unat_ucast64)
qed

lemma rli_before_not_end:
  assumes "rld_words h x ws" "rli_before ws i ys" "rli_end e"
  shows "rli_notEq i e"
proof -
  from assms(2) obtain k where k: "unat (rli_dataOffset i) = length (words_code (take k ws))" by (auto simp: rli_before_def)
  have w: "list_all word_ok ws" "length (words_deltas ws) < 2 ^ 29" using assms(1) by (simp_all add: rld_words_def)
  have "length (words_code (take k ws)) \<le> length (words_code ws)"
    using arg_cong [OF append_take_drop_id [of k ws], of "\<lambda>v. length (words_code v)"] by (simp del: append_take_drop_id)
  then have "unat (rli_dataOffset i) < 2 ^ 32 - 1" using k length_words_code [OF w(1)] w(2) by simp
  then have "rli_dataOffset i \<noteq> ucast (- 1 :: u32)" using unat_end_offset by (metis less_irrefl)
  then show ?thesis using assms(3) by (simp add: rli_notEq_def rli_end_def del: unat_ucast64)
qed

text \<open>\<open>for(it = cbegin(); it != cend(); ++it) ids.push_back(*it);\<close>\<close>

definition rld_enumerate :: "heap \<Rightarrow> rld \<Rightarrow> u32 list res" where
  "rld_enumerate h x =
     bindE (rld_cbegin h x) (\<lambda>i. bindE (rld_cend h x) (\<lambda>e.
     bindE (while_res (\<lambda>(i, ids). rli_notEq i e) (\<lambda>(i, ids). bindE (rli_next h x i) (\<lambda>j. Inr (j, ids @ [rli_curId i]))) (i, []))
       (\<lambda>(_, ids). Inr ids)))"

lemma rld_enumerate_spec:
  assumes "rld_inv h x xs"
  shows "rld_enumerate h x = Inr xs"
proof -
  from assms obtain ws where w: "rld_words h x ws" "xs = sums 0 (words_deltas ws)" by (auto simp: rld_inv_def)
  let ?P = "\<lambda>i ys. case ys of [] \<Rightarrow> rli_end i | y # ys' \<Rightarrow> rli_curId i = y \<and> rli_before ws i ys'"
  have "rli_before ws \<lparr>rli_dataOffset = 0, rli_curRleCount = 0, rli_curRleDiff = 0, rli_curId = 0\<rparr> xs"
    using w(2) by (auto simp: rli_before_def intro!: exI [of _ 0])
  from rli_next_spec [OF w(1) this] obtain b where b: "rld_cbegin h x = Inr b" "?P b xs" by (auto simp: rld_cbegin_def rli_new_def)
  have "unat (m_len (rld_data x)) < 2 ^ 32 - 1" using rld_words_code_bound(2) [OF w(1)] length_words_code [of ws] w(1) by (simp add: rld_words_def)
  then have "\<not> ucast (- 1 :: u32) < m_len (rld_data x)" unfolding word_less_nat_alt unat_end_offset by simp
  then obtain e where e: "rld_cend h x = Inr e" "rli_end e" by (auto simp: rld_cend_def rli_new_def rli_next_def rli_end_def)
  let ?c = "\<lambda>(i, ids). rli_notEq i e" and ?b = "\<lambda>(i, ids). bindE (rli_next h x i) (\<lambda>j. Inr (j, ids @ [rli_curId i]))"
  have "?P i ys \<Longrightarrow> \<exists>j. while_res ?c ?b (i, ids) = Inr (j, ids @ ys)" for i ids ys
  proof (induction ys arbitrary: i ids)
    case Nil
    then have "\<not> ?c (i, ids)" using e(2) by (simp add: rli_notEq_def rli_end_def)
    from while_res_stop [of ?c "(i, ids)" ?b, OF this] show ?case by auto
  next
    case (Cons y ys)
    then have i: "rli_curId i = y" "rli_before ws i ys" by simp_all
    from rli_next_spec [OF w(1) i(2)] obtain j where j: "rli_next h x i = Inr j" "?P j ys" by blast
    have "?c (i, ids)" using rli_before_not_end [OF w(1) i(2) e(2)] by simp
    moreover have "?b (i, ids) = Inr (j, ids @ [y])" using i(1) j(1) by simp
    ultimately have "while_res ?c ?b (i, ids) = while_res ?c ?b (j, ids @ [y])" by (rule while_res_step)
    then show ?case using Cons.IH [OF j(2), of "ids @ [y]"] by simp
  qed
  from this [OF b(2), of "[]"] obtain j where "while_res ?c ?b (b, []) = Inr (j, xs)" by auto
  then show ?thesis using b(1) e(1) by (simp add: rld_enumerate_def)
qed

end
