(* ===== verification/ItemIndexRleCreate.thy ===== *)
theory ItemIndexRleCreate
  imports ItemIndexRleRead
begin

text \<open>
  What \<open>ItemIndexPrivateRleDECreator\<close> writes and what the constructor reads of it. A difference of \<open>2 ^ 31\<close> or more loses its
  highest bit when it is doubled: the index that is read is \<open>trunc31\<close> of the ids that were pushed, which are
  the ids when every difference is smaller.
\<close>

section \<open>Ids with their differences cut to 31 bits\<close>

definition gaps31 :: "u32 list \<Rightarrow> u32 list" where
  "gaps31 xs = map (take_bit 31) (deltas 0 xs)"

definition trunc31 :: "u32 list \<Rightarrow> u32 list" where
  "trunc31 xs = sums 0 (gaps31 xs)"

definition gaps_small :: "u32 list \<Rightarrow> bool" where
  "gaps_small xs \<longleftrightarrow> list_all (\<lambda>d. d < 2 ^ 31) (deltas 0 xs)"

lemma length_gaps31 [simp]: "length (gaps31 xs) = length xs"
  by (simp add: gaps31_def)

lemma length_trunc31 [simp]: "length (trunc31 xs) = length xs"
  by (simp add: trunc31_def)

lemma trunc31_small: "gaps_small xs \<Longrightarrow> trunc31 xs = xs"
proof -
  assume "gaps_small xs"
  then have "gaps31 xs = deltas 0 xs" by (auto simp: gaps31_def gaps_small_def list_all_iff take_bit_31 intro!: map_idI)
  then show ?thesis by (simp add: trunc31_def)
qed

lemma gaps31_append: "gaps31 (xs @ ys) = gaps31 xs @ map (take_bit 31) (deltas (last (0 # xs)) ys)"
  by (simp add: gaps31_def deltas_append)

lemma words_deltas_small: "list_all word_ok ws \<Longrightarrow> map (take_bit 31) (words_deltas ws) = words_deltas ws"
proof (induction ws)
  case (Cons w ws)
  then show ?case by (cases w) (simp_all add: take_bit_31)
qed simp

text \<open>The words of a pending run.\<close>

definition pend :: "u32 \<Rightarrow> u32 \<Rightarrow> rl_word list" where
  "pend r d = (if r = 0 then [] else if r = 1 then [Single (take_bit 31 d)] else [Repeat r (take_bit 31 d)])"

lemma take_bit_31_less: "take_bit 31 (d :: u32) < 2 ^ 31"
proof -
  have "unat (take_bit 31 d) < 2 ^ 31" by (simp add: unsigned_take_bit_eq take_bit_nat_less_exp del: power_numeral)
  then show ?thesis by (simp add: word_less_nat_alt)
qed

lemma pend_ok: "r < 2 ^ 31 \<Longrightarrow> list_all word_ok (pend r d)"
proof -
  assume "r < 2 ^ 31"
  moreover have "1 < r" if "r \<noteq> 0" "r \<noteq> 1" using that by (metis word_le_less_eq word_less_1 linorder_neqE)
  ultimately show ?thesis using take_bit_31_less [of d] by (simp add: pend_def)
qed

lemma pend_deltas: "words_deltas (pend r d) = replicate (unat r) (take_bit 31 d)"
  by (simp add: pend_def)

lemma pend_code: "words_code (pend r d) =
    (if r = 0 then [] else if r = 1 then vl_bytes (diff_word d) else vl_bytes (run_word r) @ vl_bytes (diff_word d))"
  by (simp add: pend_def diff_word_take_bit)

section \<open>The vector of the creator\<close>

text \<open>The vector at the address \<open>rv\<close> has the bytes \<open>bs\<close>; the creator writes to its end.\<close>

definition rlc_holds :: "heap \<Rightarrow> nat \<Rightarrow> uba \<Rightarrow> bytes \<Rightarrow> bool" where
  "rlc_holds h rv u bs \<longleftrightarrow> uba_inv h u \<and> kind (storage h u) = VectorB \<and> m_priv u = rv \<and> m_offSet u = 0 \<and> m_putPtr u = m_len u \<and> view h u = bs"

lemma rlc_holds_new: "rlc_holds (h(rv := \<lparr>kind = VectorB, mem = []\<rparr>)) rv (uba_of_priv rv 0 0) []"
  by (simp add: rlc_holds_def uba_of_priv_def uba_inv_def live_def storage_def view_def chunk_def)

lemma rlc_holds_len: "rlc_holds h rv u bs \<Longrightarrow> unat (m_len u) = length bs"
  using length_view [of h u] by (simp add: rlc_holds_def)

lemma rlc_holds_pushable: "rlc_holds h rv u bs \<Longrightarrow> length bs + n \<le> max_size \<Longrightarrow> pushable h u n"
  using rlc_holds_len [of h rv u bs] by (simp add: rlc_holds_def pushable_def growable_def)

lemma rlc_holds_appended:
  assumes "rlc_holds h rv u bs" "appended h u cs h' u'" "kind (storage h' u') = VectorB"
  shows "rlc_holds h' rv u' (bs @ cs)"
proof -
  have l: "unat (m_putPtr u) = length bs" "view h u = bs" using rlc_holds_len [OF assms(1)] assms(1) by (simp_all add: rlc_holds_def)
  have v: "view h' u' = bs @ cs" using assms(2) l by (simp add: appended_def blit_def)
  moreover have "uba_inv h' u'" using assms(2) by (simp add: appended_def)
  then have "length (view h' u') = unat (m_len u')" by (rule length_view)
  ultimately have "unat (m_putPtr u') = unat (m_len u')" using assms(2) l by (simp add: appended_def)
  then have "m_putPtr u' = m_len u'" by (rule word_eq_unatI)
  then show ?thesis using assms v by (simp add: rlc_holds_def appended_def)
qed

lemma rlc_holds_put:
  assumes "rlc_holds h rv u bs" "length bs + 5 \<le> max_size"
  shows "\<exists>n h' u'. stream_putVlPackedUint32 h u v = Inr (n, h', u') \<and> rlc_holds h' rv u' (bs @ vl_bytes v) \<and> others_kept {rv} h h'"
proof -
  obtain n h' u' where 1: "stream_putVlPackedUint32 h u v = Inr (n, h', u')" "appended h u (vl_bytes v) h' u'" "kept h u h'"
    by (rule put_delta [OF rlc_holds_pushable [OF assms]])
  have "storage h' u' = storage h' u" using 1(2) by (simp add: appended_def storage_def)
  then have "kind (storage h' u') = VectorB" using 1(3) assms(1) by (simp add: kept_def rlc_holds_def)
  then show ?thesis using 1 rlc_holds_appended [OF assms(1) 1(2)] assms(1) by (auto simp: others_kept_def kept_def rlc_holds_def)
qed

section \<open>Pushing\<close>

definition rlc_inv :: "heap \<Rightarrow> nat \<Rightarrow> uba \<Rightarrow> rlc \<Rightarrow> u32 list \<Rightarrow> bool" where
  "rlc_inv h rv d0 c zs \<longleftrightarrow> rlc_dest c = d0 \<and> rlc_beginning c = m_putPtr d0 \<and> rlc_prev c = last (0 # zs) \<and> rlc_count c = of_nat (length zs) \<and>
     (rlc_rle c = 0 \<longrightarrow> zs = [] \<and> rlc_lastDiff c = 0) \<and> length zs < 2 ^ 29 \<and>
     (\<exists>ws. rlc_holds h rv (rlc_data c) (words_code ws) \<and> list_all word_ok ws \<and>
        gaps31 zs = words_deltas ws @ words_deltas (pend (rlc_rle c) (rlc_lastDiff c)))"

lemma rlc_new_inv: "rlc_new h rv d = (h1, c) \<Longrightarrow> rlc_inv h1 rv d c [] \<and> others_kept {rv} h h1"
  using rlc_holds_new [of h rv]
  by (auto simp: rlc_new_def rlc_inv_def pend_def gaps31_def others_kept_def storage_def intro!: exI [of _ "[]"])

lemma rlc_pending_small: "rlc_inv h rv d0 c zs \<Longrightarrow> unat (rlc_rle c) \<le> length zs"
proof -
  assume "rlc_inv h rv d0 c zs"
  then obtain ws where "gaps31 zs = words_deltas ws @ words_deltas (pend (rlc_rle c) (rlc_lastDiff c))" by (auto simp: rlc_inv_def)
  from arg_cong [OF this, of length] show ?thesis by (simp add: pend_deltas)
qed

lemma words_code_room: "list_all word_ok ws \<Longrightarrow> length (words_deltas ws) < 2 ^ 30 \<Longrightarrow> length (words_code ws) + 10 \<le> max_size"
  using length_words_code [of ws] by (simp add: max_size_def)

lemma rlc_put_pending_spec:
  assumes "rlc_inv h rv d0 c zs"
  shows "\<exists>h' u ws. rlc_put_pending h c = Inr (h', c\<lparr>rlc_data := u\<rparr>) \<and> rlc_holds h' rv u (words_code ws) \<and> list_all word_ok ws \<and>
    words_deltas ws = gaps31 zs \<and> others_kept {rv} h h'"
proof -
  let ?r = "rlc_rle c" and ?d = "rlc_lastDiff c"
  from assms obtain ws where w: "rlc_holds h rv (rlc_data c) (words_code ws)" "list_all word_ok ws"
      "gaps31 zs = words_deltas ws @ words_deltas (pend ?r ?d)" "length zs < 2 ^ 29" by (auto simp: rlc_inv_def)
  have "?r < 2 ^ 31" using rlc_pending_small [OF assms] w(4) by (simp add: word_less_nat_alt)
  then have ok: "list_all word_ok (ws @ pend ?r ?d)" using w(2) pend_ok by simp
  have "length (words_deltas ws) < 2 ^ 30" using arg_cong [OF w(3), of length] w(4) by simp
  from words_code_room [OF w(2) this] have room: "length (words_code ws) + 5 \<le> max_size" "length (words_code ws) + 10 \<le> max_size" by simp_all
  have "\<exists>h' u. rlc_put_pending h c = Inr (h', c\<lparr>rlc_data := u\<rparr>) \<and> rlc_holds h' rv u (words_code ws @ words_code (pend ?r ?d)) \<and> others_kept {rv} h h'"
  proof -
    consider "?r = 0" | "?r = 1" | "?r \<noteq> 0" "?r \<noteq> 1" by blast
    then show ?thesis
    proof cases
      case 1
      then have "rlc_put_pending h c = Inr (h, c\<lparr>rlc_data := rlc_data c\<rparr>)" by (simp add: rlc_put_pending_def)
      then show ?thesis using w(1) 1 unfolding pend_code by (intro exI [of _ h] exI [of _ "rlc_data c"]) simp
    next
      case 2
      from rlc_holds_put [OF w(1) room(1), of "diff_word ?d"] 2 show ?thesis unfolding pend_code by (auto simp: rlc_put_pending_def)
    next
      case 3
      from rlc_holds_put [OF w(1) room(1), of "run_word ?r"] obtain n h1 u1 where
        1: "stream_putVlPackedUint32 h (rlc_data c) (run_word ?r) = Inr (n, h1, u1)" "rlc_holds h1 rv u1 (words_code ws @ vl_bytes (run_word ?r))"
          "others_kept {rv} h h1" by blast
      have "length (words_code ws @ vl_bytes (run_word ?r)) + 5 \<le> max_size" using room(2) length_vl32 [of "run_word ?r"] by simp
      from rlc_holds_put [OF 1(2) this, of "diff_word ?d"] obtain n2 h2 u2 where
        2: "stream_putVlPackedUint32 h1 u1 (diff_word ?d) = Inr (n2, h2, u2)"
          "rlc_holds h2 rv u2 ((words_code ws @ vl_bytes (run_word ?r)) @ vl_bytes (diff_word ?d))" "others_kept {rv} h1 h2" by blast
      have "rlc_put_pending h c = Inr (h2, c\<lparr>rlc_data := u2\<rparr>)" using 3 1(1) 2(1) by (simp add: rlc_put_pending_def)
      then show ?thesis using 3 2(2) others_kept_same [OF 1(3) 2(3)] unfolding pend_code by auto
    qed
  qed
  then obtain h' u where "rlc_put_pending h c = Inr (h', c\<lparr>rlc_data := u\<rparr>)" "rlc_holds h' rv u (words_code (ws @ pend ?r ?d))" "others_kept {rv} h h'"
    by auto
  then show ?thesis using ok w(3) by (intro exI [of _ h'] exI [of _ u] exI [of _ "ws @ pend ?r ?d"]) simp
qed

lemma rlc_push_back_spec:
  assumes "rlc_inv h rv d0 c zs" "length zs + 1 < 2 ^ 29"
  shows "\<exists>h' c'. rlc_push_back h c v = Inr (h', c') \<and> rlc_inv h' rv d0 c' (zs @ [v]) \<and> others_kept {rv} h h' \<and>
    rlc_rle c' \<noteq> 0 \<and> rlc_lastDiff c' = v - rlc_prev c"
proof -
  let ?d = "v - rlc_prev c"
  have i: "rlc_dest c = d0" "rlc_beginning c = m_putPtr d0" "rlc_prev c = last (0 # zs)" "rlc_count c = of_nat (length zs)"
    using assms(1) by (simp_all add: rlc_inv_def)
  have g: "gaps31 (zs @ [v]) = gaps31 zs @ [take_bit 31 ?d]" unfolding gaps31_append i(3) by simp
  note small = rlc_pending_small [OF assms(1)]
  show ?thesis
  proof (cases "?d = rlc_lastDiff c")
    case True
    from assms(1) obtain ws where w: "rlc_holds h rv (rlc_data c) (words_code ws)" "list_all word_ok ws"
      "gaps31 zs = words_deltas ws @ words_deltas (pend (rlc_rle c) ?d)" unfolding True by (auto simp: rlc_inv_def)
    have n: "unat (rlc_rle c + 1) = Suc (unat (rlc_rle c))" using small assms(2) by (subst unat_add_nowrap) simp_all
    then have r: "rlc_rle c + 1 \<noteq> 0" by auto
    let ?c = "c\<lparr>rlc_rle := rlc_rle c + 1, rlc_prev := v, rlc_count := rlc_count c + 1\<rparr>"
    have "gaps31 (zs @ [v]) = words_deltas ws @ words_deltas (pend (rlc_rle c + 1) ?d)" unfolding g w(3) pend_deltas n by (simp add: replicate_append_same)
    then have "rlc_inv h rv d0 ?c (zs @ [v])" using i(1,2,4) w(1,2) r assms(2) True by (auto simp: rlc_inv_def)
    moreover have "rlc_push_back h c v = Inr (h, ?c)" using True by (simp add: rlc_push_back_def)
    ultimately show ?thesis using r True by auto
  next
    case False
    from rlc_put_pending_spec [OF assms(1)] obtain h' u ws where
      p: "rlc_put_pending h c = Inr (h', c\<lparr>rlc_data := u\<rparr>)" "rlc_holds h' rv u (words_code ws)" "list_all word_ok ws" "words_deltas ws = gaps31 zs"
        "others_kept {rv} h h'" by blast
    let ?c = "c\<lparr>rlc_data := u, rlc_rle := 1, rlc_lastDiff := ?d, rlc_prev := v, rlc_count := rlc_count c + 1\<rparr>"
    have "gaps31 (zs @ [v]) = words_deltas ws @ words_deltas (pend 1 ?d)" unfolding g p(4) by (simp add: pend_deltas)
    then have "rlc_inv h' rv d0 ?c (zs @ [v])" using i(1,2,4) p(2,3) assms(2) by (auto simp: rlc_inv_def)
    moreover have "rlc_push_back h c v = Inr (h', ?c)" using False p(1) by (simp add: rlc_push_back_def)
    ultimately show ?thesis using p(5) by auto
  qed
qed

text \<open>A run of ids.\<close>

definition run_ids :: "u32 \<Rightarrow> u32 \<Rightarrow> nat \<Rightarrow> u32 list" where
  "run_ids x d n = x # sums x (replicate n d)"

lemma rlc_push_rle_spec:
  assumes "rlc_inv h rv d0 c zs" "length zs + 1 + unat n < 2 ^ 29"
  shows "\<exists>h' c'. rlc_push_rle h c v d n = Inr (h', c') \<and> rlc_inv h' rv d0 c' (zs @ run_ids v d (unat n)) \<and> others_kept {rv} h h'"
proof -
  from assms(2) have "length zs + 1 < 2 ^ 29" by simp
  from rlc_push_back_spec [OF assms(1) this, of v] obtain h1 c1 where
    1: "rlc_push_back h c v = Inr (h1, c1)" "rlc_inv h1 rv d0 c1 (zs @ [v])" "others_kept {rv} h h1" by blast
  show ?thesis
  proof (cases "n = 0")
    case True
    then show ?thesis using 1 by (simp add: rlc_push_rle_def run_ids_def)
  next
    case False
    then have n: "unat n = Suc (unat (n - 1))" using unat_gt_0 [of n] by (simp add: unat_minus_one)
    have "length (zs @ [v]) + 1 < 2 ^ 29" using assms(2) n by simp
    from rlc_push_back_spec [OF 1(2) this, of "v + d"] obtain h2 c2 where
      2: "rlc_push_back h1 c1 (v + d) = Inr (h2, c2)" "rlc_inv h2 rv d0 c2 ((zs @ [v]) @ [v + d])" "others_kept {rv} h1 h2" "rlc_rle c2 \<noteq> 0"
        "rlc_lastDiff c2 = v + d - rlc_prev c1" by blast
    have pv: "rlc_prev c1 = v" "rlc_prev c2 = v + d" "rlc_count c2 = of_nat (length zs + 2)" using 1(2) 2(2) by (simp_all add: rlc_inv_def)
    let ?k = "n - 1" and ?zs = "(zs @ [v]) @ [v + d]"
    let ?c = "c2\<lparr>rlc_rle := rlc_rle c2 + ?k, rlc_prev := rlc_prev c2 + d * ?k, rlc_count := rlc_count c2 + ?k\<rparr>"
    have ids: "zs @ run_ids v d (unat n) = ?zs @ sums (v + d) (replicate (unat ?k) d)" unfolding n by (simp add: run_ids_def)
    from 2(2) obtain ws where w: "rlc_holds h2 rv (rlc_data c2) (words_code ws)" "list_all word_ok ws"
      "gaps31 ?zs = words_deltas ws @ words_deltas (pend (rlc_rle c2) d)" using 2(5) pv by (auto simp: rlc_inv_def)
    have rk: "unat (rlc_rle c2 + ?k) = unat (rlc_rle c2) + unat ?k"
      using rlc_pending_small [OF 2(2)] assms(2) n by (subst unat_add_nowrap) simp_all
    have "gaps31 (?zs @ sums (v + d) (replicate (unat ?k) d)) = gaps31 ?zs @ replicate (unat ?k) (take_bit 31 d)" unfolding gaps31_append by simp
    then have g: "gaps31 (zs @ run_ids v d (unat n)) = words_deltas ws @ words_deltas (pend (rlc_rle c2 + ?k) d)"
      unfolding ids w(3) pend_deltas rk by (simp add: replicate_add)
    have r: "rlc_rle c2 + ?k \<noteq> 0" using rk 2(4) by (metis add_is_0 unat_eq_zero)
    have l: "last (0 # (zs @ run_ids v d (unat n))) = v + d + d * ?k"
      unfolding ids using last_sums_replicate [of "v + d" "unat ?k" d] by (simp add: algebra_simps)
    have ln: "length (zs @ run_ids v d (unat n)) = length zs + 2 + unat ?k" unfolding n by (simp add: run_ids_def)
    then have "rlc_count ?c = of_nat (length (zs @ run_ids v d (unat n)))" using pv(3) by simp
    moreover have "length (zs @ run_ids v d (unat n)) < 2 ^ 29" unfolding ln using assms(2) n by simp
    ultimately have "rlc_inv h2 rv d0 ?c (zs @ run_ids v d (unat n))"
      unfolding rlc_inv_def using 2(2,5) pv l r w(1,2) g by (auto simp: rlc_inv_def)
    moreover have "rlc_push_rle h c v d n = Inr (h2, ?c)" using False 1(1) 2(1) by (simp add: rlc_push_rle_def Let_def)
    ultimately show ?thesis using others_kept_same [OF 1(3) 2(3)] by blast
  qed
qed

section \<open>Flushing\<close>

text \<open>What \<open>flushData\<close> appends to the destination.\<close>

definition rl_file :: "rl_word list \<Rightarrow> bytes" where
  "rl_file ws = vl_bytes (of_nat (length (words_deltas ws)) :: u32) @ vl_bytes (of_nat (length (words_code ws)) :: u32) @ words_code ws"

definition rlc_flushed :: "heap \<Rightarrow> nat \<Rightarrow> uba \<Rightarrow> heap \<Rightarrow> rlc \<Rightarrow> u32 list \<Rightarrow> bool" where
  "rlc_flushed h rv d0 h' c zs \<longleftrightarrow> rlc_beginning c = m_putPtr d0 \<and> kind (storage h' (rlc_dest c)) = kind (storage h d0) \<and>
     others_kept {rv, m_priv d0} h h' \<and>
     (\<exists>ws. list_all word_ok ws \<and> words_deltas ws = gaps31 zs \<and> appended h d0 (rl_file ws) h' (rlc_dest c))"

lemma length_rl_file: "list_all word_ok ws \<Longrightarrow> length (rl_file ws) \<le> 10 + 5 * length (words_deltas ws)"
  using length_words_code [of ws] length_vl32 [of "of_nat (length (words_deltas ws))"] length_vl32 [of "of_nat (length (words_code ws))"]
  by (simp add: rl_file_def)

lemma put_delta_kind:
  assumes "pushable h d 5"
  shows "\<exists>n h' d'. stream_putVlPackedUint32 h d v = Inr (n, h', d') \<and> appended h d (vl_bytes v) h' d' \<and>
    kind (storage h' d') = kind (storage h d) \<and> others_kept {m_priv d} h h'"
proof -
  obtain n h' d' where 1: "stream_putVlPackedUint32 h d v = Inr (n, h', d')" "appended h d (vl_bytes v) h' d'" "kept h d h'"
    by (rule put_delta [OF assms])
  have "storage h' d' = storage h' d" using 1(2) by (simp add: appended_def storage_def)
  then show ?thesis using 1 by (auto simp: kept_def others_kept_def)
qed

lemma rlc_flushData_spec:
  assumes "rlc_holds h rv (rlc_data c) (words_code ws)" "list_all word_ok ws" "rlc_dest c = d0" "rlc_beginning c = m_putPtr d0"
    and "rlc_count c = of_nat (length (words_deltas ws))" "pushable h d0 (10 + 5 * length (words_deltas ws))" "m_priv d0 \<noteq> rv"
  shows "\<exists>h' d. rlc_flushData h c = Inr (h', c\<lparr>rlc_dest := d\<rparr>) \<and> appended h d0 (rl_file ws) h' d \<and>
    kind (storage h' d) = kind (storage h d0) \<and> others_kept {m_priv d0} h h'"
proof -
  let ?u = "rlc_data c" and ?n = "of_nat (length (words_deltas ws)) :: u32" and ?s = "of_nat (length (words_code ws)) :: u32"
  have u: "m_priv ?u = rv" "uba_inv h ?u" "kind (storage h ?u) = VectorB" "view h ?u = words_code ws" using assms(1) by (simp_all add: rlc_holds_def)
  have lu: "unat (m_len ?u) = length (words_code ws)" using rlc_holds_len [OF assms(1)] .
  then have s: "ucast (m_len ?u) = ?s" by (metis of_nat_unat)
  have d: "uba_setPutPtr (rlc_dest c) (rlc_beginning c) = d0" using assms(3,4,6) by (auto simp: uba_setPutPtr_def pushable_def)
  note room = pushable_less [OF assms(6)]
  have "pushable h d0 5" by (rule room) simp
  from put_delta_kind [OF this, of ?n] obtain n1 h1 d1 where
    1: "stream_putVlPackedUint32 h d0 ?n = Inr (n1, h1, d1)" "appended h d0 (vl_bytes ?n) h1 d1" "kind (storage h1 d1) = kind (storage h d0)"
      "others_kept {m_priv d0} h h1" by blast
  have p1: "m_priv d1 = m_priv d0" using 1(2) by (simp add: appended_def)
  have "pushable h d0 (length (vl_bytes ?n) + 5)" by (rule room) (use length_vl32 [of ?n] in simp)
  from put_delta_kind [OF appended_pushable [OF this 1(2)], of ?s] obtain n2 h2 d2 where
    2: "stream_putVlPackedUint32 h1 d1 ?s = Inr (n2, h2, d2)" "appended h1 d1 (vl_bytes ?s) h2 d2" "kind (storage h2 d2) = kind (storage h1 d1)"
      "others_kept {m_priv d1} h1 h2" by blast
  have p2: "m_priv d2 = m_priv d0" using 2(2) p1 by (simp add: appended_def)
  have a2: "appended h d0 (vl_bytes ?n @ vl_bytes ?s) h2 d2" by (rule appended_trans [OF assms(6) 1(2) 2(2)])
  have k2: "others_kept {m_priv d0} h h2" using others_kept_same [OF 1(4)] 2(4) p1 by simp
  have "storage h2 ?u = storage h ?u" using others_keptD [OF k2, of ?u] u(1) assms(7) by simp
  note f = view_frame [OF this] this
  have "pushable h d0 (length (vl_bytes ?n @ vl_bytes ?s) + unat (m_len ?u))"
    by (rule room) (use length_vl32 [of ?n] length_vl32 [of ?s] length_words_code [OF assms(2)] lu in simp)
  note pu = appended_pushable [OF this a2]
  have "uba_inv h2 d2" using a2 by (simp add: appended_def)
  from stream_putData_adapter_ok [OF this, of ?u] pu obtain h3 d3 where
    3: "stream_putData_adapter h2 d2 ?u = Inr (h3, d3)" "appended h2 d2 (view h2 ?u) h3 d3" "kind (storage h3 d3) = kind (storage h2 d2)"
      "\<forall>w. m_priv w \<noteq> m_priv d2 \<longrightarrow> storage h3 w = storage h2 w"
    using f u assms(7) p2 by (auto simp: isContiguous_def)
  have a3: "appended h d0 (rl_file ws) h3 d3"
    using appended_trans [OF assms(6) a2 3(2)] f(1) u(4) by (simp add: rl_file_def)
  have "others_kept {m_priv d0} h2 h3" using 3(4) p2 by (simp add: others_kept_def)
  from others_kept_same [OF k2 this] show ?thesis
    using d s assms(5) 1(1,3) 2(1,3) 3(1,3) a3 by (intro exI [of _ h3] exI [of _ d3]) (simp add: rlc_flushData_def)
qed

text \<open>\<open>flush\<close>, and \<open>flushWithData\<close> for the words behind the last id that was pushed.\<close>

lemma rlc_finish:
  assumes "rlc_inv h rv d0 c zs" "m_priv d0 \<noteq> rv" "list_all word_ok vs" "length zs + length (words_deltas vs) < 2 ^ 29"
    and "pushable h d0 (10 + 5 * (length zs + length (words_deltas vs)))"
  shows "\<exists>h1 u. rlc_flushRle h c = Inr (h1, c\<lparr>rlc_rle := 0, rlc_data := u\<rparr>) \<and> others_kept {rv} h h1 \<and>
    (\<exists>ws. rlc_holds h1 rv u (words_code ws) \<and> length (words_code ws) \<le> 5 * length zs \<and>
    (\<forall>h2 u2 n. rlc_holds h2 rv u2 (words_code ws @ words_code vs) \<and> others_kept {rv} h1 h2 \<and> unat n = length (words_deltas vs) \<longrightarrow>
      (\<exists>h' c'. rlc_flushData h2 (c\<lparr>rlc_rle := 0, rlc_data := u2, rlc_count := rlc_count c + n\<rparr>) = Inr (h', c') \<and>
         rlc_flushed h rv d0 h' c' (zs @ sums (last (0 # zs)) (words_deltas vs)))))"
proof -
  from rlc_put_pending_spec [OF assms(1)] obtain h1 u ws where
    1: "rlc_put_pending h c = Inr (h1, c\<lparr>rlc_data := u\<rparr>)" "rlc_holds h1 rv u (words_code ws)" "list_all word_ok ws" "words_deltas ws = gaps31 zs"
      "others_kept {rv} h h1" by blast
  have lz: "length (words_deltas ws) = length zs" using 1(4) by simp
  have fin: "\<exists>h' c'. rlc_flushData h2 (c\<lparr>rlc_rle := 0, rlc_data := u2, rlc_count := rlc_count c + n\<rparr>) = Inr (h', c') \<and>
         rlc_flushed h rv d0 h' c' (zs @ sums (last (0 # zs)) (words_deltas vs))"
    if 2: "rlc_holds h2 rv u2 (words_code ws @ words_code vs)" "others_kept {rv} h1 h2" "unat n = length (words_deltas vs)" for h2 u2 n
  proof -
    let ?c = "c\<lparr>rlc_rle := 0, rlc_data := u2, rlc_count := rlc_count c + n\<rparr>" and ?ws = "ws @ vs"
    have k: "others_kept {rv} h h2" using others_kept_same [OF 1(5) 2(2)] .
    have st: "storage h2 d0 = storage h d0" using others_keptD [OF k] assms(2) by simp
    have "n = of_nat (length (words_deltas vs))" using 2(3) by (metis of_nat_unat ucast_id)
    then have cn: "rlc_count ?c = of_nat (length (words_deltas ?ws))" using assms(1) lz by (simp add: rlc_inv_def)
    have i: "rlc_holds h2 rv (rlc_data ?c) (words_code ?ws)" "list_all word_ok ?ws" "rlc_dest ?c = d0" "rlc_beginning ?c = m_putPtr d0"
      using 2(1) 1(3) assms(1,3) by (simp_all add: rlc_inv_def)
    have "pushable h2 d0 (10 + 5 * length (words_deltas ?ws))" using pushable_frame [OF st] assms(5) lz by simp
    from rlc_flushData_spec [OF i cn this assms(2)] obtain h' d where
      3: "rlc_flushData h2 ?c = Inr (h', ?c\<lparr>rlc_dest := d\<rparr>)" "appended h2 d0 (rl_file ?ws) h' d" "kind (storage h' d) = kind (storage h2 d0)"
        "others_kept {m_priv d0} h2 h'" by blast
    have "others_kept {rv, m_priv d0} h h'" using others_kept_trans [OF k 3(4)] by (simp add: insert_commute)
    moreover have "words_deltas ?ws = gaps31 (zs @ sums (last (0 # zs)) (words_deltas vs))"
      unfolding gaps31_append using 1(4) words_deltas_small [OF assms(3)] by simp
    ultimately have "rlc_flushed h rv d0 h' (?c\<lparr>rlc_dest := d\<rparr>) (zs @ sums (last (0 # zs)) (words_deltas vs))"
      unfolding rlc_flushed_def using i(2,4) 3(3) st appended_frame [OF 3(2) st] by (intro conjI exI [of _ ?ws]) simp_all
    then show ?thesis using 3(1) by blast
  qed
  have room: "length (words_code ws) \<le> 5 * length zs" using length_words_code [OF 1(3)] lz by simp
  have "rlc_flushRle h c = Inr (h1, c\<lparr>rlc_rle := 0, rlc_data := u\<rparr>)" using 1(1) by (simp add: rlc_flushRle_def)
  then show ?thesis using 1(2,5) room fin by blast
qed

lemma rlc_flush_spec:
  assumes "rlc_inv h rv d0 c zs" "m_priv d0 \<noteq> rv" "pushable h d0 (10 + 5 * length zs)"
  shows "\<exists>h' c'. rlc_flush h c = Inr (h', c') \<and> rlc_flushed h rv d0 h' c' zs"
proof -
  have l: "length zs < 2 ^ 29" using assms(1) by (simp add: rlc_inv_def)
  from rlc_finish [OF assms(1,2), of "[]"] l assms(3) obtain h1 u ws where
    1: "rlc_flushRle h c = Inr (h1, c\<lparr>rlc_rle := 0, rlc_data := u\<rparr>)" "rlc_holds h1 rv u (words_code ws)"
    and f: "\<forall>h2 u2 n. rlc_holds h2 rv u2 (words_code ws @ words_code []) \<and> others_kept {rv} h1 h2 \<and> unat n = length (words_deltas []) \<longrightarrow>
      (\<exists>h' c'. rlc_flushData h2 (c\<lparr>rlc_rle := 0, rlc_data := u2, rlc_count := rlc_count c + n\<rparr>) = Inr (h', c') \<and>
         rlc_flushed h rv d0 h' c' (zs @ sums (last (0 # zs)) (words_deltas [])))" by auto
  from f [rule_format, of h1 u 0] 1(2) obtain h' c' where
    "rlc_flushData h1 (c\<lparr>rlc_rle := 0, rlc_data := u, rlc_count := rlc_count c + 0\<rparr>) = Inr (h', c')" "rlc_flushed h rv d0 h' c' zs" by auto
  then show ?thesis using 1(1) by (simp add: rlc_flush_def)
qed

lemma rlc_flushWithData_spec:
  assumes "rlc_inv h rv d0 c zs" "m_priv d0 \<noteq> rv" "list_all word_ok vs" "length zs + length (words_deltas vs) < 2 ^ 29"
    and "pushable h d0 (10 + 5 * (length zs + length (words_deltas vs)))"
    and "uba_inv h src" "view h src = words_code vs" "unat n = length (words_deltas vs)" "m_priv src \<noteq> rv" "isContiguous (storage h src)"
  shows "\<exists>h' c'. rlc_flushWithData h c src n = Inr (h', c') \<and> rlc_flushed h rv d0 h' c' (zs @ sums (last (0 # zs)) (words_deltas vs))"
proof -
  from rlc_finish [OF assms(1-5)] obtain h1 u ws where
    1: "rlc_flushRle h c = Inr (h1, c\<lparr>rlc_rle := 0, rlc_data := u\<rparr>)" "others_kept {rv} h h1" "rlc_holds h1 rv u (words_code ws)"
      "length (words_code ws) \<le> 5 * length zs"
    and f: "\<forall>h2 u2 n. rlc_holds h2 rv u2 (words_code ws @ words_code vs) \<and> others_kept {rv} h1 h2 \<and> unat n = length (words_deltas vs) \<longrightarrow>
      (\<exists>h' c'. rlc_flushData h2 (c\<lparr>rlc_rle := 0, rlc_data := u2, rlc_count := rlc_count c + n\<rparr>) = Inr (h', c') \<and>
         rlc_flushed h rv d0 h' c' (zs @ sums (last (0 # zs)) (words_deltas vs)))" by (elim exE conjE) (rule that)
  have st: "storage h1 src = storage h src" using others_keptD [OF 1(2)] assms(9) by simp
  note s = view_frame [OF st]
  have u: "uba_inv h1 u" "m_priv u = rv" "kind (storage h1 u) = VectorB" using 1(3) by (simp_all add: rlc_holds_def)
  have "length (view h src) = unat (m_len src)" using assms(6) by simp
  then have "length (words_code ws) + unat (m_len src) \<le> max_size"
    using 1(4) length_words_code [OF assms(3)] assms(4,7) by (simp add: max_size_def)
  note pu = rlc_holds_pushable [OF 1(3) this]
  from stream_putData_adapter_ok [OF u(1) _ _ _ pu] s st assms(6,9,10) u(2) obtain h2 u2 where
    2: "stream_putData_adapter h1 u src = Inr (h2, u2)" "appended h1 u (view h1 src) h2 u2" "kind (storage h2 u2) = kind (storage h1 u)"
      "\<forall>w. m_priv w \<noteq> m_priv u \<longrightarrow> storage h2 w = storage h1 w" by auto
  have "rlc_holds h2 rv u2 (words_code ws @ words_code vs)" using rlc_holds_appended [OF 1(3) 2(2)] 2(3) u(3) s(1) assms(7) by simp
  moreover have "others_kept {rv} h1 h2" using 2(4) u(2) by (simp add: others_kept_def)
  ultimately have "\<exists>h' c'. rlc_flushData h2 (c\<lparr>rlc_rle := 0, rlc_data := u2, rlc_count := rlc_count c + n\<rparr>) = Inr (h', c') \<and>
         rlc_flushed h rv d0 h' c' (zs @ sums (last (0 # zs)) (words_deltas vs))" using assms(8) by (intro f [rule_format]) simp
  then show ?thesis using 1(1) 2(1) by (simp add: rlc_flushWithData_def del: last.simps)
qed

section \<open>Opening an index\<close>

lemma resize_shorter:
  assumes "uba_inv h u" "m_getPtr u = 0" "unat n \<le> unat (m_len u)"
  shows "\<exists>b v. (if m_len u \<noteq> n then uba_resize h u n else Inr (True, h, u)) = Inr (b, h, v) \<and>
    uba_inv h v \<and> view h v = take (unat n) (view h u) \<and> m_getPtr v = 0 \<and> m_priv v = m_priv u"
proof (cases "m_len u = n")
  case False
  then have "n < m_len u" using assms(3) by (simp add: word_le_nat_alt [symmetric])
  let ?v = "u\<lparr>m_len := n\<rparr>"
  let ?w = "if n < m_putPtr u then ?v\<lparr>m_putPtr := n\<rparr> else ?v"
  have "uba_resize h u n = Inr (True, h, ?w)" using \<open>n < m_len u\<close> assms(2) by (simp add: uba_resize_def Let_def)
  moreover have "uba_inv h ?w" "view h ?w = take (unat n) (view h u)" "m_getPtr ?w = 0" "m_priv ?w = m_priv u"
    using assms by (auto simp: uba_inv_def view_def storage_def chunk_def min_def)
  ultimately show ?thesis using False by auto
qed (use assms in \<open>auto simp: view_def chunk_def\<close>)

lemma rld_new_spec:
  assumes "uba_inv h d" "view h d = rl_file ws @ rest" "list_all word_ok ws" "length (words_deltas ws) < 2 ^ 29"
  shows "\<exists>x. rld_new h d = Inr (h, x) \<and> rld_inv h x (sums 0 (words_deltas ws)) \<and> m_priv (rld_data x) = m_priv d \<and>
    rld_getSizeInBytes x = of_nat (length (rl_file ws))"
proof -
  let ?n = "of_nat (length (words_deltas ws)) :: u32" and ?s = "of_nat (length (words_code ws)) :: u32"
  have lc: "length (words_code ws) < 2 ^ 32" using length_words_code [OF assms(3)] assms(4) by simp
  then have us: "unat ?s = length (words_code ws)" "unat ?n = length (words_deltas ws)" using assms(4) by (intro unat_of_nat_small; simp)+
  have "reads h (uba_resetGetPtr d) (vl_bytes ?n @ vl_bytes ?s @ words_code ws @ rest)"
    using assms(1,2) by (simp add: reads_def uba_resetGetPtr_def rl_file_def)
  then obtain u1 where 1: "stream_getVlPackedUint32 h (uba_resetGetPtr d) = Inr (?n, u1)" "reads h u1 (vl_bytes ?s @ words_code ws @ rest)"
      "m_priv u1 = m_priv d" by (rule reads_next) (simp add: uba_resetGetPtr_def)
  from 1(2) obtain u2 where 2: "stream_getVlPackedUint32 h u1 = Inr (?s, u2)" "reads h u2 (words_code ws @ rest)" "m_priv u2 = m_priv u1"
    by (rule reads_next)
  let ?u = "uba_shrinkToGetPtr u2"
  have r: "uba_inv h u2" "unat (m_getPtr u2) \<le> unat (m_len u2)" "drop (unat (m_getPtr u2)) (view h u2) = words_code ws @ rest"
    using 2(2) by (simp_all add: reads_def)
  note s = shrinkToGetPtr_spec [OF r(1,2)]
  have g: "m_getPtr ?u = 0" by (auto simp: uba_shrinkToGetPtr_def Let_def)
  have lu: "unat (m_len ?u) = length (words_code ws) + length rest" using length_view [OF s(1)] s(2) r(3) by simp
  have ucs: "unat (ucast ?s :: u64) = length (words_code ws)" using us(1) by (simp only: unat_ucast64)
  have "unat (ucast ?s :: u64) \<le> unat (m_len ?u)" using lu ucs by simp
  from resize_shorter [OF s(1) g this] obtain b u3 where
    3: "(if m_len ?u \<noteq> ucast ?s then uba_resize h ?u (ucast ?s) else Inr (True, h, ?u)) = Inr (b, h, u3)"
      "uba_inv h u3" "view h u3 = words_code ws" "m_getPtr u3 = 0" "m_priv u3 = m_priv ?u"
    unfolding ucs s(2) r(3) by auto
  let ?x = "\<lparr>rld_data = u3, rld_size = ?n, rld_dataOffset = 0, rld_curId = 0, rld_cache = []\<rparr>"
  have "rld_words h ?x ws" using assms(3,4) 3(2-4) us(2) by (simp add: rld_words_def)
  moreover have "rld_decoded ?x ws 0" by (simp add: rld_decoded_def)
  ultimately have "rld_inv h ?x (sums 0 (words_deltas ws))" by (auto simp: rld_inv_def)
  moreover have "rld_new h d = Inr (h, ?x)" unfolding rld_new_def using 1(1) 2(1) 3(1) by (simp add: Let_def)
  moreover have "unat (m_len u3) = length (words_code ws)" using length_view [OF 3(2)] 3(3) by simp
  then have "m_len u3 = of_nat (length (words_code ws))" "ucast (m_len u3) = ?s" by (metis of_nat_unat ucast_id, metis of_nat_unat)
  then have "rld_getSizeInBytes ?x = of_nat (length (rl_file ws))"
    by (simp add: rld_getSizeInBytes_def rld_psize_def rl_file_def vu32.length_code)
  ultimately show ?thesis using 1(3) 2(3) 3(5) s(3) by simp
qed

lemma rld_open_created:
  assumes "pushable h dest n" "list_all word_ok ws" "words_deltas ws = gaps31 zs" "length zs < 2 ^ 29" "appended h dest (rl_file ws) h' d'"
  shows "\<exists>x. rld_new h' (uba_sub d' (m_putPtr dest)) = Inr (h', x) \<and> rld_inv h' x (trunc31 zs) \<and> m_priv (rld_data x) = m_priv dest \<and>
    rld_getSizeInBytes x = m_putPtr d' - m_putPtr dest"
proof -
  obtain rest where s: "uba_inv h' (uba_sub d' (m_putPtr dest))" "view h' (uba_sub d' (m_putPtr dest)) = rl_file ws @ rest"
    "m_priv (uba_sub d' (m_putPtr dest)) = m_priv dest" "m_putPtr d' - m_putPtr dest = of_nat (length (rl_file ws))"
    by (rule open_appended [OF assms(1,5)])
  then show ?thesis using rld_new_spec [OF s(1,2) assms(2)] assms(3,4) by (simp add: trunc31_def)
qed

lemma rlc_getPrivateIndex_spec:
  assumes "rlc_flushed h rv d0 h' c zs" "pushable h d0 n" "length zs < 2 ^ 29"
  shows "\<exists>x. rlc_getPrivateIndex h' c = Inr (h', x) \<and> rld_inv h' x (trunc31 zs) \<and> m_priv (rld_data x) = m_priv d0"
proof -
  from assms(1) obtain ws where f: "rlc_beginning c = m_putPtr d0" "list_all word_ok ws" "words_deltas ws = gaps31 zs"
      "appended h d0 (rl_file ws) h' (rlc_dest c)" by (auto simp: rlc_flushed_def)
  from rld_open_created [OF assms(2) f(2,3) assms(3) f(4)] show ?thesis by (auto simp: rlc_getPrivateIndex_def f(1))
qed

section \<open>Creation\<close>

lemma rlc_push_all_spec:
  "rlc_inv h rv d0 c zs \<Longrightarrow> length zs + length xs < 2 ^ 29 \<Longrightarrow>
    \<exists>h' c'. rlc_push_all h c xs = Inr (h', c') \<and> rlc_inv h' rv d0 c' (zs @ xs) \<and> others_kept {rv} h h'"
proof (induction xs arbitrary: h c zs)
  case (Cons x xs)
  then have "length zs + 1 < 2 ^ 29" by simp
  from rlc_push_back_spec [OF Cons.prems(1) this, of x] obtain h1 c1 where
    1: "rlc_push_back h c x = Inr (h1, c1)" "rlc_inv h1 rv d0 c1 (zs @ [x])" "others_kept {rv} h h1" by blast
  have "length (zs @ [x]) + length xs < 2 ^ 29" using Cons.prems(2) by simp
  from Cons.IH [OF 1(2) this] obtain h2 c2 where
    2: "rlc_push_all h1 c1 xs = Inr (h2, c2)" "rlc_inv h2 rv d0 c2 ((zs @ [x]) @ xs)" "others_kept {rv} h1 h2" by blast
  have "rlc_inv h2 rv d0 c2 (zs @ x # xs)" using 2(2) by simp
  then show ?case using 1(1) 2(1) others_kept_same [OF 1(3) 2(3)] by simp
qed auto

lemma rld_create_spec:
  assumes "pushable h dest (10 + 5 * length xs)" "length xs < 2 ^ 29" "rv \<noteq> m_priv dest"
  shows "\<exists>h' d'. rld_create xs h rv dest = Inr (h', d') \<and> others_kept {rv, m_priv dest} h h' \<and>
    (\<exists>ws. list_all word_ok ws \<and> words_deltas ws = gaps31 xs \<and> appended h dest (rl_file ws) h' d')"
proof -
  obtain h1 c where 1: "rlc_new h rv dest = (h1, c)" by (cases "rlc_new h rv dest")
  note i = rlc_new_inv [OF 1]
  from rlc_push_all_spec [of h1 rv dest c "[]" xs] i assms(2) obtain h2 c2 where
    2: "rlc_push_all h1 c xs = Inr (h2, c2)" "rlc_inv h2 rv dest c2 xs" "others_kept {rv} h1 h2" by auto
  have k: "others_kept {rv} h h2" using i 2(3) others_kept_same by blast
  have st: "storage h2 dest = storage h dest" using others_keptD [OF k, of dest] assms(3) by auto
  have "pushable h2 dest (10 + 5 * length xs)" using pushable_frame [OF st] assms(1) by simp
  from rlc_flush_spec [OF 2(2) _ this] assms(3) obtain h3 c3 where
    3: "rlc_flush h2 c2 = Inr (h3, c3)" "rlc_flushed h2 rv dest h3 c3 xs" by auto
  from 3(2) obtain ws where w: "list_all word_ok ws" "words_deltas ws = gaps31 xs" "appended h2 dest (rl_file ws) h3 (rlc_dest c3)"
      "others_kept {rv, m_priv dest} h2 h3" by (auto simp: rlc_flushed_def)
  have "others_kept {rv, m_priv dest} h h3" using others_kept_trans [OF k w(4)] by (simp add: insert_commute)
  moreover have "rld_create xs h rv dest = Inr (h3, rlc_dest c3)" using 1 2(1) 3(1) by (simp add: rld_create_def)
  ultimately show ?thesis using w(1,2) appended_frame [OF w(3) st] by blast
qed

definition rlc_sink :: "nat \<times> uba \<Rightarrow> heap \<Rightarrow> rlc \<Rightarrow> u32 list \<Rightarrow> nat \<Rightarrow> bool" where
  "rlc_sink = (\<lambda>(rv, d0) h c zs n. rlc_inv h rv d0 c zs \<and> length zs + n < 2 ^ 29)"

interpretation rlc: id_sink rlc_push_back rlc_sink "\<lambda>(rv, d0). {rv}"
proof
  fix k :: "nat \<times> uba" and h c zs n m v
  obtain rv d0 where k: "k = (rv, d0)" by (cases k)
  show "\<exists>h' c'. rlc_push_back h c v = Inr (h', c') \<and> rlc_sink k h' c' (zs @ [v]) n \<and> others_kept (case k of (rv, d0) \<Rightarrow> {rv}) h h'"
    if "rlc_sink k h c zs (Suc n)"
    using that rlc_push_back_spec [of h rv d0 c zs v] k by (auto simp: rlc_sink_def)
  show "rlc_sink k h c zs m" if "rlc_sink k h c zs n" "m \<le> n" using that k by (simp add: rlc_sink_def)
qed

end
