(* ===== verification/ItemIndexRleOps.thy ===== *)
theory ItemIndexRleOps
  imports ItemIndexRleCreate
begin

text \<open>
  The set operations of the run length encoded index. The loop moves over whole runs where the other operand allows it; that it gives
  the ids of the merge of both operands is shown for every one of its rounds.
\<close>

section \<open>An operand in the loop\<close>

text \<open>The ids from the current one on; \<open>Rle\<close> counts those of the current run.\<close>

definition rls_left :: "heap \<Rightarrow> u32 \<Rightarrow> rls \<Rightarrow> u32 list \<Rightarrow> bool" where
  "rls_left h sz a xs \<longleftrightarrow> rls_it a \<le> sz \<and> unat (sz - rls_it a) = length xs \<and> length xs < 2 ^ 29 \<and>
     (xs \<noteq> [] \<longrightarrow> (\<exists>ws. reads h (rls_data a) (words_code ws) \<and> list_all word_ok ws \<and>
        xs = rls_id a # sums (rls_id a) (replicate (unat (rls_rle a) - 1) (rls_val a) @ words_deltas ws)))"

lemma rls_left_more: "rls_left h sz a xs \<Longrightarrow> rls_it a < sz \<longleftrightarrow> xs \<noteq> []"
  using unat_sub [of "rls_it a" sz]
  by (auto simp: rls_left_def word_less_nat_alt length_greater_0_conv [symmetric] simp del: length_greater_0_conv)

lemma rls_left_frame:
  assumes "rls_left h sz a xs" "storage h' (rls_data a) = storage h (rls_data a)"
  shows "rls_left h' sz a xs"
  using assms(1) reads_frame [OF assms(2)] by (simp add: rls_left_def)

lemma words_code_pos: "list_all word_ok ws \<Longrightarrow> ws \<noteq> [] \<Longrightarrow> 0 < length (words_code ws)"
  using length_vl_bytes_pos by (cases ws; cases "hd ws") auto

lemma reads_more: "reads h u bs \<Longrightarrow> m_getPtr u < m_len u \<longleftrightarrow> bs \<noteq> []"
proof -
  assume r: "reads h u bs"
  then have u: "uba_inv h u" "drop (unat (m_getPtr u)) (view h u) = bs" by (simp_all add: reads_def)
  have "length (drop (unat (m_getPtr u)) (view h u)) = unat (m_len u) - unat (m_getPtr u)" using u(1) by simp
  then have "length bs = unat (m_len u) - unat (m_getPtr u)" unfolding u(2) .
  then show ?thesis using r by (auto simp: reads_def word_less_nat_alt length_greater_0_conv [symmetric] simp del: length_greater_0_conv)
qed

lemma rls_getNext_spec:
  assumes "reads h (rls_data a) (words_code ws)" "list_all word_ok ws" "rls_rle a = 0"
  shows "\<exists>d r v ws'. (\<forall>i j. rls_getNext h (a\<lparr>rls_it := i, rls_id := j\<rparr>) =
      Inr (a\<lparr>rls_it := i, rls_id := j, rls_data := d, rls_rle := r, rls_val := v\<rparr>)) \<and> m_priv d = m_priv (rls_data a) \<and>
    (ws \<noteq> [] \<longrightarrow> reads h d (words_code ws') \<and> list_all word_ok ws' \<and> words_deltas ws = v # replicate (unat r - 1) v @ words_deltas ws')"
proof (cases ws)
  case Nil
  then have "\<not> m_getPtr (rls_data a) < m_len (rls_data a)" using reads_more [OF assms(1)] by simp
  then have "\<forall>i j. rls_getNext h (a\<lparr>rls_it := i, rls_id := j\<rparr>) = Inr (a\<lparr>rls_it := i, rls_id := j, rls_data := rls_data a, rls_rle := 0, rls_val := word_value 0\<rparr>)"
    using assms(3) by (simp add: rls_getNext_def is_run_def)
  then show ?thesis using Nil by blast
next
  case (Cons w ws')
  then have r: "reads h (rls_data a) (word_code w @ words_code ws')" "word_ok w" "list_all word_ok ws'" using assms(1,2) by simp_all
  have lt: "m_getPtr (rls_data a) < m_len (rls_data a)" using reads_more [OF assms(1)] words_code_pos [OF assms(2)] Cons by auto
  show ?thesis
  proof (cases w)
    case (Single d)
    with reads_word [OF r(1,2)] obtain v u where "stream_getVlPackedUint32 h (rls_data a) = Inr (v, u)" "\<not> is_run v" "word_value v = d"
        "reads h u (words_code ws')" "m_priv u = m_priv (rls_data a)" by auto
    then show ?thesis using lt Cons Single r(3) assms(3)
      by (intro exI [of _ u] exI [of _ 0] exI [of _ d] exI [of _ ws']) (simp add: rls_getNext_def)
  next
    case (Repeat n d)
    with reads_word [OF r(1,2)] obtain v u1 v' u where g: "stream_getVlPackedUint32 h (rls_data a) = Inr (v, u1)" "is_run v" "word_value v = n"
        "stream_getVlPackedUint32 h u1 = Inr (v', u)" "word_value v' = d" "reads h u (words_code ws')" "m_priv u = m_priv (rls_data a)" by auto
    have "unat n = Suc (unat n - 1)" using Repeat_length [of n d] r(2) Repeat by simp
    then have "replicate (unat n) d = d # replicate (unat n - 1) d" by (metis replicate_Suc)
    then show ?thesis using lt Cons Repeat r(3) g
      by (intro exI [of _ u] exI [of _ n] exI [of _ d] exI [of _ ws']) (simp add: rls_getNext_def)
  qed
qed

text \<open>To the first word, before the loop.\<close>

lemma rls_start_spec:
  assumes "rld_inv h x xs" "xs \<noteq> []"
  shows "\<exists>a. rls_start h (rld_data x) = Inr a \<and> rls_left h (rld_size x) a xs \<and> m_priv (rls_data a) = m_priv (rld_data x)"
proof -
  from assms(1) obtain ws where w: "rld_words h x ws" "xs = sums 0 (words_deltas ws)" by (auto simp: rld_inv_def)
  have sz: "unat (rld_size x) = length xs" "length xs < 2 ^ 29" using rld_size_ids [OF assms(1)] w by (simp_all add: rld_words_def)
  let ?d = "uba_resetGetPtr (rld_data x)"
  let ?a = "\<lparr>rls_data = ?d, rls_it = 0, rls_rle = 0, rls_id = 0, rls_val = 0\<rparr>"
  have "?d = rld_data x" using w(1) by (simp add: rld_words_def uba_resetGetPtr_def)
  then have r: "reads h (rls_data ?a) (words_code ws)" "list_all word_ok ws" using w(1) by (simp_all add: rld_words_def reads_def)
  obtain w1 vs where ws: "ws = w1 # vs" using w(2) assms(2) by (cases ws) auto
  then have r1: "reads h ?d (word_code w1 @ words_code vs)" "word_ok w1" "list_all word_ok vs" using r by simp_all
  show ?thesis
  proof (cases w1)
    case (Single d)
    with reads_word [OF r1(1,2)] obtain v u where "stream_getVlPackedUint32 h ?d = Inr (v, u)" "\<not> is_run v" "word_value v = d"
        "reads h u (words_code vs)" "m_priv u = m_priv ?d" by auto
    then show ?thesis using ws Single sz w(2) r1(3) by (auto simp: rls_start_def rls_left_def uba_resetGetPtr_def)
  next
    case (Repeat n d)
    with reads_word [OF r1(1,2)] obtain v u1 v' u where g: "stream_getVlPackedUint32 h ?d = Inr (v, u1)" "is_run v" "word_value v = n"
        "stream_getVlPackedUint32 h u1 = Inr (v', u)" "word_value v' = d" "reads h u (words_code vs)" "m_priv u = m_priv ?d" by auto
    have "unat n = Suc (unat n - 1)" using Repeat_length [of n d] r1(2) Repeat by simp
    then have "replicate (unat n) d = d # replicate (unat n - 1) d" by (metis replicate_Suc)
    then show ?thesis using ws Repeat sz w(2) r1(3) g by (auto simp: rls_start_def rls_left_def uba_resetGetPtr_def)
  qed
qed

lemma rls_it_add:
  assumes "rls_it a \<le> sz" "unat (sz - rls_it a) = m" "unat k \<le> m"
  shows "rls_it a + k \<le> sz" "unat (sz - (rls_it a + k)) = m - unat k"
proof -
  have s: "unat (rls_it a) + m = unat sz" using assms(1,2) by (simp add: unat_sub word_le_nat_alt)
  then have "unat (rls_it a + k) = unat (rls_it a) + unat k" using assms(3) unat_bound [of sz] by (subst unat_add_nowrap) simp_all
  then show "rls_it a + k \<le> sz" using s assms(3) by (simp add: word_le_nat_alt)
  then show "unat (sz - (rls_it a + k)) = m - unat k" using \<open>unat (rls_it a + k) = unat (rls_it a) + unat k\<close> s by (simp add: unat_sub)
qed

lemma sums_split: "sums p (replicate (m + n) d @ ds) = sums p (replicate m d) @ sums (p + of_nat m * d) (replicate n d @ ds)"
  using sums_append [of p "replicate m d" "replicate n d @ ds"] by (simp add: replicate_add last_sums_replicate del: last.simps)

text \<open>Over the first ids of a run.\<close>

lemma rls_skip_spec:
  assumes "rls_left h sz a xs" "xs \<noteq> []" "0 < k" "k \<le> rls_rle a" "rls_rle a \<noteq> 0"
  shows "\<exists>a' vs. rls_skip h a k = Inr a' \<and> xs = run_ids (rls_id a) (rls_val a) (unat k - 1) @ vs \<and> rls_left h sz a' vs \<and>
    m_priv (rls_data a') = m_priv (rls_data a)"
proof -
  from assms(1,2) obtain ws where w: "reads h (rls_data a) (words_code ws)" "list_all word_ok ws"
    "xs = rls_id a # sums (rls_id a) (replicate (unat (rls_rle a) - 1) (rls_val a) @ words_deltas ws)" by (auto simp: rls_left_def)
  let ?k = "unat k - 1" and ?v = "rls_val a" and ?r = "unat (rls_rle a)"
  have k: "0 < unat k" "unat k \<le> ?r" using assms(3,4) by (simp_all add: word_less_nat_alt word_le_nat_alt)
  define vs where "vs = sums (rls_id a + of_nat ?k * ?v) (replicate (?r - unat k) ?v @ words_deltas ws)"
  have "?r - 1 = ?k + (?r - unat k)" using k by simp
  then have xs: "xs = run_ids (rls_id a) ?v ?k @ vs" unfolding w(3) vs_def run_ids_def by (simp add: sums_split)
  have lx: "length xs = unat k + length vs" unfolding xs run_ids_def using k by simp
  have l: "unat (sz - rls_it a) = length xs" "rls_it a \<le> sz" "length xs < 2 ^ 29" using assms(1) by (simp_all add: rls_left_def)
  have "unat k \<le> length xs" using lx by simp
  note it = rls_it_add [OF l(2,1) this]
  let ?a = "a\<lparr>rls_rle := rls_rle a - k\<rparr>" and ?id = "rls_id a + ?v * (k - 1)"
  have "of_nat ?k = k - 1" using k(1) by (metis of_nat_unat ucast_id unat_gt_0 unat_minus_one)
  then have id: "rls_id a + of_nat ?k * ?v = ?id" by (simp add: mult.commute)
  have sub: "unat (rls_rle a - k) = ?r - unat k" using assms(4) by (rule unat_sub)
  show ?thesis
  proof (cases "rls_rle a - k = 0")
    case True
    then have e: "vs = sums ?id (words_deltas ws)" unfolding vs_def id using sub by simp
    from rls_getNext_spec [of h ?a ws] w(1,2) True obtain d r v ws' where
      n: "\<And>i j. rls_getNext h (?a\<lparr>rls_it := i, rls_id := j\<rparr>) = Inr (?a\<lparr>rls_it := i, rls_id := j, rls_data := d, rls_rle := r, rls_val := v\<rparr>)"
        "m_priv d = m_priv (rls_data a)"
        "ws \<noteq> [] \<Longrightarrow> reads h d (words_code ws') \<and> list_all word_ok ws' \<and> words_deltas ws = v # replicate (unat r - 1) v @ words_deltas ws'" by auto
    let ?b = "?a\<lparr>rls_it := rls_it a + k, rls_id := ?id + v, rls_data := d, rls_rle := r, rls_val := v\<rparr>"
    have "rls_skip h a k = Inr ?b" using True n(1) [where i = "rls_it a + k" and j = ?id] by (simp add: rls_skip_def Let_def)
    moreover have "ws \<noteq> []" if "vs \<noteq> []" using that e by auto
    then have "rls_left h sz ?b vs" using it lx l(3) n(3) e by (auto simp: rls_left_def)
    ultimately show ?thesis using xs n(2) by auto
  next
    case False
    let ?b = "a\<lparr>rls_rle := rls_rle a - k, rls_it := rls_it a + k, rls_id := ?id + ?v\<rparr>"
    have "?r - unat k \<noteq> 0" using False sub by (metis unat_eq_zero)
    then have "replicate (?r - unat k) ?v = ?v # replicate (unat (rls_rle a - k) - 1) ?v" unfolding sub by (cases "?r - unat k") simp_all
    then have "vs = (?id + ?v) # sums (?id + ?v) (replicate (unat (rls_rle a - k) - 1) ?v @ words_deltas ws)" unfolding vs_def id by simp
    then have "rls_left h sz ?b vs" using it lx l(3) w(1,2) by (auto simp: rls_left_def)
    moreover have "rls_skip h a k = Inr ?b" using False by (simp add: rls_skip_def Let_def)
    ultimately show ?thesis using xs by auto
  qed
qed

lemma rls_step_spec:
  assumes "rls_left h sz a (x # xs)"
  shows "\<exists>a'. rls_step h a = Inr a' \<and> rls_left h sz a' xs \<and> m_priv (rls_data a') = m_priv (rls_data a)"
proof (cases "rls_rle a = 0")
  case True
  from assms obtain ws where w: "reads h (rls_data a) (words_code ws)" "list_all word_ok ws" "xs = sums (rls_id a) (words_deltas ws)"
    using True by (auto simp: rls_left_def)
  have l: "unat (sz - rls_it a) = Suc (length xs)" "rls_it a \<le> sz" "length xs < 2 ^ 29" using assms by (simp_all add: rls_left_def)
  have it: "rls_it a + 1 \<le> sz" "unat (sz - (rls_it a + 1)) = length xs" using rls_it_add [OF l(2,1), of 1] by simp_all
  from rls_getNext_spec [OF w(1,2) True] obtain d r v ws' where
    n: "\<And>i j. rls_getNext h (a\<lparr>rls_it := i, rls_id := j\<rparr>) = Inr (a\<lparr>rls_it := i, rls_id := j, rls_data := d, rls_rle := r, rls_val := v\<rparr>)"
      "m_priv d = m_priv (rls_data a)"
      "ws \<noteq> [] \<Longrightarrow> reads h d (words_code ws') \<and> list_all word_ok ws' \<and> words_deltas ws = v # replicate (unat r - 1) v @ words_deltas ws'" by auto
  let ?b = "a\<lparr>rls_it := rls_it a + 1, rls_id := rls_id a + v, rls_data := d, rls_rle := r, rls_val := v\<rparr>"
  have "rls_step h a = Inr ?b" using True n(1) [where i = "rls_it a" and j = "rls_id a"] by (simp add: rls_step_def Let_def)
  moreover have "ws \<noteq> []" if "xs \<noteq> []" using that w(3) by auto
  then have "rls_left h sz ?b xs" using it l(3) n(3) w(3) by (auto simp: rls_left_def)
  ultimately show ?thesis using n(2) by auto
next
  case False
  then have r: "0 < (1 :: u32)" "1 \<le> rls_rle a" by (simp_all add: word_le_nat_alt Suc_le_eq unat_gt_0)
  from rls_skip_spec [OF assms _ r False] obtain a' vs where
    s: "rls_skip h a 1 = Inr a'" "x # xs = run_ids (rls_id a) (rls_val a) 0 @ vs" "rls_left h sz a' vs" "m_priv (rls_data a') = m_priv (rls_data a)" by auto
  have "rls_step h a = rls_skip h a 1"
  proof (cases "rls_rle a = 1")
    case True
    from assms obtain ws where w: "reads h (rls_data a) (words_code ws)" "list_all word_ok ws" by (auto simp: rls_left_def)
    from rls_getNext_spec [of h "a\<lparr>rls_rle := 0\<rparr>" ws] w obtain d r v where
      n: "\<And>i j. rls_getNext h (a\<lparr>rls_rle := 0\<rparr>\<lparr>rls_it := i, rls_id := j\<rparr>) =
        Inr (a\<lparr>rls_rle := 0\<rparr>\<lparr>rls_it := i, rls_id := j, rls_data := d, rls_rle := r, rls_val := v\<rparr>)" by auto
    show ?thesis using True n [where i = "rls_it a" and j = "rls_id a"] n [where i = "rls_it a + 1" and j = "rls_id a"] by (simp add: rls_step_def rls_skip_def Let_def)
  next
    case F: False
    then show ?thesis using False by (simp add: rls_step_def rls_skip_def Let_def)
  qed
  then show ?thesis using s by (auto simp: run_ids_def)
qed

section \<open>Moving over the smaller ids\<close>

lemma run_ids_less: "unat x + n * unat d < unat v \<Longrightarrow> u \<in> set (run_ids x d n) \<Longrightarrow> u < v"
proof (induction n arbitrary: x)
  case 0
  then show ?case by (simp add: run_ids_def word_less_nat_alt)
next
  case (Suc n)
  have e: "unat (x + d) = unat x + unat d" using Suc.prems(1) unat_bound [of v] by (subst unat_add_nowrap) simp_all
  have "unat (x + d) + n * unat d < unat v" using Suc.prems(1) e by simp
  from Suc.IH [OF this] show ?case using Suc.prems by (auto simp: run_ids_def word_less_nat_alt)
qed

lemma add_no_wrap: "x < x + d \<Longrightarrow> unat (x + d) = unat x + unat d" for x :: u32
proof (rule ccontr)
  assume lt: "x < x + d" and n: "unat (x + d) \<noteq> unat x + unat d"
  have m: "unat (x + d) = (unat x + unat d) mod 2 ^ 32" by (simp add: unat_word_ariths)
  then have "2 ^ 32 \<le> unat x + unat d" using n by (metis mod_less not_less)
  then have "(unat x + unat d) mod 2 ^ 32 = unat x + unat d - 2 ^ 32" using unat_bound [of x] unat_bound [of d]
    by (subst le_mod_geq) simp_all
  then show False using lt m unat_bound [of d] by (simp add: word_less_nat_alt)
qed

text \<open>The number of ids of a run that are smaller than \<open>v\<close>.\<close>

lemma fast_count:
  assumes "x < x + d" "x + d < v"
  defines "m \<equiv> (v - x) div d - (if (v - x) mod d > 0 then 0 else 1) + (1 :: u32)"
  shows "0 < unat m" "unat x + (unat m - 1) * unat d < unat v"
proof -
  have a: "unat (x + d) = unat x + unat d" using add_no_wrap [OF assms(1)] .
  have d: "0 < unat d" using assms(1) unfolding word_less_nat_alt a by simp
  have lt: "unat x + unat d < unat v" using assms(2) unfolding word_less_nat_alt a .
  let ?D = "unat v - unat x"
  have D: "unat (v - x) = ?D" using lt by (intro unat_sub) (simp add: word_le_nat_alt)
  have q: "unat ((v - x) div d) = ?D div unat d" "unat ((v - x) mod d) = ?D mod unat d" unfolding D [symmetric] by (simp_all add: unat_div_distrib unat_mod_distrib)
  have q1: "1 \<le> ?D div unat d" using lt d by (simp add: Suc_le_eq div_greater_zero_iff)
  have eq: "?D div unat d * unat d + ?D mod unat d = ?D" by simp
  show "0 < unat m" "unat x + (unat m - 1) * unat d < unat v"
  proof (atomize (full), cases "?D mod unat d = 0")
    case True
    then have "\<not> (v - x) mod d > 0" using q(2) by (simp add: word_less_nat_alt)
    then have m: "unat m = ?D div unat d" using q(1) by (simp add: m_def)
    have "(?D div unat d - 1) * unat d + unat d = ?D" using eq True q1 lt by (simp add: diff_mult_distrib)
    then show "0 < unat m \<and> unat x + (unat m - 1) * unat d < unat v" using m q1 d lt by simp
  next
    case False
    then have "(v - x) mod d > 0" using q(2) by (simp add: word_less_nat_alt)
    then have mm: "m = (v - x) div d + 1" by (simp add: m_def)
    have l2: "?D div unat d * unat d < ?D" using eq False by linarith
    moreover have "?D div unat d \<le> ?D div unat d * unat d" using d by simp
    ultimately have "?D div unat d + 1 \<le> unat v" by linarith
    then have "?D div unat d + 1 < 2 ^ 32" using unat_bound [of v] by simp
    then have "unat m = ?D div unat d + 1" using q(1) unfolding mm by (simp add: unat_add_nowrap)
    then show "0 < unat m \<and> unat x + (unat m - 1) * unat d < unat v" using l2 by simp
  qed
qed

lemma rlc_push_if:
  assumes "rlc_inv h rv d0 c zs" "length zs + 1 < 2 ^ 29"
  shows "\<exists>h' c'. (if p then rlc_push_back h c v else Inr (h, c)) = Inr (h', c') \<and> rlc_inv h' rv d0 c' (zs @ (if p then [v] else [])) \<and> others_kept {rv} h h'"
  using rlc_push_back_spec [OF assms, of v] assms(1) by (cases p) auto

lemma rlc_push_run_if:
  assumes "rlc_inv h rv d0 c zs" "length zs + unat k < 2 ^ 29" "0 < unat k"
  shows "\<exists>h' c'. (if p then rlc_push_rle h c v d (k - 1) else Inr (h, c)) = Inr (h', c') \<and>
    rlc_inv h' rv d0 c' (zs @ (if p then run_ids v d (unat k - 1) else [])) \<and> others_kept {rv} h h'"
proof -
  have k: "unat (k - 1) = unat k - 1" using assms(3) by (simp add: unat_gt_0 unat_minus_one)
  then have "length zs + 1 + unat (k - 1) < 2 ^ 29" using assms(2,3) by simp
  from rlc_push_rle_spec [OF assms(1) this, of v d] show ?thesis using assms(1) k by (cases p) auto
qed

lemma rls_smaller_spec:
  assumes a: "rls_left h sz a xs" "xs \<noteq> []" and i: "increasing xs" and lt: "rls_id a < v" and p: "m_priv (rls_data a) \<noteq> rv"
    and c: "rlc_inv h rv d0 c zs" "length zs + length xs < 2 ^ 29"
  shows "\<exists>h' c' a' us vs. rls_smaller push h c a v = Inr (h', c', a') \<and> xs = us @ vs \<and> us \<noteq> [] \<and> (\<forall>u \<in> set us. u < v) \<and> rls_left h' sz a' vs \<and>
    rlc_inv h' rv d0 c' (zs @ (if push then us else [])) \<and> others_kept {rv} h h' \<and> m_priv (rls_data a') = m_priv (rls_data a)"
proof -
  from a obtain ws where w: "xs = rls_id a # sums (rls_id a) (replicate (unat (rls_rle a) - 1) (rls_val a) @ words_deltas ws)" by (auto simp: rls_left_def)
  show ?thesis
  proof (cases "rls_rle a > 1 \<and> rls_id a + rls_val a < v")
    case True
    then have "1 < unat (rls_rle a)" by (simp add: word_less_nat_alt)
    then have "unat (rls_rle a) - 1 = Suc (unat (rls_rle a) - 2)" by simp
    then have "rls_id a < rls_id a + rls_val a" using i unfolding w by simp
    note f = fast_count [OF this] and n = this
    have v0: "rls_val a \<noteq> 0" using n by auto
    let ?m = "(v - rls_id a) div rls_val a - (if (v - rls_id a) mod rls_val a > 0 then 0 else 1) + 1"
    define k where "k = min ?m (rls_rle a)"
    have m: "0 < unat ?m" "unat (rls_id a) + (unat ?m - 1) * unat (rls_val a) < unat v" using f [of v] True by simp_all
    have k: "unat k = min (unat ?m) (unat (rls_rle a))" by (simp add: k_def min_def word_le_nat_alt)
    then have k0: "0 < unat k" "0 < k" "k \<le> rls_rle a" "rls_rle a \<noteq> 0" using m(1) True \<open>1 < unat (rls_rle a)\<close> by (auto simp: k_def word_less_nat_alt)
    have "(unat k - 1) * unat (rls_val a) \<le> (unat ?m - 1) * unat (rls_val a)" using k by (intro mult_right_mono) simp_all
    then have "unat (rls_id a) + (unat k - 1) * unat (rls_val a) < unat v" using m(2) by linarith
    then have less: "\<forall>u \<in> set (run_ids (rls_id a) (rls_val a) (unat k - 1)). u < v" using run_ids_less by blast
    from rls_skip_spec [OF a k0(2-4)] obtain a0 vs0 where "xs = run_ids (rls_id a) (rls_val a) (unat k - 1) @ vs0" by blast
    then have "unat k \<le> length xs" using k0(1) by (simp add: run_ids_def)
    then have "length zs + unat k < 2 ^ 29" using c(2) by simp
    from rlc_push_run_if [OF c(1) this k0(1), of push "rls_id a" "rls_val a"] obtain h1 c1 where
      1: "(if push then rlc_push_rle h c (rls_id a) (rls_val a) (k - 1) else Inr (h, c)) = Inr (h1, c1)"
        "rlc_inv h1 rv d0 c1 (zs @ (if push then run_ids (rls_id a) (rls_val a) (unat k - 1) else []))" "others_kept {rv} h h1" by blast
    have "rls_left h1 sz a xs" using rls_left_frame [OF a(1)] others_keptD [OF 1(3)] p by simp
    from rls_skip_spec [OF this a(2) k0(2-4)] obtain a' vs where
      2: "rls_skip h1 a k = Inr a'" "xs = run_ids (rls_id a) (rls_val a) (unat k - 1) @ vs" "rls_left h1 sz a' vs" "m_priv (rls_data a') = m_priv (rls_data a)" by blast
    have "rls_smaller push h c a v = Inr (h1, c1, a')"
      using True v0 1(1) 2(1) unfolding rls_smaller_def Let_def k_def [symmetric] by simp
    moreover have "run_ids (rls_id a) (rls_val a) (unat k - 1) \<noteq> []" by (simp add: run_ids_def)
    ultimately show ?thesis using 1(2,3) 2(2-4) less by blast
  next
    case False
    have l1: "length zs + 1 < 2 ^ 29" using c(2) w by simp
    from rlc_push_if [OF c(1) l1, of push "rls_id a"] obtain h1 c1 where
      1: "(if push then rlc_push_back h c (rls_id a) else Inr (h, c)) = Inr (h1, c1)" "rlc_inv h1 rv d0 c1 (zs @ (if push then [rls_id a] else []))"
        "others_kept {rv} h h1" by blast
    obtain vs where xs: "xs = rls_id a # vs" using w by blast
    have "rls_left h1 sz a xs" using rls_left_frame [OF a(1)] others_keptD [OF 1(3)] p by simp
    from rls_step_spec [OF this [unfolded xs]] obtain a' where
      2: "rls_step h1 a = Inr a'" "rls_left h1 sz a' vs" "m_priv (rls_data a') = m_priv (rls_data a)" by blast
    have "rls_smaller push h c a v = Inr (h1, c1, a')" using False 1(1) 2(1) unfolding rls_smaller_def by auto
    moreover have "xs = [rls_id a] @ vs" "\<forall>u \<in> set [rls_id a]. u < v" using xs lt by simp_all
    ultimately show ?thesis using 1(2,3) 2(2,3) by blast
  qed
qed

section \<open>The loop\<close>

lemma merge_op_less_first: "\<forall>u \<in> set us. u < y \<Longrightarrow> merge_op t (us @ xs) (y # ys) = (if pushFirstSmaller t then us else []) @ merge_op t xs (y # ys)"
  by (induction us) simp_all

lemma merge_op_less_second: "\<forall>u \<in> set us. u < x \<Longrightarrow> merge_op t (x # xs) (us @ ys) = (if pushSecondSmaller t then us else []) @ merge_op t (x # xs) ys"
  by (induction us) (simp_all add: less_not_sym)

lemma merge_op_equal: "merge_op t (us @ xs) (us @ ys) = (if pushEqual t then us else []) @ merge_op t xs ys"
  by (induction us) simp_all

text \<open>A round pushes the first ids of the merge.\<close>

definition op_state :: "u32 \<Rightarrow> u32 \<Rightarrow> heap \<Rightarrow> nat \<Rightarrow> uba \<Rightarrow> heap \<times> rlc \<times> rls \<times> rls \<Rightarrow> u32 list \<Rightarrow> u32 list \<Rightarrow> u32 list \<Rightarrow> bool" where
  "op_state sa sb h0 rv d0 = (\<lambda>(h, c, a, b) xs ys zs.
     rls_left h sa a xs \<and> rls_left h sb b ys \<and> increasing xs \<and> increasing ys \<and> rlc_inv h rv d0 c zs \<and>
     length zs + length xs + length ys < 2 ^ 29 \<and> others_kept {rv} h0 h \<and> m_priv (rls_data a) \<noteq> rv \<and> m_priv (rls_data b) \<noteq> rv \<and>
     isContiguous (storage h (rls_data a)) \<and> isContiguous (storage h (rls_data b)))"

lemma op_stateI:
  assumes "op_state sa sb h0 rv d0 (h, c, a, b) (us @ xs) (vs @ ys) zs" "others_kept {rv} h h'"
    and "rls_left h' sa a' xs" "rls_left h' sb b' ys" "rlc_inv h' rv d0 c' (zs @ ws)" "length ws \<le> length us + length vs"
    and "m_priv (rls_data a') = m_priv (rls_data a)" "m_priv (rls_data b') = m_priv (rls_data b)"
  shows "op_state sa sb h0 rv d0 (h', c', a', b') xs ys (zs @ ws)"
proof -
  have "storage h' (rls_data a') = storage h (rls_data a)" "storage h' (rls_data b') = storage h (rls_data b)"
    using others_keptD [OF assms(2), of "rls_data a"] others_keptD [OF assms(2), of "rls_data b"] assms(1,7,8)
    by (simp_all add: op_state_def storage_def)
  moreover have "others_kept {rv} h0 h'" using assms(1,2) others_kept_same by (auto simp: op_state_def)
  ultimately show ?thesis using assms by (auto simp: op_state_def sorted_wrt_append)
qed

lemma rld_op_round_spec:
  assumes s: "op_state sa sb h0 rv d0 s xs ys zs" and ne: "xs \<noteq> []" "ys \<noteq> []"
  shows "\<exists>s' xs' ys' us. rld_op_round t s = Inr s' \<and> op_state sa sb h0 rv d0 s' xs' ys' (zs @ us) \<and>
    merge_op t xs ys = us @ merge_op t xs' ys' \<and> length xs' + length ys' < length xs + length ys"
proof -
  obtain h c a b where st: "s = (h, c, a, b)" by (cases s)
  have i: "rls_left h sa a xs" "rls_left h sb b ys" "increasing xs" "increasing ys" "rlc_inv h rv d0 c zs" "length zs + length xs + length ys < 2 ^ 29"
    "m_priv (rls_data a) \<noteq> rv" "m_priv (rls_data b) \<noteq> rv" using s st by (simp_all add: op_state_def)
  obtain xs0 where xs: "xs = rls_id a # xs0" using i(1) ne(1) by (auto simp: rls_left_def)
  obtain ys0 where ys: "ys = rls_id b # ys0" using i(2) ne(2) by (auto simp: rls_left_def)
  consider (less) "rls_id a < rls_id b" | (greater) "rls_id b < rls_id a" | (equal) "rls_id a = rls_id b" by (rule linorder_cases)
  then show ?thesis
  proof cases
    case less
    have "length zs + length xs < 2 ^ 29" using i(6) by simp
    from rls_smaller_spec [OF i(1) ne(1) i(3) less i(7,5) this, of "pushFirstSmaller t"] obtain h' c' a' us vs where
      1: "rls_smaller (pushFirstSmaller t) h c a (rls_id b) = Inr (h', c', a')" "xs = us @ vs" "us \<noteq> []" "\<forall>u \<in> set us. u < rls_id b"
        "rls_left h' sa a' vs" "rlc_inv h' rv d0 c' (zs @ (if pushFirstSmaller t then us else []))" "others_kept {rv} h h'"
        "m_priv (rls_data a') = m_priv (rls_data a)" by (elim exE conjE) (rule that)
    have "rls_left h' sb b ys" using rls_left_frame [OF i(2)] others_keptD [OF 1(7)] i(8) by simp
    then have "op_state sa sb h0 rv d0 (h', c', a', b) vs ys (zs @ (if pushFirstSmaller t then us else []))"
      using op_stateI [of sa sb h0 rv d0 h c a b us vs "[]" ys] s st 1 by simp
    moreover have "merge_op t xs ys = (if pushFirstSmaller t then us else []) @ merge_op t vs ys" unfolding 1(2) ys by (rule merge_op_less_first [OF 1(4)])
    moreover have "rld_op_round t s = Inr (h', c', a', b)" using less 1(1) st by (simp add: rld_op_round_def)
    moreover have "length vs + length ys < length xs + length ys" using 1(2,3) by simp
    ultimately show ?thesis by blast
  next
    case greater
    have "length zs + length ys < 2 ^ 29" using i(6) by simp
    from rls_smaller_spec [OF i(2) ne(2) i(4) greater i(8,5) this, of "pushSecondSmaller t"] obtain h' c' b' us vs where
      1: "rls_smaller (pushSecondSmaller t) h c b (rls_id a) = Inr (h', c', b')" "ys = us @ vs" "us \<noteq> []" "\<forall>u \<in> set us. u < rls_id a"
        "rls_left h' sb b' vs" "rlc_inv h' rv d0 c' (zs @ (if pushSecondSmaller t then us else []))" "others_kept {rv} h h'"
        "m_priv (rls_data b') = m_priv (rls_data b)" by (elim exE conjE) (rule that)
    have "rls_left h' sa a xs" using rls_left_frame [OF i(1)] others_keptD [OF 1(7)] i(7) by simp
    then have "op_state sa sb h0 rv d0 (h', c', a, b') xs vs (zs @ (if pushSecondSmaller t then us else []))"
      using op_stateI [of sa sb h0 rv d0 h c a b "[]" xs us vs] s st 1 by simp
    moreover have "merge_op t xs ys = (if pushSecondSmaller t then us else []) @ merge_op t xs vs" unfolding 1(2) xs by (rule merge_op_less_second [OF 1(4)])
    moreover have "rld_op_round t s = Inr (h', c', a, b')" using greater 1(1) st by (simp add: rld_op_round_def less_not_sym)
    moreover have "length xs + length vs < length xs + length ys" using 1(2,3) by simp
    ultimately show ?thesis by blast
  next
    case equal
    have "\<exists>h' c' a' b' us vs ws. rld_op_round t s = Inr (h', c', a', b') \<and> xs = us @ vs \<and> ys = us @ ws \<and> us \<noteq> [] \<and> rls_left h' sa a' vs \<and>
      rls_left h' sb b' ws \<and> rlc_inv h' rv d0 c' (zs @ (if pushEqual t then us else [])) \<and> others_kept {rv} h h' \<and>
      m_priv (rls_data a') = m_priv (rls_data a) \<and> m_priv (rls_data b') = m_priv (rls_data b)"
    proof (cases "rls_rle a > 2 \<and> rls_rle b > 2 \<and> rls_val a = rls_val b")
      case True
      define k where "k = min (rls_rle a) (rls_rle b)"
      have "(0 :: u32) < 2" by simp
      then have "0 < rls_rle a" "0 < rls_rle b" using True by (meson order.strict_trans)+
      then have k: "0 < k" "k \<le> rls_rle a" "rls_rle a \<noteq> 0" "k \<le> rls_rle b" "rls_rle b \<noteq> 0" by (auto simp: k_def)
      then have k0: "0 < unat k" by (simp add: word_less_nat_alt)
      let ?us = "run_ids (rls_id a) (rls_val a) (unat k - 1)"
      from rls_skip_spec [OF i(1) ne(1) k(1-3)] obtain vs0 where "xs = ?us @ vs0" by blast
      then have "unat k \<le> length xs" using k0 by (simp add: run_ids_def)
      then have "length zs + unat k < 2 ^ 29" using i(6) by simp
      from rlc_push_run_if [OF i(5) this k0, of "pushEqual t" "rls_id a" "rls_val a"] obtain h1 c1 where
        1: "(if pushEqual t then rlc_push_rle h c (rls_id a) (rls_val a) (k - 1) else Inr (h, c)) = Inr (h1, c1)"
          "rlc_inv h1 rv d0 c1 (zs @ (if pushEqual t then ?us else []))" "others_kept {rv} h h1" by blast
      have l: "rls_left h1 sa a xs" "rls_left h1 sb b ys" using rls_left_frame [OF i(1)] rls_left_frame [OF i(2)] others_keptD [OF 1(3)] i(7,8) by simp_all
      from rls_skip_spec [OF l(1) ne(1) k(1-3)] obtain a' vs where
        2: "rls_skip h1 a k = Inr a'" "xs = ?us @ vs" "rls_left h1 sa a' vs" "m_priv (rls_data a') = m_priv (rls_data a)" by blast
      from rls_skip_spec [OF l(2) ne(2) k(1,4,5)] obtain b' ws where
        3: "rls_skip h1 b k = Inr b'" "ys = ?us @ ws" "rls_left h1 sb b' ws" "m_priv (rls_data b') = m_priv (rls_data b)" using equal True by auto
      have "rld_op_round t s = Inr (h1, c1, a', b')"
        using equal True 1(1) 2(1) 3(1) unfolding st rld_op_round_def k_def by (simp add: Let_def)
      moreover have "?us \<noteq> []" by (simp add: run_ids_def)
      ultimately show ?thesis using 1(2,3) 2(2-4) 3(2-4) by blast
    next
      case False
      have "length zs + 1 < 2 ^ 29" using i(6) xs ys by simp
      from rlc_push_if [OF i(5) this, of "pushEqual t" "rls_id a"] obtain h1 c1 where
        1: "(if pushEqual t then rlc_push_back h c (rls_id a) else Inr (h, c)) = Inr (h1, c1)"
          "rlc_inv h1 rv d0 c1 (zs @ (if pushEqual t then [rls_id a] else []))" "others_kept {rv} h h1" by blast
      have l: "rls_left h1 sa a xs" "rls_left h1 sb b ys" using rls_left_frame [OF i(1)] rls_left_frame [OF i(2)] others_keptD [OF 1(3)] i(7,8) by simp_all
      from rls_step_spec [OF l(1) [unfolded xs]] obtain a' where 2: "rls_step h1 a = Inr a'" "rls_left h1 sa a' xs0" "m_priv (rls_data a') = m_priv (rls_data a)" by blast
      from rls_step_spec [OF l(2) [unfolded ys]] obtain b' where 3: "rls_step h1 b = Inr b'" "rls_left h1 sb b' ys0" "m_priv (rls_data b') = m_priv (rls_data b)" by blast
      have "rld_op_round t s = Inr (h1, c1, a', b')" using equal False 1(1) 2(1) 3(1) unfolding st rld_op_round_def by auto
      moreover have "xs = [rls_id a] @ xs0" "ys = [rls_id a] @ ys0" using xs ys equal by simp_all
      ultimately show ?thesis using 1(2,3) 2(2,3) 3(2,3) by blast
    qed
    then obtain h' c' a' b' us vs ws where
      1: "rld_op_round t s = Inr (h', c', a', b')" "xs = us @ vs" "ys = us @ ws" "us \<noteq> []" "rls_left h' sa a' vs"
        "rls_left h' sb b' ws" "rlc_inv h' rv d0 c' (zs @ (if pushEqual t then us else []))" "others_kept {rv} h h'"
        "m_priv (rls_data a') = m_priv (rls_data a)" "m_priv (rls_data b') = m_priv (rls_data b)" by (elim exE conjE) (rule that)
    have "op_state sa sb h0 rv d0 (h', c', a', b') vs ws (zs @ (if pushEqual t then us else []))"
      using op_stateI [of sa sb h0 rv d0 h c a b us vs us ws zs h' a' b' c' "if pushEqual t then us else []"] s st 1 by simp
    moreover have "merge_op t xs ys = (if pushEqual t then us else []) @ merge_op t vs ws" unfolding 1(2,3) by (rule merge_op_equal)
    moreover have "length vs + length ws < length xs + length ys" using 1(2-4) by simp
    ultimately show ?thesis using 1(1) by blast
  qed
qed

lemma rld_op_loop_spec:
  assumes "op_state sa sb h0 rv d0 s xs ys zs"
  shows "\<exists>s' xs' ys' zs'. rld_op_loop t sa sb s = Inr s' \<and> op_state sa sb h0 rv d0 s' xs' ys' zs' \<and>
    zs' @ merge_op t xs' ys' = zs @ merge_op t xs ys \<and> (xs' = [] \<or> ys' = [])"
proof -
  let ?c = "\<lambda>(h :: heap, c :: rlc, a, b). rls_it a < sa \<and> rls_it b < sb"
  let ?m = "\<lambda>(h :: heap, c :: rlc, a, b). unat (sa - rls_it a) + unat (sb - rls_it b)"
  let ?I = "\<lambda>s. \<exists>xs' ys' zs'. op_state sa sb h0 rv d0 s xs' ys' zs' \<and> zs' @ merge_op t xs' ys' = zs @ merge_op t xs ys"
  have m: "?m u = length vs + length ws" "?c u \<longleftrightarrow> vs \<noteq> [] \<and> ws \<noteq> []" if "op_state sa sb h0 rv d0 u vs ws zs'" for u vs ws zs'
  proof -
    obtain h c a b where u: "u = (h, c, a, b)" by (cases u)
    have l: "rls_left h sa a vs" "rls_left h sb b ws" using that u by (simp_all add: op_state_def)
    then show "?m u = length vs + length ws" using u by (simp add: rls_left_def)
    show "?c u \<longleftrightarrow> vs \<noteq> [] \<and> ws \<noteq> []" using rls_left_more [OF l(1)] rls_left_more [OF l(2)] u by simp
  qed
  have step: "\<exists>u'. rld_op_round t u = Inr u' \<and> ?I u' \<and> ?m u' < ?m u" if i: "?I u" and c: "?c u" for u
  proof -
    from i obtain vs ws zs' where o: "op_state sa sb h0 rv d0 u vs ws zs'" "zs' @ merge_op t vs ws = zs @ merge_op t xs ys" by blast
    then have "vs \<noteq> []" "ws \<noteq> []" using m(2) [OF o(1)] c by simp_all
    from rld_op_round_spec [OF o(1) this, of t] obtain u' vs' ws' us where
      r: "rld_op_round t u = Inr u'" "op_state sa sb h0 rv d0 u' vs' ws' (zs' @ us)" "merge_op t vs ws = us @ merge_op t vs' ws'"
        "length vs' + length ws' < length vs + length ws" by blast
    have "(zs' @ us) @ merge_op t vs' ws' = zs @ merge_op t xs ys" using o(2) r(3) by simp
    moreover have "?m u' < ?m u" using r(4) m(1) [OF o(1)] m(1) [OF r(2)] by simp
    ultimately show ?thesis using r(1,2) by blast
  qed
  have "?I s" using assms by blast
  from while_res_rule [where I = ?I and c = ?c and m = ?m, OF this step] obtain s' where
    s': "while_res ?c (rld_op_round t) s = Inr s'" "?I s'" "\<not> ?c s'" by blast
  from s'(2) obtain vs ws zs' where o: "op_state sa sb h0 rv d0 s' vs ws zs'" "zs' @ merge_op t vs ws = zs @ merge_op t xs ys" by blast
  then have "vs = [] \<or> ws = []" using m(2) [OF o(1)] s'(3) by simp
  then show ?thesis using s'(1) o unfolding rld_op_loop_def by blast
qed

section \<open>The remainder\<close>

lemma rlc_flushed_later:
  assumes "rlc_flushed h1 rv d0 h' c zs" "others_kept {rv} h h1" "m_priv d0 \<noteq> rv"
  shows "rlc_flushed h rv d0 h' c zs"
proof -
  have st: "storage h1 d0 = storage h d0" using others_keptD [OF assms(2)] assms(3) by simp
  have "others_kept {rv, m_priv d0} h h'" using assms(1) others_kept_trans [OF assms(2), of "{rv, m_priv d0}" h'] by (simp add: rlc_flushed_def insert_commute)
  then show ?thesis using assms(1) st appended_frame [OF _ st] by (auto simp: rlc_flushed_def)
qed

lemma last_run_ids: "last (0 # (zs @ run_ids x d n)) = last (x # sums x (replicate n d))"
  by (simp add: run_ids_def)

text \<open>When the ids of the current run are pushed, the data behind them is appended as it is.\<close>

lemma rls_rest_flushed:
  assumes l: "rls_left h sz a xs" "xs \<noteq> []" and b: "length zs + length xs < 2 ^ 29"
    and p: "m_priv d0 \<noteq> rv" "m_priv (rls_data a) \<noteq> rv" "isContiguous (storage h (rls_data a))"
    and room: "pushable h d0 (10 + 5 * (length zs + length xs))"
    and k: "unat k = Suc (unat (rls_rle a) - 1)"
    and c: "rlc_inv h1 rv d0 c1 (zs @ run_ids (rls_id a) (rls_val a) (unat (rls_rle a) - 1))" "others_kept {rv} h h1"
  shows "\<exists>h' c'. rlc_flushWithData h1 c1 (uba_shrinkToGetPtr (rls_data a)) (sz - (rls_it a + k)) = Inr (h', c') \<and>
    rlc_flushed h rv d0 h' c' (zs @ xs)"
proof -
  from l obtain ws where w: "reads h (rls_data a) (words_code ws)" "list_all word_ok ws"
    "xs = rls_id a # sums (rls_id a) (replicate (unat (rls_rle a) - 1) (rls_val a) @ words_deltas ws)" by (auto simp: rls_left_def)
  have n: "unat (sz - rls_it a) = length xs" "rls_it a \<le> sz" using l(1) by (simp_all add: rls_left_def)
  let ?run = "run_ids (rls_id a) (rls_val a) (unat (rls_rle a) - 1)" and ?s = "uba_shrinkToGetPtr (rls_data a)"
  have xs: "xs = ?run @ sums (last (0 # (zs @ ?run))) (words_deltas ws)" unfolding w(3) last_run_ids by (simp add: run_ids_def sums_append del: last.simps)
  have lr: "length (zs @ ?run) = length zs + unat k" using k by (simp add: run_ids_def)
  have lx: "length xs = unat k + length (words_deltas ws)" using arg_cong [OF xs, of length] k by (simp add: run_ids_def)
  have r: "uba_inv h (rls_data a)" "unat (m_getPtr (rls_data a)) \<le> unat (m_len (rls_data a))" using w(1) by (simp_all add: reads_def)
  note sh = shrinkToGetPtr_spec [OF r]
  have ps: "m_priv ?s \<noteq> rv" using sh(3) p(2) by simp
  have st: "storage h1 ?s = storage h ?s" "storage h1 d0 = storage h d0" using others_keptD [OF c(2)] ps p(1) by simp_all
  have s: "uba_inv h1 ?s" "view h1 ?s = words_code ws" using sh view_frame [OF st(1)] w(1) by (simp_all add: reads_def)
  have "storage h ?s = storage h (rls_data a)" using sh(3) by (simp add: storage_def)
  then have co: "isContiguous (storage h1 ?s)" using st(1) p(3) by simp
  have "unat k \<le> length xs" using lx by simp
  from rls_it_add(2) [OF n(2,1) this] have m: "unat (sz - (rls_it a + k)) = length (words_deltas ws)" using lx by simp
  have b1: "length (zs @ ?run) + length (words_deltas ws) < 2 ^ 29" unfolding lr using b lx by simp
  have "pushable h1 d0 (10 + 5 * (length (zs @ ?run) + length (words_deltas ws)))" unfolding lr pushable_frame [OF st(2)] using room lx by (simp add: add.assoc)
  from rlc_flushWithData_spec [OF c(1) p(1) w(2) b1 this s m ps co] obtain h' c' where
    2: "rlc_flushWithData h1 c1 ?s (sz - (rls_it a + k)) = Inr (h', c')"
      "rlc_flushed h1 rv d0 h' c' ((zs @ ?run) @ sums (last (0 # (zs @ ?run))) (words_deltas ws))" by blast
  have "(zs @ ?run) @ sums (last (0 # (zs @ ?run))) (words_deltas ws) = zs @ xs" unfolding append_assoc xs [symmetric] ..
  then have "rlc_flushed h rv d0 h' c' (zs @ xs)" using rlc_flushed_later [OF 2(2) c(2) p(1)] by simp
  then show ?thesis using 2(1) by blast
qed

lemma rls_remainder_spec:
  assumes l: "rls_left h sz a xs" "xs \<noteq> []" and c: "rlc_inv h rv d0 c zs" "length zs + length xs < 2 ^ 29"
    and p: "m_priv d0 \<noteq> rv" "m_priv (rls_data a) \<noteq> rv" "isContiguous (storage h (rls_data a))"
    and room: "pushable h d0 (10 + 5 * (length zs + length xs))"
  shows "\<exists>h' c'. rls_remainder h c a sz = Inr (h', c') \<and> rlc_flushed h rv d0 h' c' (zs @ xs)"
proof -
  from l obtain ws where "xs = rls_id a # sums (rls_id a) (replicate (unat (rls_rle a) - 1) (rls_val a) @ words_deltas ws)" by (auto simp: rls_left_def)
  from arg_cong [OF this, of length] have "length xs = Suc (unat (rls_rle a) - 1) + length (words_deltas ws)" by simp
  then have lx: "Suc (unat (rls_rle a) - 1) \<le> length xs" by simp
  let ?run = "run_ids (rls_id a) (rls_val a) (unat (rls_rle a) - 1)"
  have "\<exists>h1 c1 k. (if rls_rle a \<noteq> 0
            then bindE (rlc_push_rle h c (rls_id a) (rls_val a) (rls_rle a - 1)) (\<lambda>(h, c). Inr (h, c, rls_it a + rls_rle a))
            else bindE (rlc_push_back h c (rls_id a)) (\<lambda>(h, c). Inr (h, c, rls_it a + 1))) = Inr (h1, c1, rls_it a + k) \<and>
      unat k = Suc (unat (rls_rle a) - 1) \<and> rlc_inv h1 rv d0 c1 (zs @ ?run) \<and> others_kept {rv} h h1"
  proof (cases "rls_rle a = 0")
    case True
    then have "length zs + 1 < 2 ^ 29" using c(2) lx by simp
    from rlc_push_back_spec [OF c(1) this, of "rls_id a"] show ?thesis using True by (auto simp: run_ids_def intro!: exI [of _ 1])
  next
    case False
    then have r: "0 < unat (rls_rle a)" by (simp add: unat_gt_0)
    then have "length zs + unat (rls_rle a) < 2 ^ 29" using c(2) lx by simp
    from rlc_push_run_if [OF c(1) this r, of True "rls_id a" "rls_val a"] show ?thesis using False r by (auto intro!: exI [of _ "rls_rle a"])
  qed
  then obtain h1 c1 k where 1: "(if rls_rle a \<noteq> 0
            then bindE (rlc_push_rle h c (rls_id a) (rls_val a) (rls_rle a - 1)) (\<lambda>(h, c). Inr (h, c, rls_it a + rls_rle a))
            else bindE (rlc_push_back h c (rls_id a)) (\<lambda>(h, c). Inr (h, c, rls_it a + 1))) = Inr (h1, c1, rls_it a + k)"
      "unat k = Suc (unat (rls_rle a) - 1)" "rlc_inv h1 rv d0 c1 (zs @ ?run)" "others_kept {rv} h h1" by (elim exE conjE) (rule that)
  show ?thesis unfolding rls_remainder_def 1(1) using rls_rest_flushed [OF l c(2) p room 1(2-4)] by simp
qed

lemma rld_op_rest_spec:
  assumes s: "op_state sa sb h0 rv d0 s xs ys zs" and e: "xs = [] \<or> ys = []" and p: "m_priv d0 \<noteq> rv"
    and room: "pushable h0 d0 (10 + 5 * (length zs + length xs + length ys))"
  shows "\<exists>h' c'. rld_op_rest t sa sb s = Inr (h', c') \<and> rlc_flushed h0 rv d0 h' c' (zs @ merge_op t xs ys)"
proof -
  obtain h c a b where st: "s = (h, c, a, b)" by (cases s)
  have i: "rls_left h sa a xs" "rls_left h sb b ys" "rlc_inv h rv d0 c zs" "length zs + length xs + length ys < 2 ^ 29" "others_kept {rv} h0 h"
    "m_priv (rls_data a) \<noteq> rv" "m_priv (rls_data b) \<noteq> rv" "isContiguous (storage h (rls_data a))" "isContiguous (storage h (rls_data b))"
    using s st by (simp_all add: op_state_def)
  note more = rls_left_more [OF i(1)] rls_left_more [OF i(2)]
  have sd: "storage h d0 = storage h0 d0" using others_keptD [OF i(5)] p by simp
  have room1: "pushable h d0 (10 + 5 * (length zs + length xs))" "pushable h d0 (10 + 5 * (length zs + length ys))" "pushable h d0 (10 + 5 * length zs)"
    unfolding pushable_frame [OF sd] by (rule pushable_less [OF room]; simp)+
  have m: "merge_op t xs ys = (if pushFirstRemainder t then xs else []) @ (if pushSecondRemainder t then ys else [])"
    using e by (cases xs; cases ys) auto
  have "\<exists>h' c'. rld_op_rest t sa sb s = Inr (h', c') \<and> rlc_flushed h rv d0 h' c' (zs @ merge_op t xs ys)"
  proof -
    consider "pushFirstRemainder t" "xs \<noteq> []" | "\<not> (pushFirstRemainder t \<and> xs \<noteq> [])" "pushSecondRemainder t" "ys \<noteq> []"
      | "\<not> (pushFirstRemainder t \<and> xs \<noteq> [])" "\<not> (pushSecondRemainder t \<and> ys \<noteq> [])" by blast
    then show ?thesis
    proof cases
      case 1
      have "length zs + length xs < 2 ^ 29" using i(4) by simp
      from rls_remainder_spec [OF i(1) 1(2) i(3) this p i(6,8) room1(1)] show ?thesis
        using 1 e more unfolding m st rld_op_rest_def by auto
    next
      case 2
      have "length zs + length ys < 2 ^ 29" using i(4) by simp
      from rls_remainder_spec [OF i(2) 2(3) i(3) this p i(7,9) room1(2)] show ?thesis
        using 2 e more unfolding m st rld_op_rest_def by auto
    next
      case 3
      from rlc_flush_spec [OF i(3) p room1(3)] show ?thesis using 3 e more unfolding m st rld_op_rest_def by auto
    qed
  qed
  then show ?thesis using rlc_flushed_later [OF _ i(5) p] by blast
qed

section \<open>The operations as a whole\<close>

lemma createCache_kind:
  assumes "createCache h r n = Inr (h0, d)"
  shows "m_priv d = r" "m_putPtr d = 0" "kind (storage h0 d) = VectorB" "others_kept {r} h h0"
  using assms by (auto simp: createCache_def Let_def storage_def uba_of_priv_def others_kept_def split: if_splits)

text \<open>The index at the begin of a new storage.\<close>

lemma flushed_index:
  assumes "createCache h r n = Inr (h0, d)" "rlc_new h0 rv d = (h1, c0)" "rlc_flushed h1 rv d h2 c zs" "length zs < 2 ^ 29" "rv \<noteq> r" "uba_inv h1 d"
  shows "\<exists>x. rld_new h2 (uba_resetPtrs (rlc_dest c)) = Inr (h2, x) \<and> rld_inv h2 x (trunc31 zs) \<and> m_priv (rld_data x) = r \<and>
    isContiguous (storage h2 (rld_data x)) \<and> others_kept {r, rv} h h2"
proof -
  note d = createCache_kind [OF assms(1)]
  from assms(3) obtain ws where f: "kind (storage h2 (rlc_dest c)) = kind (storage h1 d)" "others_kept {rv, r} h1 h2" "list_all word_ok ws"
    "words_deltas ws = gaps31 zs" "appended h1 d (rl_file ws) h2 (rlc_dest c)" using d(1) by (auto simp: rlc_flushed_def)
  have k1: "others_kept {rv} h0 h1" using rlc_new_inv [OF assms(2)] by blast
  have kd: "kind (storage h1 d) = VectorB" using others_keptD [OF k1, of d] d(1,3) assms(5) by auto
  let ?u = "uba_resetPtrs (rlc_dest c)"
  have u: "uba_inv h2 ?u" "m_priv ?u = r" "view h2 ?u = view h2 (rlc_dest c)"
    using f(5) d(1) by (simp_all add: appended_def uba_resetPtrs_def uba_resetPutPtr_def uba_resetGetPtr_def)
  have "view h2 (rlc_dest c) = rl_file ws @ drop (length (rl_file ws)) (view h1 d)" using f(5) d(2) by (simp add: appended_def blit_def)
  with u(3) have v: "view h2 ?u = rl_file ws @ drop (length (rl_file ws)) (view h1 d)" by simp
  from rld_new_spec [OF u(1) v f(3)] f(4) assms(4) u(2) obtain x where
    x: "rld_new h2 ?u = Inr (h2, x)" "rld_inv h2 x (trunc31 zs)" "m_priv (rld_data x) = r" by (auto simp: trunc31_def)
  have "m_priv (rlc_dest c) = r" using f(5) d(1) by (simp add: appended_def)
  then have "storage h2 (rld_data x) = storage h2 (rlc_dest c)" using x(3) by (simp add: storage_def)
  then have "isContiguous (storage h2 (rld_data x))" using f(1) kd by (simp add: isContiguous_def)
  moreover have "others_kept {r, rv} h h2"
    using others_kept_trans [OF d(4) others_kept_trans [OF k1 f(2)]] by (simp add: insert_commute)
  ultimately show ?thesis using x by blast
qed

text \<open>The statements before the loop: a new storage, the creator and the first word of each operand.\<close>

lemma rld_op_start:
  assumes "rld_inv h x xs" "rld_inv h y ys" "xs \<noteq> []" "ys \<noteq> []" "increasing xs" "increasing ys" "length xs + length ys < 2 ^ 29"
    and "isContiguous (storage h (rld_data x))" "isContiguous (storage h (rld_data y))"
    and fresh: "r \<notin> {m_priv (rld_data x), m_priv (rld_data y)}" "rv \<notin> {m_priv (rld_data x), m_priv (rld_data y)}" "rv \<noteq> r"
  defines "d \<equiv> uba_of_priv r 0 8"
  shows "\<exists>h0 h1 c a b. createCache h r 8 = Inr (h0, d) \<and> rlc_new h0 rv d = (h1, c) \<and> rls_start h1 (rld_data x) = Inr a \<and>
    rls_start h1 (rld_data y) = Inr b \<and> op_state (rld_size x) (rld_size y) h1 rv d (h1, c, a, b) xs ys [] \<and>
    pushable h1 d (10 + 5 * 2 ^ 29) \<and> uba_inv h1 d \<and> others_kept {r, rv} h h1"
proof -
  have "unat (8 :: u64) \<le> max_size" by (simp add: max_size_def)
  from createCache_spec [OF this, of h r] obtain h0 where
    0: "createCache h r 8 = Inr (h0, d)" "uba_inv h0 d" "growable h0 d" by (auto simp: d_def)
  note d = createCache_kind [OF 0(1)]
  obtain h1 c where n: "rlc_new h0 rv d = (h1, c)" by (cases "rlc_new h0 rv d")
  have i: "rlc_inv h1 rv d c []" "others_kept {rv} h0 h1" using rlc_new_inv [OF n] by simp_all
  have pd: "m_priv d \<noteq> rv" using d(1) fresh(3) by simp
  have sd: "storage h1 d = storage h0 d" using others_keptD [OF i(2)] pd by simp
  have inv1: "uba_inv h1 d" using view_frame(2) [OF sd] 0(2) by simp
  have room: "pushable h1 d (10 + 5 * 2 ^ 29)"
    using inv1 0(3) sd by (simp add: pushable_def growable_def d_def uba_of_priv_def max_size_def)
  have k: "others_kept {r, rv} h h1" using others_kept_trans [OF d(4) i(2)] by (simp add: insert_commute)
  have st: "storage h1 (rld_data x) = storage h (rld_data x)" "storage h1 (rld_data y) = storage h (rld_data y)"
    using others_keptD [OF k, of "rld_data x"] others_keptD [OF k, of "rld_data y"] fresh by auto
  from rls_start_spec [OF rld_inv_frame [OF assms(1) st(1)] assms(3)] obtain a where
    a: "rls_start h1 (rld_data x) = Inr a" "rls_left h1 (rld_size x) a xs" "m_priv (rls_data a) = m_priv (rld_data x)" by blast
  from rls_start_spec [OF rld_inv_frame [OF assms(2) st(2)] assms(4)] obtain b where
    b: "rls_start h1 (rld_data y) = Inr b" "rls_left h1 (rld_size y) b ys" "m_priv (rls_data b) = m_priv (rld_data y)" by blast
  have "storage h1 (rls_data a) = storage h (rld_data x)" "storage h1 (rls_data b) = storage h (rld_data y)" using st a(3) b(3) by (simp_all add: storage_def)
  then have "op_state (rld_size x) (rld_size y) h1 rv d (h1, c, a, b) xs ys []"
    using a(2,3) b(2,3) assms(5-9) i(1) fresh by (simp add: op_state_def)
  then show ?thesis using 0(1) n a(1) b(1) room inv1 k by blast
qed

lemma rld_genericOp_spec:
  assumes "rld_inv h x xs" "rld_inv h y ys" "xs \<noteq> []" "ys \<noteq> []" "increasing xs" "increasing ys" "length xs + length ys < 2 ^ 29"
    and "isContiguous (storage h (rld_data x))" "isContiguous (storage h (rld_data y))"
    and fresh: "r \<notin> {m_priv (rld_data x), m_priv (rld_data y)}" "rv \<notin> {m_priv (rld_data x), m_priv (rld_data y)}" "rv \<noteq> r"
  shows "\<exists>h' z. rld_genericOp t h r rv x y = Inr (h', z) \<and> rld_inv h' z (trunc31 (merge_op t xs ys)) \<and> m_priv (rld_data z) = r \<and>
    isContiguous (storage h' (rld_data z)) \<and> others_kept {r, rv} h h'"
proof -
  let ?d = "uba_of_priv r 0 8"
  from rld_op_start [OF assms] obtain h0 h1 c a b where
    1: "createCache h r 8 = Inr (h0, ?d)" "rlc_new h0 rv ?d = (h1, c)" "rls_start h1 (rld_data x) = Inr a" "rls_start h1 (rld_data y) = Inr b"
      "op_state (rld_size x) (rld_size y) h1 rv ?d (h1, c, a, b) xs ys []" "pushable h1 ?d (10 + 5 * 2 ^ 29)" "uba_inv h1 ?d"
    by (elim exE conjE) (rule that)
  have pd: "m_priv ?d \<noteq> rv" using createCache_kind(1) [OF 1(1)] fresh(3) by simp
  from rld_op_loop_spec [OF 1(5), of t] obtain s' vs ws zs where
    l: "rld_op_loop t (rld_size x) (rld_size y) (h1, c, a, b) = Inr s'" "op_state (rld_size x) (rld_size y) h1 rv ?d s' vs ws zs"
      "zs @ merge_op t vs ws = merge_op t xs ys" "vs = [] \<or> ws = []" by auto
  have "length zs + length vs + length ws < 2 ^ 29" using l(2) by (cases s') (simp add: op_state_def)
  then have "pushable h1 ?d (10 + 5 * (length zs + length vs + length ws))" by (intro pushable_less [OF 1(6)]) simp
  from rld_op_rest_spec [OF l(2,4) pd this, of t] obtain h2 c2 where
    2: "rld_op_rest t (rld_size x) (rld_size y) s' = Inr (h2, c2)" "rlc_flushed h1 rv ?d h2 c2 (merge_op t xs ys)" unfolding l(3) by blast
  have "length (merge_op t xs ys) < 2 ^ 29" using length_merge_op [of t xs ys] assms(7) by simp
  from flushed_index [OF 1(1,2) 2(2) this fresh(3) 1(7)] show ?thesis
    using 1(1-4) l(1) 2(1) by (auto simp: rld_genericOp_def)
qed

text \<open>An operand without ids: its first word is read before the sizes are looked at.\<close>

lemma rls_start_empty:
  assumes "rld_inv h x []"
  shows "rls_start h (rld_data x) = Inl OutOfBoundsException"
proof -
  from assms obtain ws where w: "rld_words h x ws" "words_deltas ws = []"
    by (auto simp: rld_inv_def) (metis length_0_conv length_sums)
  have "ws = []" using w word_deltas_pos by (cases ws) (auto simp: rld_words_def)
  then have "reader h (uba_resetGetPtr (rld_data x)) 0 []"
    using w(1) by (simp add: reader_def rld_words_def uba_resetGetPtr_def)
  from reader_end [OF this] show ?thesis by (simp add: rls_start_def)
qed

lemma rld_empty_operand_throws:
  assumes "rld_inv h x xs" "rld_inv h y ys" "xs = [] \<or> ys = []"
    and "r \<notin> {m_priv (rld_data x), m_priv (rld_data y)}" "rv \<notin> {m_priv (rld_data x), m_priv (rld_data y)}"
  shows "rld_genericOp t h r rv x y = Inl OutOfBoundsException"
proof -
  have "unat (8 :: u64) \<le> max_size" by (simp add: max_size_def)
  from createCache_spec [OF this, of h r] obtain h0 where 0: "createCache h r 8 = Inr (h0, uba_of_priv r 0 8)" by auto
  obtain h1 c where n: "rlc_new h0 rv (uba_of_priv r 0 8) = (h1, c)" by (cases "rlc_new h0 rv (uba_of_priv r 0 8)")
  have k: "others_kept {r, rv} h h1"
    using others_kept_trans [OF createCache_kind(4) [OF 0] rlc_new_inv [OF n, THEN conjunct2]] by (simp add: insert_commute)
  have st: "storage h1 (rld_data x) = storage h (rld_data x)" "storage h1 (rld_data y) = storage h (rld_data y)"
    using others_keptD [OF k, of "rld_data x"] others_keptD [OF k, of "rld_data y"] assms(4,5) by auto
  note ix = rld_inv_frame [OF assms(1) st(1)] and iy = rld_inv_frame [OF assms(2) st(2)]
  show ?thesis
  proof (cases "xs = []")
    case True
    then have "rls_start h1 (rld_data x) = Inl OutOfBoundsException" using ix rls_start_empty by simp
    then show ?thesis using 0 n by (simp add: rld_genericOp_def)
  next
    case False
    then obtain a where "rls_start h1 (rld_data x) = Inr a" using rls_start_spec [OF ix] by blast
    moreover have "rls_start h1 (rld_data y) = Inl OutOfBoundsException" using iy False assms(3) rls_start_empty by simp
    ultimately show ?thesis using 0 n by (simp add: rld_genericOp_def)
  qed
qed

lemma rld_fromBitSet_spec:
  assumes "uba_inv h bits" "unat (m_len bits) < 2 ^ 26" "m_priv bits \<noteq> r" "m_priv bits \<noteq> rv" "rv \<noteq> r"
  shows "\<exists>h' x. rld_fromBitSet h r rv bits = Inr (h', x) \<and> rld_inv h' x (trunc31 (map of_nat (elem_list h bits))) \<and>
    m_priv (rld_data x) = r \<and> others_kept {r, rv} h h'"
proof -
  let ?n = "if m_len bits = 0 then 1 else m_len bits" and ?es = "map of_nat (elem_list h bits) :: u32 list"
  let ?d = "uba_of_priv r 0 ?n"
  have "unat (m_len bits) \<le> max_size" using assms(2) by (simp add: max_size_def)
  from createCache_spec [OF this, of h r] obtain h0 where
    0: "createCache h r (m_len bits) = Inr (h0, ?d)" "uba_inv h0 ?d" "growable h0 ?d" by blast
  note d = createCache_kind [OF 0(1)]
  obtain h1 c where n: "rlc_new h0 rv ?d = (h1, c)" by (cases "rlc_new h0 rv ?d")
  have i: "rlc_inv h1 rv ?d c []" "others_kept {rv} h0 h1" using rlc_new_inv [OF n] by simp_all
  have pd: "m_priv ?d \<noteq> rv" using d(1) assms(5) by simp
  have k: "others_kept {r, rv} h h1" using others_kept_trans [OF d(4) i(2)] by (simp add: insert_commute)
  have st: "storage h1 bits = storage h bits" using others_keptD [OF k] assms(3,4) by simp
  have "uba_inv h1 bits" using view_frame(2) [OF st] assms(1) by simp
  moreover have "rlc_sink (rv, ?d) h1 c [] (8 * unat (m_len bits))" using i(1) assms(2) by (simp add: rlc_sink_def)
  ultimately obtain h2 c2 where
    2: "bindE (narrow_check_u (uint (m_len bits))) (\<lambda>sz. fbs_bytes rlc_push_back sz bits 0 0 h1 c) = Inr (h2, c2)" "rlc_inv h2 rv ?d c2 ?es" "others_kept {rv} h1 h2"
    using rlc.bit_set_ok [of h1 bits "(rv, ?d)" c] assms(2,4) view_frame(1) [OF st] by (auto simp: rlc_sink_def)
  have k2: "others_kept {rv} h0 h2" using others_kept_same [OF i(2) 2(3)] .
  have "storage h2 ?d = storage h0 ?d" using others_keptD [OF k2] pd by simp
  then have "uba_inv h2 ?d" "growable h2 ?d" using view_frame(2) [of h2 ?d h0] 0(2,3) by (simp_all add: growable_def)
  then have room: "pushable h2 ?d (10 + 5 * 2 ^ 29)" by (simp add: pushable_def uba_of_priv_def max_size_def)
  have l: "length ?es < 2 ^ 29" using 2(2) by (simp add: rlc_inv_def)
  have "pushable h2 ?d (10 + 5 * length ?es)" by (rule pushable_less [OF room]) (use l in simp)
  from rlc_flush_spec [OF 2(2) pd this] obtain h3 c3 where 3: "rlc_flush h2 c2 = Inr (h3, c3)" "rlc_flushed h2 rv ?d h3 c3 ?es" by blast
  from rlc_getPrivateIndex_spec [OF 3(2) room l] d(1) obtain x where
    x: "rlc_getPrivateIndex h3 c3 = Inr (h3, x)" "rld_inv h3 x (trunc31 ?es)" "m_priv (rld_data x) = r" by auto
  have "others_kept {rv, r} h2 h3" using 3(2) d(1) by (simp add: rlc_flushed_def)
  then have "others_kept {r, rv} h h3"
    using others_kept_trans [OF d(4) others_kept_trans [OF k2, of "{rv, r}" h3]] by (simp add: insert_commute)
  then show ?thesis using 0(1) n 2(1) 3(1) x by (auto simp: rld_fromBitSet_def bindE_eq_Inr_iff)
qed

end
