(* ===== verification/ItemIndexRleMulti.thy ===== *)
theory ItemIndexRleMulti
  imports ItemIndexRleOps
begin

text \<open>
  The remaining operations of \<open>ItemIndexPrivateRleDE\<close>: \<open>uniteK\<close>, and \<open>constrainedIntersect\<close> and \<open>fusedIntersectDifference\<close>
  over many indices, whose states are the class \<open>IndexStates\<close> of the source.
\<close>

section \<open>The union of the first ids\<close>

text \<open>In the branch for equal ids, the difference of the second operand is halved once more after \<open>getNext\<close>.\<close>

definition rls_step_halving :: "heap \<Rightarrow> rls \<Rightarrow> rls res" where
  "rls_step_halving h b =
     (let b = (if rls_rle b \<noteq> 0 then b\<lparr>rls_rle := rls_rle b - 1\<rparr> else b)
      in bindE (if rls_rle b = 0 then bindE (rls_getNext h b) (\<lambda>b. Inr (b\<lparr>rls_val := drop_bit 1 (rls_val b)\<rparr>)) else Inr b) (\<lambda>b.
           Inr (b\<lparr>rls_id := rls_id b + rls_val b, rls_it := rls_it b + 1\<rparr>)))"

definition rld_uniteK_round :: "heap \<times> rlc \<times> rls \<times> rls \<Rightarrow> (heap \<times> rlc \<times> rls \<times> rls) res" where
  "rld_uniteK_round = (\<lambda>(h, c, a, b).
     if rls_id a = rls_id b then
       bindE (rlc_push_back h c (rls_id a)) (\<lambda>(h, c).
       bindE (rls_step h a) (\<lambda>a. bindE (rls_step_halving h b) (\<lambda>b. Inr (h, c, a, b))))
     else if rls_id a < rls_id b then
       bindE (rlc_push_back h c (rls_id a)) (\<lambda>(h, c). bindE (rls_step h a) (\<lambda>a. Inr (h, c, a, b)))
     else
       bindE (rlc_push_back h c (rls_id b)) (\<lambda>(h, c). bindE (rls_step h b) (\<lambda>b. Inr (h, c, a, b))))"

text \<open>\<open>while (Rle && creator.size() < numItems)\<close>; the first argument is \<open>Rle\<close>.\<close>

fun rls_push_run :: "nat \<Rightarrow> u32 \<Rightarrow> heap \<Rightarrow> rlc \<Rightarrow> u32 \<Rightarrow> u32 \<Rightarrow> u32 \<Rightarrow> (heap \<times> rlc \<times> u32) res" where
  "rls_push_run 0 numItems h c it i v = Inr (h, c, it)"
| "rls_push_run (Suc n) numItems h c it i v =
     (if rlc_count c < numItems
      then bindE (rlc_push_back h c i) (\<lambda>(h, c). rls_push_run n numItems h c (it + 1) (i + v) v)
      else Inr (h, c, it))"

definition rls_remainderK :: "u32 \<Rightarrow> heap \<Rightarrow> rlc \<Rightarrow> rls \<Rightarrow> u32 \<Rightarrow> (heap \<times> rlc) res" where
  "rls_remainderK numItems h c a sz =
     bindE (if rls_rle a \<noteq> 0
            then rls_push_run (unat (rls_rle a)) numItems h c (rls_it a) (rls_id a) (rls_val a)
            else bindE (rlc_push_back h c (rls_id a)) (\<lambda>(h, c). Inr (h, c, rls_it a + 1))) (\<lambda>(h, c, it).
       if rlc_count c < numItems then rlc_flushWithData h c (uba_shrinkToGetPtr (rls_data a)) (sz - it) else rlc_flush h c)"

definition rld_uniteK_rest :: "u32 \<Rightarrow> u32 \<Rightarrow> u32 \<Rightarrow> heap \<times> rlc \<times> rls \<times> rls \<Rightarrow> (heap \<times> rlc) res" where
  "rld_uniteK_rest numItems aSize bSize = (\<lambda>(h, c, a, b).
     if rls_it a < aSize then rls_remainderK numItems h c a aSize
     else if rls_it b < bSize then rls_remainderK numItems h c b bSize
     else rlc_flush h c)"

definition rld_uniteK :: "heap \<Rightarrow> nat \<Rightarrow> nat \<Rightarrow> rld \<Rightarrow> rld \<Rightarrow> u32 \<Rightarrow> (heap \<times> rld) res" where
  "rld_uniteK h r rv x y numItems =
     bindE (createCache h r 8) (\<lambda>(h, dest).
       case rlc_new h rv dest of (h, c) \<Rightarrow>
         bindE (rls_start h (rld_data x)) (\<lambda>a.
         bindE (rls_start h (rld_data y)) (\<lambda>b.
         bindE (while_res (\<lambda>(h, c, a, b). rls_it a < rld_size x \<and> rls_it b < rld_size y \<and> rlc_count c < numItems)
                  rld_uniteK_round (h, c, a, b)) (\<lambda>s.
         bindE (rld_uniteK_rest numItems (rld_size x) (rld_size y) s) (\<lambda>(h, c).
           rld_new h (uba_resetPtrs (rlc_dest c)))))))"

definition rld_op_uniteK :: "heap \<Rightarrow> nat \<Rightarrow> nat \<Rightarrow> rld \<Rightarrow> rld_operand \<Rightarrow> u32 \<Rightarrow> rld_result res" where
  "rld_op_uniteK h r rv x other numItems =
     (case other of
        RldOperand y \<Rightarrow> bindE (rld_uniteK h r rv x y numItems) (\<lambda>(h, z). Inr (RldResult h z))
      | RldOther s \<Rightarrow> bindE (doUnite (rld_source (h, x)) (Some s)) (\<lambda>r. Inr (RldGeneric r)))"

section \<open>Many indices at once\<close>

record iss =
  iss_data :: uba
  iss_rle :: u32
  iss_diff :: u32
  iss_id :: u32
  iss_valid :: bool

definition iss_next :: "heap \<Rightarrow> iss \<Rightarrow> iss res" where
  "iss_next h s =
     (if iss_rle s \<noteq> 0 then Inr (s\<lparr>iss_id := iss_id s + iss_diff s, iss_rle := iss_rle s - 1\<rparr>)
      else
        let s = s\<lparr>iss_valid := uba_getPtrHasNext (iss_data s)\<rparr>
        in if iss_valid s then
             bindE (stream_getVlPackedUint32 h (iss_data s)) (\<lambda>(rle, d).
             bindE (if is_run rle
                    then bindE (stream_getVlPackedUint32 h d) (\<lambda>(w, d). Inr (d, word_value rle - 1, word_value w))
                    else Inr (d, 0, word_value rle)) (\<lambda>(d, rle, diff).
               Inr (s\<lparr>iss_data := d, iss_rle := rle, iss_diff := diff, iss_id := iss_id s + diff\<rparr>)))
           else Inr s)"

definition iss_new :: "heap \<Rightarrow> uba \<Rightarrow> iss res" where
  "iss_new h d = iss_next h \<lparr>iss_data = uba_resetPtrs d, iss_rle = 0, iss_diff = 0, iss_id = 0, iss_valid = True\<rparr>"

definition iss_moveTillLargerOrEqual :: "heap \<Rightarrow> u32 \<Rightarrow> iss \<Rightarrow> iss res" where
  "iss_moveTillLargerOrEqual h inid = while_res (\<lambda>s. iss_valid s \<and> iss_id s < inid) (iss_next h)"

record index_states =
  ist_states :: "iss list"
  ist_stateCount :: u32
  ist_validCounter :: u32

fun iss_news :: "heap \<Rightarrow> uba list \<Rightarrow> iss list res" where
  "iss_news h [] = Inr []"
| "iss_news h (d # ds) = bindE (iss_new h d) (\<lambda>s. bindE (iss_news h ds) (\<lambda>ss. Inr (s # ss)))"

text \<open>The constructor with the number of states, and a \<open>push_back\<close> for every index.\<close>

definition ist_new :: "heap \<Rightarrow> u32 \<Rightarrow> uba list \<Rightarrow> index_states res" where
  "ist_new h n ds = bindE (iss_news h ds) (\<lambda>ss. Inr \<lparr>ist_states = ss, ist_stateCount = n, ist_validCounter = n\<rparr>)"

definition allValid :: "index_states \<Rightarrow> bool" where
  "allValid t \<longleftrightarrow> unat (ist_validCounter t) = length (ist_states t)"

definition oneIsValid :: "index_states \<Rightarrow> bool" where
  "oneIsValid t \<longleftrightarrow> ist_validCounter t \<noteq> 0"

text \<open>The loops over \<open>states[0]\<close> to \<open>states[stateCount - 1]\<close>; the number is the part of it still to do.\<close>

fun iss_next_all :: "heap \<Rightarrow> nat \<Rightarrow> iss list \<Rightarrow> u32 \<Rightarrow> (iss list \<times> u32) res" where
  "iss_next_all h 0 ss vc = Inr (ss, vc)"
| "iss_next_all h (Suc n) [] vc = Inl UndefinedBehaviour"
| "iss_next_all h (Suc n) (s # ss) vc =
     bindE (iss_next h s) (\<lambda>s.
     bindE (iss_next_all h n ss (if iss_valid s then vc else vc - 1)) (\<lambda>(ss, vc). Inr (s # ss, vc)))"

definition ist_next :: "heap \<Rightarrow> index_states \<Rightarrow> index_states res" where
  "ist_next h t = bindE (iss_next_all h (unat (ist_stateCount t)) (ist_states t) (ist_validCounter t)) (\<lambda>(ss, vc).
     Inr (t\<lparr>ist_states := ss, ist_validCounter := vc\<rparr>))"

fun iss_max :: "nat \<Rightarrow> iss list \<Rightarrow> u32 \<Rightarrow> u32 res" where
  "iss_max 0 ss m = Inr m"
| "iss_max (Suc n) [] m = Inl UndefinedBehaviour"
| "iss_max (Suc n) (s # ss) m = iss_max n ss (if iss_valid s \<and> iss_id s \<ge> m then iss_id s else m)"

definition ist_findMax :: "index_states \<Rightarrow> u32 res" where
  "ist_findMax t = iss_max (unat (ist_stateCount t)) (ist_states t) 0"

fun iss_move_all :: "heap \<Rightarrow> u32 \<Rightarrow> nat \<Rightarrow> iss list \<Rightarrow> u32 \<Rightarrow> bool \<Rightarrow> bool \<Rightarrow> (iss list \<times> u32 \<times> bool \<times> bool) res" where
  "iss_move_all h i 0 ss vc allEqual oneEqual = Inr (ss, vc, allEqual, oneEqual)"
| "iss_move_all h i (Suc n) [] vc allEqual oneEqual = Inl UndefinedBehaviour"
| "iss_move_all h i (Suc n) (s # ss) vc allEqual oneEqual =
     bindE (iss_moveTillLargerOrEqual h i s) (\<lambda>s.
     bindE (iss_move_all h i n ss (if iss_valid s then vc else vc - 1) (allEqual \<and> iss_id s = i) (oneEqual \<or> iss_id s = i)) (\<lambda>(ss, r).
       Inr (s # ss, r)))"

definition ist_moveTillLargerOrEqual :: "heap \<Rightarrow> u32 \<Rightarrow> index_states \<Rightarrow> (index_states \<times> bool \<times> bool) res" where
  "ist_moveTillLargerOrEqual h i t =
     bindE (iss_move_all h i (unat (ist_stateCount t)) (ist_states t) (ist_validCounter t) True False) (\<lambda>(ss, vc, allEqual, oneEqual).
       Inr (t\<lparr>ist_states := ss, ist_validCounter := vc\<rparr>, allEqual, oneEqual))"

text \<open>The state of the loop: \<open>id\<close>, \<open>allEqual\<close> and the states.\<close>

definition ist_moveToNextEqual :: "heap \<Rightarrow> u32 \<Rightarrow> index_states \<Rightarrow> (bool \<times> u32 \<times> index_states) res" where
  "ist_moveToNextEqual h i t =
     bindE (while_res (\<lambda>(i, allEqual, t). allValid t \<and> \<not> allEqual)
              (\<lambda>(_, _, t). bindE (ist_findMax t) (\<lambda>i.
                 bindE (ist_moveTillLargerOrEqual h i t) (\<lambda>(t, allEqual, oneEqual). Inr (i, allEqual, t)))) (i, False, t))
       (\<lambda>(i, _, t). Inr (allValid t, i, t))"

definition ci_round :: "heap \<Rightarrow> u32 \<times> index_states \<times> u32 list \<Rightarrow> (u32 \<times> index_states \<times> u32 list) res" where
  "ci_round h = (\<lambda>(i, t, resultSet).
     bindE (ist_moveToNextEqual h i t) (\<lambda>(ok, i, t).
       if ok then bindE (ist_next h t) (\<lambda>t. Inr (i, t, resultSet @ [i])) else Inr (i, t, resultSet)))"

definition rld_constrainedIntersect :: "heap \<Rightarrow> rld list \<Rightarrow> u32 \<Rightarrow> u32 list res" where
  "rld_constrainedIntersect h intersect count =
     bindE (ist_new h (of_nat (length intersect)) (map rld_data intersect)) (\<lambda>t.
     bindE (while_res (\<lambda>(i, t, resultSet). allValid t \<and> length resultSet < unat count) (ci_round h) (0, t, [])) (\<lambda>(_, _, resultSet).
       Inr resultSet))"

text \<open>The states of \<open>subtract\<close> are made in a loop that ends at the size of \<open>intersect\<close>.\<close>

definition fid_round :: "heap \<Rightarrow> u32 \<times> index_states \<times> index_states \<times> u32 list \<Rightarrow> (u32 \<times> index_states \<times> index_states \<times> u32 list) res" where
  "fid_round h = (\<lambda>(i, t, u, resultSet).
     bindE (ist_moveToNextEqual h i t) (\<lambda>(ok, i, t).
       if ok then
         bindE (ist_next h t) (\<lambda>t.
         bindE (ist_moveTillLargerOrEqual h i u) (\<lambda>(u, allEqual, oneEqual).
           Inr (i, t, u, if \<not> oneEqual then resultSet @ [i] else resultSet)))
       else Inr (i, t, u, resultSet)))"

definition rld_fusedIntersectDifference :: "heap \<Rightarrow> rld list \<Rightarrow> rld list \<Rightarrow> u32 \<Rightarrow> u32 list res" where
  "rld_fusedIntersectDifference h intersect subtract count =
     bindE (ist_new h (of_nat (length intersect)) (map rld_data intersect)) (\<lambda>t.
     bindE (if length intersect \<le> length subtract
            then ist_new h (of_nat (length subtract)) (map rld_data (take (length intersect) subtract))
            else Inl UndefinedBehaviour) (\<lambda>u.
     bindE (while_res (\<lambda>(i, t, u, resultSet). allValid t \<and> length resultSet < unat count) (fid_round h) (0, t, u, [])) (\<lambda>(_, _, _, resultSet).
       Inr resultSet)))"

section \<open>One state\<close>

text \<open>The ids \<open>ys\<close> have been passed, the ids \<open>xs\<close> are the current one and those behind it.\<close>

definition iss_left :: "heap \<Rightarrow> iss \<Rightarrow> u32 list \<Rightarrow> u32 list \<Rightarrow> bool" where
  "iss_left h s ys xs \<longleftrightarrow> increasing (ys @ xs) \<and>
     (case xs of [] \<Rightarrow> \<not> iss_valid s \<and> ys \<noteq> [] \<and> iss_id s = last ys
      | x # xs' \<Rightarrow> iss_valid s \<and> iss_id s = x \<and>
          (\<exists>ws. reads h (iss_data s) (words_code ws) \<and> list_all word_ok ws \<and>
             xs' = sums x (replicate (unat (iss_rle s)) (iss_diff s) @ words_deltas ws)))"

lemma iss_next_word:
  assumes "reads h (iss_data s) (words_code (w # ws))" "list_all word_ok (w # ws)" "iss_rle s = 0"
  shows "\<exists>s'. iss_next h s = Inr s' \<and> iss_valid s' \<and> iss_id s' = iss_id s + hd (word_deltas w) \<and> reads h (iss_data s') (words_code ws) \<and>
    word_deltas w = hd (word_deltas w) # replicate (unat (iss_rle s')) (iss_diff s')"
proof -
  have r: "reads h (iss_data s) (word_code w @ words_code ws)" "word_ok w" using assms by simp_all
  have "uba_getPtrHasNext (iss_data s)" using reads_more [OF assms(1)] words_code_pos [OF assms(2)] by (auto simp: uba_getPtrHasNext_def)
  note n = assms(3) this
  show ?thesis
  proof (cases w)
    case (Single d)
    with reads_word [OF r] obtain v u where "stream_getVlPackedUint32 h (iss_data s) = Inr (v, u)" "\<not> is_run v" "word_value v = d"
        "reads h u (words_code ws)" by auto
    then show ?thesis using n Single by (simp add: iss_next_def Let_def)
  next
    case (Repeat k d)
    with reads_word [OF r] obtain v u1 v' u where g: "stream_getVlPackedUint32 h (iss_data s) = Inr (v, u1)" "is_run v" "word_value v = k"
        "stream_getVlPackedUint32 h u1 = Inr (v', u)" "word_value v' = d" "reads h u (words_code ws)" by auto
    have "2 \<le> unat k" using Repeat_length [of k d] r(2) Repeat by simp
    then have "unat k = Suc (unat (k - 1))" by (metis unat_minus_one unat_0 not_numeral_le_zero Suc_pred' unat_gt_0)
    then have "replicate (unat k) d = d # replicate (unat (k - 1)) d" by (metis replicate_Suc)
    then show ?thesis using n Repeat g by (simp add: iss_next_def Let_def)
  qed
qed

lemma iss_next_spec:
  assumes "iss_left h s ys (x # xs)"
  shows "\<exists>s'. iss_next h s = Inr s' \<and> iss_left h s' (ys @ [x]) xs"
proof -
  from assms obtain ws where w: "iss_valid s" "iss_id s = x" "increasing (ys @ x # xs)" "reads h (iss_data s) (words_code ws)" "list_all word_ok ws"
    "xs = sums x (replicate (unat (iss_rle s)) (iss_diff s) @ words_deltas ws)" by (auto simp: iss_left_def)
  show ?thesis
  proof (cases "iss_rle s = 0")
    case False
    then have "unat (iss_rle s) = Suc (unat (iss_rle s - 1))" using unat_gt_0 [of "iss_rle s"] by (simp add: unat_minus_one)
    then have "xs = (x + iss_diff s) # sums (x + iss_diff s) (replicate (unat (iss_rle s - 1)) (iss_diff s) @ words_deltas ws)" unfolding w(6) by simp
    then have "iss_left h (s\<lparr>iss_id := iss_id s + iss_diff s, iss_rle := iss_rle s - 1\<rparr>) (ys @ [x]) xs"
      using w(1-5) by (auto simp: iss_left_def)
    then show ?thesis using False by (simp add: iss_next_def)
  next
    case True
    show ?thesis
    proof (cases ws)
      case Nil
      then have "\<not> uba_getPtrHasNext (iss_data s)" using reads_more [OF w(4)] by (simp add: uba_getPtrHasNext_def)
      then show ?thesis using True w Nil by (simp add: iss_next_def Let_def iss_left_def)
    next
      case (Cons v vs)
      from iss_next_word [OF w(4,5) [unfolded Cons] True] obtain s' where
        s': "iss_next h s = Inr s'" "iss_valid s'" "iss_id s' = iss_id s + hd (word_deltas v)" "reads h (iss_data s') (words_code vs)"
          "word_deltas v = hd (word_deltas v) # replicate (unat (iss_rle s')) (iss_diff s')" by blast
      have "words_deltas ws = hd (word_deltas v) # replicate (unat (iss_rle s')) (iss_diff s') @ words_deltas vs"
        unfolding Cons words_simps(5) by (subst s'(5)) simp
      then have "xs = iss_id s' # sums (iss_id s') (replicate (unat (iss_rle s')) (iss_diff s') @ words_deltas vs)" using w(2,6) True s'(3) by simp
      then have "iss_left h s' (ys @ [x]) xs" using w(3,5) Cons s'(2,4) by (auto simp: iss_left_def)
      then show ?thesis using s'(1) by blast
    qed
  qed
qed

lemma iss_new_spec:
  assumes "rld_inv h x xs" "increasing xs" "xs \<noteq> []"
  shows "\<exists>s. iss_new h (rld_data x) = Inr s \<and> iss_left h s [] xs"
proof -
  from assms(1) obtain ws where w: "rld_words h x ws" "xs = sums 0 (words_deltas ws)" by (auto simp: rld_inv_def)
  obtain v vs where ws: "ws = v # vs" using w(2) assms(3) by (cases ws) auto
  let ?s = "\<lparr>iss_data = uba_resetPtrs (rld_data x), iss_rle = 0, iss_diff = 0, iss_id = 0, iss_valid = True\<rparr>"
  have "reads h (iss_data ?s) (words_code ws)" "list_all word_ok ws"
    using w(1) by (auto simp: rld_words_def reads_def uba_resetPtrs_def uba_resetPutPtr_def uba_resetGetPtr_def)
  from iss_next_word [OF this [unfolded ws]] obtain s where
    s: "iss_next h ?s = Inr s" "iss_valid s" "iss_id s = hd (word_deltas v)" "reads h (iss_data s) (words_code vs)"
      "word_deltas v = hd (word_deltas v) # replicate (unat (iss_rle s)) (iss_diff s)" by auto
  have "words_deltas ws = hd (word_deltas v) # replicate (unat (iss_rle s)) (iss_diff s) @ words_deltas vs"
    unfolding ws words_simps(5) by (subst s(5)) simp
  then have "xs = iss_id s # sums (iss_id s) (replicate (unat (iss_rle s)) (iss_diff s) @ words_deltas vs)" using w(2) s(3) by simp
  moreover have "list_all word_ok vs" using w(1) ws by (simp add: rld_words_def)
  ultimately have "iss_left h s [] xs" using assms(2) s(2,4) by (auto simp: iss_left_def)
  then show ?thesis using s(1) by (auto simp: iss_new_def)
qed

lemma iss_left_valid: "iss_left h s ys xs \<Longrightarrow> iss_valid s \<longleftrightarrow> xs \<noteq> []" "iss_left h s ys (x # xs) \<Longrightarrow> iss_id s = x"
  by (auto simp: iss_left_def split: list.splits)

lemma iss_move_spec:
  "iss_left h s ys xs \<Longrightarrow> \<exists>s'. iss_moveTillLargerOrEqual h v s = Inr s' \<and> iss_left h s' (ys @ takeWhile (\<lambda>x. x < v) xs) (dropWhile (\<lambda>x. x < v) xs)"
proof (induction xs arbitrary: s ys)
  case Nil
  then show ?case using iss_left_valid(1) [OF Nil] by (simp add: iss_moveTillLargerOrEqual_def while_res_stop)
next
  case (Cons x xs)
  note l = iss_left_valid [OF Cons.prems]
  show ?case
  proof (cases "x < v")
    case False
    then show ?thesis using l Cons.prems by (simp add: iss_moveTillLargerOrEqual_def while_res_stop)
  next
    case True
    from iss_next_spec [OF Cons.prems] obtain s' where s': "iss_next h s = Inr s'" "iss_left h s' (ys @ [x]) xs" by blast
    have "iss_moveTillLargerOrEqual h v s = iss_moveTillLargerOrEqual h v s'"
      unfolding iss_moveTillLargerOrEqual_def by (rule while_res_step) (use l True s'(1) in simp_all)
    then show ?thesis using Cons.IH [OF s'(2)] True by simp
  qed
qed

text \<open>After the move, the state has the id \<open>v\<close> exactly when \<open>v\<close> is an id of the index.\<close>

lemma iss_moved_id:
  assumes "iss_left h s (ys @ takeWhile (\<lambda>x. x < v) xs) (dropWhile (\<lambda>x. x < v) xs)" "\<forall>y \<in> set ys. y < v"
  shows "iss_id s = v \<longleftrightarrow> v \<in> set xs"
proof -
  have inc: "increasing (takeWhile (\<lambda>x. x < v) xs @ dropWhile (\<lambda>x. x < v) xs)" using assms(1) by (simp add: iss_left_def sorted_wrt_append)
  have lt: "\<forall>y \<in> set (ys @ takeWhile (\<lambda>x. x < v) xs). y < v" using assms(2) by (auto dest: set_takeWhileD)
  show ?thesis
  proof (cases "dropWhile (\<lambda>x. x < v) xs")
    case Nil
    have "iss_id s = last (ys @ takeWhile (\<lambda>x. x < v) xs)" "ys @ takeWhile (\<lambda>x. x < v) xs \<noteq> []" using assms(1) unfolding Nil by (simp_all add: iss_left_def)
    then have "iss_id s < v" using lt last_in_set by metis
    moreover have "v \<notin> set xs" using Nil by (simp add: dropWhile_eq_Nil_conv) blast
    ultimately show ?thesis by auto
  next
    case (Cons x xs')
    have ge: "\<not> x < v" using Cons by (metis hd_dropWhile list.sel(1) list.simps(3))
    have id: "iss_id s = x" using assms(1) Cons iss_left_valid(2) by metis
    have xs: "xs = takeWhile (\<lambda>x. x < v) xs @ x # xs'" unfolding Cons [symmetric] by simp
    have "\<forall>y \<in> set xs'. x < y" using inc Cons by (simp add: sorted_wrt_append)
    then have "v \<in> set xs' \<Longrightarrow> False" using ge by auto
    moreover have "v \<in> set xs \<longleftrightarrow> v \<in> set (takeWhile (\<lambda>x. x < v) xs) \<or> v = x \<or> v \<in> set xs'" by (subst xs) auto
    moreover have "v \<notin> set (takeWhile (\<lambda>x. x < v) xs)" using lt by auto
    ultimately show ?thesis using id by auto
  qed
qed

section \<open>The ids that all lists have\<close>

definition common :: "u32 list list \<Rightarrow> u32 list" where
  "common xss = filter (\<lambda>x. \<forall>xs \<in> set xss. x \<in> set xs) (hd xss)"

lemma set_common: "xss \<noteq> [] \<Longrightarrow> set (common xss) = (\<Inter>xs \<in> set xss. set xs)"
  by (cases xss) (auto simp: common_def)

lemma increasing_common: "increasing (hd xss) \<Longrightarrow> increasing (common xss)"
  unfolding common_def by (rule sorted_wrt_filter)

lemma common_Nil: "[] \<in> set xss \<Longrightarrow> common xss = []"
  unfolding common_def filter_empty_conv by (metis empty_iff empty_set)

lemma set_dropWhile_increasing: "increasing xs \<Longrightarrow> set (dropWhile (\<lambda>x. x < v) xs) = {x \<in> set xs. v \<le> x}"
  by (induction xs) (auto simp: not_less)

lemma common_drop:
  assumes "xss \<noteq> []" "\<forall>xs \<in> set xss. increasing xs" "xs \<in> set xss" "xs \<noteq> []" "hd xs = v"
  shows "common (map (dropWhile (\<lambda>x. x < v)) xss) = common xss"
proof -
  let ?P = "\<lambda>x. \<forall>xs \<in> set xss. x \<in> set xs" and ?L = "hd xss"
  have L: "increasing ?L" using assms(1,2) by simp
  have ge: "v \<le> x" if "x \<in> set xs" for x using that assms(2) [rule_format, OF assms(3)] assms(4,5) by (cases xs) (auto intro: less_imp_le)
  have "filter ?P (takeWhile (\<lambda>x. x < v) ?L) = []" unfolding filter_empty_conv
  proof
    fix x assume "x \<in> set (takeWhile (\<lambda>x. x < v) ?L)"
    then have "x < v" by (rule set_takeWhileD [THEN conjunct2])
    then have "x \<notin> set xs" using ge by (metis leD)
    then show "\<not> ?P x" using assms(3) by blast
  qed
  then have "common xss = filter ?P (dropWhile (\<lambda>x. x < v) ?L)"
    unfolding common_def using filter_append [of ?P "takeWhile (\<lambda>x. x < v) ?L" "dropWhile (\<lambda>x. x < v) ?L"] by simp
  also have "\<dots> = filter (\<lambda>x. \<forall>xs \<in> set xss. x \<in> set (dropWhile (\<lambda>x. x < v) xs)) (dropWhile (\<lambda>x. x < v) ?L)"
  proof (intro filter_cong refl)
    fix x assume "x \<in> set (dropWhile (\<lambda>x. x < v) ?L)"
    then have "v \<le> x" unfolding set_dropWhile_increasing [OF L] by simp
    then have "x \<in> set (dropWhile (\<lambda>x. x < v) ys) \<longleftrightarrow> x \<in> set ys" if "ys \<in> set xss" for ys
      using set_dropWhile_increasing [OF assms(2) [rule_format, OF that]] by simp
    then show "?P x = (\<forall>xs \<in> set xss. x \<in> set (dropWhile (\<lambda>x. x < v) xs))" by blast
  qed
  also have "\<dots> = common (map (dropWhile (\<lambda>x. x < v)) xss)" using assms(1) by (simp add: common_def hd_map)
  finally show ?thesis by simp
qed

lemma common_next:
  assumes "xss \<noteq> []" "\<forall>xs \<in> set xss. increasing xs \<and> xs \<noteq> [] \<and> hd xs = v"
  shows "common xss = v # common (map tl xss)"
proof -
  have xs: "xs = v # tl xs" "v \<notin> set (tl xs)" if "xs \<in> set xss" for xs using assms(2) that by (cases xs; force)+
  have h: "hd xss \<in> set xss" using assms(1) by simp
  have v: "\<forall>xs \<in> set xss. v \<in> set xs" using xs(1) by (metis list.set_intros(1))
  have "common xss = filter (\<lambda>x. \<forall>xs \<in> set xss. x \<in> set xs) (v # tl (hd xss))" unfolding common_def using xs(1) [OF h] by simp
  also have "\<dots> = v # filter (\<lambda>x. \<forall>xs \<in> set xss. x \<in> set xs) (tl (hd xss))" using v by simp
  also have "filter (\<lambda>x. \<forall>xs \<in> set xss. x \<in> set xs) (tl (hd xss)) = filter (\<lambda>x. \<forall>xs \<in> set xss. x \<in> set (tl xs)) (tl (hd xss))"
  proof (intro filter_cong refl)
    fix x assume "x \<in> set (tl (hd xss))"
    then have "x \<noteq> v" using xs(2) [OF h] by auto
    then show "(\<forall>xs \<in> set xss. x \<in> set xs) = (\<forall>xs \<in> set xss. x \<in> set (tl xs))" using xs(1) by (metis set_ConsD list.set_intros(2))
  qed
  also have "v # \<dots> = v # common (map tl xss)" using assms(1) by (simp add: common_def hd_map)
  finally show ?thesis .
qed

section \<open>All states\<close>

text \<open>For every state the ids passed and the ids from the current one on.\<close>

type_synonym progress = "(u32 list \<times> u32 list) list"

definition states_left :: "heap \<Rightarrow> iss list \<Rightarrow> progress \<Rightarrow> bool" where
  "states_left h ss ps \<longleftrightarrow> list_all2 (\<lambda>s p. iss_left h s (fst p) (snd p)) ss ps"

lemma states_left_simps [simp]:
  "states_left h [] []" "states_left h (s # ss) (p # ps) \<longleftrightarrow> iss_left h s (fst p) (snd p) \<and> states_left h ss ps"
  "states_left h [] ps \<longleftrightarrow> ps = []"
  by (simp_all add: states_left_def)

lemma states_left_length: "states_left h ss ps \<Longrightarrow> length ss = length ps"
  unfolding states_left_def by (rule list_all2_lengthD)

lemma states_left_increasing: "states_left h ss ps \<Longrightarrow> p \<in> set ps \<Longrightarrow> increasing (fst p @ snd p)"
  by (induction ss ps rule: list_induct2') (auto simp: iss_left_def)

definition ended :: "progress \<Rightarrow> nat" where
  "ended ps = length (filter (\<lambda>p. snd p = []) ps)"

lemma ended_simps [simp]: "ended [] = 0" "ended (p # ps) = (if snd p = [] then 1 else 0) + ended ps"
  by (simp_all add: ended_def)

lemma ended_0: "ended ps = 0 \<longleftrightarrow> (\<forall>p \<in> set ps. snd p \<noteq> [])"
  by (induction ps) auto

lemma ended_le: "ended ps \<le> length ps"
  by (simp add: ended_def)

definition moved :: "u32 \<Rightarrow> u32 list \<times> u32 list \<Rightarrow> u32 list \<times> u32 list" where
  "moved v p = (fst p @ takeWhile (\<lambda>x. x < v) (snd p), dropWhile (\<lambda>x. x < v) (snd p))"

definition advanced_one :: "u32 list \<times> u32 list \<Rightarrow> u32 list \<times> u32 list" where
  "advanced_one p = (fst p @ [hd (snd p)], tl (snd p))"

lemma step_simps [simp]:
  "fst (moved v p) = fst p @ takeWhile (\<lambda>x. x < v) (snd p)" "snd (moved v p) = dropWhile (\<lambda>x. x < v) (snd p)"
  "fst (advanced_one p) = fst p @ [hd (snd p)]" "snd (advanced_one p) = tl (snd p)"
  by (simp_all add: moved_def advanced_one_def)

lemma iss_move_all_spec:
  "states_left h ss ps \<Longrightarrow> \<forall>p \<in> set ps. \<forall>y \<in> set (fst p). y < v \<Longrightarrow>
    \<exists>ss'. iss_move_all h v (length ss) ss vc ae oe = Inr (ss', vc - of_nat (ended (map (moved v) ps)),
      ae \<and> (\<forall>p \<in> set ps. v \<in> set (snd p)), oe \<or> (\<exists>p \<in> set ps. v \<in> set (snd p))) \<and> states_left h ss' (map (moved v) ps)"
proof (induction ss arbitrary: ps vc ae oe)
  case (Cons s ss)
  then obtain p ps' where ps: "ps = p # ps'" by (cases ps) (auto simp: states_left_def)
  have p: "iss_left h s (fst p) (snd p)" "states_left h ss ps'" "\<forall>y \<in> set (fst p). y < v" "\<forall>p \<in> set ps'. \<forall>y \<in> set (fst p). y < v"
    using Cons.prems ps by auto
  from iss_move_spec [OF p(1), of v] obtain s' where s': "iss_moveTillLargerOrEqual h v s = Inr s'"
    "iss_left h s' (fst p @ takeWhile (\<lambda>x. x < v) (snd p)) (dropWhile (\<lambda>x. x < v) (snd p))" by blast
  note id = iss_moved_id [OF s'(2) p(3)] and va = iss_left_valid(1) [OF s'(2)]
  from Cons.IH [OF p(2,4), of "if iss_valid s' then vc else vc - 1" "ae \<and> iss_id s' = v" "oe \<or> iss_id s' = v"] obtain ss' where
    1: "iss_move_all h v (length ss) ss (if iss_valid s' then vc else vc - 1) (ae \<and> iss_id s' = v) (oe \<or> iss_id s' = v) =
      Inr (ss', (if iss_valid s' then vc else vc - 1) - of_nat (ended (map (moved v) ps')),
        (ae \<and> iss_id s' = v) \<and> (\<forall>p \<in> set ps'. v \<in> set (snd p)), (oe \<or> iss_id s' = v) \<or> (\<exists>p \<in> set ps'. v \<in> set (snd p)))"
      "states_left h ss' (map (moved v) ps')" by blast
  have "(if iss_valid s' then vc else vc - 1) - of_nat (ended (map (moved v) ps')) = vc - of_nat (ended (map (moved v) ps))"
    using va by (simp add: ps)
  then have "iss_move_all h v (length (s # ss)) (s # ss) vc ae oe = Inr (s' # ss', vc - of_nat (ended (map (moved v) ps)),
      ae \<and> (\<forall>p \<in> set ps. v \<in> set (snd p)), oe \<or> (\<exists>p \<in> set ps. v \<in> set (snd p)))"
    using s'(1) 1(1) id by (auto simp: ps)
  then show ?case using 1(2) s'(2) by (auto simp: ps)
qed simp

lemma iss_move_all_short:
  "states_left h ss ps \<Longrightarrow> length ss < n \<Longrightarrow> iss_move_all h v n ss vc ae oe = Inl UndefinedBehaviour"
proof (induction ss arbitrary: n ps vc ae oe)
  case Nil
  then show ?case by (cases n) simp_all
next
  case (Cons s ss)
  then obtain p ps' k where ps: "ps = p # ps'" and n: "n = Suc k" by (cases ps; cases n) (auto simp: states_left_def)
  from iss_move_spec [of h s "fst p" "snd p" v] Cons.prems ps obtain s' where "iss_moveTillLargerOrEqual h v s = Inr s'" by auto
  then show ?case using Cons.IH [of ps' k] Cons.prems ps n by simp
qed

lemma iss_next_all_spec:
  "states_left h ss ps \<Longrightarrow> \<forall>p \<in> set ps. snd p \<noteq> [] \<Longrightarrow>
    \<exists>ss'. iss_next_all h (length ss) ss vc = Inr (ss', vc - of_nat (ended (map advanced_one ps))) \<and> states_left h ss' (map advanced_one ps)"
proof (induction ss arbitrary: ps vc)
  case (Cons s ss)
  then obtain ys x xs ps' where ps: "ps = (ys, x # xs) # ps'" by (cases ps) (auto simp: states_left_def neq_Nil_conv)
  have p: "iss_left h s ys (x # xs)" "states_left h ss ps'" "\<forall>p \<in> set ps'. snd p \<noteq> []" using Cons.prems ps by auto
  from iss_next_spec [OF p(1)] obtain s' where s': "iss_next h s = Inr s'" "iss_left h s' (ys @ [x]) xs" by blast
  note va = iss_left_valid(1) [OF s'(2)]
  from Cons.IH [OF p(2,3), of "if iss_valid s' then vc else vc - 1"] obtain ss' where
    1: "iss_next_all h (length ss) ss (if iss_valid s' then vc else vc - 1) =
        Inr (ss', (if iss_valid s' then vc else vc - 1) - of_nat (ended (map advanced_one ps')))" "states_left h ss' (map advanced_one ps')" by blast
  have "(if iss_valid s' then vc else vc - 1) - of_nat (ended (map advanced_one ps')) = vc - of_nat (ended (map advanced_one ps))"
    using va by (simp add: ps)
  then have "iss_next_all h (length (s # ss)) (s # ss) vc = Inr (s' # ss', vc - of_nat (ended (map advanced_one ps)))" using s'(1) 1(1) by simp
  then show ?case using 1(2) s'(2) by (auto simp: ps)
qed simp

lemma iss_max_spec:
  "states_left h ss ps \<Longrightarrow> \<forall>p \<in> set ps. snd p \<noteq> [] \<Longrightarrow>
    \<exists>v. iss_max (length ss) ss m = Inr v \<and> m \<le> v \<and> (\<forall>p \<in> set ps. hd (snd p) \<le> v) \<and> (v = m \<or> (\<exists>p \<in> set ps. v = hd (snd p)))"
proof (induction ss arbitrary: ps m)
  case (Cons s ss)
  then obtain ys x xs ps' where ps: "ps = (ys, x # xs) # ps'" by (cases ps) (auto simp: states_left_def neq_Nil_conv)
  have p: "iss_left h s ys (x # xs)" "states_left h ss ps'" "\<forall>p \<in> set ps'. snd p \<noteq> []" using Cons.prems ps by auto
  have s: "iss_valid s" "iss_id s = x" using iss_left_valid [OF p(1)] iss_left_valid(2) [OF p(1)] by auto
  let ?m = "if m \<le> x then x else m"
  from Cons.IH [OF p(2,3), of ?m] obtain v where
    v: "iss_max (length ss) ss ?m = Inr v" "?m \<le> v" "\<forall>p \<in> set ps'. hd (snd p) \<le> v" "v = ?m \<or> (\<exists>p \<in> set ps'. v = hd (snd p))" by blast
  have "m \<le> v" "x \<le> v" using v(2) by (auto split: if_splits)
  then show ?case using v s by (auto simp: ps split: if_splits)
qed simp

lemma iss_max_0:
  assumes "states_left h ss ps" "\<forall>p \<in> set ps. snd p \<noteq> []" "ps \<noteq> []"
  shows "\<exists>v. iss_max (length ss) ss 0 = Inr v \<and> (\<forall>p \<in> set ps. hd (snd p) \<le> v) \<and> (\<exists>p \<in> set ps. hd (snd p) = v)"
proof -
  from iss_max_spec [OF assms(1,2), of 0] obtain v where
    v: "iss_max (length ss) ss 0 = Inr v" "\<forall>p \<in> set ps. hd (snd p) \<le> v" "v = 0 \<or> (\<exists>p \<in> set ps. v = hd (snd p))" by blast
  have "\<exists>p \<in> set ps. hd (snd p) = v"
  proof (cases "v = 0")
    case True
    then have "hd (snd (hd ps)) = v" using v(2) assms(3) by simp
    then show ?thesis using assms(3) by (metis hd_in_set)
  qed (use v(3) in auto)
  then show ?thesis using v(1,2) by blast
qed

section \<open>The class of the states\<close>

definition ist_left :: "heap \<Rightarrow> index_states \<Rightarrow> progress \<Rightarrow> bool" where
  "ist_left h t ps \<longleftrightarrow> states_left h (ist_states t) ps \<and> unat (ist_stateCount t) = length ps \<and>
     ist_validCounter t = of_nat (length ps) - of_nat (ended ps)"

lemma ist_left_counter:
  assumes "ist_left h t ps"
  shows "unat (ist_validCounter t) = length ps - ended ps"
proof -
  have "length ps < 2 ^ 32" using assms unat_bound [of "ist_stateCount t"] by (simp add: ist_left_def)
  then have "unat (of_nat (length ps - ended ps) :: u32) = length ps - ended ps" by (intro unat_of_nat_small) simp
  then show ?thesis using assms ended_le [of ps] by (simp add: ist_left_def of_nat_diff)
qed

lemma allValid_iff: "ist_left h t ps \<Longrightarrow> allValid t \<longleftrightarrow> (\<forall>p \<in> set ps. snd p \<noteq> [])"
proof -
  assume l: "ist_left h t ps"
  then have "length (ist_states t) = length ps" using states_left_length by (auto simp: ist_left_def)
  then have "allValid t \<longleftrightarrow> ended ps = 0" using ist_left_counter [OF l] ended_le [of ps] by (cases ps) (auto simp: allValid_def)
  then show ?thesis using ended_0 by simp
qed

lemma ist_move_spec:
  assumes "ist_left h t ps" "\<forall>p \<in> set ps. snd p \<noteq> []" "\<forall>p \<in> set ps. \<forall>y \<in> set (fst p). y < v"
  shows "\<exists>t' oe. ist_moveTillLargerOrEqual h v t = Inr (t', \<forall>p \<in> set ps. v \<in> set (snd p), oe) \<and> ist_left h t' (map (moved v) ps)"
proof -
  have l: "states_left h (ist_states t) ps" "unat (ist_stateCount t) = length ps" using assms(1) by (simp_all add: ist_left_def)
  have "ended ps = 0" using assms(2) by (simp add: ended_0)
  then have vc: "ist_validCounter t = of_nat (length ps)" using assms(1) by (simp add: ist_left_def)
  from iss_move_all_spec [OF l(1) assms(3), of "ist_validCounter t" True False] l(2) states_left_length [OF l(1)] vc
  show ?thesis by (auto simp: ist_moveTillLargerOrEqual_def ist_left_def)
qed

lemma ist_next_spec:
  assumes "ist_left h t ps" "\<forall>p \<in> set ps. snd p \<noteq> []"
  shows "\<exists>t'. ist_next h t = Inr t' \<and> ist_left h t' (map advanced_one ps)"
proof -
  have l: "states_left h (ist_states t) ps" "unat (ist_stateCount t) = length ps" using assms(1) by (simp_all add: ist_left_def)
  have "ended ps = 0" using assms(2) by (simp add: ended_0)
  then have vc: "ist_validCounter t = of_nat (length ps)" using assms(1) by (simp add: ist_left_def)
  from iss_next_all_spec [OF l(1) assms(2), of "ist_validCounter t"] l(2) states_left_length [OF l(1)] vc
  show ?thesis by (auto simp: ist_next_def ist_left_def)
qed

lemma iss_news_spec:
  "list_all2 (rld_inv h) xs xss \<Longrightarrow> \<forall>l \<in> set xss. increasing l \<and> l \<noteq> [] \<Longrightarrow>
    \<exists>ss. iss_news h (map rld_data xs) = Inr ss \<and> states_left h ss (map (Pair []) xss)"
proof (induction xs xss rule: list_all2_induct)
  case (Cons x xs l ls)
  then have "increasing l" "l \<noteq> []" by simp_all
  from iss_new_spec [OF Cons.hyps(1) this] Cons.IH Cons.prems show ?case by auto
qed simp

lemma ist_new_spec:
  assumes "list_all2 (rld_inv h) xs xss" "\<forall>l \<in> set xss. increasing l \<and> l \<noteq> []" "unat n = length xss"
  shows "\<exists>t. ist_new h n (map rld_data xs) = Inr t \<and> ist_left h t (map (Pair []) xss)"
proof -
  from iss_news_spec [OF assms(1,2)] obtain ss where ss: "iss_news h (map rld_data xs) = Inr ss" "states_left h ss (map (Pair []) xss)" by blast
  have "ended (map (Pair []) xss :: progress) = 0" using assms(2) by (auto simp: ended_0)
  moreover have "n = of_nat (length xss)" using assms(3) by (metis of_nat_unat ucast_id)
  ultimately show ?thesis using ss assms(3) by (simp add: ist_new_def ist_left_def)
qed

section \<open>To the next id that all have\<close>

definition total :: "progress \<Rightarrow> nat" where
  "total ps = sum_list (map (length \<circ> snd) ps)"

lemma total_simps [simp]: "total [] = 0" "total (p # ps) = length (snd p) + total ps"
  by (simp_all add: total_def)

lemma total_moved_le: "total (map (moved v) ps) \<le> total ps"
proof (induction ps)
  case (Cons p ps)
  then show ?case using length_dropWhile_le [of "\<lambda>x. x < v" "snd p"] by simp
qed simp

lemma total_moved_less: "p \<in> set ps \<Longrightarrow> snd p \<noteq> [] \<Longrightarrow> hd (snd p) < v \<Longrightarrow> total (map (moved v) ps) < total ps"
proof (induction ps)
  case (Cons q ps)
  show ?case
  proof (cases "q = p")
    case True
    then obtain x xs where "snd q = x # xs" "x < v" using Cons.prems by (cases "snd p") auto
    then show ?thesis using length_dropWhile_le [of "\<lambda>x. x < v" xs] total_moved_le [of v ps] by simp
  next
    case False
    then show ?thesis using Cons length_dropWhile_le [of "\<lambda>x. x < v" "snd q"] by (auto intro: add_le_less_mono)
  qed
qed simp

lemma total_advanced: "ps \<noteq> [] \<Longrightarrow> \<forall>p \<in> set ps. snd p \<noteq> [] \<Longrightarrow> total (map advanced_one ps) < total ps"
proof (induction ps)
  case (Cons p ps)
  have "total (map advanced_one ps) \<le> total ps" using Cons by (cases "ps = []") auto
  moreover have "length (tl (snd p)) < length (snd p)" using Cons.prems(2) by simp
  ultimately show ?case by (simp del: length_tl)
qed simp

lemma ist_left_increasing: "ist_left h t ps \<Longrightarrow> p \<in> set ps \<Longrightarrow> increasing (fst p @ snd p)"
  using states_left_increasing by (auto simp: ist_left_def)

lemma common_moved:
  assumes "ist_left h t ps" "p \<in> set ps" "snd p \<noteq> []" "hd (snd p) = v"
  shows "common (map snd (map (moved v) ps)) = common (map snd ps)"
proof -
  have "map snd (map (moved v) ps) = map (dropWhile (\<lambda>x. x < v)) (map snd ps)" by simp
  moreover have "map snd ps \<noteq> []" "\<forall>xs \<in> set (map snd ps). increasing xs" "snd p \<in> set (map snd ps)"
    using assms(2) ist_left_increasing [OF assms(1)] by (auto simp: sorted_wrt_append)
  ultimately show ?thesis using common_drop assms(3,4) by metis
qed

lemma common_advanced:
  assumes "ist_left h t ps" "ps \<noteq> []" "\<forall>p \<in> set ps. snd p \<noteq> [] \<and> hd (snd p) = v"
  shows "common (map snd ps) = v # common (map snd (map advanced_one ps))"
proof -
  have e: "map snd (map advanced_one ps) = map tl (map snd ps)" by simp
  have "\<forall>xs \<in> set (map snd ps). increasing xs \<and> xs \<noteq> [] \<and> hd xs = v"
    using assms(3) ist_left_increasing [OF assms(1)] by (auto simp: sorted_wrt_append)
  with common_next [of "map snd ps" v] assms(2) show ?thesis unfolding e by simp
qed

text \<open>A round of the loop: to the largest of the current ids.\<close>

lemma next_equal_round:
  assumes l: "ist_left h t ps" "ps \<noteq> []" "\<forall>p \<in> set ps. snd p \<noteq> []"
  shows "\<exists>v t' ae oe. ist_findMax t = Inr v \<and> ist_moveTillLargerOrEqual h v t = Inr (t', ae, oe) \<and> ist_left h t' (map (moved v) ps) \<and>
    common (map snd (map (moved v) ps)) = common (map snd ps) \<and>
    (if ae then (\<forall>p \<in> set (map (moved v) ps). snd p \<noteq> [] \<and> hd (snd p) = v) else total (map (moved v) ps) < total ps) \<and>
    ((\<forall>p \<in> set (map (moved v) ps). snd p \<noteq> []) \<or> total (map (moved v) ps) < total ps)"
proof -
  have s: "states_left h (ist_states t) ps" "unat (ist_stateCount t) = length (ist_states t)"
    using l(1) states_left_length by (auto simp: ist_left_def)
  from iss_max_0 [OF s(1) l(3,2)] obtain v p where
    v: "iss_max (length (ist_states t)) (ist_states t) 0 = Inr v" "\<forall>q \<in> set ps. hd (snd q) \<le> v" and p: "p \<in> set ps" "hd (snd p) = v" by blast
  have lt: "\<forall>q \<in> set ps. \<forall>y \<in> set (fst q). y < v"
  proof (intro ballI)
    fix q y assume q: "q \<in> set ps" "y \<in> set (fst q)"
    then have "hd (snd q) \<in> set (snd q)" using l(3) by simp
    then have "y < hd (snd q)" using ist_left_increasing [OF l(1) q(1)] q(2) by (simp add: sorted_wrt_append)
    then show "y < v" using v(2) q(1) by force
  qed
  from ist_move_spec [OF l(1,3) lt] obtain t' oe where
    m: "ist_moveTillLargerOrEqual h v t = Inr (t', \<forall>p \<in> set ps. v \<in> set (snd p), oe)" "ist_left h t' (map (moved v) ps)" by blast
  have c: "common (map snd (map (moved v) ps)) = common (map snd ps)" using common_moved [OF l(1) p(1) _ p(2)] l(3) p(1) by blast
  have eq: "\<forall>q \<in> set (map (moved v) ps). snd q \<noteq> [] \<and> hd (snd q) = v" if a: "\<forall>p \<in> set ps. v \<in> set (snd p)"
  proof
    fix q' assume "q' \<in> set (map (moved v) ps)"
    then obtain q where q: "q \<in> set ps" "q' = moved v q" by auto
    have i: "increasing (snd q)" using ist_left_increasing [OF l(1) q(1)] by (simp add: sorted_wrt_append)
    have vin: "v \<in> set (dropWhile (\<lambda>x. x < v) (snd q))" using a q(1) set_dropWhile_increasing [OF i] by simp
    then obtain x xs where d: "dropWhile (\<lambda>x. x < v) (snd q) = x # xs" by (cases "dropWhile (\<lambda>x. x < v) (snd q)") (simp only: list.set empty_iff, blast)
    have "\<not> x < v" using d by (metis hd_dropWhile list.sel(1) list.simps(3))
    moreover have "increasing (x # xs)" using i sorted_wrt_append [of "(<)" "takeWhile (\<lambda>x. x < v) (snd q)"] unfolding d [symmetric] by simp
    then have "v \<in> set xs \<Longrightarrow> x < v" by simp
    ultimately have "x = v" using vin d by auto
    then show "snd q' \<noteq> [] \<and> hd (snd q') = v" using d q(2) by simp
  qed
  have less: "total (map (moved v) ps) < total ps" if "q \<in> set ps" "hd (snd q) \<noteq> v" for q
    using total_moved_less [OF that(1)] l(3) v(2) that by (metis le_less)
  have same: "v \<in> set (snd q)" if "q \<in> set ps" "hd (snd q) = v" for q using that l(3) by (metis hd_in_set)
  show ?thesis
  proof (cases "\<forall>q \<in> set ps. v \<in> set (snd q)")
    case True
    then show ?thesis using v(1) s(2) m c eq [OF True] by (auto simp: ist_findMax_def)
  next
    case False
    then obtain q where "q \<in> set ps" "hd (snd q) \<noteq> v" using same by blast
    from less [OF this] show ?thesis using v(1) s(2) m c False unfolding ist_findMax_def by auto
  qed
qed

lemma ist_moveToNextEqual_spec:
  assumes l: "ist_left h t ps" "ps \<noteq> []" "\<forall>p \<in> set ps. snd p \<noteq> []"
  shows "\<exists>ok v t' ps'. ist_moveToNextEqual h i t = Inr (ok, v, t') \<and> ist_left h t' ps' \<and> ps' \<noteq> [] \<and>
    common (map snd ps') = common (map snd ps) \<and>
    (if ok then (\<forall>p \<in> set ps'. snd p \<noteq> [] \<and> hd (snd p) = v) \<and> total ps' \<le> total ps else common (map snd ps) = [] \<and> total ps' < total ps)"
proof -
  let ?c = "\<lambda>(i :: u32, allEqual, t). allValid t \<and> \<not> allEqual"
  let ?b = "\<lambda>(_ :: u32, _ :: bool, t). bindE (ist_findMax t) (\<lambda>i. bindE (ist_moveTillLargerOrEqual h i t) (\<lambda>(t, allEqual, oneEqual). Inr (i, allEqual, t)))"
  define I where "I = (\<lambda>(v, ae, u) (qs, be). be = ae \<and> ist_left h u qs \<and> qs \<noteq> [] \<and> common (map snd qs) = common (map snd ps) \<and>
    total qs \<le> total ps \<and> (ae \<longrightarrow> (\<forall>p \<in> set qs. snd p \<noteq> [] \<and> hd (snd p) = v)) \<and> ((\<forall>p \<in> set qs. snd p \<noteq> []) \<or> total qs < total ps))"
  let ?m = "\<lambda>(qs, be). 2 * total qs + (if be then 0 else 1)"
  have step: "\<exists>s' g'. ?b s = Inr s' \<and> I s' g' \<and> ?m g' < ?m g" if i: "I s g" and c: "?c s" for s g
  proof -
    obtain v ae u where s: "s = (v, ae, u)" by (cases s)
    obtain qs be where g: "g = (qs, be)" by (cases g)
    have q: "ist_left h u qs" "qs \<noteq> []" "common (map snd qs) = common (map snd ps)" "total qs \<le> total ps" "\<not> be" "allValid u"
      using i c s g by (auto simp: I_def)
    have va: "\<forall>p \<in> set qs. snd p \<noteq> []" using allValid_iff [OF q(1)] q(6) by blast
    from next_equal_round [OF q(1,2) va] obtain w u' ae' oe where
      r: "ist_findMax u = Inr w" "ist_moveTillLargerOrEqual h w u = Inr (u', ae', oe)" "ist_left h u' (map (moved w) qs)"
        "common (map snd (map (moved w) qs)) = common (map snd qs)"
        "if ae' then (\<forall>p \<in> set (map (moved w) qs). snd p \<noteq> [] \<and> hd (snd p) = w) else total (map (moved w) qs) < total qs"
        "(\<forall>p \<in> set (map (moved w) qs). snd p \<noteq> []) \<or> total (map (moved w) qs) < total qs" by (elim exE conjE) (rule that)
    have le: "total (map (moved w) qs) \<le> total qs" by (rule total_moved_le)
    have "I (w, ae', u') (map (moved w) qs, ae')"
      unfolding I_def prod.case using r(3-6) q(2-4) le by (auto simp: comp_def simp del: step_simps)
    moreover have "?b s = Inr (w, ae', u')" using s r(1,2) by simp
    moreover have "?m (map (moved w) qs, ae') < ?m g" using g q(5) r(5) le by (auto split: if_splits)
    ultimately show ?thesis by blast
  qed
  have "I (i, False, t) (ps, False)" using l by (simp add: I_def)
  from while_res_ghost [where I = I and c = ?c and b = ?b and m = ?m, OF this step] obtain s g where
    w: "while_res ?c ?b (i, False, t) = Inr s" "I s g" "\<not> ?c s" by blast
  obtain v ae u where s: "s = (v, ae, u)" by (cases s)
  obtain qs be where g: "g = (qs, be)" by (cases g)
  have q: "ist_left h u qs" "qs \<noteq> []" "common (map snd qs) = common (map snd ps)" "total qs \<le> total ps"
    "ae \<Longrightarrow> \<forall>p \<in> set qs. snd p \<noteq> [] \<and> hd (snd p) = v" "(\<forall>p \<in> set qs. snd p \<noteq> []) \<or> total qs < total ps" "allValid u \<Longrightarrow> ae"
    using w(2,3) s g by (auto simp: I_def)
  have e: "ist_moveToNextEqual h i t = Inr (allValid u, v, u)" using w(1) s by (simp add: ist_moveToNextEqual_def)
  show ?thesis
  proof (cases "allValid u")
    case True
    then show ?thesis using e q by (intro exI [of _ True] exI [of _ v] exI [of _ u] exI [of _ qs]) simp
  next
    case False
    then have n: "\<not> (\<forall>p \<in> set qs. snd p \<noteq> [])" using allValid_iff [OF q(1)] by simp
    then have "[] \<in> set (map snd qs)" by force
    then have "common (map snd qs) = []" by (rule common_Nil)
    then show ?thesis using e q(1-3,6) n False by (intro exI [of _ False] exI [of _ v] exI [of _ u] exI [of _ qs]) auto
  qed
qed

end
