(* ===== verification/ItemIndexRleMany.thy ===== *)
theory ItemIndexRleMany
  imports ItemIndexRleMulti
begin

text \<open>What \<open>constrainedIntersect\<close> and \<open>fusedIntersectDifference\<close> return, and when the latter is undefined.\<close>

section \<open>The intersection of all\<close>

lemma take_prefix: "rs @ zs = C \<Longrightarrow> length rs \<le> n \<Longrightarrow> zs = [] \<or> n \<le> length rs \<Longrightarrow> rs = take n C"
  by auto

lemma ci_round_spec:
  assumes l: "ist_left h t ps" "ps \<noteq> []" "allValid t"
  shows "\<exists>v t' ps' us. ci_round h (i, t, rs) = Inr (v, t', rs @ us) \<and> ist_left h t' ps' \<and> ps' \<noteq> [] \<and> length us \<le> 1 \<and>
    common (map snd ps) = us @ common (map snd ps') \<and> total ps' < total ps"
proof -
  have va: "\<forall>p \<in> set ps. snd p \<noteq> []" using allValid_iff [OF l(1)] l(3) by blast
  from ist_moveToNextEqual_spec [OF l(1,2) va, of i] obtain ok v t1 qs where
    1: "ist_moveToNextEqual h i t = Inr (ok, v, t1)" "ist_left h t1 qs" "qs \<noteq> []" "common (map snd qs) = common (map snd ps)"
      "if ok then (\<forall>p \<in> set qs. snd p \<noteq> [] \<and> hd (snd p) = v) \<and> total qs \<le> total ps else common (map snd ps) = [] \<and> total qs < total ps" by blast
  show ?thesis
  proof (cases ok)
    case True
    then have q: "\<forall>p \<in> set qs. snd p \<noteq> [] \<and> hd (snd p) = v" "total qs \<le> total ps" using 1(5) by simp_all
    from ist_next_spec [OF 1(2)] q(1) obtain t2 where 2: "ist_next h t1 = Inr t2" "ist_left h t2 (map advanced_one qs)" by blast
    have "total (map advanced_one qs) < total ps" using total_advanced [OF 1(3)] q by fastforce
    moreover have "common (map snd ps) = [v] @ common (map snd (map advanced_one qs))" using common_advanced [OF 1(2,3) q(1)] 1(4) by simp
    moreover have "ci_round h (i, t, rs) = Inr (v, t2, rs @ [v])" using True 1(1) 2(1) by (simp add: ci_round_def)
    ultimately show ?thesis using 1(3) 2(2)
      by (intro exI [of _ v] exI [of _ t2] exI [of _ "map advanced_one qs"] exI [of _ "[v]"]) (simp del: map_map)
  next
    case False
    then have "ci_round h (i, t, rs) = Inr (v, t1, rs @ [])" using 1(1) by (simp add: ci_round_def)
    then show ?thesis using False 1
      by (intro exI [of _ v] exI [of _ t1] exI [of _ qs] exI [of _ "[]"]) simp
  qed
qed

lemma rld_constrainedIntersect_spec:
  assumes "list_all2 (rld_inv h) xs xss" "\<forall>l \<in> set xss. increasing l \<and> l \<noteq> []" "xs \<noteq> []" "length xs < 2 ^ 32"
  shows "rld_constrainedIntersect h xs count = Inr (take (unat count) (common xss))"
proof -
  let ?n = "of_nat (length xs) :: u32" and ?C = "common xss"
  have len: "length xss = length xs" using assms(1) by (simp add: list_all2_lengthD)
  have n: "unat ?n = length xss" using assms(4) len by (simp add: unat_of_nat_small)
  from ist_new_spec [OF assms(1,2) n] obtain t0 where t0: "ist_new h ?n (map rld_data xs) = Inr t0" "ist_left h t0 (map (Pair []) xss)" by blast
  have xne: "xss \<noteq> []" using assms(3) len by auto
  let ?c = "\<lambda>(i :: u32, t, rs :: u32 list). allValid t \<and> length rs < unat count"
  define I where "I = (\<lambda>(i :: u32, t, rs) ps. ist_left h t ps \<and> ps \<noteq> [] \<and> rs @ common (map snd ps) = ?C \<and> length rs \<le> unat count)"
  have step: "\<exists>s' ps'. ci_round h s = Inr s' \<and> I s' ps' \<and> total ps' < total ps" if i: "I s ps" and c: "?c s" for s ps
  proof -
    obtain i t rs where s: "s = (i, t, rs)" by (cases s)
    have q: "ist_left h t ps" "ps \<noteq> []" "rs @ common (map snd ps) = ?C" "allValid t" "length rs < unat count" using i c s by (auto simp: I_def)
    from ci_round_spec [OF q(1,2,4), of i rs] obtain v t' ps' us where
      r: "ci_round h (i, t, rs) = Inr (v, t', rs @ us)" "ist_left h t' ps'" "ps' \<noteq> []" "length us \<le> 1"
        "common (map snd ps) = us @ common (map snd ps')" "total ps' < total ps" by blast
    have "I (v, t', rs @ us) ps'" using r(2-5) q(3,5) by (simp add: I_def)
    then show ?thesis using r(1,6) s by blast
  qed
  have "I (0, t0, []) (map (Pair []) xss)" using t0(2) xne by (simp add: I_def comp_def)
  from while_res_ghost [where I = I and c = ?c and b = "ci_round h" and m = total, OF this step] obtain s ps where
    w: "while_res ?c (ci_round h) (0, t0, []) = Inr s" "I s ps" "\<not> ?c s" by blast
  obtain i t rs where s: "s = (i, t, rs)" by (cases s)
  have q: "ist_left h t ps" "rs @ common (map snd ps) = ?C" "length rs \<le> unat count" using w(2) s by (simp_all add: I_def)
  have "common (map snd ps) = [] \<or> unat count \<le> length rs"
  proof (cases "allValid t")
    case True
    then show ?thesis using w(3) s by simp
  next
    case False
    then have "[] \<in> set (map snd ps)" using allValid_iff [OF q(1)] by force
    then show ?thesis using common_Nil by blast
  qed
  from take_prefix [OF q(2,3) this] show ?thesis using t0(1) w(1) s by (simp add: rld_constrainedIntersect_def)
qed

section \<open>The intersection of some without the others\<close>

text \<open>The ids that none of the lists \<open>yss\<close> has.\<close>

definition in_none :: "u32 list list \<Rightarrow> u32 \<Rightarrow> bool" where
  "in_none yss x \<longleftrightarrow> (\<forall>ys \<in> set yss. x \<notin> set ys)"

definition whole :: "progress \<Rightarrow> u32 list list" where
  "whole qs = map (\<lambda>q. fst q @ snd q) qs"

lemma whole_moved [simp]: "whole (map (moved v) qs) = whole qs"
  by (simp add: whole_def)

lemma fid_move:
  assumes "states_left h (ist_states u) qs" "unat (ist_stateCount u) = length qs" "\<forall>q \<in> set qs. \<forall>y \<in> set (fst q). y < v"
  shows "\<exists>u' ae. ist_moveTillLargerOrEqual h v u = Inr (u', ae, \<not> in_none (whole qs) v) \<and> states_left h (ist_states u') (map (moved v) qs) \<and>
    ist_stateCount u' = ist_stateCount u"
proof -
  have "(\<exists>q \<in> set qs. v \<in> set (snd q)) \<longleftrightarrow> \<not> in_none (whole qs) v" using assms(3) by (auto simp: in_none_def whole_def)
  then show ?thesis
    using iss_move_all_spec [OF assms(1,3), of "ist_validCounter u" True False] assms(2) states_left_length [OF assms(1)]
    by (auto simp: ist_moveTillLargerOrEqual_def)
qed

lemma fid_round_spec:
  assumes l: "ist_left h t ps" "ps \<noteq> []" "allValid t"
    and u: "states_left h (ist_states u) qs" "unat (ist_stateCount u) = length qs"
    and lt: "\<forall>q \<in> set qs. \<forall>y \<in> set (fst q). \<forall>c \<in> set (common (map snd ps)). y < c"
  shows "\<exists>v t' u' ps' qs' us. fid_round h (i, t, u, rs) = Inr (v, t', u', rs @ filter (in_none (whole qs)) us) \<and> ist_left h t' ps' \<and> ps' \<noteq> [] \<and>
    states_left h (ist_states u') qs' \<and> unat (ist_stateCount u') = length qs' \<and> whole qs' = whole qs \<and> length us \<le> 1 \<and>
    (\<forall>q \<in> set qs'. \<forall>y \<in> set (fst q). \<forall>c \<in> set (common (map snd ps')). y < c) \<and>
    common (map snd ps) = us @ common (map snd ps') \<and> total ps' < total ps"
proof -
  have va: "\<forall>p \<in> set ps. snd p \<noteq> []" using allValid_iff [OF l(1)] l(3) by blast
  from ist_moveToNextEqual_spec [OF l(1,2) va, of i] obtain ok v t1 rs' where
    1: "ist_moveToNextEqual h i t = Inr (ok, v, t1)" "ist_left h t1 rs'" "rs' \<noteq> []" "common (map snd rs') = common (map snd ps)"
      "if ok then (\<forall>p \<in> set rs'. snd p \<noteq> [] \<and> hd (snd p) = v) \<and> total rs' \<le> total ps else common (map snd ps) = [] \<and> total rs' < total ps" by blast
  show ?thesis
  proof (cases ok)
    case True
    then have q: "\<forall>p \<in> set rs'. snd p \<noteq> [] \<and> hd (snd p) = v" "total rs' \<le> total ps" using 1(5) by simp_all
    from ist_next_spec [OF 1(2)] q(1) obtain t2 where 2: "ist_next h t1 = Inr t2" "ist_left h t2 (map advanced_one rs')" by blast
    have c: "common (map snd ps) = v # common (map snd (map advanced_one rs'))" using common_advanced [OF 1(2,3) q(1)] 1(4) by simp
    have "increasing (hd (map snd rs'))" using ist_left_increasing [OF 1(2), of "hd rs'"] 1(3) by (simp add: hd_map sorted_wrt_append)
    then have inc: "increasing (v # common (map snd (map advanced_one rs')))" using increasing_common 1(4) c by metis
    have "\<forall>q \<in> set qs. \<forall>y \<in> set (fst q). y < v" using lt unfolding c by simp
    from fid_move [OF u this] obtain u' ae where
      3: "ist_moveTillLargerOrEqual h v u = Inr (u', ae, \<not> in_none (whole qs) v)" "states_left h (ist_states u') (map (moved v) qs)"
        "ist_stateCount u' = ist_stateCount u" by blast
    have "\<forall>q \<in> set (map (moved v) qs). \<forall>y \<in> set (fst q). \<forall>c \<in> set (common (map snd (map advanced_one rs'))). y < c"
    proof (intro ballI)
      fix q y c' assume a: "q \<in> set (map (moved v) qs)" "y \<in> set (fst q)" "c' \<in> set (common (map snd (map advanced_one rs')))"
      then obtain q0 where q0: "q0 \<in> set qs" "y \<in> set (fst q0) \<or> y \<in> set (takeWhile (\<lambda>x. x < v) (snd q0))" by auto
      then have "y < v" using lt c by (auto dest: set_takeWhileD)
      moreover have "v < c'" using inc a(3) by simp
      ultimately show "y < c'" by simp
    qed
    moreover have "total (map advanced_one rs') < total ps" using total_advanced [OF 1(3)] q by fastforce
    moreover have "fid_round h (i, t, u, rs) = Inr (v, t2, u', rs @ filter (in_none (whole qs)) [v])"
      using True 1(1) 2(1) 3(1) by (simp add: fid_round_def)
    ultimately show ?thesis using 1(3) 2(2) 3(2,3) u(2) c
      by (intro exI [of _ v] exI [of _ t2] exI [of _ u'] exI [of _ "map advanced_one rs'"] exI [of _ "map (moved v) qs"] exI [of _ "[v]"])
        (simp del: map_map step_simps filter.simps)
  next
    case False
    then have "fid_round h (i, t, u, rs) = Inr (v, t1, u, rs @ filter (in_none (whole qs)) [])" using 1(1) by (simp add: fid_round_def)
    then show ?thesis using False 1 u
      by (intro exI [of _ v] exI [of _ t1] exI [of _ u] exI [of _ rs'] exI [of _ qs] exI [of _ "[]"]) simp
  qed
qed

lemma rld_fused_spec:
  assumes i: "list_all2 (rld_inv h) xs xss" "\<forall>l \<in> set xss. increasing l \<and> l \<noteq> []"
    and s: "list_all2 (rld_inv h) ys yss" "\<forall>l \<in> set yss. increasing l \<and> l \<noteq> []" "length ys = length xs" and n: "xs \<noteq> []" "length xs < 2 ^ 32"
  shows "rld_fusedIntersectDifference h xs ys count = Inr (take (unat count) (filter (in_none yss) (common xss)))"
proof -
  let ?n = "of_nat (length xs) :: u32" and ?C = "common xss"
  have len: "length xss = length xs" "length yss = length xs" using i(1) s(1,3) by (simp_all add: list_all2_lengthD [symmetric])
  have n': "unat ?n = length xss" "unat ?n = length yss" using n(2) len by (simp_all add: unat_of_nat_small)
  from ist_new_spec [OF i n'(1)] obtain t0 where t0: "ist_new h ?n (map rld_data xs) = Inr t0" "ist_left h t0 (map (Pair []) xss)" by blast
  from ist_new_spec [OF s(1,2) n'(2)] obtain u0 where u0: "ist_new h ?n (map rld_data ys) = Inr u0" "ist_left h u0 (map (Pair []) yss)" by blast
  have xne: "xss \<noteq> []" using n(1) len by auto
  let ?c = "\<lambda>(i :: u32, t, u :: index_states, rs :: u32 list). allValid t \<and> length rs < unat count"
  define I where "I = (\<lambda>(i :: u32, t, u :: index_states, rs) (ps, qs). ist_left h t ps \<and> ps \<noteq> [] \<and> states_left h (ist_states u) qs \<and> unat (ist_stateCount u) = length qs \<and>
    whole qs = yss \<and> (\<forall>q \<in> set qs. \<forall>y \<in> set (fst q). \<forall>c \<in> set (common (map snd ps)). y < c) \<and>
    rs @ filter (in_none yss) (common (map snd ps)) = filter (in_none yss) ?C \<and> length rs \<le> unat count)"
  have step: "\<exists>s' g'. fid_round h s = Inr s' \<and> I s' g' \<and> total (fst g') < total (fst g)" if i: "I s g" and c: "?c s" for s g
  proof -
    obtain i t u rs where s: "s = (i, t, u, rs)" by (cases s)
    obtain ps qs where g: "g = (ps, qs)" by (cases g)
    have q: "ist_left h t ps" "ps \<noteq> []" "allValid t" "states_left h (ist_states u) qs" "unat (ist_stateCount u) = length qs"
      "\<forall>q \<in> set qs. \<forall>y \<in> set (fst q). \<forall>c \<in> set (common (map snd ps)). y < c" "whole qs = yss"
      "rs @ filter (in_none yss) (common (map snd ps)) = filter (in_none yss) ?C" "length rs < unat count"
      using i c s g by (auto simp: I_def)
    from fid_round_spec [OF q(1-6), of i rs] obtain v t' u' ps' qs' us where
      r: "fid_round h (i, t, u, rs) = Inr (v, t', u', rs @ filter (in_none (whole qs)) us)" "ist_left h t' ps'" "ps' \<noteq> []"
        "states_left h (ist_states u') qs'" "unat (ist_stateCount u') = length qs'" "whole qs' = whole qs" "length us \<le> 1"
        "\<forall>q \<in> set qs'. \<forall>y \<in> set (fst q). \<forall>c \<in> set (common (map snd ps')). y < c"
        "common (map snd ps) = us @ common (map snd ps')" "total ps' < total ps" by (elim exE conjE) (rule that)
    have "length (filter (in_none yss) us) \<le> 1" by (rule le_trans [OF length_filter_le r(7)])
    then have "I (v, t', u', rs @ filter (in_none yss) us) (ps', qs')" using r(2-6,8,9) q(7-9) by (simp add: I_def)
    then show ?thesis using r(1,10) q(7) s g by auto
  qed
  have "I (0, t0, u0, []) (map (Pair []) xss, map (Pair []) yss)"
    using t0(2) u0(2) xne by (simp add: I_def comp_def whole_def ist_left_def)
  from while_res_ghost [where I = I and c = ?c and b = "fid_round h" and m = "\<lambda>g. total (fst g)", OF this step] obtain s g where
    w: "while_res ?c (fid_round h) (0, t0, u0, []) = Inr s" "I s g" "\<not> ?c s" by blast
  obtain i t u rs where st: "s = (i, t, u, rs)" by (cases s)
  obtain ps qs where g: "g = (ps, qs)" by (cases g)
  have q: "ist_left h t ps" "rs @ filter (in_none yss) (common (map snd ps)) = filter (in_none yss) ?C" "length rs \<le> unat count"
    using w(2) st g by (simp_all add: I_def)
  have "filter (in_none yss) (common (map snd ps)) = [] \<or> unat count \<le> length rs"
  proof (cases "allValid t")
    case True
    then show ?thesis using w(3) st by simp
  next
    case False
    then have "[] \<in> set (map snd ps)" using allValid_iff [OF q(1)] by force
    then show ?thesis using common_Nil by simp
  qed
  from take_prefix [OF q(2,3) this] show ?thesis using t0(1) u0(1) w(1) st s(3) by (simp add: rld_fusedIntersectDifference_def)
qed

text \<open>With more or fewer indices to subtract than to intersect, states are used that there are not.\<close>

lemma rld_fused_fewer: "length ys < length xs \<Longrightarrow> list_all2 (rld_inv h) xs xss \<Longrightarrow> \<forall>l \<in> set xss. increasing l \<and> l \<noteq> [] \<Longrightarrow> length xs < 2 ^ 32 \<Longrightarrow>
    rld_fusedIntersectDifference h xs ys count = Inl UndefinedBehaviour"
  using ist_new_spec [of h xs xss "of_nat (length xs)"] list_all2_lengthD [of "rld_inv h" xs xss]
  by (auto simp: rld_fusedIntersectDifference_def unat_of_nat_small)

lemma rld_fused_more:
  assumes i: "list_all2 (rld_inv h) xs xss" "\<forall>l \<in> set xss. increasing l \<and> l \<noteq> []"
    and s: "list_all2 (rld_inv h) ys yss" "\<forall>l \<in> set yss. increasing l \<and> l \<noteq> []" "length xs < length ys" "length ys < 2 ^ 32"
    and n: "xs \<noteq> []" "common xss \<noteq> []" "count \<noteq> 0"
  shows "rld_fusedIntersectDifference h xs ys count = Inl UndefinedBehaviour"
proof -
  let ?n = "of_nat (length xs) :: u32" and ?k = "of_nat (length ys) :: u32"
  have len: "length xss = length xs" "length yss = length ys" using i(1) s(1) by (simp_all add: list_all2_lengthD [symmetric])
  have n': "unat ?n = length xss" "unat ?k = length yss" using s(3,4) len by (simp_all add: unat_of_nat_small)
  from ist_new_spec [OF i n'(1)] obtain t0 where t0: "ist_new h ?n (map rld_data xs) = Inr t0" "ist_left h t0 (map (Pair []) xss)" by blast
  let ?ys = "take (length xs) ys" and ?yss = "take (length xs) yss"
  have "list_all2 (rld_inv h) ?ys ?yss" "\<forall>l \<in> set ?yss. increasing l \<and> l \<noteq> []" using s(1,2) by (auto dest: in_set_takeD)
  from iss_news_spec [OF this] obtain ss where ss: "iss_news h (map rld_data ?ys) = Inr ss" "states_left h ss (map (Pair []) ?yss)" by blast
  let ?u = "\<lparr>ist_states = ss, ist_stateCount = ?k, ist_validCounter = ?k\<rparr>"
  have u: "ist_new h ?k (map rld_data ?ys) = Inr ?u" using ss(1) by (simp add: ist_new_def)
  have short: "length ss < unat ?k" using states_left_length [OF ss(2)] n'(2) len s(3) by simp
  let ?ps = "map (Pair []) xss :: progress"
  have ps: "?ps \<noteq> []" "\<forall>p \<in> set ?ps. snd p \<noteq> []" "common (map snd ?ps) = common xss" using n(1) len i(2) by (auto simp: comp_def)
  from ist_moveToNextEqual_spec [OF t0(2) ps(1,2), of 0] obtain ok v t1 qs where
    1: "ist_moveToNextEqual h 0 t0 = Inr (ok, v, t1)" "ist_left h t1 qs"
      "if ok then (\<forall>p \<in> set qs. snd p \<noteq> [] \<and> hd (snd p) = v) \<and> total qs \<le> total ?ps else common (map snd ?ps) = [] \<and> total qs < total ?ps" by blast
  have ok: "ok" using 1(3) ps(3) n(2) by (cases ok) simp_all
  then have "\<forall>p \<in> set qs. snd p \<noteq> []" using 1(3) by simp
  from ist_next_spec [OF 1(2) this] obtain t2 where 2: "ist_next h t1 = Inr t2" by blast
  have "ist_moveTillLargerOrEqual h v ?u = Inl UndefinedBehaviour"
    using iss_move_all_short [OF ss(2) short] by (simp add: ist_moveTillLargerOrEqual_def)
  then have r: "fid_round h (0, t0, ?u, []) = Inl UndefinedBehaviour" using 1(1) 2 ok by (simp add: fid_round_def)
  have "allValid t0" using allValid_iff [OF t0(2)] ps(2) by simp
  moreover have "0 < unat count" using n(3) by (simp add: unat_gt_0)
  ultimately have "while_res (\<lambda>(i, t, u, rs). allValid t \<and> length rs < unat count) (fid_round h) (0, t0, ?u, []) = Inl UndefinedBehaviour"
    using r by (subst while_res_unfold) simp
  then show ?thesis using t0(1) u s(3) by (simp add: rld_fusedIntersectDifference_def)
qed

text \<open>With more indices to subtract these states are not used when there is no common id or none is asked for.\<close>

lemma rld_fused_more_none:
  assumes i: "list_all2 (rld_inv h) xs xss" "\<forall>l \<in> set xss. increasing l \<and> l \<noteq> []"
    and s: "list_all2 (rld_inv h) ys yss" "\<forall>l \<in> set yss. increasing l \<and> l \<noteq> []" "length xs < length ys" "length ys < 2 ^ 32"
    and n: "xs \<noteq> []" "common xss = [] \<or> count = 0"
  shows "rld_fusedIntersectDifference h xs ys count = Inr []"
proof -
  let ?n = "of_nat (length xs) :: u32" and ?k = "of_nat (length ys) :: u32"
  have len: "length xss = length xs" using i(1) by (simp add: list_all2_lengthD [symmetric])
  have n': "unat ?n = length xss" using s(3,4) len by (simp add: unat_of_nat_small)
  from ist_new_spec [OF i n'] obtain t0 where t0: "ist_new h ?n (map rld_data xs) = Inr t0" "ist_left h t0 (map (Pair []) xss)" by blast
  let ?ys = "take (length xs) ys" and ?yss = "take (length xs) yss"
  have "list_all2 (rld_inv h) ?ys ?yss" "\<forall>l \<in> set ?yss. increasing l \<and> l \<noteq> []" using s(1,2) by (auto dest: in_set_takeD)
  from iss_news_spec [OF this] obtain ss where ss: "iss_news h (map rld_data ?ys) = Inr ss" by blast
  let ?u = "\<lparr>ist_states = ss, ist_stateCount = ?k, ist_validCounter = ?k\<rparr>"
  have u: "ist_new h ?k (map rld_data ?ys) = Inr ?u" using ss by (simp add: ist_new_def)
  let ?c = "\<lambda>(i :: u32, t, u :: index_states, rs :: u32 list). allValid t \<and> length rs < unat count"
  have "\<exists>i t u. while_res ?c (fid_round h) (0, t0, ?u, []) = Inr (i, t, u, [])"
  proof (cases "count = 0")
    case True
    have "\<not> ?c (0, t0, ?u, [])" using True by simp
    then have "while_res ?c (fid_round h) (0, t0, ?u, []) = Inr (0, t0, ?u, [])" by (rule while_res_stop)
    then show ?thesis by blast
  next
    case False
    let ?ps = "map (Pair []) xss :: progress"
    have ps: "?ps \<noteq> []" "\<forall>p \<in> set ?ps. snd p \<noteq> []" "common (map snd ?ps) = common xss" using n(1) len i(2) by (auto simp: comp_def)
    from ist_moveToNextEqual_spec [OF t0(2) ps(1,2), of 0] obtain ok v t1 qs where
      1: "ist_moveToNextEqual h 0 t0 = Inr (ok, v, t1)" "ist_left h t1 qs" "qs \<noteq> []" "common (map snd qs) = common (map snd ?ps)"
        "if ok then (\<forall>p \<in> set qs. snd p \<noteq> [] \<and> hd (snd p) = v) \<and> total qs \<le> total ?ps else common (map snd ?ps) = [] \<and> total qs < total ?ps" by blast
    have "\<not> ok"
    proof
      assume ok
      then have "\<forall>p \<in> set qs. snd p \<noteq> [] \<and> hd (snd p) = v" using 1(5) by simp
      then have "common (map snd qs) \<noteq> []" using common_advanced [OF 1(2,3), of v] by simp
      then show False using 1(4) ps(3) n(2) False by simp
    qed
    then have r: "fid_round h (0, t0, ?u, []) = Inr (v, t1, ?u, [])" using 1(1) by (simp add: fid_round_def)
    have v: "\<not> allValid t1" using 1(1) \<open>\<not> ok\<close> by (auto simp: ist_moveToNextEqual_def)
    have "0 < unat count" using False by (simp add: unat_gt_0)
    then have "?c (0, t0, ?u, [])" using allValid_iff [OF t0(2)] ps(2) by simp
    then have "while_res ?c (fid_round h) (0, t0, ?u, []) = while_res ?c (fid_round h) (v, t1, ?u, [])" using r by (rule while_res_step)
    also have "\<dots> = Inr (v, t1, ?u, [])" by (rule while_res_stop) (use v in simp)
    finally show ?thesis by blast
  qed
  then show ?thesis using t0(1) u s(3) by (auto simp: rld_fusedIntersectDifference_def)
qed

end
