(* ===== verification/ItemIndexRleUniteK.thy ===== *)
theory ItemIndexRleUniteK
  imports ItemIndexRleMulti
begin

text \<open>
  The union of the first ids, \<open>uniteK\<close>, of two run length encoded indices: the union when no id is in both and the number asked for is
  larger than the number of ids. After an id that both have, the next difference of the second operand is halved.
\<close>

section \<open>The remainder\<close>

lemma run_ids_Suc: "run_ids x d (Suc n) = x # run_ids (x + d) d n"
  by (simp add: run_ids_def)

lemma rls_push_run_spec:
  "rlc_inv h rv d0 c zs \<Longrightarrow> length zs + Suc n < 2 ^ 29 \<Longrightarrow> length zs + Suc n \<le> unat numItems \<Longrightarrow>
    \<exists>h' c'. rls_push_run (Suc n) numItems h c it x d = Inr (h', c', it + of_nat (Suc n)) \<and> rlc_inv h' rv d0 c' (zs @ run_ids x d n) \<and>
      others_kept {rv} h h'"
proof (induction n arbitrary: h c zs it x)
  case 0
  have "rlc_count c < numItems" using "0.prems" unat_of_nat_small [of "length zs", where 'a = 32] by (simp add: rlc_inv_def word_less_nat_alt)
  moreover have "length zs + 1 < 2 ^ 29" using "0.prems"(2) by simp
  ultimately show ?case using rlc_push_back_spec [OF "0.prems"(1), of x] by (auto simp: run_ids_def)
next
  case (Suc n)
  have m: "rlc_count c < numItems" using Suc.prems unat_of_nat_small [of "length zs", where 'a = 32] by (simp add: rlc_inv_def word_less_nat_alt)
  have "length zs + 1 < 2 ^ 29" using Suc.prems(2) by simp
  from rlc_push_back_spec [OF Suc.prems(1) this, of x] obtain h1 c1 where
    1: "rlc_push_back h c x = Inr (h1, c1)" "rlc_inv h1 rv d0 c1 (zs @ [x])" "others_kept {rv} h h1" by blast
  have "length (zs @ [x]) + Suc n < 2 ^ 29" "length (zs @ [x]) + Suc n \<le> unat numItems" using Suc.prems by simp_all
  from Suc.IH [OF 1(2) this, of "it + 1" "x + d"] obtain h2 c2 where
    2: "rls_push_run (Suc n) numItems h1 c1 (it + 1) (x + d) d = Inr (h2, c2, it + 1 + of_nat (Suc n))"
      "rlc_inv h2 rv d0 c2 ((zs @ [x]) @ run_ids (x + d) d n)" "others_kept {rv} h1 h2" by blast
  have "rls_push_run (Suc (Suc n)) numItems h c it x d = Inr (h2, c2, it + 1 + of_nat (Suc n))"
    using m 1(1) 2(1) by (subst rls_push_run.simps(2)) (simp del: rls_push_run.simps)
  moreover have "rlc_inv h2 rv d0 c2 (zs @ run_ids x d (Suc n))" using 2(2) by (simp add: run_ids_Suc)
  ultimately show ?case using others_kept_same [OF 1(3) 2(3)] by (simp add: algebra_simps)
qed

text \<open>When all fits, the rest is pushed the way the other operations do.\<close>

lemma rls_remainderK_spec:
  assumes l: "rls_left h sz a xs" "xs \<noteq> []" and c: "rlc_inv h rv d0 c zs" "length zs + length xs < 2 ^ 29" "length zs + length xs < unat numItems"
    and p: "m_priv d0 \<noteq> rv" "m_priv (rls_data a) \<noteq> rv" "isContiguous (storage h (rls_data a))"
    and room: "pushable h d0 (10 + 5 * (length zs + length xs))"
  shows "\<exists>h' c'. rls_remainderK numItems h c a sz = Inr (h', c') \<and> rlc_flushed h rv d0 h' c' (zs @ xs)"
proof -
  let ?ids = "\<lambda>n. run_ids (rls_id a) (rls_val a) n"
  from l obtain ws where w: "xs = rls_id a # sums (rls_id a) (replicate (unat (rls_rle a) - 1) (rls_val a) @ words_deltas ws)" by (auto simp: rls_left_def)
  have "length xs = Suc (unat (rls_rle a) - 1) + length (words_deltas ws)" using arg_cong [OF w, of length] by simp
  then have lx: "Suc (unat (rls_rle a) - 1) \<le> length xs" by simp
  \<comment> \<open>both remainders push the same ids, up to the last run\<close>
  have "\<exists>h1 c1 i. (if rls_rle a \<noteq> 0
            then rls_push_run (unat (rls_rle a)) numItems h c (rls_it a) (rls_id a) (rls_val a)
            else bindE (rlc_push_back h c (rls_id a)) (\<lambda>(h, c). Inr (h, c, rls_it a + 1))) = Inr (h1, c1, rls_it a + i) \<and>
     unat i = Suc (unat (rls_rle a) - 1) \<and> rlc_inv h1 rv d0 c1 (zs @ ?ids (unat (rls_rle a) - 1)) \<and> others_kept {rv} h h1"
  proof (cases "rls_rle a = 0")
    case True
    have "length zs + 1 < 2 ^ 29" using c(2) lx by simp
    from rlc_push_back_spec [OF c(1) this, of "rls_id a"] show ?thesis using True by (auto simp: run_ids_def intro!: exI [of _ 1])
  next
    case False
    then have r: "unat (rls_rle a) = Suc (unat (rls_rle a) - 1)" by (simp add: unat_gt_0)
    then have "length zs + Suc (unat (rls_rle a) - 1) < 2 ^ 29" "length zs + Suc (unat (rls_rle a) - 1) \<le> unat numItems" using c(2,3) lx by simp_all
    from rls_push_run_spec [OF c(1) this, of "rls_it a" "rls_id a" "rls_val a"] show ?thesis using False unfolding r [symmetric]
      by (auto intro!: exI [of _ "rls_rle a"])
  qed
  then obtain h1 c1 i where 1: "(if rls_rle a \<noteq> 0
            then rls_push_run (unat (rls_rle a)) numItems h c (rls_it a) (rls_id a) (rls_val a)
            else bindE (rlc_push_back h c (rls_id a)) (\<lambda>(h, c). Inr (h, c, rls_it a + 1))) = Inr (h1, c1, rls_it a + i)"
     "unat i = Suc (unat (rls_rle a) - 1)" "rlc_inv h1 rv d0 c1 (zs @ ?ids (unat (rls_rle a) - 1))" "others_kept {rv} h h1"
    by (elim exE conjE) (rule that)
  have "length (zs @ ?ids (unat (rls_rle a) - 1)) < unat numItems" using c(3) lx by (simp add: run_ids_def)
  moreover have "unat (rlc_count c1) = length (zs @ ?ids (unat (rls_rle a) - 1))"
    using 1(3) unat_of_nat_small [of "length (zs @ ?ids (unat (rls_rle a) - 1))", where 'a = 32] by (simp add: rlc_inv_def)
  ultimately have "rlc_count c1 < numItems" by (simp add: word_less_nat_alt)
  then have "rls_remainderK numItems h c a sz = rlc_flushWithData h1 c1 (uba_shrinkToGetPtr (rls_data a)) (sz - (rls_it a + i))"
    unfolding rls_remainderK_def 1(1) by simp
  then show ?thesis using rls_rest_flushed [OF l c(2) p room 1(2-4)] by simp
qed

section \<open>The union of two indices without a common id\<close>

lemma merge_UniteOp_distinct:
  "x \<noteq> y \<Longrightarrow> merge_op UniteOp (x # xs) (y # ys) = (if x < y then x # merge_op UniteOp xs (y # ys) else y # merge_op UniteOp (x # xs) ys)"
  by (auto simp: UniteOp_def)

lemma rld_uniteK_round_spec:
  assumes s: "op_state sa sb h0 rv d0 s xs ys zs" and ne: "xs \<noteq> []" "ys \<noteq> []" "hd xs \<noteq> hd ys"
  shows "\<exists>s' xs' ys' u. rld_uniteK_round s = Inr s' \<and> op_state sa sb h0 rv d0 s' xs' ys' (zs @ [u]) \<and>
    merge_op UniteOp xs ys = u # merge_op UniteOp xs' ys' \<and> Suc (length xs' + length ys') = length xs + length ys \<and> set xs' \<subseteq> set xs \<and> set ys' \<subseteq> set ys"
proof -
  obtain h c a b where st: "s = (h, c, a, b)" by (cases s)
  have i: "rls_left h sa a xs" "rls_left h sb b ys" "rlc_inv h rv d0 c zs" "length zs + length xs + length ys < 2 ^ 29"
    "m_priv (rls_data a) \<noteq> rv" "m_priv (rls_data b) \<noteq> rv" using s st by (simp_all add: op_state_def)
  obtain xs0 where xs: "xs = rls_id a # xs0" using i(1) ne(1) by (auto simp: rls_left_def)
  obtain ys0 where ys: "ys = rls_id b # ys0" using i(2) ne(2) by (auto simp: rls_left_def)
  have n: "rls_id a \<noteq> rls_id b" using ne(3) xs ys by simp
  have l: "length zs + 1 < 2 ^ 29" using i(4) xs by simp
  have frame: "rls_left h' sa a xs \<and> rls_left h' sb b ys" if "others_kept {rv} h h'" for h'
    using rls_left_frame [OF i(1)] rls_left_frame [OF i(2)] others_keptD [OF that] i(5,6) by simp
  show ?thesis
  proof (cases "rls_id a < rls_id b")
    case True
    from rlc_push_back_spec [OF i(3) l, of "rls_id a"] obtain h' c' where
      1: "rlc_push_back h c (rls_id a) = Inr (h', c')" "rlc_inv h' rv d0 c' (zs @ [rls_id a])" "others_kept {rv} h h'" by blast
    note f = frame [OF 1(3)]
    from rls_step_spec [OF f [unfolded xs, THEN conjunct1]] obtain a' where
      2: "rls_step h' a = Inr a'" "rls_left h' sa a' xs0" "m_priv (rls_data a') = m_priv (rls_data a)" by blast
    have "op_state sa sb h0 rv d0 (h', c', a', b) xs0 ys (zs @ [rls_id a])"
      using op_stateI [of sa sb h0 rv d0 h c a b "[rls_id a]" xs0 "[]" ys] s st xs 1 2 f by simp
    moreover have "rld_uniteK_round s = Inr (h', c', a', b)" using True n 1(1) 2(1) st by (simp add: rld_uniteK_round_def)
    ultimately show ?thesis using True merge_UniteOp_distinct [OF n, of xs0 ys0] xs ys
      by (intro exI [of _ "(h', c', a', b)"] exI [of _ xs0] exI [of _ ys] exI [of _ "rls_id a"]) auto
  next
    case False
    from rlc_push_back_spec [OF i(3) l, of "rls_id b"] obtain h' c' where
      1: "rlc_push_back h c (rls_id b) = Inr (h', c')" "rlc_inv h' rv d0 c' (zs @ [rls_id b])" "others_kept {rv} h h'" by blast
    note f = frame [OF 1(3)]
    from rls_step_spec [OF f [unfolded ys, THEN conjunct2]] obtain b' where
      2: "rls_step h' b = Inr b'" "rls_left h' sb b' ys0" "m_priv (rls_data b') = m_priv (rls_data b)" by blast
    have "op_state sa sb h0 rv d0 (h', c', a, b') xs ys0 (zs @ [rls_id b])"
      using op_stateI [of sa sb h0 rv d0 h c a b "[]" xs "[rls_id b]" ys0] s st ys 1 2 f by simp
    moreover have "rld_uniteK_round s = Inr (h', c', a, b')" using False n 1(1) 2(1) st by (simp add: rld_uniteK_round_def)
    ultimately show ?thesis using False merge_UniteOp_distinct [OF n, of xs0 ys0] xs ys
      by (intro exI [of _ "(h', c', a, b')"] exI [of _ xs] exI [of _ ys0] exI [of _ "rls_id b"]) auto
  qed
qed

lemma op_state_bounds:
  assumes "op_state sa sb h0 rv d0 (h, c, a, b) xs ys zs"
  shows "rls_it a < sa \<longleftrightarrow> xs \<noteq> []" "rls_it b < sb \<longleftrightarrow> ys \<noteq> []" "unat (rlc_count c) = length zs" "length zs + length xs + length ys < 2 ^ 29"
proof -
  have l: "rls_left h sa a xs" "rls_left h sb b ys" "rlc_inv h rv d0 c zs" "length zs + length xs + length ys < 2 ^ 29" using assms by (simp_all add: op_state_def)
  then show "rls_it a < sa \<longleftrightarrow> xs \<noteq> []" "rls_it b < sb \<longleftrightarrow> ys \<noteq> []" "unat (rlc_count c) = length zs" "length zs + length xs + length ys < 2 ^ 29"
    using rls_left_more unat_of_nat_small [of "length zs", where 'a = 32] by (auto simp: rlc_inv_def)
qed

lemma rld_uniteK_loop_spec:
  assumes s: "op_state sa sb h0 rv d0 s xs ys zs" and d: "set xs \<inter> set ys = {}" and n: "length zs + length xs + length ys < unat numItems"
  shows "\<exists>s' xs' ys' zs'. while_res (\<lambda>(h, c, a, b). rls_it a < sa \<and> rls_it b < sb \<and> rlc_count c < numItems) rld_uniteK_round s = Inr s' \<and>
    op_state sa sb h0 rv d0 s' xs' ys' zs' \<and> zs' @ merge_op UniteOp xs' ys' = zs @ merge_op UniteOp xs ys \<and> (xs' = [] \<or> ys' = []) \<and>
    length zs' + length xs' + length ys' < unat numItems"
proof -
  let ?c = "\<lambda>(h :: heap, c, a, b). rls_it a < sa \<and> rls_it b < sb \<and> rlc_count c < numItems"
  let ?m = "\<lambda>(xs' :: u32 list, ys' :: u32 list, zs' :: u32 list). length xs' + length ys'"
  define I where "I = (\<lambda>u (xs', ys', zs'). op_state sa sb h0 rv d0 u xs' ys' zs' \<and> zs' @ merge_op UniteOp xs' ys' = zs @ merge_op UniteOp xs ys \<and>
    set xs' \<inter> set ys' = {} \<and> length zs' + length xs' + length ys' < unat numItems)"
  have c: "?c u \<longleftrightarrow> xs' \<noteq> [] \<and> ys' \<noteq> []" if "I u (xs', ys', zs')" for u xs' ys' zs'
    using that op_state_bounds by (cases u) (fastforce simp: I_def word_less_nat_alt)
  have step: "\<exists>u' g'. rld_uniteK_round u = Inr u' \<and> I u' g' \<and> ?m g' < ?m g" if i: "I u g" and cu: "?c u" for u g
  proof -
    obtain xs' ys' zs' where g: "g = (xs', ys', zs')" by (cases g)
    have q: "op_state sa sb h0 rv d0 u xs' ys' zs'" "zs' @ merge_op UniteOp xs' ys' = zs @ merge_op UniteOp xs ys" "set xs' \<inter> set ys' = {}"
      "length zs' + length xs' + length ys' < unat numItems" "xs' \<noteq> []" "ys' \<noteq> []" using i cu c [of u xs' ys' zs'] g by (simp_all add: I_def)
    have "hd xs' \<noteq> hd ys'" using q(3,5,6) by (cases xs'; cases ys') auto
    from rld_uniteK_round_spec [OF q(1,5,6) this] obtain u' xs2 ys2 v where
      r: "rld_uniteK_round u = Inr u'" "op_state sa sb h0 rv d0 u' xs2 ys2 (zs' @ [v])" "merge_op UniteOp xs' ys' = v # merge_op UniteOp xs2 ys2"
        "Suc (length xs2 + length ys2) = length xs' + length ys'" "set xs2 \<subseteq> set xs'" "set ys2 \<subseteq> set ys'" by blast
    have "I u' (xs2, ys2, zs' @ [v])" using r(2-6) q(2-4) by (auto simp: I_def)
    then show ?thesis using r(1,4) g by (intro exI [of _ u'] exI [of _ "(xs2, ys2, zs' @ [v])"]) simp
  qed
  have "I s (xs, ys, zs)" using assms by (simp add: I_def)
  from while_res_ghost [where I = I and c = ?c and b = rld_uniteK_round and m = ?m, OF this step] obtain s' g where
    w: "while_res ?c rld_uniteK_round s = Inr s'" "I s' g" "\<not> ?c s'" by blast
  obtain xs' ys' zs' where "g = (xs', ys', zs')" by (cases g)
  then have g: "I s' (xs', ys', zs')" using w(2) by simp
  with w(3) c have "xs' = [] \<or> ys' = []" by blast
  then show ?thesis using w(1) g unfolding I_def by blast
qed

lemma rld_uniteK_rest_spec:
  assumes s: "op_state sa sb h0 rv d0 s xs ys zs" and e: "xs = [] \<or> ys = []" and p: "m_priv d0 \<noteq> rv"
    and n: "length zs + length xs + length ys < unat numItems" and room: "pushable h0 d0 (10 + 5 * 2 ^ 29)"
  shows "\<exists>h' c'. rld_uniteK_rest numItems sa sb s = Inr (h', c') \<and> rlc_flushed h0 rv d0 h' c' (zs @ merge_op UniteOp xs ys)"
proof -
  obtain h c a b where st: "s = (h, c, a, b)" by (cases s)
  have i: "rls_left h sa a xs" "rls_left h sb b ys" "rlc_inv h rv d0 c zs" "others_kept {rv} h0 h"
    "m_priv (rls_data a) \<noteq> rv" "m_priv (rls_data b) \<noteq> rv" "isContiguous (storage h (rls_data a))" "isContiguous (storage h (rls_data b))"
    using s st by (simp_all add: op_state_def)
  note o = op_state_bounds [OF s [unfolded st]]
  have sd: "storage h d0 = storage h0 d0" using others_keptD [OF i(4)] p by simp
  have room1: "pushable h d0 (10 + 5 * k)" if "k < 2 ^ 29" for k
    unfolding pushable_frame [OF sd] by (rule pushable_less [OF room]) (use that in simp)
  have m: "merge_op UniteOp xs ys = xs @ ys" using e by (cases xs; cases ys) (auto simp: UniteOp_def)
  have "\<exists>h' c'. rld_uniteK_rest numItems sa sb s = Inr (h', c') \<and> rlc_flushed h rv d0 h' c' (zs @ merge_op UniteOp xs ys)"
  proof -
    consider "xs \<noteq> []" | "xs = []" "ys \<noteq> []" | "xs = []" "ys = []" by blast
    then show ?thesis
    proof cases
      case 1
      then have "length zs + length xs < 2 ^ 29" "length zs + length xs < unat numItems" using o(4) n by simp_all
      from rls_remainderK_spec [OF i(1) 1 i(3) this p i(5,7) room1 [OF this(1)]] show ?thesis
        using 1 e o unfolding m st rld_uniteK_rest_def by auto
    next
      case 2
      then have "length zs + length ys < 2 ^ 29" "length zs + length ys < unat numItems" using o(4) n by simp_all
      from rls_remainderK_spec [OF i(2) 2(2) i(3) this p i(6,8) room1 [OF this(1)]] show ?thesis
        using 2 o unfolding m st rld_uniteK_rest_def by auto
    next
      case 3
      have "length zs < 2 ^ 29" using o(4) by simp
      from rlc_flush_spec [OF i(3) p room1 [OF this]] show ?thesis using 3 o unfolding m st rld_uniteK_rest_def by auto
    qed
  qed
  then show ?thesis using rlc_flushed_later [OF _ i(4) p] by blast
qed

lemma rld_uniteK_spec:
  assumes "rld_inv h x xs" "rld_inv h y ys" "xs \<noteq> []" "ys \<noteq> []" "increasing xs" "increasing ys" "length xs + length ys < 2 ^ 29"
    and "isContiguous (storage h (rld_data x))" "isContiguous (storage h (rld_data y))"
    and fresh: "r \<notin> {m_priv (rld_data x), m_priv (rld_data y)}" "rv \<notin> {m_priv (rld_data x), m_priv (rld_data y)}" "rv \<noteq> r"
    and d: "set xs \<inter> set ys = {}" "length xs + length ys < unat numItems"
  shows "\<exists>h' z. rld_uniteK h r rv x y numItems = Inr (h', z) \<and> rld_inv h' z (trunc31 (merge_op UniteOp xs ys)) \<and> others_kept {r, rv} h h'"
proof -
  let ?d = "uba_of_priv r 0 8"
  from rld_op_start [OF assms(1-12)] obtain h0 h1 c a b where
    1: "createCache h r 8 = Inr (h0, ?d)" "rlc_new h0 rv ?d = (h1, c)" "rls_start h1 (rld_data x) = Inr a" "rls_start h1 (rld_data y) = Inr b"
      "op_state (rld_size x) (rld_size y) h1 rv ?d (h1, c, a, b) xs ys []" "pushable h1 ?d (10 + 5 * 2 ^ 29)" "uba_inv h1 ?d"
    by (elim exE conjE) (rule that)
  have pd: "m_priv ?d \<noteq> rv" using createCache_kind(1) [OF 1(1)] fresh(3) by simp
  from rld_uniteK_loop_spec [OF 1(5) d(1), of numItems] d(2) obtain s' vs ws zs where
    l: "while_res (\<lambda>(h, c, a, b). rls_it a < rld_size x \<and> rls_it b < rld_size y \<and> rlc_count c < numItems) rld_uniteK_round (h1, c, a, b) = Inr s'"
      "op_state (rld_size x) (rld_size y) h1 rv ?d s' vs ws zs" "zs @ merge_op UniteOp vs ws = merge_op UniteOp xs ys" "vs = [] \<or> ws = []"
      "length zs + length vs + length ws < unat numItems" by auto
  from rld_uniteK_rest_spec [OF l(2,4) pd l(5) 1(6)] obtain h2 c2 where
    2: "rld_uniteK_rest numItems (rld_size x) (rld_size y) s' = Inr (h2, c2)" "rlc_flushed h1 rv ?d h2 c2 (merge_op UniteOp xs ys)" unfolding l(3) by blast
  have "length (merge_op UniteOp xs ys) < 2 ^ 29" using length_merge_op [of UniteOp xs ys] assms(7) by simp
  from flushed_index [OF 1(1,2) 2(2) this fresh(3) 1(7)] show ?thesis
    using 1(1-4) l(1) 2(1) by (auto simp: rld_uniteK_def)
qed

section \<open>After an id that both have\<close>

lemma rls_step_halving_single:
  assumes "reads h (rls_data b) (words_code (Single d # ws))" "word_ok (Single d)" "rls_rle b = 0"
  shows "\<exists>u. rls_step_halving h b = Inr (b\<lparr>rls_data := u, rls_val := drop_bit 1 d, rls_id := rls_id b + drop_bit 1 d, rls_it := rls_it b + 1\<rparr>) \<and>
    reads h u (words_code ws) \<and> m_priv u = m_priv (rls_data b)"
proof -
  have "reads h (rls_data b) (word_code (Single d) @ words_code ws)" using assms(1) by simp
  from reads_word [OF this assms(2)] obtain v u where
    r: "stream_getVlPackedUint32 h (rls_data b) = Inr (v, u)" "\<not> is_run v" "word_value v = d" "reads h u (words_code ws)" "m_priv u = m_priv (rls_data b)" by auto
  have "words_code (Single d # ws) \<noteq> []" using words_code_pos [of "[Single d]"] assms(2) by auto
  then have "m_getPtr (rls_data b) < m_len (rls_data b)" using reads_more [OF assms(1)] by auto
  moreover have "b\<lparr>rls_data := u, rls_rle := 0, rls_val := d\<rparr> = b\<lparr>rls_data := u, rls_val := d\<rparr>" using assms(3) by (cases b) simp
  ultimately show ?thesis using r assms(3) by (auto simp: rls_step_halving_def rls_getNext_def Let_def intro!: exI [of _ u])
qed

text \<open>The union of \<open>[v]\<close> and \<open>v, v + d, \<dots>\<close>: the id behind \<open>v\<close> is \<open>v + d div 2\<close>, and the ids behind it keep their distances.\<close>

lemma rld_uniteK_halves:
  assumes x: "rld_inv h x [v]" and y: "rld_words h y (Single v # Single d # ws)" "rld_decoded y (Single v # Single d # ws) 0"
    and inc: "increasing (v # (v + d) # sums (v + d) (words_deltas ws))" and n: "length (words_deltas ws) + 3 < unat numItems"
    and len: "length (words_deltas ws) + 3 < 2 ^ 29"
    and p: "isContiguous (storage h (rld_data x))" "isContiguous (storage h (rld_data y))"
    "r \<notin> {m_priv (rld_data x), m_priv (rld_data y)}" "rv \<notin> {m_priv (rld_data x), m_priv (rld_data y)}" "rv \<noteq> r"
  defines "zs \<equiv> (v + drop_bit 1 d) # sums (v + drop_bit 1 d) (words_deltas ws)"
  shows "\<exists>h' z. rld_uniteK h r rv x y numItems = Inr (h', z) \<and> rld_inv h' z (trunc31 (v # zs))"
proof -
  let ?d = "uba_of_priv r 0 8" and ?ys = "v # (v + d) # sums (v + d) (words_deltas ws)"
  have yi: "rld_inv h y ?ys" using y unfolding rld_inv_def by (intro exI [of _ "Single v # Single d # ws"] exI [of _ 0]) simp
  have "length [v] + length ?ys < 2 ^ 29" "increasing [v]" using len by simp_all
  from rld_op_start [OF x yi list.distinct(2) list.distinct(2) this(2) inc this(1) p] obtain h0 h1 c a b where
    1: "createCache h r 8 = Inr (h0, ?d)" "rlc_new h0 rv ?d = (h1, c)" "rls_start h1 (rld_data x) = Inr a" "rls_start h1 (rld_data y) = Inr b"
      "op_state (rld_size x) (rld_size y) h1 rv ?d (h1, c, a, b) [v] ?ys []" "pushable h1 ?d (10 + 5 * 2 ^ 29)" "uba_inv h1 ?d" "others_kept {r, rv} h h1"
    by (elim exE conjE) (rule that)
  have pd: "m_priv ?d \<noteq> rv" using createCache_kind(1) [OF 1(1)] p(5) by simp
  have i: "rls_left h1 (rld_size x) a [v]" "rls_left h1 (rld_size y) b ?ys" "rlc_inv h1 rv ?d c []" "m_priv (rls_data a) \<noteq> rv" "m_priv (rls_data b) \<noteq> rv"
    "isContiguous (storage h1 (rls_data b))" using 1(5) by (simp_all add: op_state_def)
  have ids: "rls_id a = v" "rls_id b = v" using i(1,2) by (auto simp: rls_left_def)
  have ok: "word_ok (Single v)" "word_ok (Single d)" "list_all word_ok ws" using y(1) by (simp_all add: rld_words_def)
  have "storage h1 (rld_data y) = storage h (rld_data y)" using others_keptD [OF 1(8), of "rld_data y"] p(3,4) by auto
  then have "rld_words h1 y (Single v # Single d # ws)" using rld_words_frame y(1) by blast
  then have "reads h1 (uba_resetGetPtr (rld_data y)) (word_code (Single v) @ words_code (Single d # ws))" by (auto simp: rld_words_def reads_def uba_resetGetPtr_def)
  from reads_word [OF this ok(1)] obtain w u where "stream_getVlPackedUint32 h1 (uba_resetGetPtr (rld_data y)) = Inr (w, u)" "\<not> is_run w"
      "reads h1 u (words_code (Single d # ws))" by auto
  then have b: "rls_rle b = 0" "rls_it b = 0" "reads h1 (rls_data b) (words_code (Single d # ws))" using 1(4) by (auto simp: rls_start_def)
  from rlc_push_back_spec [OF i(3), of v] obtain h2 c2 where
    2: "rlc_push_back h1 c v = Inr (h2, c2)" "rlc_inv h2 rv ?d c2 [v]" "others_kept {rv} h1 h2" by auto
  have st: "storage h2 (rls_data a) = storage h1 (rls_data a)" "storage h2 (rls_data b) = storage h1 (rls_data b)" "storage h2 ?d = storage h1 ?d"
    using others_keptD [OF 2(3)] i(4,5) pd by simp_all
  from rls_step_spec [OF rls_left_frame [OF i(1) st(1)]] obtain a' where a': "rls_step h2 a = Inr a'" "rls_left h2 (rld_size x) a' []" by blast
  have "reads h2 (rls_data b) (words_code (Single d # ws))" using reads_frame [OF st(2)] b(3) by simp
  from rls_step_halving_single [OF this ok(2) b(1)] obtain u' where
    b': "rls_step_halving h2 b = Inr (b\<lparr>rls_data := u', rls_val := drop_bit 1 d, rls_id := v + drop_bit 1 d, rls_it := 1\<rparr>)" "reads h2 u' (words_code ws)"
      "m_priv u' = m_priv (rls_data b)" unfolding ids b(2) by auto
  let ?b = "b\<lparr>rls_data := u', rls_val := drop_bit 1 d, rls_id := v + drop_bit 1 d, rls_it := 1\<rparr>"
  have sy: "unat (rld_size y) = Suc (Suc (length (words_deltas ws)))" using rld_size_ids [OF yi] by simp
  then have "(1 :: u32) \<le> rld_size y" by (simp add: word_le_nat_alt)
  then have "unat (rld_size y - 1) = length zs" using sy by (simp add: unat_sub zs_def)
  then have lb: "rls_left h2 (rld_size y) ?b zs"
    unfolding rls_left_def using b'(2) b(1) ok(3) len \<open>1 \<le> rld_size y\<close> by (auto simp: zs_def intro!: exI [of _ ws])
  have ne: "zs \<noteq> []" by (simp add: zs_def)
  let ?c = "\<lambda>(h :: heap, c, a, b). rls_it a < rld_size x \<and> rls_it b < rld_size y \<and> rlc_count c < numItems"
  have "?c (h1, c, a, b)" using rls_left_more [OF i(1)] rls_left_more [OF i(2)] i(3) n by (auto simp: rlc_inv_def word_less_nat_alt)
  moreover have "rld_uniteK_round (h1, c, a, b) = Inr (h2, c2, a', ?b)" unfolding rld_uniteK_round_def using ids 2(1) a'(1) b'(1) by simp
  ultimately have "while_res ?c rld_uniteK_round (h1, c, a, b) = while_res ?c rld_uniteK_round (h2, c2, a', ?b)" by (rule while_res_step)
  also have "\<dots> = Inr (h2, c2, a', ?b)" by (rule while_res_stop) (use rls_left_more [OF a'(2)] in simp)
  finally have w: "while_res ?c rld_uniteK_round (h1, c, a, b) = Inr (h2, c2, a', ?b)" .
  have "m_priv (rls_data ?b) \<noteq> rv" "isContiguous (storage h2 (rls_data ?b))" using b'(3) i(5,6) st(2) by (simp_all add: storage_def)
  moreover have "pushable h2 ?d (10 + 5 * (length [v] + length zs))"
    unfolding pushable_frame [OF st(3)] by (rule pushable_less [OF 1(6)]) (use len in \<open>simp add: zs_def\<close>)
  moreover have "length [v] + length zs < unat numItems" "length [v] + length zs < 2 ^ 29" using n len by (simp_all add: zs_def)
  ultimately obtain h3 c3 where 3: "rls_remainderK numItems h2 c2 ?b (rld_size y) = Inr (h3, c3)" "rlc_flushed h2 rv ?d h3 c3 ([v] @ zs)"
    using rls_remainderK_spec [OF lb ne 2(2) _ _ pd, of numItems] by blast
  have "rlc_flushed h1 rv ?d h3 c3 ([v] @ zs)" by (rule rlc_flushed_later [OF 3(2) 2(3) pd])
  moreover have "length ([v] @ zs) < 2 ^ 29" using len by (simp add: zs_def)
  ultimately obtain z where
    z: "rld_new h3 (uba_resetPtrs (rlc_dest c3)) = Inr (h3, z)" "rld_inv h3 z (trunc31 ([v] @ zs))"
    using flushed_index [OF 1(1,2) _ _ p(5) 1(7)] by blast
  have "rld_uniteK_rest numItems (rld_size x) (rld_size y) (h2, c2, a', ?b) = Inr (h3, c3)"
    using 3(1) rls_left_more [OF a'(2)] rls_left_more [OF lb] ne by (simp add: rld_uniteK_rest_def)
  then show ?thesis using 1(1-4) w z by (auto simp: rld_uniteK_def)
qed

end
