(* ===== verification/ItemIndexRleFacts.thy ===== *)
theory ItemIndexRleFacts
  imports ItemIndexRleMany ItemIndexRleUniteK
begin

text \<open>
  What clients of \<open>ItemIndexPrivateRleDE\<close> can rely on, and where the implementation differs from the other indices: gaps of
  at least \<open>2^31\<close> lose a bit, \<open>uniteK\<close> changes ids, and the operations over many indices need as many indices to subtract.
\<close>

section \<open>Examples\<close>

text \<open>The indices of \<open>3, 5\<close> and of \<open>1, 3, 5, 7, 9\<close>, the latter with a run, and of \<open>1\<close> and \<open>1, 5\<close>.\<close>

definition example_rl_heap :: heap where
  "example_rl_heap = (\<lambda>_. \<lparr>kind = VectorB, mem = [6, 4]\<rparr>)
     (1 := \<lparr>kind = VectorB, mem = [2, 9, 4]\<rparr>, 2 := \<lparr>kind = VectorB, mem = [2]\<rparr>, 3 := \<lparr>kind = VectorB, mem = [2, 8]\<rparr>)"

definition example_rl :: "nat \<Rightarrow> u64 \<Rightarrow> u32 \<Rightarrow> rld" where
  "example_rl p n sz = \<lparr>rld_data = uba_of_priv p 0 n, rld_size = sz, rld_dataOffset = 0, rld_curId = 0, rld_cache = []\<rparr>"

lemma example_words:
  "rld_words example_rl_heap (example_rl 0 2 2) [Single 3, Single 2]"
  "rld_words example_rl_heap (example_rl 1 3 5) [Single 1, Repeat 4 2]"
  "rld_words example_rl_heap (example_rl 2 1 1) [Single 1]"
  "rld_words example_rl_heap (example_rl 3 2 2) [Single 1, Single 4]"
proof -
  have c: "words_code [Single 3, Single 2] = [6, 4]" "words_code [Single 1, Repeat 4 2] = [2, 9, 4]" "words_code [Single 1] = [2]"
    "words_code [Single 1, Single 4] = [2, 8]" by code_simp+
  have d: "length (words_deltas [Single 3, Single 2]) = 2" "length (words_deltas [Single 1, Repeat 4 2]) = 5" "length (words_deltas [Single 1]) = 1"
    "length (words_deltas [Single 1, Single 4]) = 2" by simp_all
  show "rld_words example_rl_heap (example_rl 0 2 2) [Single 3, Single 2]" "rld_words example_rl_heap (example_rl 1 3 5) [Single 1, Repeat 4 2]"
    "rld_words example_rl_heap (example_rl 2 1 1) [Single 1]" "rld_words example_rl_heap (example_rl 3 2 2) [Single 1, Single 4]"
    unfolding rld_words_def c d by (simp_all add: example_rl_def example_rl_heap_def example_simps view_def chunk_def)
qed

lemma example_ids:
  "rld_inv example_rl_heap (example_rl 0 2 2) [3, 5]" "rld_inv example_rl_heap (example_rl 1 3 5) [1, 3, 5, 7, 9]"
  "rld_inv example_rl_heap (example_rl 2 1 1) [1]" "rld_inv example_rl_heap (example_rl 3 2 2) [1, 5]"
proof -
  have s: "sums 0 (words_deltas [Single 3, Single 2]) = [3, 5]" "sums 0 (words_deltas [Single 1, Repeat 4 2]) = [1, 3, 5, 7, 9]"
    "sums 0 (words_deltas [Single 1]) = [1]" "sums 0 (words_deltas [Single 1, Single 4]) = [1, 5]" by code_simp+
  have d: "rld_decoded (example_rl p n sz) ws 0" for p n sz ws by (simp add: rld_decoded_def example_rl_def)
  show "rld_inv example_rl_heap (example_rl 0 2 2) [3, 5]" "rld_inv example_rl_heap (example_rl 1 3 5) [1, 3, 5, 7, 9]"
    "rld_inv example_rl_heap (example_rl 2 1 1) [1]" "rld_inv example_rl_heap (example_rl 3 2 2) [1, 5]"
    unfolding rld_inv_def using example_words d s by metis+
qed

lemma example_contiguous: "p < 4 \<Longrightarrow> isContiguous (storage example_rl_heap (rld_data (example_rl p n sz)))" "m_priv (rld_data (example_rl p n sz)) = p"
  by (auto simp: example_rl_def example_rl_heap_def storage_def uba_of_priv_def isContiguous_def)

section \<open>Creation and access\<close>

text \<open>C31: An index made from a list of ids is found again in the bytes that were appended, whose number is \<open>getSizeInBytes\<close>. It has the
  ids of the list when every gap, and the first id, is smaller than \<open>2^31\<close>; otherwise the top bit of the gap is lost. Only the storage of the
  destination and the vector of the creator change.\<close>

theorem rl_index_roundtrip:
  assumes "pushable h dest (10 + 5 * length xs)" "length xs < 2 ^ 29" "rv \<noteq> m_priv dest"
  shows "\<exists>h' d' x. rld_create xs h rv dest = Inr (h', d') \<and> rld_new h' (uba_sub d' (m_putPtr dest)) = Inr (h', x) \<and>
    rld_getSizeInBytes x = m_putPtr d' - m_putPtr dest \<and> rld_putInto_array h' x = Inr (trunc31 xs) \<and> rld_enumerate h' x = Inr (trunc31 xs) \<and>
    rld_inv h' x (trunc31 xs) \<and> (gaps_small xs \<longrightarrow> trunc31 xs = xs) \<and> length (trunc31 xs) = length xs \<and>
    (\<forall>w. m_priv w \<noteq> rv \<and> m_priv w \<noteq> m_priv dest \<longrightarrow> storage h' w = storage h w)"
proof -
  from rld_create_spec [OF assms] obtain h' d' ws where
    1: "rld_create xs h rv dest = Inr (h', d')" "others_kept {rv, m_priv dest} h h'" "list_all word_ok ws" "words_deltas ws = gaps31 xs"
      "appended h dest (rl_file ws) h' d'" by blast
  from rld_open_created [OF assms(1) 1(3,4) assms(2) 1(5)] obtain x where
    2: "rld_new h' (uba_sub d' (m_putPtr dest)) = Inr (h', x)" "rld_inv h' x (trunc31 xs)" "rld_getSizeInBytes x = m_putPtr d' - m_putPtr dest" by blast
  show ?thesis using 1(1,2) 2 rld_putInto_array_spec [OF 2(2)] rld_enumerate_spec [OF 2(2)] trunc31_small [of xs] by (auto simp: others_kept_def)
qed

theorem rl_index_roundtrip_witness:
  "(\<exists>h' d' x. rld_create [3, 5, 7, 9, 300] (\<lambda>_. \<lparr>kind = VectorB, mem = [9]\<rparr>) 7 ((uba_of_priv 0 0 1)\<lparr>m_putPtr := 1\<rparr>) = Inr (h', d') \<and>
     rld_new h' (uba_sub d' 1) = Inr (h', x) \<and> rld_enumerate h' x = Inr [3, 5, 7, 9, 300]) \<and>
   (\<exists>h' d' x. rld_create [2 ^ 31] (\<lambda>_. \<lparr>kind = VectorB, mem = [9]\<rparr>) 7 ((uba_of_priv 0 0 1)\<lparr>m_putPtr := 1\<rparr>) = Inr (h', d') \<and>
     rld_new h' (uba_sub d' 1) = Inr (h', x) \<and> rld_enumerate h' x = Inr [0])"
proof -
  have p: "pushable (\<lambda>_. \<lparr>kind = VectorB, mem = [9]\<rparr>) ((uba_of_priv 0 0 1)\<lparr>m_putPtr := 1\<rparr>) (10 + 5 * length [3, 5, 7, 9, 300 :: u32])"
    "pushable (\<lambda>_. \<lparr>kind = VectorB, mem = [9]\<rparr>) ((uba_of_priv 0 0 1)\<lparr>m_putPtr := 1\<rparr>) (10 + 5 * length [2 ^ 31 :: u32])"
    by (simp_all add: pushable_def example_simps)
  have t: "trunc31 [3, 5, 7, 9, 300] = [3, 5, 7, 9, 300]" "trunc31 [2 ^ 31] = [0]" by code_simp+
  show ?thesis using rl_index_roundtrip [OF p(1), of 7] rl_index_roundtrip [OF p(2), of 7] unfolding t by (fastforce simp: uba_of_priv_def)
qed

text \<open>C32: The decoder gives the ids in all ways: \<open>at\<close> decodes as many words as it needs and gives 0 behind the last id, in every
  state of the cache; \<open>first\<close>, \<open>last\<close> and \<open>find\<close> rest on it; \<open>putInto\<close> and a client's loop over the iterator read the words again, and end. \<open>find\<close>
  needs increasing ids.\<close>

theorem rl_index_reads:
  assumes "rld_inv h x xs"
  shows "unat (rld_size x) = length xs \<and>
    (\<forall>pos. \<exists>x'. rld_at h x pos = Inr (if unat pos < length xs then xs ! unat pos else 0, x') \<and> rld_inv h x' xs) \<and>
    (xs \<noteq> [] \<longrightarrow> (\<exists>x1 x2. rld_first h x = Inr (hd xs, x1) \<and> rld_last h x1 = Inr (last xs, x2))) \<and>
    (increasing xs \<longrightarrow> (\<exists>r. rld_find h x v = Inr r \<and> (if v \<in> set xs then unat r < length xs \<and> xs ! unat r = v else r = - 1))) \<and>
    rld_putInto_array h x = Inr xs \<and> rld_enumerate h x = Inr xs \<and>
    (\<forall>m. owner h m \<longrightarrow> m_priv (rld_data x) \<noteq> m_priv m \<longrightarrow>
      (\<exists>h' m'. rld_putInto_bits h x m = Inr (h', m') \<and> dbs_elems h' m' = dbs_elems h m \<union> unat ` set xs))"
proof -
  note sz = rld_size_ids [OF assms]
  have ends: "\<exists>x1 x2. rld_first h x = Inr (hd xs, x1) \<and> rld_last h x1 = Inr (last xs, x2)" if ne: "xs \<noteq> []"
  proof -
    have nz: "rld_size x \<noteq> 0" using sz ne by auto
    from rld_at_spec [OF assms, of 0] ne obtain x1 where 1: "rld_at h x 0 = Inr (xs ! 0, x1)" "rld_inv h x1 xs" "rld_size x1 = rld_size x" by auto
    have l: "unat (rld_size x - 1) = length xs - 1" using nz sz by (simp add: unat_minus_one)
    then have "unat (rld_size x - 1) < length xs" using ne by (cases xs) auto
    with rld_at_spec [OF 1(2), of "rld_size x - 1"] obtain x2 where "rld_at h x1 (rld_size x - 1) = Inr (last xs, x2)"
      using l ne by (auto simp: last_conv_nth)
    then show ?thesis using 1(1,3) nz ne by (simp add: rld_first_def rld_last_def hd_conv_nth)
  qed
  have find: "\<exists>r. rld_find h x v = Inr r \<and> (if v \<in> set xs then unat r < length xs \<and> xs ! unat r = v else r = - 1)" if "increasing xs"
  proof -
    have l: "rld_list (h, x) = xs" using rld_putInto_array_spec [OF assms] by (simp add: rld_list_def)
    have "sorted xs" using that by (auto intro: strict_sorted_imp_sorted)
    then show ?thesis using rld_idx.find_ok [of "(h, x)" v] assms unfolding l rld_find_def by blast
  qed
  have ats: "\<exists>x'. rld_at h x pos = Inr (if unat pos < length xs then xs ! unat pos else 0, x') \<and> rld_inv h x' xs" for pos
    using rld_at_spec [OF assms, of pos] by blast
  have bits: "\<exists>h' m'. rld_putInto_bits h x m = Inr (h', m') \<and> dbs_elems h' m' = dbs_elems h m \<union> unat ` set xs"
    if "owner h m" "m_priv (rld_data x) \<noteq> m_priv m" for m using rld_putInto_bits_spec [OF assms that] by blast
  show ?thesis using sz ends find ats bits rld_putInto_array_spec [OF assms] rld_enumerate_spec [OF assms] by blast
qed

theorem rl_index_reads_witness:
  "rld_enumerate example_rl_heap (example_rl 1 3 5) = Inr [1, 3, 5, 7, 9] \<and> (\<exists>r. rld_find example_rl_heap (example_rl 1 3 5) 4 = Inr r \<and> r = - 1)"
proof -
  have "increasing [1, 3, 5, 7, 9 :: u32]" "(4 :: u32) \<notin> set [1, 3, 5, 7, 9]" by simp_all
  then show ?thesis using rl_index_reads [OF example_ids(2), of 4] by fastforce
qed

section \<open>Set operations\<close>

text \<open>C33: The set operations on two indices with increasing ids, fewer than \<open>2 ^ 29\<close> together, on contiguous storage. When both have ids, the operation
  that moves over runs computes the merge of the two lists, which is the increasing list of the intersection, union, difference or
  symmetric difference, except that the result loses the top bit of gaps of at least \<open>2 ^ 31\<close>; when one of them has no ids it throws. With an operand
  of another kind the generic executer computes the merge, also of empty lists and with all bits. Storages other than the two new ones keep
  their bytes.\<close>

theorem rl_index_operations:
  assumes "rld_inv h x xs" "rld_inv h y ys" "increasing xs" "increasing ys" "length xs + length ys < 2 ^ 29"
    and "isContiguous (storage h (rld_data x))" "isContiguous (storage h (rld_data y))"
    and "r \<notin> {m_priv (rld_data x), m_priv (rld_data y)}" "rv \<notin> {m_priv (rld_data x), m_priv (rld_data y)}" "rv \<noteq> r"
    and "t \<in> {IntersectOp, UniteOp, DifferenceOp, SymmetricDifferenceOp}"
  shows "(if xs = [] \<or> ys = [] then rld_op t h r rv x (RldOperand y) = Inl OutOfBoundsException
     else \<exists>h' z. rld_op t h r rv x (RldOperand y) = Inr (RldResult h' z) \<and> rld_inv h' z (trunc31 (merge_op t xs ys)) \<and>
      rld_putInto_array h' z = Inr (trunc31 (merge_op t xs ys)) \<and> (\<forall>w. m_priv w \<noteq> r \<and> m_priv w \<noteq> rv \<longrightarrow> storage h' w = storage h w)) \<and>
    (\<exists>g. rld_op t h r rv x (RldOther (rld_source (h, y))) = Inr (RldGeneric g) \<and> result_ids g (merge_op t xs ys)) \<and>
    (gaps_small (merge_op t xs ys) \<longrightarrow> trunc31 (merge_op t xs ys) = merge_op t xs ys) \<and>
    increasing (merge_op t xs ys) \<and> set (merge_op t xs ys) = op_set t (set xs) (set ys)"
proof -
  have "\<exists>g. do_op t (rld_source (h, x)) (Some (rld_source (h, y))) = Inr g \<and> result_ids g (merge_op t xs ys)"
    using do_op_agrees [OF rld_source_ids [OF assms(1)] rld_source_ids [OF assms(2)] _ assms(11)] assms(5) by simp
  then have g: "\<exists>g. rld_op t h r rv x (RldOther (rld_source (h, y))) = Inr (RldGeneric g) \<and> result_ids g (merge_op t xs ys)"
    by (auto simp: rld_op_def)
  have "coherent t" using assms(11) by auto
  then have m: "increasing (merge_op t xs ys)" "set (merge_op t xs ys) = op_set t (set xs) (set ys)"
    "gaps_small (merge_op t xs ys) \<longrightarrow> trunc31 (merge_op t xs ys) = merge_op t xs ys"
    using merge_op_set [OF _ assms(3,4)] trunc31_small [of "merge_op t xs ys"] by auto
  show ?thesis
  proof (cases "xs = [] \<or> ys = []")
    case True
    from rld_empty_operand_throws [OF assms(1,2) True assms(8,9), of t] show ?thesis using True g m by (simp add: rld_op_def)
  next
    case False
    then have ne: "xs \<noteq> []" "ys \<noteq> []" by simp_all
    from rld_genericOp_spec [OF assms(1,2) ne assms(3-10), of t] obtain h' z where
      1: "rld_genericOp t h r rv x y = Inr (h', z)" "rld_inv h' z (trunc31 (merge_op t xs ys))" "others_kept {r, rv} h h'" by blast
    then show ?thesis using False g m rld_putInto_array_spec [OF 1(2)] by (auto simp: rld_op_def others_kept_def)
  qed
qed

theorem rl_index_operations_witness:
  "\<exists>h' z. rld_op SymmetricDifferenceOp example_rl_heap 8 9 (example_rl 0 2 2) (RldOperand (example_rl 1 3 5)) = Inr (RldResult h' z) \<and>
     rld_putInto_array h' z = Inr [1, 7, 9]"
proof -
  have "trunc31 (merge_op SymmetricDifferenceOp [3, 5] [1, 3, 5, 7, 9]) = [1, 7, 9]" by code_simp
  moreover have "\<exists>h' z. rld_op SymmetricDifferenceOp example_rl_heap 8 9 (example_rl 0 2 2) (RldOperand (example_rl 1 3 5)) = Inr (RldResult h' z) \<and>
      rld_putInto_array h' z = Inr (trunc31 (merge_op SymmetricDifferenceOp [3, 5] [1, 3, 5, 7, 9]))"
    using rl_index_operations [OF example_ids(1,2), of 8 9 SymmetricDifferenceOp, THEN conjunct1]
    by (simp only: list.distinct if_False simp_thms) (auto simp: example_contiguous)
  ultimately show ?thesis by simp
qed

text \<open>C34: Of indices with ids, increasing ones, \<open>constrainedIntersect\<close> gives the first \<open>count\<close> ids that all of them have. With as many
  indices to subtract, \<open>fusedIntersectDifference\<close> gives the first \<open>count\<close> of those that no index to subtract has. With fewer
  it is undefined; with more it is undefined when all indices have a common id and \<open>count\<close> is not 0, and otherwise gives no ids.\<close>

theorem rl_index_multiway:
  assumes "list_all2 (rld_inv h) xs xss" "\<forall>l \<in> set xss. increasing l \<and> l \<noteq> []" "xs \<noteq> []" "length xs < 2 ^ 32"
    and "list_all2 (rld_inv h) ys yss" "\<forall>l \<in> set yss. increasing l \<and> l \<noteq> []" "length ys < 2 ^ 32"
  shows "rld_constrainedIntersect h xs count = Inr (take (unat count) (common xss)) \<and>
    (length ys = length xs \<longrightarrow> rld_fusedIntersectDifference h xs ys count = Inr (take (unat count) (filter (in_none yss) (common xss)))) \<and>
    (length ys < length xs \<or> length xs < length ys \<and> common xss \<noteq> [] \<and> count \<noteq> 0 \<longrightarrow>
      rld_fusedIntersectDifference h xs ys count = Inl UndefinedBehaviour) \<and>
    (length xs < length ys \<and> (common xss = [] \<or> count = 0) \<longrightarrow> rld_fusedIntersectDifference h xs ys count = Inr []) \<and>
    increasing (common xss) \<and> set (common xss) = (\<Inter>l \<in> set xss. set l) \<and>
    set (filter (in_none yss) (common xss)) = (\<Inter>l \<in> set xss. set l) - (\<Union>l \<in> set yss. set l)"
proof -
  have ne: "xss \<noteq> []" using assms(1,3) by auto
  have "increasing (common xss)" using ne assms(2) by (intro increasing_common) (cases xss, auto)
  moreover have "set (filter (in_none yss) (common xss)) = (\<Inter>l \<in> set xss. set l) - (\<Union>l \<in> set yss. set l)"
    using set_common [OF ne] by (auto simp: in_none_def)
  ultimately show ?thesis
    using rld_constrainedIntersect_spec [OF assms(1-4)] rld_fused_spec [OF assms(1,2,5,6) _ assms(3,4)] rld_fused_fewer [OF _ assms(1,2,4)]
      rld_fused_more [OF assms(1,2,5,6) _ assms(7,3)] rld_fused_more_none [OF assms(1,2,5,6) _ assms(7,3)] set_common [OF ne] by auto
qed

theorem rl_index_multiway_witness:
  "rld_constrainedIntersect example_rl_heap [example_rl 0 2 2, example_rl 1 3 5] 9 = Inr [3, 5] \<and>
   rld_fusedIntersectDifference example_rl_heap [example_rl 0 2 2, example_rl 1 3 5] [example_rl 3 2 2, example_rl 3 2 2] 9 = Inr [3] \<and>
   rld_fusedIntersectDifference example_rl_heap [example_rl 0 2 2, example_rl 1 3 5] [example_rl 3 2 2] 9 = Inl UndefinedBehaviour"
proof -
  have c: "take (unat (9 :: u32)) (common [[3, 5], [1, 3, 5, 7, 9]]) = [3, 5]"
    "take (unat (9 :: u32)) (filter (in_none [[1, 5], [1, 5]]) (common [[3, 5], [1, 3, 5, 7, 9]])) = [3]" by code_simp+
  show ?thesis
    using rl_index_multiway [of example_rl_heap "[example_rl 0 2 2, example_rl 1 3 5]" "[[3, 5], [1, 3, 5, 7, 9]]"
        "[example_rl 3 2 2, example_rl 3 2 2]" "[[1, 5], [1, 5]]" 9]
      rl_index_multiway [of example_rl_heap "[example_rl 0 2 2, example_rl 1 3 5]" "[[3, 5], [1, 3, 5, 7, 9]]" "[example_rl 3 2 2]" "[[1, 5]]" 9]
      example_ids unfolding c by simp
qed

text \<open>\<open>uniteK\<close> gives the union when no id is in both indices and it is asked for more ids than there are.\<close>

theorem rl_index_uniteK:
  assumes "rld_inv h x xs" "rld_inv h y ys" "xs \<noteq> []" "ys \<noteq> []" "increasing xs" "increasing ys" "length xs + length ys < 2 ^ 29"
    and "isContiguous (storage h (rld_data x))" "isContiguous (storage h (rld_data y))"
    and "r \<notin> {m_priv (rld_data x), m_priv (rld_data y)}" "rv \<notin> {m_priv (rld_data x), m_priv (rld_data y)}" "rv \<noteq> r"
    and "set xs \<inter> set ys = {}" "length xs + length ys < unat numItems"
  shows "\<exists>h' z. rld_op_uniteK h r rv x (RldOperand y) numItems = Inr (RldResult h' z) \<and> rld_putInto_array h' z = Inr (trunc31 (merge_op UniteOp xs ys)) \<and>
    set (merge_op UniteOp xs ys) = set xs \<union> set ys"
proof -
  from rld_uniteK_spec [OF assms] obtain h' z where "rld_uniteK h r rv x y numItems = Inr (h', z)" "rld_inv h' z (trunc31 (merge_op UniteOp xs ys))" by blast
  then show ?thesis using rld_putInto_array_spec merge_op_set [of UniteOp xs ys] assms(5,6) by (auto simp: rld_op_uniteK_def op_sets)
qed

theorem rl_index_uniteK_witness:
  "\<exists>h' z. rld_op_uniteK example_rl_heap 8 9 (example_rl 0 2 2) (RldOperand (example_rl 2 1 1)) 9 = Inr (RldResult h' z) \<and>
     rld_putInto_array h' z = Inr [1, 3, 5]"
proof -
  have "trunc31 (merge_op UniteOp [3, 5] [1]) = [1, 3, 5]" by code_simp
  then show ?thesis using rl_index_uniteK [OF example_ids(1,3), of 8 9 9] by (fastforce simp: example_contiguous)
qed



end
