(* ===== verification/UnaryCode.thy ===== *)
theory UnaryCode
  imports ItemIndexDECreate
begin

text \<open>
  \<open>UnaryCodeIterator\<close> and \<open>UnaryCodeCreator\<close> (\<open>include/sserialize/iterator/UnaryCodeIterator.h\<close> and \<open>.cpp\<close>): a
  number is written as so many zero bits and a one bit; the bits of a byte are used from the highest to the lowest.
\<close>

section \<open>The iterator\<close>

record unary_it =
  ui_d :: uba
  ui_pos :: u64
  ui_last :: u32
  ui_lastChunk :: u8
  ui_chunkBitPtr :: u8

text \<open>\<open>while (m_chunkBitPtr)\<close>: whether a stop bit was found, the new \<open>m_chunkBitPtr\<close> and \<open>m_last\<close>.\<close>

function uc_bits :: "u8 \<Rightarrow> u8 \<Rightarrow> u32 \<Rightarrow> bool \<times> u8 \<times> u32" where
  "uc_bits ch ptr l =
     (if ptr \<noteq> 0 then
        let isStopBit = (ch AND ptr \<noteq> 0); ptr' = drop_bit 1 ptr
        in if isStopBit then (True, ptr', l) else uc_bits ch ptr' (l + 1)
      else (False, ptr, l))"
  by pat_completeness auto
termination
proof (relation "measure (\<lambda>(ch, ptr, l). unat ptr)", goal_cases)
  case (2 ch ptr l isStopBit ptr')
  then show ?case by (simp add: unat_drop_bit unat_gt_0)
qed simp

definition ui_loadNextChunk :: "heap \<Rightarrow> unary_it \<Rightarrow> unary_it res" where
  "ui_loadNextChunk h u = bindE (uba_getUint8 h (ui_d u) (ui_pos u)) (\<lambda>c.
     Inr (u\<lparr>ui_lastChunk := c, ui_chunkBitPtr := 128, ui_pos := ui_pos u + 1\<rparr>))"

function ui_chunks :: "heap \<Rightarrow> unary_it \<Rightarrow> unary_it res" where
  "ui_chunks h u =
     (if ui_pos u < m_len (ui_d u) then
        bindE (ui_loadNextChunk h u) (\<lambda>u'.
          if ui_lastChunk u' \<noteq> 0 then Inr u' else ui_chunks h (u'\<lparr>ui_last := ui_last u' + 8\<rparr>))
      else Inr u)"
  by pat_completeness auto
termination
  by (relation "measure (\<lambda>(h, u). unat (m_len (ui_d u) - ui_pos u))") (auto simp: ui_loadNextChunk_def bindE_eq_Inr_iff intro: next_less)

declare uc_bits.simps [simp del] ui_chunks.simps [simp del]

definition ui_next :: "heap \<Rightarrow> unary_it \<Rightarrow> unary_it res" where
  "ui_next h u =
     (if m_len (ui_d u) \<le> ui_pos u \<and> ui_chunkBitPtr u = 0 then Inr u
      else
        let (stop, ptr, l) = (if ui_chunkBitPtr u \<noteq> 128 then uc_bits (ui_lastChunk u) (ui_chunkBitPtr u) 0 else (False, ui_chunkBitPtr u, 0));
            u = u\<lparr>ui_last := l, ui_chunkBitPtr := ptr\<rparr>
        in if stop then Inr u
           else bindE (ui_chunks h u) (\<lambda>u.
                  let (_, ptr, l) = uc_bits (ui_lastChunk u) (ui_chunkBitPtr u) (ui_last u)
                  in Inr (u\<lparr>ui_last := l, ui_chunkBitPtr := ptr\<rparr>)))"

definition ui_new :: "heap \<Rightarrow> uba \<Rightarrow> unary_it res" where
  "ui_new h d = ui_next h \<lparr>ui_d = d, ui_pos = 0, ui_last = 0, ui_lastChunk = 0, ui_chunkBitPtr = 0\<rparr>"

definition ui_eq :: "unary_it \<Rightarrow> unary_it \<Rightarrow> bool" where
  "ui_eq u v \<longleftrightarrow> ui_pos u = ui_pos v \<and> ui_chunkBitPtr u = ui_chunkBitPtr v \<and> ui_last u = ui_last v"

definition ui_notEq :: "unary_it \<Rightarrow> unary_it \<Rightarrow> bool" where
  "ui_notEq u v \<longleftrightarrow> ui_pos u \<noteq> ui_pos v \<or> ui_chunkBitPtr u \<noteq> ui_chunkBitPtr v \<or> ui_last u \<noteq> ui_last v"

section \<open>The creator\<close>

text \<open>\<open>m_inChunkBits\<close> is an \<open>int8_t\<close>.\<close>

record unary_cr =
  uc_d :: uba
  uc_lastChunk :: u8
  uc_inChunkBits :: u8

definition uc_new :: "uba \<Rightarrow> unary_cr" where
  "uc_new d = \<lparr>uc_d = d, uc_lastChunk = 0, uc_inChunkBits = 8\<rparr>"

text \<open>\<open>for(;v >= chunk_bits; v -= chunk_bits)\<close>\<close>

function uc_zeros :: "heap \<Rightarrow> uba \<Rightarrow> u32 \<Rightarrow> (heap \<times> uba \<times> u32) res" where
  "uc_zeros h d v = (if 8 \<le> v then bindE (stream_putUint8 h d 0) (\<lambda>(h, d). uc_zeros h d (v - 8)) else Inr (h, d, v))"
  by pat_completeness auto
termination
proof (relation "measure (\<lambda>(h, d, v). unat v)")
  show "((h', d', v - 8), h, d, v) \<in> measure (\<lambda>(h, d, v). unat v)" if "8 \<le> v" for h h' :: heap and d d' and v :: u32
    using that by (simp add: unat_sub word_le_nat_alt)
qed auto

declare uc_zeros.simps [simp del]

text \<open>Behind the zeros, \<open>m_lastChunk\<close> is still 0. The shift is that of a value promoted to \<open>int\<close>.\<close>

definition uc_put :: "heap \<Rightarrow> unary_cr \<Rightarrow> u32 \<Rightarrow> (heap \<times> unary_cr) res" where
  "uc_put h c v =
     bindE (if v \<ge> scast (uc_inChunkBits c)
            then bindE (stream_putUint8 h (uc_d c) (uc_lastChunk c)) (\<lambda>(h, d).
                   bindE (uc_zeros h d (v - scast (uc_inChunkBits c))) (\<lambda>(h, d, v).
                     Inr (h, \<lparr>uc_d = d, uc_lastChunk = 0, uc_inChunkBits = 8\<rparr>, v)))
            else Inr (h, c, v)) (\<lambda>(h, c, v).
       let sh = scast (uc_inChunkBits c) - (v + 1) :: u32
       in if 32 \<le> sh then Inl UndefinedBehaviour
          else Inr (h, c\<lparr>uc_lastChunk := uc_lastChunk c OR push_bit (unat sh) 1, uc_inChunkBits := uc_inChunkBits c - ucast (v + 1)\<rparr>))"

definition uc_flush :: "heap \<Rightarrow> unary_cr \<Rightarrow> (heap \<times> unary_cr) res" where
  "uc_flush h c =
     (if uc_lastChunk c \<noteq> 0 then bindE (stream_putUint8 h (uc_d c) (uc_lastChunk c)) (\<lambda>(h, d). Inr (h, c\<lparr>uc_d := d\<rparr>)) else Inr (h, c))"

fun uc_put_all :: "heap \<Rightarrow> unary_cr \<Rightarrow> u32 list \<Rightarrow> (heap \<times> unary_cr) res" where
  "uc_put_all h c [] = Inr (h, c)"
| "uc_put_all h c (v # vs) = bindE (uc_put h c v) (\<lambda>(h, c). uc_put_all h c vs)"

section \<open>Streams of bits\<close>

text \<open>The lowest \<open>n\<close> bits of a byte, and the bits of bytes, highest bits first.\<close>

definition low_bits :: "nat \<Rightarrow> u8 \<Rightarrow> bool list" where
  "low_bits n c = map (bit c) (rev [0..<n])"

definition stream_bits :: "bytes \<Rightarrow> bool list" where
  "stream_bits bs = concat (map (low_bits 8) bs)"

definition unary :: "nat \<Rightarrow> bool list" where
  "unary n = replicate n False @ [True]"

lemma stream_bits_simps [simp]:
  "stream_bits [] = []" "stream_bits (b # bs) = low_bits 8 b @ stream_bits bs" "stream_bits (bs @ cs) = stream_bits bs @ stream_bits cs"
  by (simp_all add: stream_bits_def)

lemma low_bits_0 [simp]: "low_bits 0 c = []"
  by (simp add: low_bits_def)

lemma low_bits_Suc: "low_bits (Suc n) c = bit c n # low_bits n c"
  by (simp add: low_bits_def)

lemma length_low_bits [simp]: "length (low_bits n c) = n"
  by (simp add: low_bits_def)

lemma low_bits_zero: "low_bits n 0 = replicate n False"
  by (induction n) (simp_all add: low_bits_Suc)

lemma low_bits_append: "k \<le> n \<Longrightarrow> \<exists>as. low_bits n c = as @ low_bits k c \<and> length as = n - k"
proof (induction n)
  case (Suc n)
  then show ?case
  proof (cases "k = Suc n")
    case False
    then obtain as where "low_bits n c = as @ low_bits k c" "length as = n - k" using Suc by auto
    then show ?thesis using False Suc.prems by (intro exI [of _ "bit c n # as"]) (simp add: low_bits_Suc)
  qed simp
qed simp

text \<open>The lowest \<open>j\<close> bits of the ch are left.\<close>

definition ptr_of :: "nat \<Rightarrow> u8" where
  "ptr_of j = (if j = 0 then 0 else 2 ^ (j - 1))"

lemma ptr_of_simps [simp]: "ptr_of 0 = 0" "ptr_of (Suc j) = 2 ^ j"
  by (simp_all add: ptr_of_def)

lemma pow_bit: "j < 8 \<Longrightarrow> bit (2 ^ j :: u8) n \<longleftrightarrow> n = j"
  by (auto simp: bit_simps possible_bit_def)

lemma and_pow:
  assumes "j < 8"
  shows "ch AND (2 :: u8) ^ j \<noteq> 0 \<longleftrightarrow> bit ch j"
proof -
  have "bit (ch AND (2 :: u8) ^ j) n \<longleftrightarrow> n = j \<and> bit ch j" for n using pow_bit [OF assms] by (auto simp: bit_and_iff)
  then have "\<not> bit ch j \<Longrightarrow> ch AND 2 ^ j = 0" "bit ch j \<Longrightarrow> bit (ch AND 2 ^ j) j" by (simp_all add: bit_word_eqI)
  then show ?thesis by fastforce
qed

lemma ptr_of_step: "j < 8 \<Longrightarrow> (2 :: u8) ^ j \<noteq> 0" "j < 8 \<Longrightarrow> drop_bit 1 ((2 :: u8) ^ j) = ptr_of j"
  "j < 8 \<Longrightarrow> ch AND (2 :: u8) ^ j \<noteq> 0 \<longleftrightarrow> bit ch j"
proof -
  assume j: "j < 8"
  show "(2 :: u8) ^ j \<noteq> 0" using pow_bit [OF j, of j] by (metis bit_0_eq bot_apply bot_bool_def)
  show "drop_bit 1 ((2 :: u8) ^ j) = ptr_of j"
    by (rule bit_word_eqI) (use j in \<open>auto simp: bit_drop_bit_eq pow_bit ptr_of_def\<close>)
  show "ch AND (2 :: u8) ^ j \<noteq> 0 \<longleftrightarrow> bit ch j" by (rule and_pow [OF j])
qed

lemma uc_bits_stop: "n < j \<Longrightarrow> j \<le> 8 \<Longrightarrow> low_bits j ch = replicate n False @ True # bs \<Longrightarrow>
    uc_bits ch (ptr_of j) l = (True, ptr_of (j - Suc n), l + of_nat n) \<and> bs = low_bits (j - Suc n) ch"
proof (induction j arbitrary: n l)
  case (Suc j)
  then have j: "j < 8" by simp
  note p = ptr_of_step [OF j]
  show ?case
  proof (cases n)
    case 0
    then have "bit ch j" "bs = low_bits j ch" using Suc.prems(3) by (simp_all add: low_bits_Suc)
    then show ?thesis using 0 p by (subst uc_bits.simps) (simp add: Let_def)
  next
    case (Suc m)
    then have b: "\<not> bit ch j" "low_bits j ch = replicate m False @ True # bs" using Suc.prems(3) by (simp_all add: low_bits_Suc)
    have "uc_bits ch (ptr_of (Suc j)) l = uc_bits ch (ptr_of j) (l + 1)" using b(1) p by (subst uc_bits.simps) (simp add: Let_def)
    moreover have "m < j" "j \<le> 8" using Suc Suc.prems(1,2) by simp_all
    ultimately show ?thesis using Suc.IH [OF _ _ b(2), of "l + 1"] \<open>n = Suc m\<close> by simp
  qed
qed simp

lemma uc_bits_none: "j \<le> 8 \<Longrightarrow> low_bits j ch = replicate j False \<Longrightarrow> uc_bits ch (ptr_of j) l = (False, 0, l + of_nat j)"
proof (induction j arbitrary: l)
  case 0
  then show ?case by (subst uc_bits.simps) simp
next
  case (Suc j)
  then have j: "j < 8" and b: "\<not> bit ch j" "low_bits j ch = replicate j False" by (simp_all add: low_bits_Suc)
  have "uc_bits ch (ptr_of (Suc j)) l = uc_bits ch (ptr_of j) (l + 1)" using b(1) ptr_of_step [OF j] by (subst uc_bits.simps) (simp add: Let_def)
  then show ?case using Suc.IH [OF _ b(2), of "l + 1"] j by simp
qed

lemma bit_list: "i < n \<Longrightarrow> rev (low_bits n c) ! i = bit c i"
  by (simp add: low_bits_def rev_map)

lemma low_bits_full: "low_bits 8 c = replicate 8 False \<longleftrightarrow> c = 0"
proof
  assume z: "low_bits 8 c = replicate 8 False"
  show "c = 0"
  proof (rule bit_word_eqI)
    fix i assume "i < LENGTH(8)"
    then have "i < 8" by simp
    then show "bit c i = bit 0 i" using bit_list [of i 8 c] z by simp
  qed
qed (simp add: low_bits_zero)

section \<open>Reading\<close>

text \<open>The bits in front of an iterator: what is left of the chunk and the bytes behind it.\<close>

definition bits_left :: "heap \<Rightarrow> unary_it \<Rightarrow> bool list \<Rightarrow> bool" where
  "bits_left h u bs \<longleftrightarrow> uba_inv h (ui_d u) \<and> unat (ui_pos u) \<le> unat (m_len (ui_d u)) \<and>
     (\<exists>j < 8. ui_chunkBitPtr u = ptr_of j \<and> bs = low_bits j (ui_lastChunk u) @ stream_bits (drop (unat (ui_pos u)) (view h (ui_d u))))"

lemma bits_left_frame:
  assumes "storage h1 (ui_d u) = storage h (ui_d u)"
  shows "bits_left h1 u bs = bits_left h u bs"
  unfolding bits_left_def view_frame(1) [OF assms] view_frame(2) [OF assms] ..

lemma loadNextChunk_spec:
  assumes "uba_inv h (ui_d u)" "unat (ui_pos u) < unat (m_len (ui_d u))"
  shows "ui_loadNextChunk h u = Inr (u\<lparr>ui_lastChunk := view h (ui_d u) ! unat (ui_pos u), ui_chunkBitPtr := 128, ui_pos := ui_pos u + 1\<rparr>)"
    "unat (ui_pos u + 1) = unat (ui_pos u) + 1"
    "drop (unat (ui_pos u)) (view h (ui_d u)) = view h (ui_d u) ! unat (ui_pos u) # drop (unat (ui_pos u + 1)) (view h (ui_d u))"
proof -
  show p: "unat (ui_pos u + 1) = unat (ui_pos u) + 1" using assms(2) unat_bound64 [of "m_len (ui_d u)"] by (subst unat_add_nowrap) simp_all
  show "ui_loadNextChunk h u = Inr (u\<lparr>ui_lastChunk := view h (ui_d u) ! unat (ui_pos u), ui_chunkBitPtr := 128, ui_pos := ui_pos u + 1\<rparr>)"
    using at_spec(2) [OF assms] by (simp add: ui_loadNextChunk_def)
  show "drop (unat (ui_pos u)) (view h (ui_d u)) = view h (ui_d u) ! unat (ui_pos u) # drop (unat (ui_pos u + 1)) (view h (ui_d u))"
    using assms by (simp add: p Cons_nth_drop_Suc)
qed

lemma unary_0 [simp]: "unary 0 = [True]"
  by (simp add: unary_def)

lemma unary_Suc [simp]: "unary (Suc n) = False # unary n"
  by (simp add: unary_def)

lemma length_unary [simp]: "length (unary n) = n + 1"
  by (simp add: unary_def)

lemma unary_split:
  "unary n @ bs = low @ rest \<Longrightarrow>
    (n < length low \<and> (\<exists>b0. low = unary n @ b0 \<and> bs = b0 @ rest)) \<or>
    (length low \<le> n \<and> low = replicate (length low) False \<and> rest = unary (n - length low) @ bs)"
proof (induction low arbitrary: n)
  case (Cons b low)
  then show ?case by (cases n) auto
qed simp

lemma unary_not_zeros: "unary n @ bs \<noteq> replicate k False"
proof
  assume "unary n @ bs = replicate k False"
  then have "True \<in> set (replicate k False)" by (metis UnCI append.assoc in_set_conv_decomp set_append unary_def)
  then show False by simp
qed

lemma ptr_of_last: "j < 8 \<Longrightarrow> ptr_of j \<noteq> 128"
proof -
  assume "j < 8"
  then have "j \<in> set [0..<8]" by simp
  moreover have "\<forall>j \<in> set [0..<8]. ptr_of j \<noteq> 128" by code_simp
  ultimately show ?thesis by blast
qed

lemma unary_stop:
  assumes "low_bits j c = unary n @ bs" "j \<le> 8"
  shows "uc_bits c (ptr_of j) l = (True, ptr_of (j - Suc n), l + of_nat n)" "bs = low_bits (j - Suc n) c"
proof -
  have "n < j" using arg_cong [OF assms(1), of length] by simp
  then show "uc_bits c (ptr_of j) l = (True, ptr_of (j - Suc n), l + of_nat n)" "bs = low_bits (j - Suc n) c"
    using uc_bits_stop [OF _ assms(2), of n c bs l] assms(1) by (simp_all add: unary_def)
qed

text \<open>The chunks of eight zeros, up to the one with the stop bit.\<close>

lemma ui_chunks_spec:
  "uba_inv h (ui_d u) \<Longrightarrow> stream_bits (drop (unat (ui_pos u)) (view h (ui_d u))) = unary n @ bs \<Longrightarrow>
    \<exists>u' m b0. ui_chunks h u = Inr u' \<and> ui_d u' = ui_d u \<and> ui_chunkBitPtr u' = 128 \<and> unat (ui_pos u') \<le> unat (m_len (ui_d u)) \<and>
      ui_last u' + of_nat m = ui_last u + of_nat n \<and> low_bits 8 (ui_lastChunk u') = unary m @ b0 \<and>
      bs = b0 @ stream_bits (drop (unat (ui_pos u')) (view h (ui_d u)))"
proof (induction "unat (m_len (ui_d u)) - unat (ui_pos u)" arbitrary: u n rule: less_induct)
  case less
  let ?V = "view h (ui_d u)"
  have lt: "unat (ui_pos u) < unat (m_len (ui_d u))"
  proof (rule ccontr)
    assume "\<not> ?thesis"
    then have "drop (unat (ui_pos u)) ?V = []" using less.prems(1) by simp
    then show False using less.prems(2) by (simp add: unary_def)
  qed
  then have "ui_pos u < m_len (ui_d u)" by (simp add: word_less_nat_alt)
  note ld = loadNextChunk_spec [OF less.prems(1) lt]
  let ?c = "?V ! unat (ui_pos u)"
  let ?u = "u\<lparr>ui_lastChunk := ?c, ui_chunkBitPtr := 128, ui_pos := ui_pos u + 1\<rparr>"
  from less.prems(2) have "unary n @ bs = low_bits 8 ?c @ stream_bits (drop (unat (ui_pos u + 1)) ?V)" unfolding ld(3) by simp
  from unary_split [OF this] show ?case
  proof
    assume "n < length (low_bits 8 ?c) \<and> (\<exists>b0. low_bits 8 ?c = unary n @ b0 \<and> bs = b0 @ stream_bits (drop (unat (ui_pos u + 1)) ?V))"
    then obtain b0 where b: "low_bits 8 ?c = unary n @ b0" "bs = b0 @ stream_bits (drop (unat (ui_pos u + 1)) ?V)" by blast
    have "low_bits 8 ?c \<noteq> replicate 8 False" unfolding b(1) by (rule unary_not_zeros)
    then have "?c \<noteq> 0" by (simp only: low_bits_full not_False_eq_True)
    then have "ui_chunks h u = Inr ?u" using \<open>ui_pos u < m_len (ui_d u)\<close> ld(1) by (subst ui_chunks.simps) simp
    then show ?thesis using b lt ld(2) by (intro exI [of _ ?u] exI [of _ n] exI [of _ b0]) simp
  next
    assume "length (low_bits 8 ?c) \<le> n \<and> low_bits 8 ?c = replicate (length (low_bits 8 ?c)) False \<and>
      stream_bits (drop (unat (ui_pos u + 1)) ?V) = unary (n - length (low_bits 8 ?c)) @ bs"
    then have n: "8 \<le> n" and "?c = 0" and r: "stream_bits (drop (unat (ui_pos u + 1)) ?V) = unary (n - 8) @ bs"
      by (simp_all add: low_bits_full)
    let ?w = "?u\<lparr>ui_last := ui_last u + 8\<rparr>"
    have w: "ui_chunks h u = ui_chunks h ?w" using \<open>ui_pos u < m_len (ui_d u)\<close> ld(1) \<open>?c = 0\<close> by (subst ui_chunks.simps) simp
    have "unat (m_len (ui_d ?w)) - unat (ui_pos ?w) < unat (m_len (ui_d u)) - unat (ui_pos u)" using lt ld(2) by simp
    from less.hyps [OF this, of "n - 8"] less.prems(1) r obtain u' m b0 where
      "ui_chunks h ?w = Inr u' \<and> ui_d u' = ui_d u \<and> ui_chunkBitPtr u' = 128 \<and> unat (ui_pos u') \<le> unat (m_len (ui_d u)) \<and>
        ui_last u' + of_nat m = ui_last u + 8 + of_nat (n - 8) \<and> low_bits 8 (ui_lastChunk u') = unary m @ b0 \<and>
        bs = b0 @ stream_bits (drop (unat (ui_pos u')) ?V)" by auto
    then show ?thesis unfolding w using n by (intro exI [of _ u'] exI [of _ m] exI [of _ b0]) (simp add: of_nat_diff)
  qed
qed

lemma ui_next_spec:
  assumes "bits_left h u (unary n @ bs)"
  shows "\<exists>u'. ui_next h u = Inr u' \<and> ui_last u' = of_nat n \<and> bits_left h u' bs \<and> ui_d u' = ui_d u"
proof -
  from assms obtain j where j: "uba_inv h (ui_d u)" "unat (ui_pos u) \<le> unat (m_len (ui_d u))" "j < 8" "ui_chunkBitPtr u = ptr_of j"
    and e: "unary n @ bs = low_bits j (ui_lastChunk u) @ stream_bits (drop (unat (ui_pos u)) (view h (ui_d u)))"
    by (auto simp: bits_left_def)
  let ?rest = "stream_bits (drop (unat (ui_pos u)) (view h (ui_d u)))"
  have "unary n @ bs \<noteq> []" by (simp add: unary_def)
  then have ne: "\<not> (m_len (ui_d u) \<le> ui_pos u \<and> ui_chunkBitPtr u = 0)" 
    using e j by (cases j) (auto simp: word_le_nat_alt ptr_of_step)
  have n128: "ui_chunkBitPtr u \<noteq> 128" using j(3,4) ptr_of_last by simp
  from unary_split [OF e] show ?thesis
  proof
    assume "n < length (low_bits j (ui_lastChunk u)) \<and> (\<exists>b0. low_bits j (ui_lastChunk u) = unary n @ b0 \<and> bs = b0 @ ?rest)"
    then obtain b0 where b: "low_bits j (ui_lastChunk u) = unary n @ b0" "bs = b0 @ ?rest" by blast
    have "j \<le> 8" using j(3) by simp
    note st = unary_stop [OF b(1) this]
    have "ui_next h u = Inr (u\<lparr>ui_last := of_nat n, ui_chunkBitPtr := ptr_of (j - Suc n)\<rparr>)"
      using ne n128 st(1) [of 0] j(4) by (auto simp: ui_next_def)
    moreover have "bits_left h (u\<lparr>ui_last := of_nat n, ui_chunkBitPtr := ptr_of (j - Suc n)\<rparr>) bs"
      using j(1-3) b(2) st(2) by (auto simp: bits_left_def intro!: exI [of _ "j - Suc n"])
    ultimately show ?thesis by simp
  next
    assume "length (low_bits j (ui_lastChunk u)) \<le> n \<and> low_bits j (ui_lastChunk u) = replicate (length (low_bits j (ui_lastChunk u))) False \<and>
      ?rest = unary (n - length (low_bits j (ui_lastChunk u))) @ bs"
    then have n: "j \<le> n" and z: "low_bits j (ui_lastChunk u) = replicate j False" and r: "?rest = unary (n - j) @ bs" by simp_all
    have "j \<le> 8" using j(3) by simp
    note nb = uc_bits_none [OF this z, of 0]
    let ?u = "u\<lparr>ui_last := of_nat j, ui_chunkBitPtr := 0\<rparr>"
    from ui_chunks_spec [of h ?u "n - j" bs] j(1) r obtain u' m b0 where
      c: "ui_chunks h ?u = Inr u'" "ui_d u' = ui_d u" "ui_chunkBitPtr u' = ptr_of 8" "unat (ui_pos u') \<le> unat (m_len (ui_d u))"
        "ui_last u' + of_nat m = of_nat j + of_nat (n - j)" "low_bits 8 (ui_lastChunk u') = unary m @ b0"
        "bs = b0 @ stream_bits (drop (unat (ui_pos u')) (view h (ui_d u)))" by (auto simp: ptr_of_def)
    have l: "ui_last u' + of_nat m = of_nat n" using c(5) n by (simp add: of_nat_diff)
    note st = unary_stop [OF c(6) order_refl]
    have "m < 8" using arg_cong [OF c(6), of length] by simp
    let ?v = "u'\<lparr>ui_last := of_nat n, ui_chunkBitPtr := ptr_of (8 - Suc m)\<rparr>"
    have "ui_next h u = Inr ?v" using ne n128 nb c(1,3) st(1) [of "ui_last u'"] j(4) l by (auto simp: ui_next_def)
    moreover have "bits_left h ?v bs"
      using j(1) c(2,4,7) st(2) by (auto simp: bits_left_def intro!: exI [of _ "8 - Suc m"])
    ultimately show ?thesis using c(2) by simp
  qed
qed

text \<open>A new iterator stands at the first number.\<close>

lemma ui_new_spec:
  assumes "uba_inv h d" "stream_bits (view h d) = unary n @ bs"
  shows "\<exists>u. ui_new h d = Inr u \<and> ui_last u = of_nat n \<and> bits_left h u bs \<and> ui_d u = d"
proof -
  have "bits_left h \<lparr>ui_d = d, ui_pos = 0, ui_last = 0, ui_lastChunk = 0, ui_chunkBitPtr = 0\<rparr> (unary n @ bs)"
    using assms by (auto simp: bits_left_def intro!: exI [of _ 0])
  from ui_next_spec [OF this] show ?thesis by (simp add: ui_new_def)
qed

section \<open>Writing\<close>

definition wrote :: "heap \<Rightarrow> uba \<Rightarrow> bytes \<Rightarrow> heap \<Rightarrow> uba \<Rightarrow> bool" where
  "wrote h d bs h' d' \<longleftrightarrow> appended h d bs h' d' \<and> kept h d h' \<and> kind (storage h' d') = kind (storage h d)"

lemma wrote_trans: "pushable h d n \<Longrightarrow> wrote h d as h1 d1 \<Longrightarrow> wrote h1 d1 bs h2 d2 \<Longrightarrow> wrote h d (as @ bs) h2 d2"
  unfolding wrote_def using appended_trans [of h d n as h1 d1 bs h2 d2] kept_trans [of h d h1 d1 h2] by (auto simp: appended_def)

lemma wrote_Nil: "pushable h d n \<Longrightarrow> wrote h d [] h d"
  by (simp add: wrote_def appended_Nil)

lemma wrote_pushable: "pushable h d (length bs + n) \<Longrightarrow> wrote h d bs h' d' \<Longrightarrow> pushable h' d' n"
  by (simp add: wrote_def appended_pushable)

lemma putUint8_kind: "priv_putUint8 p pos v = Inr q \<Longrightarrow> kind q = kind p"
  by (auto simp: priv_putUint8_def array_putUint8_def container_putUint8_def array_put_def container_put_def split: backend.splits if_splits)

lemma stream_putUint8_wrote:
  assumes "pushable h d 1"
  shows "\<exists>h' d'. stream_putUint8 h d v = Inr (h', d') \<and> wrote h d [v] h' d'"
proof -
  have p: "p_u8 v = [v]" by (simp add: p_u8_def)
  from SUint8.sput_ok [of h d v] assms obtain h' d' where 1: "stream_putUint8 h d v = Inr (h', d')" "appended h d [v] h' d'" by (auto simp: p)
  from 1(1) obtain h1 u1 where
    2: "resizeForPush h d (m_putPtr d) 1 = Inr (True, h1, u1)" "uba_putUint8 h1 u1 (m_putPtr u1) v = Inr h'" "m_priv d' = m_priv u1"
    by (auto simp: stream_putUint8_def streaming_put_def split: if_splits)
  note f = resizeForPush_frame [OF 2(1)]
  have "kind (storage h' u1) = kind (storage h1 u1)" "\<And>w. m_priv w \<noteq> m_priv u1 \<Longrightarrow> storage h' w = storage h1 w"
    using 2(2) putUint8_kind by (auto simp: uba_putUint8_def store_at_def storage_def split: if_splits)
  then have "kind (storage h' d') = kind (storage h d)" "kept h d h'"
    using f 2(3) by (simp_all add: storage_def kept_def)
  then show ?thesis using 1 by (simp add: wrote_def)
qed

lemma uc_zeros_spec:
  "pushable h d (unat v div 8) \<Longrightarrow>
    \<exists>h' d' w. uc_zeros h d v = Inr (h', d', w) \<and> unat w = unat v mod 8 \<and> wrote h d (replicate (unat v div 8) 0) h' d'"
proof (induction "unat v" arbitrary: h d v rule: less_induct)
  case less
  show ?case
  proof (cases "8 \<le> v")
    case False
    then have "unat v < 8" by (simp add: word_le_nat_alt)
    then show ?thesis using False wrote_Nil [OF less.prems] by (subst uc_zeros.simps) auto
  next
    case True
    then have u: "unat (v - 8) = unat v - 8" "8 \<le> unat v" by (simp_all add: unat_sub word_le_nat_alt)
    then have dv: "unat v div 8 = 1 + unat (v - 8) div 8" "unat v mod 8 = unat (v - 8) mod 8" by (simp_all add: le_div_geq le_mod_geq)
    have p: "pushable h d (length [0 :: u8] + unat (v - 8) div 8)" using less.prems dv(1) by simp
    have "pushable h d 1" by (rule pushable_less [OF p]) simp
    from stream_putUint8_wrote [OF this] obtain h1 d1 where 1: "stream_putUint8 h d 0 = Inr (h1, d1)" "wrote h d [0] h1 d1" by blast
    have "unat (v - 8) < unat v" using u by simp
    from less.hyps [OF this wrote_pushable [OF p 1(2)]] obtain h2 d2 w where
      2: "uc_zeros h1 d1 (v - 8) = Inr (h2, d2, w)" "unat w = unat (v - 8) mod 8" "wrote h1 d1 (replicate (unat (v - 8) div 8) 0) h2 d2" by blast
    have "uc_zeros h d v = Inr (h2, d2, w)" using True 1(1) 2(1) by (subst uc_zeros.simps) simp
    then show ?thesis using 2(2) wrote_trans [OF p 1(2) 2(3)] dv by simp
  qed
qed

text \<open>The bits of a byte from position \<open>k\<close> on.\<close>

definition high_bits :: "nat \<Rightarrow> u8 \<Rightarrow> bool list" where
  "high_bits k c = map (bit c) (rev [k..<8])"

lemma high_low_bits: "k \<le> 8 \<Longrightarrow> high_bits k c @ low_bits k c = low_bits 8 c"
  using upt_add_eq_append [of 0 k "8 - k"] by (simp add: high_bits_def low_bits_def flip: map_append rev_append)

lemma high_bits_8 [simp]: "high_bits 8 c = []"
  by (simp add: high_bits_def)

lemma low_bits_zeroD: "low_bits k c = replicate k False \<Longrightarrow> i < k \<Longrightarrow> \<not> bit c i"
  using bit_list [of i k c] by simp

lemma set_stop_bit:
  assumes "low_bits k c = replicate k False" "v < k" "k \<le> 8"
  defines "c' \<equiv> c OR push_bit (k - Suc v) 1"
  shows "high_bits (k - Suc v) c' = high_bits k c @ unary v" "low_bits (k - Suc v) c' = replicate (k - Suc v) False" "c' \<noteq> 0"
proof -
  let ?j = "k - Suc v"
  have j: "?j < k" "?j < 8" using assms(2,3) by simp_all
  have b: "bit c' i \<longleftrightarrow> bit c i \<or> i = ?j" for i
    using j unfolding c'_def by (auto simp: bit_or_iff bit_push_bit_iff bit_simps possible_bit_def)
  have "[?j..<8] = ?j # [Suc ?j..<k] @ [k..<8]"
    using j(1) assms(3) upt_add_eq_append [of "Suc ?j" k "8 - k"] by (simp add: upt_conv_Cons)
  then have "high_bits ?j c' = map (bit c') (rev [k..<8]) @ map (bit c') (rev [Suc ?j..<k]) @ [bit c' ?j]" by (simp add: high_bits_def)
  also have "map (bit c') (rev [k..<8]) = high_bits k c" using b j by (simp add: high_bits_def rev_map)
  also have "map (bit c') (rev [Suc ?j..<k]) = map (\<lambda>_. False) (rev [Suc ?j..<k])"
    using b low_bits_zeroD [OF assms(1)] by (intro map_cong) auto
  also have "map (\<lambda>_. False) (rev [Suc ?j..<k]) = replicate v False" using assms(2) by (simp add: map_replicate_const)
  finally show "high_bits ?j c' = high_bits k c @ unary v" using b by (simp add: unary_def)
  have "low_bits ?j c' = map (\<lambda>_. False) (rev [0..<?j])"
    unfolding low_bits_def using b low_bits_zeroD [OF assms(1)] j(1) by (intro map_cong) auto
  then show "low_bits ?j c' = replicate ?j False" by (simp add: map_replicate_const)
  show "c' \<noteq> 0" using b [of ?j] by auto
qed

text \<open>The bits put so far: the bytes behind the write position and the bits used of the last chunk. \<open>N\<close> bytes fit in.\<close>

definition uc_holds :: "heap \<Rightarrow> uba \<Rightarrow> nat \<Rightarrow> heap \<Rightarrow> unary_cr \<Rightarrow> bool list \<Rightarrow> bool" where
  "uc_holds h0 d0 N h c bits \<longleftrightarrow> pushable h0 d0 N \<and>
     (\<exists>bs k. wrote h0 d0 bs h (uc_d c) \<and> k \<le> 8 \<and> uc_inChunkBits c = of_nat k \<and> low_bits k (uc_lastChunk c) = replicate k False \<and>
       (k < 8 \<longrightarrow> uc_lastChunk c \<noteq> 0) \<and> bits = stream_bits bs @ high_bits k (uc_lastChunk c))"

lemma inChunkBits_value:
  assumes "k \<le> 8"
  shows "unat (scast (of_nat k :: u8) :: u32) = k" "unat (of_nat k :: u8) = k"
proof -
  have "k \<in> set [0..<9]" using assms by simp
  moreover have "\<forall>k \<in> set [0..<9]. unat (scast (of_nat k :: u8) :: u32) = k \<and> unat (of_nat k :: u8) = k" by code_simp
  ultimately show "unat (scast (of_nat k :: u8) :: u32) = k" "unat (of_nat k :: u8) = k" by blast+
qed

lemma length_stream_bits [simp]: "length (stream_bits bs) = 8 * length bs"
  by (induction bs) simp_all

lemma stream_bits_zeros [simp]: "stream_bits (replicate n 0) = replicate (8 * n) False"
  by (induction n) (simp_all add: low_bits_zero flip: replicate_add)

lemma uc_holds_new: "pushable h d N \<Longrightarrow> uc_holds h d N h (uc_new d) []"
  using wrote_Nil [of h d N] unfolding uc_holds_def uc_new_def
  by (auto simp: low_bits_zero intro!: exI [of _ "[]"] exI [of _ 8])

text \<open>Chunks that do not hold the stop bit.\<close>

definition uc_full :: "heap \<Rightarrow> unary_cr \<Rightarrow> u32 \<Rightarrow> (heap \<times> unary_cr \<times> u32) res" where
  "uc_full h c v =
     (if v \<ge> scast (uc_inChunkBits c)
      then bindE (stream_putUint8 h (uc_d c) (uc_lastChunk c)) (\<lambda>(h, d).
             bindE (uc_zeros h d (v - scast (uc_inChunkBits c))) (\<lambda>(h, d, v).
               Inr (h, \<lparr>uc_d = d, uc_lastChunk = 0, uc_inChunkBits = 8\<rparr>, v)))
      else Inr (h, c, v))"

lemma replicate_split: "k \<le> n \<Longrightarrow> unary n = replicate k False @ unary (n - k)"
  unfolding unary_def append_assoc [symmetric] by (simp flip: replicate_add)

lemma uc_full_spec:
  assumes "uc_holds h0 d0 N h c bits" "length bits + unat v + 1 \<le> 8 * N"
  shows "\<exists>h' c' w k zs. uc_full h c v = Inr (h', c', w) \<and> uc_holds h0 d0 N h' c' (bits @ zs) \<and> zs @ unary (unat w) = unary (unat v) \<and>
    uc_inChunkBits c' = of_nat k \<and> unat w < k \<and> k \<le> 8"
proof -
  from assms(1) obtain bs k where p: "pushable h0 d0 N"
    and i: "wrote h0 d0 bs h (uc_d c)" "k \<le> 8" "uc_inChunkBits c = of_nat k" "low_bits k (uc_lastChunk c) = replicate k False"
      "bits = stream_bits bs @ high_bits k (uc_lastChunk c)" by (auto simp: uc_holds_def)
  note sk = inChunkBits_value [OF i(2)]
  show ?thesis
  proof (cases "unat v < k")
    case True
    then have "\<not> v \<ge> scast (uc_inChunkBits c)" using sk(1) i(3) by (simp add: word_le_nat_alt)
    then have "uc_full h c v = Inr (h, c, v)" by (simp add: uc_full_def)
    then show ?thesis using assms(1) i(2,3) True by (intro exI [of _ h] exI [of _ c] exI [of _ v] exI [of _ k] exI [of _ "[]"]) simp
  next
    case False
    then have ge: "v \<ge> scast (uc_inChunkBits c)" using sk(1) i(3) by (simp add: word_le_nat_alt)
    let ?v = "v - scast (uc_inChunkBits c)"
    have v: "unat ?v = unat v - k" using sk(1) i(3) unat_sub [OF ge] by simp
    let ?n = "unat ?v div 8"
    have "length bits = 8 * length bs + (8 - k)" using i(5) i(2) by (simp add: high_bits_def)
    then have room: "length bs + (1 + ?n) \<le> N" using assms(2) False i(2) unfolding v by linarith
    have "pushable h0 d0 (length bs + (1 + ?n))" by (rule pushable_less [OF p room])
    note p1 = wrote_pushable [OF this i(1)]
    then have "pushable h (uc_d c) 1" by (rule pushable_less) simp
    from stream_putUint8_wrote [OF this] obtain h1 d1 where
      1: "stream_putUint8 h (uc_d c) (uc_lastChunk c) = Inr (h1, d1)" "wrote h (uc_d c) [uc_lastChunk c] h1 d1" by blast
    have "pushable h1 d1 ?n" using wrote_pushable [of h "uc_d c" "[uc_lastChunk c]" ?n, OF _ 1(2)] p1 by simp
    from uc_zeros_spec [OF this] obtain h2 d2 w where
      2: "uc_zeros h1 d1 ?v = Inr (h2, d2, w)" "unat w = unat ?v mod 8" "wrote h1 d1 (replicate ?n 0) h2 d2" by blast
    let ?c = "\<lparr>uc_d = d2, uc_lastChunk = 0, uc_inChunkBits = 8\<rparr>"
    let ?zs = "replicate k False @ replicate (8 * ?n) False"
    have "uc_full h c v = Inr (h2, ?c, w)" using ge 1(1) 2(1) by (simp add: uc_full_def)
    moreover have "wrote h0 d0 ((bs @ [uc_lastChunk c]) @ replicate ?n 0) h2 d2"
      by (rule wrote_trans [OF p wrote_trans [OF p i(1) 1(2)] 2(3)])
    then have "uc_holds h0 d0 N h2 ?c (bits @ ?zs)"
      unfolding uc_holds_def using p high_low_bits [OF i(2), of "uc_lastChunk c"] i(4,5)
      by (intro conjI exI [of _ "bs @ [uc_lastChunk c] @ replicate ?n 0"] exI [of _ 8]) (simp_all add: low_bits_zero)
    moreover have "?zs @ unary (unat w) = unary (unat v)"
    proof -
      have "unary (unat v) = replicate k False @ unary (unat ?v)" unfolding v by (rule replicate_split) (use False in simp)
      moreover have "unary (unat ?v) = replicate (8 * ?n) False @ unary (unat w)"
        using replicate_split [of "8 * ?n" "unat ?v"] 2(2) by (simp add: minus_mult_div_eq_mod)
      ultimately show ?thesis by simp
    qed
    moreover have "unat w < 8" using 2(2) by simp
    ultimately show ?thesis by (intro exI [of _ h2] exI [of _ ?c] exI [of _ w] exI [of _ 8] exI [of _ ?zs]) simp
  qed
qed

lemma uc_put_spec:
  assumes "uc_holds h0 d0 N h c bits" "length bits + unat v + 1 \<le> 8 * N"
  shows "\<exists>h' c'. uc_put h c v = Inr (h', c') \<and> uc_holds h0 d0 N h' c' (bits @ unary (unat v))"
proof -
  from uc_full_spec [OF assms] obtain h1 c1 w k zs where
    1: "uc_full h c v = Inr (h1, c1, w)" "uc_holds h0 d0 N h1 c1 (bits @ zs)" "zs @ unary (unat w) = unary (unat v)"
      "uc_inChunkBits c1 = of_nat k" "unat w < k" "k \<le> 8" by blast
  from 1(2) obtain bs k' where p: "pushable h0 d0 N"
    and i: "wrote h0 d0 bs h1 (uc_d c1)" "k' \<le> 8" "uc_inChunkBits c1 = of_nat k'" "low_bits k' (uc_lastChunk c1) = replicate k' False"
      "bits @ zs = stream_bits bs @ high_bits k' (uc_lastChunk c1)" by (auto simp: uc_holds_def)
  have k: "k' = k" using i(3) 1(4) inChunkBits_value(2) [OF i(2)] inChunkBits_value(2) [OF 1(6)] by simp
  have w: "unat (w + 1) = unat w + 1" using 1(5,6) by (subst unat_add_nowrap) simp_all
  let ?sh = "scast (uc_inChunkBits c1) - (w + 1) :: u32"
  have "w + 1 \<le> scast (uc_inChunkBits c1)" using w 1(4-6) inChunkBits_value(1) [OF 1(6)] by (simp add: word_le_nat_alt)
  from unat_sub [OF this] have sh: "unat ?sh = k - Suc (unat w)" using w 1(4) inChunkBits_value(1) [OF 1(6)] by simp
  then have "\<not> 32 \<le> ?sh" using 1(6) by (simp add: word_le_nat_alt)
  let ?c = "c1\<lparr>uc_lastChunk := uc_lastChunk c1 OR push_bit (k - Suc (unat w)) 1, uc_inChunkBits := uc_inChunkBits c1 - ucast (w + 1)\<rparr>"
  have put: "uc_put h c v = bindE (uc_full h c v) (\<lambda>(h, c, v).
       let sh = scast (uc_inChunkBits c) - (v + 1) :: u32
       in if 32 \<le> sh then Inl UndefinedBehaviour
          else Inr (h, c\<lparr>uc_lastChunk := uc_lastChunk c OR push_bit (unat sh) 1, uc_inChunkBits := uc_inChunkBits c - ucast (v + 1)\<rparr>))"
    by (simp add: uc_put_def uc_full_def)
  have "uc_put h c v = Inr (h1, ?c)" unfolding put using 1(1) \<open>\<not> 32 \<le> ?sh\<close> sh by (simp add: Let_def)
  moreover have "uc_inChunkBits ?c = of_nat (k - Suc (unat w))"
  proof -
    have "ucast (w + 1) = (of_nat (Suc (unat w)) :: u8)"
      by (subst of_nat_unat [of "w + 1", symmetric]) (simp only: w Suc_eq_plus1)
    then show ?thesis using 1(4,5) by (simp add: of_nat_diff)
  qed
  note st = set_stop_bit [OF i(4) [unfolded k] 1(5,6)]
  have "uc_holds h0 d0 N h1 ?c (bits @ unary (unat v))"
    unfolding uc_holds_def
  proof (intro conjI exI [of _ bs] exI [of _ "k - Suc (unat w)"])
    show "bits @ unary (unat v) = stream_bits bs @ high_bits (k - Suc (unat w)) (uc_lastChunk ?c)"
      proof -
      have "bits @ unary (unat v) = (bits @ zs) @ unary (unat w)" using 1(3) by simp
      also have "\<dots> = stream_bits bs @ high_bits k (uc_lastChunk c1) @ unary (unat w)" unfolding i(5) k by simp
      finally show ?thesis using st(1) by simp
    qed
  qed (use p i(1) st 1(6) \<open>uc_inChunkBits ?c = _\<close> in simp_all)
  ultimately show ?thesis by blast
qed

fun unary_code :: "u32 list \<Rightarrow> bool list" where
  "unary_code [] = []"
| "unary_code (v # vs) = unary (unat v) @ unary_code vs"

lemma uc_put_all_spec:
  "uc_holds h0 d0 N h c bits \<Longrightarrow> length (bits @ unary_code vs) \<le> 8 * N \<Longrightarrow>
    \<exists>h' c'. uc_put_all h c vs = Inr (h', c') \<and> uc_holds h0 d0 N h' c' (bits @ unary_code vs)"
proof (induction vs arbitrary: h c bits)
  case (Cons v vs)
  have "length bits + unat v + 1 \<le> 8 * N" using Cons.prems(2) by simp
  from uc_put_spec [OF Cons.prems(1) this] obtain h1 c1 where
    1: "uc_put h c v = Inr (h1, c1)" "uc_holds h0 d0 N h1 c1 (bits @ unary (unat v))" by blast
  from Cons.IH [OF 1(2)] Cons.prems(2) show ?case using 1(1) by auto
qed simp

text \<open>Flushing: the last chunk is filled with zeros.\<close>

lemma uc_flush_spec:
  assumes "uc_holds h0 d0 N h c bits" "length bits \<le> 8 * N"
  shows "\<exists>h' c' bs k. uc_flush h c = Inr (h', c') \<and> wrote h0 d0 bs h' (uc_d c') \<and> stream_bits bs = bits @ replicate k False \<and> k < 8 \<and>
    uc_lastChunk c' = uc_lastChunk c"
proof -
  from assms(1) obtain bs k where p: "pushable h0 d0 N"
    and i: "wrote h0 d0 bs h (uc_d c)" "k \<le> 8" "low_bits k (uc_lastChunk c) = replicate k False" "k < 8 \<longrightarrow> uc_lastChunk c \<noteq> 0"
      "bits = stream_bits bs @ high_bits k (uc_lastChunk c)" by (auto simp: uc_holds_def)
  show ?thesis
  proof (cases "k = 8")
    case True
    then have "uc_lastChunk c = 0" using i(3) low_bits_full by simp
    then show ?thesis using i(1,5) True by (intro exI [of _ h] exI [of _ c] exI [of _ bs] exI [of _ 0]) (simp add: uc_flush_def)
  next
    case False
    then have k: "k < 8" using i(2) by simp
    then have nz: "uc_lastChunk c \<noteq> 0" using i(4) by blast
    have "length bits = 8 * length bs + (8 - k)" using i(2,5) by (simp add: high_bits_def)
    then have "length bs + 1 \<le> N" using assms(2) k by linarith
    from wrote_pushable [OF pushable_less [OF p this] i(1)] stream_putUint8_wrote obtain h1 d1 where
      1: "stream_putUint8 h (uc_d c) (uc_lastChunk c) = Inr (h1, d1)" "wrote h (uc_d c) [uc_lastChunk c] h1 d1" by blast
    have "stream_bits (bs @ [uc_lastChunk c]) = bits @ replicate k False"
      using i(3,5) high_low_bits [OF i(2), of "uc_lastChunk c"] by simp
    then show ?thesis using 1(1) nz k wrote_trans [OF p i(1) 1(2)]
      by (intro exI [of _ h1] exI [of _ "c\<lparr>uc_d := d1\<rparr>"] exI [of _ "bs @ [uc_lastChunk c]"] exI [of _ k]) (simp add: uc_flush_def)
  qed
qed

lemma uc_write_spec:
  assumes "pushable h d N" "length (unary_code vs) \<le> 8 * N"
  shows "\<exists>h1 c1 h2 c2 bs k. uc_put_all h (uc_new d) vs = Inr (h1, c1) \<and> uc_flush h1 c1 = Inr (h2, c2) \<and> wrote h d bs h2 (uc_d c2) \<and>
    stream_bits bs = unary_code vs @ replicate k False \<and> k < 8"
proof -
  from uc_put_all_spec [OF uc_holds_new [OF assms(1)], of vs] assms(2) obtain h1 c1 where
    1: "uc_put_all h (uc_new d) vs = Inr (h1, c1)" "uc_holds h d N h1 c1 (unary_code vs)" by auto
  from uc_flush_spec [OF 1(2) assms(2)] 1(1) show ?thesis by blast
qed

text \<open>Behind the last number there are fewer than eight zeros.\<close>

lemma ui_next_pad:
  assumes "bits_left h u (replicate k False)" "k < 8"
  shows "\<exists>u'. ui_next h u = Inr u' \<and> bits_left h u' [] \<and> ui_d u' = ui_d u"
proof -
  from assms(1) obtain j where j: "uba_inv h (ui_d u)" "unat (ui_pos u) \<le> unat (m_len (ui_d u))" "j < 8" "ui_chunkBitPtr u = ptr_of j"
    and e: "replicate k False = low_bits j (ui_lastChunk u) @ stream_bits (drop (unat (ui_pos u)) (view h (ui_d u)))"
    by (auto simp: bits_left_def)
  have "k = j + 8 * length (drop (unat (ui_pos u)) (view h (ui_d u)))" using arg_cong [OF e, of length] by simp
  moreover from this have "length (drop (unat (ui_pos u)) (view h (ui_d u))) = 0" using assms(2) by linarith
  ultimately have "length (drop (unat (ui_pos u)) (view h (ui_d u))) = 0" "k = j" by simp_all
  then have d: "drop (unat (ui_pos u)) (view h (ui_d u)) = []" and le: "m_len (ui_d u) \<le> ui_pos u"
    using j(1) by (simp_all add: word_le_nat_alt)
  have z: "low_bits j (ui_lastChunk u) = replicate j False" using e d \<open>k = j\<close> by simp
  have "j \<le> 8" using j(3) by simp
  note nb = uc_bits_none [OF this z, of 0]
  show ?thesis
  proof (cases "j = 0")
    case True
    then have "ui_next h u = Inr u" using le j(4) by (simp add: ui_next_def)
    moreover have "bits_left h u []" using j d True by (auto simp: bits_left_def intro!: exI [of _ 0])
    ultimately show ?thesis by simp
  next
    case False
    then have p: "ptr_of j \<noteq> 0" using ptr_of_step(1) [of "j - 1"] j(3) by (simp add: ptr_of_def)
    let ?u = "u\<lparr>ui_last := of_nat j, ui_chunkBitPtr := 0\<rparr>"
    have "\<not> ui_pos u < m_len (ui_d u)" using le by simp
    then have "ui_chunks h ?u = Inr ?u" by (subst ui_chunks.simps) simp
    moreover have "uc_bits (ui_lastChunk u) 0 (of_nat j) = (False, 0, of_nat j)" by (subst uc_bits.simps) simp
    ultimately have "ui_next h u = Inr ?u" using p nb j(3,4) ptr_of_last by (simp add: ui_next_def)
    moreover have "bits_left h ?u []" using j d by (auto simp: bits_left_def intro!: exI [of _ 0])
    ultimately show ?thesis by simp
  qed
qed

section \<open>Properties\<close>

text \<open>The numbers an iterator gives, one after the other.\<close>

fun ui_take :: "nat \<Rightarrow> heap \<Rightarrow> unary_it \<Rightarrow> u32 list res" where
  "ui_take 0 h u = Inr []"
| "ui_take (Suc n) h u = bindE (ui_next h u) (\<lambda>u'. bindE (ui_take n h u') (\<lambda>vs. Inr (ui_last u # vs)))"

lemma ui_take_spec:
  "bits_left h u (unary_code vs @ replicate k False) \<Longrightarrow> k < 8 \<Longrightarrow> ui_take (Suc (length vs)) h u = Inr (ui_last u # vs)"
proof (induction vs arbitrary: u)
  case Nil
  then show ?case using ui_next_pad [of h u k] by auto
next
  case (Cons v vs)
  from ui_next_spec [of h u "unat v" "unary_code vs @ replicate k False"] Cons.prems(1) obtain u1 where
    1: "ui_next h u = Inr u1" "ui_last u1 = v" "bits_left h u1 (unary_code vs @ replicate k False)" by auto
  from Cons.IH [OF 1(3) Cons.prems(2)] show ?case using 1(1,2) by simp
qed

lemma written_window:
  assumes "pushable h d n" "wrote h d bs h1 d1"
  shows "uba_inv h1 (uba_sub_len d1 (m_putPtr d) (m_putPtr d1 - m_putPtr d))" "view h1 (uba_sub_len d1 (m_putPtr d) (m_putPtr d1 - m_putPtr d)) = bs"
proof -
  have a: "uba_inv h1 d1" "view h1 d1 = blit (unat (m_putPtr d)) bs (view h d)" "unat (m_putPtr d1) = unat (m_putPtr d) + length bs"
      "unat (m_putPtr d1) \<le> unat (m_len d1)" "unat (m_putPtr d) \<le> length (view h d)"
    using assms by (simp_all add: wrote_def appended_def pushable_def word_le_nat_alt)
  have "m_putPtr d \<le> m_putPtr d1" using a(3) by (simp add: word_le_nat_alt)
  from unat_sub [OF this] have l: "unat (m_putPtr d1 - m_putPtr d) = length bs" using a(3) by simp
  have "unat (m_putPtr d) + unat (m_putPtr d1 - m_putPtr d) \<le> unat (m_len d1)" using a(3,4) l by simp
  note s = sub_len_spec [OF a(1) this]
  show "uba_inv h1 (uba_sub_len d1 (m_putPtr d) (m_putPtr d1 - m_putPtr d))" by (rule s(1))
  show "view h1 (uba_sub_len d1 (m_putPtr d) (m_putPtr d1 - m_putPtr d)) = bs"
    unfolding s(2) a(2) l using a(5) by (simp add: blit_def chunk_def)
qed

text \<open>C36: A non-empty list of numbers written in unary code and flushed, to storage with room for the code, is read back: an iterator
  over the bytes written gives the numbers one after the other, however their bits straddle the bytes. The number of bytes written is the
  least that has as many bits as the code.\<close>

theorem unary_roundtrip:
  assumes "pushable h d n" "length (unary_code vs) \<le> 8 * n" "vs \<noteq> []"
  shows "\<exists>h1 c1 h2 c2 u. uc_put_all h (uc_new d) vs = Inr (h1, c1) \<and> uc_flush h1 c1 = Inr (h2, c2) \<and>
    ui_new h2 (uba_sub_len (uc_d c2) (m_putPtr d) (m_putPtr (uc_d c2) - m_putPtr d)) = Inr u \<and> ui_take (length vs) h2 u = Inr vs \<and>
    length (unary_code vs) \<le> 8 * unat (m_putPtr (uc_d c2) - m_putPtr d) \<and>
    8 * unat (m_putPtr (uc_d c2) - m_putPtr d) < length (unary_code vs) + 8"
proof -
  from uc_write_spec [OF assms(1,2)] obtain h1 c1 h2 c2 bs k where
    1: "uc_put_all h (uc_new d) vs = Inr (h1, c1)" "uc_flush h1 c1 = Inr (h2, c2)" "wrote h d bs h2 (uc_d c2)"
      "stream_bits bs = unary_code vs @ replicate k False" "k < 8" by (elim exE conjE) (rule that)
  note w = written_window [OF assms(1) 1(3)]
  obtain v ws where vs: "vs = v # ws" using assms(3) by (cases vs) auto
  from ui_new_spec [OF w(1), of "unat v" "unary_code ws @ replicate k False"] 1(4) obtain u where
    2: "ui_new h2 (uba_sub_len (uc_d c2) (m_putPtr d) (m_putPtr (uc_d c2) - m_putPtr d)) = Inr u" "ui_last u = v"
      "bits_left h2 u (unary_code ws @ replicate k False)" by (auto simp: vs w(2))
  have "8 * length bs = length (unary_code vs) + k" using arg_cong [OF 1(4), of length] by simp
  moreover have "unat (m_putPtr (uc_d c2)) = unat (m_putPtr d) + length bs" using 1(3) by (simp add: wrote_def appended_def)
  then have "unat (m_putPtr (uc_d c2) - m_putPtr d) = length bs" by (subst unat_sub) (simp_all add: word_le_nat_alt)
  ultimately have "length (unary_code vs) \<le> 8 * unat (m_putPtr (uc_d c2) - m_putPtr d)"
    "8 * unat (m_putPtr (uc_d c2) - m_putPtr d) < length (unary_code vs) + 8" using 1(5) by simp_all
  with ui_take_spec [OF 2(3) 1(5)] 1(1,2) 2(1,2) show ?thesis unfolding vs by auto
qed

theorem unary_roundtrip_witness:
  "\<exists>h1 c1 h2 c2 u. uc_put_all (\<lambda>_. \<lparr>kind = VectorB, mem = []\<rparr>) (uc_new (uba_of_priv 0 0 0)) [4, 0, 11] = Inr (h1, c1) \<and>
    uc_flush h1 c1 = Inr (h2, c2) \<and>
    ui_new h2 (uba_sub_len (uc_d c2) (m_putPtr (uba_of_priv 0 0 0)) (m_putPtr (uc_d c2) - m_putPtr (uba_of_priv 0 0 0))) = Inr u \<and>
    ui_take (length [4, 0, 11 :: u32]) h2 u = Inr [4, 0, 11] \<and>
    length (unary_code [4, 0, 11]) \<le> 8 * unat (m_putPtr (uc_d c2) - m_putPtr (uba_of_priv 0 0 0)) \<and>
    8 * unat (m_putPtr (uc_d c2) - m_putPtr (uba_of_priv 0 0 0)) < length (unary_code [4, 0, 11]) + 8"
proof (rule unary_roundtrip)
  show "pushable (\<lambda>_. \<lparr>kind = VectorB, mem = []\<rparr>) (uba_of_priv 0 0 0) 3"
    by (simp add: pushable_def uba_inv_def live_def growable_def storage_def uba_of_priv_def max_size_def)
  show "length (unary_code [4, 0, 11]) \<le> 8 * 3" by simp
qed simp

end
