(* ===== verification/EliasFano.thy ===== *)
theory EliasFano
  imports UnaryCode
begin

text \<open>
  \<open>ItemIndexPrivateEliasFano\<close> (\<open>include/sserialize/containers/ItemIndexPrivates/ItemIndexPrivateEliasFano.h\<close> and \<open>.cpp\<close>): the id at a
  position minus the position is split into its lower bits, which are packed in a \<open>CompactUintArray\<close>, and the bits above them, whose differences are
  written in unary code. The number of lower bits is \<open>floor(logTo2(upperBound) - logTo2(count))\<close> in floating point; this function
  of the standard library is the parameter \<open>nl\<close>. The arguments \<open>r\<close>, \<open>r1\<close> and \<open>r2\<close> are the addresses of the storage that \<open>createCache\<close> obtains.
\<close>

section \<open>Sizes\<close>

definition ef_numLowerBits :: "(u32 \<Rightarrow> u32 \<Rightarrow> u8) \<Rightarrow> u32 \<Rightarrow> u32 \<Rightarrow> u8" where
  "ef_numLowerBits nl count upperBound = (if count = 0 then 0 else if upperBound < count then 0 else nl upperBound count)"

definition ef_upperBound :: "u32 \<Rightarrow> u32 \<Rightarrow> u32 res" where
  "ef_upperBound count largestElement =
     (let largestElement = largestElement - (count - 1); l2 = push_bit (msb32 largestElement) 1
      in if l2 = largestElement then Inr l2 else if push_bit 1 l2 = 0 then Inl StdDomainError else Inr (push_bit 1 l2))"

definition ef_upperBoundStorage :: "u32 \<Rightarrow> u32" where
  "ef_upperBoundStorage upperBound = of_nat (msb32 upperBound)"

section \<open>Creation\<close>

text \<open>\<open>MyIterator\<close>: the ids less their positions. The ids are of any unsigned type; those of a bit set have 64 bits.\<close>

fun ef_offsets :: "u32 \<Rightarrow> 'a::len word list \<Rightarrow> u32 list" where
  "ef_offsets off [] = []"
| "ef_offsets off (v # vs) = ucast (v - ucast off) # ef_offsets (off + 1) vs"

definition ef_put_lower :: "heap \<Rightarrow> uba \<Rightarrow> u32 list \<Rightarrow> u8 \<Rightarrow> (heap \<times> uba) res" where
  "ef_put_lower h dest vals lowerBits =
     (let spaceNeed = minStorageBytes (ucast lowerBits) (of_nat (length vals))
      in bindE (uba_reserveFromPutPtr h dest spaceNeed) (\<lambda>(ok, h, dest).
           if \<not> ok then Inl IOException
           else let data = uba_shrinkToPutPtr dest
                in bindE (cua_new data (ucast lowerBits)) (\<lambda>carr.
                   bindE (cua_set_all h carr 0 (map ucast vals)) (\<lambda>h. Inr (h, uba_incPutPtr dest spaceNeed)))))"

fun ef_put_upper :: "heap \<Rightarrow> unary_cr \<Rightarrow> u32 \<Rightarrow> u32 \<Rightarrow> u8 \<Rightarrow> 'a::len word list \<Rightarrow> (heap \<times> unary_cr) res" where
  "ef_put_upper h ucc i lastUpper lowerBits [] = Inr (h, ucc)"
| "ef_put_upper h ucc i lastUpper lowerBits (v # vs) =
     (if LENGTH('a) \<le> unat lowerBits then Inl UndefinedBehaviour
      else let ub = ucast (drop_bit (unat lowerBits) (v - ucast i)); gap = ub - lastUpper
           in bindE (uc_put h ucc gap) (\<lambda>(h, ucc). ef_put_upper h ucc (i + 1) ub lowerBits vs))"

text \<open>Leaving the block destroys the \<open>UnaryCodeCreator\<close>, which flushes once more; the bytes go to \<open>upperBitsData\<close>, which ends there too.\<close>

definition ef_create :: "(u32 \<Rightarrow> u32 \<Rightarrow> u8) \<Rightarrow> 'a::len word list \<Rightarrow> heap \<Rightarrow> nat \<Rightarrow> uba \<Rightarrow> (heap \<times> uba) res" where
  "ef_create nl src h r dest =
     bindE (narrow_check_u (int (length src))) (\<lambda>srcSize :: u32.
     if srcSize = 0 then bindE (stream_putVlPackedUint32 h dest 0) (\<lambda>(_, h, dest). Inr (h, dest))
     else
     bindE (narrow_check_u (uint (last src))) (\<lambda>lastEntry.
     bindE (ef_upperBound srcSize lastEntry) (\<lambda>upperBound.
       let lowerBits = ef_numLowerBits nl srcSize upperBound; lbmask = createMask (ucast lowerBits)
       in bindE (stream_putVlPackedUint32 h dest srcSize) (\<lambda>(_, h, dest).
          bindE (stream_putVlPackedUint32 h dest (ef_upperBoundStorage upperBound)) (\<lambda>(_, h, dest).
          bindE (if lowerBits \<noteq> 0 then ef_put_lower h dest (map (\<lambda>v. v AND lbmask) (ef_offsets 0 src)) lowerBits else Inr (h, dest)) (\<lambda>(h, dest).
          bindE (createCache h r (ucast srcSize)) (\<lambda>(h, upperBitsData).
          bindE (ef_put_upper h (uc_new upperBitsData) 0 0 lowerBits src) (\<lambda>(h, ucc).
          bindE (uc_flush h ucc) (\<lambda>(h, ucc).
          bindE (uba_resize h (uc_d ucc) (m_putPtr (uc_d ucc))) (\<lambda>(_, h, upperBitsData).
          bindE (narrow_check_u (uint (m_putPtr upperBitsData))) (\<lambda>n.
          bindE (stream_putVlPackedUint32 h dest n) (\<lambda>(_, h, dest).
          bindE (stream_putData_adapter h dest upperBitsData) (\<lambda>(h, dest).
          bindE (uc_flush h (ucc\<lparr>uc_d := upperBitsData\<rparr>)) (\<lambda>(h, _). Inr (h, dest)))))))))))))))"

section \<open>The iterator\<close>

text \<open>\<open>m_lb\<close> is a pointer to the array and a position.\<close>

record ef_iter =
  ei_lb :: cua
  ei_lbPos :: u64
  ei_ub :: unary_it
  ei_lastUb :: u32
  ei_baseValue :: u32
  ei_numLowerBits :: u8

definition ei_get :: "heap \<Rightarrow> ef_iter \<Rightarrow> u32 res" where
  "ei_get h it =
     (if ei_numLowerBits it \<noteq> 0 then
        if 32 \<le> ei_numLowerBits it then Inl UndefinedBehaviour
        else bindE (cua_at h (ei_lb it) (ei_lbPos it)) (\<lambda>lb.
          Inr (ucast ((ucast (push_bit (unat (ei_numLowerBits it)) (ei_lastUb it + ui_last (ei_ub it))) OR lb) + ucast (ei_baseValue it) :: u64)))
      else Inr (ei_lastUb it + ui_last (ei_ub it) + ei_baseValue it))"

definition ei_next :: "heap \<Rightarrow> ef_iter \<Rightarrow> ef_iter res" where
  "ei_next h it =
     (let lastUb = ei_lastUb it + ui_last (ei_ub it); baseValue = ei_baseValue it + 1
      in bindE (ui_next h (ei_ub it)) (\<lambda>ub.
           Inr (it\<lparr>ei_lbPos := ei_lbPos it + 1, ei_ub := ub, ei_lastUb := lastUb, ei_baseValue := baseValue\<rparr>)))"

definition ei_notEq :: "ef_iter \<Rightarrow> ef_iter \<Rightarrow> bool" where
  "ei_notEq a b \<longleftrightarrow> ei_lbPos a \<noteq> ei_lbPos b"

definition ei_eq :: "ef_iter \<Rightarrow> ef_iter \<Rightarrow> bool" where
  "ei_eq a b \<longleftrightarrow> ei_lbPos a = ei_lbPos b"

text \<open>The constructor that \<open>copy\<close> calls sets \<open>m_baseValue\<close> to 0.\<close>

definition ei_copy :: "ef_iter \<Rightarrow> ef_iter" where
  "ei_copy it = it\<lparr>ei_baseValue := 0\<rparr>"

section \<open>The index\<close>

record ef =
  ef_d :: uba
  ef_size :: u32
  ef_upperBoundBegin :: u32
  ef_lowerBitsBegin :: u32
  ef_upperBitsBegin :: u32
  ef_lowerBits :: cua
  ef_upperBits :: unary_it
  ef_it :: ef_iter
  ef_cache :: "u32 list"

definition ef_upperBound_of :: "heap \<Rightarrow> uba \<Rightarrow> u32 \<Rightarrow> u32 \<Rightarrow> u32 res" where
  "ef_upperBound_of h d sz upperBoundBegin =
     (if sz \<noteq> 0 then bindE (uba_getVlPackedUint32 h d (ucast upperBoundBegin)) (\<lambda>(e, _).
        if 32 \<le> e then Inl UndefinedBehaviour else Inr (push_bit (unat e) 1))
      else Inr 0)"

definition ef_upperBitsDataSize :: "heap \<Rightarrow> uba \<Rightarrow> u32 \<Rightarrow> u32 \<Rightarrow> u8 \<Rightarrow> u32 res" where
  "ef_upperBitsDataSize h d sz lowerBitsBegin nlb =
     (if sz \<noteq> 0 then bindE (uba_getVlPackedUint32 h d (ucast lowerBitsBegin + minStorageBytes (ucast nlb) (ucast sz))) (\<lambda>(n, _). Inr n)
      else Inr 0)"

text \<open>Default constructed members: an empty array and an iterator over no bytes.\<close>

definition cua_empty :: cua where
  "cua_empty = \<lparr>c_priv = CEmpty, m_maxCount = 0\<rparr>"

definition ui_empty :: unary_it where
  "ui_empty = \<lparr>ui_d = uba_of_priv 0 0 0, ui_pos = 0, ui_last = 0, ui_lastChunk = 0, ui_chunkBitPtr = 0\<rparr>"

definition ei_begin :: "cua \<Rightarrow> unary_it \<Rightarrow> ef_iter" where
  "ei_begin lb ub = \<lparr>ei_lb = lb, ei_lbPos = 0, ei_ub = ub, ei_lastUb = 0, ei_baseValue = 0, ei_numLowerBits = ucast (cua_bpn lb)\<rparr>"

definition ei_end :: "cua \<Rightarrow> u64 \<Rightarrow> ef_iter" where
  "ei_end lb n = \<lparr>ei_lb = lb, ei_lbPos = n, ei_ub = ui_empty, ei_lastUb = 0, ei_baseValue = 0, ei_numLowerBits = ucast (cua_bpn lb)\<rparr>"

definition ef_cbegin :: "ef \<Rightarrow> ef_iter" where
  "ef_cbegin x = ei_begin (ef_lowerBits x) (ef_upperBits x)"

definition ef_cend :: "ef \<Rightarrow> ef_iter" where
  "ef_cend x = ei_end (ef_lowerBits x) (ucast (ef_size x))"

text \<open>The constructor. The three bit fields hold sums of lengths of at most two codes. The iterator \<open>m_it\<close> is a copy of \<open>cbegin()\<close>.\<close>

definition ef_new :: "(u32 \<Rightarrow> u32 \<Rightarrow> u8) \<Rightarrow> heap \<Rightarrow> uba \<Rightarrow> (heap \<times> ef) res" where
  "ef_new nl h d =
     bindE (uba_getVlPackedUint32 h d 0) (\<lambda>(sz, _).
       let upperBoundBegin = of_nat (psize_vu32 sz)
       in bindE (ef_upperBound_of h d sz upperBoundBegin) (\<lambda>upperBound.
       let lowerBitsBegin = (if sz \<noteq> 0 then upperBoundBegin + of_nat (psize_vu32 (ef_upperBoundStorage upperBound)) else upperBoundBegin);
           nlb = ef_numLowerBits nl sz upperBound;
           lbSize = minStorageBytes (ucast nlb) (ucast sz)
       in bindE (ef_upperBitsDataSize h d sz lowerBitsBegin nlb) (\<lambda>dataSize.
       let upperBitsBegin = (if sz \<noteq> 0 then of_nat (psize_vu32 dataSize) else upperBoundBegin);
           totalSize = (if sz \<noteq> 0 then ucast lowerBitsBegin + lbSize + ucast upperBitsBegin + ucast dataSize else ucast upperBoundBegin)
       in bindE (uba_resize h d totalSize) (\<lambda>(_, h, d).
          bindE (if sz \<noteq> 0 \<and> nlb \<noteq> 0 then cua_new_sized (uba_plus d (ucast lowerBitsBegin)) (ucast nlb) (ucast sz) else Inr cua_empty) (\<lambda>lb.
          bindE (if sz \<noteq> 0 then ui_new h (uba_plus d (ucast lowerBitsBegin + lbSize + ucast upperBitsBegin)) else Inr ui_empty) (\<lambda>ub.
            Inr (h, \<lparr>ef_d = d, ef_size = sz, ef_upperBoundBegin = upperBoundBegin, ef_lowerBitsBegin = lowerBitsBegin,
                     ef_upperBitsBegin = upperBitsBegin, ef_lowerBits = lb, ef_upperBits = ub, ef_it = ei_copy (ei_begin lb ub), ef_cache = []\<rparr>)))))))"

fun ef_fill :: "nat \<Rightarrow> heap \<Rightarrow> ef \<Rightarrow> ef res" where
  "ef_fill 0 h x = Inr x"
| "ef_fill (Suc n) h x =
     bindE (ei_get h (ef_it x)) (\<lambda>v.
     bindE (ei_next h (ef_it x)) (\<lambda>it. ef_fill n h (x\<lparr>ef_it := it, ef_cache := ef_cache x @ [v]\<rparr>)))"

text \<open>\<open>while(m_cache.size() <= pos)\<close>\<close>

definition ef_at :: "heap \<Rightarrow> ef \<Rightarrow> u32 \<Rightarrow> (u32 \<times> ef) res" where
  "ef_at h x pos =
     (if pos \<ge> ef_size x then Inl StdOutOfRange
      else bindE (ef_fill (Suc (unat pos) - length (ef_cache x)) h x) (\<lambda>x. Inr (ef_cache x ! unat pos, x)))"

definition ef_first :: "heap \<Rightarrow> ef \<Rightarrow> (u32 \<times> ef) res" where
  "ef_first h x = ef_at h x 0"

definition ef_last :: "heap \<Rightarrow> ef \<Rightarrow> (u32 \<times> ef) res" where
  "ef_last h x = ef_at h x (ef_size x - 1)"

definition ef_getSizeInBytes :: "ef \<Rightarrow> u64" where
  "ef_getSizeInBytes x = m_len (ef_d x)"

definition ef_bpn :: "bool \<Rightarrow> ef \<Rightarrow> u8 res" where
  "ef_bpn wide x =
     (if ef_size x \<noteq> 0 then bindE (multiplyDiv64 wide (ef_getSizeInBytes x) 8 (ef_size x)) (\<lambda>b. Inr (ucast b)) else Inr (- 1))"

text \<open>The ids behind the cache are read with a copy of \<open>m_it\<close>.\<close>

fun ei_put_bits :: "nat \<Rightarrow> heap \<Rightarrow> ef_iter \<Rightarrow> uba \<Rightarrow> (heap \<times> uba) res" where
  "ei_put_bits 0 h it m = Inr (h, m)"
| "ei_put_bits (Suc n) h it m =
     bindE (ei_get h it) (\<lambda>v. bindE (dbs_set h m (ucast v)) (\<lambda>(h, m). bindE (ei_next h it) (\<lambda>it. ei_put_bits n h it m)))"

definition ef_putInto_bits :: "heap \<Rightarrow> ef \<Rightarrow> uba \<Rightarrow> (heap \<times> uba) res" where
  "ef_putInto_bits h x m =
     bindE (dbs_set_all h m (map ucast (ef_cache x))) (\<lambda>(h, m).
       if of_nat (length (ef_cache x)) < (ucast (ef_size x) :: u64)
       then ei_put_bits (unat (ef_size x) - length (ef_cache x)) h (ei_copy (ef_it x)) m else Inr (h, m))"

fun ei_list :: "nat \<Rightarrow> heap \<Rightarrow> ef_iter \<Rightarrow> u32 list res" where
  "ei_list 0 h it = Inr []"
| "ei_list (Suc n) h it =
     bindE (ei_get h it) (\<lambda>v. bindE (ei_next h it) (\<lambda>it. bindE (ei_list n h it) (\<lambda>vs. Inr (v # vs))))"

definition ef_putInto_array :: "heap \<Rightarrow> ef \<Rightarrow> u32 list res" where
  "ef_putInto_array h x =
     (if of_nat (length (ef_cache x)) < (ucast (ef_size x) :: u64)
      then bindE (ei_list (unat (ef_size x) - length (ef_cache x)) h (ei_copy (ef_it x))) (\<lambda>vs. Inr (ef_cache x @ vs))
      else Inr (ef_cache x))"

definition ef_source :: "heap \<times> ef \<Rightarrow> id_source" where
  "ef_source = (\<lambda>(h, x). \<lparr>src_size = ef_size x, src_at = (\<lambda>pos. bindE (ef_at h x pos) (\<lambda>(v, _). Inr v))\<rparr>)"

definition ef_find :: "heap \<Rightarrow> ef \<Rightarrow> u32 \<Rightarrow> u32 res" where
  "ef_find h x v = index_find (ef_source (h, x)) v"

section \<open>The creator and the set operations\<close>

record ef_creator =
  efc_values :: "u32 list"
  efc_data :: uba
  efc_putPtr :: u64

definition efc_new :: "heap \<Rightarrow> nat \<Rightarrow> (heap \<times> ef_creator) res" where
  "efc_new h r = bindE (createCache h r 4) (\<lambda>(h, d). Inr (h, \<lparr>efc_values = [], efc_data = d, efc_putPtr = 0\<rparr>))"

definition efc_new_at :: "uba \<Rightarrow> ef_creator" where
  "efc_new_at d = \<lparr>efc_values = [], efc_data = d, efc_putPtr = m_putPtr d\<rparr>"

definition efc_size :: "ef_creator \<Rightarrow> u32" where
  "efc_size c = of_nat (length (efc_values c))"

definition efc_push_back :: "ef_creator \<Rightarrow> u32 \<Rightarrow> ef_creator" where
  "efc_push_back c v = c\<lparr>efc_values := efc_values c @ [v]\<rparr>"

definition efc_flush :: "(u32 \<Rightarrow> u32 \<Rightarrow> u8) \<Rightarrow> heap \<Rightarrow> nat \<Rightarrow> ef_creator \<Rightarrow> (heap \<times> ef_creator) res" where
  "efc_flush nl h r c =
     bindE (ef_create nl (efc_values c) h r (uba_setPutPtr (efc_data c) (efc_putPtr c))) (\<lambda>(h, d). Inr (h, c\<lparr>efc_data := d\<rparr>))"

definition efc_flushedData :: "ef_creator \<Rightarrow> uba" where
  "efc_flushedData c = uba_setGetPtr (efc_data c) (efc_putPtr c)"

definition efc_getPrivateIndex :: "(u32 \<Rightarrow> u32 \<Rightarrow> u8) \<Rightarrow> heap \<Rightarrow> ef_creator \<Rightarrow> (heap \<times> ef) res" where
  "efc_getPrivateIndex nl h c = ef_new nl h (efc_flushedData c)"

text \<open>\<open>GenericSetOpExecuter::execute\<close> with \<open>EliasFanoIterator\<close> and \<open>EliasFanoCreator\<close>.\<close>

lemma next_unat_both:
  fixes x e y f :: u64
  assumes "x \<noteq> e" "y \<noteq> f"
  shows "unat (e - (x + 1)) + unat (f - (y + 1)) < unat (e - x) + unat (f - y)"
  by (intro add_strict_mono next_unat assms)

function ef_op_loop :: "set_op \<Rightarrow> heap \<Rightarrow> ef_iter \<Rightarrow> ef_iter \<Rightarrow> ef_iter \<Rightarrow> ef_iter \<Rightarrow> ef_creator \<Rightarrow> (ef_iter \<times> ef_iter \<times> ef_creator) res" where
  "ef_op_loop t h fIt fEnd sIt sEnd c =
     (if ei_notEq fIt fEnd \<and> ei_notEq sIt sEnd then
        bindE (ei_get h fIt) (\<lambda>fId.
        bindE (ei_get h sIt) (\<lambda>sId.
          if fId < sId then
            bindE (ei_next h fIt) (\<lambda>fIt. ef_op_loop t h fIt fEnd sIt sEnd (if pushFirstSmaller t then efc_push_back c fId else c))
          else if sId < fId then
            bindE (ei_next h sIt) (\<lambda>sIt. ef_op_loop t h fIt fEnd sIt sEnd (if pushSecondSmaller t then efc_push_back c sId else c))
          else
            bindE (ei_next h fIt) (\<lambda>fIt. bindE (ei_next h sIt) (\<lambda>sIt.
              ef_op_loop t h fIt fEnd sIt sEnd (if pushEqual t then efc_push_back c fId else c)))))
      else Inr (fIt, sIt, c))"
  by pat_completeness auto
termination
proof (relation "measure (\<lambda>(t, h, fIt, fEnd, sIt, sEnd, c). unat (ei_lbPos fEnd - ei_lbPos fIt) + unat (ei_lbPos sEnd - ei_lbPos sIt))")
qed (auto simp: ei_next_def ei_notEq_def Let_def bindE_eq_Inr_iff intro: next_unat next_unat_both)

function ef_remainder :: "heap \<Rightarrow> ef_iter \<Rightarrow> ef_iter \<Rightarrow> ef_creator \<Rightarrow> ef_creator res" where
  "ef_remainder h it stop c =
     (if ei_notEq it stop then
        bindE (ei_get h it) (\<lambda>v. bindE (ei_next h it) (\<lambda>it. ef_remainder h it stop (efc_push_back c v)))
      else Inr c)"
  by pat_completeness auto
termination
  by (relation "measure (\<lambda>(h, it, stop, c). unat (ei_lbPos stop - ei_lbPos it))")
    (auto simp: ei_next_def ei_notEq_def Let_def bindE_eq_Inr_iff intro: next_unat)

declare ef_op_loop.simps [simp del] ef_remainder.simps [simp del]

text \<open>\<open>GenericSetOpExecuterInit\<close>: the creator is made with bounds of the operands, for the difference of the first one; it only reserves
  memory with them.\<close>

definition ef_init :: "set_op \<Rightarrow> heap \<Rightarrow> nat \<Rightarrow> ef \<Rightarrow> ef \<Rightarrow> (heap \<times> ef_creator) res" where
  "ef_init t h r x y =
     bindE (ef_upperBound_of h (ef_d x) (ef_size x) (ef_upperBoundBegin x)) (\<lambda>_.
     if pushFirstSmaller t \<and> \<not> pushSecondSmaller t then efc_new h r
     else bindE (ef_upperBound_of h (ef_d y) (ef_size y) (ef_upperBoundBegin y)) (\<lambda>_. efc_new h r))"

definition ef_op :: "(u32 \<Rightarrow> u32 \<Rightarrow> u8) \<Rightarrow> set_op \<Rightarrow> heap \<Rightarrow> nat \<Rightarrow> nat \<Rightarrow> ef \<Rightarrow> ef \<Rightarrow> (heap \<times> ef) res" where
  "ef_op nl t h r1 r2 x y =
     bindE (ef_init t h r1 x y) (\<lambda>(h, c).
     bindE (ef_op_loop t h (ef_cbegin x) (ef_cend x) (ef_cbegin y) (ef_cend y) c) (\<lambda>(fIt, sIt, c).
     bindE (if pushFirstRemainder t then ef_remainder h fIt (ef_cend x) c else Inr c) (\<lambda>c.
     bindE (if pushSecondRemainder t then ef_remainder h sIt (ef_cend y) c else Inr c) (\<lambda>c.
     bindE (efc_flush nl h r2 c) (\<lambda>(h, c). efc_getPrivateIndex nl h c)))))"

text \<open>Another kind of index is given to the generic operation.\<close>

datatype ef_operand = EfOperand ef | EfOther id_source

datatype ef_result = EfResult heap ef | EfGeneric result_index

definition ef_setop :: "(u32 \<Rightarrow> u32 \<Rightarrow> u8) \<Rightarrow> set_op \<Rightarrow> heap \<Rightarrow> nat \<Rightarrow> nat \<Rightarrow> ef \<Rightarrow> ef_operand \<Rightarrow> ef_result res" where
  "ef_setop nl t h r1 r2 x other =
     (case other of
        EfOther s \<Rightarrow> bindE (do_op t (ef_source (h, x)) (Some s)) (\<lambda>r. Inr (EfGeneric r))
      | EfOperand y \<Rightarrow> bindE (ef_op nl t h r1 r2 x y) (\<lambda>(h, z). Inr (EfResult h z)))"

definition ef_intersect :: "(u32 \<Rightarrow> u32 \<Rightarrow> u8) \<Rightarrow> heap \<Rightarrow> nat \<Rightarrow> nat \<Rightarrow> ef \<Rightarrow> ef_operand \<Rightarrow> ef_result res" where
  "ef_intersect nl h r1 r2 x other = ef_setop nl IntersectOp h r1 r2 x other"

definition ef_unite :: "(u32 \<Rightarrow> u32 \<Rightarrow> u8) \<Rightarrow> heap \<Rightarrow> nat \<Rightarrow> nat \<Rightarrow> ef \<Rightarrow> ef_operand \<Rightarrow> ef_result res" where
  "ef_unite nl h r1 r2 x other = ef_setop nl UniteOp h r1 r2 x other"

definition ef_difference :: "(u32 \<Rightarrow> u32 \<Rightarrow> u8) \<Rightarrow> heap \<Rightarrow> nat \<Rightarrow> nat \<Rightarrow> ef \<Rightarrow> ef_operand \<Rightarrow> ef_result res" where
  "ef_difference nl h r1 r2 x other = ef_setop nl DifferenceOp h r1 r2 x other"

definition ef_symmetricDifference :: "(u32 \<Rightarrow> u32 \<Rightarrow> u8) \<Rightarrow> heap \<Rightarrow> nat \<Rightarrow> nat \<Rightarrow> ef \<Rightarrow> ef_operand \<Rightarrow> ef_result res" where
  "ef_symmetricDifference nl h r1 r2 x other = ef_setop nl SymmetricDifferenceOp h r1 r2 x other"

definition ef_uniteK :: "(u32 \<Rightarrow> u32 \<Rightarrow> u8) \<Rightarrow> heap \<Rightarrow> nat \<Rightarrow> nat \<Rightarrow> ef \<Rightarrow> ef_operand \<Rightarrow> u32 \<Rightarrow> ef_result res" where
  "ef_uniteK nl h r1 r2 x other numItems = ef_unite nl h r1 r2 x other"

text \<open>\<open>create\<close> walks over the iterators of the bit set; they need at most one round more than there are bits.\<close>

definition ef_fromBitSet :: "(u32 \<Rightarrow> u32 \<Rightarrow> u8) \<Rightarrow> heap \<Rightarrow> nat \<Rightarrow> nat \<Rightarrow> uba \<Rightarrow> (heap \<times> ef) res" where
  "ef_fromBitSet nl h r1 r2 bitSet =
     bindE (createCache h r1 4) (\<lambda>(h, tmp).
     bindE (dbs_cbegin h bitSet) (\<lambda>it.
     bindE (dbs_cend h bitSet) (\<lambda>stop.
       case it_collect (8 * unat (m_len bitSet) + 1) h bitSet it stop of
         None \<Rightarrow> Inl UndefinedBehaviour
       | Some ids \<Rightarrow> bindE ids (\<lambda>ids. bindE (ef_create nl ids h r2 tmp) (\<lambda>(h, tmp). ef_new nl h (uba_resetPtrs tmp))))))"

end
