(* ===== verification/EliasFanoProps.thy ===== *)
theory EliasFanoProps
  imports EliasFano
begin

text \<open>
  The iterator and the index of the Elias-Fano coding: the iterator rebuilds the ids from the two halves, whatever the number of
  lower bits, so an index gives the ids it was made of.
\<close>

section \<open>Ids and offsets\<close>

lemma word_split: "push_bit l (drop_bit l x) OR take_bit l x = x" for x :: "'a::len word"
  by (rule bit_word_eqI) (auto simp: bit_or_iff bit_push_bit_iff bit_drop_bit_eq bit_take_bit_iff)

fun ids_of :: "u32 \<Rightarrow> u32 list \<Rightarrow> u32 list" where
  "ids_of b [] = []"
| "ids_of b (y # ys) = (y + b) # ids_of (b + 1) ys"

lemma length_ids_of [simp]: "length (ids_of b ys) = length ys"
  by (induction ys arbitrary: b) simp_all

lemma ids_of_offsets: "ids_of b (ef_offsets b xs) = xs" for xs :: "u32 list"
  by (induction xs arbitrary: b) simp_all

lemma length_offsets [simp]: "length (ef_offsets b xs) = length xs"
  by (induction xs arbitrary: b) simp_all

lemma ids_of_shift: "ids_of b ys = map (\<lambda>x. x - d) (ids_of (b + d) ys)"
proof (induction ys arbitrary: b)
  case (Cons y ys)
  have "b + 1 + d = b + d + 1" by simp
  then show ?case using Cons.IH [of "b + 1"] by (simp add: ac_simps)
qed simp

lemma offsets_drop: "drop k (ef_offsets b xs) = ef_offsets (b + of_nat k) (drop k xs)"
  by (induction xs arbitrary: b k) (auto simp: drop_Cons split: nat.split simp: algebra_simps)

lemma ucast_sub:
  fixes x b :: u32
  assumes "32 \<le> LENGTH('a::len)" "b \<le> x"
  shows "(ucast x - ucast b :: 'a word) = ucast (x - b)"
proof -
  have u: "unat (ucast v :: 'a word) = unat v" for v :: u32 using assms(1) by (intro unat_ucast_up) simp
  have "ucast b \<le> (ucast x :: 'a word)" using assms(2) by (simp add: word_le_nat_alt u)
  then show ?thesis using unat_sub [of "ucast b" "ucast x :: 'a word"] unat_sub [OF assms(2)] by (intro word_eq_unatI) (simp add: u)
qed

lemma unat_next_le: "unat (b + 1) \<le> unat b + 1" for b :: u32
  by (simp add: unat_word_ariths)

text \<open>Ids that are not less than their positions, as the ids of an increasing list.\<close>

definition above :: "u32 \<Rightarrow> u32 list \<Rightarrow> bool" where
  "above b xs \<longleftrightarrow> (\<forall>i < length xs. unat b + i \<le> unat (xs ! i))"

lemma above_Cons: "above b (x # xs) \<Longrightarrow> b \<le> x \<and> above (b + 1) xs"
  unfolding above_def using unat_next_le [of b] by (force simp: word_le_nat_alt)

lemma offsets_ucast:
  assumes "32 \<le> LENGTH('a::len)"
  shows "above b xs \<Longrightarrow> ef_offsets b (map ucast xs :: 'a word list) = ef_offsets b xs"
proof (induction xs arbitrary: b)
  case (Cons x xs)
  note a = above_Cons [OF Cons.prems]
  have "ucast (ucast (x - b) :: 'a word) = x - b" by (rule bit_word_eqI) (use assms in \<open>auto simp: bit_ucast_iff\<close>)
  then show ?case using a Cons.IH ucast_sub [OF assms, of b x] by simp
qed simp

lemma increasing_above: "increasing xs \<Longrightarrow> above 0 xs"
proof -
  assume inc: "increasing xs"
  have "i < length xs \<Longrightarrow> i \<le> unat (xs ! i)" for i
  proof (induction i)
    case (Suc i)
    then have "xs ! i < xs ! Suc i" using inc sorted_wrt_nth_less by (metis lessI)
    then show ?case using Suc by (simp add: word_less_nat_alt)
  qed simp
  then show ?thesis by (simp add: above_def)
qed

section \<open>The upper bits\<close>

text \<open>The differences of the upper bits, after the upper bits \<open>p\<close>.\<close>

fun ef_gaps :: "nat \<Rightarrow> u32 \<Rightarrow> u32 list \<Rightarrow> u32 list" where
  "ef_gaps l p [] = []"
| "ef_gaps l p (y # ys) = (drop_bit l y - p) # ef_gaps l (drop_bit l y) ys"

lemma length_gaps [simp]: "length (ef_gaps l p ys) = length ys"
  by (induction ys arbitrary: p) simp_all

lemma length_gap_code: "sorted (p # map (drop_bit l) ys) \<Longrightarrow> length (unary_code (ef_gaps l p ys)) + unat p = length ys + unat (last (p # map (drop_bit l) ys))"
proof (induction ys arbitrary: p)
  case (Cons y ys)
  have "p \<le> drop_bit l y" using Cons.prems by simp
  then have "unat (drop_bit l y - p) = unat (drop_bit l y) - unat p" "unat p \<le> unat (drop_bit l y)" by (simp_all add: unat_sub word_le_nat_alt)
  then show ?case using Cons.IH [of "drop_bit l y"] Cons.prems by simp
qed simp

section \<open>The iterator\<close>

text \<open>An iterator at position \<open>i\<close> in front of the offsets \<open>ys\<close>; \<open>b\<close> is its \<open>m_baseValue\<close>.\<close>

definition ei_rel :: "heap \<Rightarrow> nat \<Rightarrow> ef_iter \<Rightarrow> nat \<Rightarrow> u32 \<Rightarrow> u32 list \<Rightarrow> bool" where
  "ei_rel h l it i b ys \<longleftrightarrow> l < 32 \<and> ei_numLowerBits it = of_nat l \<and> ei_lbPos it = of_nat i \<and> ei_baseValue it = b \<and> i + length ys < 2 ^ 32 \<and>
     (0 < l \<and> ys \<noteq> [] \<longrightarrow> cua_inv h (ei_lb it) \<and> i + length ys \<le> unat (m_maxCount (ei_lb it)) \<and>
        (\<forall>j < length ys. cua_contents h (ei_lb it) ! (i + j) = ucast (take_bit l (ys ! j)))) \<and>
     (case ys of [] \<Rightarrow> True
      | y # zs \<Rightarrow> ei_lastUb it + ui_last (ei_ub it) = drop_bit l y \<and>
          (\<exists>k < 8. bits_left h (ei_ub it) (unary_code (ef_gaps l (drop_bit l y) zs) @ replicate k False)))"

lemma ei_get_spec:
  assumes "ei_rel h l it i b (y # ys)"
  shows "ei_get h it = Inr (y + b)"
proof -
  have r: "l < 32" "ei_numLowerBits it = of_nat l" "ei_lbPos it = of_nat i" "ei_baseValue it = b" "i + Suc (length ys) < 2 ^ 32"
      "ei_lastUb it + ui_last (ei_ub it) = drop_bit l y"
    using assms by (simp_all add: ei_rel_def)
  have l: "unat (of_nat l :: u8) = l" using r(1) by (intro unat_of_nat_small) simp
  show ?thesis
  proof (cases "l = 0")
    case True
    then show ?thesis using r by (simp add: ei_get_def)
  next
    case False
    then have c: "cua_inv h (ei_lb it)" "i < unat (m_maxCount (ei_lb it))" "cua_contents h (ei_lb it) ! i = ucast (take_bit l y)"
      using assms by (force simp: ei_rel_def)+
    have i: "unat (of_nat i :: u64) = i" using r(5) by (intro unat_of_nat_small) simp
    have at: "cua_at h (ei_lb it) (of_nat i) = Inr (ucast (take_bit l y))" using cua_at_spec [OF c(1), of "of_nat i"] c(2,3) i by simp
    have n: "(of_nat l :: u8) \<noteq> 0" using False l by auto
    have n32: "\<not> 32 \<le> (of_nat l :: u8)" using r(1) l by (simp add: word_le_nat_alt)
    have "ucast (push_bit l (drop_bit l y)) OR ucast (take_bit l y) = (ucast y :: u64)"
      by (rule bit_word_eqI) (auto simp: bit_or_iff bit_push_bit_iff bit_drop_bit_eq bit_take_bit_iff bit_ucast_iff dest: bit_imp_le_length)
    moreover have "unat (ucast y + ucast b :: u64) = unat y + unat b" using unat_bound [of y] unat_bound [of b] by (subst unat_add_nowrap) simp_all
    then have "ucast (ucast y + ucast b :: u64) = y + b" by (intro word_eq_unatI) (simp add: unsigned_ucast_eq unat_word_ariths take_bit_eq_mod)
    ultimately show ?thesis using at n n32 r l by (simp add: ei_get_def)
  qed
qed

lemma ei_next_spec:
  assumes "ei_rel h l it i b (y # ys)"
  shows "\<exists>it'. ei_next h it = Inr it' \<and> ei_rel h l it' (Suc i) (b + 1) ys \<and> ei_lb it' = ei_lb it \<and> ui_d (ei_ub it') = ui_d (ei_ub it)"
proof -
  from assms obtain k where u: "ei_lastUb it + ui_last (ei_ub it) = drop_bit l y" "k < 8"
      "bits_left h (ei_ub it) (unary_code (ef_gaps l (drop_bit l y) ys) @ replicate k False)"
    by (auto simp: ei_rel_def)
  have c: "\<forall>j < length ys. P (i + j + 1)" if "\<forall>j < Suc (length ys). P (i + j)" for P
    using that by (metis Suc_mono add.assoc add_Suc_right Suc_eq_plus1)
  have low: "(0 < l \<and> ys \<noteq> [] \<longrightarrow> cua_inv h (ei_lb it) \<and> Suc i + length ys \<le> unat (m_maxCount (ei_lb it)) \<and>
        (\<forall>j < length ys. cua_contents h (ei_lb it) ! (Suc i + j) = ucast (take_bit l (ys ! j))))"
    using assms by (fastforce simp: ei_rel_def)
  show ?thesis
  proof (cases ys)
    case Nil
    from ui_next_pad [of h "ei_ub it" k] u(2,3) Nil obtain v where "ui_next h (ei_ub it) = Inr v" "ui_d v = ui_d (ei_ub it)" by auto
    then show ?thesis using assms low Nil by (auto simp: ei_next_def ei_rel_def)
  next
    case (Cons z zs)
    from ui_next_spec [of h "ei_ub it" "unat (drop_bit l z - drop_bit l y)"] u(3) Cons obtain v where
      v: "ui_next h (ei_ub it) = Inr v" "ui_last v = drop_bit l z - drop_bit l y"
        "bits_left h v (unary_code (ef_gaps l (drop_bit l z) zs) @ replicate k False)" "ui_d v = ui_d (ei_ub it)" by auto
    then show ?thesis using assms low Cons u by (auto simp: ei_next_def ei_rel_def)
  qed
qed

text \<open>All storage an iterator reads is at the address \<open>r\<close>.\<close>

definition ei_at :: "nat \<Rightarrow> nat \<Rightarrow> ef_iter \<Rightarrow> bool" where
  "ei_at r l it \<longleftrightarrow> m_priv (ui_d (ei_ub it)) = r \<and> (0 < l \<longrightarrow> m_priv (priv_data (c_priv (ei_lb it))) = r)"

text \<open>Reading all ids that are left.\<close>

lemma ei_list_spec: "ei_rel h l it i b ys \<Longrightarrow> ei_list (length ys) h it = Inr (ids_of b ys)"
proof (induction ys arbitrary: it i b)
  case (Cons y ys)
  from ei_next_spec [OF Cons.prems] obtain it' where 1: "ei_next h it = Inr it'" "ei_rel h l it' (Suc i) (b + 1) ys" by blast
  show ?case using ei_get_spec [OF Cons.prems] 1(1) Cons.IH [OF 1(2)] by simp
qed simp

lemma ei_rel_frame:
  assumes "ei_rel h l it i b ys" "ys \<noteq> [] \<Longrightarrow> ei_at r l it" "\<And>w. m_priv w = r \<Longrightarrow> storage h1 w = storage h w"
  shows "ei_rel h1 l it i b ys"
proof (cases "ys = []")
  case False
  note at = assms(2) [OF False]
  have u: "storage h1 (ui_d (ei_ub it)) = storage h (ui_d (ei_ub it))" using at assms(3) by (simp add: ei_at_def)
  have "storage h1 (priv_data (c_priv (ei_lb it))) = storage h (priv_data (c_priv (ei_lb it)))" if "0 < l"
    using at assms(3) that by (simp add: ei_at_def)
  then have "cua_inv h1 (ei_lb it) = cua_inv h (ei_lb it)" "cua_contents h1 (ei_lb it) = cua_contents h (ei_lb it)" if "0 < l"
    using view_frame [of h1 "priv_data (c_priv (ei_lb it))" h] that by (simp_all add: cua_inv_def cua_contents_def)
  then show ?thesis using assms(1) bits_left_frame [OF u] by (auto simp: ei_rel_def split: list.splits)
qed (use assms(1) in \<open>simp add: ei_rel_def\<close>)

lemma ei_copy_rel: "ei_rel h l it i b ys \<Longrightarrow> ei_rel h l (ei_copy it) i 0 ys" "ei_at r l (ei_copy it) = ei_at r l it"
  by (auto simp: ei_rel_def ei_copy_def ei_at_def split: list.splits)

lemma ei_put_bits_spec:
  "ei_rel h l it i b ys \<Longrightarrow> ei_at r l it \<Longrightarrow> owner h m \<Longrightarrow> m_priv m \<noteq> r \<Longrightarrow>
    \<exists>h' m'. ei_put_bits (length ys) h it m = Inr (h', m') \<and> owner h' m' \<and> dbs_elems h' m' = dbs_elems h m \<union> unat ` set (ids_of b ys)"
proof (induction ys arbitrary: h it i b m)
  case (Cons y ys)
  obtain h1 m1 where 1: "dbs_set h m (ucast (y + b)) = Inr (h1, m1)" "owner h1 m1" "m_priv m1 = m_priv m"
      "dbs_elems h1 m1 = insert (unat (ucast (y + b) :: u64)) (dbs_elems h m)"
    by (rule set_spec [OF Cons.prems(3), of "ucast (y + b)"]) (rule that)
  have fr: "storage h1 w = storage h w" if "m_priv w = r" for w using dbs_set_frame [OF 1(1)] Cons.prems(4) that by simp
  from ei_next_spec [OF ei_rel_frame [OF Cons.prems(1,2) fr]] obtain it' where
    2: "ei_next h1 it = Inr it'" "ei_rel h1 l it' (Suc i) (b + 1) ys" "ei_lb it' = ei_lb it" "ui_d (ei_ub it') = ui_d (ei_ub it)" by auto
  have "ei_at r l it'" using Cons.prems(2) 2(3,4) by (simp add: ei_at_def)
  from Cons.IH [OF 2(2) this 1(2)] Cons.prems(4) 1(3) obtain h2 m2 where
    3: "ei_put_bits (length ys) h1 it' m1 = Inr (h2, m2)" "owner h2 m2" "dbs_elems h2 m2 = dbs_elems h1 m1 \<union> unat ` set (ids_of (b + 1) ys)" by auto
  have "ei_put_bits (length (y # ys)) h it m = Inr (h2, m2)" using ei_get_spec [OF Cons.prems(1)] 1(1) 2(1) 3(1) by simp
  moreover have "dbs_elems h2 m2 = dbs_elems h m \<union> unat ` set (ids_of b (y # ys))" using 1(4) 3(3) by (auto simp: unat_ucast64)
  ultimately show ?case using 3(2) by blast
qed simp

lemma dbs_set_all_spec:
  "owner h m \<Longrightarrow> \<exists>h' m'. dbs_set_all h m (map ucast xs) = Inr (h', m') \<and> owner h' m' \<and> m_priv m' = m_priv m \<and>
    dbs_elems h' m' = dbs_elems h m \<union> unat ` set xs \<and> (\<forall>w. m_priv w \<noteq> m_priv m \<longrightarrow> storage h' w = storage h w)" for xs :: "u32 list"
proof (induction xs arbitrary: h m)
  case (Cons x xs)
  obtain h1 m1 where 1: "dbs_set h m (ucast x) = Inr (h1, m1)" "owner h1 m1" "m_priv m1 = m_priv m"
      "dbs_elems h1 m1 = insert (unat (ucast x :: u64)) (dbs_elems h m)"
    by (rule set_spec [OF Cons.prems, of "ucast x"]) (rule that)
  from Cons.IH [OF 1(2)] obtain h2 m2 where
    2: "dbs_set_all h1 m1 (map ucast xs) = Inr (h2, m2)" "owner h2 m2" "m_priv m2 = m_priv m1" "dbs_elems h2 m2 = dbs_elems h1 m1 \<union> unat ` set xs"
      "\<forall>w. m_priv w \<noteq> m_priv m1 \<longrightarrow> storage h2 w = storage h1 w" by blast
  have "\<forall>w. m_priv w \<noteq> m_priv m \<longrightarrow> storage h2 w = storage h w" using 2(5) dbs_set_frame [OF 1(1)] 1(3) by simp
  then show ?case using 1 2 by (intro exI [of _ h2] exI [of _ m2]) (auto simp: unat_ucast64)
qed auto

section \<open>The index\<close>

text \<open>An index \<open>x\<close> of the ids \<open>xs\<close>: the cache holds the first ones and \<open>m_it\<close> stands behind them.\<close>

definition ef_inv :: "heap \<Rightarrow> ef \<Rightarrow> u32 list \<Rightarrow> bool" where
  "ef_inv h x xs \<longleftrightarrow> unat (ef_size x) = length xs \<and> length xs < 2 ^ 32 \<and>
     (\<exists>l k. l < 32 \<and> k \<le> length xs \<and> ef_cache x = take k xs \<and>
        ei_rel h l (ef_it x) k (of_nat k) (drop k (ef_offsets 0 xs)) \<and> ei_rel h l (ef_cbegin x) 0 0 (ef_offsets 0 xs) \<and>
        (xs \<noteq> [] \<longrightarrow> ei_at (m_priv (ef_d x)) l (ef_it x) \<and> ei_at (m_priv (ef_d x)) l (ef_cbegin x))) \<and>
     (\<exists>b. ef_upperBound_of h (ef_d x) (ef_size x) (ef_upperBoundBegin x) = Inr b)"

lemma ef_fill_spec:
  "ei_rel h l (ef_it x) k (of_nat k) (drop k (ef_offsets 0 xs)) \<Longrightarrow> ef_cache x = take k xs \<Longrightarrow> k + n \<le> length xs \<Longrightarrow>
    \<exists>it. ef_fill n h x = Inr (x\<lparr>ef_it := it, ef_cache := take (k + n) xs\<rparr>) \<and> ei_rel h l it (k + n) (of_nat (k + n)) (drop (k + n) (ef_offsets 0 xs)) \<and>
      ei_lb it = ei_lb (ef_it x) \<and> ui_d (ei_ub it) = ui_d (ei_ub (ef_it x))"
proof (induction n arbitrary: x k)
  case 0
  then have "x = x\<lparr>ef_it := ef_it x, ef_cache := take k xs\<rparr>" by simp
  then show ?case using "0.prems" by (intro exI [of _ "ef_it x"]) simp
next
  case (Suc n)
  have k: "k < length xs" using Suc.prems(3) by simp
  then obtain y ys where d: "drop k (ef_offsets 0 xs) = y # ys" by (cases "drop k (ef_offsets 0 xs)") auto
  then have d': "drop (Suc k) (ef_offsets 0 xs) = ys" by (metis drop_Suc list.sel(3) tl_drop)
  have "drop k xs = ids_of (of_nat k) (drop k (ef_offsets 0 xs))" by (simp add: offsets_drop ids_of_offsets)
  then have v: "xs ! k = y + of_nat k" using Cons_nth_drop_Suc [OF k] d by simp
  note r = Suc.prems(1) [unfolded d]
  from ei_next_spec [OF r] obtain it where 1: "ei_next h (ef_it x) = Inr it" "ei_rel h l it (Suc k) (of_nat (Suc k)) ys"
      "ei_lb it = ei_lb (ef_it x)" "ui_d (ei_ub it) = ui_d (ei_ub (ef_it x))" by (auto simp: add.commute)
  let ?x = "x\<lparr>ef_it := it, ef_cache := ef_cache x @ [y + of_nat k]\<rparr>"
  have "ef_cache ?x = take (Suc k) xs" using Suc.prems(2) v k by (simp add: take_Suc_conv_app_nth)
  with Suc.IH [of ?x "Suc k"] 1(2) d' Suc.prems(3) obtain it' where
    2: "ef_fill n h ?x = Inr (?x\<lparr>ef_it := it', ef_cache := take (Suc k + n) xs\<rparr>)"
      "ei_rel h l it' (Suc k + n) (of_nat (Suc k + n)) (drop (Suc k + n) (ef_offsets 0 xs))"
      "ei_lb it' = ei_lb it" "ui_d (ei_ub it') = ui_d (ei_ub it)" by auto
  have "ef_fill (Suc n) h x = Inr (x\<lparr>ef_it := it', ef_cache := take (k + Suc n) xs\<rparr>)" using ei_get_spec [OF r] 1(1) 2(1) by simp
  then show ?case using 2(2-4) 1(3,4) by (intro exI [of _ it']) simp
qed

lemma ef_at_spec:
  assumes "ef_inv h x xs"
  shows "(unat pos < length xs \<longrightarrow> (\<exists>x'. ef_at h x pos = Inr (xs ! unat pos, x') \<and> ef_inv h x' xs \<and> length (ef_cache x') = max (Suc (unat pos)) (length (ef_cache x)))) \<and>
    (\<not> unat pos < length xs \<longrightarrow> ef_at h x pos = Inl StdOutOfRange)"
proof -
  from assms obtain l k b where i: "unat (ef_size x) = length xs" "length xs < 2 ^ 32" "l < 32" "k \<le> length xs" "ef_cache x = take k xs"
      "ei_rel h l (ef_it x) k (of_nat k) (drop k (ef_offsets 0 xs))" "ei_rel h l (ef_cbegin x) 0 0 (ef_offsets 0 xs)"
      "ef_upperBound_of h (ef_d x) (ef_size x) (ef_upperBoundBegin x) = Inr b"
      "xs \<noteq> [] \<Longrightarrow> ei_at (m_priv (ef_d x)) l (ef_it x)" "xs \<noteq> [] \<Longrightarrow> ei_at (m_priv (ef_d x)) l (ef_cbegin x)" unfolding ef_inv_def by blast
  show ?thesis
  proof (cases "unat pos < length xs")
    case False
    then show ?thesis using i(1) by (simp add: ef_at_def word_le_nat_alt)
  next
    case True
    let ?n = "Suc (unat pos) - k"
    have kn: "k + ?n = max (Suc (unat pos)) k" by simp
    have le: "k + ?n \<le> length xs" using True i(4) by simp
    from ef_fill_spec [OF i(6,5) le] obtain it where
      1: "ef_fill ?n h x = Inr (x\<lparr>ef_it := it, ef_cache := take (k + ?n) xs\<rparr>)" "ei_rel h l it (k + ?n) (of_nat (k + ?n)) (drop (k + ?n) (ef_offsets 0 xs))"
        "ei_lb it = ei_lb (ef_it x)" "ui_d (ei_ub it) = ui_d (ei_ub (ef_it x))" by blast
    let ?x = "x\<lparr>ef_it := it, ef_cache := take (k + ?n) xs\<rparr>"
    have "ef_cbegin ?x = ef_cbegin x" by (simp add: ef_cbegin_def)
    moreover have "xs \<noteq> [] \<Longrightarrow> ei_at (m_priv (ef_d x)) l it" using i(9) 1(3,4) by (simp add: ei_at_def)
    ultimately have "ef_inv h ?x xs" unfolding ef_inv_def using i 1(2) le by (intro conjI exI [of _ l] exI [of _ "k + ?n"] exI [of _ b]) simp_all
    moreover have "length (ef_cache x) = k" using i(4,5) by simp
    moreover have "take (k + ?n) xs ! unat pos = xs ! unat pos" by simp
    ultimately show ?thesis using 1(1) True i(1) le kn by (auto simp: ef_at_def word_le_nat_alt)
  qed
qed

lemma ef_cache_length: "ef_inv h x xs \<Longrightarrow> length (ef_cache x) \<le> length xs \<and> ef_cache x = take (length (ef_cache x)) xs"
  by (auto simp: ef_inv_def)

text \<open>The ids behind the cache come out less the number of ids in the cache.\<close>

lemma ef_iterators:
  assumes "ef_inv h x xs"
  obtains l where "ei_rel h l (ef_cbegin x) 0 0 (ef_offsets 0 xs)" "xs \<noteq> [] \<Longrightarrow> ei_at (m_priv (ef_d x)) l (ef_cbegin x)"
    "ei_rel h l (ei_copy (ef_it x)) (length (ef_cache x)) 0 (drop (length (ef_cache x)) (ef_offsets 0 xs))"
    "xs \<noteq> [] \<Longrightarrow> ei_at (m_priv (ef_d x)) l (ei_copy (ef_it x))"
proof -
  from assms obtain l k where i: "k \<le> length xs" "ef_cache x = take k xs"
      "ei_rel h l (ef_it x) k (of_nat k) (drop k (ef_offsets 0 xs))" "ei_rel h l (ef_cbegin x) 0 0 (ef_offsets 0 xs)"
      "xs \<noteq> [] \<Longrightarrow> ei_at (m_priv (ef_d x)) l (ef_it x)" "xs \<noteq> [] \<Longrightarrow> ei_at (m_priv (ef_d x)) l (ef_cbegin x)" unfolding ef_inv_def by blast
  have "length (ef_cache x) = k" using i(1,2) by simp
  then show ?thesis using that [of l] i(4,6) ei_copy_rel(1) [OF i(3)] ei_copy_rel(2) i(5) by simp
qed

definition behind_cache :: "ef \<Rightarrow> u32 list \<Rightarrow> u32 list" where
  "behind_cache x xs = ef_cache x @ map (\<lambda>v. v - of_nat (length (ef_cache x))) (drop (length (ef_cache x)) xs)"

lemma copied_ids: "ids_of 0 (drop k (ef_offsets 0 xs)) = map (\<lambda>v. v - of_nat k) (drop k xs)" for xs :: "u32 list"
  using ids_of_shift [of 0 "drop k (ef_offsets 0 xs)" "of_nat k"] by (simp add: offsets_drop ids_of_offsets)

lemma size_cache_less:
  assumes "ef_inv h x xs"
  shows "of_nat (length (ef_cache x)) < (ucast (ef_size x) :: u64) \<longleftrightarrow> length (ef_cache x) < length xs"
    "unat (ef_size x) - length (ef_cache x) = length (drop (length (ef_cache x)) (ef_offsets 0 xs))"
proof -
  have s: "unat (ef_size x) = length xs" "length xs < 2 ^ 32" using assms by (auto simp: ef_inv_def)
  have "length (ef_cache x) < 2 ^ 32" using ef_cache_length [OF assms] s(2) by simp
  then have "unat (of_nat (length (ef_cache x)) :: u64) = length (ef_cache x)" by (intro unat_of_nat_small) simp
  then show "of_nat (length (ef_cache x)) < (ucast (ef_size x) :: u64) \<longleftrightarrow> length (ef_cache x) < length xs"
    using s(1) by (simp add: word_less_nat_alt unat_ucast64)
  show "unat (ef_size x) - length (ef_cache x) = length (drop (length (ef_cache x)) (ef_offsets 0 xs))" using s by simp
qed

lemma ef_putInto_array_spec:
  assumes "ef_inv h x xs"
  shows "ef_putInto_array h x = Inr (behind_cache x xs)"
proof (cases "length (ef_cache x) < length xs")
  case True
  obtain l where "ei_rel h l (ei_copy (ef_it x)) (length (ef_cache x)) 0 (drop (length (ef_cache x)) (ef_offsets 0 xs))"
    using ef_iterators [OF assms] by blast
  from ei_list_spec [OF this] True size_cache_less [OF assms] show ?thesis by (simp add: ef_putInto_array_def behind_cache_def copied_ids)
next
  case False
  then show ?thesis using size_cache_less [OF assms] by (simp add: ef_putInto_array_def behind_cache_def)
qed

lemma ef_putInto_bits_spec:
  assumes "ef_inv h x xs" "owner h m" "m_priv m \<noteq> m_priv (ef_d x)"
  shows "\<exists>h' m'. ef_putInto_bits h x m = Inr (h', m') \<and> owner h' m' \<and> dbs_elems h' m' = dbs_elems h m \<union> unat ` set (behind_cache x xs)"
proof -
  from dbs_set_all_spec [OF assms(2), of "ef_cache x"] obtain h1 m1 where
    1: "dbs_set_all h m (map ucast (ef_cache x)) = Inr (h1, m1)" "owner h1 m1" "m_priv m1 = m_priv m"
      "dbs_elems h1 m1 = dbs_elems h m \<union> unat ` set (ef_cache x)" "\<forall>w. m_priv w \<noteq> m_priv m \<longrightarrow> storage h1 w = storage h w" by blast
  show ?thesis
  proof (cases "length (ef_cache x) < length xs")
    case True
    let ?k = "length (ef_cache x)"
    obtain l where it: "ei_rel h l (ei_copy (ef_it x)) ?k 0 (drop ?k (ef_offsets 0 xs))" "ei_at (m_priv (ef_d x)) l (ei_copy (ef_it x))"
      using ef_iterators [OF assms(1)] True by (metis list.size(3) not_less_zero)
    have "storage h1 w = storage h w" if "m_priv w = m_priv (ef_d x)" for w using 1(5) assms(3) that by simp
    from ei_put_bits_spec [OF ei_rel_frame [OF it this] it(2) 1(2)] 1(3) assms(3) obtain h2 m2 where
      2: "ei_put_bits (length (drop ?k (ef_offsets 0 xs))) h1 (ei_copy (ef_it x)) m1 = Inr (h2, m2)" "owner h2 m2"
        "dbs_elems h2 m2 = dbs_elems h1 m1 \<union> unat ` set (ids_of 0 (drop ?k (ef_offsets 0 xs)))" by auto
    have "ef_putInto_bits h x m = Inr (h2, m2)"
      using True 1(1) 2(1) size_cache_less [OF assms(1)] by (simp add: ef_putInto_bits_def)
    then show ?thesis using 2(2,3) 1(4) by (auto simp: behind_cache_def copied_ids)
  next
    case False
    then have "ef_putInto_bits h x m = Inr (h1, m1)" using 1(1) size_cache_less(1) [OF assms(1)] by (simp add: ef_putInto_bits_def)
    then show ?thesis using 1(2,4) False by (auto simp: behind_cache_def)
  qed
qed

definition ef_list :: "heap \<times> ef \<Rightarrow> u32 list" where
  "ef_list = (\<lambda>(h, x). case ei_list (unat (ef_size x)) h (ef_cbegin x) of Inl _ \<Rightarrow> [] | Inr xs \<Rightarrow> xs)"

lemma ef_list_spec: "ef_inv h x xs \<Longrightarrow> ef_list (h, x) = xs"
proof -
  assume i: "ef_inv h x xs"
  from i have "unat (ef_size x) = length (ef_offsets 0 xs)" by (simp add: ef_inv_def)
  moreover obtain l where "ei_rel h l (ef_cbegin x) 0 0 (ef_offsets 0 xs)" using ef_iterators [OF i] by blast
  ultimately show ?thesis using ei_list_spec [of h l "ef_cbegin x" 0 0 "ef_offsets 0 xs"] by (simp add: ef_list_def ids_of_offsets)
qed

lemma ef_source_ids:
  assumes "ef_inv h x xs"
  shows "source_ids (ef_source (h, x)) xs"
proof -
  have "src_at (ef_source (h, x)) p = Inr (xs ! unat p)" if "unat p < length xs" for p
    using ef_at_spec [OF assms, of p] that by (auto simp: ef_source_def)
  then show ?thesis using assms by (simp add: source_ids_def ef_source_def ef_inv_def)
qed

interpretation ef_idx: id_index ef_source ef_list "\<lambda>(h, x). \<exists>xs. ef_inv h x xs"
  by unfold_locales (auto simp: ef_list_spec intro: ef_source_ids)

lemma ef_find_spec:
  assumes "ef_inv h x xs" "increasing xs"
  shows "\<exists>r. ef_find h x v = Inr r \<and> (if v \<in> set xs then unat r < length xs \<and> xs ! unat r = v else r = - 1)"
proof -
  have "sorted xs" using assms(2) by (auto intro: strict_sorted_imp_sorted)
  then show ?thesis using ef_idx.find_ok [of "(h, x)" v] assms(1) unfolding ef_list_spec [OF assms(1)] ef_find_def by blast
qed

section \<open>Opening an index\<close>

lemma resize_within:
  assumes "uba_inv h u" "unat n \<le> unat (m_len u)"
  shows "\<exists>b v. uba_resize h u n = Inr (b, h, v) \<and> uba_inv h v \<and> view h v = take (unat n) (view h u) \<and> m_priv v = m_priv u \<and> m_len v = n \<and>
    m_offSet v = m_offSet u \<and> (m_putPtr u \<le> n \<longrightarrow> m_putPtr v = m_putPtr u)"
proof (cases "n < m_len u")
  case True
  define v where "v = u\<lparr>m_len := n\<rparr>"
  define w where "w = (if n < m_getPtr u then v\<lparr>m_getPtr := n\<rparr> else v)"
  define z where "z = (if n < m_putPtr u then w\<lparr>m_putPtr := n\<rparr> else w)"
  have "uba_resize h u n = Inr (True, h, z)" using True by (simp add: uba_resize_def v_def w_def z_def Let_def)
  moreover have p: "m_len z = n" "m_priv z = m_priv u" "m_offSet z = m_offSet u" "m_putPtr u \<le> n \<longrightarrow> m_putPtr z = m_putPtr u"
    by (auto simp: v_def w_def z_def)
  moreover have "uba_inv h z" "view h z = take (unat n) (view h u)"
    using assms p by (simp_all add: uba_inv_def storage_def view_def chunk_def min_def)
  ultimately show ?thesis by blast
next
  case False
  then have n: "n = m_len u" using assms(2) by (simp add: word_less_nat_alt word_eq_unatI)
  note b = uba_inv_bounds [OF assms(1)]
  have "unat (m_offSet u + m_len u) = unat (m_offSet u) + unat (m_len u)" using b by (intro unat_add_nowrap) simp
  then have "\<exists>b. priv_growStorage (storage h u) (m_offSet u + m_len u) = Inr (b, storage h u)"
    using b assms(1) by (auto simp: priv_growStorage_cases uba_inv_def)
  then obtain b where "priv_growStorage (storage h u) (m_offSet u + m_len u) = Inr (b, storage h u)" ..
  then have "uba_resize h u n = Inr (b, h, u)"
    using n by (simp add: uba_resize_def uba_growStorage_def) (simp add: storage_def)
  then show ?thesis using n assms(1) by auto
qed

lemma cua_new_sized_spec:
  assumes "uba_inv h d" "0 < unat bits" "unat bits \<le> 64" "unat (m_len d) < 2 ^ 61" "unat n < 2 ^ 57" "packed_bytes (unat bits) (unat n) \<le> unat (m_len d)"
  shows "\<exists>c. cua_new_sized d bits n = Inr c \<and> cua_inv h c \<and> cua_bpn c = bits \<and> priv_data (c_priv c) = d \<and> m_maxCount c = n"
proof -
  from cua_setPrivate_spec [OF assms(1-4)] obtain c where
    c: "cua_setPrivate d bits = Inr c" "cua_inv h c" "cua_bpn c = bits" "c_priv c \<noteq> CEmpty" "priv_data (c_priv c) = d" by blast
  have "unat (minStorageBytes bits n) = packed_bytes (unat bits) (unat n)" using assms(3,5) by (simp add: minStorageBytes_spec packed_bytes_def)
  then have "\<not> m_len d < minStorageBytes bits n" using assms(6) by (simp add: word_less_nat_alt)
  then have "cua_new_sized d bits n = Inr (c\<lparr>m_maxCount := n\<rparr>)" using c(1) by (simp add: cua_new_sized_def)
  moreover have "unat n * unat bits \<le> 8 * unat (m_len d)" using packed_bytes_enough [of "unat n" "unat bits"] assms(6) by linarith
  then have "cua_inv h (c\<lparr>m_maxCount := n\<rparr>)" using c by (simp add: cua_inv_def cua_bpn_def)
  ultimately show ?thesis using c by (auto simp: cua_bpn_def)
qed

text \<open>The bytes of an index.\<close>

definition ef_file :: "nat \<Rightarrow> u32 \<Rightarrow> u32 list \<Rightarrow> bytes \<Rightarrow> bool" where
  "ef_file l e ys bs \<longleftrightarrow> (\<exists>lbs ub k. bs = vl_bytes (of_nat (length ys) :: u32) @ vl_bytes e @ lbs @ vl_bytes (of_nat (length ub) :: u32) @ ub \<and>
     length lbs = packed_bytes l (length ys) \<and> (0 < l \<longrightarrow> (\<forall>i < length ys. num_at lbs (i * l) l = (ucast (take_bit l (ys ! i)) :: u64))) \<and>
     length ub < 2 ^ 32 \<and> stream_bits ub = unary_code (ef_gaps l 0 ys) @ replicate k False \<and> k < 8)"

lemma msb32_pow: "n < 32 \<Longrightarrow> msb32 (push_bit n 1) = n"
  unfolding msb32_eq by (rule msb_loop_unique) (auto simp: bit_simps)

lemma packed_bytes_0 [simp]: "packed_bytes 0 n = 0"
  by (simp add: packed_bytes_def)

lemma packed_bytes_le: "l < 32 \<Longrightarrow> packed_bytes l n \<le> 4 * n"
proof -
  assume "l < 32"
  then have "n * l \<le> n * 31" by (intro mult_left_mono) simp_all
  then show ?thesis unfolding packed_bytes_def by linarith
qed

lemma length_vl32_le: "length (vl_bytes (v :: u32)) \<le> 5" "0 < length (vl_bytes (v :: u32))" "unat (of_nat (psize_vu32 v) :: u32) = length (vl_bytes v)"
  using vu32.size_max [of v] vu32.size_pos [of v] by (simp_all add: vu32.length_code unat_of_nat_small)

lemma ui_begin_spec:
  assumes "uba_inv h d" "stream_bits (view h d) = unary_code (ef_gaps l 0 (y # ys)) @ replicate k False" "k < 8"
  shows "\<exists>u. ui_new h d = Inr u \<and> ui_last u = drop_bit l y \<and> ui_d u = d \<and>
    bits_left h u (unary_code (ef_gaps l (drop_bit l y) ys) @ replicate k False)"
  using ui_new_spec [OF assms(1), of "unat (drop_bit l y)" "unary_code (ef_gaps l (drop_bit l y) ys) @ replicate k False"] assms(2) by auto

lemma ef_new_spec:
  assumes "uba_inv h d" "view h d = bs @ rest" "ef_file l e (ef_offsets 0 xs) bs" "xs \<noteq> []" "length xs < 2 ^ 32" "unat e < 32" "l < 32"
    and "unat (ef_numLowerBits nl (of_nat (length xs)) (push_bit (unat e) 1)) = l"
  shows "\<exists>x. ef_new nl h d = Inr (h, x) \<and> ef_inv h x xs \<and> m_priv (ef_d x) = m_priv d \<and> ef_cache x = [] \<and>
    ef_getSizeInBytes x = of_nat (length bs)"
proof -
  let ?ys = "ef_offsets 0 xs"
  define n B N where "n = (of_nat (length xs) :: u32)" "B = (push_bit (unat e) 1 :: u32)" "N = ef_numLowerBits nl n B"
  note ndefs = this
  from assms(3) obtain lbs ub k where f: "bs = vl_bytes n @ vl_bytes e @ lbs @ vl_bytes (of_nat (length ub) :: u32) @ ub"
      "length lbs = packed_bytes l (length xs)" "0 < l \<longrightarrow> (\<forall>i < length xs. num_at lbs (i * l) l = (ucast (take_bit l (?ys ! i)) :: u64))"
      "length ub < 2 ^ 32" "stream_bits ub = unary_code (ef_gaps l 0 ?ys) @ replicate k False" "k < 8" unfolding ef_file_def ndefs(1) by auto
  define m where "m = (of_nat (length ub) :: u32)"
  define p0 p1 p2 L U where "p0 = length (vl_bytes n)" "p1 = length (vl_bytes e)" "p2 = length (vl_bytes m)" "L = length lbs" "U = length ub"
  note defs = this
  have small: "p0 \<le> 5" "p1 \<le> 5" "p2 \<le> 5" "0 < p0" "U < 2 ^ 32" using f(4) length_vl32_le by (simp_all add: defs)
  have L: "L < 2 ^ 34" using packed_bytes_le [OF assms(7), of "length xs"] assms(5) f(2) by (simp add: defs)
  have un: "unat n = length xs" "unat m = U" using assms(5) f(4) by (simp_all add: unat_of_nat_small defs ndefs m_def)
  have n0: "n \<noteq> 0" using un(1) assms(4) by auto
  have V: "view h d = vl_bytes n @ vl_bytes e @ lbs @ vl_bytes m @ ub @ rest" using assms(2) f(1) by (simp add: m_def)
  have lb: "length bs = p0 + p1 + L + p2 + U" by (simp add: f(1) defs m_def)
  have ld: "p0 + p1 + L + p2 + U + length rest = unat (m_len d)" using arg_cong [OF V, of length] assms(1) by (simp add: defs)
  define ubb lbb where "ubb = (of_nat (psize_vu32 n) :: u32)" "lbb = (of_nat (psize_vu32 n) + of_nat (psize_vu32 e) :: u32)"
  note bdefs = this
  have ubb: "unat ubb = p0" by (simp add: bdefs defs length_vl32_le)
  have lbb: "unat lbb = p0 + p1"
    using small by (simp add: bdefs defs) (subst unat_add_nowrap; simp add: length_vl32_le(3))
  have g0: "uba_getVlPackedUint32 h d 0 = Inr (n, int p0)"
    using getVl_at(1) [OF assms(1), of 0 n "vl_bytes e @ lbs @ vl_bytes m @ ub @ rest"] V by (simp add: defs)
  have g1: "uba_getVlPackedUint32 h d (ucast ubb) = Inr (e, int p1)"
    using getVl_at(1) [OF assms(1), of "ucast ubb" e "lbs @ vl_bytes m @ ub @ rest"] V ld ubb by (simp add: unat_ucast64 defs)
  have ubs: "ef_upperBoundStorage B = e" using msb32_pow [OF assms(6)] by (simp add: ef_upperBoundStorage_def ndefs)
  have e32: "\<not> 32 \<le> e" using assms(6) by (simp add: word_le_nat_alt)
  have ubo: "ef_upperBound_of h d n ubb = Inr B" using n0 g1 e32 by (simp add: ef_upperBound_of_def ndefs)
  let ?lbs = "minStorageBytes (ucast N) (ucast n)"
  have Nl: "unat N = l" using assms(8) by (simp add: ndefs)
  have uN: "unat (ucast N :: u32) = l" using Nl by (simp add: unat_ucast_up)
  have l: "unat ?lbs = L" using minStorageBytes_spec [of "ucast N" "ucast n"] uN assms(5,7) un(1) f(2)
    by (simp add: defs packed_bytes_def unat_ucast64)
  have q1: "unat (ucast lbb + ?lbs) = p0 + p1 + L" using lbb l small L by (subst unat_add_nowrap) (simp_all add: unat_ucast64)
  have g2: "uba_getVlPackedUint32 h d (ucast lbb + ?lbs) = Inr (m, int p2)"
    using getVl_at(1) [OF assms(1), of "ucast lbb + ?lbs" m "ub @ rest"] V ld q1 by (simp add: defs)
  have ds: "ef_upperBitsDataSize h d n lbb N = Inr m" using n0 g2 by (simp add: ef_upperBitsDataSize_def)
  let ?ubb = "of_nat (psize_vu32 m) :: u32"
  have u2: "unat ?ubb = p2" by (simp add: defs length_vl32_le)
  have q2: "unat (ucast lbb + ?lbs + ucast ?ubb) = p0 + p1 + L + p2"
  proof (subst unat_add_nowrap)
    have "unat (ucast ?ubb :: u64) = p2" unfolding unat_ucast64 by (rule u2)
    then show "unat (ucast lbb + ?lbs) + unat (ucast ?ubb :: u64) = p0 + p1 + L + p2"
      "unat (ucast lbb + ?lbs) + unat (ucast ?ubb :: u64) < 2 ^ LENGTH(64)" using q1 small L by simp_all
  qed
  let ?total = "ucast lbb + ?lbs + ucast ?ubb + ucast m :: u64"
  have q3: "unat ?total = length bs"
  proof (subst unat_add_nowrap)
    have "unat (ucast m :: u64) = U" unfolding unat_ucast64 by (rule un(2))
    then show "unat (ucast lbb + ?lbs + ucast ?ubb) + unat (ucast m :: u64) = length bs"
      "unat (ucast lbb + ?lbs + ucast ?ubb) + unat (ucast m :: u64) < 2 ^ LENGTH(64)" using q2 small L lb by simp_all
  qed
  define total where "total = ?total"
  have t: "unat total = length bs" unfolding total_def by (rule q3)
  have "unat total \<le> unat (m_len d)" using t lb ld by simp
  from resize_within [OF assms(1) this] obtain b d1 where
    r: "uba_resize h d total = Inr (b, h, d1)" "uba_inv h d1" "view h d1 = bs" "m_priv d1 = m_priv d" "m_len d1 = total" "m_offSet d1 = m_offSet d"
    unfolding t assms(2) by auto
  have V1: "view h d1 = vl_bytes n @ vl_bytes e @ lbs @ vl_bytes m @ ub" using r(3) f(1) by (simp add: m_def)
  have lbig: "unat (m_len d1) < 2 ^ 61" using r(5) t lb small L by simp
  have ld1: "unat (m_len d1) = p0 + p1 + L + p2 + U" using r(5) t lb by simp
  obtain lc where c: "(if n \<noteq> 0 \<and> N \<noteq> 0 then cua_new_sized (uba_plus d1 (ucast lbb)) (ucast N) (ucast n) else Inr cua_empty) = Inr lc"
      "cua_bpn lc = of_nat l" "0 < l \<longrightarrow> cua_inv h lc \<and> m_maxCount lc = ucast n \<and> m_priv (priv_data (c_priv lc)) = m_priv d \<and>
        (\<forall>i < length xs. cua_contents h lc ! i = ucast (take_bit l (?ys ! i)))"
  proof (cases "l = 0")
    case True
    then have "N = 0" using Nl by (metis unat_0 word_eq_unatI)
    then show ?thesis using that [of cua_empty] True by (simp add: cua_empty_def cua_bpn_def)
  next
    case False
    then have N0: "N \<noteq> 0" using Nl by auto
    let ?d = "uba_plus d1 (ucast lbb)"
    have "unat (ucast lbb :: u64) \<le> unat (m_len d1)" unfolding unat_ucast64 lbb ld1 by simp
    note s = sub_spec [OF r(2) this]
    have v: "view h ?d = lbs @ vl_bytes m @ ub" using s(2) V1 lbb by (simp add: uba_plus_def unat_ucast64 defs)
    have ln: "unat (m_len ?d) = L + p2 + U" using s(3) ld1 lbb by (simp add: uba_plus_def unat_ucast64)
    have "unat (m_len ?d) < 2 ^ 61" using ln lbig ld1 by simp
    moreover have "packed_bytes (unat (ucast N :: u32)) (unat (ucast n :: u64)) \<le> unat (m_len ?d)"
      unfolding uN unat_ucast64 un(1) ln using f(2) by (simp add: defs)
    moreover have "0 < unat (ucast N :: u32)" "unat (ucast N :: u32) \<le> 64" unfolding uN using False assms(7) by simp_all
    moreover have "unat (ucast n :: u64) < 2 ^ 57" unfolding unat_ucast64 un(1) using assms(5) by simp
    ultimately obtain c where c: "cua_new_sized ?d (ucast N) (ucast n) = Inr c" "cua_inv h c" "cua_bpn c = ucast N" "priv_data (c_priv c) = ?d"
        "m_maxCount c = ucast n"
      using cua_new_sized_spec [of h ?d "ucast N" "ucast n"] s(1) by (auto simp: uba_plus_def)
    have b: "cua_bpn c = of_nat l" using c(3) uN of_nat_eqI by metis
    have "unat (cua_bpn c) = l" using c(3) uN by simp
    moreover have "num_at (lbs @ vl_bytes m @ ub) (i * l) l = (num_at lbs (i * l) l :: u64)" if "i < length xs" for i
    proof (rule num_at_cong)
      show "take L (lbs @ vl_bytes m @ ub) = take L lbs" by (simp add: defs)
      show "i * l + l \<le> 8 * L" using mult_fits [OF that, of l] packed_bytes_enough [of "length xs" l] f(2) by (simp add: defs)
    qed
    moreover have "unat (m_maxCount c) = length xs" unfolding c(5) unat_ucast64 by (rule un(1))
    ultimately have cc: "\<forall>i < length xs. cua_contents h c ! i = ucast (take_bit l (?ys ! i))"
      using f(3) False by (simp add: cua_contents_def c(4) v)
    have pd: "m_priv ?d = m_priv d" using r(4) by (simp add: uba_plus_def uba_sub_def Let_def)
    show ?thesis
    proof (rule that [of c])
      show "(if n \<noteq> 0 \<and> N \<noteq> 0 then cua_new_sized ?d (ucast N) (ucast n) else Inr cua_empty) = Inr c"
        by (simp only: n0 N0 c(1) simp_thms if_True)
      show "0 < l \<longrightarrow> cua_inv h c \<and> m_maxCount c = ucast n \<and> m_priv (priv_data (c_priv c)) = m_priv d \<and>
        (\<forall>i < length xs. cua_contents h c ! i = ucast (take_bit l (?ys ! i)))"
        unfolding c(4) by (intro impI conjI c(2,5) pd cc)
    qed (rule b)
  qed
  obtain y ys where ys: "?ys = y # ys" using assms(4) by (cases xs) auto
  let ?du = "uba_plus d1 (ucast lbb + ?lbs + ucast ?ubb)"
  have "unat (ucast lbb + ?lbs + ucast ?ubb) \<le> unat (m_len d1)" unfolding q2 ld1 by simp
  note su = sub_spec [OF r(2) this]
  have vu: "view h ?du = ub" using su(2) V1 q2 by (simp add: uba_plus_def defs)
  have iu: "uba_inv h ?du" using su(1) by (simp add: uba_plus_def)
  have pu: "m_priv ?du = m_priv d" using r(4) by (simp add: uba_plus_def uba_sub_def Let_def)
  from ui_begin_spec [OF iu, of l y ys k] f(5,6) vu ys obtain u where
    u: "ui_new h ?du = Inr u" "ui_last u = drop_bit l y" "ui_d u = ?du"
      "bits_left h u (unary_code (ef_gaps l (drop_bit l y) ys) @ replicate k False)" by auto
  let ?it = "ei_begin lc u"
  let ?x = "\<lparr>ef_d = d1, ef_size = n, ef_upperBoundBegin = ubb, ef_lowerBitsBegin = lbb, ef_upperBitsBegin = ?ubb,
    ef_lowerBits = lc, ef_upperBits = u, ef_it = ei_copy ?it, ef_cache = []\<rparr>"
  have new: "ef_new nl h d = Inr (h, ?x)"
  proof -
    have "ubb + of_nat (psize_vu32 e) = lbb" by (simp add: bdefs)
    then show ?thesis using g0 ubo ds r(1) c(1) u(1) n0 unfolding total_def
      by (simp add: ef_new_def Let_def ubs bdefs(1) [symmetric] ndefs(3) [symmetric] cong: if_cong)
  qed
  have nb: "ei_numLowerBits ?it = of_nat l"
  proof -
    have "(ucast (of_nat l :: u32) :: u8) = of_nat l" using assms(7) by (intro word_eq_unatI) (simp add: unsigned_ucast_eq unsigned_of_nat take_bit_nat_eq_self)
    then show ?thesis using c(2) by (simp add: ei_begin_def)
  qed
  have un64: "unat (ucast n :: u64) = length xs" unfolding unat_ucast64 by (rule un(1))
  have lys: "length xs = Suc (length ys)" using arg_cong [OF ys, of length] by simp
  have rel: "ei_rel h l ?it 0 0 ?ys"
    unfolding ei_rel_def using lys assms(5,7) nb c(3) un64 ys u(2,4) f(6) by (auto simp: ei_begin_def simp del: of_nat_unat)
  moreover have "ei_copy ?it = ?it" by (simp add: ei_copy_def ei_begin_def)
  moreover have "ei_at (m_priv d1) l ?it" using r(4) u(3) pu c(3) by (simp add: ei_at_def ei_begin_def)
  moreover have "ef_upperBound_of h d1 n ubb = Inr B"
    using getVl_at(1) [OF r(2), of "ucast ubb" e "lbs @ vl_bytes m @ ub"] V1 ld1 ubb n0 e32 by (simp add: unat_ucast64 defs ef_upperBound_of_def ndefs(2))
  ultimately have "ef_inv h ?x xs"
    unfolding ef_inv_def using un(1) assms(5,7) by (intro conjI exI [of _ l] exI [of _ 0] exI [of _ B]) (simp_all add: ef_cbegin_def)
  moreover have "total = of_nat (length bs)" using t by (rule of_nat_eqI)
  then have "ef_getSizeInBytes ?x = of_nat (length bs)" using r(5) by (simp add: ef_getSizeInBytes_def)
  ultimately show ?thesis using new r(4) by (intro exI [of _ ?x]) simp
qed

lemma ef_new_empty:
  assumes "uba_inv h d" "view h d = vl_bytes (0 :: u32) @ rest"
  shows "\<exists>x. ef_new nl h d = Inr (h, x) \<and> ef_inv h x [] \<and> m_priv (ef_d x) = m_priv d \<and> ef_cache x = [] \<and> ef_getSizeInBytes x = 1"
proof -
  have ps: "psize_vu32 0 = 1" by (simp add: psize_vu32_def psize_v.simps)
  have g0: "uba_getVlPackedUint32 h d 0 = Inr (0, int (length (vl_bytes (0 :: u32))))"
    using getVl_at(1) [OF assms(1), of 0 0 rest] assms(2) by simp
  have "length (vl_bytes (0 :: u32)) = 1" by (simp add: vu32.length_code ps)
  then have "unat (1 :: u64) \<le> unat (m_len d)" using arg_cong [OF assms(2), of length] assms(1) by simp
  from resize_within [OF assms(1) this] obtain b d1 where
    r: "uba_resize h d 1 = Inr (b, h, d1)" "m_priv d1 = m_priv d" "m_len d1 = 1" by auto
  let ?it = "ei_begin cua_empty ui_empty"
  let ?x = "\<lparr>ef_d = d1, ef_size = 0, ef_upperBoundBegin = 1, ef_lowerBitsBegin = 1, ef_upperBitsBegin = 1,
    ef_lowerBits = cua_empty, ef_upperBits = ui_empty, ef_it = ei_copy ?it, ef_cache = []\<rparr>"
  have "ef_new nl h d = Inr (h, ?x)"
    using g0 r(1) by (simp add: ef_new_def Let_def ps ef_upperBound_of_def ef_upperBitsDataSize_def ef_numLowerBits_def cong: if_cong)
  moreover have "ei_copy ?it = ?it" "ei_rel h 0 ?it 0 0 []"
    by (simp_all add: ei_copy_def ei_begin_def ei_rel_def cua_empty_def cua_bpn_def)
  then have "ef_inv h ?x []"
    unfolding ef_inv_def by (intro conjI exI [of _ 0]) (simp_all add: ef_cbegin_def ef_upperBound_of_def)
  ultimately show ?thesis using r by (intro exI [of _ ?x]) (simp add: ef_getSizeInBytes_def)
qed

end
