(* ===== verification/EliasFanoCreate.thy ===== *)
theory EliasFanoCreate
  imports EliasFanoProps
begin

text \<open>
  Creating an Elias-Fano index. A list of ids can be encoded when it is increasing and its last id less the number of ids before it is at most
  \<open>2^31\<close>: the upper bound is stored as a power of two of 32 bits.
\<close>

section \<open>Sizes\<close>

lemma top_bit: "bit v 31 \<longleftrightarrow> 2 ^ 31 \<le> unat v" for v :: u32
proof -
  have "unat v < 2 ^ 32" using unat_bound [of v] by simp
  then have "unat v div 2 ^ 31 < 2" by (intro less_mult_imp_div_less) simp
  then have "odd (unat v div 2 ^ 31) \<longleftrightarrow> unat v div 2 ^ 31 \<noteq> 0" by (auto simp: less_2_cases_iff)
  moreover have "unat v div 2 ^ 31 \<noteq> 0 \<longleftrightarrow> 2 ^ 31 \<le> unat v" by (simp add: div_eq_0_iff not_less)
  moreover have "bit v 31 = bit (unat v) 31" by (simp add: bit_unsigned_iff)
  ultimately show ?thesis unfolding bit_iff_odd by simp
qed

lemma ef_upperBound_spec:
  "if unat (largest - (count - 1)) \<le> 2 ^ 31 then \<exists>e < 32. ef_upperBound count largest = Inr (push_bit e 1)
   else ef_upperBound count largest = Inl StdDomainError"
proof -
  define v where "v = largest - (count - 1)"
  have lt: "msb32 v < 32" using msb_loop_bit [of v] bit_imp_le_length [of v "msb_loop v"] unfolding msb32_eq by (cases "v = 0") (auto simp: msb_loop.simps)
  have u: "ef_upperBound count largest = (if push_bit (msb32 v) 1 = v then Inr (push_bit (msb32 v) 1)
      else if push_bit 1 (push_bit (msb32 v) 1 :: u32) = 0 then Inl StdDomainError else Inr (push_bit 1 (push_bit (msb32 v) 1)))"
    by (simp add: ef_upperBound_def Let_def v_def)
  have pp: "push_bit 1 (push_bit (msb32 v) 1 :: u32) = push_bit (Suc (msb32 v)) 1" by (simp add: push_bit_push_bit)
  have z: "push_bit (Suc (msb32 v)) (1 :: u32) = 0 \<longleftrightarrow> msb32 v = 31"
  proof
    assume z: "push_bit (Suc (msb32 v)) (1 :: u32) = 0"
    show "msb32 v = 31"
    proof (rule ccontr)
      assume "msb32 v \<noteq> 31"
      then have "bit (push_bit (Suc (msb32 v)) 1 :: u32) (Suc (msb32 v))" using lt by (simp add: bit_simps)
      then show False using z by simp
    qed
  qed (auto intro!: bit_word_eqI simp: bit_simps)
  show ?thesis
  proof (cases "msb32 v = 31")
    case False
    then have sl: "Suc (msb32 v) < 32" using lt by simp
    have "unat v < 2 ^ 31"
    proof (rule ccontr)
      assume "\<not> unat v < 2 ^ 31"
      then have b: "bit v 31" by (simp add: top_bit)
      then have "v \<noteq> 0" by auto
      from msb_loop_bit [OF this] b have "31 \<le> msb32 v" unfolding msb32_eq by (metis not_less)
      then show False using False lt by simp
    qed
    have "(\<exists>e < 32. ef_upperBound count largest = Inr (push_bit e 1))" using z lt sl False unfolding u pp by metis
    then show ?thesis using \<open>unat v < 2 ^ 31\<close> unfolding v_def by simp
  next
    case True
    then have "v \<noteq> 0" by (auto simp: msb32_eq msb_loop.simps)
    then have b: "2 ^ 31 \<le> unat v" using msb_loop_bit [of v] True unfolding msb32_eq by (metis top_bit)
    have "unat (push_bit 31 1 :: u32) = 2 ^ 31" by simp
    then have "push_bit (msb32 v) 1 = v \<longleftrightarrow> unat v \<le> 2 ^ 31" using b True by (metis order_antisym_conv order_refl word_eq_unatI)
    moreover have "(\<exists>e < 32. Inr (push_bit (msb32 v) 1) = (Inr (push_bit e 1) :: u32 res))" using lt by blast
    ultimately show ?thesis using z True unfolding u pp v_def [symmetric] by (simp only: if_True if_False split: if_split) simp
  qed
qed

definition nl_ok :: "(u32 \<Rightarrow> u32 \<Rightarrow> u8) \<Rightarrow> bool" where
  "nl_ok nl \<longleftrightarrow> (\<forall>ub n. 0 < n \<and> n \<le> ub \<longrightarrow> unat (nl ub n) < 32)"

lemma numLowerBits_less: "nl_ok nl \<Longrightarrow> unat (ef_numLowerBits nl n ub) < 32"
  unfolding nl_ok_def ef_numLowerBits_def by (auto simp: not_less word_gt_0)

definition encodable :: "u32 list \<Rightarrow> bool" where
  "encodable xs \<longleftrightarrow> increasing xs \<and> length xs < 2 ^ 32 \<and> (xs \<noteq> [] \<longrightarrow> unat (last xs - of_nat (length xs - 1)) \<le> 2 ^ 31)"

lemma last_offsets: "xs \<noteq> [] \<Longrightarrow> last (ef_offsets b xs) = last xs - (b + of_nat (length xs - 1))" for xs :: "u32 list"
proof (induction xs arbitrary: b)
  case (Cons x xs)
  show ?case
  proof (cases "xs = []")
    case False
    then have "last (ef_offsets b (x # xs)) = last (ef_offsets (b + 1) xs)" by (cases xs) auto
    also have "\<dots> = last xs - (b + 1 + of_nat (length xs - 1))" using Cons.IH [OF False] .
    also have "b + 1 + of_nat (length xs - 1) = b + of_nat (length (x # xs) - 1)" using False by (cases xs) simp_all
    finally show ?thesis using False by simp
  qed simp
qed simp

lemma sorted_offsets: "sorted_wrt (<) xs \<Longrightarrow> above b xs \<Longrightarrow> sorted (ef_offsets b xs)" for xs :: "u32 list"
proof (induction xs arbitrary: b)
  case (Cons x xs)
  note a = above_Cons [OF Cons.prems(2)]
  have s: "sorted (ef_offsets (b + 1) xs)" using Cons.IH a Cons.prems(1) by simp
  show ?case
  proof (cases xs)
    case (Cons y ys)
    have lt: "unat x < unat y" using Cons.prems(1) Cons by (simp add: word_less_nat_alt)
    have b: "unat b \<le> unat x" using a by (simp add: word_le_nat_alt)
    then have b1: "unat (b + 1) = unat b + 1" using lt unat_bound [of y] by (subst unat_add_nowrap) simp_all
    have "b + 1 \<le> y" using lt b b1 by (simp add: word_le_nat_alt)
    from unat_sub [OF this] unat_sub [of b x] a have "x - b \<le> y - (b + 1)" using lt b1 by (simp add: word_le_nat_alt)
    then show ?thesis using s Cons by (auto intro: order_trans)
  qed simp
qed simp

lemma drop_bit_mono: "x \<le> y \<Longrightarrow> drop_bit l x \<le> drop_bit l y" for x y :: u32
  by (simp add: word_le_nat_alt unat_drop_bit div_le_mono)

lemma upper_code_length:
  assumes "encodable xs"
  shows "length (unary_code (ef_gaps l 0 (ef_offsets 0 xs))) \<le> length xs + 2 ^ 31"
proof (cases "xs = []")
  case False
  let ?ys = "ef_offsets 0 xs"
  have "sorted ?ys" using assms sorted_offsets increasing_above by (simp add: encodable_def)
  then have "sorted (map (drop_bit l) ?ys)" unfolding sorted_map by (rule sorted_wrt_mono_rel [rotated]) (rule drop_bit_mono)
  then have "sorted (0 # map (drop_bit l) ?ys)" by simp
  from length_gap_code [OF this] have "length (unary_code (ef_gaps l 0 ?ys)) = length xs + unat (last (0 # map (drop_bit l) ?ys))" by simp
  moreover have "?ys \<noteq> []" using False by (cases xs) auto
  then have "last (0 # map (drop_bit l) ?ys) = drop_bit l (last xs - of_nat (length xs - 1))" using last_offsets [OF False, of 0] by (simp add: last_map)
  moreover have "unat (drop_bit l (last xs - of_nat (length xs - 1))) \<le> unat (last xs - of_nat (length xs - 1))"
    unfolding unat_drop_bit by (rule div_le_dividend)
  ultimately show ?thesis using assms False by (simp add: encodable_def)
qed simp

section \<open>The parts\<close>

lemma ef_put_lower_spec:
  assumes "pushable h u (packed_bytes l (length ys))" "ys \<noteq> []" "unat lb = l" "0 < l" "l < 32" "unat (m_len u) < 2 ^ 60" "length ys < 2 ^ 32"
  shows "\<exists>h' u' bs. ef_put_lower h u (map (\<lambda>v. v AND createMask (ucast lb)) ys) lb = Inr (h', u') \<and> appended h u bs h' u' \<and>
    length bs = packed_bytes l (length ys) \<and> (\<forall>i < length ys. num_at bs (i * l) l = (ucast (take_bit l (ys ! i)) :: u64)) \<and> others_kept {m_priv u} h h'"
proof -
  let ?vs = "map (\<lambda>v. v AND createMask (ucast lb)) ys" and ?b = "ucast lb :: u32"
  have b: "unat ?b = l" using assms(3) by (simp add: unat_ucast_up)
  have "?b = of_nat l" using b by (rule of_nat_eqI)
  then have m: "createMask ?b = mask l" using createMask_mask [of l] assms(5) by simp
  have vs: "?vs = map (take_bit l) ys" unfolding m by (simp add: take_bit_eq_mask)
  have t: "take_bit l (ucast (take_bit l y) :: u64) = ucast (take_bit l y)" for y :: u32
    by (rule bit_word_eqI) (auto simp: bit_take_bit_iff bit_ucast_iff)
  let ?ws = "map ucast ?vs :: u64 list"
  have c: "pushable h u (packed_bytes (unat ?b) (length ?ws))" "?ws \<noteq> []" "0 < unat ?b" "unat ?b \<le> 64" "length ?ws < 2 ^ 54"
    unfolding b using assms by simp_all
  have "\<forall>x \<in> set ?ws. take_bit (unat ?b) x = x" unfolding vs b by (auto simp: t)
  from create_at_spec [OF c(1-4) this assms(6) c(5)] obtain h' u' bs where
    1: "cua_create_at ?ws h u ?b = Inr (?b, h', u')" "appended h u bs h' u'" "length bs = packed_bytes l (length ?ws)"
      "\<forall>i < length ?ws. num_at bs (i * l) l = ?ws ! i" "\<forall>w. m_priv w \<noteq> m_priv u \<longrightarrow> storage h' w = storage h w"
    unfolding b by (elim exE conjE) (rule that)
  have "?b \<noteq> 0" using b assms(4) by auto
  then have "ef_put_lower h u ?vs lb = Inr (h', u')"
    using 1(1) by (auto simp: cua_create_at_def ef_put_lower_def Let_def bindE_eq_Inr_iff split: if_splits)
  moreover have "\<forall>i < length ys. num_at bs (i * l) l = (ucast (take_bit l (ys ! i)) :: u64)" using 1(4) unfolding vs by simp
  ultimately show ?thesis using 1(2,3,5) by (intro exI [of _ h'] exI [of _ u'] exI [of _ bs]) (simp add: others_kept_def)
qed

lemma ef_put_upper_eq:
  assumes "32 \<le> LENGTH('a::len)" "unat lb < 32"
  shows "above b xs \<Longrightarrow> ef_put_upper h c b p lb (map ucast xs :: 'a word list) = uc_put_all h c (ef_gaps (unat lb) p (ef_offsets b xs))"
proof (induction xs arbitrary: h c b p)
  case (Cons x xs)
  note a = above_Cons [OF Cons.prems]
  have "(ucast (drop_bit (unat lb) (ucast (x - b) :: 'a word)) :: u32) = drop_bit (unat lb) (x - b)"
    by (rule bit_word_eqI) (use assms(1) in \<open>auto simp: bit_ucast_iff bit_drop_bit_eq dest: bit_imp_le_length\<close>)
  then show ?case using Cons.IH a ucast_sub [OF assms(1), of b x] assms by (simp add: Let_def)
qed simp

lemma ef_upper_spec:
  assumes "encodable xs" "32 \<le> LENGTH('a::len)" "unat lb < 32"
  shows "\<exists>h1 d1 h2 c2 h3 c3 b d ub k. createCache h r (ucast (of_nat (length xs) :: u32)) = Inr (h1, d1) \<and>
    ef_put_upper h1 (uc_new d1) 0 0 lb (map ucast xs :: 'a word list) = Inr (h2, c2) \<and> uc_flush h2 c2 = Inr (h3, c3) \<and>
    uba_resize h3 (uc_d c3) (m_putPtr (uc_d c3)) = Inr (b, h3, d) \<and> pushable h3 d 1 \<and> view h3 d = ub \<and> m_priv d = r \<and>
    isContiguous (storage h3 d) \<and> m_putPtr d = of_nat (length ub) \<and> 8 * length ub \<le> length xs + 2 ^ 31 + 7 \<and>
    stream_bits ub = unary_code (ef_gaps (unat lb) 0 (ef_offsets 0 xs)) @ replicate k False \<and> k < 8 \<and> others_kept {r} h h3"
proof -
  let ?n = "ucast (of_nat (length xs) :: u32) :: u64" and ?vs = "ef_gaps (unat lb) 0 (ef_offsets 0 xs)"
  let ?d1 = "uba_of_priv r 0 (if ?n = 0 then 1 else ?n)"
  have len: "length xs < 2 ^ 32" using assms(1) by (simp add: encodable_def)
  have "unat ?n \<le> max_size" using unat_bound [of "of_nat (length xs) :: u32"] unfolding unat_ucast64 by (simp add: max_size_def)
  from createCache_spec [OF this, of h r] obtain h1 where
    1: "createCache h r ?n = Inr (h1, ?d1)" "uba_inv h1 ?d1" "growable h1 ?d1" "\<forall>w. m_priv w \<noteq> r \<longrightarrow> storage h1 w = storage h w" by blast
  have d1: "m_putPtr ?d1 = 0" "m_offSet ?d1 = 0" "m_priv ?d1 = r" by (simp_all add: uba_of_priv_def)
  have kd: "kind (storage h1 ?d1) = VectorB" using 1(1) d1(3) by (auto simp: createCache_def Let_def storage_def split: if_splits)
  have p: "pushable h1 ?d1 (2 ^ 30)" using 1(2,3) d1 by (simp add: pushable_def max_size_def)
  have cl: "length (unary_code ?vs) \<le> length xs + 2 ^ 31" by (rule upper_code_length [OF assms(1)])
  have "length (unary_code ?vs) \<le> 8 * 2 ^ 30" using cl len by simp
  from uc_write_spec [OF p this] obtain h2 c2 h3 c3 bs k where
    2: "uc_put_all h1 (uc_new ?d1) ?vs = Inr (h2, c2)" "uc_flush h2 c2 = Inr (h3, c3)" "wrote h1 ?d1 bs h3 (uc_d c3)"
      "stream_bits bs = unary_code ?vs @ replicate k False" "k < 8" by (elim exE conjE) (rule that)
  have "above 0 xs" using assms(1) increasing_above by (simp add: encodable_def)
  from ef_put_upper_eq [OF assms(2,3) this] 2(1) have pu: "ef_put_upper h1 (uc_new ?d1) 0 0 lb (map ucast xs :: 'a word list) = Inr (h2, c2)" by simp
  have a: "uba_inv h3 (uc_d c3)" "growable h3 (uc_d c3)" "view h3 (uc_d c3) = blit 0 bs (view h1 ?d1)" "unat (m_putPtr (uc_d c3)) = length bs"
      "unat (m_putPtr (uc_d c3)) \<le> unat (m_len (uc_d c3))" "m_priv (uc_d c3) = r" "m_offSet (uc_d c3) = 0"
    using 2(3) d1 by (simp_all add: wrote_def appended_def word_le_nat_alt)
  from resize_within [OF a(1,5)] obtain b d where
    3: "uba_resize h3 (uc_d c3) (m_putPtr (uc_d c3)) = Inr (b, h3, d)" "uba_inv h3 d"
      "view h3 d = take (unat (m_putPtr (uc_d c3))) (view h3 (uc_d c3))" "m_priv d = r" "m_len d = m_putPtr (uc_d c3)" "m_offSet d = 0"
      "m_putPtr d = m_putPtr (uc_d c3)" using a(6,7) by auto
  have v: "view h3 d = bs" unfolding 3(3) a(3,4) by (simp add: blit_def)
  have bl: "8 * length bs = length (unary_code ?vs) + k" using arg_cong [OF 2(4), of length] by simp
  have sd: "storage h3 d = storage h3 (uc_d c3)" using 3(4) a(6) by (simp add: storage_def)
  have "pushable h3 d 1" using 3 a(2,4) bl cl len 2(5) sd by (simp add: pushable_def max_size_def growable_def)
  moreover have "isContiguous (storage h3 d)" using 2(3) kd sd by (simp add: wrote_def isContiguous_def)
  moreover have "m_putPtr d = of_nat (length bs)" using 3(7) a(4) by (intro of_nat_eqI) simp
  moreover have "others_kept {r} h h3" using 1(4) 2(3) d1(3) by (auto simp: others_kept_def wrote_def kept_def)
  moreover have "8 * length bs \<le> length xs + 2 ^ 31 + 7" using bl cl 2(5) by linarith
  ultimately show ?thesis using 1(1) pu 2(2,4,5) 3(1,4) v
    by (intro exI [of _ h1] exI [of _ ?d1] exI [of _ h2] exI [of _ c2] exI [of _ h3] exI [of _ c3] exI [of _ b] exI [of _ d] exI [of _ bs] exI [of _ k]) simp
qed

text \<open>What a creation writes.\<close>

definition ef_bytes :: "(u32 \<Rightarrow> u32 \<Rightarrow> u8) \<Rightarrow> u32 list \<Rightarrow> bytes \<Rightarrow> bool" where
  "ef_bytes nl xs bs \<longleftrightarrow> length xs < 2 ^ 32 \<and>
     (if xs = [] then bs = vl_bytes (0 :: u32)
      else \<exists>e < 32. ef_file (unat (ef_numLowerBits nl (of_nat (length xs)) (push_bit e 1))) (of_nat e) (ef_offsets 0 xs) bs)"

lemma ef_open_spec:
  assumes "uba_inv h d" "view h d = bs @ rest" "ef_bytes nl xs bs" "nl_ok nl"
  shows "\<exists>x. ef_new nl h d = Inr (h, x) \<and> ef_inv h x xs \<and> m_priv (ef_d x) = m_priv d \<and> ef_cache x = [] \<and> ef_getSizeInBytes x = of_nat (length bs)"
proof (cases "xs = []")
  case True
  have "length (vl_bytes (0 :: u32)) = 1" by (simp add: vu32.length_code psize_vu32_def psize_v.simps)
  then show ?thesis using ef_new_empty [OF assms(1), of rest nl] assms(2,3) True by (simp add: ef_bytes_def)
next
  case False
  then obtain e where e: "e < 32" "ef_file (unat (ef_numLowerBits nl (of_nat (length xs)) (push_bit e 1))) (of_nat e) (ef_offsets 0 xs) bs"
    using assms(3) by (auto simp: ef_bytes_def)
  have u: "unat (of_nat e :: u32) = e" using e(1) by (intro unat_of_nat_small) simp
  have l: "length xs < 2 ^ 32" using assms(3) by (simp add: ef_bytes_def)
  show ?thesis
    by (rule ef_new_spec [OF assms(1,2) e(2) False l]) (use e(1) u numLowerBits_less [OF assms(4)] in simp_all)
qed

lemma length_appended: "appended h u bs h' u' \<Longrightarrow> pushable h u n \<Longrightarrow> unat (m_len u') = max (unat (m_len u)) (unat (m_putPtr u) + length bs)"
proof -
  assume a: "appended h u bs h' u'" "pushable h u n"
  then have i: "uba_inv h' u'" "uba_inv h u" "view h' u' = blit (unat (m_putPtr u)) bs (view h u)" "unat (m_putPtr u) \<le> unat (m_len u)"
    by (simp_all add: appended_def pushable_def word_le_nat_alt)
  then have "length (blit (unat (m_putPtr u)) bs (view h u)) = unat (m_len u')" "length (view h u) = unat (m_len u)"
    by (metis length_view)+
  with i(4) show ?thesis by (auto simp: blit_def)
qed

lemma put_vl:
  assumes "pushable h d (5 + n)"
  obtains k h' d' where "stream_putVlPackedUint32 h d v = Inr (k, h', d')" "appended h d (vl_bytes v) h' d'" "others_kept {m_priv d} h h'" "pushable h' d' n"
proof -
  have p5: "pushable h d 5" by (rule pushable_less [OF assms]) simp
  obtain k h' d' where 1: "stream_putVlPackedUint32 h d v = Inr (k, h', d')" "appended h d (vl_bytes v) h' d'" "kept h d h'" by (rule put_delta [OF p5])
  have "pushable h d (length (vl_bytes v) + n)" by (rule pushable_less [OF assms]) (use length_vl32 [of v] in simp)
  from appended_pushable [OF this 1(2)] 1 that show thesis by (simp add: others_kept_def kept_def)
qed

text \<open>The header and the lower bits.\<close>

lemma ef_head_spec:
  assumes "pushable h dest (10 + packed_bytes l (length ys) + n)" "ys \<noteq> []" "length ys < 2 ^ 32" "unat (m_len dest) < 2 ^ 59" "unat lb = l" "l < 32"
    and "unat (m_putPtr dest) < 2 ^ 59"
  shows "\<exists>k1 h1 d1 k2 h2 d2 h3 d3 lbs. stream_putVlPackedUint32 h dest v = Inr (k1, h1, d1) \<and> stream_putVlPackedUint32 h1 d1 w = Inr (k2, h2, d2) \<and>
    (if lb \<noteq> 0 then ef_put_lower h2 d2 (map (\<lambda>v. v AND createMask (ucast lb)) ys) lb else Inr (h2, d2)) = Inr (h3, d3) \<and>
    appended h dest (vl_bytes v @ vl_bytes w @ lbs) h3 d3 \<and> length lbs = packed_bytes l (length ys) \<and>
    (0 < l \<longrightarrow> (\<forall>i < length ys. num_at lbs (i * l) l = (ucast (take_bit l (ys ! i)) :: u64))) \<and> others_kept {m_priv dest} h h3"
proof -
  let ?P = "packed_bytes l (length ys)"
  have p0: "pushable h dest (5 + (5 + ?P))" by (rule pushable_less [OF assms(1)]) simp
  obtain k1 h1 d1 where 1: "stream_putVlPackedUint32 h dest v = Inr (k1, h1, d1)" "appended h dest (vl_bytes v) h1 d1"
      "others_kept {m_priv dest} h h1" "pushable h1 d1 (5 + ?P)" by (rule put_vl [OF p0])
  obtain k2 h2 d2 where 2: "stream_putVlPackedUint32 h1 d1 w = Inr (k2, h2, d2)" "appended h1 d1 (vl_bytes w) h2 d2"
      "others_kept {m_priv d1} h1 h2" "pushable h2 d2 ?P" by (rule put_vl [OF 1(4)])
  have a2: "appended h dest (vl_bytes v @ vl_bytes w) h2 d2" by (rule appended_trans [OF p0 1(2) 2(2)])
  have pr: "m_priv d1 = m_priv dest" "m_priv d2 = m_priv dest" using 1(2) a2 by (simp_all add: appended_def)
  have k2: "others_kept {m_priv dest} h h2" using others_kept_same [OF 1(3)] 2(3) pr(1) by simp
  show ?thesis
  proof (cases "l = 0")
    case True
    then have "lb = 0" using assms(5) by (simp add: word_eq_unatI)
    then show ?thesis using 1(1) 2(1) a2 k2 True
      by (intro exI [of _ k1] exI [of _ h1] exI [of _ d1] exI [of _ k2] exI [of _ h2] exI [of _ d2] exI [of _ h2] exI [of _ d2] exI [of _ "[]"]) simp
  next
    case False
    then have lb: "lb \<noteq> 0" using assms(5) by auto
    have "unat (m_len d2) < 2 ^ 60"
      using length_appended [OF a2 p0] assms(4,7) length_vl32 [of v] length_vl32 [of w] by simp
    from ef_put_lower_spec [OF 2(4) assms(2,5) _ assms(6) this assms(3)] False obtain h3 d3 lbs where
      3: "ef_put_lower h2 d2 (map (\<lambda>v. v AND createMask (ucast lb)) ys) lb = Inr (h3, d3)" "appended h2 d2 lbs h3 d3"
        "length lbs = ?P" "\<forall>i < length ys. num_at lbs (i * l) l = (ucast (take_bit l (ys ! i)) :: u64)" "others_kept {m_priv d2} h2 h3" by blast
    have "appended h dest (vl_bytes v @ vl_bytes w @ lbs) h3 d3" using appended_trans [OF p0 a2 3(2)] by simp
    moreover have "others_kept {m_priv dest} h h3" using others_kept_same [OF k2] 3(5) pr(2) by simp
    ultimately show ?thesis using 1(1) 2(1) 3 lb
      by (intro exI [of _ k1] exI [of _ h1] exI [of _ d1] exI [of _ k2] exI [of _ h2] exI [of _ d2] exI [of _ h3] exI [of _ d3] exI [of _ lbs]) simp
  qed
qed

lemma narrow_check_32: "length xs < 2 ^ 32 \<Longrightarrow> narrow_check_u (int (length xs)) = Inr (of_nat (length xs) :: u32)"
  by (simp add: narrow_check_u_def)

lemma ef_create_spec:
  assumes "pushable h dest (16 + 5 * length xs + 2 ^ 29)" "unat (m_len dest) < 2 ^ 59" "encodable xs" "nl_ok nl" "r \<noteq> m_priv dest" "32 \<le> LENGTH('a::len)"
  shows "\<exists>h' d' bs. ef_create nl (map ucast xs :: 'a word list) h r dest = Inr (h', d') \<and> appended h dest bs h' d' \<and> ef_bytes nl xs bs \<and>
    length bs \<le> 16 + 5 * length xs + 2 ^ 29 \<and> others_kept {m_priv dest, r} h h'"
proof (cases "xs = []")
  case True
  have "pushable h dest (5 + 0)" by (rule pushable_less [OF assms(1)]) simp
  then obtain k h' d' where "stream_putVlPackedUint32 h dest 0 = Inr (k, h', d')" "appended h dest (vl_bytes (0 :: u32)) h' d'" "others_kept {m_priv dest} h h'"
    by (rule put_vl)
  then show ?thesis using True length_vl32 [of 0] by (auto simp: ef_create_def narrow_check_u_def ef_bytes_def others_kept_def)
next
  case False
  define n where "n = (of_nat (length xs) :: u32)"
  have len: "length xs < 2 ^ 32" using assms(3) by (simp add: encodable_def)
  have un: "unat n = length xs" unfolding n_def by (rule unat_of_nat_small) (use len in simp)
  then have n0: "n \<noteq> 0" using False by auto
  have "of_nat (length xs - 1) = n - 1" using False by (cases xs) (simp_all add: n_def)
  then have "unat (last xs - (n - 1)) \<le> 2 ^ 31" using assms(3) False by (simp add: encodable_def)
  then obtain e where e: "e < 32" "ef_upperBound n (last xs) = Inr (push_bit e 1)" using ef_upperBound_spec [of "last xs" n] by auto
  define B lb l where "B = (push_bit e 1 :: u32)" "lb = ef_numLowerBits nl n B" "l = unat lb"
  note bdefs = this
  have l: "l < 32" unfolding bdefs by (rule numLowerBits_less [OF assms(4)])
  have st: "ef_upperBoundStorage B = of_nat e" using msb32_pow [OF e(1)] by (simp add: ef_upperBoundStorage_def bdefs)
  let ?ys = "ef_offsets 0 xs" and ?P = "packed_bytes l (length xs)"
  have P: "?P \<le> 4 * length xs" by (rule packed_bytes_le [OF l])
  have ab: "above 0 xs" using assms(3) increasing_above by (simp add: encodable_def)
  have of: "ef_offsets 0 (map ucast xs :: 'a word list) = ?ys" by (rule offsets_ucast [OF assms(6) ab])
  have h1: "pushable h dest (10 + packed_bytes l (length ?ys) + 0)" by (rule pushable_less [OF assms(1)]) (use P in simp)
  have h2: "?ys \<noteq> []" using False by (cases xs) auto
  have h3: "length ?ys < 2 ^ 32" using len by simp
  have h4: "unat (m_putPtr dest) < 2 ^ 59" using assms(1,2) by (auto simp: pushable_def word_le_nat_alt)
  from ef_head_spec [OF h1 h2 h3 assms(2) bdefs(3) [symmetric] l h4, of n "of_nat e"] obtain k1 h1 d1 k2 h2 d2 h3 d3 lbs where
    1: "stream_putVlPackedUint32 h dest n = Inr (k1, h1, d1)" "stream_putVlPackedUint32 h1 d1 (of_nat e) = Inr (k2, h2, d2)"
      "(if lb \<noteq> 0 then ef_put_lower h2 d2 (map (\<lambda>v. v AND createMask (ucast lb)) ?ys) lb else Inr (h2, d2)) = Inr (h3, d3)"
      "appended h dest (vl_bytes n @ vl_bytes (of_nat e :: u32) @ lbs) h3 d3" "length lbs = ?P"
      "0 < l \<longrightarrow> (\<forall>i < length xs. num_at lbs (i * l) l = (ucast (take_bit l (?ys ! i)) :: u64))" "others_kept {m_priv dest} h h3"
    unfolding length_offsets by (elim exE conjE) (rule that)
  have "unat lb < 32" using l by (simp add: bdefs(3))
  from ef_upper_spec [OF assms(3,6) this, of h3 r] obtain h4 u4 h5 c5 h6 c6 b u ub k where
    2: "createCache h3 r (ucast n) = Inr (h4, u4)" "ef_put_upper h4 (uc_new u4) 0 0 lb (map ucast xs :: 'a word list) = Inr (h5, c5)"
      "uc_flush h5 c5 = Inr (h6, c6)" "uba_resize h6 (uc_d c6) (m_putPtr (uc_d c6)) = Inr (b, h6, u)" "pushable h6 u 1" "view h6 u = ub" "m_priv u = r"
      "isContiguous (storage h6 u)" "m_putPtr u = of_nat (length ub)" "8 * length ub \<le> length xs + 2 ^ 31 + 7"
      "stream_bits ub = unary_code (ef_gaps l 0 ?ys) @ replicate k False" "k < 8" "others_kept {r} h3 h6"
    unfolding n_def [symmetric] bdefs(3) [symmetric] by (elim exE conjE) (rule that)
  let ?m = "of_nat (length ub) :: u32" and ?bs = "vl_bytes n @ vl_bytes (of_nat e :: u32) @ lbs"
  have ub: "length ub < 2 ^ 32" using 2(10) len by simp
  have pr: "m_priv d3 = m_priv dest" using 1(4) by (simp add: appended_def)
  have s6: "storage h6 d3 = storage h3 d3" using others_keptD [OF 2(13)] pr assms(5) by simp
  have a6: "appended h dest ?bs h6 d3" by (rule appended_frame_after [OF 1(4) s6])
  have lb1: "length ?bs \<le> 10 + ?P" using 1(5) length_vl32 [of n] length_vl32 [of "of_nat e"] by simp
  have "length ?bs + (5 + length ub) \<le> 16 + 5 * length xs + 2 ^ 29" using lb1 P 2(10) by simp
  from appended_pushable [OF pushable_less [OF assms(1) this] a6] obtain k7 h7 d7 where
    3: "stream_putVlPackedUint32 h6 d3 ?m = Inr (k7, h7, d7)" "appended h6 d3 (vl_bytes ?m) h7 d7" "others_kept {m_priv d3} h6 h7" "pushable h7 d7 (length ub)"
    by (rule put_vl)
  have a7: "appended h dest (?bs @ vl_bytes ?m) h7 d7" by (rule appended_trans [OF assms(1) a6 3(2)])
  have pr7: "m_priv d7 = m_priv dest" using a7 by (simp add: appended_def)
  have s7: "storage h7 u = storage h6 u" using others_keptD [OF 3(3)] 2(7) pr assms(5) by simp
  have iu: "uba_inv h7 u" "view h7 u = ub" using view_frame [OF s7] 2(5,6) by (simp_all add: pushable_def)
  then have lu: "unat (m_len u) = length ub" by (metis length_view)
  from stream_putData_adapter_ok [OF 3(4) [unfolded pushable_def, THEN conjunct1] iu(1)] 2(7,8) pr7 assms(5) s7 3(4) lu iu(2) obtain h8 d8 where
    4: "stream_putData_adapter h7 d7 u = Inr (h8, d8)" "appended h7 d7 ub h8 d8" "\<forall>w. m_priv w \<noteq> m_priv d7 \<longrightarrow> storage h8 w = storage h7 w"
    by (auto simp: isContiguous_def)
  have a8: "appended h dest (?bs @ vl_bytes ?m @ ub) h8 d8" using appended_trans [OF assms(1) a7 4(2)] by simp
  have "storage h8 u = storage h6 u" using 4(3) s7 2(7) pr7 assms(5) by simp
  then have "pushable h8 u 1" using 2(5) pushable_frame by blast
  then obtain h9 c9 where 5: "uc_flush h8 (c6\<lparr>uc_d := u\<rparr>) = Inr (h9, c9)" "others_kept {r} h8 h9"
    using stream_putUint8_wrote [of h8 u "uc_lastChunk c6"] 2(7) by (cases "uc_lastChunk c6 = 0") (auto simp: uc_flush_def others_kept_def wrote_def kept_def)
  have pr8: "m_priv d8 = m_priv dest" using a8 by (simp add: appended_def)
  have "storage h9 d8 = storage h8 d8" using others_keptD [OF 5(2)] pr8 assms(5) by simp
  note a9 = appended_frame_after [OF a8 this]
  have nm: "narrow_check_u (uint (m_putPtr u)) = Inr ?m"
  proof -
    have "unat (of_nat (length ub) :: u64) = length ub" by (rule unat_of_nat_small) (use ub in simp)
    then have "uint (m_putPtr u) = int (length ub)" unfolding 2(9) by (metis uint_nat)
    then show ?thesis using ub narrow_check_32 [of ub] by (simp add: narrow_check_u_def)
  qed
  have nl: "narrow_check_u (uint (last (map ucast xs :: 'a word list))) = Inr (last xs)"
  proof -
    have "unat (last (map ucast xs :: 'a word list)) = unat (last xs)" using False assms(6) by (simp add: last_map unat_ucast_up)
    then have "uint (last (map ucast xs :: 'a word list)) = uint (last xs)" by (metis uint_nat)
    moreover have "uint (last xs) < 2 ^ 32" using unat_bound [of "last xs"] by (intro uint_less_unat) simp
    ultimately show ?thesis by (simp add: narrow_check_u_def)
  qed
  have "ef_create nl (map ucast xs :: 'a word list) h r dest = Inr (h9, d8)"
    unfolding ef_create_def length_map narrow_check_32 [OF len] n_def [symmetric] bindE_simps if_not_P [OF n0] nl e(2) bdefs(1) [symmetric] Let_def
      bdefs(2) [symmetric] st of 1(1,2) prod.case 1(3) 2(1-4) nm 3(1) 4(1) 5(1) ..
  moreover have "ef_bytes nl xs (?bs @ vl_bytes ?m @ ub)"
  proof -
    have "ef_file l (of_nat e) ?ys (?bs @ vl_bytes ?m @ ub)"
      unfolding ef_file_def using 1(5,6) ub 2(11,12) by (intro exI [of _ lbs] exI [of _ ub] exI [of _ k]) (simp add: n_def)
    then show ?thesis using False len e(1) by (auto simp: ef_bytes_def bdefs n_def)
  qed
  moreover have "others_kept {m_priv dest, r} h h9"
    using 1(7) 2(13) 3(3) 4(3) 5(2) pr pr7 by (simp add: others_kept_def)
  moreover have "length (?bs @ vl_bytes ?m @ ub) \<le> 16 + 5 * length xs + 2 ^ 29" using lb1 P 2(10) length_vl32 [of ?m] by simp
  ultimately show ?thesis using a9 by blast
qed

end
