(* ===== verification/EliasFanoOps.thy ===== *)
theory EliasFanoOps
  imports EliasFanoCreate
begin

text \<open>
  The set operations on Elias-Fano indices: the loop over the two iterators computes the merge of the ids, which is then encoded. The
  result may not be encodable although the operands are.
\<close>

section \<open>The loops\<close>

text \<open>An iterator in front of the ids \<open>xs\<close>, where the index has \<open>n\<close> ids.\<close>

definition it_ids :: "heap \<Rightarrow> ef_iter \<Rightarrow> u32 list \<Rightarrow> nat \<Rightarrow> bool" where
  "it_ids h it xs n \<longleftrightarrow> (\<exists>l i b ys. ei_rel h l it i b ys \<and> ids_of b ys = xs \<and> i + length ys = n)"

lemma it_ids_end:
  assumes "it_ids h it xs n" "ei_lbPos stop = of_nat n"
  shows "ei_notEq it stop \<longleftrightarrow> xs \<noteq> []"
proof -
  from assms(1) obtain l i b ys where r: "ei_rel h l it i b ys" "ids_of b ys = xs" "i + length ys = n" by (auto simp: it_ids_def)
  have p: "ei_lbPos it = of_nat i" "i < 2 ^ 64" "n < 2 ^ 64" using r(1,3) by (simp_all add: ei_rel_def)
  have "unat (of_nat i :: u64) = i" "unat (of_nat n :: u64) = n" by (rule unat_of_nat_small; use p in simp)+
  then have "(of_nat i :: u64) = of_nat n \<longleftrightarrow> i = n" by metis
  then have "ei_notEq it stop \<longleftrightarrow> i \<noteq> n" unfolding ei_notEq_def p(1) assms(2) by simp
  moreover have "length xs = length ys" unfolding r(2) [symmetric] by simp
  ultimately show ?thesis using r(3) by auto
qed

lemma it_ids_step:
  assumes "it_ids h it (v # vs) n"
  obtains it' where "ei_get h it = Inr v" "ei_next h it = Inr it'" "it_ids h it' vs n"
proof -
  from assms obtain l i b ys where r: "ei_rel h l it i b ys" "ids_of b ys = v # vs" "i + length ys = n" by (auto simp: it_ids_def)
  then obtain z zs where z: "ys = z # zs" "z + b = v" "ids_of (b + 1) zs = vs" by (cases ys) auto
  from ei_next_spec [OF r(1) [unfolded z(1)]] obtain it' where 1: "ei_next h it = Inr it'" "ei_rel h l it' (Suc i) (b + 1) zs" by blast
  have "it_ids h it' vs n" unfolding it_ids_def using 1(2) z r(3) by (intro exI [of _ l] exI [of _ "Suc i"] exI [of _ "b + 1"] exI [of _ zs]) simp
  then show thesis using that ei_get_spec [OF r(1) [unfolded z(1)]] z(2) 1(1) by blast
qed

definition pushed :: "ef_creator \<Rightarrow> u32 list \<Rightarrow> ef_creator" where
  "pushed c zs = c\<lparr>efc_values := efc_values c @ zs\<rparr>"

lemma pushed_simps [simp]: "pushed c [] = c" "pushed (pushed c as) bs = pushed c (as @ bs)" "efc_push_back c v = pushed c [v]"
  "efc_values (pushed c as) = efc_values c @ as" "efc_data (pushed c as) = efc_data c" "efc_putPtr (pushed c as) = efc_putPtr c"
  by (simp_all add: pushed_def efc_push_back_def)

lemma ef_remainder_spec:
  "it_ids h it xs n \<Longrightarrow> ei_lbPos stop = of_nat n \<Longrightarrow> ef_remainder h it stop c = Inr (pushed c xs)"
proof (induction xs arbitrary: it c)
  case Nil
  then show ?case using it_ids_end [OF Nil] by (subst ef_remainder.simps) simp
next
  case (Cons x xs)
  obtain it' where "ei_get h it = Inr x" "ei_next h it = Inr it'" "it_ids h it' xs n" using it_ids_step [OF Cons.prems(1)] by blast
  then show ?case using Cons.IH Cons.prems(2) it_ids_end [OF Cons.prems] by (subst ef_remainder.simps) simp
qed

definition ef_rest :: "set_op \<Rightarrow> heap \<Rightarrow> ef_iter \<Rightarrow> ef_iter \<Rightarrow> ef_iter \<times> ef_iter \<times> ef_creator \<Rightarrow> ef_creator res" where
  "ef_rest t h fEnd sEnd = (\<lambda>(fIt, sIt, c).
     bindE (if pushFirstRemainder t then ef_remainder h fIt fEnd c else Inr c) (\<lambda>c.
       if pushSecondRemainder t then ef_remainder h sIt sEnd c else Inr c))"

lemma ef_op_loop_stop: "\<not> ei_notEq f fEnd \<or> \<not> ei_notEq s sEnd \<Longrightarrow> ef_op_loop t h f fEnd s sEnd c = Inr (f, s, c)"
  by (subst ef_op_loop.simps) auto

lemma ef_op_loop_spec:
  assumes "ei_lbPos fEnd = of_nat n" "ei_lbPos sEnd = of_nat m"
  shows "it_ids h f xs n \<Longrightarrow> it_ids h s ys m \<Longrightarrow>
    bindE (ef_op_loop t h f fEnd s sEnd c) (ef_rest t h fEnd sEnd) = Inr (pushed c (merge_op t xs ys))"
proof (induction t xs ys arbitrary: f s c rule: merge_op.induct)
  case (1 t x xs y ys)
  obtain f' where f: "ei_get h f = Inr x" "ei_next h f = Inr f'" "it_ids h f' xs n" using it_ids_step [OF "1.prems"(1)] by blast
  obtain s' where s: "ei_get h s = Inr y" "ei_next h s = Inr s'" "it_ids h s' ys m" using it_ids_step [OF "1.prems"(2)] by blast
  note e = it_ids_end [OF "1.prems"(1) assms(1)] it_ids_end [OF "1.prems"(2) assms(2)]
  consider "x < y" | "y < x" | "x = y" by force
  then show ?case
  proof cases
    case 1
    then show ?thesis using "1.IH"(1) [OF 1 f(3) "1.prems"(2), of "if pushFirstSmaller t then pushed c [x] else c"] f s e
      by (subst ef_op_loop.simps) (auto split: if_splits)
  next
    case 2
    then have "\<not> x < y" by simp
    then show ?thesis using "1.IH"(2) [OF _ 2 "1.prems"(1) s(3), of "if pushSecondSmaller t then pushed c [y] else c"] f s e 2
      by (subst ef_op_loop.simps) (auto split: if_splits)
  next
    case 3
    then show ?thesis using "1.IH"(3) [OF _ _ f(3) s(3), of "if pushEqual t then pushed c [x] else c"] f s e 3
      by (subst ef_op_loop.simps) (auto split: if_splits)
  qed
next
  case "2_1"
  then show ?case
    using ef_op_loop_stop it_ids_end [OF "2_1.prems"(1) assms(1)] ef_remainder_spec [OF "2_1.prems"(1) assms(1)] ef_remainder_spec [OF "2_1.prems"(2) assms(2)]
    by (simp add: ef_rest_def)
next
  case "2_2"
  then show ?case
    using ef_op_loop_stop it_ids_end [OF "2_2.prems"(2) assms(2)] ef_remainder_spec [OF "2_2.prems"(1) assms(1)] ef_remainder_spec [OF "2_2.prems"(2) assms(2)]
    by (simp add: ef_rest_def)
qed

section \<open>The operations\<close>

lemma ef_op_eq: "ef_op nl t h r1 r2 x y =
     bindE (ef_init t h r1 x y) (\<lambda>(h, c).
     bindE (bindE (ef_op_loop t h (ef_cbegin x) (ef_cend x) (ef_cbegin y) (ef_cend y) c) (ef_rest t h (ef_cend x) (ef_cend y))) (\<lambda>c.
     bindE (efc_flush nl h r2 c) (\<lambda>(h, c). efc_getPrivateIndex nl h c)))"
  by (simp add: ef_op_def ef_rest_def bindE_assoc split_def)

lemma ef_init_eq: "ef_inv h x xs \<Longrightarrow> ef_inv h y ys \<Longrightarrow> ef_init t h r x y = efc_new h r"
  by (auto simp: ef_init_def ef_inv_def)

lemma ef_begin_ids:
  assumes "ef_inv h x xs" "\<And>w. m_priv w = m_priv (ef_d x) \<Longrightarrow> storage h1 w = storage h w"
  shows "it_ids h1 (ef_cbegin x) xs (length xs)" "ei_lbPos (ef_cend x) = of_nat (length xs)"
proof -
  obtain l where "ei_rel h l (ef_cbegin x) 0 0 (ef_offsets 0 xs)" "xs \<noteq> [] \<Longrightarrow> ei_at (m_priv (ef_d x)) l (ef_cbegin x)"
    using ef_iterators [OF assms(1)] by blast
  then have "ei_rel h1 l (ef_cbegin x) 0 0 (ef_offsets 0 xs)" using ei_rel_frame [OF _ _ assms(2)] by (metis length_0_conv length_offsets)
  then show "it_ids h1 (ef_cbegin x) xs (length xs)" unfolding it_ids_def
    by (intro exI [of _ l] exI [of _ 0] exI [of _ "ef_offsets 0 xs"]) (simp add: ids_of_offsets)
  have "unat (ucast (ef_size x) :: u64) = length xs" using assms(1) unfolding unat_ucast64 by (simp add: ef_inv_def)
  then show "ei_lbPos (ef_cend x) = of_nat (length xs)" by (simp add: ef_cend_def ei_end_def of_nat_eqI del: of_nat_unat)
qed

text \<open>A new creator writes at the beginning of its storage.\<close>

lemma efc_flush_spec:
  assumes "createCache h r1 4 = Inr (h1, d)" "encodable zs" "nl_ok nl" "r2 \<noteq> r1"
  shows "\<exists>h2 z. bindE (efc_flush nl h1 r2 \<lparr>efc_values = zs, efc_data = d, efc_putPtr = 0\<rparr>) (\<lambda>(h, c). efc_getPrivateIndex nl h c) = Inr (h2, z) \<and>
    ef_inv h2 z zs \<and> m_priv (ef_d z) = r1 \<and> ef_cache z = [] \<and> others_kept {r1, r2} h1 h2"
proof -
  have "unat (4 :: u64) \<le> max_size" by (simp add: max_size_def)
  from createCache_spec [OF this, of h r1] assms(1) have d: "d = uba_of_priv r1 0 4" "uba_inv h1 d" "growable h1 d" by auto
  then have d0: "m_putPtr d = 0" "m_offSet d = 0" "m_priv d = r1" "m_len d = 4" by (simp_all add: uba_of_priv_def)
  have len: "length zs < 2 ^ 32" using assms(2) by (simp add: encodable_def)
  have "pushable h1 d (16 + 5 * length zs + 2 ^ 29)" using d(2,3) d0 len by (simp add: pushable_def max_size_def)
  moreover have "map ucast zs = zs" by (simp add: map_idI)
  ultimately obtain h2 d2 bs where
    1: "ef_create nl zs h1 r2 d = Inr (h2, d2)" "appended h1 d bs h2 d2" "ef_bytes nl zs bs" "others_kept {r1, r2} h1 h2"
    using ef_create_spec [of h1 d zs nl r2, where 'a = 32] assms(2-4) d0 by auto
  have sp: "uba_setPutPtr d 0 = d" using d0 by (simp add: uba_setPutPtr_def d(1) uba_of_priv_def)
  let ?u = "uba_setGetPtr d2 0"
  have u: "uba_inv h2 ?u" "view h2 ?u = view h2 d2" "m_priv ?u = r1"
    using 1(2) d0 by (auto simp: appended_def uba_setGetPtr_def)
  have "view h2 ?u = bs @ drop (length bs) (view h1 d)" using 1(2) d0 u(2) by (simp add: appended_def blit_def)
  from ef_open_spec [OF u(1) this 1(3) assms(3)] 1(1,4) u(3) sp show ?thesis
    by (auto simp: efc_flush_def efc_getPrivateIndex_def efc_flushedData_def)
qed

lemma ef_op_spec:
  assumes "ef_inv h x xs" "ef_inv h y ys" "nl_ok nl" "r1 \<noteq> r2" "m_priv (ef_d x) \<noteq> r1" "m_priv (ef_d y) \<noteq> r1"
  shows "encodable (merge_op t xs ys) \<Longrightarrow> \<exists>h' z. ef_op nl t h r1 r2 x y = Inr (h', z) \<and> ef_inv h' z (merge_op t xs ys) \<and> m_priv (ef_d z) = r1 \<and>
      ef_cache z = [] \<and> others_kept {r1, r2} h h'"
proof -
  assume e: "encodable (merge_op t xs ys)"
  have "unat (4 :: u64) \<le> max_size" by (simp add: max_size_def)
  from createCache_spec [OF this, of h r1] obtain h1 d where
    1: "createCache h r1 4 = Inr (h1, d)" "\<forall>w. m_priv w \<noteq> r1 \<longrightarrow> storage h1 w = storage h w" by auto
  let ?c = "\<lparr>efc_values = [], efc_data = d, efc_putPtr = 0\<rparr>"
  have fr: "m_priv w = m_priv (ef_d x) \<Longrightarrow> storage h1 w = storage h w" "m_priv w = m_priv (ef_d y) \<Longrightarrow> storage h1 w = storage h w" for w
    using 1(2) assms(5,6) by simp_all
  note bx = ef_begin_ids [OF assms(1) fr(1)] and "by" = ef_begin_ids [OF assms(2) fr(2)]
  have L: "bindE (ef_op_loop t h1 (ef_cbegin x) (ef_cend x) (ef_cbegin y) (ef_cend y) ?c) (ef_rest t h1 (ef_cend x) (ef_cend y)) =
      Inr (pushed ?c (merge_op t xs ys))"
    by (rule ef_op_loop_spec [OF bx(2) "by"(2) bx(1) "by"(1)])
  have p: "pushed ?c (merge_op t xs ys) = \<lparr>efc_values = merge_op t xs ys, efc_data = d, efc_putPtr = 0\<rparr>" by (simp add: pushed_def)
  from efc_flush_spec [OF 1(1) e assms(3), of r2] assms(4) obtain h2 z where
    2: "bindE (efc_flush nl h1 r2 (pushed ?c (merge_op t xs ys))) (\<lambda>(h, c). efc_getPrivateIndex nl h c) = Inr (h2, z)"
      "ef_inv h2 z (merge_op t xs ys)" "m_priv (ef_d z) = r1" "ef_cache z = []" "others_kept {r1, r2} h1 h2" unfolding p by auto
  have "ef_op nl t h r1 r2 x y = Inr (h2, z)" unfolding ef_op_eq ef_init_eq [OF assms(1,2)] using 1(1) L 2(1) by (simp add: efc_new_def)
  moreover have "others_kept {r1, r2} h h2" using 1(2) 2(5) by (simp add: others_kept_def)
  ultimately show ?thesis using 2(2-4) by blast
qed

end
