(* ===== verification/EliasFanoFacts.thy ===== *)
theory EliasFanoFacts
  imports EliasFanoOps ItemIndexSets
begin

text \<open>
  What clients of \<open>ItemIndexPrivateEliasFano\<close> can rely on, and where it fails: ids that need an upper bound of more than 32 bits are refused,
  \<open>putInto\<close> gives other ids behind the cache, and a creator that appends to an adapter reads at its beginning.
\<close>

section \<open>Lists that cannot be encoded\<close>

lemma ef_create_error:
  fixes xs :: "u32 list"
  assumes "xs \<noteq> []" "length xs < 2 ^ 32" "2 ^ 31 < unat (last xs - of_nat (length xs - 1))"
  shows "ef_create nl xs h r d = Inl StdDomainError"
proof -
  define n where "n = (of_nat (length xs) :: u32)"
  have un: "unat n = length xs" unfolding n_def by (rule unat_of_nat_small) (use assms(2) in simp)
  then have n0: "n \<noteq> 0" using assms(1) by auto
  have "of_nat (length xs - 1) = n - 1" using assms(1) by (cases xs) (simp_all add: n_def)
  then have u: "ef_upperBound n (last xs) = Inl StdDomainError" using ef_upperBound_spec [of "last xs" n] assms(3) by simp
  have "uint (last xs) < 2 ^ 32" using unat_bound [of "last xs"] by (intro uint_less_unat) simp
  then have nl: "narrow_check_u (uint (last xs)) = Inr (last xs)" by (simp add: narrow_check_u_def)
  show ?thesis unfolding ef_create_def narrow_check_32 [OF assms(2)] n_def [symmetric] bindE_simps if_not_P [OF n0] nl u ..
qed

definition too_far :: "u32 list \<Rightarrow> bool" where
  "too_far xs \<longleftrightarrow> xs \<noteq> [] \<and> 2 ^ 31 < unat (last xs - of_nat (length xs - 1))"

lemma encodable_or: "increasing xs \<Longrightarrow> length xs < 2 ^ 32 \<Longrightarrow> encodable xs \<longleftrightarrow> \<not> too_far xs"
  by (auto simp: encodable_def too_far_def)

lemma ef_op_error:
  assumes "ef_inv h x xs" "ef_inv h y ys" "m_priv (ef_d x) \<noteq> r1" "m_priv (ef_d y) \<noteq> r1"
    and "too_far (merge_op t xs ys)" "length (merge_op t xs ys) < 2 ^ 32"
  shows "ef_op nl t h r1 r2 x y = Inl StdDomainError"
proof -
  have "unat (4 :: u64) \<le> max_size" by (simp add: max_size_def)
  from createCache_spec [OF this, of h r1] obtain h1 d where
    1: "createCache h r1 4 = Inr (h1, d)" "\<forall>w. m_priv w \<noteq> r1 \<longrightarrow> storage h1 w = storage h w" by auto
  let ?c = "\<lparr>efc_values = [], efc_data = d, efc_putPtr = 0\<rparr>"
  have fr: "m_priv w = m_priv (ef_d x) \<Longrightarrow> storage h1 w = storage h w" "m_priv w = m_priv (ef_d y) \<Longrightarrow> storage h1 w = storage h w" for w
    using 1(2) assms(3,4) by simp_all
  note bx = ef_begin_ids [OF assms(1) fr(1)] and "by" = ef_begin_ids [OF assms(2) fr(2)]
  have L: "bindE (ef_op_loop t h1 (ef_cbegin x) (ef_cend x) (ef_cbegin y) (ef_cend y) ?c) (ef_rest t h1 (ef_cend x) (ef_cend y)) =
      Inr (pushed ?c (merge_op t xs ys))"
    by (rule ef_op_loop_spec [OF bx(2) "by"(2) bx(1) "by"(1)])
  have "ef_create nl (merge_op t xs ys) h1 r2 d' = Inl StdDomainError" for d'
    by (rule ef_create_error) (use assms(5,6) in \<open>simp_all add: too_far_def\<close>)
  then show ?thesis unfolding ef_op_eq ef_init_eq [OF assms(1,2)] using 1(1) L by (simp add: efc_new_def efc_flush_def)
qed

section \<open>An example\<close>

text \<open>A number of lower bits that is close to the one of the code.\<close>

definition example_nl :: "u32 \<Rightarrow> u32 \<Rightarrow> u8" where
  "example_nl ub n = of_nat (msb32 ub - msb32 n)"

lemma msb32_less: "msb32 v < 32"
  using msb_loop_bit [of v] bit_imp_le_length [of v "msb_loop v"] unfolding msb32_eq by (cases "v = 0") (auto simp: msb_loop.simps)

lemma example_nl_ok: "nl_ok example_nl"
proof -
  have "unat (of_nat (msb32 ub - msb32 n) :: u8) < 32" for ub n
  proof -
    have "msb32 ub - msb32 n < 32" using msb32_less [of ub] by simp
    moreover from this have "unat (of_nat (msb32 ub - msb32 n) :: u8) = msb32 ub - msb32 n" by (intro unat_of_nat_small) simp
    ultimately show ?thesis by simp
  qed
  then show ?thesis by (simp add: nl_ok_def example_nl_def)
qed


lemma example_indices:
  assumes "encodable xs" "encodable ys"
  shows "\<exists>h x y. ef_inv h x xs \<and> ef_inv h y ys \<and> m_priv (ef_d x) = 0 \<and> m_priv (ef_d y) = 1 \<and> ef_cache x = [] \<and> ef_cache y = [] \<and>
    owner h (uba_of_priv 3 0 0)"
proof -
  let ?h = "\<lambda>_. \<lparr>kind = VectorB, mem = []\<rparr>" and ?d = "\<lambda>p. uba_of_priv p 0 0"
  have p: "pushable ?h (?d p) (16 + 5 * length zs + 2 ^ 29)" if "encodable zs" for p zs
    using that by (simp add: pushable_def example_simps max_size_def encodable_def)
  have d: "unat (m_len (?d p)) < 2 ^ 59" "m_priv (?d p) = p" for p by (simp_all add: uba_of_priv_def)
  have m: "map ucast zs = zs" for zs :: "u32 list" by (simp add: map_idI)
  have "2 \<noteq> m_priv (?d 0)" by (simp add: d)
  from ef_create_spec [OF p d(1) assms(1) example_nl_ok this, where 'a = 32, unfolded m] assms(1) obtain h1 d1 bs where
    1: "appended ?h (?d 0) bs h1 d1" "ef_bytes example_nl xs bs" "others_kept {0, 2} ?h h1" by (auto simp: d)
  have "storage h1 (?d 1) = storage ?h (?d 1)" using others_keptD [OF 1(3)] by (simp add: d)
  then have p1: "pushable h1 (?d 1) (16 + 5 * length ys + 2 ^ 29)" using p [OF assms(2)] pushable_frame by blast
  have "2 \<noteq> m_priv (?d 1)" by (simp add: d)
  from ef_create_spec [OF p1 d(1) assms(2) example_nl_ok this, where 'a = 32, unfolded m] obtain h2 d2 cs where
    2: "appended h1 (?d 1) cs h2 d2" "ef_bytes example_nl ys cs" "others_kept {1, 2} h1 h2" by (auto simp: d)
  have "storage h2 d1 = storage h1 d1" using others_keptD [OF 2(3)] 1(1) by (simp add: appended_def d)
  note a = appended_frame_after [OF 1(1) this]
  obtain v where v: "uba_inv h2 (uba_sub d1 (m_putPtr (?d 0)))" "view h2 (uba_sub d1 (m_putPtr (?d 0))) = bs @ v"
      "m_priv (uba_sub d1 (m_putPtr (?d 0))) = 0" using open_appended [OF p [OF assms(1)] a] d(2) by metis
  obtain w where w: "uba_inv h2 (uba_sub d2 (m_putPtr (?d 1)))" "view h2 (uba_sub d2 (m_putPtr (?d 1))) = cs @ w"
      "m_priv (uba_sub d2 (m_putPtr (?d 1))) = 1" using open_appended [OF p1 2(1)] d(2) by metis
  from ef_open_spec [OF v(1,2) 1(2) example_nl_ok] ef_open_spec [OF w(1,2) 2(2) example_nl_ok] v(3) w(3) obtain x y where
    3: "ef_inv h2 x xs" "ef_inv h2 y ys" "m_priv (ef_d x) = 0" "m_priv (ef_d y) = 1" "ef_cache x = []" "ef_cache y = []" by metis
  have "storage h2 (?d 3) = storage ?h (?d 3)" using others_keptD [OF 2(3), of "?d 3"] others_keptD [OF 1(3), of "?d 3"] by (simp add: d)
  moreover have "owner ?h (?d 3)" by (simp add: example_simps)
  ultimately have "owner h2 (?d 3)" using view_frame(2) [of h2 "?d 3" ?h] by (simp add: owner_def growable_def)
  then show ?thesis using 3 by blast
qed

section \<open>Creation and access\<close>

text \<open>C37: An index made from ids is found again in the bytes appended at the put pointer, whose number is \<open>getSizeInBytes\<close>; on it \<open>at\<close> and
  \<open>find\<close> give the ids and \<open>putInto\<close> copies them. \<open>create\<close> throws when the last id less its position is above \<open>2^31\<close>.\<close>

theorem ef_roundtrip:
  assumes "pushable h dest (16 + 5 * length xs + 2 ^ 29)" "unat (m_len dest) < 2 ^ 59" "increasing xs" "length xs < 2 ^ 32" "nl_ok nl" "r \<noteq> m_priv dest"
  shows "(too_far xs \<longrightarrow> ef_create nl xs h r dest = Inl StdDomainError) \<and>
    (\<not> too_far xs \<longrightarrow> (\<exists>h' d' x. ef_create nl xs h r dest = Inr (h', d') \<and> ef_new nl h' (uba_sub d' (m_putPtr dest)) = Inr (h', x) \<and>
      ef_getSizeInBytes x = m_putPtr d' - m_putPtr dest \<and> unat (ef_size x) = length xs \<and> ef_inv h' x xs \<and> ef_putInto_array h' x = Inr xs \<and>
      (\<forall>pos. if unat pos < length xs then \<exists>x'. ef_at h' x pos = Inr (xs ! unat pos, x') \<and> ef_inv h' x' xs else ef_at h' x pos = Inl StdOutOfRange) \<and>
      (\<exists>i. ef_find h' x v = Inr i \<and> (if v \<in> set xs then unat i < length xs \<and> xs ! unat i = v else i = - 1)) \<and>
      (\<forall>w. m_priv w \<noteq> r \<and> m_priv w \<noteq> m_priv dest \<longrightarrow> storage h' w = storage h w)))"
proof (cases "too_far xs")
  case True
  then show ?thesis using ef_create_error [of xs] assms(4) by (simp add: too_far_def)
next
  case False
  then have e: "encodable xs" using assms(3,4) encodable_or by blast
  have m: "map ucast xs = xs" by (simp add: map_idI)
  from ef_create_spec [OF assms(1,2) e assms(5,6), where 'a = 32, unfolded m] obtain h' d' bs where
    1: "ef_create nl xs h r dest = Inr (h', d')" "appended h dest bs h' d'" "ef_bytes nl xs bs" "others_kept {m_priv dest, r} h h'" by auto
  obtain rest where 2: "uba_inv h' (uba_sub d' (m_putPtr dest))" "view h' (uba_sub d' (m_putPtr dest)) = bs @ rest"
    "m_putPtr d' - m_putPtr dest = of_nat (length bs)" using open_appended [OF assms(1) 1(2)] by blast
  from ef_open_spec [OF 2(1,2) 1(3) assms(5)] obtain x where
    3: "ef_new nl h' (uba_sub d' (m_putPtr dest)) = Inr (h', x)" "ef_inv h' x xs" "ef_cache x = []" "ef_getSizeInBytes x = m_putPtr d' - m_putPtr dest"
    unfolding 2(3) by blast
  have "unat (ef_size x) = length xs" using 3(2) by (simp add: ef_inv_def)
  moreover have "ef_putInto_array h' x = Inr xs" using ef_putInto_array_spec [OF 3(2)] 3(3) by (simp add: behind_cache_def)
  moreover have "if unat pos < length xs then \<exists>x'. ef_at h' x pos = Inr (xs ! unat pos, x') \<and> ef_inv h' x' xs else ef_at h' x pos = Inl StdOutOfRange"
    for pos using ef_at_spec [OF 3(2), of pos] by auto
  moreover have "\<forall>w. m_priv w \<noteq> r \<and> m_priv w \<noteq> m_priv dest \<longrightarrow> storage h' w = storage h w" using 1(4) by (simp add: others_kept_def)
  ultimately show ?thesis using 1(1) 3 False ef_find_spec [OF 3(2) assms(3), of v] by blast
qed

theorem ef_roundtrip_witness:
  "(\<exists>h' d' x. ef_create example_nl [3, 5, 7, 9, 300 :: u32] (\<lambda>_. \<lparr>kind = VectorB, mem = [9]\<rparr>) 7 ((uba_of_priv 0 0 1)\<lparr>m_putPtr := 1\<rparr>) = Inr (h', d') \<and>
     ef_new example_nl h' (uba_sub d' 1) = Inr (h', x) \<and> ef_putInto_array h' x = Inr [3, 5, 7, 9, 300]) \<and>
   ef_create example_nl [2 ^ 31 + 1 :: u32] (\<lambda>_. \<lparr>kind = VectorB, mem = [9]\<rparr>) 7 ((uba_of_priv 0 0 1)\<lparr>m_putPtr := 1\<rparr>) = Inl StdDomainError"
proof -
  let ?h = "\<lambda>_. \<lparr>kind = VectorB, mem = [9]\<rparr>" and ?d = "(uba_of_priv 0 0 1)\<lparr>m_putPtr := 1\<rparr>"
  have p: "pushable ?h ?d (16 + 5 * length [3, 5, 7, 9, 300 :: u32] + 2 ^ 29)" "pushable ?h ?d (16 + 5 * length [2 ^ 31 + 1 :: u32] + 2 ^ 29)"
    by (simp_all add: pushable_def example_simps max_size_def)
  have d: "unat (m_len ?d) < 2 ^ 59" "7 \<noteq> m_priv ?d" "m_putPtr ?d = 1" by (simp_all add: uba_of_priv_def)
  have t: "\<not> too_far [3, 5, 7, 9, 300]" "too_far [2 ^ 31 + 1]" by (simp_all add: too_far_def)
  have i: "increasing [3, 5, 7, 9, 300 :: u32]" "increasing [2 ^ 31 + 1 :: u32]" "length [3, 5, 7, 9, 300 :: u32] < 2 ^ 32" "length [2 ^ 31 + 1 :: u32] < 2 ^ 32"
    by simp_all
  show ?thesis
    using ef_roundtrip [OF p(1) d(1) i(1,3) example_nl_ok d(2), THEN conjunct2, rule_format, OF t(1), where v = 5]
      ef_roundtrip [OF p(2) d(1) i(2,4) example_nl_ok d(2), THEN conjunct1, rule_format, OF t(2)] unfolding d(3)
    by (elim exE conjE) (intro conjI exI; assumption)
qed

section \<open>Set operations\<close>

text \<open>C38: The set operations compute the merge of the two lists, in whatever state the caches are, and throw when the merge cannot be
  encoded, also for operands that can. With an operand of another kind the generic operation gives the merge in any case.\<close>

theorem ef_operations:
  assumes "ef_inv h x xs" "ef_inv h y ys" "increasing xs" "increasing ys" "length xs + length ys < 2 ^ 32" "nl_ok nl"
    and "r1 \<noteq> r2" "m_priv (ef_d x) \<noteq> r1" "m_priv (ef_d y) \<noteq> r1" "t \<in> {IntersectOp, UniteOp, DifferenceOp, SymmetricDifferenceOp}"
  shows "(if too_far (merge_op t xs ys) then ef_setop nl t h r1 r2 x (EfOperand y) = Inl StdDomainError
      else \<exists>h' z. ef_setop nl t h r1 r2 x (EfOperand y) = Inr (EfResult h' z) \<and> ef_inv h' z (merge_op t xs ys) \<and>
        ef_putInto_array h' z = Inr (merge_op t xs ys) \<and> (\<forall>w. m_priv w \<noteq> r1 \<and> m_priv w \<noteq> r2 \<longrightarrow> storage h' w = storage h w)) \<and>
    (\<exists>g. ef_setop nl t h r1 r2 x (EfOther (ef_source (h, y))) = Inr (EfGeneric g) \<and> result_ids g (merge_op t xs ys)) \<and>
    increasing (merge_op t xs ys) \<and> set (merge_op t xs ys) = op_set t (set xs) (set ys)"
proof -
  have "coherent t" using assms(10) by auto
  note m = merge_op_set [OF this assms(3,4)]
  have "length (merge_op t xs ys) \<le> length xs + length ys" by (rule length_merge_op)
  then have len: "length (merge_op t xs ys) < 2 ^ 32" using assms(5) by simp
  have "\<exists>g. do_op t (ef_source (h, x)) (Some (ef_source (h, y))) = Inr g \<and> result_ids g (merge_op t xs ys)"
    using do_op_agrees [OF ef_source_ids [OF assms(1)] ef_source_ids [OF assms(2)] assms(5,10)] by simp
  then have g: "\<exists>g. ef_setop nl t h r1 r2 x (EfOther (ef_source (h, y))) = Inr (EfGeneric g) \<and> result_ids g (merge_op t xs ys)"
    by (auto simp: ef_setop_def)
  show ?thesis
  proof (cases "too_far (merge_op t xs ys)")
    case True
    then show ?thesis using ef_op_error [OF assms(1,2,8,9) True len] g m by (simp add: ef_setop_def)
  next
    case False
    then have "encodable (merge_op t xs ys)" using encodable_or m len by blast
    from ef_op_spec [OF assms(1,2,6-9) this] obtain h' z where
      1: "ef_op nl t h r1 r2 x y = Inr (h', z)" "ef_inv h' z (merge_op t xs ys)" "ef_cache z = []" "others_kept {r1, r2} h h'" by blast
    then have "ef_setop nl t h r1 r2 x (EfOperand y) = Inr (EfResult h' z)" by (simp add: ef_setop_def)
    then show ?thesis using False m g 1(2-4) ef_putInto_array_spec [OF 1(2)] by (simp add: behind_cache_def others_kept_def)
  qed
qed

theorem ef_operations_witness:
  "(\<exists>h x y h' z. ef_inv h x [3, 5, 300] \<and> ef_inv h y [1, 5] \<and> ef_setop example_nl SymmetricDifferenceOp h 3 4 x (EfOperand y) = Inr (EfResult h' z) \<and>
      ef_putInto_array h' z = Inr [1, 3, 300]) \<and>
   (\<exists>h x y. ef_inv h x [0, 1, 2 ^ 31 + 1] \<and> ef_inv h y [5, 6, 2 ^ 31 + 1] \<and> ef_setop example_nl IntersectOp h 3 4 x (EfOperand y) = Inl StdDomainError)"
proof -
  have op: "merge_op SymmetricDifferenceOp [3, 5, 300] [1, 5] = [1, 3, 300 :: u32]"
    "merge_op IntersectOp [0, 1, 2 ^ 31 + 1] [5, 6, 2 ^ 31 + 1] = [2 ^ 31 + 1 :: u32]" by code_simp+
  have far: "\<not> too_far [1, 3, 300]" "too_far [2 ^ 31 + 1]" by (simp_all add: too_far_def)
  have "encodable [3, 5, 300]" "encodable [1, 5]" by (simp_all add: encodable_def)
  from example_indices [OF this] obtain h x y where
    1: "ef_inv h x [3, 5, 300]" "ef_inv h y [1, 5]" "m_priv (ef_d x) = 0" "m_priv (ef_d y) = 1" by blast
  have "encodable [0, 1, 2 ^ 31 + 1]" "encodable [5, 6, 2 ^ 31 + 1]" by (simp_all add: encodable_def)
  from example_indices [OF this] obtain k u v where
    2: "ef_inv k u [0, 1, 2 ^ 31 + 1]" "ef_inv k v [5, 6, 2 ^ 31 + 1]" "m_priv (ef_d u) = 0" "m_priv (ef_d v) = 1" by blast
  have "\<exists>h' z. ef_setop example_nl SymmetricDifferenceOp h 3 4 x (EfOperand y) = Inr (EfResult h' z) \<and> ef_putInto_array h' z = Inr [1, 3, 300]"
    using ef_operations [OF 1(1,2) _ _ _ example_nl_ok, of 3 4 SymmetricDifferenceOp, unfolded op(1) if_not_P [OF far(1)], THEN conjunct1] 1(3,4) by auto
  moreover have "ef_setop example_nl IntersectOp k 3 4 u (EfOperand v) = Inl StdDomainError"
    using ef_operations [OF 2(1,2) _ _ _ example_nl_ok, of 3 4 IntersectOp, unfolded op(2) if_P [OF far(2)], THEN conjunct1] 2(3,4) by auto
  ultimately show ?thesis using 1(1,2) 2(1,2) by blast
qed

section \<open>Bit sets\<close>

lemma encodable_small:
  assumes "increasing xs" "length xs < 2 ^ 32" "\<forall>x \<in> set xs. unat x \<le> 2 ^ 31"
  shows "encodable xs"
proof -
  have "unat (last xs - of_nat (length xs - 1)) \<le> 2 ^ 31" if ne: "xs \<noteq> []"
  proof -
    have l: "length xs - 1 < length xs" using ne by (cases xs) auto
    have u: "unat (of_nat (length xs - 1) :: u32) = length xs - 1" by (rule unat_of_nat_small) (use assms(2) in simp)
    have "length xs - 1 \<le> unat (last xs)" using increasing_above [OF assms(1)] l ne by (force simp: above_def last_conv_nth)
    then have "of_nat (length xs - 1) \<le> last xs" using u by (simp add: word_le_nat_alt)
    from unat_sub [OF this] have "unat (last xs - of_nat (length xs - 1)) \<le> unat (last xs)" using u by linarith
    moreover have "unat (last xs) \<le> 2 ^ 31" using assms(3) ne by (auto simp: last_in_set)
    ultimately show ?thesis by (rule order_trans)
  qed
  then show ?thesis using assms(1,2) by (simp add: encodable_def)
qed

text \<open>C39: \<open>fromBitSet\<close> gives the elements of a set of at most \<open>2^28\<close> bytes, in order.\<close>

theorem ef_bit_sets:
  assumes "uba_inv h bits" "unat (m_len bits) \<le> 2 ^ 28" "nl_ok nl" "m_priv bits \<noteq> r1" "r1 \<noteq> r2"
  shows "\<exists>h' x xs. ef_fromBitSet nl h r1 r2 bits = Inr (h', x) \<and> ef_inv h' x xs \<and> ef_putInto_array h' x = Inr xs \<and>
    map unat xs = sorted_list_of_set (dbs_elems h bits) \<and> (\<forall>w. m_priv w \<noteq> r1 \<and> m_priv w \<noteq> r2 \<longrightarrow> storage h' w = storage h w)"
proof -
  let ?es = "elem_list h bits" and ?xs = "map of_nat (elem_list h bits) :: u32 list"
  have "unat (m_len bits) < 2 ^ 29" using assms(2) by simp
  note e = elem_ids [OF assms(1) this]
  have "unat (4 :: u64) \<le> max_size" by (simp add: max_size_def)
  from createCache_spec [OF this, of h r1] obtain h1 d where
    1: "createCache h r1 4 = Inr (h1, d)" "d = uba_of_priv r1 0 4" "uba_inv h1 d" "growable h1 d" "\<forall>w. m_priv w \<noteq> r1 \<longrightarrow> storage h1 w = storage h w" by auto
  have d: "m_putPtr d = 0" "m_offSet d = 0" "m_priv d = r1" "unat (m_len d) = 4" unfolding 1(2) by (simp_all add: uba_of_priv_def)
  have st: "storage h1 bits = storage h bits" using 1(5) assms(4) by simp
  have inv: "uba_inv h1 bits" and vw: "view h1 bits = view h bits" using view_frame [OF st] assms(1) by simp_all
  have lt: "x < 2 ^ 31" if "x \<in> set ?es" for x
    using that assms(1,2) by (auto simp: elems_from_def)
  have ne: "length ?es < 8 * unat (m_len bits) + 1" using e(3) by simp
  have c: "it_collect (8 * unat (m_len bits) + 1) h1 bits (it_target (view h1 bits) 0) (it_stop (view h1 bits)) = Some (Inr (map of_nat ?es :: u64 list))"
    using collect_spec [OF inv, of 0 "8 * unat (m_len bits) + 1"] ne unfolding vw by simp
  have m: "(map of_nat ?es :: u64 list) = map ucast ?xs"
  proof -
    have "(of_nat x :: u64) = ucast (of_nat x :: u32)" if "x \<in> set ?es" for x
      using lt [OF that] by (intro word_eq_unatI) (simp add: unat_ucast64 unat_of_nat_small)
    then show ?thesis by simp
  qed
  have len: "length ?xs \<le> 2 ^ 31" using e(3) assms(2) by simp
  have "unat (of_nat x :: u32) \<le> 2 ^ 31" if "x \<in> set ?es" for x
    using lt [OF that] by (subst unat_of_nat_small) simp_all
  then have "\<forall>x \<in> set ?xs. unat x \<le> 2 ^ 31" by simp
  then have en: "encodable ?xs" using encodable_small [OF e(2)] len by simp
  have "pushable h1 d (16 + 5 * length ?xs + 2 ^ 29)" using 1(3,4) d len by (simp add: pushable_def max_size_def word_le_nat_alt)
  then obtain h2 d2 bs where
    2: "ef_create nl (map ucast ?xs :: u64 list) h1 r2 d = Inr (h2, d2)" "appended h1 d bs h2 d2" "ef_bytes nl ?xs bs" "others_kept {r1, r2} h1 h2"
    using ef_create_spec [of h1 d ?xs nl r2, where 'a = 64] en assms(3,5) d by auto
  let ?u = "uba_resetPtrs d2"
  have u: "uba_inv h2 ?u" "view h2 ?u = bs @ drop (length bs) (view h1 d)"
    using 2(2) d by (auto simp: appended_def uba_resetPtrs_def uba_resetPutPtr_def uba_resetGetPtr_def blit_def)
  from ef_open_spec [OF u 2(3) assms(3)] obtain x where
    3: "ef_new nl h2 ?u = Inr (h2, x)" "ef_inv h2 x ?xs" "ef_cache x = []" by blast
  have "ef_fromBitSet nl h r1 r2 bits = Inr (h2, x)"
    using 1(1) iterator_ends [OF inv] c 2(1) 3(1) unfolding m by (simp add: ef_fromBitSet_def)
  moreover have "ef_putInto_array h2 x = Inr ?xs" using ef_putInto_array_spec [OF 3(2)] 3(3) by (simp add: behind_cache_def)
  moreover have "\<forall>w. m_priv w \<noteq> r1 \<and> m_priv w \<noteq> r2 \<longrightarrow> storage h2 w = storage h w" using 1(5) 2(4) by (simp add: others_kept_def)
  ultimately show ?thesis using 3(2) e(1) by blast
qed

theorem ef_bit_sets_witness:
  "\<exists>h' x xs. ef_fromBitSet example_nl (\<lambda>_. \<lparr>kind = VectorB, mem = [5, 0, 128]\<rparr>) 1 2 (uba_of_priv 0 0 3) = Inr (h', x) \<and>
     ef_putInto_array h' x = Inr xs \<and> map unat xs = sorted_list_of_set (dbs_elems (\<lambda>_. \<lparr>kind = VectorB, mem = [5, 0, 128]\<rparr>) (uba_of_priv 0 0 3))"
  using ef_bit_sets [of "\<lambda>_. \<lparr>kind = VectorB, mem = [5, 0, 128]\<rparr>" "uba_of_priv 0 0 3" example_nl 1 2] example_nl_ok by (auto simp: example_simps)

section \<open>Where the index gives other ids\<close>

lemma ef_fill_data: "ef_fill n h x = Inr x' \<Longrightarrow> ef_d x' = ef_d x"
  by (induction n arbitrary: x) (auto simp: bindE_eq_Inr_iff)

lemma ef_at_data: "ef_at h x pos = Inr (v, x') \<Longrightarrow> ef_d x' = ef_d x"
  by (auto simp: ef_at_def bindE_eq_Inr_iff dest: ef_fill_data split: if_splits)

lemma shifted_differs:
  assumes "0 < k" "k < length xs" "length xs < 2 ^ 32"
  shows "take k xs @ map (\<lambda>v. v - of_nat k) (drop k xs) \<noteq> (xs :: u32 list)"
proof
  assume "take k xs @ map (\<lambda>v. v - of_nat k) (drop k xs) = xs"
  then have "(take k xs @ map (\<lambda>v. v - of_nat k) (drop k xs)) ! k = xs ! k" by simp
  then have "xs ! k - of_nat k = xs ! k" using assms(2) by (simp add: nth_append)
  then have "(of_nat k :: u32) = 0" by simp
  moreover have "unat (of_nat k :: u32) = k" by (rule unat_of_nat_small) (use assms in simp)
  ultimately show False using assms(1) by simp
qed

text \<open>C40: \<open>putInto\<close> copies the ids as long as nothing was read with \<open>at\<close>. After \<open>at(pos)\<close> the ids behind \<open>pos\<close> come out less \<open>pos + 1\<close>,
  in the array and in the bit set: the copy of \<open>m_it\<close> starts to count at 0.\<close>

theorem ef_partial_read:
  assumes "ef_inv h x xs" "ef_cache x = []" "unat pos < length xs" "owner h m" "m_priv m \<noteq> m_priv (ef_d x)"
  shows "ef_putInto_array h x = Inr xs \<and>
    (\<exists>x' h' m'. ef_at h x pos = Inr (xs ! unat pos, x') \<and>
      (let ys = take (Suc (unat pos)) xs @ map (\<lambda>v. v - of_nat (Suc (unat pos))) (drop (Suc (unat pos)) xs)
       in ef_putInto_array h x' = Inr ys \<and> (Suc (unat pos) < length xs \<longrightarrow> ys \<noteq> xs) \<and>
          ef_putInto_bits h x' m = Inr (h', m') \<and> dbs_elems h' m' = dbs_elems h m \<union> unat ` set ys))"
proof -
  let ?k = "Suc (unat pos)"
  from ef_at_spec [OF assms(1), of pos] assms(2,3) obtain x' where
    1: "ef_at h x pos = Inr (xs ! unat pos, x')" "ef_inv h x' xs" "length (ef_cache x') = ?k" by auto
  have c: "ef_cache x' = take ?k xs" using ef_cache_length [OF 1(2)] 1(3) by simp
  let ?ys = "take ?k xs @ map (\<lambda>v. v - of_nat ?k) (drop ?k xs)"
  have ys: "behind_cache x' xs = ?ys" using assms(3) unfolding behind_cache_def c by simp
  have len: "length xs < 2 ^ 32" using assms(1) by (simp add: ef_inv_def)
  have "m_priv m \<noteq> m_priv (ef_d x')" using assms(5) ef_at_data [OF 1(1)] by simp
  from ef_putInto_bits_spec [OF 1(2) assms(4) this] obtain h' m' where
    2: "ef_putInto_bits h x' m = Inr (h', m')" "dbs_elems h' m' = dbs_elems h m \<union> unat ` set ?ys" unfolding ys by blast
  have "ef_putInto_array h x = Inr xs" using ef_putInto_array_spec [OF assms(1)] assms(2) by (simp add: behind_cache_def)
  moreover have "ef_putInto_array h x' = Inr ?ys" using ef_putInto_array_spec [OF 1(2)] unfolding ys .
  ultimately show ?thesis unfolding Let_def using 1(1) 2 shifted_differs [OF _ _ len, of ?k] by blast
qed

theorem ef_partial_read_witness:
  "\<exists>h x x'. ef_inv h x [3, 5, 9] \<and> ef_putInto_array h x = Inr [3, 5, 9] \<and> ef_at h x 0 = Inr (3, x') \<and> ef_putInto_array h x' = Inr [3, 4, 8]"
proof -
  have "encodable [3, 5, 9]" by (simp add: encodable_def)
  from example_indices [OF this this] obtain h x where
    1: "ef_inv h x [3, 5, 9]" "m_priv (ef_d x) = 0" "ef_cache x = []" "owner h (uba_of_priv 3 0 0)" by blast
  have "m_priv (uba_of_priv 3 0 0) \<noteq> m_priv (ef_d x)" using 1(2) by (simp add: uba_of_priv_def)
  from ef_partial_read [OF 1(1,3) _ 1(4) this, of 0] have "ef_putInto_array h x = Inr [3, 5, 9]"
    "\<exists>x'. ef_at h x 0 = Inr (3, x') \<and> ef_putInto_array h x' = Inr [3, 4, 8]" by (auto simp: Let_def)
  then show ?thesis using 1(1) by blast
qed

text \<open>A creator on an adapter that holds an index already appends its index, but \<open>getPrivateIndex\<close> (and \<open>getIndex\<close>, in the same way) gives the
  index at the beginning: \<open>flushedData\<close> only sets the get pointer.\<close>

theorem ef_creator_offset:
  assumes "pushable h dest (32 + 5 * (length xs + length ys) + 2 ^ 30)" "m_putPtr dest = 0" "unat (m_len dest) < 2 ^ 58"
    and "encodable xs" "encodable ys" "nl_ok nl" "r1 \<noteq> m_priv dest" "r2 \<noteq> m_priv dest"
  shows "\<exists>h1 d1 h2 c x y. ef_create nl xs h r1 dest = Inr (h1, d1) \<and>
    efc_flush nl h1 r2 (foldl efc_push_back (efc_new_at d1) ys) = Inr (h2, c) \<and>
    efc_getPrivateIndex nl h2 c = Inr (h2, x) \<and> ef_inv h2 x xs \<and>
    ef_new nl h2 (uba_sub (efc_data c) (m_putPtr d1)) = Inr (h2, y) \<and> ef_inv h2 y ys"
proof -
  have m: "map ucast zs = zs" for zs :: "u32 list" by (simp add: map_idI)
  have "pushable h dest (16 + 5 * length xs + 2 ^ 29)" by (rule pushable_less [OF assms(1)]) simp
  moreover have "unat (m_len dest) < 2 ^ 59" using assms(3) by simp
  ultimately obtain h1 d1 bs where
    1: "ef_create nl xs h r1 dest = Inr (h1, d1)" "appended h dest bs h1 d1" "ef_bytes nl xs bs" "length bs \<le> 16 + 5 * length xs + 2 ^ 29"
    using ef_create_spec [of h dest xs nl r1, where 'a = 32, unfolded m] assms(4,6,7) by auto
  have "pushable h dest (length bs + (16 + 5 * length ys + 2 ^ 29))" by (rule pushable_less [OF assms(1)]) (use 1(4) in simp)
  from appended_pushable [OF this 1(2)] have p1: "pushable h1 d1 (16 + 5 * length ys + 2 ^ 29)" .
  have pr: "m_priv d1 = m_priv dest" using 1(2) by (simp add: appended_def)
  have "length xs < 2 ^ 32" using assms(4) by (simp add: encodable_def)
  then have l1: "unat (m_len d1) < 2 ^ 59" using length_appended [OF 1(2) assms(1)] 1(4) assms(2,3) by simp
  from ef_create_spec [OF p1 l1 assms(5,6), of r2, where 'a = 32, unfolded m] assms(8) pr obtain h2 d2 cs where
    2: "ef_create nl ys h1 r2 d1 = Inr (h2, d2)" "appended h1 d1 cs h2 d2" "ef_bytes nl ys cs" by auto
  obtain rest where 3: "uba_inv h2 (uba_sub d2 (m_putPtr d1))" "view h2 (uba_sub d2 (m_putPtr d1)) = cs @ rest"
    using open_appended [OF p1 2(2)] by blast
  have b: "view h1 d1 = bs @ drop (length bs) (view h dest)" "unat (m_putPtr d1) = length bs" using 1(2) assms(2) by (simp_all add: appended_def blit_def)
  let ?u = "uba_setGetPtr d2 (m_putPtr d1)"
  have u: "uba_inv h2 ?u" "view h2 ?u = bs @ (cs @ drop (length bs + length cs) (view h1 d1))"
    using 2(2) b by (auto simp: appended_def uba_setGetPtr_def blit_def)
  from ef_open_spec [OF u 1(3) assms(6)] ef_open_spec [OF 3 2(3) assms(6)] obtain x y where
    4: "ef_new nl h2 ?u = Inr (h2, x)" "ef_inv h2 x xs" "ef_new nl h2 (uba_sub d2 (m_putPtr d1)) = Inr (h2, y)" "ef_inv h2 y ys" by blast
  have push: "foldl efc_push_back c zs = pushed c zs" for c zs by (induction zs arbitrary: c) simp_all
  have "m_putPtr d1 \<le> m_len d1" using p1 by (simp add: pushable_def)
  then have sp: "uba_setPutPtr d1 (m_putPtr d1) = d1" by (cases d1) (auto simp: uba_setPutPtr_def)
  let ?c = "(efc_new_at d1)\<lparr>efc_values := ys, efc_data := d2\<rparr>"
  have "efc_flush nl h1 r2 (foldl efc_push_back (efc_new_at d1) ys) = Inr (h2, ?c)"
    unfolding push using 2(1) sp by (simp add: efc_flush_def efc_new_at_def pushed_def)
  moreover have "efc_getPrivateIndex nl h2 ?c = Inr (h2, x)" using 4(1) by (simp add: efc_getPrivateIndex_def efc_flushedData_def efc_new_at_def)
  ultimately show ?thesis using 1(1) 4 by (intro exI conjI) (assumption | simp)+
qed

theorem ef_creator_offset_witness:
  "\<exists>h1 d1 h2 c x. ef_create example_nl [3, 5 :: u32] (\<lambda>_. \<lparr>kind = VectorB, mem = []\<rparr>) 1 (uba_of_priv 0 0 0) = Inr (h1, d1) \<and>
    efc_flush example_nl h1 2 (foldl efc_push_back (efc_new_at d1) [7, 9]) = Inr (h2, c) \<and>
    efc_getPrivateIndex example_nl h2 c = Inr (h2, x) \<and> ef_inv h2 x [3, 5]"
proof -
  have "pushable (\<lambda>_. \<lparr>kind = VectorB, mem = []\<rparr>) (uba_of_priv 0 0 0) (32 + 5 * (length [3, 5 :: u32] + length [7, 9 :: u32]) + 2 ^ 30)"
    by (simp add: pushable_def example_simps)
  moreover have "encodable [3, 5]" "encodable [7, 9]" by (simp_all add: encodable_def)
  ultimately show ?thesis using ef_creator_offset [of "\<lambda>_. \<lparr>kind = VectorB, mem = []\<rparr>" "uba_of_priv 0 0 0" "[3, 5]" "[7, 9]" example_nl 1 2]
      example_nl_ok by (fastforce simp: uba_of_priv_def)
qed

end
