(* ===== verification/MRSWLock.thy ===== *)
theory MRSWLock
  imports Prelude
begin

text \<open>
  \<open>MultiReaderSingleWriterLock\<close> (\<open>src/mt/MultiReaderSingleWriterLock.cpp\<close>): the four
  operations of the lock on its \<open>std::shared_mutex\<close>, and the guards \<open>ReadLock\<close> and \<open>WriteLock\<close>, whose member
  \<open>m_locked\<close> makes \<open>lock\<close> and \<open>unlock\<close> idempotent. Guards and threads are numbered; a step of the system is one call
  on one guard by one thread, so all interleavings of the calls are runs of the system.
\<close>

section \<open>The mutex of the standard library\<close>

text \<open>
  \<open>std::shared_mutex\<close>: a set of threads that own it shared, or one thread that owns it exclusively. A call returns, blocks
  (it may return later, when the state has changed) or is undefined behaviour: as the standard says, locking in either mode by a
  thread that owns the mutex in any mode, and unlocking by a thread that does not own it in that mode.
\<close>

type_synonym thread = nat

record shared_mutex =
  shared_owners :: "thread set"
  exclusive :: "thread option"

datatype 'a call = Returns 'a | Blocks | Undefined

definition owns :: "shared_mutex \<Rightarrow> thread \<Rightarrow> bool" where
  "owns m t \<longleftrightarrow> exclusive m = Some t \<or> t \<in> shared_owners m"

definition lock_shared :: "thread \<Rightarrow> shared_mutex \<Rightarrow> shared_mutex call" where
  "lock_shared t m =
     (if owns m t then Undefined
      else if exclusive m \<noteq> None then Blocks
      else Returns (m\<lparr>shared_owners := insert t (shared_owners m)\<rparr>))"

definition unlock_shared :: "thread \<Rightarrow> shared_mutex \<Rightarrow> shared_mutex call" where
  "unlock_shared t m =
     (if t \<notin> shared_owners m then Undefined else Returns (m\<lparr>shared_owners := shared_owners m - {t}\<rparr>))"

definition lock_exclusive :: "thread \<Rightarrow> shared_mutex \<Rightarrow> shared_mutex call" where
  "lock_exclusive t m =
     (if owns m t then Undefined
      else if exclusive m \<noteq> None \<or> shared_owners m \<noteq> {} then Blocks
      else Returns (m\<lparr>exclusive := Some t\<rparr>))"

definition unlock_exclusive :: "thread \<Rightarrow> shared_mutex \<Rightarrow> shared_mutex call" where
  "unlock_exclusive t m =
     (if exclusive m \<noteq> Some t then Undefined else Returns (m\<lparr>exclusive := None\<rparr>))"

section \<open>The lock and its guards\<close>

definition acquireReadLock :: "thread \<Rightarrow> shared_mutex \<Rightarrow> shared_mutex call" where
  "acquireReadLock = lock_shared"

definition releaseReadLock :: "thread \<Rightarrow> shared_mutex \<Rightarrow> shared_mutex call" where
  "releaseReadLock = unlock_shared"

definition acquireWriteLock :: "thread \<Rightarrow> shared_mutex \<Rightarrow> shared_mutex call" where
  "acquireWriteLock = lock_exclusive"

definition releaseWriteLock :: "thread \<Rightarrow> shared_mutex \<Rightarrow> shared_mutex call" where
  "releaseWriteLock = unlock_exclusive"

datatype guard_kind = ReadG | WriteG

record guard =
  g_kind :: guard_kind
  m_locked :: bool

fun on_return :: "'a call \<Rightarrow> ('a \<Rightarrow> 'b) \<Rightarrow> 'b call" where
  "on_return (Returns x) f = Returns (f x)"
| "on_return Blocks f = Blocks"
| "on_return Undefined f = Undefined"

definition ReadLock_lock :: "thread \<Rightarrow> shared_mutex \<Rightarrow> guard \<Rightarrow> (shared_mutex \<times> guard) call" where
  "ReadLock_lock t m g = (if \<not> m_locked g then on_return (acquireReadLock t m) (\<lambda>m. (m, g\<lparr>m_locked := True\<rparr>)) else Returns (m, g))"

definition ReadLock_unlock :: "thread \<Rightarrow> shared_mutex \<Rightarrow> guard \<Rightarrow> (shared_mutex \<times> guard) call" where
  "ReadLock_unlock t m g = (if m_locked g then on_return (releaseReadLock t m) (\<lambda>m. (m, g\<lparr>m_locked := False\<rparr>)) else Returns (m, g))"

definition WriteLock_lock :: "thread \<Rightarrow> shared_mutex \<Rightarrow> guard \<Rightarrow> (shared_mutex \<times> guard) call" where
  "WriteLock_lock t m g = (if \<not> m_locked g then on_return (acquireWriteLock t m) (\<lambda>m. (m, g\<lparr>m_locked := True\<rparr>)) else Returns (m, g))"

definition WriteLock_unlock :: "thread \<Rightarrow> shared_mutex \<Rightarrow> guard \<Rightarrow> (shared_mutex \<times> guard) call" where
  "WriteLock_unlock t m g = (if m_locked g then on_return (releaseWriteLock t m) (\<lambda>m. (m, g\<lparr>m_locked := False\<rparr>)) else Returns (m, g))"

definition guard_lock :: "thread \<Rightarrow> shared_mutex \<Rightarrow> guard \<Rightarrow> (shared_mutex \<times> guard) call" where
  "guard_lock t m g = (case g_kind g of ReadG \<Rightarrow> ReadLock_lock t m g | WriteG \<Rightarrow> WriteLock_lock t m g)"

definition guard_unlock :: "thread \<Rightarrow> shared_mutex \<Rightarrow> guard \<Rightarrow> (shared_mutex \<times> guard) call" where
  "guard_unlock t m g = (case g_kind g of ReadG \<Rightarrow> ReadLock_unlock t m g | WriteG \<Rightarrow> WriteLock_unlock t m g)"

text \<open>The constructors start with \<open>m_locked(false)\<close> and lock.\<close>

definition ReadLock_new :: "thread \<Rightarrow> shared_mutex \<Rightarrow> (shared_mutex \<times> guard) call" where
  "ReadLock_new t m = ReadLock_lock t m \<lparr>g_kind = ReadG, m_locked = False\<rparr>"

definition WriteLock_new :: "thread \<Rightarrow> shared_mutex \<Rightarrow> (shared_mutex \<times> guard) call" where
  "WriteLock_new t m = WriteLock_lock t m \<lparr>g_kind = WriteG, m_locked = False\<rparr>"

definition guard_new :: "thread \<Rightarrow> shared_mutex \<Rightarrow> guard_kind \<Rightarrow> (shared_mutex \<times> guard) call" where
  "guard_new t m k = (case k of ReadG \<Rightarrow> ReadLock_new t m | WriteG \<Rightarrow> WriteLock_new t m)"

section \<open>The system\<close>

record lock_sys =
  m_mutex :: shared_mutex
  guards :: "nat \<rightharpoonup> guard"

definition mrsw_new :: lock_sys where
  "mrsw_new = \<lparr>m_mutex = \<lparr>shared_owners = {}, exclusive = None\<rparr>, guards = (\<lambda>_. None)\<rparr>"

datatype action = Construct guard_kind | Lock | Unlock | Destroy

text \<open>One call on guard \<open>i\<close> by thread \<open>t\<close>; calls on a guard that does not exist are not made.\<close>

definition perform :: "lock_sys \<Rightarrow> thread \<Rightarrow> nat \<Rightarrow> action \<Rightarrow> lock_sys call" where
  "perform s t i a =
     (case (a, guards s i) of
        (Construct k, None) \<Rightarrow> on_return (guard_new t (m_mutex s) k) (\<lambda>(m, g). \<lparr>m_mutex = m, guards = (guards s)(i \<mapsto> g)\<rparr>)
      | (Lock, Some g) \<Rightarrow> on_return (guard_lock t (m_mutex s) g) (\<lambda>(m, g). \<lparr>m_mutex = m, guards = (guards s)(i \<mapsto> g)\<rparr>)
      | (Unlock, Some g) \<Rightarrow> on_return (guard_unlock t (m_mutex s) g) (\<lambda>(m, g). \<lparr>m_mutex = m, guards = (guards s)(i \<mapsto> g)\<rparr>)
      | (Destroy, Some g) \<Rightarrow> on_return (guard_unlock t (m_mutex s) g) (\<lambda>(m, g). \<lparr>m_mutex = m, guards = (guards s)(i := None)\<rparr>)
      | _ \<Rightarrow> Returns s)"

inductive lock_step :: "lock_sys \<Rightarrow> lock_sys \<Rightarrow> bool" where
  call: "perform s t i a = Returns s' \<Longrightarrow> lock_step s s'"

inductive lock_reachable :: "lock_sys \<Rightarrow> bool" where
  start: "lock_reachable mrsw_new"
| step: "lock_reachable s \<Longrightarrow> lock_step s s' \<Longrightarrow> lock_reachable s'"

inductive_cases lock_stepE: "lock_step s s'"

text \<open>The states that are reached when each guard is used by one thread only, guard \<open>i\<close> by the thread \<open>thr i\<close>.\<close>

inductive lock_reachable_by :: "(nat \<Rightarrow> thread) \<Rightarrow> lock_sys \<Rightarrow> bool" for thr where
  start_by: "lock_reachable_by thr mrsw_new"
| step_by: "lock_reachable_by thr s \<Longrightarrow> perform s (thr i) i a = Returns s' \<Longrightarrow> lock_reachable_by thr s'"

lemma lock_reachable_by_reachable: "lock_reachable_by thr s \<Longrightarrow> lock_reachable s"
  by (induction rule: lock_reachable_by.induct) (auto intro: lock_reachable.intros lock_step.intros)

section \<open>The invariants\<close>

definition holders :: "guard_kind \<Rightarrow> lock_sys \<Rightarrow> nat set" where
  "holders k s = {i. \<exists>g. guards s i = Some g \<and> g_kind g = k \<and> m_locked g}"

text \<open>
  For arbitrary threads the mutex has as many shared owners as there are locked read guards. When each guard belongs to a thread, its
  owners are the threads of the locked guards, and no thread has locked two.
\<close>

definition mrsw_inv :: "lock_sys \<Rightarrow> bool" where
  "mrsw_inv s \<longleftrightarrow> finite (dom (guards s)) \<and> finite (shared_owners (m_mutex s)) \<and>
     card (shared_owners (m_mutex s)) = card (holders ReadG s) \<and>
     (if exclusive (m_mutex s) \<noteq> None then card (holders WriteG s) = 1 \<and> shared_owners (m_mutex s) = {}
      else holders WriteG s = {})"

definition thr_inv :: "(nat \<Rightarrow> thread) \<Rightarrow> lock_sys \<Rightarrow> bool" where
  "thr_inv thr s \<longleftrightarrow> shared_owners (m_mutex s) = thr ` holders ReadG s \<and>
     set_option (exclusive (m_mutex s)) = thr ` holders WriteG s \<and>
     inj_on thr (holders ReadG s \<union> holders WriteG s)"

lemma holders_finite: "mrsw_inv s \<Longrightarrow> finite (holders k s)"
  by (rule finite_subset [of _ "dom (guards s)"]) (auto simp: holders_def mrsw_inv_def)

text \<open>The holders when the guard \<open>i\<close> is replaced.\<close>

lemma holders_upd:
  "holders k \<lparr>m_mutex = m, guards = (guards s)(i := x)\<rparr> =
    (if \<exists>g. x = Some g \<and> g_kind g = k \<and> m_locked g then insert i (holders k s) else holders k s - {i})"
  by (auto simp: holders_def)

lemma holder_iff: "guards s i = Some g \<Longrightarrow> i \<in> holders k s \<longleftrightarrow> g_kind g = k \<and> m_locked g" "guards s i = None \<Longrightarrow> i \<notin> holders k s"
  by (auto simp: holders_def)

lemma holders_others: "guards s i = Some g \<Longrightarrow> g_kind g \<noteq> k \<Longrightarrow> holders k s - {i} = holders k s"
  "guards s i = None \<Longrightarrow> holders k s - {i} = holders k s"
  "guards s i = Some g \<Longrightarrow> \<not> m_locked g \<Longrightarrow> holders k s - {i} = holders k s"
  by (auto simp: holders_def)

lemma holders_disjoint: "holders ReadG s \<inter> holders WriteG s = {}"
  by (auto simp: holders_def)

lemma on_return_iff: "on_return c f = Returns y \<longleftrightarrow> (\<exists>x. c = Returns x \<and> y = f x)"
  by (cases c) auto

lemmas lock_defs = acquireReadLock_def releaseReadLock_def acquireWriteLock_def releaseWriteLock_def
  owns_def lock_shared_def unlock_shared_def lock_exclusive_def unlock_exclusive_def
  ReadLock_lock_def ReadLock_unlock_def WriteLock_lock_def WriteLock_unlock_def
  guard_lock_def guard_unlock_def guard_new_def ReadLock_new_def WriteLock_new_def

text \<open>What becomes of the mutex and the guard when a call returns.\<close>

lemma guard_lock_cases:
  "guard_lock t m g = Returns (m', g') \<Longrightarrow>
    g' = g\<lparr>m_locked := True\<rparr> \<and>
    (if m_locked g then m' = m
     else exclusive m = None \<and> t \<notin> shared_owners m \<and>
       (case g_kind g of ReadG \<Rightarrow> m' = m\<lparr>shared_owners := insert t (shared_owners m)\<rparr>
        | WriteG \<Rightarrow> shared_owners m = {} \<and> m' = m\<lparr>exclusive := Some t\<rparr>))"
  by (cases "g_kind g") (auto simp: lock_defs split: if_splits)

lemma guard_unlock_cases:
  "guard_unlock t m g = Returns (m', g') \<Longrightarrow>
    g' = g\<lparr>m_locked := False\<rparr> \<and>
    (if \<not> m_locked g then m' = m
     else (case g_kind g of ReadG \<Rightarrow> t \<in> shared_owners m \<and> m' = m\<lparr>shared_owners := shared_owners m - {t}\<rparr>
        | WriteG \<Rightarrow> exclusive m = Some t \<and> m' = m\<lparr>exclusive := None\<rparr>))"
  by (cases "g_kind g") (auto simp: lock_defs split: if_splits)

lemma guard_new_lock: "guard_new t m k = guard_lock t m \<lparr>g_kind = k, m_locked = False\<rparr>"
  by (cases k) (simp_all add: lock_defs)

lemma inv_lock:
  assumes inv: "mrsw_inv s" and g: "guards s i = Some g \<or> guards s i = None \<and> \<not> m_locked g"
    and r: "guard_lock t (m_mutex s) g = Returns (m', g')"
  shows "mrsw_inv \<lparr>m_mutex = m', guards = (guards s)(i \<mapsto> g')\<rparr>"
proof -
  note c = guard_lock_cases [OF r]
  have fin: "finite (dom ((guards s)(i \<mapsto> g')))" using inv by (simp add: mrsw_inv_def)
  show ?thesis
  proof (cases "m_locked g")
    case True
    then have "g' = g" "m' = m_mutex s" using c by auto
    moreover have "holders k \<lparr>m_mutex = m_mutex s, guards = (guards s)(i \<mapsto> g)\<rparr> = holders k s" for k
      using g True by (auto simp: holders_def)
    ultimately show ?thesis using inv fin by (auto simp: mrsw_inv_def split: if_splits)
  next
    case False
    then have n: "i \<notin> holders k s" for k using g by (auto simp: holders_def)
    then have d: "holders k s - {i} = holders k s" for k by blast
    show ?thesis
      using c False inv fin n holders_finite [OF inv]
      by (cases "g_kind g") (auto simp: mrsw_inv_def holders_upd d)
  qed
qed

lemma inv_unlock:
  assumes inv: "mrsw_inv s" and g: "guards s i = Some g" and r: "guard_unlock t (m_mutex s) g = Returns (m', g')"
    and x: "x = Some g' \<or> x = None"
  shows "mrsw_inv \<lparr>m_mutex = m', guards = (guards s)(i := x)\<rparr>"
proof -
  note c = guard_unlock_cases [OF r]
  have fin: "finite (dom ((guards s)(i := x)))" using inv x by (auto simp: mrsw_inv_def)
  have h: "holders k \<lparr>m_mutex = m, guards = (guards s)(i := x)\<rparr> = holders k s - {i}" for k m
    using c x by (auto simp: holders_upd)
  show ?thesis
  proof (cases "m_locked g")
    case False
    then show ?thesis using c inv fin h holders_others(3) [OF g] by (auto simp: mrsw_inv_def split: if_splits)
  next
    case True
    then have i: "i \<in> holders (g_kind g) s" using g by (simp add: holder_iff)
    show ?thesis
    proof (cases "g_kind g")
      case ReadG
      then show ?thesis
        using c True inv fin i holders_finite [OF inv, of ReadG] holders_others(1) [OF g, of WriteG]
        unfolding mrsw_inv_def h lock_sys.simps by (auto simp: card_Diff_singleton split: if_splits)
    next
      case WriteG
      then have "holders WriteG s = {i}" using c True inv i by (auto simp: mrsw_inv_def card_1_singleton_iff)
      then show ?thesis
        using c True inv fin WriteG holders_others(1) [OF g, of ReadG] unfolding mrsw_inv_def h lock_sys.simps by auto
    qed
  qed
qed

lemma inv_perform:
  assumes inv: "mrsw_inv s" and p: "perform s t i a = Returns s'"
  shows "mrsw_inv s'"
proof (cases a)
  case (Construct k)
  then show ?thesis using p inv inv_lock [OF inv, of i "\<lparr>g_kind = k, m_locked = False\<rparr>"]
    by (auto simp: perform_def guard_new_lock on_return_iff split: option.splits)
next
  case Lock
  then show ?thesis using p inv inv_lock [OF inv, of i] by (auto simp: perform_def on_return_iff split: option.splits)
next
  case Unlock
  then show ?thesis using p inv inv_unlock [OF inv, of i] by (auto simp: perform_def on_return_iff split: option.splits)
next
  case Destroy
  then show ?thesis using p inv inv_unlock [OF inv, of i] by (auto simp: perform_def on_return_iff split: option.splits)
qed

lemma reachable_inv: "lock_reachable s \<Longrightarrow> mrsw_inv s"
proof (induction rule: lock_reachable.induct)
  case start
  show ?case by (simp add: mrsw_inv_def mrsw_new_def holders_def)
next
  case (step s s')
  then show ?case by (auto elim!: lock_stepE intro: inv_perform)
qed

text \<open>The threads of the locked guards, when each guard belongs to a thread.\<close>

lemma owns_iff: "thr_inv thr s \<Longrightarrow> owns (m_mutex s) t \<longleftrightarrow> (\<exists>j \<in> holders ReadG s \<union> holders WriteG s. thr j = t)"
proof -
  assume inv: "thr_inv thr s"
  have "exclusive (m_mutex s) = Some t \<longleftrightarrow> t \<in> set_option (exclusive (m_mutex s))" by simp
  also have "\<dots> \<longleftrightarrow> t \<in> thr ` holders WriteG s" using inv by (simp only: thr_inv_def)
  finally have "owns (m_mutex s) t \<longleftrightarrow> t \<in> thr ` holders WriteG s \<or> t \<in> thr ` holders ReadG s"
    using inv by (simp only: owns_def thr_inv_def)
  then show ?thesis by blast
qed

lemma thr_lock:
  assumes inv: "thr_inv thr s" and g: "guards s i = Some g \<or> guards s i = None \<and> \<not> m_locked g"
    and r: "guard_lock (thr i) (m_mutex s) g = Returns (m', g')"
  shows "thr_inv thr \<lparr>m_mutex = m', guards = (guards s)(i \<mapsto> g')\<rparr>"
proof (cases "m_locked g")
  case True
  then have "g' = g" "m' = m_mutex s" using guard_lock_cases [OF r] by auto
  moreover have "holders k \<lparr>m_mutex = m_mutex s, guards = (guards s)(i \<mapsto> g)\<rparr> = holders k s" for k
    using g True by (auto simp: holders_def)
  ultimately show ?thesis using inv by (simp add: thr_inv_def)
next
  case False
  note c = guard_lock_cases [OF r]
  have n: "i \<notin> holders k s" for k using g False by (auto simp: holders_def)
  then have d: "holders k s - {i} = holders k s" for k by blast
  have w: "holders WriteG s = {}" using inv c False by (auto simp: thr_inv_def)
  have "thr i \<notin> thr ` holders ReadG s" using inv c False by (auto simp: thr_inv_def)
  then have "inj_on thr (insert i (holders ReadG s))" using inv n by (simp add: thr_inv_def w inj_on_insert d)
  then show ?thesis
    using c False inv w by (cases "g_kind g") (auto simp: thr_inv_def holders_upd d)
qed

lemma thr_unlock:
  assumes inv: "thr_inv thr s" and g: "guards s i = Some g"
    and r: "guard_unlock (thr i) (m_mutex s) g = Returns (m', g')" and x: "x = Some g' \<or> x = None"
  shows "thr_inv thr \<lparr>m_mutex = m', guards = (guards s)(i := x)\<rparr>"
proof -
  note c = guard_unlock_cases [OF r]
  have h: "holders k \<lparr>m_mutex = m, guards = (guards s)(i := x)\<rparr> = holders k s - {i}" for k m
    using c x by (auto simp: holders_upd)
  have inj: "inj_on thr (holders ReadG s \<union> holders WriteG s)" using inv by (simp add: thr_inv_def)
  then have inj': "inj_on thr (holders ReadG s - {i} \<union> (holders WriteG s - {i}))" by (rule inj_on_subset) blast
  note o = inv [unfolded thr_inv_def]
  show ?thesis
  proof (cases "m_locked g")
    case False
    then show ?thesis using c o inj holders_others(3) [OF g] by (simp add: thr_inv_def h)
  next
    case True
    then have i: "i \<in> holders (g_kind g) s" using g by (simp add: holder_iff)
    then have "holders (g_kind g) s - {i} \<subseteq> holders ReadG s \<union> holders WriteG s" "{i} \<subseteq> holders ReadG s \<union> holders WriteG s"
      by (cases "g_kind g"; auto)+
    then have "thr ` (holders (g_kind g) s - {i}) = thr ` holders (g_kind g) s - thr ` {i}"
      using inj_on_image_set_diff [OF inj] by blast
    then have d: "thr ` (holders (g_kind g) s - {i}) = thr ` holders (g_kind g) s - {thr i}" by simp
    show ?thesis
    proof (cases "g_kind g")
      case ReadG
      then have "holders WriteG s - {i} = holders WriteG s" by (intro holders_others(1) [OF g]) simp
      then show ?thesis using c True ReadG o d inj' by (simp add: thr_inv_def h)
    next
      case WriteG
      then have r: "holders ReadG s - {i} = holders ReadG s" by (intro holders_others(1) [OF g]) simp
      have e: "exclusive (m_mutex s) = Some (thr i)" "m' = (m_mutex s)\<lparr>exclusive := None\<rparr>" using c True WriteG by simp_all
      then have "thr ` holders WriteG s = {thr i}" using o by simp
      then have "thr ` (holders WriteG s - {i}) = {}" using d WriteG by simp
      then show ?thesis using r e(2) o inj' unfolding thr_inv_def h by simp
    qed
  qed
qed

lemma thr_perform:
  assumes inv: "thr_inv thr s" and p: "perform s (thr i) i a = Returns s'"
  shows "thr_inv thr s'"
proof (cases a)
  case (Construct k)
  then show ?thesis using p inv thr_lock [OF inv, of i "\<lparr>g_kind = k, m_locked = False\<rparr>"]
    by (auto simp: perform_def guard_new_lock on_return_iff split: option.splits)
next
  case Lock
  then show ?thesis using p inv thr_lock [OF inv, of i] by (auto simp: perform_def on_return_iff split: option.splits)
next
  case Unlock
  then show ?thesis using p inv thr_unlock [OF inv, of i] by (auto simp: perform_def on_return_iff split: option.splits)
next
  case Destroy
  then show ?thesis using p inv thr_unlock [OF inv, of i] by (auto simp: perform_def on_return_iff split: option.splits)
qed

lemma reachable_thr_inv: "lock_reachable_by thr s \<Longrightarrow> thr_inv thr s"
proof (induction rule: lock_reachable_by.induct)
  case start_by
  show ?case by (simp add: thr_inv_def mrsw_new_def holders_def)
next
  case (step_by s i a s')
  from step_by.IH step_by.hyps(2) show ?case by (rule thr_perform)
qed

section \<open>Progress\<close>

text \<open>Unlocking a guard by its thread returns in every reachable state.\<close>

lemma unlock_returns:
  assumes "thr_inv thr s" "guards s i = Some g"
  shows "\<exists>m'. guard_unlock (thr i) (m_mutex s) g = Returns (m', g\<lparr>m_locked := False\<rparr>)"
proof (cases "m_locked g")
  case True
  then have i: "i \<in> holders (g_kind g) s" using assms(2) by (simp add: holder_iff)
  then have t: "thr i \<in> thr ` holders (g_kind g) s" by (rule imageI)
  show ?thesis
  proof (cases "g_kind g")
    case ReadG
    then show ?thesis using t assms(1) True by (auto simp: lock_defs thr_inv_def)
  next
    case WriteG
    then have "thr i \<in> set_option (exclusive (m_mutex s))" using t assms(1) by (simp add: thr_inv_def)
    then show ?thesis using True WriteG by (simp add: lock_defs)
  qed
qed (cases "g_kind g"; auto simp: lock_defs)

fun unlock_all :: "(nat \<Rightarrow> thread) \<Rightarrow> lock_sys \<Rightarrow> nat list \<Rightarrow> lock_sys call" where
  "unlock_all thr s [] = Returns s"
| "unlock_all thr s (i # is) =
     (case perform s (thr i) i Unlock of Returns s' \<Rightarrow> unlock_all thr s' is | Blocks \<Rightarrow> Blocks | Undefined \<Rightarrow> Undefined)"

lemma unlock_step:
  assumes "thr_inv thr s"
  obtains s' where "perform s (thr i) i Unlock = Returns s'" "thr_inv thr s'" "\<forall>k. holders k s' = holders k s - {i}"
proof (cases "guards s i")
  case None
  then show ?thesis using that [of s] assms holders_others(2) [OF None] by (auto simp: perform_def)
next
  case (Some g)
  from unlock_returns [OF assms Some] obtain m' where
    r: "guard_unlock (thr i) (m_mutex s) g = Returns (m', g\<lparr>m_locked := False\<rparr>)" by blast
  let ?s = "\<lparr>m_mutex = m', guards = (guards s)(i \<mapsto> g\<lparr>m_locked := False\<rparr>)\<rparr>"
  have p: "perform s (thr i) i Unlock = Returns ?s" using Some r by (simp add: perform_def)
  show ?thesis by (rule that [OF p thr_perform [OF assms p]]) (use Some in \<open>auto simp: holders_upd\<close>)
qed

lemma unlock_all_spec:
  "thr_inv thr s \<Longrightarrow> \<exists>s'. unlock_all thr s is = Returns s' \<and> thr_inv thr s' \<and> (\<forall>k. holders k s' = holders k s - set is)"
proof (induction "is" arbitrary: s)
  case (Cons i "is")
  from Cons.prems obtain s' where
    t: "perform s (thr i) i Unlock = Returns s'" "thr_inv thr s'" "\<forall>k. holders k s' = holders k s - {i}"
    by (rule unlock_step [where i = i])
  from Cons.IH [OF t(2)] obtain u where
    "unlock_all thr s' is = Returns u" "thr_inv thr u" "\<forall>k. holders k u = holders k s' - set is"
    by blast
  then show ?case using t by auto
qed simp

section \<open>Properties\<close>

text \<open>The calls that lock the mutex.\<close>

definition acquires :: "lock_sys \<Rightarrow> nat \<Rightarrow> action \<Rightarrow> bool" where
  "acquires s i a = (case (a, guards s i) of (Construct k, None) \<Rightarrow> True | (Lock, Some g) \<Rightarrow> \<not> m_locked g | _ \<Rightarrow> False)"

lemma on_return_undefined: "on_return c f = Undefined \<longleftrightarrow> c = Undefined"
  by (cases c) auto

lemma guard_lock_undefined: "guard_lock t m g = Undefined \<longleftrightarrow> \<not> m_locked g \<and> owns m t"
  by (cases "g_kind g") (auto simp: lock_defs)

lemma perform_undefined:
  assumes "thr_inv thr s"
  shows "perform s (thr i) i a = Undefined \<longleftrightarrow> acquires s i a \<and> owns (m_mutex s) (thr i)"
proof -
  have "guard_unlock (thr i) (m_mutex s) g \<noteq> Undefined" if "guards s i = Some g" for g
    using unlock_returns [OF assms that] by auto
  then show ?thesis
    by (cases a; cases "guards s i")
      (auto simp: perform_def acquires_def guard_new_lock on_return_undefined guard_lock_undefined)
qed

text \<open>C18: Whatever the interleaving of the calls and whichever threads make them, two write guards never hold the lock
  together, nor do a write and a read guard. When each guard is used by one thread only, a call is undefined behaviour exactly when
  it locks the mutex for a thread that already holds the lock by another guard, for reading or for writing.\<close>

theorem lock_mutual_exclusion:
  shows "(lock_reachable s \<and> j \<in> holders WriteG s \<longrightarrow> holders WriteG s = {j} \<and> holders ReadG s = {}) \<and>
    (lock_reachable_by thr s \<longrightarrow>
      (perform s (thr i) i a = Undefined \<longleftrightarrow>
        acquires s i a \<and> (\<exists>k \<in> holders ReadG s \<union> holders WriteG s. thr k = thr i)))"
proof (intro conjI impI)
  assume r: "lock_reachable s \<and> j \<in> holders WriteG s"
  then have inv: "mrsw_inv s" by (intro reachable_inv) simp
  show "holders WriteG s = {j}" "holders ReadG s = {}"
    using r inv holders_finite [OF inv, of ReadG] by (auto simp: mrsw_inv_def card_1_singleton_iff split: if_splits)
next
  assume "lock_reachable_by thr s"
  then have inv: "thr_inv thr s" by (rule reachable_thr_inv)
  show "perform s (thr i) i a = Undefined \<longleftrightarrow>
      acquires s i a \<and> (\<exists>k \<in> holders ReadG s \<union> holders WriteG s. thr k = thr i)"
    using perform_undefined [OF inv] owns_iff [OF inv] by simp
qed

text \<open>C19: No deadlock by the lock itself: in every reachable state unlocking a guard by its thread returns, and once the holders
  have unlocked, in any order, every call of any thread on any guard, of a reader or a writer, that blocks now returns.\<close>

theorem lock_progress:
  assumes "lock_reachable_by thr s" "holders ReadG s \<union> holders WriteG s \<subseteq> set is"
  shows "\<exists>s'. unlock_all thr s is = Returns s' \<and> (\<forall>t i a. \<exists>u. perform s' t i a = Returns u)"
proof -
  have "thr_inv thr s" by (rule reachable_thr_inv [OF assms(1)])
  from unlock_all_spec [OF this] obtain s' where
    t: "unlock_all thr s is = Returns s'" "thr_inv thr s'" "\<forall>k. holders k s' = holders k s - set is" by blast
  have h: "holders ReadG s' = {}" "holders WriteG s' = {}" using t(3) assms(2) by auto
  then have m: "exclusive (m_mutex s') = None" "shared_owners (m_mutex s') = {}" using t(2) by (auto simp: thr_inv_def)
  have "\<exists>r. guard_lock t (m_mutex s') g = Returns r" for t g using m by (cases "g_kind g") (auto simp: lock_defs)
  then have l: "\<exists>u. on_return (guard_lock t (m_mutex s') g) f = Returns u" for t g and f :: "_ \<Rightarrow> lock_sys"
    by (metis on_return.simps(1))
  have "\<not> m_locked g" if "guards s' i = Some g" for i g
    using that h by (cases "g_kind g") (auto simp: holders_def)
  then have "\<exists>u. on_return (guard_unlock t (m_mutex s') g) f = Returns u" if "guards s' i = Some g" for t i g and f :: "_ \<Rightarrow> lock_sys"
    using that by (cases "g_kind g") (auto simp: lock_defs)
  then have "\<exists>u. perform s' t i a = Returns u" for t i a
    using l by (auto simp: perform_def guard_new_lock split: action.splits option.splits)
  then show ?thesis using t(1) by blast
qed

text \<open>Readers are preferred: while a reader holds the lock the writer of another thread blocks and every further reader enters, so two
  readers that overlap in turn keep a writer out for ever.\<close>

theorem readers_starve_writers:
  assumes "lock_reachable_by thr s" "r \<in> holders ReadG s" "guards s w = None" "guards s q = None" "q \<noteq> r"
    and "\<forall>k \<in> holders ReadG s. thr k \<noteq> thr w \<and> thr k \<noteq> thr q"
  shows "perform s (thr w) w (Construct WriteG) = Blocks \<and>
    (\<exists>t u. perform s (thr q) q (Construct ReadG) = Returns t \<and> perform t (thr r) r Destroy = Returns u \<and>
      holders ReadG u = insert q (holders ReadG s - {r}) \<and> lock_reachable_by thr u)"
proof
  have inv: "thr_inv thr s" and g: "mrsw_inv s"
    using assms(1) reachable_thr_inv reachable_inv lock_reachable_by_reachable by blast+
  have m: "thr r \<in> shared_owners (m_mutex s)" "thr w \<notin> shared_owners (m_mutex s)" "thr q \<notin> shared_owners (m_mutex s)"
    using inv assms(2,6) by (auto simp: thr_inv_def)
  have e: "exclusive (m_mutex s) = None" using g m(1) by (auto simp: mrsw_inv_def split: if_splits)
  show "perform s (thr w) w (Construct WriteG) = Blocks"
    using assms(3) m e by (auto simp: perform_def guard_new_lock lock_defs)
  let ?m = "(m_mutex s)\<lparr>shared_owners := insert (thr q) (shared_owners (m_mutex s))\<rparr>"
  let ?t = "\<lparr>m_mutex = ?m, guards = (guards s)(q \<mapsto> \<lparr>g_kind = ReadG, m_locked = True\<rparr>)\<rparr>"
  obtain g where g: "guards s r = Some g" "g_kind g = ReadG" "m_locked g" using assms(2) by (auto simp: holders_def)
  have t: "perform s (thr q) q (Construct ReadG) = Returns ?t"
    using assms(4) m e by (simp add: perform_def guard_new_lock lock_defs)
  let ?u = "\<lparr>m_mutex = ?m\<lparr>shared_owners := shared_owners ?m - {thr r}\<rparr>, guards = (guards ?t)(r := None)\<rparr>"
  have u: "perform ?t (thr r) r Destroy = Returns ?u" using g m assms(5) by (simp add: perform_def lock_defs)
  have "lock_reachable_by thr ?u"
    by (rule lock_reachable_by.step_by [OF lock_reachable_by.step_by [OF assms(1) t] u])
  moreover have "holders ReadG ?u = insert q (holders ReadG s - {r})" using assms(5) by (auto simp: holders_def)
  ultimately show "\<exists>t u. perform s (thr q) q (Construct ReadG) = Returns t \<and> perform t (thr r) r Destroy = Returns u \<and>
      holders ReadG u = insert q (holders ReadG s - {r}) \<and> lock_reachable_by thr u"
    using t u by blast
qed

section \<open>Witnesses\<close>

text \<open>Guard 0 holds the lock for writing, or for reading; guard \<open>i\<close> belongs to thread \<open>i div 2\<close>.\<close>

definition held_by :: "guard_kind \<Rightarrow> lock_sys" where
  "held_by k = \<lparr>m_mutex = \<lparr>shared_owners = (if k = ReadG then {0} else {}), exclusive = (if k = WriteG then Some 0 else None)\<rparr>,
     guards = [0 \<mapsto> \<lparr>g_kind = k, m_locked = True\<rparr>]\<rparr>"

abbreviation two_guards :: "nat \<Rightarrow> thread" where
  "two_guards i \<equiv> i div 2"

lemma held_by_reachable: "lock_reachable_by two_guards (held_by k)"
proof -
  have "perform mrsw_new (two_guards 0) 0 (Construct k) = Returns (held_by k)"
    by (cases k) (simp_all add: perform_def guard_new_lock lock_defs mrsw_new_def held_by_def)
  then show ?thesis by (rule lock_reachable_by.step_by [OF lock_reachable_by.start_by])
qed

lemma held_by_holders: "holders k (held_by k') = (if k = k' then {0} else {})"
  by (auto simp: holders_def held_by_def split: if_splits)

lemma held_by_acquires: "acquires (held_by k) 1 (Construct k')" "acquires (held_by k) 2 (Construct k')"
  by (simp_all add: acquires_def held_by_def)

theorem lock_mutual_exclusion_witness:
  "holders ReadG (held_by WriteG) = {} \<and> perform (held_by WriteG) 0 1 (Construct ReadG) = Undefined \<and>
   perform (held_by WriteG) 1 2 (Construct ReadG) \<noteq> Undefined"
proof -
  note r = held_by_reachable [of WriteG]
  note * = lock_mutual_exclusion [THEN conjunct2, rule_format, OF r]
  have "lock_reachable (held_by WriteG) \<and> 0 \<in> holders WriteG (held_by WriteG)"
    using lock_reachable_by_reachable [OF r] by (simp add: held_by_holders)
  then have "holders ReadG (held_by WriteG) = {}"
    by (intro lock_mutual_exclusion [THEN conjunct1, rule_format, THEN conjunct2])
  moreover have "perform (held_by WriteG) 0 1 (Construct ReadG) = Undefined"
    using *[of 1 "Construct ReadG"] held_by_acquires(1) by (simp add: held_by_holders)
  moreover have "perform (held_by WriteG) 1 2 (Construct ReadG) \<noteq> Undefined"
    using *[of 2 "Construct ReadG"] by (simp add: held_by_holders)
  ultimately show ?thesis by blast
qed

theorem lock_progress_witness:
  "\<exists>s'. unlock_all two_guards (held_by WriteG) [0] = Returns s' \<and> (\<forall>t i a. \<exists>u. perform s' t i a = Returns u)"
  using lock_progress [OF held_by_reachable [of WriteG], of "[0]"] by (simp add: held_by_holders)

theorem readers_starve_writers_witness: "perform (held_by ReadG) 1 2 (Construct WriteG) = Blocks"
  using readers_starve_writers [OF held_by_reachable [of ReadG], of 0 2 4] by (simp add: held_by_holders) (simp add: held_by_def)

end
