(* ===== verification/OpTree.thy ===== *)
theory OpTree
  imports Prelude
begin

text \<open>
  The parser of set operation queries (\<open>search/OpTree.h\<close>, \<open>search/OpTree.cpp\<close>): \<open>OpTreeParser::parse\<close>, a shift-reduce
  parser over a state stack, a token stack and a node stack, and \<open>SetOpsOpTreeParser\<close>, its tokenizer for strings with the operators
  \<open>+ - / ^\<close>, brackets, quoted strings and a hinter that says which strings with spaces are one word.
  An iterator into the query is the rest of the query from there on; dereferencing the end is \<open>UndefinedBehaviour\<close>.
\<close>

section \<open>Tokens and nodes\<close>

datatype token_type = STRING | OPERATOR | BRACE_OPEN | BRACE_CLOSE | ENDOFINPUT | NT_SA | INVALID

record token =
  t_begin :: u16
  t_end :: u16
  t_tokenString :: string
  t_type :: token_type
  t_op :: u8

definition token_new :: token where
  "token_new = \<lparr>t_begin = 0xFEFE, t_end = 0xFFFF, t_tokenString = [], t_type = INVALID, t_op = 0xFF\<rparr>"

datatype node = OpNode u8 "node list" | LeafNode string

fun node_copy :: "node \<Rightarrow> node" where
  "node_copy (OpNode opType children) = OpNode opType (map node_copy children)"
| "node_copy (LeafNode q) = LeafNode q"

section \<open>The parser\<close>

datatype parse_state = PS_INIT | PS_BRACE_OPENED | PS_TERMINAL | PS_BEFORE_OP_OR_DONE | PS_BEFORE_OP_OR_BRACE | PS_AFTER_OP
  | PS_BRACE_CLOSED | PS_OP_COMPLETED_OR_BEFORE_OP

text \<open>The local variables of \<open>parse\<close> and the state of the tokenizer. The last element of a vector is the head of the list.\<close>

record 's parser =
  p_tok :: 's
  p_token :: token
  p_done :: bool
  p_states :: "parse_state list"
  p_parse :: "token list"
  p_nodes :: "node list"

text \<open>Push the token and the state, and get the next token.\<close>

definition shift :: "('s \<Rightarrow> (token \<times> 's) res) \<Rightarrow> parse_state \<Rightarrow> 's parser \<Rightarrow> 's parser res" where
  "shift nextToken st p =
     bindE (nextToken (p_tok p)) (\<lambda>(token, s).
       Inr (p\<lparr>p_parse := p_token p # p_parse p, p_states := st # p_states p, p_token := token, p_tok := s\<rparr>))"

text \<open>The state behind a completed operand, by the state it was read in; anything else ends the loop.\<close>

definition after_operand :: "'s parser \<Rightarrow> 's parser res" where
  "after_operand p =
     (case p_states p of
        [] \<Rightarrow> Inl UndefinedBehaviour
      | st # _ \<Rightarrow>
          if st = PS_INIT then Inr (p\<lparr>p_states := PS_BEFORE_OP_OR_DONE # p_states p\<rparr>)
          else if st = PS_BRACE_OPENED then Inr (p\<lparr>p_states := PS_BEFORE_OP_OR_BRACE # p_states p\<rparr>)
          else if st = PS_AFTER_OP then Inr (p\<lparr>p_states := PS_OP_COMPLETED_OR_BEFORE_OP # p_states p\<rparr>)
          else Inr (p\<lparr>p_done := True\<rparr>))"

text \<open>\<open>pop_back\<close>, which is undefined on an empty vector.\<close>

fun pop :: "nat \<Rightarrow> 'a list \<Rightarrow> 'a list res" where
  "pop 0 xs = Inr xs"
| "pop (Suc n) [] = Inl UndefinedBehaviour"
| "pop (Suc n) (x # xs) = pop n xs"

definition reduce_terminal :: "'s parser \<Rightarrow> 's parser res" where
  "reduce_terminal p =
     (case p_parse p of
        [] \<Rightarrow> Inl UndefinedBehaviour
      | t # ts \<Rightarrow> bindE (pop 1 (p_states p)) (\<lambda>states.
          after_operand (p\<lparr>p_parse := t\<lparr>t_type := NT_SA\<rparr> # ts, p_states := states, p_nodes := LeafNode (t_tokenString t) # p_nodes p\<rparr>)))"

definition reduce_brace :: "'s parser \<Rightarrow> 's parser res" where
  "reduce_brace p =
     bindE (pop 3 (p_parse p)) (\<lambda>ts. bindE (pop 3 (p_states p)) (\<lambda>states.
       after_operand (p\<lparr>p_parse := (p_token p)\<lparr>t_type := NT_SA\<rparr> # ts, p_states := states\<rparr>)))"

definition reduce_op :: "'s parser \<Rightarrow> 's parser res" where
  "reduce_op p =
     (case (p_nodes p, p_parse p) of
        (rightOperand # leftOperand # nodes, _ # opt # _ # ts) \<Rightarrow>
          bindE (pop 3 (p_states p)) (\<lambda>states.
            after_operand (p\<lparr>p_nodes := OpNode (t_op opt) [leftOperand, rightOperand] # nodes,
              p_states := states, p_parse := (p_token p)\<lparr>t_type := NT_SA\<rparr> # ts\<rparr>))
      | _ \<Rightarrow> Inl UndefinedBehaviour)"

text \<open>One round of the loop, by the state on top of the stack.\<close>

definition parse_step :: "('s \<Rightarrow> (token \<times> 's) res) \<Rightarrow> parse_state \<Rightarrow> 's parser \<Rightarrow> 's parser res" where
  "parse_step nextToken st p =
     (case st of
        PS_INIT \<Rightarrow>
          if t_type (p_token p) = BRACE_OPEN then shift nextToken PS_BRACE_OPENED p
          else if t_type (p_token p) = STRING then shift nextToken PS_TERMINAL p
          else Inr (p\<lparr>p_done := True\<rparr>)
      | PS_TERMINAL \<Rightarrow> reduce_terminal p
      | PS_BRACE_OPENED \<Rightarrow>
          if t_type (p_token p) = STRING then shift nextToken PS_TERMINAL p
          else if t_type (p_token p) = BRACE_OPEN then shift nextToken PS_BRACE_OPENED p
          else Inr (p\<lparr>p_done := True\<rparr>)
      | PS_BEFORE_OP_OR_DONE \<Rightarrow>
          if t_type (p_token p) = ENDOFINPUT then Inr (p\<lparr>p_done := True\<rparr>)
          else if t_type (p_token p) = OPERATOR then shift nextToken PS_AFTER_OP p
          else Inr (p\<lparr>p_done := True\<rparr>)
      | PS_BEFORE_OP_OR_BRACE \<Rightarrow>
          if t_type (p_token p) = OPERATOR then shift nextToken PS_AFTER_OP p
          else if t_type (p_token p) = BRACE_CLOSE then shift nextToken PS_BRACE_CLOSED p
          else Inr (p\<lparr>p_done := True\<rparr>)
      | PS_AFTER_OP \<Rightarrow>
          if t_type (p_token p) = STRING then shift nextToken PS_TERMINAL p
          else if t_type (p_token p) = BRACE_OPEN then shift nextToken PS_BRACE_OPENED p
          else Inr (p\<lparr>p_done := True\<rparr>)
      | PS_BRACE_CLOSED \<Rightarrow> reduce_brace p
      | PS_OP_COMPLETED_OR_BEFORE_OP \<Rightarrow> reduce_op p)"

text \<open>The loop ends when a round sets \<open>done\<close> or throws; with a tokenizer that never ends it need not end.\<close>

partial_function (option) parse_loop :: "('s \<Rightarrow> (token \<times> 's) res) \<Rightarrow> 's parser \<Rightarrow> 's parser res option" where
  "parse_loop nextToken p =
     (case p_states p of
        [] \<Rightarrow> Some (Inr p)
      | st # _ \<Rightarrow>
          if p_done p then Some (Inr p)
          else case parse_step nextToken st p of Inl e \<Rightarrow> Some (Inl e) | Inr p' \<Rightarrow> parse_loop nextToken p')"

declare parse_loop.simps [code]

text \<open>The node at the bottom of the stack is the result; more than one node means that the query is not well formed.\<close>

definition parse :: "('s \<Rightarrow> bool) \<Rightarrow> ('s \<Rightarrow> (token \<times> 's) res) \<Rightarrow> 's \<Rightarrow> node option res option" where
  "parse hasNextToken nextToken s =
     (if \<not> hasNextToken s then Some (Inr None)
      else case nextToken s of
        Inl e \<Rightarrow> Some (Inl e)
      | Inr (token, s) \<Rightarrow>
          Option.bind (parse_loop nextToken \<lparr>p_tok = s, p_token = token, p_done = False, p_states = [PS_INIT], p_parse = [], p_nodes = []\<rparr>)
            (\<lambda>r. Some (bindE r (\<lambda>p. Inr (case p_nodes p of [] \<Rightarrow> None | _ \<Rightarrow> Some (last (p_nodes p)))))))"

section \<open>The tokenizer\<close>

abbreviation backslash :: char where "backslash \<equiv> CHR 0x5C"
abbreviation quote :: char where "quote \<equiv> CHR 0x22"

definition OT_INVALID :: u8 where "OT_INVALID = 0"
definition OT_UNITE :: u8 where "OT_UNITE = 1"
definition OT_INTERSECT :: u8 where "OT_INTERSECT = 2"
definition OT_DIFF :: u8 where "OT_DIFF = 3"
definition OT_SYM_DIFF :: u8 where "OT_SYM_DIFF = 4"

text \<open>The operator map that the constructor fills.\<close>

definition opMap :: "char \<rightharpoonup> u8" where
  "opMap = [CHR ''+'' \<mapsto> OT_UNITE, CHR ''-'' \<mapsto> OT_DIFF, CHR ''/'' \<mapsto> OT_INTERSECT, CHR ''^'' \<mapsto> OT_SYM_DIFF]"

fun sanitize_loop :: "string \<Rightarrow> u32 \<Rightarrow> bool \<Rightarrow> string \<Rightarrow> u32 \<times> string" where
  "sanitize_loop [] braceCount beforeWasOp ostr = (braceCount, ostr)"
| "sanitize_loop (c # cs) braceCount beforeWasOp ostr =
     (if c = backslash then
        (case cs of [] \<Rightarrow> (braceCount, ostr) | d # ds \<Rightarrow> sanitize_loop ds braceCount beforeWasOp (ostr @ [backslash, d]))
      else if c = CHR '')'' then
        (if braceCount = 0 then sanitize_loop cs braceCount beforeWasOp ostr
         else sanitize_loop cs (braceCount - 1) beforeWasOp (ostr @ [c]))
      else if opMap c \<noteq> None then
        (if beforeWasOp then sanitize_loop cs braceCount beforeWasOp ostr
         else sanitize_loop cs braceCount True (ostr @ [c]))
      else if c = CHR ''('' then sanitize_loop cs (braceCount + 1) beforeWasOp (ostr @ [c])
      else sanitize_loop cs braceCount False (ostr @ [c]))"

definition sanitize :: "string \<Rightarrow> string" where
  "sanitize s = (case sanitize_loop s 0 False [] of (braceCount, ostr) \<Rightarrow>
     if braceCount > 0 then ostr @ replicate (unat braceCount) (CHR '')'') else ostr)"

record tokenizer =
  m_parseString :: string
  m_strIt :: string
  m_beforeWasTerminal :: bool

definition position :: "tokenizer \<Rightarrow> u16" where
  "position s = of_nat (length (m_parseString s) - length (m_strIt s))"

text \<open>The loop behind an opening quote.\<close>

fun read_quoted :: "string \<Rightarrow> string \<Rightarrow> string \<times> string" where
  "read_quoted ts [] = (ts, [])"
| "read_quoted ts (c # cs) =
     (if c = backslash then (case cs of [] \<Rightarrow> (ts, []) | d # ds \<Rightarrow> read_quoted (ts @ [d]) ds)
      else if c = quote then (ts @ [c], cs)
      else read_quoted (ts @ [c]) cs)"

text \<open>
  The conversion of the size of a string to \<open>int\<close>. Strings of $2^{31}$ characters and more give a negative or a too small number.
\<close>

definition int_size :: "string \<Rightarrow> s32" where
  "int_size s = of_nat (length s)"

text \<open>
  The loop over a string without quotes: the token so far, the position, and the size and position of the last valid string. Taking one
  from the least \<open>int\<close> is undefined.
\<close>

fun read_plain :: "(string \<Rightarrow> bool) \<Rightarrow> string \<Rightarrow> string \<Rightarrow> s32 \<Rightarrow> string \<Rightarrow> (string \<times> string \<times> s32 \<times> string) res" where
  "read_plain hint ts [] n vIt = Inr (ts, [], n, vIt)"
| "read_plain hint ts (c # cs) n vIt =
     (if c = backslash then (case cs of [] \<Rightarrow> Inr (ts, [], n, vIt) | d # ds \<Rightarrow> read_plain hint (ts @ [d]) ds n vIt)
      else if c = CHR '' '' then
        (if hint (ts @ [c]) then
           (if length (ts @ [c]) > 1 \<and> (ts @ [c]) ! (length (ts @ [c]) - 2) \<noteq> CHR '' ''
            then (if sint (int_size (ts @ [c])) = - (2 ^ 31) then Inl UndefinedBehaviour
                  else read_plain hint (ts @ [c]) cs (int_size (ts @ [c]) - 1) (c # cs))
            else read_plain hint (ts @ [c]) cs n vIt)
         else Inr (ts, c # cs, n, vIt))
      else if c = CHR ''('' \<or> c = CHR '')'' then
        (if sint n \<ge> 0 \<and> ts \<noteq> [] \<and> last ts \<noteq> CHR '' '' \<and> hint ts then Inr (ts, c # cs, int_size ts, c # cs)
         else Inr (ts, c # cs, n, vIt))
      else if opMap c \<noteq> None then
        (if ts \<noteq> [] \<and> last ts = CHR '' '' then Inr (ts, c # cs, n, vIt) else read_plain hint (ts @ [c]) cs n vIt)
      else read_plain hint (ts @ [c]) cs n vIt)"

text \<open>\<open>std::string::resize\<close>: a negative \<open>int\<close> becomes a size above the greatest one a string can have.\<close>

definition string_resize :: "string \<Rightarrow> s32 \<Rightarrow> string res" where
  "string_resize s n = (if sint n < 0 then Inl StdLengthError
     else Inr (take (nat (sint n)) s @ replicate (nat (sint n) - length s) (CHR 0x00)))"

text \<open>\<open>*m_strIt\<close>.\<close>

fun deref :: "string \<Rightarrow> char res" where
  "deref [] = Inl UndefinedBehaviour"
| "deref (c # _) = Inr c"

definition string_token :: "tokenizer \<Rightarrow> token \<Rightarrow> string \<Rightarrow> tokenizer \<Rightarrow> token \<times> tokenizer" where
  "string_token s token ts s' =
     (token\<lparr>t_begin := position s, t_type := STRING, t_tokenString := ts, t_end := position s'\<rparr>, s')"

text \<open>Both kinds of strings: the token, the size it gets, and the rest of the query.\<close>

definition read_string_quoted :: "string \<Rightarrow> string \<Rightarrow> string \<times> s32 \<times> string" where
  "read_string_quoted ts rest =
     (case read_quoted (ts @ [quote]) (tl rest) of (ts, rest) \<Rightarrow>
        (case rest of
           c # cs \<Rightarrow> if c = CHR ''?'' then (ts @ [c], int_size (ts @ [c]), cs) else (ts, int_size ts, rest)
         | [] \<Rightarrow> (ts, int_size ts, rest)))"

definition read_string_plain :: "(string \<Rightarrow> bool) \<Rightarrow> string \<Rightarrow> string \<Rightarrow> string \<Rightarrow> (string \<times> s32 \<times> string) res" where
  "read_string_plain hint ts rest vIt =
     bindE (read_plain hint ts rest (-1) vIt) (\<lambda>(ts, rest, n, vIt).
       Inr (if sint n < 0 \<or> rest = [] \<and> hint ts then (ts, int_size ts, rest)
            else if sint n > 0 then (ts, n, vIt) else (ts, n, rest)))"

definition readString :: "(string \<Rightarrow> bool) \<Rightarrow> tokenizer \<Rightarrow> token \<Rightarrow> (token \<times> tokenizer) res" where
  "readString hint s token =
     bindE (deref (m_strIt s)) (\<lambda>c.
       let ts = t_tokenString token;
           (ts, rest) = (if c = CHR ''?'' then (ts @ [c], tl (m_strIt s)) else (ts, m_strIt s))
       in bindE (deref rest) (\<lambda>d.
          bindE (if d = quote then Inr (read_string_quoted ts rest) else read_string_plain hint ts rest (m_strIt s)) (\<lambda>(ts, n, rest).
          bindE (string_resize ts n) (\<lambda>ts. Inr (string_token s token ts (s\<lparr>m_strIt := rest\<rparr>))))))"

definition createDefaultOp :: "tokenizer \<Rightarrow> token \<Rightarrow> token" where
  "createDefaultOp s token = token\<lparr>t_begin := position s, t_tokenString := [], t_end := position s, t_type := OPERATOR, t_op := OT_INTERSECT\<rparr>"

definition initTokenizer :: "string \<Rightarrow> tokenizer" where
  "initTokenizer q = \<lparr>m_parseString = sanitize q, m_strIt = sanitize q, m_beforeWasTerminal = False\<rparr>"

text \<open>A one character token: the character is consumed.\<close>

definition char_token :: "tokenizer \<Rightarrow> token \<Rightarrow> char \<Rightarrow> token_type \<Rightarrow> u8 \<Rightarrow> token \<times> tokenizer" where
  "char_token s token c ty v =
     (let s' = s\<lparr>m_strIt := tl (m_strIt s)\<rparr>
      in (token\<lparr>t_begin := position s, t_tokenString := t_tokenString token @ [c], t_type := ty, t_op := v, t_end := position s'\<rparr>, s'))"

fun skip_blanks :: "string \<Rightarrow> string" where
  "skip_blanks [] = []"
| "skip_blanks (c # cs) = (if c = CHR '' '' then skip_blanks cs else c # cs)"

definition nextToken :: "(string \<Rightarrow> bool) \<Rightarrow> tokenizer \<Rightarrow> (token \<times> tokenizer) res" where
  "nextToken hint s =
     (let token = token_new\<lparr>t_type := ENDOFINPUT\<rparr>; s = s\<lparr>m_strIt := skip_blanks (m_strIt s)\<rparr>
      in case m_strIt s of
           [] \<Rightarrow> Inr (token, s)
         | c # _ \<Rightarrow>
             case opMap c of
               Some v \<Rightarrow> (case char_token s token c OPERATOR v of (token, s) \<Rightarrow> Inr (token, s\<lparr>m_beforeWasTerminal := False\<rparr>))
             | None \<Rightarrow>
                 if c = CHR ''('' then
                   (if m_beforeWasTerminal s then Inr (createDefaultOp s token, s\<lparr>m_beforeWasTerminal := False\<rparr>)
                    else Inr (char_token s token c BRACE_OPEN (t_op token)))
                 else if c = CHR '')'' then
                   (case char_token s token c BRACE_CLOSE (t_op token) of (token, s) \<Rightarrow> Inr (token, s\<lparr>m_beforeWasTerminal := True\<rparr>))
                 else if m_beforeWasTerminal s then Inr (createDefaultOp s token, s\<lparr>m_beforeWasTerminal := False\<rparr>)
                 else bindE (readString hint s token) (\<lambda>(token, s). Inr (token, s\<lparr>m_beforeWasTerminal := True\<rparr>)))"

definition hasNextToken :: "tokenizer \<Rightarrow> bool" where
  "hasNextToken s \<longleftrightarrow> m_strIt s \<noteq> []"

definition parseQuery :: "(string \<Rightarrow> bool) \<Rightarrow> string \<Rightarrow> node option res option" where
  "parseQuery hint q = parse hasNextToken (nextToken hint) (initTokenizer q)"

end
