(* ===== verification/OpTreeProps.thy ===== *)
theory OpTreeProps
  imports OpTree "HOL-Library.Sublist"
begin

text \<open>
  The parser never touches an empty stack and ends for every query; on the written form of a tree it returns that tree. The first
  part is about the parser with any tokenizer, the second about the tokenizer of set operation queries.
\<close>

section \<open>The stacks\<close>

definition operand_state :: "parse_state \<Rightarrow> bool" where
  "operand_state st \<longleftrightarrow> st = PS_INIT \<or> st = PS_BRACE_OPENED \<or> st = PS_AFTER_OP"

fun next_state :: "parse_state \<Rightarrow> parse_state" where
  "next_state PS_INIT = PS_BEFORE_OP_OR_DONE"
| "next_state PS_BRACE_OPENED = PS_BEFORE_OP_OR_BRACE"
| "next_state _ = PS_OP_COMPLETED_OR_BEFORE_OP"

text \<open>The state stacks that occur, with the number of tokens and of nodes on the other two stacks.\<close>

inductive stacks :: "parse_state list \<Rightarrow> nat \<Rightarrow> nat \<Rightarrow> bool" where
  init: "stacks [PS_INIT] 0 0"
| brace: "stacks (st # ss) n m \<Longrightarrow> operand_state st \<Longrightarrow> stacks (PS_BRACE_OPENED # st # ss) (Suc n) m"
| terminal: "stacks (st # ss) n m \<Longrightarrow> operand_state st \<Longrightarrow> stacks (PS_TERMINAL # st # ss) (Suc n) m"
| operand: "stacks (st # ss) n m \<Longrightarrow> operand_state st \<Longrightarrow> stacks (next_state st # st # ss) (Suc n) (Suc m)"
| operator: "stacks (st # ss) n m \<Longrightarrow> st = PS_BEFORE_OP_OR_DONE \<or> st = PS_BEFORE_OP_OR_BRACE \<Longrightarrow> stacks (PS_AFTER_OP # st # ss) (Suc n) m"
| close: "stacks (PS_BEFORE_OP_OR_BRACE # ss) n m \<Longrightarrow> stacks (PS_BRACE_CLOSED # PS_BEFORE_OP_OR_BRACE # ss) (Suc n) m"

inductive_cases stacks_terminalE: "stacks (PS_TERMINAL # ss) n m"
inductive_cases stacks_closedE: "stacks (PS_BRACE_CLOSED # ss) n m"
inductive_cases stacks_completedE: "stacks (PS_OP_COMPLETED_OR_BEFORE_OP # ss) n m"
inductive_cases stacks_afterE: "stacks (PS_AFTER_OP # ss) n m"
inductive_cases stacks_doneE: "stacks (PS_BEFORE_OP_OR_DONE # ss) n m"
inductive_cases stacks_braceE: "stacks (PS_BEFORE_OP_OR_BRACE # ss) n m"
inductive_cases stacks_openedE: "stacks (PS_BRACE_OPENED # ss) n m"

lemma next_state_simps [simp]:
  "next_state st = PS_BEFORE_OP_OR_BRACE \<longleftrightarrow> st = PS_BRACE_OPENED" "next_state st = PS_BEFORE_OP_OR_DONE \<longleftrightarrow> st = PS_INIT"
  "PS_BEFORE_OP_OR_BRACE = next_state st \<longleftrightarrow> st = PS_BRACE_OPENED" "PS_BEFORE_OP_OR_DONE = next_state st \<longleftrightarrow> st = PS_INIT"
  "next_state st \<noteq> PS_INIT" "next_state st \<noteq> PS_BRACE_OPENED" "next_state st \<noteq> PS_AFTER_OP" "next_state st \<noteq> PS_TERMINAL" "next_state st \<noteq> PS_BRACE_CLOSED"
  "PS_INIT \<noteq> next_state st" "PS_BRACE_OPENED \<noteq> next_state st" "PS_AFTER_OP \<noteq> next_state st" "PS_TERMINAL \<noteq> next_state st" "PS_BRACE_CLOSED \<noteq> next_state st"
  by (cases st; simp)+

lemma next_state_completed: "operand_state st \<Longrightarrow> PS_OP_COMPLETED_OR_BEFORE_OP = next_state st \<longleftrightarrow> st = PS_AFTER_OP"
  by (cases st) (simp_all add: operand_state_def)

lemma stacks_brace_tail:
  assumes "stacks (PS_BEFORE_OP_OR_BRACE # ss) n m"
  obtains st ss' n' m' where "ss = PS_BRACE_OPENED # st # ss'" "operand_state st" "n = Suc (Suc n')" "m = Suc m'" "stacks (st # ss') n' m'"
  using assms by (auto elim!: stacks_braceE stacks_openedE)

lemma stacks_completed_tail:
  assumes "stacks (PS_OP_COMPLETED_OR_BEFORE_OP # ss) n m"
  obtains st ss' n' m' where "ss = PS_AFTER_OP # next_state st # st # ss'" "st = PS_INIT \<or> st = PS_BRACE_OPENED" "n = Suc (Suc (Suc n'))"
    "m = Suc (Suc m')" "stacks (st # ss') n' m'"
  using assms
  by (auto simp: next_state_completed elim!: stacks_completedE stacks_afterE stacks_doneE stacks_braceE)

fun binary :: "node \<Rightarrow> bool" where
  "binary (LeafNode q) = True"
| "binary (OpNode opType [l, r]) = (binary l \<and> binary r)"
| "binary (OpNode opType _) = False"

definition parser_inv :: "'s parser \<Rightarrow> bool" where
  "parser_inv p \<longleftrightarrow> stacks (p_states p) (length (p_parse p)) (length (p_nodes p)) \<and> list_all binary (p_nodes p)"

lemma after_operand_inv:
  assumes "stacks (st # ss) n m" "operand_state st" "p_states p = st # ss" "length (p_parse p) = Suc n" "length (p_nodes p) = Suc m"
    and "list_all binary (p_nodes p)"
  shows "after_operand p = Inr (p\<lparr>p_states := next_state st # st # ss\<rparr>)" "parser_inv (p\<lparr>p_states := next_state st # st # ss\<rparr>)"
  using assms stacks.operand [OF assms(1,2)] by (auto simp: after_operand_def operand_state_def parser_inv_def)

lemma shift_inv:
  assumes "shift next st p = Inr p'" "stacks (st # p_states p) (Suc (length (p_parse p))) (length (p_nodes p))" "list_all binary (p_nodes p)"
  shows "parser_inv p'"
  using assms by (auto simp: shift_def parser_inv_def)

lemma length_Suc3: "length xs = Suc (Suc (Suc n)) \<longleftrightarrow> (\<exists>a b c ys. xs = a # b # c # ys \<and> length ys = n)"
  by (auto simp: length_Suc_conv)

text \<open>A round keeps the invariant; an error is one of the tokenizer.\<close>

lemma reduce_inv:
  assumes "parser_inv p" "p_states p = st # ss"
  shows "st = PS_TERMINAL \<Longrightarrow> \<exists>p' s2. reduce_terminal p = Inr p' \<and> parser_inv p' \<and> p_tok p' = p_tok p \<and> p_token p' = p_token p \<and> p_done p' = p_done p \<and>
      hd (p_states p') = next_state s2"
    "st = PS_BRACE_CLOSED \<Longrightarrow> \<exists>p' s2. reduce_brace p = Inr p' \<and> parser_inv p' \<and> p_tok p' = p_tok p \<and> p_token p' = p_token p \<and> p_done p' = p_done p \<and>
      hd (p_states p') = next_state s2"
    "st = PS_OP_COMPLETED_OR_BEFORE_OP \<Longrightarrow> \<exists>p' s2. reduce_op p = Inr p' \<and> parser_inv p' \<and> p_tok p' = p_tok p \<and> p_token p' = p_token p \<and> p_done p' = p_done p \<and>
      hd (p_states p') = next_state s2 \<and> (s2 = PS_INIT \<or> s2 = PS_BRACE_OPENED)"
proof -
  have inv: "stacks (st # ss) (length (p_parse p)) (length (p_nodes p))" "list_all binary (p_nodes p)"
    using assms by (simp_all add: parser_inv_def)
  {
    assume "st = PS_TERMINAL"
    with inv(1) obtain s2 ss' n where s: "ss = s2 # ss'" "length (p_parse p) = Suc n" "operand_state s2" "stacks (s2 # ss') n (length (p_nodes p))"
      by (auto elim!: stacks_terminalE)
    then obtain t ts where t: "p_parse p = t # ts" "length ts = n" by (auto simp: length_Suc_conv)
    let ?p = "p\<lparr>p_parse := t\<lparr>t_type := NT_SA\<rparr> # ts, p_states := s2 # ss', p_nodes := LeafNode (t_tokenString t) # p_nodes p\<rparr>"
    note a = after_operand_inv [OF s(4,3), of ?p]
    have "reduce_terminal p = after_operand ?p" using t(1) assms(2) s(1) by (simp add: reduce_terminal_def numeral_eq_Suc)
    then show "\<exists>p' s2. reduce_terminal p = Inr p' \<and> parser_inv p' \<and> p_tok p' = p_tok p \<and> p_token p' = p_token p \<and> p_done p' = p_done p \<and>
        hd (p_states p') = next_state s2"
      using a t(2) inv(2) by (intro exI [of _ "?p\<lparr>p_states := next_state s2 # s2 # ss'\<rparr>"] exI [of _ s2]) simp
  next
    assume "st = PS_BRACE_CLOSED"
    with inv(1) obtain s2 ss' n m where s: "ss = PS_BEFORE_OP_OR_BRACE # PS_BRACE_OPENED # s2 # ss'" "operand_state s2"
        "length (p_parse p) = Suc (Suc (Suc n))" "length (p_nodes p) = Suc m" "stacks (s2 # ss') n m"
      by (auto elim!: stacks_closedE stacks_brace_tail)
    then obtain a b c ts where t: "p_parse p = a # b # c # ts" "length ts = n" by (auto simp: length_Suc3)
    let ?p = "p\<lparr>p_parse := (p_token p)\<lparr>t_type := NT_SA\<rparr> # ts, p_states := s2 # ss'\<rparr>"
    note a = after_operand_inv [OF s(5,2), of ?p]
    have "reduce_brace p = after_operand ?p" using t(1) assms(2) s(1) \<open>st = PS_BRACE_CLOSED\<close> by (simp add: reduce_brace_def numeral_eq_Suc)
    then show "\<exists>p' s2. reduce_brace p = Inr p' \<and> parser_inv p' \<and> p_tok p' = p_tok p \<and> p_token p' = p_token p \<and> p_done p' = p_done p \<and>
        hd (p_states p') = next_state s2"
      using a t(2) s(4) inv(2) by (intro exI [of _ "?p\<lparr>p_states := next_state s2 # s2 # ss'\<rparr>"] exI [of _ s2]) simp
  next
    assume "st = PS_OP_COMPLETED_OR_BEFORE_OP"
    with inv(1) obtain s2 ss' n m where s: "ss = PS_AFTER_OP # next_state s2 # s2 # ss'" "s2 = PS_INIT \<or> s2 = PS_BRACE_OPENED"
        "length (p_parse p) = Suc (Suc (Suc n))" "length (p_nodes p) = Suc (Suc m)" "stacks (s2 # ss') n m"
      by (auto elim!: stacks_completed_tail)
    then obtain a b c ts where t: "p_parse p = a # b # c # ts" "length ts = n" by (auto simp: length_Suc3)
    from s(4) obtain r l ns where nd: "p_nodes p = r # l # ns" "length ns = m" by (auto simp: length_Suc_conv)
    let ?p = "p\<lparr>p_nodes := OpNode (t_op b) [l, r] # ns, p_states := s2 # ss', p_parse := (p_token p)\<lparr>t_type := NT_SA\<rparr> # ts\<rparr>"
    have o: "operand_state s2" using s(2) by (auto simp: operand_state_def)
    note a = after_operand_inv [OF s(5) o, of ?p]
    have "reduce_op p = after_operand ?p" using t(1) nd(1) assms(2) s(1) \<open>st = PS_OP_COMPLETED_OR_BEFORE_OP\<close> by (simp add: reduce_op_def numeral_eq_Suc)
    then show "\<exists>p' s2. reduce_op p = Inr p' \<and> parser_inv p' \<and> p_tok p' = p_tok p \<and> p_token p' = p_token p \<and> p_done p' = p_done p \<and>
        hd (p_states p') = next_state s2 \<and> (s2 = PS_INIT \<or> s2 = PS_BRACE_OPENED)"
      using a t(2) nd s(2) inv(2) by (intro exI [of _ "?p\<lparr>p_states := next_state s2 # s2 # ss'\<rparr>"] exI [of _ s2]) simp
  }
qed

section \<open>The loop ends\<close>

text \<open>
  What is left to read of a tokenizer is bounded by \<open>m\<close>: every token but the last makes it smaller. The only error it can throw
  is \<open>e\<close>.
\<close>

definition progress :: "('s \<Rightarrow> (token \<times> 's) res) \<Rightarrow> ('s \<Rightarrow> nat) \<Rightarrow> ('s \<Rightarrow> bool) \<Rightarrow> (error \<Rightarrow> bool) \<Rightarrow> bool" where
  "progress next m ok e \<longleftrightarrow> (\<forall>s. ok s \<longrightarrow> (case next s of
     Inl x \<Rightarrow> e x
   | Inr (t, s') \<Rightarrow> ok s' \<and> m s' \<le> m s \<and> (t_type t = ENDOFINPUT \<or> m s' < m s)))"

fun rank :: "parse_state \<Rightarrow> nat" where
  "rank PS_TERMINAL = 2"
| "rank PS_BRACE_CLOSED = 2"
| "rank PS_OP_COMPLETED_OR_BEFORE_OP = 1"
| "rank _ = 0"

definition rounds :: "('s \<Rightarrow> nat) \<Rightarrow> 's parser \<Rightarrow> nat" where
  "rounds m p = 3 * (m (p_tok p) + (if t_type (p_token p) = ENDOFINPUT then 0 else 1)) + rank (hd (p_states p))"

lemma rank_next: "rank (next_state st) \<le> 1" "st = PS_INIT \<or> st = PS_BRACE_OPENED \<Longrightarrow> rank (next_state st) = 0"
  by (cases st; simp)+

lemma shift_step:
  assumes "progress next m ok e" "ok (p_tok p)" "t_type (p_token p) \<noteq> ENDOFINPUT" "p_states p = st # ss" "rank st = 0"
    and "stacks (st' # p_states p) (Suc (length (p_parse p))) (length (p_nodes p))" "list_all binary (p_nodes p)"
  shows "case shift next st' p of Inl x \<Rightarrow> e x | Inr p' \<Rightarrow> parser_inv p' \<and> ok (p_tok p') \<and> p_done p' = p_done p \<and> rounds m p' < rounds m p"
proof (cases "next (p_tok p)")
  case (Inl x)
  then show ?thesis using assms(1,2) by (auto simp: shift_def progress_def split: sum.splits)
next
  case (Inr y)
  obtain t s where y: "y = (t, s)" by (cases y)
  then have "ok s" "m s \<le> m (p_tok p)" "t_type t = ENDOFINPUT \<or> m s < m (p_tok p)"
    using assms(1,2) Inr unfolding progress_def by (auto split: sum.splits)
  moreover have "rank st' \<le> 2" by (cases st') simp_all
  ultimately show ?thesis using assms(3-7) Inr y by (auto simp: shift_def parser_inv_def rounds_def)
qed

text \<open>A round either ends the loop, or makes the bound on the number of rounds smaller.\<close>

lemma step_progress:
  assumes pr: "progress next m ok e" and inv: "parser_inv p" "ok (p_tok p)" "\<not> p_done p" and st: "p_states p = st # ss"
  shows "case parse_step next st p of Inl x \<Rightarrow> e x
    | Inr p' \<Rightarrow> parser_inv p' \<and> ok (p_tok p') \<and> (p_done p' \<or> rounds m p' < rounds m p)"
proof -
  have v: "stacks (st # ss) (length (p_parse p)) (length (p_nodes p))" "list_all binary (p_nodes p)"
    using inv(1) st by (simp_all add: parser_inv_def)
  note go = shift_step [OF pr inv(2) _ st _ _ v(2)]
  have stop: "parser_inv (p\<lparr>p_done := True\<rparr>)" using inv(1) by (simp add: parser_inv_def)
  have operand: ?thesis if "operand_state st" "rank st = 0"
      "parse_step next st p = (if t_type (p_token p) = BRACE_OPEN then shift next PS_BRACE_OPENED p
        else if t_type (p_token p) = STRING then shift next PS_TERMINAL p else Inr (p\<lparr>p_done := True\<rparr>))"
    using go [OF _ that(2), of PS_BRACE_OPENED] go [OF _ that(2), of PS_TERMINAL] stop inv(2) v(1) that st stacks.brace [OF v(1) that(1)] stacks.terminal [OF v(1) that(1)]
    by (auto split: sum.splits)
  show ?thesis
  proof (cases st)
    case PS_INIT
    then show ?thesis by (intro operand) (simp_all add: operand_state_def parse_step_def)
  next
    case PS_BRACE_OPENED
    then show ?thesis by (intro operand) (auto simp: operand_state_def parse_step_def)
  next
    case PS_AFTER_OP
    then show ?thesis by (intro operand) (auto simp: operand_state_def parse_step_def)
  next
    case PS_TERMINAL
    from reduce_inv(1) [OF inv(1) st this] obtain p' s2 where
      r: "reduce_terminal p = Inr p'" "parser_inv p'" "p_tok p' = p_tok p" "p_token p' = p_token p" "hd (p_states p') = next_state s2" by blast
    then show ?thesis using PS_TERMINAL inv(2) st rank_next(1) [of s2] by (simp add: parse_step_def rounds_def)
  next
    case PS_BRACE_CLOSED
    from reduce_inv(2) [OF inv(1) st this] obtain p' s2 where
      r: "reduce_brace p = Inr p'" "parser_inv p'" "p_tok p' = p_tok p" "p_token p' = p_token p" "hd (p_states p') = next_state s2" by blast
    then show ?thesis using PS_BRACE_CLOSED inv(2) st rank_next(1) [of s2] by (simp add: parse_step_def rounds_def)
  next
    case PS_OP_COMPLETED_OR_BEFORE_OP
    from reduce_inv(3) [OF inv(1) st this] obtain p' s2 where
      r: "reduce_op p = Inr p'" "parser_inv p'" "p_tok p' = p_tok p" "p_token p' = p_token p" "hd (p_states p') = next_state s2"
        "s2 = PS_INIT \<or> s2 = PS_BRACE_OPENED" by blast
    then show ?thesis using PS_OP_COMPLETED_OR_BEFORE_OP inv(2) st rank_next(2) [of s2] by (simp add: parse_step_def rounds_def)
  next
    case PS_BEFORE_OP_OR_DONE
    then show ?thesis using go [of PS_AFTER_OP] stop inv(2) st stacks.operator [OF v(1)]
      by (auto simp: parse_step_def split: sum.splits)
  next
    case PS_BEFORE_OP_OR_BRACE
    then show ?thesis
      using go [of PS_AFTER_OP] go [of PS_BRACE_CLOSED] stop inv(2) st stacks.operator [OF v(1)] stacks.close [of ss "length (p_parse p)" "length (p_nodes p)"] v(1)
      by (auto simp: parse_step_def split: sum.splits)
  qed
qed

lemma parse_loop_ends:
  assumes pr: "progress next m ok e"
  shows "parser_inv p \<Longrightarrow> ok (p_tok p) \<Longrightarrow>
    \<exists>r. parse_loop next p = Some r \<and> (case r of Inl x \<Rightarrow> e x | Inr p' \<Rightarrow> list_all binary (p_nodes p'))"
proof (induction "rounds m p" arbitrary: p rule: less_induct)
  case less
  have v: "list_all binary (p_nodes p)" using less.prems(1) by (simp add: parser_inv_def)
  show ?case
  proof (cases "p_states p")
    case Nil
    then show ?thesis using v by (subst parse_loop.simps) simp
  next
    case (Cons st ss)
    show ?thesis
    proof (cases "p_done p")
      case True
      then show ?thesis using v Cons by (subst parse_loop.simps) simp
    next
      case False
      note step = step_progress [OF pr less.prems False Cons]
      show ?thesis
      proof (cases "parse_step next st p")
        case (Inl x)
        then show ?thesis using step Cons False by (subst parse_loop.simps) simp
      next
        case (Inr p')
        have l: "parse_loop next p = parse_loop next p'" using Inr Cons False by (subst parse_loop.simps) simp
        have p': "parser_inv p'" "ok (p_tok p')" "p_done p' \<or> rounds m p' < rounds m p" using step Inr by simp_all
        show ?thesis
        proof (cases "p_done p'")
          case True
          then show ?thesis unfolding l using p'(1) by (subst parse_loop.simps) (auto simp: parser_inv_def split: list.splits)
        next
          case False
          then show ?thesis unfolding l using less.hyps [OF _ p'(1,2)] p'(3) by simp
        qed
      qed
    qed
  qed
qed

lemma parse_ends:
  assumes "progress next m ok e" "ok s"
  shows "\<exists>r. parse has next s = Some r \<and> (case r of Inl x \<Rightarrow> e x | Inr None \<Rightarrow> True | Inr (Some t) \<Rightarrow> binary t)"
proof (cases "has s")
  case True
  show ?thesis
  proof (cases "next s")
    case (Inl x)
    then show ?thesis using True assms by (auto simp: parse_def progress_def split: sum.splits)
  next
    case (Inr y)
    obtain t s' where y: "y = (t, s')" by (cases y)
    let ?p = "\<lparr>p_tok = s', p_token = t, p_done = False, p_states = [PS_INIT], p_parse = [], p_nodes = []\<rparr>"
    have "ok s'" using assms Inr y unfolding progress_def by (auto split: sum.splits)
    moreover have "parser_inv ?p" by (simp add: parser_inv_def stacks.init)
    ultimately obtain r where r: "parse_loop next ?p = Some r" "case r of Inl x \<Rightarrow> e x | Inr p' \<Rightarrow> list_all binary (p_nodes p')"
      using parse_loop_ends [OF assms(1), of ?p] by auto
    show ?thesis
    proof (cases r)
      case (Inl x)
      then show ?thesis using r True \<open>next s = Inr y\<close> y by (simp add: parse_def)
    next
      case (Inr p')
      then have "p_nodes p' \<noteq> [] \<Longrightarrow> binary (last (p_nodes p'))" using r(2) by (simp add: list_all_iff)
      then show ?thesis using r Inr True \<open>next s = Inr y\<close> y by (cases "p_nodes p'") (simp_all add: parse_def)
    qed
  qed
qed (simp add: parse_def)

section \<open>The tokenizer moves on\<close>

lemma suffix_length_less: "suffix r (tl cs) \<Longrightarrow> cs \<noteq> [] \<Longrightarrow> suffix r cs \<and> length r < length cs"
  by (cases cs) (auto simp: suffix_def)

lemma suffix_Cons1: "suffix r cs \<Longrightarrow> suffix r (c # cs)"
  by (rule suffix_ConsI)

lemma suffix_Cons2: "suffix r cs \<Longrightarrow> suffix r (c # d # cs)"
  by (intro suffix_ConsI)

lemma read_quoted_suffix: "read_quoted ts cs = (ts', r) \<Longrightarrow> suffix r cs"
  by (induction ts cs rule: read_quoted.induct) (auto split: if_splits list.splits intro: suffix_ConsI)

lemma read_plain_suffix:
  "read_plain hint ts cs n v = Inr (ts', r, n', v') \<Longrightarrow> suffix r cs \<and> (n' = n \<and> v' = v \<or> suffix v' cs)"
proof (induction hint ts cs n v rule: read_plain.induct)
  case (2 hint ts c cs n v)
  show ?case
  proof (cases "c = backslash")
    case True
    show ?thesis
    proof (cases cs)
      case (Cons d ds)
      then show ?thesis using 2(1) [OF True Cons] 2(6) True by (auto intro: suffix_Cons2)
    qed (use 2(6) True in auto)
  next
    case b: False
    show ?thesis
    proof (cases "c = CHR '' ''")
      case True
      then show ?thesis using 2(2,3) [OF b True] 2(6) b by (auto split: if_splits intro: suffix_ConsI)
    next
      case s: False
      show ?thesis
      proof (cases "c = CHR ''('' \<or> c = CHR '')''")
        case True
        then show ?thesis using 2(6) b s by (auto split: if_splits)
      next
        case False
        then show ?thesis using 2(4,5) [OF b s False] 2(6) b s by (auto split: if_splits intro: suffix_ConsI)
      qed
    qed
  qed
qed auto

text \<open>Below $2^{31}$ characters the sizes fit: the conversion is exact, so nothing overflows and no size is negative.\<close>

lemma sint_int_size: "length s < 2 ^ 31 \<Longrightarrow> sint (int_size s) = int (length s)"
  unfolding int_size_def signed_of_nat by (simp add: signed_take_bit_int_eq_self)

lemma string_resize_own: "length s < 2 ^ 31 \<Longrightarrow> string_resize s (int_size s) = Inr s"
  by (simp add: string_resize_def sint_int_size)

lemma read_plain_length:
  "length ts + length cs < 2 ^ 31 \<Longrightarrow>
    \<exists>ts' r n' v'. read_plain hint ts cs n v = Inr (ts', r, n', v') \<and> length ts' \<le> length ts + length cs"
proof (induction hint ts cs n v rule: read_plain.induct)
  case (2 hint ts c cs n v)
  have len: "length (ts @ [c]) + length cs < 2 ^ 31" using 2(6) by simp
  show ?case
  proof (cases "c = backslash")
    case True
    show ?thesis
    proof (cases cs)
      case (Cons d ds)
      then have "length (ts @ [d]) + length ds < 2 ^ 31" using 2(6) by simp
      from 2(1) [OF True Cons this] show ?thesis using Cons True by fastforce
    qed (use True in simp)
  next
    case b: False
    show ?thesis
    proof (cases "c = CHR '' ''")
      case True
      have "sint (int_size (ts @ [c])) \<noteq> - (2 ^ 31)" using sint_int_size [of "ts @ [c]"] len by simp
      then show ?thesis using 2(2,3) [OF b True] len b True by simp
    next
      case s: False
      show ?thesis
      proof (cases "c = CHR ''('' \<or> c = CHR '')''")
        case True
        then show ?thesis using b s by simp
      next
        case False
        then show ?thesis using 2(4,5) [OF b s False] len b s by simp
      qed
    qed
  qed
qed simp

lemma read_quoted_length: "read_quoted ts cs = (ts', r) \<Longrightarrow> length ts' + length r \<le> length ts + length cs"
  by (induction ts cs rule: read_quoted.induct) (auto split: if_splits list.splits)

lemma read_string_quoted_result:
  assumes "read_string_quoted ts rest = (ts', n, r)"
  shows "n = int_size ts' \<and> suffix r (tl rest) \<and> (rest \<noteq> [] \<longrightarrow> length ts' \<le> length ts + length rest)"
proof -
  obtain ts1 r1 where q: "read_quoted (ts @ [quote]) (tl rest) = (ts1, r1)" by (cases "read_quoted (ts @ [quote]) (tl rest)")
  have "suffix r r1" "n = int_size ts'" "length ts' \<le> length ts1 + length r1"
    using assms q by (auto simp: read_string_quoted_def split: list.splits if_splits intro: suffix_ConsI)
  moreover have "rest \<noteq> [] \<Longrightarrow> Suc (length (tl rest)) = length rest" by (cases rest) simp_all
  ultimately show ?thesis using read_quoted_suffix [OF q] read_quoted_length [OF q] suffix_order.trans by fastforce
qed

lemma read_string_plain_suffix:
  assumes "read_string_plain hint ts rest v = Inr (ts', n, r)"
  shows "suffix r rest"
proof -
  obtain ts1 r1 n1 v1 where q: "read_plain hint ts rest (-1) v = Inr (ts1, r1, n1, v1)"
    using assms by (cases "read_plain hint ts rest (-1) v") (auto simp: read_string_plain_def)
  show ?thesis using read_plain_suffix [OF q] assms q by (auto simp: read_string_plain_def split: if_splits)
qed

text \<open>Taking the size of the string read, or one that is not negative, never fails below $2^{31}$ characters.\<close>

lemma read_string_plain_total:
  assumes "length ts + length rest < 2 ^ 31"
  shows "\<exists>ts' n r ts''. read_string_plain hint ts rest v = Inr (ts', n, r) \<and> string_resize ts' n = Inr ts''"
proof -
  obtain ts' r n v' where q: "read_plain hint ts rest (-1) v = Inr (ts', r, n, v')" "length ts' \<le> length ts + length rest"
    using read_plain_length [OF assms] by blast
  have own: "string_resize ts' (int_size ts') = Inr ts'" using assms q(2) by (intro string_resize_own) simp
  have pos: "\<exists>ts''. string_resize ts' n = Inr ts''" if "\<not> sint n < 0" using that by (simp add: string_resize_def)
  show ?thesis using q(1) own pos by (simp add: read_string_plain_def)
qed

lemma read_plain_error: "read_plain hint ts cs n v = Inl e \<Longrightarrow> e = UndefinedBehaviour"
  by (induction hint ts cs n v rule: read_plain.induct) (auto split: if_splits list.splits)

lemma read_string_plain_error: "read_string_plain hint ts rest v = Inl e \<Longrightarrow> e = UndefinedBehaviour"
  using read_plain_error [of hint ts rest "-1" v] by (cases "read_plain hint ts rest (-1) v") (auto simp: read_string_plain_def)

lemma string_resize_error: "string_resize s n = Inl e \<Longrightarrow> e = StdLengthError"
  by (simp add: string_resize_def split: if_splits)

text \<open>Without a question mark in front the first character belongs to the string.\<close>

lemma read_plain_first:
  assumes "c \<noteq> CHR '' ''" "c \<noteq> CHR ''(''" "c \<noteq> CHR '')''" "opMap c = None" "read_plain hint [] (c # cs) (-1) v = Inr (ts', r, n', v')"
  shows "suffix r cs \<and> (n' = -1 \<or> suffix v' cs)"
proof (cases "c = backslash")
  case True
  then show ?thesis
    using assms(5) read_plain_suffix [of hint] by (cases cs) (fastforce intro: suffix_ConsI)+
next
  case False
  then have "read_plain hint [c] cs (-1) v = Inr (ts', r, n', v')" using assms by simp
  then show ?thesis using read_plain_suffix by blast
qed

definition too_long :: "string \<Rightarrow> error \<Rightarrow> bool" where
  "too_long q e \<longleftrightarrow> 2 ^ 31 \<le> length q \<and> (e = UndefinedBehaviour \<or> e = StdLengthError)"

text \<open>The end of \<open>readString\<close>, behind the branches that read the two kinds of strings.\<close>

lemma read_branch:
  assumes "length ts + length rest \<le> length q" "rest \<noteq> []"
    and "x = (if b then Inr (read_string_quoted ts rest) else read_string_plain hint ts rest v)"
    and "\<And>ts' n r. x = Inr (ts', n, r) \<Longrightarrow> suffix r cs"
    and "y = bindE x (\<lambda>(ts, n, rest). bindE (string_resize ts n) (\<lambda>ts. Inr (string_token s token ts (s\<lparr>m_strIt := rest\<rparr>))))"
  shows "case y of Inl e \<Rightarrow> too_long q e
    | Inr (t, s') \<Rightarrow> t_type t = STRING \<and> suffix (m_strIt s') cs \<and> m_parseString s' = m_parseString s"
proof (cases x)
  case (Inl e)
  have nb: "\<not> b" using Inl assms(3) by (cases b) simp_all
  then have e: "e = UndefinedBehaviour" using Inl assms(3) read_string_plain_error [of hint ts rest v] by simp
  have "\<not> length q < 2 ^ 31" using read_string_plain_total [of ts rest hint v] assms(1,3) nb Inl by auto
  then show ?thesis using Inl e assms(5) by (simp add: too_long_def)
next
  case (Inr z)
  obtain ts' n r where z: "z = (ts', n, r)" by (cases z)
  have suf: "suffix r cs" using assms(4) Inr z by simp
  show ?thesis
  proof (cases "string_resize ts' n")
    case (Inl e)
    have "\<not> length q < 2 ^ 31"
    proof
      assume l: "length q < 2 ^ 31"
      show False
      proof (cases b)
        case True
        then have "n = int_size ts'" "length ts' \<le> length ts + length rest"
          using read_string_quoted_result [of ts rest ts' n r] assms(2,3) \<open>x = Inr z\<close> z by simp_all
        then show False using string_resize_own [of ts'] l assms(1) Inl by simp
      next
        case False
        then show False using read_string_plain_total [of ts rest hint v] assms(1,3) l \<open>x = Inr z\<close> z Inl by auto
      qed
    qed
    then show ?thesis using \<open>x = Inr z\<close> z Inl string_resize_error [OF Inl] assms(5) by (simp add: too_long_def)
  next
    case (Inr w)
    then show ?thesis using \<open>x = Inr z\<close> z suf assms(5) by (simp add: string_token_def)
  qed
qed

lemma readString_moves:
  assumes "m_strIt s = c # cs" "c \<noteq> CHR '' ''" "c \<noteq> CHR ''(''" "c \<noteq> CHR '')''" "opMap c = None" "t_tokenString token = []"
  shows "case readString hint s token of
      Inl x \<Rightarrow> x = UndefinedBehaviour \<and> c = CHR ''?'' \<and> cs = [] \<or> too_long (c # cs) x
    | Inr (t, s') \<Rightarrow> t_type t = STRING \<and> suffix (m_strIt s') cs \<and> m_parseString s' = m_parseString s"
proof (cases "c = CHR ''?''")
  case True
  show ?thesis
  proof (cases cs)
    case Nil
    then show ?thesis using assms True by (simp add: readString_def)
  next
    case (Cons d ds)
    have suf: "suffix r cs"
      if "(if d = quote then Inr (read_string_quoted ''?'' cs) else read_string_plain hint ''?'' cs (c # cs)) = Inr (ts, n, r)" for ts n r
      using that Cons read_string_quoted_result [of "''?''" cs ts n r] read_string_plain_suffix [of hint "''?''" cs _ ts n r]
      by (auto split: if_splits intro: suffix_ConsI)
    have "case readString hint s token of Inl e \<Rightarrow> too_long (c # cs) e
      | Inr (t, s') \<Rightarrow> t_type t = STRING \<and> suffix (m_strIt s') cs \<and> m_parseString s' = m_parseString s"
      by (rule read_branch [where ts = "''?''" and rest = cs and b = "d = quote" and v = "c # cs" and token = token, OF _ _ refl suf])
        (use assms(1,6) True Cons in \<open>cases "d = quote"; simp add: readString_def\<close>)+
    then show ?thesis by (auto split: sum.splits)
  qed
next
  case nq: False
  have suf: "suffix r cs"
    if "(if c = quote then Inr (read_string_quoted [] (c # cs)) else read_string_plain hint [] (c # cs) (c # cs)) = Inr (ts, n, r)" for ts n r
  proof (cases "c = quote")
    case True
    then show ?thesis using that read_string_quoted_result [of "[]" "c # cs" ts n r] by simp
  next
    case False
    then have x: "read_string_plain hint [] (c # cs) (c # cs) = Inr (ts, n, r)" using that by simp
    obtain ts1 r1 n1 v1 where p: "read_plain hint [] (c # cs) (-1) (c # cs) = Inr (ts1, r1, n1, v1)"
      using x by (cases "read_plain hint [] (c # cs) (-1) (c # cs)") (auto simp: read_string_plain_def)
    from read_plain_first [OF assms(2-5) p] show ?thesis using x p by (auto simp: read_string_plain_def split: if_splits)
  qed
  have "case readString hint s token of Inl e \<Rightarrow> too_long (c # cs) e
    | Inr (t, s') \<Rightarrow> t_type t = STRING \<and> suffix (m_strIt s') cs \<and> m_parseString s' = m_parseString s"
    by (rule read_branch [where ts = "[]" and rest = "c # cs" and b = "c = quote" and v = "c # cs" and token = token, OF _ _ refl suf])
      (use assms(1,6) nq in \<open>cases "c = quote"; simp add: readString_def\<close>)+
  then show ?thesis by (auto split: sum.splits)
qed

definition tok_ok :: "string \<Rightarrow> tokenizer \<Rightarrow> bool" where
  "tok_ok q s \<longleftrightarrow> m_parseString s = q \<and> suffix (m_strIt s) q"

definition tok_left :: "tokenizer \<Rightarrow> nat" where
  "tok_left s = 2 * length (m_strIt s) + (if m_beforeWasTerminal s then 1 else 0)"

lemma skip_blanks_suffix: "suffix (skip_blanks cs) cs"
  by (induction cs) (auto intro: suffix_ConsI)

lemma skip_blanks_hd: "skip_blanks cs = c # ds \<Longrightarrow> c \<noteq> CHR '' ''"
  by (induction cs) (auto split: if_splits)

lemma nextToken_progress:
  "progress (nextToken hint) tok_left (tok_ok q) (\<lambda>e. e = UndefinedBehaviour \<and> q \<noteq> [] \<and> last q = CHR ''?'' \<or> too_long q e)"
  unfolding progress_def
proof (intro allI impI)
  fix s
  assume ok: "tok_ok q s"
  let ?s = "s\<lparr>m_strIt := skip_blanks (m_strIt s)\<rparr>" and ?t = "token_new\<lparr>t_type := ENDOFINPUT\<rparr>"
  have sk: "suffix (m_strIt ?s) (m_strIt s)" "length (m_strIt ?s) \<le> length (m_strIt s)"
    using skip_blanks_suffix [of "m_strIt s"] by (simp_all add: suffix_length_le)
  then have q: "suffix (m_strIt ?s) q" "m_parseString s = q" using ok suffix_order.trans by (auto simp: tok_ok_def)
  show "case nextToken hint s of
      Inl x \<Rightarrow> x = UndefinedBehaviour \<and> q \<noteq> [] \<and> last q = CHR ''?'' \<or> too_long q x
    | Inr (t, s') \<Rightarrow> tok_ok q s' \<and> tok_left s' \<le> tok_left s \<and> (t_type t = ENDOFINPUT \<or> tok_left s' < tok_left s)"
  proof (cases "m_strIt ?s")
    case Nil
    then show ?thesis using q sk(2) by (simp add: nextToken_def Let_def tok_ok_def tok_left_def)
  next
    case (Cons c cs)
    have cs: "suffix cs q" "length cs < length (m_strIt s)" "c \<noteq> CHR '' ''"
      using q(1) Cons sk(2) skip_blanks_hd [of "m_strIt s" c cs] by (auto simp: suffix_def)
    have one: "tok_ok q (s\<lparr>m_strIt := cs, m_beforeWasTerminal := b\<rparr>)" "tok_left (s\<lparr>m_strIt := cs, m_beforeWasTerminal := b\<rparr>) < tok_left s" for b
      using cs q by (auto simp: tok_ok_def tok_left_def)
    have same: "tok_ok q (s\<lparr>m_strIt := cs\<rparr>)" "tok_left (s\<lparr>m_strIt := cs\<rparr>) < tok_left s"
      using cs q by (auto simp: tok_ok_def tok_left_def)
    have zero: "m_beforeWasTerminal s \<Longrightarrow> tok_ok q (?s\<lparr>m_beforeWasTerminal := False\<rparr>) \<and> tok_left (?s\<lparr>m_beforeWasTerminal := False\<rparr>) < tok_left s"
      using q sk(2) by (auto simp: tok_ok_def tok_left_def)
    consider v where "opMap c = Some v" | "opMap c = None" "c = CHR ''(''" | "opMap c = None" "c = CHR '')''"
      | "opMap c = None" "c \<noteq> CHR ''(''" "c \<noteq> CHR '')''" "m_beforeWasTerminal s"
      | "opMap c = None" "c \<noteq> CHR ''(''" "c \<noteq> CHR '')''" "\<not> m_beforeWasTerminal s" by (cases "opMap c"; blast)
    then show ?thesis
    proof cases
      case 1
      then show ?thesis using Cons one [of False] by (simp add: nextToken_def Let_def char_token_def)
    next
      case 2
      then show ?thesis using Cons zero same by (cases "m_beforeWasTerminal s") (auto simp: nextToken_def Let_def char_token_def createDefaultOp_def)
    next
      case 3
      then show ?thesis using Cons one [of True] by (simp add: nextToken_def Let_def char_token_def)
    next
      case 4
      then show ?thesis using Cons zero by (simp add: nextToken_def Let_def createDefaultOp_def)
    next
      case 5
      note m = readString_moves [of ?s c cs ?t hint, OF Cons cs(3) 5(2,3,1)]
      have nt: "nextToken hint s = bindE (readString hint ?s ?t) (\<lambda>(token, s). Inr (token, s\<lparr>m_beforeWasTerminal := True\<rparr>))"
        using Cons 5 by (simp add: nextToken_def Let_def)
      show ?thesis
      proof (cases "readString hint ?s ?t")
        case (Inl x)
        then have "x = UndefinedBehaviour \<and> m_strIt ?s = [CHR ''?''] \<or> too_long (c # cs) x" using m Cons by (simp add: token_new_def)
        moreover have "length (c # cs) \<le> length q" using q(1) unfolding Cons by (rule suffix_length_le)
        ultimately have "x = UndefinedBehaviour \<and> q \<noteq> [] \<and> last q = CHR ''?'' \<or> too_long q x"
          using q(1) by (auto simp: suffix_def too_long_def)
        then show ?thesis using nt Inl by simp
      next
        case (Inr y)
        obtain t s' where y: "y = (t, s')" by (cases y)
        have s': "suffix (m_strIt s') cs" "m_parseString s' = q" using m Inr y q(2) by (simp_all add: token_new_def)
        then have "suffix (m_strIt s') q" "length (m_strIt s') \<le> length cs" using cs(1) suffix_order.trans suffix_length_le by blast+
        then show ?thesis using nt Inr y s'(2) cs(2) 5(4) by (simp add: tok_ok_def tok_left_def)
      qed
    qed
  qed
qed

section \<open>The parser inverts the written form\<close>

datatype sym = SStr string | SOp u8 | SOpen | SClose | SEnd | SNone

fun sym_of :: "token \<Rightarrow> sym" where
  "sym_of t = (case t_type t of STRING \<Rightarrow> SStr (t_tokenString t) | OPERATOR \<Rightarrow> SOp (t_op t) | BRACE_OPEN \<Rightarrow> SOpen
     | BRACE_CLOSE \<Rightarrow> SClose | ENDOFINPUT \<Rightarrow> SEnd | _ \<Rightarrow> SNone)"

declare sym_of.simps [simp del]

lemma sym_of_type:
  "sym_of t = SStr q \<Longrightarrow> t_type t = STRING \<and> t_tokenString t = q" "sym_of t = SOp v \<Longrightarrow> t_type t = OPERATOR \<and> t_op t = v"
  "sym_of t = SOpen \<Longrightarrow> t_type t = BRACE_OPEN" "sym_of t = SClose \<Longrightarrow> t_type t = BRACE_CLOSE" "sym_of t = SEnd \<Longrightarrow> t_type t = ENDOFINPUT"
  by (auto simp: sym_of.simps split: token_type.splits)

text \<open>The operators associate to the left; a right operand that is an operation is put into brackets.\<close>

fun syms :: "node \<Rightarrow> sym list" where
  "syms (LeafNode q) = [SStr q]"
| "syms (OpNode v [l, r]) = syms l @ SOp v # (case r of LeafNode q \<Rightarrow> syms r | _ \<Rightarrow> SOpen # syms r @ [SClose])"
| "syms (OpNode v _) = []"

text \<open>The tokenizer \<open>s\<close> delivers the symbols \<open>ks\<close> and is \<open>s'\<close> then.\<close>

fun delivers :: "('s \<Rightarrow> (token \<times> 's) res) \<Rightarrow> 's \<Rightarrow> sym list \<Rightarrow> 's \<Rightarrow> bool" where
  "delivers next s [] s' \<longleftrightarrow> s' = s"
| "delivers next s (k # ks) s' \<longleftrightarrow> (\<exists>t s1. next s = Inr (t, s1) \<and> sym_of t = k \<and> delivers next s1 ks s')"

lemma delivers_append: "delivers next s (ks @ ls) s' \<longleftrightarrow> (\<exists>s1. delivers next s ks s1 \<and> delivers next s1 ls s')"
  by (induction ks arbitrary: s) auto

text \<open>The current token and those that follow.\<close>

definition ahead :: "('s \<Rightarrow> (token \<times> 's) res) \<Rightarrow> 's parser \<Rightarrow> sym list \<Rightarrow> 's \<Rightarrow> bool" where
  "ahead next p ks s' \<longleftrightarrow> \<not> p_done p \<and> (case ks of [] \<Rightarrow> False | k # ls \<Rightarrow> sym_of (p_token p) = k \<and> delivers next (p_tok p) ls s')"

text \<open>Reading an operand: the node is pushed, and the state that follows.\<close>

definition reads :: "('s \<Rightarrow> (token \<times> 's) res) \<Rightarrow> 's parser \<Rightarrow> node \<Rightarrow> sym list \<Rightarrow> 's \<Rightarrow> 's parser \<Rightarrow> bool" where
  "reads next p t ks s' p' \<longleftrightarrow> parse_loop next p = parse_loop next p' \<and> ahead next p' ks s' \<and>
     p_states p' = next_state (hd (p_states p)) # p_states p \<and> p_nodes p' = t # p_nodes p \<and> (\<exists>x. p_parse p' = x # p_parse p)"

lemma loop_step:
  "p_states p = st # ss \<Longrightarrow> \<not> p_done p \<Longrightarrow> parse_step next st p = Inr p' \<Longrightarrow> parse_loop next p = parse_loop next p'"
  by (subst parse_loop.simps) simp

lemma ahead_shift:
  assumes "ahead next p (k # l # ks) s'" "shift next st p = r"
  obtains t s1 where "r = Inr (p\<lparr>p_parse := p_token p # p_parse p, p_states := st # p_states p, p_token := t, p_tok := s1\<rparr>)"
    "sym_of t = l" "delivers next s1 ks s'"
  using assms by (auto simp: ahead_def shift_def)

lemma reads_leaf:
  assumes "p_states p = st # ss" "operand_state st" "ahead next p (SStr q # k # ks) s'"
  shows "\<exists>p'. reads next p (LeafNode q) (k # ks) s' p'"
proof -
  have ty: "t_type (p_token p) = STRING" "t_tokenString (p_token p) = q" "\<not> p_done p"
    using assms(3) sym_of_type(1) by (simp_all add: ahead_def)
  obtain t s1 where sh: "shift next PS_TERMINAL p =
      Inr (p\<lparr>p_parse := p_token p # p_parse p, p_states := PS_TERMINAL # p_states p, p_token := t, p_tok := s1\<rparr>)"
      and t: "sym_of t = k" "delivers next s1 ks s'" by (rule ahead_shift [OF assms(3) refl])
  let ?p1 = "p\<lparr>p_parse := p_token p # p_parse p, p_states := PS_TERMINAL # p_states p, p_token := t, p_tok := s1\<rparr>"
  have "parse_step next st p = Inr ?p1" using assms(2) ty sh by (auto simp: parse_step_def operand_state_def)
  then have 1: "parse_loop next p = parse_loop next ?p1" using loop_step assms(1) ty(3) by metis
  let ?p2 = "?p1\<lparr>p_parse := (p_token p)\<lparr>t_type := NT_SA\<rparr> # p_parse p, p_states := next_state st # st # ss, p_nodes := LeafNode q # p_nodes p\<rparr>"
  have "parse_step next PS_TERMINAL ?p1 = Inr ?p2"
    using assms(1,2) ty(2) by (auto simp: parse_step_def reduce_terminal_def after_operand_def operand_state_def numeral_eq_Suc)
  then have "parse_loop next ?p1 = parse_loop next ?p2" using ty(3) by (intro loop_step) simp_all
  then have "reads next p (LeafNode q) (k # ks) s' ?p2" unfolding reads_def using 1 t ty(3) assms(1) by (simp add: ahead_def)
  then show ?thesis by blast
qed

text \<open>Brackets around an operand.\<close>

lemma reads_braces:
  assumes "p_states p = st # ss" "operand_state st" "ahead next p (SOpen # syms t @ SClose # k # ks) s'" "syms t \<noteq> []"
    and IH: "\<And>p ss ls. p_states p = PS_BRACE_OPENED # ss \<Longrightarrow> ahead next p (syms t @ SClose # ls) s' \<Longrightarrow> \<exists>p'. reads next p t (SClose # ls) s' p'"
  shows "\<exists>p'. reads next p t (k # ks) s' p'"
proof -
  have ty: "t_type (p_token p) = BRACE_OPEN" "\<not> p_done p" using assms(3) sym_of_type(3) by (simp_all add: ahead_def)
  obtain l ls where l: "syms t @ SClose # k # ks = l # ls" using assms(4) by (cases "syms t") auto
  obtain u s1 where sh: "shift next PS_BRACE_OPENED p =
      Inr (p\<lparr>p_parse := p_token p # p_parse p, p_states := PS_BRACE_OPENED # p_states p, p_token := u, p_tok := s1\<rparr>)"
      and u: "sym_of u = l" "delivers next s1 ls s'" by (rule ahead_shift [OF assms(3) [unfolded l] refl])
  let ?p1 = "p\<lparr>p_parse := p_token p # p_parse p, p_states := PS_BRACE_OPENED # p_states p, p_token := u, p_tok := s1\<rparr>"
  have "parse_step next st p = Inr ?p1" using assms(2) ty sh by (auto simp: parse_step_def operand_state_def)
  then have 1: "parse_loop next p = parse_loop next ?p1" using loop_step assms(1) ty(2) by metis
  have a1: "ahead next ?p1 (syms t @ SClose # k # ks) s'" unfolding l using u ty(2) by (simp add: ahead_def)
  have "p_states ?p1 = PS_BRACE_OPENED # p_states p" by simp
  from IH [OF this a1] obtain p2 x where
    2: "parse_loop next ?p1 = parse_loop next p2" "ahead next p2 (SClose # k # ks) s'" "p_states p2 = PS_BEFORE_OP_OR_BRACE # PS_BRACE_OPENED # p_states p"
      "p_nodes p2 = t # p_nodes p" "p_parse p2 = x # p_token p # p_parse p" by (auto simp: reads_def)
  have ty2: "t_type (p_token p2) = BRACE_CLOSE" "\<not> p_done p2" using 2(2) sym_of_type(4) by (simp_all add: ahead_def)
  obtain w s3 where sh2: "shift next PS_BRACE_CLOSED p2 =
      Inr (p2\<lparr>p_parse := p_token p2 # p_parse p2, p_states := PS_BRACE_CLOSED # p_states p2, p_token := w, p_tok := s3\<rparr>)"
      and w: "sym_of w = k" "delivers next s3 ks s'" by (rule ahead_shift [OF 2(2) refl])
  let ?p3 = "p2\<lparr>p_parse := p_token p2 # p_parse p2, p_states := PS_BRACE_CLOSED # p_states p2, p_token := w, p_tok := s3\<rparr>"
  have "parse_step next PS_BEFORE_OP_OR_BRACE p2 = Inr ?p3" using ty2 sh2 by (simp add: parse_step_def)
  then have 3: "parse_loop next p2 = parse_loop next ?p3" using loop_step 2(3) ty2(2) by metis
  let ?p4 = "?p3\<lparr>p_parse := w\<lparr>t_type := NT_SA\<rparr> # p_parse p, p_states := next_state st # st # ss\<rparr>"
  have "parse_step next PS_BRACE_CLOSED ?p3 = Inr ?p4"
    using assms(1,2) 2(3,5) by (auto simp: parse_step_def reduce_brace_def after_operand_def operand_state_def numeral_eq_Suc)
  then have "parse_loop next ?p3 = parse_loop next ?p4" using ty2(2) by (intro loop_step) simp_all
  then have "reads next p t (k # ks) s' ?p4" unfolding reads_def using 1 2(1,4) 3 w ty2(2) assms(1) by (simp add: ahead_def)
  then show ?thesis by blast
qed

lemma syms_nonempty: "binary t \<Longrightarrow> syms t \<noteq> []"
  by (induction t rule: syms.induct) auto

lemma reads_tree:
  "binary t \<Longrightarrow> p_states p = st # ss \<Longrightarrow> st = PS_INIT \<or> st = PS_BRACE_OPENED \<Longrightarrow> ahead next p (syms t @ k # ks) s' \<Longrightarrow>
    \<exists>p'. reads next p t (k # ks) s' p'"
proof (induction t arbitrary: p st ss k ks rule: binary.induct)
  case (1 q)
  then show ?case by (intro reads_leaf) (auto simp: operand_state_def)
next
  case (2 v l r)
  let ?rs = "case r of LeafNode q \<Rightarrow> syms r | _ \<Rightarrow> SOpen # syms r @ [SClose]"
  have b: "binary l" "binary r" using "2.prems"(1) by simp_all
  have "ahead next p (syms l @ SOp v # ?rs @ k # ks) s'" using "2.prems"(4) by simp
  from "2.IH"(1) [OF b(1) "2.prems"(2,3) this] obtain p1 x where
    1: "parse_loop next p = parse_loop next p1" "ahead next p1 (SOp v # ?rs @ k # ks) s'" "p_states p1 = next_state st # st # ss"
      "p_nodes p1 = l # p_nodes p" "p_parse p1 = x # p_parse p" using "2.prems"(2) by (auto simp: reads_def)
  obtain k2 ks2 where k2: "?rs @ k # ks = k2 # ks2" by (cases "?rs @ k # ks") auto
  have ty: "t_type (p_token p1) = OPERATOR" "t_op (p_token p1) = v" "\<not> p_done p1"
    using 1(2) sym_of_type(2) by (simp_all add: ahead_def)
  obtain u s1 where sh: "shift next PS_AFTER_OP p1 =
      Inr (p1\<lparr>p_parse := p_token p1 # p_parse p1, p_states := PS_AFTER_OP # p_states p1, p_token := u, p_tok := s1\<rparr>)"
      and u: "sym_of u = k2" "delivers next s1 ks2 s'" by (rule ahead_shift [OF 1(2) [unfolded k2] refl])
  let ?p2 = "p1\<lparr>p_parse := p_token p1 # p_parse p1, p_states := PS_AFTER_OP # p_states p1, p_token := u, p_tok := s1\<rparr>"
  have "parse_step next (next_state st) p1 = Inr ?p2" using "2.prems"(3) ty sh by (auto simp: parse_step_def)
  then have l2: "parse_loop next p1 = parse_loop next ?p2" using loop_step 1(3) ty(3) by metis
  have a2: "ahead next ?p2 (?rs @ k # ks) s'" unfolding k2 using u ty(3) by (simp add: ahead_def)
  have st2: "p_states ?p2 = PS_AFTER_OP # p_states p1" "operand_state PS_AFTER_OP" by (simp_all add: operand_state_def)
  have "\<exists>p'. reads next ?p2 r (k # ks) s' p'"
  proof (cases r)
    case (LeafNode q)
    have "ahead next ?p2 (SStr q # k # ks) s'" using a2 LeafNode by simp
    then show ?thesis unfolding LeafNode by (rule reads_leaf [OF st2])
  next
    case (OpNode w cs)
    have a3: "ahead next ?p2 (SOpen # syms r @ SClose # k # ks) s'" using a2 OpNode by simp
    have "\<exists>p'. reads next p r (SClose # ls) s' p'" if "p_states p = PS_BRACE_OPENED # ss" "ahead next p (syms r @ SClose # ls) s'" for p ss ls
      by (rule "2.IH"(2) [OF b(2) that(1) _ that(2)]) simp
    then show ?thesis by (rule reads_braces [OF st2 a3 syms_nonempty [OF b(2)]])
  qed
  then obtain p3 y where
    3: "parse_loop next ?p2 = parse_loop next p3" "ahead next p3 (k # ks) s'" "p_nodes p3 = r # l # p_nodes p"
      "p_states p3 = PS_OP_COMPLETED_OR_BEFORE_OP # PS_AFTER_OP # next_state st # st # ss" "p_parse p3 = y # p_token p1 # x # p_parse p"
    using 1(3-5) by (auto simp: reads_def)
  have nd: "\<not> p_done p3" using 3(2) by (simp add: ahead_def)
  let ?p4 = "p3\<lparr>p_nodes := OpNode v [l, r] # p_nodes p, p_states := next_state st # st # ss, p_parse := (p_token p3)\<lparr>t_type := NT_SA\<rparr> # p_parse p\<rparr>"
  have "parse_step next PS_OP_COMPLETED_OR_BEFORE_OP p3 = Inr ?p4"
    using "2.prems"(3) 3(3-5) ty(2) by (auto simp: parse_step_def reduce_op_def after_operand_def numeral_eq_Suc)
  then have "parse_loop next p3 = parse_loop next ?p4" using loop_step 3(4) nd by metis
  then have "reads next p (OpNode v [l, r]) (k # ks) s' ?p4"
    using 1(1) l2 3(1,2) nd "2.prems"(2) by (simp add: reads_def ahead_def)
  then show ?case by blast
qed simp_all

text \<open>So a tokenizer that delivers the symbols of a tree and then the end gives that tree.\<close>

lemma parse_tree:
  assumes "binary t" "has s" "delivers next s (syms t @ [SEnd]) s'"
  shows "parse has next s = Some (Inr (Some t))"
proof -
  obtain k ks where k: "syms t = k # ks" using syms_nonempty [OF assms(1)] by (cases "syms t") auto
  then obtain u s1 where u: "next s = Inr (u, s1)" "sym_of u = k" "delivers next s1 (ks @ [SEnd]) s'" using assms(3) by auto
  let ?p = "\<lparr>p_tok = s1, p_token = u, p_done = False, p_states = [PS_INIT], p_parse = [], p_nodes = []\<rparr>"
  have a: "ahead next ?p (syms t @ [SEnd]) s'" using u k by (simp add: ahead_def)
  have "p_states ?p = [PS_INIT]" by simp
  from reads_tree [OF assms(1) this _ a] obtain p' where
    1: "parse_loop next ?p = parse_loop next p'" "ahead next p' [SEnd] s'" "p_states p' = [PS_BEFORE_OP_OR_DONE, PS_INIT]" "p_nodes p' = [t]"
    by (auto simp: reads_def)
  have ty: "t_type (p_token p') = ENDOFINPUT" "\<not> p_done p'" using 1(2) sym_of_type(5) by (simp_all add: ahead_def)
  have "parse_loop next p' = parse_loop next (p'\<lparr>p_done := True\<rparr>)"
    using loop_step [OF 1(3) ty(2)] ty(1) by (simp add: parse_step_def)
  also have "\<dots> = Some (Inr (p'\<lparr>p_done := True\<rparr>))" using 1(3) by (subst parse_loop.simps) simp
  finally show ?thesis using 1(1,4) u(1) assms(2) by (simp add: parse_def)
qed

text \<open>An error of the tokenizer behind an operator is the error of the parser.\<close>

lemma parse_error:
  assumes "binary t" "has s" "delivers next s (syms t @ [SOp v]) s'" "next s' = Inl e"
  shows "parse has next s = Some (Inl e)"
proof -
  obtain k ks where k: "syms t = k # ks" using syms_nonempty [OF assms(1)] by (cases "syms t") auto
  then obtain u s1 where u: "next s = Inr (u, s1)" "sym_of u = k" "delivers next s1 (ks @ [SOp v]) s'" using assms(3) by auto
  let ?p = "\<lparr>p_tok = s1, p_token = u, p_done = False, p_states = [PS_INIT], p_parse = [], p_nodes = []\<rparr>"
  have a: "ahead next ?p (syms t @ [SOp v]) s'" using u k by (simp add: ahead_def)
  have "p_states ?p = [PS_INIT]" by simp
  from reads_tree [OF assms(1) this _ a] obtain p' where
    1: "parse_loop next ?p = parse_loop next p'" "ahead next p' [SOp v] s'" "p_states p' = [PS_BEFORE_OP_OR_DONE, PS_INIT]"
    by (auto simp: reads_def)
  have ty: "t_type (p_token p') = OPERATOR" "\<not> p_done p'" "p_tok p' = s'" using 1(2) sym_of_type(2) by (simp_all add: ahead_def)
  have "parse_loop next p' = Some (Inl e)"
    using 1(3) ty assms(4) by (subst parse_loop.simps) (simp add: parse_step_def shift_def)
  then show ?thesis using 1(1) u(1) assms(2) by (simp add: parse_def)
qed

end
