(* ===== verification/OpTreeQuery.thy ===== *)
theory OpTreeQuery
  imports OpTreeProps
begin

text \<open>
  What \<open>sanitize\<close> does to a query, the written form of a tree, and the properties of the parser of set operation queries.
\<close>

section \<open>Sanitizing\<close>

text \<open>The brackets of a string without those behind a backslash: the number still open, if none is closed too many.\<close>

fun open_brackets :: "string \<Rightarrow> nat \<Rightarrow> nat option" where
  "open_brackets [] n = Some n"
| "open_brackets (c # cs) n =
     (if c = backslash then (case cs of [] \<Rightarrow> None | d # ds \<Rightarrow> open_brackets ds n)
      else if c = CHR '')'' then (if n = 0 then None else open_brackets cs (n - 1))
      else if c = CHR ''('' then open_brackets cs (n + 1)
      else open_brackets cs n)"

lemma opMap_specials [simp]: "opMap backslash = None" "opMap (CHR '')'') = None" "opMap (CHR ''('') = None" "opMap (CHR '' '') = None"
  "opMap quote = None" "opMap (CHR ''?'') = None"
  by (simp_all add: opMap_def)

text \<open>
  What the loop writes for a string does not depend on what was written before. Read again from the same state it is written
  unchanged, and its brackets are those that were counted.
\<close>

lemma sanitize_loop_output:
  "unat bc + length cs < 2 ^ 32 \<Longrightarrow>
    \<exists>out bc' b'. (\<forall>ostr. sanitize_loop cs bc b ostr = (bc', ostr @ out)) \<and>
      (\<forall>rest ostr. sanitize_loop (out @ rest) bc b ostr = sanitize_loop rest bc' b' (ostr @ out)) \<and>
      (\<forall>rest. open_brackets (out @ rest) (unat bc) = open_brackets rest (unat bc')) \<and>
      length out \<le> length cs \<and> unat bc' \<le> unat bc + length cs"
proof (induction "length cs" arbitrary: cs bc b rule: less_induct)
  case less
  show ?case
  proof (cases cs)
    case Nil
    then show ?thesis by (intro exI [of _ "[]"] exI [of _ bc] exI [of _ b]) simp
  next
    case (Cons c ds)
    text \<open>A character that is kept, or one that is dropped, before the rest of the string.\<close>
    have keep: ?thesis
      if "\<And>rest ostr. sanitize_loop (pre @ rest) bc b ostr = sanitize_loop rest bc1 b1 (ostr @ pre)" "cs = pre @ es" "pre \<noteq> []"
        "\<And>rest. open_brackets (pre @ rest) (unat bc) = open_brackets rest (unat bc1)" "unat bc1 \<le> unat bc + length pre" for pre es bc1 b1
    proof -
      have "length es < length cs" "unat bc1 + length es < 2 ^ 32" using that(2,3,5) less.prems by auto
      from less.hyps [OF this, of b1] obtain out bc' b' where
        o: "\<And>ostr. sanitize_loop es bc1 b1 ostr = (bc', ostr @ out)"
          "\<And>rest ostr. sanitize_loop (out @ rest) bc1 b1 ostr = sanitize_loop rest bc' b' (ostr @ out)"
          "\<And>rest. open_brackets (out @ rest) (unat bc1) = open_brackets rest (unat bc')" "length out \<le> length es" "unat bc' \<le> unat bc1 + length es"
        by blast
      show ?thesis
        using o that(1,4,5) unfolding that(2)
        by (intro exI [of _ "pre @ out"] exI [of _ bc'] exI [of _ b']) (simp del: sanitize_loop.simps open_brackets.simps)
    qed
    have skip: ?thesis if "\<And>ostr. sanitize_loop cs bc b ostr = sanitize_loop ds bc b ostr"
    proof -
      have "length ds < length cs" "unat bc + length ds < 2 ^ 32" using Cons less.prems by auto
      from less.hyps [OF this, of b] show ?thesis unfolding that using Cons by auto
    qed
    show ?thesis
    proof (cases "c = backslash")
      case True
      show ?thesis
      proof (cases ds)
        case Nil
        then show ?thesis using Cons True by (intro exI [of _ "[]"] exI [of _ bc] exI [of _ b]) simp
      next
        case (Cons d es)
        then show ?thesis using \<open>cs = c # ds\<close> True by (intro keep [of "[c, d]" bc b es]) simp_all
      qed
    next
      case b: False
      consider "c = CHR '')''" "bc = 0" | "c = CHR '')''" "bc \<noteq> 0" | "opMap c \<noteq> None" "b" | "opMap c \<noteq> None" "\<not> b" | "c = CHR ''(''"
        | "c \<noteq> CHR '')''" "opMap c = None" "c \<noteq> CHR ''(''" by blast
      then show ?thesis
      proof cases
        case 1
        then show ?thesis using Cons by (intro skip) simp
      next
        case 2
        have "unat (bc - 1) = unat bc - 1" "0 < unat bc" using 2(2) by (simp_all add: unat_minus_one unat_gt_0)
        then show ?thesis using Cons 2 by (intro keep [of "[c]" "bc - 1" b ds]) auto
      next
        case 3
        then have "c \<noteq> CHR '')''" by auto
        then show ?thesis using Cons 3 b by (intro skip) auto
      next
        case 4
        then have "c \<noteq> CHR '')''" "c \<noteq> CHR ''(''" by auto
        then show ?thesis using Cons 4 b by (intro keep [of "[c]" bc True ds]) auto
      next
        case 5
        have "unat (bc + 1) = unat bc + 1" using less.prems Cons by (subst unat_add_nowrap) simp_all
        then show ?thesis using Cons 5 by (intro keep [of "[c]" "bc + 1" b ds]) auto
      next
        case 6
        then show ?thesis using Cons b by (intro keep [of "[c]" bc False ds]) auto
      qed
    qed
  qed
qed

lemma sanitize_closing:
  "sanitize_loop (replicate (unat bc) (CHR '')'')) bc b ostr = (0, ostr @ replicate (unat bc) (CHR '')''))"
proof (induction "unat bc" arbitrary: bc ostr)
  case 0
  then have "bc = 0" by (simp add: unat_eq_zero)
  then show ?case by simp
next
  case (Suc n)
  then have z: "bc \<noteq> 0" by auto
  then have n: "n = unat (bc - 1)" using Suc.hyps(2) by (simp add: unat_minus_one)
  show ?case using Suc.hyps(1) [OF n] z unfolding Suc.hyps(2) [symmetric] by (simp add: n)
qed

lemma open_brackets_closing: "open_brackets (replicate n (CHR '')'')) n = Some 0"
  by (induction n) simp_all

lemma sanitize_normal:
  assumes "length q < 2 ^ 32"
  shows "sanitize (sanitize q) = sanitize q" "open_brackets (sanitize q) 0 = Some 0"
proof -
  from sanitize_loop_output [of 0 q False] assms obtain out bc b where
    o: "\<And>ostr. sanitize_loop q 0 False ostr = (bc, ostr @ out)"
      "\<And>rest ostr. sanitize_loop (out @ rest) 0 False ostr = sanitize_loop rest bc b (ostr @ out)"
      "\<And>rest. open_brackets (out @ rest) 0 = open_brackets rest (unat bc)"
    by auto
  have s: "sanitize q = out @ replicate (unat bc) (CHR '')'')" using o(1) [of "[]"] by (cases "bc = 0") (simp_all add: sanitize_def word_gt_0)
  have "sanitize_loop (sanitize q) 0 False [] = (0, sanitize q)" unfolding s o(2) by (simp add: sanitize_closing)
  then show "sanitize (sanitize q) = sanitize q" by (simp add: sanitize_def [of "sanitize q"])
  show "open_brackets (sanitize q) 0 = Some 0" unfolding s o(3) by (rule open_brackets_closing)
qed

section \<open>The written form of a tree\<close>

definition opChar :: "u8 \<Rightarrow> char" where
  "opChar v = (if v = OT_UNITE then CHR ''+'' else if v = OT_DIFF then CHR ''-'' else if v = OT_INTERSECT then CHR ''/'' else CHR ''^'')"

fun query :: "node \<Rightarrow> string" where
  "query (LeafNode q) = q"
| "query (OpNode v [l, r]) = query l @ [CHR '' '', opChar v] @ (case r of LeafNode q \<Rightarrow> query r | _ \<Rightarrow> CHR ''('' # query r @ [CHR '')''])"
| "query (OpNode v _) = []"

definition plain :: "char \<Rightarrow> bool" where
  "plain c \<longleftrightarrow> c \<notin> {CHR '' '', CHR ''('', CHR '')'', backslash, quote, CHR ''?''} \<and> opMap c = None"

fun plain_tree :: "node \<Rightarrow> bool" where
  "plain_tree (LeafNode q) \<longleftrightarrow> q \<noteq> [] \<and> list_all plain q"
| "plain_tree (OpNode v [l, r]) \<longleftrightarrow> v \<in> {OT_UNITE, OT_DIFF, OT_INTERSECT, OT_SYM_DIFF} \<and> plain_tree l \<and> plain_tree r"
| "plain_tree (OpNode v _) \<longleftrightarrow> False"

lemma plain_tree_binary: "plain_tree t \<Longrightarrow> binary t"
  by (induction t rule: binary.induct) simp_all

lemma query_nonempty: "plain_tree t \<Longrightarrow> query t \<noteq> []"
  by (induction t rule: binary.induct) simp_all

lemma opMap_opChar: "v \<in> {OT_UNITE, OT_DIFF, OT_INTERSECT, OT_SYM_DIFF} \<Longrightarrow> opMap (opChar v) = Some v"
  by (auto simp: opMap_def opChar_def OT_UNITE_def OT_DIFF_def OT_INTERSECT_def OT_SYM_DIFF_def)

lemma opChar_special: "opChar v \<noteq> backslash" "opChar v \<noteq> CHR '')''" "opChar v \<noteq> CHR ''(''" "opChar v \<noteq> CHR '' ''"
  by (simp_all add: opChar_def)

text \<open>Sanitizing does not change it.\<close>

lemma sanitize_word: "list_all plain q \<Longrightarrow> q \<noteq> [] \<Longrightarrow> sanitize_loop (q @ rest) bc b ostr = sanitize_loop rest bc False (ostr @ q)"
proof (induction q arbitrary: b ostr)
  case (Cons c q)
  then have "sanitize_loop (c # q @ rest) bc b ostr = sanitize_loop (q @ rest) bc False (ostr @ [c])" by (simp add: plain_def)
  then show ?case using Cons by (cases "q = []") simp_all
qed simp

lemma sanitize_query:
  "plain_tree t \<Longrightarrow> unat bc + length (query t) < 2 ^ 32 \<Longrightarrow>
    sanitize_loop (query t @ rest) bc b ostr = sanitize_loop rest bc False (ostr @ query t)"
proof (induction t arbitrary: bc b ostr rest rule: binary.induct)
  case (1 q)
  then show ?case by (simp add: sanitize_word)
next
  case (2 v l r)
  let ?rs = "case r of LeafNode q \<Rightarrow> query r | _ \<Rightarrow> CHR ''('' # query r @ [CHR '')'']"
  have t: "plain_tree l" "plain_tree r" "opMap (opChar v) = Some v" using "2.prems"(1) opMap_opChar by simp_all
  have "unat bc + length (query l) < 2 ^ 32" using "2.prems"(2) by simp
  note l = "2.IH"(1) [OF t(1) this]
  have op: "sanitize_loop (CHR '' '' # opChar v # cs) bc False os = sanitize_loop cs bc True (os @ [CHR '' '', opChar v])" for cs os
    using t(3) opChar_special by simp
  have r: "sanitize_loop (?rs @ rest) bc True os = sanitize_loop rest bc False (os @ ?rs)" for os
  proof (cases r)
    case (LeafNode q)
    then show ?thesis using t(2) by (simp add: sanitize_word)
  next
    case (OpNode w cs)
    have len: "unat bc + 1 + length (query r) < 2 ^ 32" using "2.prems"(2) OpNode by simp
    then have bc: "unat (bc + 1) = unat bc + 1" by (subst unat_add_nowrap) simp_all
    then have nz: "bc + 1 \<noteq> 0" by auto
    have "unat (bc + 1) + length (query r) < 2 ^ 32" using len bc by simp
    note ih = "2.IH"(2) [OF t(2) this]
    have "sanitize_loop (CHR ''('' # query r @ CHR '')'' # rest) bc True os = sanitize_loop (query r @ CHR '')'' # rest) (bc + 1) True (os @ ''('')"
      by simp
    also have "\<dots> = sanitize_loop rest bc False (os @ ''('' @ query r @ '')'')" unfolding ih using nz by simp
    finally show ?thesis using OpNode by simp
  qed
  have "sanitize_loop (query (OpNode v [l, r]) @ rest) bc b ostr = sanitize_loop (query l @ CHR '' '' # opChar v # ?rs @ rest) bc b ostr"
    by (simp del: sanitize_loop.simps)
  also have "\<dots> = sanitize_loop rest bc False (((ostr @ query l) @ [CHR '' '', opChar v]) @ ?rs)" unfolding l op r ..
  finally show ?case by (simp del: sanitize_loop.simps)
qed simp_all

section \<open>The tokens of the written form\<close>

definition ends :: "string \<Rightarrow> bool" where
  "ends rest \<longleftrightarrow> rest = [] \<or> (\<exists>cs. rest = CHR '')'' # cs) \<or> (\<exists>c cs. rest = CHR '' '' # c # cs \<and> opMap c \<noteq> None)"

lemma read_plain_word: "list_all plain q \<Longrightarrow> read_plain hint ts (q @ rest) n v = read_plain hint (ts @ q) rest n v"
  by (induction q arbitrary: ts) (auto simp: plain_def)

lemma int_size_blank:
  assumes "length (q @ [c]) < 2 ^ 31"
  shows "sint (int_size (q @ [c])) \<noteq> - (2 ^ 31)" "int_size (q @ [c]) - 1 = int_size q"
  using sint_int_size [OF assms] by (simp_all add: int_size_def)

lemma read_word:
  assumes "list_all plain q" "q \<noteq> []" "ends rest" "length (q @ rest) < 2 ^ 31"
  shows "\<exists>ts n. read_string_plain hint [] (q @ rest) v = Inr (ts, n, rest) \<and> string_resize ts n = Inr q"
proof -
  have l: "last q \<noteq> CHR '' ''" using assms(1,2) by (auto simp: list_all_iff plain_def)
  have sz: "sint (int_size q) = int (length q)" using sint_int_size [of q] assms(4) by simp
  have own: "string_resize q (int_size q) = Inr q" using string_resize_own [of q] assms(4) by simp
  note word = read_plain_word [OF assms(1), of hint "[]" rest "-1" v]
  consider "rest = []" | cs where "rest = CHR '')'' # cs" | c cs where "rest = CHR '' '' # c # cs" "opMap c \<noteq> None"
    using assms(3) by (auto simp: ends_def)
  then show ?thesis
  proof cases
    case 1
    then show ?thesis using word own by (simp add: read_string_plain_def)
  next
    case 2
    then show ?thesis using word own by (simp add: read_string_plain_def)
  next
    case 3
    then have c: "c \<noteq> backslash" "c \<noteq> CHR '' ''" "c \<noteq> CHR ''(''" "c \<noteq> CHR '')''" by auto
    have "(q @ '' '') ! (length q - 1) = last q" using assms(2) by (simp add: nth_append last_conv_nth)
    moreover have "length (q @ '' '') < 2 ^ 31" using assms(4) 3(1) by simp
    ultimately have "read_plain hint q rest (-1) v =
        Inr (if hint (q @ '' '') then (q @ '' '', c # cs, int_size q, rest) else (q, rest, -1, v))"
      using int_size_blank [of q "CHR '' ''"] 3 c l assms(2) by simp
    moreover have "string_resize (q @ '' '') (int_size q) = Inr q" using sz by (simp add: string_resize_def)
    ultimately show ?thesis using word own sz 3 assms(2) by (simp add: read_string_plain_def)
  qed
qed

text \<open>The tokenizer at a position of a string.\<close>

abbreviation at_pos :: "string \<Rightarrow> string \<Rightarrow> bool \<Rightarrow> tokenizer" where
  "at_pos q rest b \<equiv> \<lparr>m_parseString = q, m_strIt = rest, m_beforeWasTerminal = b\<rparr>"

lemma next_word:
  assumes "list_all plain w" "w \<noteq> []" "ends rest" "length (w @ rest) < 2 ^ 31"
  shows "delivers (nextToken hint) (at_pos q (w @ rest) False) [SStr w] (at_pos q rest True)"
proof -
  obtain c cs where w: "w = c # cs" using assms(2) by (cases w) auto
  have c: "plain c" using assms(1) w by simp
  obtain ts n where r: "read_string_plain hint [] (w @ rest) (w @ rest) = Inr (ts, n, rest)" "string_resize ts n = Inr w"
    using read_word [OF assms, of hint "w @ rest"] by blast
  have "readString hint (at_pos q (w @ rest) False) (token_new\<lparr>t_type := ENDOFINPUT\<rparr>) =
      Inr (string_token (at_pos q (w @ rest) False) (token_new\<lparr>t_type := ENDOFINPUT\<rparr>) w (at_pos q rest False))"
    using c r w by (simp add: readString_def plain_def token_new_def)
  then show ?thesis using c w by (simp add: nextToken_def Let_def plain_def string_token_def sym_of.simps)
qed

lemma next_op:
  assumes "opMap c = Some v"
  shows "delivers (nextToken hint) (at_pos q (CHR '' '' # c # rest) True) [SOp v] (at_pos q rest False)"
proof -
  have "c \<noteq> CHR '' ''" using assms by auto
  then show ?thesis using assms by (simp add: nextToken_def Let_def char_token_def sym_of.simps)
qed

lemma next_bracket:
  "delivers (nextToken hint) (at_pos q (CHR ''('' # rest) False) [SOpen] (at_pos q rest False)"
  "delivers (nextToken hint) (at_pos q (CHR '')'' # rest) b) [SClose] (at_pos q rest True)"
  "delivers (nextToken hint) (at_pos q [] b) [SEnd] (at_pos q [] b)"
  by (simp_all add: nextToken_def Let_def char_token_def sym_of.simps)

lemma delivers_query:
  "plain_tree t \<Longrightarrow> ends rest \<Longrightarrow> length (query t @ rest) < 2 ^ 31 \<Longrightarrow>
    delivers (nextToken hint) (at_pos q (query t @ rest) False) (syms t) (at_pos q rest True)"
proof (induction t arbitrary: rest rule: binary.induct)
  case (1 w)
  then show ?case using next_word [of w rest hint q] by simp
next
  case (2 v l r)
  let ?rs = "case r of LeafNode q \<Rightarrow> query r | _ \<Rightarrow> CHR ''('' # query r @ [CHR '')'']"
  let ?ks = "case r of LeafNode q \<Rightarrow> syms r | _ \<Rightarrow> SOpen # syms r @ [SClose]"
  have t: "plain_tree l" "plain_tree r" "opMap (opChar v) = Some v" using "2.prems"(1) opMap_opChar by simp_all
  have "ends (CHR '' '' # opChar v # ?rs @ rest)" using t(3) by (simp add: ends_def)
  note l = "2.IH"(1) [OF t(1) this]
  have ll: "length (query l @ CHR '' '' # opChar v # ?rs @ rest) < 2 ^ 31" using "2.prems"(3) by (simp split: node.splits)
  note l = l [OF ll]
  note op = next_op [OF t(3), of hint q "?rs @ rest"]
  have r: "delivers (nextToken hint) (at_pos q (?rs @ rest) False) ?ks (at_pos q rest True)"
  proof (cases r)
    case (LeafNode w)
    then show ?thesis using "2.IH"(2) [OF t(2) "2.prems"(2)] "2.prems"(3) by simp
  next
    case (OpNode w cs)
    have "ends (CHR '')'' # rest)" by (simp add: ends_def)
    note ih = "2.IH"(2) [OF t(2) this]
    have "length (query r @ CHR '')'' # rest) < 2 ^ 31" using "2.prems"(3) OpNode by simp
    note ih = ih [OF this]
    have "delivers (nextToken hint) (at_pos q (CHR ''('' # query r @ CHR '')'' # rest) False) ([SOpen] @ syms r @ [SClose]) (at_pos q rest True)"
      unfolding delivers_append using next_bracket(1) [of hint q] ih next_bracket(2) [of hint q rest True] by blast
    then show ?thesis using OpNode by simp
  qed
  have "delivers (nextToken hint) (at_pos q (query l @ CHR '' '' # opChar v # ?rs @ rest) False) (syms l @ [SOp v] @ ?ks) (at_pos q rest True)"
    unfolding delivers_append using l op r by blast
  then show ?case by simp
qed simp_all

section \<open>Properties\<close>

text \<open>C23: Parsing the written form of a tree gives the tree, whatever the hinter says: the operators associate to the left, a right operand in
  brackets stays together, and words are kept as they are. This holds for trees whose operations have two operands each and one of the four
  operators, whose leaves are words, not empty and without blanks, brackets, backslashes, quotes, question marks and operator characters,
  and whose written form has fewer than $2^{31}$ characters.\<close>

theorem query_roundtrip:
  assumes "plain_tree t" "length (query t) < 2 ^ 31"
  shows "parseQuery hint (query t) = Some (Inr (Some t))"
proof -
  have "sanitize (query t) = query t"
    using sanitize_query [OF assms(1), of 0 "[]" False "[]"] assms(2) by (simp add: sanitize_def)
  then have i: "initTokenizer (query t) = at_pos (query t) (query t @ []) False" by (simp add: initTokenizer_def)
  have "ends []" by (simp add: ends_def)
  have len: "length (query t @ []) < 2 ^ 31" using assms(2) by simp
  have d: "delivers (nextToken hint) (at_pos (query t) (query t @ []) False) (syms t @ [SEnd]) (at_pos (query t) [] True)"
    unfolding delivers_append using delivers_query [OF assms(1) \<open>ends []\<close> len] next_bracket(3) by blast
  have "hasNextToken (at_pos (query t) (query t @ []) False)" using query_nonempty [OF assms(1)] by (simp add: hasNextToken_def)
  then show ?thesis unfolding parseQuery_def i by (rule parse_tree [OF plain_tree_binary [OF assms(1)] _ d])
qed

theorem query_roundtrip_witness:
  "parseQuery (\<lambda>_. True) ''ab +c -(d /e ^f)'' = Some (Inr (Some
    (OpNode OT_DIFF [OpNode OT_UNITE [LeafNode ''ab'', LeafNode ''c''],
      OpNode OT_SYM_DIFF [OpNode OT_INTERSECT [LeafNode ''d'', LeafNode ''e''], LeafNode ''f'']])))"
proof -
  let ?t = "OpNode OT_DIFF [OpNode OT_UNITE [LeafNode ''ab'', LeafNode ''c''],
      OpNode OT_SYM_DIFF [OpNode OT_INTERSECT [LeafNode ''d'', LeafNode ''e''], LeafNode ''f'']]"
  have q: "query ?t = ''ab +c -(d /e ^f)''" by code_simp
  have "plain_tree ?t" by code_simp
  from query_roundtrip [OF this, of "\<lambda>_. True"] show ?thesis unfolding q by simp
qed

text \<open>C24: Parsing ends for every query and every hinter. It never takes from an empty stack: the result is no tree or a
  tree in which every operation has two operands, or a failure. There are two failures: the read behind the end of a query whose sanitized form
  ends with a question mark, and, only when the sanitized form has at least $2^{31}$ characters, a size that does not fit into the \<open>int\<close> of the
  tokenizer.\<close>

theorem parseQuery_ends:
  shows "\<exists>r. parseQuery hint q = Some r \<and>
    (case r of Inl e \<Rightarrow> e = UndefinedBehaviour \<and> sanitize q \<noteq> [] \<and> last (sanitize q) = CHR ''?'' \<or> too_long (sanitize q) e
     | Inr None \<Rightarrow> True | Inr (Some t) \<Rightarrow> binary t)"
  unfolding parseQuery_def
  by (rule parse_ends [OF nextToken_progress]) (simp add: tok_ok_def initTokenizer_def)

text \<open>C25: Sanitizing closes what it has to and drops what it has to: its result has balanced brackets, counted without those
  behind a backslash, and sanitizing it again changes nothing.\<close>

theorem sanitize_is_normal:
  assumes "length q < 2 ^ 32"
  shows "open_brackets (sanitize q) 0 = Some 0 \<and> sanitize (sanitize q) = sanitize q"
  using sanitize_normal [OF assms] by simp

theorem sanitize_is_normal_witness:
  "open_brackets (sanitize ''a)+-(b'') 0 = Some 0 \<and> sanitize ''a)+-(b'' = ''a+(b)''"
  using sanitize_is_normal [of "''a)+-(b''"] by (simp add: sanitize_def opMap_def)

text \<open>A query that ends with a question mark as a word of its own makes the tokenizer read the character behind the end of
  the query.\<close>

theorem question_mark_reads_behind_end:
  assumes "plain_tree t" "length (query t @ [CHR '' '', opChar v, CHR ''?'']) < 2 ^ 31" "v \<in> {OT_UNITE, OT_DIFF, OT_INTERSECT, OT_SYM_DIFF}"
  shows "parseQuery hint (query t @ [CHR '' '', opChar v, CHR ''?'']) = Some (Inl UndefinedBehaviour)"
proof -
  let ?q = "query t @ CHR '' '' # opChar v # ''?''"
  have v: "opMap (opChar v) = Some v" using opMap_opChar [OF assms(3)] .
  have "sanitize_loop ?q 0 False [] = (0, ?q)"
    using sanitize_query [OF assms(1), of 0 "CHR '' '' # opChar v # ''?''" False "[]"] assms(2) v opChar_special by simp
  then have i: "initTokenizer ?q = at_pos ?q ?q False" by (simp add: initTokenizer_def sanitize_def)
  have "ends (CHR '' '' # opChar v # ''?'')" using v by (simp add: ends_def)
  note d = delivers_query [OF assms(1) this assms(2), of hint ?q] and op = next_op [OF v, of hint ?q "''?''"]
  have dq: "delivers (nextToken hint) (at_pos ?q ?q False) (syms t @ [SOp v]) (at_pos ?q ''?'' False)"
    unfolding delivers_append using d op by blast
  have e: "nextToken hint (at_pos ?q ''?'' False) = Inl UndefinedBehaviour" by (simp add: nextToken_def Let_def readString_def)
  have h: "hasNextToken (at_pos ?q ?q False)" by (simp add: hasNextToken_def)
  have "parseQuery hint ?q = Some (Inl UndefinedBehaviour)"
    unfolding parseQuery_def i by (rule parse_error [where has = hasNextToken, OF plain_tree_binary [OF assms(1)] h dq e])
  then show ?thesis by simp
qed

theorem question_mark_reads_behind_end_witness:
  "parseQuery (\<lambda>_. False) ''a +?'' = Some (Inl UndefinedBehaviour)"
  using question_mark_reads_behind_end [of "LeafNode ''a''" OT_UNITE "\<lambda>_. False"] by (simp add: plain_def opMap_def opChar_def)

end
