(* ===== verification/Spec2Isabelle.thy ===== *)
theory Spec2Isabelle
  imports PackUnpack UtilMath Storage Adapter AdapterStream AdapterProps AdapterCopy CompactUintArrayCreate UnionFindProps RLEStream ItemIndexFacade ItemIndexRleFacts EliasFanoFacts MRSWLock OpTreeQuery
begin

text \<open>
  A model of the core of sserialize, a C++ library of memory mapped data structures (\<open>src/src\<close>,
  \<open>src/include/sserialize\<close>): bytes and their encodings, the adapter through which all data structures read and write
  bytes, packed arrays, bit sets and the item indices, which are the sorted lists of ids that every query of the library
  combines with set operations.

  How the parts interact. A \<open>UByteArrayAdapter\<close> is a window (\<open>m_offSet\<close>, \<open>m_len\<close>) with a read and a write position on a
  shared byte storage. Adapters are copied freely and share their storage, so writes through one are seen through the
  others. The containers hold adapters: \<open>CompactUintArray\<close> packs integers of a fixed number of bits, \<open>DynamicBitSet\<close>
  stores one bit for each number, \<open>RLEStream\<close> and the delta encoded item index use the variable length integers. An item index is made
  from a list or a bit set, is found again in its bytes, answers \<open>at\<close> and \<open>find\<close>, can be put into a bit set or an array,
  and is combined with others by intersection, union, difference and symmetric difference. \<open>ItemIndex\<close> tests sizes, combines many
  indices along a balanced tree and calls the implementation. Queries are strings that the parser of \<open>OpTree\<close> turns into a tree of set operations.

  Theories and code. Every definition is named after the function it models; the prefix says the class.
    \<^item> \<open>Prelude\<close>: the result type (\<open>Inl\<close> an exception, \<open>Inr\<close> a value), its bind, slices and overwriting of lists, word lemmas.
    \<^item> \<open>PackUnpack\<close> (\<open>storage/pack_unpack_functions\<close>): the fixed width and variable length integer codes, among them the
      comparison trees of the 32 and 64 bit encoders, shown equal to the generic loop.
    \<^item> \<open>UtilMath\<close> (\<open>algorithm/utilmath.h\<close> and others): masks, the highest set bit, 128 bit multiply and divide, checked narrowing.
    \<^item> \<open>Storage\<close> (\<open>storage/UByteArrayAdapterPrivates\<close>): the storages in memory. A \<open>priv\<close> is its kind (array, vector, deque,
      empty) and its bytes.
    \<^item> \<open>Adapter\<close>, \<open>AdapterStream\<close>, \<open>AdapterCopy\<close>, \<open>AdapterProps\<close> (\<open>storage/UByteArrayAdapter\<close>): the record \<open>uba\<close> has the members
      of the class; \<open>m_priv\<close> is an address, and \<open>heap\<close> gives the storage at each address, so that aliasing is
      explicit. \<open>view\<close> is the list of bytes in the window; every accessor is shown to be a slice of it or to overwrite one.
    \<^item> \<open>CompactUintArray\<close>, \<open>CompactUintArrayProps\<close>, \<open>CompactUintArrayCreate\<close> (\<open>containers/CompactUintArray\<close>): the packed array in
      its seven layouts, refined to a list, with creation and search.
    \<^item> \<open>UnionFind\<close>, \<open>UnionFindProps\<close> (\<open>containers/UnionFind.h\<close>): union by rank with path compression, refined to an
      equivalence relation. Finding the root is fuelled by \<open>partial_function\<close>; on a valid forest it returns.
    \<^item> \<open>RLEStream\<close> (\<open>containers/RLEStream\<close>): the run length and difference code with its writer.
    \<^item> \<open>DynamicBitSet\<close>, \<open>DynamicBitSetProps\<close>, \<open>DynamicBitSetIter\<close> (\<open>containers/DynamicBitSet\<close>): the bit set, refined to a set of
      numbers, its operators, its iterator and its output.
    \<^item> \<open>MRSWLock\<close> (\<open>mt/MultiReaderSingleWriterLock\<close>): lock and guards; runs of the relation \<open>lock_step\<close> are the interleavings of
      the calls of all threads. The mutex knows the threads that own it; \<open>lock_reachable_by\<close> are the states when each guard has its own thread.
    \<^item> \<open>ItemIndexOps\<close> (\<open>containers/ItemIndexPrivates/ItemIndexPrivate\<close>): what all kinds of index share; an index is seen
      through \<open>size\<close> and \<open>at\<close> (\<open>id_source\<close>). The locale \<open>id_index\<close> states the contract; each kind interprets it.
    \<^item> \<open>ItemIndexNative\<close>, and \<open>ItemIndexDE\<close>, \<open>ItemIndexDEProps\<close>, \<open>ItemIndexDEOps\<close>, \<open>ItemIndexDECreate\<close>
      (\<open>ItemIndexPrivateNative\<close>, \<open>ItemIndexPrivateDE\<close>): the plain and the delta encoded index.
    \<^item> \<open>Loops\<close>: loops whose end has to be proved; one that does not end is \<open>UndefinedBehaviour\<close>.
    \<^item> \<open>ItemIndexRle\<close>, \<open>ItemIndexRleProps\<close>, \<open>ItemIndexRleRead\<close>, \<open>ItemIndexRleCreate\<close>, \<open>ItemIndexRleOps\<close>, \<open>ItemIndexRleMulti\<close>,
      \<open>ItemIndexRleMany\<close>, \<open>ItemIndexRleUniteK\<close>, \<open>ItemIndexRleFacts\<close> (\<open>ItemIndexPrivateRleDE\<close>): the index whose differences are run
      length encoded. \<open>rld_inv\<close> relates an index to its ids through a list of words; the set operations move over whole runs
      and are shown to give the merge, and the operations over many indices follow the states of \<open>IndexStates\<close>.
    \<^item> \<open>UnaryCode\<close> (\<open>iterator/UnaryCodeIterator\<close>) and \<open>EliasFano\<close>, \<open>EliasFanoProps\<close>, \<open>EliasFanoCreate\<close>, \<open>EliasFanoOps\<close>,
      \<open>EliasFanoFacts\<close> (\<open>ItemIndexPrivateEliasFano\<close>): unary codes, related to lists of bits, and the index that splits ids into packed lower
      bits and unary coded upper bits. \<open>ef_inv\<close> relates an index, its cache and its iterator to the ids. The number of lower bits, which the code
      computes in floating point, is the parameter \<open>nl\<close>; \<open>nl_ok\<close> says that it is below 32.
    \<^item> \<open>ItemIndex\<close>, \<open>ItemIndexProps\<close>, \<open>ItemIndexSets\<close>, \<open>ItemIndexFacade\<close> (\<open>containers/ItemIndex\<close> and the kinds over containers in memory):
      the class all users work with. \<open>item_index\<close> has a constructor for each of seven kinds: empty, native, delta encoded, vector, deque, range and
      bounded array. The run length encoded and Elias-Fano kinds are modelled in their own theories and are not called through this class; the
      operations of other kinds that the filtered intersections call are the parameters \<open>wah\<close> and \<open>rle\<close>. \<open>ix_rep\<close> relates an index to its ids and
      the locale \<open>index_op\<close> states what an operation promises, from which the reductions follow for any mix of kinds.
    \<^item> \<open>OpTree\<close>, \<open>OpTreeProps\<close>, \<open>OpTreeQuery\<close> (\<open>search/OpTree\<close>): the parser of set operation queries with its tokenizer,
      sanitizer and hinter. The loop is a \<open>partial_function\<close> and is shown to end; what the hinter answers is a parameter. Sizes of
      strings are converted to \<open>int\<close> as in the code, so the theorems say what changes from $2^{31}$ characters on.
  What the lemmas show. Round trips for each code and each container; agreement of an optimised routine with a simple one (comparison
  trees and loops, bit tricks and counting, pointer and iterator algorithms, contiguous and block copies); refinement of the
  stateful containers to lists, sets and relations; invariants over arbitrary sequences of window operations and lock
  calls; what is thrown, and that nothing outside a window is touched, but for the positions just below $2^{64}$, where the range check wraps around and
  \<open>window_read\<close> and \<open>window_write\<close> say what happens. Where the code is wrong at a boundary the theorem's hypothesis
  states the boundary, or a theorem states what happens behind it.

  Conventions. Integers keep their width (\<open>u8\<close> to \<open>u64\<close>, \<open>s32\<close>, \<open>s64\<close>) and wrap as in C++; a signed overflow, a shift that is
  too wide or a division by zero is \<open>UndefinedBehaviour\<close> (among them the negation of the least number in the signed codes), an access outside an object is \<open>MemFault\<close>. Sizes of lists are natural
  numbers below \<open>max_size = 2 ^ 63 - 1\<close>, which the C++ containers guarantee. An operation that throws gives only the exception: the state a
  caller would see after catching it is not modelled. Assertions that are compiled out by default are left out. Functions with fuel
  are collectors over iterators (\<open>it_collect\<close> with eight rounds for each byte and one more, \<open>nit_collect\<close> with one round for each id
  and one more); the theorems show that this fuel suffices.

  Not modelled, and why.
    \<^item> Files, memory mapping and compression of storage (operating system, LZO); the build option
      \<open>SSERIALIZE_UBA_NON_CONTIGUOUS\<close>; the branch of \<open>CompactUintArray\<close> for compilers without a 128 bit integer type.
    \<^item> Floating point: the double encodings of the adapter, the geometry and everything built on it, the regression line of
      \<open>ItemIndexPrivateSimple\<close> and \<open>SortedOffsetIndex\<close>.
    \<^item> \<open>std::shared_mutex\<close> is modelled by its documented behaviour, without fairness; data races on the members of a guard that
      several threads use at once are not modelled.
    \<^item> The remaining index kinds, the static containers, tries, completers and query trees are listed with their reason in the
      manifest; the FoR and WAH kinds, the static array and the caches would be next.
\<close>

end
